(* ===== verification/Prelude.thy ===== *)
theory Prelude
  imports Main "HOL-Library.Word"
begin

text \<open>
  Shared vocabulary of the development.

  \<^item> \<open>outcome\<close>: what a Rust call can end in. \<open>Ok\<close> and \<open>Err\<close> are the two
    constructors of \<^verbatim>\<open>Result\<close> (a call without error type only uses \<open>Ok\<close>);
    \<open>Panic\<close> is a panic: \<^verbatim>\<open>fatal_panic!\<close>, an index out of the bounds of an array, or an
    arithmetic overflow under \<^verbatim>\<open>overflow-checks\<close> (the dev profile, which the workspace
    manifest leaves at its default); \<open>UB\<close> is undefined behaviour: a raw pointer access
    outside of the allocation or a read of memory that was never written.
  \<^item> \<open>uadd\<close>, \<open>usub\<close>, \<open>umul\<close>: checked arithmetic on \<^verbatim>\<open>usize\<close> (64 bit), which is
    modelled by \<open>nat\<close> together with the bound \<open>usize_lim\<close>.
  \<^item> \<open>raw_read\<close>, \<open>raw_write\<close>: accesses through a raw pointer to a block of
    possibly uninitialised cells (\<^verbatim>\<open>MaybeUninit\<close>: \<open>None\<close> is a cell never written).
  \<^item> lemmas on lists and residues that the ring buffers and the free lists share.
\<close>

section \<open>Outcomes of calls\<close>

datatype ('e, 'a) outcome = Ok 'a | Err 'e | Panic | UB

primrec obind :: "('e, 'a) outcome \<Rightarrow> ('a \<Rightarrow> ('e, 'b) outcome) \<Rightarrow> ('e, 'b) outcome" where
  "obind (Ok x) f = f x"
| "obind (Err e) f = Err e"
| "obind Panic f = Panic"
| "obind UB f = UB"

primrec omap :: "('a \<Rightarrow> 'b) \<Rightarrow> ('e, 'a) outcome \<Rightarrow> ('e, 'b) outcome" where
  "omap f (Ok x) = Ok (f x)"
| "omap f (Err e) = Err e"
| "omap f Panic = Panic"
| "omap f UB = UB"

text \<open>\<open>map_err\<close> is \<^verbatim>\<open>Result::map_err\<close>; faults pass through it.\<close>

primrec map_err :: "('e \<Rightarrow> 'f) \<Rightarrow> ('e, 'a) outcome \<Rightarrow> ('f, 'a) outcome" where
  "map_err f (Ok x) = Ok x"
| "map_err f (Err e) = Err (f e)"
| "map_err f Panic = Panic"
| "map_err f UB = UB"

text \<open>\<^verbatim>\<open>fatal_panic!\<close> on the error of a call, and \<^verbatim>\<open>unwrap\<close>.\<close>

definition panic_on_err :: "('f, 'a) outcome \<Rightarrow> ('e, 'a) outcome" where
  "panic_on_err r = (case r of Ok x \<Rightarrow> Ok x | Err e \<Rightarrow> Panic | Panic \<Rightarrow> Panic | UB \<Rightarrow> UB)"

primrec is_Ok :: "('e, 'a) outcome \<Rightarrow> bool" where
  "is_Ok (Ok x) = True"
| "is_Ok (Err e) = False"
| "is_Ok Panic = False"
| "is_Ok UB = False"

primrec the_Ok :: "('e, 'a) outcome \<Rightarrow> 'a option" where
  "the_Ok (Ok x) = Some x"
| "the_Ok (Err e) = None"
| "the_Ok Panic = None"
| "the_Ok UB = None"

section \<open>Machine integers and raw memory\<close>

type_synonym usize = nat
type_synonym u8 = "8 word"
type_synonym u32 = "32 word"
type_synonym u64 = "64 word"

definition usize_lim :: nat where
  "usize_lim = 2 ^ 64"

definition uadd :: "nat \<Rightarrow> nat \<Rightarrow> ('e, nat) outcome" where
  "uadd a b = (if a + b < usize_lim then Ok (a + b) else Panic)"

definition usub :: "nat \<Rightarrow> nat \<Rightarrow> ('e, nat) outcome" where
  "usub a b = (if b \<le> a then Ok (a - b) else Panic)"

definition umul :: "nat \<Rightarrow> nat \<Rightarrow> ('e, nat) outcome" where
  "umul a b = (if a * b < usize_lim then Ok (a * b) else Panic)"

definition umod :: "nat \<Rightarrow> nat \<Rightarrow> ('e, nat) outcome" where
  "umod a b = (if b = 0 then Panic else Ok (a mod b))"

definition udiv :: "nat \<Rightarrow> nat \<Rightarrow> ('e, nat) outcome" where
  "udiv a b = (if b = 0 then Panic else Ok (a div b))"

text \<open>Checked \<^verbatim>\<open>u32\<close> addition.\<close>

definition add_u32 :: "u32 \<Rightarrow> u32 \<Rightarrow> ('e, u32) outcome" where
  "add_u32 a b = (if unat a + unat b < 2 ^ 32 then Ok (a + b) else Panic)"

text \<open>A raw read yields undefined behaviour outside of the block and on a cell that was
  never written; a raw write outside of the block is undefined behaviour.\<close>

definition raw_read :: "'a option list \<Rightarrow> nat \<Rightarrow> ('e, 'a) outcome" where
  "raw_read d i = (if i < length d then (case d ! i of Some x \<Rightarrow> Ok x | None \<Rightarrow> UB) else UB)"

definition raw_write :: "'a option list \<Rightarrow> nat \<Rightarrow> 'a option \<Rightarrow> ('e, 'a option list) outcome" where
  "raw_write d i v = (if i < length d then Ok (d[i := v]) else UB)"

section \<open>Shared lemmas\<close>

named_theorems outcome_defs \<open>definitions of checked arithmetic and raw memory accesses\<close>

lemmas [outcome_defs] = uadd_def usub_def umul_def umod_def udiv_def add_u32_def raw_read_def raw_write_def

lemma obind_eq_Ok_iff: "obind m f = Ok y \<longleftrightarrow> (\<exists>x. m = Ok x \<and> f x = Ok y)"
  by (cases m) auto

lemma omap_eq_Ok_iff: "omap f m = Ok y \<longleftrightarrow> (\<exists>x. m = Ok x \<and> y = f x)"
  by (cases m) auto

lemma obind_assoc: "obind (obind m f) g = obind m (\<lambda>x. obind (f x) g)"
  by (cases m) auto

lemma obind_Ok_right [simp]: "obind m Ok = m"
  by (cases m) auto

lemma is_Ok_iff: "is_Ok m \<longleftrightarrow> (\<exists>x. m = Ok x)"
  by (cases m) auto

lemma uadd_Ok [simp]: "a + b < usize_lim \<Longrightarrow> uadd a b = Ok (a + b)"
  by (simp add: uadd_def)

lemma usub_Ok [simp]: "b \<le> a \<Longrightarrow> usub a b = Ok (a - b)"
  by (simp add: usub_def)

lemma umod_Ok [simp]: "0 < b \<Longrightarrow> umod a b = Ok (a mod b)"
  by (simp add: umod_def)

lemma udiv_Ok [simp]: "0 < b \<Longrightarrow> udiv a b = Ok (a div b)"
  by (simp add: udiv_def)

lemma umul_Ok [simp]: "a * b < usize_lim \<Longrightarrow> umul a b = Ok (a * b)"
  by (simp add: umul_def)

lemma uadd_eq_Ok_iff: "uadd a b = Ok c \<longleftrightarrow> c = a + b \<and> a + b < usize_lim"
  by (auto simp: uadd_def)

lemma usub_eq_Ok_iff: "usub a b = Ok c \<longleftrightarrow> c = a - b \<and> b \<le> a"
  by (auto simp: usub_def)

lemma umul_eq_Ok_iff: "umul a b = Ok c \<longleftrightarrow> c = a * b \<and> a * b < usize_lim"
  by (auto simp: umul_def)

lemma raw_read_Some [simp]: "i < length d \<Longrightarrow> d ! i = Some x \<Longrightarrow> raw_read d i = Ok x"
  by (simp add: raw_read_def)

lemma raw_read_eq_Ok_iff: "raw_read d i = Ok x \<longleftrightarrow> i < length d \<and> d ! i = Some x"
  by (auto simp: raw_read_def split: option.splits)

lemma raw_write_Ok [simp]: "i < length d \<Longrightarrow> raw_write d i v = Ok (d[i := v])"
  by (simp add: raw_write_def)

lemma raw_write_eq_Ok_iff: "raw_write d i v = Ok d' \<longleftrightarrow> i < length d \<and> d' = d[i := v]"
  by (auto simp: raw_write_def)

lemma raw_read_after_write: "i < length d \<Longrightarrow> obind (raw_write d i (Some x)) (\<lambda>d'. raw_read d' i) = Ok x"
  by (simp add: raw_read_def)

lemmas outcome_iffs = obind_eq_Ok_iff omap_eq_Ok_iff uadd_eq_Ok_iff usub_eq_Ok_iff umul_eq_Ok_iff
  raw_read_eq_Ok_iff raw_write_eq_Ok_iff

text \<open>Two positions of a ring buffer that lie less than its length apart use different cells.\<close>

lemma mod_inj_window:
  fixes i j c :: nat
  assumes "i mod c = j mod c" and "i < j + c" and "j < i + c"
  shows "i = j"
proof -
  have le: "i = j" if "i mod c = j mod c" "i \<le> j" "j < i + c" for i j :: nat
  proof -
    from that(1,2) have "c dvd j - i" by (metis mod_eq_dvd_iff_nat)
    moreover have "j - i < c" using that by simp
    ultimately have "j - i = 0" by (meson dvd_imp_le not_le zero_less_iff_neq_zero)
    with that(2) show ?thesis by simp
  qed
  show ?thesis using le [of i j] le [of j i] assms by fastforce
qed

lemma mod_neq_window:
  fixes i j c :: nat
  assumes "i < j" and "j < i + c"
  shows "i mod c \<noteq> j mod c"
  using mod_inj_window [of i c j] assms by auto

lemma upt_window_Suc: "r < w \<Longrightarrow> [r ..< w] = r # [Suc r ..< w]"
  by (rule upt_conv_Cons)

lemma list_update_at_length: "n = length xs \<Longrightarrow> (xs @ ys)[n := v] = xs @ ys[0 := v]"
  by (simp add: list_update_append)

lemma hd_list_update_0: "xs \<noteq> [] \<Longrightarrow> hd (xs[0 := v]) = v"
  by (cases xs) auto

lemma map_the_update_notin:
  assumes "\<And>x. x \<in> set xs \<Longrightarrow> f x \<noteq> i"
  shows "map (\<lambda>x. g (d[i := v] ! f x)) xs = map (\<lambda>x. g (d ! f x)) xs"
proof (rule map_cong [OF refl])
  fix x assume "x \<in> set xs"
  with assms have "f x \<noteq> i" by blast
  then show "g (d[i := v] ! f x) = g (d ! f x)" by simp
qed

end
