(* ===== verification/ByteString.thy ===== *)
theory ByteString
  imports Prelude
begin

text \<open>
  \<^verbatim>\<open>elkodon_bb/container/src/byte_string.rs\<close>: the string with compile time capacity that
  every name, path and message of the system is stored in.

  The state is the array \<open>data\<close> of possibly uninitialised bytes, the length \<open>len\<close>
  and the terminator byte that follows the array. \<open>cap\<close> is the const generic
  \<^verbatim>\<open>CAPACITY\<close>. \<^verbatim>\<open>self.data[i]\<close> panics outside of the array, even where only its
  address is taken; pointer copies outside of the array are undefined behaviour. Operations on
  \<^verbatim>\<open>&mut self\<close> return the new state with their result.

  The lemmas relate each operation to the list operation on \<open>content\<close> (the slice
  \<^verbatim>\<open>as_bytes\<close>) and show the invariant \<open>bs_wf\<close>: the bytes below \<open>len\<close> are initialised
  and the string is null-terminated.
\<close>

section \<open>State and operations\<close>

datatype bs_error = InsertWouldExceedCapacity

record byte_string =
  cap :: usize
  len :: usize
  data :: "u8 option list"
  terminator :: u8

text \<open>\<^verbatim>\<open>strlen\<close> over the bytes behind the pointer: undefined behaviour when the block ends
  before a null byte is found.\<close>

fun strlen_from :: "nat \<Rightarrow> u8 option list \<Rightarrow> (bs_error, usize) outcome" where
  "strlen_from i [] = UB"
| "strlen_from i (None # bs) = UB"
| "strlen_from i (Some b # bs) = (if b = 0 then Ok i else strlen_from (Suc i) bs)"

definition strlen :: "u8 option list \<Rightarrow> (bs_error, usize) outcome" where
  "strlen ptr = strlen_from 0 ptr"

definition data_write :: "byte_string \<Rightarrow> usize \<Rightarrow> u8 \<Rightarrow> ('e, byte_string) outcome" where
  "data_write s i b = (if i < cap s then Ok (s\<lparr>data := (data s)[i := Some b]\<rparr>) else Panic)"

definition data_read :: "byte_string \<Rightarrow> usize \<Rightarrow> ('e, u8) outcome" where
  "data_read s i = (if i < cap s then raw_read (data s) i else Panic)"

text \<open>\<^verbatim>\<open>std::ptr::copy\<close> inside of the array: \<open>n\<close> cells from \<open>src\<close> to \<open>dst\<close>,
  overlapping allowed.\<close>

definition ptr_copy :: "'a list \<Rightarrow> usize \<Rightarrow> usize \<Rightarrow> usize \<Rightarrow> ('e, 'a list) outcome" where
  "ptr_copy d src dst n =
     (if src + n \<le> length d \<and> dst + n \<le> length d
      then Ok (take dst d @ take n (drop src d) @ drop (dst + n) d) else UB)"

definition bs_new :: "usize \<Rightarrow> ('e, byte_string) outcome" where
  "bs_new CAPACITY =
     data_write \<lparr>cap = CAPACITY, len = 0, data = replicate CAPACITY None, terminator = 0\<rparr> 0 0"

definition new_unchecked :: "usize \<Rightarrow> u8 list \<Rightarrow> ('e, byte_string) outcome" where
  "new_unchecked CAPACITY bytes =
     (if CAPACITY < length bytes then Panic
      else obind (bs_new CAPACITY) (\<lambda>s.
        let s1 = s\<lparr>len := length bytes, data := map Some bytes @ drop (length bytes) (data s)\<rparr>
        in if length bytes < CAPACITY
           then Ok (s1\<lparr>data := (data s1)[length bytes := Some 0]\<rparr>)
           else Ok (s1\<lparr>terminator := 0\<rparr>)))"

definition as_bytes :: "byte_string \<Rightarrow> ('e, u8 list) outcome" where
  "as_bytes s = (if 0 < cap s then
     (if len s \<le> cap s \<and> None \<notin> set (take (len s) (data s))
      then Ok (map the (take (len s) (data s))) else UB) else Panic)"

definition as_bytes_with_nul :: "byte_string \<Rightarrow> ('e, u8 list) outcome" where
  "as_bytes_with_nul s = (if 0 < cap s then
     (let cells = take (len s + 1) (data s @ [Some (terminator s)])
      in if len s \<le> cap s \<and> None \<notin> set cells then Ok (map the cells) else UB) else Panic)"

definition bs_clear :: "byte_string \<Rightarrow> ('e, byte_string) outcome" where
  "bs_clear s = data_write (s\<lparr>len := 0\<rparr>) 0 0"

definition bs_is_empty :: "byte_string \<Rightarrow> bool" where
  "bs_is_empty s \<longleftrightarrow> len s = 0"

definition bs_is_full :: "byte_string \<Rightarrow> bool" where
  "bs_is_full s \<longleftrightarrow> len s = cap s"

text \<open>The loop \<^verbatim>\<open>for (i, byte) in bytes.iter().enumerate()\<close> of \<^verbatim>\<open>insert_bytes_unchecked\<close>.\<close>

fun write_bytes :: "byte_string \<Rightarrow> usize \<Rightarrow> u8 list \<Rightarrow> ('e, byte_string) outcome" where
  "write_bytes s i [] = Ok s"
| "write_bytes s i (b # bs) = obind (data_write s i b) (\<lambda>s'. write_bytes s' (Suc i) bs)"

definition insert_bytes_unchecked :: "byte_string \<Rightarrow> usize \<Rightarrow> u8 list \<Rightarrow> ('e, byte_string) outcome" where
  "insert_bytes_unchecked s idx bytes =
     (if cap s \<le> idx then Panic
      else obind (usub (len s) idx) (\<lambda>n.
        obind (ptr_copy (data s) idx (idx + length bytes) n) (\<lambda>d.
        obind (write_bytes (s\<lparr>data := d\<rparr>) idx bytes) (\<lambda>s1.
        obind (uadd (len s1) (length bytes)) (\<lambda>l.
          let s2 = s1\<lparr>len := l\<rparr>
          in if l < cap s2 then data_write s2 l 0 else Ok s2)))))"

definition insert_bytes :: "byte_string \<Rightarrow> usize \<Rightarrow> u8 list \<Rightarrow> (bs_error, byte_string) outcome" where
  "insert_bytes s idx bytes =
     (if len s < idx then Panic
      else obind (uadd (len s) (length bytes)) (\<lambda>l.
        if cap s < l then Err InsertWouldExceedCapacity
        else insert_bytes_unchecked s idx bytes))"

definition bs_insert :: "byte_string \<Rightarrow> usize \<Rightarrow> u8 \<Rightarrow> (bs_error, byte_string) outcome" where
  "bs_insert s idx byte = insert_bytes s idx [byte]"

definition push_bytes :: "byte_string \<Rightarrow> u8 list \<Rightarrow> (bs_error, byte_string) outcome" where
  "push_bytes s bytes = insert_bytes s (len s) bytes"

definition bs_push :: "byte_string \<Rightarrow> u8 \<Rightarrow> (bs_error, byte_string) outcome" where
  "bs_push s byte = bs_insert s (len s) byte"

definition from_bytes :: "usize \<Rightarrow> u8 list \<Rightarrow> (bs_error, byte_string) outcome" where
  "from_bytes CAPACITY bytes =
     obind (bs_new CAPACITY) (\<lambda>s. map_err (\<lambda>_. InsertWouldExceedCapacity) (push_bytes s bytes))"

text \<open>\<^verbatim>\<open>From<&[u8; N]>\<close>: the \<^verbatim>\<open>unwrap\<close> turns an error into a panic.\<close>

definition from_array :: "usize \<Rightarrow> u8 list \<Rightarrow> (bs_error, byte_string) outcome" where
  "from_array CAPACITY bytes =
     (if CAPACITY < length bytes then Panic
      else obind (bs_new CAPACITY) (\<lambda>s.
        case push_bytes s bytes of Err e \<Rightarrow> Panic | r \<Rightarrow> r))"

definition from_c_str :: "usize \<Rightarrow> u8 option list \<Rightarrow> (bs_error, byte_string) outcome" where
  "from_c_str CAPACITY ptr =
     obind (strlen ptr) (\<lambda>n.
       if CAPACITY < n then Err InsertWouldExceedCapacity
       else obind (bs_new CAPACITY) (\<lambda>s.
         Ok (s\<lparr>data := take n ptr @ drop n (data s), len := n\<rparr>)))"

definition remove_range_impl :: "byte_string \<Rightarrow> usize \<Rightarrow> usize \<Rightarrow> ('e, byte_string) outcome" where
  "remove_range_impl s idx n =
     obind (uadd idx n) (\<lambda>e.
       if cap s \<le> e \<or> cap s \<le> idx then Panic
       else obind (usub (len s) e) (\<lambda>m.
         obind (ptr_copy (data s) e idx m) (\<lambda>d.
         obind (usub (len s) n) (\<lambda>l.
           data_write (s\<lparr>data := d, len := l\<rparr>) l 0))))"

definition bs_remove :: "byte_string \<Rightarrow> usize \<Rightarrow> ('e, byte_string \<times> u8) outcome" where
  "bs_remove s idx =
     (if len s < idx then Panic
      else obind (data_read s idx) (\<lambda>b.
        obind (remove_range_impl s idx 1) (\<lambda>s'. Ok (s', b))))"

definition remove_range :: "byte_string \<Rightarrow> usize \<Rightarrow> usize \<Rightarrow> ('e, byte_string) outcome" where
  "remove_range s idx n =
     obind (uadd idx n) (\<lambda>e. if len s < e then Panic else remove_range_impl s idx n)"

definition bs_pop :: "byte_string \<Rightarrow> ('e, byte_string \<times> u8 option) outcome" where
  "bs_pop s =
     (if bs_is_empty s then Ok (s, None)
      else omap (\<lambda>(s', b). (s', Some b)) (bs_remove s (len s - 1)))"

text \<open>The loop of \<^verbatim>\<open>retain_impl\<close> visits the indices \<^verbatim>\<open>len - 1\<close> down to \<^verbatim>\<open>0\<close>; the argument is
  the number of indices left.\<close>

primrec retain_loop :: "(u8 \<Rightarrow> bool) \<Rightarrow> nat \<Rightarrow> byte_string \<Rightarrow> ('e, byte_string) outcome" where
  "retain_loop f 0 s = Ok s"
| "retain_loop f (Suc idx) s =
     obind (data_read s idx) (\<lambda>b.
       if f b then obind (bs_remove s idx) (\<lambda>(s', _). retain_loop f idx s')
       else retain_loop f idx s)"

definition retain :: "(u8 \<Rightarrow> bool) \<Rightarrow> byte_string \<Rightarrow> ('e, byte_string) outcome" where
  "retain f s = retain_loop f (len s) s"

text \<open>The inner loop of \<^verbatim>\<open>find\<close> and \<^verbatim>\<open>rfind\<close>: do the bytes occur at position \<open>i\<close>?\<close>

fun match_at :: "byte_string \<Rightarrow> usize \<Rightarrow> u8 list \<Rightarrow> ('e, bool) outcome" where
  "match_at s i [] = Ok True"
| "match_at s i (b # bs) =
     obind (data_read s i) (\<lambda>c. if c \<noteq> b then Ok False else match_at s (Suc i) bs)"

fun find_in :: "byte_string \<Rightarrow> u8 list \<Rightarrow> usize list \<Rightarrow> ('e, usize option) outcome" where
  "find_in s bytes [] = Ok None"
| "find_in s bytes (i # is) =
     obind (match_at s i bytes) (\<lambda>m. if m then Ok (Some i) else find_in s bytes is)"

definition find :: "byte_string \<Rightarrow> u8 list \<Rightarrow> ('e, usize option) outcome" where
  "find s bytes =
     (if len s < length bytes then Ok None
      else find_in s bytes [0 ..< len s - length bytes + 1])"

definition rfind :: "byte_string \<Rightarrow> u8 list \<Rightarrow> ('e, usize option) outcome" where
  "rfind s bytes =
     (if len s < length bytes then Ok None
      else find_in s bytes (rev [0 ..< len s - length bytes + 1]))"

definition strip_prefix :: "byte_string \<Rightarrow> u8 list \<Rightarrow> ('e, byte_string \<times> bool) outcome" where
  "strip_prefix s bytes =
     obind (find s bytes) (\<lambda>r.
       if r = Some 0 then omap (\<lambda>s'. (s', True)) (remove_range s 0 (length bytes))
       else Ok (s, False))"

definition strip_suffix :: "byte_string \<Rightarrow> u8 list \<Rightarrow> ('e, byte_string \<times> bool) outcome" where
  "strip_suffix s bytes =
     (if len s < length bytes then Ok (s, False)
      else let pos = len s - length bytes
           in obind (rfind s bytes) (\<lambda>r.
             case r of
               Some v \<Rightarrow> if v \<noteq> pos then Ok (s, False)
                         else omap (\<lambda>s'. (s', True)) (remove_range s pos (length bytes))
             | None \<Rightarrow> Ok (s, False)))"

definition truncate :: "byte_string \<Rightarrow> usize \<Rightarrow> ('e, byte_string) outcome" where
  "truncate s new_len =
     (if len s < new_len then Ok s
      else let s' = s\<lparr>len := new_len\<rparr>
           in if new_len < cap s then data_write s' new_len 0 else Ok s')"

unbundle bit_operations_syntax

definition hex_digit :: "u8 \<Rightarrow> u8" where
  "hex_digit n = (if n < 10 then 48 + n else 87 + n)"

definition escape_byte :: "u8 \<Rightarrow> u8 list" where
  "escape_byte c =
     (if c = 9 then [92, 116] else if c = 13 then [92, 114] else if c = 10 then [92, 110]
      else if 32 \<le> c \<and> c \<le> 126 then [c]
      else [92, 120, hex_digit (drop_bit 4 c), hex_digit (c AND 15)])"

text \<open>\<^verbatim>\<open>String::from_utf8(..).unwrap()\<close> panics on bytes that are not UTF-8; bytes below 128 are.\<close>

definition as_escaped_string :: "u8 list \<Rightarrow> ('e, u8 list) outcome" where
  "as_escaped_string bytes =
     (let out = concat (map escape_byte bytes)
      in if list_all (\<lambda>c. c < 128) out then Ok out else Panic)"

section \<open>Invariant and content\<close>

definition content :: "byte_string \<Rightarrow> u8 list" where
  "content s = map the (take (len s) (data s))"

definition bs_wf :: "byte_string \<Rightarrow> bool" where
  "bs_wf s \<longleftrightarrow> 0 < cap s \<and> cap s < 2 ^ 63 \<and> length (data s) = cap s \<and> len s \<le> cap s
     \<and> None \<notin> set (take (len s) (data s)) \<and> (len s < cap s \<longrightarrow> data s ! len s = Some 0)
     \<and> terminator s = 0"

text \<open>The shape of a well-formed string: its content, then free cells that start with the null byte.\<close>

definition bs_repr :: "byte_string \<Rightarrow> u8 list \<Rightarrow> u8 option list \<Rightarrow> bool" where
  "bs_repr s c r \<longleftrightarrow> data s = map Some c @ r \<and> len s = length c \<and> cap s = length c + length r
     \<and> (r \<noteq> [] \<longrightarrow> hd r = Some 0) \<and> terminator s = 0 \<and> 0 < cap s \<and> cap s < 2 ^ 63"

lemma map_Some_the: "None \<notin> set xs \<Longrightarrow> map Some (map the xs) = xs"
  by (induction xs) auto

lemma bs_repr_of_wf: "bs_wf s \<Longrightarrow> bs_repr s (content s) (drop (len s) (data s))"
  unfolding bs_wf_def bs_repr_def content_def
  by (auto simp: map_Some_the hd_drop_conv_nth simp del: map_map)

lemma bs_repr_wf: "bs_repr s c r \<Longrightarrow> bs_wf s"
  unfolding bs_wf_def bs_repr_def by (auto simp: nth_append hd_conv_nth)

lemma bs_repr_content: "bs_repr s c r \<Longrightarrow> content s = c"
  unfolding bs_repr_def content_def by (simp add: o_def)

lemma bs_wf_repr: "bs_wf s \<longleftrightarrow> (\<exists>c r. bs_repr s c r)"
  using bs_repr_of_wf bs_repr_wf by blast

lemma length_content: "bs_wf s \<Longrightarrow> length (content s) = len s"
  by (auto simp: content_def bs_wf_def)

lemma bs_wf_bounds: "bs_wf s \<Longrightarrow> 0 < cap s \<and> len s \<le> cap s \<and> cap s < 2 ^ 63"
  by (simp add: bs_wf_def)

lemma usize_lim_gt: "a < 2 ^ 63 \<Longrightarrow> b \<le> 2 ^ 63 \<Longrightarrow> a + b < usize_lim"
  by (simp add: usize_lim_def)

lemma data_read_repr: "bs_repr s c r \<Longrightarrow> i < length c \<Longrightarrow> data_read s i = (Ok (c ! i) :: ('e, _) outcome)"
  by (auto simp: data_read_def bs_repr_def nth_append)

lemma data_read_content: "bs_wf s \<Longrightarrow> i < len s \<Longrightarrow> data_read s i = (Ok (content s ! i) :: ('e, _) outcome)"
  using data_read_repr [OF bs_repr_of_wf] length_content by simp

section \<open>Creation\<close>

lemma bs_new_repr:
  assumes "0 < CAPACITY" and "CAPACITY < 2 ^ 63"
  shows "\<exists>s. bs_new CAPACITY = Ok s \<and> bs_repr s [] (data s) \<and> cap s = CAPACITY"
  using assms by (auto simp: bs_new_def data_write_def bs_repr_def hd_conv_nth)

lemma write_bytes_eq:
  "length (data s) = cap s \<Longrightarrow> i + length bs \<le> cap s \<Longrightarrow>
     write_bytes s i bs = Ok (s\<lparr>data := take i (data s) @ map Some bs @ drop (i + length bs) (data s)\<rparr>)"
proof (induction bs arbitrary: s i)
  case Nil
  then show ?case by simp
next
  case (Cons b bs)
  let ?s = "s\<lparr>data := (data s)[i := Some b]\<rparr>"
  have "i < length (data s)" using Cons.prems by simp
  then have upd: "(data s)[i := Some b] = take i (data s) @ Some b # drop (Suc i) (data s)"
    by (rule upd_conv_take_nth_drop)
  have "take (Suc i) ((data s)[i := Some b]) = take i (data s) @ [Some b]"
    using \<open>i < length (data s)\<close> by (simp add: take_Suc_conv_app_nth)
  moreover have "drop (Suc i + length bs) ((data s)[i := Some b]) = drop (Suc i + length bs) (data s)"
    by simp
  ultimately show ?case using Cons.IH [of ?s "Suc i"] Cons.prems \<open>i < length (data s)\<close>
    by (simp add: data_write_def)
qed

section \<open>Insertion\<close>

lemma insert_bytes_unchecked_repr:
  assumes "bs_repr s c r" and "idx \<le> length c" and "length c + length bs \<le> cap s" and "idx < cap s"
  shows "\<exists>s' r'. insert_bytes_unchecked s idx bs = (Ok s' :: ('e, _) outcome) \<and>
           bs_repr s' (take idx c @ bs @ drop idx c) r' \<and> cap s' = cap s"
proof -
  let ?c = "take idx c @ bs @ drop idx c" and ?n = "length c + length bs"
  let ?d = "map Some ?c @ drop (length bs) r"
  from assms(1) have d: "data s = map Some c @ r" and l: "len s = length c" "cap s = length c + length r"
    and t: "terminator s = 0" and cp: "0 < cap s" "cap s < 2 ^ 63" by (auto simp: bs_repr_def)
  have copy: "ptr_copy (data s) idx (idx + length bs) (length c - idx) =
      (Ok (take (idx + length bs) (data s) @ map Some (drop idx c) @ drop (length bs) r) :: ('e, _) outcome)"
    using assms(2,3) l by (simp add: ptr_copy_def d add.assoc drop_map)
  have w: "write_bytes (s\<lparr>data := take (idx + length bs) (data s) @ map Some (drop idx c) @ drop (length bs) r\<rparr>) idx bs
      = (Ok (s\<lparr>data := ?d\<rparr>) :: ('e, _) outcome)"
    using assms(2,3) l by (subst write_bytes_eq) (simp_all add: d take_map, linarith?)
  have ln: "length c + length bs < usize_lim"
    using assms(3) cp by (simp add: usize_lim_def)
  show ?thesis
  proof (cases "?n < cap s")
    case True
    then have ne: "drop (length bs) r \<noteq> []" using l by simp
    let ?s = "s\<lparr>data := map Some ?c @ (drop (length bs) r)[0 := Some 0], len := ?n\<rparr>"
    have "insert_bytes_unchecked s idx bs = (Ok ?s :: ('e, _) outcome)"
      using assms(2,4) l copy w True ln
      by (simp add: insert_bytes_unchecked_def data_write_def list_update_append)
    moreover have "bs_repr ?s ?c ((drop (length bs) r)[0 := Some 0])"
      using l t cp ne True assms(2) by (cases "drop (length bs) r") (auto simp: bs_repr_def dest: arg_cong [of _ _ length])
    ultimately show ?thesis by fastforce
  next
    case False
    then have "length bs = length r" using assms(3) l by simp
    then have "bs_repr (s\<lparr>data := ?d, len := ?n\<rparr>) ?c []"
      using l t cp assms(2) by (simp add: bs_repr_def)
    moreover have "insert_bytes_unchecked s idx bs = (Ok (s\<lparr>data := ?d, len := ?n\<rparr>) :: ('e, _) outcome)"
      using assms(2,4) l copy w False ln by (simp add: insert_bytes_unchecked_def)
    ultimately show ?thesis by fastforce
  qed
qed

lemma insert_bytes_Ok:
  assumes "bs_wf s" and "idx \<le> len s" and "len s + length bs \<le> cap s" and "idx < cap s"
  shows "\<exists>s'. insert_bytes s idx bs = Ok s' \<and> bs_wf s' \<and> cap s' = cap s \<and>
           content s' = take idx (content s) @ bs @ drop idx (content s)"
proof -
  note r = bs_repr_of_wf [OF assms(1)]
  have "insert_bytes s idx bs = insert_bytes_unchecked s idx bs"
    using assms bs_wf_bounds [OF assms(1)] by (simp add: insert_bytes_def usize_lim_def)
  then show ?thesis
    using insert_bytes_unchecked_repr [OF r, of idx bs] assms length_content [OF assms(1)]
      bs_repr_wf bs_repr_content by fastforce
qed

text \<open>On a well-formed string, \<^verbatim>\<open>insert_bytes\<close> at an index inside of the array either reports
  that the capacity would be exceeded, or returns a well-formed, null-terminated string of the same
  capacity in which exactly the bytes were inserted at the index.\<close>

theorem insert_bytes_correct:
  assumes "bs_wf s" and "idx \<le> len s" and "idx < cap s" and "length bs < 2 ^ 63"
  shows "if cap s < len s + length bs then insert_bytes s idx bs = Err InsertWouldExceedCapacity
    else \<exists>s'. insert_bytes s idx bs = Ok s' \<and> bs_wf s' \<and> cap s' = cap s \<and>
           content s' = take idx (content s) @ bs @ drop idx (content s)"
proof (cases "cap s < len s + length bs")
  case True
  have "len s + length bs < usize_lim"
    using assms bs_wf_bounds [OF assms(1)] by (simp add: usize_lim_def)
  then show ?thesis using True assms by (simp add: insert_bytes_def)
next
  case False
  then show ?thesis using insert_bytes_Ok [of s idx bs] assms by simp
qed

theorem insert_bytes_correct_witness:
  "\<exists>s'. insert_bytes \<lparr>cap = 4, len = 2, data = [Some 104, Some 111, Some 0, None], terminator = 0\<rparr> 1 [101]
     = Ok s' \<and> bs_wf s' \<and> cap s' = 4 \<and> content s' = [104, 101, 111]"
  using insert_bytes_correct [of "\<lparr>cap = 4, len = 2, data = [Some 104, Some 111, Some 0, None], terminator = 0\<rparr>" 1 "[101]"]
  by (simp add: bs_wf_def content_def)

section \<open>Removal\<close>

lemma remove_range_impl_repr:
  assumes "bs_repr s c r" and "idx + n \<le> length c" and "idx + n < cap s" and "0 < n \<or> length c < cap s"
  shows "\<exists>s' r'. remove_range_impl s idx n = (Ok s' :: ('e, _) outcome) \<and> bs_repr s' (take idx c @ drop (idx + n) c) r'
           \<and> cap s' = cap s"
proof -
  let ?c = "take idx c @ drop (idx + n) c"
  from assms(1) have d: "data s = map Some c @ r" and l: "len s = length c" "cap s = length c + length r"
    and t: "terminator s = 0" and cp: "0 < cap s" "cap s < 2 ^ 63" by (auto simp: bs_repr_def)
  let ?r = "drop (length c - n) (map Some c) @ r"
  have copy: "ptr_copy (data s) (idx + n) idx (length c - (idx + n)) = (Ok (map Some ?c @ ?r) :: ('e, _) outcome)"
    using assms(2) by (simp add: ptr_copy_def d take_map drop_map)
  have lc: "length ?c = length c - n" using assms(2) by simp
  have ne: "?r \<noteq> []" using assms(2,4) l by auto
  let ?s = "s\<lparr>data := map Some ?c @ ?r[0 := Some 0], len := length c - n\<rparr>"
  have "(map Some ?c @ ?r)[length c - n := Some 0] = map Some ?c @ ?r[0 := Some 0]"
    using lc by (intro list_update_at_length) simp
  moreover have "length c - n < cap s" using l assms(2,4) by linarith
  ultimately have "remove_range_impl s idx n = (Ok ?s :: ('e, _) outcome)"
    using assms(2,3) l copy cp by (simp add: remove_range_impl_def data_write_def usize_lim_def)
  moreover have "bs_repr ?s ?c (?r[0 := Some 0])"
    unfolding bs_repr_def using lc l t cp hd_list_update_0 [OF ne] assms(2) by auto
  ultimately show ?thesis by fastforce
qed

lemma remove_range_Ok:
  assumes "bs_wf s" and "idx + n \<le> len s" and "idx + n < cap s" and "0 < n \<or> len s < cap s"
  shows "\<exists>s'. remove_range s idx n = (Ok s' :: ('e, _) outcome) \<and> bs_wf s' \<and> cap s' = cap s \<and>
           content s' = take idx (content s) @ drop (idx + n) (content s)"
proof -
  note r = bs_repr_of_wf [OF assms(1)]
  have "remove_range s idx n = (remove_range_impl s idx n :: ('e, _) outcome)"
    using assms bs_wf_bounds [OF assms(1)] by (simp add: remove_range_def usize_lim_def)
  moreover have "\<exists>s' r'. remove_range_impl s idx n = (Ok s' :: ('e, _) outcome)
      \<and> bs_repr s' (take idx (content s) @ drop (idx + n) (content s)) r' \<and> cap s' = cap s"
  proof (rule remove_range_impl_repr [OF r])
  qed (use assms length_content [OF assms(1)] in auto)
  ultimately show ?thesis using bs_repr_wf bs_repr_content by fastforce
qed

lemma remove_Ok:
  assumes "bs_wf s" and "idx < len s" and "idx + 1 < cap s"
  shows "\<exists>s'. bs_remove s idx = (Ok (s', content s ! idx) :: ('e, _) outcome) \<and> bs_wf s' \<and> cap s' = cap s
           \<and> content s' = take idx (content s) @ drop (Suc idx) (content s)"
proof -
  have "bs_remove s idx = obind (remove_range s idx 1) (\<lambda>s'. Ok (s', content s ! idx) :: ('e, _) outcome)"
    using assms data_read_content [OF assms(1,2), where 'e = 'e] bs_wf_bounds [OF assms(1)]
    by (simp add: bs_remove_def remove_range_def usize_lim_def)
  then show ?thesis using remove_range_Ok [of s idx 1, where 'e = 'e] assms by auto
qed

text \<open>\<^verbatim>\<open>remove_range\<close> of a range inside of the string that ends before the last cell of the
  array deletes exactly that range.\<close>

theorem remove_range_correct:
  assumes "bs_wf s" and "idx + n \<le> len s" and "idx + n < cap s" and "0 < n \<or> len s < cap s"
  shows "\<exists>s'. remove_range s idx n = (Ok s' :: (unit, _) outcome) \<and> bs_wf s' \<and> cap s' = cap s \<and>
           content s' = take idx (content s) @ drop (idx + n) (content s)"
  using assms by (rule remove_range_Ok)

theorem remove_range_correct_witness:
  "\<exists>s'. remove_range \<lparr>cap = 4, len = 3, data = [Some 104, Some 101, Some 111, Some 0], terminator = 0\<rparr> 1 2
     = (Ok s' :: (unit, _) outcome) \<and> bs_wf s' \<and> cap s' = 4 \<and> content s' = [104]"
  using remove_range_correct [of "\<lparr>cap = 4, len = 3, data = [Some 104, Some 101, Some 111, Some 0], terminator = 0\<rparr>" 1 2]
  by (simp add: bs_wf_def content_def)

text \<open>Removing the end of a full string panics: the address of the first byte behind the range is
  formed with \<^verbatim>\<open>self.data[idx + len]\<close>, which is out of the bounds of the array. In particular
  \<^verbatim>\<open>pop\<close> never succeeds on a full string.\<close>

theorem pop_full_string_panics:
  assumes "bs_wf s" and "len s = cap s"
  shows "bs_pop s = (Panic :: (unit, byte_string \<times> u8 option) outcome) \<and>
    (\<forall>idx \<le> cap s. remove_range s idx (cap s - idx) = (Panic :: (unit, byte_string) outcome))"
proof (intro conjI allI impI)
  have c: "0 < cap s" "cap s < usize_lim"
    using bs_wf_bounds [OF assms(1)] by (auto simp: usize_lim_def)
  then have "data_read s (len s - 1) = (Ok (content s ! (len s - 1)) :: (unit, _) outcome)"
    using assms by (intro data_read_content) simp_all
  then show "bs_pop s = (Panic :: (unit, byte_string \<times> u8 option) outcome)"
    using assms c by (simp add: bs_pop_def bs_is_empty_def bs_remove_def remove_range_impl_def)
  show "remove_range s idx (cap s - idx) = (Panic :: (unit, byte_string) outcome)" if "idx \<le> cap s" for idx
    using that assms c by (simp add: remove_range_def remove_range_impl_def)
qed

theorem pop_full_string_panics_witness:
  "bs_pop \<lparr>cap = 2, len = 2, data = [Some 104, Some 105], terminator = 0\<rparr>
     = (Panic :: (unit, byte_string \<times> u8 option) outcome) \<and>
   remove_range \<lparr>cap = 2, len = 2, data = [Some 104, Some 105], terminator = 0\<rparr> 1 1
     = (Panic :: (unit, byte_string) outcome)"
  using pop_full_string_panics [of "\<lparr>cap = 2, len = 2, data = [Some 104, Some 105], terminator = 0\<rparr>"]
  by (auto simp: bs_wf_def dest: spec [of _ 1])

text \<open>as long as the string is not full, pushing and popping follow the stack discipline:
  \<^verbatim>\<open>pop\<close> returns the last byte and leaves the rest.\<close>

theorem pop_not_full:
  assumes "bs_wf s" and "len s < cap s"
  shows "\<exists>s'. bs_pop s = (Ok (s', if content s = [] then None else Some (last (content s))) :: (unit, _) outcome)
           \<and> bs_wf s' \<and> cap s' = cap s \<and> content s' = butlast (content s)"
proof (cases "len s")
  case 0
  then have "content s = []" using length_content [OF assms(1)] by simp
  then show ?thesis using 0 assms(1) by (simp add: bs_pop_def bs_is_empty_def)
next
  case (Suc n)
  have ne: "content s \<noteq> []" and l: "length (content s) = Suc n"
    using Suc length_content [OF assms(1)] by auto
  obtain s' where "bs_remove s n = (Ok (s', content s ! n) :: (unit, _) outcome)" "bs_wf s'" "cap s' = cap s"
    "content s' = take n (content s) @ drop (Suc n) (content s)"
    using remove_Ok [of s n, where 'e = unit] assms Suc by auto
  then show ?thesis
    using Suc ne l by (simp add: bs_pop_def bs_is_empty_def last_conv_nth butlast_conv_take)
qed

theorem pop_not_full_witness:
  "\<exists>s'. bs_pop \<lparr>cap = 3, len = 2, data = [Some 104, Some 105, Some 0], terminator = 0\<rparr>
     = (Ok (s', Some 105) :: (unit, _) outcome) \<and> bs_wf s' \<and> cap s' = 3 \<and> content s' = [104]"
  using pop_not_full [of "\<lparr>cap = 3, len = 2, data = [Some 104, Some 105, Some 0], terminator = 0\<rparr>"]
  by (simp add: bs_wf_def content_def)

section \<open>Search\<close>

text \<open>\<open>occurs c bs i\<close>: the bytes \<open>bs\<close> stand in \<open>c\<close> at position \<open>i\<close>.\<close>

definition occurs :: "u8 list \<Rightarrow> u8 list \<Rightarrow> nat \<Rightarrow> bool" where
  "occurs c bs i \<longleftrightarrow> i + length bs \<le> length c \<and> take (length bs) (drop i c) = bs"

lemma match_at_content:
  "bs_wf s \<Longrightarrow> i + length bs \<le> len s \<Longrightarrow>
     match_at s i bs = (Ok (occurs (content s) bs i) :: ('e, _) outcome)"
proof (induction bs arbitrary: i)
  case Nil
  then show ?case by (simp add: occurs_def length_content)
next
  case (Cons b bs)
  have i: "i < length (content s)" using Cons.prems length_content by simp
  then have "occurs (content s) (b # bs) i \<longleftrightarrow> content s ! i = b \<and> occurs (content s) bs (Suc i)"
    by (auto simp: occurs_def Cons_nth_drop_Suc [symmetric])
  moreover have "data_read s i = (Ok (content s ! i) :: ('e, _) outcome)"
    using Cons.prems by (intro data_read_content) simp_all
  ultimately show ?case using Cons by simp
qed

lemma find_in_content:
  assumes "bs_wf s" and "\<And>i. i \<in> set is \<Longrightarrow> i + length bs \<le> len s"
  shows "find_in s bs is = (Ok (List.find (occurs (content s) bs) is) :: ('e, _) outcome)"
  using assms(2) by (induction "is") (simp_all add: match_at_content [OF assms(1)])

lemma find_eq:
  assumes "bs_wf s"
  shows "find s bs = (Ok (List.find (occurs (content s) bs) [0 ..< Suc (len s) - length bs]) :: ('e, _) outcome)"
proof (cases "len s < length bs")
  case False
  then have e: "len s - length bs + 1 = Suc (len s) - length bs" by simp
  show ?thesis using False unfolding find_def e
    by (subst find_in_content [OF assms]) auto
qed (simp add: find_def)

lemma rfind_eq:
  assumes "bs_wf s"
  shows "rfind s bs = (Ok (List.find (occurs (content s) bs) (rev [0 ..< Suc (len s) - length bs])) :: ('e, _) outcome)"
proof (cases "len s < length bs")
  case False
  then have e: "len s - length bs + 1 = Suc (len s) - length bs" by simp
  show ?thesis using False unfolding rfind_def e
    by (subst find_in_content [OF assms]) auto
qed (simp add: rfind_def)

lemma occurs_range: "bs_wf s \<Longrightarrow> occurs (content s) bs i \<Longrightarrow> i < Suc (len s) - length bs"
  using length_content [of s] by (auto simp: occurs_def)

lemma find_upt_Some_iff:
  "List.find P [0 ..< n] = Some i \<longleftrightarrow> i < n \<and> P i \<and> (\<forall>j<i. \<not> P j)"
  by (auto simp: find_Some_iff)

lemma find_rev_upt_Some_iff:
  "List.find P (rev [0 ..< n]) = Some i \<longleftrightarrow> i < n \<and> P i \<and> (\<forall>j<n. i < j \<longrightarrow> \<not> P j)"
proof (induction n)
  case (Suc n)
  then show ?case by (auto simp: less_Suc_eq)
qed simp

text \<open>\<^verbatim>\<open>find\<close> and \<^verbatim>\<open>rfind\<close> return the first and the last position at which the bytes occur in the
  string, and nothing exactly when they do not occur; neither ever panics or reads an
  uninitialised byte.\<close>

theorem find_rfind_correct:
  assumes "bs_wf s"
  shows "\<exists>f r. find s bs = (Ok f :: (unit, _) outcome) \<and> rfind s bs = (Ok r :: (unit, _) outcome) \<and>
     (\<forall>i. f = Some i \<longleftrightarrow> occurs (content s) bs i \<and> (\<forall>j<i. \<not> occurs (content s) bs j)) \<and>
     (\<forall>i. r = Some i \<longleftrightarrow> occurs (content s) bs i \<and> (\<forall>j>i. \<not> occurs (content s) bs j))"
proof (intro exI conjI allI)
  show "find s bs = (Ok (List.find (occurs (content s) bs) [0 ..< Suc (len s) - length bs]) :: (unit, _) outcome)"
    using assms by (rule find_eq)
  show "rfind s bs = (Ok (List.find (occurs (content s) bs) (rev [0 ..< Suc (len s) - length bs])) :: (unit, _) outcome)"
    using assms by (rule rfind_eq)
qed (use occurs_range [OF assms] in \<open>auto simp: find_upt_Some_iff find_rev_upt_Some_iff\<close>)

theorem find_rfind_correct_witness:
  "\<exists>f r. find \<lparr>cap = 4, len = 3, data = [Some 1, Some 2, Some 1, Some 0], terminator = 0\<rparr> [1] = (Ok f :: (unit, _) outcome)
     \<and> rfind \<lparr>cap = 4, len = 3, data = [Some 1, Some 2, Some 1, Some 0], terminator = 0\<rparr> [1] = (Ok r :: (unit, _) outcome) \<and>
     (\<forall>i. f = Some i \<longleftrightarrow> occurs [1, 2, 1] [1] i \<and> (\<forall>j<i. \<not> occurs [1, 2, 1] [1] j)) \<and>
     (\<forall>i. r = Some i \<longleftrightarrow> occurs [1, 2, 1] [1] i \<and> (\<forall>j>i. \<not> occurs [1, 2, 1] [1] j))"
  using find_rfind_correct [of "\<lparr>cap = 4, len = 3, data = [Some 1, Some 2, Some 1, Some 0], terminator = 0\<rparr>" "[1]"]
  by (simp add: bs_wf_def content_def)

section \<open>Prefixes, suffixes, truncation\<close>

lemma occurs_0_iff: "occurs c bs 0 \<longleftrightarrow> (\<exists>t. c = bs @ t)"
  by (auto simp: occurs_def) (metis append_take_drop_id)

lemma occurs_end_iff: "length bs \<le> length c \<Longrightarrow> occurs c bs (length c - length bs) \<longleftrightarrow> (\<exists>t. c = t @ bs)"
  by (auto simp: occurs_def) (metis append_take_drop_id)

lemma strip_prefix_Ok:
  assumes "bs_wf s" and "len s < cap s"
  shows "\<exists>s' b. strip_prefix s bs = (Ok (s', b) :: ('e, _) outcome) \<and> bs_wf s' \<and> cap s' = cap s
     \<and> (if b then content s = bs @ content s' else s' = s \<and> (\<nexists>t. content s = bs @ t))"
proof (cases "occurs (content s) bs 0")
  case True
  then have f: "find s bs = (Ok (Some 0) :: ('e, _) outcome)"
    using occurs_range [OF assms(1) True] by (simp add: find_eq [OF assms(1)] find_upt_Some_iff)
  have "length bs \<le> len s" using True length_content [OF assms(1)] by (simp add: occurs_def)
  then obtain s' where s': "remove_range s 0 (length bs) = (Ok s' :: ('e, _) outcome)" "bs_wf s'" "cap s' = cap s"
    "content s' = drop (length bs) (content s)"
    using remove_range_Ok [of s 0 "length bs", where 'e = 'e] assms by auto
  moreover have "content s = bs @ drop (length bs) (content s)"
    using True by (metis append_take_drop_id drop0 occurs_def)
  ultimately have "strip_prefix s bs = (Ok (s', True) :: ('e, _) outcome) \<and> content s = bs @ content s'"
    using f by (simp add: strip_prefix_def)
  then show ?thesis using s' by auto
next
  case False
  have "List.find (occurs (content s) bs) [0 ..< Suc (len s) - length bs] \<noteq> Some 0"
    using False by (simp add: find_upt_Some_iff)
  then have "strip_prefix s bs = (Ok (s, False) :: ('e, _) outcome)"
    by (simp add: strip_prefix_def find_eq [OF assms(1)])
  then show ?thesis using False assms(1) by (auto simp: occurs_0_iff)
qed

lemma strip_suffix_Ok:
  assumes "bs_wf s" and "len s < cap s"
  shows "\<exists>s' b. strip_suffix s bs = (Ok (s', b) :: ('e, _) outcome) \<and> bs_wf s' \<and> cap s' = cap s
     \<and> (if b then content s = content s' @ bs else s' = s \<and> (\<nexists>t. content s = t @ bs))"
proof (cases "length bs \<le> len s")
  case False
  then have "strip_suffix s bs = (Ok (s, False) :: ('e, _) outcome)" by (simp add: strip_suffix_def)
  moreover have "\<nexists>t. content s = t @ bs" using False length_content [OF assms(1)] by auto
  ultimately show ?thesis using assms(1) by auto
next
  case True
  let ?p = "len s - length bs"
  have lc: "length (content s) = len s" using length_content [OF assms(1)] .
  show ?thesis
  proof (cases "occurs (content s) bs ?p")
    case occ: True
    then have f: "rfind s bs = (Ok (Some ?p) :: ('e, _) outcome)"
      using True by (auto simp: rfind_eq [OF assms(1)] find_rev_upt_Some_iff)
    obtain s' where s': "remove_range s ?p (length bs) = (Ok s' :: ('e, _) outcome)" "bs_wf s'" "cap s' = cap s"
      "content s' = take ?p (content s) @ drop (?p + length bs) (content s)"
      using remove_range_Ok [of s ?p "length bs", where 'e = 'e] assms True by auto
    moreover obtain t where "content s = t @ bs"
      using occ occurs_end_iff [of bs "content s"] True lc by auto
    ultimately have "strip_suffix s bs = (Ok (s', True) :: ('e, _) outcome) \<and> content s = content s' @ bs"
      using f True lc by (auto simp: strip_suffix_def)
    then show ?thesis using s' by auto
  next
    case occ: False
    have "List.find (occurs (content s) bs) (rev [0 ..< Suc (len s) - length bs]) \<noteq> Some ?p"
      using occ by (simp add: find_rev_upt_Some_iff del: upt_Suc)
    then have "strip_suffix s bs = (Ok (s, False) :: ('e, _) outcome)"
      using True by (auto simp: strip_suffix_def rfind_eq [OF assms(1)] Let_def split: option.splits)
    then show ?thesis using occ assms(1) True occurs_end_iff [of bs "content s"] lc by auto
  qed
qed

text \<open>On a well-formed string that is not full, \<^verbatim>\<open>strip_prefix\<close> and \<^verbatim>\<open>strip_suffix\<close> remove the bytes
  when the string starts (ends) with them and report whether they did.\<close>

theorem strip_correct:
  assumes "bs_wf s" and "len s < cap s"
  shows "(\<exists>s' b. strip_prefix s bs = (Ok (s', b) :: (unit, _) outcome) \<and> bs_wf s' \<and>
       (if b then content s = bs @ content s' else s' = s \<and> (\<nexists>t. content s = bs @ t))) \<and>
     (\<exists>s' b. strip_suffix s bs = (Ok (s', b) :: (unit, _) outcome) \<and> bs_wf s' \<and>
       (if b then content s = content s' @ bs else s' = s \<and> (\<nexists>t. content s = t @ bs)))"
  using strip_prefix_Ok [OF assms, of bs] strip_suffix_Ok [OF assms, of bs] by blast

theorem strip_correct_witness:
  "(\<exists>s' b. strip_prefix \<lparr>cap = 4, len = 2, data = [Some 1, Some 2, Some 0, None], terminator = 0\<rparr> [1]
       = (Ok (s', b) :: (unit, _) outcome) \<and> bs_wf s') \<and>
   (\<exists>s' b. strip_suffix \<lparr>cap = 4, len = 2, data = [Some 1, Some 2, Some 0, None], terminator = 0\<rparr> [1]
       = (Ok (s', b) :: (unit, _) outcome) \<and> bs_wf s')"
  using strip_correct [of "\<lparr>cap = 4, len = 2, data = [Some 1, Some 2, Some 0, None], terminator = 0\<rparr>" "[1]"]
  by (auto simp: bs_wf_def)

lemma retain_loop_Ok:
  "bs_wf s \<Longrightarrow> len s < cap s \<Longrightarrow> content s = xs @ ys \<Longrightarrow>
     \<exists>s'. retain_loop f (length xs) s = (Ok s' :: ('e, _) outcome) \<and> bs_wf s' \<and> cap s' = cap s
       \<and> content s' = filter (\<lambda>b. \<not> f b) xs @ ys"
proof (induction xs arbitrary: s ys rule: rev_induct)
  case Nil
  then show ?case by simp
next
  case (snoc x xs)
  have l: "len s = Suc (length xs + length ys)"
    using length_content [OF snoc.prems(1)] snoc.prems(3) by simp
  have rd: "data_read s (length xs) = (Ok x :: ('e, _) outcome)"
    using data_read_content [OF snoc.prems(1), of "length xs", where 'e = 'e] snoc.prems(3) l by (simp add: nth_append)
  show ?case
  proof (cases "f x")
    case True
    obtain s1 where s1: "bs_remove s (length xs) = (Ok (s1, x) :: ('e, _) outcome)" "bs_wf s1" "cap s1 = cap s"
      "content s1 = xs @ ys"
      using remove_Ok [OF snoc.prems(1), of "length xs", where 'e = 'e] snoc.prems(2,3) l by (auto simp: nth_append)
    moreover have "len s1 < cap s1"
      using length_content [OF s1(2)] s1(3,4) l snoc.prems(2) by simp
    ultimately obtain s2 where "retain_loop f (length xs) s1 = (Ok s2 :: ('e, _) outcome)" "bs_wf s2" "cap s2 = cap s1"
      "content s2 = filter (\<lambda>b. \<not> f b) xs @ ys"
      using snoc.IH [of s1 ys] by auto
    then show ?thesis using True rd s1 by simp
  next
    case False
    obtain s2 where "retain_loop f (length xs) s = (Ok s2 :: ('e, _) outcome)" "bs_wf s2" "cap s2 = cap s"
      "content s2 = filter (\<lambda>b. \<not> f b) xs @ x # ys"
      using snoc.IH [of s "x # ys"] snoc.prems by auto
    then show ?thesis using False rd by simp
  qed
qed

text \<open>\<^verbatim>\<open>retain\<close> keeps exactly the bytes for which the closure is false and deletes the others,
  in order (the documentation announces the opposite).\<close>

theorem retain_keeps_unsatisfying:
  assumes "bs_wf s" and "len s < cap s"
  shows "\<exists>s'. retain f s = (Ok s' :: (unit, _) outcome) \<and> bs_wf s' \<and> cap s' = cap s
           \<and> content s' = filter (\<lambda>b. \<not> f b) (content s)"
  using retain_loop_Ok [OF assms, of "content s" "[]" f, where 'e = unit] length_content [OF assms(1)]
  by (auto simp: retain_def)

theorem retain_keeps_unsatisfying_witness:
  "\<exists>s'. retain (\<lambda>b. b = 2) \<lparr>cap = 4, len = 3, data = [Some 1, Some 2, Some 3, Some 0], terminator = 0\<rparr>
     = (Ok s' :: (unit, _) outcome) \<and> bs_wf s' \<and> cap s' = 4 \<and> content s' = [1, 3]"
  using retain_keeps_unsatisfying [of "\<lparr>cap = 4, len = 3, data = [Some 1, Some 2, Some 3, Some 0], terminator = 0\<rparr>" "\<lambda>b. b = 2"]
  by (simp add: bs_wf_def content_def)

lemma truncate_Ok:
  assumes "bs_wf s"
  shows "\<exists>s'. truncate s n = (Ok s' :: ('e, _) outcome) \<and> bs_wf s' \<and> cap s' = cap s
           \<and> content s' = take n (content s)"
proof (cases "len s < n")
  case True
  then show ?thesis using assms length_content [OF assms] by (simp add: truncate_def)
next
  case False
  note r = bs_repr_of_wf [OF assms]
  then have d: "data s = map Some (content s) @ drop (len s) (data s)" unfolding bs_repr_def by blast
  have lc: "length (content s) = len s" using length_content [OF assms] .
  let ?c = "take n (content s)"
  let ?r = "map Some (drop n (content s)) @ drop (len s) (data s)"
  have dd: "data s = map Some ?c @ ?r"
    by (subst d) (metis append.assoc append_take_drop_id map_append)
  show ?thesis
  proof (cases "n < cap s")
    case True
    then have ne: "?r \<noteq> []" using False lc bs_wf_bounds [OF assms] r by (auto simp: bs_repr_def)
    have "(data s)[n := Some 0] = map Some ?c @ ?r[0 := Some 0]"
      by (subst dd) (rule list_update_at_length, use False lc in simp)
    then have t: "truncate s n = (Ok (s\<lparr>len := n, data := map Some ?c @ ?r[0 := Some 0]\<rparr>) :: ('e, _) outcome)"
      using False True by (simp add: truncate_def data_write_def)
    have "bs_repr (s\<lparr>len := n, data := map Some ?c @ ?r[0 := Some 0]\<rparr>) ?c (?r[0 := Some 0])"
      using hd_list_update_0 [OF ne] r lc False by (auto simp: bs_repr_def)
    then show ?thesis using t bs_repr_wf bs_repr_content by fastforce
  next
    case n: False
    then have "n = len s" using False bs_wf_bounds [OF assms] by simp
    then show ?thesis using n assms lc by (simp add: truncate_def)
  qed
qed

section \<open>Round trips\<close>

lemma as_bytes_content: "bs_wf s \<Longrightarrow> as_bytes s = Ok (content s)"
  by (auto simp: as_bytes_def bs_wf_def content_def)

lemma as_bytes_with_nul_content: "bs_wf s \<Longrightarrow> as_bytes_with_nul s = Ok (content s @ [0])"
proof -
  assume wf: "bs_wf s"
  have "take (len s + 1) (data s @ [Some (terminator s)]) = map Some (content s @ [0])"
    using bs_repr_of_wf [OF wf] by (cases "drop (len s) (data s)") (auto simp: bs_repr_def)
  then show ?thesis using bs_wf_bounds [OF wf] by (simp add: as_bytes_with_nul_def o_def)
qed

lemma push_bytes_Ok:
  assumes "bs_wf s" and "len s + length bs \<le> cap s" and "len s < cap s"
  shows "\<exists>s'. push_bytes s bs = Ok s' \<and> bs_wf s' \<and> cap s' = cap s \<and> content s' = content s @ bs"
  using insert_bytes_Ok [of s "len s" bs] assms length_content [OF assms(1)] by (auto simp: push_bytes_def)

text \<open>A byte slice that fits is stored by \<^verbatim>\<open>from_bytes\<close> and read back unchanged, without and with
  the terminating null byte; a slice that does not fit is refused.\<close>

theorem from_bytes_roundtrip:
  assumes "0 < CAPACITY" and "CAPACITY < 2 ^ 63" and "length bs < 2 ^ 63"
  shows "if CAPACITY < length bs then from_bytes CAPACITY bs = Err InsertWouldExceedCapacity
    else \<exists>s. from_bytes CAPACITY bs = Ok s \<and> bs_wf s \<and> as_bytes s = (Ok bs :: (unit, _) outcome)
           \<and> as_bytes_with_nul s = (Ok (bs @ [0]) :: (unit, _) outcome)"
proof -
  obtain s where s: "bs_new CAPACITY = (Ok s :: (bs_error, _) outcome)" "bs_repr s [] (data s)" "cap s = CAPACITY"
    using bs_new_repr [OF assms(1,2)] by blast
  have wf: "bs_wf s" "content s = []" "len s = 0"
    using bs_repr_wf [OF s(2)] bs_repr_content [OF s(2)] length_content [OF bs_repr_wf [OF s(2)]] by simp_all
  show ?thesis
  proof (cases "CAPACITY < length bs")
    case True
    then show ?thesis using s wf assms(3) by (simp add: from_bytes_def push_bytes_def insert_bytes_def usize_lim_def)
  next
    case False
    then show ?thesis using push_bytes_Ok [OF wf(1), of bs] wf s assms(1) as_bytes_content as_bytes_with_nul_content
      by (auto simp: from_bytes_def)
  qed
qed

theorem from_bytes_roundtrip_witness:
  "\<exists>s. from_bytes 3 [104, 105] = Ok s \<and> bs_wf s \<and> as_bytes s = (Ok [104, 105] :: (unit, _) outcome)
           \<and> as_bytes_with_nul s = (Ok [104, 105, 0] :: (unit, _) outcome)"
  using from_bytes_roundtrip [of 3 "[104, 105]"] by simp

lemma strlen_from_bytes:
  "list_all (\<lambda>b. b \<noteq> 0) bs \<Longrightarrow> strlen_from i (map Some bs @ Some 0 # r) = Ok (i + length bs)"
  by (induction bs arbitrary: i) auto

text \<open>\<^verbatim>\<open>from_c_str\<close> copies the bytes in front of the null byte but not the null byte itself: unless
  the C string is empty or fills the whole array, the cell behind the content stays uninitialised,
  so that \<^verbatim>\<open>as_bytes_with_nul\<close> and \<^verbatim>\<open>as_c_str\<close> hand out uninitialised memory.\<close>

theorem from_c_str_not_terminated:
  assumes "list_all (\<lambda>b. b \<noteq> 0) bs" and "bs \<noteq> []" and "length bs < CAPACITY"
  shows "\<exists>s. from_c_str CAPACITY (map Some bs @ Some 0 # r) = Ok s \<and> as_bytes s = (Ok bs :: (unit, _) outcome)
     \<and> data s ! len s = None \<and> as_bytes_with_nul s = (UB :: (unit, _) outcome)"
proof -
  let ?d = "(replicate CAPACITY None)[0 := Some 0] :: u8 option list"
  let ?s = "\<lparr>cap = CAPACITY, len = length bs, data = map Some bs @ drop (length bs) ?d, terminator = 0\<rparr>"
  have "from_c_str CAPACITY (map Some bs @ Some 0 # r) = Ok ?s"
    using assms(1,3) by (auto simp: from_c_str_def strlen_def strlen_from_bytes bs_new_def data_write_def)
  moreover have free: "data ?s ! len ?s = None"
    using assms(2,3) by (simp add: nth_append)
  moreover have "None \<in> set (take (len ?s + 1) (data ?s @ [Some (terminator ?s)]))"
    using free assms(3) by (auto simp: take_Suc_conv_app_nth nth_append)
  ultimately show ?thesis
    using assms(3) by (intro exI [of _ ?s]) (auto simp: as_bytes_def as_bytes_with_nul_def o_def)
qed

theorem from_c_str_not_terminated_witness:
  "\<exists>s. from_c_str 4 [Some 104, Some 105, Some 0] = Ok s \<and> as_bytes s = (Ok [104, 105] :: (unit, _) outcome)
     \<and> data s ! len s = None \<and> as_bytes_with_nul s = (UB :: (unit, _) outcome)"
  using from_c_str_not_terminated [of "[104, 105]" 4 "[]"] by simp

lemma hex_digit_printable: "n < 16 \<Longrightarrow> 32 \<le> hex_digit n \<and> hex_digit n \<le> 126"
  unfolding hex_digit_def by (auto simp: word_le_nat_alt word_less_nat_alt unat_word_ariths)

lemma escape_byte_printable: "c \<in> set (escape_byte b) \<Longrightarrow> 32 \<le> c \<and> c \<le> 126"
proof -
  have lo: "b AND 15 < 16"
  proof -
    have "b AND 15 \<le> 15" by (rule word_and_le1)
    also have "(15 :: u8) < 16" by simp
    finally show ?thesis .
  qed
  have hi: "drop_bit 4 b < 16"
  proof -
    have "unat (drop_bit 4 b) = unat b div 16"
      by (simp add: unat_drop_bit_eq drop_bit_eq_div [of 4 "unat b"])
    moreover have "unat b < 256" using unsigned_less [of b] by simp
    ultimately show ?thesis by (simp add: word_less_nat_alt)
  qed
  show "c \<in> set (escape_byte b) \<Longrightarrow> 32 \<le> c \<and> c \<le> 126"
    using hex_digit_printable [OF lo] hex_digit_printable [OF hi]
    by (auto simp: escape_byte_def split: if_splits)
qed

text \<open>\<^verbatim>\<open>as_escaped_string\<close> never panics: whatever the bytes are, the result consists of printable
  ASCII characters only.\<close>

theorem as_escaped_string_printable:
  "\<exists>out. as_escaped_string bytes = (Ok out :: (unit, _) outcome) \<and> list_all (\<lambda>c. 32 \<le> c \<and> c \<le> 126) out"
proof -
  have p: "32 \<le> c \<and> c \<le> 126" if "c \<in> set (concat (map escape_byte bytes))" for c
    using that escape_byte_printable by auto
  then have "list_all (\<lambda>c. c < 128) (concat (map escape_byte bytes))"
    unfolding list_all_iff
  proof (intro ballI)
    fix c assume "c \<in> set (concat (map escape_byte bytes))"
    then have "c \<le> 126" using p by blast
    also have "(126 :: u8) < 128" by simp
    finally show "c < 128" .
  qed
  then show ?thesis using p by (simp add: as_escaped_string_def list_all_iff)
qed

end
