(* ===== verification/Elementary.thy ===== *)
theory Elementary
  imports Prelude
begin

text \<open>
  The crate \<^verbatim>\<open>elkodon_bb/elementary\<close>: alignment and powers of two (\<^verbatim>\<open>math.rs\<close>),
  the self-relative pointer of shared memory (\<^verbatim>\<open>relocatable_ptr.rs\<close>) and the error
  types of the allocator traits (\<^verbatim>\<open>allocator.rs\<close>).
\<close>

section \<open>math.rs\<close>

definition align :: "usize \<Rightarrow> usize \<Rightarrow> ('e, usize) outcome" where
  "align value alignment =
     obind (umod value alignment) (\<lambda>m.
       if m = 0 then Ok value
       else obind (uadd value alignment) (\<lambda>s. usub s m))"

text \<open>The loop of \<^verbatim>\<open>log2_of_power_of_2\<close>: \<open>i\<close> counts up to 64.\<close>

function log2_loop :: "nat \<Rightarrow> u64 \<Rightarrow> nat" where
  "log2_loop i bits = (if i < 64 then (if bits = 1 then i else log2_loop (Suc i) (drop_bit 1 bits)) else 0)"
  by pat_completeness auto
termination
  by (relation "measure (\<lambda>(i, _). 64 - i)") auto

definition log2_of_power_of_2 :: "u64 \<Rightarrow> nat" where
  "log2_of_power_of_2 value = log2_loop 0 value"

unbundle bit_operations_syntax

definition round_to_pow2 :: "u64 \<Rightarrow> ('e, u64) outcome" where
  "round_to_pow2 value =
     (if value = 0 then Panic
      else let v0 = value - 1;
               v1 = v0 OR drop_bit 1 v0;
               v2 = v1 OR drop_bit 2 v1;
               v3 = v2 OR drop_bit 4 v2;
               v4 = v3 OR drop_bit 8 v3;
               v5 = v4 OR drop_bit 16 v4;
               v6 = v5 OR drop_bit 32 v5
           in if v6 = - 1 then Panic else Ok (v6 + 1))"

section \<open>relocatable_ptr.rs\<close>

text \<open>The pointer stores the distance from its own address, an \<^verbatim>\<open>isize\<close>; \<open>self_addr\<close> is
  the address at which the pointer object itself is mapped.\<close>

record relocatable_pointer =
  distance :: int

definition isize_ok :: "int \<Rightarrow> bool" where
  "isize_ok x \<longleftrightarrow> - (2 ^ 63) \<le> x \<and> x < 2 ^ 63"

definition rp_new :: "int \<Rightarrow> relocatable_pointer" where
  "rp_new d = \<lparr>distance = d\<rparr>"

definition rp_new_uninit :: "relocatable_pointer" where
  "rp_new_uninit = rp_new 0"

definition rp_init :: "int \<Rightarrow> int \<Rightarrow> relocatable_pointer \<Rightarrow> ('e, relocatable_pointer) outcome" where
  "rp_init self_addr ptr p =
     (if isize_ok (ptr - self_addr) then Ok (p\<lparr>distance := ptr - self_addr\<rparr>) else Panic)"

definition rp_as_ptr :: "int \<Rightarrow> relocatable_pointer \<Rightarrow> ('e, int) outcome" where
  "rp_as_ptr self_addr p =
     (if isize_ok (self_addr + distance p) then Ok (self_addr + distance p) else Panic)"

section \<open>allocator.rs\<close>

datatype allocation_error =
  SizeIsZero | SizeTooLarge | AlignmentFailure | OutOfMemory | InternalError

datatype allocation_grow_error =
  Grow_ProvidedPointerNotContainedInAllocator | GrowWouldShrink | Grow_SizeIsZero
| Grow_OutOfMemory | Grow_AlignmentFailure | Grow_InternalError

datatype allocation_shrink_error =
  Shrink_ProvidedPointerNotContainedInAllocator | ShrinkWouldGrow | Shrink_SizeIsZero
| Shrink_AlignmentFailure | Shrink_InternalError

datatype deallocation_error =
  Dealloc_ProvidedPointerNotContainedInAllocator | Dealloc_InternalError

text \<open>\<^verbatim>\<open>core::alloc::Layout\<close>: a size and an alignment; \<^verbatim>\<open>Layout\<close> only admits alignments that
  are powers of two, in particular not zero.\<close>

record layout =
  lsize :: nat
  lalign :: nat

text \<open>A chunk \<^verbatim>\<open>NonNull<[u8]>\<close>: its first address and its length.\<close>

type_synonym chunk = "nat \<times> nat"

section \<open>Alignment\<close>

definition align_up :: "nat \<Rightarrow> nat \<Rightarrow> nat" where
  "align_up v a = (if v mod a = 0 then v else v + a - v mod a)"

lemma align_eq_align_up:
  assumes "0 < a" and "v + a < usize_lim"
  shows "align v a = Ok (align_up v a)"
  using assms by (simp add: align_def align_up_def trans_le_add2 less_imp_le)

lemma align_eq_Ok_D: "align v a = Ok r \<Longrightarrow> 0 < a \<and> r = align_up v a"
  by (auto simp: align_def align_up_def outcome_defs split: if_splits)

lemma align_up_dvd [simp]: "0 < a \<Longrightarrow> a dvd align_up v a"
proof -
  assume "0 < a"
  have "a dvd v + a - v mod a"
    by (metis Nat.add_diff_assoc2 dvd_minus_mod dvd_triv_right mod_less_eq_dividend mult.left_neutral dvd_add)
  then show ?thesis by (auto simp: align_up_def)
qed

lemma align_up_ge: "0 < a \<Longrightarrow> v \<le> align_up v a"
proof -
  assume "0 < a"
  then have "v mod a < a" by simp
  then have "v \<le> v + a - v mod a" by linarith
  then show ?thesis by (simp add: align_up_def)
qed

lemma align_up_less: "0 < a \<Longrightarrow> align_up v a < v + a"
  by (simp add: align_up_def)

lemma align_up_least: "a dvd m \<Longrightarrow> v \<le> m \<Longrightarrow> align_up v a \<le> m"
proof (cases "v mod a = 0")
  case False
  assume dvd: "a dvd m" and le: "v \<le> m"
  have "v div a < m div a"
    using dvd le False by (metis dvd_div_mult_self div_le_mono le_neq_implies_less mod_0_imp_dvd
        dvd_triv_right le_antisym div_times_less_eq_dividend minus_mod_eq_div_mult mod_eq_0_iff_dvd)
  then have "v div a * a + a \<le> m div a * a"
    by (metis Suc_leI add.commute mult_Suc mult_le_mono1)
  moreover have "v + a - v mod a = v div a * a + a"
    by (metis Nat.add_diff_assoc2 minus_mod_eq_div_mult mod_less_eq_dividend)
  ultimately show ?thesis using dvd False by (simp add: align_up_def)
qed (simp add: align_up_def)

text \<open>\<^verbatim>\<open>align\<close> returns the least multiple of the alignment that is not below the value,
  whenever the alignment is not zero and the sum does not overflow.\<close>

theorem align_correct:
  assumes "0 < a" and "v + a < usize_lim"
  shows "\<exists>r. align v a = (Ok r :: (unit, usize) outcome) \<and> a dvd r \<and> v \<le> r \<and> r < v + a
           \<and> (\<forall>m. a dvd m \<and> v \<le> m \<longrightarrow> r \<le> m)"
proof (intro exI conjI allI impI)
  show "align v a = (Ok (align_up v a) :: (unit, usize) outcome)"
    using assms by (rule align_eq_align_up)
  show "align_up v a \<le> m" if "a dvd m \<and> v \<le> m" for m
    using that by (simp add: align_up_least)
qed (use assms(1) in \<open>simp_all add: align_up_ge align_up_less\<close>)

theorem align_correct_witness:
  "\<exists>r. align 13 8 = (Ok r :: (unit, usize) outcome) \<and> 8 dvd r \<and> 13 \<le> r \<and> r < 13 + 8
           \<and> (\<forall>m. 8 dvd m \<and> 13 \<le> m \<longrightarrow> r \<le> m)"
  using align_correct [of 8 13] by (simp add: usize_lim_def)


section \<open>Powers of two\<close>

lemma word_high_bits_zero: "(\<forall>j\<ge>i. \<not> bit w j) \<longleftrightarrow> unat w < 2 ^ i" for w :: u64
proof -
  have "(\<forall>j\<ge>i. \<not> bit w j) \<longleftrightarrow> (\<forall>k. \<not> bit (drop_bit i w) k)"
    by (simp add: bit_drop_bit_eq) (metis le_iff_add)
  also have "\<dots> \<longleftrightarrow> drop_bit i w = 0"
    by (metis bit_0_eq bot_apply bot_bool_def bit_eq_iff)
  also have "\<dots> \<longleftrightarrow> unat (drop_bit i w) = 0"
    by (simp add: unat_eq_0)
  also have "\<dots> \<longleftrightarrow> unat w div 2 ^ i = 0"
    by (simp add: unat_drop_bit_eq drop_bit_eq_div [of i "unat w"])
  also have "\<dots> \<longleftrightarrow> unat w < 2 ^ i" by (simp add: div_eq_0_iff)
  finally show ?thesis .
qed

text \<open>\<open>w\<close> has bit \<open>i\<close> set when \<open>v\<close> has one of the \<open>n\<close> bits from \<open>i\<close> upwards set.\<close>

definition smears :: "u64 \<Rightarrow> nat \<Rightarrow> u64 \<Rightarrow> bool" where
  "smears v n w \<longleftrightarrow> (\<forall>i. bit w i \<longleftrightarrow> (\<exists>j. i \<le> j \<and> j < i + n \<and> bit v j))"

lemma smears_1: "smears v 1 v"
  by (auto simp: smears_def less_Suc_eq)

lemma window_split: "(\<exists>j::nat. i \<le> j \<and> j < i + (n + n) \<and> P j)
    \<longleftrightarrow> (\<exists>j. i \<le> j \<and> j < i + n \<and> P j) \<or> (\<exists>j. n + i \<le> j \<and> j < n + i + n \<and> P j)"
proof -
  have "i \<le> j \<and> j < i + (n + n) \<longleftrightarrow> (i \<le> j \<and> j < i + n) \<or> (n + i \<le> j \<and> j < n + i + n)" for j
    by arith
  then show ?thesis by blast
qed

lemma smears_step: "smears v n w \<Longrightarrow> m = n + n \<Longrightarrow> smears v m (w OR drop_bit n w)"
  by (simp add: smears_def bit_or_iff bit_drop_bit_eq window_split)

definition smear :: "u64 \<Rightarrow> u64" where
  "smear v0 = (let v1 = v0 OR drop_bit 1 v0;
               v2 = v1 OR drop_bit 2 v1;
               v3 = v2 OR drop_bit 4 v2;
               v4 = v3 OR drop_bit 8 v3;
               v5 = v4 OR drop_bit 16 v4
           in v5 OR drop_bit 32 v5)"

lemma round_to_pow2_smear:
  "round_to_pow2 v = (if v = 0 then Panic
     else if smear (v - 1) = - 1 then Panic else Ok (smear (v - 1) + 1))"
  by (simp add: round_to_pow2_def smear_def Let_def)

lemma smears_smear: "smears v 64 (smear v)"
  unfolding smear_def Let_def
  by (rule smears_step [where n = 32], rule smears_step [where n = 16],
      rule smears_step [where n = 8], rule smears_step [where n = 4],
      rule smears_step [where n = 2], rule smears_step [where n = 1], rule smears_1) simp_all

lemma bit_smear: "bit (smear v) i \<longleftrightarrow> (\<exists>j\<ge>i. bit v j)"
proof -
  have "j < i + 64" if "bit v j" for j
    using bit_imp_le_length [OF that] by simp
  then show ?thesis using smears_smear [of v] by (auto simp: smears_def)
qed

lemma smear_eq_mask:
  assumes hi: "unat v < 2 ^ k" and lo: "\<And>i. i < k \<Longrightarrow> 2 ^ i \<le> unat v"
  shows "smear v = mask k"
proof (rule bit_word_eqI)
  fix i
  assume "i < LENGTH(64)"
  have "bit (smear v) i \<longleftrightarrow> \<not> unat v < 2 ^ i"
    by (simp add: bit_smear flip: word_high_bits_zero)
  also have "\<dots> \<longleftrightarrow> i < k"
  proof
    assume "\<not> unat v < 2 ^ i"
    with hi have "(2::nat) ^ i < 2 ^ k" by linarith
    then show "i < k" by simp
  qed (use lo in \<open>simp add: not_less\<close>)
  finally show "bit (smear v) i \<longleftrightarrow> bit (mask k :: u64) i"
    using \<open>i < LENGTH(64)\<close> by (simp add: bit_mask_iff)
qed

lemma unat_exp_u64: "k < 64 \<Longrightarrow> unat ((2 :: u64) ^ k) = 2 ^ k"
proof -
  assume "k < 64"
  then have "(2::nat) ^ k < 2 ^ LENGTH(64)" by (intro power_strict_increasing) simp_all
  then show ?thesis by (metis unat_of_nat take_bit_nat_eq_self unsigned_of_nat of_nat_numeral of_nat_power)
qed

text \<open>For every value between 1 and 2^63 \<^verbatim>\<open>round_to_pow2\<close> returns the least power of two
  that is not below it.\<close>

theorem round_to_pow2_least:
  assumes "0 < unat v" and "unat v \<le> 2 ^ 63"
  shows "\<exists>k r. round_to_pow2 v = (Ok r :: (unit, u64) outcome) \<and> unat r = 2 ^ k \<and> unat v \<le> 2 ^ k
           \<and> (\<forall>j. unat v \<le> 2 ^ j \<longrightarrow> k \<le> j)"
proof -
  define k where "k = (LEAST k. unat v \<le> 2 ^ k)"
  have ge: "unat v \<le> 2 ^ k" unfolding k_def by (rule LeastI) (rule assms(2))
  have least: "k \<le> j" if "unat v \<le> 2 ^ j" for j unfolding k_def using that by (rule Least_le)
  have k63: "k \<le> 63" using least assms(2) by simp
  have v0: "v \<noteq> 0" using assms(1) by auto
  have pred: "unat (v - 1) = unat v - 1"
    using v0 by (simp add: unat_minus_one)
  have "unat (v - 1) < 2 ^ k" using pred ge assms(1) by linarith
  moreover have "2 ^ i \<le> unat (v - 1)" if "i < k" for i
  proof -
    have "2 ^ i < unat v" using least [of i] that by (meson linorder_not_le)
    then show ?thesis using pred by simp
  qed
  ultimately have sm: "smear (v - 1) = mask k" by (rule smear_eq_mask)
  have "mask k + 1 = (2 ^ k :: u64)" by (simp add: mask_eq_exp_minus_1)
  moreover have exp: "unat (2 ^ k :: u64) = 2 ^ k" using k63 by (simp add: unat_exp_u64)
  moreover have "mask k \<noteq> (- 1 :: u64)"
  proof
    assume "mask k = (- 1 :: u64)"
    then have "(2 ^ k :: u64) = 0" using calculation(1) by simp
    with exp have "(2 :: nat) ^ k = 0" by simp
    then show False by simp
  qed
  ultimately have "round_to_pow2 v = Ok (2 ^ k)" "unat (2 ^ k :: u64) = 2 ^ k"
    using sm v0 by (simp_all add: round_to_pow2_smear)
  then show ?thesis using ge least by blast
qed

theorem round_to_pow2_least_witness:
  "\<exists>k r. round_to_pow2 5 = (Ok r :: (unit, u64) outcome) \<and> unat r = 2 ^ k \<and> unat (5 :: u64) \<le> 2 ^ k
           \<and> (\<forall>j. unat (5 :: u64) \<le> 2 ^ j \<longrightarrow> k \<le> j)"
  by (rule round_to_pow2_least) simp_all

declare log2_loop.simps [simp del]

lemma log2_loop_exp:
  "k < 64 \<Longrightarrow> i + k < 64 \<Longrightarrow> log2_loop i (2 ^ k) = i + k"
proof (induction k arbitrary: i)
  case 0
  then show ?case by (subst log2_loop.simps) simp
next
  case (Suc k)
  have ne: "(2 :: u64) ^ Suc k \<noteq> 1"
  proof
    assume "(2 :: u64) ^ Suc k = 1"
    then have "unat ((2 :: u64) ^ Suc k) = 1" by simp
    with Suc.prems(1) show False by (simp add: unat_exp_u64 del: power_Suc)
  qed
  have "drop_bit 1 ((2 :: u64) ^ Suc k) = 2 ^ k"
    using Suc.prems(1) by (intro bit_word_eqI) (auto simp: bit_drop_bit_eq bit_exp_iff simp del: power_Suc)
  with ne Suc show ?case by (subst log2_loop.simps) (simp del: power_Suc)
qed

text \<open>\<^verbatim>\<open>log2_of_power_of_2\<close> inverts the power on every power of two that a \<^verbatim>\<open>u64\<close> can hold.\<close>

theorem log2_of_power_of_2_exp: "k < 64 \<Longrightarrow> log2_of_power_of_2 (2 ^ k) = k"
  using log2_loop_exp [of k 0] by (simp add: log2_of_power_of_2_def)

theorem log2_of_power_of_2_exp_witness: "(5::nat) < 64 \<and> log2_of_power_of_2 (2 ^ 5) = 5"
  using log2_of_power_of_2_exp [of 5] by simp

section \<open>Relocation\<close>

text \<open>A pointer initialised at one address resolves, after the whole segment has been mapped
  \<open>delta\<close> bytes further, to the same object moved by \<open>delta\<close>.\<close>

theorem relocatable_pointer_relocates:
  assumes "rp_init self_addr ptr p = (Ok p' :: (unit, relocatable_pointer) outcome)" and "isize_ok (ptr + delta)"
  shows "rp_as_ptr (self_addr + delta) p' = (Ok (ptr + delta) :: (unit, int) outcome)"
  using assms by (auto simp: rp_init_def rp_as_ptr_def add.commute split: if_splits)

theorem relocatable_pointer_relocates_witness:
  "rp_as_ptr (1000 + 4096) (rp_new (-232)) = (Ok (768 + 4096) :: (unit, int) outcome)"
  by (rule relocatable_pointer_relocates [where p = rp_new_uninit])
    (simp_all add: rp_init_def rp_new_uninit_def rp_new_def isize_ok_def)

end
