(* ===== verification/UniqueIndexSet.thy ===== *)
theory UniqueIndexSet
  imports Elementary
begin

text \<open>
  \<^verbatim>\<open>elkodon_bb/lock_free/src/mpmc/unique_index_set.rs\<close>: the lock-free set of indices, the
  building block of the pool allocator and of the lock-free container.

  The free indices form a linked list inside of the array \<open>u_cells\<close>; \<open>u_head\<close> packs the
  first free index and a counter that makes every successful exchange visible (ABA). The two
  loops over \<^verbatim>\<open>compare_exchange\<close> are modelled as program counters (\<open>uis_pc\<close>) and one
  step function (\<open>uis_step\<close>), where one step is one access to shared memory. An operation that
  runs alone is the iteration of the step function (\<open>uis_run\<close>); the interleaved execution by
  many threads is in the theory \<open>UniqueIndexSet_Conc\<close>.

  The lemmas show that the pair of head and counter is packed without loss, that an operation
  that runs alone always returns, and that acquire and release refine a stack of free indices.
\<close>

unbundle bit_operations_syntax

section \<open>State\<close>

datatype unique_index_creation_error =
  ProvidedCapacityGreaterThanMaxCapacity | ProvidedCapacityIsZero

record unique_index_set =
  u_cells :: "u32 option list"
  u_capacity :: u32
  u_head :: u64
  u_init :: bool

definition extract_head_and_aba :: "u64 \<Rightarrow> u32 \<times> u32" where
  "extract_head_and_aba value = (ucast (drop_bit 32 value), ucast (drop_bit 32 (push_bit 32 value)))"

definition pack_from_head_and_aba :: "u32 \<Rightarrow> u32 \<Rightarrow> u64" where
  "pack_from_head_and_aba value1 value2 = push_bit 32 (ucast value1) OR ucast value2"

section \<open>Construction\<close>

text \<open>\<^verbatim>\<open>capacity as u32\<close> truncates.\<close>

definition uis_new_uninit :: "usize \<Rightarrow> unique_index_set" where
  "uis_new_uninit capacity =
     \<lparr>u_cells = [], u_capacity = word_of_nat capacity, u_head = 0, u_init = False\<rparr>"

text \<open>The allocator is a parameter: it answers a layout with a chunk or an error.\<close>

text \<open>\<open>uis_init\<close> is the case of an allocator whose state does not matter.\<close>

definition uis_init_in ::
  "('s \<Rightarrow> layout \<Rightarrow> (allocation_error, 's \<times> chunk) outcome) \<Rightarrow> 's \<Rightarrow> unique_index_set
     \<Rightarrow> (allocation_error, 's \<times> unique_index_set) outcome" where
  "uis_init_in allocate a s =
     (if u_init s then Panic
      else obind (add_u32 (u_capacity s) 1) (\<lambda>n.
        obind (allocate a \<lparr>lsize = 4 * unat n, lalign = 4\<rparr>) (\<lambda>(a', _).
          Ok (a', s\<lparr>u_cells := map (\<lambda>i. Some (word_of_nat (i + 1))) [0 ..< unat n], u_init := True\<rparr>))))"

definition uis_init ::
  "(layout \<Rightarrow> (allocation_error, chunk) outcome) \<Rightarrow> unique_index_set \<Rightarrow> (allocation_error, unique_index_set) outcome" where
  "uis_init allocate s = omap snd (uis_init_in (\<lambda>_ l. omap (Pair ()) (allocate l)) () s)"

text \<open>\<^verbatim>\<open>RelocatableContainer::new\<close> takes memory that the caller has prepared.\<close>

definition uis_new :: "usize \<Rightarrow> u32 option list \<Rightarrow> unique_index_set" where
  "uis_new capacity cells =
     \<lparr>u_cells = cells, u_capacity = word_of_nat capacity, u_head = 0, u_init = True\<rparr>"

definition uis_const_memory_size :: "usize \<Rightarrow> ('e, usize) outcome" where
  "uis_const_memory_size capacity =
     obind (uadd capacity 1) (\<lambda>c. obind (umul 4 c) (\<lambda>m. obind (uadd m 4) (\<lambda>n. usub n 1)))"

definition fixed_uis_default :: "usize \<Rightarrow> unique_index_set" where
  "fixed_uis_default CAPACITY =
     uis_new CAPACITY (map (\<lambda>i. Some (word_of_nat i + 1)) [0 ..< CAPACITY] @ [Some (word_of_nat CAPACITY + 1)])"

definition new_with_reduced_capacity ::
  "usize \<Rightarrow> usize \<Rightarrow> (unique_index_creation_error, unique_index_set) outcome" where
  "new_with_reduced_capacity CAPACITY capacity =
     (if CAPACITY < capacity then Err ProvidedCapacityGreaterThanMaxCapacity
      else if capacity = 0 then Err ProvidedCapacityIsZero
      else Ok (uis_new capacity
        (map (\<lambda>i. Some (word_of_nat i + 1)) [0 ..< CAPACITY] @ [Some (word_of_nat capacity + 1)])))"

section \<open>The two loops, one access to shared memory at a time\<close>

text \<open>
  \<open>AcqLoad\<close>, \<open>RelLoad\<close>: before the first load of the head. \<open>AcqTry\<close>, \<open>RelTry\<close>: top of the
  loop with the last value of the head. \<open>AcqCas\<close>, \<open>RelCas\<close>: before the exchange.
  \<open>AcqMark\<close>: the exchange has succeeded and the cell of the index is still to be overwritten.
  \<open>PcPanic\<close> remembers the index that the panicking call had in its hands.
\<close>

datatype uis_pc =
  AcqLoad | AcqTry u64 | AcqCas u64 u64 | AcqMark u32 | AcqDone "u32 option"
| RelLoad u32 | RelTry u32 u64 | RelCas u32 u64 u64 | RelDone
| PcPanic "u32 option" | PcUB

fun uis_step :: "unique_index_set \<Rightarrow> uis_pc \<Rightarrow> unique_index_set \<times> uis_pc" where
  "uis_step s AcqLoad = (s, if u_init s then AcqTry (u_head s) else PcPanic None)"
| "uis_step s (AcqTry old) =
     (case extract_head_and_aba old of (old_head, old_aba) \<Rightarrow>
        if u_capacity s \<le> old_head then (s, AcqDone None)
        else (case (raw_read (u_cells s) (unat old_head) :: (unit, u32) outcome) of
                Ok new_head \<Rightarrow>
                  (case (add_u32 old_aba 1 :: (unit, u32) outcome) of
                     Ok new_aba \<Rightarrow> (s, AcqCas old (pack_from_head_and_aba new_head new_aba))
                   | _ \<Rightarrow> (s, PcPanic None))
              | _ \<Rightarrow> (s, PcUB)))"
| "uis_step s (AcqCas old new) =
     (if u_head s = old
      then (s\<lparr>u_head := new\<rparr>, AcqMark (fst (extract_head_and_aba old)))
      else (s, AcqTry (u_head s)))"
| "uis_step s (AcqMark index) =
     (case (add_u32 (u_capacity s) 1 :: (unit, u32) outcome) of
        Ok c \<Rightarrow> (case (raw_write (u_cells s) (unat index) (Some c) :: (unit, u32 option list) outcome) of
                   Ok cells \<Rightarrow> (s\<lparr>u_cells := cells\<rparr>, AcqDone (Some index))
                 | _ \<Rightarrow> (s, PcUB))
      | _ \<Rightarrow> (s, PcPanic (Some index)))"
| "uis_step s (RelLoad index) = (s, if u_init s then RelTry index (u_head s) else PcPanic (Some index))"
| "uis_step s (RelTry index old) =
     (case extract_head_and_aba old of (old_head, old_aba) \<Rightarrow>
        (case (raw_write (u_cells s) (unat index) (Some old_head) :: (unit, u32 option list) outcome) of
           Ok cells \<Rightarrow>
             (case (add_u32 old_aba 1 :: (unit, u32) outcome) of
                Ok new_aba \<Rightarrow> (s\<lparr>u_cells := cells\<rparr>, RelCas index old (pack_from_head_and_aba index new_aba))
              | _ \<Rightarrow> (s\<lparr>u_cells := cells\<rparr>, PcPanic (Some index)))
         | _ \<Rightarrow> (s, PcUB)))"
| "uis_step s (RelCas index old new) =
     (if u_head s = old then (s\<lparr>u_head := new\<rparr>, RelDone) else (s, RelTry index (u_head s)))"
| "uis_step s (AcqDone r) = (s, AcqDone r)"
| "uis_step s RelDone = (s, RelDone)"
| "uis_step s (PcPanic i) = (s, PcPanic i)"
| "uis_step s PcUB = (s, PcUB)"

fun uis_final :: "uis_pc \<Rightarrow> bool" where
  "uis_final (AcqDone r) = True"
| "uis_final RelDone = True"
| "uis_final (PcPanic i) = True"
| "uis_final PcUB = True"
| "uis_final _ = False"

section \<open>Operations that run alone\<close>

primrec uis_run :: "nat \<Rightarrow> unique_index_set \<Rightarrow> uis_pc \<Rightarrow> unique_index_set \<times> uis_pc" where
  "uis_run 0 s pc = (s, pc)"
| "uis_run (Suc n) s pc = (case uis_step s pc of (s', pc') \<Rightarrow> uis_run n s' pc')"

text \<open>Four steps are enough for an operation that no other thread interrupts
  (\<open>uis_run_acquire_final\<close>, \<open>uis_run_release_final\<close>); a program counter that is not final
  does not occur.\<close>

fun uis_outcome :: "unique_index_set \<times> uis_pc \<Rightarrow> ('e, unique_index_set \<times> u32 option) outcome" where
  "uis_outcome (s, AcqDone r) = Ok (s, r)"
| "uis_outcome (s, RelDone) = Ok (s, None)"
| "uis_outcome (s, PcPanic i) = Panic"
| "uis_outcome (s, _) = UB"

definition acquire_raw_index :: "unique_index_set \<Rightarrow> ('e, unique_index_set \<times> u32 option) outcome" where
  "acquire_raw_index s = uis_outcome (uis_run 4 s AcqLoad)"

definition release_raw_index :: "unique_index_set \<Rightarrow> u32 \<Rightarrow> ('e, unique_index_set) outcome" where
  "release_raw_index s index = omap fst (uis_outcome (uis_run 4 s (RelLoad index)))"

text \<open>\<^verbatim>\<open>UniqueIndex\<close>: the value and the cleanup callback, which acts on the state \<open>'c\<close> of its
  owner. Dropping the index calls the callback first and releases the index then.\<close>

record 'c unique_index =
  ui_value :: u32
  ui_cleanup :: "(u32 \<Rightarrow> 'c \<Rightarrow> 'c) option"

definition uis_acquire :: "unique_index_set \<Rightarrow> ('e, unique_index_set \<times> 'c unique_index option) outcome" where
  "uis_acquire s =
     (if u_init s then
        omap (\<lambda>(s', r). (s', map_option (\<lambda>v. \<lparr>ui_value = v, ui_cleanup = None\<rparr>) r)) (acquire_raw_index s)
      else Panic)"

definition acquire_with_additional_cleanup ::
  "(u32 \<Rightarrow> 'c \<Rightarrow> 'c) \<Rightarrow> unique_index_set \<Rightarrow> ('e, unique_index_set \<times> 'c unique_index option) outcome" where
  "acquire_with_additional_cleanup cleanup_callback s =
     (if u_init s then
        omap (\<lambda>(s', r). (s', map_option (\<lambda>v. \<lparr>ui_value = v, ui_cleanup = Some cleanup_callback\<rparr>) r))
          (acquire_raw_index s)
      else Panic)"

definition unique_index_drop ::
  "'c unique_index \<Rightarrow> 'c \<Rightarrow> unique_index_set \<Rightarrow> ('e, 'c \<times> unique_index_set) outcome" where
  "unique_index_drop i c s =
     (let c' = (case ui_cleanup i of Some f \<Rightarrow> f (ui_value i) c | None \<Rightarrow> c)
      in omap (\<lambda>s'. (c', s')) (release_raw_index s (ui_value i)))"

section \<open>Packing\<close>

lemma ucast_u64_u32_eq: "unat (ucast v :: u32) = unat v mod 2 ^ 32" for v :: u64
  by (simp add: unsigned_ucast_eq take_bit_eq_mod)

lemma bit_u32_high [simp]: "\<not> bit a (32 + n)" for a :: u32
  using bit_imp_le_length [of a "32 + n"] by auto

lemma extract_pack [simp]: "extract_head_and_aba (pack_from_head_and_aba h a) = (h, a)"
  by (auto simp: extract_head_and_aba_def pack_from_head_and_aba_def bit_simps
      intro!: bit_word_eqI)

lemma pack_extract [simp]:
  "pack_from_head_and_aba (fst (extract_head_and_aba v)) (snd (extract_head_and_aba v)) = v"
  by (auto simp: extract_head_and_aba_def pack_from_head_and_aba_def bit_simps
      intro!: bit_word_eqI)

section \<open>The list of free indices\<close>

fun chain :: "u32 option list \<Rightarrow> u32 \<Rightarrow> u32 \<Rightarrow> u32 list \<Rightarrow> bool" where
  "chain cells c h [] \<longleftrightarrow> c \<le> h"
| "chain cells c h (i # is) \<longleftrightarrow>
     h = i \<and> i < c \<and> (case cells ! unat i of Some n \<Rightarrow> chain cells c n is | None \<Rightarrow> False)"

primrec walk :: "nat \<Rightarrow> u32 option list \<Rightarrow> u32 \<Rightarrow> u32 \<Rightarrow> u32 list" where
  "walk 0 cells c h = []"
| "walk (Suc n) cells c h =
     (if c \<le> h then [] else case cells ! unat h of Some m \<Rightarrow> h # walk n cells c m | None \<Rightarrow> [])"

abbreviation head_index :: "unique_index_set \<Rightarrow> u32" where
  "head_index s \<equiv> fst (extract_head_and_aba (u_head s))"

abbreviation head_aba :: "unique_index_set \<Rightarrow> u32" where
  "head_aba s \<equiv> snd (extract_head_and_aba (u_head s))"

definition uis_free :: "unique_index_set \<Rightarrow> u32 list" where
  "uis_free s = walk (unat (u_capacity s)) (u_cells s) (u_capacity s) (head_index s)"

text \<open>The memory part of the invariant: memory initialised, one cell per index and one more, no
  uninitialised cell, and a capacity whose successor is representable.\<close>

definition uis_mem :: "unique_index_set \<Rightarrow> bool" where
  "uis_mem s \<longleftrightarrow> u_init s \<and> unat (u_capacity s) + 1 < 2 ^ 32 \<and> unat (u_capacity s) < length (u_cells s)
     \<and> None \<notin> set (u_cells s)"

definition uis_wf :: "unique_index_set \<Rightarrow> bool" where
  "uis_wf s \<longleftrightarrow> uis_mem s \<and> chain (u_cells s) (u_capacity s) (head_index s) (uis_free s)
     \<and> distinct (uis_free s)"

lemma chain_less: "chain cells c h is \<Longrightarrow> i \<in> set is \<Longrightarrow> i < c"
  by (induction "is" arbitrary: h) (auto split: option.splits)

lemma distinct_below_length:
  assumes "distinct is" and "\<And>i. i \<in> set is \<Longrightarrow> i < (c :: u32)"
  shows "length is \<le> unat c"
proof -
  have "unat ` set is \<subseteq> {..< unat c}" using assms(2) by (auto simp: word_less_nat_alt)
  then have "card (unat ` set is) \<le> unat c" using card_mono [of "{..< unat c}"] by fastforce
  moreover have "card (unat ` set is) = length is"
    using assms(1) card_image [of unat "set is"] by (simp add: distinct_card inj_onI unsigned_word_eqI)
  ultimately show ?thesis by simp
qed

lemma chain_walk: "chain cells c h is \<Longrightarrow> length is \<le> n \<Longrightarrow> walk n cells c h = is"
proof (induction "is" arbitrary: h n)
  case Nil
  then show ?case by (cases n) auto
next
  case (Cons i "is")
  then show ?case by (cases n) (auto split: option.splits)
qed

lemma uis_free_eqI:
  assumes "chain (u_cells s) (u_capacity s) (head_index s) is" and "distinct is"
  shows "uis_free s = is"
  unfolding uis_free_def
  using assms chain_less distinct_below_length by (intro chain_walk) blast+

lemma uis_wfI:
  assumes "uis_mem s" and "chain (u_cells s) (u_capacity s) (head_index s) is" and "distinct is"
  shows "uis_wf s \<and> uis_free s = is"
  using uis_free_eqI [OF assms(2,3)] assms by (simp add: uis_wf_def)

lemma uis_wfD:
  assumes "uis_wf s"
  shows "uis_mem s" and "chain (u_cells s) (u_capacity s) (head_index s) (uis_free s)"
    and "distinct (uis_free s)"
  using assms by (simp_all add: uis_wf_def)

lemma chain_update:
  "i \<notin> set is \<Longrightarrow> chain (cells[unat i := v]) c h is = chain cells c h is"
proof (induction "is" arbitrary: h)
  case (Cons x "is")
  then have "x \<noteq> i" by auto
  then have "unat i \<noteq> unat x" using unsigned_word_eqI by blast
  then have "cells[unat i := v] ! unat x = cells ! unat x" by simp
  then show ?case using Cons by (cases "cells ! unat x") simp_all
qed simp

lemma None_notin_update: "None \<notin> set xs \<Longrightarrow> None \<notin> set (xs[i := Some v])"
  using set_update_subset_insert [of xs i "Some v"] by blast

lemma uis_mem_update:
  "uis_mem s \<Longrightarrow> uis_mem (s\<lparr>u_cells := (u_cells s)[i := Some v], u_head := h\<rparr>)"
  by (simp add: uis_mem_def None_notin_update)

lemma uis_mem_read: "uis_mem s \<Longrightarrow> i < u_capacity s \<Longrightarrow> \<exists>v. u_cells s ! unat i = Some v"
  by (auto simp: uis_mem_def word_less_nat_alt) (metis less_trans nth_mem option.exhaust_sel)

lemma uis_mem_index: "uis_mem s \<Longrightarrow> i < u_capacity s \<Longrightarrow> unat i < length (u_cells s)"
  by (simp add: uis_mem_def word_less_nat_alt)

lemma uis_mem_succ: "uis_mem s \<Longrightarrow> add_u32 (u_capacity s) 1 = Ok (u_capacity s + 1)"
  by (simp add: uis_mem_def add_u32_def)

section \<open>Operations that run alone\<close>

text \<open>The number of exchanges until the counter of the head overflows.\<close>

definition uis_budget :: "unique_index_set \<Rightarrow> nat" where
  "uis_budget s = 2 ^ 32 - 1 - unat (head_aba s)"

lemma add_aba: "0 < uis_budget s \<Longrightarrow> add_u32 (head_aba s) 1 = Ok (head_aba s + 1)"
  by (simp add: uis_budget_def add_u32_def)

lemma unat_aba_Suc: "0 < uis_budget s \<Longrightarrow> unat (head_aba s + 1) = Suc (unat (head_aba s))"
  using unsigned_less [of "head_aba s"] by (simp add: uis_budget_def unat_word_ariths)

lemma uis_run_4:
  "uis_run 4 s pc = (case uis_step s pc of (s1, pc1) \<Rightarrow> case uis_step s1 pc1 of (s2, pc2) \<Rightarrow>
     case uis_step s2 pc2 of (s3, pc3) \<Rightarrow> uis_step s3 pc3)"
  by (simp add: numeral_eq_Suc case_prod_beta)

lemma acquire_raw_index_empty:
  assumes "uis_wf s" and "uis_free s = []"
  shows "acquire_raw_index s = Ok (s, None)"
  using uis_wfD [OF assms(1)] assms(2)
  by (simp add: acquire_raw_index_def uis_run_4 uis_mem_def case_prod_beta)

lemma acquire_raw_index_Cons:
  assumes "uis_wf s" and "uis_free s = i # is" and "0 < uis_budget s"
  shows "\<exists>s'. acquire_raw_index s = (Ok (s', Some i) :: ('e, _) outcome) \<and> uis_wf s' \<and> uis_free s' = is
           \<and> u_capacity s' = u_capacity s \<and> uis_budget s' = uis_budget s - 1"
proof -
  note wf = uis_wfD [OF assms(1)]
  have h: "head_index s = i" and ic: "i < u_capacity s" using wf(2) assms(2) by auto
  obtain n where n: "u_cells s ! unat i = Some n" using uis_mem_read [OF wf(1) ic] by blast
  have ch: "chain (u_cells s) (u_capacity s) n is" and di: "distinct is" "i \<notin> set is"
    using wf(2,3) assms(2) n by auto
  let ?s = "s\<lparr>u_cells := (u_cells s)[unat i := Some (u_capacity s + 1)],
              u_head := pack_from_head_and_aba n (head_aba s + 1)\<rparr>"
  have "acquire_raw_index s = (Ok (?s, Some i) :: ('e, _) outcome)"
    using wf(1) h ic n add_aba [OF assms(3), where ?'a = unit] uis_mem_index [OF wf(1) ic] uis_mem_succ [OF wf(1), where ?'a = unit]
    by (simp add: acquire_raw_index_def uis_run_4 uis_mem_def case_prod_beta)
  moreover have "uis_wf ?s \<and> uis_free ?s = is"
  proof (rule uis_wfI)
    show "uis_mem ?s" using wf(1) by (rule uis_mem_update)
  qed (use ch di in \<open>simp_all add: chain_update\<close>)
  moreover have "uis_budget ?s = uis_budget s - 1"
    using unat_aba_Suc [OF assms(3)] by (simp add: uis_budget_def)
  ultimately show ?thesis by fastforce
qed

lemma release_raw_index_Ok:
  assumes "uis_wf s" and "i < u_capacity s" and "i \<notin> set (uis_free s)" and "0 < uis_budget s"
  shows "\<exists>s'. release_raw_index s i = (Ok s' :: ('e, _) outcome) \<and> uis_wf s' \<and> uis_free s' = i # uis_free s
           \<and> u_capacity s' = u_capacity s \<and> uis_budget s' = uis_budget s - 1"
proof -
  note wf = uis_wfD [OF assms(1)]
  let ?s = "s\<lparr>u_cells := (u_cells s)[unat i := Some (head_index s)],
              u_head := pack_from_head_and_aba i (head_aba s + 1)\<rparr>"
  have "release_raw_index s i = (Ok ?s :: ('e, _) outcome)"
    using wf(1) assms(2) add_aba [OF assms(4), where ?'a = unit] uis_mem_index [OF wf(1) assms(2)]
    by (simp add: release_raw_index_def uis_run_4 uis_mem_def case_prod_beta)
  moreover have "uis_wf ?s \<and> uis_free ?s = i # uis_free s"
  proof (rule uis_wfI)
    show "uis_mem ?s" using wf(1) by (rule uis_mem_update)
    show "chain (u_cells ?s) (u_capacity ?s) (head_index ?s) (i # uis_free s)"
      using wf(2) assms(2,3) uis_mem_index [OF wf(1) assms(2)] by (simp add: chain_update)
  qed (use wf(3) assms(3) in simp)
  moreover have "uis_budget ?s = uis_budget s - 1"
    using unat_aba_Suc [OF assms(4)] by (simp add: uis_budget_def)
  ultimately show ?thesis by fastforce
qed

lemma add_aba_overflow: "head_aba s = - 1 \<Longrightarrow> add_u32 (head_aba s) 1 = Panic"
  by (simp add: add_u32_def unsigned_minus_1_eq_mask mask_eq_exp_minus_1)

lemma acquire_raw_index_overflow:
  assumes "uis_wf s" and "head_aba s = - 1" and "uis_free s \<noteq> []"
  shows "acquire_raw_index s = Panic"
proof -
  note wf = uis_wfD [OF assms(1)]
  obtain i "is" where f: "uis_free s = i # is" using assms(3) by (cases "uis_free s") auto
  then have h: "head_index s = i" "i < u_capacity s" using wf(2) by auto
  moreover obtain n where "u_cells s ! unat i = Some n" using uis_mem_read [OF wf(1)] h(2) by blast
  ultimately show ?thesis
    using wf(1) add_aba_overflow [OF assms(2), where ?'a = unit] uis_mem_index [OF wf(1), of i]
    by (simp add: acquire_raw_index_def uis_run_4 uis_mem_def case_prod_beta)
qed

lemma release_raw_index_overflow:
  assumes "uis_wf s" and "head_aba s = - 1" and "i < u_capacity s"
  shows "release_raw_index s i = Panic"
  using uis_wfD(1) [OF assms(1)] add_aba_overflow [OF assms(2), where ?'a = unit] uis_mem_index [OF uis_wfD(1) [OF assms(1)] assms(3)]
  by (simp add: release_raw_index_def uis_run_4 uis_mem_def case_prod_beta)

lemma uis_budget_0: "uis_budget s = 0 \<longleftrightarrow> head_aba s = - 1"
proof
  assume "uis_budget s = 0"
  then have "unat (head_aba s) = unat (- 1 :: u32)"
    using unsigned_less [of "head_aba s", where ?'a = nat] by (simp add: uis_budget_def unsigned_minus_1_eq_mask mask_eq_exp_minus_1)
  then show "head_aba s = - 1" by (rule unsigned_word_eqI)
qed (simp add: uis_budget_def unsigned_minus_1_eq_mask mask_eq_exp_minus_1)

lemma uis_run_add: "uis_run (m + n) s pc = (case uis_run m s pc of (s', pc') \<Rightarrow> uis_run n s' pc')"
  by (induction m arbitrary: s pc) (auto split: prod.splits)

lemma uis_run_acquire_final: "uis_final (snd (uis_run 4 s AcqLoad))"
  by (auto simp: uis_run_4 case_prod_beta split: outcome.splits)

lemma uis_run_release_final: "uis_final (snd (uis_run 4 s (RelLoad i)))"
  by (auto simp: uis_run_4 case_prod_beta split: outcome.splits)

section \<open>Creation\<close>

lemma unat_word_of_nat_u32: "n < 2 ^ 32 \<Longrightarrow> unat (word_of_nat n :: u32) = n"
  by (simp add: unsigned_of_nat take_bit_nat_eq_self)

lemma chain_init:
  assumes "\<And>j. j < n \<Longrightarrow> cells ! j = Some (word_of_nat (Suc j))" and "n < 2 ^ 32" and "k \<le> n"
  shows "chain cells (word_of_nat n) (word_of_nat k) (map word_of_nat [k ..< n])"
  using assms(3)
proof (induction "n - k" arbitrary: k)
  case 0
  then show ?case by simp
next
  case (Suc d)
  then have k: "k < n" and d: "d = n - Suc k" by simp_all
  have "chain cells (word_of_nat n) (word_of_nat (Suc k)) (map word_of_nat [Suc k ..< n])"
    using Suc.hyps(1) [OF d] k by simp
  moreover have "(word_of_nat k :: u32) < word_of_nat n"
    using k assms(2) by (simp add: word_less_nat_alt unat_word_of_nat_u32)
  ultimately show ?case
    using k assms(1) [OF k] assms(2) by (simp add: upt_conv_Cons unat_word_of_nat_u32)
qed

lemma uis_initial:
  assumes "u_init s" and "u_head s = 0" and "u_capacity s = word_of_nat n" and "n + 1 < 2 ^ 32"
    and "n < length (u_cells s)" and "None \<notin> set (u_cells s)"
    and "\<And>j. j < n \<Longrightarrow> u_cells s ! j = Some (word_of_nat (Suc j))"
  shows "uis_wf s \<and> uis_free s = map word_of_nat [0 ..< n] \<and> uis_budget s = 2 ^ 32 - 1"
proof -
  have n: "n < 2 ^ 32" using assms(4) by simp
  have h: "extract_head_and_aba 0 = (0, 0)" by (simp add: extract_head_and_aba_def)
  have "uis_wf s \<and> uis_free s = map word_of_nat [0 ..< n]"
  proof (rule uis_wfI)
    show "uis_mem s" using assms unat_word_of_nat_u32 [OF n] by (simp add: uis_mem_def)
    show "chain (u_cells s) (u_capacity s) (head_index s) (map word_of_nat [0 ..< n])"
      using chain_init [of n "u_cells s" 0] assms n h by simp
    have "inj_on (word_of_nat :: nat \<Rightarrow> u32) {0 ..< n}"
      using n by (intro inj_onI) (metis atLeastLessThan_iff less_trans unat_word_of_nat_u32)
    then show "distinct (map (word_of_nat :: nat \<Rightarrow> u32) [0 ..< n])"
      by (simp add: distinct_map)
  qed
  then show ?thesis using assms(2) h by (simp add: uis_budget_def)
qed

lemma fixed_uis_default_initial:
  assumes "n + 1 < 2 ^ 32"
  shows "uis_wf (fixed_uis_default n) \<and> uis_free (fixed_uis_default n) = map word_of_nat [0 ..< n]
    \<and> uis_budget (fixed_uis_default n) = 2 ^ 32 - 1"
  using assms by (intro uis_initial) (auto simp: fixed_uis_default_def uis_new_def nth_append add.commute)

lemma uis_init_in_initial:
  assumes "n + 1 < 2 ^ 32" and "allocate a \<lparr>lsize = 4 * (n + 1), lalign = 4\<rparr> = Ok (a', chunk)"
  shows "\<exists>s. uis_init_in allocate a (uis_new_uninit n) = Ok (a', s) \<and> uis_wf s \<and> uis_free s = map word_of_nat [0 ..< n]
    \<and> u_capacity s = word_of_nat n \<and> uis_budget s = 2 ^ 32 - 1"
proof -
  have u: "unat (word_of_nat n :: u32) = n" "unat (word_of_nat n + 1 :: u32) = n + 1"
    using assms(1) unat_word_of_nat_u32 [of n] by (simp_all add: unat_word_ariths)
  let ?s = "\<lparr>u_cells = map (\<lambda>i. Some (word_of_nat (i + 1))) [0 ..< n + 1], u_capacity = word_of_nat n,
              u_head = 0, u_init = True\<rparr>"
  have "uis_init_in allocate a (uis_new_uninit n) = Ok (a', ?s)"
    using assms u by (simp add: uis_init_in_def uis_new_uninit_def add_u32_def)
  moreover have "uis_wf ?s \<and> uis_free ?s = map word_of_nat [0 ..< n] \<and> uis_budget ?s = 2 ^ 32 - 1"
    using assms(1) by (intro uis_initial) (auto simp del: upt_Suc simp: nth_append)
  ultimately show ?thesis by fastforce
qed

lemma uis_init_initial:
  assumes "n + 1 < 2 ^ 32" and "allocate \<lparr>lsize = 4 * (n + 1), lalign = 4\<rparr> = Ok chunk"
  shows "\<exists>s. uis_init allocate (uis_new_uninit n) = Ok s \<and> uis_wf s \<and> uis_free s = map word_of_nat [0 ..< n]
    \<and> u_capacity s = word_of_nat n \<and> uis_budget s = 2 ^ 32 - 1"
proof -
  have "omap (Pair ()) (allocate \<lparr>lsize = 4 * (n + 1), lalign = 4\<rparr>) = Ok ((), chunk)" using assms(2) by simp
  from uis_init_in_initial [OF assms(1), of "\<lambda>_ l. omap (Pair ()) (allocate l)", OF this] show ?thesis by (auto simp: uis_init_def)
qed

section \<open>The contract of a set of indices\<close>

text \<open>
  What the pool allocator and the lock-free container rely on: the free indices behave as a
  stack without duplicates inside of a fixed universe, an acquired index is not free any
  more, a released index is free again. \<open>budget\<close> bounds the number of further exchanges.
\<close>

locale index_set =
  fixes invar :: "'s \<Rightarrow> bool" and free :: "'s \<Rightarrow> 'i list" and universe :: "'s \<Rightarrow> 'i set"
    and budget :: "'s \<Rightarrow> nat"
    and acquire :: "'s \<Rightarrow> ('e, 's \<times> 'i option) outcome"
    and release :: "'s \<Rightarrow> 'i \<Rightarrow> ('e, 's) outcome"
  assumes free_distinct: "invar s \<Longrightarrow> distinct (free s)"
    and free_universe: "invar s \<Longrightarrow> set (free s) \<subseteq> universe s"
    and finite_universe: "invar s \<Longrightarrow> finite (universe s)"
    and acquire_none: "invar s \<Longrightarrow> free s = [] \<Longrightarrow> acquire s = Ok (s, None)"
    and acquire_some: "invar s \<Longrightarrow> free s = i # is \<Longrightarrow> 0 < budget s \<Longrightarrow>
      \<exists>s'. acquire s = Ok (s', Some i) \<and> invar s' \<and> free s' = is \<and> universe s' = universe s
        \<and> budget s' = budget s - 1"
    and release_ok: "invar s \<Longrightarrow> i \<in> universe s \<Longrightarrow> i \<notin> set (free s) \<Longrightarrow> 0 < budget s \<Longrightarrow>
      \<exists>s'. release s i = Ok s' \<and> invar s' \<and> free s' = i # free s \<and> universe s' = universe s
        \<and> budget s' = budget s - 1"
begin

text \<open>A client acquires (\<open>None\<close>) or releases its \<open>k\<close>-th oldest index (\<open>Some k\<close>).\<close>

fun client :: "nat option list \<Rightarrow> 's \<Rightarrow> 'i list \<Rightarrow> ('e, 's \<times> 'i list) outcome" where
  "client [] s held = Ok (s, held)"
| "client (None # ops) s held =
     obind (acquire s) (\<lambda>(s', r). client ops s' (case r of None \<Rightarrow> held | Some i \<Rightarrow> held @ [i]))"
| "client (Some k # ops) s held =
     (if k < length held
      then obind (release s (held ! k)) (\<lambda>s'. client ops s' (take k held @ drop (Suc k) held))
      else client ops s held)"

definition accounted :: "'s \<Rightarrow> 'i list \<Rightarrow> bool" where
  "accounted s held \<longleftrightarrow> invar s \<and> distinct (free s @ held) \<and> set (free s @ held) = universe s"

lemma distinct_take_drop: "distinct xs \<Longrightarrow> k < length xs \<Longrightarrow>
    distinct (xs ! k # take k xs @ drop (Suc k) xs) \<and> set (xs ! k # take k xs @ drop (Suc k) xs) = set xs"
  using distinct_append [of "take k xs" "xs ! k # drop (Suc k) xs"] id_take_nth_drop [of k xs]
  by (metis (no_types, lifting) Un_insert_right distinct.simps(2) distinct_append insert_iff list.simps(15)
      set_append Int_insert_right disjoint_insert(1) Un_iff)

lemma client_accounted:
  "accounted s held \<Longrightarrow> length ops \<le> budget s \<Longrightarrow>
     \<exists>s' held'. client ops s held = Ok (s', held') \<and> accounted s' held' \<and> universe s' = universe s"
proof (induction ops arbitrary: s held)
  case Nil
  then show ?case by simp
next
  case (Cons op ops)
  note acc = Cons.prems(1) [unfolded accounted_def] and b = Cons.prems(2)
  show ?case
  proof (cases op)
    case None
    show ?thesis
    proof (cases "free s")
      case Nil
      then have "acquire s = Ok (s, None)" using acquire_none acc by blast
      then show ?thesis using Cons.IH [OF Cons.prems(1)] b None by simp
    next
      case free: (Cons i "is")
      obtain s' where s': "acquire s = Ok (s', Some i)" "invar s'" "free s' = is" "universe s' = universe s"
        "budget s' = budget s - 1"
        using acquire_some [OF _ free] acc b by auto
      then have "accounted s' (held @ [i])" using acc free by (auto simp: accounted_def)
      then show ?thesis using Cons.IH [of s' "held @ [i]"] s' b None by auto
    qed
  next
    case (Some k)
    show ?thesis
    proof (cases "k < length held")
      case True
      let ?rest = "take k held @ drop (Suc k) held"
      have d: "distinct (held ! k # ?rest)" "set (held ! k # ?rest) = set held"
        using distinct_take_drop [OF _ True] acc by auto
      have "held ! k \<in> set held" using True by simp
      then obtain s' where s': "release s (held ! k) = Ok s'" "invar s'" "free s' = held ! k # free s"
        "universe s' = universe s" "budget s' = budget s - 1"
        using release_ok [of s "held ! k"] acc b by auto
      have "distinct (free s' @ ?rest) \<and> set (free s' @ ?rest) = universe s'"
        using d acc s'(3,4) by auto
      then have "accounted s' ?rest" using s'(2) by (simp add: accounted_def)
      then show ?thesis using Cons.IH [of s' ?rest] s' b Some True by auto
    next
      case False
      then show ?thesis using Cons.IH [OF Cons.prems(1)] b Some by simp
    qed
  qed
qed

lemma acquire_release_id:
  assumes "invar s" and "free s = i # is" and "1 < budget s"
  shows "\<exists>s' s''. acquire s = Ok (s', Some i) \<and> i \<notin> set (free s') \<and> release s' i = Ok s'' \<and> invar s''
           \<and> free s'' = free s \<and> universe s'' = universe s"
proof -
  obtain s' where s': "acquire s = Ok (s', Some i)" "invar s'" "free s' = is" "universe s' = universe s"
    "budget s' = budget s - 1"
    using acquire_some [OF assms(1,2)] assms(3) by auto
  moreover have "i \<notin> set is" "i \<in> universe s'"
    using free_distinct free_universe assms s' by fastforce+
  ultimately show ?thesis using release_ok [of s' i] assms(2,3) by auto
qed

end

interpretation uis: index_set uis_wf uis_free "\<lambda>s. {i. i < u_capacity s}" uis_budget
  acquire_raw_index release_raw_index
proof unfold_locales
  show "uis_wf s \<Longrightarrow> set (uis_free s) \<subseteq> {i. i < u_capacity s}" for s
    using chain_less uis_wfD(2) by blast
  show "uis_wf s \<Longrightarrow> uis_free s = i # is \<Longrightarrow> 0 < uis_budget s \<Longrightarrow>
    \<exists>s'. acquire_raw_index s = Ok (s', Some i) \<and> uis_wf s' \<and> uis_free s' = is
      \<and> {i. i < u_capacity s'} = {i. i < u_capacity s} \<and> uis_budget s' = uis_budget s - 1" for s i "is"
    using acquire_raw_index_Cons by fastforce
  show "uis_wf s \<Longrightarrow> i \<in> {i. i < u_capacity s} \<Longrightarrow> i \<notin> set (uis_free s) \<Longrightarrow> 0 < uis_budget s \<Longrightarrow>
    \<exists>s'. release_raw_index s i = Ok s' \<and> uis_wf s' \<and> uis_free s' = i # uis_free s
      \<and> {i. i < u_capacity s'} = {i. i < u_capacity s} \<and> uis_budget s' = uis_budget s - 1" for s i
    using release_raw_index_Ok by fastforce
qed (simp_all add: uis_wfD(3) acquire_raw_index_empty)

text \<open>A well-formed set refines a stack of free indices: \<^verbatim>\<open>acquire_raw_index\<close> returns \<^verbatim>\<open>None\<close>
  exactly when no index is free and otherwise pops the top index, \<^verbatim>\<open>release_raw_index\<close> of an index
  that is not free pushes it, and both keep the set well-formed, as long as the counter of the
  head does not overflow.\<close>

theorem index_set_refines_stack:
  assumes "uis_wf s" and "0 < uis_budget s"
  shows "(case uis_free s of
            [] \<Rightarrow> acquire_raw_index s = (Ok (s, None) :: (unit, _) outcome)
          | i # is \<Rightarrow> \<exists>s'. acquire_raw_index s = (Ok (s', Some i) :: (unit, _) outcome) \<and> uis_wf s' \<and> uis_free s' = is)
    \<and> (\<forall>i. i < u_capacity s \<and> i \<notin> set (uis_free s) \<longrightarrow>
          (\<exists>s'. release_raw_index s i = (Ok s' :: (unit, _) outcome) \<and> uis_wf s' \<and> uis_free s' = i # uis_free s))"
proof (intro conjI allI impI)
  show "case uis_free s of
            [] \<Rightarrow> acquire_raw_index s = (Ok (s, None) :: (unit, _) outcome)
          | i # is \<Rightarrow> \<exists>s'. acquire_raw_index s = (Ok (s', Some i) :: (unit, _) outcome) \<and> uis_wf s' \<and> uis_free s' = is"
    using uis.acquire_none [OF assms(1)] uis.acquire_some [OF assms(1) _ assms(2)]
    by (fastforce split: list.splits)
  show "\<exists>s'. release_raw_index s i = (Ok s' :: (unit, _) outcome) \<and> uis_wf s' \<and> uis_free s' = i # uis_free s"
    if "i < u_capacity s \<and> i \<notin> set (uis_free s)" for i
    using uis.release_ok [OF assms(1) _ _ assms(2)] that by fastforce
qed

theorem index_set_refines_stack_witness:
  "\<exists>s'. acquire_raw_index (fixed_uis_default 2) = (Ok (s', Some 0) :: (unit, _) outcome) \<and> uis_wf s' \<and> uis_free s' = [1]"
proof -
  have "uis_wf (fixed_uis_default 2)" "uis_free (fixed_uis_default 2) = [0, 1]" "0 < uis_budget (fixed_uis_default 2)"
    using fixed_uis_default_initial [of 2] by (simp_all add: upt_rec)
  then show ?thesis using index_set_refines_stack [of "fixed_uis_default 2"] by simp
qed

text \<open>When the counter in the head has reached the largest \<^verbatim>\<open>u32\<close>, every further acquire of a
  free index and every release panics, although the set is well-formed.\<close>

theorem aba_counter_overflow_panics:
  assumes "uis_wf s" and "head_aba s = - 1"
  shows "(uis_free s \<noteq> [] \<longrightarrow> acquire_raw_index s = (Panic :: (unit, _) outcome))
    \<and> (\<forall>i. i < u_capacity s \<longrightarrow> release_raw_index s i = (Panic :: (unit, _) outcome))"
  using acquire_raw_index_overflow [OF assms] release_raw_index_overflow [OF assms] by blast

theorem aba_counter_overflow_panics_witness:
  "release_raw_index \<lparr>u_cells = [Some 1, Some 2], u_capacity = 1,
      u_head = pack_from_head_and_aba 1 (- 1), u_init = True\<rparr> 0 = (Panic :: (unit, _) outcome)"
  using aba_counter_overflow_panics [of "\<lparr>u_cells = [Some 1, Some 2], u_capacity = 1,
      u_head = pack_from_head_and_aba 1 (- 1), u_init = True\<rparr>"]
  by (simp add: uis_wf_def uis_mem_def uis_free_def)

end
