(* ===== verification/UniqueIndexSet_Conc.thy ===== *)
theory UniqueIndexSet_Conc
  imports UniqueIndexSet
begin

text \<open>
  The unique index set under concurrency: any number of threads, each inside of
  \<^verbatim>\<open>acquire_raw_index\<close> or \<^verbatim>\<open>release_raw_index\<close>, interleaved at every access to shared memory
  (sequential consistency). \<open>held\<close> is the set of indices that acquire calls have returned
  and that have not been passed to a release call; by the safety clause of
  \<^verbatim>\<open>release_raw_index\<close> only such an index may be released, by any thread.

  The invariant says that at every moment each index is either on the free list, or held, or in
  the hands of exactly one running call, and that a value of the head which a running
  call has loaded is either still current or has an older counter.
\<close>

section \<open>The system\<close>

record uis_sys =
  sh :: unique_index_set
  pcs :: "nat \<Rightarrow> uis_pc option"
  held :: "u32 set"

inductive uis_sys_step :: "uis_sys \<Rightarrow> uis_sys \<Rightarrow> bool" where
  call_acquire: "pcs \<sigma> t = None \<Longrightarrow> uis_sys_step \<sigma> (\<sigma>\<lparr>pcs := (pcs \<sigma>)(t \<mapsto> AcqLoad)\<rparr>)"
| call_release: "pcs \<sigma> t = None \<Longrightarrow> i \<in> held \<sigma> \<Longrightarrow>
     uis_sys_step \<sigma> (\<sigma>\<lparr>pcs := (pcs \<sigma>)(t \<mapsto> RelLoad i), held := held \<sigma> - {i}\<rparr>)"
| work: "pcs \<sigma> t = Some pc \<Longrightarrow> \<not> uis_final pc \<Longrightarrow> uis_step (sh \<sigma>) pc = (s', pc') \<Longrightarrow>
     uis_sys_step \<sigma> (\<sigma>\<lparr>sh := s', pcs := (pcs \<sigma>)(t \<mapsto> pc')\<rparr>)"
| return_acquire: "pcs \<sigma> t = Some (AcqDone r) \<Longrightarrow>
     uis_sys_step \<sigma> (\<sigma>\<lparr>pcs := (pcs \<sigma>)(t := None), held := held \<sigma> \<union> set_option r\<rparr>)"
| return_release: "pcs \<sigma> t = Some RelDone \<Longrightarrow> uis_sys_step \<sigma> (\<sigma>\<lparr>pcs := (pcs \<sigma>)(t := None)\<rparr>)"

definition uis_sys_init :: "unique_index_set \<Rightarrow> uis_sys" where
  "uis_sys_init s = \<lparr>sh = s, pcs = (\<lambda>_. None), held = {}\<rparr>"

inductive uis_reachable :: "unique_index_set \<Rightarrow> uis_sys \<Rightarrow> bool" for s where
  start: "uis_reachable s (uis_sys_init s)"
| step: "uis_reachable s \<sigma> \<Longrightarrow> uis_sys_step \<sigma> \<tau> \<Longrightarrow> uis_reachable s \<tau>"

section \<open>The invariant\<close>

fun owner :: "uis_pc \<Rightarrow> u32 option" where
  "owner (AcqMark i) = Some i"
| "owner (AcqDone r) = r"
| "owner (RelLoad i) = Some i"
| "owner (RelTry i old) = Some i"
| "owner (RelCas i old new) = Some i"
| "owner (PcPanic r) = r"
| "owner _ = None"

abbreviation index_of :: "u64 \<Rightarrow> u32" where "index_of v \<equiv> fst (extract_head_and_aba v)"
abbreviation aba_of :: "u64 \<Rightarrow> u32" where "aba_of v \<equiv> snd (extract_head_and_aba v)"

definition snapshot :: "unique_index_set \<Rightarrow> u64 \<Rightarrow> bool" where
  "snapshot s old \<longleftrightarrow> aba_of old < aba_of (u_head s) \<or> old = u_head s"

fun pc_ok :: "unique_index_set \<Rightarrow> uis_pc \<Rightarrow> bool" where
  "pc_ok s (AcqTry old) \<longleftrightarrow> snapshot s old"
| "pc_ok s (AcqCas old new) \<longleftrightarrow> snapshot s old \<and> index_of old < u_capacity s \<and> unat (aba_of old) + 1 < 2 ^ 32
     \<and> aba_of new = aba_of old + 1
     \<and> (old = u_head s \<longrightarrow> u_cells s ! unat (index_of old) = Some (index_of new))"
| "pc_ok s (RelTry i old) \<longleftrightarrow> snapshot s old"
| "pc_ok s (RelCas i old new) \<longleftrightarrow> snapshot s old \<and> unat (aba_of old) + 1 < 2 ^ 32
     \<and> new = pack_from_head_and_aba i (aba_of old + 1) \<and> u_cells s ! unat i = Some (index_of old)"
| "pc_ok s PcUB \<longleftrightarrow> False"
| "pc_ok s _ \<longleftrightarrow> True"

definition owns :: "uis_sys \<Rightarrow> nat \<Rightarrow> u32 \<Rightarrow> bool" where
  "owns \<sigma> t i \<longleftrightarrow> (\<exists>pc. pcs \<sigma> t = Some pc \<and> owner pc = Some i)"

definition uis_inv :: "uis_sys \<Rightarrow> bool" where
  "uis_inv \<sigma> \<longleftrightarrow> uis_wf (sh \<sigma>)
     \<and> (\<forall>t pc. pcs \<sigma> t = Some pc \<longrightarrow> pc_ok (sh \<sigma>) pc)
     \<and> (\<forall>i. i \<in> held \<sigma> \<longrightarrow> i < u_capacity (sh \<sigma>) \<and> i \<notin> set (uis_free (sh \<sigma>)) \<and> (\<forall>t. \<not> owns \<sigma> t i))
     \<and> (\<forall>t i. owns \<sigma> t i \<longrightarrow> i < u_capacity (sh \<sigma>) \<and> i \<notin> set (uis_free (sh \<sigma>)) \<and> (\<forall>t'. owns \<sigma> t' i \<longrightarrow> t' = t))
     \<and> (\<forall>i. i < u_capacity (sh \<sigma>) \<longrightarrow> i \<in> set (uis_free (sh \<sigma>)) \<or> i \<in> held \<sigma> \<or> (\<exists>t. owns \<sigma> t i))"

section \<open>What one step of a call does\<close>

text \<open>A step of a running call leaves the shared state alone, or takes the top index from the free
  list, or writes the cell of the index in its hands, or puts that index on the free list.\<close>

inductive uis_effect :: "unique_index_set \<Rightarrow> uis_pc \<Rightarrow> unique_index_set \<Rightarrow> uis_pc \<Rightarrow> bool" where
  eff_local: "owner pc' = owner pc \<Longrightarrow> pc_ok s pc' \<Longrightarrow> uis_effect s pc s pc'"
| eff_take: "owner pc = None \<Longrightarrow> owner pc' = Some i \<Longrightarrow> aba_of (u_head s) < aba_of new \<Longrightarrow>
     uis_wf (s\<lparr>u_head := new\<rparr>) \<Longrightarrow> uis_free s = i # uis_free (s\<lparr>u_head := new\<rparr>) \<Longrightarrow>
     pc_ok (s\<lparr>u_head := new\<rparr>) pc' \<Longrightarrow> uis_effect s pc (s\<lparr>u_head := new\<rparr>) pc'"
| eff_write: "owner pc = Some i \<Longrightarrow> owner pc' = Some i \<Longrightarrow>
     pc_ok (s\<lparr>u_cells := (u_cells s)[unat i := Some v]\<rparr>) pc' \<Longrightarrow>
     uis_effect s pc (s\<lparr>u_cells := (u_cells s)[unat i := Some v]\<rparr>) pc'"
| eff_put: "owner pc = Some i \<Longrightarrow> owner pc' = None \<Longrightarrow> aba_of (u_head s) < aba_of new \<Longrightarrow>
     uis_wf (s\<lparr>u_head := new\<rparr>) \<Longrightarrow> uis_free (s\<lparr>u_head := new\<rparr>) = i # uis_free s \<Longrightarrow>
     pc_ok (s\<lparr>u_head := new\<rparr>) pc' \<Longrightarrow> uis_effect s pc (s\<lparr>u_head := new\<rparr>) pc'"

lemma aba_less_Suc: "unat a + 1 < 2 ^ 32 \<Longrightarrow> a < a + 1" for a :: u32
  by (simp add: word_less_nat_alt unat_word_ariths)

lemma add_u32_1_cases:
  "(add_u32 a 1 :: (unit, u32) outcome) = (if unat a + 1 < 2 ^ 32 then Ok (a + 1) else Panic)"
  by (simp add: add_u32_def)

lemma head_in_free: "uis_wf s \<Longrightarrow> head_index s < u_capacity s \<Longrightarrow> \<exists>is. uis_free s = head_index s # is"
  using uis_wfD(2) [of s] by (cases "uis_free s") auto

lemma uis_mem_head: "uis_mem (s\<lparr>u_head := h\<rparr>) = uis_mem s"
  by (simp add: uis_mem_def)

lemma uis_wf_write:
  assumes "uis_wf s" and "i \<notin> set (uis_free s)"
  shows "uis_wf (s\<lparr>u_cells := (u_cells s)[unat i := Some v]\<rparr>) \<and>
    uis_free (s\<lparr>u_cells := (u_cells s)[unat i := Some v]\<rparr>) = uis_free s"
proof (rule uis_wfI)
  show "uis_mem (s\<lparr>u_cells := (u_cells s)[unat i := Some v]\<rparr>)"
    using uis_wfD(1) [OF assms(1)] by (simp add: uis_mem_def None_notin_update)
qed (use uis_wfD [OF assms(1)] assms(2) in \<open>simp_all add: chain_update\<close>)

lemma cas_take:
  assumes "uis_wf s" and "index_of (u_head s) < u_capacity s" and "aba_of new = aba_of (u_head s) + 1"
    and "u_cells s ! unat (index_of (u_head s)) = Some (index_of new)" and "unat (aba_of (u_head s)) + 1 < 2 ^ 32"
  shows "uis_wf (s\<lparr>u_head := new\<rparr>) \<and> uis_free s = head_index s # uis_free (s\<lparr>u_head := new\<rparr>)
    \<and> aba_of (u_head s) < aba_of new"
proof -
  obtain "is" where f: "uis_free s = head_index s # is" using head_in_free assms by blast
  have "uis_wf (s\<lparr>u_head := new\<rparr>) \<and> uis_free (s\<lparr>u_head := new\<rparr>) = is"
    using uis_wfD [OF assms(1)] f assms(4) by (intro uis_wfI) (simp_all add: uis_mem_head)
  then show ?thesis using f assms(3,5) aba_less_Suc by simp
qed

lemma cas_put:
  assumes "uis_wf s" and "i < u_capacity s" and "i \<notin> set (uis_free s)" and "u_cells s ! unat i = Some (head_index s)"
    and "unat (aba_of (u_head s)) + 1 < 2 ^ 32"
  defines "new \<equiv> pack_from_head_and_aba i (aba_of (u_head s) + 1)"
  shows "uis_wf (s\<lparr>u_head := new\<rparr>) \<and> uis_free (s\<lparr>u_head := new\<rparr>) = i # uis_free s \<and> aba_of (u_head s) < aba_of new"
proof -
  have "uis_wf (s\<lparr>u_head := new\<rparr>) \<and> uis_free (s\<lparr>u_head := new\<rparr>) = i # uis_free s"
    using uis_wfD [OF assms(1)] assms(2-4) by (intro uis_wfI) (simp_all add: uis_mem_head new_def)
  then show ?thesis using aba_less_Suc [OF assms(5)] by (simp add: new_def)
qed

lemma snapshot_refl [simp]: "snapshot s (u_head s)"
  by (simp add: snapshot_def)

lemma acq_try_effect:
  assumes "uis_wf s" and "snapshot s old" and "uis_step s (AcqTry old) = (s', pc')"
  shows "uis_effect s (AcqTry old) s' pc'"
proof (cases "u_capacity s \<le> index_of old")
  case True
  then have "s' = s \<and> pc' = AcqDone None" using assms(3) by (simp add: case_prod_beta)
  then show ?thesis by (auto intro: eff_local)
next
  case False
  then have lt: "index_of old < u_capacity s" by simp
  obtain n where n: "u_cells s ! unat (index_of old) = Some n"
    using uis_mem_read [OF uis_wfD(1) [OF assms(1)] lt] by blast
  have ix: "unat (index_of old) < length (u_cells s)"
    using uis_mem_index [OF uis_wfD(1) [OF assms(1)] lt] .
  show ?thesis
  proof (cases "unat (aba_of old) + 1 < 2 ^ 32")
    case True
    have "s' = s \<and> pc' = AcqCas old (pack_from_head_and_aba n (aba_of old + 1))"
      using assms(3) False n ix True by (simp add: case_prod_beta add_u32_1_cases)
    then show ?thesis using assms(2) lt n True by (auto intro!: eff_local)
  next
    case f: False
    have "s' = s \<and> pc' = PcPanic None"
      using assms(3) False n ix f by (simp add: case_prod_beta add_u32_1_cases)
    then show ?thesis by (auto intro: eff_local)
  qed
qed

lemma rel_try_effect:
  assumes "uis_wf s" and "snapshot s old" and "i < u_capacity s" and "uis_step s (RelTry i old) = (s', pc')"
  shows "uis_effect s (RelTry i old) s' pc'"
proof -
  have ix: "unat i < length (u_cells s)"
    using uis_mem_index [OF uis_wfD(1) [OF assms(1)] assms(3)] .
  let ?s = "s\<lparr>u_cells := (u_cells s)[unat i := Some (index_of old)]\<rparr>"
  show ?thesis
  proof (cases "unat (aba_of old) + 1 < 2 ^ 32")
    case True
    have e: "s' = ?s \<and> pc' = RelCas i old (pack_from_head_and_aba i (aba_of old + 1))"
      using assms(4) ix True by (simp add: case_prod_beta add_u32_1_cases)
    have "pc_ok ?s (RelCas i old (pack_from_head_and_aba i (aba_of old + 1)))"
      using assms(2) ix True by (simp add: snapshot_def)
    then show ?thesis using e by (auto intro: eff_write)
  next
    case False
    have "s' = ?s \<and> pc' = PcPanic (Some i)"
      using assms(4) ix False by (simp add: case_prod_beta add_u32_1_cases)
    then show ?thesis by (auto intro: eff_write)
  qed
qed

lemma uis_step_effect:
  assumes wf: "uis_wf s" and ok: "pc_ok s pc" and nf: "\<not> uis_final pc"
    and own: "\<And>i. owner pc = Some i \<Longrightarrow> i < u_capacity s \<and> i \<notin> set (uis_free s)"
    and st: "uis_step s pc = (s', pc')"
  shows "uis_effect s pc s' pc'"
proof (cases pc)
  case AcqLoad
  then show ?thesis using st uis_wfD(1) [OF wf] by (auto simp: uis_mem_def intro!: eff_local)
next
  case (AcqTry old)
  then show ?thesis using acq_try_effect wf ok st by simp
next
  case (AcqCas old new)
  show ?thesis
  proof (cases "u_head s = old")
    case True
    then have e: "s' = s\<lparr>u_head := new\<rparr>" "pc' = AcqMark (head_index s)" using st AcqCas by auto
    have "uis_wf s'" "uis_free s = head_index s # uis_free s'" "aba_of (u_head s) < aba_of new"
      using cas_take [of s new] wf ok AcqCas True e by auto
    then show ?thesis unfolding e using AcqCas by (auto intro!: eff_take)
  next
    case False
    then show ?thesis using st AcqCas by (auto intro!: eff_local)
  qed
next
  case (AcqMark i)
  have "s' = s\<lparr>u_cells := (u_cells s)[unat i := Some (u_capacity s + 1)]\<rparr>" "pc' = AcqDone (Some i)"
    using st AcqMark own uis_mem_succ [OF uis_wfD(1) [OF wf], where ?'a = unit] uis_mem_index [OF uis_wfD(1) [OF wf], of i]
    by auto
  then show ?thesis using AcqMark by (auto intro: eff_write)
next
  case (RelLoad i)
  then show ?thesis using st uis_wfD(1) [OF wf] by (auto simp: uis_mem_def intro!: eff_local)
next
  case (RelTry i old)
  then show ?thesis using rel_try_effect wf ok own st by simp
next
  case (RelCas i old new)
  show ?thesis
  proof (cases "u_head s = old")
    case True
    then have e: "s' = s\<lparr>u_head := new\<rparr>" "pc' = RelDone" using st RelCas by auto
    have n: "new = pack_from_head_and_aba i (head_aba s + 1)" using ok RelCas True by simp
    have "uis_wf s'" "uis_free s' = i # uis_free s" "aba_of (u_head s) < aba_of new"
      using cas_put [of s i] wf own ok RelCas True unfolding e n by auto
    then show ?thesis unfolding e using RelCas by (auto intro!: eff_put)
  next
    case False
    then show ?thesis using st RelCas by (auto intro!: eff_local)
  qed
qed (use nf in auto)

section \<open>Every step keeps the invariant\<close>

lemma pc_ok_head:
  assumes "pc_ok s pc" and "aba_of (u_head s) < aba_of new"
  shows "pc_ok (s\<lparr>u_head := new\<rparr>) pc"
proof -
  have sn: "snapshot (s\<lparr>u_head := new\<rparr>) old \<and> old \<noteq> new" if "snapshot s old" for old
    using that assms(2) unfolding snapshot_def by auto
  show ?thesis using assms(1) by (cases pc) (auto dest: sn)
qed

lemma pc_ok_write:
  assumes "pc_ok s pc" and "uis_wf s" and "i \<notin> set (uis_free s)" and "owner pc \<noteq> Some i"
  shows "pc_ok (s\<lparr>u_cells := (u_cells s)[unat i := Some v]\<rparr>) pc"
proof -
  have neq: "unat i \<noteq> unat j" if "j \<noteq> i" for j using that unsigned_word_eqI by blast
  show ?thesis
  proof (cases pc)
    case (AcqCas old new)
    have "index_of old \<noteq> i" if "old = u_head s"
      using head_in_free [OF assms(2)] assms(1,3) AcqCas that by auto
    then show ?thesis using assms(1) AcqCas neq by (auto simp: snapshot_def)
  next
    case (RelCas j old new)
    then show ?thesis using assms(1,4) neq by (auto simp: snapshot_def)
  qed (use assms(1) in \<open>auto simp: snapshot_def\<close>)
qed

lemma owns_upd: "owns (\<sigma>\<lparr>sh := s', pcs := (pcs \<sigma>)(t \<mapsto> pc')\<rparr>) u i \<longleftrightarrow>
    (if u = t then owner pc' = Some i else owns \<sigma> u i)"
  by (auto simp: owns_def)

lemma uis_invD:
  assumes "uis_inv \<sigma>"
  shows "uis_wf (sh \<sigma>)" and "pcs \<sigma> t = Some pc \<Longrightarrow> pc_ok (sh \<sigma>) pc"
    and "i \<in> held \<sigma> \<Longrightarrow> i < u_capacity (sh \<sigma>) \<and> i \<notin> set (uis_free (sh \<sigma>)) \<and> (\<forall>t. \<not> owns \<sigma> t i)"
    and "owns \<sigma> t i \<Longrightarrow> i < u_capacity (sh \<sigma>) \<and> i \<notin> set (uis_free (sh \<sigma>)) \<and> (\<forall>t'. owns \<sigma> t' i \<longrightarrow> t' = t)"
    and "i < u_capacity (sh \<sigma>) \<Longrightarrow> i \<in> set (uis_free (sh \<sigma>)) \<or> i \<in> held \<sigma> \<or> (\<exists>t. owns \<sigma> t i)"
  using assms unfolding uis_inv_def by blast+

lemma work_inv:
  assumes inv: "uis_inv \<sigma>" and pc: "pcs \<sigma> t = Some pc" and eff: "uis_effect (sh \<sigma>) pc s' pc'"
  shows "uis_inv (\<sigma>\<lparr>sh := s', pcs := (pcs \<sigma>)(t \<mapsto> pc')\<rparr>)"
proof -
  note D = uis_invD [OF inv]
  have own: "owns \<sigma> t i \<longleftrightarrow> owner pc = Some i" for i using pc by (simp add: owns_def)
  show ?thesis using eff
  proof (cases rule: uis_effect.cases)
    case eff_local
    then have "owns (\<sigma>\<lparr>sh := s', pcs := (pcs \<sigma>)(t \<mapsto> pc')\<rparr>) u i = owns \<sigma> u i" for u i
      using pc by (auto simp: owns_def)
    then show ?thesis using inv eff_local unfolding uis_inv_def by (auto split: if_splits)
  next
    case (eff_take i new)
    note ow = owns_upd [where \<sigma> = \<sigma> and s' = s' and t = t and pc' = pc']
    have fr: "set (uis_free (sh \<sigma>)) = insert i (set (uis_free s'))" "i \<notin> set (uis_free s')"
      using eff_take uis_wfD(3) [OF D(1)] by auto
    have ic: "i < u_capacity (sh \<sigma>)" using uis.free_universe [OF D(1)] fr by auto
    have fresh: "i \<notin> held \<sigma>" "\<not> owns \<sigma> u i" for u using D(3,4) fr by auto
    have ok: "pc_ok s' q" if "pcs \<sigma> u = Some q" for u q
      using pc_ok_head [OF D(2) [OF that], of new] eff_take by simp
    show ?thesis unfolding uis_inv_def ow
      using eff_take ok fr ic fresh D(3,4,5) own by (auto split: if_splits) metis
  next
    case (eff_write i v)
    note ow = owns_upd [where \<sigma> = \<sigma> and s' = s' and t = t and pc' = pc']
    have i: "i < u_capacity (sh \<sigma>)" "i \<notin> set (uis_free (sh \<sigma>))" "\<And>u. owns \<sigma> u i \<Longrightarrow> u = t"
      using D(4) [of t i] own eff_write by auto
    have wf: "uis_wf s'" "uis_free s' = uis_free (sh \<sigma>)"
      using uis_wf_write [OF D(1) i(2), of v] eff_write by simp_all
    have ok: "pc_ok s' q" if "pcs \<sigma> u = Some q" "u \<noteq> t" for u q
      using pc_ok_write [OF D(2) [OF that(1)] D(1) i(2), of v] that i(3) [of u] eff_write by (auto simp: owns_def)
    have "owns (\<sigma>\<lparr>sh := s', pcs := (pcs \<sigma>)(t \<mapsto> pc')\<rparr>) u j = owns \<sigma> u j" for u j
      using pc eff_write by (auto simp: owns_def)
    then show ?thesis using inv eff_write ok wf unfolding uis_inv_def by (auto split: if_splits)
  next
    case (eff_put i new)
    note ow = owns_upd [where \<sigma> = \<sigma> and s' = s' and t = t and pc' = pc']
    have i: "i < u_capacity (sh \<sigma>)" "i \<notin> set (uis_free (sh \<sigma>))" "\<And>u. owns \<sigma> u i \<Longrightarrow> u = t"
      using D(4) [of t i] own eff_put by auto
    have fresh: "i \<notin> held \<sigma>" using D(3) [of i] own eff_put by auto
    have ok: "pc_ok s' q" if "pcs \<sigma> u = Some q" for u q
      using pc_ok_head [OF D(2) [OF that], of new] eff_put by simp
    have fr: "set (uis_free s') = insert i (set (uis_free (sh \<sigma>)))" using eff_put by simp
    show ?thesis unfolding uis_inv_def ow
      using eff_put ok fr i fresh D(3,4,5) own by (auto split: if_splits) metis
  qed
qed

lemma uis_sys_step_inv: "uis_sys_step \<sigma> \<tau> \<Longrightarrow> uis_inv \<sigma> \<Longrightarrow> uis_inv \<tau>"
proof (induction rule: uis_sys_step.induct)
  case (call_acquire \<sigma> t)
  have "owns (\<sigma>\<lparr>pcs := (pcs \<sigma>)(t \<mapsto> AcqLoad)\<rparr>) u i = owns \<sigma> u i" for u i
    using call_acquire by (auto simp: owns_def)
  then show ?case using call_acquire unfolding uis_inv_def by auto
next
  case (call_release \<sigma> t i)
  have "owns (\<sigma>\<lparr>pcs := (pcs \<sigma>)(t \<mapsto> RelLoad i), held := held \<sigma> - {i}\<rparr>) u j \<longleftrightarrow> (if u = t then j = i else owns \<sigma> u j)" for u j
    using call_release by (auto simp: owns_def)
  moreover have "\<not> owns \<sigma> t j" for j using call_release by (auto simp: owns_def)
  ultimately show ?case using call_release unfolding uis_inv_def by (auto split: if_splits) metis
next
  case (work \<sigma> t pc s' pc')
  have "owner pc = Some i \<Longrightarrow> i < u_capacity (sh \<sigma>) \<and> i \<notin> set (uis_free (sh \<sigma>))" for i
    using uis_invD(4) [OF work.prems, of t i] work.hyps(1) by (simp add: owns_def)
  then have "uis_effect (sh \<sigma>) pc s' pc'"
    using uis_step_effect uis_invD(1,2) [OF work.prems] work.hyps by blast
  then show ?case using work_inv work.prems work.hyps(1) by blast
next
  case (return_acquire \<sigma> t r)
  have "owns (\<sigma>\<lparr>pcs := (pcs \<sigma>)(t := None), held := held \<sigma> \<union> set_option r\<rparr>) u j \<longleftrightarrow> u \<noteq> t \<and> owns \<sigma> u j" for u j
    by (auto simp: owns_def)
  moreover have "owns \<sigma> t j \<longleftrightarrow> r = Some j" for j using return_acquire by (auto simp: owns_def)
  ultimately show ?case using return_acquire unfolding uis_inv_def by (auto split: if_splits) metis+
next
  case (return_release \<sigma> t)
  have "owns (\<sigma>\<lparr>pcs := (pcs \<sigma>)(t := None)\<rparr>) u j = owns \<sigma> u j" for u j
    using return_release by (auto simp: owns_def)
  then show ?case using return_release unfolding uis_inv_def by (auto split: if_splits)
qed

lemma uis_sys_init_inv:
  assumes "uis_wf s" and "set (uis_free s) = {i. i < u_capacity s}"
  shows "uis_inv (uis_sys_init s)"
  using assms by (auto simp: uis_inv_def uis_sys_init_def owns_def)

lemma uis_reachable_inv:
  assumes "uis_reachable s \<sigma>" and "uis_wf s" and "set (uis_free s) = {i. i < u_capacity s}"
  shows "uis_inv \<sigma>"
  using assms(1) by (induction rule: uis_reachable.induct) (use assms(2,3) uis_sys_init_inv uis_sys_step_inv in blast)+

lemma fixed_uis_default_full:
  assumes "n + 1 < 2 ^ 32"
  shows "set (uis_free (fixed_uis_default n)) = {i. i < u_capacity (fixed_uis_default n)}"
proof -
  have c: "u_capacity (fixed_uis_default n) = word_of_nat n"
    by (simp add: fixed_uis_default_def uis_new_def)
  have "i \<in> word_of_nat ` {0 ..< n}" if "i < word_of_nat n" for i :: u32
    using that assms unat_word_of_nat_u32 [of n] by (intro image_eqI [of _ _ "unat i"]) (auto simp: word_less_nat_alt)
  moreover have "(word_of_nat k :: u32) < word_of_nat n" if "k < n" for k
    using that assms by (simp add: word_less_nat_alt unat_word_of_nat_u32)
  ultimately show ?thesis using fixed_uis_default_initial [OF assms] c by auto
qed

lemma default_reachable_inv:
  "n + 1 < 2 ^ 32 \<Longrightarrow> uis_reachable (fixed_uis_default n) \<sigma> \<Longrightarrow> uis_inv \<sigma>"
  using uis_reachable_inv fixed_uis_default_initial fixed_uis_default_full by blast

section \<open>Safety of every interleaving\<close>

lemma reach_run:
  "uis_reachable s \<sigma> \<Longrightarrow> pcs \<sigma> t = Some pc \<Longrightarrow>
     uis_reachable s (\<sigma>\<lparr>sh := fst (uis_run n (sh \<sigma>) pc), pcs := (pcs \<sigma>)(t \<mapsto> snd (uis_run n (sh \<sigma>) pc))\<rparr>)"
proof (induction n arbitrary: \<sigma> pc)
  case 0
  then have "\<sigma>\<lparr>sh := fst (uis_run 0 (sh \<sigma>) pc), pcs := (pcs \<sigma>)(t \<mapsto> snd (uis_run 0 (sh \<sigma>) pc))\<rparr> = \<sigma>"
    by (simp add: fun_upd_idem)
  then show ?case using 0(1) by metis
next
  case (Suc n)
  obtain s' pc' where st: "uis_step (sh \<sigma>) pc = (s', pc')" by fastforce
  let ?\<tau> = "\<sigma>\<lparr>sh := s', pcs := (pcs \<sigma>)(t \<mapsto> pc')\<rparr>"
  have "uis_reachable s ?\<tau>"
  proof (cases "uis_final pc")
    case True
    then have "s' = sh \<sigma>" "pc' = pc" using st by (cases pc; simp)+
    then have "?\<tau> = \<sigma>" using Suc.prems(2) by (simp add: fun_upd_idem)
    then show ?thesis using Suc.prems(1) by simp
  next
    case False
    then show ?thesis using Suc.prems st uis_reachable.step uis_sys_step.work by blast
  qed
  then have "uis_reachable s (?\<tau>\<lparr>sh := fst (uis_run n (sh ?\<tau>) pc'), pcs := (pcs ?\<tau>)(t \<mapsto> snd (uis_run n (sh ?\<tau>) pc'))\<rparr>)"
    by (rule Suc.IH) simp
  then show ?case using st by (simp del: fun_upd_apply)
qed

definition example_sys :: uis_sys where
  "example_sys = (uis_sys_init (fixed_uis_default 2))\<lparr>pcs := [0 \<mapsto> AcqLoad]\<rparr>"

lemma example_sys_reachable: "uis_reachable (fixed_uis_default 2) example_sys"
  unfolding example_sys_def
  using uis_reachable.step [OF uis_reachable.start uis_sys_step.call_acquire, of "fixed_uis_default 2" 0]
  by (simp add: uis_sys_init_def)

lemma fixed_uis_default_2: "fixed_uis_default 2 = \<lparr>u_cells = [Some 1, Some 2, Some 3], u_capacity = 2, u_head = 0, u_init = True\<rparr>"
  by (simp add: fixed_uis_default_def uis_new_def upt_rec)

lemma extract_0: "extract_head_and_aba 0 = (0, 0)"
  by (simp add: extract_head_and_aba_def)

lemma uis_run_2: "uis_run 2 s pc = (case uis_step s pc of (s1, pc1) \<Rightarrow> uis_step s1 pc1)"
  by (simp add: numeral_2_eq_2 case_prod_beta)

lemma example_run_2: "uis_run 2 (fixed_uis_default 2) AcqLoad = (fixed_uis_default 2, AcqCas 0 (pack_from_head_and_aba 1 1))"
  unfolding fixed_uis_default_2 uis_run_2
  by (simp add: extract_0 raw_read_def add_u32_def)

lemma example_run_4: "uis_run 4 (fixed_uis_default 2) AcqLoad =
    (\<lparr>u_cells = [Some 3, Some 2, Some 3], u_capacity = 2, u_head = pack_from_head_and_aba 1 1, u_init = True\<rparr>, AcqDone (Some 0))"
  unfolding uis_run_4
  by (simp add: fixed_uis_default_2 extract_0 raw_read_def raw_write_def add_u32_def)

text \<open>C4: under every interleaving of any number of threads, an index that one acquire call returns is
  neither free, nor held by a client, nor in the hands of any other running call; no execution of
  the loops ever accesses memory outside of the cells (\<open>PcUB\<close>).\<close>

theorem acquired_index_is_exclusive:
  assumes "uis_reachable (fixed_uis_default n) \<sigma>" and "n + 1 < 2 ^ 32" and "pcs \<sigma> t = Some (AcqDone (Some i))"
  shows "i < u_capacity (sh \<sigma>) \<and> i \<notin> set (uis_free (sh \<sigma>)) \<and> i \<notin> held \<sigma> \<and>
    (\<forall>u pc. pcs \<sigma> u = Some pc \<longrightarrow> pc \<noteq> PcUB \<and> (owner pc = Some i \<longrightarrow> u = t))"
proof -
  have inv: "uis_inv \<sigma>" using default_reachable_inv assms(1,2) by blast
  have "owns \<sigma> t i" using assms(3) by (simp add: owns_def)
  then show ?thesis using uis_invD [OF inv] by (auto simp: owns_def) (metis pc_ok.simps(5))
qed

theorem acquired_index_is_exclusive_witness:
  "\<exists>\<sigma>. uis_reachable (fixed_uis_default 2) \<sigma> \<and> pcs \<sigma> 0 = Some (AcqDone (Some 0)) \<and> 0 \<notin> set (uis_free (sh \<sigma>)) \<and> 0 \<notin> held \<sigma>"
proof -
  let ?\<sigma> = "example_sys\<lparr>sh := fst (uis_run 4 (sh example_sys) AcqLoad), pcs := (pcs example_sys)(0 \<mapsto> snd (uis_run 4 (sh example_sys) AcqLoad))\<rparr>"
  have r: "uis_reachable (fixed_uis_default 2) ?\<sigma>"
    by (rule reach_run [OF example_sys_reachable]) (simp add: example_sys_def)
  moreover have p: "pcs ?\<sigma> 0 = Some (AcqDone (Some 0))"
    by (simp add: example_sys_def uis_sys_init_def example_run_4)
  ultimately show ?thesis using acquired_index_is_exclusive [OF r _ p] by auto
qed

text \<open>no index is lost: in every reachable state in which no call is running, the free list
  holds, without duplicates, exactly the indices that no client holds.\<close>

theorem quiescent_indices_accounted:
  assumes "uis_reachable (fixed_uis_default n) \<sigma>" and "n + 1 < 2 ^ 32" and "\<forall>t. pcs \<sigma> t = None"
  shows "distinct (uis_free (sh \<sigma>)) \<and> set (uis_free (sh \<sigma>)) = {i. i < u_capacity (sh \<sigma>)} - held \<sigma>
    \<and> held \<sigma> \<subseteq> {i. i < u_capacity (sh \<sigma>)}"
proof -
  have inv: "uis_inv \<sigma>" using default_reachable_inv assms(1,2) by blast
  have "\<not> owns \<sigma> t i" for t i using assms(3) by (simp add: owns_def)
  then show ?thesis
    using uis_invD(3,5) [OF inv] uis.free_universe [OF uis_invD(1) [OF inv]] uis_wfD(3) [OF uis_invD(1) [OF inv]] by auto
qed

theorem quiescent_indices_accounted_witness:
  "\<exists>\<sigma>. uis_reachable (fixed_uis_default 2) \<sigma> \<and> held \<sigma> = {0} \<and> distinct (uis_free (sh \<sigma>)) \<and>
     set (uis_free (sh \<sigma>)) = {i. i < u_capacity (sh \<sigma>)} - {0}"
proof -
  let ?\<sigma> = "example_sys\<lparr>sh := fst (uis_run 4 (sh example_sys) AcqLoad), pcs := (pcs example_sys)(0 \<mapsto> snd (uis_run 4 (sh example_sys) AcqLoad))\<rparr>"
  have r: "uis_reachable (fixed_uis_default 2) ?\<sigma>"
    by (rule reach_run [OF example_sys_reachable]) (simp add: example_sys_def)
  have p: "pcs ?\<sigma> 0 = Some (AcqDone (Some 0))"
    by (simp add: example_sys_def uis_sys_init_def example_run_4)
  let ?\<tau> = "?\<sigma>\<lparr>pcs := (pcs ?\<sigma>)(0 := None), held := held ?\<sigma> \<union> set_option (Some 0)\<rparr>"
  have r': "uis_reachable (fixed_uis_default 2) ?\<tau>"
    using uis_reachable.step [OF r uis_sys_step.return_acquire [OF p]] .
  have q: "\<forall>t. pcs ?\<tau> t = None" and h: "held ?\<tau> = {0}" by (simp_all add: example_sys_def uis_sys_init_def)
  have n: "(2 :: nat) + 1 < 2 ^ 32" by simp
  show ?thesis using quiescent_indices_accounted [OF r' n q] r' h by metis
qed

text \<open>The loops are lock-free: whenever the exchange of a thread fails, the counter of the head
  has grown since the thread loaded it, which means that another call has completed its exchange.\<close>

theorem failed_exchange_means_progress:
  assumes "uis_reachable (fixed_uis_default n) \<sigma>" and "n + 1 < 2 ^ 32"
    and "pcs \<sigma> t = Some (AcqCas old new) \<or> pcs \<sigma> t = Some (RelCas i old new)"
    and "u_head (sh \<sigma>) \<noteq> old"
  shows "snd (extract_head_and_aba old) < head_aba (sh \<sigma>)"
proof -
  have "uis_inv \<sigma>" using default_reachable_inv assms(1,2) by blast
  then have "snapshot (sh \<sigma>) old" using uis_invD(2) assms(3) by fastforce
  then show ?thesis using assms(4) by (auto simp: snapshot_def)
qed

theorem failed_exchange_means_progress_witness:
  "\<exists>\<sigma> old new. uis_reachable (fixed_uis_default 2) \<sigma> \<and> pcs \<sigma> 0 = Some (AcqCas old new) \<and> u_head (sh \<sigma>) \<noteq> old
     \<and> snd (extract_head_and_aba old) < head_aba (sh \<sigma>)"
proof -
  let ?new = "pack_from_head_and_aba 1 1"
  let ?\<sigma> = "example_sys\<lparr>pcs := [0 \<mapsto> AcqCas 0 ?new]\<rparr>"
  have "uis_reachable (fixed_uis_default 2) ?\<sigma>"
    using reach_run [OF example_sys_reachable, of 0 AcqLoad 2]
    by (simp add: example_sys_def uis_sys_init_def example_run_2)
  then have r: "uis_reachable (fixed_uis_default 2) (?\<sigma>\<lparr>pcs := (pcs ?\<sigma>)(1 \<mapsto> AcqLoad)\<rparr>)"
    by (rule uis_reachable.step) (rule uis_sys_step.call_acquire, simp)
  let ?\<tau> = "?\<sigma>\<lparr>sh := fst (uis_run 4 (fixed_uis_default 2) AcqLoad), pcs := [0 \<mapsto> AcqCas 0 ?new, 1 \<mapsto> AcqDone (Some 0)]\<rparr>"
  have r': "uis_reachable (fixed_uis_default 2) ?\<tau>"
    using reach_run [OF r, of 1 AcqLoad 4] by (simp add: example_sys_def uis_sys_init_def example_run_4)
  moreover have p: "pcs ?\<tau> 0 = Some (AcqCas 0 ?new)" by simp
  moreover have h: "u_head (sh ?\<tau>) \<noteq> 0"
  proof
    assume "u_head (sh ?\<tau>) = 0"
    then have "extract_head_and_aba ?new = (0, 0)" by (simp add: example_run_4 extract_0)
    then show False by simp
  qed
  ultimately show ?thesis using failed_exchange_means_progress [OF r' _ disjI1 [OF p] h] by (intro exI) (rule conjI, assumption, auto)
qed

end
