(* ===== verification/Queue_Contract.thy ===== *)
theory Queue_Contract
  imports Prelude
begin

text \<open>
  The interface of a bounded first-in first-out queue, as a locale: what
  \<^verbatim>\<open>push\<close> and \<^verbatim>\<open>pop\<close> promise over the list of stored values. It is interpreted for the two
  lock-free single producer single consumer queues and for the queue of the container crate; the
  order of delivery is proved once, here.
\<close>

section \<open>Contract of a bounded queue\<close>

text \<open>The contract shared by the queues of the lock-free and of the container crate. \<open>ticks\<close> bounds
  the number of further operations before a position overflows.\<close>

locale bounded_queue =
  fixes invar :: "'q \<Rightarrow> bool" and list :: "'q \<Rightarrow> 'a list" and cap :: "'q \<Rightarrow> nat" and ticks :: "'q \<Rightarrow> nat"
    and push :: "'q \<Rightarrow> 'a \<Rightarrow> ('e, 'q \<times> bool) outcome"
    and pop :: "'q \<Rightarrow> ('e, 'q \<times> 'a option) outcome"
  assumes list_cap: "invar q \<Longrightarrow> length (list q) \<le> cap q"
    and push_full: "invar q \<Longrightarrow> 0 < ticks q \<Longrightarrow> length (list q) = cap q \<Longrightarrow> push q x = Ok (q, False)"
    and push_ok: "invar q \<Longrightarrow> 0 < ticks q \<Longrightarrow> length (list q) < cap q \<Longrightarrow>
      \<exists>q'. push q x = Ok (q', True) \<and> invar q' \<and> list q' = list q @ [x] \<and> cap q' = cap q \<and> ticks q \<le> Suc (ticks q')"
    and pop_empty: "invar q \<Longrightarrow> list q = [] \<Longrightarrow> pop q = Ok (q, None)"
    and pop_ok: "invar q \<Longrightarrow> 0 < ticks q \<Longrightarrow> list q = x # xs \<Longrightarrow>
      \<exists>q'. pop q = Ok (q', Some x) \<and> invar q' \<and> list q' = xs \<and> cap q' = cap q \<and> ticks q \<le> Suc (ticks q')"
begin

fun push_all :: "'q \<Rightarrow> 'a list \<Rightarrow> ('e, 'q) outcome" where
  "push_all q [] = Ok q"
| "push_all q (x # xs) = obind (push q x) (\<lambda>(q', _). push_all q' xs)"

fun pop_n :: "nat \<Rightarrow> 'q \<Rightarrow> ('e, 'q \<times> 'a list) outcome" where
  "pop_n 0 q = Ok (q, [])"
| "pop_n (Suc n) q = obind (pop q) (\<lambda>(q', r).
     case r of None \<Rightarrow> Ok (q', []) | Some x \<Rightarrow> omap (\<lambda>(q'', xs). (q'', x # xs)) (pop_n n q'))"

lemma push_all_ok:
  "invar q \<Longrightarrow> length xs \<le> ticks q \<Longrightarrow> length (list q) + length xs \<le> cap q \<Longrightarrow>
     \<exists>q'. push_all q xs = Ok q' \<and> invar q' \<and> list q' = list q @ xs \<and> cap q' = cap q \<and> ticks q \<le> length xs + ticks q'"
proof (induction xs arbitrary: q)
  case (Cons x xs)
  obtain q1 where q1: "push q x = Ok (q1, True)" "invar q1" "list q1 = list q @ [x]" "cap q1 = cap q"
    "ticks q \<le> Suc (ticks q1)"
    using push_ok [of q x] Cons.prems by auto
  then obtain q2 where "push_all q1 xs = Ok q2" "invar q2" "list q2 = list q1 @ xs" "cap q2 = cap q1"
    "ticks q1 \<le> length xs + ticks q2"
    using Cons.IH [of q1] Cons.prems by auto
  then show ?case using q1 by auto
qed simp

lemma pop_n_ok:
  "invar q \<Longrightarrow> length (list q) \<le> ticks q \<Longrightarrow> \<exists>q'. pop_n n q = Ok (q', take n (list q)) \<and> invar q' \<and> list q' = drop n (list q)"
proof (induction n arbitrary: q)
  case (Suc n)
  show ?case
  proof (cases "list q")
    case Nil
    then show ?thesis using pop_empty Suc.prems by auto
  next
    case (Cons x xs)
    obtain q1 where q1: "pop q = Ok (q1, Some x)" "invar q1" "list q1 = xs" "ticks q \<le> Suc (ticks q1)"
      using pop_ok [OF Suc.prems(1) _ Cons] Suc.prems Cons by auto
    then obtain q2 where "pop_n n q1 = Ok (q2, take n xs)" "invar q2" "list q2 = drop n xs"
      using Suc.IH [of q1] Suc.prems Cons by auto
    then show ?thesis using q1 Cons by auto
  qed
qed auto

text \<open>First in, first out: values pushed into an empty queue come out in the order of insertion.\<close>

lemma fifo:
  assumes "invar q" and "list q = []" and "length xs \<le> cap q" and "length xs + length xs \<le> ticks q"
  shows "\<exists>q1 q2. push_all q xs = Ok q1 \<and> pop_n (length xs) q1 = Ok (q2, xs) \<and> invar q2 \<and> list q2 = []"
proof -
  obtain q1 where "push_all q xs = Ok q1" "invar q1" "list q1 = xs" "length xs \<le> ticks q1"
    using push_all_ok [OF assms(1), of xs] assms by auto
  then show ?thesis using pop_n_ok [of q1 "length xs"] by auto
qed

end

section \<open>Contract of a queue that overflows\<close>

text \<open>The queue of the container crate and the lock-free queue between publisher and subscriber can
  also replace the oldest value. \<open>push_over\<close> returns the value it had to evict.\<close>

locale overflowing_queue =
  fixes invar :: "'q \<Rightarrow> bool" and list :: "'q \<Rightarrow> 'a list" and cap :: "'q \<Rightarrow> nat" and ticks :: "'q \<Rightarrow> nat"
    and push_over :: "'q \<Rightarrow> 'a \<Rightarrow> ('e, 'q \<times> 'a option) outcome"
  assumes over_cap: "invar q \<Longrightarrow> length (list q) \<le> cap q"
    and over_fits: "invar q \<Longrightarrow> 0 < ticks q \<Longrightarrow> length (list q) < cap q \<Longrightarrow>
      \<exists>q'. push_over q x = Ok (q', None) \<and> invar q' \<and> list q' = list q @ [x] \<and> cap q' = cap q \<and> ticks q \<le> Suc (ticks q')"
    and over_evicts: "invar q \<Longrightarrow> 0 < ticks q \<Longrightarrow> list q = y # ys \<Longrightarrow> length (list q) = cap q \<Longrightarrow>
      \<exists>q'. push_over q x = Ok (q', Some y) \<and> invar q' \<and> list q' = ys @ [x] \<and> cap q' = cap q \<and> ticks q \<le> Suc (ticks q')"
begin

fun over_all :: "'q \<Rightarrow> 'a list \<Rightarrow> ('e, 'q \<times> 'a list) outcome" where
  "over_all q [] = Ok (q, [])"
| "over_all q (x # xs) = obind (push_over q x) (\<lambda>(q', r).
     omap (\<lambda>(q'', es). (q'', (case r of None \<Rightarrow> es | Some e \<Rightarrow> e # es))) (over_all q' xs))"

text \<open>Nothing is lost: the evicted values followed by the stored ones are the old content followed by
  the pushed values, and only what exceeds the capacity is evicted.\<close>

lemma over_all_ok:
  "invar q \<Longrightarrow> 0 < cap q \<Longrightarrow> length xs \<le> ticks q \<Longrightarrow>
     \<exists>q' es. over_all q xs = Ok (q', es) \<and> invar q' \<and> es @ list q' = list q @ xs \<and> cap q' = cap q
       \<and> length es = length (list q) + length xs - cap q"
proof (induction xs arbitrary: q)
  case Nil
  then show ?case using over_cap [of q] by auto
next
  case (Cons x xs)
  show ?case
  proof (cases "length (list q) < cap q")
    case True
    then obtain q1 where q1: "push_over q x = Ok (q1, None)" "invar q1" "list q1 = list q @ [x]" "cap q1 = cap q"
      "ticks q \<le> Suc (ticks q1)"
      using over_fits [of q x] Cons.prems by auto
    then show ?thesis using Cons.IH [of q1] Cons.prems by auto
  next
    case False
    then have full: "length (list q) = cap q" using over_cap [OF Cons.prems(1)] by simp
    then obtain y ys where y: "list q = y # ys" using Cons.prems(2) by (cases "list q") auto
    then obtain q1 where q1: "push_over q x = Ok (q1, Some y)" "invar q1" "list q1 = ys @ [x]" "cap q1 = cap q"
      "ticks q \<le> Suc (ticks q1)"
      using over_evicts [OF Cons.prems(1) _ y full, of x] Cons.prems by auto
    then show ?thesis using Cons.IH [of q1] Cons.prems y full by auto
  qed
qed

end

end
