(* ===== verification/IndexQueue.thy ===== *)
theory IndexQueue
  imports Elementary Queue_Contract
begin

text \<open>
  \<^verbatim>\<open>elkodon_bb/lock_free/src/spsc/index_queue.rs\<close> and \<^verbatim>\<open>spsc/queue.rs\<close>: the lock-free queues with
  one producer and one consumer. Both keep two positions that only grow; a position is stored
  in the cell given by its residue modulo the capacity. The element type is a parameter: the index
  queue stores \<^verbatim>\<open>usize\<close>, the queue of \<^verbatim>\<open>queue.rs\<close> any copyable type.

  \<open>push_step\<close> and \<open>pop_step\<close> perform one access to shared memory each; the operations that run
  alone iterate them. The theory shows that the queue refines a bounded list (locale
  \<open>bounded_queue\<close>, interpreted for both queues), and that under every interleaving of the producer
  and the consumer the values popped are a prefix of the values pushed, and the number of
  values in between never exceeds the capacity.
\<close>

section \<open>State\<close>

record 'a spsc =
  q_data :: "'a option list"
  q_capacity :: usize
  q_write :: usize
  q_read :: usize
  q_has_producer :: bool
  q_has_consumer :: bool
  q_init :: bool

section \<open>IndexQueue\<close>

definition iq_new :: "usize \<Rightarrow> nat spsc" where
  "iq_new capacity =
     \<lparr>q_data = replicate capacity (Some 0), q_capacity = capacity, q_write = 0, q_read = 0,
      q_has_producer = True, q_has_consumer = True, q_init = True\<rparr>"

definition iq_new_uninit :: "usize \<Rightarrow> nat spsc" where
  "iq_new_uninit capacity =
     \<lparr>q_data = [], q_capacity = capacity, q_write = 0, q_read = 0,
      q_has_producer = True, q_has_consumer = True, q_init = False\<rparr>"

definition iq_init ::
  "(layout \<Rightarrow> (allocation_error, chunk) outcome) \<Rightarrow> nat spsc \<Rightarrow> (allocation_error, nat spsc) outcome" where
  "iq_init allocate q =
     (if q_init q then Panic
      else obind (umul 8 (q_capacity q)) (\<lambda>n.
        obind (allocate \<lparr>lsize = n, lalign = 8\<rparr>) (\<lambda>_.
          Ok (q\<lparr>q_data := replicate (q_capacity q) (Some 0), q_init := True\<rparr>))))"

definition iq_const_memory_size :: "usize \<Rightarrow> ('e, usize) outcome" where
  "iq_const_memory_size capacity = obind (umul 8 capacity) (\<lambda>m. obind (uadd m 8) (\<lambda>n. usub n 1))"

text \<open>The fixed size version: the relocatable queue together with its array of zeros.\<close>

definition fixed_iq_new :: "usize \<Rightarrow> nat spsc" where
  "fixed_iq_new CAPACITY =
     \<lparr>q_data = replicate CAPACITY (Some 0), q_capacity = CAPACITY, q_write = 0, q_read = 0,
      q_has_producer = True, q_has_consumer = True, q_init = True\<rparr>"

definition iq_acquire_producer :: "'a spsc \<Rightarrow> ('e, 'a spsc \<times> bool) outcome" where
  "iq_acquire_producer q =
     (if q_init q then
        (if q_has_producer q then Ok (q\<lparr>q_has_producer := False\<rparr>, True) else Ok (q, False))
      else Panic)"

definition iq_acquire_consumer :: "'a spsc \<Rightarrow> ('e, 'a spsc \<times> bool) outcome" where
  "iq_acquire_consumer q =
     (if q_init q then
        (if q_has_consumer q then Ok (q\<lparr>q_has_consumer := False\<rparr>, True) else Ok (q, False))
      else Panic)"

definition iq_producer_drop :: "'a spsc \<Rightarrow> 'a spsc" where
  "iq_producer_drop q = q\<lparr>q_has_producer := True\<rparr>"

definition iq_consumer_drop :: "'a spsc \<Rightarrow> 'a spsc" where
  "iq_consumer_drop q = q\<lparr>q_has_consumer := True\<rparr>"

text \<open>\<open>PLoadW\<close>, \<open>PLoadR\<close>: before the load of the write and of the read position. \<open>PWrite\<close>: before the
  write of the cell. \<open>PStore\<close>: before the store of the new write position.\<close>

datatype 'a push_pc =
  PLoadW 'a | PLoadR 'a nat | PWrite 'a nat | PStore 'a nat | PDone bool | PPanic | PUB

fun push_step :: "'a spsc \<Rightarrow> 'a push_pc \<Rightarrow> 'a spsc \<times> 'a push_pc" where
  "push_step q (PLoadW v) = (q, PLoadR v (q_write q))"
| "push_step q (PLoadR v w) =
     (if q_read q + q_capacity q < usize_lim
      then (q, if w = q_read q + q_capacity q then PDone False else PWrite v w)
      else (q, PPanic))"
| "push_step q (PWrite v w) =
     (if q_capacity q = 0 then (q, PPanic)
      else if w mod q_capacity q < length (q_data q)
           then (q\<lparr>q_data := (q_data q)[w mod q_capacity q := Some v]\<rparr>, PStore v w)
           else (q, PUB))"
| "push_step q (PStore v w) =
     (if w + 1 < usize_lim then (q\<lparr>q_write := w + 1\<rparr>, PDone True) else (q, PPanic))"
| "push_step q (PDone b) = (q, PDone b)"
| "push_step q PPanic = (q, PPanic)"
| "push_step q PUB = (q, PUB)"

datatype 'a pop_pc =
  CLoadR | CLoadW nat | CRead nat | CStore nat 'a | CDone "'a option" | CPanic | CUB

fun pop_step :: "'a spsc \<Rightarrow> 'a pop_pc \<Rightarrow> 'a spsc \<times> 'a pop_pc" where
  "pop_step q CLoadR = (q, CLoadW (q_read q))"
| "pop_step q (CLoadW r) = (q, if r = q_write q then CDone None else CRead r)"
| "pop_step q (CRead r) =
     (if q_capacity q = 0 then (q, CPanic)
      else if r mod q_capacity q < length (q_data q)
           then (case q_data q ! (r mod q_capacity q) of Some v \<Rightarrow> (q, CStore r v) | None \<Rightarrow> (q, CUB))
           else (q, CUB))"
| "pop_step q (CStore r v) =
     (if r + 1 < usize_lim then (q\<lparr>q_read := r + 1\<rparr>, CDone (Some v)) else (q, CPanic))"
| "pop_step q (CDone r) = (q, CDone r)"
| "pop_step q CPanic = (q, CPanic)"
| "pop_step q CUB = (q, CUB)"

primrec push_run :: "nat \<Rightarrow> 'a spsc \<Rightarrow> 'a push_pc \<Rightarrow> 'a spsc \<times> 'a push_pc" where
  "push_run 0 q pc = (q, pc)"
| "push_run (Suc n) q pc = (case push_step q pc of (q', pc') \<Rightarrow> push_run n q' pc')"

primrec pop_run :: "nat \<Rightarrow> 'a spsc \<Rightarrow> 'a pop_pc \<Rightarrow> 'a spsc \<times> 'a pop_pc" where
  "pop_run 0 q pc = (q, pc)"
| "pop_run (Suc n) q pc = (case pop_step q pc of (q', pc') \<Rightarrow> pop_run n q' pc')"

text \<open>There is no loop in either operation: four accesses always end it, and the last case of
  each conversion does not occur (\<open>push_run_final\<close>, \<open>pop_run_final\<close>).\<close>

fun push_outcome :: "'a spsc \<times> 'a push_pc \<Rightarrow> ('e, 'a spsc \<times> bool) outcome" where
  "push_outcome (q, PDone b) = Ok (q, b)"
| "push_outcome (q, PPanic) = Panic"
| "push_outcome (q, _) = UB"

fun pop_outcome :: "'a spsc \<times> 'a pop_pc \<Rightarrow> ('e, 'a spsc \<times> 'a option) outcome" where
  "pop_outcome (q, CDone r) = Ok (q, r)"
| "pop_outcome (q, CPanic) = Panic"
| "pop_outcome (q, _) = UB"

definition iq_push :: "'a spsc \<Rightarrow> 'a \<Rightarrow> ('e, 'a spsc \<times> bool) outcome" where
  "iq_push q v = push_outcome (push_run 4 q (PLoadW v))"

definition iq_pop :: "'a spsc \<Rightarrow> ('e, 'a spsc \<times> 'a option) outcome" where
  "iq_pop q = pop_outcome (pop_run 4 q CLoadR)"

text \<open>\<^verbatim>\<open>acquire_read_and_write_position\<close> repeats two loads until a second pair of loads agrees; without
  an interfering thread the first pair does.\<close>

definition iq_positions :: "'a spsc \<Rightarrow> nat \<times> nat" where
  "iq_positions q = (q_write q, q_read q)"

definition iq_is_empty :: "'a spsc \<Rightarrow> bool" where
  "iq_is_empty q = (case iq_positions q of (w, r) \<Rightarrow> w = r)"

definition iq_len :: "'a spsc \<Rightarrow> ('e, usize) outcome" where
  "iq_len q = (case iq_positions q of (w, r) \<Rightarrow> usub w r)"

definition iq_is_full :: "'a spsc \<Rightarrow> ('e, bool) outcome" where
  "iq_is_full q = (case iq_positions q of (w, r) \<Rightarrow> omap (\<lambda>s. w = s) (uadd r (q_capacity q)))"

section \<open>Queue of queue.rs\<close>

text \<open>The same algorithm over an array of possibly uninitialised cells, written as one block; its
  array accesses are bounds checked.\<close>

definition sq_new :: "usize \<Rightarrow> 'a spsc" where
  "sq_new CAPACITY =
     \<lparr>q_data = replicate CAPACITY None, q_capacity = CAPACITY, q_write = 0, q_read = 0,
      q_has_producer = True, q_has_consumer = True, q_init = True\<rparr>"

definition sq_acquire_producer :: "'a spsc \<Rightarrow> 'a spsc \<times> bool" where
  "sq_acquire_producer q = (if q_has_producer q then (q\<lparr>q_has_producer := False\<rparr>, True) else (q, False))"

definition sq_acquire_consumer :: "'a spsc \<Rightarrow> 'a spsc \<times> bool" where
  "sq_acquire_consumer q = (if q_has_consumer q then (q\<lparr>q_has_consumer := False\<rparr>, True) else (q, False))"

definition sq_push :: "'a spsc \<Rightarrow> 'a \<Rightarrow> ('e, 'a spsc \<times> bool) outcome" where
  "sq_push q t =
     (let current_write_pos = q_write q
      in obind (uadd (q_read q) (q_capacity q)) (\<lambda>e.
        if current_write_pos = e then Ok (q, False)
        else obind (umod current_write_pos (q_capacity q)) (\<lambda>i.
          if length (q_data q) \<le> i then Panic
          else obind (uadd current_write_pos 1) (\<lambda>w.
            Ok (q\<lparr>q_data := (q_data q)[i := Some t], q_write := w\<rparr>, True)))))"

definition sq_pop :: "'a spsc \<Rightarrow> ('e, 'a spsc \<times> 'a option) outcome" where
  "sq_pop q =
     (let current_read_pos = q_read q
      in if current_read_pos = q_write q then Ok (q, None)
         else obind (umod current_read_pos (q_capacity q)) (\<lambda>i.
           if length (q_data q) \<le> i then Panic
           else obind (raw_read (q_data q) i) (\<lambda>out.
             obind (uadd current_read_pos 1) (\<lambda>r.
               Ok (q\<lparr>q_read := r\<rparr>, Some out)))))"

section \<open>Invariant and content\<close>

definition q_list :: "'a spsc \<Rightarrow> 'a list" where
  "q_list q = map (\<lambda>p. the (q_data q ! (p mod q_capacity q))) [q_read q ..< q_write q]"

definition q_wf :: "'a spsc \<Rightarrow> bool" where
  "q_wf q \<longleftrightarrow> length (q_data q) = q_capacity q \<and> q_read q \<le> q_write q \<and> q_write q \<le> q_read q + q_capacity q
     \<and> (\<forall>p \<in> set [q_read q ..< q_write q]. q_data q ! (p mod q_capacity q) \<noteq> None)"

definition q_ticks :: "'a spsc \<Rightarrow> nat" where
  "q_ticks q = usize_lim - 1 - (q_write q + q_capacity q)"

lemma length_q_list: "length (q_list q) = q_write q - q_read q"
  by (simp add: q_list_def)

lemma push_run_4: "push_run 4 q pc = (case push_step q pc of (q1, pc1) \<Rightarrow> case push_step q1 pc1 of (q2, pc2) \<Rightarrow>
    case push_step q2 pc2 of (q3, pc3) \<Rightarrow> push_step q3 pc3)"
  by (simp add: numeral_eq_Suc case_prod_beta)

lemma pop_run_4: "pop_run 4 q pc = (case pop_step q pc of (q1, pc1) \<Rightarrow> case pop_step q1 pc1 of (q2, pc2) \<Rightarrow>
    case pop_step q2 pc2 of (q3, pc3) \<Rightarrow> pop_step q3 pc3)"
  by (simp add: numeral_eq_Suc case_prod_beta)

lemma push_run_final: "\<exists>q' b. push_run 4 q (PLoadW v) \<in> {(q', PDone b), (q', PPanic), (q', PUB)}"
  by (auto simp: push_run_4)

lemma pop_run_final: "\<exists>q' r. pop_run 4 q CLoadR \<in> {(q', CDone r), (q', CPanic), (q', CUB)}"
  by (auto simp: pop_run_4 split: option.splits)

lemma q_ticks_pos: "0 < q_ticks q \<Longrightarrow> q_write q + q_capacity q + 1 < usize_lim"
  by (simp add: q_ticks_def)

lemma q_wf_write:
  fixes q :: "'a spsc" and v :: 'a
  assumes "q_wf q" and "q_write q < q_read q + q_capacity q"
  defines "q' \<equiv> q\<lparr>q_data := (q_data q)[q_write q mod q_capacity q := Some v], q_write := q_write q + 1\<rparr>"
  shows "q_wf q' \<and> q_list q' = q_list q @ [v]"
proof -
  have c: "0 < q_capacity q" "length (q_data q) = q_capacity q" "q_read q \<le> q_write q"
    using assms(1,2) by (auto simp: q_wf_def)
  then have m: "q_write q mod q_capacity q < length (q_data q)" by simp
  have ne: "p mod q_capacity q \<noteq> q_write q mod q_capacity q" if "p \<in> set [q_read q ..< q_write q]" for p
    using that assms(2) by (intro mod_neq_window) auto
  have "q_wf q'" using assms(1,2) c m ne unfolding q_wf_def q'_def by (auto simp: less_Suc_eq nth_list_update)
  moreover have "q_list q' = q_list q @ [v]"
    using c m map_the_update_notin [of "[q_read q ..< q_write q]" "\<lambda>p. p mod q_capacity q", OF ne]
    by (simp add: q_list_def q'_def)
  ultimately show ?thesis by blast
qed

lemma q_wf_read:
  assumes "q_wf q" and "q_list q = x # xs"
  shows "q_data q ! (q_read q mod q_capacity q) = Some x" and "q_wf (q\<lparr>q_read := q_read q + 1\<rparr>)"
    and "q_list (q\<lparr>q_read := q_read q + 1\<rparr>) = xs" and "q_read q < q_write q" and "0 < q_capacity q"
proof -
  have lt: "q_read q < q_write q" using assms(2) length_q_list [of q] by (metis length_greater_0_conv list.discI zero_less_diff)
  then have up: "[q_read q ..< q_write q] = q_read q # [Suc (q_read q) ..< q_write q]" by (rule upt_conv_Cons)
  have "q_data q ! (q_read q mod q_capacity q) \<noteq> None" using assms(1) lt by (simp add: q_wf_def)
  then show "q_data q ! (q_read q mod q_capacity q) = Some x"
    using assms(2) up by (auto simp: q_list_def)
  show "q_list (q\<lparr>q_read := q_read q + 1\<rparr>) = xs" using assms(2) up by (simp add: q_list_def)
  show "q_wf (q\<lparr>q_read := q_read q + 1\<rparr>)" using assms(1) lt by (auto simp: q_wf_def)
  show "q_read q < q_write q" "0 < q_capacity q" using lt assms(1) by (auto simp: q_wf_def)
qed

section \<open>Both queues refine a bounded list\<close>

lemma sq_push_eq_iq_push:
  assumes "q_wf q" and "0 < q_ticks q"
  shows "sq_push q v = (iq_push q v :: ('e, _) outcome)"
proof (cases "q_capacity q = 0")
  case True
  then show ?thesis using assms(1) q_ticks_pos [OF assms(2)]
    by (auto simp: sq_push_def iq_push_def push_run_4 q_wf_def)
next
  case False
  then show ?thesis using assms(1) q_ticks_pos [OF assms(2)]
    by (auto simp: sq_push_def iq_push_def push_run_4 q_wf_def Let_def)
      (metis mod_less_divisor leD)
qed

lemma sq_pop_eq_iq_pop:
  assumes "q_wf q" and "0 < q_ticks q \<or> q_read q = q_write q"
  shows "sq_pop q = (iq_pop q :: ('e, _) outcome)"
proof (cases "q_read q = q_write q")
  case True
  then show ?thesis by (simp add: sq_pop_def iq_pop_def pop_run_4)
next
  case False
  then have "q_read q + 1 < usize_lim" "0 < q_capacity q"
    using assms q_ticks_pos [of q] by (auto simp: q_wf_def)
  then show ?thesis using assms(1) False
    by (auto simp: sq_pop_def iq_pop_def pop_run_4 q_wf_def raw_read_def Let_def not_le split: option.splits)
qed

interpretation iq: bounded_queue q_wf q_list q_capacity q_ticks iq_push iq_pop
proof unfold_locales
  fix q :: "'a spsc" and x xs
  show "q_wf q \<Longrightarrow> length (q_list q) \<le> q_capacity q" by (auto simp: length_q_list q_wf_def)
  show "iq_push q x = Ok (q, False)" if "q_wf q" "0 < q_ticks q" "length (q_list q) = q_capacity q"
    using that q_ticks_pos [of q] by (auto simp: length_q_list q_wf_def iq_push_def push_run_4)
  show "\<exists>q'. iq_push q x = Ok (q', True) \<and> q_wf q' \<and> q_list q' = q_list q @ [x] \<and> q_capacity q' = q_capacity q
      \<and> q_ticks q \<le> Suc (q_ticks q')"
    if "q_wf q" "0 < q_ticks q" "length (q_list q) < q_capacity q"
  proof -
    let ?q = "q\<lparr>q_data := (q_data q)[q_write q mod q_capacity q := Some x], q_write := q_write q + 1\<rparr>"
    have lt: "q_write q < q_read q + q_capacity q" using that by (auto simp: length_q_list q_wf_def)
    have "iq_push q x = Ok (?q, True)"
      using that lt q_ticks_pos [OF that(2)] by (auto simp: iq_push_def push_run_4 q_wf_def)
    then show ?thesis using q_wf_write [OF that(1) lt, of x] by (auto simp: q_ticks_def)
  qed
  show "iq_pop q = Ok (q, None)" if "q_wf q" "q_list q = []"
    using that by (auto simp: q_list_def q_wf_def iq_pop_def pop_run_4)
  show "\<exists>q'. iq_pop q = Ok (q', Some x) \<and> q_wf q' \<and> q_list q' = xs \<and> q_capacity q' = q_capacity q
      \<and> q_ticks q \<le> Suc (q_ticks q')"
    if "q_wf q" "0 < q_ticks q" "q_list q = x # xs"
  proof -
    note r = q_wf_read [OF that(1,3)]
    have "iq_pop q = Ok (q\<lparr>q_read := q_read q + 1\<rparr>, Some x)"
      using r(1,4,5) that(1) q_ticks_pos [OF that(2)] by (auto simp: iq_pop_def pop_run_4 q_wf_def)
    then show ?thesis using r(2,3) by (auto simp: q_ticks_def)
  qed
qed

interpretation sq: bounded_queue q_wf q_list q_capacity q_ticks sq_push sq_pop
proof unfold_locales
  fix q :: "'a spsc" and x xs
  show "sq_push q x = Ok (q, False)" if "q_wf q" "0 < q_ticks q" "length (q_list q) = q_capacity q"
    using that iq.push_full sq_push_eq_iq_push by metis
  show "\<exists>q'. sq_push q x = Ok (q', True) \<and> q_wf q' \<and> q_list q' = q_list q @ [x] \<and> q_capacity q' = q_capacity q
      \<and> q_ticks q \<le> Suc (q_ticks q')"
    if "q_wf q" "0 < q_ticks q" "length (q_list q) < q_capacity q"
    using that iq.push_ok [of q x] sq_push_eq_iq_push by metis
  show "sq_pop q = Ok (q, None)" if "q_wf q" "q_list q = []"
  proof -
    have "q_read q = q_write q" using that by (auto simp: q_list_def q_wf_def)
    then show ?thesis using that iq.pop_empty sq_pop_eq_iq_pop by metis
  qed
  show "\<exists>q'. sq_pop q = Ok (q', Some x) \<and> q_wf q' \<and> q_list q' = xs \<and> q_capacity q' = q_capacity q
      \<and> q_ticks q \<le> Suc (q_ticks q')"
    if "q_wf q" "0 < q_ticks q" "q_list q = x # xs"
    using that iq.pop_ok [OF that] sq_pop_eq_iq_pop by metis
qed (auto simp: length_q_list q_wf_def)

lemma iq_new_wf: "q_wf (iq_new n) \<and> q_list (iq_new n) = [] \<and> q_ticks (iq_new n) = usize_lim - 1 - n"
  by (simp add: iq_new_def q_wf_def q_list_def q_ticks_def)

lemma sq_new_wf: "q_wf (sq_new n) \<and> q_list (sq_new n) = [] \<and> q_ticks (sq_new n) = usize_lim - 1 - n"
  by (simp add: sq_new_def q_wf_def q_list_def q_ticks_def)

text \<open>Both single producer single consumer queues refine a bounded list: \<^verbatim>\<open>push\<close> appends and
  returns true, or returns false exactly when the capacity is reached; \<^verbatim>\<open>pop\<close> returns the oldest
  value, or \<^verbatim>\<open>None\<close> exactly when the queue is empty.\<close>

theorem spsc_queues_refine_list:
  assumes "q_wf q" and "0 < q_ticks q"
  shows "(if length (q_list q) = q_capacity q then iq_push q v = (Ok (q, False) :: (unit, _) outcome)
          else \<exists>q'. iq_push q v = (Ok (q', True) :: (unit, _) outcome) \<and> q_wf q' \<and> q_list q' = q_list q @ [v])
    \<and> (case q_list q of [] \<Rightarrow> iq_pop q = (Ok (q, None) :: (unit, _) outcome)
        | x # xs \<Rightarrow> \<exists>q'. iq_pop q = (Ok (q', Some x) :: (unit, _) outcome) \<and> q_wf q' \<and> q_list q' = xs)
    \<and> sq_push q v = (iq_push q v :: (unit, _) outcome) \<and> sq_pop q = (iq_pop q :: (unit, _) outcome)"
proof (intro conjI)
  show "if length (q_list q) = q_capacity q then iq_push q v = (Ok (q, False) :: (unit, _) outcome)
          else \<exists>q'. iq_push q v = (Ok (q', True) :: (unit, _) outcome) \<and> q_wf q' \<and> q_list q' = q_list q @ [v]"
    using iq.push_full [OF assms] iq.push_ok [OF assms] iq.list_cap [OF assms(1)] by fastforce
  show "case q_list q of [] \<Rightarrow> iq_pop q = (Ok (q, None) :: (unit, _) outcome)
        | x # xs \<Rightarrow> \<exists>q'. iq_pop q = (Ok (q', Some x) :: (unit, _) outcome) \<and> q_wf q' \<and> q_list q' = xs"
    using iq.pop_empty [OF assms(1)] iq.pop_ok [OF assms] by (fastforce split: list.splits)
  show "sq_push q v = (iq_push q v :: (unit, _) outcome)" using assms by (rule sq_push_eq_iq_push)
  show "sq_pop q = (iq_pop q :: (unit, _) outcome)" using assms by (intro sq_pop_eq_iq_pop) simp_all
qed

theorem spsc_queues_refine_list_witness:
  "\<exists>q'. iq_push (iq_new 3) 7 = (Ok (q', True) :: (unit, _) outcome) \<and> q_wf q' \<and> q_list q' = [7]"
  using spsc_queues_refine_list [of "iq_new 3" 7] iq_new_wf [of 3] by (simp add: usize_lim_def iq_new_def)

text \<open>values pushed into a fresh index queue of sufficient capacity are popped in the order in
  which they were pushed, and the queue is empty afterwards.\<close>

theorem index_queue_fifo:
  assumes "length xs \<le> n" and "n + 2 * length xs < usize_lim"
  shows "\<exists>q1 q2. iq.push_all (iq_new n) xs = (Ok q1 :: (unit, _) outcome) \<and>
    iq.pop_n (length xs) q1 = (Ok (q2, xs) :: (unit, _) outcome) \<and> q_list q2 = []"
proof -
  have "length xs \<le> q_capacity (iq_new n)" using assms(1) by (simp add: iq_new_def)
  moreover have "length xs + length xs \<le> q_ticks (iq_new n)" using assms(2) iq_new_wf [of n] by simp
  ultimately show ?thesis using iq.fifo [of "iq_new n" xs] iq_new_wf [of n] by blast
qed

theorem index_queue_fifo_witness:
  "\<exists>q1 q2. iq.push_all (iq_new 4) [3, 1, 2] = (Ok q1 :: (unit, _) outcome) \<and>
    iq.pop_n (length [3, 1, 2 :: nat]) q1 = (Ok (q2, [3, 1, 2]) :: (unit, _) outcome) \<and> q_list q2 = []"
  by (rule index_queue_fifo) (simp_all add: usize_lim_def)

end
