(* ===== verification/IndexQueue_Conc.thy ===== *)
theory IndexQueue_Conc
  imports IndexQueue
begin

text \<open>
  The index queue with its producer and its consumer running concurrently, interleaved at every
  access to shared memory (sequential consistency). \<open>pushed\<close> and \<open>popped\<close> record the history:
  a value counts as pushed when the producer stores the new write position and as popped when the
  consumer stores the new read position.
\<close>

section \<open>The system\<close>

record 'a spsc_sys =
  queue :: "'a spsc"
  producer :: "'a push_pc option"
  consumer :: "'a pop_pc option"
  pushed :: "'a list"
  popped :: "'a list"

fun push_commit :: "'a push_pc \<Rightarrow> 'a push_pc \<Rightarrow> 'a list" where
  "push_commit (PStore v w) (PDone True) = [v]"
| "push_commit _ _ = []"

fun pop_commit :: "'a pop_pc \<Rightarrow> 'a pop_pc \<Rightarrow> 'a list" where
  "pop_commit (CStore r v) (CDone _) = [v]"
| "pop_commit _ _ = []"

inductive spsc_step :: "'a spsc_sys \<Rightarrow> 'a spsc_sys \<Rightarrow> bool" where
  call_push: "producer \<sigma> = None \<Longrightarrow> spsc_step \<sigma> (\<sigma>\<lparr>producer := Some (PLoadW v)\<rparr>)"
| call_pop: "consumer \<sigma> = None \<Longrightarrow> spsc_step \<sigma> (\<sigma>\<lparr>consumer := Some CLoadR\<rparr>)"
| work_push: "producer \<sigma> = Some pc \<Longrightarrow> push_step (queue \<sigma>) pc = (q', pc') \<Longrightarrow>
     spsc_step \<sigma> (\<sigma>\<lparr>queue := q', producer := Some pc', pushed := pushed \<sigma> @ push_commit pc pc'\<rparr>)"
| work_pop: "consumer \<sigma> = Some pc \<Longrightarrow> pop_step (queue \<sigma>) pc = (q', pc') \<Longrightarrow>
     spsc_step \<sigma> (\<sigma>\<lparr>queue := q', consumer := Some pc', popped := popped \<sigma> @ pop_commit pc pc'\<rparr>)"
| return_push: "producer \<sigma> = Some (PDone b) \<Longrightarrow> spsc_step \<sigma> (\<sigma>\<lparr>producer := None\<rparr>)"
| return_pop: "consumer \<sigma> = Some (CDone r) \<Longrightarrow> spsc_step \<sigma> (\<sigma>\<lparr>consumer := None\<rparr>)"

definition spsc_init :: "'a spsc \<Rightarrow> 'a spsc_sys" where
  "spsc_init q = \<lparr>queue = q, producer = None, consumer = None, pushed = [], popped = []\<rparr>"

inductive spsc_reachable :: "'a spsc \<Rightarrow> 'a spsc_sys \<Rightarrow> bool" for q where
  start: "spsc_reachable q (spsc_init q)"
| step: "spsc_reachable q \<sigma> \<Longrightarrow> spsc_step \<sigma> \<tau> \<Longrightarrow> spsc_reachable q \<tau>"

section \<open>The invariant\<close>

definition ring_ok :: "'a spsc \<Rightarrow> 'a list \<Rightarrow> bool" where
  "ring_ok q h \<longleftrightarrow> length (q_data q) = q_capacity q \<and> q_write q = length h \<and> q_read q \<le> q_write q
     \<and> q_write q \<le> q_read q + q_capacity q
     \<and> (\<forall>p. q_read q \<le> p \<and> p < q_write q \<longrightarrow> q_data q ! (p mod q_capacity q) = Some (h ! p))"

fun push_ok :: "'a spsc \<Rightarrow> 'a push_pc \<Rightarrow> bool" where
  "push_ok q (PLoadR v w) \<longleftrightarrow> w = q_write q"
| "push_ok q (PWrite v w) \<longleftrightarrow> w = q_write q \<and> w < q_read q + q_capacity q"
| "push_ok q (PStore v w) \<longleftrightarrow> w = q_write q \<and> w < q_read q + q_capacity q \<and> q_data q ! (w mod q_capacity q) = Some v"
| "push_ok q PUB \<longleftrightarrow> False"
| "push_ok q _ \<longleftrightarrow> True"

fun pop_ok :: "'a spsc \<Rightarrow> 'a list \<Rightarrow> 'a pop_pc \<Rightarrow> bool" where
  "pop_ok q h (CLoadW r) \<longleftrightarrow> r = q_read q"
| "pop_ok q h (CRead r) \<longleftrightarrow> r = q_read q \<and> r < q_write q"
| "pop_ok q h (CStore r v) \<longleftrightarrow> r = q_read q \<and> r < q_write q \<and> v = h ! r"
| "pop_ok q h CUB \<longleftrightarrow> False"
| "pop_ok q h _ \<longleftrightarrow> True"

definition spsc_inv :: "'a spsc_sys \<Rightarrow> bool" where
  "spsc_inv \<sigma> \<longleftrightarrow> ring_ok (queue \<sigma>) (pushed \<sigma>) \<and> popped \<sigma> = take (q_read (queue \<sigma>)) (pushed \<sigma>)
     \<and> (\<forall>pc. producer \<sigma> = Some pc \<longrightarrow> push_ok (queue \<sigma>) pc)
     \<and> (\<forall>pc. consumer \<sigma> = Some pc \<longrightarrow> pop_ok (queue \<sigma>) (pushed \<sigma>) pc)"

section \<open>Every step keeps the invariant\<close>

lemma push_step_ring:
  assumes "ring_ok q h" and "push_ok q pc" and "push_step q pc = (q', pc')"
  shows "ring_ok q' (h @ push_commit pc pc') \<and> push_ok q' pc' \<and> q_read q' = q_read q \<and> q_capacity q' = q_capacity q"
proof (cases pc)
  case (PLoadR v w)
  then show ?thesis using assms by (auto simp: ring_ok_def split: if_splits)
next
  case (PWrite v w)
  have c: "0 < q_capacity q" "length (q_data q) = q_capacity q" using assms(1,2) PWrite by (auto simp: ring_ok_def)
  then have q': "q' = q\<lparr>q_data := (q_data q)[w mod q_capacity q := Some v]\<rparr>" "pc' = PStore v w"
    using assms(3) PWrite by auto
  have "w mod q_capacity q \<noteq> p mod q_capacity q" if "q_read q \<le> p" "p < q_write q" for p
    using mod_neq_window [of p w "q_capacity q"] that assms(2) PWrite by auto
  then show ?thesis using assms(1,2) PWrite c unfolding q' by (auto simp: ring_ok_def)
next
  case (PStore v w)
  then show ?thesis using assms by (auto simp: ring_ok_def nth_append less_Suc_eq split: if_splits)
qed (use assms in auto)

lemma pop_step_ring:
  assumes "ring_ok q h" and "pop_ok q h pc" and "pop_step q pc = (q', pc')"
  shows "ring_ok q' h \<and> pop_ok q' h pc' \<and> q_write q' = q_write q \<and> q_capacity q' = q_capacity q \<and> q_data q' = q_data q
    \<and> q_read q \<le> q_read q' \<and> take (q_read q) h @ pop_commit pc pc' = take (q_read q') h"
proof (cases pc)
  case (CLoadW r)
  then show ?thesis using assms by (auto simp: ring_ok_def split: if_splits)
next
  case (CRead r)
  have c: "0 < q_capacity q" using assms(1,2) CRead by (auto simp: ring_ok_def)
  then have "q' = q \<and> pc' = CStore r (h ! r)" using assms CRead by (auto simp: ring_ok_def)
  then show ?thesis using assms CRead by simp
next
  case (CStore r v)
  then show ?thesis using assms by (auto simp: ring_ok_def take_Suc_conv_app_nth split: if_splits)
qed (use assms in auto)

lemma pop_ok_push:
  assumes "ring_ok q h" and "pop_ok q h pc" and "push_step q ppc = (q', ppc')"
    and "ring_ok q' (h @ xs)" and "q_read q' = q_read q"
  shows "pop_ok q' (h @ xs) pc"
  using assms by (cases pc) (auto simp: ring_ok_def nth_append)

lemma push_ok_pop:
  assumes "push_ok q pc" and "q_write q' = q_write q" and "q_capacity q' = q_capacity q" and "q_data q' = q_data q"
    and "q_read q \<le> q_read q'"
  shows "push_ok q' pc"
  using assms by (cases pc) auto

lemma spsc_step_inv: "spsc_step \<sigma> \<tau> \<Longrightarrow> spsc_inv \<sigma> \<Longrightarrow> spsc_inv \<tau>"
proof (induction rule: spsc_step.induct)
  case (work_push \<sigma> pc q' pc')
  then have r: "ring_ok (queue \<sigma>) (pushed \<sigma>)" and p: "push_ok (queue \<sigma>) pc" by (auto simp: spsc_inv_def)
  note R = push_step_ring [OF r p work_push.hyps(2)]
  have "q_read (queue \<sigma>) \<le> length (pushed \<sigma>)" using r by (simp add: ring_ok_def)
  then show ?case using work_push R pop_ok_push [OF r _ work_push.hyps(2)] by (auto simp: spsc_inv_def)
next
  case (work_pop \<sigma> pc q' pc')
  then have r: "ring_ok (queue \<sigma>) (pushed \<sigma>)" and p: "pop_ok (queue \<sigma>) (pushed \<sigma>) pc" by (auto simp: spsc_inv_def)
  note R = pop_step_ring [OF r p work_pop.hyps(2)]
  then show ?case using work_pop push_ok_pop by (auto simp: spsc_inv_def)
qed (auto simp: spsc_inv_def)

lemma spsc_reachable_inv: "spsc_reachable (iq_new n) \<sigma> \<Longrightarrow> spsc_inv \<sigma>"
proof (induction rule: spsc_reachable.induct)
  case start
  show ?case by (simp add: spsc_inv_def spsc_init_def ring_ok_def iq_new_def)
next
  case (step \<sigma> \<tau>)
  then show ?case using spsc_step_inv by blast
qed

section \<open>Delivery under concurrency\<close>

text \<open>C6: under every interleaving of the producer and the consumer, the values popped so far are
  a prefix of the values pushed so far, the values in between are exactly the content of the queue
  and never more than its capacity, and neither side ever touches memory outside of the ring or
  an uninitialised cell.\<close>

theorem spsc_delivers_in_order:
  assumes "spsc_reachable (iq_new n) \<sigma>"
  shows "pushed \<sigma> = popped \<sigma> @ q_list (queue \<sigma>) \<and> length (q_list (queue \<sigma>)) \<le> q_capacity (queue \<sigma>)
    \<and> producer \<sigma> \<noteq> Some PUB \<and> consumer \<sigma> \<noteq> Some CUB"
proof -
  have inv: "spsc_inv \<sigma>" using assms by (rule spsc_reachable_inv)
  let ?q = "queue \<sigma>"
  have r: "ring_ok ?q (pushed \<sigma>)" and p: "popped \<sigma> = take (q_read ?q) (pushed \<sigma>)"
    using inv by (simp_all add: spsc_inv_def)
  have "q_list ?q = map (\<lambda>p. pushed \<sigma> ! p) [q_read ?q ..< q_write ?q]"
    using r by (auto simp: q_list_def ring_ok_def)
  also have "\<dots> = drop (q_read ?q) (pushed \<sigma>)"
    using r by (intro nth_equalityI) (auto simp: ring_ok_def)
  finally have l: "q_list ?q = drop (q_read ?q) (pushed \<sigma>)" .
  moreover have "length (q_list ?q) \<le> q_capacity ?q" using r by (auto simp: length_q_list ring_ok_def)
  moreover have "producer \<sigma> \<noteq> Some PUB" "consumer \<sigma> \<noteq> Some CUB" using inv by (auto simp: spsc_inv_def)
  ultimately show ?thesis using p by simp
qed

theorem spsc_delivers_in_order_witness:
  "\<exists>\<sigma>. spsc_reachable (iq_new 2) \<sigma> \<and> pushed \<sigma> = [9] \<and> pushed \<sigma> = popped \<sigma> @ q_list (queue \<sigma>)"
proof -
  let ?w = "\<lambda>q pc h. \<lparr>queue = q, producer = Some pc, consumer = None, pushed = h, popped = []\<rparr> :: nat spsc_sys"
  let ?q1 = "(iq_new 2)\<lparr>q_data := [Some 9, Some 0]\<rparr>"
  let ?q2 = "?q1\<lparr>q_write := 1\<rparr>"
  note st = spsc_reachable.step and wp = spsc_step.work_push
  have "spsc_reachable (iq_new 2) (?w (iq_new 2) (PLoadW 9) [])"
    using st [OF spsc_reachable.start spsc_step.call_push [where v = 9]] by (simp add: spsc_init_def)
  from st [OF this wp [of _ "PLoadW 9" "iq_new 2" "PLoadR 9 0"]]
  have "spsc_reachable (iq_new 2) (?w (iq_new 2) (PLoadR 9 0) [])"
    by (simp add: iq_new_def)
  from st [OF this wp [of _ "PLoadR 9 0" "iq_new 2" "PWrite 9 0"]]
  have "spsc_reachable (iq_new 2) (?w (iq_new 2) (PWrite 9 0) [])"
    by (simp add: iq_new_def usize_lim_def)
  from st [OF this wp [of _ "PWrite 9 0" ?q1 "PStore 9 0"]]
  have "spsc_reachable (iq_new 2) (?w ?q1 (PStore 9 0) [])"
    by (simp add: iq_new_def numeral_2_eq_2)
  from st [OF this wp [of _ "PStore 9 0" ?q2 "PDone True"]]
  have r: "spsc_reachable (iq_new 2) (?w ?q2 (PDone True) [9])"
    by (simp add: usize_lim_def)
  show ?thesis using spsc_delivers_in_order [OF r] r by (intro exI [of _ "?w ?q2 (PDone True) [9]"]) auto
qed

end
