(* ===== verification/OverflowQueue.thy ===== *)
theory OverflowQueue
  imports Elementary Queue_Contract "HOL-Library.Multiset" "HOL-Library.Sublist"
begin

text \<open>
  \<^verbatim>\<open>elkodon_bb/lock_free/src/spsc/safely_overflowing_index_queue.rs\<close>: the queue between publisher and
  subscriber. When it is full, the producer takes the oldest value back while it pushes the
  newest. The ring has one cell more than the capacity, so that the producer can write the new
  value before it competes with the consumer for the oldest one.

  First the operations that run alone (the queue refines a list that drops its head on overflow),
  then producer and consumer interleaved at every access to shared memory (sequential
  consistency). In the interleaved system \<open>ov_pushed\<close>, \<open>ov_popped\<close> and \<open>ov_recycled\<close> record
  the values pushed, popped by the consumer and handed back to the producer.
\<close>

section \<open>State and operations\<close>

record overflow_queue =
  o_data :: "nat option list"
  o_capacity :: usize
  o_write :: usize
  o_read :: usize
  o_has_producer :: bool
  o_has_consumer :: bool
  o_init :: bool

definition oq_new :: "usize \<Rightarrow> overflow_queue" where
  "oq_new capacity =
     \<lparr>o_data = replicate (capacity + 1) (Some 0), o_capacity = capacity, o_write = 0, o_read = 0,
      o_has_producer = True, o_has_consumer = True, o_init = True\<rparr>"

definition oq_new_uninit :: "usize \<Rightarrow> overflow_queue" where
  "oq_new_uninit capacity =
     \<lparr>o_data = [], o_capacity = capacity, o_write = 0, o_read = 0,
      o_has_producer = True, o_has_consumer = True, o_init = False\<rparr>"

definition oq_init ::
  "(layout \<Rightarrow> (allocation_error, chunk) outcome) \<Rightarrow> overflow_queue \<Rightarrow> (allocation_error, overflow_queue) outcome" where
  "oq_init allocate q =
     (if o_init q then Panic
      else obind (uadd (o_capacity q) 1) (\<lambda>c. obind (umul 8 c) (\<lambda>n.
        obind (allocate \<lparr>lsize = n, lalign = 8\<rparr>) (\<lambda>_.
          Ok (q\<lparr>o_data := replicate c (Some 0), o_init := True\<rparr>)))))"

definition oq_const_memory_size :: "usize \<Rightarrow> ('e, usize) outcome" where
  "oq_const_memory_size capacity =
     obind (uadd capacity 1) (\<lambda>c. obind (umul 8 c) (\<lambda>m. obind (uadd m 8) (\<lambda>n. usub n 1)))"

definition fixed_oq_new :: "usize \<Rightarrow> overflow_queue" where
  "fixed_oq_new CAPACITY =
     \<lparr>o_data = replicate CAPACITY (Some 0) @ [Some 0], o_capacity = CAPACITY, o_write = 0, o_read = 0,
      o_has_producer = True, o_has_consumer = True, o_init = True\<rparr>"

definition oq_acquire_producer :: "overflow_queue \<Rightarrow> ('e, overflow_queue \<times> bool) outcome" where
  "oq_acquire_producer q =
     (if o_init q then
        (if o_has_producer q then Ok (q\<lparr>o_has_producer := False\<rparr>, True) else Ok (q, False))
      else Panic)"

definition oq_acquire_consumer :: "overflow_queue \<Rightarrow> ('e, overflow_queue \<times> bool) outcome" where
  "oq_acquire_consumer q =
     (if o_init q then
        (if o_has_consumer q then Ok (q\<lparr>o_has_consumer := False\<rparr>, True) else Ok (q, False))
      else Panic)"

definition oq_producer_drop :: "overflow_queue \<Rightarrow> overflow_queue" where
  "oq_producer_drop q = q\<lparr>o_has_producer := True\<rparr>"

definition oq_consumer_drop :: "overflow_queue \<Rightarrow> overflow_queue" where
  "oq_consumer_drop q = q\<lparr>o_has_consumer := True\<rparr>"

abbreviation cell :: "overflow_queue \<Rightarrow> nat \<Rightarrow> nat" where
  "cell q p \<equiv> p mod (o_capacity q + 1)"

text \<open>\<open>OWrite v w r full\<close>: both positions are loaded; \<open>OStore\<close>: the cell is written; \<open>OCas\<close>: the write
  position is stored; \<open>ORead\<close>: the exchange of the read position has succeeded.\<close>

datatype opush_pc =
  OLoadW nat | OLoadR nat nat | OWrite nat nat nat bool | OStore nat nat nat bool | OCas nat bool
| ORead nat | ODone "nat option" | OPanic | OUB

fun opush_step :: "overflow_queue \<Rightarrow> opush_pc \<Rightarrow> overflow_queue \<times> opush_pc" where
  "opush_step q (OLoadW v) = (q, OLoadR v (o_write q))"
| "opush_step q (OLoadR v w) =
     (if o_read q + o_capacity q < usize_lim
      then (q, OWrite v w (o_read q) (w = o_read q + o_capacity q)) else (q, OPanic))"
| "opush_step q (OWrite v w r full) =
     (if o_capacity q + 1 < usize_lim
      then (if cell q w < length (o_data q)
            then (q\<lparr>o_data := (o_data q)[cell q w := Some v]\<rparr>, OStore v w r full)
            else (q, OUB))
      else (q, OPanic))"
| "opush_step q (OStore v w r full) =
     (if w + 1 < usize_lim then (q\<lparr>o_write := w + 1\<rparr>, OCas r full) else (q, OPanic))"
| "opush_step q (OCas r full) =
     (if \<not> full then (q, ODone None)
      else if r + 1 < usize_lim
           then (if o_read q = r then (q\<lparr>o_read := r + 1\<rparr>, ORead r) else (q, ODone None))
           else (q, OPanic))"
| "opush_step q (ORead r) =
     (if cell q r < length (o_data q)
      then (case o_data q ! cell q r of Some v \<Rightarrow> (q, ODone (Some v)) | None \<Rightarrow> (q, OUB))
      else (q, OUB))"
| "opush_step q (ODone r) = (q, ODone r)"
| "opush_step q OPanic = (q, OPanic)"
| "opush_step q OUB = (q, OUB)"

datatype opop_pc =
  QLoadR | QLoadW nat | QRead nat | QCas nat nat | QDone "nat option" | QPanic | QUB

fun opop_step :: "overflow_queue \<Rightarrow> opop_pc \<Rightarrow> overflow_queue \<times> opop_pc" where
  "opop_step q QLoadR = (q, QLoadW (o_read q))"
| "opop_step q (QLoadW r) = (q, if r = o_write q then QDone None else QRead r)"
| "opop_step q (QRead r) =
     (if o_capacity q + 1 < usize_lim
      then (if cell q r < length (o_data q)
            then (case o_data q ! cell q r of Some v \<Rightarrow> (q, QCas r v) | None \<Rightarrow> (q, QUB))
            else (q, QUB))
      else (q, QPanic))"
| "opop_step q (QCas r v) =
     (if r + 1 < usize_lim
      then (if o_read q = r then (q\<lparr>o_read := r + 1\<rparr>, QDone (Some v)) else (q, QRead (o_read q)))
      else (q, QPanic))"
| "opop_step q (QDone r) = (q, QDone r)"
| "opop_step q QPanic = (q, QPanic)"
| "opop_step q QUB = (q, QUB)"

primrec opush_run :: "nat \<Rightarrow> overflow_queue \<Rightarrow> opush_pc \<Rightarrow> overflow_queue \<times> opush_pc" where
  "opush_run 0 q pc = (q, pc)"
| "opush_run (Suc n) q pc = (case opush_step q pc of (q', pc') \<Rightarrow> opush_run n q' pc')"

primrec opop_run :: "nat \<Rightarrow> overflow_queue \<Rightarrow> opop_pc \<Rightarrow> overflow_queue \<times> opop_pc" where
  "opop_run 0 q pc = (q, pc)"
| "opop_run (Suc n) q pc = (case opop_step q pc of (q', pc') \<Rightarrow> opop_run n q' pc')"

fun opush_outcome :: "overflow_queue \<times> opush_pc \<Rightarrow> ('e, overflow_queue \<times> nat option) outcome" where
  "opush_outcome (q, ODone r) = Ok (q, r)"
| "opush_outcome (q, OPanic) = Panic"
| "opush_outcome (q, _) = UB"

fun opop_outcome :: "overflow_queue \<times> opop_pc \<Rightarrow> ('e, overflow_queue \<times> nat option) outcome" where
  "opop_outcome (q, QDone r) = Ok (q, r)"
| "opop_outcome (q, QPanic) = Panic"
| "opop_outcome (q, _) = UB"

text \<open>Alone, a push takes at most six accesses and a pop at most four (\<open>opush_run_final\<close>,
  \<open>opop_run_final\<close>).\<close>

definition oq_push :: "overflow_queue \<Rightarrow> nat \<Rightarrow> ('e, overflow_queue \<times> nat option) outcome" where
  "oq_push q value = opush_outcome (opush_run 6 q (OLoadW value))"

definition oq_pop :: "overflow_queue \<Rightarrow> ('e, overflow_queue \<times> nat option) outcome" where
  "oq_pop q = opop_outcome (opop_run 4 q QLoadR)"

definition oq_is_empty :: "overflow_queue \<Rightarrow> bool" where
  "oq_is_empty q \<longleftrightarrow> o_write q = o_read q"

definition oq_len :: "overflow_queue \<Rightarrow> ('e, usize) outcome" where
  "oq_len q = usub (o_write q) (o_read q)"

definition oq_is_full :: "overflow_queue \<Rightarrow> ('e, bool) outcome" where
  "oq_is_full q = omap (\<lambda>s. o_write q = s) (uadd (o_read q) (o_capacity q))"

section \<open>Producer and consumer interleaved\<close>

record oq_sys =
  ov_queue :: overflow_queue
  ov_producer :: "opush_pc option"
  ov_consumer :: "opop_pc option"
  ov_pushed :: "nat list"
  ov_popped :: "nat list"
  ov_recycled :: "nat list"

fun ov_push_commit :: "opush_pc \<Rightarrow> opush_pc \<Rightarrow> nat list" where
  "ov_push_commit (OStore v w r full) (OCas r' full') = [v]"
| "ov_push_commit _ _ = []"

fun ov_recycle_commit :: "opush_pc \<Rightarrow> opush_pc \<Rightarrow> nat list" where
  "ov_recycle_commit (ORead r) (ODone (Some v)) = [v]"
| "ov_recycle_commit _ _ = []"

fun ov_pop_commit :: "opop_pc \<Rightarrow> opop_pc \<Rightarrow> nat list" where
  "ov_pop_commit (QCas r v) (QDone _) = [v]"
| "ov_pop_commit _ _ = []"

inductive oq_step :: "oq_sys \<Rightarrow> oq_sys \<Rightarrow> bool" where
  call_opush: "ov_producer \<sigma> = None \<Longrightarrow> oq_step \<sigma> (\<sigma>\<lparr>ov_producer := Some (OLoadW v)\<rparr>)"
| call_opop: "ov_consumer \<sigma> = None \<Longrightarrow> oq_step \<sigma> (\<sigma>\<lparr>ov_consumer := Some QLoadR\<rparr>)"
| work_opush: "ov_producer \<sigma> = Some pc \<Longrightarrow> opush_step (ov_queue \<sigma>) pc = (q', pc') \<Longrightarrow>
     oq_step \<sigma> (\<sigma>\<lparr>ov_queue := q', ov_producer := Some pc', ov_pushed := ov_pushed \<sigma> @ ov_push_commit pc pc',
       ov_recycled := ov_recycled \<sigma> @ ov_recycle_commit pc pc'\<rparr>)"
| work_opop: "ov_consumer \<sigma> = Some pc \<Longrightarrow> opop_step (ov_queue \<sigma>) pc = (q', pc') \<Longrightarrow>
     oq_step \<sigma> (\<sigma>\<lparr>ov_queue := q', ov_consumer := Some pc', ov_popped := ov_popped \<sigma> @ ov_pop_commit pc pc'\<rparr>)"
| return_opush: "ov_producer \<sigma> = Some (ODone r) \<Longrightarrow> oq_step \<sigma> (\<sigma>\<lparr>ov_producer := None\<rparr>)"
| return_opop: "ov_consumer \<sigma> = Some (QDone r) \<Longrightarrow> oq_step \<sigma> (\<sigma>\<lparr>ov_consumer := None\<rparr>)"

definition oq_sys_init :: "overflow_queue \<Rightarrow> oq_sys" where
  "oq_sys_init q = \<lparr>ov_queue = q, ov_producer = None, ov_consumer = None, ov_pushed = [], ov_popped = [], ov_recycled = []\<rparr>"

inductive oq_reachable :: "overflow_queue \<Rightarrow> oq_sys \<Rightarrow> bool" for q where
  oq_start: "oq_reachable q (oq_sys_init q)"
| oq_next: "oq_reachable q \<sigma> \<Longrightarrow> oq_step \<sigma> \<tau> \<Longrightarrow> oq_reachable q \<tau>"

section \<open>Invariant\<close>

definition oq_list :: "overflow_queue \<Rightarrow> nat list" where
  "oq_list q = map (\<lambda>p. the (o_data q ! cell q p)) [o_read q ..< o_write q]"

text \<open>The ring against the history \<open>h\<close> of pushed values.\<close>

definition oring :: "overflow_queue \<Rightarrow> nat list \<Rightarrow> bool" where
  "oring q h \<longleftrightarrow> 0 < o_capacity q \<and> length (o_data q) = o_capacity q + 1 \<and> None \<notin> set (o_data q)
     \<and> o_write q = length h \<and> o_read q \<le> o_write q \<and> o_write q \<le> o_read q + o_capacity q + 1
     \<and> (\<forall>p. o_read q \<le> p \<and> p < o_write q \<longrightarrow> o_data q ! cell q p = Some (h ! p))"

fun opush_ok :: "overflow_queue \<Rightarrow> nat list \<Rightarrow> opush_pc \<Rightarrow> bool" where
  "opush_ok q h (OLoadR v w) \<longleftrightarrow> w = o_write q \<and> w \<le> o_read q + o_capacity q"
| "opush_ok q h (OWrite v w r full) \<longleftrightarrow> w = o_write q \<and> w \<le> o_read q + o_capacity q \<and> r \<le> o_read q
     \<and> (if full then w = r + o_capacity q else w < r + o_capacity q)"
| "opush_ok q h (OStore v w r full) \<longleftrightarrow> w = o_write q \<and> w \<le> o_read q + o_capacity q \<and> r \<le> o_read q
     \<and> (if full then w = r + o_capacity q else w < r + o_capacity q) \<and> o_data q ! cell q w = Some v"
| "opush_ok q h (OCas r full) \<longleftrightarrow> r \<le> o_read q \<and> (if full then o_write q = r + o_capacity q + 1 else o_write q \<le> o_read q + o_capacity q)"
| "opush_ok q h (ORead r) \<longleftrightarrow> r < o_read q \<and> o_write q \<le> o_read q + o_capacity q \<and> r < o_write q \<and> o_data q ! cell q r = Some (h ! r)"
| "opush_ok q h OUB \<longleftrightarrow> False"
| "opush_ok q h OPanic \<longleftrightarrow> True"
| "opush_ok q h _ \<longleftrightarrow> o_write q \<le> o_read q + o_capacity q"

text \<open>A position that the consumer has read but that the producer has overtaken belongs to a full queue.\<close>

fun opop_ok :: "overflow_queue \<Rightarrow> nat list \<Rightarrow> opop_pc \<Rightarrow> bool" where
  "opop_ok q h (QLoadW r) \<longleftrightarrow> r \<le> o_read q \<and> (r < o_read q \<longrightarrow> o_read q + o_capacity q \<le> o_write q)"
| "opop_ok q h (QRead r) \<longleftrightarrow> r \<le> o_read q \<and> (r < o_read q \<longrightarrow> o_read q + o_capacity q \<le> o_write q) \<and> o_read q < o_write q"
| "opop_ok q h (QCas r v) \<longleftrightarrow> r \<le> o_read q \<and> (r < o_read q \<longrightarrow> o_read q + o_capacity q \<le> o_write q) \<and> o_read q < o_write q
     \<and> (r = o_read q \<longrightarrow> v = h ! r)"
| "opop_ok q h QUB \<longleftrightarrow> False"
| "opop_ok q h _ \<longleftrightarrow> True"

definition in_flight :: "nat list \<Rightarrow> opush_pc option \<Rightarrow> nat multiset" where
  "in_flight h pc = (case pc of Some (ORead r) \<Rightarrow> {#h ! r#} | _ \<Rightarrow> {#})"

definition oq_inv :: "oq_sys \<Rightarrow> bool" where
  "oq_inv \<sigma> \<longleftrightarrow> oring (ov_queue \<sigma>) (ov_pushed \<sigma>)
     \<and> (case ov_producer \<sigma> of None \<Rightarrow> o_write (ov_queue \<sigma>) \<le> o_read (ov_queue \<sigma>) + o_capacity (ov_queue \<sigma>)
          | Some pc \<Rightarrow> opush_ok (ov_queue \<sigma>) (ov_pushed \<sigma>) pc)
     \<and> (\<forall>pc. ov_consumer \<sigma> = Some pc \<longrightarrow> opop_ok (ov_queue \<sigma>) (ov_pushed \<sigma>) pc)
     \<and> subseq (ov_popped \<sigma>) (take (o_read (ov_queue \<sigma>)) (ov_pushed \<sigma>))
     \<and> mset (take (o_read (ov_queue \<sigma>)) (ov_pushed \<sigma>))
         = mset (ov_popped \<sigma>) + mset (ov_recycled \<sigma>) + in_flight (ov_pushed \<sigma>) (ov_producer \<sigma>)"

section \<open>Every step keeps the invariant\<close>

lemma oring_cell: "oring q h \<Longrightarrow> cell q p < length (o_data q)"
  by (simp add: oring_def)

lemma oring_read: "oring q h \<Longrightarrow> \<exists>v. o_data q ! cell q p = Some v"
  using oring_cell [of q h p] by (metis (no_types, lifting) nth_mem oring_def option.exhaust)

lemma opush_write_ring:
  assumes "oring q h" and "opush_ok q h (OWrite v w r full)"
  shows "oring (q\<lparr>o_data := (o_data q)[cell q w := Some v]\<rparr>) h
    \<and> opush_ok (q\<lparr>o_data := (o_data q)[cell q w := Some v]\<rparr>) h (OStore v w r full)"
proof -
  have "cell q w \<noteq> cell q p" if "o_read q \<le> p" "p < o_write q" for p
    using mod_neq_window [of p w "o_capacity q + 1"] that assms(2) by auto
  moreover have "None \<notin> set ((o_data q)[cell q w := Some v])"
    using assms(1) set_update_subset_insert [of "o_data q" "cell q w" "Some v"] by (auto simp: oring_def)
  ultimately show ?thesis using assms oring_cell [OF assms(1), of w] by (auto simp: oring_def)
qed

lemma opush_step_inv:
  assumes "oring q h" and "opush_ok q h pc" and "opush_step q pc = (q', pc')"
  shows "oring q' (h @ ov_push_commit pc pc') \<and> opush_ok q' (h @ ov_push_commit pc pc') pc'
    \<and> o_capacity q' = o_capacity q"
proof (cases pc)
  case (OWrite v w r full)
  note W = opush_write_ring [OF assms(1) assms(2) [unfolded OWrite]]
  have "q' = q \<and> pc' = OPanic \<or> q' = q\<lparr>o_data := (o_data q)[cell q w := Some v]\<rparr> \<and> pc' = OStore v w r full"
    using assms(3) OWrite oring_cell [OF assms(1), of w] by (auto split: if_splits)
  then show ?thesis
  proof
    assume "q' = q \<and> pc' = OPanic"
    then show ?thesis using assms(1) OWrite by simp
  next
    assume "q' = q\<lparr>o_data := (o_data q)[cell q w := Some v]\<rparr> \<and> pc' = OStore v w r full"
    then have "q' = q\<lparr>o_data := (o_data q)[cell q w := Some v]\<rparr>" "pc' = OStore v w r full"
      and "o_capacity q' = o_capacity q" by simp_all
    then show ?thesis using W by (simp only: OWrite ov_push_commit.simps append_Nil2 simp_thms)
  qed
next
  case (OStore v w r full)
  then show ?thesis using assms by (auto simp: oring_def nth_append less_Suc_eq split: if_splits)
next
  case (OCas r full)
  then show ?thesis using assms by (auto simp: oring_def split: if_splits)
next
  case (ORead r)
  then show ?thesis using assms oring_cell [OF assms(1), of r] by auto
qed (use assms in \<open>auto simp: oring_def split: if_splits\<close>)

lemma opush_step_taken:
  assumes "oring q h" and "opush_ok q h pc" and "opush_step q pc = (q', pc')"
  shows "mset (take (o_read q') (h @ ov_push_commit pc pc')) + in_flight h (Some pc)
      = mset (take (o_read q) h) + mset (ov_recycle_commit pc pc') + in_flight (h @ ov_push_commit pc pc') (Some pc')"
    and "o_read q' = o_read q \<or> (\<exists>r. pc' = ORead r) \<and> o_read q' = Suc (o_read q) \<and> o_write q' = o_read q' + o_capacity q'"
    and "o_write q \<le> o_write q'" and "take (o_read q) (h @ ov_push_commit pc pc') = take (o_read q) h"
proof -
  have rl: "o_read q \<le> length h" using assms(1) by (simp add: oring_def)
  then show "take (o_read q) (h @ ov_push_commit pc pc') = take (o_read q) h" by simp
  show "mset (take (o_read q') (h @ ov_push_commit pc pc')) + in_flight h (Some pc)
      = mset (take (o_read q) h) + mset (ov_recycle_commit pc pc') + in_flight (h @ ov_push_commit pc pc') (Some pc')"
  proof (cases pc)
    case (OCas r full)
    then show ?thesis using assms rl
      by (auto simp: in_flight_def oring_def take_Suc_conv_app_nth split: if_splits)
  next
    case (ORead r)
    then show ?thesis using assms oring_cell [OF assms(1), of r] by (auto simp: in_flight_def)
  qed (use assms rl in \<open>auto simp: in_flight_def oring_def split: if_splits\<close>)
  show "o_read q' = o_read q \<or> (\<exists>r. pc' = ORead r) \<and> o_read q' = Suc (o_read q) \<and> o_write q' = o_read q' + o_capacity q'"
    "o_write q \<le> o_write q'"
    using assms oring_read [OF assms(1)] by (cases pc; auto split: if_splits option.splits)+
qed

lemma opop_ok_push:
  assumes "oring q h" and "opop_ok q h pc" and "o_write q \<le> o_write q'" and "o_capacity q' = o_capacity q"
    and "o_read q' = o_read q \<or> o_read q' = Suc (o_read q) \<and> o_write q' = o_read q' + o_capacity q'"
  shows "opop_ok q' (h @ xs) pc"
  using assms by (cases pc) (auto simp: oring_def nth_append)

lemma opop_step_inv:
  assumes "oring q h" and "opop_ok q h pc" and "opop_step q pc = (q', pc')"
  shows "oring q' h \<and> opop_ok q' h pc' \<and> o_write q' = o_write q \<and> o_capacity q' = o_capacity q \<and> o_data q' = o_data q
    \<and> o_read q \<le> o_read q' \<and> take (o_read q') h = take (o_read q) h @ ov_pop_commit pc pc'"
proof (cases pc)
  case (QRead r)
  obtain v where v: "o_data q ! cell q r = Some v" using oring_read [OF assms(1)] by blast
  have "r = o_read q \<Longrightarrow> v = h ! r" using assms(1,2) QRead v by (auto simp: oring_def)
  then show ?thesis using assms QRead v oring_cell [OF assms(1), of r] by (auto split: if_splits)
next
  case (QCas r v)
  then show ?thesis using assms by (auto simp: oring_def take_Suc_conv_app_nth split: if_splits)
qed (use assms in \<open>auto simp: oring_def split: if_splits\<close>)

lemma opush_ok_pop:
  assumes "opush_ok q h pc" and "o_write q' = o_write q" and "o_capacity q' = o_capacity q" and "o_data q' = o_data q"
    and "o_read q \<le> o_read q'"
  shows "opush_ok q' h pc"
  using assms by (cases pc) auto

lemma oq_step_inv: "oq_step \<sigma> \<tau> \<Longrightarrow> oq_inv \<sigma> \<Longrightarrow> oq_inv \<tau>"
proof (induction rule: oq_step.induct)
  case (work_opush \<sigma> pc q' pc')
  let ?q = "ov_queue \<sigma>" and ?h = "ov_pushed \<sigma>"
  have r: "oring ?q ?h" and p: "opush_ok ?q ?h pc" using work_opush by (auto simp: oq_inv_def)
  note R = opush_step_inv [OF r p work_opush.hyps(2)] and T = opush_step_taken [OF r p work_opush.hyps(2)]
  have c: "opop_ok q' (?h @ ov_push_commit pc pc') cpc" if "ov_consumer \<sigma> = Some cpc" for cpc
    using opop_ok_push [OF r _ T(3)] R T(2) work_opush.prems that by (auto simp: oq_inv_def)
  have "subseq (ov_popped \<sigma>) (take (o_read ?q) ?h)" using work_opush.prems by (simp add: oq_inv_def)
  then have s: "subseq (ov_popped \<sigma>) (take (o_read q') (?h @ ov_push_commit pc pc'))"
  proof (rule subseq_order.trans)
    have "take (o_read ?q) ?h = take (o_read ?q) (take (o_read q') (?h @ ov_push_commit pc pc'))"
      using T(2,4) by (auto simp: min_def)
    then show "subseq (take (o_read ?q) ?h) (take (o_read q') (?h @ ov_push_commit pc pc'))"
      by (metis prefix_imp_subseq take_is_prefix)
  qed
  have m: "mset (take (o_read ?q) ?h) = mset (ov_popped \<sigma>) + mset (ov_recycled \<sigma>) + in_flight ?h (Some pc)"
    using work_opush by (simp add: oq_inv_def)
  have "mset (take (o_read q') (?h @ ov_push_commit pc pc'))
      = mset (ov_popped \<sigma>) + mset (ov_recycled \<sigma> @ ov_recycle_commit pc pc') + in_flight (?h @ ov_push_commit pc pc') (Some pc')"
    using T(1) m by (simp add: algebra_simps)
  then show ?case using R c s by (simp add: oq_inv_def)
next
  case (work_opop \<sigma> pc q' pc')
  let ?q = "ov_queue \<sigma>" and ?h = "ov_pushed \<sigma>"
  have r: "oring ?q ?h" and p: "opop_ok ?q ?h pc" using work_opop by (auto simp: oq_inv_def)
  note R = opop_step_inv [OF r p work_opop.hyps(2)]
  have "case ov_producer \<sigma> of None \<Rightarrow> o_write q' \<le> o_read q' + o_capacity q' | Some ppc \<Rightarrow> opush_ok q' ?h ppc"
    using work_opop.prems R opush_ok_pop [of ?q ?h _ q'] by (auto simp: oq_inv_def split: option.splits)
  moreover have "subseq (ov_popped \<sigma> @ ov_pop_commit pc pc') (take (o_read q') ?h)"
    using work_opop.prems R by (auto simp: oq_inv_def intro: list_emb_append_mono)
  moreover have "mset (take (o_read q') ?h) = mset (ov_popped \<sigma> @ ov_pop_commit pc pc') + mset (ov_recycled \<sigma>)
      + in_flight ?h (ov_producer \<sigma>)"
    using work_opop.prems R by (simp add: oq_inv_def algebra_simps)
  ultimately show ?case using R by (cases "ov_producer \<sigma>") (simp_all add: oq_inv_def)
qed (auto simp: oq_inv_def in_flight_def cong: option.case_cong)

lemma oq_reachable_inv:
  assumes "oq_reachable (oq_new n) \<sigma>" and "0 < n"
  shows "oq_inv \<sigma>"
  using assms(1)
proof (induction rule: oq_reachable.induct)
  case oq_start
  show ?case using assms(2) by (auto simp: oq_inv_def oq_sys_init_def oring_def oq_new_def in_flight_def)
next
  case (oq_next \<sigma> \<tau>)
  then show ?case using oq_step_inv by blast
qed

section \<open>The operations alone\<close>

definition oq_wf :: "overflow_queue \<Rightarrow> bool" where
  "oq_wf q \<longleftrightarrow> length (o_data q) = o_capacity q + 1 \<and> None \<notin> set (o_data q)
     \<and> o_read q \<le> o_write q \<and> o_write q \<le> o_read q + o_capacity q"

definition oq_ticks :: "overflow_queue \<Rightarrow> nat" where
  "oq_ticks q = usize_lim - 1 - (o_write q + o_capacity q)"

lemma oq_ticks_pos: "0 < oq_ticks q \<Longrightarrow> o_write q + o_capacity q + 1 < usize_lim"
  by (simp add: oq_ticks_def)

lemma length_oq_list: "length (oq_list q) = o_write q - o_read q"
  by (simp add: oq_list_def)

lemma opush_run_6: "opush_run 6 q pc = (case opush_step q pc of (q1, pc1) \<Rightarrow> case opush_step q1 pc1 of (q2, pc2) \<Rightarrow>
    case opush_step q2 pc2 of (q3, pc3) \<Rightarrow> case opush_step q3 pc3 of (q4, pc4) \<Rightarrow>
    case opush_step q4 pc4 of (q5, pc5) \<Rightarrow> opush_step q5 pc5)"
  by (simp add: numeral_eq_Suc case_prod_beta)

lemma opop_run_4: "opop_run 4 q pc = (case opop_step q pc of (q1, pc1) \<Rightarrow> case opop_step q1 pc1 of (q2, pc2) \<Rightarrow>
    case opop_step q2 pc2 of (q3, pc3) \<Rightarrow> opop_step q3 pc3)"
  by (simp add: numeral_eq_Suc case_prod_beta)

lemma opush_run_final: "\<exists>q' r. opush_run 6 q (OLoadW v) \<in> {(q', ODone r), (q', OPanic), (q', OUB)}"
  by (auto simp: opush_run_6 split: option.splits)

lemma opop_run_final: "\<exists>q' r. opop_run 4 q QLoadR \<in> {(q', QDone r), (q', QPanic), (q', QUB)}"
  by (auto simp: opop_run_4 split: option.splits)

lemma oq_wf_cell: "oq_wf q \<Longrightarrow> cell q p < length (o_data q)"
  by (simp add: oq_wf_def)

lemma oq_wf_value: "oq_wf q \<Longrightarrow> o_data q ! cell q p = Some (the (o_data q ! cell q p))"
  using oq_wf_cell [of q p] by (metis nth_mem oq_wf_def option.exhaust_sel)

abbreviation oq_written :: "overflow_queue \<Rightarrow> nat \<Rightarrow> overflow_queue" where
  "oq_written q v \<equiv> q\<lparr>o_data := (o_data q)[cell q (o_write q) := Some v], o_write := o_write q + 1\<rparr>"

lemma oq_written_list:
  assumes "oq_wf q"
  shows "map (\<lambda>p. the (o_data (oq_written q v) ! cell q p)) [o_read q ..< Suc (o_write q)] = oq_list q @ [v]"
    and "None \<notin> set (o_data (oq_written q v))"
proof -
  have ne: "cell q p \<noteq> cell q (o_write q)" if "p \<in> set [o_read q ..< o_write q]" for p
    using that assms by (intro mod_neq_window) (auto simp: oq_wf_def)
  show "map (\<lambda>p. the (o_data (oq_written q v) ! cell q p)) [o_read q ..< Suc (o_write q)] = oq_list q @ [v]"
    using assms map_the_update_notin [of "[o_read q ..< o_write q]" "cell q", OF ne]
    by (simp add: oq_list_def oq_wf_def)
  show "None \<notin> set (o_data (oq_written q v))"
    using assms set_update_subset_insert [of "o_data q" "cell q (o_write q)" "Some v"] by (auto simp: oq_wf_def)
qed

lemma oq_push_fits:
  assumes "oq_wf q" and "0 < oq_ticks q" and "o_write q < o_read q + o_capacity q"
  shows "oq_push q v = Ok (oq_written q v, None)"
  using assms oq_ticks_pos [OF assms(2)] by (auto simp: oq_push_def opush_run_6 oq_wf_def)

lemma oq_push_evicts:
  assumes "oq_wf q" and "0 < oq_ticks q" and "o_write q = o_read q + o_capacity q" and "oq_list q = y # ys"
  shows "oq_push q v = Ok ((oq_written q v)\<lparr>o_read := o_read q + 1\<rparr>, Some y)"
proof -
  have "0 < o_capacity q" using assms(3,4) length_oq_list [of q] by simp
  then have ne: "cell q (o_write q) \<noteq> cell q (o_read q)"
    using mod_neq_window [of "o_read q" "o_write q" "o_capacity q + 1"] assms(3) by auto
  have y: "o_data q ! cell q (o_read q) = Some y"
    using oq_wf_value [OF assms(1), of "o_read q"] assms(4) arg_cong [OF assms(4), of hd] \<open>0 < o_capacity q\<close> assms(3)
    by (simp add: oq_list_def upt_conv_Cons)
  show ?thesis using assms(1,3) oq_ticks_pos [OF assms(2)] ne y oq_wf_cell [OF assms(1), of "o_write q"] oq_wf_cell [OF assms(1), of "o_read q"]
    by (simp add: oq_push_def opush_run_6)
qed

interpretation oq: overflowing_queue oq_wf oq_list o_capacity oq_ticks oq_push
proof unfold_locales
  fix q :: overflow_queue and x y ys
  show "oq_wf q \<Longrightarrow> length (oq_list q) \<le> o_capacity q" by (auto simp: length_oq_list oq_wf_def)
  show "\<exists>q'. oq_push q x = Ok (q', None) \<and> oq_wf q' \<and> oq_list q' = oq_list q @ [x] \<and> o_capacity q' = o_capacity q
      \<and> oq_ticks q \<le> Suc (oq_ticks q')"
    if "oq_wf q" "0 < oq_ticks q" "length (oq_list q) < o_capacity q"
  proof -
    have lt: "o_write q < o_read q + o_capacity q" using that by (auto simp: length_oq_list oq_wf_def)
    then have "oq_wf (oq_written q x) \<and> oq_list (oq_written q x) = oq_list q @ [x]"
      using that(1) oq_written_list [OF that(1), of x] unfolding oq_wf_def oq_list_def by simp
    then show ?thesis using oq_push_fits [OF that(1,2) lt, of x] by (auto simp: oq_ticks_def)
  qed
  show "\<exists>q'. oq_push q x = Ok (q', Some y) \<and> oq_wf q' \<and> oq_list q' = ys @ [x] \<and> o_capacity q' = o_capacity q
      \<and> oq_ticks q \<le> Suc (oq_ticks q')"
    if "oq_wf q" "0 < oq_ticks q" "oq_list q = y # ys" "length (oq_list q) = o_capacity q"
  proof -
    let ?q = "(oq_written q x)\<lparr>o_read := o_read q + 1\<rparr>"
    have w: "o_write q = o_read q + o_capacity q" using that length_oq_list [of q] by (simp add: oq_wf_def)
    have "oq_list ?q = tl (oq_list q @ [x])"
      using w oq_written_list(1) [OF that(1), of x, symmetric]
      by (simp add: oq_list_def upt_conv_Cons del: upt_Suc)
    then have "oq_wf ?q \<and> oq_list ?q = ys @ [x]"
      using that(1,3) w oq_written_list(2) [OF that(1), of x] by (simp add: oq_wf_def)
    then show ?thesis using oq_push_evicts [OF that(1,2) w that(3), of x] by (auto simp: oq_ticks_def)
  qed
qed

lemma oq_pop_empty: "oq_list q = [] \<Longrightarrow> oq_wf q \<Longrightarrow> oq_pop q = Ok (q, None)"
  by (auto simp: oq_list_def oq_wf_def oq_pop_def opop_run_4)

lemma oq_pop_ok:
  assumes "oq_wf q" and "0 < oq_ticks q" and "oq_list q = x # xs"
  shows "oq_pop q = Ok (q\<lparr>o_read := o_read q + 1\<rparr>, Some x)" and "oq_wf (q\<lparr>o_read := o_read q + 1\<rparr>)"
    and "oq_list (q\<lparr>o_read := o_read q + 1\<rparr>) = xs"
proof -
  have lt: "o_read q < o_write q" using assms(3) length_oq_list [of q] by simp
  have x: "o_data q ! cell q (o_read q) = Some x"
    using oq_wf_value [OF assms(1), of "o_read q"] arg_cong [OF assms(3), of hd] lt by (simp add: oq_list_def upt_conv_Cons)
  then show "oq_pop q = Ok (q\<lparr>o_read := o_read q + 1\<rparr>, Some x)"
    using assms(1) lt oq_ticks_pos [OF assms(2)] by (auto simp: oq_pop_def opop_run_4 oq_wf_def)
  show "oq_list (q\<lparr>o_read := o_read q + 1\<rparr>) = xs" using assms(3) lt by (simp add: oq_list_def upt_conv_Cons)
  show "oq_wf (q\<lparr>o_read := o_read q + 1\<rparr>)" using assms(1) lt by (simp add: oq_wf_def)
qed

lemma oq_new_wf: "oq_wf (oq_new n) \<and> oq_list (oq_new n) = [] \<and> oq_ticks (oq_new n) = usize_lim - 1 - n"
  by (simp add: oq_new_def oq_wf_def oq_list_def oq_ticks_def)

section \<open>Correctness\<close>

text \<open>Running alone, the overflowing queue refines a list: a push into a queue with room
  appends and returns \<^verbatim>\<open>None\<close>, a push into a full queue appends, removes the oldest value and returns it, and a
  pop returns and removes the oldest value or \<^verbatim>\<open>None\<close> when there is none.\<close>

theorem overflow_queue_refines_list:
  assumes "oq_wf q" and "0 < oq_ticks q" and "0 < o_capacity q"
  shows "(if length (oq_list q) < o_capacity q
          then \<exists>q'. oq_push q v = (Ok (q', None) :: (unit, _) outcome) \<and> oq_wf q' \<and> oq_list q' = oq_list q @ [v]
          else \<exists>q'. oq_push q v = (Ok (q', Some (hd (oq_list q))) :: (unit, _) outcome) \<and> oq_wf q'
                  \<and> oq_list q' = tl (oq_list q) @ [v])
    \<and> (case oq_list q of [] \<Rightarrow> oq_pop q = (Ok (q, None) :: (unit, _) outcome)
        | x # xs \<Rightarrow> \<exists>q'. oq_pop q = (Ok (q', Some x) :: (unit, _) outcome) \<and> oq_wf q' \<and> oq_list q' = xs)"
proof (intro conjI)
  have "length (oq_list q) = o_capacity q \<and> oq_list q \<noteq> []" if "\<not> length (oq_list q) < o_capacity q"
    using that oq.over_cap [OF assms(1)] assms(3) by auto
  then show "if length (oq_list q) < o_capacity q
          then \<exists>q'. oq_push q v = (Ok (q', None) :: (unit, _) outcome) \<and> oq_wf q' \<and> oq_list q' = oq_list q @ [v]
          else \<exists>q'. oq_push q v = (Ok (q', Some (hd (oq_list q))) :: (unit, _) outcome) \<and> oq_wf q'
                  \<and> oq_list q' = tl (oq_list q) @ [v]"
    using oq.over_fits [OF assms(1,2)] oq.over_evicts [OF assms(1,2)] by (metis list.collapse)
  show "case oq_list q of [] \<Rightarrow> oq_pop q = (Ok (q, None) :: (unit, _) outcome)
        | x # xs \<Rightarrow> \<exists>q'. oq_pop q = (Ok (q', Some x) :: (unit, _) outcome) \<and> oq_wf q' \<and> oq_list q' = xs"
    using oq_pop_empty [of q] oq_pop_ok [OF assms(1,2)] assms(1) by (cases "oq_list q") auto
qed

theorem overflow_queue_refines_list_witness:
  "\<exists>q'. oq_push (oq_new 3) 7 = (Ok (q', None) :: (unit, _) outcome) \<and> oq_wf q' \<and> oq_list q' = [7]"
  using overflow_queue_refines_list [of "oq_new 3" 7] oq_new_wf [of 3] by (simp add: usize_lim_def oq_new_def)

text \<open>pushing any sequence of values into a fresh overflowing queue succeeds, keeps exactly the newest
  values up to the capacity and hands the others back, oldest first.\<close>

theorem overflow_queue_keeps_newest:
  assumes "0 < n" and "n + length xs < usize_lim"
  shows "\<exists>q es. oq.over_all (oq_new n) xs = (Ok (q, es) :: (unit, _) outcome) \<and> es @ oq_list q = xs \<and> length es = length xs - n"
proof -
  have "o_capacity (oq_new n) = n" by (simp add: oq_new_def)
  moreover have "length xs \<le> oq_ticks (oq_new n)" using assms(2) oq_new_wf [of n] by simp
  ultimately show ?thesis using oq.over_all_ok [of "oq_new n" xs] oq_new_wf [of n] assms(1) by auto
qed

theorem overflow_queue_keeps_newest_witness:
  "\<exists>q es. oq.over_all (oq_new 2) [5, 6, 7] = (Ok (q, es) :: (unit, _) outcome) \<and> es @ oq_list q = [5, 6, 7] \<and> length es = length [5, 6, 7 :: nat] - 2"
  by (rule overflow_queue_keeps_newest) (simp_all add: usize_lim_def)

text \<open>C5: in every interleaving of one producer and one consumer on an overflowing queue, the consumer
  receives values in the order in which they were pushed, neither side reads uninitialised or foreign memory, and
  between two pushes every pushed value is exactly one of: received, handed back to the producer, or still stored,
  with at most capacity many stored.\<close>

theorem overflow_queue_interleaved:
  assumes "oq_reachable (oq_new n) \<sigma>" and "0 < n"
  shows "subseq (ov_popped \<sigma>) (ov_pushed \<sigma>)
    \<and> ov_producer \<sigma> \<noteq> Some OUB \<and> ov_consumer \<sigma> \<noteq> Some QUB
    \<and> (ov_producer \<sigma> = None \<longrightarrow>
        mset (ov_pushed \<sigma>) = mset (ov_popped \<sigma>) + mset (ov_recycled \<sigma>) + mset (oq_list (ov_queue \<sigma>))
        \<and> length (oq_list (ov_queue \<sigma>)) \<le> o_capacity (ov_queue \<sigma>))"
proof (intro conjI impI)
  let ?q = "ov_queue \<sigma>" and ?h = "ov_pushed \<sigma>"
  have i: "oq_inv \<sigma>" using oq_reachable_inv [OF assms] .
  then have s: "subseq (ov_popped \<sigma>) (take (o_read ?q) ?h)" and r: "oring ?q ?h" by (simp_all add: oq_inv_def)
  show "subseq (ov_popped \<sigma>) ?h" using s by (metis prefix_imp_subseq subseq_order.trans take_is_prefix)
  show "ov_producer \<sigma> \<noteq> Some OUB" "ov_consumer \<sigma> \<noteq> Some QUB" using i by (auto simp: oq_inv_def)
  assume p: "ov_producer \<sigma> = None"
  have "oq_list ?q = drop (o_read ?q) ?h"
    using r by (intro nth_equalityI) (auto simp: oq_list_def oring_def)
  then show "mset ?h = mset (ov_popped \<sigma>) + mset (ov_recycled \<sigma>) + mset (oq_list ?q)"
    using i p by (metis (no_types, lifting) add_0_right append_take_drop_id in_flight_def mset_append option.simps(4) oq_inv_def)
  show "length (oq_list ?q) \<le> o_capacity ?q" using i p by (auto simp: oq_inv_def length_oq_list)
qed

theorem overflow_queue_interleaved_witness:
  "\<exists>\<sigma>. oq_reachable (oq_new 2) \<sigma> \<and> subseq (ov_popped \<sigma>) (ov_pushed \<sigma>) \<and> ov_pushed \<sigma> = [9]"
proof -
  define s0 where "s0 = oq_sys_init (oq_new 2)"
  define s1 where "s1 = s0\<lparr>ov_producer := Some (OLoadW 9)\<rparr>"
  define s2 where "s2 = s1\<lparr>ov_producer := Some (OLoadR 9 0)\<rparr>"
  define s3 where "s3 = s2\<lparr>ov_producer := Some (OWrite 9 0 0 False)\<rparr>"
  define s4 where "s4 = s3\<lparr>ov_queue := (ov_queue s3)\<lparr>o_data := [Some 9, Some 0, Some 0]\<rparr>, ov_producer := Some (OStore 9 0 0 False)\<rparr>"
  define s5 where "s5 = s4\<lparr>ov_queue := (ov_queue s4)\<lparr>o_write := 1\<rparr>, ov_producer := Some (OCas 0 False), ov_pushed := [9]\<rparr>"
  note d = s0_def s1_def s2_def s3_def s4_def s5_def oq_sys_init_def oq_new_def usize_lim_def
  have d3: "replicate (2 + 1) (Some (0 :: nat)) = [Some 0, Some 0, Some 0]" by (simp add: numeral_eq_Suc)
  have 0: "oq_reachable (oq_new 2) s0" unfolding s0_def by (rule oq_start)
  have 1: "oq_step s0 s1" unfolding s1_def by (rule call_opush) (simp add: d)
  have 2: "oq_step s1 s2" using work_opush [of s1 "OLoadW 9" "ov_queue s1" "OLoadR 9 0"] by (simp add: d)
  have 3: "oq_step s2 s3" using work_opush [of s2 "OLoadR 9 0" "ov_queue s2" "OWrite 9 0 0 False"] by (simp add: d)
  have 4: "oq_step s3 s4"
    using work_opush [of s3 "OWrite 9 0 0 False" "ov_queue s4" "OStore 9 0 0 False"] d3 by (simp add: d)
  have 5: "oq_step s4 s5" using work_opush [of s4 "OStore 9 0 0 False" "ov_queue s5" "OCas 0 False"] by (simp add: d)
  have "oq_reachable (oq_new 2) s5" using oq_next [OF oq_next [OF oq_next [OF oq_next [OF oq_next [OF 0 1] 2] 3] 4] 5] .
  then show ?thesis using overflow_queue_interleaved [of 2 s5] by (auto simp: s5_def)
qed

end
