(* ===== verification/ContainerQueue.thy ===== *)
theory ContainerQueue
  imports Elementary Queue_Contract
begin

text \<open>
  \<^verbatim>\<open>elkodon_bb/container/src/queue.rs\<close>: the queue of the container crate, over a block of possibly
  uninitialised cells. \<open>cq_start\<close> counts all pushes, \<open>cq_len\<close> the stored values; the oldest value is in the
  cell \<open>(cq_start - cq_len) mod cq_capacity\<close>. It implements both queue contracts. The size and
  alignment of the element type and the allocator are arguments.
\<close>

section \<open>State and operations\<close>

record 'a container_queue =
  cq_data :: "'a option list"
  cq_start :: usize
  cq_len :: usize
  cq_capacity :: usize
  cq_initialized :: bool

definition cq_new :: "usize \<Rightarrow> 'a container_queue" where
  "cq_new capacity =
     \<lparr>cq_data = replicate capacity None, cq_start = 0, cq_len = 0, cq_capacity = capacity, cq_initialized = True\<rparr>"

definition cq_new_uninit :: "usize \<Rightarrow> 'a container_queue" where
  "cq_new_uninit capacity =
     \<lparr>cq_data = [], cq_start = 0, cq_len = 0, cq_capacity = capacity, cq_initialized = False\<rparr>"

definition cq_init ::
  "usize \<Rightarrow> usize \<Rightarrow> (layout \<Rightarrow> (allocation_error, chunk) outcome) \<Rightarrow> 'a container_queue
     \<Rightarrow> (allocation_error, 'a container_queue) outcome" where
  "cq_init size_of_t align_of_t allocate q =
     (if cq_initialized q then Panic
      else obind (umul size_of_t (cq_capacity q)) (\<lambda>n.
        obind (allocate \<lparr>lsize = n, lalign = align_of_t\<rparr>) (\<lambda>_.
          Ok (q\<lparr>cq_data := replicate (cq_capacity q) None, cq_initialized := True\<rparr>))))"

definition cq_const_memory_size :: "usize \<Rightarrow> usize \<Rightarrow> usize \<Rightarrow> ('e, usize) outcome" where
  "cq_const_memory_size size_of_t align_of_t capacity =
     obind (umul size_of_t capacity) (\<lambda>m. obind (uadd m align_of_t) (\<lambda>n. usub n 1))"

definition cq_verify_init :: "'a container_queue \<Rightarrow> ('e, unit) outcome" where
  "cq_verify_init q = (if cq_initialized q then Ok () else Panic)"

definition cq_is_empty :: "'a container_queue \<Rightarrow> bool" where
  "cq_is_empty q \<longleftrightarrow> cq_len q = 0"

definition cq_is_full :: "'a container_queue \<Rightarrow> bool" where
  "cq_is_full q \<longleftrightarrow> cq_len q = cq_capacity q"

definition cq_get_unchecked :: "'a container_queue \<Rightarrow> usize \<Rightarrow> ('e, 'a) outcome" where
  "cq_get_unchecked q index =
     obind (usub (cq_start q) (cq_len q)) (\<lambda>a. obind (uadd a index) (\<lambda>b. obind (umod b (cq_capacity q)) (\<lambda>i.
       raw_read (cq_data q) i)))"

definition cq_get :: "'a container_queue \<Rightarrow> usize \<Rightarrow> ('e, 'a) outcome" where
  "cq_get q index = (if cq_len q \<le> index then Panic else cq_get_unchecked q index)"

definition cq_pop :: "'a container_queue \<Rightarrow> ('e, 'a container_queue \<times> 'a option) outcome" where
  "cq_pop q =
     (if cq_is_empty q then Ok (q, None)
      else obind (cq_verify_init q) (\<lambda>_. obind (usub (cq_start q) (cq_len q)) (\<lambda>a.
        obind (umod a (cq_capacity q)) (\<lambda>index. obind (usub (cq_len q) 1) (\<lambda>l.
          obind (raw_read (cq_data q) index) (\<lambda>value. obind (raw_write (cq_data q) index None) (\<lambda>d.
            Ok (q\<lparr>cq_data := d, cq_len := l\<rparr>, Some value))))))))"

definition cq_unchecked_push :: "'a container_queue \<Rightarrow> 'a \<Rightarrow> ('e, 'a container_queue) outcome" where
  "cq_unchecked_push q value =
     obind (umod (cq_start q) (cq_capacity q)) (\<lambda>index. obind (raw_write (cq_data q) index (Some value)) (\<lambda>d.
       obind (uadd (cq_start q) 1) (\<lambda>s. obind (uadd (cq_len q) 1) (\<lambda>l.
         Ok (q\<lparr>cq_data := d, cq_start := s, cq_len := l\<rparr>)))))"

definition cq_push :: "'a container_queue \<Rightarrow> 'a \<Rightarrow> ('e, 'a container_queue \<times> bool) outcome" where
  "cq_push q value =
     (if cq_len q = cq_capacity q then Ok (q, False)
      else obind (cq_verify_init q) (\<lambda>_. omap (\<lambda>q'. (q', True)) (cq_unchecked_push q value)))"

definition cq_push_with_overflow :: "'a container_queue \<Rightarrow> 'a \<Rightarrow> ('e, 'a container_queue \<times> 'a option) outcome" where
  "cq_push_with_overflow q value =
     obind (if cq_len q = cq_capacity q then cq_pop q else Ok (q, None)) (\<lambda>(q', overridden_value).
       obind (cq_verify_init q') (\<lambda>_. omap (\<lambda>q''. (q'', overridden_value)) (cq_unchecked_push q' value)))"

text \<open>\<^verbatim>\<open>clear\<close> pops until the queue is empty; the fuel is the number of stored values and one more for
  the failing call.\<close>

primrec cq_clear_loop :: "nat \<Rightarrow> 'a container_queue \<Rightarrow> ('e, 'a container_queue) outcome option" where
  "cq_clear_loop 0 q = None"
| "cq_clear_loop (Suc n) q =
     (case cq_pop q of
        Ok (q', Some _) \<Rightarrow> cq_clear_loop n q'
      | Ok (q', None) \<Rightarrow> Some (Ok q')
      | Err e \<Rightarrow> Some (Err e) | Panic \<Rightarrow> Some Panic | UB \<Rightarrow> Some UB)"

definition cq_clear :: "'a container_queue \<Rightarrow> ('e, 'a container_queue) outcome option" where
  "cq_clear q = cq_clear_loop (cq_len q + 1) q"

definition cq_drop :: "'a container_queue \<Rightarrow> ('e, 'a container_queue) outcome option" where
  "cq_drop q = cq_clear q"

text \<open>The queue with a capacity fixed at compile time has its cells behind the queue.\<close>

definition fixed_cq_default :: "usize \<Rightarrow> 'a container_queue" where
  "fixed_cq_default CAPACITY =
     \<lparr>cq_data = replicate CAPACITY None, cq_start = 0, cq_len = 0, cq_capacity = CAPACITY, cq_initialized = True\<rparr>"

section \<open>Invariant and content\<close>

definition cq_list :: "'a container_queue \<Rightarrow> 'a list" where
  "cq_list q = map (\<lambda>p. the (cq_data q ! (p mod cq_capacity q))) [cq_start q - cq_len q ..< cq_start q]"

definition cq_wf :: "'a container_queue \<Rightarrow> bool" where
  "cq_wf q \<longleftrightarrow> length (cq_data q) = cq_capacity q \<and> cq_len q \<le> cq_start q \<and> cq_len q \<le> cq_capacity q
     \<and> cq_initialized q
     \<and> (\<forall>p \<in> set [cq_start q - cq_len q ..< cq_start q]. cq_data q ! (p mod cq_capacity q) \<noteq> None)"

definition cq_ticks :: "'a container_queue \<Rightarrow> nat" where
  "cq_ticks q = usize_lim - 1 - (cq_start q + cq_capacity q)"

lemma cq_ticks_pos: "0 < cq_ticks q \<Longrightarrow> cq_start q + cq_capacity q + 1 < usize_lim"
  by (simp add: cq_ticks_def)

lemma length_cq_list: "cq_wf q \<Longrightarrow> length (cq_list q) = cq_len q"
  by (simp add: cq_list_def cq_wf_def)

lemma cq_pushed_wf:
  assumes "cq_wf q" and "cq_len q < cq_capacity q"
  shows "cq_wf (q\<lparr>cq_data := (cq_data q)[cq_start q mod cq_capacity q := Some v], cq_start := cq_start q + 1, cq_len := cq_len q + 1\<rparr>)"
proof -
  have c: "0 < cq_capacity q" "length (cq_data q) = cq_capacity q" "cq_len q \<le> cq_start q" using assms by (auto simp: cq_wf_def)
  then have m: "cq_start q mod cq_capacity q < length (cq_data q)" by simp
  have "p mod cq_capacity q \<noteq> cq_start q mod cq_capacity q" if "p \<in> set [cq_start q - cq_len q ..< cq_start q]" for p
    using that assms(2) by (intro mod_neq_window) auto
  then show ?thesis using assms c m unfolding cq_wf_def by (auto simp: less_Suc_eq nth_list_update)
qed

lemma cq_pushed_list:
  assumes "cq_wf q" and "cq_len q < cq_capacity q"
  shows "cq_list (q\<lparr>cq_data := (cq_data q)[cq_start q mod cq_capacity q := Some v], cq_start := cq_start q + 1, cq_len := cq_len q + 1\<rparr>) = cq_list q @ [v]"
proof -
  have c: "0 < cq_capacity q" "length (cq_data q) = cq_capacity q" "cq_len q \<le> cq_start q" using assms by (auto simp: cq_wf_def)
  then have m: "cq_start q mod cq_capacity q < length (cq_data q)" by simp
  have ne: "p mod cq_capacity q \<noteq> cq_start q mod cq_capacity q" if "p \<in> set [cq_start q - cq_len q ..< cq_start q]" for p
    using that assms(2) by (intro mod_neq_window) auto
  show ?thesis using c m map_the_update_notin [of "[cq_start q - cq_len q ..< cq_start q]" "\<lambda>p. p mod cq_capacity q", OF ne]
    by (simp add: cq_list_def Suc_diff_le)
qed

lemma cq_push_wf:
  assumes "cq_wf q" and "cq_push q v = (Ok (q', b) :: ('e, _) outcome)"
  shows "cq_wf q' \<and> cq_len q' = cq_len q + of_bool b \<and> cq_capacity q' = cq_capacity q \<and> (b \<longleftrightarrow> cq_len q < cq_capacity q)
    \<and> cq_list q' = cq_list q @ (if b then [v] else [])"
proof (cases "cq_len q = cq_capacity q")
  case True
  then show ?thesis using assms by (auto simp: cq_push_def)
next
  case False
  then have l: "cq_len q < cq_capacity q" and i: "cq_initialized q" using assms(1) by (auto simp: cq_wf_def)
  have "q' = q\<lparr>cq_data := (cq_data q)[cq_start q mod cq_capacity q := Some v], cq_start := cq_start q + 1, cq_len := cq_len q + 1\<rparr> \<and> b"
    using assms False i l by (auto simp: cq_push_def cq_verify_init_def cq_unchecked_push_def cq_wf_def outcome_defs omap_eq_Ok_iff obind_eq_Ok_iff split: if_splits)
  then show ?thesis using cq_pushed_wf [OF assms(1) l, of v] cq_pushed_list [OF assms(1) l, of v] l by simp
qed

lemma cq_unchecked_push_ok:
  fixes q :: "'a container_queue" and v :: 'a
  assumes "cq_wf q" and "0 < cq_ticks q" and "cq_len q < cq_capacity q"
  defines "q' \<equiv> q\<lparr>cq_data := (cq_data q)[cq_start q mod cq_capacity q := Some v], cq_start := cq_start q + 1, cq_len := cq_len q + 1\<rparr>"
  shows "cq_unchecked_push q v = (Ok q' :: ('e, _) outcome)" and "cq_wf q'" and "cq_list q' = cq_list q @ [v]"
proof -
  have "0 < cq_capacity q" "length (cq_data q) = cq_capacity q" "cq_len q \<le> cq_start q" using assms(1,3) by (auto simp: cq_wf_def)
  then show "cq_unchecked_push q v = (Ok q' :: ('e, _) outcome)" using assms(3) cq_ticks_pos [OF assms(2)] by (simp add: cq_unchecked_push_def q'_def)
  show "cq_wf q'" "cq_list q' = cq_list q @ [v]" unfolding q'_def using cq_pushed_wf [OF assms(1,3)] cq_pushed_list [OF assms(1,3)] by blast+
qed

abbreviation cq_popped :: "'a container_queue \<Rightarrow> 'a container_queue" where
  "cq_popped q \<equiv> q\<lparr>cq_data := (cq_data q)[(cq_start q - cq_len q) mod cq_capacity q := None], cq_len := cq_len q - 1\<rparr>"

lemma cq_pop_ok:
  assumes "cq_wf q" and "cq_list q = x # xs"
  shows "cq_pop q = Ok (cq_popped q, Some x)" and "cq_wf (cq_popped q)" and "cq_list (cq_popped q) = xs"
proof -
  let ?i = "(cq_start q - cq_len q) mod cq_capacity q"
  have l: "0 < cq_len q" using length_cq_list [OF assms(1)] assms(2) by simp
  then have c: "0 < cq_capacity q" "length (cq_data q) = cq_capacity q" "cq_len q \<le> cq_start q" "cq_len q \<le> cq_capacity q"
    using assms(1) by (auto simp: cq_wf_def)
  then have m: "?i < length (cq_data q)" by simp
  have up: "[cq_start q - cq_len q ..< cq_start q] = (cq_start q - cq_len q) # [cq_start q - (cq_len q - 1) ..< cq_start q]"
    using l c(3) by (subst upt_conv_Cons) (auto simp: Suc_diff_le)
  have "cq_data q ! ?i \<noteq> None" using assms(1) up by (simp add: cq_wf_def)
  then have x: "cq_data q ! ?i = Some x" using assms(2) up by (auto simp: cq_list_def)
  have ne: "p mod cq_capacity q \<noteq> ?i" if "p \<in> set [cq_start q - (cq_len q - 1) ..< cq_start q]" for p
    using that c l mod_neq_window [of "cq_start q - cq_len q" p "cq_capacity q"] by fastforce
  show "cq_pop q = Ok (cq_popped q, Some x)"
    using l c m x assms(1) by (simp add: cq_pop_def cq_is_empty_def cq_verify_init_def cq_wf_def)
  have "(cq_data q)[?i := None] ! (p mod cq_capacity q) \<noteq> None" if p: "p \<in> set [cq_start q - (cq_len q - 1) ..< cq_start q]" for p
  proof -
    have "\<forall>p \<in> set [cq_start q - cq_len q ..< cq_start q]. cq_data q ! (p mod cq_capacity q) \<noteq> None"
      using assms(1) unfolding cq_wf_def by blast
    then have "cq_data q ! (p mod cq_capacity q) \<noteq> None" using p by (auto simp: up simp del: set_upt)
    then show ?thesis using ne [OF p] by simp
  qed
  then show "cq_wf (cq_popped q)" using assms(1) c unfolding cq_wf_def by auto
  have "cq_list (cq_popped q) = map (\<lambda>p. the (cq_data q ! (p mod cq_capacity q))) [cq_start q - (cq_len q - 1) ..< cq_start q]"
    unfolding cq_list_def by (auto simp del: set_upt intro!: map_cong arg_cong [where f = the] nth_list_update_neq)
      (metis One_nat_def ne)
  also have "\<dots> = xs" using assms(2) up by (simp add: cq_list_def)
  finally show "cq_list (cq_popped q) = xs" .
qed

section \<open>The queue implements both contracts\<close>

interpretation cq: bounded_queue cq_wf cq_list cq_capacity cq_ticks cq_push cq_pop
proof unfold_locales
  fix q :: "'a container_queue" and x xs
  show "cq_wf q \<Longrightarrow> length (cq_list q) \<le> cq_capacity q" by (simp add: length_cq_list) (simp add: cq_wf_def)
  show "cq_push q x = Ok (q, False)" if "cq_wf q" "0 < cq_ticks q" "length (cq_list q) = cq_capacity q"
    using that length_cq_list [OF that(1)] by (simp add: cq_push_def)
  show "\<exists>q'. cq_push q x = Ok (q', True) \<and> cq_wf q' \<and> cq_list q' = cq_list q @ [x] \<and> cq_capacity q' = cq_capacity q
      \<and> cq_ticks q \<le> Suc (cq_ticks q')"
    if "cq_wf q" "0 < cq_ticks q" "length (cq_list q) < cq_capacity q"
  proof -
    have l: "cq_len q < cq_capacity q" using that length_cq_list by metis
    have "cq_initialized q" using that(1) by (simp add: cq_wf_def)
    then show ?thesis using cq_unchecked_push_ok(2,3) [OF that(1,2) l, of x] l
      by (auto simp: cq_push_def cq_verify_init_def cq_ticks_def cq_unchecked_push_ok(1) [OF that(1,2)])
  qed
  show "cq_pop q = Ok (q, None)" if "cq_wf q" "cq_list q = []"
    using that length_cq_list [OF that(1)] by (simp add: cq_pop_def cq_is_empty_def)
  show "\<exists>q'. cq_pop q = Ok (q', Some x) \<and> cq_wf q' \<and> cq_list q' = xs \<and> cq_capacity q' = cq_capacity q
      \<and> cq_ticks q \<le> Suc (cq_ticks q')"
    if "cq_wf q" "0 < cq_ticks q" "cq_list q = x # xs"
    using cq_pop_ok [OF that(1,3)] by (auto simp: cq_pop_ok(1) [OF that(1,3)] cq_ticks_def)
qed

interpretation co: overflowing_queue cq_wf cq_list cq_capacity cq_ticks cq_push_with_overflow
proof unfold_locales
  fix q :: "'a container_queue" and x y ys
  show "cq_wf q \<Longrightarrow> length (cq_list q) \<le> cq_capacity q" by (rule cq.list_cap)
  show "\<exists>q'. cq_push_with_overflow q x = Ok (q', None) \<and> cq_wf q' \<and> cq_list q' = cq_list q @ [x] \<and> cq_capacity q' = cq_capacity q
      \<and> cq_ticks q \<le> Suc (cq_ticks q')"
    if "cq_wf q" "0 < cq_ticks q" "length (cq_list q) < cq_capacity q"
  proof -
    have l: "cq_len q < cq_capacity q" using that length_cq_list by metis
    have "cq_initialized q" using that(1) by (simp add: cq_wf_def)
    then show ?thesis using cq_unchecked_push_ok(2,3) [OF that(1,2) l, of x] l
      by (auto simp: cq_push_with_overflow_def cq_verify_init_def cq_ticks_def cq_unchecked_push_ok(1) [OF that(1,2)])
  qed
  show "\<exists>q'. cq_push_with_overflow q x = Ok (q', Some y) \<and> cq_wf q' \<and> cq_list q' = ys @ [x] \<and> cq_capacity q' = cq_capacity q
      \<and> cq_ticks q \<le> Suc (cq_ticks q')"
    if "cq_wf q" "0 < cq_ticks q" "cq_list q = y # ys" "length (cq_list q) = cq_capacity q"
  proof -
    have l: "cq_len q = cq_capacity q" "0 < cq_len q" using that length_cq_list [OF that(1)] by auto
    define q1 where "q1 = cq_popped q"
    note e = cq_pop_ok [OF that(1,3), folded q1_def]
    have a: "0 < cq_ticks q1" "cq_len q1 < cq_capacity q1" and f: "cq_capacity q1 = cq_capacity q" "cq_start q1 = cq_start q" "cq_initialized q1"
      using that(1,2) l by (auto simp: q1_def cq_ticks_def cq_wf_def)
    note p = cq_unchecked_push_ok [OF e(2) a, of x]
    show ?thesis using p(2,3) e(3) f
      by (auto simp: cq_push_with_overflow_def cq_verify_init_def cq_ticks_def l(1) e(1) p(1))
  qed
qed

lemma cq_clear_loop_ok:
  "cq_wf q \<Longrightarrow> cq_len q < n \<Longrightarrow> \<exists>q'. cq_clear_loop n q = Some (Ok q' :: ('e, _) outcome) \<and> cq_wf q' \<and> cq_list q' = []"
proof (induction n arbitrary: q)
  case (Suc n)
  show ?case
  proof (cases "cq_list q")
    case Nil
    then show ?thesis using Suc.prems(1) by (auto simp: cq.pop_empty [OF Suc.prems(1)])
  next
    case (Cons x xs)
    have "0 < cq_len q" using length_cq_list [OF Suc.prems(1)] Cons by simp
    then show ?thesis using Suc.IH [of "cq_popped q"] cq_pop_ok(2) [OF Suc.prems(1) Cons] Suc.prems(2)
      by (simp add: cq_pop_ok(1) [OF Suc.prems(1) Cons])
  qed
qed simp

lemma cq_new_wf: "cq_wf (cq_new n :: 'a container_queue) \<and> cq_list (cq_new n :: 'a container_queue) = []
    \<and> cq_ticks (cq_new n :: 'a container_queue) = usize_lim - 1 - n"
  by (simp add: cq_new_def cq_wf_def cq_list_def cq_ticks_def)

lemma cq_get_ok:
  assumes "cq_wf q" and "0 < cq_ticks q" and "i < cq_len q"
  shows "cq_get q i = (Ok (cq_list q ! i) :: ('e, _) outcome)"
proof -
  let ?p = "cq_start q - cq_len q + i"
  have c: "0 < cq_capacity q" "length (cq_data q) = cq_capacity q" "cq_len q \<le> cq_start q" using assms(1,3) by (auto simp: cq_wf_def)
  then have "?p \<in> set [cq_start q - cq_len q ..< cq_start q]" using assms(3) by auto
  then have "cq_data q ! (?p mod cq_capacity q) = Some (cq_list q ! i)"
    using assms(1,3) c by (auto simp: cq_wf_def cq_list_def nth_append)
  then show ?thesis using assms(3) c cq_ticks_pos [OF assms(2)] by (simp add: cq_get_def cq_get_unchecked_def)
qed

section \<open>Correctness\<close>

text \<open>The container queue refines a bounded list on every operation: \<^verbatim>\<open>push\<close> appends or returns
  false exactly when the queue is full, \<^verbatim>\<open>push_with_overflow\<close> replaces the oldest value and returns it exactly when the queue is
  full, \<^verbatim>\<open>pop\<close> removes the oldest value, \<^verbatim>\<open>get\<close> reads the value at an index and panics behind the end, and
  \<^verbatim>\<open>clear\<close> ends and empties the queue.\<close>

theorem container_queue_refines_list:
  fixes q :: "'a container_queue"
  assumes "cq_wf q" and "0 < cq_ticks q" and "0 < cq_capacity q"
  shows "(if cq_is_full q then cq_push q v = (Ok (q, False) :: (unit, _) outcome)
          else \<exists>q'. cq_push q v = (Ok (q', True) :: (unit, _) outcome) \<and> cq_wf q' \<and> cq_list q' = cq_list q @ [v])
    \<and> (if cq_is_full q
       then \<exists>q'. cq_push_with_overflow q v = (Ok (q', Some (hd (cq_list q))) :: (unit, _) outcome) \<and> cq_wf q' \<and> cq_list q' = tl (cq_list q) @ [v]
       else \<exists>q'. cq_push_with_overflow q v = (Ok (q', None) :: (unit, _) outcome) \<and> cq_wf q' \<and> cq_list q' = cq_list q @ [v])
    \<and> (if cq_is_empty q then cq_pop q = (Ok (q, None) :: (unit, _) outcome)
       else \<exists>q'. cq_pop q = (Ok (q', Some (hd (cq_list q))) :: (unit, _) outcome) \<and> cq_wf q' \<and> cq_list q' = tl (cq_list q))
    \<and> cq_get q i = (if i < length (cq_list q) then (Ok (cq_list q ! i) :: (unit, _) outcome) else Panic)
    \<and> (\<exists>q'. cq_clear q = Some (Ok q' :: (unit, _) outcome) \<and> cq_wf q' \<and> cq_list q' = [])"
proof -
  have l: "length (cq_list q) = cq_len q" using assms(1) by (rule length_cq_list)
  have le: "cq_len q \<le> cq_capacity q" using assms(1) by (simp add: cq_wf_def)
  have ne: "cq_list q = hd (cq_list q) # tl (cq_list q)" if "0 < cq_len q" using that l by (cases "cq_list q") auto
  have full: "cq_is_full q \<longleftrightarrow> length (cq_list q) = cq_capacity q" "\<not> cq_is_full q \<longleftrightarrow> length (cq_list q) < cq_capacity q"
    using l le by (auto simp: cq_is_full_def)
  have 1: "if cq_is_full q then cq_push q v = (Ok (q, False) :: (unit, _) outcome)
          else \<exists>q'. cq_push q v = (Ok (q', True) :: (unit, _) outcome) \<and> cq_wf q' \<and> cq_list q' = cq_list q @ [v]"
    using cq.push_full [OF assms(1,2)] cq.push_ok [OF assms(1,2), of v] full by auto
  have 2: "if cq_is_full q
       then \<exists>q'. cq_push_with_overflow q v = (Ok (q', Some (hd (cq_list q))) :: (unit, _) outcome) \<and> cq_wf q' \<and> cq_list q' = tl (cq_list q) @ [v]
       else \<exists>q'. cq_push_with_overflow q v = (Ok (q', None) :: (unit, _) outcome) \<and> cq_wf q' \<and> cq_list q' = cq_list q @ [v]"
    using co.over_fits [OF assms(1,2), of v] co.over_evicts [OF assms(1,2) ne, of v] full assms(3) l by auto
  have 3: "if cq_is_empty q then cq_pop q = (Ok (q, None) :: (unit, _) outcome)
       else \<exists>q'. cq_pop q = (Ok (q', Some (hd (cq_list q))) :: (unit, _) outcome) \<and> cq_wf q' \<and> cq_list q' = tl (cq_list q)"
    using cq.pop_empty [OF assms(1)] cq.pop_ok [OF assms(1,2) ne] l by (auto simp: cq_is_empty_def)
  have 4: "cq_get q i = (if i < length (cq_list q) then (Ok (cq_list q ! i) :: (unit, _) outcome) else Panic)"
    using cq_get_ok [OF assms(1,2)] l by (cases "i < cq_len q") (auto simp: cq_get_def)
  have 5: "\<exists>q'. cq_clear q = Some (Ok q' :: (unit, _) outcome) \<and> cq_wf q' \<and> cq_list q' = []"
    unfolding cq_clear_def by (rule cq_clear_loop_ok [OF assms(1)]) simp
  show ?thesis using 1 2 3 4 5 by blast
qed

theorem container_queue_refines_list_witness:
  "\<exists>q'. cq_push (cq_new 3) 7 = (Ok (q', True) :: (unit, _) outcome) \<and> cq_wf q' \<and> cq_list q' = [7 :: nat]"
proof -
  have "\<not> cq_is_full (cq_new 3 :: nat container_queue)" "0 < cq_capacity (cq_new 3 :: nat container_queue)" by (simp_all add: cq_new_def cq_is_full_def)
  moreover have "0 < cq_ticks (cq_new 3 :: nat container_queue)" using cq_new_wf [of 3, where ?'a = nat] by (simp add: usize_lim_def)
  ultimately show ?thesis using container_queue_refines_list [of "cq_new 3" "7 :: nat" 0] cq_new_wf [of 3, where ?'a = nat] by simp
qed

end
