(* ===== verification/ContainerVec.thy ===== *)
theory ContainerVec
  imports Elementary
begin

text \<open>
  \<^verbatim>\<open>elkodon_bb/container/src/vec.rs\<close>: the vector with a capacity fixed at construction. The
  first \<open>cv_len\<close> cells are initialised. The operations refine a bounded list on which they act at the end; \<^verbatim>\<open>clear\<close>
  and \<^verbatim>\<open>fill\<close> are loops over the stored and over the free cells.
\<close>

section \<open>State and operations\<close>

record 'a container_vec =
  cv_data :: "'a option list"
  cv_capacity :: usize
  cv_len :: usize
  cv_initialized :: bool

definition cv_new :: "usize \<Rightarrow> 'a container_vec" where
  "cv_new capacity = \<lparr>cv_data = replicate capacity None, cv_capacity = capacity, cv_len = 0, cv_initialized = True\<rparr>"

definition cv_new_uninit :: "usize \<Rightarrow> 'a container_vec" where
  "cv_new_uninit capacity = \<lparr>cv_data = [], cv_capacity = capacity, cv_len = 0, cv_initialized = False\<rparr>"

definition cv_init ::
  "usize \<Rightarrow> usize \<Rightarrow> (layout \<Rightarrow> (allocation_error, chunk) outcome) \<Rightarrow> 'a container_vec
     \<Rightarrow> (allocation_error, 'a container_vec) outcome" where
  "cv_init size_of_t align_of_t allocate v =
     (if cv_initialized v then Panic
      else obind (umul size_of_t (cv_capacity v)) (\<lambda>n.
        obind (allocate \<lparr>lsize = n, lalign = align_of_t\<rparr>) (\<lambda>_.
          Ok (v\<lparr>cv_data := replicate (cv_capacity v) None, cv_initialized := True\<rparr>))))"

definition cv_verify_init :: "'a container_vec \<Rightarrow> ('e, unit) outcome" where
  "cv_verify_init v = (if cv_initialized v then Ok () else Panic)"

definition cv_const_memory_size :: "usize \<Rightarrow> usize \<Rightarrow> usize \<Rightarrow> ('e, usize) outcome" where
  "cv_const_memory_size size_of_t align_of_t capacity =
     obind (umul size_of_t capacity) (\<lambda>m. obind (uadd m align_of_t) (\<lambda>n. usub n 1))"

definition cv_is_empty :: "'a container_vec \<Rightarrow> bool" where
  "cv_is_empty v \<longleftrightarrow> cv_len v = 0"

definition cv_is_full :: "'a container_vec \<Rightarrow> bool" where
  "cv_is_full v \<longleftrightarrow> cv_len v = cv_capacity v"

definition cv_push_unchecked :: "'a container_vec \<Rightarrow> 'a \<Rightarrow> ('e, 'a container_vec) outcome" where
  "cv_push_unchecked v value =
     obind (raw_write (cv_data v) (cv_len v) (Some value)) (\<lambda>d. obind (uadd (cv_len v) 1) (\<lambda>l.
       Ok (v\<lparr>cv_data := d, cv_len := l\<rparr>)))"

definition cv_push :: "'a container_vec \<Rightarrow> 'a \<Rightarrow> ('e, 'a container_vec \<times> bool) outcome" where
  "cv_push v value =
     (if cv_is_full v then Ok (v, False)
      else obind (cv_verify_init v) (\<lambda>_. omap (\<lambda>v'. (v', True)) (cv_push_unchecked v value)))"

text \<open>\<^verbatim>\<open>for _ in self.len..self.capacity\<close>: the range is evaluated once, before the loop.\<close>

primrec cv_fill_loop :: "nat \<Rightarrow> 'a \<Rightarrow> 'a container_vec \<Rightarrow> ('e, 'a container_vec) outcome" where
  "cv_fill_loop 0 value v = Ok v"
| "cv_fill_loop (Suc n) value v = obind (cv_push_unchecked v value) (cv_fill_loop n value)"

definition cv_fill :: "'a container_vec \<Rightarrow> 'a \<Rightarrow> ('e, 'a container_vec) outcome" where
  "cv_fill v value = cv_fill_loop (cv_capacity v - cv_len v) value v"

text \<open>The address of the last element is formed with a signed offset: with length 0 it lies before
  the block.\<close>

definition cv_pop_unchecked :: "'a container_vec \<Rightarrow> ('e, 'a container_vec \<times> 'a) outcome" where
  "cv_pop_unchecked v =
     (if cv_len v = 0 then UB
      else obind (raw_read (cv_data v) (cv_len v - 1)) (\<lambda>value. obind (raw_write (cv_data v) (cv_len v - 1) None) (\<lambda>d.
        Ok (v\<lparr>cv_data := d, cv_len := cv_len v - 1\<rparr>, value))))"

definition cv_pop :: "'a container_vec \<Rightarrow> ('e, 'a container_vec \<times> 'a option) outcome" where
  "cv_pop v =
     (if cv_is_empty v then Ok (v, None)
      else obind (cv_verify_init v) (\<lambda>_. omap (\<lambda>(v', x). (v', Some x)) (cv_pop_unchecked v)))"

primrec cv_clear_loop :: "nat \<Rightarrow> 'a container_vec \<Rightarrow> ('e, 'a container_vec) outcome" where
  "cv_clear_loop 0 v = Ok v"
| "cv_clear_loop (Suc n) v = obind (cv_pop_unchecked v) (\<lambda>(v', _). cv_clear_loop n v')"

definition cv_clear :: "'a container_vec \<Rightarrow> ('e, 'a container_vec) outcome" where
  "cv_clear v = cv_clear_loop (cv_len v) v"

definition cv_drop :: "'a container_vec \<Rightarrow> ('e, 'a container_vec) outcome" where
  "cv_drop v = cv_clear v"

definition cv_get_unchecked :: "'a container_vec \<Rightarrow> usize \<Rightarrow> ('e, 'a) outcome" where
  "cv_get_unchecked v index = raw_read (cv_data v) index"

definition cv_get :: "'a container_vec \<Rightarrow> usize \<Rightarrow> ('e, 'a option) outcome" where
  "cv_get v index =
     (if cv_len v \<le> index then Ok None
      else obind (cv_verify_init v) (\<lambda>_. omap Some (cv_get_unchecked v index)))"

text \<open>The mutable reference is modelled by what the caller does with it: a function \<open>f\<close> from the old to
  the new value.\<close>

definition cv_get_unchecked_mut :: "'a container_vec \<Rightarrow> usize \<Rightarrow> ('a \<Rightarrow> 'a) \<Rightarrow> ('e, 'a container_vec) outcome" where
  "cv_get_unchecked_mut v index f =
     obind (raw_read (cv_data v) index) (\<lambda>x. obind (raw_write (cv_data v) index (Some (f x))) (\<lambda>d. Ok (v\<lparr>cv_data := d\<rparr>)))"

definition cv_get_mut :: "'a container_vec \<Rightarrow> usize \<Rightarrow> ('a \<Rightarrow> 'a) \<Rightarrow> ('e, 'a container_vec option) outcome" where
  "cv_get_mut v index f =
     (if cv_len v \<le> index then Ok None
      else obind (cv_verify_init v) (\<lambda>_. omap Some (cv_get_unchecked_mut v index f)))"

definition fixed_cv_default :: "usize \<Rightarrow> 'a container_vec" where
  "fixed_cv_default CAPACITY =
     \<lparr>cv_data = replicate CAPACITY None, cv_capacity = CAPACITY, cv_len = 0, cv_initialized = True\<rparr>"

section \<open>Invariant and content\<close>

text \<open>A vector in canonical form: the stored values and then uninitialised cells.\<close>

definition cv_of :: "usize \<Rightarrow> 'a list \<Rightarrow> 'a container_vec" where
  "cv_of n xs = \<lparr>cv_data = map Some xs @ replicate (n - length xs) None, cv_capacity = n, cv_len = length xs, cv_initialized = True\<rparr>"

definition cv_wf :: "'a container_vec \<Rightarrow> bool" where
  "cv_wf v \<longleftrightarrow> cv_capacity v < usize_lim \<and> (\<exists>xs. length xs \<le> cv_capacity v \<and> v = cv_of (cv_capacity v) xs)"

definition cv_list :: "'a container_vec \<Rightarrow> 'a list" where
  "cv_list v = map the (take (cv_len v) (cv_data v))"

lemma cv_list_of [simp]: "cv_list (cv_of n xs) = xs"
  by (simp add: cv_list_def cv_of_def)

lemma cv_of_fields [simp]:
  "cv_capacity (cv_of n xs) = n" "cv_len (cv_of n xs) = length xs" "cv_initialized (cv_of n xs)"
  by (simp_all add: cv_of_def)

lemma cv_wf_cases:
  assumes "cv_wf v"
  obtains xs n where "v = cv_of n xs" and "length xs \<le> n" and "n < usize_lim"
  using assms by (auto simp: cv_wf_def)

lemma cv_wf_of: "length xs \<le> n \<Longrightarrow> n < usize_lim \<Longrightarrow> cv_wf (cv_of n xs)"
  by (auto simp: cv_wf_def)

lemma cv_push_unchecked_of:
  assumes "length xs < n" and "n < usize_lim"
  shows "cv_push_unchecked (cv_of n xs) x = Ok (cv_of n (xs @ [x]))"
proof -
  have "replicate (n - length xs) None = None # replicate (n - Suc (length xs)) (None :: 'a option)"
    using assms(1) by (metis Suc_diff_Suc replicate_Suc)
  then show ?thesis using assms
    by (simp add: cv_push_unchecked_def cv_of_def list_update_append)
qed

lemma cv_pop_unchecked_of:
  assumes "length xs < n"
  shows "cv_pop_unchecked (cv_of n (xs @ [x])) = Ok (cv_of n xs, x)"
proof -
  have "replicate (n - length xs) None = None # replicate (n - Suc (length xs)) (None :: 'a option)"
    using assms by (metis Suc_diff_Suc replicate_Suc)
  then show ?thesis using assms
    by (simp add: cv_pop_unchecked_def cv_of_def nth_append list_update_append)
qed

lemma cv_fill_loop_of:
  "length xs + k \<le> n \<Longrightarrow> n < usize_lim \<Longrightarrow> cv_fill_loop k x (cv_of n xs) = Ok (cv_of n (xs @ replicate k x))"
  by (induction k arbitrary: xs) (simp_all add: cv_push_unchecked_of)

lemma cv_clear_loop_of:
  "length xs \<le> n \<Longrightarrow> cv_clear_loop (length xs) (cv_of n xs) = Ok (cv_of n [])"
  by (induction xs rule: rev_induct) (simp_all add: cv_pop_unchecked_of)

lemma cv_update_of:
  assumes "i < length xs"
  shows "cv_get_unchecked_mut (cv_of n xs) i f = Ok (cv_of n (xs[i := f (xs ! i)]))"
  using assms by (simp add: cv_get_unchecked_mut_def cv_of_def nth_append list_update_append map_update)

lemma cv_get_of: "i < length xs \<Longrightarrow> cv_get_unchecked (cv_of n xs) i = Ok (xs ! i)"
  by (simp add: cv_get_unchecked_def cv_of_def nth_append)

section \<open>Correctness\<close>

text \<open>The vector refines a bounded list on every operation: \<^verbatim>\<open>push\<close> appends or returns false exactly when
  the vector is full, \<^verbatim>\<open>pop\<close> removes the last value, \<^verbatim>\<open>fill\<close> appends copies up to the capacity, \<^verbatim>\<open>clear\<close> empties,
  \<^verbatim>\<open>get\<close> and \<^verbatim>\<open>get_mut\<close> access an index and return \<^verbatim>\<open>None\<close> behind the end; every operation keeps the vector well
  formed and none is undefined behaviour.\<close>

theorem container_vec_refines_list:
  fixes v :: "'a container_vec"
  assumes "cv_wf v"
  shows "(if cv_is_full v then cv_push v x = (Ok (v, False) :: (unit, _) outcome)
          else \<exists>v'. cv_push v x = (Ok (v', True) :: (unit, _) outcome) \<and> cv_wf v' \<and> cv_list v' = cv_list v @ [x])
    \<and> (if cv_is_empty v then cv_pop v = (Ok (v, None) :: (unit, _) outcome)
       else \<exists>v'. cv_pop v = (Ok (v', Some (last (cv_list v))) :: (unit, _) outcome) \<and> cv_wf v' \<and> cv_list v' = butlast (cv_list v))
    \<and> (\<exists>v'. cv_fill v x = (Ok v' :: (unit, _) outcome) \<and> cv_wf v'
         \<and> cv_list v' = cv_list v @ replicate (cv_capacity v - length (cv_list v)) x)
    \<and> (\<exists>v'. cv_clear v = (Ok v' :: (unit, _) outcome) \<and> cv_wf v' \<and> cv_list v' = [])
    \<and> cv_get v i = (Ok (if i < length (cv_list v) then Some (cv_list v ! i) else None) :: (unit, _) outcome)
    \<and> (if i < length (cv_list v)
       then \<exists>v'. cv_get_mut v i f = (Ok (Some v') :: (unit, _) outcome) \<and> cv_wf v' \<and> cv_list v' = (cv_list v)[i := f (cv_list v ! i)]
       else cv_get_mut v i f = (Ok None :: (unit, _) outcome))"
proof -
  obtain xs n where v: "v = cv_of n xs" and l: "length xs \<le> n" "n < usize_lim" using assms by (rule cv_wf_cases)
  have 1: "if cv_is_full v then cv_push v x = (Ok (v, False) :: (unit, _) outcome)
          else \<exists>v'. cv_push v x = (Ok (v', True) :: (unit, _) outcome) \<and> cv_wf v' \<and> cv_list v' = cv_list v @ [x]"
    using l by (auto simp: v cv_is_full_def cv_push_def cv_verify_init_def cv_push_unchecked_of cv_wf_of)
  have 2: "if cv_is_empty v then cv_pop v = (Ok (v, None) :: (unit, _) outcome)
       else \<exists>v'. cv_pop v = (Ok (v', Some (last (cv_list v))) :: (unit, _) outcome) \<and> cv_wf v' \<and> cv_list v' = butlast (cv_list v)"
    using l by (cases xs rule: rev_cases)
      (auto simp: v cv_is_empty_def cv_pop_def cv_verify_init_def cv_pop_unchecked_of cv_wf_of)
  have 3: "\<exists>v'. cv_fill v x = (Ok v' :: (unit, _) outcome) \<and> cv_wf v'
         \<and> cv_list v' = cv_list v @ replicate (cv_capacity v - length (cv_list v)) x"
    using l by (auto simp: v cv_fill_def cv_fill_loop_of intro: cv_wf_of)
  have 4: "\<exists>v'. cv_clear v = (Ok v' :: (unit, _) outcome) \<and> cv_wf v' \<and> cv_list v' = []"
    using l by (auto simp: v cv_clear_def cv_clear_loop_of intro: cv_wf_of)
  have 5: "cv_get v i = (Ok (if i < length (cv_list v) then Some (cv_list v ! i) else None) :: (unit, _) outcome)"
    by (auto simp: v cv_get_def cv_verify_init_def cv_get_of)
  have 6: "if i < length (cv_list v)
       then \<exists>v'. cv_get_mut v i f = (Ok (Some v') :: (unit, _) outcome) \<and> cv_wf v' \<and> cv_list v' = (cv_list v)[i := f (cv_list v ! i)]
       else cv_get_mut v i f = (Ok None :: (unit, _) outcome)"
    using l by (auto simp: v cv_get_mut_def cv_verify_init_def cv_update_of cv_wf_of)
  show ?thesis using 1 2 3 4 5 6 by blast
qed

lemma cv_new_of: "cv_new n = cv_of n []"
  by (simp add: cv_new_def cv_of_def)

theorem container_vec_refines_list_witness:
  "\<exists>v'. cv_fill (cv_new 3) (7 :: nat) = (Ok v' :: (unit, _) outcome) \<and> cv_wf v' \<and> cv_list v' = [7, 7, 7]"
proof -
  have "cv_wf (cv_new 3 :: nat container_vec)" by (simp add: cv_new_of cv_wf_of usize_lim_def)
  then show ?thesis using container_vec_refines_list [of "cv_new 3 :: nat container_vec" 7 0 id]
    by (simp add: cv_new_of numeral_3_eq_3)
qed

end
