(* ===== verification/LockFreeContainer.thy ===== *)
theory LockFreeContainer
  imports UniqueIndexSet
begin

text \<open>
  \<^verbatim>\<open>elkodon_bb/lock_free/src/mpmc/container.rs\<close>: the lock-free container, in which services keep their
  publishers, subscribers and listeners. An element lives in the cell of an index of the unique index set and is
  visible when its \<^verbatim>\<open>active\<close> flag is set. A reader keeps a copy (\<open>container_state\<close>) and refreshes it
  when the head of the index set has changed.

  \<open>mc_add\<close> is composed of its three accesses (acquire an index, write the value, set the flag), so that a
  reader can be placed between them; the refresh is a step function with one shared access per step.
\<close>

section \<open>State and construction\<close>

record 'a mpmc_container =
  mc_active :: "bool option list"
  mc_data :: "'a option list"
  mc_capacity :: usize
  mc_init :: bool
  mc_index_set :: unique_index_set

record 'a container_state =
  cs_head :: u64
  cs_data :: "(u32 \<times> 'a) option list"
  cs_active :: "bool list"

definition mc_new_uninit :: "usize \<Rightarrow> 'a mpmc_container" where
  "mc_new_uninit capacity =
     \<lparr>mc_active = [], mc_data = [], mc_capacity = capacity, mc_init = False, mc_index_set = uis_new_uninit capacity\<rparr>"

definition mc_initialize ::
  "usize \<Rightarrow> usize \<Rightarrow> ('s \<Rightarrow> layout \<Rightarrow> (allocation_error, 's \<times> chunk) outcome) \<Rightarrow> 's \<Rightarrow> 'a mpmc_container
     \<Rightarrow> (allocation_error, 's \<times> 'a mpmc_container) outcome" where
  "mc_initialize size_of_t align_of_t allocate a c =
     (if mc_init c then Panic
      else obind (uis_init_in allocate a (mc_index_set c)) (\<lambda>(a1, s).
        obind (umul 1 (mc_capacity c)) (\<lambda>na. obind (allocate a1 \<lparr>lsize = na, lalign = 1\<rparr>) (\<lambda>(a2, _).
        obind (umul size_of_t (mc_capacity c)) (\<lambda>nd. obind (allocate a2 \<lparr>lsize = nd, lalign = align_of_t\<rparr>) (\<lambda>(a3, _).
          Ok (a3, c\<lparr>mc_index_set := s, mc_active := replicate (mc_capacity c) (Some False),
               mc_data := replicate (mc_capacity c) None, mc_init := True\<rparr>)))))))"

definition mc_const_memory_size :: "usize \<Rightarrow> usize \<Rightarrow> usize \<Rightarrow> ('e, usize) outcome" where
  "mc_const_memory_size size_of_t align_of_t capacity =
     obind (uadd capacity 1) (\<lambda>c1. obind (umul 4 c1) (\<lambda>a. obind (uadd 1 size_of_t) (\<lambda>e. obind (umul e capacity) (\<lambda>b.
       obind (uadd a b) (\<lambda>ab. obind (uadd ab 4) (\<lambda>d. obind (usub d 1) (\<lambda>f. obind (uadd f align_of_t) (\<lambda>g. usub g 1))))))))"

definition fixed_mc_default :: "usize \<Rightarrow> 'a mpmc_container" where
  "fixed_mc_default CAPACITY =
     \<lparr>mc_active = replicate CAPACITY (Some False), mc_data = replicate CAPACITY None, mc_capacity = CAPACITY, mc_init = True,
      mc_index_set = uis_new CAPACITY (map (\<lambda>i. Some (word_of_nat i + 1)) [0 ..< CAPACITY] @ [Some (word_of_nat CAPACITY + 1)])\<rparr>"

section \<open>Adding and removing\<close>

definition mc_verify_init :: "'a mpmc_container \<Rightarrow> ('e, unit) outcome" where
  "mc_verify_init c = (if mc_init c then Ok () else Panic)"

text \<open>The cleanup callback of an added element clears its flag.\<close>

definition mc_cleanup :: "u32 \<Rightarrow> bool option list \<Rightarrow> bool option list" where
  "mc_cleanup index active = active[unat index := Some False]"

definition mc_acquire :: "'a mpmc_container \<Rightarrow> ('e, 'a mpmc_container \<times> bool option list unique_index option) outcome" where
  "mc_acquire c =
     omap (\<lambda>(s, r). (c\<lparr>mc_index_set := s\<rparr>, r)) (acquire_with_additional_cleanup mc_cleanup (mc_index_set c))"

definition mc_write_value :: "'a mpmc_container \<Rightarrow> u32 \<Rightarrow> 'a \<Rightarrow> ('e, 'a mpmc_container) outcome" where
  "mc_write_value c index value = omap (\<lambda>d. c\<lparr>mc_data := d\<rparr>) (raw_write (mc_data c) (unat index) (Some value))"

definition mc_activate :: "'a mpmc_container \<Rightarrow> u32 \<Rightarrow> ('e, 'a mpmc_container) outcome" where
  "mc_activate c index = omap (\<lambda>a. c\<lparr>mc_active := a\<rparr>) (raw_write (mc_active c) (unat index) (Some True))"

definition mc_add :: "'a mpmc_container \<Rightarrow> 'a \<Rightarrow> ('e, 'a mpmc_container \<times> bool option list unique_index option) outcome" where
  "mc_add c value =
     obind (mc_verify_init c) (\<lambda>_. obind (mc_acquire c) (\<lambda>(c1, r).
       case r of
         None \<Rightarrow> Ok (c1, None)
       | Some index \<Rightarrow> obind (mc_write_value c1 (ui_value index) value) (\<lambda>c2.
           obind (mc_activate c2 (ui_value index)) (\<lambda>c3. Ok (c3, Some index)))))"

text \<open>The element is removed when its index goes out of scope.\<close>

definition mc_index_drop :: "'a mpmc_container \<Rightarrow> bool option list unique_index \<Rightarrow> ('e, 'a mpmc_container) outcome" where
  "mc_index_drop c index =
     omap (\<lambda>(a, s). c\<lparr>mc_active := a, mc_index_set := s\<rparr>) (unique_index_drop index (mc_active c) (mc_index_set c))"

definition remove_raw_index :: "'a mpmc_container \<Rightarrow> u32 \<Rightarrow> ('e, 'a mpmc_container) outcome" where
  "remove_raw_index c index =
     obind (mc_verify_init c) (\<lambda>_. obind (raw_write (mc_active c) (unat index) (Some False)) (\<lambda>a.
       omap (\<lambda>s. c\<lparr>mc_active := a, mc_index_set := s\<rparr>) (release_raw_index (mc_index_set c) index)))"

section \<open>Reading\<close>

text \<open>\<open>UHead\<close>: before the first load of the head. \<open>UEntry i h\<close>: before the load of flag \<open>i\<close>, with the last head
  \<open>h\<close>. \<open>UCopy\<close>: the flag was set, the value is copied. \<open>UCheck\<close>: the head is loaded again, and entry \<open>i\<close> is repeated
  when it has changed.\<close>

datatype update_pc = UHead | UEntry nat u64 | UCopy nat u64 | UCheck nat u64 | UDone bool | UUB

fun update_step :: "'a mpmc_container \<Rightarrow> 'a container_state \<Rightarrow> update_pc \<Rightarrow> 'a container_state \<times> update_pc" where
  "update_step c st UHead =
     (if cs_head st = u_head (mc_index_set c) then (st, UDone False)
      else (st\<lparr>cs_head := u_head (mc_index_set c)\<rparr>, UEntry 0 (u_head (mc_index_set c))))"
| "update_step c st (UEntry i h) =
     (if mc_capacity c \<le> i then (st, UDone True)
      else if i < length (mc_active c) \<and> i < length (cs_active st)
      then (case mc_active c ! i of
              Some a \<Rightarrow> (st\<lparr>cs_active := (cs_active st)[i := a]\<rparr>, if a then UCopy i h else UCheck i h)
            | None \<Rightarrow> (st, UUB))
      else (st, UUB))"
| "update_step c st (UCopy i h) =
     (if i < length (mc_data c) \<and> i < length (cs_data st)
      then (case mc_data c ! i of
              Some v \<Rightarrow> (st\<lparr>cs_data := (cs_data st)[i := Some (word_of_nat i, v)]\<rparr>, UCheck i h)
            | None \<Rightarrow> (st, UUB))
      else (st, UUB))"
| "update_step c st (UCheck i h) =
     (st, if u_head (mc_index_set c) = h then UEntry (i + 1) h else UEntry i (u_head (mc_index_set c)))"
| "update_step c st (UDone b) = (st, UDone b)"
| "update_step c st UUB = (st, UUB)"

primrec update_run :: "nat \<Rightarrow> 'a mpmc_container \<Rightarrow> 'a container_state \<Rightarrow> update_pc \<Rightarrow> 'a container_state \<times> update_pc" where
  "update_run 0 c st pc = (st, pc)"
| "update_run (Suc n) c st pc = (case update_step c st pc of (st', pc') \<Rightarrow> update_run n c st' pc')"

fun update_outcome :: "'a container_state \<times> update_pc \<Rightarrow> ('e, 'a container_state \<times> bool) outcome" where
  "update_outcome (st, UDone b) = Ok (st, b)"
| "update_outcome (st, _) = UB"

text \<open>Alone, a refresh takes at most three accesses per entry, one for the head and one for leaving the loop.\<close>

definition update_state :: "'a mpmc_container \<Rightarrow> 'a container_state \<Rightarrow> ('e, 'a container_state \<times> bool) outcome" where
  "update_state c st = update_outcome (update_run (2 + 3 * mc_capacity c) c st UHead)"

definition get_state :: "'a mpmc_container \<Rightarrow> ('e, 'a container_state) outcome" where
  "get_state c =
     obind (mc_verify_init c) (\<lambda>_.
       omap fst (update_state c \<lparr>cs_head = 0, cs_data = replicate (mc_capacity c) None, cs_active = replicate (mc_capacity c) False\<rparr>))"

text \<open>\<^verbatim>\<open>for_each\<close> collects the pairs it hands to the callback.\<close>

definition cs_for_each :: "'a container_state \<Rightarrow> ('e, (u32 \<times> 'a) list) outcome" where
  "cs_for_each st =
     foldr (\<lambda>i rest.
        if length (cs_active st) \<le> i then Panic
        else if cs_active st ! i then obind (raw_read (cs_data st) i) (\<lambda>e. omap ((#) e) rest) else rest)
       [0 ..< length (cs_data st)] (Ok [])"

section \<open>Invariant and content\<close>

definition mc_entry :: "'a mpmc_container \<Rightarrow> nat \<Rightarrow> 'a option" where
  "mc_entry c i = (if mc_active c ! i = Some True then mc_data c ! i else None)"

definition mc_map :: "'a mpmc_container \<Rightarrow> u32 \<Rightarrow> 'a option" where
  "mc_map c i = (if unat i < mc_capacity c then mc_entry c (unat i) else None)"

definition mc_wf :: "'a mpmc_container \<Rightarrow> bool" where
  "mc_wf c \<longleftrightarrow> mc_init c \<and> uis_wf (mc_index_set c) \<and> u_capacity (mc_index_set c) = word_of_nat (mc_capacity c)
     \<and> mc_capacity c + 1 < 2 ^ 32 \<and> length (mc_active c) = mc_capacity c \<and> length (mc_data c) = mc_capacity c
     \<and> None \<notin> set (mc_active c)
     \<and> (\<forall>i. unat i < mc_capacity c \<longrightarrow>
          (mc_active c ! unat i = Some True \<longleftrightarrow> i \<notin> set (uis_free (mc_index_set c)))
          \<and> (mc_active c ! unat i = Some True \<longrightarrow> mc_data c ! unat i \<noteq> None))"

definition cs_wf :: "'a mpmc_container \<Rightarrow> 'a container_state \<Rightarrow> bool" where
  "cs_wf c st \<longleftrightarrow> length (cs_data st) = mc_capacity c \<and> length (cs_active st) = mc_capacity c"

definition cs_entry :: "'a container_state \<Rightarrow> nat \<Rightarrow> (u32 \<times> 'a) option" where
  "cs_entry st i = (if cs_active st ! i then cs_data st ! i else None)"

text \<open>Entry \<open>i\<close> of the copy is entry \<open>i\<close> of the container.\<close>

definition cs_synced :: "'a mpmc_container \<Rightarrow> 'a container_state \<Rightarrow> nat \<Rightarrow> bool" where
  "cs_synced c st n \<longleftrightarrow> (\<forall>i < n. cs_active st ! i = (mc_active c ! i = Some True)
     \<and> (cs_active st ! i \<longrightarrow> cs_data st ! i = Some (word_of_nat i, the (mc_entry c i))))"


lemma mc_index_less_iff:
  assumes "mc_wf c"
  shows "i < u_capacity (mc_index_set c) \<longleftrightarrow> unat i < mc_capacity c"
  using assms unat_word_of_nat_u32 [of "mc_capacity c"] by (simp add: mc_wf_def word_less_nat_alt)

lemma mc_entry_data:
  assumes "mc_wf c" and "i < mc_capacity c" and "mc_active c ! i = Some True"
  shows "mc_data c ! i \<noteq> None"
proof -
  have "unat (word_of_nat i :: u32) = i" using assms(1,2) by (intro unat_word_of_nat_u32) (simp add: mc_wf_def)
  then show ?thesis using assms unfolding mc_wf_def by metis
qed

lemma mc_active_defined: "mc_wf c \<Longrightarrow> i < mc_capacity c \<Longrightarrow> \<exists>a. mc_active c ! i = Some a"
  unfolding mc_wf_def by (metis nth_mem option.exhaust)

section \<open>Adding and removing is an update of the content\<close>

lemma mc_update_nth:
  assumes "mc_wf c" and "unat i < mc_capacity c" and "unat j < mc_capacity c"
  shows "(mc_active c)[unat i := Some a] ! unat j = (if i = j then Some a else mc_active c ! unat j)"
    and "(mc_data c)[unat i := v] ! unat j = (if i = j then v else mc_data c ! unat j)"
  using assms unsigned_word_eqI [of i j] by (auto simp: mc_wf_def nth_list_update)

lemma mc_wf_free_inactive: "mc_wf c \<Longrightarrow> i \<in> set (uis_free (mc_index_set c)) \<Longrightarrow> unat i < mc_capacity c \<and> mc_map c i = None"
  using uis.free_universe [of "mc_index_set c"] mc_index_less_iff [of c i] by (auto simp: mc_wf_def mc_map_def mc_entry_def)

lemma mc_wf_dom: "mc_wf c \<Longrightarrow> i \<in> dom (mc_map c) \<longleftrightarrow> unat i < mc_capacity c \<and> i \<notin> set (uis_free (mc_index_set c))"
  by (auto simp: mc_wf_def mc_map_def mc_entry_def split: if_splits)

lemma mc_add_none:
  assumes "mc_wf c" and "uis_free (mc_index_set c) = []"
  shows "mc_add c v = Ok (c, None)"
  using assms uis_wfD(1) [of "mc_index_set c"]
  by (simp add: mc_wf_def mc_add_def mc_verify_init_def mc_acquire_def acquire_with_additional_cleanup_def
      acquire_raw_index_empty uis_mem_def)

lemma mc_add_some:
  assumes "mc_wf c" and "uis_free (mc_index_set c) = i # is" and "0 < uis_budget (mc_index_set c)"
  shows "\<exists>c'. mc_add c v = (Ok (c', Some \<lparr>ui_value = i, ui_cleanup = Some mc_cleanup\<rparr>) :: ('e, _) outcome)
    \<and> mc_wf c' \<and> mc_map c' = (mc_map c)(i \<mapsto> v) \<and> uis_free (mc_index_set c') = is
    \<and> uis_budget (mc_index_set c') = uis_budget (mc_index_set c) - 1"
proof -
  have w: "uis_wf (mc_index_set c)" and cap: "length (mc_active c) = mc_capacity c" "length (mc_data c) = mc_capacity c"
    using assms(1) by (auto simp: mc_wf_def)
  obtain s where s: "acquire_raw_index (mc_index_set c) = (Ok (s, Some i) :: ('e, _) outcome)" "uis_wf s" "uis_free s = is"
    "u_capacity s = u_capacity (mc_index_set c)" "uis_budget s = uis_budget (mc_index_set c) - 1"
    using acquire_raw_index_Cons [OF w assms(2,3)] by blast
  have i: "unat i < mc_capacity c" using mc_wf_free_inactive [OF assms(1), of i] assms(2) by simp
  have ni: "i \<notin> set is" using uis_wfD(3) [OF w] assms(2) by simp
  let ?c = "c\<lparr>mc_index_set := s, mc_data := (mc_data c)[unat i := Some v], mc_active := (mc_active c)[unat i := Some True]\<rparr>"
  have "mc_add c v = (Ok (?c, Some \<lparr>ui_value = i, ui_cleanup = Some mc_cleanup\<rparr>) :: ('e, _) outcome)"
    using assms(1) s(1) i cap uis_wfD(1) [OF w]
    by (simp add: mc_add_def mc_verify_init_def mc_acquire_def acquire_with_additional_cleanup_def mc_wf_def
        mc_write_value_def mc_activate_def uis_mem_def)
  moreover have "mc_wf ?c"
    using assms(1,2) s i ni mc_update_nth [OF assms(1) i] None_notin_update [of "mc_active c"]
    unfolding mc_wf_def by auto
  moreover have "mc_map ?c = (mc_map c)(i \<mapsto> v)"
    using i mc_update_nth [OF assms(1) i] by (auto simp: mc_map_def mc_entry_def)
  ultimately show ?thesis using s(3,5) by auto
qed

lemma mc_release:
  assumes "mc_wf c" and "i \<in> dom (mc_map c)" and "0 < uis_budget (mc_index_set c)"
  shows "\<exists>c'. remove_raw_index c i = (Ok c' :: ('e, _) outcome) \<and> mc_wf c' \<and> mc_map c' = (mc_map c)(i := None)
    \<and> uis_budget (mc_index_set c') = uis_budget (mc_index_set c) - 1 \<and> uis_free (mc_index_set c') = i # uis_free (mc_index_set c)
    \<and> mc_index_drop c \<lparr>ui_value = i, ui_cleanup = Some mc_cleanup\<rparr> = (Ok c' :: ('e, _) outcome)"
proof -
  have w: "uis_wf (mc_index_set c)" and cap: "length (mc_active c) = mc_capacity c"
    using assms(1) by (auto simp: mc_wf_def)
  have i: "unat i < mc_capacity c" "i \<notin> set (uis_free (mc_index_set c))" using mc_wf_dom [OF assms(1)] assms(2) by auto
  then have iu: "i < u_capacity (mc_index_set c)" using mc_index_less_iff [OF assms(1)] by simp
  obtain s where s: "release_raw_index (mc_index_set c) i = (Ok s :: ('e, _) outcome)" "uis_wf s"
    "uis_free s = i # uis_free (mc_index_set c)" "u_capacity s = u_capacity (mc_index_set c)"
    "uis_budget s = uis_budget (mc_index_set c) - 1"
    using release_raw_index_Ok [OF w iu i(2) assms(3)] by blast
  let ?c = "c\<lparr>mc_active := (mc_active c)[unat i := Some False], mc_index_set := s\<rparr>"
  have "remove_raw_index c i = (Ok ?c :: ('e, _) outcome)"
    using assms(1) s(1) i cap by (simp add: remove_raw_index_def mc_verify_init_def mc_wf_def)
  moreover have "mc_index_drop c \<lparr>ui_value = i, ui_cleanup = Some mc_cleanup\<rparr> = (Ok ?c :: ('e, _) outcome)"
    using s(1) by (simp add: mc_index_drop_def unique_index_drop_def mc_cleanup_def)
  moreover have "mc_wf ?c"
    using assms(1) s i mc_update_nth [OF assms(1) i(1)] None_notin_update [of "mc_active c"]
    unfolding mc_wf_def by auto
  moreover have "mc_map ?c = (mc_map c)(i := None)"
    using i mc_update_nth [OF assms(1) i(1)] by (auto simp: mc_map_def mc_entry_def)
  ultimately show ?thesis using s(3,5) by auto
qed

section \<open>A refresh copies the content\<close>

lemma update_run_add: "update_run (m + n) c st pc = (case update_run m c st pc of (st', pc') \<Rightarrow> update_run n c st' pc')"
  by (induction m arbitrary: st pc) (auto split: prod.splits)

lemma update_run_done [simp]: "update_run n c st (UDone b) = (st, UDone b)"
  by (induction n) auto

definition mem_ok :: "'a mpmc_container \<Rightarrow> bool" where
  "mem_ok c \<longleftrightarrow> length (mc_active c) = mc_capacity c \<and> length (mc_data c) = mc_capacity c \<and> None \<notin> set (mc_active c)
     \<and> (\<forall>i < mc_capacity c. mc_active c ! i = Some True \<longrightarrow> mc_data c ! i \<noteq> None)"

lemma mc_wf_mem_ok: "mc_wf c \<Longrightarrow> mem_ok c"
  using mc_entry_data [of c] by (auto simp: mem_ok_def mc_wf_def)

lemma update_run_entry:
  assumes "mem_ok c" and "cs_wf c st" and "cs_synced c st i" and "i < mc_capacity c" and "h = u_head (mc_index_set c)"
  shows "\<exists>k st'. k \<le> 3 \<and> update_run k c st (UEntry i h) = (st', UEntry (Suc i) h) \<and> cs_wf c st' \<and> cs_synced c st' (Suc i)
    \<and> cs_head st' = cs_head st"
proof -
  have "mc_active c ! i \<noteq> None" using assms(1,4) unfolding mem_ok_def by (metis nth_mem)
  then obtain a where a: "mc_active c ! i = Some a" by blast
  have l: "i < length (mc_active c)" "i < length (mc_data c)" "i < length (cs_active st)" "i < length (cs_data st)"
    using assms by (auto simp: mem_ok_def cs_wf_def)
  show ?thesis
  proof (cases a)
    case True
    then obtain v where v: "mc_data c ! i = Some v" using assms(1,4) a by (auto simp: mem_ok_def)
    let ?st = "st\<lparr>cs_active := (cs_active st)[i := True], cs_data := (cs_data st)[i := Some (word_of_nat i, v)]\<rparr>"
    have "update_run 3 c st (UEntry i h) = (?st, UEntry (Suc i) h)"
      using assms(4,5) True a v l by (simp add: numeral_3_eq_3)
    moreover have "cs_synced c ?st (Suc i)"
      using assms(3) l a v True by (auto simp: cs_synced_def less_Suc_eq nth_list_update mc_entry_def)
    ultimately show ?thesis using assms(2) by (intro exI [of _ 3] exI [of _ ?st]) (simp add: cs_wf_def)
  next
    case False
    let ?st = "st\<lparr>cs_active := (cs_active st)[i := False]\<rparr>"
    have "update_run 2 c st (UEntry i h) = (?st, UEntry (Suc i) h)"
      using assms(4,5) False a l by (simp add: numeral_2_eq_2)
    moreover have "cs_synced c ?st (Suc i)"
      using assms(3) l a False by (auto simp: cs_synced_def less_Suc_eq nth_list_update)
    ultimately show ?thesis using assms(2) by (intro exI [of _ 2] exI [of _ ?st]) (simp add: cs_wf_def)
  qed
qed

lemma update_run_loop:
  assumes "mem_ok c" and "h = u_head (mc_index_set c)"
  shows "cs_wf c st \<Longrightarrow> cs_synced c st i \<Longrightarrow> i + m = mc_capacity c \<Longrightarrow>
    \<exists>st'. update_run (1 + 3 * m) c st (UEntry i h) = (st', UDone True) \<and> cs_wf c st' \<and> cs_synced c st' (mc_capacity c)
      \<and> cs_head st' = cs_head st"
proof (induction m arbitrary: i st)
  case 0
  then show ?case by simp
next
  case (Suc m)
  obtain k st1 where k: "k \<le> 3" "update_run k c st (UEntry i h) = (st1, UEntry (Suc i) h)" "cs_wf c st1" "cs_synced c st1 (Suc i)"
    "cs_head st1 = cs_head st"
    using update_run_entry [OF assms(1) Suc.prems(1,2) _ assms(2)] Suc.prems(3) by auto
  obtain st2 where 2: "update_run (1 + 3 * m) c st1 (UEntry (Suc i) h) = (st2, UDone True)" "cs_wf c st2" "cs_synced c st2 (mc_capacity c)"
    "cs_head st2 = cs_head st1"
    using Suc.IH [OF k(3,4)] Suc.prems(3) by auto
  have "1 + 3 * Suc m = k + ((1 + 3 * m) + (3 - k))" using k(1) by simp
  then have "update_run (1 + 3 * Suc m) c st (UEntry i h) = (st2, UDone True)"
    using 2(1) k(2) update_run_add [of k "(1 + 3 * m) + (3 - k)" c st] update_run_add [of "1 + 3 * m" "3 - k" c st1] by simp
  then show ?case using 2 k(5) by auto
qed

lemma update_state_changed:
  assumes "mem_ok c" and "cs_wf c st" and "cs_head st \<noteq> u_head (mc_index_set c)"
  shows "\<exists>st'. update_state c st = (Ok (st', True) :: ('e, _) outcome) \<and> cs_wf c st' \<and> cs_synced c st' (mc_capacity c)
    \<and> cs_head st' = u_head (mc_index_set c)"
proof -
  let ?h = "u_head (mc_index_set c)"
  obtain st' where "update_run (1 + 3 * mc_capacity c) c (st\<lparr>cs_head := ?h\<rparr>) (UEntry 0 ?h) = (st', UDone True)"
    "cs_wf c st'" "cs_synced c st' (mc_capacity c)" "cs_head st' = ?h"
    using update_run_loop [OF assms(1) refl, of "st\<lparr>cs_head := ?h\<rparr>" 0 "mc_capacity c"] assms(2)
    by (auto simp: cs_wf_def cs_synced_def)
  then show ?thesis using assms(3) update_run_add [of 1 "1 + 3 * mc_capacity c" c st UHead] by (simp add: update_state_def)
qed

lemma update_state_unchanged:
  "cs_head st = u_head (mc_index_set c) \<Longrightarrow> update_state c st = Ok (st, False)"
  by (simp add: update_state_def)

definition mc_entries :: "'a mpmc_container \<Rightarrow> (u32 \<times> 'a) list" where
  "mc_entries c = map (\<lambda>i. (word_of_nat i, the (mc_entry c i))) (filter (\<lambda>i. mc_active c ! i = Some True) [0 ..< mc_capacity c])"

lemma cs_for_each_list:
  assumes "cs_wf c st" and "cs_synced c st (mc_capacity c)" and "set xs \<subseteq> {..< mc_capacity c}"
  shows "foldr (\<lambda>i rest. if length (cs_active st) \<le> i then Panic
        else if cs_active st ! i then obind (raw_read (cs_data st) i) (\<lambda>e. omap ((#) e) rest) else rest) xs (Ok [])
      = (Ok (map (\<lambda>i. (word_of_nat i, the (mc_entry c i))) (filter (\<lambda>i. mc_active c ! i = Some True) xs)) :: ('e, _) outcome)"
  using assms(3)
proof (induction xs)
  case (Cons i xs)
  then have i: "i < mc_capacity c" by simp
  then have "cs_active st ! i \<longleftrightarrow> mc_active c ! i = Some True"
    "cs_active st ! i \<longrightarrow> cs_data st ! i = Some (word_of_nat i, the (mc_entry c i))" "i < length (cs_data st)" "i < length (cs_active st)"
    using assms(1,2) by (auto simp: cs_synced_def cs_wf_def)
  then show ?case using Cons by simp
qed simp

lemma cs_for_each_synced:
  assumes "cs_wf c st" and "cs_synced c st (mc_capacity c)"
  shows "cs_for_each st = Ok (mc_entries c)"
  unfolding cs_for_each_def mc_entries_def
  using assms(1) by (subst cs_for_each_list [OF assms]) (auto simp: cs_wf_def)

lemma fixed_mc_default_wf:
  assumes "n + 1 < 2 ^ 32"
  shows "mc_wf (fixed_mc_default n :: 'a mpmc_container)" and "uis_free (mc_index_set (fixed_mc_default n :: 'a mpmc_container)) = map word_of_nat [0 ..< n]"
    and "uis_budget (mc_index_set (fixed_mc_default n :: 'a mpmc_container)) = 2 ^ 32 - 1"
    and "mc_map (fixed_mc_default n :: 'a mpmc_container) = Map.empty"
proof -
  have s: "mc_index_set (fixed_mc_default n :: 'a mpmc_container) = fixed_uis_default n"
    by (simp add: fixed_mc_default_def fixed_uis_default_def)
  note f = fixed_uis_default_initial [OF assms]
  show "uis_free (mc_index_set (fixed_mc_default n :: 'a mpmc_container)) = map word_of_nat [0 ..< n]"
    "uis_budget (mc_index_set (fixed_mc_default n :: 'a mpmc_container)) = 2 ^ 32 - 1" using s f by simp_all
  have "i \<in> word_of_nat ` {0 ..< n}" if "unat i < n" for i :: u32
    using that by (intro image_eqI [of _ _ "unat i"]) simp_all
  then show "mc_wf (fixed_mc_default n :: 'a mpmc_container)"
    using f s assms by (auto simp: mc_wf_def) (auto simp: fixed_mc_default_def fixed_uis_default_def uis_new_def)
  show "mc_map (fixed_mc_default n :: 'a mpmc_container) = Map.empty"
    by (auto simp: mc_map_def mc_entry_def fixed_mc_default_def)
qed

section \<open>Correctness\<close>

text \<open>C13: the lock-free container is a finite map from indices to elements: \<^verbatim>\<open>add\<close> returns \<^verbatim>\<open>None\<close> exactly when
  every index is taken and otherwise stores the element under an index that was not in use; dropping the returned
  index, or removing it by its raw value, removes exactly this element.\<close>

theorem container_is_a_map:
  fixes c :: "'a mpmc_container"
  assumes "mc_wf c" and "1 < uis_budget (mc_index_set c)"
  shows "(if dom (mc_map c) = {i. unat i < mc_capacity c} then mc_add c v = (Ok (c, None) :: (unit, _) outcome)
          else \<exists>c' x. mc_add c v = (Ok (c', Some x) :: (unit, _) outcome) \<and> ui_value x \<notin> dom (mc_map c)
                 \<and> mc_wf c' \<and> mc_map c' = (mc_map c)(ui_value x \<mapsto> v)
                 \<and> (\<exists>c''. mc_index_drop c' x = (Ok c'' :: (unit, _) outcome) \<and> mc_wf c'' \<and> mc_map c'' = mc_map c))
    \<and> (\<forall>i \<in> dom (mc_map c). \<exists>c'. remove_raw_index c i = (Ok c' :: (unit, _) outcome) \<and> mc_wf c'
         \<and> mc_map c' = (mc_map c)(i := None))"
proof (intro conjI)
  have full: "dom (mc_map c) = {i. unat i < mc_capacity c} \<longleftrightarrow> uis_free (mc_index_set c) = []"
  proof -
    have "dom (mc_map c) = {i. unat i < mc_capacity c} - set (uis_free (mc_index_set c))"
      using mc_wf_dom [OF assms(1)] by blast
    moreover have "set (uis_free (mc_index_set c)) \<subseteq> {i. unat i < mc_capacity c}"
      using mc_wf_free_inactive [OF assms(1)] by blast
    ultimately show ?thesis by (metis Diff_empty Diff_disjoint inf.absorb2 inf_commute set_empty)
  qed
  show "if dom (mc_map c) = {i. unat i < mc_capacity c} then mc_add c v = (Ok (c, None) :: (unit, _) outcome)
          else \<exists>c' x. mc_add c v = (Ok (c', Some x) :: (unit, _) outcome) \<and> ui_value x \<notin> dom (mc_map c)
                 \<and> mc_wf c' \<and> mc_map c' = (mc_map c)(ui_value x \<mapsto> v)
                 \<and> (\<exists>c''. mc_index_drop c' x = (Ok c'' :: (unit, _) outcome) \<and> mc_wf c'' \<and> mc_map c'' = mc_map c)"
  proof (cases "uis_free (mc_index_set c)")
    case Nil
    then show ?thesis using full mc_add_none [OF assms(1)] by simp
  next
    case (Cons i "is")
    let ?x = "\<lparr>ui_value = i, ui_cleanup = Some mc_cleanup\<rparr>"
    obtain c' where c': "mc_add c v = (Ok (c', Some ?x) :: (unit, _) outcome)" "mc_wf c'" "mc_map c' = (mc_map c)(i \<mapsto> v)"
      "uis_budget (mc_index_set c') = uis_budget (mc_index_set c) - 1"
      using mc_add_some [OF assms(1) Cons] assms(2) by auto
    have i: "mc_map c i = None" using mc_wf_free_inactive [OF assms(1), of i] Cons by simp
    obtain c'' where "mc_index_drop c' ?x = (Ok c'' :: (unit, _) outcome)" "mc_wf c''" "mc_map c'' = (mc_map c')(i := None)"
      using mc_release [OF c'(2), of i] c'(3,4) assms(2) by auto
    moreover have "(mc_map c')(i := None) = mc_map c" using c'(3) i by (simp add: fun_upd_idem)
    ultimately show ?thesis using c' i full Cons by (auto simp del: fun_upd_apply)
  qed
  show "\<forall>i \<in> dom (mc_map c). \<exists>c'. remove_raw_index c i = (Ok c' :: (unit, _) outcome) \<and> mc_wf c'
         \<and> mc_map c' = (mc_map c)(i := None)"
    using mc_release [OF assms(1)] assms(2) by (metis One_nat_def less_trans zero_less_one)
qed

theorem container_is_a_map_witness:
  "\<exists>c' x. mc_add (fixed_mc_default 2) True = (Ok (c', Some x) :: (unit, _) outcome) \<and> mc_map c' = [ui_value x \<mapsto> True]"
proof -
  let ?c = "fixed_mc_default 2 :: bool mpmc_container"
  have w: "mc_wf ?c" "1 < uis_budget (mc_index_set ?c)" "mc_map ?c = Map.empty" using fixed_mc_default_wf [of 2, where ?'a = bool] by simp_all
  have "dom (mc_map ?c) \<noteq> {i. unat i < mc_capacity ?c}"
    using w(3) by (auto simp: fixed_mc_default_def intro!: exI [of _ 0])
  then show ?thesis using container_is_a_map [OF w(1,2), of True] unfolding w(3) by (auto split: if_splits)
qed

text \<open>A refresh of a reader that nothing interrupts makes its copy equal to the container: iterating the
  copy yields exactly the stored elements with their indices, in the order of the indices; it returns true exactly when the
  head of the index set has changed since the last refresh.\<close>

theorem update_copies_content:
  fixes c :: "'a mpmc_container"
  assumes "mc_wf c" and "cs_wf c st" and "cs_head st = u_head (mc_index_set c) \<longrightarrow> cs_synced c st (mc_capacity c)"
  shows "\<exists>st'. update_state c st = (Ok (st', cs_head st \<noteq> u_head (mc_index_set c)) :: (unit, _) outcome)
    \<and> cs_for_each st' = (Ok (mc_entries c) :: (unit, _) outcome) \<and> cs_wf c st' \<and> cs_synced c st' (mc_capacity c)
    \<and> (\<forall>i v. (i, v) \<in> set (mc_entries c) \<longleftrightarrow> mc_map c i = Some v)"
proof -
  have e: "\<forall>i v. (i, v) \<in> set (mc_entries c) \<longleftrightarrow> mc_map c i = Some v"
  proof (intro allI iffI)
    fix i v
    assume "(i, v) \<in> set (mc_entries c)"
    then obtain j where j: "j < mc_capacity c" "mc_active c ! j = Some True" "i = word_of_nat j" "v = the (mc_data c ! j)"
      by (auto simp: mc_entries_def mc_entry_def)
    have "unat (word_of_nat j :: u32) = j" using j(1) assms(1) by (intro unat_word_of_nat_u32) (simp add: mc_wf_def)
    then show "mc_map c i = Some v" using j mc_entry_data [OF assms(1) j(1,2)] by (auto simp: mc_map_def mc_entry_def)
  next
    fix i v
    assume "mc_map c i = Some v"
    then have "unat i < mc_capacity c" "mc_active c ! unat i = Some True" "mc_entry c (unat i) = Some v"
      by (auto simp: mc_map_def mc_entry_def split: if_splits)
    then show "(i, v) \<in> set (mc_entries c)"
      by (auto simp: mc_entries_def intro!: image_eqI [of _ _ "unat i"])
  qed
  show ?thesis
  proof (cases "cs_head st = u_head (mc_index_set c)")
    case True
    then show ?thesis using e update_state_unchanged [OF True] cs_for_each_synced [OF assms(2)] assms(2,3) by auto
  next
    case False
    then show ?thesis using e update_state_changed [OF mc_wf_mem_ok [OF assms(1)] assms(2)] cs_for_each_synced by fastforce
  qed
qed

theorem update_copies_content_witness:
  "\<exists>st'. update_state (fixed_mc_default 2) \<lparr>cs_head = 1, cs_data = [None, None], cs_active = [True, False]\<rparr>
      = (Ok (st', True) :: (unit, _) outcome)
    \<and> cs_for_each st' = (Ok [] :: (unit, (u32 \<times> bool) list) outcome)"
proof -
  let ?c = "fixed_mc_default 2 :: bool mpmc_container" and ?st = "\<lparr>cs_head = 1, cs_data = [None, None], cs_active = [True, False]\<rparr> :: bool container_state"
  have "mc_wf ?c" using fixed_mc_default_wf(1) [of 2] by simp
  moreover have "cs_wf ?c ?st" "cs_head ?st \<noteq> u_head (mc_index_set ?c)" "mc_entries ?c = []"
    by (auto simp: cs_wf_def fixed_mc_default_def uis_new_def mc_entries_def numeral_2_eq_2)
  ultimately show ?thesis using update_copies_content [of ?c ?st] by auto
qed

text \<open>A refresh that runs while \<^verbatim>\<open>add\<close> has acquired its index but not yet set the flag misses the new element, and
  every later refresh returns false and keeps missing it until the head of the index set changes again: the head is
  recorded before the element becomes visible.\<close>

theorem refresh_during_add_loses_element:
  fixes c :: "'a mpmc_container"
  assumes "mc_wf c" and "uis_free (mc_index_set c) = i # is" and "0 < uis_budget (mc_index_set c)"
    and "cs_wf c st" and "unat (snd (extract_head_and_aba (cs_head st))) \<le> unat (head_aba (mc_index_set c))"
  shows "\<exists>c1 x st1 c2 c3. mc_acquire c = (Ok (c1, Some x) :: (unit, _) outcome)
    \<and> update_state c1 st = (Ok (st1, True) :: (unit, _) outcome)
    \<and> mc_write_value c1 (ui_value x) v = (Ok c2 :: (unit, _) outcome) \<and> mc_activate c2 (ui_value x) = (Ok c3 :: (unit, _) outcome)
    \<and> mc_add c v = (Ok (c3, Some x) :: (unit, _) outcome) \<and> mc_map c3 (ui_value x) = Some v
    \<and> update_state c3 st1 = (Ok (st1, False) :: (unit, _) outcome) \<and> cs_active st1 ! unat (ui_value x) = False"
proof -
  have w: "uis_wf (mc_index_set c)" and cap: "length (mc_active c) = mc_capacity c" "length (mc_data c) = mc_capacity c"
    using assms(1) by (auto simp: mc_wf_def)
  obtain s where s: "acquire_raw_index (mc_index_set c) = (Ok (s, Some i) :: (unit, _) outcome)" "uis_budget s = uis_budget (mc_index_set c) - 1"
    using acquire_raw_index_Cons [OF w assms(2,3)] by blast
  have i: "unat i < mc_capacity c" "mc_map c i = None" using mc_wf_free_inactive [OF assms(1), of i] assms(2) by simp_all
  have na: "mc_active c ! unat i \<noteq> Some True" using assms(1,2) i(1) by (auto simp: mc_wf_def)
  define c1 where "c1 = c\<lparr>mc_index_set := s\<rparr>"
  define c2 where "c2 = c1\<lparr>mc_data := (mc_data c)[unat i := Some v]\<rparr>"
  define c3 where "c3 = c2\<lparr>mc_active := (mc_active c)[unat i := Some True]\<rparr>"
  note d = c1_def c2_def c3_def
  let ?x = "\<lparr>ui_value = i, ui_cleanup = Some mc_cleanup\<rparr>"
  have a: "mc_acquire c = (Ok (c1, Some ?x) :: (unit, _) outcome)"
    using s uis_wfD(1) [OF w] by (simp add: c1_def mc_acquire_def acquire_with_additional_cleanup_def uis_mem_def)
  have p: "mc_write_value c1 i v = (Ok c2 :: (unit, _) outcome)" "mc_activate c2 i = (Ok c3 :: (unit, _) outcome)"
    using i cap by (simp_all add: d mc_write_value_def mc_activate_def)
  have "mem_ok c1" using mc_wf_mem_ok [OF assms(1)] by (simp add: mem_ok_def c1_def)
  moreover have "cs_wf c1 st" using assms(4) by (simp add: cs_wf_def c1_def)
  moreover have "unat (snd (extract_head_and_aba (cs_head st))) < unat (head_aba s)"
    using assms(3,5) s(2) unsigned_less [of "head_aba s"] by (simp add: uis_budget_def)
  then have "cs_head st \<noteq> u_head (mc_index_set c1)" by (auto simp: c1_def)
  ultimately obtain st1 where st1: "update_state c1 st = (Ok (st1, True) :: (unit, _) outcome)" "cs_synced c1 st1 (mc_capacity c1)"
    "cs_head st1 = u_head (mc_index_set c1)"
    using update_state_changed by blast
  have "update_state c3 st1 = (Ok (st1, False) :: (unit, _) outcome)"
    using st1(3) by (intro update_state_unchanged) (simp add: d)
  moreover have "cs_active st1 ! unat i = False" using st1(2) i(1) na by (simp add: cs_synced_def c1_def)
  moreover have "mc_add c v = (Ok (c3, Some ?x) :: (unit, _) outcome)"
    using a p assms(1) by (simp add: mc_add_def mc_verify_init_def mc_wf_def)
  moreover have "mc_map c3 i = Some v" using i cap by (simp add: d mc_map_def mc_entry_def)
  ultimately show ?thesis using a p st1(1) by (intro exI [of _ c1] exI [of _ ?x] exI [of _ st1] exI [of _ c2] exI [of _ c3]) simp
qed

theorem refresh_during_add_loses_element_witness:
  "\<exists>x st1 c3. mc_add (fixed_mc_default 2) True = (Ok (c3, Some x) :: (unit, _) outcome) \<and> mc_map c3 (ui_value x) = Some True
    \<and> update_state c3 st1 = (Ok (st1, False) :: (unit, _) outcome) \<and> cs_active st1 ! unat (ui_value x) = False"
proof -
  let ?c = "fixed_mc_default 2 :: bool mpmc_container" and ?st = "\<lparr>cs_head = 0, cs_data = [None, None], cs_active = [False, False]\<rparr> :: bool container_state"
  have "mc_wf ?c" "uis_free (mc_index_set ?c) = [0, 1]" "0 < uis_budget (mc_index_set ?c)"
    using fixed_mc_default_wf [of 2, where ?'a = bool] by (simp_all add: upt_rec)
  moreover have "cs_wf ?c ?st" by (simp add: cs_wf_def fixed_mc_default_def numeral_2_eq_2)
  moreover have "unat (snd (extract_head_and_aba (cs_head ?st))) \<le> unat (head_aba (mc_index_set ?c))" by (simp add: extract_head_and_aba_def)
  ultimately show ?thesis using refresh_during_add_loses_element [of ?c 0 "[1]" ?st True] by blast
qed

end
