(* ===== verification/UnrestrictedAtomic.thy ===== *)
theory UnrestrictedAtomic
  imports Prelude
begin

text \<open>
  \<^verbatim>\<open>elkodon_bb/lock_free/src/spmc/unrestricted_atomic.rs\<close>: an atomic of arbitrary size for one producer and
  many consumers, built from two cells and a counter. A value is a list of machine words, written and
  read one word at a time, so that a consumer can observe a cell that is half written; the theorem is that \<^verbatim>\<open>load\<close> never
  returns such a value.
\<close>

section \<open>State and steps\<close>

record 'w ua =
  ua_write :: nat
  ua_data :: "'w option list list"
  ua_has_producer :: bool

definition NUMBER_OF_CELLS :: nat where
  "NUMBER_OF_CELLS = 2"

definition ua_new :: "'w list \<Rightarrow> 'w ua" where
  "ua_new value = \<lparr>ua_write = 1, ua_data = [map Some value, replicate (length value) None], ua_has_producer = True\<rparr>"

definition ua_acquire_producer :: "'w ua \<Rightarrow> 'w ua \<times> bool" where
  "ua_acquire_producer s = (if ua_has_producer s then (s\<lparr>ua_has_producer := False\<rparr>, True) else (s, False))"

definition ua_producer_drop :: "'w ua \<Rightarrow> 'w ua" where
  "ua_producer_drop s = s\<lparr>ua_has_producer := True\<rparr>"

text \<open>\<open>SWrite v w j\<close>: the first \<open>j\<close> words of \<open>v\<close> are written to cell \<open>w\<close>; when all are, the next step is the
  wrapping increment of the counter.\<close>

datatype 'w store_pc = SLoad "'w list" | SWrite "'w list" nat nat | SDone | SUB

fun store_step :: "'w ua \<Rightarrow> 'w store_pc \<Rightarrow> 'w ua \<times> 'w store_pc" where
  "store_step s (SLoad v) = (s, SWrite v (ua_write s) 0)"
| "store_step s (SWrite v w j) =
     (if j < length v
      then (if w mod NUMBER_OF_CELLS < length (ua_data s) \<and> j < length (ua_data s ! (w mod NUMBER_OF_CELLS))
            then (s\<lparr>ua_data := (ua_data s)[w mod NUMBER_OF_CELLS := (ua_data s ! (w mod NUMBER_OF_CELLS))[j := Some (v ! j)]]\<rparr>,
                  SWrite v w (Suc j))
            else (s, SUB))
      else (s\<lparr>ua_write := (ua_write s + 1) mod usize_lim\<rparr>, SDone))"
| "store_step s SDone = (s, SDone)"
| "store_step s SUB = (s, SUB)"

text \<open>\<open>LCopy r acc\<close>: the words \<open>acc\<close> have been copied from cell \<open>r\<close>; when all are, the next step loads the counter again.\<close>

datatype 'w load_pc = LLoad | LCopy nat "'w list" | LDone "'w list" | LPanic | LUB

fun load_step :: "'w ua \<Rightarrow> 'w load_pc \<Rightarrow> 'w load_pc" where
  "load_step s LLoad = (if ua_write s = 0 then LPanic else LCopy (ua_write s - 1) [])"
| "load_step s (LCopy r acc) =
     (if r mod NUMBER_OF_CELLS < length (ua_data s)
      then (if length acc < length (ua_data s ! (r mod NUMBER_OF_CELLS))
            then (case ua_data s ! (r mod NUMBER_OF_CELLS) ! length acc of Some x \<Rightarrow> LCopy r (acc @ [x]) | None \<Rightarrow> LUB)
            else if ua_write s = 0 then LPanic
            else if ua_write s - 1 = r then LDone acc else LCopy (ua_write s - 1) [])
      else LUB)"
| "load_step s (LDone v) = LDone v"
| "load_step s LPanic = LPanic"
| "load_step s LUB = LUB"

section \<open>Operations that run alone\<close>

primrec store_run :: "nat \<Rightarrow> 'w ua \<Rightarrow> 'w store_pc \<Rightarrow> 'w ua \<times> 'w store_pc" where
  "store_run 0 s pc = (s, pc)"
| "store_run (Suc n) s pc = (case store_step s pc of (s', pc') \<Rightarrow> store_run n s' pc')"

primrec load_run :: "nat \<Rightarrow> 'w ua \<Rightarrow> 'w load_pc \<Rightarrow> 'w load_pc" where
  "load_run 0 s pc = pc"
| "load_run (Suc n) s pc = load_run n s (load_step s pc)"

definition ua_store :: "'w ua \<Rightarrow> 'w list \<Rightarrow> ('e, 'w ua) outcome" where
  "ua_store s v = (case store_run (length v + 2) s (SLoad v) of (s', SDone) \<Rightarrow> Ok s' | (s', _) \<Rightarrow> UB)"

definition ua_load :: "nat \<Rightarrow> 'w ua \<Rightarrow> ('e, 'w list) outcome" where
  "ua_load words s = (case load_run (words + 2) s LLoad of LDone v \<Rightarrow> Ok v | LPanic \<Rightarrow> Panic | _ \<Rightarrow> UB)"

section \<open>One producer and many consumers interleaved\<close>

record 'w ua_sys =
  us_atomic :: "'w ua"
  us_store :: "'w store_pc option"
  us_load :: "nat \<Rightarrow> 'w load_pc option"
  us_history :: "'w list list"

fun store_commit :: "'w store_pc \<Rightarrow> 'w store_pc \<Rightarrow> 'w list list" where
  "store_commit (SWrite v w j) SDone = [v]"
| "store_commit _ _ = []"

inductive ua_step :: "nat \<Rightarrow> 'w ua_sys \<Rightarrow> 'w ua_sys \<Rightarrow> bool" for words where
  call_store: "us_store \<sigma> = None \<Longrightarrow> length v = words \<Longrightarrow> ua_step words \<sigma> (\<sigma>\<lparr>us_store := Some (SLoad v)\<rparr>)"
| work_store: "us_store \<sigma> = Some pc \<Longrightarrow> store_step (us_atomic \<sigma>) pc = (s', pc') \<Longrightarrow>
     ua_step words \<sigma> (\<sigma>\<lparr>us_atomic := s', us_store := Some pc', us_history := us_history \<sigma> @ store_commit pc pc'\<rparr>)"
| return_store: "us_store \<sigma> = Some SDone \<Longrightarrow> ua_step words \<sigma> (\<sigma>\<lparr>us_store := None\<rparr>)"
| call_load: "us_load \<sigma> t = None \<Longrightarrow> ua_step words \<sigma> (\<sigma>\<lparr>us_load := (us_load \<sigma>)(t \<mapsto> LLoad)\<rparr>)"
| work_load: "us_load \<sigma> t = Some pc \<Longrightarrow> load_step (us_atomic \<sigma>) pc = pc' \<Longrightarrow>
     ua_step words \<sigma> (\<sigma>\<lparr>us_load := (us_load \<sigma>)(t \<mapsto> pc')\<rparr>)"
| return_load: "us_load \<sigma> t = Some (LDone v) \<Longrightarrow> ua_step words \<sigma> (\<sigma>\<lparr>us_load := (us_load \<sigma>)(t := None)\<rparr>)"

definition ua_sys_init :: "'w list \<Rightarrow> 'w ua_sys" where
  "ua_sys_init v = \<lparr>us_atomic = ua_new v, us_store = None, us_load = (\<lambda>_. None), us_history = [v]\<rparr>"

inductive ua_reachable :: "'w list \<Rightarrow> 'w ua_sys \<Rightarrow> bool" for v where
  ua_start: "ua_reachable v (ua_sys_init v)"
| ua_next: "ua_reachable v \<sigma> \<Longrightarrow> ua_step (length v) \<sigma> \<tau> \<Longrightarrow> ua_reachable v \<tau>"

section \<open>Invariant\<close>

definition ua_mem :: "nat \<Rightarrow> 'w ua \<Rightarrow> 'w list list \<Rightarrow> bool" where
  "ua_mem words s h \<longleftrightarrow> h \<noteq> [] \<and> ua_write s = length h \<and> length (ua_data s) = 2 \<and> (\<forall>c \<in> set (ua_data s). length c = words)
     \<and> ua_data s ! ((length h - 1) mod 2) = map Some (last h)
     \<and> None \<notin> set (ua_data s ! 0) \<and> (2 \<le> length h \<longrightarrow> None \<notin> set (ua_data s ! 1))"

fun store_ok :: "nat \<Rightarrow> 'w ua \<Rightarrow> 'w store_pc \<Rightarrow> bool" where
  "store_ok words s (SLoad v) \<longleftrightarrow> length v = words"
| "store_ok words s (SWrite v w j) \<longleftrightarrow> length v = words \<and> w = ua_write s \<and> j \<le> words
     \<and> (\<forall>i < j. ua_data s ! (w mod 2) ! i = Some (v ! i))"
| "store_ok words s SDone \<longleftrightarrow> True"
| "store_ok words s SUB \<longleftrightarrow> False"

fun load_ok :: "nat \<Rightarrow> 'w list list \<Rightarrow> 'w load_pc \<Rightarrow> bool" where
  "load_ok words h LLoad \<longleftrightarrow> True"
| "load_ok words h (LCopy r acc) \<longleftrightarrow> r < length h \<and> length acc \<le> words \<and> (r = length h - 1 \<longrightarrow> acc = take (length acc) (last h))"
| "load_ok words h (LDone v) \<longleftrightarrow> v \<in> set h"
| "load_ok words h LPanic \<longleftrightarrow> False"
| "load_ok words h LUB \<longleftrightarrow> False"

definition ua_inv :: "nat \<Rightarrow> 'w ua_sys \<Rightarrow> bool" where
  "ua_inv words \<sigma> \<longleftrightarrow> ua_mem words (us_atomic \<sigma>) (us_history \<sigma>)
     \<and> (\<forall>pc. us_store \<sigma> = Some pc \<longrightarrow> store_ok words (us_atomic \<sigma>) pc)
     \<and> (\<forall>t pc. us_load \<sigma> t = Some pc \<longrightarrow> load_ok words (us_history \<sigma>) pc)"

lemma length_2_cases: "length xs = 2 \<Longrightarrow> (\<And>a b. xs = [a, b] \<Longrightarrow> P) \<Longrightarrow> P"
  by (auto simp: numeral_2_eq_2 length_Suc_conv)

lemma mod2_cases: "n mod 2 = 0 \<or> n mod 2 = Suc 0" for n :: nat
  by auto

lemma store_write_inv:
  assumes "ua_mem words s h" and "store_ok words s (SWrite v w j)" and "j < length v"
  defines "s' \<equiv> s\<lparr>ua_data := (ua_data s)[w mod 2 := (ua_data s ! (w mod 2))[j := Some (v ! j)]]\<rparr>"
  shows "ua_mem words s' h \<and> store_ok words s' (SWrite v w (Suc j))"
proof -
  obtain a b where d: "ua_data s = [a, b]" using assms(1) by (auto simp: ua_mem_def elim: length_2_cases)
  have w: "w = length h" "0 < length h" using assms(1,2) by (auto simp: ua_mem_def)
  then have m: "(length h - 1) mod 2 \<noteq> w mod 2" by (cases "length h") (auto simp: mod_Suc)
  have sz: "length a = words" "length b = words" "length v = words" using assms(1,2) d by (auto simp: ua_mem_def)
  have n: "None \<notin> set (xs[j := Some (v ! j)])" if "None \<notin> set xs" for xs
    using that set_update_subset_insert [of xs j "Some (v ! j)"] by blast
  show ?thesis
    using assms(1-3) w m sz n [of a] n [of b] mod2_cases [of w] mod2_cases [of "length h - 1"]
    unfolding s'_def ua_mem_def d by (auto simp: d nth_list_update less_Suc_eq)
qed

lemma store_finish_inv:
  assumes "ua_mem words s h" and "store_ok words s (SWrite v w j)" and "\<not> j < length v" and "length h + 1 < usize_lim"
  shows "ua_mem words (s\<lparr>ua_write := (ua_write s + 1) mod usize_lim\<rparr>) (h @ [v])"
proof -
  have w: "w = length h" "ua_write s = length h" "length v = words" "j = words" using assms by (auto simp: ua_mem_def)
  have l: "length (ua_data s) = 2" "h \<noteq> []" "\<forall>c \<in> set (ua_data s). length c = words" using assms(1) by (auto simp: ua_mem_def)
  have "length h mod 2 < length (ua_data s)" using l(1) by simp
  then have c: "length (ua_data s ! (length h mod 2)) = words" using l(3) nth_mem by blast
  have v: "ua_data s ! (length h mod 2) = map Some v"
    using assms(2) w c by (intro nth_equalityI) simp_all
  moreover have "2 \<le> length (h @ [v]) \<longrightarrow> None \<notin> set (ua_data s ! 1)"
  proof (cases "length h = 1")
    case True
    then show ?thesis using v by auto
  next
    case False
    then have "2 \<le> length h" using l(2) by (cases h) (auto simp: Suc_le_eq)
    then show ?thesis using assms(1) by (simp add: ua_mem_def)
  qed
  ultimately show ?thesis using assms(1,4) w by (simp add: ua_mem_def)
qed

lemma load_ok_append:
  assumes "load_ok words h pc"
  shows "load_ok words (h @ [v]) pc"
  using assms by (cases pc) auto

lemma load_step_inv:
  assumes "ua_mem words s h" and "load_ok words h pc"
  shows "load_ok words h (load_step s pc)"
proof (cases pc)
  case (LCopy r acc)
  obtain a b where d: "ua_data s = [a, b]" using assms(1) by (auto simp: ua_mem_def elim: length_2_cases)
  have r: "r < length h" "length acc \<le> words" and acc: "r = length h - 1 \<longrightarrow> acc = take (length acc) (last h)"
    using assms(2) LCopy by auto
  have "\<forall>c \<in> set (ua_data s). length c = words" using assms(1) by (simp add: ua_mem_def)
  moreover have i: "r mod 2 < length (ua_data s)" using d by simp
  ultimately have c: "length (ua_data s ! (r mod 2)) = words" using nth_mem by blast
  have n: "None \<notin> set (ua_data s ! (r mod 2))"
    using assms(1) r(1) mod2_cases [of r] by (cases "r = 0") (auto simp: ua_mem_def)
  show ?thesis
  proof (cases "length acc < words")
    case True
    then obtain x where x: "ua_data s ! (r mod 2) ! length acc = Some x" using n c by (metis nth_mem option.exhaust)
    have "acc @ [x] = take (Suc (length acc)) (last h)" if "r = length h - 1"
    proof -
      have e: "ua_data s ! (r mod 2) = map Some (last h)" using assms(1) that by (simp add: ua_mem_def)
      then have l: "length acc < length (last h)" using c True by (metis length_map)
      then have "x = last h ! length acc" using x e by simp
      then show ?thesis using acc that l by (simp add: take_Suc_conv_app_nth)
    qed
    then show ?thesis using LCopy True x c i r by (auto simp: NUMBER_OF_CELLS_def min_def)
  next
    case False
    have e: "ua_data s ! ((length h - 1) mod 2) = map Some (last h)" "ua_write s = length h" "h \<noteq> []"
      using assms(1) by (auto simp: ua_mem_def)
    have "acc = last h" if "r = length h - 1"
      using acc that e(1) c False r(2) by (metis le_antisym length_map not_less take_all order_refl)
    then show ?thesis using LCopy False c i r e by (auto simp: NUMBER_OF_CELLS_def)
  qed
qed (use assms in \<open>auto simp: ua_mem_def\<close>)

lemma ua_step_inv:
  assumes "ua_step words \<sigma> \<tau>" and "ua_inv words \<sigma>" and "length (us_history \<tau>) < usize_lim"
  shows "ua_inv words \<tau>"
  using assms
proof (induction rule: ua_step.induct)
  case (work_store \<sigma> pc s' pc')
  have m: "ua_mem words (us_atomic \<sigma>) (us_history \<sigma>)" and p: "store_ok words (us_atomic \<sigma>) pc"
    and l: "\<And>t lpc. us_load \<sigma> t = Some lpc \<Longrightarrow> load_ok words (us_history \<sigma>) lpc"
    using work_store by (auto simp: ua_inv_def)
  have "ua_mem words s' (us_history \<sigma> @ store_commit pc pc') \<and> store_ok words s' pc'"
  proof (cases pc)
    case (SWrite v w j)
    have dim: "w mod 2 < length (ua_data (us_atomic \<sigma>))" "length (ua_data (us_atomic \<sigma>) ! (w mod 2)) = words" "length v = words"
    proof -
      show "w mod 2 < length (ua_data (us_atomic \<sigma>))" using m by (simp add: ua_mem_def)
      then have "ua_data (us_atomic \<sigma>) ! (w mod 2) \<in> set (ua_data (us_atomic \<sigma>))" by (rule nth_mem)
      then show "length (ua_data (us_atomic \<sigma>) ! (w mod 2)) = words" using m unfolding ua_mem_def by blast
      show "length v = words" using p SWrite by simp
    qed
    show ?thesis
    proof (cases "j < length v")
      case True
      then show ?thesis
        using store_write_inv [OF m p [unfolded SWrite] True] work_store.hyps(2) SWrite dim by (auto simp: NUMBER_OF_CELLS_def)
    next
      case False
      then show ?thesis
        using store_finish_inv [OF m p [unfolded SWrite] False] work_store.prems(2) work_store.hyps(2) SWrite by auto
    qed
  qed (use m p work_store.hyps(2) in auto)
  moreover have "load_ok words (us_history \<sigma> @ store_commit pc pc') lpc" if "us_load \<sigma> t = Some lpc" for t lpc
    using l [OF that] load_ok_append by (cases "(pc, pc')" rule: store_commit.cases) auto
  ultimately show ?case by (simp add: ua_inv_def)
next
  case (work_load \<sigma> t pc pc')
  then show ?case using load_step_inv [of words "us_atomic \<sigma>" "us_history \<sigma>" pc] by (auto simp: ua_inv_def)
qed (auto simp: ua_inv_def split: if_splits)

lemma ua_history_grows: "ua_step words \<sigma> \<tau> \<Longrightarrow> length (us_history \<sigma>) \<le> length (us_history \<tau>)"
  by (induction rule: ua_step.induct) auto

lemma ua_reachable_inv:
  "ua_reachable v \<sigma> \<Longrightarrow> length (us_history \<sigma>) < usize_lim \<Longrightarrow> ua_inv (length v) \<sigma>"
proof (induction rule: ua_reachable.induct)
  case ua_start
  show ?case by (auto simp: ua_inv_def ua_sys_init_def ua_mem_def ua_new_def)
next
  case (ua_next \<sigma> \<tau>)
  then show ?case using ua_step_inv ua_history_grows [OF ua_next.hyps(2)] by force
qed

section \<open>Operations that run alone\<close>

lemma store_run_write:
  assumes "ua_mem words s h" and "length v = words" and "length h + 1 < usize_lim"
  shows "store_ok words s (SWrite v w j) \<Longrightarrow> ua_mem words s h \<Longrightarrow> j + m = words \<Longrightarrow>
    \<exists>s'. store_run (m + 1) s (SWrite v w j) = (s', SDone) \<and> ua_mem words s' (h @ [v])"
proof (induction m arbitrary: j s)
  case 0
  then show ?case using store_finish_inv [OF 0(2,1)] assms(2,3) by auto
next
  case (Suc m)
  have j: "j < length v" using Suc.prems(3) assms(2) by simp
  have dim: "w mod 2 < length (ua_data s)" "j < length (ua_data s ! (w mod 2))"
  proof -
    show "w mod 2 < length (ua_data s)" using Suc.prems(2) by (simp add: ua_mem_def)
    then have "ua_data s ! (w mod 2) \<in> set (ua_data s)" by (rule nth_mem)
    then show "j < length (ua_data s ! (w mod 2))" using Suc.prems(2) j assms(2) unfolding ua_mem_def by auto
  qed
  let ?s = "s\<lparr>ua_data := (ua_data s)[w mod 2 := (ua_data s ! (w mod 2))[j := Some (v ! j)]]\<rparr>"
  have "store_step s (SWrite v w j) = (?s, SWrite v w (Suc j))" using dim j by (simp add: NUMBER_OF_CELLS_def)
  moreover have "\<exists>s'. store_run (m + 1) ?s (SWrite v w (Suc j)) = (s', SDone) \<and> ua_mem words s' (h @ [v])"
    by (rule Suc.IH [OF conjunct2 conjunct1]; (rule store_write_inv [OF Suc.prems(2,1) j])?) (use Suc.prems(3) in simp)
  ultimately show ?case by (simp del: store_step.simps)
qed

lemma ua_store_ok:
  assumes "ua_mem words s h" and "length v = words" and "length h + 1 < usize_lim"
  shows "\<exists>s'. ua_store s v = (Ok s' :: ('e, _) outcome) \<and> ua_mem words s' (h @ [v])"
  using store_run_write [OF assms, of "ua_write s" 0 words] assms(1,2) by (auto simp: ua_store_def)

lemma load_run_copy:
  assumes "ua_mem words s h" and "r = length h - 1"
  shows "length acc + m = words \<Longrightarrow> acc = take (length acc) (last h) \<Longrightarrow> load_run (m + 1) s (LCopy r acc) = LDone (last h)"
proof (induction m arbitrary: acc)
  case 0
  have "ua_data s ! (r mod 2) = map Some (last h)" "ua_write s = length h" "h \<noteq> []" "length (ua_data s) = 2" using assms by (auto simp: ua_mem_def)
  moreover have "\<forall>c \<in> set (ua_data s). length c = words" using assms(1) by (simp add: ua_mem_def)
  then have "length (ua_data s ! (r mod 2)) = words" using calculation(4) by simp
  moreover have "acc = last h" using 0 calculation(1,5) by (metis add_0_right length_map take_all order_refl)
  ultimately show ?case using assms(2) 0 by (simp add: NUMBER_OF_CELLS_def)
next
  case (Suc m)
  have d: "ua_data s ! (r mod 2) = map Some (last h)" "length (ua_data s) = 2" using assms by (auto simp: ua_mem_def)
  moreover have "\<forall>c \<in> set (ua_data s). length c = words" using assms(1) by (simp add: ua_mem_def)
  then have l: "length (last h) = words" using d by (metis length_map mod_less_divisor nth_mem zero_less_numeral)
  have "acc @ [last h ! length acc] = take (Suc (length acc)) (last h)"
    using Suc.prems l by (simp add: take_Suc_conv_app_nth)
  then show ?case using Suc.IH [of "acc @ [last h ! length acc]"] Suc.prems(1) d l by (simp add: NUMBER_OF_CELLS_def)
qed

lemma ua_load_ok:
  assumes "ua_mem words s h"
  shows "ua_load words s = Ok (last h)"
  using load_run_copy [OF assms refl, of "[]" words] assms by (simp add: ua_load_def ua_mem_def)

section \<open>Correctness\<close>

text \<open>C7: in every interleaving of one producer with any number of consumers, fewer than \<open>2 ^ 64\<close> values being stored,
  no call reads uninitialised memory or panics, a consumer returns only values that were stored as a whole, and
  the step with which \<^verbatim>\<open>load\<close> leaves its loop returns the newest stored value; when it repeats the loop instead, a
  store has completed since its last look at the counter.\<close>

theorem load_is_never_torn:
  assumes "ua_reachable v0 \<sigma>" and "length (us_history \<sigma>) < usize_lim"
  shows "us_store \<sigma> \<noteq> Some SUB
    \<and> (\<forall>t pc. us_load \<sigma> t = Some pc \<longrightarrow> pc \<noteq> LUB \<and> pc \<noteq> LPanic
        \<and> (\<forall>v. pc = LDone v \<longrightarrow> v \<in> set (us_history \<sigma>))
        \<and> (\<forall>r acc v. pc = LCopy r acc \<longrightarrow> load_step (us_atomic \<sigma>) pc = LDone v \<longrightarrow> v = last (us_history \<sigma>))
        \<and> (\<forall>r acc r'. pc = LCopy r acc \<longrightarrow> load_step (us_atomic \<sigma>) pc = LCopy r' [] \<longrightarrow> r < r'))"
proof (intro conjI allI impI)
  have i: "ua_inv (length v0) \<sigma>" using ua_reachable_inv [OF assms] .
  then show "us_store \<sigma> \<noteq> Some SUB" by (auto simp: ua_inv_def)
  fix t pc
  assume "us_load \<sigma> t = Some pc"
  then have l: "load_ok (length v0) (us_history \<sigma>) pc" and m: "ua_mem (length v0) (us_atomic \<sigma>) (us_history \<sigma>)"
    using i by (auto simp: ua_inv_def)
  show "pc \<noteq> LUB" "pc \<noteq> LPanic" using l by auto
  show "v \<in> set (us_history \<sigma>)" if "pc = LDone v" for v using l that by simp
  have dim: "length (ua_data (us_atomic \<sigma>) ! (r mod 2)) = length v0" for r
  proof -
    have "r mod 2 < length (ua_data (us_atomic \<sigma>))" using m by (simp add: ua_mem_def)
    then show ?thesis using m nth_mem unfolding ua_mem_def by blast
  qed
  show "v = last (us_history \<sigma>)" if pc: "pc = LCopy r acc" and st: "load_step (us_atomic \<sigma>) pc = LDone v" for r acc v
  proof -
    have "v = acc" "r = length (us_history \<sigma>) - 1" "\<not> length acc < length v0"
      using st pc dim [of r] m by (auto simp: NUMBER_OF_CELLS_def ua_mem_def split: if_splits option.splits)
    moreover have "length (last (us_history \<sigma>)) = length v0"
      using m dim [of "length (us_history \<sigma>) - 1"] by (metis length_map ua_mem_def)
    ultimately show ?thesis using l pc by (metis load_ok.simps(2) not_less take_all)
  qed
  show "r < r'" if pc: "pc = LCopy r acc" and st: "load_step (us_atomic \<sigma>) pc = LCopy r' []" for r acc r'
    using st pc l m by (auto simp: NUMBER_OF_CELLS_def ua_mem_def split: if_splits option.splits)
qed

theorem load_is_never_torn_witness:
  "\<exists>\<sigma> :: nat ua_sys. ua_reachable [4] \<sigma> \<and> us_load \<sigma> 0 = Some LLoad \<and> us_store \<sigma> \<noteq> Some SUB"
proof -
  let ?s = "(ua_sys_init [4])\<lparr>us_load := (us_load (ua_sys_init [4]))(0 \<mapsto> LLoad)\<rparr> :: nat ua_sys"
  have "ua_reachable [4] ?s" by (intro ua_next [OF ua_start] call_load) (simp add: ua_sys_init_def)
  moreover have "length (us_history ?s) < usize_lim" by (simp add: ua_sys_init_def usize_lim_def)
  ultimately show ?thesis using load_is_never_torn [of "[4]" ?s] by (intro exI [of _ ?s]) simp
qed

text \<open>alone, \<^verbatim>\<open>store\<close> and \<^verbatim>\<open>load\<close> return, and a value loaded after a store is the stored one.\<close>

theorem store_load_roundtrip:
  assumes "length v = length v0"
  shows "ua_load (length v0) (ua_new v0) = (Ok v0 :: (unit, _) outcome)
    \<and> (\<exists>s. ua_store (ua_new v0) v = (Ok s :: (unit, _) outcome) \<and> ua_load (length v0) s = (Ok v :: (unit, _) outcome))"
proof -
  have m: "ua_mem (length v0) (ua_new v0) [v0]" by (auto simp: ua_mem_def ua_new_def)
  obtain s where "ua_store (ua_new v0) v = (Ok s :: (unit, _) outcome)" "ua_mem (length v0) s ([v0] @ [v])"
    using ua_store_ok [OF m assms] by (auto simp: usize_lim_def)
  then show ?thesis using ua_load_ok [OF m] ua_load_ok [of "length v0" s "[v0] @ [v]"] by simp
qed

theorem store_load_roundtrip_witness:
  "\<exists>s. ua_store (ua_new [1, 2]) [3, 4 :: nat] = (Ok s :: (unit, _) outcome) \<and> ua_load 2 s = (Ok [3, 4] :: (unit, _) outcome)"
  using store_load_roundtrip [of "[3, 4]" "[1, 2 :: nat]"] by (simp add: numeral_2_eq_2)

end
