(* ===== verification/Allocator_Contract.thy ===== *)
theory Allocator_Contract
  imports Elementary
begin

text \<open>
  The contract of \<^verbatim>\<open>BaseAllocator::allocate\<close> (\<^verbatim>\<open>elkodon_bb/elementary/src/allocator.rs\<close>) as a locale: a chunk
  is large enough, aligned, inside of the managed memory and disjoint from the memory in use, which is
  in use from then on. The bump, the one chunk and the pool allocator interpret it; that the chunks of any sequence of
  allocations are pairwise disjoint is proved once, here.
\<close>

section \<open>Chunks and layouts\<close>

definition chunk_set :: "chunk \<Rightarrow> nat set" where
  "chunk_set c = {fst c ..< fst c + snd c}"

text \<open>\<^verbatim>\<open>Layout\<close> guarantees that its alignment is a power of two.\<close>

definition valid_layout :: "layout \<Rightarrow> bool" where
  "valid_layout l \<longleftrightarrow> (\<exists>k. lalign l = 2 ^ k)"

lemma valid_layout_pos: "valid_layout l \<Longrightarrow> 0 < lalign l"
  by (auto simp: valid_layout_def)

lemma valid_layout_dvd: "valid_layout l \<Longrightarrow> valid_layout m \<Longrightarrow> lalign l \<le> lalign m \<Longrightarrow> lalign l dvd lalign m"
  by (auto simp: valid_layout_def intro: le_imp_power_dvd)

lemma valid_layout_intro [intro]: "lalign l = 2 ^ k \<Longrightarrow> valid_layout l"
  by (auto simp: valid_layout_def)

section \<open>The contract\<close>

locale chunk_allocator =
  fixes invar :: "'s \<Rightarrow> bool" and used :: "'s \<Rightarrow> nat set" and region :: "'s \<Rightarrow> nat set"
    and allocate :: "'s \<Rightarrow> layout \<Rightarrow> (allocation_error, 's \<times> chunk) outcome"
  assumes used_region: "invar s \<Longrightarrow> used s \<subseteq> region s"
    and allocate_chunk: "invar s \<Longrightarrow> valid_layout l \<Longrightarrow> allocate s l = Ok (s', c) \<Longrightarrow>
      invar s' \<and> region s' = region s \<and> lsize l \<le> snd c \<and> lalign l dvd fst c \<and> chunk_set c \<subseteq> region s
        \<and> chunk_set c \<inter> used s = {} \<and> used s \<union> chunk_set c \<subseteq> used s'"
begin

fun allocate_all :: "'s \<Rightarrow> layout list \<Rightarrow> (allocation_error, 's \<times> chunk list) outcome" where
  "allocate_all s [] = Ok (s, [])"
| "allocate_all s (l # ls) =
     obind (allocate s l) (\<lambda>(s', c). omap (\<lambda>(s'', cs). (s'', c # cs)) (allocate_all s' ls))"

lemma allocate_all_disjoint:
  "invar s \<Longrightarrow> \<forall>l \<in> set ls. valid_layout l \<Longrightarrow> allocate_all s ls = Ok (s', cs) \<Longrightarrow>
     invar s' \<and> region s' = region s \<and> (\<forall>c \<in> set cs. chunk_set c \<subseteq> region s \<and> chunk_set c \<inter> used s = {})
     \<and> list_all2 (\<lambda>l c. lsize l \<le> snd c \<and> lalign l dvd fst c) ls cs
     \<and> (\<forall>i j. i < j \<and> j < length cs \<longrightarrow> chunk_set (cs ! i) \<inter> chunk_set (cs ! j) = {})"
proof (induction ls arbitrary: s cs)
  case (Cons l ls)
  obtain s1 c cs' where a: "allocate s l = Ok (s1, c)" and r: "allocate_all s1 ls = Ok (s', cs')" and cs: "cs = c # cs'"
    using Cons.prems(3) by (auto simp: outcome_iffs)
  have "valid_layout l" using Cons.prems(2) by simp
  note A = allocate_chunk [OF Cons.prems(1) this a]
  have I: "invar s' \<and> region s' = region s1 \<and> (\<forall>c \<in> set cs'. chunk_set c \<subseteq> region s1 \<and> chunk_set c \<inter> used s1 = {})
     \<and> list_all2 (\<lambda>l c. lsize l \<le> snd c \<and> lalign l dvd fst c) ls cs'
     \<and> (\<forall>i j. i < j \<and> j < length cs' \<longrightarrow> chunk_set (cs' ! i) \<inter> chunk_set (cs' ! j) = {})"
    using Cons.IH [OF _ _ r] A Cons.prems(2) by simp
  have d: "chunk_set (cs ! i) \<inter> chunk_set (cs ! j) = {}" if "i < j" "j < length cs" for i j
  proof (cases i)
    case 0
    then have "cs ! j \<in> set cs'" using that cs by (cases j) auto
    then have "chunk_set (cs ! j) \<inter> used s1 = {}" using I by blast
    moreover have "chunk_set (cs ! i) \<subseteq> used s1" using A 0 cs by simp
    ultimately show ?thesis by blast
  next
    case (Suc i')
    then show ?thesis using I that cs by (cases j) auto
  qed
  have m: "chunk_set d \<subseteq> region s \<and> chunk_set d \<inter> used s = {}" if "d \<in> set cs" for d
  proof (cases "d = c")
    case False
    then have "chunk_set d \<subseteq> region s1" "chunk_set d \<inter> used s1 = {}" using that cs I by auto
    then show ?thesis using A by blast
  qed (use A in blast)
  have l: "list_all2 (\<lambda>l c. lsize l \<le> snd c \<and> lalign l dvd fst c) (l # ls) cs" using A I cs by simp
  show ?case
  proof (intro conjI allI ballI impI)
    show "invar s'" "region s' = region s" using A I by simp_all
  qed (use d m l in auto)
qed simp

end

end
