(* ===== verification/BumpAllocator.thy ===== *)
theory BumpAllocator
  imports Allocator_Contract
begin

text \<open>
  \<^verbatim>\<open>elkodon_bb/memory/src/bump_allocator.rs\<close>: a position that only moves up; \<^verbatim>\<open>deallocate\<close> releases everything.
  The loop over \<^verbatim>\<open>compare_exchange_weak\<close> is a program counter and a step function, run alone
  (\<open>bump_allocate\<close>) and by many threads (\<open>bump_step\<close>), where the weak exchange may also fail without a reason.
\<close>

section \<open>State and operations\<close>

record bump_allocator =
  b_start :: usize
  b_size :: usize
  b_position :: usize

definition bump_new :: "nat \<Rightarrow> usize \<Rightarrow> bump_allocator" where
  "bump_new ptr size' = \<lparr>b_start = ptr, b_size = size', b_position = 0\<rparr>"

definition bump_used_space :: "bump_allocator \<Rightarrow> usize" where
  "bump_used_space a = b_position a"

definition bump_free_space :: "bump_allocator \<Rightarrow> ('e, usize) outcome" where
  "bump_free_space a = usub (b_size a) (bump_used_space a)"

definition bump_total_space :: "bump_allocator \<Rightarrow> usize" where
  "bump_total_space a = b_size a"

definition bump_deallocate :: "bump_allocator \<Rightarrow> (deallocation_error, bump_allocator) outcome" where
  "bump_deallocate a = Ok (a\<lparr>b_position := 0\<rparr>)"

datatype bump_pc = BStart layout | BTry layout nat | BCas layout nat nat | BDone chunk | BErr allocation_error | BPanic

text \<open>\<open>BTry l p\<close>: top of the loop with the last position \<open>p\<close>; \<open>BCas l p q\<close>: before the exchange of \<open>p\<close>, with the aligned
  position \<open>q\<close>.\<close>

definition bump_aligned :: "bump_allocator \<Rightarrow> layout \<Rightarrow> usize \<Rightarrow> (allocation_error, usize) outcome" where
  "bump_aligned a l current_position =
     obind (uadd (b_start a) current_position) (\<lambda>p. obind (align p (lalign l)) (\<lambda>q. obind (usub q (b_start a)) (\<lambda>aligned_position.
       obind (uadd aligned_position (lsize l)) (\<lambda>e. if b_size a < e then Err OutOfMemory else Ok aligned_position))))"

fun bump_pc_step :: "bump_allocator \<Rightarrow> bump_pc \<Rightarrow> bump_allocator \<times> bump_pc" where
  "bump_pc_step a (BStart l) = (if lsize l = 0 then (a, BErr SizeIsZero) else (a, BTry l (b_position a)))"
| "bump_pc_step a (BTry l current_position) =
     (a, case bump_aligned a l current_position of
         Ok aligned \<Rightarrow> BCas l current_position aligned
       | Err e \<Rightarrow> BErr e
       | _ \<Rightarrow> BPanic)"
| "bump_pc_step a (BCas l current_position aligned) =
     (if b_position a = current_position
      then (a\<lparr>b_position := aligned + lsize l\<rparr>, BDone (b_start a + aligned, lsize l))
      else (a, BTry l (b_position a)))"
| "bump_pc_step a (BDone c) = (a, BDone c)"
| "bump_pc_step a (BErr e) = (a, BErr e)"
| "bump_pc_step a BPanic = (a, BPanic)"

fun bump_outcome :: "bump_allocator \<times> bump_pc \<Rightarrow> (allocation_error, bump_allocator \<times> chunk) outcome" where
  "bump_outcome (a, BDone c) = Ok (a, c)"
| "bump_outcome (a, BErr e) = Err e"
| "bump_outcome (a, _) = Panic"

definition bump_allocate :: "bump_allocator \<Rightarrow> layout \<Rightarrow> (allocation_error, bump_allocator \<times> chunk) outcome" where
  "bump_allocate a l =
     (case bump_pc_step a (BStart l) of (a1, pc1) \<Rightarrow> case bump_pc_step a1 pc1 of (a2, pc2) \<Rightarrow> bump_outcome (bump_pc_step a2 pc2))"

section \<open>Many threads\<close>

record bump_sys =
  bs_alloc :: bump_allocator
  bs_pcs :: "nat \<Rightarrow> bump_pc option"
  bs_chunks :: "(layout \<times> chunk) list"

fun bump_commit :: "bump_pc \<Rightarrow> bump_pc \<Rightarrow> (layout \<times> chunk) list" where
  "bump_commit (BCas l p q) (BDone c) = [(l, c)]"
| "bump_commit _ _ = []"

inductive bump_step :: "bump_sys \<Rightarrow> bump_sys \<Rightarrow> bool" where
  bump_call: "bs_pcs \<sigma> t = None \<Longrightarrow> valid_layout l \<Longrightarrow> bump_step \<sigma> (\<sigma>\<lparr>bs_pcs := (bs_pcs \<sigma>)(t \<mapsto> BStart l)\<rparr>)"
| bump_work: "bs_pcs \<sigma> t = Some pc \<Longrightarrow> bump_pc_step (bs_alloc \<sigma>) pc = (a', pc') \<Longrightarrow>
     bump_step \<sigma> (\<sigma>\<lparr>bs_alloc := a', bs_pcs := (bs_pcs \<sigma>)(t \<mapsto> pc'), bs_chunks := bump_commit pc pc' @ bs_chunks \<sigma>\<rparr>)"
| bump_spurious: "bs_pcs \<sigma> t = Some (BCas l p q) \<Longrightarrow>
     bump_step \<sigma> (\<sigma>\<lparr>bs_pcs := (bs_pcs \<sigma>)(t \<mapsto> BTry l (b_position (bs_alloc \<sigma>)))\<rparr>)"
| bump_return: "bs_pcs \<sigma> t = Some (BDone c) \<Longrightarrow> bump_step \<sigma> (\<sigma>\<lparr>bs_pcs := (bs_pcs \<sigma>)(t := None)\<rparr>)"
| bump_fail: "bs_pcs \<sigma> t = Some (BErr e) \<Longrightarrow> bump_step \<sigma> (\<sigma>\<lparr>bs_pcs := (bs_pcs \<sigma>)(t := None)\<rparr>)"

definition bump_sys_init :: "bump_allocator \<Rightarrow> bump_sys" where
  "bump_sys_init a = \<lparr>bs_alloc = a, bs_pcs = (\<lambda>_. None), bs_chunks = []\<rparr>"

inductive bump_reachable :: "bump_allocator \<Rightarrow> bump_sys \<Rightarrow> bool" for a where
  bump_start: "bump_reachable a (bump_sys_init a)"
| bump_next: "bump_reachable a \<sigma> \<Longrightarrow> bump_step \<sigma> \<tau> \<Longrightarrow> bump_reachable a \<tau>"

section \<open>Allocating alone\<close>

definition bump_wf :: "bump_allocator \<Rightarrow> bool" where
  "bump_wf a \<longleftrightarrow> b_position a \<le> b_size a"

definition bump_used :: "bump_allocator \<Rightarrow> nat set" where
  "bump_used a = {b_start a ..< b_start a + b_position a}"

definition bump_region :: "bump_allocator \<Rightarrow> nat set" where
  "bump_region a = {b_start a ..< b_start a + b_size a}"

lemma bump_aligned_Ok:
  assumes "bump_aligned a l p = Ok q"
  shows "0 < lalign l \<and> b_start a + q = align_up (b_start a + p) (lalign l) \<and> p \<le> q \<and> q + lsize l \<le> b_size a"
proof -
  have q: "align (b_start a + p) (lalign l) = (Ok (b_start a + q) :: (allocation_error, _) outcome)" "q + lsize l \<le> b_size a"
    using assms by (auto simp: bump_aligned_def outcome_iffs split: if_splits)
  then show ?thesis using align_eq_Ok_D [OF q(1)] align_up_ge [of "lalign l" "b_start a + p"] by auto
qed

lemma bump_allocate_eq:
  "bump_allocate a l = (if lsize l = 0 then Err SizeIsZero
     else obind (bump_aligned a l (b_position a)) (\<lambda>q. Ok (a\<lparr>b_position := q + lsize l\<rparr>, (b_start a + q, lsize l))))"
  if "bump_aligned a l (b_position a) \<noteq> UB"
  using that by (cases "bump_aligned a l (b_position a)") (simp_all add: bump_allocate_def)

lemma bump_aligned_no_UB: "bump_aligned a l p \<noteq> UB"
  by (auto simp: bump_aligned_def align_def outcome_defs split: if_splits)

lemma bump_allocate_Ok:
  assumes "bump_allocate a l = Ok (a', c)"
  shows "\<exists>q. bump_aligned a l (b_position a) = Ok q \<and> a' = a\<lparr>b_position := q + lsize l\<rparr> \<and> c = (b_start a + q, lsize l)"
  using assms bump_allocate_eq [OF bump_aligned_no_UB] by (auto simp: outcome_iffs split: if_splits)

interpretation bump: chunk_allocator bump_wf bump_used bump_region bump_allocate
proof unfold_locales
  show "bump_wf s \<Longrightarrow> bump_used s \<subseteq> bump_region s" for s by (auto simp: bump_wf_def bump_used_def bump_region_def)
  fix s l s' c
  assume w: "bump_wf s" and v: "valid_layout l" and "bump_allocate s l = Ok (s', c)"
  then obtain q where q: "bump_aligned s l (b_position s) = Ok q" "s' = s\<lparr>b_position := q + lsize l\<rparr>"
    "c = (b_start s + q, lsize l)" using bump_allocate_Ok by blast
  note Q = bump_aligned_Ok [OF q(1)]
  have "lalign l dvd b_start s + q" using Q by (metis align_up_dvd)
  then show "bump_wf s' \<and> bump_region s' = bump_region s \<and> lsize l \<le> snd c \<and> lalign l dvd fst c \<and> chunk_set c \<subseteq> bump_region s
        \<and> chunk_set c \<inter> bump_used s = {} \<and> bump_used s \<union> chunk_set c \<subseteq> bump_used s'"
    using Q w q(2,3) by (auto simp: bump_wf_def bump_region_def bump_used_def chunk_set_def)
qed

lemma bump_allocate_cases:
  assumes "valid_layout l" and "b_start a + b_position a + lalign l < usize_lim"
    and "align_up (b_start a + b_position a) (lalign l) + lsize l < usize_lim"
  defines "q \<equiv> align_up (b_start a + b_position a) (lalign l) - b_start a"
  shows "bump_allocate a l =
    (if lsize l = 0 then Err SizeIsZero else if b_size a < q + lsize l then Err OutOfMemory
     else Ok (a\<lparr>b_position := q + lsize l\<rparr>, (b_start a + q, lsize l)))"
proof -
  have ge: "b_start a + b_position a \<le> align_up (b_start a + b_position a) (lalign l)"
    using align_up_ge valid_layout_pos [OF assms(1)] by blast
  then have "bump_aligned a l (b_position a) = (if b_size a < q + lsize l then Err OutOfMemory else Ok q)"
    using assms(2,3) align_eq_align_up [OF valid_layout_pos [OF assms(1)] assms(2), where ?'a = allocation_error]
    by (simp add: bump_aligned_def q_def)
  then show ?thesis using bump_allocate_eq [OF bump_aligned_no_UB] by simp
qed

text \<open>An allocation succeeds whatever the alignment of the current position when the largest possible padding fits too.\<close>

lemma bump_allocate_fits:
  assumes "valid_layout l" and "0 < lsize l" and "b_position a + lsize l + lalign l \<le> b_size a + 1"
    and "b_start a + b_size a + lalign l < usize_lim"
  shows "\<exists>p c. bump_allocate a l = Ok (a\<lparr>b_position := p\<rparr>, c) \<and> p + 1 \<le> b_position a + lsize l + lalign l"
proof -
  have pos: "0 < lalign l" by (rule valid_layout_pos [OF assms(1)])
  let ?u = "align_up (b_start a + b_position a) (lalign l)"
  have u: "b_start a + b_position a \<le> ?u" "?u < b_start a + b_position a + lalign l" using align_up_ge [OF pos] align_up_less [OF pos] by auto
  have "b_start a + b_position a + lalign l < usize_lim" "?u + lsize l < usize_lim" using assms(2-4) u by linarith+
  note c = bump_allocate_cases [OF assms(1) this]
  have "\<not> b_size a < ?u - b_start a + lsize l" using u assms(3) by linarith
  then have "bump_allocate a l = Ok (a\<lparr>b_position := ?u - b_start a + lsize l\<rparr>, (b_start a + (?u - b_start a), lsize l))" using c assms(2) by simp
  moreover have "?u - b_start a + lsize l + 1 \<le> b_position a + lsize l + lalign l" using u by linarith
  ultimately show ?thesis by blast
qed

section \<open>Many threads\<close>

definition bump_inv :: "bump_allocator \<Rightarrow> bump_sys \<Rightarrow> bool" where
  "bump_inv a \<sigma> \<longleftrightarrow> bump_wf (bs_alloc \<sigma>) \<and> b_start (bs_alloc \<sigma>) = b_start a \<and> b_size (bs_alloc \<sigma>) = b_size a
     \<and> (\<forall>t l p q. bs_pcs \<sigma> t = Some (BCas l p q) \<longrightarrow> bump_aligned a l p = Ok q)
     \<and> (\<forall>(l, c) \<in> set (bs_chunks \<sigma>). snd c = lsize l \<and> lalign l dvd fst c \<and> chunk_set c \<subseteq> bump_used (bs_alloc \<sigma>))
     \<and> sorted_wrt (\<lambda>x y. chunk_set (snd x) \<inter> chunk_set (snd y) = {}) (bs_chunks \<sigma>)"

lemma bump_aligned_cong: "b_start a = b_start b \<Longrightarrow> b_size a = b_size b \<Longrightarrow> bump_aligned a l p = bump_aligned b l p"
  by (simp add: bump_aligned_def)

lemma bump_exchange_inv:
  assumes "bump_inv a \<sigma>" and "bs_pcs \<sigma> t = Some (BCas l p q)" and "b_position (bs_alloc \<sigma>) = p"
  defines "b \<equiv> (bs_alloc \<sigma>)\<lparr>b_position := q + lsize l\<rparr>"
  shows "bump_inv a (\<sigma>\<lparr>bs_alloc := b, bs_pcs := (bs_pcs \<sigma>)(t \<mapsto> BDone (b_start b + q, lsize l)),
    bs_chunks := (l, (b_start b + q, lsize l)) # bs_chunks \<sigma>\<rparr>)"
proof -
  have i: "bump_wf (bs_alloc \<sigma>)" "b_start (bs_alloc \<sigma>) = b_start a" "b_size (bs_alloc \<sigma>) = b_size a" "bump_aligned a l p = Ok q"
    using assms(1,2) by (auto simp: bump_inv_def)
  note Q = bump_aligned_Ok [OF i(4)]
  have d: "lalign l dvd b_start a + q" using Q by (metis align_up_dvd)
  have sub: "bump_used (bs_alloc \<sigma>) \<subseteq> bump_used b" and new: "chunk_set (b_start a + q, lsize l) \<subseteq> bump_used b"
    and dis: "chunk_set (b_start a + q, lsize l) \<inter> bump_used (bs_alloc \<sigma>) = {}"
    using Q i assms(3) by (auto simp: b_def bump_used_def chunk_set_def)
  have old: "snd c = lsize l' \<and> lalign l' dvd fst c \<and> chunk_set c \<subseteq> bump_used (bs_alloc \<sigma>)" if "(l', c) \<in> set (bs_chunks \<sigma>)" for l' c
    using assms(1) that by (auto simp: bump_inv_def)
  have "\<forall>(l', c) \<in> set ((l, (b_start a + q, lsize l)) # bs_chunks \<sigma>). snd c = lsize l' \<and> lalign l' dvd fst c \<and> chunk_set c \<subseteq> bump_used b"
    using old sub new d by fastforce
  moreover have "sorted_wrt (\<lambda>x y. chunk_set (snd x) \<inter> chunk_set (snd y) = {}) ((l, (b_start a + q, lsize l)) # bs_chunks \<sigma>)"
    using assms(1) old dis by (fastforce simp: bump_inv_def)
  moreover have "b_start b = b_start a" "b_size b = b_size a" "bump_wf b" using i Q by (simp_all add: b_def bump_wf_def)
  ultimately show ?thesis using assms(1) by (simp add: bump_inv_def)
qed

lemma bump_step_inv: "bump_step \<sigma> \<tau> \<Longrightarrow> bump_inv a \<sigma> \<Longrightarrow> bump_inv a \<tau>"
proof (induction rule: bump_step.induct)
  case (bump_work \<sigma> t pc a' pc')
  show ?case
  proof (cases pc)
    case (BTry l p)
    have "bump_aligned (bs_alloc \<sigma>) l p = bump_aligned a l p" using bump_work.prems by (intro bump_aligned_cong) (simp_all add: bump_inv_def)
    then show ?thesis using bump_work BTry by (auto simp: bump_inv_def split: outcome.splits)
  next
    case (BCas l p q)
    show ?thesis
    proof (cases "b_position (bs_alloc \<sigma>) = p")
      case True
      then show ?thesis using bump_exchange_inv [OF bump_work.prems _ True] bump_work.hyps BCas by auto
    next
      case False
      then show ?thesis using bump_work BCas by (auto simp: bump_inv_def)
    qed
  qed (use bump_work in \<open>auto simp: bump_inv_def split: if_splits\<close>)
qed (auto simp: bump_inv_def)

lemma bump_reachable_inv:
  assumes "bump_reachable a \<sigma>" and "bump_wf a"
  shows "bump_inv a \<sigma>"
  using assms(1)
proof (induction rule: bump_reachable.induct)
  case bump_start
  show ?case using assms(2) by (simp add: bump_inv_def bump_sys_init_def)
next
  case (bump_next \<sigma> \<tau>)
  then show ?case using bump_step_inv by blast
qed

section \<open>Correctness\<close>

text \<open>C8: in every interleaving of any number of threads that allocate from one bump allocator, the returned chunks are
  pairwise disjoint, lie inside of the managed memory, have the requested size and are aligned as requested.\<close>

theorem bump_allocations_disjoint:
  assumes "bump_reachable (bump_new ptr n) \<sigma>"
  shows "sorted_wrt (\<lambda>x y. chunk_set (snd x) \<inter> chunk_set (snd y) = {}) (bs_chunks \<sigma>)
    \<and> (\<forall>(l, c) \<in> set (bs_chunks \<sigma>). snd c = lsize l \<and> lalign l dvd fst c \<and> chunk_set c \<subseteq> {ptr ..< ptr + n})"
proof -
  have i: "bump_inv (bump_new ptr n) \<sigma>" using bump_reachable_inv [OF assms] by (simp add: bump_wf_def bump_new_def)
  then have "bump_used (bs_alloc \<sigma>) \<subseteq> {ptr ..< ptr + n}"
    using bump.used_region [of "bs_alloc \<sigma>"] by (auto simp: bump_inv_def bump_region_def bump_new_def)
  then show ?thesis using i by (fastforce simp: bump_inv_def)
qed

theorem bump_allocations_disjoint_witness:
  "\<exists>\<sigma>. bump_reachable (bump_new 16 64) \<sigma> \<and> bs_pcs \<sigma> 1 = Some (BStart \<lparr>lsize = 8, lalign = 8\<rparr>)
    \<and> sorted_wrt (\<lambda>x y. chunk_set (snd x) \<inter> chunk_set (snd y) = {}) (bs_chunks \<sigma>)"
proof -
  let ?l = "\<lparr>lsize = 8, lalign = 8\<rparr>"
  have "valid_layout ?l" by (rule valid_layout_intro [of _ 3]) simp
  then have "bump_step (bump_sys_init (bump_new 16 64)) ((bump_sys_init (bump_new 16 64))\<lparr>bs_pcs := (bs_pcs (bump_sys_init (bump_new 16 64)))(1 \<mapsto> BStart ?l)\<rparr>)"
    by (intro bump_call) (simp_all add: bump_sys_init_def)
  then have r: "bump_reachable (bump_new 16 64) ((bump_sys_init (bump_new 16 64))\<lparr>bs_pcs := (bs_pcs (bump_sys_init (bump_new 16 64)))(1 \<mapsto> BStart ?l)\<rparr>)"
    by (rule bump_next [OF bump_start])
  show ?thesis using bump_allocations_disjoint [OF r] r by (intro exI [of _ "(bump_sys_init (bump_new 16 64))\<lparr>bs_pcs := (bs_pcs (bump_sys_init (bump_new 16 64)))(1 \<mapsto> BStart ?l)\<rparr>"]) simp
qed

end
