(* ===== verification/OneChunkAllocator.thy ===== *)
theory OneChunkAllocator
  imports Allocator_Contract
begin

text \<open>
  \<^verbatim>\<open>elkodon_bb/memory/src/one_chunk_allocator.rs\<close>: an allocator that hands out all of its memory as one chunk.
  \<open>oc_chunk\<close> is the address of the chunk, 0 when there is none.
\<close>

section \<open>State and operations\<close>

record one_chunk_allocator =
  oc_start :: usize
  oc_size :: usize
  oc_chunk :: usize

definition oc_new :: "nat \<Rightarrow> usize \<Rightarrow> one_chunk_allocator" where
  "oc_new ptr size' = \<lparr>oc_start = ptr, oc_size = size', oc_chunk = 0\<rparr>"

definition has_chunk_available :: "one_chunk_allocator \<Rightarrow> bool" where
  "has_chunk_available a \<longleftrightarrow> oc_chunk a = 0"

definition is_allocated_chunk :: "one_chunk_allocator \<Rightarrow> nat \<Rightarrow> bool" where
  "is_allocated_chunk a ptr \<longleftrightarrow> ptr = oc_chunk a"

definition release_chunk :: "one_chunk_allocator \<Rightarrow> one_chunk_allocator" where
  "release_chunk a = a\<lparr>oc_chunk := 0\<rparr>"

text \<open>\<^verbatim>\<open>NonNull::new(..).unwrap()\<close> panics on a null address.\<close>

definition non_null :: "chunk \<Rightarrow> ('e, chunk) outcome" where
  "non_null c = (if fst c = 0 then Panic else Ok c)"

definition oc_allocate :: "one_chunk_allocator \<Rightarrow> layout \<Rightarrow> (allocation_error, one_chunk_allocator \<times> chunk) outcome" where
  "oc_allocate a l =
     obind (align (oc_start a) (lalign l)) (\<lambda>adjusted_start.
       if \<not> has_chunk_available a then Err OutOfMemory
       else obind (usub adjusted_start (oc_start a)) (\<lambda>d. obind (usub (oc_size a) d) (\<lambda>available_size.
         if available_size \<le> lsize l then Err OutOfMemory
         else omap (\<lambda>c. (a\<lparr>oc_chunk := adjusted_start\<rparr>, c)) (non_null (adjusted_start, available_size)))))"

definition oc_deallocate :: "one_chunk_allocator \<Rightarrow> nat \<Rightarrow> (deallocation_error, one_chunk_allocator) outcome" where
  "oc_deallocate a ptr =
     (if is_allocated_chunk a ptr then Ok (release_chunk a) else Err Dealloc_ProvidedPointerNotContainedInAllocator)"

definition oc_grow :: "one_chunk_allocator \<Rightarrow> nat \<Rightarrow> layout \<Rightarrow> layout \<Rightarrow> (allocation_grow_error, chunk) outcome" where
  "oc_grow a ptr old_layout new_layout =
     (if \<not> is_allocated_chunk a ptr then Err Grow_ProvidedPointerNotContainedInAllocator
      else if lsize new_layout \<le> lsize old_layout then Err GrowWouldShrink
      else if lalign old_layout < lalign new_layout then Err Grow_AlignmentFailure
      else obind (usub (oc_chunk a) (oc_start a)) (\<lambda>d. obind (usub (oc_size a) d) (\<lambda>available_size.
        if available_size < lsize new_layout then Err Grow_OutOfMemory
        else non_null (ptr, available_size))))"

definition oc_shrink :: "one_chunk_allocator \<Rightarrow> nat \<Rightarrow> layout \<Rightarrow> layout \<Rightarrow> (allocation_shrink_error, chunk) outcome" where
  "oc_shrink a ptr old_layout new_layout =
     (if \<not> is_allocated_chunk a ptr then Err Shrink_ProvidedPointerNotContainedInAllocator
      else if lsize old_layout \<le> lsize new_layout then Err ShrinkWouldGrow
      else if lalign old_layout < lalign new_layout then Err Shrink_AlignmentFailure
      else non_null (ptr, lsize new_layout))"

section \<open>The contract\<close>

definition oc_wf :: "one_chunk_allocator \<Rightarrow> bool" where
  "oc_wf a \<longleftrightarrow> 0 < oc_start a \<and> (oc_chunk a = 0 \<or> oc_start a \<le> oc_chunk a \<and> oc_chunk a \<le> oc_start a + oc_size a)"

definition oc_used :: "one_chunk_allocator \<Rightarrow> nat set" where
  "oc_used a = (if oc_chunk a = 0 then {} else {oc_chunk a ..< oc_start a + oc_size a})"

definition oc_region :: "one_chunk_allocator \<Rightarrow> nat set" where
  "oc_region a = {oc_start a ..< oc_start a + oc_size a}"

lemma oc_allocate_Ok:
  assumes "oc_allocate a l = Ok (a', c)"
  shows "0 < lalign l \<and> oc_chunk a = 0 \<and> a' = a\<lparr>oc_chunk := fst c\<rparr> \<and> fst c = align_up (oc_start a) (lalign l) \<and> 0 < fst c
    \<and> fst c + snd c = oc_start a + oc_size a \<and> lsize l < snd c"
proof -
  obtain s where s: "align (oc_start a) (lalign l) = (Ok s :: (allocation_error, _) outcome)" using assms
    by (auto simp: oc_allocate_def outcome_iffs)
  note A = align_eq_Ok_D [OF s] 
  then have "oc_start a \<le> s" using align_up_ge by blast
  then show ?thesis using assms s A
    by (auto simp: oc_allocate_def outcome_iffs has_chunk_available_def non_null_def split: if_splits)
qed

interpretation oc: chunk_allocator oc_wf oc_used oc_region oc_allocate
proof unfold_locales
  show "oc_wf s \<Longrightarrow> oc_used s \<subseteq> oc_region s" for s by (auto simp: oc_wf_def oc_used_def oc_region_def)
  fix s l s' c
  assume w: "oc_wf s" and "oc_allocate s l = Ok (s', c)"
  note A = oc_allocate_Ok [OF this(2)]
  have "oc_start s \<le> fst c" "lalign l dvd fst c" using A by (auto simp: align_up_ge)
  then show "oc_wf s' \<and> oc_region s' = oc_region s \<and> lsize l \<le> snd c \<and> lalign l dvd fst c \<and> chunk_set c \<subseteq> oc_region s
      \<and> chunk_set c \<inter> oc_used s = {} \<and> oc_used s \<union> chunk_set c \<subseteq> oc_used s'"
    using A w by (auto simp: oc_wf_def oc_region_def oc_used_def chunk_set_def)
qed

lemma oc_allocate_fits:
  assumes "0 < lalign l" and "oc_start a + lalign l < usize_lim" and "0 < oc_start a" and "oc_chunk a = 0"
    and "align_up (oc_start a) (lalign l) \<le> oc_start a + oc_size a"
  defines "s \<equiv> align_up (oc_start a) (lalign l)"
  shows "oc_allocate a l =
    (if oc_start a + oc_size a - s \<le> lsize l then Err OutOfMemory
     else Ok (a\<lparr>oc_chunk := s\<rparr>, (s, oc_start a + oc_size a - s)))"
proof -
  have "oc_start a \<le> s" using align_up_ge [OF assms(1)] by (simp add: s_def)
  then show ?thesis using assms align_eq_align_up [OF assms(1,2), where ?'a = allocation_error]
    by (auto simp: oc_allocate_def has_chunk_available_def non_null_def)
qed

section \<open>Correctness\<close>

text \<open>The one chunk allocator rejects a request for exactly the memory that it has: with \<open>n\<close> bytes behind
  the aligned start, \<^verbatim>\<open>allocate\<close> of a layout of size \<open>n\<close> reports that it is out of memory, every smaller layout
  gets the chunk of \<open>n\<close> bytes, and \<^verbatim>\<open>grow\<close> of that chunk to the size \<open>n\<close> succeeds.\<close>

theorem one_chunk_rejects_exact_fit:
  assumes "valid_layout l" and "oc_start a + lalign l < usize_lim" and "0 < oc_start a" and "oc_chunk a = 0"
    and "align_up (oc_start a) (lalign l) + n = oc_start a + oc_size a"
  shows "oc_allocate a l =
    (if n \<le> lsize l then Err OutOfMemory
     else Ok (a\<lparr>oc_chunk := align_up (oc_start a) (lalign l)\<rparr>, (align_up (oc_start a) (lalign l), n)))
    \<and> (\<forall>a' c. oc_allocate a l = Ok (a', c) \<longrightarrow>
         oc_grow a' (fst c) l (l\<lparr>lsize := n\<rparr>) = Ok c \<and> oc_deallocate a' (fst c) = Ok a)"
proof -
  have p: "0 < lalign l" using valid_layout_pos [OF assms(1)] .
  have le: "align_up (oc_start a) (lalign l) \<le> oc_start a + oc_size a"
    and av: "oc_start a + oc_size a - align_up (oc_start a) (lalign l) = n" using assms(5) by linarith+
  note F = oc_allocate_fits [OF p assms(2-4) le, unfolded av]
  have ge: "oc_start a \<le> align_up (oc_start a) (lalign l)" using align_up_ge [OF p] .
  have "oc_size a - (align_up (oc_start a) (lalign l) - oc_start a) = n" "align_up (oc_start a) (lalign l) - oc_start a \<le> oc_size a"
    using assms(5) ge by linarith+
  then show ?thesis
    using F ge assms(3,4)
    by (auto simp: oc_grow_def oc_deallocate_def is_allocated_chunk_def release_chunk_def non_null_def)
qed

theorem one_chunk_rejects_exact_fit_witness:
  "oc_allocate (oc_new 64 128) \<lparr>lsize = 128, lalign = 8\<rparr> = Err OutOfMemory"
proof -
  have "valid_layout \<lparr>lsize = 128, lalign = 8\<rparr>" by (rule valid_layout_intro [of _ 3]) simp
  then show ?thesis using one_chunk_rejects_exact_fit [of "\<lparr>lsize = 128, lalign = 8\<rparr>" "oc_new 64 128" 128]
    by (simp add: oc_new_def usize_lim_def align_up_def)
qed

end
