(* ===== verification/PoolAllocator.thy ===== *)
theory PoolAllocator
  imports Allocator_Contract UniqueIndexSet
begin

text \<open>
  \<^verbatim>\<open>elkodon_bb/memory/src/pool_allocator.rs\<close>: buckets of equal size, whose indices are managed by the unique
  index set. The publisher's data segment is such a pool. The set of indices is used through its contract
  (\<open>uis\<close>); the pool then implements the contract of an allocator, provided that the bucket size is a multiple of
  the bucket alignment.
\<close>

section \<open>State and operations\<close>

record pool_allocator =
  p_buckets :: unique_index_set
  p_bucket_size :: usize
  p_alignment :: usize
  p_start :: usize
  p_size :: usize
  p_init :: bool

definition calc_number_of_buckets :: "layout \<Rightarrow> nat \<Rightarrow> usize \<Rightarrow> ('e, usize) outcome" where
  "calc_number_of_buckets bucket_layout ptr size' =
     obind (align ptr (lalign bucket_layout)) (\<lambda>adjusted_start.
       obind (align (lsize bucket_layout) (lalign bucket_layout)) (\<lambda>bucket_size.
         obind (uadd ptr size') (\<lambda>e. obind (usub e adjusted_start) (\<lambda>n. udiv n bucket_size))))"

definition pool_new_uninit :: "layout \<Rightarrow> nat \<Rightarrow> usize \<Rightarrow> ('e, pool_allocator) outcome" where
  "pool_new_uninit bucket_layout ptr size' =
     obind (align ptr (lalign bucket_layout)) (\<lambda>adjusted_start.
       obind (calc_number_of_buckets bucket_layout ptr size') (\<lambda>n.
         Ok \<lparr>p_buckets = uis_new_uninit n, p_bucket_size = lsize bucket_layout, p_alignment = lalign bucket_layout,
             p_start = adjusted_start, p_size = size', p_init = False\<rparr>))"

definition pool_initialize ::
  "(layout \<Rightarrow> (allocation_error, chunk) outcome) \<Rightarrow> pool_allocator \<Rightarrow> (allocation_error, pool_allocator) outcome" where
  "pool_initialize allocate p =
     (if p_init p then Panic
      else omap (\<lambda>s. p\<lparr>p_buckets := s, p_init := True\<rparr>) (uis_init allocate (p_buckets p)))"

definition pool_memory_size :: "layout \<Rightarrow> usize \<Rightarrow> ('e, usize) outcome" where
  "pool_memory_size bucket_layout size' = obind (udiv size' (lsize bucket_layout)) uis_const_memory_size"

definition pool_verify_init :: "pool_allocator \<Rightarrow> ('e, unit) outcome" where
  "pool_verify_init p = (if p_init p then Ok () else Panic)"

definition number_of_buckets :: "pool_allocator \<Rightarrow> u32" where
  "number_of_buckets p = u_capacity (p_buckets p)"

definition pool_get_index :: "pool_allocator \<Rightarrow> nat \<Rightarrow> ('e, u32 option) outcome" where
  "pool_get_index p position =
     (if position < p_start p then Ok None
      else obind (uadd (p_start p) (p_size p)) (\<lambda>e.
        if e < position then Ok None
        else obind (usub position (p_start p)) (\<lambda>d. omap (\<lambda>i. Some (word_of_nat i)) (udiv d (p_bucket_size p)))))"

definition pool_allocate :: "pool_allocator \<Rightarrow> layout \<Rightarrow> (allocation_error, pool_allocator \<times> chunk) outcome" where
  "pool_allocate p l =
     obind (pool_verify_init p) (\<lambda>_.
       if p_bucket_size p < lsize l then Err SizeTooLarge
       else if p_alignment p < lalign l then Err AlignmentFailure
       else obind (acquire_raw_index (p_buckets p)) (\<lambda>(s, r).
         case r of
           Some v \<Rightarrow> obind (umul (unat v) (p_bucket_size p)) (\<lambda>o'. obind (uadd (p_start p) o') (\<lambda>addr.
             Ok (p\<lparr>p_buckets := s\<rparr>, (addr, lsize l))))
         | None \<Rightarrow> Err OutOfMemory))"

definition pool_deallocate :: "pool_allocator \<Rightarrow> nat \<Rightarrow> (deallocation_error, pool_allocator) outcome" where
  "pool_deallocate p ptr =
     obind (pool_verify_init p) (\<lambda>_. obind (pool_get_index p ptr) (\<lambda>r.
       case r of
         Some index \<Rightarrow> omap (\<lambda>s. p\<lparr>p_buckets := s\<rparr>) (release_raw_index (p_buckets p) index)
       | None \<Rightarrow> Err Dealloc_ProvidedPointerNotContainedInAllocator))"

definition pool_grow :: "pool_allocator \<Rightarrow> nat \<Rightarrow> layout \<Rightarrow> layout \<Rightarrow> (allocation_grow_error, chunk) outcome" where
  "pool_grow p ptr old_layout new_layout =
     obind (pool_verify_init p) (\<lambda>_. obind (pool_get_index p ptr) (\<lambda>r.
       if r = None then Err Grow_ProvidedPointerNotContainedInAllocator
       else if lsize new_layout \<le> lsize old_layout then Err GrowWouldShrink
       else if p_alignment p < lalign new_layout then Err Grow_AlignmentFailure
       else if p_bucket_size p < lsize new_layout then Err Grow_OutOfMemory
       else if ptr = 0 then Panic else Ok (ptr, lsize new_layout)))"

definition pool_shrink :: "pool_allocator \<Rightarrow> nat \<Rightarrow> layout \<Rightarrow> layout \<Rightarrow> (allocation_shrink_error, chunk) outcome" where
  "pool_shrink p ptr old_layout new_layout =
     obind (pool_verify_init p) (\<lambda>_. obind (pool_get_index p ptr) (\<lambda>r.
       if r = None then Err Shrink_ProvidedPointerNotContainedInAllocator
       else if lsize old_layout \<le> lsize new_layout then Err ShrinkWouldGrow
       else if p_alignment p < lalign new_layout then Err Shrink_AlignmentFailure
       else if ptr = 0 then Panic else Ok (ptr, lsize new_layout)))"

definition fixed_pool_new :: "usize \<Rightarrow> layout \<Rightarrow> nat \<Rightarrow> usize \<Rightarrow> ('e, pool_allocator) outcome" where
  "fixed_pool_new MAX_NUMBER_OF_BUCKETS bucket_layout ptr size' =
     obind (align ptr (lalign bucket_layout)) (\<lambda>adjusted_start.
       obind (align (lsize bucket_layout) (lalign bucket_layout)) (\<lambda>bucket_size.
         obind (uadd ptr size') (\<lambda>e. obind (usub e adjusted_start) (\<lambda>m. obind (udiv m bucket_size) (\<lambda>n.
           Ok \<lparr>p_buckets = uis_new (min n MAX_NUMBER_OF_BUCKETS)
                 (map (\<lambda>i. Some (word_of_nat i + 1)) [0 ..< MAX_NUMBER_OF_BUCKETS] @ [Some (word_of_nat MAX_NUMBER_OF_BUCKETS + 1)]),
               p_bucket_size = lsize bucket_layout, p_alignment = lalign bucket_layout, p_start = adjusted_start,
               p_size = size', p_init = True\<rparr>)))))"

section \<open>Invariant\<close>

definition pool_bucket :: "pool_allocator \<Rightarrow> u32 \<Rightarrow> nat set" where
  "pool_bucket p i = {p_start p + unat i * p_bucket_size p ..< p_start p + unat i * p_bucket_size p + p_bucket_size p}"

definition pool_wf :: "pool_allocator \<Rightarrow> bool" where
  "pool_wf p \<longleftrightarrow> p_init p \<and> uis_wf (p_buckets p) \<and> 0 < p_bucket_size p \<and> (\<exists>k. p_alignment p = 2 ^ k)
     \<and> p_alignment p dvd p_start p \<and> p_alignment p dvd p_bucket_size p
     \<and> p_start p + p_size p < usize_lim \<and> unat (u_capacity (p_buckets p)) * p_bucket_size p \<le> p_size p"

definition pool_region :: "pool_allocator \<Rightarrow> nat set" where
  "pool_region p = {p_start p ..< p_start p + unat (u_capacity (p_buckets p)) * p_bucket_size p}"

definition pool_used :: "pool_allocator \<Rightarrow> nat set" where
  "pool_used p = \<Union> (pool_bucket p ` {i. i < u_capacity (p_buckets p) \<and> i \<notin> set (uis_free (p_buckets p))})"

lemma bucket_end:
  assumes "i < u_capacity (p_buckets p)"
  shows "unat i * p_bucket_size p + p_bucket_size p \<le> unat (u_capacity (p_buckets p)) * p_bucket_size p"
proof -
  have "Suc (unat i) \<le> unat (u_capacity (p_buckets p))" using assms by (simp add: word_less_nat_alt)
  then have "Suc (unat i) * p_bucket_size p \<le> unat (u_capacity (p_buckets p)) * p_bucket_size p" by (rule mult_le_mono1)
  then show ?thesis by simp
qed

lemma bucket_region: "i < u_capacity (p_buckets p) \<Longrightarrow> pool_bucket p i \<subseteq> pool_region p"
  using bucket_end [of i p] by (auto simp: pool_bucket_def pool_region_def)

lemma bucket_disjoint:
  assumes "i \<noteq> j"
  shows "pool_bucket p i \<inter> pool_bucket p j = {}"
proof -
  have less: "pool_bucket p i \<inter> pool_bucket p j = {}" if "unat i < unat j" for i j
  proof -
    have "Suc (unat i) * p_bucket_size p \<le> unat j * p_bucket_size p" using that by (intro mult_le_mono1) simp
    then show ?thesis by (auto simp: pool_bucket_def)
  qed
  have "unat i \<noteq> unat j" using assms unsigned_word_eqI by blast
  then show ?thesis using less [of i j] less [of j i] by (metis inf_commute nat_neq_iff)
qed

lemma pool_allocate_none:
  assumes "pool_wf p" and "lsize l \<le> p_bucket_size p" and "lalign l \<le> p_alignment p" and "uis_free (p_buckets p) = []"
  shows "pool_allocate p l = Err OutOfMemory"
  using assms by (simp add: pool_allocate_def pool_verify_init_def pool_wf_def uis.acquire_none)

lemma pool_allocate_some:
  assumes "pool_wf p" and "lsize l \<le> p_bucket_size p" and "lalign l \<le> p_alignment p" and "uis_free (p_buckets p) = i # is"
    and "0 < uis_budget (p_buckets p)"
  shows "\<exists>s. pool_allocate p l = Ok (p\<lparr>p_buckets := s\<rparr>, (p_start p + unat i * p_bucket_size p, lsize l)) \<and> uis_wf s
    \<and> uis_free s = is \<and> u_capacity s = u_capacity (p_buckets p) \<and> uis_budget s = uis_budget (p_buckets p) - 1"
proof -
  have w: "uis_wf (p_buckets p)" and sz: "p_start p + p_size p < usize_lim" "unat (u_capacity (p_buckets p)) * p_bucket_size p \<le> p_size p" "p_init p"
    using assms(1) by (auto simp: pool_wf_def)
  obtain s where s: "acquire_raw_index (p_buckets p) = (Ok (s, Some i) :: (allocation_error, _) outcome)" "uis_wf s" "uis_free s = is"
    "u_capacity s = u_capacity (p_buckets p)" "uis_budget s = uis_budget (p_buckets p) - 1"
    using acquire_raw_index_Cons [OF w assms(4,5)] by blast
  have "i < u_capacity (p_buckets p)" using uis.free_universe [OF w] assms(4) by auto
  then have "p_start p + unat i * p_bucket_size p < usize_lim" using bucket_end [of i p] sz by linarith
  then have "pool_allocate p l = Ok (p\<lparr>p_buckets := s\<rparr>, (p_start p + unat i * p_bucket_size p, lsize l))"
    using assms(2,3) s(1) sz(3) by (simp add: pool_allocate_def pool_verify_init_def umul_def)
  then show ?thesis using s by blast
qed

lemma pool_wf_buckets:
  "pool_wf p \<Longrightarrow> uis_wf s \<Longrightarrow> u_capacity s = u_capacity (p_buckets p) \<Longrightarrow> pool_wf (p\<lparr>p_buckets := s\<rparr>)"
  by (simp add: pool_wf_def)

lemma pool_used_take:
  assumes "pool_wf p" and "uis_free (p_buckets p) = i # uis_free s" and "u_capacity s = u_capacity (p_buckets p)"
  shows "pool_used (p\<lparr>p_buckets := s\<rparr>) = pool_used p \<union> pool_bucket p i" and "pool_bucket p i \<inter> pool_used p = {}"
proof -
  have w: "uis_wf (p_buckets p)" using assms(1) by (simp add: pool_wf_def)
  have i: "i < u_capacity (p_buckets p)" "i \<notin> set (uis_free s)" using uis.free_universe [OF w] uis_wfD(3) [OF w] assms(2) by auto
  have e: "pool_bucket (p\<lparr>p_buckets := s\<rparr>) = pool_bucket p" by (simp add: pool_bucket_def fun_eq_iff)
  show "pool_used (p\<lparr>p_buckets := s\<rparr>) = pool_used p \<union> pool_bucket p i"
    using i assms(2,3) by (auto simp: pool_used_def e)
  show "pool_bucket p i \<inter> pool_used p = {}"
    using assms(2) bucket_disjoint [of i _ p] by (force simp: pool_used_def)
qed

interpretation pool: chunk_allocator pool_wf pool_used pool_region pool_allocate
proof unfold_locales
  show "pool_wf s \<Longrightarrow> pool_used s \<subseteq> pool_region s" for s using bucket_region [of _ s] by (auto simp: pool_used_def)
  fix p l p' c
  assume w: "pool_wf p" and v: "valid_layout l" and a: "pool_allocate p l = Ok (p', c)"
  then have le: "lsize l \<le> p_bucket_size p" "lalign l \<le> p_alignment p"
    by (auto simp: pool_allocate_def outcome_iffs pool_wf_def not_less split: if_splits)
  obtain i "is" where f: "uis_free (p_buckets p) = i # is"
    using a pool_allocate_none [OF w le] by (cases "uis_free (p_buckets p)") auto
  have "uis_budget (p_buckets p) \<noteq> 0"
  proof
    assume "uis_budget (p_buckets p) = 0"
    then have "acquire_raw_index (p_buckets p) = (Panic :: (allocation_error, _) outcome)"
      using acquire_raw_index_overflow [of "p_buckets p"] w f by (simp add: uis_budget_0 pool_wf_def)
    then show False using a le by (simp add: pool_allocate_def outcome_iffs)
  qed
  then obtain s where s: "p' = p\<lparr>p_buckets := s\<rparr>" "c = (p_start p + unat i * p_bucket_size p, lsize l)" "uis_wf s"
    "uis_free s = is" "u_capacity s = u_capacity (p_buckets p)"
    using pool_allocate_some [OF w le f] a by auto
  have i: "i < u_capacity (p_buckets p)" using uis.free_universe [of "p_buckets p"] w f by (auto simp: pool_wf_def)
  note U = pool_used_take [OF w f [folded s(4)] s(5)]
  have cs: "chunk_set c \<subseteq> pool_bucket p i" using le(1) s(2) by (auto simp: chunk_set_def pool_bucket_def)
  have "lalign l dvd p_alignment p"
    using w v le(2) valid_layout_dvd [of l "\<lparr>lsize = 0, lalign = p_alignment p\<rparr>"] by (auto simp: pool_wf_def valid_layout_def)
  then have "lalign l dvd fst c" using w s(2) by (auto simp: pool_wf_def intro!: dvd_add dvd_mult intro: dvd_trans)
  then show "pool_wf p' \<and> pool_region p' = pool_region p \<and> lsize l \<le> snd c \<and> lalign l dvd fst c \<and> chunk_set c \<subseteq> pool_region p
      \<and> chunk_set c \<inter> pool_used p = {} \<and> pool_used p \<union> chunk_set c \<subseteq> pool_used p'"
    using pool_wf_buckets [OF w s(3,5)] s(1,2,5) cs U bucket_region [OF i] by (auto simp: pool_region_def)
qed

section \<open>Releasing\<close>

lemma pool_get_index_bucket:
  assumes "pool_wf p" and "i < u_capacity (p_buckets p)"
  shows "pool_get_index p (p_start p + unat i * p_bucket_size p) = Ok (Some i)"
proof -
  have "unat i * p_bucket_size p \<le> p_size p" using bucket_end [OF assms(2)] assms(1) by (simp add: pool_wf_def)
  then show ?thesis using assms(1) by (simp add: pool_get_index_def pool_wf_def)
qed

lemma pool_deallocate_bucket:
  assumes "pool_wf p" and "i < u_capacity (p_buckets p)" and "i \<notin> set (uis_free (p_buckets p))" and "0 < uis_budget (p_buckets p)"
  shows "\<exists>p'. pool_deallocate p (p_start p + unat i * p_bucket_size p) = Ok p' \<and> pool_wf p' \<and> pool_used p' = pool_used p - pool_bucket p i
    \<and> uis_free (p_buckets p') = i # uis_free (p_buckets p)"
proof -
  have w: "uis_wf (p_buckets p)" and init: "p_init p" using assms(1) by (auto simp: pool_wf_def)
  obtain s where s: "release_raw_index (p_buckets p) i = (Ok s :: (deallocation_error, _) outcome)" "uis_wf s"
    "uis_free s = i # uis_free (p_buckets p)" "u_capacity s = u_capacity (p_buckets p)"
    using release_raw_index_Ok [OF w assms(2-4)] by blast
  let ?p = "p\<lparr>p_buckets := s\<rparr>"
  have "pool_deallocate p (p_start p + unat i * p_bucket_size p) = Ok ?p"
    using s(1) init by (simp add: pool_deallocate_def pool_verify_init_def pool_get_index_bucket [OF assms(1,2)])
  moreover have wf: "pool_wf ?p" using pool_wf_buckets [OF assms(1) s(2,4)] .
  moreover have "pool_used p = pool_used ?p \<union> pool_bucket p i" "pool_bucket p i \<inter> pool_used ?p = {}"
  proof -
    have b: "pool_bucket ?p i = pool_bucket p i" "?p\<lparr>p_buckets := p_buckets p\<rparr> = p" by (simp_all add: pool_bucket_def)
    show "pool_used p = pool_used ?p \<union> pool_bucket p i" "pool_bucket p i \<inter> pool_used ?p = {}"
      using pool_used_take [OF wf, of i "p_buckets p"] s(3,4) b by simp_all
  qed
  ultimately show ?thesis using s(3) by (intro exI [of _ ?p]) auto
qed

section \<open>Creation\<close>

lemma fixed_pool_new_wf:
  assumes "valid_layout bl" and "0 < lsize bl" and "lalign bl dvd lsize bl" and "m + 1 < 2 ^ 32"
    and "ptr + lalign bl < usize_lim" and "lsize bl + lalign bl < usize_lim" and "align_up ptr (lalign bl) \<le> ptr + n"
    and "align_up ptr (lalign bl) + n < usize_lim"
  defines "k \<equiv> min ((ptr + n - align_up ptr (lalign bl)) div lsize bl) m"
  shows "\<exists>p. fixed_pool_new m bl ptr n = (Ok p :: ('e, _) outcome) \<and> pool_wf p \<and> pool_used p = {} \<and> pool_region p \<subseteq> {ptr ..< ptr + n}
    \<and> uis_free (p_buckets p) = map word_of_nat [0 ..< k] \<and> uis_budget (p_buckets p) = 2 ^ 32 - 1
    \<and> p_bucket_size p = lsize bl \<and> p_alignment p = lalign bl"
proof -
  have a: "0 < lalign bl" using valid_layout_pos [OF assms(1)] .
  let ?s = "align_up ptr (lalign bl)"
  have ge: "ptr \<le> ?s" using align_up_ge [OF a] .
  have al: "align_up (lsize bl) (lalign bl) = lsize bl" using assms(3) by (simp add: align_up_def)
  let ?u = "uis_new k (map (\<lambda>i. Some (word_of_nat i + 1)) [0 ..< m] @ [Some (word_of_nat m + 1)])"
  let ?p = "\<lparr>p_buckets = ?u, p_bucket_size = lsize bl, p_alignment = lalign bl, p_start = ?s, p_size = n, p_init = True\<rparr>"
  have k: "k \<le> m" by (simp add: k_def)
  then have u: "uis_wf ?u \<and> uis_free ?u = map word_of_nat [0 ..< k] \<and> uis_budget ?u = 2 ^ 32 - 1"
    using assms(4) by (intro uis_initial) (auto simp: uis_new_def nth_append add.commute)
  have uk: "unat (u_capacity ?u) = k" using k assms(4) by (simp add: uis_new_def unat_word_of_nat_u32)
  have "ptr + n < usize_lim" using ge assms(8) by linarith
  then have new: "fixed_pool_new m bl ptr n = (Ok ?p :: ('e, _) outcome)"
    using assms(2,7) align_eq_align_up [OF a assms(5), where ?'a = 'e] align_eq_align_up [OF a assms(6), where ?'a = 'e]
    by (simp add: fixed_pool_new_def al k_def)
  have "k * lsize bl \<le> (ptr + n - ?s) div lsize bl * lsize bl" by (simp add: k_def)
  then have room: "k * lsize bl \<le> ptr + n - ?s" using div_times_less_eq_dividend le_trans by blast
  have "k * lsize bl \<le> n" using room ge by linarith
  then have wf: "pool_wf ?p"
    using u uk assms(1-3,8) a by (simp add: pool_wf_def valid_layout_def)
  have "i \<in> set (uis_free ?u)" if "i < u_capacity ?u" for i
  proof -
    have "unat i < k" using that uk by (simp add: word_less_nat_alt)
    then show ?thesis using u by (auto intro!: image_eqI [of _ _ "unat i"])
  qed
  then have "pool_used ?p = {}" by (auto simp: pool_used_def)
  moreover have "pool_region ?p \<subseteq> {ptr ..< ptr + n}" using room ge assms(7) uk by (auto simp: pool_region_def)
  ultimately show ?thesis using new wf u by (intro exI [of _ ?p]) simp
qed

lemma pool_full_used:
  assumes "0 < p_bucket_size p" and "uis_free (p_buckets p) = []"
  shows "pool_region p \<subseteq> pool_used p"
proof
  fix x assume x: "x \<in> pool_region p"
  let ?k = "(x - p_start p) div p_bucket_size p"
  have k: "?k < unat (u_capacity (p_buckets p))" using x by (auto simp: pool_region_def less_mult_imp_div_less)
  then have uk: "unat (word_of_nat ?k :: u32) = ?k"
    using unsigned_less [of "u_capacity (p_buckets p)", where ?'a = nat] by (intro unat_word_of_nat_u32) simp
  then have "word_of_nat ?k < u_capacity (p_buckets p)" using k by (simp add: word_less_nat_alt)
  moreover have "?k * p_bucket_size p \<le> x - p_start p" "x - p_start p < ?k * p_bucket_size p + p_bucket_size p"
    using assms(1) by (simp, metis add_less_cancel_left div_mult_mod_eq mod_less_divisor)
  then have "p_start p + ?k * p_bucket_size p \<le> x" "x < p_start p + ?k * p_bucket_size p + p_bucket_size p"
    using x by (simp_all only: pool_region_def atLeastLessThan_iff) linarith+
  then have "x \<in> pool_bucket p (word_of_nat ?k)" using uk by (simp add: pool_bucket_def)
  ultimately show "x \<in> pool_used p" using assms(2) by (auto simp: pool_used_def)
qed

section \<open>Correctness\<close>

text \<open>C9: the pool allocator, with a bucket size that is a multiple of the alignment, on every branch: too large
  and too strictly aligned requests and requests without a free bucket are refused with their error and change nothing; every other
  request returns a chunk of the requested size, aligned as requested, inside of the memory and disjoint from all memory in
  use; releasing this chunk gives the bucket back.\<close>

theorem pool_allocator_correct:
  assumes "pool_wf p" and "valid_layout l" and "1 < uis_budget (p_buckets p)"
  shows "if p_bucket_size p < lsize l then pool_allocate p l = Err SizeTooLarge
    else if p_alignment p < lalign l then pool_allocate p l = Err AlignmentFailure
    else if pool_used p = pool_region p then pool_allocate p l = Err OutOfMemory
    else \<exists>p' c p''. pool_allocate p l = Ok (p', c) \<and> pool_wf p' \<and> snd c = lsize l \<and> lalign l dvd fst c
           \<and> chunk_set c \<subseteq> pool_region p \<and> chunk_set c \<inter> pool_used p = {}
           \<and> pool_deallocate p' (fst c) = Ok p'' \<and> pool_wf p'' \<and> pool_used p'' = pool_used p"
proof -
  have init: "p_init p" and w: "uis_wf (p_buckets p)" and bs: "0 < p_bucket_size p" using assms(1) by (auto simp: pool_wf_def)
  have big: "pool_allocate p l = Err SizeTooLarge" if "p_bucket_size p < lsize l"
    using that init by (simp add: pool_allocate_def pool_verify_init_def)
  have strict: "pool_allocate p l = Err AlignmentFailure" if "\<not> p_bucket_size p < lsize l" "p_alignment p < lalign l"
    using that init by (simp add: pool_allocate_def pool_verify_init_def)
  show ?thesis
  proof (cases "p_bucket_size p < lsize l \<or> p_alignment p < lalign l")
    case True
    then show ?thesis using big strict by auto
  next
    case False
    then have le: "lsize l \<le> p_bucket_size p" "lalign l \<le> p_alignment p" by auto
    show ?thesis
    proof (cases "uis_free (p_buckets p)")
      case Nil
      have "pool_region p \<subseteq> pool_used p" by (rule pool_full_used [OF bs Nil])
      then have "pool_used p = pool_region p" using pool.used_region [OF assms(1)] by blast
      then show ?thesis using pool_allocate_none [OF assms(1) le Nil] le by simp
    next
      case (Cons i "is")
      obtain s where s: "pool_allocate p l = Ok (p\<lparr>p_buckets := s\<rparr>, (p_start p + unat i * p_bucket_size p, lsize l))" "uis_wf s"
        "uis_free s = is" "u_capacity s = u_capacity (p_buckets p)" "uis_budget s = uis_budget (p_buckets p) - 1"
        using pool_allocate_some [OF assms(1) le Cons] assms(3) by auto
      let ?p = "p\<lparr>p_buckets := s\<rparr>"
      have i: "i < u_capacity (p_buckets p)" "i \<notin> set is" using uis.free_universe [OF w] uis_wfD(3) [OF w] Cons by auto
      note A = pool.allocate_chunk [OF assms(1,2) s(1)] and U = pool_used_take [OF assms(1) Cons [folded s(3)] s(4)]
      obtain p'' where d: "pool_deallocate ?p (p_start p + unat i * p_bucket_size p) = Ok p''" "pool_wf p''" "pool_used p'' = pool_used ?p - pool_bucket p i"
        using pool_deallocate_bucket [of ?p i] A i s(3-5) assms(3) by (auto simp: pool_bucket_def)
      have "p_start p + unat i * p_bucket_size p \<in> pool_bucket p i" using bs by (simp add: pool_bucket_def)
      then have ne: "pool_used p \<noteq> pool_region p" using U(2) bucket_region [OF i(1)] by blast
      have "pool_used p'' = pool_used p" using d(3) U by blast
      then show ?thesis using le s(1) A d(1,2) ne by auto
    qed
  qed
qed

theorem pool_allocator_correct_witness:
  "\<exists>p p' c. fixed_pool_new 4 \<lparr>lsize = 16, lalign = 8\<rparr> 100 128 = (Ok p :: (unit, _) outcome)
    \<and> pool_allocate p \<lparr>lsize = 16, lalign = 8\<rparr> = Ok (p', c) \<and> snd c = 16 \<and> 8 dvd fst c"
proof -
  let ?l = "\<lparr>lsize = 16, lalign = 8\<rparr>"
  have v: "valid_layout ?l" by (rule valid_layout_intro [of _ 3]) simp
  obtain p where p: "fixed_pool_new 4 ?l 100 128 = (Ok p :: (unit, _) outcome)" "pool_wf p" "pool_used p = {}"
    "uis_free (p_buckets p) = map word_of_nat [0 ..< min ((100 + 128 - align_up 100 8) div 16) 4]"
    "uis_budget (p_buckets p) = 2 ^ 32 - 1" "p_bucket_size p = 16" "p_alignment p = 8"
    using fixed_pool_new_wf [OF v, of 4 100 128] by (auto simp: usize_lim_def align_up_def)
  have "0 \<in> set (uis_free (p_buckets p))" using p(4) by (auto simp: align_up_def intro!: image_eqI [of _ _ 0])
  then have "0 < u_capacity (p_buckets p)" using uis.free_universe [of "p_buckets p"] p(2) by (auto simp: pool_wf_def)
  then have "pool_region p \<noteq> {}" using p(6) by (auto simp: pool_region_def word_less_nat_alt)
  then show ?thesis using pool_allocator_correct [OF p(2) v] p by auto
qed

text \<open>Any sequence of successful allocations from a fresh pool returns chunks that are pairwise disjoint,
  inside of the memory given to the pool, and of the requested sizes and alignments.\<close>

theorem pool_chunks_disjoint:
  assumes "valid_layout bl" and "0 < lsize bl" and "lalign bl dvd lsize bl" and "m + 1 < 2 ^ 32"
    and "ptr + lalign bl < usize_lim" and "lsize bl + lalign bl < usize_lim" and "align_up ptr (lalign bl) \<le> ptr + n"
    and "align_up ptr (lalign bl) + n < usize_lim" and "\<forall>l \<in> set ls. valid_layout l"
    and "obind (fixed_pool_new m bl ptr n) (\<lambda>p. pool.allocate_all p ls) = Ok (p', cs)"
  shows "(\<forall>c \<in> set cs. chunk_set c \<subseteq> {ptr ..< ptr + n}) \<and> list_all2 (\<lambda>l c. lsize l \<le> snd c \<and> lalign l dvd fst c) ls cs
    \<and> (\<forall>i j. i < j \<and> j < length cs \<longrightarrow> chunk_set (cs ! i) \<inter> chunk_set (cs ! j) = {})"
proof -
  obtain p where p: "fixed_pool_new m bl ptr n = (Ok p :: (allocation_error, _) outcome)" "pool_wf p" "pool_region p \<subseteq> {ptr ..< ptr + n}"
    using fixed_pool_new_wf [OF assms(1-8)] by blast
  have "pool.allocate_all p ls = Ok (p', cs)" using assms(10) p(1) by simp
  note A = pool.allocate_all_disjoint [OF p(2) assms(9) this]
  show ?thesis using A p(3) by blast
qed

theorem pool_chunks_disjoint_witness:
  "\<exists>p' c d. obind (fixed_pool_new 2 \<lparr>lsize = 16, lalign = 8\<rparr> 104 128) (\<lambda>p. pool.allocate_all p [\<lparr>lsize = 16, lalign = 8\<rparr>, \<lparr>lsize = 4, lalign = 2\<rparr>])
      = Ok (p', [c, d]) \<and> chunk_set c \<inter> chunk_set d = {}"
proof -
  let ?l = "\<lparr>lsize = 16, lalign = 8\<rparr>" and ?m = "\<lparr>lsize = 4, lalign = 2\<rparr>"
  have v: "valid_layout ?l" "valid_layout ?m" by (rule valid_layout_intro [of _ 3], simp) (rule valid_layout_intro [of _ 1], simp)
  obtain p where p: "fixed_pool_new 2 ?l 104 128 = (Ok p :: (allocation_error, _) outcome)" "pool_wf p"
    "uis_free (p_buckets p) = [0, 1]" "uis_budget (p_buckets p) = 2 ^ 32 - 1" "p_bucket_size p = 16" "p_alignment p = 8"
    using fixed_pool_new_wf [OF v(1), of 2 104 128] by (auto simp: usize_lim_def align_up_def upt_rec)
  obtain s where s: "pool_allocate p ?l = Ok (p\<lparr>p_buckets := s\<rparr>, (p_start p, 16))" "uis_wf s" "uis_free s = [1]"
    "u_capacity s = u_capacity (p_buckets p)" "uis_budget s = 2 ^ 32 - 2"
    using pool_allocate_some [OF p(2), of ?l 0 "[1]"] p by auto
  then obtain t where t: "pool_allocate (p\<lparr>p_buckets := s\<rparr>) ?m = Ok (p\<lparr>p_buckets := t\<rparr>, (p_start p + 16, 4))"
    using pool_allocate_some [OF pool_wf_buckets [OF p(2) s(2,4)], of ?m 1 "[]"] p by auto
  have e: "obind (fixed_pool_new 2 ?l 104 128) (\<lambda>p. pool.allocate_all p [?l, ?m]) = Ok (p\<lparr>p_buckets := t\<rparr>, [(p_start p, 16), (p_start p + 16, 4)])"
    using p(1) s(1) t by simp
  have "\<forall>i j. i < j \<and> j < length [(p_start p, 16), (p_start p + 16, 4)] \<longrightarrow>
      chunk_set ([(p_start p, 16), (p_start p + 16, 4)] ! i) \<inter> chunk_set ([(p_start p, 16), (p_start p + 16, 4)] ! j) = {}"
    using pool_chunks_disjoint [OF v(1) _ _ _ _ _ _ _ _ e] v by (simp add: usize_lim_def align_up_def)
  then show ?thesis using e by (metis One_nat_def length_Cons less_Suc_eq list.size(3) nth_Cons_0 nth_Cons_Suc zero_less_Suc)
qed

text \<open>The pool places bucket \<open>i\<close> at the start plus \<open>i\<close> times the unaligned bucket size: when the bucket
  size is not a multiple of the alignment, a chunk that the pool grants for the full alignment is misaligned.\<close>

theorem pool_misaligned_bucket:
  assumes "p_init p" and "uis_wf (p_buckets p)" and "uis_free (p_buckets p) = i # is" and "0 < uis_budget (p_buckets p)"
    and "p_alignment p dvd p_start p" and "\<not> p_alignment p dvd unat i * p_bucket_size p"
    and "p_start p + unat i * p_bucket_size p < usize_lim"
  shows "\<exists>p' c. pool_allocate p \<lparr>lsize = p_bucket_size p, lalign = p_alignment p\<rparr> = Ok (p', c) \<and> \<not> p_alignment p dvd fst c"
proof -
  obtain s where s: "acquire_raw_index (p_buckets p) = (Ok (s, Some i) :: (allocation_error, _) outcome)"
    using acquire_raw_index_Cons [OF assms(2-4)] by blast
  then have "pool_allocate p \<lparr>lsize = p_bucket_size p, lalign = p_alignment p\<rparr>
      = Ok (p\<lparr>p_buckets := s\<rparr>, (p_start p + unat i * p_bucket_size p, p_bucket_size p))"
    using assms(1,7) by (simp add: pool_allocate_def pool_verify_init_def umul_def)
  moreover have "\<not> p_alignment p dvd p_start p + unat i * p_bucket_size p" using assms(5,6) by (simp add: dvd_add_right_iff)
  ultimately show ?thesis by auto
qed

theorem pool_misaligned_bucket_witness:
  "\<exists>p' c. pool_allocate \<lparr>p_buckets = \<lparr>u_cells = [Some 3, Some 2, Some 3], u_capacity = 2, u_head = pack_from_head_and_aba 1 1, u_init = True\<rparr>,
      p_bucket_size = 12, p_alignment = 8, p_start = 64, p_size = 32, p_init = True\<rparr> \<lparr>lsize = 12, lalign = 8\<rparr> = Ok (p', c)
    \<and> \<not> 8 dvd fst c"
proof -
  let ?u = "\<lparr>u_cells = [Some 3, Some 2, Some 3], u_capacity = 2, u_head = pack_from_head_and_aba 1 1, u_init = True\<rparr>"
  let ?p = "\<lparr>p_buckets = ?u, p_bucket_size = 12, p_alignment = 8, p_start = 64, p_size = 32, p_init = True\<rparr>"
  have "uis_wf ?u \<and> uis_free ?u = [1]" by (rule uis_wfI) (simp_all add: uis_mem_def)
  moreover have "0 < uis_budget ?u" by (simp add: uis_budget_def)
  ultimately show ?thesis using pool_misaligned_bucket [of ?p 1 "[]"] by (simp add: usize_lim_def)
qed

text \<open>The pool takes the address one past its memory for a bucket: releasing it succeeds instead of being
  refused, and from then on every allocation fails, although buckets may be free.\<close>

theorem pool_release_of_end_address:
  assumes "pool_wf p" and "p_size p = unat (u_capacity (p_buckets p)) * p_bucket_size p" and "0 < uis_budget (p_buckets p)"
  shows "\<exists>p'. pool_deallocate p (p_start p + p_size p) = Ok p'
    \<and> (\<forall>l. lsize l \<le> p_bucket_size p \<and> lalign l \<le> p_alignment p \<longrightarrow> pool_allocate p' l = Err OutOfMemory)"
proof -
  let ?u = "p_buckets p" and ?c = "u_capacity (p_buckets p)"
  have m: "uis_mem ?u" and init: "p_init p" and bs: "0 < p_bucket_size p" "p_start p + p_size p < usize_lim"
    using assms(1) uis_wfD(1) [of ?u] by (auto simp: pool_wf_def)
  let ?s = "?u\<lparr>u_cells := (u_cells ?u)[unat ?c := Some (head_index ?u)], u_head := pack_from_head_and_aba ?c (head_aba ?u + 1)\<rparr>"
  have r: "release_raw_index ?u ?c = (Ok ?s :: (deallocation_error, _) outcome)"
    using m add_aba [OF assms(3), where ?'a = unit] by (simp add: release_raw_index_def uis_run_4 uis_mem_def case_prod_beta)
  have "pool_get_index p (p_start p + p_size p) = (Ok (Some ?c) :: (deallocation_error, _) outcome)"
    using bs assms(2) by (simp add: pool_get_index_def)
  then have "pool_deallocate p (p_start p + p_size p) = Ok (p\<lparr>p_buckets := ?s\<rparr>)"
    using r init by (simp add: pool_deallocate_def pool_verify_init_def)
  moreover have "acquire_raw_index ?s = (Ok (?s, None) :: (allocation_error, _) outcome)"
    using m by (simp add: acquire_raw_index_def uis_run_4 uis_mem_def)
  ultimately show ?thesis using init by (intro exI [of _ "p\<lparr>p_buckets := ?s\<rparr>"]) (simp add: pool_allocate_def pool_verify_init_def)
qed

theorem pool_release_of_end_address_witness:
  "\<exists>p p'. fixed_pool_new 8 \<lparr>lsize = 16, lalign = 8\<rparr> 64 128 = (Ok p :: (unit, _) outcome) \<and> uis_free (p_buckets p) \<noteq> []
    \<and> pool_deallocate p (p_start p + p_size p) = Ok p' \<and> pool_allocate p' \<lparr>lsize = 16, lalign = 8\<rparr> = Err OutOfMemory"
proof -
  let ?l = "\<lparr>lsize = 16, lalign = 8\<rparr>"
  have v: "valid_layout ?l" by (rule valid_layout_intro [of _ 3]) simp
  obtain p where p: "fixed_pool_new 8 ?l 64 128 = (Ok p :: (unit, _) outcome)" "pool_wf p"
    "uis_free (p_buckets p) = map word_of_nat [0 ..< 8]" "uis_budget (p_buckets p) = 2 ^ 32 - 1" "p_bucket_size p = 16" "p_alignment p = 8"
    using fixed_pool_new_wf [OF v, of 8 64 128, where ?'e = unit] by (auto simp: usize_lim_def align_up_def)
  have "p_size p = unat (u_capacity (p_buckets p)) * p_bucket_size p"
    using p(1) by (auto simp: fixed_pool_new_def align_def uis_new_def usize_lim_def outcome_iffs)
  then show ?thesis using pool_release_of_end_address [OF p(2)] p by fastforce
qed

end
