(* ===== verification/ZeroCopyConnection.thy ===== *)
theory ZeroCopyConnection
  imports OverflowQueue IndexQueue BumpAllocator
begin

text \<open>
  \<^verbatim>\<open>elkodon_cal/src/zero_copy_connection\<close>: the connection between one publisher and one subscriber. Offsets of samples travel to the
  receiver through an overflowing queue and back through an index queue. Both variants of the source share this
  transport: \<^verbatim>\<open>posix_shared_memory.rs\<close> keeps the two queues in shared memory behind a bump allocator,
  \<^verbatim>\<open>process_local.rs\<close> in a map guarded by a mutex.

  The theorems show that creation never runs into its \<open>implementation bug\<close> panic, that no sample is lost, that
  \<^verbatim>\<open>release\<close> of a borrowed sample always succeeds as long as calls do not overlap, and what the ports of a connection go
  through between creation and removal.
\<close>

unbundle bit_operations_syntax

section \<open>State\<close>

datatype zc_creation_error =
  ZC_InternalError | AnotherInstanceIsAlreadyConnected | ConnectionMaybeCorrupted | IncompatibleBufferSize
| IncompatibleMaxBorrowedSampleSetting | IncompatibleOverflowSetting

datatype zc_send_error = ReceiveBufferFull | ClearRetrieveChannelBeforeSend
datatype zc_receive_error = ReceiveWouldExceedMaxBorrowValue
datatype zc_release_error = RetrieveBufferFull

datatype zc_port_state = StNone | StSender | StReceiver | StMarkedForDestruction

primrec state_value :: "zc_port_state \<Rightarrow> u8" where
  "state_value StNone = 0"
| "state_value StSender = 1"
| "state_value StReceiver = 2"
| "state_value StMarkedForDestruction = 128"

record zc_mgmt =
  zc_receive :: overflow_queue
  zc_retrieve :: "nat spsc"
  zc_max_borrowed :: usize
  zc_state :: u8
  zc_overflow :: bool

record zc_builder =
  zb_buffer_size :: usize
  zb_overflow :: bool
  zb_max_borrowed :: usize

definition zb_new :: zc_builder where
  "zb_new = \<lparr>zb_buffer_size = 4, zb_overflow = False, zb_max_borrowed = 4\<rparr>"

definition zb_set_buffer_size :: "usize \<Rightarrow> zc_builder \<Rightarrow> zc_builder" where
  "zb_set_buffer_size value b = b\<lparr>zb_buffer_size := value\<rparr>"

definition zb_set_overflow :: "bool \<Rightarrow> zc_builder \<Rightarrow> zc_builder" where
  "zb_set_overflow value b = b\<lparr>zb_overflow := value\<rparr>"

definition zb_set_max_borrowed :: "usize \<Rightarrow> zc_builder \<Rightarrow> zc_builder" where
  "zb_set_max_borrowed value b = b\<lparr>zb_max_borrowed := value\<rparr>"

definition receive_channel_size :: "zc_builder \<Rightarrow> usize" where
  "receive_channel_size b = zb_buffer_size b"

definition retrieve_channel_size :: "zc_builder \<Rightarrow> ('e, usize) outcome" where
  "retrieve_channel_size b = obind (uadd (zb_buffer_size b) (zb_max_borrowed b)) (\<lambda>n. uadd n 1)"

section \<open>Creation in shared memory\<close>

definition zc_mgmt_new :: "usize \<Rightarrow> usize \<Rightarrow> bool \<Rightarrow> usize \<Rightarrow> zc_mgmt" where
  "zc_mgmt_new receive_channel_buffer_size retrieve_channel_buffer_size enable_safe_overflow max_borrowed_samples =
     \<lparr>zc_receive = oq_new_uninit receive_channel_buffer_size, zc_retrieve = iq_new_uninit retrieve_channel_buffer_size,
      zc_max_borrowed = max_borrowed_samples, zc_state = state_value StNone, zc_overflow = enable_safe_overflow\<rparr>"

text \<open>\<open>size_of_self\<close> is \<^verbatim>\<open>size_of::<SharedManagementData>()\<close>.\<close>

definition zc_const_memory_size :: "usize \<Rightarrow> usize \<Rightarrow> usize \<Rightarrow> ('e, usize) outcome" where
  "zc_const_memory_size size_of_self receive_size retrieve_size =
     obind (iq_const_memory_size retrieve_size) (\<lambda>a. obind (uadd size_of_self a) (\<lambda>s.
       obind (oq_const_memory_size receive_size) (\<lambda>b. uadd s b)))"

text \<open>The initialisation of the two queues inside of the shared memory at address \<open>base\<close>: an allocation error is a
  panic (\<^verbatim>\<open>fatal_panic!\<close>). The second queue allocates from what the first one has left.\<close>

definition bump_after :: "bump_allocator \<Rightarrow> layout \<Rightarrow> bump_allocator" where
  "bump_after a l = (case bump_allocate a l of Ok (a', _) \<Rightarrow> a' | _ \<Rightarrow> a)"

definition zc_setup :: "usize \<Rightarrow> nat \<Rightarrow> usize \<Rightarrow> zc_builder \<Rightarrow> usize \<Rightarrow> ('e, zc_mgmt) outcome" where
  "zc_setup size_of_self base shm_size b retrieve_size =
     (let mgmt = zc_mgmt_new (receive_channel_size b) retrieve_size (zb_overflow b) (zb_max_borrowed b)
      in obind (uadd base size_of_self) (\<lambda>supplementary_ptr. obind (usub shm_size size_of_self) (\<lambda>supplementary_len.
        let allocator = bump_new supplementary_ptr supplementary_len
        in obind (panic_on_err (oq_init (\<lambda>l. omap snd (bump_allocate allocator l)) (zc_receive mgmt))) (\<lambda>rx.
          let allocator' = bump_after allocator \<lparr>lsize = 8 * (receive_channel_size b + 1), lalign = 8\<rparr>
          in obind (panic_on_err (iq_init (\<lambda>l. omap snd (bump_allocate allocator' l)) (zc_retrieve mgmt))) (\<lambda>rt.
            Ok (mgmt\<lparr>zc_receive := rx, zc_retrieve := rt\<rparr>))))))"

text \<open>
  What the operating system answers is an argument (\<open>zc_env\<close>): whether the segment can be created or
  opened, whether its permission can be set, the permission read at each look (\<open>None\<close>: the call fails) and the elapsed time
  in milliseconds after each wait. A segment is the management data and whether its permission was
  set to \<^verbatim>\<open>OWNER_ALL\<close>, which contains read and write.
\<close>

record zc_env =
  ze_shm_ok :: bool
  ze_set_permission_ok :: bool
  ze_wait_create_ok :: bool
  ze_permission :: "nat \<Rightarrow> bool option"
  ze_elapsed :: "nat \<Rightarrow> nat option"

definition MAX_CREATION_DURATION :: nat where
  "MAX_CREATION_DURATION = 10"

text \<open>The waiting loop, with the number of looks at the permission so far; \<open>None\<close>: the fuel is used up.\<close>

primrec zc_wait_loop :: "nat \<Rightarrow> zc_env \<Rightarrow> nat \<Rightarrow> (zc_creation_error, nat) outcome option" where
  "zc_wait_loop 0 env i = None"
| "zc_wait_loop (Suc n) env i =
     (case ze_permission env i of
        None \<Rightarrow> Some (Err ZC_InternalError)
      | Some False \<Rightarrow> Some (Ok (Suc i))
      | Some True \<Rightarrow>
          (case ze_elapsed env i of
             None \<Rightarrow> Some (Err ZC_InternalError)
           | Some d \<Rightarrow> if d < MAX_CREATION_DURATION then Some (Ok (Suc i)) else zc_wait_loop n env (Suc i)))"

definition zc_check_open :: "zc_builder \<Rightarrow> usize \<Rightarrow> zc_mgmt \<Rightarrow> (zc_creation_error, unit) outcome" where
  "zc_check_open b retrieve_size m =
     (if o_capacity (zc_receive m) \<noteq> receive_channel_size b then Err IncompatibleBufferSize
      else if q_capacity (zc_retrieve m) \<noteq> retrieve_size then Err IncompatibleMaxBorrowedSampleSetting
      else if zc_overflow m \<noteq> zb_overflow b then Err IncompatibleOverflowSetting
      else Ok ())"

definition zc_create_or_open ::
  "nat \<Rightarrow> zc_env \<Rightarrow> usize \<Rightarrow> nat \<Rightarrow> zc_builder \<Rightarrow> zc_mgmt option \<Rightarrow> (zc_creation_error, zc_mgmt) outcome option" where
  "zc_create_or_open fuel env size_of_self base b shm =
     (case retrieve_channel_size b of
        Ok retrieve_size \<Rightarrow>
          (case zc_const_memory_size size_of_self (receive_channel_size b) retrieve_size of
             Ok shm_size \<Rightarrow>
               if \<not> ze_shm_ok env then Some (Err ZC_InternalError)
               else (case shm of
                 None \<Rightarrow> Some (obind (zc_setup size_of_self base shm_size b retrieve_size) (\<lambda>m.
                           if ze_set_permission_ok env then Ok m else Err ZC_InternalError))
               | Some m \<Rightarrow>
                   if \<not> ze_wait_create_ok env then Some (Err ZC_InternalError)
                   else (case zc_wait_loop fuel env 0 of
                     None \<Rightarrow> None
                   | Some (Ok i) \<Rightarrow>
                       (case ze_permission env i of
                          None \<Rightarrow> Some (Err ZC_InternalError)
                        | Some False \<Rightarrow> Some (Err ConnectionMaybeCorrupted)
                        | Some True \<Rightarrow> Some (omap (\<lambda>_. m) (zc_check_open b retrieve_size m)))
                   | Some (Err e) \<Rightarrow> Some (Err e) | Some Panic \<Rightarrow> Some Panic | Some UB \<Rightarrow> Some UB))
           | Err e \<Rightarrow> Some (Err e) | Panic \<Rightarrow> Some Panic | UB \<Rightarrow> Some UB)
      | Err e \<Rightarrow> Some (Err e) | Panic \<Rightarrow> Some Panic | UB \<Rightarrow> Some UB)"

section \<open>Ports\<close>

text \<open>\<^verbatim>\<open>reserve_port\<close> without interference: the first exchange succeeds on \<^verbatim>\<open>None\<close>; otherwise the state that it
  returns is examined and the second exchange succeeds.\<close>

definition reserve_port :: "zc_port_state \<Rightarrow> zc_mgmt \<Rightarrow> (zc_creation_error, zc_mgmt) outcome" where
  "reserve_port new_state m =
     (if zc_state m = state_value StNone then Ok (m\<lparr>zc_state := state_value StNone OR state_value new_state\<rparr>)
      else if zc_state m AND state_value new_state \<noteq> 0 then Err AnotherInstanceIsAlreadyConnected
      else if zc_state m AND state_value StMarkedForDestruction \<noteq> 0 then Err ZC_InternalError
      else Ok (m\<lparr>zc_state := zc_state m OR state_value new_state\<rparr>))"

text \<open>The result says whether the segment is removed.\<close>

definition cleanup_shared_memory :: "zc_port_state \<Rightarrow> zc_mgmt \<Rightarrow> zc_mgmt \<times> bool" where
  "cleanup_shared_memory state_to_remove m =
     (let new_state = (if zc_state m = state_value state_to_remove then state_value StMarkedForDestruction
                       else zc_state m AND NOT (state_value state_to_remove))
      in (m\<lparr>zc_state := new_state\<rparr>, new_state = state_value StMarkedForDestruction))"

definition zc_is_connected :: "zc_mgmt \<Rightarrow> bool" where
  "zc_is_connected m \<longleftrightarrow> zc_state m = state_value StSender OR state_value StReceiver"

definition zc_create_port ::
  "nat \<Rightarrow> zc_env \<Rightarrow> usize \<Rightarrow> nat \<Rightarrow> zc_port_state \<Rightarrow> zc_builder \<Rightarrow> zc_mgmt option \<Rightarrow> (zc_creation_error, zc_mgmt) outcome option" where
  "zc_create_port fuel env size_of_self base port b shm =
     map_option (\<lambda>r. obind r (reserve_port port)) (zc_create_or_open fuel env size_of_self base b shm)"

section \<open>Creation inside of a process\<close>

text \<open>The storage maps paths to connections; the mutex that guards it is held during the whole call.\<close>

definition check_compatibility :: "zc_builder \<Rightarrow> zc_mgmt \<Rightarrow> (zc_creation_error, unit) outcome" where
  "check_compatibility b m =
     (if zc_overflow m \<noteq> zb_overflow b then Err IncompatibleOverflowSetting
      else if zc_max_borrowed m \<noteq> zb_max_borrowed b then Err IncompatibleMaxBorrowedSampleSetting
      else if o_capacity (zc_receive m) \<noteq> zb_buffer_size b then Err IncompatibleBufferSize
      else Ok ())"

definition pl_create_port ::
  "zc_port_state \<Rightarrow> 'p \<Rightarrow> zc_builder \<Rightarrow> ('p \<Rightarrow> zc_mgmt option) \<Rightarrow> (zc_creation_error, 'p \<Rightarrow> zc_mgmt option) outcome" where
  "pl_create_port port path b storage =
     (case storage path of
        Some m \<Rightarrow>
          if zc_state m AND state_value port \<noteq> 0 then Err AnotherInstanceIsAlreadyConnected
          else obind (check_compatibility b m) (\<lambda>_.
            Ok (storage(path \<mapsto> m\<lparr>zc_state := zc_state m OR state_value port\<rparr>)))
      | None \<Rightarrow>
          obind (retrieve_channel_size b) (\<lambda>n.
            Ok (storage(path \<mapsto> \<lparr>zc_receive = oq_new (zb_buffer_size b), zc_retrieve = iq_new n,
                  zc_max_borrowed = zb_max_borrowed b, zc_state = state_value port, zc_overflow = zb_overflow b\<rparr>))))"

definition cleanup_connection ::
  "zc_port_state \<Rightarrow> 'p \<Rightarrow> ('p \<Rightarrow> zc_mgmt option) \<Rightarrow> ('e, 'p \<Rightarrow> zc_mgmt option) outcome" where
  "cleanup_connection port path storage =
     (case storage path of
        Some m \<Rightarrow>
          if zc_state m = state_value port then Ok (storage(path := None))
          else Ok (storage(path \<mapsto> m\<lparr>zc_state := zc_state m AND NOT (state_value port)\<rparr>))
      | None \<Rightarrow> Panic)"

definition pl_is_connected :: "zc_mgmt \<Rightarrow> bool" where
  "pl_is_connected m \<longleftrightarrow> zc_state m AND state_value StSender \<noteq> 0 \<and> zc_state m AND state_value StReceiver \<noteq> 0"

definition pl_does_exist :: "'p \<Rightarrow> ('p \<Rightarrow> zc_mgmt option) \<Rightarrow> bool" where
  "pl_does_exist path storage \<longleftrightarrow> storage path \<noteq> None"

definition pl_remove :: "'p \<Rightarrow> ('p \<Rightarrow> zc_mgmt option) \<Rightarrow> ('p \<Rightarrow> zc_mgmt option) \<times> bool" where
  "pl_remove path storage = (storage(path := None), storage path \<noteq> None)"

section \<open>Sending and receiving\<close>

text \<open>\<^verbatim>\<open>try_send\<close> is split where it has looked at the retrieve channel.\<close>

definition retrieve_space :: "zc_mgmt \<Rightarrow> ('e, usize) outcome" where
  "retrieve_space m = obind (iq_len (zc_retrieve m)) (\<lambda>l. usub (q_capacity (zc_retrieve m)) l)"

definition try_send_with :: "usize \<Rightarrow> zc_mgmt \<Rightarrow> nat \<Rightarrow> (zc_send_error, zc_mgmt \<times> nat option) outcome" where
  "try_send_with space_in_retrieve_channel m ptr =
     obind (oq_len (zc_receive m)) (\<lambda>l. obind (uadd (zc_max_borrowed m) l) (\<lambda>needed.
       if space_in_retrieve_channel \<le> needed then Err ClearRetrieveChannelBeforeSend
       else obind (if zc_overflow m then Ok False else oq_is_full (zc_receive m)) (\<lambda>full.
         if full then Err ReceiveBufferFull
         else omap (\<lambda>(q, r). (m\<lparr>zc_receive := q\<rparr>, r)) (oq_push (zc_receive m) ptr))))"

definition try_send :: "zc_mgmt \<Rightarrow> nat \<Rightarrow> (zc_send_error, zc_mgmt \<times> nat option) outcome" where
  "try_send m ptr = obind (retrieve_space m) (\<lambda>space. try_send_with space m ptr)"

text \<open>\<^verbatim>\<open>blocking_send\<close> waits until the receive channel has room: \<open>env i\<close> is the connection at the \<open>i\<close>-th look.\<close>

primrec blocking_send :: "nat \<Rightarrow> (nat \<Rightarrow> zc_mgmt) \<Rightarrow> nat \<Rightarrow> nat \<Rightarrow> (zc_send_error, zc_mgmt \<times> nat option) outcome option" where
  "blocking_send 0 env i ptr = None"
| "blocking_send (Suc n) env i ptr =
     (if zc_overflow (env i) then Some (try_send (env i) ptr)
      else case (oq_is_full (zc_receive (env i)) :: (zc_send_error, bool) outcome) of
        Ok True \<Rightarrow> blocking_send n env (Suc i) ptr
      | Ok False \<Rightarrow> Some (try_send (env i) ptr)
      | Err e \<Rightarrow> Some (Err e) | Panic \<Rightarrow> Some Panic | UB \<Rightarrow> Some UB)"

definition reclaim :: "zc_mgmt \<Rightarrow> ('e, zc_mgmt \<times> nat option) outcome" where
  "reclaim m = omap (\<lambda>(q, r). (m\<lparr>zc_retrieve := q\<rparr>, r)) (iq_pop (zc_retrieve m))"

text \<open>The receiver carries its counter of borrowed samples.\<close>

definition zc_recv :: "zc_mgmt \<Rightarrow> usize \<Rightarrow> (zc_receive_error, zc_mgmt \<times> usize \<times> nat option) outcome" where
  "zc_recv m borrow_counter =
     (if zc_max_borrowed m \<le> borrow_counter then Err ReceiveWouldExceedMaxBorrowValue
      else obind (oq_pop (zc_receive m)) (\<lambda>(q, r).
        case r of
          None \<Rightarrow> Ok (m\<lparr>zc_receive := q\<rparr>, borrow_counter, None)
        | Some v \<Rightarrow> obind (uadd borrow_counter 1) (\<lambda>n. Ok (m\<lparr>zc_receive := q\<rparr>, n, Some v))))"

definition zc_release :: "zc_mgmt \<Rightarrow> usize \<Rightarrow> nat \<Rightarrow> (zc_release_error, zc_mgmt \<times> usize) outcome" where
  "zc_release m borrow_counter ptr =
     obind (iq_push (zc_retrieve m) ptr) (\<lambda>(q, b).
       if b then obind (usub borrow_counter 1) (\<lambda>n. Ok (m\<lparr>zc_retrieve := q\<rparr>, n)) else Err RetrieveBufferFull)"

section \<open>Creation succeeds\<close>

lemma align_up_8: "align_up n 8 = n \<longleftrightarrow> 8 dvd n" for n
  by (auto simp: align_up_def)

lemma bump_two_chunks:
  assumes "p + k + n + 16 < usize_lim" and "0 < k" and "0 < n" and "8 dvd k" and "k + n + 7 \<le> len"
  defines "l \<equiv> \<lparr>lsize = k, lalign = 8\<rparr>"
  shows "is_Ok (bump_allocate (bump_new p len) l)" and "is_Ok (bump_allocate (bump_after (bump_new p len) l) \<lparr>lsize = n, lalign = 8\<rparr>)"
proof -
  have v: "valid_layout l" "valid_layout \<lparr>lsize = n, lalign = 8\<rparr>"
    by (rule valid_layout_intro [of _ 3], simp add: l_def)+
  have ge: "p \<le> align_up p 8" "align_up p 8 < p + 8" using align_up_ge [of 8 p] align_up_less [of 8 p] by auto
  let ?a = "(bump_new p len)\<lparr>b_position := align_up p 8 - p + k\<rparr>"
  have 1: "bump_allocate (bump_new p len) l = Ok (?a, (align_up p 8, k))"
    using bump_allocate_cases [OF v(1), of "bump_new p len"] assms(1-3,5) ge by (simp add: bump_new_def l_def)
  then show "is_Ok (bump_allocate (bump_new p len) l)" by simp
  have pos: "b_start ?a + b_position ?a = align_up p 8 + k" using ge by (simp add: bump_new_def)
  have al: "align_up (align_up p 8 + k) 8 = align_up p 8 + k" using assms(4) by (simp add: align_up_8)
  have "\<not> b_size ?a < align_up p 8 + k - p + n" using ge assms(5) by (simp add: bump_new_def)
  then have "bump_allocate ?a \<lparr>lsize = n, lalign = 8\<rparr> = Ok (?a\<lparr>b_position := align_up p 8 + k - p + n\<rparr>, (p + (align_up p 8 + k - p), n))"
    using bump_allocate_cases [OF v(2), of ?a] pos al assms(1,3) ge by (simp add: bump_new_def)
  then show "is_Ok (bump_allocate (bump_after (bump_new p len) l) \<lparr>lsize = n, lalign = 8\<rparr>)"
    using 1 by (simp add: bump_after_def)
qed

definition zc_fresh :: "zc_builder \<Rightarrow> zc_mgmt" where
  "zc_fresh b = \<lparr>zc_receive = oq_new (zb_buffer_size b), zc_retrieve = iq_new (zb_buffer_size b + zb_max_borrowed b + 1),
     zc_max_borrowed = zb_max_borrowed b, zc_state = state_value StNone, zc_overflow = zb_overflow b\<rparr>"

lemma zc_setup_ok:
  assumes "base + self + 8 * c + 8 * n + 64 < usize_lim" and "c = zb_buffer_size b" and "n = c + zb_max_borrowed b + 1"
  shows "zc_const_memory_size self c n = (Ok (self + (8 * n + 7) + (8 * (c + 1) + 7)) :: ('e, _) outcome)"
    and "zc_setup self base (self + (8 * n + 7) + (8 * (c + 1) + 7)) b n = (Ok (zc_fresh b) :: ('e, _) outcome)"
proof -
  show "zc_const_memory_size self c n = (Ok (self + (8 * n + 7) + (8 * (c + 1) + 7)) :: ('e, _) outcome)"
    using assms(1) by (simp add: zc_const_memory_size_def iq_const_memory_size_def oq_const_memory_size_def)
  let ?len = "(8 * n + 7) + (8 * (c + 1) + 7)" and ?p = "base + self"
  let ?a = "bump_new ?p ?len" and ?l = "\<lparr>lsize = 8 * (c + 1), lalign = 8\<rparr>" and ?m = "\<lparr>lsize = 8 * n, lalign = 8\<rparr>"
  have B: "is_Ok (bump_allocate ?a ?l)" "is_Ok (bump_allocate (bump_after ?a ?l) ?m)"
    using bump_two_chunks [of ?p "8 * (c + 1)" "8 * n" ?len] assms(1,3) by simp_all
  obtain x y where x: "bump_allocate ?a ?l = Ok x" and y: "bump_allocate (bump_after ?a ?l) ?m = Ok y"
    using B by (auto simp: is_Ok_iff)
  have "oq_init (\<lambda>l. omap snd (bump_allocate ?a l)) (oq_new_uninit c) = Ok (oq_new c)"
    using x assms(1) by (simp add: oq_init_def oq_new_uninit_def oq_new_def)
  moreover have "iq_init (\<lambda>l. omap snd (bump_allocate (bump_after ?a ?l) l)) (iq_new_uninit n) = Ok (iq_new n)"
    using y assms(1) by (simp add: iq_init_def iq_new_uninit_def iq_new_def)
  ultimately show "zc_setup self base (self + (8 * n + 7) + (8 * (c + 1) + 7)) b n = (Ok (zc_fresh b) :: ('e, _) outcome)"
    using assms by (simp add: zc_setup_def zc_mgmt_new_def receive_channel_size_def panic_on_err_def zc_fresh_def Let_def)
qed

text \<open>C12: creating a connection in shared memory never reaches the panics that the source marks as an
  implementation bug: the size computed for the segment is enough for both queues at every address, and the result is a fresh
  connection or, exactly when the operating system refuses, \<^verbatim>\<open>InternalError\<close>.\<close>

theorem connection_creation_fits:
  assumes "base + self + 16 * zb_buffer_size b + 8 * zb_max_borrowed b + 72 < usize_lim"
  shows "zc_create_or_open fuel env self base b None
    = Some (if ze_shm_ok env \<and> ze_set_permission_ok env then Ok (zc_fresh b) else Err ZC_InternalError)"
proof -
  let ?c = "zb_buffer_size b" and ?n = "zb_buffer_size b + zb_max_borrowed b + 1"
  have b: "base + self + 8 * ?c + 8 * ?n + 64 < usize_lim" using assms by simp
  have r: "retrieve_channel_size b = (Ok ?n :: (zc_creation_error, _) outcome)" using assms by (simp add: retrieve_channel_size_def)
  show ?thesis
    using zc_setup_ok [OF b refl refl, where ?'e = zc_creation_error] r
    by (simp add: zc_create_or_open_def receive_channel_size_def)
qed

theorem connection_creation_fits_witness:
  "zc_create_or_open 0 \<lparr>ze_shm_ok = True, ze_set_permission_ok = True, ze_wait_create_ok = True, ze_permission = (\<lambda>_. None), ze_elapsed = (\<lambda>_. None)\<rparr>
     200 4096 zb_new None = Some (Ok (zc_fresh zb_new))"
  using connection_creation_fits [of 4096 200 zb_new 0 "\<lparr>ze_shm_ok = True, ze_set_permission_ok = True, ze_wait_create_ok = True, ze_permission = (\<lambda>_. None), ze_elapsed = (\<lambda>_. None)\<rparr>"]
  by (simp add: zb_new_def usize_lim_def)

section \<open>No sample is lost\<close>

text \<open>A sender and a receiver whose calls do not overlap. \<open>Op_release k\<close> releases the \<open>k\<close>-th oldest sample that the
  receiver holds; a refused call leaves everything as it is. The lists record the samples
  accepted for sending, handed back by an overflow, and reclaimed.\<close>

datatype zc_op = Op_send nat | Op_receive | Op_release nat | Op_reclaim

record zc_sys =
  zs_mgmt :: zc_mgmt
  zs_counter :: usize
  zs_borrowed :: "nat list"
  zs_accepted :: "nat list"
  zs_evicted :: "nat list"
  zs_reclaimed :: "nat list"

definition opt_list :: "'a option \<Rightarrow> 'a list" where
  "opt_list r = (case r of None \<Rightarrow> [] | Some x \<Rightarrow> [x])"

fun zc_do :: "zc_op \<Rightarrow> zc_sys \<Rightarrow> (zc_release_error, zc_sys) outcome" where
  "zc_do (Op_send ptr) s =
     (case try_send (zs_mgmt s) ptr of
        Ok (m, r) \<Rightarrow> Ok (s\<lparr>zs_mgmt := m, zs_accepted := zs_accepted s @ [ptr], zs_evicted := zs_evicted s @ opt_list r\<rparr>)
      | Err e \<Rightarrow> Ok s | Panic \<Rightarrow> Panic | UB \<Rightarrow> UB)"
| "zc_do Op_receive s =
     (case zc_recv (zs_mgmt s) (zs_counter s) of
        Ok (m, n, r) \<Rightarrow> Ok (s\<lparr>zs_mgmt := m, zs_counter := n, zs_borrowed := zs_borrowed s @ opt_list r\<rparr>)
      | Err e \<Rightarrow> Ok s | Panic \<Rightarrow> Panic | UB \<Rightarrow> UB)"
| "zc_do (Op_release k) s =
     (if k < length (zs_borrowed s)
      then obind (zc_release (zs_mgmt s) (zs_counter s) (zs_borrowed s ! k)) (\<lambda>(m, n).
        Ok (s\<lparr>zs_mgmt := m, zs_counter := n, zs_borrowed := take k (zs_borrowed s) @ drop (Suc k) (zs_borrowed s)\<rparr>))
      else Ok s)"
| "zc_do Op_reclaim s =
     obind (reclaim (zs_mgmt s)) (\<lambda>(m, r). Ok (s\<lparr>zs_mgmt := m, zs_reclaimed := zs_reclaimed s @ opt_list r\<rparr>))"

primrec zc_run :: "zc_op list \<Rightarrow> zc_sys \<Rightarrow> (zc_release_error, zc_sys) outcome" where
  "zc_run [] s = Ok s"
| "zc_run (op # ops) s = obind (zc_do op s) (zc_run ops)"

definition zc_start :: "zc_mgmt \<Rightarrow> zc_sys" where
  "zc_start m = \<lparr>zs_mgmt = m, zs_counter = 0, zs_borrowed = [], zs_accepted = [], zs_evicted = [], zs_reclaimed = []\<rparr>"

definition zc_wf :: "zc_mgmt \<Rightarrow> usize \<Rightarrow> bool" where
  "zc_wf m n \<longleftrightarrow> oq_wf (zc_receive m) \<and> q_wf (zc_retrieve m) \<and> 0 < o_capacity (zc_receive m) \<and> n \<le> zc_max_borrowed m
     \<and> length (q_list (zc_retrieve m)) + length (oq_list (zc_receive m)) + n \<le> q_capacity (zc_retrieve m)
     \<and> zc_max_borrowed m + o_capacity (zc_receive m) < usize_lim"

definition zc_ticks :: "zc_mgmt \<Rightarrow> nat" where
  "zc_ticks m = min (oq_ticks (zc_receive m)) (q_ticks (zc_retrieve m))"

definition zc_all :: "zc_sys \<Rightarrow> nat multiset" where
  "zc_all s = mset (zs_evicted s) + mset (oq_list (zc_receive (zs_mgmt s))) + mset (zs_borrowed s)
     + mset (q_list (zc_retrieve (zs_mgmt s))) + mset (zs_reclaimed s)"

definition zc_inv :: "zc_sys \<Rightarrow> bool" where
  "zc_inv s \<longleftrightarrow> zc_wf (zs_mgmt s) (zs_counter s) \<and> length (zs_borrowed s) = zs_counter s \<and> mset (zs_accepted s) = zc_all s"

lemma oq_len_ok: "oq_wf q \<Longrightarrow> oq_len q = Ok (length (oq_list q))"
  by (simp add: oq_len_def oq_wf_def length_oq_list)

lemma iq_len_ok: "q_wf q \<Longrightarrow> iq_len q = Ok (length (q_list q))"
  by (simp add: iq_len_def iq_positions_def q_wf_def length_q_list)

lemma oq_is_full_ok:
  assumes "oq_wf q" and "0 < oq_ticks q"
  shows "oq_is_full q = Ok (length (oq_list q) = o_capacity q)"
  using assms oq_ticks_pos [OF assms(2)] by (auto simp: oq_is_full_def oq_wf_def length_oq_list)

text \<open>\<^verbatim>\<open>try_send\<close> on every branch.\<close>

lemma try_send_cases:
  fixes m :: zc_mgmt
  assumes "zc_wf m n" and "0 < zc_ticks m"
  defines "rx \<equiv> oq_list (zc_receive m)" and "rt \<equiv> q_list (zc_retrieve m)"
  shows "if q_capacity (zc_retrieve m) - length rt \<le> zc_max_borrowed m + length rx then try_send m p = Err ClearRetrieveChannelBeforeSend
    else if \<not> zc_overflow m \<and> length rx = o_capacity (zc_receive m) then try_send m p = Err ReceiveBufferFull
    else \<exists>q r. try_send m p = Ok (m\<lparr>zc_receive := q\<rparr>, r) \<and> oq_wf q \<and> o_capacity q = o_capacity (zc_receive m)
           \<and> oq_ticks (zc_receive m) \<le> Suc (oq_ticks q) \<and> opt_list r @ oq_list q = rx @ [p]
           \<and> (r = None \<longleftrightarrow> length rx < o_capacity (zc_receive m))"
proof -
  have w: "oq_wf (zc_receive m)" "q_wf (zc_retrieve m)" "0 < o_capacity (zc_receive m)" and t: "0 < oq_ticks (zc_receive m)"
    and le: "length rt \<le> q_capacity (zc_retrieve m)" and b: "zc_max_borrowed m + o_capacity (zc_receive m) < usize_lim"
    using assms(1,2) by (auto simp: zc_wf_def zc_ticks_def rt_def)
  have cap: "length rx \<le> o_capacity (zc_receive m)" using oq.over_cap [OF w(1)] by (simp add: rx_def)
  have sp: "retrieve_space m = (Ok (q_capacity (zc_retrieve m) - length rt) :: (zc_send_error, _) outcome)"
    using le by (simp add: retrieve_space_def iq_len_ok [OF w(2)] rt_def)
  note d = try_send_def try_send_with_def sp oq_len_ok [OF w(1)] oq_is_full_ok [OF w(1) t]
  show ?thesis
  proof (cases "q_capacity (zc_retrieve m) - length rt \<le> zc_max_borrowed m + length rx")
    case True
    then show ?thesis using b cap by (simp add: d rx_def)
  next
    case False
    show ?thesis
    proof (cases "length rx < o_capacity (zc_receive m)")
      case True
      obtain q where "oq_push (zc_receive m) p = (Ok (q, None) :: (zc_send_error, _) outcome)" "oq_wf q" "oq_list q = rx @ [p]"
        "o_capacity q = o_capacity (zc_receive m)" "oq_ticks (zc_receive m) \<le> Suc (oq_ticks q)"
        using oq.over_fits [OF w(1) t, of p] True by (auto simp: rx_def)
      then show ?thesis using False True b cap by (auto simp: d rx_def opt_list_def)
    next
      case full: False
      then have l: "length rx = o_capacity (zc_receive m)" using cap by simp
      then obtain y ys where y: "rx = y # ys" using w(3) by (cases rx) auto
      obtain q where "oq_push (zc_receive m) p = (Ok (q, Some y) :: (zc_send_error, _) outcome)" "oq_wf q" "oq_list q = ys @ [p]"
        "o_capacity q = o_capacity (zc_receive m)" "oq_ticks (zc_receive m) \<le> Suc (oq_ticks q)"
        using oq.over_evicts [OF w(1) t y [unfolded rx_def] l [unfolded rx_def], of p] by auto
      then show ?thesis using False l b y by (auto simp: d rx_def opt_list_def)
    qed
  qed
qed

lemma zc_recv_cases:
  fixes m :: zc_mgmt
  assumes "zc_wf m n" and "0 < zc_ticks m"
  shows "if zc_max_borrowed m \<le> n then zc_recv m n = Err ReceiveWouldExceedMaxBorrowValue
    else case oq_list (zc_receive m) of
      [] \<Rightarrow> zc_recv m n = Ok (m, n, None)
    | x # xs \<Rightarrow> \<exists>q. zc_recv m n = Ok (m\<lparr>zc_receive := q\<rparr>, n + 1, Some x) \<and> oq_wf q \<and> oq_list q = xs
        \<and> o_capacity q = o_capacity (zc_receive m) \<and> oq_ticks q = oq_ticks (zc_receive m)"
proof -
  have w: "oq_wf (zc_receive m)" and t: "0 < oq_ticks (zc_receive m)" and b: "zc_max_borrowed m < usize_lim"
    using assms by (auto simp: zc_wf_def zc_ticks_def)
  show ?thesis
  proof (cases "oq_list (zc_receive m)")
    case Nil
    then show ?thesis by (simp add: zc_recv_def oq_pop_empty [OF Nil w])
  next
    case (Cons x xs)
    note P = oq_pop_ok [OF w t Cons]
    show ?thesis using b P(2,3) by (auto simp: zc_recv_def P(1) Cons oq_ticks_def)
  qed
qed

lemma zc_release_ok:
  fixes m :: zc_mgmt
  assumes "zc_wf m n" and "0 < zc_ticks m" and "0 < n"
  shows "\<exists>q. zc_release m n p = Ok (m\<lparr>zc_retrieve := q\<rparr>, n - 1) \<and> q_wf q \<and> q_list q = q_list (zc_retrieve m) @ [p]
    \<and> q_capacity q = q_capacity (zc_retrieve m) \<and> q_ticks (zc_retrieve m) \<le> Suc (q_ticks q)"
proof -
  have w: "q_wf (zc_retrieve m)" and t: "0 < q_ticks (zc_retrieve m)" and l: "length (q_list (zc_retrieve m)) < q_capacity (zc_retrieve m)"
    using assms by (auto simp: zc_wf_def zc_ticks_def)
  obtain q where "iq_push (zc_retrieve m) p = (Ok (q, True) :: (zc_release_error, _) outcome)" "q_wf q" "q_list q = q_list (zc_retrieve m) @ [p]"
    "q_capacity q = q_capacity (zc_retrieve m)" "q_ticks (zc_retrieve m) \<le> Suc (q_ticks q)"
    using iq.push_ok [OF w t l] by blast
  then show ?thesis using assms(3) by (auto simp: zc_release_def)
qed

lemma reclaim_cases:
  fixes m :: zc_mgmt
  assumes "zc_wf m n" and "0 < zc_ticks m"
  shows "case q_list (zc_retrieve m) of
      [] \<Rightarrow> reclaim m = (Ok (m, None) :: ('e, _) outcome)
    | x # xs \<Rightarrow> \<exists>q. reclaim m = (Ok (m\<lparr>zc_retrieve := q\<rparr>, Some x) :: ('e, _) outcome) \<and> q_wf q \<and> q_list q = xs
        \<and> q_capacity q = q_capacity (zc_retrieve m) \<and> q_ticks (zc_retrieve m) \<le> Suc (q_ticks q)"
proof -
  have w: "q_wf (zc_retrieve m)" and t: "0 < q_ticks (zc_retrieve m)" using assms by (auto simp: zc_wf_def zc_ticks_def)
  show ?thesis
  proof (cases "q_list (zc_retrieve m)")
    case Nil
    then show ?thesis by (simp add: reclaim_def iq.pop_empty [OF w Nil])
  next
    case (Cons x xs)
    obtain q where "iq_pop (zc_retrieve m) = (Ok (q, Some x) :: ('e, _) outcome)" "q_wf q" "q_list q = xs"
      "q_capacity q = q_capacity (zc_retrieve m)" "q_ticks (zc_retrieve m) \<le> Suc (q_ticks q)"
      using iq.pop_ok [OF w t Cons] by blast
    then show ?thesis by (auto simp: reclaim_def Cons)
  qed
qed

lemma mset_take_drop: "k < length xs \<Longrightarrow> mset xs = add_mset (xs ! k) (mset (take k xs @ drop (Suc k) xs))"
  by (metis (no_types, lifting) add_mset_add_single id_take_nth_drop mset.simps(2) mset_append union_mset_add_mset_right)

lemma zc_send_inv:
  assumes "zc_inv s" and "0 < zc_ticks (zs_mgmt s)"
  shows "\<exists>s'. zc_do (Op_send p) s = Ok s' \<and> zc_inv s' \<and> zc_ticks (zs_mgmt s) \<le> Suc (zc_ticks (zs_mgmt s'))"
proof -
  let ?m = "zs_mgmt s"
  have w: "zc_wf ?m (zs_counter s)" using assms(1) by (simp add: zc_inv_def)
  note T = try_send_cases [OF w assms(2), of p]
  show ?thesis
  proof (cases "\<exists>e. try_send ?m p = Err e")
    case True
    then show ?thesis using assms(1) by auto
  next
    case False
    then obtain q r where q: "try_send ?m p = Ok (?m\<lparr>zc_receive := q\<rparr>, r)" "oq_wf q" "o_capacity q = o_capacity (zc_receive ?m)"
      "oq_ticks (zc_receive ?m) \<le> Suc (oq_ticks q)" "opt_list r @ oq_list q = oq_list (zc_receive ?m) @ [p]"
      and room: "\<not> q_capacity (zc_retrieve ?m) - length (q_list (zc_retrieve ?m)) \<le> zc_max_borrowed ?m + length (oq_list (zc_receive ?m))"
      using T by (auto split: if_splits)
    have m: "mset (opt_list r) + mset (oq_list q) = add_mset p (mset (oq_list (zc_receive ?m)))"
      using arg_cong [OF q(5), of mset] by simp
    have "length (oq_list q) \<le> Suc (length (oq_list (zc_receive ?m)))" using arg_cong [OF q(5), of length] by simp
    then have "zc_wf (?m\<lparr>zc_receive := q\<rparr>) (zs_counter s)" using w q(2,3) room by (auto simp: zc_wf_def)
    moreover have "zc_ticks ?m \<le> Suc (zc_ticks (?m\<lparr>zc_receive := q\<rparr>))" using q(4) by (auto simp: zc_ticks_def)
    moreover have "add_mset p (zc_all s) = zc_all (s\<lparr>zs_mgmt := ?m\<lparr>zc_receive := q\<rparr>, zs_evicted := zs_evicted s @ opt_list r\<rparr>)"
      using m by (simp add: zc_all_def)
    ultimately show ?thesis using q(1) assms(1) by (auto simp: zc_inv_def zc_all_def)
  qed
qed

lemma zc_receive_inv:
  assumes "zc_inv s" and "0 < zc_ticks (zs_mgmt s)"
  shows "\<exists>s'. zc_do Op_receive s = Ok s' \<and> zc_inv s' \<and> zc_ticks (zs_mgmt s) \<le> Suc (zc_ticks (zs_mgmt s'))"
proof -
  let ?m = "zs_mgmt s"
  have w: "zc_wf ?m (zs_counter s)" using assms(1) by (simp add: zc_inv_def)
  note T = zc_recv_cases [OF w assms(2)]
  show ?thesis
  proof (cases "zc_max_borrowed ?m \<le> zs_counter s \<or> oq_list (zc_receive ?m) = []")
    case True
    then show ?thesis using T assms(1) by (auto simp: opt_list_def split: if_splits)
  next
    case False
    then obtain x xs where x: "oq_list (zc_receive ?m) = x # xs" by (cases "oq_list (zc_receive ?m)") auto
    then obtain q where q: "zc_recv ?m (zs_counter s) = Ok (?m\<lparr>zc_receive := q\<rparr>, zs_counter s + 1, Some x)" "oq_wf q" "oq_list q = xs"
      "o_capacity q = o_capacity (zc_receive ?m)" "oq_ticks q = oq_ticks (zc_receive ?m)"
      using T False by auto
    have "zc_wf (?m\<lparr>zc_receive := q\<rparr>) (zs_counter s + 1)" using w q(2-4) x False by (auto simp: zc_wf_def)
    moreover have "zc_ticks (?m\<lparr>zc_receive := q\<rparr>) = zc_ticks ?m" using q(5) by (simp add: zc_ticks_def)
    ultimately show ?thesis using q(1,3) assms(1) x by (auto simp: zc_inv_def zc_all_def opt_list_def)
  qed
qed

lemma zc_release_inv:
  assumes "zc_inv s" and "0 < zc_ticks (zs_mgmt s)"
  shows "\<exists>s'. zc_do (Op_release k) s = Ok s' \<and> zc_inv s' \<and> zc_ticks (zs_mgmt s) \<le> Suc (zc_ticks (zs_mgmt s'))"
proof (cases "k < length (zs_borrowed s)")
  case False
  then show ?thesis using assms(1) by auto
next
  case True
  let ?m = "zs_mgmt s"
  have w: "zc_wf ?m (zs_counter s)" and n: "0 < zs_counter s" "length (zs_borrowed s) = zs_counter s"
    using assms(1) True by (auto simp: zc_inv_def)
  obtain q where q: "zc_release ?m (zs_counter s) (zs_borrowed s ! k) = Ok (?m\<lparr>zc_retrieve := q\<rparr>, zs_counter s - 1)" "q_wf q"
    "q_list q = q_list (zc_retrieve ?m) @ [zs_borrowed s ! k]" "q_capacity q = q_capacity (zc_retrieve ?m)"
    "q_ticks (zc_retrieve ?m) \<le> Suc (q_ticks q)"
    using zc_release_ok [OF w assms(2) n(1)] by blast
  have "zc_wf (?m\<lparr>zc_retrieve := q\<rparr>) (zs_counter s - 1)" using w q(2-4) n(1) by (auto simp: zc_wf_def)
  moreover have "zc_ticks ?m \<le> Suc (zc_ticks (?m\<lparr>zc_retrieve := q\<rparr>))" using q(5) by (auto simp: zc_ticks_def)
  moreover have "mset (zs_borrowed s) = add_mset (zs_borrowed s ! k) (mset (take k (zs_borrowed s) @ drop (Suc k) (zs_borrowed s)))"
    using True by (rule mset_take_drop)
  ultimately show ?thesis using q(1,3) assms(1) True n by (auto simp: zc_inv_def zc_all_def)
qed

lemma zc_reclaim_inv:
  assumes "zc_inv s" and "0 < zc_ticks (zs_mgmt s)"
  shows "\<exists>s'. zc_do Op_reclaim s = Ok s' \<and> zc_inv s' \<and> zc_ticks (zs_mgmt s) \<le> Suc (zc_ticks (zs_mgmt s'))"
proof -
  let ?m = "zs_mgmt s"
  have w: "zc_wf ?m (zs_counter s)" using assms(1) by (simp add: zc_inv_def)
  note T = reclaim_cases [OF w assms(2), where ?'e = zc_release_error]
  show ?thesis
  proof (cases "q_list (zc_retrieve ?m)")
    case Nil
    then show ?thesis using T assms(1) by (auto simp: opt_list_def)
  next
    case (Cons x xs)
    then obtain q where q: "reclaim ?m = (Ok (?m\<lparr>zc_retrieve := q\<rparr>, Some x) :: (zc_release_error, _) outcome)" "q_wf q" "q_list q = xs"
      "q_capacity q = q_capacity (zc_retrieve ?m)" "q_ticks (zc_retrieve ?m) \<le> Suc (q_ticks q)"
      using T by auto
    have "zc_wf (?m\<lparr>zc_retrieve := q\<rparr>) (zs_counter s)" using w q(2-4) Cons by (auto simp: zc_wf_def)
    moreover have "zc_ticks ?m \<le> Suc (zc_ticks (?m\<lparr>zc_retrieve := q\<rparr>))" using q(5) by (auto simp: zc_ticks_def)
    ultimately show ?thesis using q(1,3) assms(1) Cons by (auto simp: zc_inv_def zc_all_def opt_list_def)
  qed
qed

lemma zc_run_inv:
  "zc_inv s \<Longrightarrow> length ops \<le> zc_ticks (zs_mgmt s) \<Longrightarrow> \<exists>s'. zc_run ops s = Ok s' \<and> zc_inv s'"
proof (induction ops arbitrary: s)
  case (Cons op ops)
  have t: "0 < zc_ticks (zs_mgmt s)" using Cons.prems(2) by simp
  obtain s1 where "zc_do op s = Ok s1" "zc_inv s1" "zc_ticks (zs_mgmt s) \<le> Suc (zc_ticks (zs_mgmt s1))"
    using zc_send_inv [OF Cons.prems(1) t] zc_receive_inv [OF Cons.prems(1) t] zc_release_inv [OF Cons.prems(1) t]
      zc_reclaim_inv [OF Cons.prems(1) t] by (cases op) blast+
  then show ?case using Cons.IH [of s1] Cons.prems(2) by auto
qed simp

section \<open>Correctness\<close>

lemma zc_fresh_inv:
  assumes "0 < zb_buffer_size b" and "2 * zb_buffer_size b + zb_max_borrowed b + 2 < usize_lim"
  shows "zc_inv (zc_start (zc_fresh b))"
    and "zc_ticks (zc_fresh b) = usize_lim - 1 - (zb_buffer_size b + zb_max_borrowed b + 1)"
proof -
  have n: "oq_wf (oq_new (zb_buffer_size b))" "oq_list (oq_new (zb_buffer_size b)) = []" "o_capacity (oq_new (zb_buffer_size b)) = zb_buffer_size b"
    using oq_new_wf by (auto simp: oq_new_def)
  have i: "q_wf (iq_new k)" "q_list (iq_new k) = []" "q_capacity (iq_new k) = k" for k using iq_new_wf [of k] by (auto simp: iq_new_def)
  show "zc_inv (zc_start (zc_fresh b))"
    using assms n i by (simp add: zc_inv_def zc_start_def zc_fresh_def zc_wf_def zc_all_def)
  show "zc_ticks (zc_fresh b) = usize_lim - 1 - (zb_buffer_size b + zb_max_borrowed b + 1)"
    using oq_new_wf [of "zb_buffer_size b"] iq_new_wf [of "zb_buffer_size b + zb_max_borrowed b + 1"] by (simp add: zc_ticks_def zc_fresh_def)
qed

text \<open>C10: in every sequence of calls of a sender and a receiver on a fresh connection no call panics, releasing a borrowed
  sample never fails, and every accepted sample is at each moment in exactly one place: handed back to the sender by an
  overflow, waiting in the receive channel, borrowed by the receiver, waiting in the retrieve channel, or reclaimed; the receiver
  never holds more samples than allowed.\<close>

theorem zero_copy_no_sample_lost:
  assumes "0 < zb_buffer_size b" and "2 * zb_buffer_size b + zb_max_borrowed b + length ops + 2 < usize_lim"
  shows "\<exists>s. zc_run ops (zc_start (zc_fresh b)) = Ok s \<and> mset (zs_accepted s) = zc_all s
    \<and> length (zs_borrowed s) = zs_counter s \<and> zs_counter s \<le> zc_max_borrowed (zs_mgmt s)"
proof -
  have b: "2 * zb_buffer_size b + zb_max_borrowed b + 2 < usize_lim" using assms(2) by simp
  have "length ops \<le> zc_ticks (zs_mgmt (zc_start (zc_fresh b)))"
    using zc_fresh_inv(2) [OF assms(1) b] assms(2) by (simp add: zc_start_def)
  then obtain s where "zc_run ops (zc_start (zc_fresh b)) = Ok s" "zc_inv s"
    using zc_run_inv [OF zc_fresh_inv(1) [OF assms(1) b]] by blast
  then show ?thesis by (auto simp: zc_inv_def zc_wf_def)
qed

theorem zero_copy_no_sample_lost_witness:
  "\<exists>s. zc_run [Op_send 64, Op_send 128, Op_receive, Op_release 0, Op_reclaim] (zc_start (zc_fresh zb_new)) = Ok s
    \<and> mset (zs_accepted s) = zc_all s"
  using zero_copy_no_sample_lost [of zb_new "[Op_send 64, Op_send 128, Op_receive, Op_release 0, Op_reclaim]"]
  by (auto simp: zb_new_def usize_lim_def)

definition zb_tight :: zc_builder where
  "zb_tight = \<lparr>zb_buffer_size = 1, zb_overflow = True, zb_max_borrowed = 1\<rparr>"

lemmas zc_eval = zb_tight_def zc_fresh_def zc_start_def oq_new_def iq_new_def try_send_def retrieve_space_def try_send_with_def
  iq_len_def iq_positions_def oq_len_def oq_is_full_def oq_push_def opush_run_6 zc_recv_def oq_pop_def opop_run_4 zc_release_def
  iq_push_def push_run_4 usize_lim_def opt_list_def

text \<open>The guard of \<^verbatim>\<open>try_send\<close> looks at the retrieve channel before it looks at the receive channel. When the
  receiver releases and receives in between, the guard lets a sample pass for which there is no room on
  the way back: a later release of a borrowed sample fails with \<^verbatim>\<open>RetrieveBufferFull\<close>. The connection has a buffer of one
  sample and one borrowed sample, and its state before the overlapping send is reached by calls that do not overlap.\<close>

theorem overlapping_send_breaks_release:
  "\<exists>s space s1 m r.
     zc_run [Op_send 1, Op_receive, Op_release 0, Op_send 2, Op_receive, Op_send 3] (zc_start (zc_fresh zb_tight)) = Ok s
   \<and> retrieve_space (zs_mgmt s) = (Ok space :: (zc_send_error, _) outcome)
   \<and> zc_run [Op_release 0, Op_receive] s = Ok s1
   \<and> try_send_with space (zs_mgmt s1) 4 = Ok (m, r)
   \<and> zc_run [Op_release 0, Op_receive, Op_release 0] (s1\<lparr>zs_mgmt := m\<rparr>) = Err RetrieveBufferFull"
  by (simp add: zc_eval mod_Suc)

lemma state_cases:
  "state_value StNone = 0" "state_value StSender = 1" "state_value StReceiver = 2" "state_value StMarkedForDestruction = 128"
  by simp_all

text \<open>The ports of a connection in shared memory: each port can be reserved exactly once at a time; giving a
  port back clears exactly its mark, except for the last port, which marks the connection for destruction and removes the segment;
  a connection that is marked can never be entered again.\<close>

theorem connection_lifecycle:
  assumes "zc_state m \<in> {0, 1, 2, 3, 128}" and "port = StSender \<and> other = StReceiver \<or> port = StReceiver \<and> other = StSender"
  shows "reserve_port port m =
      (if zc_state m = 128 then Err ZC_InternalError
       else if zc_state m AND state_value port \<noteq> 0 then Err AnotherInstanceIsAlreadyConnected
       else Ok (m\<lparr>zc_state := zc_state m OR state_value port\<rparr>))
    \<and> (zc_state m \<noteq> 128 \<longrightarrow> zc_state m OR state_value port \<in> {1, 2, 3}
         \<and> (zc_state m OR state_value port) AND state_value port \<noteq> 0
         \<and> (zc_state m OR state_value port) AND state_value other = zc_state m AND state_value other)
    \<and> (zc_state m \<in> {1, 2, 3} \<and> zc_state m AND state_value port \<noteq> 0 \<longrightarrow>
        cleanup_shared_memory port m =
          (if zc_state m AND state_value other \<noteq> 0 then (m\<lparr>zc_state := state_value other\<rparr>, False)
           else (m\<lparr>zc_state := 128\<rparr>, True)))
    \<and> (zc_is_connected m \<longleftrightarrow> zc_state m \<noteq> 128 \<and> zc_state m AND 1 \<noteq> 0 \<and> zc_state m AND 2 \<noteq> 0)"
proof -
  have "zc_state m = 0 \<or> zc_state m = 1 \<or> zc_state m = 2 \<or> zc_state m = 3 \<or> zc_state m = 128" using assms(1) by auto
  then show ?thesis using assms(2)
    by (elim disjE conjE; simp add: reserve_port_def cleanup_shared_memory_def zc_is_connected_def)
qed

theorem connection_lifecycle_witness:
  "reserve_port StSender (zc_fresh zb_new) = Ok ((zc_fresh zb_new)\<lparr>zc_state := 1\<rparr>)"
  using connection_lifecycle [of "zc_fresh zb_new" StSender StReceiver] by (simp add: zc_fresh_def)

text \<open>The loop that is to wait for the creator of the segment has its condition inverted: a segment that is not finished is
  rejected at once, without any waiting, whatever the clock says; and on a finished segment the loop never
  ends when the first wait already takes the maximum creation time.\<close>

theorem open_waits_on_the_wrong_side:
  assumes "ze_shm_ok env" and "ze_wait_create_ok env" and "base + self + 16 * zb_buffer_size b + 8 * zb_max_borrowed b + 72 < usize_lim"
  shows "(ze_permission env 0 = Some False \<and> ze_permission env 1 = Some False \<longrightarrow>
        zc_create_or_open (Suc fuel) env self base b (Some m) = Some (Err ConnectionMaybeCorrupted))
    \<and> ((\<forall>i. ze_permission env i = Some True) \<and> (\<forall>i. \<exists>d \<ge> MAX_CREATION_DURATION. ze_elapsed env i = Some d) \<longrightarrow>
        zc_create_or_open fuel env self base b (Some m) = None)"
proof -
  let ?c = "zb_buffer_size b" and ?n = "zb_buffer_size b + zb_max_borrowed b + 1"
  have bd: "base + self + 8 * ?c + 8 * ?n + 64 < usize_lim" using assms(3) by simp
  have r: "retrieve_channel_size b = (Ok ?n :: (zc_creation_error, _) outcome)" using assms(3) by (simp add: retrieve_channel_size_def)
  note z = zc_setup_ok(1) [OF bd refl refl, where ?'e = zc_creation_error]
  have loop: "zc_wait_loop k env i = None"
    if "\<forall>i. ze_permission env i = Some True" "\<forall>i. \<exists>d \<ge> MAX_CREATION_DURATION. ze_elapsed env i = Some d" for k i
    using that
  proof (induction k arbitrary: i)
    case (Suc k)
    then obtain d where "MAX_CREATION_DURATION \<le> d" "ze_elapsed env i = Some d" by blast
    then show ?case using Suc by (simp add: not_less)
  qed simp
  show ?thesis using assms(1,2) r z loop [of fuel 0] by (auto simp: zc_create_or_open_def receive_channel_size_def)
qed

theorem open_waits_on_the_wrong_side_witness:
  "zc_create_or_open 1 \<lparr>ze_shm_ok = True, ze_set_permission_ok = True, ze_wait_create_ok = True, ze_permission = (\<lambda>_. Some False), ze_elapsed = (\<lambda>_. Some 0)\<rparr>
     200 4096 zb_new (Some (zc_fresh zb_new)) = Some (Err ConnectionMaybeCorrupted)"
  using open_waits_on_the_wrong_side [of "\<lparr>ze_shm_ok = True, ze_set_permission_ok = True, ze_wait_create_ok = True, ze_permission = (\<lambda>_. Some False), ze_elapsed = (\<lambda>_. Some 0)\<rparr>"
    4096 200 zb_new 0 "zc_fresh zb_new"]
  by (simp add: zb_new_def usize_lim_def)

end
