(* ===== verification/ShmAllocator.thy ===== *)
theory ShmAllocator
  imports PoolAllocator BumpAllocator
begin

text \<open>
  \<^verbatim>\<open>elkodon_cal/src/shm_allocator\<close> and \<^verbatim>\<open>elkodon_cal/src/shared_memory/posix.rs\<close>: allocators that hand out offsets
  relative to the start of the payload of a shared memory segment, and the creation of such a segment. The segment starts with
  the management data of the allocator (\<^verbatim>\<open>AllocatorDetails\<close>, then the memory of its index set) and continues with the payload.

  The lemmas show that creation never fails for lack of management memory, and how offsets and bucket indices correspond.
\<close>

section \<open>Allocators over offsets\<close>

datatype shm_allocation_error = ExceedsMaxSupportedAlignment | ShmAllocationError allocation_error
datatype shm_allocator_init_error = MaxSupportedMemoryAlignmentInsufficient | AllocationFailed

record shm_pool =
  sp_allocator :: pool_allocator
  sp_base_address :: usize
  sp_max_supported_alignment :: usize

definition sp_management_size :: "usize \<Rightarrow> layout \<Rightarrow> ('e, usize) outcome" where
  "sp_management_size memory_size bucket_layout = pool_memory_size bucket_layout memory_size"

definition sp_new_uninit :: "usize \<Rightarrow> chunk \<Rightarrow> layout \<Rightarrow> ('e, shm_pool) outcome" where
  "sp_new_uninit max_supported_alignment_by_memory base_address bucket_layout =
     omap (\<lambda>p. \<lparr>sp_allocator = p, sp_base_address = fst base_address, sp_max_supported_alignment = max_supported_alignment_by_memory\<rparr>)
       (pool_new_uninit bucket_layout (fst base_address) (snd base_address))"

definition sp_max_alignment :: "shm_pool \<Rightarrow> usize" where
  "sp_max_alignment s = p_alignment (sp_allocator s)"

definition sp_init ::
  "(layout \<Rightarrow> (allocation_error, chunk) outcome) \<Rightarrow> shm_pool \<Rightarrow> (shm_allocator_init_error, shm_pool) outcome" where
  "sp_init allocate s =
     (if sp_max_supported_alignment s < sp_max_alignment s then Err MaxSupportedMemoryAlignmentInsufficient
      else omap (\<lambda>p. s\<lparr>sp_allocator := p\<rparr>) (map_err (\<lambda>_. AllocationFailed) (pool_initialize allocate (sp_allocator s))))"

definition sp_allocate :: "shm_pool \<Rightarrow> layout \<Rightarrow> (shm_allocation_error, shm_pool \<times> usize) outcome" where
  "sp_allocate s l =
     (if sp_max_alignment s < lalign l then Err ExceedsMaxSupportedAlignment
      else obind (map_err ShmAllocationError (pool_allocate (sp_allocator s) l)) (\<lambda>(p, chunk).
        obind (usub (fst chunk) (sp_base_address s)) (\<lambda>offset. Ok (s\<lparr>sp_allocator := p\<rparr>, offset))))"

definition sp_deallocate :: "shm_pool \<Rightarrow> usize \<Rightarrow> (deallocation_error, shm_pool) outcome" where
  "sp_deallocate s offset =
     obind (uadd offset (sp_base_address s)) (\<lambda>ptr. omap (\<lambda>p. s\<lparr>sp_allocator := p\<rparr>) (pool_deallocate (sp_allocator s) ptr))"

record shm_bump =
  sb_allocator :: bump_allocator
  sb_base_address :: usize
  sb_max_supported_alignment :: usize

definition sb_management_size :: "usize \<Rightarrow> usize" where
  "sb_management_size memory_size = 0"

definition sb_new_uninit :: "usize \<Rightarrow> chunk \<Rightarrow> shm_bump" where
  "sb_new_uninit max_supported_alignment_by_memory base_address =
     \<lparr>sb_allocator = bump_new (fst base_address) (snd base_address), sb_base_address = fst base_address,
      sb_max_supported_alignment = max_supported_alignment_by_memory\<rparr>"

definition sb_max_alignment :: "shm_bump \<Rightarrow> usize" where
  "sb_max_alignment s = 8"

definition sb_init :: "shm_bump \<Rightarrow> (shm_allocator_init_error, unit) outcome" where
  "sb_init s = (if sb_max_supported_alignment s < sb_max_alignment s then Err MaxSupportedMemoryAlignmentInsufficient else Ok ())"

definition sb_allocate :: "shm_bump \<Rightarrow> layout \<Rightarrow> (shm_allocation_error, shm_bump \<times> usize) outcome" where
  "sb_allocate s l =
     (if sb_max_alignment s < lalign l then Err ExceedsMaxSupportedAlignment
      else obind (map_err ShmAllocationError (bump_allocate (sb_allocator s) l)) (\<lambda>(a, chunk).
        obind (usub (fst chunk) (sb_base_address s)) (\<lambda>offset. Ok (s\<lparr>sb_allocator := a\<rparr>, offset))))"

definition sb_deallocate :: "shm_bump \<Rightarrow> usize \<Rightarrow> (deallocation_error, shm_bump) outcome" where
  "sb_deallocate s offset =
     obind (uadd offset (sb_base_address s)) (\<lambda>_. omap (\<lambda>a. s\<lparr>sb_allocator := a\<rparr>) (bump_deallocate (sb_allocator s)))"

section \<open>The segment\<close>

datatype shm_create_error = ShmAlreadyExists | ShmSizeIsZero | ShmInsufficientPermissions | ShmInternalError
datatype shm_open_error =
  ShmOpen_DoesNotExist | ShmOpen_InsufficientPermissions | ShmOpen_SizeIsZero | ShmOpen_SizeDoesNotFit
| ShmOpen_WrongAllocatorSelected | ShmOpen_InternalError

text \<open>What the operating system answers to the request for a segment is an argument: an error, or the address of the mapping.
  \<open>size_of_d\<close> and \<open>align_of_d\<close> are size and alignment of \<^verbatim>\<open>AllocatorDetails\<close>.\<close>

datatype os_shm_error = OsAlreadyExist | OsInsufficientPermissions | OsDoesNotExist | OsSizeDoesNotFit | OsOther

record shm_segment =
  seg_base :: usize
  seg_allocator_id :: u8
  seg_allocator :: shm_pool
  seg_mgmt_size :: usize

definition sp_unique_id :: u8 where
  "sp_unique_id = 0"

definition sb_unique_id :: u8 where
  "sb_unique_id = 1"

definition allocator_details_size :: "usize \<Rightarrow> usize \<Rightarrow> ('e, usize) outcome" where
  "allocator_details_size size_of_d align_of_d = obind (uadd size_of_d align_of_d) (\<lambda>n. usub n 1)"

definition allocator_size :: "usize \<Rightarrow> usize \<Rightarrow> usize \<Rightarrow> layout \<Rightarrow> ('e, usize) outcome" where
  "allocator_size size_of_d align_of_d size' bucket_layout =
     obind (allocator_details_size size_of_d align_of_d) (\<lambda>d. obind (sp_management_size size' bucket_layout) (\<lambda>m. uadd d m))"

definition shm_create ::
  "usize \<Rightarrow> usize \<Rightarrow> usize \<Rightarrow> (usize \<Rightarrow> (os_shm_error, usize) outcome) \<Rightarrow> bool \<Rightarrow> usize \<Rightarrow> layout
     \<Rightarrow> (shm_create_error, shm_segment) outcome" where
  "shm_create page_size size_of_d align_of_d os_create set_permission_ok size' bucket_layout =
     (if size' = 0 then Err ShmSizeIsZero
      else obind (allocator_size size_of_d align_of_d size' bucket_layout) (\<lambda>mgmt_size. obind (uadd size' mgmt_size) (\<lambda>total.
        obind (map_err (\<lambda>e. case e of OsAlreadyExist \<Rightarrow> ShmAlreadyExists
                                | OsInsufficientPermissions \<Rightarrow> ShmInsufficientPermissions | _ \<Rightarrow> ShmInternalError)
                 (os_create total)) (\<lambda>base.
        obind (uadd base mgmt_size) (\<lambda>payload. obind (sp_new_uninit page_size (payload, size') bucket_layout) (\<lambda>a.
        obind (allocator_details_size size_of_d align_of_d) (\<lambda>d. obind (uadd base d) (\<lambda>mgmt_addr.
        obind (sp_management_size size' bucket_layout) (\<lambda>m.
        obind (map_err (\<lambda>_. ShmInternalError) (sp_init (\<lambda>l. omap snd (bump_allocate (bump_new mgmt_addr m) l)) a)) (\<lambda>a'.
          if set_permission_ok
          then Ok \<lparr>seg_base = base, seg_allocator_id = sp_unique_id, seg_allocator = a', seg_mgmt_size = mgmt_size\<rparr>
          else Err ShmInternalError))))))))))"

text \<open>Opening maps the same segment at another address. \<open>permission\<close> is \<open>None\<close> when it cannot be read, and says otherwise whether the
  creator has finished.\<close>

definition shm_open ::
  "(os_shm_error, usize \<times> usize) outcome \<Rightarrow> bool option \<Rightarrow> shm_segment \<Rightarrow> (shm_open_error, shm_segment) outcome" where
  "shm_open os_open permission seg =
     obind (map_err (\<lambda>e. case e of OsDoesNotExist \<Rightarrow> ShmOpen_DoesNotExist | OsSizeDoesNotFit \<Rightarrow> ShmOpen_SizeDoesNotFit
                             | OsInsufficientPermissions \<Rightarrow> ShmOpen_InsufficientPermissions | _ \<Rightarrow> ShmOpen_InternalError) os_open) (\<lambda>(base, shm_size).
       case permission of
         None \<Rightarrow> Err ShmOpen_InternalError
       | Some finished \<Rightarrow>
           if \<not> finished then Err ShmOpen_InternalError
           else if shm_size \<le> 1 then Err ShmOpen_SizeDoesNotFit
           else if seg_allocator_id seg \<noteq> sp_unique_id then Err ShmOpen_WrongAllocatorSelected
           else Ok (seg\<lparr>seg_base := base\<rparr>))"

definition allocator_data_start_address :: "shm_segment \<Rightarrow> ('e, usize) outcome" where
  "allocator_data_start_address seg = uadd (seg_base seg) (seg_mgmt_size seg)"

text \<open>The result is the \<^verbatim>\<open>ShmPointer\<close>: the offset and the address of the data.\<close>

definition shm_allocate :: "shm_segment \<Rightarrow> layout \<Rightarrow> (shm_allocation_error, shm_segment \<times> usize \<times> usize) outcome" where
  "shm_allocate seg l =
     obind (sp_allocate (seg_allocator seg) l) (\<lambda>(a, offset). obind (allocator_data_start_address seg) (\<lambda>start.
       obind (uadd offset start) (\<lambda>data_ptr. Ok (seg\<lparr>seg_allocator := a\<rparr>, offset, data_ptr))))"

definition shm_deallocate :: "shm_segment \<Rightarrow> usize \<Rightarrow> (deallocation_error, shm_segment) outcome" where
  "shm_deallocate seg offset = omap (\<lambda>a. seg\<lparr>seg_allocator := a\<rparr>) (sp_deallocate (seg_allocator seg) offset)"

section \<open>Offsets and bucket indices\<close>

abbreviation seg_pool :: "shm_segment \<Rightarrow> pool_allocator" where
  "seg_pool seg \<equiv> sp_allocator (seg_allocator seg)"

abbreviation seg_free :: "shm_segment \<Rightarrow> u32 list" where
  "seg_free seg \<equiv> uis_free (p_buckets (seg_pool seg))"

abbreviation seg_budget :: "shm_segment \<Rightarrow> nat" where
  "seg_budget seg \<equiv> uis_budget (p_buckets (seg_pool seg))"

abbreviation seg_capacity :: "shm_segment \<Rightarrow> nat" where
  "seg_capacity seg \<equiv> unat (u_capacity (p_buckets (seg_pool seg)))"

text \<open>A segment in the process that created it.\<close>

definition seg_wf :: "layout \<Rightarrow> shm_segment \<Rightarrow> bool" where
  "seg_wf l seg \<longleftrightarrow> pool_wf (seg_pool seg) \<and> p_bucket_size (seg_pool seg) = lsize l \<and> p_alignment (seg_pool seg) = lalign l
     \<and> sp_base_address (seg_allocator seg) = seg_base seg + seg_mgmt_size seg
     \<and> sp_base_address (seg_allocator seg) \<le> p_start (seg_pool seg)
     \<and> p_start (seg_pool seg) < sp_base_address (seg_allocator seg) + lalign l"

definition seg_offset :: "shm_segment \<Rightarrow> nat \<Rightarrow> nat" where
  "seg_offset seg i = p_start (seg_pool seg) - sp_base_address (seg_allocator seg) + i * p_bucket_size (seg_pool seg)"

abbreviation seg_with :: "shm_segment \<Rightarrow> unique_index_set \<Rightarrow> shm_segment" where
  "seg_with seg s \<equiv> seg\<lparr>seg_allocator := (seg_allocator seg)\<lparr>sp_allocator := (seg_pool seg)\<lparr>p_buckets := s\<rparr>\<rparr>\<rparr>"

lemma seg_wf_with:
  "seg_wf l seg \<Longrightarrow> uis_wf s \<Longrightarrow> u_capacity s = u_capacity (p_buckets (seg_pool seg)) \<Longrightarrow> seg_wf l (seg_with seg s)"
  using pool_wf_buckets [of "seg_pool seg" s] by (simp add: seg_wf_def)

lemma seg_allocate_none:
  assumes "seg_wf l seg" and "seg_free seg = []"
  shows "shm_allocate seg l = Err (ShmAllocationError OutOfMemory)"
  using assms pool_allocate_none [of "seg_pool seg" l]
  by (simp add: shm_allocate_def sp_allocate_def sp_max_alignment_def seg_wf_def)

lemma seg_allocate_some:
  assumes "seg_wf l seg" and "seg_free seg = i # is" and "0 < seg_budget seg"
  shows "\<exists>s ptr. shm_allocate seg l = Ok (seg_with seg s, seg_offset seg (unat i), ptr) \<and> uis_wf s \<and> uis_free s = is
    \<and> u_capacity s = u_capacity (p_buckets (seg_pool seg)) \<and> uis_budget s = seg_budget seg - 1"
proof -
  have w: "pool_wf (seg_pool seg)" "lsize l = p_bucket_size (seg_pool seg)" "lalign l = p_alignment (seg_pool seg)"
    and b: "sp_base_address (seg_allocator seg) = seg_base seg + seg_mgmt_size seg" "sp_base_address (seg_allocator seg) \<le> p_start (seg_pool seg)"
    using assms(1) by (auto simp: seg_wf_def)
  have i: "i < u_capacity (p_buckets (seg_pool seg))" using uis.free_universe w(1) assms(2) by (force simp: pool_wf_def)
  have "p_start (seg_pool seg) + unat i * p_bucket_size (seg_pool seg) < usize_lim"
    using bucket_end [OF i] w(1) by (auto simp: pool_wf_def)
  then show ?thesis
    using pool_allocate_some [OF w(1) _ _ assms(2,3), of l] w(2,3) b
    by (auto simp: shm_allocate_def sp_allocate_def sp_max_alignment_def allocator_data_start_address_def seg_offset_def)
qed

lemma pool_get_index_inside:
  assumes "pool_wf p" and "i < u_capacity (p_buckets p)" and "d < p_bucket_size p"
  shows "pool_get_index p (p_start p + (unat i * p_bucket_size p + d)) = Ok (Some i)"
proof -
  have "unat i * p_bucket_size p + d \<le> p_size p" using bucket_end [OF assms(2)] assms(1,3) by (simp add: pool_wf_def)
  moreover have "(unat i * p_bucket_size p + d) div p_bucket_size p = unat i" using assms(3) by simp
  ultimately show ?thesis using assms(1) by (simp add: pool_get_index_def pool_wf_def)
qed

text \<open>Every offset that points into a bucket releases the bucket.\<close>

lemma seg_deallocate_ok:
  assumes "seg_wf l seg" and "i < u_capacity (p_buckets (seg_pool seg))" and "i \<notin> set (seg_free seg)" and "0 < seg_budget seg" and "d < lsize l"
  shows "\<exists>s. shm_deallocate seg (seg_offset seg (unat i) + d) = Ok (seg_with seg s) \<and> uis_wf s \<and> uis_free s = i # seg_free seg
    \<and> u_capacity s = u_capacity (p_buckets (seg_pool seg)) \<and> uis_budget s = seg_budget seg - 1"
proof -
  let ?p = "seg_pool seg"
  have w: "pool_wf ?p" "uis_wf (p_buckets ?p)" "p_init ?p" "d < p_bucket_size ?p" and b: "sp_base_address (seg_allocator seg) \<le> p_start ?p"
    and lim: "p_start ?p + p_size ?p < usize_lim" "unat (u_capacity (p_buckets ?p)) * p_bucket_size ?p \<le> p_size ?p"
    using assms(1,5) by (auto simp: seg_wf_def pool_wf_def)
  obtain s where s: "release_raw_index (p_buckets ?p) i = (Ok s :: (deallocation_error, _) outcome)" "uis_wf s"
    "uis_free s = i # seg_free seg" "u_capacity s = u_capacity (p_buckets ?p)" "uis_budget s = seg_budget seg - 1"
    using release_raw_index_Ok [OF w(2) assms(2-4)] by blast
  have a: "seg_offset seg (unat i) + d + sp_base_address (seg_allocator seg) = p_start ?p + (unat i * p_bucket_size ?p + d)"
    using b by (simp add: seg_offset_def)
  have "p_start ?p + (unat i * p_bucket_size ?p + d) < usize_lim" using bucket_end [OF assms(2)] lim w(4) by linarith
  then have u: "uadd (seg_offset seg (unat i) + d) (sp_base_address (seg_allocator seg)) = Ok (p_start ?p + (unat i * p_bucket_size ?p + d))"
    unfolding uadd_def a by (rule if_P)
  have "shm_deallocate seg (seg_offset seg (unat i) + d) = Ok (seg_with seg s)"
    using s(1) w(3)
    by (simp add: shm_deallocate_def sp_deallocate_def pool_deallocate_def pool_verify_init_def u pool_get_index_inside [OF w(1) assms(2) w(4)])
  then show ?thesis using s by blast
qed

lemma seg_offset_div:
  assumes "seg_wf l seg" and "p_start (seg_pool seg) - sp_base_address (seg_allocator seg) + d < lsize l"
  shows "(seg_offset seg i + d) div lsize l = i"
proof -
  have bs: "p_bucket_size (seg_pool seg) = lsize l" using assms(1) by (simp add: seg_wf_def)
  let ?g = "p_start (seg_pool seg) - sp_base_address (seg_allocator seg)"
  have "seg_offset seg i + d = ?g + d + i * lsize l" by (simp add: seg_offset_def bs)
  moreover have "(?g + d + i * lsize l) div lsize l = i" using assms(2) by simp
  ultimately show ?thesis by presburger
qed

lemma seg_with_simps [simp]:
  "seg_offset (seg_with seg s) = seg_offset seg"
  by (simp add: seg_offset_def fun_eq_iff)

section \<open>Creation\<close>

text \<open>The bump allocator of the management memory serves exactly one request, which fits into the computed size.\<close>

lemma mgmt_fits:
  assumes "k \<le> m" and "p + 4 * (m + 1) + 16 < usize_lim"
  shows "\<exists>c. bump_allocate (bump_new p (4 * (m + 1) + 3)) \<lparr>lsize = 4 * (k + 1), lalign = 4\<rparr> = Ok c"
proof -
  have v: "valid_layout \<lparr>lsize = 4 * (k + 1), lalign = 4\<rparr>" by (rule valid_layout_intro [of _ 2]) simp
  have ge: "p \<le> align_up p 4" "align_up p 4 < p + 4" using align_up_ge [of 4 p] align_up_less [of 4 p] by auto
  then show ?thesis using bump_allocate_cases [OF v, of "bump_new p (4 * (m + 1) + 3)"] assms by (simp add: bump_new_def)
qed

lemma shm_create_ok:
  assumes "valid_layout l" and "0 < lsize l" and "lalign l dvd lsize l" and "lalign l \<le> page" and "0 < n" and "n + 1 < 2 ^ 32"
    and "size' = lsize l * n + lalign l - 1" and "0 < size_of_d + align_of_d"
    and "base + size_of_d + align_of_d + 2 * size' + 4 * n + lalign l + 64 < usize_lim" and "os_create = (\<lambda>_. Ok base)"
  shows "\<exists>seg. shm_create page size_of_d align_of_d os_create True size' l = Ok seg \<and> seg_wf l seg
    \<and> seg_free seg = map word_of_nat [0 ..< n] \<and> seg_capacity seg = n \<and> seg_budget seg = 2 ^ 32 - 1 \<and> seg_base seg = base"
proof -
  have al: "0 < lalign l" "lalign l \<le> lsize l" using valid_layout_pos [OF assms(1)] assms(2,3) by (auto dest: dvd_imp_le)
  have sz: "0 < size'" using al assms(5,7) by (cases n) auto
  let ?d = "size_of_d + align_of_d - 1" and ?m = "4 * (n + 1) + 3"
  have q: "size' div lsize l = n"
  proof -
    obtain r where r: "lalign l = Suc r" using al(1) by (cases "lalign l") auto
    then have "size' = lsize l * n + r" "r < lsize l" using al(2) assms(7) by simp_all
    then show ?thesis by simp
  qed
  let ?payload = "base + (?d + ?m)" and ?start = "align_up (base + (?d + ?m)) (lalign l)"
  have ge: "?payload \<le> ?start" "?start < ?payload + lalign l" using align_up_ge [OF al(1)] align_up_less [OF al(1)] by auto
  have als: "align_up (lsize l) (lalign l) = lsize l" using assms(3) by (simp add: align_up_def)
  have "lsize l \<le> lsize l * n" using assms(5) by simp
  then have "lsize l \<le> size'" using assms(7) al(1) by linarith
  then have lim: "lsize l + lalign l < usize_lim" "?payload + lalign l < usize_lim" "?payload + size' < usize_lim" "?payload + lalign l + size' < usize_lim"
    using assms(9) by simp_all
  have cn: "(?payload + size' - ?start) div lsize l = n"
  proof -
    let ?r = "lalign l - 1 - (?start - ?payload)"
    have "?payload + size' - ?start = lsize l * n + ?r" using ge al assms(7) by linarith
    moreover have "?r < lsize l" using al by linarith
    ultimately show ?thesis by simp
  qed
  have calc: "calc_number_of_buckets l ?payload size' = (Ok n :: (shm_create_error, _) outcome)"
    using cn lim ge al assms(2,7) align_eq_align_up [OF al(1) lim(2), where ?'a = shm_create_error] align_eq_align_up [OF al(1) lim(1), where ?'a = shm_create_error]
    by (simp add: calc_number_of_buckets_def als)
  let ?a = "\<lparr>sp_allocator = \<lparr>p_buckets = uis_new_uninit n, p_bucket_size = lsize l, p_alignment = lalign l, p_start = ?start, p_size = size', p_init = False\<rparr>,
    sp_base_address = ?payload, sp_max_supported_alignment = page\<rparr>"
  have new: "sp_new_uninit page (?payload, size') l = (Ok ?a :: (shm_create_error, _) outcome)"
    using calc align_eq_align_up [OF al(1) lim(2), where ?'a = shm_create_error] by (simp add: sp_new_uninit_def pool_new_uninit_def)
  have ms: "sp_management_size size' l = (Ok ?m :: (shm_create_error, _) outcome)"
    using assms(2,9) q by (simp add: sp_management_size_def pool_memory_size_def uis_const_memory_size_def)
  have ds: "allocator_details_size size_of_d align_of_d = (Ok ?d :: (shm_create_error, _) outcome)"
    using assms(8,9) by (auto simp: allocator_details_size_def usub_def)
  obtain c where c: "bump_allocate (bump_new (base + ?d) ?m) \<lparr>lsize = 4 * (n + 1), lalign = 4\<rparr> = Ok c"
  proof -
    have "base + ?d + 4 * (n + 1) + 16 < usize_lim" using assms(9) by simp
    then show ?thesis using mgmt_fits [of n n "base + ?d"] that by blast
  qed
  obtain u where u: "uis_init (\<lambda>l. omap snd (bump_allocate (bump_new (base + ?d) ?m) l)) (uis_new_uninit n) = Ok u" "uis_wf u"
    "uis_free u = map word_of_nat [0 ..< n]" "u_capacity u = word_of_nat n" "uis_budget u = 2 ^ 32 - 1"
    using uis_init_initial [OF assms(6), of "\<lambda>l. omap snd (bump_allocate (bump_new (base + ?d) ?m) l)" "snd c"] c by auto
  let ?s = "\<lparr>seg_base = base, seg_allocator_id = sp_unique_id, seg_allocator = ?a\<lparr>sp_allocator := (sp_allocator ?a)\<lparr>p_buckets := u, p_init := True\<rparr>\<rparr>,
    seg_mgmt_size = ?d + ?m\<rparr>"
  have init: "sp_init (\<lambda>l. omap snd (bump_allocate (bump_new (base + ?d) ?m) l)) ?a = Ok (seg_allocator ?s)"
    using assms(4) u(1) by (simp add: sp_init_def sp_max_alignment_def pool_initialize_def)
  have as: "allocator_size size_of_d align_of_d size' l = (Ok (?d + ?m) :: (shm_create_error, _) outcome)"
    using assms(9) by (simp add: allocator_size_def ms ds)
  have "shm_create page size_of_d align_of_d os_create True size' l = Ok ?s"
    using sz assms(8,9,10) init new as ms ds by (simp add: shm_create_def)
  moreover have "n * lsize l \<le> size'" using assms(7) al by (simp add: mult.commute)
  then have "seg_wf l ?s" using assms(1-3) u ge lim al assms(6)
    by (simp add: seg_wf_def pool_wf_def valid_layout_def unat_word_of_nat_u32)
  ultimately show ?thesis using u assms(6) by (intro exI [of _ ?s]) (simp add: unat_word_of_nat_u32)
qed

end
