(* ===== verification/Publisher.thy ===== *)
theory Publisher
  imports ShmAllocator ContainerQueue LockFreeContainer ZeroCopyConnection
begin

text \<open>
  \<^verbatim>\<open>elkodon/src/port/publisher.rs\<close>, \<^verbatim>\<open>port/details/subscriber_connections.rs\<close> and \<^verbatim>\<open>sample_mut.rs\<close>: the publisher.
  Samples are chunks of its data segment (a pool in shared memory) and travel by their offset. A reference
  counter per chunk counts the loan, the history entry and the deliveries to subscribers; the chunk goes back to the pool
  when the counter drops to zero.

  An operation that has changed the state before it returns an error keeps the change: its result is a state together with
  \<open>Inl\<close> error or \<open>Inr\<close> value. The outer option is \<open>None\<close> when a call does not return (a blocking
  send on a full connection waits until the subscriber takes a sample).
\<close>

section \<open>State\<close>

datatype loan_error = Loan_OutOfMemory | ExceedsMaxLoanedChunks | Loan_InternalFailure
datatype publisher_create_error = ExceedsMaxSupportedPublishers | UnableToCreateDataSegment
datatype send_copy_error = SendCopy_LoanError loan_error | SendCopy_ConnectionError zc_creation_error
datatype unable_to_deliver_strategy = Block | DiscardSample
datatype degration_action = Ignore | Warn | Fail

record static_config =
  sc_max_subscribers :: usize
  sc_max_publishers :: usize
  sc_history_size :: usize
  sc_buffer_size :: usize
  sc_max_borrowed :: usize
  sc_safe_overflow :: bool

record 'id publisher =
  pub_counter :: "u64 list"
  pub_segment :: shm_segment
  pub_connections :: "zc_mgmt option list"
  pub_subscribers :: "'id container_state"
  pub_history :: "nat container_queue option"
  pub_loans :: u64
  pub_max_loaned :: usize
  pub_strategy :: unable_to_deliver_strategy
  pub_degration :: "('id \<Rightarrow> degration_action) option"
  pub_layout :: layout

text \<open>Sequencing of calls that may not return.\<close>

definition wbind :: "('e, 'a) outcome option \<Rightarrow> ('a \<Rightarrow> ('e, 'b) outcome option) \<Rightarrow> ('e, 'b) outcome option" where
  "wbind m f = (case m of None \<Rightarrow> None | Some (Ok x) \<Rightarrow> f x | Some (Err e) \<Rightarrow> Some (Err e) | Some Panic \<Rightarrow> Some Panic | Some UB \<Rightarrow> Some UB)"

lemma wbind_simps [simp]:
  "wbind None f = None" "wbind (Some (Ok x)) f = f x" "wbind (Some (Err e)) f = Some (Err e)"
  "wbind (Some Panic) f = Some Panic" "wbind (Some UB) f = Some UB"
  by (simp_all add: wbind_def)

section \<open>Reference counters\<close>

definition sample_index :: "'id publisher \<Rightarrow> usize \<Rightarrow> ('e, usize) outcome" where
  "sample_index s distance_to_chunk = udiv distance_to_chunk (lsize (pub_layout s))"

text \<open>\<^verbatim>\<open>fetch_add\<close> and \<^verbatim>\<open>fetch_sub\<close> wrap around and return the old value; an index out of the vector panics.\<close>

definition counter_fetch_add :: "'id publisher \<Rightarrow> usize \<Rightarrow> ('e, 'id publisher \<times> u64) outcome" where
  "counter_fetch_add s i =
     (if i < length (pub_counter s)
      then Ok (s\<lparr>pub_counter := (pub_counter s)[i := pub_counter s ! i + 1]\<rparr>, pub_counter s ! i) else Panic)"

definition counter_fetch_sub :: "'id publisher \<Rightarrow> usize \<Rightarrow> ('e, 'id publisher \<times> u64) outcome" where
  "counter_fetch_sub s i =
     (if i < length (pub_counter s)
      then Ok (s\<lparr>pub_counter := (pub_counter s)[i := pub_counter s ! i - 1]\<rparr>, pub_counter s ! i) else Panic)"

definition release_sample :: "'id publisher \<Rightarrow> usize \<Rightarrow> ('e, 'id publisher) outcome" where
  "release_sample s distance_to_chunk =
     obind (sample_index s distance_to_chunk) (\<lambda>i. obind (counter_fetch_sub s i) (\<lambda>(s1, old).
       if old = 1 then omap (\<lambda>seg. s1\<lparr>pub_segment := seg\<rparr>) (panic_on_err (shm_deallocate (pub_segment s1) distance_to_chunk))
       else Ok s1))"

section \<open>Reclaiming\<close>

text \<open>The inner loop empties the retrieve channel of connection \<open>i\<close>. It does the work of \<^verbatim>\<open>release_sample\<close>
  for every returned offset (with another layout, which the pool ignores).\<close>

primrec retrieve_loop :: "nat \<Rightarrow> 'id publisher \<Rightarrow> nat \<Rightarrow> zc_mgmt \<Rightarrow> ('e, 'id publisher) outcome option" where
  "retrieve_loop 0 s i connection = None"
| "retrieve_loop (Suc n) s i connection =
     (case (reclaim connection :: (unit, zc_mgmt \<times> nat option) outcome) of
        Ok (connection', Some ptr_dist) \<Rightarrow>
          wbind (Some (release_sample (s\<lparr>pub_connections := (pub_connections s)[i := Some connection']\<rparr>) ptr_dist))
            (\<lambda>s'. retrieve_loop n s' i connection')
      | Ok (connection', None) \<Rightarrow> Some (Ok s)
      | Err e \<Rightarrow> retrieve_loop n s i connection | Panic \<Rightarrow> Some Panic | UB \<Rightarrow> Some UB)"

text \<open>The channel holds at most as many offsets as its capacity.\<close>

definition retrieve_from :: "'id publisher \<Rightarrow> nat \<Rightarrow> ('e, 'id publisher) outcome option" where
  "retrieve_from s i =
     (case pub_connections s ! i of
        Some connection \<Rightarrow> retrieve_loop (q_capacity (zc_retrieve connection) + 1) s i connection
      | None \<Rightarrow> Some (Ok s))"

definition retrieve_returned_samples :: "'id publisher \<Rightarrow> ('e, 'id publisher) outcome option" where
  "retrieve_returned_samples s =
     fold (\<lambda>i r. wbind r (\<lambda>s'. retrieve_from s' i)) [0 ..< length (pub_connections s)] (Some (Ok s))"

section \<open>Loans\<close>

text \<open>The user's \<^verbatim>\<open>SampleMut\<close> is the offset of its chunk; \<^verbatim>\<open>SampleMut::new\<close> counts the loan.\<close>

definition sample_mut_new :: "'id publisher \<Rightarrow> 'id publisher" where
  "sample_mut_new s = s\<lparr>pub_loans := pub_loans s + 1\<rparr>"

definition sample_mut_drop :: "'id publisher \<Rightarrow> usize \<Rightarrow> ('e, 'id publisher) outcome" where
  "sample_mut_drop s offset_to_chunk = omap (\<lambda>s'. s'\<lparr>pub_loans := pub_loans s' - 1\<rparr>) (release_sample s offset_to_chunk)"

definition loan :: "'id publisher \<Rightarrow> ('e, 'id publisher \<times> (loan_error + usize)) outcome option" where
  "loan s =
     wbind (retrieve_returned_samples s) (\<lambda>s1.
       if pub_max_loaned s1 \<le> unat (pub_loans s1) then Some (Ok (s1, Inl ExceedsMaxLoanedChunks))
       else Some (case shm_allocate (pub_segment s1) (pub_layout s1) of
           Ok (seg, offset, data_ptr) \<Rightarrow>
             obind (sample_index s1 offset) (\<lambda>i. obind (counter_fetch_add (s1\<lparr>pub_segment := seg\<rparr>) i) (\<lambda>(s2, old).
               if old \<noteq> 0 then Panic else Ok (sample_mut_new s2, Inr offset)))
         | Err (ShmAllocationError OutOfMemory) \<Rightarrow> Ok (s1, Inl Loan_OutOfMemory)
         | Err (ShmAllocationError SizeTooLarge) \<Rightarrow> Panic
         | Err (ShmAllocationError AlignmentFailure) \<Rightarrow> Panic
         | Err _ \<Rightarrow> Ok (s1, Inl Loan_InternalFailure)
         | Panic \<Rightarrow> Panic | UB \<Rightarrow> UB))"

section \<open>Sending\<close>

definition add_to_history :: "'id publisher \<Rightarrow> usize \<Rightarrow> ('e, 'id publisher) outcome" where
  "add_to_history s address_to_chunk =
     (case pub_history s of
        None \<Rightarrow> Ok s
      | Some history \<Rightarrow>
          obind (sample_index s address_to_chunk) (\<lambda>i. obind (counter_fetch_add s i) (\<lambda>(s1, _).
            obind (cq_push_with_overflow history address_to_chunk) (\<lambda>(history', r).
              let s2 = s1\<lparr>pub_history := Some history'\<rparr>
              in case r of None \<Rightarrow> Ok s2 | Some old \<Rightarrow> release_sample s2 old))))"

text \<open>A blocking send looks once: on a full connection without overflow it is still waiting.\<close>

fun deliver_call :: "unable_to_deliver_strategy \<Rightarrow> zc_mgmt \<Rightarrow> usize \<Rightarrow> (zc_send_error, zc_mgmt \<times> usize option) outcome option" where
  "deliver_call Block connection ptr = blocking_send 1 (\<lambda>_. connection) 0 ptr"
| "deliver_call DiscardSample connection ptr = Some (try_send connection ptr)"

definition deliver_to :: "usize \<Rightarrow> 'id publisher \<times> usize \<Rightarrow> nat \<Rightarrow> ('e, 'id publisher \<times> usize) outcome option" where
  "deliver_to address_to_chunk sn i =
     (case sn of (s, number_of_recipients) \<Rightarrow>
        case pub_connections s ! i of
          None \<Rightarrow> Some (Ok (s, number_of_recipients))
        | Some connection \<Rightarrow>
            (case deliver_call (pub_strategy s) connection address_to_chunk of
               None \<Rightarrow> None
             | Some (Err _) \<Rightarrow> Some (Ok (s, number_of_recipients))
             | Some (Ok (connection', overflow)) \<Rightarrow>
                 Some (obind (sample_index s address_to_chunk) (\<lambda>k.
                   obind (counter_fetch_add (s\<lparr>pub_connections := (pub_connections s)[i := Some connection']\<rparr>) k) (\<lambda>(s1, _).
                     obind (uadd number_of_recipients 1) (\<lambda>n.
                       case overflow of
                         Some old \<Rightarrow> omap (\<lambda>s2. (s2, n)) (release_sample s1 old)
                       | None \<Rightarrow> Ok (s1, n)))))
             | Some Panic \<Rightarrow> Some Panic | Some UB \<Rightarrow> Some UB))"

definition deliver_sample :: "'id publisher \<Rightarrow> usize \<Rightarrow> ('e, 'id publisher \<times> usize) outcome option" where
  "deliver_sample s address_to_chunk =
     fold (\<lambda>i r. wbind r (\<lambda>sn. deliver_to address_to_chunk sn i)) [0 ..< length (pub_connections s)] (Some (Ok (s, 0)))"

section \<open>Connections\<close>

text \<open>The callback sees the identifier of the subscriber; the other two arguments (service configuration and the publisher's own
  identifier) never change.\<close>

definition pub_set_degration_callback :: "('id \<Rightarrow> degration_action) option \<Rightarrow> 'id publisher \<Rightarrow> 'id publisher" where
  "pub_set_degration_callback callback s = s\<lparr>pub_degration := callback\<rparr>"

text \<open>\<^verbatim>\<open>SubscriberConnections::create\<close>: \<open>connect i id\<close> is what \<^verbatim>\<open>Connection::new\<close> answers. The result says whether
  the connection is new.\<close>

definition sub_connection_create ::
  "(nat \<Rightarrow> 'id \<Rightarrow> (zc_creation_error, zc_mgmt) outcome) \<Rightarrow> 'id publisher \<Rightarrow> nat \<Rightarrow> 'id \<Rightarrow> (zc_creation_error, 'id publisher \<times> bool) outcome" where
  "sub_connection_create connect s index subscriber_id =
     (if pub_connections s ! index = None
      then omap (\<lambda>c. (s\<lparr>pub_connections := (pub_connections s)[index := Some c]\<rparr>, True)) (connect index subscriber_id)
      else Ok (s, False))"

text \<open>Removing drops the \<^verbatim>\<open>Sender\<close>: what that does to the shared memory of the connection is \<open>cleanup_shared_memory\<close>;
  the publisher loses sight of the offsets that are still in it.\<close>

definition sub_connection_remove :: "'id publisher \<Rightarrow> nat \<Rightarrow> 'id publisher" where
  "sub_connection_remove s index = s\<lparr>pub_connections := (pub_connections s)[index := None]\<rparr>"

definition number_of_subscribers :: "'id publisher \<Rightarrow> usize" where
  "number_of_subscribers s =
     length (filter (\<lambda>c. case c of None \<Rightarrow> False | Some m \<Rightarrow> zc_is_connected m) (pub_connections s))"

text \<open>One entry of the history is offered to the new connection \<open>i\<close>; what an overflow hands back is dropped.\<close>

definition deliver_history_entry :: "nat \<Rightarrow> 'id publisher \<Rightarrow> usize \<Rightarrow> ('e, 'id publisher) outcome" where
  "deliver_history_entry i s ptr_distance =
     (case pub_connections s ! i of
        None \<Rightarrow> Panic
      | Some connection \<Rightarrow>
          (case try_send connection ptr_distance of
             Ok (connection', _) \<Rightarrow>
               obind (sample_index s ptr_distance) (\<lambda>k.
                 omap fst (counter_fetch_add (s\<lparr>pub_connections := (pub_connections s)[i := Some connection']\<rparr>) k))
           | Err _ \<Rightarrow> Ok s | Panic \<Rightarrow> Panic | UB \<Rightarrow> UB))"

definition deliver_history :: "'id publisher \<Rightarrow> nat \<Rightarrow> ('e, 'id publisher) outcome" where
  "deliver_history s i =
     (case pub_history s of
        None \<Rightarrow> Ok s
      | Some history \<Rightarrow>
          fold (\<lambda>k r. obind r (\<lambda>s'. obind (cq_get_unchecked history k) (\<lambda>ptr_distance. deliver_history_entry i s' ptr_distance)))
            [0 ..< cq_len history] (Ok s))"

definition populate_entry ::
  "(nat \<Rightarrow> 'id \<Rightarrow> (zc_creation_error, zc_mgmt) outcome) \<Rightarrow> 'id publisher \<Rightarrow> nat \<Rightarrow> 'id option
     \<Rightarrow> ('e, 'id publisher \<times> (zc_creation_error + unit)) outcome" where
  "populate_entry connect s i index =
     (case index of
        None \<Rightarrow> Ok (sub_connection_remove s i, Inr ())
      | Some subscriber_id \<Rightarrow>
          (case sub_connection_create connect s i subscriber_id of
             Ok (s', False) \<Rightarrow> Ok (s', Inr ())
           | Ok (s', True) \<Rightarrow> omap (\<lambda>s''. (s'', Inr ())) (deliver_history s' i)
           | Err e \<Rightarrow>
               (case pub_degration s of
                  Some c \<Rightarrow> (case c subscriber_id of Fail \<Rightarrow> Ok (s, Inl e) | _ \<Rightarrow> Ok (s, Inr ()))
                | None \<Rightarrow> Ok (s, Inr ()))
           | Panic \<Rightarrow> Panic | UB \<Rightarrow> UB))"

text \<open>The vector of visited indices; an index out of its range panics.\<close>

definition visited_indices :: "nat \<Rightarrow> (u32 \<times> 'id) list \<Rightarrow> ('e, 'id option list) outcome" where
  "visited_indices capacity entries =
     fold (\<lambda>(index, subscriber_id) r. obind r (\<lambda>v.
        if unat index < length v then Ok (v[unat index := Some subscriber_id]) else Panic))
       entries (Ok (replicate capacity None))"

definition populate_subscriber_channels ::
  "(nat \<Rightarrow> 'id \<Rightarrow> (zc_creation_error, zc_mgmt) outcome) \<Rightarrow> 'id publisher
     \<Rightarrow> ('e, 'id publisher \<times> (zc_creation_error + unit)) outcome option" where
  "populate_subscriber_channels connect s =
     wbind (Some (obind (cs_for_each (pub_subscribers s)) (visited_indices (length (pub_connections s))))) (\<lambda>visited.
       wbind (retrieve_returned_samples s) (\<lambda>s1.
         Some (fold (\<lambda>i r. obind r (\<lambda>(s', e). if isl e then Ok (s', e) else populate_entry connect s' i (visited ! i)))
           [0 ..< length visited] (Ok (s1, Inr ())))))"

text \<open>\<open>subscribers\<close> is the container with all subscribers of the service, in shared memory.\<close>

definition update_connections ::
  "(nat \<Rightarrow> 'id \<Rightarrow> (zc_creation_error, zc_mgmt) outcome) \<Rightarrow> 'id mpmc_container \<Rightarrow> 'id publisher
     \<Rightarrow> ('e, 'id publisher \<times> (zc_creation_error + unit)) outcome option" where
  "update_connections connect subscribers s =
     wbind (Some (update_state subscribers (pub_subscribers s))) (\<lambda>(st, changed).
       let s' = s\<lparr>pub_subscribers := st\<rparr>
       in if changed then populate_subscriber_channels connect s' else Some (Ok (s', Inr ())))"

definition send_impl ::
  "(nat \<Rightarrow> 'id \<Rightarrow> (zc_creation_error, zc_mgmt) outcome) \<Rightarrow> 'id mpmc_container \<Rightarrow> 'id publisher \<Rightarrow> usize
     \<Rightarrow> ('e, 'id publisher \<times> (zc_creation_error + usize)) outcome option" where
  "send_impl connect subscribers s address_to_chunk =
     wbind (update_connections connect subscribers s) (\<lambda>(s1, r).
       case r of
         Inl e \<Rightarrow> Some (Ok (s1, Inl e))
       | Inr _ \<Rightarrow> wbind (Some (add_to_history s1 address_to_chunk)) (\<lambda>s2.
           wbind (deliver_sample s2 address_to_chunk) (\<lambda>(s3, n). Some (Ok (s3, Inr n)))))"

text \<open>The sample is moved into \<^verbatim>\<open>send\<close> and dropped at its end.\<close>

definition pub_send ::
  "(nat \<Rightarrow> 'id \<Rightarrow> (zc_creation_error, zc_mgmt) outcome) \<Rightarrow> 'id mpmc_container \<Rightarrow> 'id publisher \<Rightarrow> usize
     \<Rightarrow> ('e, 'id publisher \<times> (zc_creation_error + usize)) outcome option" where
  "pub_send connect subscribers s sample =
     wbind (send_impl connect subscribers s sample) (\<lambda>(s1, r). Some (omap (\<lambda>s2. (s2, r)) (sample_mut_drop s1 sample)))"

definition send_copy ::
  "(nat \<Rightarrow> 'id \<Rightarrow> (zc_creation_error, zc_mgmt) outcome) \<Rightarrow> 'id mpmc_container \<Rightarrow> 'id publisher
     \<Rightarrow> ('e, 'id publisher \<times> (send_copy_error + usize)) outcome option" where
  "send_copy connect subscribers s =
     wbind (loan s) (\<lambda>(s1, r).
       case r of
         Inl e \<Rightarrow> Some (Ok (s1, Inl (SendCopy_LoanError e)))
       | Inr sample \<Rightarrow> wbind (pub_send connect subscribers s1 sample) (\<lambda>(s2, q).
           Some (Ok (s2, map_sum SendCopy_ConnectionError id q))))"

section \<open>Creation\<close>

definition required_amount_of_samples_per_data_segment :: "static_config \<Rightarrow> usize \<Rightarrow> ('e, usize) outcome" where
  "required_amount_of_samples_per_data_segment v publisher_max_loaned_samples =
     obind (uadd (sc_buffer_size v) (sc_max_borrowed v)) (\<lambda>a. obind (umul (sc_max_subscribers v) a) (\<lambda>b.
       obind (uadd b (sc_history_size v)) (\<lambda>c. obind (uadd c publisher_max_loaned_samples) (\<lambda>d. uadd d 1))))"

text \<open>\<open>create\<close> is the creation of shared memory of the given size with the given bucket layout.\<close>

definition create_data_segment ::
  "(usize \<Rightarrow> layout \<Rightarrow> (shm_create_error, shm_segment) outcome) \<Rightarrow> layout \<Rightarrow> usize \<Rightarrow> (shm_create_error, shm_segment) outcome" where
  "create_data_segment create message_layout number_of_samples =
     obind (umul (lsize message_layout) number_of_samples) (\<lambda>a. obind (uadd a (lalign message_layout)) (\<lambda>b.
       obind (usub b 1) (\<lambda>size'. create size' message_layout)))"

text \<open>The publisher registers itself in the container of all publishers before it connects to the subscribers (the comment in the
  code calls this the last task); a failure to connect to a subscriber is only reported. A \<^verbatim>\<open>Vec\<close> collected from a
  range has a capacity equal to its length, so that \<^verbatim>\<open>capacity\<close> and \<^verbatim>\<open>len\<close> of the connections are the same number.\<close>

definition publisher_new ::
  "(usize \<Rightarrow> layout \<Rightarrow> (shm_create_error, shm_segment) outcome) \<Rightarrow> (nat \<Rightarrow> 'id \<Rightarrow> (zc_creation_error, zc_mgmt) outcome)
     \<Rightarrow> layout \<Rightarrow> static_config \<Rightarrow> usize \<Rightarrow> unable_to_deliver_strategy \<Rightarrow> 'id mpmc_container \<Rightarrow> 'p mpmc_container \<Rightarrow> 'p
     \<Rightarrow> (publisher_create_error, 'id publisher \<times> 'p mpmc_container \<times> bool option list unique_index) outcome option" where
  "publisher_new create connect message_layout cfg max_loaned strategy subscribers publishers port_id =
     wbind (Some (required_amount_of_samples_per_data_segment cfg max_loaned)) (\<lambda>number_of_samples.
     wbind (Some (map_err (\<lambda>_. UnableToCreateDataSegment) (create_data_segment create message_layout number_of_samples))) (\<lambda>segment.
     wbind (Some (mc_add publishers port_id)) (\<lambda>(publishers', r).
       case r of
         None \<Rightarrow> Some (Err ExceedsMaxSupportedPublishers)
       | Some guard \<Rightarrow>
           wbind (Some (get_state subscribers)) (\<lambda>st.
             let s = \<lparr>pub_counter = replicate number_of_samples 0, pub_segment = segment,
                      pub_connections = replicate (mc_capacity subscribers) None, pub_subscribers = st,
                      pub_history = (if sc_history_size cfg = 0 then None else Some (cq_new (sc_history_size cfg))),
                      pub_loans = 0, pub_max_loaned = max_loaned, pub_strategy = strategy, pub_degration = None,
                      pub_layout = message_layout\<rparr>
             in wbind (populate_subscriber_channels connect s) (\<lambda>(s', _). Some (Ok (s', publishers', guard)))))))"

text \<open>\<^verbatim>\<open>Connection::new\<close> of the publisher side: the builder with the settings of the service, in shared memory.\<close>

definition connection_builder :: "static_config \<Rightarrow> zc_builder" where
  "connection_builder cfg =
     zb_set_overflow (sc_safe_overflow cfg) (zb_set_max_borrowed (sc_max_borrowed cfg) (zb_set_buffer_size (sc_buffer_size cfg) zb_new))"

definition sender_connection_new ::
  "nat \<Rightarrow> zc_env \<Rightarrow> usize \<Rightarrow> nat \<Rightarrow> static_config \<Rightarrow> zc_mgmt option \<Rightarrow> (zc_creation_error, zc_mgmt) outcome option" where
  "sender_connection_new fuel env size_of_self base cfg shm = zc_create_port fuel env size_of_self base StSender (connection_builder cfg) shm"

end
