(* ===== verification/Subscriber.thy ===== *)
theory Subscriber
  imports Publisher
begin

text \<open>
  \<^verbatim>\<open>elkodon/src/port/subscriber.rs\<close>, \<^verbatim>\<open>port/details/publisher_connections.rs\<close> and \<^verbatim>\<open>sample.rs\<close>: the subscriber. It
  holds a connection and the opened data segment for every publisher, turns received offsets into addresses, and returns a sample by
  the distance of its payload from the start of the segment.
\<close>

section \<open>State\<close>

datatype connection_failure = FailedToEstablishConnection zc_creation_error | UnableToMapPublishersDataSegment shm_open_error
datatype receive_error = ExceedsMaxBorrowedSamples | Receive_ConnectionFailure connection_failure
datatype subscriber_create_error = ExceedsMaxSupportedSubscribers

record sub_conn =
  sn_mgmt :: zc_mgmt
  sn_counter :: usize
  sn_segment :: shm_segment

record 'id subscriber =
  sub_connections :: "sub_conn option list"
  sub_publishers :: "'id container_state"
  sub_degration :: "('id \<Rightarrow> degration_action) option"

text \<open>\<open>sm_ptr\<close> is the address of the \<^verbatim>\<open>Message\<close>.\<close>

record sample =
  sm_channel_id :: usize
  sm_ptr :: usize

section \<open>Receiving and releasing\<close>

definition receive_from_connection ::
  "nat \<Rightarrow> sub_conn \<Rightarrow> ('e, sub_conn \<times> (receive_error + sample option)) outcome" where
  "receive_from_connection channel_id c =
     (case zc_recv (sn_mgmt c) (sn_counter c) of
        Ok (m, n, data) \<Rightarrow>
          let c' = c\<lparr>sn_mgmt := m, sn_counter := n\<rparr>
          in (case data of
                None \<Rightarrow> Ok (c', Inr None)
              | Some relative_addr \<Rightarrow>
                  obind (allocator_data_start_address (sn_segment c)) (\<lambda>start. obind (uadd relative_addr start) (\<lambda>absolute_address.
                    Ok (c', Inr (Some \<lparr>sm_channel_id = channel_id, sm_ptr = absolute_address\<rparr>)))))
      | Err _ \<Rightarrow> Ok (c, Inl ExceedsMaxBorrowedSamples) | Panic \<Rightarrow> Panic | UB \<Rightarrow> UB)"

text \<open>The loop over all connections stops at the first sample and at the first error.\<close>

primrec receive_loop :: "nat list \<Rightarrow> 'id subscriber \<Rightarrow> ('e, 'id subscriber \<times> (receive_error + sample option)) outcome" where
  "receive_loop [] s = Ok (s, Inr None)"
| "receive_loop (i # ids) s =
     (case sub_connections s ! i of
        None \<Rightarrow> receive_loop ids s
      | Some c \<Rightarrow> obind (receive_from_connection i c) (\<lambda>(c', r).
          let s' = s\<lparr>sub_connections := (sub_connections s)[i := Some c']\<rparr>
          in case r of
               Inl e \<Rightarrow> Ok (s', Inl e)
             | Inr (Some smp) \<Rightarrow> Ok (s', Inr (Some smp))
             | Inr None \<Rightarrow> receive_loop ids s'))"

definition sub_release_sample :: "'id subscriber \<Rightarrow> usize \<Rightarrow> usize \<Rightarrow> ('e, 'id subscriber) outcome" where
  "sub_release_sample s channel_id message =
     (if length (sub_connections s) \<le> channel_id then Panic
      else case sub_connections s ! channel_id of
        None \<Rightarrow> Ok s
      | Some c \<Rightarrow>
          obind (allocator_data_start_address (sn_segment c)) (\<lambda>start. obind (usub message start) (\<lambda>distance.
            let done = (\<lambda>(m, n). s\<lparr>sub_connections := (sub_connections s)[channel_id := Some (c\<lparr>sn_mgmt := m, sn_counter := n\<rparr>)]\<rparr>)
            in case zc_release (sn_mgmt c) (sn_counter c) distance of
                 Ok mn \<Rightarrow> Ok (done mn)
               | Err _ \<Rightarrow> omap done (panic_on_err (zc_release (sn_mgmt c) (sn_counter c) distance))
               | Panic \<Rightarrow> Panic | UB \<Rightarrow> UB)))"

text \<open>\<open>data_offset\<close> is the offset of the payload inside of the \<^verbatim>\<open>Message\<close>, of which \<^verbatim>\<open>as_ptr\<close> is the address.\<close>

definition sample_as_ptr :: "usize \<Rightarrow> sample \<Rightarrow> ('e, usize) outcome" where
  "sample_as_ptr data_offset smp = uadd (sm_ptr smp) data_offset"

definition sample_drop :: "usize \<Rightarrow> 'id subscriber \<Rightarrow> sample \<Rightarrow> ('e, 'id subscriber) outcome" where
  "sample_drop data_offset s smp = obind (sample_as_ptr data_offset smp) (\<lambda>p. sub_release_sample s (sm_channel_id smp) p)"

section \<open>Connections\<close>

definition sub_set_degration_callback :: "('id \<Rightarrow> degration_action) option \<Rightarrow> 'id subscriber \<Rightarrow> 'id subscriber" where
  "sub_set_degration_callback callback s = s\<lparr>sub_degration := callback\<rparr>"

text \<open>\<open>connect i id\<close> is what \<^verbatim>\<open>Connection::new\<close> answers: the receiver of the connection and the opened data segment.\<close>

definition pub_connection_create ::
  "(nat \<Rightarrow> 'id \<Rightarrow> (connection_failure, sub_conn) outcome) \<Rightarrow> 'id subscriber \<Rightarrow> nat \<Rightarrow> 'id \<Rightarrow> (connection_failure, 'id subscriber) outcome" where
  "pub_connection_create connect s index publisher_id =
     (if sub_connections s ! index = None
      then omap (\<lambda>c. s\<lparr>sub_connections := (sub_connections s)[index := Some c]\<rparr>) (connect index publisher_id)
      else Ok s)"

definition pub_connection_remove :: "'id subscriber \<Rightarrow> nat \<Rightarrow> 'id subscriber" where
  "pub_connection_remove s index = s\<lparr>sub_connections := (sub_connections s)[index := None]\<rparr>"

definition number_of_publishers :: "'id subscriber \<Rightarrow> usize" where
  "number_of_publishers s =
     length (filter (\<lambda>c. case c of None \<Rightarrow> False | Some m \<Rightarrow> zc_is_connected (sn_mgmt m)) (sub_connections s))"

definition populate_publisher_entry ::
  "(nat \<Rightarrow> 'id \<Rightarrow> (connection_failure, sub_conn) outcome) \<Rightarrow> 'id subscriber \<Rightarrow> nat \<Rightarrow> 'id option
     \<Rightarrow> ('e, 'id subscriber \<times> (connection_failure + unit)) outcome" where
  "populate_publisher_entry connect s i index =
     (case index of
        None \<Rightarrow> Ok (pub_connection_remove s i, Inr ())
      | Some publisher_id \<Rightarrow>
          (case pub_connection_create connect s i publisher_id of
             Ok s' \<Rightarrow> Ok (s', Inr ())
           | Err e \<Rightarrow>
               (case sub_degration s of
                  Some c \<Rightarrow> (case c publisher_id of Fail \<Rightarrow> Ok (s, Inl e) | _ \<Rightarrow> Ok (s, Inr ()))
                | None \<Rightarrow> Ok (s, Inr ()))
           | Panic \<Rightarrow> Panic | UB \<Rightarrow> UB))"

definition populate_publisher_channels ::
  "(nat \<Rightarrow> 'id \<Rightarrow> (connection_failure, sub_conn) outcome) \<Rightarrow> 'id subscriber \<Rightarrow> ('e, 'id subscriber \<times> (connection_failure + unit)) outcome" where
  "populate_publisher_channels connect s =
     obind (obind (cs_for_each (sub_publishers s)) (visited_indices (length (sub_connections s)))) (\<lambda>visited.
       fold (\<lambda>i r. obind r (\<lambda>(s', e). if isl e then Ok (s', e) else populate_publisher_entry connect s' i (visited ! i)))
         [0 ..< length visited] (Ok (s, Inr ())))"

definition sub_update_connections ::
  "(nat \<Rightarrow> 'id \<Rightarrow> (connection_failure, sub_conn) outcome) \<Rightarrow> 'id mpmc_container \<Rightarrow> 'id subscriber
     \<Rightarrow> ('e, 'id subscriber \<times> (connection_failure + unit)) outcome" where
  "sub_update_connections connect publishers s =
     obind (update_state publishers (sub_publishers s)) (\<lambda>(st, changed).
       let s' = s\<lparr>sub_publishers := st\<rparr>
       in if changed then populate_publisher_channels connect s' else Ok (s', Inr ()))"

definition sub_receive ::
  "(nat \<Rightarrow> 'id \<Rightarrow> (connection_failure, sub_conn) outcome) \<Rightarrow> 'id mpmc_container \<Rightarrow> 'id subscriber
     \<Rightarrow> ('e, 'id subscriber \<times> (receive_error + sample option)) outcome" where
  "sub_receive connect publishers s =
     obind (sub_update_connections connect publishers s) (\<lambda>(s1, r).
       case r of
         Inl e \<Rightarrow> Ok (s1, Inl (Receive_ConnectionFailure e))
       | Inr _ \<Rightarrow> receive_loop [0 ..< length (sub_connections s1)] s1)"

text \<open>\<^verbatim>\<open>Connection::new\<close> of the subscriber side, in shared memory. When the data segment cannot be opened, the receiver is
  dropped again: the result then is the error and the connection after \<open>cleanup_shared_memory\<close>.\<close>

definition receiver_connection_new ::
  "nat \<Rightarrow> zc_env \<Rightarrow> usize \<Rightarrow> nat \<Rightarrow> static_config \<Rightarrow> zc_mgmt option \<Rightarrow> (shm_open_error, shm_segment) outcome
     \<Rightarrow> (connection_failure, (connection_failure \<times> zc_mgmt \<times> bool) + sub_conn) outcome option" where
  "receiver_connection_new fuel env size_of_self base cfg shm open =
     map_option (\<lambda>r. obind (map_err FailedToEstablishConnection r) (\<lambda>m.
        case open of
          Ok seg \<Rightarrow> Ok (Inr \<lparr>sn_mgmt = m, sn_counter = 0, sn_segment = seg\<rparr>)
        | Err e \<Rightarrow> Ok (Inl (UnableToMapPublishersDataSegment e, cleanup_shared_memory StReceiver m))
        | Panic \<Rightarrow> Panic | UB \<Rightarrow> UB))
       (zc_create_port fuel env size_of_self base StReceiver (connection_builder cfg) shm)"

text \<open>The subscriber registers itself as its last step.\<close>

definition subscriber_new ::
  "(nat \<Rightarrow> 'id \<Rightarrow> (connection_failure, sub_conn) outcome) \<Rightarrow> 'id mpmc_container \<Rightarrow> 's mpmc_container \<Rightarrow> 's
     \<Rightarrow> (subscriber_create_error, 'id subscriber \<times> 's mpmc_container \<times> bool option list unique_index) outcome" where
  "subscriber_new connect publishers subscribers port_id =
     obind (get_state publishers) (\<lambda>st.
       let s = \<lparr>sub_connections = replicate (mc_capacity publishers) None, sub_publishers = st, sub_degration = None\<rparr>
       in obind (populate_publisher_channels connect s) (\<lambda>(s', _). obind (mc_add subscribers port_id) (\<lambda>(subscribers', r).
            case r of Some guard \<Rightarrow> Ok (s', subscribers', guard) | None \<Rightarrow> Err ExceedsMaxSupportedSubscribers)))"

end
