(* ===== verification/SampleReferences.thy ===== *)
theory SampleReferences
  imports Subscriber "HOL-Library.Multiset"
begin

text \<open>
  Publisher and subscribers together: the reference counters of the publisher count exactly the places in which a sample
  is: loaned, in the history, waiting for a subscriber, held by a subscriber, or on its way back. A chunk is free in the pool exactly
  when its counter is zero.
\<close>

section \<open>Chunks and offsets\<close>

abbreviation pub_size :: "'id publisher \<Rightarrow> nat" where
  "pub_size s \<equiv> lsize (pub_layout s)"

definition pub_gap :: "'id publisher \<Rightarrow> nat" where
  "pub_gap s = p_start (seg_pool (pub_segment s)) - sp_base_address (seg_allocator (pub_segment s))"

definition idx :: "'id publisher \<Rightarrow> nat \<Rightarrow> nat" where
  "idx s off = off div pub_size s"

text \<open>\<open>exact\<close>: the offset of a chunk; \<open>inside\<close>: an offset that points into a chunk.\<close>

definition exact :: "'id publisher \<Rightarrow> nat \<Rightarrow> bool" where
  "exact s off \<longleftrightarrow> idx s off < length (pub_counter s) \<and> off mod pub_size s = pub_gap s"

definition inside :: "'id publisher \<Rightarrow> nat \<Rightarrow> bool" where
  "inside s off \<longleftrightarrow> idx s off < length (pub_counter s) \<and> pub_gap s \<le> off mod pub_size s"

lemma exact_inside: "exact s off \<Longrightarrow> inside s off"
  by (simp add: exact_def inside_def)

section \<open>Reference counters and the pool\<close>

text \<open>After all chunks in use are given back, \<open>k\<close> changes of the pool are left before its counter overflows.\<close>

definition slack :: "nat \<Rightarrow> 'id publisher \<Rightarrow> bool" where
  "slack k s \<longleftrightarrow> length (pub_counter s) - length (seg_free (pub_segment s)) + k \<le> seg_budget (pub_segment s)"

text \<open>\<open>R\<close> is the multiset of the chunks that are referenced.\<close>

definition counted :: "'id publisher \<Rightarrow> nat multiset \<Rightarrow> bool" where
  "counted s R \<longleftrightarrow> seg_wf (pub_layout s) (pub_segment s) \<and> length (pub_counter s) = seg_capacity (pub_segment s)
     \<and> (\<forall>i < length (pub_counter s). unat (pub_counter s ! i) = count R i)
     \<and> (\<forall>i < length (pub_counter s). word_of_nat i \<in> set (seg_free (pub_segment s)) \<longleftrightarrow> count R i = 0)
     \<and> slack 0 s"

lemma countedD:
  assumes "counted s R"
  shows "seg_wf (pub_layout s) (pub_segment s)" and "length (pub_counter s) = seg_capacity (pub_segment s)"
    and "i < length (pub_counter s) \<Longrightarrow> unat (pub_counter s ! i) = count R i"
    and "i < length (pub_counter s) \<Longrightarrow> word_of_nat i \<in> set (seg_free (pub_segment s)) \<longleftrightarrow> count R i = 0"
    and "slack 0 s"
  using assms by (auto simp: counted_def)

lemma seg_free_distinct:
  assumes "seg_wf l seg"
  shows "distinct (seg_free seg)" and "set (seg_free seg) \<subseteq> {i. i < u_capacity (p_buckets (seg_pool seg))}"
  using assms uis_wfD(3) [of "p_buckets (seg_pool seg)"] uis.free_universe [of "p_buckets (seg_pool seg)"]
  by (auto simp: seg_wf_def pool_wf_def)

lemma seg_index:
  assumes "i < seg_capacity seg"
  shows "unat (word_of_nat i :: u32) = i" and "(word_of_nat i :: u32) < u_capacity (p_buckets (seg_pool seg))"
proof -
  have "i < 2 ^ 32" using assms unsigned_less [of "u_capacity (p_buckets (seg_pool seg))", where ?'a = nat] by simp
  then show u: "unat (word_of_nat i :: u32) = i" by (rule unat_word_of_nat_u32)
  then show "(word_of_nat i :: u32) < u_capacity (p_buckets (seg_pool seg))" using assms by (simp add: word_less_nat_alt)
qed

lemma card_below_u32: "card {i :: u32. i < c} = unat c"
proof -
  have "{i :: u32. i < c} = word_of_nat ` {..< unat c}"
  proof (intro set_eqI iffI)
    fix i :: u32 assume "i \<in> {i. i < c}"
    then show "i \<in> word_of_nat ` {..< unat c}" by (intro image_eqI [of _ _ "unat i"]) (auto simp: word_less_nat_alt)
  next
    fix i :: u32 assume "i \<in> word_of_nat ` {..< unat c}"
    then obtain k where k: "i = word_of_nat k" "k < unat c" by auto
    then have "k < 2 ^ 32" using unsigned_less [of c, where ?'a = nat] by simp
    then show "i \<in> {i. i < c}" using k by (simp add: word_less_nat_alt unat_word_of_nat_u32)
  qed
  moreover have "inj_on (word_of_nat :: nat \<Rightarrow> u32) {..< unat c}"
  proof (rule inj_onI)
    fix x y assume "x \<in> {..< unat c}" "y \<in> {..< unat c}" "(word_of_nat x :: u32) = word_of_nat y"
    moreover have "unat c < 2 ^ 32" using unsigned_less [of c, where ?'a = nat] by simp
    ultimately show "x = y" by (metis lessThan_iff less_trans unat_word_of_nat_u32)
  qed
  ultimately show ?thesis by (simp add: card_image)
qed

lemma seg_free_length:
  assumes "seg_wf l seg"
  shows "length (seg_free seg) \<le> seg_capacity seg"
    and "i < u_capacity (p_buckets (seg_pool seg)) \<Longrightarrow> i \<notin> set (seg_free seg) \<Longrightarrow> length (seg_free seg) < seg_capacity seg"
proof -
  note D = seg_free_distinct [OF assms]
  have fin: "finite {i. i < u_capacity (p_buckets (seg_pool seg))}" by simp
  have c: "card (set (seg_free seg)) = length (seg_free seg)" using D(1) by (rule distinct_card)
  show "length (seg_free seg) \<le> seg_capacity seg" using card_mono [OF fin D(2)] c by (simp add: card_below_u32)
  assume i: "i < u_capacity (p_buckets (seg_pool seg))" "i \<notin> set (seg_free seg)"
  then have "set (seg_free seg) \<subset> {i. i < u_capacity (p_buckets (seg_pool seg))}" using D(2) by blast
  then show "length (seg_free seg) < seg_capacity seg" using psubset_card_mono [OF fin, of "set (seg_free seg)"] c by (simp add: card_below_u32)
qed

lemma u64_Suc: "unat c + 1 < 2 ^ 64 \<Longrightarrow> unat (c + 1 :: u64) = unat c + 1"
  by (simp add: unat_word_ariths)

lemma u64_pred: "0 < unat c \<Longrightarrow> unat (c - 1 :: u64) = unat c - 1"
  by (metis One_nat_def Suc_leI add_diff_cancel_left' less_irrefl unat_eq_zero unat_minus_one)

lemma u64_one: "c = 1 \<longleftrightarrow> unat (c :: u64) = 1"
  by (metis unat_1 unsigned_word_eqI)

lemma counted_add:
  assumes "counted s R" and "i < length (pub_counter s)" and "i \<in># R" and "count R i + 1 < 2 ^ 64"
  shows "counter_fetch_add s i = (Ok (s\<lparr>pub_counter := (pub_counter s)[i := pub_counter s ! i + 1]\<rparr>, pub_counter s ! i) :: ('e, _) outcome)"
    and "counted (s\<lparr>pub_counter := (pub_counter s)[i := pub_counter s ! i + 1]\<rparr>) (add_mset i R)"
  using assms u64_Suc [of "pub_counter s ! i"] by (auto simp: counter_fetch_add_def counted_def slack_def nth_list_update)

lemma inside_offset:
  assumes "counted s R" and "inside s off"
  shows "off = seg_offset (pub_segment s) (idx s off) + (off mod pub_size s - pub_gap s)" and "off mod pub_size s - pub_gap s < pub_size s"
    and "0 < pub_size s"
proof -
  have b: "p_bucket_size (seg_pool (pub_segment s)) = pub_size s" "0 < pub_size s"
    using countedD(1) [OF assms(1)] by (auto simp: seg_wf_def pool_wf_def)
  have "off = off div pub_size s * pub_size s + off mod pub_size s" by simp
  then show "off = seg_offset (pub_segment s) (idx s off) + (off mod pub_size s - pub_gap s)"
    using assms(2) b(1) by (simp add: seg_offset_def pub_gap_def [symmetric] idx_def inside_def)
  show "off mod pub_size s - pub_gap s < pub_size s" using b(2) by (simp add: less_imp_diff_less)
  show "0 < pub_size s" by (rule b(2))
qed

text \<open>A release gives the chunk back exactly when it was the last reference.\<close>

lemma counted_release:
  assumes "counted s R" and "inside s off" and "idx s off \<in># R"
  shows "\<exists>c seg. release_sample s off = (Ok (s\<lparr>pub_counter := c, pub_segment := seg\<rparr>) :: ('e, _) outcome)
    \<and> counted (s\<lparr>pub_counter := c, pub_segment := seg\<rparr>) (R - {#idx s off#}) \<and> length c = length (pub_counter s)
    \<and> pub_gap (s\<lparr>pub_counter := c, pub_segment := seg\<rparr>) = pub_gap s
    \<and> (\<forall>k. slack k s \<longrightarrow> slack k (s\<lparr>pub_counter := c, pub_segment := seg\<rparr>))"
proof -
  let ?i = "idx s off" and ?seg = "pub_segment s"
  let ?c = "(pub_counter s)[?i := pub_counter s ! ?i - 1]"
  note D = countedD [OF assms(1)] and O = inside_offset [OF assms(1,2)]
  have i: "?i < length (pub_counter s)" using assms(2) by (simp add: inside_def)
  have pos: "0 < count R ?i" using assms(3) by simp
  have cnt: "unat (?c ! j) = count (R - {#?i#}) j" if "j < length (pub_counter s)" for j
    using that i D(3) [OF that] D(3) [OF i] pos u64_pred [of "pub_counter s ! ?i"] by (auto simp: nth_list_update)
  have step: "release_sample s off = (if pub_counter s ! ?i = 1
      then omap (\<lambda>seg. s\<lparr>pub_counter := ?c, pub_segment := seg\<rparr>) (panic_on_err (shm_deallocate ?seg off))
      else Ok (s\<lparr>pub_counter := ?c\<rparr>) :: ('e, _) outcome)"
    using i O(3) by (simp add: release_sample_def sample_index_def counter_fetch_sub_def idx_def)
  show ?thesis
  proof (cases "count R ?i = 1")
    case True
    have w: "(word_of_nat ?i :: u32) < u_capacity (p_buckets (seg_pool ?seg))" "unat (word_of_nat ?i :: u32) = ?i"
      using seg_index i D(2) by auto
    have nf: "word_of_nat ?i \<notin> set (seg_free ?seg)" using D(4) [OF i] True by simp
    have bud: "0 < seg_budget ?seg" "length (seg_free ?seg) < length (pub_counter s)"
      using D(2,5) seg_free_length(2) [OF D(1) w(1) nf] by (auto simp: slack_def)
    obtain u where u: "shm_deallocate ?seg off = Ok (seg_with ?seg u)" "uis_wf u" "uis_free u = word_of_nat ?i # seg_free ?seg"
      "u_capacity u = u_capacity (p_buckets (seg_pool ?seg))" "uis_budget u = seg_budget ?seg - 1"
      using seg_deallocate_ok [OF D(1) w(1) nf bud(1) O(2)] O(1) w(2) by auto
    let ?s = "s\<lparr>pub_counter := ?c, pub_segment := seg_with ?seg u\<rparr>"
    have "word_of_nat j = (word_of_nat ?i :: u32) \<longleftrightarrow> j = ?i" if "j < length (pub_counter s)" for j
      using seg_index(1) that i D(2) by metis
    then have fr: "word_of_nat j \<in> set (uis_free u) \<longleftrightarrow> count (R - {#?i#}) j = 0" if "j < length (pub_counter s)" for j
      using D(4) [OF that] True u(3) that by auto
    have sl: "slack k ?s" if "slack k s" for k using that u(3,5) bud by (simp add: slack_def)
    have "counted ?s (R - {#?i#})"
      using D(2) cnt fr u(4) sl [OF D(5)] seg_wf_with [OF D(1) u(2,4)] by (simp add: counted_def)
    moreover have "release_sample s off = (Ok ?s :: ('e, _) outcome)"
      using step D(3) [OF i] True u64_one [of "pub_counter s ! ?i"] u(1) by (simp add: panic_on_err_def)
    ultimately show ?thesis using sl by (intro exI [of _ ?c] exI [of _ "seg_with ?seg u"]) (simp add: pub_gap_def)
  next
    case False
    let ?s = "s\<lparr>pub_counter := ?c\<rparr>"
    have "word_of_nat j \<in> set (seg_free ?seg) \<longleftrightarrow> count (R - {#?i#}) j = 0" if "j < length (pub_counter s)" for j
      using D(4) [OF that] False pos by auto
    then have "counted ?s (R - {#?i#})" using D(1,2,5) cnt by (simp add: counted_def slack_def)
    moreover have "release_sample s off = (Ok ?s :: ('e, _) outcome)" using step D(3) [OF i] False u64_one [of "pub_counter s ! ?i"] by simp
    moreover have "s\<lparr>pub_counter := ?c, pub_segment := ?seg\<rparr> = ?s" by simp
    ultimately show ?thesis by (intro exI [of _ ?c] exI [of _ ?seg]) (simp add: pub_gap_def slack_def)
  qed
qed


section \<open>References\<close>

text \<open>\<open>b i\<close> are the offsets that the receiver of connection \<open>i\<close> holds; \<open>E\<close> are all further references (loans and lost samples).\<close>

definition hist_list :: "'id publisher \<Rightarrow> nat list" where
  "hist_list s = (case pub_history s of None \<Rightarrow> [] | Some h \<Rightarrow> cq_list h)"

definition conn_offs :: "zc_mgmt \<Rightarrow> nat list \<Rightarrow> nat multiset" where
  "conn_offs m bs = mset (oq_list (zc_receive m)) + mset bs + mset (q_list (zc_retrieve m))"

definition slot_offs :: "zc_mgmt option list \<Rightarrow> (nat \<Rightarrow> nat list) \<Rightarrow> nat \<Rightarrow> nat multiset" where
  "slot_offs conns b i = (case conns ! i of None \<Rightarrow> {#} | Some m \<Rightarrow> conn_offs m (b i))"

definition conns_offs :: "zc_mgmt option list \<Rightarrow> (nat \<Rightarrow> nat list) \<Rightarrow> nat multiset" where
  "conns_offs conns b = (\<Sum>i < length conns. slot_offs conns b i)"

definition refs :: "nat multiset \<Rightarrow> (nat \<Rightarrow> nat list) \<Rightarrow> 'id publisher \<Rightarrow> nat multiset" where
  "refs E b s = image_mset (idx s) (E + mset (hist_list s) + conns_offs (pub_connections s) b)"

definition conn_ok :: "'id publisher \<Rightarrow> zc_mgmt \<Rightarrow> nat list \<Rightarrow> bool" where
  "conn_ok s m bs \<longleftrightarrow> zc_wf m (length bs) \<and> (\<forall>off \<in> set (oq_list (zc_receive m)) \<union> set bs. exact s off)
     \<and> (\<forall>off \<in> set (q_list (zc_retrieve m)). inside s off)"

definition conns_ok :: "'id publisher \<Rightarrow> (nat \<Rightarrow> nat list) \<Rightarrow> bool" where
  "conns_ok s b \<longleftrightarrow> (\<forall>i < length (pub_connections s). \<forall>m. pub_connections s ! i = Some m \<longrightarrow> conn_ok s m (b i))"

definition hist_ok :: "'id publisher \<Rightarrow> bool" where
  "hist_ok s \<longleftrightarrow> (\<forall>h. pub_history s = Some h \<longrightarrow> cq_wf h \<and> 0 < cq_capacity h) \<and> (\<forall>off \<in> set (hist_list s). exact s off)"

definition pinv :: "nat multiset \<Rightarrow> (nat \<Rightarrow> nat list) \<Rightarrow> 'id publisher \<Rightarrow> bool" where
  "pinv E b s \<longleftrightarrow> counted s (refs E b s) \<and> (\<forall>off \<in># E. inside s off) \<and> hist_ok s \<and> conns_ok s b"

text \<open>At least \<open>k\<close> further calls fit before a position of a queue overflows.\<close>

definition tick :: "nat \<Rightarrow> 'id publisher \<Rightarrow> bool" where
  "tick k s \<longleftrightarrow> (\<forall>i < length (pub_connections s). \<forall>m. pub_connections s ! i = Some m \<longrightarrow> k \<le> zc_ticks m)
     \<and> (\<forall>h. pub_history s = Some h \<longrightarrow> k \<le> cq_ticks h) \<and> slack (2 * k) s"

text \<open>What the operations on existing connections do not change.\<close>

definition conn_static :: "zc_mgmt \<Rightarrow> usize \<times> usize \<times> usize \<times> bool" where
  "conn_static m = (o_capacity (zc_receive m), q_capacity (zc_retrieve m), zc_max_borrowed m, zc_overflow m)"

definition same :: "'id publisher \<Rightarrow> 'id publisher \<Rightarrow> bool" where
  "same s s' \<longleftrightarrow> length (pub_counter s') = length (pub_counter s) \<and> pub_gap s' = pub_gap s \<and> pub_layout s' = pub_layout s
     \<and> map (map_option conn_static) (pub_connections s') = map (map_option conn_static) (pub_connections s) \<and> pub_max_loaned s' = pub_max_loaned s \<and> pub_strategy s' = pub_strategy s
     \<and> pub_degration s' = pub_degration s \<and> map_option cq_capacity (pub_history s') = map_option cq_capacity (pub_history s)"

lemma same_refl [simp]: "same s s" by (simp add: same_def)

lemma same_trans: "same s t \<Longrightarrow> same t u \<Longrightarrow> same s u" by (simp add: same_def)

lemma same_offsets:
  assumes "same s s'"
  shows "idx s' = idx s" and "exact s' = exact s" and "inside s' = inside s" and "conn_ok s' = conn_ok s"
proof -
  show 1: "idx s' = idx s" using assms by (simp add: same_def idx_def fun_eq_iff)
  show 2: "exact s' = exact s" "inside s' = inside s" using assms 1 by (simp_all add: same_def exact_def inside_def fun_eq_iff)
  show "conn_ok s' = conn_ok s" using 2 by (simp add: conn_ok_def fun_eq_iff)
qed

lemma same_conns: "same s s' \<Longrightarrow> length (pub_connections s') = length (pub_connections s)"
  by (auto simp: same_def dest: map_eq_imp_length_eq)

lemma conns_offs_update:
  assumes "i < length conns"
  shows "conns_offs (conns[i := Some m]) (b(i := bs)) + slot_offs conns b i = conns_offs conns b + conn_offs m bs"
proof -
  let ?f = "slot_offs conns b" and ?g = "slot_offs (conns[i := Some m]) (b(i := bs))"
  have gi: "?g i = conn_offs m bs" using assms by (simp add: slot_offs_def)
  have "(\<Sum>j \<in> {..<length conns} - {i}. ?g j) = (\<Sum>j \<in> {..<length conns} - {i}. ?f j)"
    by (rule sum.cong) (auto simp: slot_offs_def split: option.split)
  moreover have "(\<Sum>j < length conns. ?g j) = ?g i + (\<Sum>j \<in> {..<length conns} - {i}. ?g j)"
    "(\<Sum>j < length conns. ?f j) = ?f i + (\<Sum>j \<in> {..<length conns} - {i}. ?f j)"
    using assms by (simp_all add: sum.remove [of _ i])
  ultimately show ?thesis using gi by (simp add: conns_offs_def ac_simps)
qed

lemma pinvD:
  assumes "pinv E b s"
  shows "counted s (refs E b s)" and "off \<in># E \<Longrightarrow> inside s off" and "hist_ok s" and "conns_ok s b"
  using assms by (auto simp: pinv_def)

text \<open>The three elementary changes: a reference is added, released, or moved.\<close>

lemma pinv_add:
  assumes "pinv E b s" and "off \<in># E" and "size (refs E b s) + 1 < 2 ^ 64"
  shows "\<exists>c. counter_fetch_add s (idx s off) = (Ok (s\<lparr>pub_counter := c\<rparr>, pub_counter s ! idx s off) :: ('e, _) outcome)
    \<and> pinv (add_mset off E) b (s\<lparr>pub_counter := c\<rparr>) \<and> length c = length (pub_counter s)"
proof -
  let ?i = "idx s off" and ?R = "refs E b s"
  let ?c = "(pub_counter s)[?i := pub_counter s ! ?i + 1]"
  have i: "?i < length (pub_counter s)" using pinvD(2) [OF assms(1,2)] by (simp add: inside_def)
  have mem: "?i \<in># ?R" using assms(2) by (auto simp: refs_def)
  have "count ?R ?i + 1 < 2 ^ 64" using assms(3) count_le_size [of ?R ?i] by linarith
  note A = counted_add [OF pinvD(1) [OF assms(1)] i mem this]
  have sm: "same s (s\<lparr>pub_counter := ?c\<rparr>)" by (simp add: same_def pub_gap_def)
  have "refs (add_mset off E) b (s\<lparr>pub_counter := ?c\<rparr>) = add_mset ?i ?R" by (simp add: refs_def same_offsets [OF sm] hist_list_def)
  then have "pinv (add_mset off E) b (s\<lparr>pub_counter := ?c\<rparr>)"
    using A(2) assms(1,2) by (simp add: pinv_def hist_ok_def conns_ok_def same_offsets [OF sm] hist_list_def)
  then show ?thesis using A(1) by (intro exI [of _ ?c]) simp
qed

lemma pinv_release:
  assumes "pinv (add_mset off E) b s"
  shows "\<exists>c seg. release_sample s off = (Ok (s\<lparr>pub_counter := c, pub_segment := seg\<rparr>) :: ('e, _) outcome)
    \<and> pinv E b (s\<lparr>pub_counter := c, pub_segment := seg\<rparr>) \<and> same s (s\<lparr>pub_counter := c, pub_segment := seg\<rparr>)
    \<and> (\<forall>k. tick k s \<longrightarrow> tick k (s\<lparr>pub_counter := c, pub_segment := seg\<rparr>))"
proof -
  have ins: "inside s off" using pinvD(2) [OF assms] by simp
  have mem: "idx s off \<in># refs (add_mset off E) b s" by (simp add: refs_def)
  obtain c seg where r: "release_sample s off = (Ok (s\<lparr>pub_counter := c, pub_segment := seg\<rparr>) :: ('e, _) outcome)"
    "counted (s\<lparr>pub_counter := c, pub_segment := seg\<rparr>) (refs (add_mset off E) b s - {#idx s off#})" "length c = length (pub_counter s)"
    "pub_gap (s\<lparr>pub_counter := c, pub_segment := seg\<rparr>) = pub_gap s"
    "\<forall>k. slack k s \<longrightarrow> slack k (s\<lparr>pub_counter := c, pub_segment := seg\<rparr>)"
    using counted_release [OF pinvD(1) [OF assms] ins mem, where ?'e = 'e] by blast
  let ?s = "s\<lparr>pub_counter := c, pub_segment := seg\<rparr>"
  have sm: "same s ?s" using r(3,4) by (simp add: same_def)
  have "refs (add_mset off E) b s - {#idx s off#} = refs E b ?s" by (simp add: refs_def same_offsets [OF sm] hist_list_def)
  then have "pinv E b ?s"
    using r(2) assms by (simp add: pinv_def hist_ok_def conns_ok_def same_offsets [OF sm] hist_list_def)
  moreover have "tick k ?s" if "tick k s" for k using r(5) that by (simp add: tick_def)
  ultimately show ?thesis using r(1) sm by blast
qed

lemma pinv_move_idx:
  assumes "pinv E b s" and "i < length (pub_connections s)"
    and "image_mset (idx s) (slot_offs (pub_connections s) b i + E) = image_mset (idx s) (conn_offs m bs + E')"
    and "conn_ok s m bs" and "\<forall>off \<in># E'. inside s off"
  shows "pinv E' (b(i := bs)) (s\<lparr>pub_connections := (pub_connections s)[i := Some m]\<rparr>)"
proof -
  let ?s = "s\<lparr>pub_connections := (pub_connections s)[i := Some m]\<rparr>"
  have sm: "idx ?s = idx s" "exact ?s = exact s" "inside ?s = inside s" "conn_ok ?s = conn_ok s"
    by (simp_all add: idx_def exact_def inside_def conn_ok_def pub_gap_def fun_eq_iff)
  let ?I = "image_mset (idx s)"
  let ?A = "?I (conns_offs (pub_connections s) b)" and ?B = "?I (conns_offs ((pub_connections s)[i := Some m]) (b(i := bs)))"
    and ?S = "?I (slot_offs (pub_connections s) b i)" and ?C = "?I (conn_offs m bs)"
  have "?B + ?S = ?A + ?C" using arg_cong [OF conns_offs_update [OF assms(2)], of ?I] by simp
  then have "?B + ?S + ?I E + ?I E' = ?A + (?C + ?I E') + ?I E" by (simp add: ac_simps)
  moreover have "?C + ?I E' = ?S + ?I E" using assms(3) by simp
  ultimately have "?B + ?I E' + (?S + ?I E) = ?A + ?I E + (?S + ?I E)" by (simp add: ac_simps)
  then have e: "?B + ?I E' = ?A + ?I E" by simp
  have "refs E' (b(i := bs)) ?s = refs E b s" using e by (simp add: refs_def sm hist_list_def ac_simps)
  moreover have "counted ?s R = counted s R" for R by (simp add: counted_def slack_def)
  ultimately show ?thesis
    using assms(1,4,5) by (auto simp: pinv_def hist_ok_def conns_ok_def sm hist_list_def nth_list_update)
qed

lemma pinv_move:
  assumes "pinv E b s" and "i < length (pub_connections s)" and "slot_offs (pub_connections s) b i + E = conn_offs m bs + E'"
    and "conn_ok s m bs" and "\<forall>off \<in># E'. inside s off"
  shows "pinv E' (b(i := bs)) (s\<lparr>pub_connections := (pub_connections s)[i := Some m]\<rparr>)"
  using pinv_move_idx [OF assms(1,2) _ assms(4,5)] assms(3) by simp

lemma pinv_history:
  assumes "pinv E b s" and "mset (hist_list s) + E = mset (cq_list h) + E'" and "cq_wf h" and "0 < cq_capacity h"
    and "\<forall>off \<in> set (cq_list h). exact s off" and "\<forall>off \<in># E'. inside s off"
  shows "pinv E' b (s\<lparr>pub_history := Some h\<rparr>)"
proof -
  let ?s = "s\<lparr>pub_history := Some h\<rparr>"
  have sm: "idx ?s = idx s" "exact ?s = exact s" "inside ?s = inside s" "conn_ok ?s = conn_ok s"
    by (simp_all add: idx_def exact_def inside_def conn_ok_def pub_gap_def fun_eq_iff)
  have e: "E' + mset (cq_list h) = E + mset (hist_list s)" using assms(2) by (simp add: ac_simps)
  have "refs E' b ?s = refs E b s" using arg_cong [OF e, of "image_mset (idx s)"] by (simp add: refs_def sm hist_list_def)
  moreover have "counted ?s R = counted s R" for R by (simp add: counted_def slack_def)
  ultimately show ?thesis using assms(1,3-6) by (simp add: pinv_def hist_ok_def conns_ok_def sm hist_list_def)
qed


lemma same_move:
  assumes "i < length (pub_connections s)" and "pub_connections s ! i = Some m" and "conn_static m' = conn_static m"
  shows "same s (s\<lparr>pub_connections := (pub_connections s)[i := Some m']\<rparr>)"
  using assms by (auto simp: same_def pub_gap_def map_update list_update_same_conv)

lemma tick_move:
  assumes "tick k s" and "i < length (pub_connections s)" and "k \<le> zc_ticks m'"
  shows "tick k (s\<lparr>pub_connections := (pub_connections s)[i := Some m']\<rparr>)"
  using assms by (auto simp: tick_def slack_def nth_list_update)

section \<open>Reclaiming\<close>

lemma reclaim_Cons:
  assumes "zc_wf m n" and "0 < zc_ticks m" and "q_list (zc_retrieve m) = x # xs"
  shows "\<exists>q. reclaim m = (Ok (m\<lparr>zc_retrieve := q\<rparr>, Some x) :: ('e, _) outcome) \<and> q_wf q \<and> q_list q = xs
    \<and> q_capacity q = q_capacity (zc_retrieve m) \<and> q_ticks q = q_ticks (zc_retrieve m)"
proof -
  let ?q = "zc_retrieve m"
  have w: "q_wf ?q" and t: "0 < q_ticks ?q" using assms(1,2) by (auto simp: zc_wf_def zc_ticks_def)
  note r = q_wf_read [OF w assms(3)]
  have "iq_pop ?q = (Ok (?q\<lparr>q_read := q_read ?q + 1\<rparr>, Some x) :: ('e, _) outcome)"
    using r(1,4,5) w q_ticks_pos [OF t] by (auto simp: iq_pop_def pop_run_4 q_wf_def)
  then show ?thesis using r(2,3) by (auto simp: reclaim_def q_ticks_def)
qed

definition quiet :: "'id publisher \<Rightarrow> 'id publisher \<Rightarrow> bool" where
  "quiet s s' \<longleftrightarrow> same s s' \<and> pub_loans s' = pub_loans s \<and> pub_history s' = pub_history s \<and> pub_subscribers s' = pub_subscribers s"

lemma retrieve_loop_ok:
  assumes "pinv E b s" and "i < length (pub_connections s)" and "pub_connections s ! i = Some m" and "tick (Suc k) s"
    and "length (q_list (zc_retrieve m)) < n"
  shows "\<exists>s' m'. retrieve_loop n s i m = Some (Ok s' :: ('e, _) outcome) \<and> pinv E b s' \<and> tick (Suc k) s' \<and> quiet s s'
    \<and> pub_connections s' = (pub_connections s)[i := Some m'] \<and> q_list (zc_retrieve m') = [] \<and> zc_receive m' = zc_receive m"
  using assms
proof (induction n arbitrary: s m)
  case (Suc n)
  have ok: "conn_ok s m (b i)" and t: "0 < zc_ticks m" "Suc k \<le> zc_ticks m"
    using Suc.prems by (auto simp: pinv_def conns_ok_def tick_def)
  then have w: "zc_wf m (length (b i))" by (simp add: conn_ok_def)
  show ?case
  proof (cases "q_list (zc_retrieve m)")
    case Nil
    then have "reclaim m = (Ok (m, None) :: (unit, _) outcome)" using reclaim_cases [OF w t(1), where ?'e = unit] by simp
    then show ?thesis using Suc.prems Nil list_update_id [of "pub_connections s" i] by (intro exI [of _ s] exI [of _ m]) (auto simp: quiet_def)
  next
    case (Cons x xs)
    obtain q where q: "reclaim m = (Ok (m\<lparr>zc_retrieve := q\<rparr>, Some x) :: (unit, _) outcome)" "q_wf q" "q_list q = xs"
      "q_capacity q = q_capacity (zc_retrieve m)" "q_ticks q = q_ticks (zc_retrieve m)"
      using reclaim_Cons [OF w t(1) Cons, where ?'e = unit] by blast
    let ?m = "m\<lparr>zc_retrieve := q\<rparr>" and ?s = "s\<lparr>pub_connections := (pub_connections s)[i := Some (m\<lparr>zc_retrieve := q\<rparr>)]\<rparr>"
    have ok1: "conn_ok s ?m (b i)" using ok q(2-4) Cons by (auto simp: conn_ok_def zc_wf_def)
    have "inside s x" using ok Cons by (simp add: conn_ok_def)
    then have 1: "pinv (add_mset x E) b ?s"
      using pinv_move [OF Suc.prems(1,2) _ ok1, of "add_mset x E"] Suc.prems(1,3) Cons q(3)
      by (simp add: slot_offs_def conn_offs_def pinv_def)
    have sm: "same s ?s" using q(4) by (intro same_move [OF Suc.prems(2,3)]) (simp add: conn_static_def)
    have tk: "tick (Suc k) ?s" using t(2) q(5) by (intro tick_move [OF Suc.prems(4,2)]) (simp add: zc_ticks_def)
    obtain c seg where r: "release_sample ?s x = (Ok (?s\<lparr>pub_counter := c, pub_segment := seg\<rparr>) :: ('e, _) outcome)"
      "pinv E b (?s\<lparr>pub_counter := c, pub_segment := seg\<rparr>)" "same ?s (?s\<lparr>pub_counter := c, pub_segment := seg\<rparr>)"
      "tick (Suc k) (?s\<lparr>pub_counter := c, pub_segment := seg\<rparr>)"
      using pinv_release [OF 1, where ?'e = 'e] tk by blast
    let ?s2 = "?s\<lparr>pub_counter := c, pub_segment := seg\<rparr>"
    obtain s' m' where s': "retrieve_loop n ?s2 i ?m = Some (Ok s' :: ('e, _) outcome)" "pinv E b s'" "tick (Suc k) s'" "quiet ?s2 s'"
      "pub_connections s' = (pub_connections ?s2)[i := Some m']" "q_list (zc_retrieve m') = []" "zc_receive m' = zc_receive ?m"
      using Suc.IH [of ?s2 ?m] r(2,4) Suc.prems(2,5) Cons q(3) by (auto simp del: retrieve_loop.simps)
    have "retrieve_loop (Suc n) s i m = Some (Ok s' :: ('e, _) outcome)" using q(1) r(1) s'(1) by simp
    moreover have "quiet s s'" using s'(4) r(3) sm by (auto simp: quiet_def intro: same_trans)
    ultimately show ?thesis using s' by (intro exI [of _ s'] exI [of _ m']) simp
  qed
qed simp


definition drained :: "zc_mgmt option \<Rightarrow> bool" where
  "drained c \<longleftrightarrow> (\<forall>m. c = Some m \<longrightarrow> q_list (zc_retrieve m) = [])"

lemma retrieve_from_ok:
  assumes "pinv E b s" and "i < length (pub_connections s)" and "tick (Suc k) s"
  shows "\<exists>s'. retrieve_from s i = Some (Ok s' :: ('e, _) outcome) \<and> pinv E b s' \<and> tick (Suc k) s' \<and> quiet s s'
    \<and> drained (pub_connections s' ! i) \<and> (\<forall>j. drained (pub_connections s ! j) \<longrightarrow> drained (pub_connections s' ! j))
    \<and> map (map_option zc_receive) (pub_connections s') = map (map_option zc_receive) (pub_connections s)"
proof (cases "pub_connections s ! i")
  case None
  then show ?thesis using assms by (auto simp: retrieve_from_def quiet_def drained_def)
next
  case (Some m)
  then have "zc_wf m (length (b i))" using assms(1,2) by (simp add: pinv_def conns_ok_def conn_ok_def)
  then have "length (q_list (zc_retrieve m)) < q_capacity (zc_retrieve m) + 1" by (simp add: zc_wf_def)
  then obtain s' m' where s': "retrieve_loop (q_capacity (zc_retrieve m) + 1) s i m = Some (Ok s' :: ('e, _) outcome)" "pinv E b s'"
    "tick (Suc k) s'" "quiet s s'" "pub_connections s' = (pub_connections s)[i := Some m']" "q_list (zc_retrieve m') = []" "zc_receive m' = zc_receive m"
    using retrieve_loop_ok [OF assms(1,2) Some assms(3), where ?'e = 'e] by blast
  have "drained (pub_connections s' ! j)" if "drained (pub_connections s ! j) \<or> j = i" for j
    using that s'(5,6) assms(2) by (cases "j = i") (auto simp: drained_def)
  moreover have "map (map_option zc_receive) (pub_connections s') = map (map_option zc_receive) (pub_connections s)"
    using s'(5,7) Some assms(2) by (simp add: map_update list_update_same_conv)
  ultimately show ?thesis using s'(1-4) Some by (auto simp: retrieve_from_def)
qed

lemma retrieve_fold_ok:
  assumes "pinv E b s" and "tick (Suc k) s" and "set is \<subseteq> {..< length (pub_connections s)}"
  shows "\<exists>s'. fold (\<lambda>i r. wbind r (\<lambda>s'. retrieve_from s' i)) is (Some (Ok s)) = Some (Ok s' :: ('e, _) outcome) \<and> pinv E b s' \<and> tick (Suc k) s'
    \<and> quiet s s' \<and> (\<forall>i. i \<in> set is \<or> drained (pub_connections s ! i) \<longrightarrow> drained (pub_connections s' ! i))
    \<and> map (map_option zc_receive) (pub_connections s') = map (map_option zc_receive) (pub_connections s)"
  using assms
proof (induction "is" arbitrary: s)
  case (Cons i "is")
  have i: "i < length (pub_connections s)" using Cons.prems(3) by simp
  obtain s1 where s1: "retrieve_from s i = Some (Ok s1 :: ('e, _) outcome)" "pinv E b s1" "tick (Suc k) s1" "quiet s s1"
    "drained (pub_connections s1 ! i)" "\<forall>j. drained (pub_connections s ! j) \<longrightarrow> drained (pub_connections s1 ! j)"
    "map (map_option zc_receive) (pub_connections s1) = map (map_option zc_receive) (pub_connections s)"
    using retrieve_from_ok [OF Cons.prems(1) i Cons.prems(2), where ?'e = 'e] by blast
  have "length (pub_connections s1) = length (pub_connections s)" using s1(4) by (simp add: quiet_def same_conns)
  then obtain s' where "fold (\<lambda>i r. wbind r (\<lambda>s'. retrieve_from s' i)) is (Some (Ok s1)) = Some (Ok s' :: ('e, _) outcome)" "pinv E b s'" "tick (Suc k) s'"
    "quiet s1 s'" "\<forall>i. i \<in> set is \<or> drained (pub_connections s1 ! i) \<longrightarrow> drained (pub_connections s' ! i)"
    "map (map_option zc_receive) (pub_connections s') = map (map_option zc_receive) (pub_connections s1)"
    using Cons.IH [OF s1(2,3)] Cons.prems(3) by auto
  then show ?case using s1 by (intro exI [of _ s']) (auto simp: quiet_def intro: same_trans)
qed (auto simp: quiet_def)

lemma retrieve_returned_ok:
  assumes "pinv E b s" and "tick (Suc k) s"
  shows "\<exists>s'. retrieve_returned_samples s = Some (Ok s' :: ('e, _) outcome) \<and> pinv E b s' \<and> tick (Suc k) s' \<and> quiet s s'
    \<and> (\<forall>i < length (pub_connections s'). drained (pub_connections s' ! i))
    \<and> map (map_option zc_receive) (pub_connections s') = map (map_option zc_receive) (pub_connections s)"
proof -
  have "set [0 ..< length (pub_connections s)] \<subseteq> {..< length (pub_connections s)}" by auto
  from retrieve_fold_ok [OF assms this, where ?'e = 'e]
  obtain s' where s': "retrieve_returned_samples s = Some (Ok s' :: ('e, _) outcome)" "pinv E b s'" "tick (Suc k) s'" "quiet s s'"
    "\<forall>i < length (pub_connections s). drained (pub_connections s' ! i)"
    "map (map_option zc_receive) (pub_connections s') = map (map_option zc_receive) (pub_connections s)"
    by (auto simp: retrieve_returned_samples_def)
  then have "length (pub_connections s') = length (pub_connections s)" by (simp add: quiet_def same_conns)
  then show ?thesis using s' by (intro exI [of _ s']) simp
qed

section \<open>Loans\<close>

lemma gap_less:
  assumes "counted s R"
  shows "pub_gap s < pub_size s"
proof -
  have "lalign (pub_layout s) \<le> pub_size s" using countedD(1) [OF assms] by (auto simp: seg_wf_def pool_wf_def intro: dvd_imp_le)
  then show ?thesis using countedD(1) [OF assms] by (auto simp: seg_wf_def pub_gap_def)
qed

lemma counted_alloc:
  assumes "counted s R" and "slack 2 s" and "seg_free (pub_segment s) = i # is"
  shows "\<exists>seg off ptr. shm_allocate (pub_segment s) (pub_layout s) = Ok (seg, off, ptr) \<and> idx s off = unat i \<and> exact s off
    \<and> pub_counter s ! unat i = 0 \<and> count R (unat i) = 0
    \<and> counted (s\<lparr>pub_segment := seg, pub_counter := (pub_counter s)[unat i := 1]\<rparr>) (add_mset (unat i) R)
    \<and> pub_gap (s\<lparr>pub_segment := seg, pub_counter := (pub_counter s)[unat i := 1]\<rparr>) = pub_gap s
    \<and> (\<forall>k. slack (k + 2) s \<longrightarrow> slack k (s\<lparr>pub_segment := seg, pub_counter := (pub_counter s)[unat i := 1]\<rparr>))"
proof -
  let ?seg = "pub_segment s"
  note D = countedD [OF assms(1)]
  have bud: "0 < seg_budget ?seg" using assms(2) by (simp add: slack_def)
  obtain u ptr where u: "shm_allocate ?seg (pub_layout s) = Ok (seg_with ?seg u, seg_offset ?seg (unat i), ptr)" "uis_wf u" "uis_free u = is"
    "u_capacity u = u_capacity (p_buckets (seg_pool ?seg))" "uis_budget u = seg_budget ?seg - 1"
    using seg_allocate_some [OF D(1) assms(3) bud] by blast
  let ?off = "seg_offset ?seg (unat i)" and ?s = "s\<lparr>pub_segment := seg_with ?seg u, pub_counter := (pub_counter s)[unat i := 1]\<rparr>"
  note F = seg_free_distinct [OF D(1)]
  have i: "unat i < length (pub_counter s)" using F(2) assms(3) D(2) by (simp add: word_less_nat_alt)
  have b: "p_bucket_size (seg_pool ?seg) = pub_size s" using D(1) by (simp add: seg_wf_def)
  have off: "idx s ?off = unat i" "?off mod pub_size s = pub_gap s"
    using gap_less [OF assms(1)] b by (simp_all add: idx_def seg_offset_def pub_gap_def [symmetric])
  have z: "count R (unat i) = 0" using D(4) [OF i] assms(3) by simp
  then have c0: "pub_counter s ! unat i = 0" using D(3) [OF i] by (simp add: unat_eq_zero)
  have inj: "word_of_nat j = i \<longleftrightarrow> j = unat i" if "j < length (pub_counter s)" for j
    using seg_index(1) [of j ?seg] that D(2) by auto
  have fr: "word_of_nat j \<in> set is \<longleftrightarrow> count (add_mset (unat i) R) j = 0" if "j < length (pub_counter s)" for j
    using D(4) [OF that] inj [OF that] F(1) assms(3) by auto
  have cnt: "unat ((pub_counter s)[unat i := 1] ! j) = count (add_mset (unat i) R) j" if "j < length (pub_counter s)" for j
    using D(3) [OF that] i z that by (auto simp: nth_list_update)
  have sl: "slack k ?s" if "slack (k + 2) s" for k
    using that u(3,5) assms(3) seg_free_length(1) [OF D(1)] D(2) by (auto simp: slack_def)
  have sl0: "slack 0 ?s" using sl [of 0] assms(2) by (simp add: numeral_2_eq_2)
  have "counted ?s (add_mset (unat i) R)"
    using D(2) cnt fr u(3,4) sl0 seg_wf_with [OF D(1) u(2,4)] by (simp add: counted_def)
  then show ?thesis
    using u(1) off i c0 z sl by (intro exI [of _ "seg_with ?seg u"] exI [of _ ?off] exI [of _ ptr]) (simp add: exact_def pub_gap_def)
qed


lemma loan_ok:
  assumes "pinv E b s" and "tick (Suc k) s"
  shows "\<exists>s' r. loan s = Some (Ok (s', r) :: ('e, _) outcome) \<and> same s s' \<and> tick k s' \<and> pub_subscribers s' = pub_subscribers s \<and> (case r of
      Inl e \<Rightarrow> pinv E b s' \<and> pub_loans s' = pub_loans s
        \<and> (if pub_max_loaned s \<le> unat (pub_loans s) then e = ExceedsMaxLoanedChunks else e = Loan_OutOfMemory \<and> seg_free (pub_segment s') = []
            \<and> (\<forall>i < length (pub_connections s'). drained (pub_connections s' ! i)) \<and> pub_history s' = pub_history s)
    | Inr off \<Rightarrow> pinv (add_mset off E) b s' \<and> pub_loans s' = pub_loans s + 1 \<and> unat (pub_loans s) < pub_max_loaned s \<and> exact s' off
        \<and> idx s' off \<notin># refs E b s' \<and> pub_history s' = pub_history s)"
proof -
  obtain s1 where s1: "retrieve_returned_samples s = Some (Ok s1 :: ('e, _) outcome)" "pinv E b s1" "tick (Suc k) s1" "quiet s s1"
    "\<forall>i < length (pub_connections s1). drained (pub_connections s1 ! i)"
    using retrieve_returned_ok [OF assms, where ?'e = 'e] by blast
  have q: "same s s1" "pub_loans s1 = pub_loans s" "pub_max_loaned s1 = pub_max_loaned s" "pub_history s1 = pub_history s"
      "pub_subscribers s1 = pub_subscribers s"
    using s1(4) by (auto simp: quiet_def same_def)
  have tk: "tick k s1" using s1(3) by (auto simp: tick_def slack_def)
  note C = pinvD(1) [OF s1(2)]
  show ?thesis
  proof (cases "pub_max_loaned s \<le> unat (pub_loans s)")
    case True
    then have "loan s = Some (Ok (s1, Inl ExceedsMaxLoanedChunks) :: ('e, _) outcome)" using s1(1) q by (simp add: loan_def)
    then show ?thesis using s1(2) q tk True by (intro exI [of _ s1] exI [of _ "Inl ExceedsMaxLoanedChunks"]) simp
  next
    case room: False
    show ?thesis
    proof (cases "seg_free (pub_segment s1)")
      case Nil
      then have "loan s = Some (Ok (s1, Inl Loan_OutOfMemory) :: ('e, _) outcome)"
        using s1(1) q room seg_allocate_none [OF countedD(1) [OF C] Nil] by (simp add: loan_def)
      then show ?thesis using s1(2,5) q tk room Nil by (intro exI [of _ s1] exI [of _ "Inl Loan_OutOfMemory"]) simp
    next
      case (Cons i "is")
      have sl: "slack (2 * k + 2) s1" using s1(3) by (simp add: tick_def)
      then have "slack 2 s1" by (simp add: slack_def)
      from counted_alloc [OF C this Cons] obtain seg off ptr where a: "shm_allocate (pub_segment s1) (pub_layout s1) = Ok (seg, off, ptr)"
        "idx s1 off = unat i" "exact s1 off" "pub_counter s1 ! unat i = 0" "count (refs E b s1) (unat i) = 0"
        "counted (s1\<lparr>pub_segment := seg, pub_counter := (pub_counter s1)[unat i := 1]\<rparr>) (add_mset (unat i) (refs E b s1))"
        "pub_gap (s1\<lparr>pub_segment := seg, pub_counter := (pub_counter s1)[unat i := 1]\<rparr>) = pub_gap s1"
        "\<forall>k. slack (k + 2) s1 \<longrightarrow> slack k (s1\<lparr>pub_segment := seg, pub_counter := (pub_counter s1)[unat i := 1]\<rparr>)"
        by blast
      let ?s = "sample_mut_new (s1\<lparr>pub_segment := seg, pub_counter := (pub_counter s1)[unat i := 1]\<rparr>)"
      have i: "unat i < length (pub_counter s1)" using a(2,3) by (simp add: exact_def)
      have "loan s = Some (Ok (?s, Inr off) :: ('e, _) outcome)"
        using s1(1) q room a(1,2,4) i gap_less [OF C] by (simp add: loan_def sample_index_def idx_def counter_fetch_add_def sample_mut_new_def)
      moreover have sm: "same s1 ?s" using a(7) by (simp add: same_def sample_mut_new_def pub_gap_def)
      moreover have R: "refs (add_mset off E) b ?s = add_mset (unat i) (refs E b s1)" "refs E b ?s = refs E b s1"
        using a(2) by (simp_all add: refs_def same_offsets [OF sm]) (simp_all add: hist_list_def sample_mut_new_def)
      moreover have "counted ?s X = counted (s1\<lparr>pub_segment := seg, pub_counter := (pub_counter s1)[unat i := 1]\<rparr>) X" for X
        by (simp add: counted_def sample_mut_new_def slack_def)
      ultimately have "pinv (add_mset off E) b ?s"
        using s1(2) a(3,6) exact_inside by (simp add: pinv_def hist_ok_def conns_ok_def same_offsets [OF sm]) (simp add: hist_list_def sample_mut_new_def)
      moreover have "tick k ?s" using tk a(8) sl by (simp add: tick_def sample_mut_new_def slack_def)
      moreover have "exact ?s off" "idx ?s off \<notin># refs E b ?s" using a(2,3,5) R(2) by (simp_all add: same_offsets [OF sm] not_in_iff)
      ultimately show ?thesis using \<open>loan s = _\<close> room q same_trans [OF q(1) sm]
        by (intro exI [of _ ?s] exI [of _ "Inr off"]) (simp add: sample_mut_new_def)
    qed
  qed
qed

section \<open>Sending\<close>

lemma hist_push:
  assumes "pub_history s = Some h" and "hist_ok s" and "tick (Suc k) s"
  shows "\<exists>h' r. cq_push_with_overflow h off = (Ok (h', r) :: ('e, _) outcome) \<and> cq_wf h' \<and> cq_capacity h' = cq_capacity h
    \<and> k \<le> cq_ticks h' \<and> opt_list r @ cq_list h' = hist_list s @ [off]"
proof -
  have w: "cq_wf h" "0 < cq_capacity h" and t: "0 < cq_ticks h" "Suc k \<le> cq_ticks h" using assms by (auto simp: hist_ok_def tick_def)
  show ?thesis
  proof (cases "length (cq_list h) < cq_capacity h")
    case True
    obtain h' where "cq_push_with_overflow h off = (Ok (h', None) :: ('e, _) outcome)" "cq_wf h'" "cq_list h' = cq_list h @ [off]"
      "cq_capacity h' = cq_capacity h" "cq_ticks h \<le> Suc (cq_ticks h')"
      using co.over_fits [OF w(1) t(1) True, of off] by blast
    then show ?thesis using assms(1) t(2) by (intro exI [of _ h'] exI [of _ None]) (simp add: opt_list_def hist_list_def)
  next
    case False
    then have l: "length (cq_list h) = cq_capacity h" using co.over_cap [OF w(1)] by simp
    then obtain y ys where y: "cq_list h = y # ys" using w(2) by (cases "cq_list h") auto
    obtain h' where "cq_push_with_overflow h off = (Ok (h', Some y) :: ('e, _) outcome)" "cq_wf h'" "cq_list h' = ys @ [off]"
      "cq_capacity h' = cq_capacity h" "cq_ticks h \<le> Suc (cq_ticks h')"
      using co.over_evicts [OF w(1) t(1) y l, of off] by blast
    then show ?thesis using assms(1) t(2) y by (intro exI [of _ h'] exI [of _ "Some y"]) (simp add: opt_list_def hist_list_def)
  qed
qed


text \<open>The number of references is bounded by what the queues can hold.\<close>

definition caps :: "'id publisher \<Rightarrow> nat" where
  "caps s = (case map_option cq_capacity (pub_history s) of None \<Rightarrow> 0 | Some n \<Rightarrow> n)
     + sum_list (map (\<lambda>c. case c of None \<Rightarrow> 0 | Some (o', q, x) \<Rightarrow> q) (map (map_option conn_static) (pub_connections s)))"

lemma same_caps: "same s s' \<Longrightarrow> caps s' = caps s"
  unfolding caps_def same_def by presburger

lemma size_sum_multiset: "finite A \<Longrightarrow> size (\<Sum>i \<in> A. f i) = (\<Sum>i \<in> A. size (f i))" for f :: "'b \<Rightarrow> 'a multiset"
  by (induction rule: finite_induct) auto

lemma refs_size:
  assumes "pinv E b s"
  shows "size (refs E b s) \<le> size E + caps s"
proof -
  have "size (slot_offs (pub_connections s) b i) \<le> (case map_option conn_static (pub_connections s ! i) of None \<Rightarrow> 0 | Some (o', q, x) \<Rightarrow> q)"
    if "i < length (pub_connections s)" for i
    using pinvD(4) [OF assms] that by (auto simp: slot_offs_def conns_ok_def conn_ok_def zc_wf_def conn_offs_def conn_static_def split: option.split)
  then have "size (conns_offs (pub_connections s) b)
      \<le> (\<Sum>i < length (pub_connections s). case map_option conn_static (pub_connections s ! i) of None \<Rightarrow> 0 | Some (o', q, x) \<Rightarrow> q)"
    unfolding conns_offs_def size_sum_multiset [OF finite_lessThan] by (intro sum_mono) simp
  moreover have "\<dots> = sum_list (map (\<lambda>c. case c of None \<Rightarrow> 0 | Some (o', q, x) \<Rightarrow> q) (map (map_option conn_static) (pub_connections s)))"
    by (simp add: sum_list_sum_nth atLeast0LessThan)
  moreover have "length (hist_list s) \<le> (case map_option cq_capacity (pub_history s) of None \<Rightarrow> 0 | Some n \<Rightarrow> n)"
    using pinvD(3) [OF assms] cq.list_cap by (auto simp: hist_list_def hist_ok_def split: option.split)
  ultimately show ?thesis by (simp add: refs_def caps_def)
qed

lemma sample_index_ok: "counted s R \<Longrightarrow> sample_index s off = Ok (idx s off)"
  using gap_less [of s R] by (simp add: sample_index_def idx_def)

lemma counter_fetch_add_commute:
  "counter_fetch_add s i = (Ok (s\<lparr>pub_counter := c\<rparr>, v) :: ('e, _) outcome) \<Longrightarrow>
   counter_fetch_add (s\<lparr>pub_connections := x\<rparr>) i = (Ok (s\<lparr>pub_connections := x, pub_counter := c\<rparr>, v) :: ('e, _) outcome)"
  by (auto simp: counter_fetch_add_def split: if_splits dest: arg_cong [where f = pub_counter])

lemma add_to_history_ok:
  assumes "pinv E b s" and "off \<in># E" and "exact s off" and "tick (Suc k) s" and "size E + caps s + 1 < 2 ^ 64"
  shows "\<exists>s'. add_to_history s off = (Ok s' :: ('e, _) outcome) \<and> pinv E b s' \<and> tick k s' \<and> same s s'
    \<and> pub_connections s' = pub_connections s \<and> pub_loans s' = pub_loans s \<and> pub_subscribers s' = pub_subscribers s"
proof (cases "pub_history s")
  case None
  then show ?thesis using assms by (auto simp: add_to_history_def tick_def slack_def)
next
  case (Some h)
  have "size (refs E b s) + 1 < 2 ^ 64" using refs_size [OF assms(1)] assms(5) by linarith
  then obtain c where c: "counter_fetch_add s (idx s off) = (Ok (s\<lparr>pub_counter := c\<rparr>, pub_counter s ! idx s off) :: ('e, _) outcome)"
    "pinv (add_mset off E) b (s\<lparr>pub_counter := c\<rparr>)" "length c = length (pub_counter s)"
    using pinv_add [OF assms(1,2), where ?'e = 'e] by blast
  let ?s1 = "s\<lparr>pub_counter := c\<rparr>"
  obtain h' r where h: "cq_push_with_overflow h off = (Ok (h', r) :: ('e, _) outcome)" "cq_wf h'" "cq_capacity h' = cq_capacity h"
    "k \<le> cq_ticks h'" "opt_list r @ cq_list h' = hist_list s @ [off]"
    using hist_push [OF Some pinvD(3) [OF assms(1)] assms(4), where ?'e = 'e] by blast
  let ?s2 = "s\<lparr>pub_counter := c, pub_history := Some h'\<rparr>"
  have hl: "hist_list ?s1 = hist_list s" "exact ?s1 = exact s" "inside ?s1 = inside s"
    using c(3) by (simp_all add: hist_list_def exact_def inside_def idx_def pub_gap_def fun_eq_iff)
  have cap: "0 < cq_capacity h'" using h(3) pinvD(3) [OF assms(1)] Some by (simp add: hist_ok_def)
  have all: "set (hist_list s @ [off]) \<subseteq> Collect (exact s)" using pinvD(3) [OF assms(1)] assms(3) by (auto simp: hist_ok_def)
  have ex: "\<forall>x \<in> set (opt_list r) \<union> set (cq_list h'). exact s x" using all arg_cong [OF h(5), of set] by auto
  have m: "mset (hist_list s) + add_mset off E = mset (cq_list h') + (mset (opt_list r) + E)"
    using arg_cong [OF h(5), of mset] by (simp add: ac_simps)
  have "pinv (mset (opt_list r) + E) b ?s2"
    using pinv_history [OF c(2), of h' "mset (opt_list r) + E"] m h(2) cap ex hl exact_inside pinvD(2) [OF assms(1)] by auto
  moreover have sm: "same s ?s2" using c(3) h(3) Some by (simp add: same_def pub_gap_def)
  moreover have tk: "tick k ?s2" using assms(4) h(4) c(3) by (auto simp: tick_def slack_def)
  moreover have step: "add_to_history s off = ((case r of None \<Rightarrow> Ok ?s2 | Some old \<Rightarrow> release_sample ?s2 old) :: ('e, _) outcome)"
    using Some c(1) h(1) sample_index_ok [OF pinvD(1) [OF assms(1)], of off, where ?'b = 'e] by (simp add: add_to_history_def Let_def)
  ultimately show ?thesis
  proof (cases r)
    case None
    then show ?thesis using \<open>pinv _ b ?s2\<close> sm tk step by (intro exI [of _ ?s2]) (simp add: opt_list_def)
  next
    case (Some old)
    then have "pinv (add_mset old E) b ?s2" using \<open>pinv _ b ?s2\<close> by (simp add: opt_list_def)
    then obtain c' seg where "release_sample ?s2 old = (Ok (?s2\<lparr>pub_counter := c', pub_segment := seg\<rparr>) :: ('e, _) outcome)"
      "pinv E b (?s2\<lparr>pub_counter := c', pub_segment := seg\<rparr>)" "same ?s2 (?s2\<lparr>pub_counter := c', pub_segment := seg\<rparr>)"
      "tick k (?s2\<lparr>pub_counter := c', pub_segment := seg\<rparr>)"
      using pinv_release [where ?'e = 'e] tk by blast
    then show ?thesis using sm step Some by (intro exI [of _ "?s2\<lparr>pub_counter := c', pub_segment := seg\<rparr>"]) (auto intro: same_trans)
  qed
qed


lemma deliver_call_cases:
  assumes "zc_wf m n" and "0 < zc_ticks m"
  shows "deliver_call st m off = Some (try_send m off) \<or> deliver_call st m off = None \<and> st = Block"
proof (cases st)
  case Block
  have "oq_is_full (zc_receive m) = (Ok (length (oq_list (zc_receive m)) = o_capacity (zc_receive m)) :: (zc_send_error, _) outcome)"
    using assms by (intro oq_is_full_ok) (auto simp: zc_wf_def zc_ticks_def)
  then show ?thesis using Block by (simp split: bool.split)
qed simp

text \<open>A connection that has accepted the sample: the new reference, and the sample that had to make room.\<close>

lemma send_moves:
  assumes "conn_ok s m bs" and "exact s off" and "Suc k \<le> zc_ticks m"
  shows "(\<exists>e. try_send m off = Err e) \<or> (\<exists>m' r. try_send m off = Ok (m', r) \<and> conn_ok s m' bs \<and> conn_static m' = conn_static m \<and> k \<le> zc_ticks m'
    \<and> conn_offs m' bs + mset (opt_list r) = add_mset off (conn_offs m bs) \<and> (\<forall>x \<in> set (opt_list r). exact s x)
    \<and> (r = None \<longleftrightarrow> length (oq_list (zc_receive m)) < o_capacity (zc_receive m)) \<and> opt_list r @ oq_list (zc_receive m') = oq_list (zc_receive m) @ [off]
    \<and> zc_retrieve m' = zc_retrieve m)"
proof -
  have w: "zc_wf m (length bs)" using assms(1) by (simp add: conn_ok_def)
  have t: "0 < zc_ticks m" using assms(3) by simp
  note T = try_send_cases [OF w t, of off]
  show ?thesis
  proof (cases "\<exists>e. try_send m off = Err e")
    case False
    then obtain q r where q: "try_send m off = Ok (m\<lparr>zc_receive := q\<rparr>, r)" "oq_wf q" "o_capacity q = o_capacity (zc_receive m)"
      "oq_ticks (zc_receive m) \<le> Suc (oq_ticks q)" "opt_list r @ oq_list q = oq_list (zc_receive m) @ [off]"
      "r = None \<longleftrightarrow> length (oq_list (zc_receive m)) < o_capacity (zc_receive m)"
      and room: "\<not> q_capacity (zc_retrieve m) - length (q_list (zc_retrieve m)) \<le> zc_max_borrowed m + length (oq_list (zc_receive m))"
      using T by (auto split: if_splits)
    let ?m = "m\<lparr>zc_receive := q\<rparr>"
    have all: "\<forall>x \<in> set (oq_list (zc_receive m) @ [off]). exact s x" using assms(1,2) by (auto simp: conn_ok_def)
    have ex: "\<forall>x \<in> set (opt_list r) \<union> set (oq_list q). exact s x" using all unfolding q(5) [symmetric] by auto
    have "length (oq_list q) \<le> Suc (length (oq_list (zc_receive m)))" using arg_cong [OF q(5), of length] by simp
    then have "zc_wf ?m (length bs)" using w q(2,3) room by (auto simp: zc_wf_def)
    then have "conn_ok s ?m bs" using assms(1) ex by (auto simp: conn_ok_def)
    moreover have "conn_offs ?m bs + mset (opt_list r) = add_mset off (conn_offs m bs)"
      using arg_cong [OF q(5), of mset] by (simp add: conn_offs_def ac_simps)
    moreover have "k \<le> zc_ticks ?m" using assms(3) q(4) by (auto simp: zc_ticks_def)
    ultimately show ?thesis using q(1,3,5,6) ex by (intro disjI2 exI [of _ ?m] exI [of _ r]) (simp add: conn_static_def)
  qed simp
qed

lemma tick_conn: "tick k s \<Longrightarrow> i < length (pub_connections s) \<Longrightarrow> pub_connections s ! i = Some m \<Longrightarrow> k \<le> zc_ticks m"
  by (simp add: tick_def)

lemma deliver_to_ok:
  assumes "pinv E b s" and "off \<in># E" and "exact s off" and "i < length (pub_connections s)" and "tick k s"
    and "\<forall>m. pub_connections s ! i = Some m \<longrightarrow> Suc k \<le> zc_ticks m" and "size E + caps s + 1 < 2 ^ 64" and "n + 1 < usize_lim"
  shows "deliver_to off (s, n) i = (None :: ('e, 'id publisher \<times> nat) outcome option) \<and> pub_strategy s = Block
    \<or> (\<exists>s' n'. deliver_to off (s, n) i = Some (Ok (s', n') :: ('e, _) outcome) \<and> pinv E b s' \<and> tick k s' \<and> quiet s s' \<and> n' \<le> n + 1
      \<and> (\<forall>j. j \<noteq> i \<longrightarrow> pub_connections s' ! j = pub_connections s ! j))"
proof (cases "pub_connections s ! i")
  case None
  then show ?thesis using assms by (intro disjI2 exI [of _ s] exI [of _ n]) (simp add: deliver_to_def quiet_def)
next
  case (Some m)
  have ok: "conn_ok s m (b i)" and t: "Suc k \<le> zc_ticks m" using assms(1,4,6) Some by (auto simp: pinv_def conns_ok_def)
  have w: "zc_wf m (length (b i))" "0 < zc_ticks m" using ok t by (auto simp: conn_ok_def)
  from deliver_call_cases [OF w, of "pub_strategy s" off] consider (wait) "deliver_call (pub_strategy s) m off = None" "pub_strategy s = Block"
    | (call) "deliver_call (pub_strategy s) m off = Some (try_send m off)" by (elim disjE conjE) simp_all
  then show ?thesis
  proof cases
    case wait
    then show ?thesis using Some by (intro disjI1) (simp add: deliver_to_def)
  next
    case call
    from send_moves [OF ok assms(3) t] consider (refused) e where "try_send m off = Err e"
      | (sent) m' r where "try_send m off = Ok (m', r)" "conn_ok s m' (b i)" "conn_static m' = conn_static m" "k \<le> zc_ticks m'"
        "conn_offs m' (b i) + mset (opt_list r) = add_mset off (conn_offs m (b i))" "\<forall>x \<in> set (opt_list r). exact s x" by blast
    then show ?thesis
    proof cases
      case refused
      then show ?thesis using call Some assms by (intro disjI2 exI [of _ s] exI [of _ n]) (simp add: deliver_to_def quiet_def)
    next
      case sent
      have "size (refs E b s) + 1 < 2 ^ 64" using refs_size [OF assms(1)] assms(7) by linarith
      then obtain c where c: "counter_fetch_add s (idx s off) = (Ok (s\<lparr>pub_counter := c\<rparr>, pub_counter s ! idx s off) :: ('e, _) outcome)"
        "pinv (add_mset off E) b (s\<lparr>pub_counter := c\<rparr>)" "length c = length (pub_counter s)"
        using pinv_add [OF assms(1,2), where ?'e = 'e] by blast
      let ?s1 = "s\<lparr>pub_counter := c\<rparr>" and ?s2 = "s\<lparr>pub_connections := (pub_connections s)[i := Some m'], pub_counter := c\<rparr>"
      have eq: "conn_ok ?s1 = conn_ok s" "inside ?s1 = inside s"
        using c(3) by (simp_all add: conn_ok_def exact_def inside_def idx_def pub_gap_def fun_eq_iff)
      have "pinv (mset (opt_list r) + E) (b(i := b i)) (?s1\<lparr>pub_connections := (pub_connections ?s1)[i := Some m']\<rparr>)"
        using sent(2,5,6) Some assms(4) exact_inside pinvD(2) [OF assms(1)] eq
        by (intro pinv_move [OF c(2)]) (auto simp: slot_offs_def ac_simps)
      moreover have "?s1\<lparr>pub_connections := (pub_connections ?s1)[i := Some m']\<rparr> = ?s2" by (cases s) simp
      ultimately have 2: "pinv (mset (opt_list r) + E) b ?s2" by (simp only: fun_upd_triv)
      have sm: "same s ?s2" using same_move [OF assms(4) Some sent(3)] c(3) by (simp add: same_def pub_gap_def)
      have tk: "tick k ?s2" using tick_move [OF assms(5,4) sent(4)] c(3) by (simp add: tick_def slack_def)
      have step: "deliver_to off (s, n) i = (Some (case r of Some old \<Rightarrow> omap (\<lambda>s2. (s2, Suc n)) (release_sample ?s2 old) | None \<Rightarrow> Ok (?s2, Suc n)) :: ('e, _) outcome option)"
        using Some call sent(1) counter_fetch_add_commute [OF c(1)] assms(8) sample_index_ok [OF pinvD(1) [OF assms(1)], of off, where ?'b = 'e]
        by (simp add: deliver_to_def)
      show ?thesis
      proof (cases r)
        case None
        then show ?thesis using 2 sm tk step by (intro disjI2 exI [of _ ?s2] exI [of _ "Suc n"]) (simp add: opt_list_def quiet_def)
      next
        case (Some old)
        then have "pinv (add_mset old E) b ?s2" using 2 by (simp add: opt_list_def)
        then obtain c' seg where "release_sample ?s2 old = (Ok (?s2\<lparr>pub_counter := c', pub_segment := seg\<rparr>) :: ('e, _) outcome)"
          "pinv E b (?s2\<lparr>pub_counter := c', pub_segment := seg\<rparr>)" "same ?s2 (?s2\<lparr>pub_counter := c', pub_segment := seg\<rparr>)"
          "tick k (?s2\<lparr>pub_counter := c', pub_segment := seg\<rparr>)"
          using pinv_release [where ?'e = 'e] tk by blast
        then show ?thesis using sm step Some
          by (intro disjI2 exI [of _ "?s2\<lparr>pub_counter := c', pub_segment := seg\<rparr>"] exI [of _ "Suc n"]) (auto simp: quiet_def intro: same_trans)
      qed
    qed
  qed
qed


lemma deliver_fold_ok:
  assumes "pinv E b s" and "off \<in># E" and "exact s off" and "set is \<subseteq> {..< length (pub_connections s)}" and "distinct is" and "tick k s"
    and "\<forall>i \<in> set is. \<forall>m. pub_connections s ! i = Some m \<longrightarrow> Suc k \<le> zc_ticks m" and "size E + caps s + 1 < 2 ^ 64"
    and "n + length is < usize_lim"
  shows "fold (\<lambda>i r. wbind r (\<lambda>sn. deliver_to off sn i)) is (Some (Ok (s, n))) = (None :: ('e, 'id publisher \<times> nat) outcome option) \<and> pub_strategy s = Block
    \<or> (\<exists>s' n'. fold (\<lambda>i r. wbind r (\<lambda>sn. deliver_to off sn i)) is (Some (Ok (s, n))) = Some (Ok (s', n') :: ('e, _) outcome)
         \<and> pinv E b s' \<and> tick k s' \<and> quiet s s' \<and> n' \<le> n + length is)"
  using assms
proof (induction "is" arbitrary: s n)
  case (Cons i "is")
  have i: "i < length (pub_connections s)" "n + 1 < usize_lim" "\<forall>m. pub_connections s ! i = Some m \<longrightarrow> Suc k \<le> zc_ticks m"
    using Cons.prems by auto
  from deliver_to_ok [OF Cons.prems(1-3) i(1) Cons.prems(6) i(3) Cons.prems(8) i(2), where ?'e = 'e]
  consider (wait) "deliver_to off (s, n) i = (None :: ('e, _) outcome option)" "pub_strategy s = Block"
    | (go) s1 n1 where "deliver_to off (s, n) i = Some (Ok (s1, n1) :: ('e, _) outcome)" "pinv E b s1" "tick k s1" "quiet s s1" "n1 \<le> n + 1"
      "\<forall>j. j \<noteq> i \<longrightarrow> pub_connections s1 ! j = pub_connections s ! j" by metis
  then show ?case
  proof cases
    case wait
    have "fold (\<lambda>i r. wbind r (\<lambda>sn. deliver_to off sn i)) is None = (None :: ('e, 'id publisher \<times> nat) outcome option)" by (induction "is") simp_all
    then show ?thesis using wait by simp
  next
    case go
    have sm: "same s s1" using go(4) by (simp add: quiet_def)
    have "exact s1 off" "set is \<subseteq> {..< length (pub_connections s1)}" "size E + caps s1 + 1 < 2 ^ 64" "n1 + length is < usize_lim" "pub_strategy s1 = pub_strategy s"
      using Cons.prems same_offsets [OF sm] same_conns [OF sm] same_caps [OF sm] go(5) sm by (auto simp: same_def)
    moreover have "\<forall>j \<in> set is. \<forall>m. pub_connections s1 ! j = Some m \<longrightarrow> Suc k \<le> zc_ticks m" using Cons.prems(5,7) go(6) by auto
    ultimately have "fold (\<lambda>i r. wbind r (\<lambda>sn. deliver_to off sn i)) is (Some (Ok (s1, n1))) = (None :: ('e, 'id publisher \<times> nat) outcome option) \<and> pub_strategy s = Block
      \<or> (\<exists>s' n'. fold (\<lambda>i r. wbind r (\<lambda>sn. deliver_to off sn i)) is (Some (Ok (s1, n1))) = Some (Ok (s', n') :: ('e, _) outcome)
         \<and> pinv E b s' \<and> tick k s' \<and> quiet s1 s' \<and> n' \<le> n1 + length is)"
      using Cons.IH [OF go(2) Cons.prems(2) _ _ _ go(3), of n1] Cons.prems(5) by auto
    then show ?thesis
    proof (elim disjE exE conjE)
      fix s' n' assume "fold (\<lambda>i r. wbind r (\<lambda>sn. deliver_to off sn i)) is (Some (Ok (s1, n1))) = Some (Ok (s', n') :: ('e, _) outcome)"
        "pinv E b s'" "tick k s'" "quiet s1 s'" "n' \<le> n1 + length is"
      then show ?thesis using go(1,4,5) by (intro disjI2 exI [of _ s'] exI [of _ n']) (auto simp: quiet_def intro: same_trans)
    qed (use go(1) in simp)
  qed
qed (simp add: quiet_def)


section \<open>The receiver\<close>

lemma receive_moves:
  assumes "pinv E b s" and "i < length (pub_connections s)" and "pub_connections s ! i = Some m" and "tick (Suc k) s"
  shows "\<exists>m' n r. zc_recv m (length (b i)) = Err ReceiveWouldExceedMaxBorrowValue \<and> zc_max_borrowed m \<le> length (b i)
    \<or> zc_recv m (length (b i)) = Ok (m', n, r) \<and> n = length (b i @ opt_list r)
      \<and> pinv E (b(i := b i @ opt_list r)) (s\<lparr>pub_connections := (pub_connections s)[i := Some m']\<rparr>)
      \<and> tick k (s\<lparr>pub_connections := (pub_connections s)[i := Some m']\<rparr>) \<and> same s (s\<lparr>pub_connections := (pub_connections s)[i := Some m']\<rparr>)
      \<and> (\<forall>x \<in> set (opt_list r). exact s x) \<and> oq_list (zc_receive m) = opt_list r @ oq_list (zc_receive m')"
proof -
  have ok: "conn_ok s m (b i)" and t: "Suc k \<le> zc_ticks m" "0 < zc_ticks m" using assms by (auto simp: pinv_def conns_ok_def tick_def)
  have w: "zc_wf m (length (b i))" using ok by (simp add: conn_ok_def)
  note R = zc_recv_cases [OF w t(2)]
  have tk: "tick k s" using assms(4) by (auto simp: tick_def slack_def)
  have id: "s\<lparr>pub_connections := (pub_connections s)[i := Some m]\<rparr> = s" "b(i := b i) = b" using assms(3) list_update_id [of "pub_connections s" i] by (cases s) auto
  show ?thesis
  proof (cases "zc_max_borrowed m \<le> length (b i)")
    case True
    then show ?thesis using R by simp
  next
    case room: False
    show ?thesis
    proof (cases "oq_list (zc_receive m)")
      case Nil
      then show ?thesis using R room assms(1) tk id by (intro exI [of _ m] exI [of _ "length (b i)"] exI [of _ None]) (simp add: opt_list_def)
    next
      case (Cons x xs)
      then obtain q where q: "zc_recv m (length (b i)) = Ok (m\<lparr>zc_receive := q\<rparr>, length (b i) + 1, Some x)" "oq_wf q" "oq_list q = xs"
        "o_capacity q = o_capacity (zc_receive m)" "oq_ticks q = oq_ticks (zc_receive m)"
        using R room by auto
      let ?m = "m\<lparr>zc_receive := q\<rparr>"
      have ok': "conn_ok s ?m (b i @ [x])" using ok q(2-4) Cons room by (auto simp: conn_ok_def zc_wf_def)
      have "pinv E (b(i := b i @ [x])) (s\<lparr>pub_connections := (pub_connections s)[i := Some ?m]\<rparr>)"
        using pinvD(2) [OF assms(1)] assms(3) Cons q(3) by (intro pinv_move [OF assms(1,2) _ ok']) (auto simp: slot_offs_def conn_offs_def)
      moreover have "tick k (s\<lparr>pub_connections := (pub_connections s)[i := Some ?m]\<rparr>)"
        using t(1) q(5) by (intro tick_move [OF tk assms(2)]) (auto simp: zc_ticks_def)
      moreover have "same s (s\<lparr>pub_connections := (pub_connections s)[i := Some ?m]\<rparr>)"
        using q(4) by (intro same_move [OF assms(2,3)]) (simp add: conn_static_def)
      moreover have "exact s x" using ok Cons by (simp add: conn_ok_def)
      ultimately show ?thesis using q(1,3) Cons
        by (intro exI [of _ ?m] exI [of _ "length (b i) + 1"] exI [of _ "Some x"]) (simp add: opt_list_def)
    qed
  qed
qed

lemma exact_add:
  assumes "exact s off" and "pub_gap s + d < pub_size s"
  shows "inside s (off + d)" and "idx s (off + d) = idx s off"
proof -
  have e: "off + d = off div pub_size s * pub_size s + (pub_gap s + d)" using assms(1) div_mult_mod_eq [of off "pub_size s"] by (simp add: exact_def)
  have "(off + d) div pub_size s = off div pub_size s" "(off + d) mod pub_size s = pub_gap s + d"
    unfolding e using assms(2) by simp_all
  then show "idx s (off + d) = idx s off" "inside s (off + d)" using assms(1) by (simp_all add: idx_def inside_def exact_def)
qed

lemma release_moves:
  assumes "pinv E b s" and "i < length (pub_connections s)" and "pub_connections s ! i = Some m" and "tick (Suc k) s"
    and "j < length (b i)" and "pub_gap s + d < pub_size s"
  defines "bs \<equiv> take j (b i) @ drop (Suc j) (b i)"
  shows "\<exists>m'. zc_release m (length (b i)) (b i ! j + d) = Ok (m', length bs)
      \<and> pinv E (b(i := bs)) (s\<lparr>pub_connections := (pub_connections s)[i := Some m']\<rparr>)
      \<and> tick k (s\<lparr>pub_connections := (pub_connections s)[i := Some m']\<rparr>) \<and> same s (s\<lparr>pub_connections := (pub_connections s)[i := Some m']\<rparr>)"
proof -
  have ok: "conn_ok s m (b i)" and t: "Suc k \<le> zc_ticks m" "0 < zc_ticks m" using assms by (auto simp: pinv_def conns_ok_def tick_def)
  have w: "zc_wf m (length (b i))" using ok by (simp add: conn_ok_def)
  have tk: "tick k s" using assms(4) by (auto simp: tick_def slack_def)
  let ?x = "b i ! j" and ?p = "b i ! j + d"
  have n: "0 < length (b i)" "length bs = length (b i) - 1" using assms(5) by (auto simp: bs_def)
  obtain q where q: "zc_release m (length (b i)) ?p = Ok (m\<lparr>zc_retrieve := q\<rparr>, length (b i) - 1)" "q_wf q"
    "q_list q = q_list (zc_retrieve m) @ [?p]" "q_capacity q = q_capacity (zc_retrieve m)" "q_ticks (zc_retrieve m) \<le> Suc (q_ticks q)"
    using zc_release_ok [OF w t(2) n(1), of ?p] by blast
  let ?m = "m\<lparr>zc_retrieve := q\<rparr>"
  have x: "exact s ?x" using ok assms(5) by (simp add: conn_ok_def)
  note X = exact_add [OF x assms(6)]
  have bs: "mset (b i) = add_mset ?x (mset bs)" unfolding bs_def by (rule mset_take_drop [OF assms(5)])
  have sub: "set bs \<subseteq> set (b i)" by (auto simp: bs_def dest: in_set_takeD in_set_dropD)
  have "length (b i) = Suc (length bs)" using n by simp
  then have "zc_wf ?m (length bs)" using w q(2-4) by (simp add: zc_wf_def)
  then have ok': "conn_ok s ?m bs" using ok q(3) X(1) sub by (auto simp: conn_ok_def)
  have "pinv E (b(i := bs)) (s\<lparr>pub_connections := (pub_connections s)[i := Some ?m]\<rparr>)"
    using pinvD(2) [OF assms(1)] assms(3) q(3) bs X(2)
    by (intro pinv_move_idx [OF assms(1,2) _ ok']) (auto simp: slot_offs_def conn_offs_def)
  moreover have "tick k (s\<lparr>pub_connections := (pub_connections s)[i := Some ?m]\<rparr>)"
    using t(1) q(5) by (intro tick_move [OF tk assms(2)]) (auto simp: zc_ticks_def)
  moreover have "same s (s\<lparr>pub_connections := (pub_connections s)[i := Some ?m]\<rparr>)"
    using q(4) by (intro same_move [OF assms(2,3)]) (simp add: conn_static_def)
  ultimately show ?thesis using q(1) n(2) by (intro exI [of _ ?m]) simp
qed

end
