(* ===== verification/PubSub.thy ===== *)
theory PubSub
  imports SampleReferences
begin

text \<open>
  A publisher with its subscribers: every sequence of loans, sends, receives and releases. The theorems show
  that no call panics, that no chunk is given back while somebody holds it, and that a loan never runs out of memory. The calls
  of the participants do not overlap, and the list of subscribers does not change during the sequence.
\<close>

section \<open>The system\<close>

text \<open>\<open>Sys_send k\<close>, \<open>Sys_drop k\<close>: of the \<open>k\<close>-th loaned sample; \<open>Sys_release i k\<close>: of the \<open>k\<close>-th sample that subscriber
  \<open>i\<close> holds. Calls without such a sample do nothing.\<close>

datatype ps_op = Sys_loan | Sys_send nat | Sys_drop nat | Sys_receive nat | Sys_release nat nat

record 'id pubsub =
  ps_pub :: "'id publisher"
  ps_loaned :: "nat list"
  ps_counter :: "nat \<Rightarrow> usize"
  ps_segment :: "nat \<Rightarrow> shm_segment"
  ps_samples :: "nat \<Rightarrow> sample list"

definition ps_conn :: "'id pubsub \<Rightarrow> nat \<Rightarrow> zc_mgmt \<Rightarrow> sub_conn" where
  "ps_conn \<sigma> i m = \<lparr>sn_mgmt = m, sn_counter = ps_counter \<sigma> i, sn_segment = ps_segment \<sigma> i\<rparr>"

text \<open>The part of a subscriber that serves this publisher: a single connection.\<close>

definition ps_sub :: "sub_conn \<Rightarrow> unit subscriber" where
  "ps_sub c = \<lparr>sub_connections = [Some c], sub_publishers = \<lparr>cs_head = 0, cs_data = [], cs_active = []\<rparr>, sub_degration = None\<rparr>"

definition ps_update :: "'id pubsub \<Rightarrow> nat \<Rightarrow> sub_conn \<Rightarrow> sample list \<Rightarrow> 'id pubsub" where
  "ps_update \<sigma> i c smps =
     \<sigma>\<lparr>ps_pub := (ps_pub \<sigma>)\<lparr>pub_connections := (pub_connections (ps_pub \<sigma>))[i := Some (sn_mgmt c)]\<rparr>,
       ps_counter := (ps_counter \<sigma>)(i := sn_counter c), ps_samples := (ps_samples \<sigma>)(i := smps)\<rparr>"

definition remove_nth :: "nat \<Rightarrow> 'a list \<Rightarrow> 'a list" where
  "remove_nth k xs = take k xs @ drop (Suc k) xs"

text \<open>\<open>subs\<close> is the container of all subscribers, \<open>connect\<close> the creation of connections, \<open>d\<close> the offset of the payload in the message.\<close>

fun ps_do ::
  "(nat \<Rightarrow> 'id \<Rightarrow> (zc_creation_error, zc_mgmt) outcome) \<Rightarrow> 'id mpmc_container \<Rightarrow> usize \<Rightarrow> ps_op \<Rightarrow> 'id pubsub
     \<Rightarrow> (unit, 'id pubsub) outcome option" where
  "ps_do connect subs d Sys_loan \<sigma> =
     wbind (loan (ps_pub \<sigma>)) (\<lambda>(s, r).
       Some (Ok (\<sigma>\<lparr>ps_pub := s, ps_loaned := ps_loaned \<sigma> @ (case r of Inl _ \<Rightarrow> [] | Inr off \<Rightarrow> [off])\<rparr>)))"
| "ps_do connect subs d (Sys_send k) \<sigma> =
     (if k < length (ps_loaned \<sigma>)
      then wbind (pub_send connect subs (ps_pub \<sigma>) (ps_loaned \<sigma> ! k)) (\<lambda>(s, _).
        Some (Ok (\<sigma>\<lparr>ps_pub := s, ps_loaned := remove_nth k (ps_loaned \<sigma>)\<rparr>)))
      else Some (Ok \<sigma>))"
| "ps_do connect subs d (Sys_drop k) \<sigma> =
     (if k < length (ps_loaned \<sigma>)
      then Some (omap (\<lambda>s. \<sigma>\<lparr>ps_pub := s, ps_loaned := remove_nth k (ps_loaned \<sigma>)\<rparr>) (sample_mut_drop (ps_pub \<sigma>) (ps_loaned \<sigma> ! k)))
      else Some (Ok \<sigma>))"
| "ps_do connect subs d (Sys_receive i) \<sigma> =
     (if i < length (pub_connections (ps_pub \<sigma>))
      then (case pub_connections (ps_pub \<sigma>) ! i of
              None \<Rightarrow> Some (Ok \<sigma>)
            | Some m \<Rightarrow> Some (obind (receive_from_connection 0 (ps_conn \<sigma> i m)) (\<lambda>(c, r).
                Ok (ps_update \<sigma> i c (ps_samples \<sigma> i @ (case r of Inr (Some smp) \<Rightarrow> [smp] | _ \<Rightarrow> []))))))
      else Some (Ok \<sigma>))"
| "ps_do connect subs d (Sys_release i k) \<sigma> =
     (if i < length (pub_connections (ps_pub \<sigma>)) \<and> k < length (ps_samples \<sigma> i)
      then (case pub_connections (ps_pub \<sigma>) ! i of
              None \<Rightarrow> Some (Ok \<sigma>)
            | Some m \<Rightarrow> Some (obind (sample_drop d (ps_sub (ps_conn \<sigma> i m)) (ps_samples \<sigma> i ! k)) (\<lambda>s.
                case sub_connections s of
                  [Some c] \<Rightarrow> Ok (ps_update \<sigma> i c (remove_nth k (ps_samples \<sigma> i)))
                | _ \<Rightarrow> Panic)))
      else Some (Ok \<sigma>))"

primrec ps_run ::
  "(nat \<Rightarrow> 'id \<Rightarrow> (zc_creation_error, zc_mgmt) outcome) \<Rightarrow> 'id mpmc_container \<Rightarrow> usize \<Rightarrow> ps_op list \<Rightarrow> 'id pubsub
     \<Rightarrow> (unit, 'id pubsub) outcome option" where
  "ps_run connect subs d [] \<sigma> = Some (Ok \<sigma>)"
| "ps_run connect subs d (op # ops) \<sigma> = wbind (ps_do connect subs d op \<sigma>) (ps_run connect subs d ops)"

section \<open>Invariant\<close>

definition ps_start :: "'id pubsub \<Rightarrow> nat \<Rightarrow> nat" where
  "ps_start \<sigma> i = seg_base (ps_segment \<sigma> i) + seg_mgmt_size (ps_segment \<sigma> i)"

definition ps_held :: "'id pubsub \<Rightarrow> nat \<Rightarrow> nat list" where
  "ps_held \<sigma> i = map (\<lambda>smp. sm_ptr smp - ps_start \<sigma> i) (ps_samples \<sigma> i)"

text \<open>\<open>s0\<close> is the publisher at the start. All references to samples, as chunk indices.\<close>

definition ps_refs :: "'id pubsub \<Rightarrow> nat multiset" where
  "ps_refs \<sigma> = refs (mset (ps_loaned \<sigma>)) (ps_held \<sigma>) (ps_pub \<sigma>)"

definition ps_inv :: "'id publisher \<Rightarrow> usize \<Rightarrow> 'id mpmc_container \<Rightarrow> 'id pubsub \<Rightarrow> bool" where
  "ps_inv s0 d subs \<sigma> \<longleftrightarrow> (let s = ps_pub \<sigma> in
     same s0 s \<and> pinv (mset (ps_loaned \<sigma>)) (ps_held \<sigma>) s \<and> (\<forall>off \<in> set (ps_loaned \<sigma>). exact s off)
     \<and> unat (pub_loans s) = length (ps_loaned \<sigma>) \<and> length (ps_loaned \<sigma>) \<le> pub_max_loaned s
     \<and> pub_max_loaned s + caps s + 1 < 2 ^ 64 \<and> length (pub_connections s) < usize_lim
     \<and> pub_gap s + d < pub_size s \<and> cs_head (pub_subscribers s) = u_head (mc_index_set subs)
     \<and> (\<forall>i < length (pub_connections s). ps_counter \<sigma> i = length (ps_samples \<sigma> i)
          \<and> ps_start \<sigma> i + (length (pub_counter s) + 1) * pub_size s < usize_lim
          \<and> (\<forall>smp \<in> set (ps_samples \<sigma> i). sm_channel_id smp = 0 \<and> ps_start \<sigma> i \<le> sm_ptr smp)))"


lemma tick_mono: "tick (Suc k) s \<Longrightarrow> tick k s"
  by (auto simp: tick_def slack_def)

lemma drop_ok:
  assumes "pinv (add_mset off E) b s"
  shows "\<exists>s'. sample_mut_drop s off = (Ok s' :: ('e, _) outcome) \<and> pinv E b s' \<and> same s s' \<and> (\<forall>k. tick k s \<longrightarrow> tick k s')
    \<and> pub_loans s' = pub_loans s - 1 \<and> pub_subscribers s' = pub_subscribers s"
proof -
  obtain c seg where r: "release_sample s off = (Ok (s\<lparr>pub_counter := c, pub_segment := seg\<rparr>) :: ('e, _) outcome)"
    "pinv E b (s\<lparr>pub_counter := c, pub_segment := seg\<rparr>)" "same s (s\<lparr>pub_counter := c, pub_segment := seg\<rparr>)"
    "\<forall>k. tick k s \<longrightarrow> tick k (s\<lparr>pub_counter := c, pub_segment := seg\<rparr>)"
    using pinv_release [OF assms, where ?'e = 'e] by blast
  let ?s = "s\<lparr>pub_counter := c, pub_segment := seg\<rparr>" and ?t = "s\<lparr>pub_counter := c, pub_segment := seg, pub_loans := pub_loans s - 1\<rparr>"
  have eq: "same ?s ?t" by (simp add: same_def pub_gap_def)
  have "counted ?t R = counted ?s R" for R by (simp add: counted_def slack_def)
  then have "pinv E b ?t" using r(2) by (simp add: pinv_def hist_ok_def conns_ok_def refs_def same_offsets [OF eq] hist_list_def)
  moreover have "\<forall>k. tick k s \<longrightarrow> tick k ?t" using r(4) by (auto simp: tick_def slack_def)
  ultimately show ?thesis using r(1) same_trans [OF r(3) eq] by (intro exI [of _ ?t]) (simp add: sample_mut_drop_def)
qed

lemma send_ok:
  assumes "pinv (add_mset off E) b s" and "exact s off" and "tick (Suc k) s" and "size E + caps s + 2 < 2 ^ 64"
    and "length (pub_connections s) < usize_lim" and "cs_head (pub_subscribers s) = u_head (mc_index_set subs)"
  shows "pub_send connect subs s off = (None :: ('e, 'id publisher \<times> (zc_creation_error + nat)) outcome option) \<and> pub_strategy s = Block
    \<or> (\<exists>s' n. pub_send connect subs s off = (Some (Ok (s', Inr n)) :: ('e, 'id publisher \<times> (zc_creation_error + nat)) outcome option)
         \<and> pinv E b s' \<and> tick k s' \<and> same s s' \<and> pub_loans s' = pub_loans s - 1 \<and> pub_subscribers s' = pub_subscribers s)"
proof -
  let ?E = "add_mset off E"
  have upd: "update_connections connect subs s = (Some (Ok (s, Inr ())) :: ('e, _) outcome option)"
    by (simp add: update_connections_def update_state_unchanged [OF assms(6)] Let_def)
  have bd: "size ?E + caps s + 1 < 2 ^ 64" using assms(4) by simp
  obtain s1 where s1: "add_to_history s off = (Ok s1 :: ('e, _) outcome)" "pinv ?E b s1" "tick k s1" "same s s1"
    "pub_connections s1 = pub_connections s" "pub_loans s1 = pub_loans s" "pub_subscribers s1 = pub_subscribers s"
    using add_to_history_ok [OF assms(1) _ assms(2,3) bd, where ?'e = 'e] by auto
  have prem: "exact s1 off" "size ?E + caps s1 + 1 < 2 ^ 64" "0 + length [0 ..< length (pub_connections s1)] < usize_lim"
      "\<forall>i \<in> set [0 ..< length (pub_connections s1)]. \<forall>m. pub_connections s1 ! i = Some m \<longrightarrow> Suc k \<le> zc_ticks m"
    using assms(2,3,5) bd same_offsets [OF s1(4)] same_caps [OF s1(4)] s1(5) by (auto simp: tick_def)
  have sub: "set [0 ..< length (pub_connections s1)] \<subseteq> {..< length (pub_connections s1)}" by auto
  have "off \<in># ?E" by simp
  from deliver_fold_ok [OF s1(2) this prem(1) sub distinct_upt s1(3) prem(4,2,3), where ?'e = 'e, folded deliver_sample_def]
  consider (wait) "deliver_sample s1 off = (None :: ('e, 'id publisher \<times> nat) outcome option)" "pub_strategy s1 = Block"
    | (go) s2 n where "deliver_sample s1 off = Some (Ok (s2, n) :: ('e, _) outcome)" "pinv ?E b s2" "tick k s2" "quiet s1 s2"
    by metis
  then show ?thesis
  proof cases
    case wait
    then show ?thesis using upd s1(1,4) by (intro disjI1) (simp add: pub_send_def send_impl_def same_def)
  next
    case go
    obtain s3 where s3: "sample_mut_drop s2 off = (Ok s3 :: ('e, _) outcome)" "pinv E b s3" "same s2 s3" "tick k s3"
      "pub_loans s3 = pub_loans s2 - 1" "pub_subscribers s3 = pub_subscribers s2"
      using drop_ok [OF go(2), where ?'e = 'e] go(3) by blast
    have "same s s3" "pub_loans s3 = pub_loans s - 1" "pub_subscribers s3 = pub_subscribers s"
      using s1(4,6,7) go(4) s3(3,5,6) by (auto simp: quiet_def intro: same_trans)
    then show ?thesis using upd s1(1) go(1) s3(1,2,4) by (intro disjI2 exI [of _ s3] exI [of _ n]) (simp add: pub_send_def send_impl_def)
  qed
qed


section \<open>Every call keeps the invariant\<close>

lemma ps_invD:
  assumes "ps_inv s0 d subs \<sigma>"
  shows "pinv (mset (ps_loaned \<sigma>)) (ps_held \<sigma>) (ps_pub \<sigma>)" and "off \<in> set (ps_loaned \<sigma>) \<Longrightarrow> exact (ps_pub \<sigma>) off"
    and "unat (pub_loans (ps_pub \<sigma>)) = length (ps_loaned \<sigma>)" and "length (ps_loaned \<sigma>) \<le> pub_max_loaned (ps_pub \<sigma>)"
    and "pub_max_loaned (ps_pub \<sigma>) + caps (ps_pub \<sigma>) + 1 < 2 ^ 64" and "length (pub_connections (ps_pub \<sigma>)) < usize_lim"
    and "pub_gap (ps_pub \<sigma>) + d < pub_size (ps_pub \<sigma>)" and "cs_head (pub_subscribers (ps_pub \<sigma>)) = u_head (mc_index_set subs)"
    and "i < length (pub_connections (ps_pub \<sigma>)) \<Longrightarrow> ps_counter \<sigma> i = length (ps_samples \<sigma> i)
          \<and> ps_start \<sigma> i + (length (pub_counter (ps_pub \<sigma>)) + 1) * pub_size (ps_pub \<sigma>) < usize_lim
          \<and> (\<forall>smp \<in> set (ps_samples \<sigma> i). sm_channel_id smp = 0 \<and> ps_start \<sigma> i \<le> sm_ptr smp)"
    and "same s0 (ps_pub \<sigma>)"
  using assms by (auto simp: ps_inv_def Let_def)

lemma ps_inv_publisher:
  assumes "ps_inv s0 d subs \<sigma>" and "same (ps_pub \<sigma>) s" and "pinv (mset l) (ps_held \<sigma>) s" and "\<forall>off \<in> set l. exact (ps_pub \<sigma>) off"
    and "unat (pub_loans s) = length l" and "length l \<le> pub_max_loaned (ps_pub \<sigma>)" and "pub_subscribers s = pub_subscribers (ps_pub \<sigma>)"
  shows "ps_inv s0 d subs (\<sigma>\<lparr>ps_pub := s, ps_loaned := l\<rparr>)"
proof -
  let ?\<tau> = "\<sigma>\<lparr>ps_pub := s, ps_loaned := l\<rparr>"
  have h: "ps_held ?\<tau> = ps_held \<sigma>" "ps_start ?\<tau> = ps_start \<sigma>" by (simp_all add: ps_held_def ps_start_def fun_eq_iff)
  have f: "length (pub_counter s) = length (pub_counter (ps_pub \<sigma>))" "pub_gap s = pub_gap (ps_pub \<sigma>)" "pub_layout s = pub_layout (ps_pub \<sigma>)"
    "pub_max_loaned s = pub_max_loaned (ps_pub \<sigma>)" using assms(2) by (simp_all add: same_def)
  show ?thesis
    using ps_invD(5-9) [OF assms(1)] same_trans [OF ps_invD(10) [OF assms(1)] assms(2)] assms(3-7) same_offsets [OF assms(2)] same_conns [OF assms(2)] same_caps [OF assms(2)]
    unfolding ps_inv_def Let_def h by (simp add: f)
qed

lemma ps_loan_inv:
  assumes "ps_inv s0 d subs \<sigma>" and "tick (Suc k) (ps_pub \<sigma>)"
  shows "\<exists>\<tau>. ps_do connect subs d Sys_loan \<sigma> = Some (Ok \<tau>) \<and> ps_inv s0 d subs \<tau> \<and> tick k (ps_pub \<tau>)"
proof -
  let ?s = "ps_pub \<sigma>"
  obtain s' r where l: "loan ?s = Some (Ok (s', r) :: (unit, _) outcome)" "same ?s s'" "tick k s'" and sub: "pub_subscribers s' = pub_subscribers ?s"
    and c: "case r of Inl e \<Rightarrow> pinv (mset (ps_loaned \<sigma>)) (ps_held \<sigma>) s' \<and> pub_loans s' = pub_loans ?s
      | Inr off \<Rightarrow> pinv (add_mset off (mset (ps_loaned \<sigma>))) (ps_held \<sigma>) s' \<and> pub_loans s' = pub_loans ?s + 1
          \<and> unat (pub_loans ?s) < pub_max_loaned ?s \<and> exact s' off"
  proof -
    from loan_ok [OF ps_invD(1) [OF assms(1)] assms(2), where ?'e = unit] show thesis
      by (elim exE conjE) (rule that, assumption+, auto split: sum.splits)
  qed
  note D = ps_invD [OF assms(1)]
  show ?thesis
  proof (cases r)
    case (Inl e)
    then show ?thesis using l c ps_inv_publisher [OF assms(1) l(2), of "ps_loaned \<sigma>"] D(2-4) sub by auto
  next
    case (Inr off)
    have "unat (pub_loans ?s + 1) = Suc (length (ps_loaned \<sigma>))" using D(3-5) u64_Suc [of "pub_loans ?s"] by simp
    then show ?thesis using Inr l c ps_inv_publisher [OF assms(1) l(2), of "ps_loaned \<sigma> @ [off]"] D(2-4) sub same_offsets [OF l(2)] by auto
  qed
qed

lemma remove_nth_mset: "k < length xs \<Longrightarrow> mset xs = add_mset (xs ! k) (mset (remove_nth k xs))"
  unfolding remove_nth_def by (rule mset_take_drop)

lemma remove_nth_set: "set (remove_nth k xs) \<subseteq> set xs"
  by (auto simp: remove_nth_def dest: in_set_takeD in_set_dropD)

lemma length_remove_nth: "k < length xs \<Longrightarrow> length (remove_nth k xs) = length xs - 1"
  by (simp add: remove_nth_def)

lemma loans_pred:
  assumes "unat x = length l" and "j < length l"
  shows "unat (x - 1 :: u64) = length (remove_nth j l)"
proof -
  have "0 < unat x" using assms by linarith
  then show ?thesis using u64_pred [of x] assms length_remove_nth [of j l] by simp
qed

lemma ps_send_inv:
  assumes "ps_inv s0 d subs \<sigma>" and "tick (Suc k) (ps_pub \<sigma>)"
  shows "ps_do connect subs d (Sys_send j) \<sigma> = None \<and> pub_strategy (ps_pub \<sigma>) = Block
    \<or> (\<exists>\<tau>. ps_do connect subs d (Sys_send j) \<sigma> = Some (Ok \<tau>) \<and> ps_inv s0 d subs \<tau> \<and> tick k (ps_pub \<tau>))"
proof (cases "j < length (ps_loaned \<sigma>)")
  case False
  then show ?thesis using assms tick_mono by auto
next
  case True
  let ?s = "ps_pub \<sigma>" and ?off = "ps_loaned \<sigma> ! j" and ?l = "remove_nth j (ps_loaned \<sigma>)"
  note D = ps_invD [OF assms(1)]
  have p: "pinv (add_mset ?off (mset ?l)) (ps_held \<sigma>) ?s" using D(1) remove_nth_mset [OF True] by simp
  have bd: "size (mset ?l) + caps ?s + 2 < 2 ^ 64" using D(4,5) True length_remove_nth [OF True] by simp
  have ex: "exact ?s ?off" using D(2) True by simp
  from send_ok [OF p ex assms(2) bd D(6,8), of connect, where ?'e = unit]
  consider (wait) "pub_send connect subs ?s ?off = (None :: (unit, _) outcome option)" "pub_strategy ?s = Block"
    | (go) s' n where "pub_send connect subs ?s ?off = (Some (Ok (s', Inr n)) :: (unit, _) outcome option)" "pinv (mset ?l) (ps_held \<sigma>) s'"
      "tick k s'" "same ?s s'" "pub_loans s' = pub_loans ?s - 1" "pub_subscribers s' = pub_subscribers ?s" by metis
  then show ?thesis
  proof cases
    case wait
    then show ?thesis using True by simp
  next
    case go
    have "unat (pub_loans s') = length ?l" using go(5) loans_pred [OF D(3) True] by simp
    then have "ps_inv s0 d subs (\<sigma>\<lparr>ps_pub := s', ps_loaned := ?l\<rparr>)"
      using D(2,4) remove_nth_set [of j "ps_loaned \<sigma>"] length_remove_nth [OF True] go(2,4,6)
      by (intro ps_inv_publisher [OF assms(1)]) auto
    then show ?thesis using True go(1,3) by simp
  qed
qed

lemma ps_drop_inv:
  assumes "ps_inv s0 d subs \<sigma>" and "tick (Suc k) (ps_pub \<sigma>)"
  shows "\<exists>\<tau>. ps_do connect subs d (Sys_drop j) \<sigma> = Some (Ok \<tau>) \<and> ps_inv s0 d subs \<tau> \<and> tick k (ps_pub \<tau>)"
proof (cases "j < length (ps_loaned \<sigma>)")
  case False
  then show ?thesis using assms tick_mono by auto
next
  case True
  let ?s = "ps_pub \<sigma>" and ?off = "ps_loaned \<sigma> ! j" and ?l = "remove_nth j (ps_loaned \<sigma>)"
  note D = ps_invD [OF assms(1)]
  have p: "pinv (add_mset ?off (mset ?l)) (ps_held \<sigma>) ?s" using D(1) remove_nth_mset [OF True] by simp
  obtain s' where s': "sample_mut_drop ?s ?off = (Ok s' :: (unit, _) outcome)" "pinv (mset ?l) (ps_held \<sigma>) s'" "same ?s s'" "tick k s'"
    "pub_loans s' = pub_loans ?s - 1" "pub_subscribers s' = pub_subscribers ?s"
    using drop_ok [OF p, where ?'e = unit] tick_mono [OF assms(2)] by blast
  have "unat (pub_loans s') = length ?l" using s'(5) loans_pred [OF D(3) True] by simp
  then have "ps_inv s0 d subs (\<sigma>\<lparr>ps_pub := s', ps_loaned := ?l\<rparr>)"
    using D(2,4) remove_nth_set [of j "ps_loaned \<sigma>"] length_remove_nth [OF True] s'(2,3,6)
    by (intro ps_inv_publisher [OF assms(1)]) auto
  then show ?thesis using True s'(1,4) by simp
qed


lemma pub_gap_connections: "pub_gap (s\<lparr>pub_connections := x\<rparr>) = pub_gap s"
  by (simp add: pub_gap_def)

lemma ps_inv_subscriber:
  fixes \<sigma> :: "'id pubsub"
  assumes "ps_inv s0 d subs \<sigma>" and "i < length (pub_connections (ps_pub \<sigma>))"
    and "pinv (mset (ps_loaned \<sigma>)) ((ps_held \<sigma>)(i := map (\<lambda>smp. sm_ptr smp - ps_start \<sigma> i) smps))
      ((ps_pub \<sigma>)\<lparr>pub_connections := (pub_connections (ps_pub \<sigma>))[i := Some (sn_mgmt c)]\<rparr>)"
    and "same (ps_pub \<sigma>) ((ps_pub \<sigma>)\<lparr>pub_connections := (pub_connections (ps_pub \<sigma>))[i := Some (sn_mgmt c)]\<rparr>)"
    and "sn_counter c = length smps" and "\<forall>smp \<in> set smps. sm_channel_id smp = 0 \<and> ps_start \<sigma> i \<le> sm_ptr smp"
  shows "ps_inv s0 d subs (ps_update \<sigma> i c smps)"
proof -
  let ?\<tau> = "ps_update \<sigma> i c smps"
  have h: "ps_start ?\<tau> = ps_start \<sigma>" "ps_held ?\<tau> = (ps_held \<sigma>)(i := map (\<lambda>smp. sm_ptr smp - ps_start \<sigma> i) smps)"
    by (auto simp: ps_held_def ps_start_def ps_update_def fun_eq_iff)
  show ?thesis
    using ps_invD(2-9) [OF assms(1)] same_trans [OF ps_invD(10) [OF assms(1)] assms(4)] assms(3,5,6) same_offsets [OF assms(4)] same_caps [OF assms(4)]
    unfolding ps_inv_def Let_def h by (auto simp: ps_update_def pub_gap_connections)
qed

lemma exact_bound:
  assumes "exact s off" and "pub_gap s < pub_size s"
  shows "off < length (pub_counter s) * pub_size s"
proof -
  have "off = idx s off * pub_size s + pub_gap s" using assms(1) div_mult_mod_eq [of off "pub_size s"] by (simp add: exact_def idx_def)
  moreover have "Suc (idx s off) * pub_size s \<le> length (pub_counter s) * pub_size s" using assms(1) by (intro mult_le_mono1) (simp add: exact_def)
  ultimately show ?thesis using assms(2) by simp
qed

lemma ps_receive_inv:
  assumes "ps_inv s0 d subs \<sigma>" and "tick (Suc k) (ps_pub \<sigma>)"
  shows "\<exists>\<tau>. ps_do connect subs d (Sys_receive i) \<sigma> = Some (Ok \<tau>) \<and> ps_inv s0 d subs \<tau> \<and> tick k (ps_pub \<tau>)"
proof (cases "i < length (pub_connections (ps_pub \<sigma>)) \<and> pub_connections (ps_pub \<sigma>) ! i \<noteq> None")
  case False
  then show ?thesis using assms tick_mono by auto
next
  case True
  let ?s = "ps_pub \<sigma>" and ?b = "ps_held \<sigma>"
  note D = ps_invD [OF assms(1)]
  obtain m where i: "i < length (pub_connections ?s)" and m: "pub_connections ?s ! i = Some m" using True by auto
  note I = D(9) [OF i]
  have cnt: "ps_counter \<sigma> i = length (?b i)" using I by (simp add: ps_held_def)
  from receive_moves [OF D(1) i m assms(2)] consider (full) "zc_recv m (length (?b i)) = Err ReceiveWouldExceedMaxBorrowValue"
    | (got) m' r where "zc_recv m (length (?b i)) = Ok (m', length (?b i @ opt_list r), r)"
      "pinv (mset (ps_loaned \<sigma>)) (?b(i := ?b i @ opt_list r)) (?s\<lparr>pub_connections := (pub_connections ?s)[i := Some m']\<rparr>)"
      "tick k (?s\<lparr>pub_connections := (pub_connections ?s)[i := Some m']\<rparr>)" "same ?s (?s\<lparr>pub_connections := (pub_connections ?s)[i := Some m']\<rparr>)"
      "\<forall>x \<in> set (opt_list r). exact ?s x" by metis
  then show ?thesis
  proof cases
    case full
    have u: "ps_update \<sigma> i (ps_conn \<sigma> i m) (ps_samples \<sigma> i) = \<sigma>"
      using m list_update_id [of "pub_connections ?s" i] by (simp add: ps_update_def ps_conn_def)
    have "receive_from_connection 0 (ps_conn \<sigma> i m) = (Ok (ps_conn \<sigma> i m, Inl ExceedsMaxBorrowedSamples) :: (unit, _) outcome)"
      using full cnt by (simp add: receive_from_connection_def ps_conn_def)
    then show ?thesis using i m u assms tick_mono by simp
  next
    case got
    let ?c = "(ps_conn \<sigma> i m)\<lparr>sn_mgmt := m', sn_counter := length (?b i @ opt_list r)\<rparr>"
    let ?new = "map (\<lambda>x. \<lparr>sm_channel_id = 0, sm_ptr = x + ps_start \<sigma> i\<rparr>) (opt_list r)"
    have st: "allocator_data_start_address (ps_segment \<sigma> i) = (Ok (ps_start \<sigma> i) :: (unit, _) outcome)"
      using I by (simp add: allocator_data_start_address_def ps_start_def)
    have sum: "x + ps_start \<sigma> i < usize_lim" if "x \<in> set (opt_list r)" for x
      using exact_bound [of ?s x] got(5) that D(7) I by auto
    have rc: "receive_from_connection 0 (ps_conn \<sigma> i m) =
        (Ok (?c, Inr (map_option (\<lambda>x. \<lparr>sm_channel_id = 0, sm_ptr = x + ps_start \<sigma> i\<rparr>) r)) :: (unit, _) outcome)"
      using got(1) cnt st sum by (auto simp: receive_from_connection_def ps_conn_def opt_list_def split: option.splits)
    have held: "map (\<lambda>smp. sm_ptr smp - ps_start \<sigma> i) (ps_samples \<sigma> i @ ?new) = ?b i @ opt_list r" by (simp add: ps_held_def comp_def)
    have "ps_inv s0 d subs (ps_update \<sigma> i ?c (ps_samples \<sigma> i @ ?new))"
    proof (rule ps_inv_subscriber [OF assms(1) i])
      show "sn_counter ?c = length (ps_samples \<sigma> i @ ?new)" using cnt I by (simp add: ps_conn_def)
    qed (use got(2,4) held I in \<open>auto simp: ps_conn_def\<close>)
    moreover have "ps_do connect subs d (Sys_receive i) \<sigma> = Some (Ok (ps_update \<sigma> i ?c (ps_samples \<sigma> i @ ?new)))"
      using i m rc by (cases r) (auto simp: opt_list_def)
    ultimately show ?thesis using got(3) by (auto simp: ps_update_def)
  qed
qed

lemma ps_release_inv:
  assumes "ps_inv s0 d subs \<sigma>" and "tick (Suc k) (ps_pub \<sigma>)"
  shows "\<exists>\<tau>. ps_do connect subs d (Sys_release i j) \<sigma> = Some (Ok \<tau>) \<and> ps_inv s0 d subs \<tau> \<and> tick k (ps_pub \<tau>)"
proof (cases "i < length (pub_connections (ps_pub \<sigma>)) \<and> j < length (ps_samples \<sigma> i) \<and> pub_connections (ps_pub \<sigma>) ! i \<noteq> None")
  case False
  then show ?thesis using assms tick_mono by auto
next
  case True
  let ?s = "ps_pub \<sigma>" and ?b = "ps_held \<sigma>" and ?smp = "ps_samples \<sigma> i ! j"
  note D = ps_invD [OF assms(1)]
  obtain m where i: "i < length (pub_connections ?s)" and m: "pub_connections ?s ! i = Some m" and j: "j < length (?b i)"
    using True by (auto simp: ps_held_def)
  note I = D(9) [OF i]
  have cnt: "ps_counter \<sigma> i = length (?b i)" using I by (simp add: ps_held_def)
  have mem: "?smp \<in> set (ps_samples \<sigma> i)" using True by simp
  then have smp: "sm_channel_id ?smp = 0" "ps_start \<sigma> i \<le> sm_ptr ?smp" using I by auto
  have bj: "?b i ! j = sm_ptr ?smp - ps_start \<sigma> i" using True by (simp add: ps_held_def)
  let ?bs = "take j (?b i) @ drop (Suc j) (?b i)"
  obtain m' where r: "zc_release m (length (?b i)) (?b i ! j + d) = Ok (m', length ?bs)"
    "pinv (mset (ps_loaned \<sigma>)) (?b(i := ?bs)) (?s\<lparr>pub_connections := (pub_connections ?s)[i := Some m']\<rparr>)"
    "tick k (?s\<lparr>pub_connections := (pub_connections ?s)[i := Some m']\<rparr>)" "same ?s (?s\<lparr>pub_connections := (pub_connections ?s)[i := Some m']\<rparr>)"
    using release_moves [OF D(1) i m assms(2) j D(7)] by blast
  let ?c = "(ps_conn \<sigma> i m)\<lparr>sn_mgmt := m', sn_counter := length ?bs\<rparr>"
  have "conn_ok ?s m (?b i)" using D(1) i m by (simp add: pinv_def conns_ok_def)
  then have "exact ?s (?b i ! j)" using j by (simp add: conn_ok_def)
  then have "?b i ! j < length (pub_counter ?s) * pub_size ?s" using D(7) by (intro exact_bound) auto
  moreover have "ps_start \<sigma> i + (pub_size ?s + length (pub_counter ?s) * pub_size ?s) < usize_lim" using I by simp
  ultimately have lim: "sm_ptr ?smp + d < usize_lim" using bj smp(2) D(7) by linarith
  have st: "allocator_data_start_address (ps_segment \<sigma> i) = (Ok (ps_start \<sigma> i) :: (unit, _) outcome)"
    using I by (simp add: allocator_data_start_address_def ps_start_def)
  have dist: "sm_ptr ?smp + d - ps_start \<sigma> i = ?b i ! j + d" using smp(2) bj by simp
  have "sample_drop d (ps_sub (ps_conn \<sigma> i m)) ?smp = (Ok (ps_sub ?c) :: (unit, _) outcome)"
    using lim smp st r(1) cnt dist
    by (simp add: sample_drop_def sample_as_ptr_def sub_release_sample_def ps_sub_def ps_conn_def Let_def)
  then have "ps_do connect subs d (Sys_release i j) \<sigma> = Some (Ok (ps_update \<sigma> i ?c (remove_nth j (ps_samples \<sigma> i))))"
    using True m by (auto simp: ps_sub_def)
  moreover have "ps_inv s0 d subs (ps_update \<sigma> i ?c (remove_nth j (ps_samples \<sigma> i)))"
  proof (rule ps_inv_subscriber [OF assms(1) i])
    have "map (\<lambda>smp. sm_ptr smp - ps_start \<sigma> i) (remove_nth j (ps_samples \<sigma> i)) = ?bs"
      by (simp add: remove_nth_def ps_held_def take_map drop_map)
    then show "pinv (mset (ps_loaned \<sigma>)) (?b(i := map (\<lambda>smp. sm_ptr smp - ps_start \<sigma> i) (remove_nth j (ps_samples \<sigma> i))))
      (?s\<lparr>pub_connections := (pub_connections ?s)[i := Some (sn_mgmt ?c)]\<rparr>)" using r(2) by simp
    show "sn_counter ?c = length (remove_nth j (ps_samples \<sigma> i))" by (simp add: remove_nth_def ps_held_def)
    show "\<forall>smp \<in> set (remove_nth j (ps_samples \<sigma> i)). sm_channel_id smp = 0 \<and> ps_start \<sigma> i \<le> sm_ptr smp"
      using I remove_nth_set [of j "ps_samples \<sigma> i"] by auto
  qed (use r(4) in simp)
  ultimately show ?thesis using r(3) by (auto simp: ps_update_def)
qed


lemma ps_run_inv:
  assumes "ps_inv s0 d subs \<sigma>" and "tick (length ops + k) (ps_pub \<sigma>)"
  shows "ps_run connect subs d ops \<sigma> = None \<and> pub_strategy s0 = Block
    \<or> (\<exists>\<tau>. ps_run connect subs d ops \<sigma> = Some (Ok \<tau>) \<and> ps_inv s0 d subs \<tau> \<and> tick k (ps_pub \<tau>))"
  using assms
proof (induction ops arbitrary: \<sigma>)
  case (Cons op ops)
  have t: "tick (Suc (length ops + k)) (ps_pub \<sigma>)" using Cons.prems(2) by simp
  have st: "pub_strategy (ps_pub \<sigma>) = pub_strategy s0" using ps_invD(10) [OF Cons.prems(1)] by (simp add: same_def)
  have "ps_do connect subs d op \<sigma> = None \<and> pub_strategy s0 = Block
    \<or> (\<exists>\<tau>. ps_do connect subs d op \<sigma> = Some (Ok \<tau>) \<and> ps_inv s0 d subs \<tau> \<and> tick (length ops + k) (ps_pub \<tau>))"
  proof (cases op)
    case (Sys_send j)
    then show ?thesis using ps_send_inv [OF Cons.prems(1) t, of connect j] st by metis
  qed (metis ps_loan_inv [OF Cons.prems(1) t] ps_drop_inv [OF Cons.prems(1) t] ps_receive_inv [OF Cons.prems(1) t] ps_release_inv [OF Cons.prems(1) t])+
  then show ?case
  proof (elim disjE exE conjE)
    fix \<tau> assume "ps_do connect subs d op \<sigma> = Some (Ok \<tau>)" "ps_inv s0 d subs \<tau>" "tick (length ops + k) (ps_pub \<tau>)"
    then show ?thesis using Cons.IH [of \<tau>] by simp
  qed simp
qed simp

section \<open>There is always a free chunk\<close>

text \<open>A connection whose returned samples have been fetched holds at most buffer size plus maximum borrowed samples references.\<close>

definition conn_max :: "(usize \<times> usize \<times> usize \<times> bool) option \<Rightarrow> nat" where
  "conn_max c = (case c of None \<Rightarrow> 0 | Some (buf, _, borrowed, _) \<Rightarrow> buf + borrowed)"

definition refs_max :: "'id publisher \<Rightarrow> nat" where
  "refs_max s = (case map_option cq_capacity (pub_history s) of None \<Rightarrow> 0 | Some n \<Rightarrow> n)
     + sum_list (map conn_max (map (map_option conn_static) (pub_connections s)))"

lemma same_refs_max: "same s s' \<Longrightarrow> refs_max s' = refs_max s"
  unfolding refs_max_def same_def by presburger

lemma drained_refs_size:
  assumes "pinv E b s" and "\<forall>i < length (pub_connections s). drained (pub_connections s ! i)"
  shows "size (refs E b s) \<le> size E + refs_max s"
proof -
  have "size (slot_offs (pub_connections s) b i) \<le> conn_max (map_option conn_static (pub_connections s ! i))" if "i < length (pub_connections s)" for i
  proof (cases "pub_connections s ! i")
    case (Some m)
    then have "zc_wf m (length (b i))" "q_list (zc_retrieve m) = []"
      using pinvD(4) [OF assms(1)] assms(2) that by (auto simp: conns_ok_def conn_ok_def drained_def)
    moreover from this have "length (oq_list (zc_receive m)) \<le> o_capacity (zc_receive m)" using oq.over_cap by (simp add: zc_wf_def)
    ultimately show ?thesis using Some by (simp add: slot_offs_def conn_offs_def conn_max_def conn_static_def zc_wf_def)
  qed (simp add: slot_offs_def)
  then have "size (conns_offs (pub_connections s) b) \<le> (\<Sum>i < length (pub_connections s). conn_max (map_option conn_static (pub_connections s ! i)))"
    unfolding conns_offs_def size_sum_multiset [OF finite_lessThan] by (intro sum_mono) simp
  moreover have "\<dots> = sum_list (map conn_max (map (map_option conn_static) (pub_connections s)))"
    by (simp add: sum_list_sum_nth atLeast0LessThan)
  moreover have "length (hist_list s) \<le> (case map_option cq_capacity (pub_history s) of None \<Rightarrow> 0 | Some n \<Rightarrow> n)"
    using pinvD(3) [OF assms(1)] cq.list_cap by (auto simp: hist_list_def hist_ok_def split: option.split)
  ultimately show ?thesis by (simp add: refs_def refs_max_def)
qed

lemma all_used_size:
  assumes "counted s R" and "seg_free (pub_segment s) = []"
  shows "length (pub_counter s) \<le> size R"
proof -
  have "{..< length (pub_counter s)} \<subseteq> set_mset R"
  proof
    fix i assume "i \<in> {..< length (pub_counter s)}"
    then have "count R i \<noteq> 0" using countedD(4) [OF assms(1), of i] assms(2) by simp
    then show "i \<in> set_mset R" by (simp add: count_eq_zero_iff)
  qed
  then have "card {..< length (pub_counter s)} \<le> card (set_mset R)" by (intro card_mono) simp_all
  moreover have "card (set_mset R) \<le> size R"
  proof (induction R)
    case (add x R)
    then show ?case by (cases "x \<in># R") (simp_all add: insert_absorb)
  qed simp
  ultimately show ?thesis by simp
qed

lemma loan_never_out_of_memory:
  assumes "pinv E b s" and "tick (Suc k) s" and "unat (pub_loans s) = size E" and "refs_max s + pub_max_loaned s \<le> length (pub_counter s)"
  shows "loan s \<noteq> Some (Ok (s', Inl Loan_OutOfMemory) :: ('e, _) outcome)"
proof
  assume "loan s = Some (Ok (s', Inl Loan_OutOfMemory) :: ('e, _) outcome)"
  then have sm: "same s s'" and p: "pinv E b s'" and room: "unat (pub_loans s) < pub_max_loaned s" and f: "seg_free (pub_segment s') = []"
    and dr: "\<forall>i < length (pub_connections s'). drained (pub_connections s' ! i)"
    using loan_ok [OF assms(1,2), where ?'e = 'e] by (auto split: if_splits)
  have "length (pub_counter s') \<le> size E + refs_max s'"
    using all_used_size [OF pinvD(1) [OF p] f] drained_refs_size [OF p dr] by linarith
  then show False using sm room assms(3,4) same_refs_max [OF sm] by (simp add: same_def)
qed


section \<open>The start\<close>

text \<open>A publisher right after its creation, with both ports of a fresh connection attached for every set flag in \<open>conn\<close>.\<close>

definition pub_fresh ::
  "static_config \<Rightarrow> layout \<Rightarrow> usize \<Rightarrow> usize \<Rightarrow> unable_to_deliver_strategy \<Rightarrow> shm_segment \<Rightarrow> bool list \<Rightarrow> 'id container_state \<Rightarrow> 'id publisher" where
  "pub_fresh cfg l n max_loaned strategy seg conn st =
     \<lparr>pub_counter = replicate n 0, pub_segment = seg,
      pub_connections = map (\<lambda>c. if c then Some ((zc_fresh (connection_builder cfg))\<lparr>zc_state := 3\<rparr>) else None) conn,
      pub_subscribers = st, pub_history = (if sc_history_size cfg = 0 then None else Some (cq_new (sc_history_size cfg))),
      pub_loans = 0, pub_max_loaned = max_loaned, pub_strategy = strategy, pub_degration = None, pub_layout = l\<rparr>"

definition ps_fresh :: "'id publisher \<Rightarrow> (nat \<Rightarrow> shm_segment) \<Rightarrow> 'id pubsub" where
  "ps_fresh s segs = \<lparr>ps_pub = s, ps_loaned = [], ps_counter = (\<lambda>_. 0), ps_segment = segs, ps_samples = (\<lambda>_. [])\<rparr>"

lemma connection_builder_simps [simp]:
  "zb_buffer_size (connection_builder cfg) = sc_buffer_size cfg" "zb_max_borrowed (connection_builder cfg) = sc_max_borrowed cfg"
  "zb_overflow (connection_builder cfg) = sc_safe_overflow cfg"
  by (simp_all add: connection_builder_def zb_set_overflow_def zb_set_max_borrowed_def zb_set_buffer_size_def)

lemma fresh_conn:
  assumes "0 < sc_buffer_size cfg" and "2 * sc_buffer_size cfg + sc_max_borrowed cfg + 2 < usize_lim"
  defines "m \<equiv> (zc_fresh (connection_builder cfg))\<lparr>zc_state := 3\<rparr>"
  shows "zc_wf m 0" and "oq_list (zc_receive m) = []" and "q_list (zc_retrieve m) = []"
    and "zc_ticks m = usize_lim - 1 - (sc_buffer_size cfg + sc_max_borrowed cfg + 1)"
    and "conn_static m = (sc_buffer_size cfg, sc_buffer_size cfg + sc_max_borrowed cfg + 1, sc_max_borrowed cfg, sc_safe_overflow cfg)"
proof -
  note F = zc_fresh_inv [of "connection_builder cfg"]
  show "zc_wf m 0" "zc_ticks m = usize_lim - 1 - (sc_buffer_size cfg + sc_max_borrowed cfg + 1)"
    using F assms(1,2) by (simp_all add: m_def zc_inv_def zc_start_def zc_wf_def zc_ticks_def)
  show "oq_list (zc_receive m) = []" "q_list (zc_retrieve m) = []"
    using oq_new_wf iq_new_wf by (auto simp: m_def zc_fresh_def)
  show "conn_static m = (sc_buffer_size cfg, sc_buffer_size cfg + sc_max_borrowed cfg + 1, sc_max_borrowed cfg, sc_safe_overflow cfg)"
    by (simp add: m_def zc_fresh_def conn_static_def oq_new_def iq_new_def)
qed

lemma fresh_conns:
  fixes conn and s :: "'id publisher"
  assumes "0 < sc_buffer_size cfg" and "2 * sc_buffer_size cfg + sc_max_borrowed cfg + 2 < usize_lim"
    and "pub_connections s = map (\<lambda>c. if c then Some ((zc_fresh (connection_builder cfg))\<lparr>zc_state := 3\<rparr>) else None) conn"
  shows "conns_ok s (\<lambda>_. [])" and "conns_offs (pub_connections s) (\<lambda>_. []) = {#}"
    and "sum_list (map conn_max (map (map_option conn_static) (pub_connections s))) \<le> length conn * (sc_buffer_size cfg + sc_max_borrowed cfg)"
    and "sum_list (map (\<lambda>c. case c of None \<Rightarrow> 0 | Some (o', q, x) \<Rightarrow> q) (map (map_option conn_static) (pub_connections s)))
      \<le> length conn * (sc_buffer_size cfg + sc_max_borrowed cfg + 1)"
proof -
  note F = fresh_conn [OF assms(1,2)]
  show "conns_ok s (\<lambda>_. [])" using F assms(3) by (auto simp: conns_ok_def conn_ok_def)
  have "slot_offs (pub_connections s) (\<lambda>_. []) i = {#}" if "i < length (pub_connections s)" for i
    using F assms(3) that by (auto simp: slot_offs_def conn_offs_def)
  then show "conns_offs (pub_connections s) (\<lambda>_. []) = {#}" by (simp add: conns_offs_def)
  show "sum_list (map conn_max (map (map_option conn_static) (pub_connections s))) \<le> length conn * (sc_buffer_size cfg + sc_max_borrowed cfg)"
    unfolding assms(3) by (induction conn) (auto simp: F(5) conn_max_def)
  show "sum_list (map (\<lambda>c. case c of None \<Rightarrow> 0 | Some (o', q, x) \<Rightarrow> q) (map (map_option conn_static) (pub_connections s)))
      \<le> length conn * (sc_buffer_size cfg + sc_max_borrowed cfg + 1)"
    unfolding assms(3) by (induction conn) (auto simp: F(5))
qed

lemma fresh_counted:
  assumes "seg_wf l seg" and "seg_free seg = map word_of_nat [0 ..< n]" and "seg_capacity seg = n" and "pub_counter s = replicate n 0"
    and "pub_segment s = seg" and "pub_layout s = l" and "2 * k \<le> seg_budget seg"
  shows "counted s {#}" and "slack (2 * k) s"
proof -
  have "word_of_nat i \<in> set (seg_free seg)" if "i < n" for i using assms(2) that by simp
  then show "counted s {#}" using assms by (simp add: counted_def slack_def)
  show "slack (2 * k) s" using assms by (simp add: slack_def)
qed


lemma required_amount_eq:
  assumes "required_amount_of_samples_per_data_segment cfg max_loaned = (Ok n :: ('e, _) outcome)"
  shows "n = sc_max_subscribers cfg * (sc_buffer_size cfg + sc_max_borrowed cfg) + sc_history_size cfg + max_loaned + 1"
  using assms by (auto simp: required_amount_of_samples_per_data_segment_def outcome_iffs)

lemma pub_fresh_inv:
  fixes st :: "'id container_state" and subs :: "'id mpmc_container" and strategy :: unable_to_deliver_strategy
  assumes "seg_wf l seg" and "seg_free seg = map word_of_nat [0 ..< n]" and "seg_capacity seg = n" and "2 * k \<le> seg_budget seg"
    and "0 < sc_buffer_size cfg" and "2 * sc_buffer_size cfg + sc_max_borrowed cfg + k + 3 < usize_lim" and "n + 1 < 2 ^ 32" and "2 * k < 2 ^ 32"
    and n: "n = sc_max_subscribers cfg * (sc_buffer_size cfg + sc_max_borrowed cfg) + sc_history_size cfg + max_loaned + 1"
    and "length conn = sc_max_subscribers cfg" and "d + lalign l \<le> lsize l" and "cs_head st = u_head (mc_index_set subs)"
    and "\<forall>i < length conn. seg_base (segs i) + seg_mgmt_size (segs i) + (n + 1) * lsize l < usize_lim"
  defines "s \<equiv> pub_fresh cfg l n max_loaned strategy seg conn st"
  shows "ps_inv s d subs (ps_fresh s segs)" and "tick k s" and "refs_max s + pub_max_loaned s \<le> length (pub_counter s)"
proof -
  have bb: "2 * sc_buffer_size cfg + sc_max_borrowed cfg + 2 < usize_lim" using assms(6) by simp
  have conns: "pub_connections s = map (\<lambda>c. if c then Some ((zc_fresh (connection_builder cfg))\<lparr>zc_state := 3\<rparr>) else None) conn"
    by (simp add: s_def pub_fresh_def)
  note F = fresh_conns [OF assms(5) bb conns] and G = fresh_conn [OF assms(5) bb]
  have hist: "pub_history s = (if sc_history_size cfg = 0 then None else Some (cq_new (sc_history_size cfg)))" by (simp add: s_def pub_fresh_def)
  have hl: "hist_list s = []" using cq_new_wf [where ?'a = nat] by (auto simp: hist_list_def hist)
  have cap: "(case map_option cq_capacity (pub_history s) of None \<Rightarrow> 0 | Some n \<Rightarrow> n) = sc_history_size cfg" by (simp add: hist cq_new_def)
  note C = fresh_counted [OF assms(1-3) _ _ _ assms(4), of s]
  have cnt: "counted s {#}" "slack (2 * k) s" using C by (simp_all add: s_def pub_fresh_def)
  have held: "ps_held (ps_fresh s segs) = (\<lambda>_. [])" by (simp add: ps_held_def ps_fresh_def fun_eq_iff)
  have "hist_ok s" using cq_new_wf [where ?'a = nat] hl by (auto simp: hist_ok_def hist cq_new_def)
  then have p: "pinv {#} (\<lambda>_. []) s" using cnt(1) F(1,2) hl by (simp add: pinv_def refs_def)
  define P where "P = length conn * (sc_buffer_size cfg + sc_max_borrowed cfg)"
  have P: "length conn \<le> P" "length conn * (sc_buffer_size cfg + sc_max_borrowed cfg + 1) = P + length conn" using assms(5) by (simp_all add: P_def)
  have nP: "n = P + sc_history_size cfg + max_loaned + 1" using n assms(10) by (simp add: P_def)
  have "caps s \<le> sc_history_size cfg + (P + length conn)" using F(4) unfolding caps_def cap P(2) by linarith
  then have "max_loaned + caps s + 1 \<le> 2 * n" "length conn \<le> n" using P(1) nP by linarith+
  then have caps: "max_loaned + caps s + 1 < 2 ^ 64" "length conn < usize_lim" using assms(7) by (simp_all add: usize_lim_def)
  have "pub_gap s < lalign l" using assms(1) by (auto simp: seg_wf_def pub_gap_def s_def pub_fresh_def)
  then have gap: "pub_gap s + d < lsize l" using assms(11) by linarith
  show "ps_inv s d subs (ps_fresh s segs)"
    using p caps gap assms(12,13) conns unfolding ps_inv_def Let_def held
    by (simp add: ps_fresh_def ps_start_def) (simp add: s_def pub_fresh_def)
  have "k \<le> zc_ticks m" if "i < length (pub_connections s)" "pub_connections s ! i = Some m" for i m
    using that G(4) assms(6) conns by (auto split: if_splits)
  moreover have "k \<le> cq_ticks h" if "pub_history s = Some h" for h
    using that cq_new_wf [of "sc_history_size cfg", where ?'a = nat] n assms(7,8) by (auto simp: hist usize_lim_def split: if_splits)
  ultimately show "tick k s" using cnt(2) by (simp add: tick_def)
  show "refs_max s + pub_max_loaned s \<le> length (pub_counter s)"
  proof -
    have "refs_max s \<le> sc_history_size cfg + P" using F(3) unfolding refs_max_def cap P_def by linarith
    then show ?thesis using nP by (simp add: s_def pub_fresh_def)
  qed
qed


section \<open>Payloads\<close>

text \<open>\<^verbatim>\<open>#[repr(C)] struct Message\<close> is a header followed by the payload: offset of the payload and layout of the whole.\<close>

definition message_data_offset :: "layout \<Rightarrow> layout \<Rightarrow> usize" where
  "message_data_offset header payload = align_up (lsize header) (lalign payload)"

definition message_layout :: "layout \<Rightarrow> layout \<Rightarrow> layout" where
  "message_layout header payload =
     \<lparr>lsize = align_up (message_data_offset header payload + lsize payload) (max (lalign header) (lalign payload)),
      lalign = max (lalign header) (lalign payload)\<rparr>"

lemma power2_dvd_max: "valid_layout a \<Longrightarrow> valid_layout b \<Longrightarrow> lalign a dvd max (lalign a) (lalign b) \<and> lalign b dvd max (lalign a) (lalign b)"
  using valid_layout_dvd [of a b] valid_layout_dvd [of b a] by (auto simp: max_def)

lemma align_up_id: "a dvd v \<Longrightarrow> align_up v a = v"
  by (simp add: align_up_def)

lemma release_other_chunk:
  assumes "counted s R" and "exact s off" and "idx s off + 1 < length (pub_counter s)" and "count R (idx s off + 1) = 1"
  shows "\<exists>s'. release_sample s (off + pub_size s) = (Ok s' :: ('e, _) outcome) \<and> counted s' (R - {#idx s off + 1#})
    \<and> length (pub_counter s') = length (pub_counter s)"
proof -
  have pos: "0 < pub_size s" using gap_less [OF assms(1)] by simp
  have i: "idx s (off + pub_size s) = idx s off + 1" using pos by (simp add: idx_def div_add_self2)
  then have "inside s (off + pub_size s)" using assms(2,3) by (simp add: inside_def exact_def)
  moreover have "idx s (off + pub_size s) \<in># R" using assms(4) i by (simp add: count_inI)
  ultimately show ?thesis using counted_release [OF assms(1), of "off + pub_size s", where ?'e = 'e] i by fastforce
qed

text \<open>C3: for a payload of at least one byte the offset of the payload plus the alignment fits into the message, so that the
  distance with which a subscriber returns a sample (it uses the address of the payload, not of the chunk) always
  points into the right chunk. For a payload without any bytes that needs no stricter alignment than the header
  it points into the next one: the publisher then releases a chunk that another sample is still using, which becomes
  free in the pool, and keeps the reference of the returned one.\<close>

theorem returned_distance_hits_chunk:
  assumes "valid_layout header" and "lalign header dvd lsize header" and "0 < lsize header" and "valid_layout payload" and "lalign payload dvd lsize payload"
  defines "l \<equiv> message_layout header payload" and "d \<equiv> message_data_offset header payload"
  shows "valid_layout l \<and> lalign l dvd lsize l
    \<and> (0 < lsize payload \<longrightarrow> d + lalign l \<le> lsize l
        \<and> (\<forall>(s :: 'id publisher) R off. counted s R \<and> pub_layout s = l \<and> exact s off \<longrightarrow> sample_index s (off + d) = (sample_index s off :: ('e, _) outcome)))
    \<and> (lsize payload = 0 \<and> lalign payload \<le> lalign header \<longrightarrow> d = lsize l
        \<and> (\<forall>(s :: 'id publisher) R off i. counted s R \<and> pub_layout s = l \<and> exact s off \<and> sample_index s off = (Ok i :: ('e, _) outcome)
              \<and> i + 1 < length (pub_counter s) \<and> count R (i + 1) = 1
            \<longrightarrow> (\<exists>s'. release_sample s (off + d) = (Ok s' :: ('e, _) outcome) \<and> word_of_nat (i + 1) \<in> set (seg_free (pub_segment s'))
                \<and> unat (pub_counter s' ! i) = count R i)))"
proof -
  have pos: "0 < lalign header" "0 < lalign payload" using valid_layout_pos assms(1,4) by auto
  note m = power2_dvd_max [OF assms(1,4)]
  have val: "valid_layout l" using assms(1,4) by (auto simp: l_def message_layout_def valid_layout_def max_def)
  have dv: "lalign l dvd lsize l" using pos by (simp add: l_def message_layout_def)
  have 1: "d + lalign l \<le> lsize l" if p: "0 < lsize payload"
  proof (cases "lalign header \<le> lalign payload")
    case True
    then have "lalign l = lalign payload" by (simp add: l_def message_layout_def)
    moreover have "lalign payload \<le> lsize payload" using assms(5) p by (auto intro: dvd_imp_le)
    moreover have "d + lsize payload \<le> lsize l" using pos by (simp add: d_def l_def message_layout_def align_up_ge)
    ultimately show ?thesis by linarith
  next
    case False
    then have al: "lalign l = lalign header" "lalign payload dvd lalign header" using m by (auto simp: l_def message_layout_def max_def)
    then have d: "d = lsize header" using assms(2) unfolding d_def message_data_offset_def by (intro align_up_id) (rule dvd_trans)
    have "d < lsize l" using p pos align_up_ge [of "lalign l" "d + lsize payload"] al by (simp add: l_def d_def message_layout_def)
    moreover have "lalign header dvd lsize l - d" using dv al(1) d assms(2) by (auto intro: dvd_diff_nat)
    ultimately have "lalign header \<le> lsize l - d" by (intro dvd_imp_le) simp_all
    then show ?thesis using al(1) \<open>d < lsize l\<close> by linarith
  qed
  have 2: "sample_index s (off + d) = (sample_index s off :: ('e, _) outcome)"
    if "0 < lsize payload" "counted s R" "pub_layout s = l" "exact s off" for s :: "'id publisher" and R off
  proof -
    have "pub_gap s < lalign l" using countedD(1) [OF that(2)] that(3) by (auto simp: seg_wf_def pub_gap_def)
    then have "pub_gap s + d < pub_size s" using 1 [OF that(1)] that(3) by simp
    then show ?thesis using exact_add(2) [OF that(4)] sample_index_ok [OF that(2), where ?'b = 'e] by simp
  qed
  have 3: "d = lsize l" if "lsize payload = 0" "lalign payload \<le> lalign header"
  proof -
    have al: "max (lalign header) (lalign payload) = lalign header" "lalign payload dvd lalign header" using that(2) m by (auto simp: max_def)
    then have d: "d = lsize header" using assms(2) unfolding d_def message_data_offset_def by (intro align_up_id) (rule dvd_trans)
    then show ?thesis using al(1) that(1) assms(2) align_up_id [of "lalign header" "lsize header"] by (simp add: l_def d_def message_layout_def)
  qed
  have 4: "\<exists>s'. release_sample s (off + d) = (Ok s' :: ('e, _) outcome) \<and> word_of_nat (i + 1) \<in> set (seg_free (pub_segment s'))
      \<and> unat (pub_counter s' ! i) = count R i"
    if "d = lsize l" "counted s R" "pub_layout s = l" "exact s off" "sample_index s off = (Ok i :: ('e, _) outcome)" "i + 1 < length (pub_counter s)"
      "count R (i + 1) = 1" for s :: "'id publisher" and R off i
  proof -
    note T = that
    have i: "idx s off = i" using sample_index_ok [OF T(2), of off, where ?'b = 'e] T(5) by simp
    obtain s' where s': "release_sample s (off + pub_size s) = (Ok s' :: ('e, _) outcome)" "counted s' (R - {#i + 1#})" "length (pub_counter s') = length (pub_counter s)"
      using release_other_chunk [OF T(2,4), where ?'e = 'e] i T(6,7) by auto
    have "count (R - {#i + 1#}) (i + 1) = 0" "count (R - {#i + 1#}) i = count R i" using T(7) by simp_all
    then show ?thesis using s' countedD(3) [OF s'(2), of i] countedD(4) [OF s'(2), of "i + 1"] T(1,3,6) by (intro exI [of _ s']) simp
  qed
  show ?thesis
  proof (intro conjI impI allI)
    show "valid_layout l" "lalign l dvd lsize l" by (rule val, rule dv)
    show "d + lalign l \<le> lsize l" if "0 < lsize payload" using that by (rule 1)
    show "d = lsize l" if "lsize payload = 0 \<and> lalign payload \<le> lalign header" using that 3 by simp
  next
    fix s :: "'id publisher" and R off
    assume "0 < lsize payload" and "counted s R \<and> pub_layout s = l \<and> exact s off"
    then show "sample_index s (off + d) = (sample_index s off :: ('e, _) outcome)" by (elim conjE) (rule 2)
  next
    fix s :: "'id publisher" and R off i
    assume z: "lsize payload = 0 \<and> lalign payload \<le> lalign header"
      and a: "counted s R \<and> pub_layout s = l \<and> exact s off \<and> sample_index s off = (Ok i :: ('e, _) outcome)
        \<and> i + 1 < length (pub_counter s) \<and> count R (i + 1) = 1"
    have "d = lsize l" using z 3 by simp
    then show "\<exists>s'. release_sample s (off + d) = (Ok s' :: ('e, _) outcome) \<and> word_of_nat (i + 1) \<in> set (seg_free (pub_segment s'))
        \<and> unat (pub_counter s' ! i) = count R i" using a by (elim conjE) (rule 4)
  qed
qed

text \<open>Two chunks of a publisher of empty payloads, both in use.\<close>

lemma two_chunks_in_use:
  assumes "seg_wf l seg" and "seg_free seg = map word_of_nat [0 ..< 2]" and "seg_capacity seg = 2" and "4 \<le> seg_budget seg" and "0 < lsize l"
  shows "\<exists>(s :: unit publisher) off. counted s {#0, 1#} \<and> pub_layout s = l \<and> length (pub_counter s) = 2 \<and> exact s off
    \<and> sample_index s off = (Ok 0 :: (unit, _) outcome)"
proof -
  define s0 :: "unit publisher" where
    "s0 = pub_fresh \<lparr>sc_max_subscribers = 0, sc_max_publishers = 1, sc_history_size = 0, sc_buffer_size = 1, sc_max_borrowed = 0, sc_safe_overflow = True\<rparr>
       l 2 2 DiscardSample seg [] \<lparr>cs_head = 0, cs_data = [], cs_active = []\<rparr>"
  have s0: "pub_counter s0 = replicate 2 0" "pub_segment s0 = seg" "pub_layout s0 = l" by (simp_all add: s0_def pub_fresh_def)
  have "2 * 2 \<le> seg_budget seg" using assms(4) by simp
  note C0 = fresh_counted [OF assms(1-3) s0 this]
  have f0: "seg_free (pub_segment s0) = 0 # [1]" using assms(2) s0(2) by (simp add: upt_rec)
  have sl: "slack 4 s0" "slack 2 s0" using C0(2) by (simp_all add: slack_def)
  from counted_alloc [OF C0(1) sl(2) f0] obtain g1 off where 1: "idx s0 off = 0" "exact s0 off"
    "counted (s0\<lparr>pub_segment := g1, pub_counter := (pub_counter s0)[0 := 1]\<rparr>) {#0#}"
    "pub_gap (s0\<lparr>pub_segment := g1, pub_counter := (pub_counter s0)[0 := 1]\<rparr>) = pub_gap s0"
    "slack 2 (s0\<lparr>pub_segment := g1, pub_counter := (pub_counter s0)[0 := 1]\<rparr>)"
    using sl(1) by (auto simp: numeral_eq_Suc)
  define s1 where "s1 = s0\<lparr>pub_segment := g1, pub_counter := (pub_counter s0)[0 := 1]\<rparr>"
  have l1: "length (pub_counter s1) = 2" "pub_layout s1 = l" using s0 by (simp_all add: s1_def)
  note C1 = 1(3) [folded s1_def]
  have in1: "word_of_nat 1 \<in> set (seg_free (pub_segment s1))" "word_of_nat 0 \<notin> set (seg_free (pub_segment s1))"
    using countedD(4) [OF C1, of 1] countedD(4) [OF C1, of 0] l1(1) by simp_all
  then obtain i "is" where f1: "seg_free (pub_segment s1) = i # is" by (cases "seg_free (pub_segment s1)") auto
  have "i < u_capacity (p_buckets (seg_pool (pub_segment s1)))" using seg_free_distinct(2) [OF countedD(1) [OF C1]] f1 by auto
  then have "unat i < 2" using countedD(2) [OF C1] l1(1) by (simp add: word_less_nat_alt)
  moreover have "i \<noteq> 0" using in1(2) f1 by auto
  then have "unat i \<noteq> 0" by (simp add: unat_eq_zero)
  ultimately have ui: "unat i = 1" by linarith
  from counted_alloc [OF C1 1(5) [folded s1_def] f1] obtain g2 where 2: "counted (s1\<lparr>pub_segment := g2, pub_counter := (pub_counter s1)[1 := 1]\<rparr>) {#1, 0#}"
    "pub_gap (s1\<lparr>pub_segment := g2, pub_counter := (pub_counter s1)[1 := 1]\<rparr>) = pub_gap s1"
    unfolding ui by blast
  define s2 where "s2 = s1\<lparr>pub_segment := g2, pub_counter := (pub_counter s1)[1 := 1]\<rparr>"
  have "pub_gap s1 = pub_gap s0" "pub_gap s2 = pub_gap s1" using 1(4) 2(2) by (simp_all only: s1_def s2_def)
  moreover have "length (pub_counter s2) = 2" "pub_layout s2 = l" using l1 by (simp_all add: s2_def)
  ultimately have "exact s2 off" using 1(2) s0 by (simp add: exact_def idx_def)
  moreover have "sample_index s2 off = (Ok 0 :: (unit, _) outcome)" using 1(1) s0(3) l1(2) assms(5) by (simp add: sample_index_def idx_def s2_def)
  ultimately show ?thesis using 2(1) [folded s2_def] l1 by (intro exI [of _ s2] exI [of _ off]) (simp add: s2_def add_mset_commute)
qed

theorem returned_distance_hits_chunk_witness:
  "\<exists>(s :: unit publisher) off s'. counted s {#0, 1#} \<and> sample_index s off = (Ok 0 :: (unit, _) outcome)
    \<and> release_sample s (off + message_data_offset \<lparr>lsize = 32, lalign = 8\<rparr> \<lparr>lsize = 0, lalign = 1\<rparr>) = (Ok s' :: (unit, _) outcome)
    \<and> word_of_nat 1 \<in> set (seg_free (pub_segment s')) \<and> unat (pub_counter s' ! 0) = 1"
proof -
  let ?H = "\<lparr>lsize = 32, lalign = 8\<rparr>" and ?P = "\<lparr>lsize = 0, lalign = 1\<rparr>"
  have v: "valid_layout ?H" "valid_layout ?P" by (rule valid_layout_intro [of _ 3], simp, rule valid_layout_intro [of _ 0], simp)
  have l: "message_layout ?H ?P = ?H" by (simp add: message_layout_def message_data_offset_def align_up_def)
  obtain seg where "seg_wf ?H seg" "seg_free seg = map word_of_nat [0 ..< 2]" "seg_capacity seg = 2" "seg_budget seg = 2 ^ 32 - 1"
    using shm_create_ok [of ?H 4096 2 71 64 8 4096 "\<lambda>_. Ok 4096"] v(1) by (auto simp: usize_lim_def)
  then obtain s :: "unit publisher" and off where s: "counted s {#0, 1#}" "pub_layout s = ?H" "length (pub_counter s) = 2" "exact s off"
    "sample_index s off = (Ok 0 :: (unit, _) outcome)"
    using two_chunks_in_use [of ?H seg] by auto
  have h: "lalign ?H dvd lsize ?H" "0 < lsize ?H" "lalign ?P dvd lsize ?P" "lsize ?P = 0 \<and> lalign ?P \<le> lalign ?H" by simp_all
  have "\<exists>s'. release_sample s (off + message_data_offset ?H ?P) = (Ok s' :: (unit, _) outcome)
      \<and> word_of_nat (0 + 1) \<in> set (seg_free (pub_segment s')) \<and> unat (pub_counter s' ! 0) = count {#0, 1 :: nat#} 0"
  proof -
    have "count {#0, 1 :: nat#} (0 + 1) = 1" "0 + 1 < length (pub_counter s)" using s(3) by simp_all
    moreover note returned_distance_hits_chunk [OF v(1) h(1,2) v(2) h(3), where ?'id = unit and ?'e = unit, unfolded l,
      THEN conjunct2, THEN conjunct2, THEN conjunct2, THEN mp, OF h(4), THEN conjunct2, rule_format, of s "{#0, 1#}" off 0]
    ultimately show ?thesis using s(1,2,4,5) by simp
  qed
  then show ?thesis using s(1,5) by auto
qed

section \<open>Correctness\<close>

text \<open>The settings under which the system is considered: a message layout as Rust produces it, with a payload at offset \<open>d\<close> that is not
  empty; at most \<open>2 ^ 32\<close> chunks; fewer than \<open>2 ^ 31\<close> calls (\<open>k\<close>), which the counter in the pool's index set can
  take; one connection slot per subscriber.\<close>

definition ps_setup :: "layout \<Rightarrow> usize \<Rightarrow> static_config \<Rightarrow> usize \<Rightarrow> usize \<Rightarrow> bool list \<Rightarrow> nat \<Rightarrow> bool" where
  "ps_setup l d cfg max_loaned n conn k \<longleftrightarrow>
     required_amount_of_samples_per_data_segment cfg max_loaned = (Ok n :: (unit, _) outcome)
     \<and> valid_layout l \<and> lalign l dvd lsize l \<and> d + lalign l \<le> lsize l \<and> n + 1 < 2 ^ 32 \<and> 2 * k < 2 ^ 32
     \<and> 0 < sc_buffer_size cfg \<and> 2 * sc_buffer_size cfg + sc_max_borrowed cfg + k + 3 < usize_lim \<and> length conn = sc_max_subscribers cfg"

lemma data_segment_ok:
  assumes "valid_layout l" and "lalign l dvd lsize l" and "0 < lsize l" and "lalign l \<le> page" and "0 < n" and "n + 1 < 2 ^ 32" and "0 < sd + ad"
    and "base + sd + ad + 2 * (lsize l * n + lalign l) + 4 * n + lalign l + 64 < usize_lim"
  shows "\<exists>seg. create_data_segment (shm_create page sd ad (\<lambda>_. Ok base) True) l n = Ok seg \<and> seg_wf l seg
    \<and> seg_free seg = map word_of_nat [0 ..< n] \<and> seg_capacity seg = n \<and> seg_budget seg = 2 ^ 32 - 1"
proof -
  have a: "0 < lalign l" using valid_layout_pos [OF assms(1)] .
  have "create_data_segment (shm_create page sd ad (\<lambda>_. Ok base) True) l n
      = shm_create page sd ad (\<lambda>_. Ok base) True (lsize l * n + lalign l - 1) l"
    using assms(8) a by (simp add: create_data_segment_def)
  moreover have "base + sd + ad + 2 * (lsize l * n + lalign l - 1) + 4 * n + lalign l + 64 < usize_lim" using assms(8) a by simp
  ultimately show ?thesis using shm_create_ok [OF assms(1,3,2,4-6) refl assms(7) _ refl] by auto
qed

lemma ps_setupD:
  assumes "ps_setup l d cfg max_loaned n conn k"
  shows "n = sc_max_subscribers cfg * (sc_buffer_size cfg + sc_max_borrowed cfg) + sc_history_size cfg + max_loaned + 1"
    and "valid_layout l" and "lalign l dvd lsize l" and "d + lalign l \<le> lsize l" and "n + 1 < 2 ^ 32" and "2 * k < 2 ^ 32"
    and "0 < sc_buffer_size cfg" and "2 * sc_buffer_size cfg + sc_max_borrowed cfg + k + 3 < usize_lim" and "length conn = sc_max_subscribers cfg"
    and "0 < lsize l" and "0 < n"
proof -
  have "required_amount_of_samples_per_data_segment cfg max_loaned = (Ok n :: (unit, _) outcome)" using assms by (simp add: ps_setup_def)
  then show n: "n = sc_max_subscribers cfg * (sc_buffer_size cfg + sc_max_borrowed cfg) + sc_history_size cfg + max_loaned + 1"
    by (rule required_amount_eq)
  then show "0 < n" by simp
  show "0 < lsize l" using assms valid_layout_pos [of l] by (auto simp: ps_setup_def)
qed (use assms in \<open>auto simp: ps_setup_def\<close>)

lemma ps_run_setup:
  fixes st :: "'id container_state" and subs :: "'id mpmc_container" and strategy :: unable_to_deliver_strategy
  assumes "ps_setup l d cfg max_loaned n conn (length ops + k)" and "seg_wf l seg" and "seg_free seg = map word_of_nat [0 ..< n]"
    and "seg_capacity seg = n" and "seg_budget seg = 2 ^ 32 - 1" and "cs_head st = u_head (mc_index_set subs)"
    and "\<forall>i < length conn. seg_base (segs i) + seg_mgmt_size (segs i) + (n + 1) * lsize l < usize_lim"
  defines "s \<equiv> pub_fresh cfg l n max_loaned strategy seg conn st"
  shows "ps_run connect subs d ops (ps_fresh s segs) = None \<and> strategy = Block
    \<or> (\<exists>\<sigma>. ps_run connect subs d ops (ps_fresh s segs) = Some (Ok \<sigma>) \<and> ps_inv s d subs \<sigma> \<and> tick k (ps_pub \<sigma>)
          \<and> refs_max (ps_pub \<sigma>) + pub_max_loaned (ps_pub \<sigma>) \<le> length (pub_counter (ps_pub \<sigma>)) \<and> length (pub_counter (ps_pub \<sigma>)) = n)"
proof -
  note D = ps_setupD [OF assms(1)]
  have bud: "2 * (length ops + k) \<le> seg_budget seg" using D(6) assms(5) by simp
  note I = pub_fresh_inv [OF assms(2-4) bud D(7,8,5,6,1,9,4) assms(6,7), of strategy, folded s_def]
  have "ps_pub (ps_fresh s segs) = s" "pub_strategy s = strategy" "length (pub_counter s) = n" by (simp_all add: ps_fresh_def s_def pub_fresh_def)
  then have R: "ps_run connect subs d ops (ps_fresh s segs) = None \<and> strategy = Block
    \<or> (\<exists>\<sigma>. ps_run connect subs d ops (ps_fresh s segs) = Some (Ok \<sigma>) \<and> ps_inv s d subs \<sigma> \<and> tick k (ps_pub \<sigma>))"
    using ps_run_inv [OF I(1), of ops k connect] I(2) by simp
  moreover have "refs_max (ps_pub \<sigma>) + pub_max_loaned (ps_pub \<sigma>) \<le> length (pub_counter (ps_pub \<sigma>)) \<and> length (pub_counter (ps_pub \<sigma>)) = n"
    if "ps_inv s d subs \<sigma>" for \<sigma>
    using I(3) same_refs_max [OF ps_invD(10) [OF that]] ps_invD(10) [OF that] \<open>length (pub_counter s) = n\<close> by (simp add: same_def)
  ultimately show ?thesis by blast
qed

definition example_config :: static_config where
  "example_config = \<lparr>sc_max_subscribers = 2, sc_max_publishers = 1, sc_history_size = 1, sc_buffer_size = 2, sc_max_borrowed = 2, sc_safe_overflow = True\<rparr>"

definition example_segment :: shm_segment where
  "example_segment = \<lparr>seg_base = 8192, seg_allocator_id = sp_unique_id,
     seg_allocator = \<lparr>sp_allocator = \<lparr>p_buckets = uis_new_uninit 12, p_bucket_size = 64, p_alignment = 8, p_start = 8400, p_size = 775, p_init = True\<rparr>,
       sp_base_address = 8400, sp_max_supported_alignment = 4096\<rparr>, seg_mgmt_size = 208\<rparr>"

definition example_list :: "unit container_state" where
  "example_list = \<lparr>cs_head = 0, cs_data = [None, None], cs_active = [False, False]\<rparr>"

lemma example_setup: "k < 1000 \<Longrightarrow> ps_setup \<lparr>lsize = 64, lalign = 8\<rparr> 32 example_config 2 12 [True, True] k"
  by (simp add: ps_setup_def example_config_def required_amount_of_samples_per_data_segment_def usize_lim_def valid_layout_intro [of _ 3])

lemma example_list_current: "cs_head example_list = u_head (mc_index_set (fixed_mc_default 2 :: unit mpmc_container))"
  by (simp add: example_list_def fixed_mc_default_def uis_new_def)

text \<open>C1: in every sequence of calls of a publisher and its subscribers no call panics; only a blocking send on a full connection
  may wait. At the end the reference counter of every chunk is the number of places that refer to it (loans, history, samples waiting
  for, held by or coming back from a subscriber), and a chunk is free in the pool exactly when nobody refers to it: nothing
  is freed too early, and nothing is lost. The number of chunks is the one the service computes, in a data segment created as
  the publisher creates it.\<close>

theorem reference_counters_correct:
  fixes st :: "'id container_state" and subs :: "'id mpmc_container" and strategy :: unable_to_deliver_strategy
  assumes "ps_setup l d cfg max_loaned n conn (length ops)" and "lalign l \<le> page" and "0 < sd + ad"
    and "base + sd + ad + 2 * (lsize l * n + lalign l) + 4 * n + lalign l + 64 < usize_lim"
    and "cs_head st = u_head (mc_index_set subs)"
    and "\<forall>i < length conn. seg_base (segs i) + seg_mgmt_size (segs i) + (n + 1) * lsize l < usize_lim"
  shows "\<exists>seg. create_data_segment (shm_create page sd ad (\<lambda>_. Ok base) True) l n = Ok seg
    \<and> (ps_run connect subs d ops (ps_fresh (pub_fresh cfg l n max_loaned strategy seg conn st) segs) = None \<and> strategy = Block
      \<or> (\<exists>\<sigma>. ps_run connect subs d ops (ps_fresh (pub_fresh cfg l n max_loaned strategy seg conn st) segs) = Some (Ok \<sigma>)
          \<and> (\<forall>i < n. unat (pub_counter (ps_pub \<sigma>) ! i) = count (ps_refs \<sigma>) i
              \<and> (word_of_nat i \<in> set (seg_free (pub_segment (ps_pub \<sigma>))) \<longleftrightarrow> i \<notin># ps_refs \<sigma>))))"
proof -
  note D = ps_setupD [OF assms(1)]
  obtain seg where seg: "create_data_segment (shm_create page sd ad (\<lambda>_. Ok base) True) l n = Ok seg" "seg_wf l seg"
    "seg_free seg = map word_of_nat [0 ..< n]" "seg_capacity seg = n" "seg_budget seg = 2 ^ 32 - 1"
    using data_segment_ok [OF D(2,3,10) assms(2) D(11,5) assms(3,4)] by blast
  have set0: "ps_setup l d cfg max_loaned n conn (length ops + 0)" using assms(1) by simp
  have "(\<forall>i < n. unat (pub_counter (ps_pub \<sigma>) ! i) = count (ps_refs \<sigma>) i
      \<and> (word_of_nat i \<in> set (seg_free (pub_segment (ps_pub \<sigma>))) \<longleftrightarrow> i \<notin># ps_refs \<sigma>))"
    if "ps_inv s0 d subs \<sigma>" "length (pub_counter (ps_pub \<sigma>)) = n" for \<sigma> s0
    using countedD(3,4) [OF pinvD(1) [OF ps_invD(1) [OF that(1)]], folded ps_refs_def] that(2) by (simp add: not_in_iff)
  then show ?thesis using ps_run_setup [OF set0 seg(2-5) assms(5,6), of connect strategy] seg(1) by (intro exI [of _ seg]) blast
qed

theorem reference_counters_correct_witness:
  "\<exists>seg \<sigma>. create_data_segment (shm_create 4096 64 8 (\<lambda>_. Ok 4096) True) \<lparr>lsize = 64, lalign = 8\<rparr> 12 = Ok seg
    \<and> ps_run (\<lambda>_ _. Err ZC_InternalError) (fixed_mc_default 2) 32 [Sys_loan, Sys_send 0, Sys_receive 0, Sys_release 0 0, Sys_loan]
        (ps_fresh (pub_fresh example_config \<lparr>lsize = 64, lalign = 8\<rparr> 12 2 DiscardSample seg [True, True] example_list) (\<lambda>_. example_segment)) = Some (Ok \<sigma>)
    \<and> (\<forall>i < 12. unat (pub_counter (ps_pub \<sigma>) ! i) = count (ps_refs \<sigma>) i)"
proof -
  have seg: "\<forall>i < length [True, True]. seg_base example_segment + seg_mgmt_size example_segment + (12 + 1) * lsize \<lparr>lsize = 64, lalign = 8\<rparr> < usize_lim"
    by (simp add: example_segment_def usize_lim_def)
  show ?thesis
    using reference_counters_correct [OF example_setup _ _ _ example_list_current seg, of "[Sys_loan, Sys_send 0, Sys_receive 0, Sys_release 0 0, Sys_loan]"
      4096 64 8 4096 "\<lambda>_ _. Err ZC_InternalError" DiscardSample] by (auto simp: usize_lim_def)
qed

text \<open>C2: after every such sequence a loan succeeds whenever fewer than the maximum number of samples are loaned, and is refused with
  \<^verbatim>\<open>ExceedsMaxLoanedChunks\<close> otherwise: it never runs out of memory. The chunk that it hands out is referenced by nobody.\<close>

theorem loan_always_finds_a_chunk:
  fixes st :: "'id container_state" and subs :: "'id mpmc_container" and strategy :: unable_to_deliver_strategy
  assumes "ps_setup l d cfg max_loaned n conn (length ops + 1)" and "lalign l \<le> page" and "0 < sd + ad"
    and "base + sd + ad + 2 * (lsize l * n + lalign l) + 4 * n + lalign l + 64 < usize_lim"
    and "cs_head st = u_head (mc_index_set subs)"
    and "\<forall>i < length conn. seg_base (segs i) + seg_mgmt_size (segs i) + (n + 1) * lsize l < usize_lim"
    and "create_data_segment (shm_create page sd ad (\<lambda>_. Ok base) True) l n = Ok seg"
    and "ps_run connect subs d ops (ps_fresh (pub_fresh cfg l n max_loaned strategy seg conn st) segs) = Some (Ok \<sigma>)"
  shows "\<exists>s r. loan (ps_pub \<sigma>) = Some (Ok (s, r) :: (unit, _) outcome)
    \<and> (if max_loaned \<le> length (ps_loaned \<sigma>) then r = Inl ExceedsMaxLoanedChunks
       else \<exists>off. r = Inr off \<and> off div lsize l < n \<and> off div lsize l \<notin># refs (mset (ps_loaned \<sigma>)) (ps_held \<sigma>) s)"
proof -
  note D = ps_setupD [OF assms(1)]
  have seg: "seg_wf l seg" "seg_free seg = map word_of_nat [0 ..< n]" "seg_capacity seg = n" "seg_budget seg = 2 ^ 32 - 1"
    using data_segment_ok [OF D(2,3,10) assms(2) D(11,5) assms(3,4)] assms(7) by auto
  define s0 where "s0 = pub_fresh cfg l n max_loaned strategy seg conn st"
  have inv: "ps_inv s0 d subs \<sigma>" "tick (Suc 0) (ps_pub \<sigma>)" "length (pub_counter (ps_pub \<sigma>)) = n"
    and max: "refs_max (ps_pub \<sigma>) + pub_max_loaned (ps_pub \<sigma>) \<le> length (pub_counter (ps_pub \<sigma>))"
    using ps_run_setup [OF assms(1) seg assms(5,6), of connect strategy] assms(8) by (auto simp: s0_def)
  note I = ps_invD [OF inv(1)]
  have ml: "pub_max_loaned (ps_pub \<sigma>) = max_loaned" "pub_layout (ps_pub \<sigma>) = l" using I(10) by (simp_all add: same_def s0_def pub_fresh_def)
  have no: "loan (ps_pub \<sigma>) \<noteq> Some (Ok (s', Inl Loan_OutOfMemory) :: (unit, _) outcome)" for s'
    using loan_never_out_of_memory [OF I(1) inv(2) _ max, of s', where ?'e = unit] I(3) by simp
  from loan_ok [OF I(1) inv(2), where ?'e = unit] obtain s r where l: "loan (ps_pub \<sigma>) = Some (Ok (s, r) :: (unit, _) outcome)" "same (ps_pub \<sigma>) s"
    and c: "case r of Inl e \<Rightarrow> if pub_max_loaned (ps_pub \<sigma>) \<le> unat (pub_loans (ps_pub \<sigma>)) then e = ExceedsMaxLoanedChunks else e = Loan_OutOfMemory
      | Inr off \<Rightarrow> unat (pub_loans (ps_pub \<sigma>)) < pub_max_loaned (ps_pub \<sigma>) \<and> exact s off \<and> idx s off \<notin># refs (mset (ps_loaned \<sigma>)) (ps_held \<sigma>) s"
    by (elim exE conjE) (rule that, assumption+, auto split: sum.splits if_splits)
  have ss: "pub_layout s = l" "length (pub_counter s) = n" using l(2) ml inv(3) by (simp_all add: same_def)
  show ?thesis
  proof (cases r)
    case (Inl e)
    then have "max_loaned \<le> length (ps_loaned \<sigma>) \<and> e = ExceedsMaxLoanedChunks" using c l(1) no ml I(3) by (auto split: if_splits)
    then show ?thesis using l(1) Inl by auto
  next
    case (Inr off)
    then show ?thesis using c l(1) ml I(3) ss by (intro exI [of _ s] exI [of _ r]) (auto simp: exact_def idx_def)
  qed
qed

theorem loan_always_finds_a_chunk_witness:
  "\<exists>seg \<sigma> s r. create_data_segment (shm_create 4096 64 8 (\<lambda>_. Ok 4096) True) \<lparr>lsize = 64, lalign = 8\<rparr> 12 = Ok seg
    \<and> ps_run (\<lambda>_ _. Err ZC_InternalError) (fixed_mc_default 2) 32 [Sys_loan, Sys_send 0, Sys_receive 1]
        (ps_fresh (pub_fresh example_config \<lparr>lsize = 64, lalign = 8\<rparr> 12 2 DiscardSample seg [True, True] example_list) (\<lambda>_. example_segment)) = Some (Ok \<sigma>)
    \<and> loan (ps_pub \<sigma>) = Some (Ok (s, r) :: (unit, _) outcome) \<and> r \<noteq> Inl Loan_OutOfMemory"
proof -
  let ?l = "\<lparr>lsize = 64, lalign = 8\<rparr>" and ?ops = "[Sys_loan, Sys_send 0, Sys_receive 1]" and ?c = "\<lambda>_ _. Err ZC_InternalError"
  have seg: "\<forall>i < length [True, True]. seg_base example_segment + seg_mgmt_size example_segment + (12 + 1) * lsize ?l < usize_lim"
    by (simp add: example_segment_def usize_lim_def)
  have set1: "ps_setup ?l 32 example_config 2 12 [True, True] (length ?ops + 1)" by (rule example_setup) simp
  note D = ps_setupD [OF set1]
  have mem: "4096 + 64 + 8 + 2 * (lsize ?l * 12 + lalign ?l) + 4 * 12 + lalign ?l + 64 < usize_lim" "lalign ?l \<le> 4096" "0 < (64 + 8 :: nat)"
    by (simp_all add: usize_lim_def)
  obtain g where g: "create_data_segment (shm_create 4096 64 8 (\<lambda>_. Ok 4096) True) ?l 12 = Ok g" "seg_wf ?l g"
    "seg_free g = map word_of_nat [0 ..< 12]" "seg_capacity g = 12" "seg_budget g = 2 ^ 32 - 1"
    using data_segment_ok [OF D(2,3,10) mem(2) D(11,5) mem(3,1)] by blast
  obtain \<sigma> where \<sigma>: "ps_run ?c (fixed_mc_default 2) 32 ?ops
      (ps_fresh (pub_fresh example_config ?l 12 2 DiscardSample g [True, True] example_list) (\<lambda>_. example_segment)) = Some (Ok \<sigma>)"
    using ps_run_setup [OF set1 g(2-5) example_list_current seg, of ?c DiscardSample] by blast
  have "\<exists>s r. loan (ps_pub \<sigma>) = Some (Ok (s, r) :: (unit, _) outcome) \<and> r \<noteq> Inl Loan_OutOfMemory"
    using loan_always_finds_a_chunk [OF set1 mem(2,3,1) example_list_current seg g(1) \<sigma>] by (auto split: if_splits)
  then show ?thesis using g(1) \<sigma> by blast
qed

end
