(* ===== verification/Interleaving.thy ===== *)
theory Interleaving
  imports Prelude
begin

text \<open>
  Calls of several threads interleaved at every access to shared memory (sequential consistency). A primitive gives the steps of one
  thread: \<open>R s pc s' pc'\<close> says that a thread at \<open>pc\<close> takes the shared state from \<open>s\<close> to \<open>s'\<close> and continues at \<open>pc'\<close>.

  The locale \<open>rw_exclusion\<close> is the contract of a lock: how many readers and whether a writer is recorded in the shared
  state, and which program points hold the lock. From what single steps do follows mutual exclusion for any number of threads
  up to a limit. A lock without readers is the special case in which no step reads.
\<close>

section \<open>Threads\<close>

inductive conc_reach :: "nat \<Rightarrow> ('s \<Rightarrow> 'pc \<Rightarrow> 's \<Rightarrow> 'pc \<Rightarrow> bool) \<Rightarrow> 's \<Rightarrow> 'pc \<Rightarrow> 's \<Rightarrow> (nat \<Rightarrow> 'pc) \<Rightarrow> bool"
  for n R s0 p0 where
  start: "conc_reach n R s0 p0 s0 (\<lambda>_. p0)"
| step: "conc_reach n R s0 p0 s f \<Longrightarrow> t < n \<Longrightarrow> R s (f t) s' pc \<Longrightarrow> conc_reach n R s0 p0 s' (f(t := pc))"

text \<open>The number of threads at a program point of a kind.\<close>

definition number :: "nat \<Rightarrow> ('pc \<Rightarrow> bool) \<Rightarrow> (nat \<Rightarrow> 'pc) \<Rightarrow> nat" where
  "number n P f = card {t. t < n \<and> P (f t)}"

lemma number_start [simp]: "\<not> P p0 \<Longrightarrow> number n P (\<lambda>_. p0) = 0"
  by (simp add: number_def)

lemma number_le: "number n P f \<le> n"
proof -
  have "number n P f \<le> card {..< n}" unfolding number_def by (intro card_mono) auto
  then show ?thesis by simp
qed

lemma number_pos: "t < n \<Longrightarrow> P (f t) \<Longrightarrow> 0 < number n P f"
  unfolding number_def by (auto simp: card_gt_0_iff)

lemma number_less: "t < n \<Longrightarrow> \<not> P (f t) \<Longrightarrow> number n P f < n"
proof -
  assume "t < n" "\<not> P (f t)"
  then have "{t. t < n \<and> P (f t)} \<subset> {..< n}" by auto
  then show ?thesis unfolding number_def using psubset_card_mono [OF finite_lessThan, of _ n] by (metis card_lessThan)
qed

lemma number_eq_0: "number n P f = 0 \<longleftrightarrow> (\<forall>t < n. \<not> P (f t))"
  by (auto simp: number_def)

lemma number_one:
  assumes "number n P f \<le> 1" and "t < n" and "u < n" and "P (f t)" and "P (f u)"
  shows "t = u"
proof -
  have "card {t, u} \<le> number n P f" unfolding number_def using assms by (intro card_mono) auto
  then show ?thesis using assms(1) by (cases "t = u") auto
qed

lemma number_upd_same: "P pc = P (f t) \<Longrightarrow> number n P (f(t := pc)) = number n P f"
  unfolding number_def by (rule arg_cong [where f = card]) auto

lemma number_upd_enter: "t < n \<Longrightarrow> P pc \<Longrightarrow> \<not> P (f t) \<Longrightarrow> number n P (f(t := pc)) = Suc (number n P f)"
proof -
  assume a: "t < n" "P pc" "\<not> P (f t)"
  then have "{u. u < n \<and> P ((f(t := pc)) u)} = insert t {u. u < n \<and> P (f u)}" by auto
  then show ?thesis using a by (simp add: number_def)
qed

lemma number_upd_leave: "t < n \<Longrightarrow> \<not> P pc \<Longrightarrow> P (f t) \<Longrightarrow> Suc (number n P (f(t := pc))) = number n P f"
proof -
  assume a: "t < n" "\<not> P pc" "P (f t)"
  then have "{u. u < n \<and> P (f u)} = insert t {u. u < n \<and> P ((f(t := pc)) u)}" by auto
  then show ?thesis using a by (simp add: number_def)
qed

lemma number_upd: "t < n \<Longrightarrow> number n P (f(t := pc)) + of_bool (P (f t)) = number n P f + of_bool (P pc)"
  using number_upd_same [of P pc f t n] number_upd_enter [of t n P pc f] number_upd_leave [of t n P pc f] by (cases "P pc"; cases "P (f t)") auto

text \<open>Only one thread runs.\<close>

lemma conc_reach_run:
  assumes "conc_reach n R s0 p0 s f" and "t < n" and "f t = g a" and "a \<le> b"
    and "\<And>i. a \<le> i \<Longrightarrow> i < b \<Longrightarrow> R s (g i) s (g (Suc i))"
  shows "conc_reach n R s0 p0 s (f(t := g b))"
  using assms(4,5)
proof (induction b)
  case 0
  then have "f(t := g 0) = f" using assms(3) by auto
  then show ?case using assms(1) by simp
next
  case (Suc b)
  show ?case
  proof (cases "a = Suc b")
    case True
    then have "f(t := g (Suc b)) = f" using assms(3) by auto
    then show ?thesis using assms(1) by simp
  next
    case False
    then have "a \<le> b" using Suc.prems(1) by simp
    then have "conc_reach n R s0 p0 s (f(t := g b))" by (rule Suc.IH) (use Suc.prems(2) in simp)
    moreover have "R s ((f(t := g b)) t) s (g (Suc b))" using Suc.prems(2) [OF \<open>a \<le> b\<close>] by simp
    ultimately have "conc_reach n R s0 p0 s ((f(t := g b))(t := g (Suc b)))" by (rule conc_reach.step [OF _ assms(2)])
    then show ?thesis by (simp only: fun_upd_upd)
  qed
qed

section \<open>Exclusion\<close>

text \<open>What one step of a lock may do: nothing visible, or take or give back the lock for reading or for writing.\<close>

datatype lock_effect = Keeps | TakesRead | DropsRead | TakesWrite | DropsWrite

fun lock_effect_ok :: "lock_effect \<Rightarrow> nat \<times> bool \<Rightarrow> bool \<times> bool \<Rightarrow> nat \<times> bool \<Rightarrow> bool \<times> bool \<Rightarrow> bool" where
  "lock_effect_ok Keeps l h l' h' \<longleftrightarrow> l' = l \<and> h' = h"
| "lock_effect_ok TakesRead (r, w) h l' h' \<longleftrightarrow> \<not> w \<and> h = (False, False) \<and> l' = (Suc r, False) \<and> h' = (True, False)"
| "lock_effect_ok DropsRead (r, w) h l' h' \<longleftrightarrow> \<not> w \<and> h = (True, False) \<and> l' = (r - 1, False) \<and> h' = (False, False)"
| "lock_effect_ok TakesWrite l h l' h' \<longleftrightarrow> l = (0, False) \<and> h = (False, False) \<and> l' = (0, True) \<and> h' = (False, True)"
| "lock_effect_ok DropsWrite (r, w) h l' h' \<longleftrightarrow> w \<and> h = (False, True) \<and> l' = (0, False) \<and> h' = (False, False)"

locale rw_exclusion =
  fixes R :: "'s \<Rightarrow> 'pc \<Rightarrow> 's \<Rightarrow> 'pc \<Rightarrow> bool" and s0 :: 's and p0 :: 'pc
    and lock_state :: "'s \<Rightarrow> nat \<times> bool" and holds :: "'pc \<Rightarrow> bool \<times> bool" and ok :: "'pc \<Rightarrow> bool" and limit :: nat
  assumes unlocked: "lock_state s0 = (0, False)"
    and idle: "holds p0 = (False, False)" "ok p0"
    and effect: "R s pc s' pc' \<Longrightarrow> ok pc \<Longrightarrow> holds pc \<noteq> (True, True) \<Longrightarrow> fst (lock_state s) \<le> limit
      \<Longrightarrow> (\<not> fst (holds pc) \<Longrightarrow> fst (lock_state s) < limit)
      \<Longrightarrow> (fst (holds pc) \<Longrightarrow> 0 < fst (lock_state s) \<and> \<not> snd (lock_state s))
      \<Longrightarrow> (snd (holds pc) \<Longrightarrow> snd (lock_state s))
      \<Longrightarrow> (snd (lock_state s) \<Longrightarrow> fst (lock_state s) = 0)
      \<Longrightarrow> ok pc' \<and> (\<exists>e. lock_effect_ok e (lock_state s) (holds pc) (lock_state s') (holds pc'))"
begin

definition inv :: "nat \<Rightarrow> 's \<Rightarrow> (nat \<Rightarrow> 'pc) \<Rightarrow> bool" where
  "inv n s f \<longleftrightarrow> (\<forall>t. ok (f t) \<and> holds (f t) \<noteq> (True, True))
     \<and> fst (lock_state s) = number n (\<lambda>p. fst (holds p)) f
     \<and> number n (\<lambda>p. snd (holds p)) f = (if snd (lock_state s) then 1 else 0)
     \<and> (snd (lock_state s) \<longrightarrow> fst (lock_state s) = 0)"

lemma inv_step:
  assumes "inv n s f" and "n \<le> limit" and "t < n" and "R s (f t) s' pc"
  shows "inv n s' (f(t := pc))"
proof -
  let ?r = "\<lambda>p. fst (holds p)" and ?w = "\<lambda>p. snd (holds p)"
  obtain k w where l: "lock_state s = (k, w)" by fastforce
  have I: "ok (f t)" "holds (f t) \<noteq> (True, True)" "k = number n ?r f" "number n ?w f = (if w then 1 else 0)" "w \<longrightarrow> k = 0"
    using assms(1) l by (auto simp: inv_def)
  have 1: "fst (lock_state s) \<le> limit" using l I(3) number_le [of n ?r f] assms(2) by simp
  have 2: "fst (lock_state s) < limit" if "\<not> ?r (f t)" using that l I(3) number_less [of t n ?r f] assms(2,3) by simp
  have 3: "0 < fst (lock_state s) \<and> \<not> snd (lock_state s)" if "?r (f t)"
    using that l I(3,5) number_pos [of t n ?r f] assms(3) by auto
  have 4: "snd (lock_state s)" if "?w (f t)" using that l I(4) number_pos [of t n ?w f] assms(3) by (auto split: if_splits)
  have 5: "fst (lock_state s) = 0" if "snd (lock_state s)" using that l I(5) by simp
  obtain e where ok: "ok pc" and e: "lock_effect_ok e (k, w) (holds (f t)) (lock_state s') (holds pc)"
    using effect [OF assms(4) I(1,2) 1 2 3 4 5] l by auto
  have rest: "ok (f u)" "holds (f u) \<noteq> (True, True)" for u using assms(1) by (simp_all add: inv_def)
  have eqs: "?r (f t) = fst (holds (f t))" "?w (f t) = snd (holds (f t))" by simp_all
  note upd = number_upd_same [of ?r pc f t n] number_upd_same [of ?w pc f t n] number_upd_enter [of t n ?r pc f]
    number_upd_enter [of t n ?w pc f] number_upd_leave [of t n ?r pc f] number_upd_leave [of t n ?w pc f]
  show ?thesis
  proof (cases e)
    case Keeps
    then show ?thesis using e ok rest upd I l by (auto simp: inv_def)
  next
    case TakesRead
    then show ?thesis using e ok rest upd I assms(3) by (auto simp: inv_def)
  next
    case DropsRead
    then show ?thesis using e ok rest upd I assms(3) by (auto simp: inv_def)
  next
    case TakesWrite
    then show ?thesis using e ok rest upd I assms(3) by (auto simp: inv_def)
  next
    case DropsWrite
    then show ?thesis using e ok rest upd I assms(3) by (auto simp: inv_def)
  qed
qed

lemma inv_reach: "conc_reach n R s0 p0 s f \<Longrightarrow> n \<le> limit \<Longrightarrow> inv n s f"
proof (induction rule: conc_reach.induct)
  case start
  then show ?case using unlocked idle by (simp add: inv_def)
next
  case (step s f t s' pc)
  then show ?case using inv_step by blast
qed

lemma exclusion:
  assumes "conc_reach n R s0 p0 s f" and "n \<le> limit" and "t < n" and "u < n" and "t \<noteq> u" and "snd (holds (f t))"
  shows "holds (f u) = (False, False)"
proof -
  note I = inv_reach [OF assms(1,2), unfolded inv_def]
  have w: "snd (lock_state s)" using I number_pos [of t n "\<lambda>p. snd (holds p)" f] assms(3,6) by (auto split: if_splits)
  then have "number n (\<lambda>p. fst (holds p)) f = 0" "number n (\<lambda>p. snd (holds p)) f \<le> 1" using I by auto
  then have "\<not> fst (holds (f u))" "\<not> snd (holds (f u))"
    using number_one [of n "\<lambda>p. snd (holds p)" f t u] assms(3-6) by (auto simp: number_eq_0)
  then show ?thesis by (simp add: prod_eq_iff)
qed

lemma recorded:
  assumes "conc_reach n R s0 p0 s f" and "n \<le> limit"
  shows "fst (lock_state s) = number n (\<lambda>p. fst (holds p)) f" and "snd (lock_state s) \<longleftrightarrow> (\<exists>t < n. snd (holds (f t)))"
proof -
  note I = inv_reach [OF assms, unfolded inv_def]
  show "fst (lock_state s) = number n (\<lambda>p. fst (holds p)) f" using I by simp
  show "snd (lock_state s) \<longleftrightarrow> (\<exists>t < n. snd (holds (f t)))"
    using I number_eq_0 [of n "\<lambda>p. snd (holds p)" f] by (auto split: if_splits)
qed

end

end
