(* ===== verification/Mutex.thy ===== *)
theory Mutex
  imports Interleaving
begin

text \<open>
  \<^verbatim>\<open>elkodon_pal/concurrency_primitives\<close>, \<^verbatim>\<open>mutex.rs\<close> and \<^verbatim>\<open>condition_variable.rs\<close>. A call is a program counter that makes one access
  to shared memory per step. The callbacks \<^verbatim>\<open>wait\<close> belong to the caller: the answer of a call is the first argument of a step
  (\<open>False\<close> stops the attempt), and a callback that never returns is a thread that makes no further step.
  Waking another thread changes nothing in memory.
\<close>

definition SPIN_REPETITIONS :: nat where
  "SPIN_REPETITIONS = 10000"

section \<open>Mutex\<close>

text \<open>\<open>MtxDone r\<close>: the last lock call returned \<open>r\<close>, and the thread has not called since.\<close>

datatype mtx_pc =
  MtxIdle | MtxDone bool
| MtxTryLock
| MtxLockTry | MtxLockSpin nat | MtxLockWait | MtxLockCas bool
| MtxUnlock | MtxWake

definition mtx_new :: u32 where
  "mtx_new = 0"

text \<open>The strong \<^verbatim>\<open>compare_exchange\<close> from 0 to 1, with what follows its success and its failure.\<close>

definition mtx_exchange :: "u32 \<Rightarrow> mtx_pc \<Rightarrow> mtx_pc \<Rightarrow> u32 \<times> mtx_pc" where
  "mtx_exchange s success failure = (if s = 0 then (1, success) else (s, failure))"

fun mtx_step :: "bool \<Rightarrow> u32 \<Rightarrow> mtx_pc \<Rightarrow> u32 \<times> mtx_pc" where
  "mtx_step b s MtxTryLock = mtx_exchange s (MtxDone True) (MtxDone False)"
| "mtx_step b s MtxLockTry = mtx_exchange s (MtxDone True) (MtxLockSpin 0)"
| "mtx_step b s (MtxLockSpin retry_counter) =
     mtx_exchange s (MtxDone True)
       (if SPIN_REPETITIONS = retry_counter + 1 then MtxLockWait else MtxLockSpin (retry_counter + 1))"
| "mtx_step b s MtxLockWait = (s, MtxLockCas b)"
| "mtx_step b s (MtxLockCas keep_running) = mtx_exchange s (MtxDone True) (if keep_running then MtxLockWait else MtxDone False)"
| "mtx_step b s MtxUnlock = (0, MtxWake)"
| "mtx_step b s MtxWake = (s, MtxIdle)"
| "mtx_step b s MtxIdle = (s, MtxIdle)"
| "mtx_step b s (MtxDone r) = (s, MtxDone r)"

text \<open>A thread calls \<^verbatim>\<open>lock\<close> or \<^verbatim>\<open>try_lock\<close> when it does not hold the mutex, and \<^verbatim>\<open>unlock\<close> when it does.\<close>

inductive mtx_thread :: "u32 \<Rightarrow> mtx_pc \<Rightarrow> u32 \<Rightarrow> mtx_pc \<Rightarrow> bool" where
  call_lock: "pc \<in> {MtxIdle, MtxDone False} \<Longrightarrow> mtx_thread s pc s MtxLockTry"
| call_try_lock: "pc \<in> {MtxIdle, MtxDone False} \<Longrightarrow> mtx_thread s pc s MtxTryLock"
| call_unlock: "mtx_thread s (MtxDone True) s MtxUnlock"
| work: "mtx_step b s pc = (s', pc') \<Longrightarrow> mtx_thread s pc s' pc'"

inductive_cases mtx_threadE: "mtx_thread s pc s' pc'"

definition mtx_holds :: "mtx_pc \<Rightarrow> bool" where
  "mtx_holds pc \<longleftrightarrow> pc = MtxDone True \<or> pc = MtxUnlock"

definition mtx_lock_state :: "u32 \<Rightarrow> nat \<times> bool" where
  "mtx_lock_state s = (0, s \<noteq> 0)"

lemma mtx_thread_effect:
  assumes "mtx_thread s pc s' pc'" and "mtx_holds pc \<Longrightarrow> s \<noteq> 0"
  shows "\<exists>e. lock_effect_ok e (mtx_lock_state s) (False, mtx_holds pc) (mtx_lock_state s') (False, mtx_holds pc')"
  using assms(1)
proof (cases rule: mtx_thread.cases)
  case (work b)
  have "s' = s \<and> mtx_holds pc' = mtx_holds pc \<or> s = 0 \<and> s' = 1 \<and> \<not> mtx_holds pc \<and> mtx_holds pc' \<or> pc = MtxUnlock \<and> s' = 0 \<and> \<not> mtx_holds pc'"
    using work by (cases pc) (auto simp: mtx_exchange_def mtx_holds_def split: if_splits)
  then show ?thesis
  proof (elim disjE conjE)
    assume "s' = s" "mtx_holds pc' = mtx_holds pc"
    then show ?thesis by (intro exI [of _ Keeps]) simp
  next
    assume "s = 0" "s' = 1" "\<not> mtx_holds pc" "mtx_holds pc'"
    then show ?thesis by (intro exI [of _ TakesWrite]) (simp add: mtx_lock_state_def)
  next
    assume "pc = MtxUnlock" "s' = 0" "\<not> mtx_holds pc'"
    then show ?thesis using assms(2) by (intro exI [of _ DropsWrite]) (simp add: mtx_lock_state_def mtx_holds_def)
  qed
qed (auto simp: mtx_holds_def intro!: exI [of _ Keeps])

interpretation mtx: rw_exclusion mtx_thread mtx_new MtxIdle mtx_lock_state "\<lambda>pc. (False, mtx_holds pc)" "\<lambda>_. True" n for n
proof
  show "mtx_lock_state mtx_new = (0, False)" by (simp add: mtx_lock_state_def mtx_new_def)
  show "(False, mtx_holds MtxIdle) = (False, False)" by (simp add: mtx_holds_def)
qed (use mtx_thread_effect in \<open>auto simp: mtx_lock_state_def\<close>)

text \<open>C21: the mutex excludes: under every interleaving of \<^verbatim>\<open>lock\<close>, \<^verbatim>\<open>try_lock\<close> and \<^verbatim>\<open>unlock\<close> by any number of threads, and for every
  answer of the wait callbacks, at most one thread is between the return of a successful lock and the store of its unlock,
  and the state is 0 exactly when there is none.\<close>

theorem mutex_excludes:
  assumes "conc_reach n mtx_thread mtx_new MtxIdle s f"
  shows "(\<forall>t < n. \<forall>u < n. mtx_holds (f t) \<and> mtx_holds (f u) \<longrightarrow> t = u) \<and> (s = 0 \<longleftrightarrow> (\<forall>t < n. \<not> mtx_holds (f t)))"
  using mtx.exclusion [OF assms le_refl] mtx.recorded(2) [OF assms le_refl] by (auto simp: mtx_lock_state_def)

theorem mutex_excludes_witness:
  "\<exists>s f. conc_reach 2 mtx_thread mtx_new MtxIdle s f \<and> mtx_holds (f 0) \<and> f 1 = MtxLockSpin 0
    \<and> (\<forall>t < 2. \<forall>u < 2. mtx_holds (f t) \<and> mtx_holds (f u) \<longrightarrow> t = u)"
proof -
  note st = conc_reach.step [of 2 mtx_thread mtx_new MtxIdle]
  have 1: "conc_reach 2 mtx_thread mtx_new MtxIdle 0 ((\<lambda>_. MtxIdle)(0 := MtxLockTry))"
    using st [OF conc_reach.start, of 0 0 MtxLockTry] by (simp add: mtx_new_def mtx_thread.call_lock)
  have 2: "conc_reach 2 mtx_thread mtx_new MtxIdle 1 ((\<lambda>_. MtxIdle)(0 := MtxDone True))"
    using st [OF 1, of 0 1 "MtxDone True"] by (simp add: mtx_thread.work [of True] mtx_exchange_def)
  have 3: "conc_reach 2 mtx_thread mtx_new MtxIdle 1 ((\<lambda>_. MtxIdle)(0 := MtxDone True, 1 := MtxLockTry))"
    using st [OF 2, of 1 1 MtxLockTry] by (simp add: mtx_thread.call_lock)
  have 4: "conc_reach 2 mtx_thread mtx_new MtxIdle 1 ((\<lambda>_. MtxIdle)(0 := MtxDone True, 1 := MtxLockSpin 0))"
    using st [OF 3, of 1 1 "MtxLockSpin 0"] by (simp add: mtx_thread.work [of True] mtx_exchange_def)
  let ?f = "(\<lambda>_ :: nat. MtxIdle)(0 := MtxDone True, 1 := MtxLockSpin 0)"
  have "mtx_holds (?f 0)" "?f 1 = MtxLockSpin 0" by (simp_all add: mtx_holds_def)
  then show ?thesis using 4 conjunct1 [OF mutex_excludes [OF 4]] by blast
qed

text \<open>Steps of one lock call by its thread alone, with the given answers of \<^verbatim>\<open>wait\<close>: other threads may change the state in between.\<close>

fun mtx_rank :: "mtx_pc \<Rightarrow> nat" where
  "mtx_rank MtxTryLock = 1"
| "mtx_rank MtxLockTry = SPIN_REPETITIONS + 3"
| "mtx_rank (MtxLockSpin r) = SPIN_REPETITIONS + 2 - r"
| "mtx_rank MtxLockWait = 2"
| "mtx_rank (MtxLockCas b) = (if b then 3 else 1)"
| "mtx_rank MtxUnlock = 2"
| "mtx_rank MtxWake = 1"
| "mtx_rank _ = 0"

fun mtx_pc_ok :: "mtx_pc \<Rightarrow> bool" where
  "mtx_pc_ok (MtxLockSpin r) \<longleftrightarrow> r < SPIN_REPETITIONS"
| "mtx_pc_ok (MtxLockCas b) \<longleftrightarrow> \<not> b"
| "mtx_pc_ok _ \<longleftrightarrow> True"

lemma mtx_rank_step:
  assumes "mtx_pc_ok pc" and "0 < mtx_rank pc"
  shows "mtx_rank (snd (mtx_step False s pc)) < mtx_rank pc" and "mtx_pc_ok (snd (mtx_step False s pc))"
  using assms by (cases pc; auto simp: mtx_exchange_def SPIN_REPETITIONS_def)+

text \<open>The program counters of a call that sees the states \<open>ss\<close> at its accesses.\<close>

primrec mtx_run :: "u32 list \<Rightarrow> mtx_pc \<Rightarrow> mtx_pc" where
  "mtx_run [] pc = pc"
| "mtx_run (s # ss) pc = mtx_run ss (snd (mtx_step False s pc))"

lemma mtx_run_rank: "mtx_pc_ok pc \<Longrightarrow> mtx_rank pc \<le> length ss \<Longrightarrow> mtx_rank (mtx_run ss pc) = 0"
proof (induction ss arbitrary: pc)
  case (Cons s ss)
  show ?case
  proof (cases "mtx_rank pc = 0")
    case True
    then have "snd (mtx_step False s pc) = pc" using Cons.prems(1) by (cases pc) (auto split: if_splits)
    then show ?thesis using Cons True by simp
  next
    case False
    then show ?thesis using Cons mtx_rank_step [of pc s] by simp
  qed
qed simp

lemma mtx_rank_0: "mtx_rank pc = 0 \<Longrightarrow> mtx_pc_ok pc \<Longrightarrow> pc \<in> {MtxIdle, MtxDone True, MtxDone False}"
  by (cases pc) (auto split: if_splits)

lemma mtx_run_ok: "mtx_pc_ok pc \<Longrightarrow> mtx_pc_ok (mtx_run ss pc)"
proof (induction ss arbitrary: pc)
  case (Cons s ss)
  then show ?case by (cases pc) (auto simp: mtx_exchange_def SPIN_REPETITIONS_def)
qed simp

lemma mtx_run_not_idle: "mtx_pc_ok pc \<Longrightarrow> pc \<notin> {MtxIdle, MtxUnlock, MtxWake} \<Longrightarrow> mtx_run ss pc \<notin> {MtxIdle, MtxUnlock, MtxWake}"
proof (induction ss arbitrary: pc)
  case (Cons s ss)
  have "mtx_pc_ok (snd (mtx_step False s pc))" "snd (mtx_step False s pc) \<notin> {MtxIdle, MtxUnlock, MtxWake}"
    using Cons.prems by (cases pc; auto simp: mtx_exchange_def SPIN_REPETITIONS_def)+
  then show ?case using Cons.IH by simp
qed simp

text \<open>C29: a timed lock returns: when the wait callback answers that the time is up, a call of \<^verbatim>\<open>lock\<close> returns after at most
  \<open>SPIN_REPETITIONS + 3\<close> of its own accesses, whatever the other threads do to the state in between; it returns false when the state
  was never 0 at its accesses, and true when the mutex was free at the first one.\<close>

theorem timed_lock_returns:
  assumes "SPIN_REPETITIONS + 3 \<le> length ss"
  shows "mtx_run ss MtxLockTry \<in> {MtxDone True, MtxDone False}
    \<and> (0 \<notin> set ss \<longrightarrow> mtx_run ss MtxLockTry = MtxDone False) \<and> (hd ss = 0 \<longrightarrow> mtx_run ss MtxLockTry = MtxDone True)"
proof -
  have "mtx_rank (mtx_run ss MtxLockTry) = 0" using assms by (intro mtx_run_rank) simp_all
  then have 1: "mtx_run ss MtxLockTry \<in> {MtxDone True, MtxDone False}"
    using mtx_rank_0 mtx_run_ok [of MtxLockTry ss] mtx_run_not_idle [of MtxLockTry ss] by auto
  have D: "mtx_run ss (MtxDone r) = MtxDone r" for ss r by (induction ss) auto
  have "mtx_run ss pc \<noteq> MtxDone True" if "0 \<notin> set ss" "pc \<noteq> MtxDone True" for pc
    using that
  proof (induction ss arbitrary: pc)
    case (Cons s ss)
    have "snd (mtx_step False s pc) \<noteq> MtxDone True" using Cons.prems by (cases pc) (auto simp: mtx_exchange_def split: if_splits)
    then show ?case using Cons by simp
  qed simp
  then have 2: "0 \<notin> set ss \<longrightarrow> mtx_run ss MtxLockTry = MtxDone False" using 1 by auto
  have "mtx_run ss MtxLockTry = MtxDone True" if "hd ss = 0"
    using that assms D by (cases ss) (auto simp: mtx_exchange_def)
  then show ?thesis using 1 2 by blast
qed

theorem timed_lock_returns_witness:
  "mtx_run (replicate (SPIN_REPETITIONS + 3) 1) MtxLockTry = MtxDone False"
  using timed_lock_returns [of "replicate (SPIN_REPETITIONS + 3) 1"] by simp

section \<open>Condition variable\<close>

record cond_shared =
  cond_mutex :: u32
  cond_counter :: u32

text \<open>\<open>CvMtx\<close> is a thread outside of the calls of the condition variable; \<open>CvNotify\<close> remembers where it continues.\<close>

datatype cond_pc =
  CvMtx mtx_pc
| CvLoad | CvUnlock u32 | CvUnlockWake u32 | CvWait u32 | CvLock mtx_pc
| CvNotify mtx_pc | CvNotifyWake mtx_pc

definition cond_new :: cond_shared where
  "cond_new = \<lparr>cond_mutex = mtx_new, cond_counter = 0\<rparr>"

fun cond_return :: "mtx_pc \<Rightarrow> cond_pc" where
  "cond_return (MtxDone r) = CvMtx (MtxDone r)"
| "cond_return pc = CvLock pc"

fun cond_step :: "bool \<Rightarrow> cond_shared \<Rightarrow> cond_pc \<Rightarrow> cond_shared \<times> cond_pc" where
  "cond_step b s (CvMtx pc) = (case mtx_step b (cond_mutex s) pc of (m, pc') \<Rightarrow> (s\<lparr>cond_mutex := m\<rparr>, CvMtx pc'))"
| "cond_step b s CvLoad = (s, CvUnlock (cond_counter s))"
| "cond_step b s (CvUnlock counter_value) = (s\<lparr>cond_mutex := 0\<rparr>, CvUnlockWake counter_value)"
| "cond_step b s (CvUnlockWake counter_value) = (s, CvWait counter_value)"
| "cond_step b s (CvWait counter_value) = (s, if b then CvLock MtxLockTry else CvMtx (MtxDone False))"
| "cond_step b s (CvLock pc) = (case mtx_step b (cond_mutex s) pc of (m, pc') \<Rightarrow> (s\<lparr>cond_mutex := m\<rparr>, cond_return pc'))"
| "cond_step b s (CvNotify pc) = (s\<lparr>cond_counter := cond_counter s + 1\<rparr>, CvNotifyWake pc)"
| "cond_step b s (CvNotifyWake pc) = (s, CvMtx pc)"

text \<open>A thread calls \<^verbatim>\<open>wait\<close> when it holds the mutex, and \<^verbatim>\<open>notify\<close> with or without it.\<close>

inductive cond_thread :: "cond_shared \<Rightarrow> cond_pc \<Rightarrow> cond_shared \<Rightarrow> cond_pc \<Rightarrow> bool" where
  call_mutex: "mtx_thread (cond_mutex s) pc (cond_mutex s) pc' \<Longrightarrow> cond_thread s (CvMtx pc) s (CvMtx pc')"
| call_wait: "cond_thread s (CvMtx (MtxDone True)) s CvLoad"
| call_notify: "pc \<in> {MtxIdle, MtxDone True, MtxDone False} \<Longrightarrow> cond_thread s (CvMtx pc) s (CvNotify pc)"
| cond_work: "cond_step b s pc = (s', pc') \<Longrightarrow> cond_thread s pc s' pc'"

fun cond_holds :: "cond_pc \<Rightarrow> bool" where
  "cond_holds (CvMtx pc) \<longleftrightarrow> mtx_holds pc"
| "cond_holds CvLoad \<longleftrightarrow> True"
| "cond_holds (CvUnlock c) \<longleftrightarrow> True"
| "cond_holds (CvLock pc) \<longleftrightarrow> mtx_holds pc"
| "cond_holds (CvNotify pc) \<longleftrightarrow> mtx_holds pc"
| "cond_holds (CvNotifyWake pc) \<longleftrightarrow> mtx_holds pc"
| "cond_holds _ \<longleftrightarrow> False"

fun cond_ok :: "cond_pc \<Rightarrow> bool" where
  "cond_ok (CvLock pc) \<longleftrightarrow> pc \<in> {MtxLockTry, MtxLockWait} \<union> range MtxLockSpin \<union> range MtxLockCas"
| "cond_ok (CvNotify pc) \<longleftrightarrow> pc \<in> {MtxIdle, MtxDone True, MtxDone False}"
| "cond_ok (CvNotifyWake pc) \<longleftrightarrow> pc \<in> {MtxIdle, MtxDone True, MtxDone False}"
| "cond_ok _ \<longleftrightarrow> True"

lemma cond_return_simps [simp]: "cond_holds (cond_return pc) = mtx_holds pc"
  by (cases pc) auto

lemma cond_lock_ok: "cond_ok (CvLock pc) \<Longrightarrow> mtx_step b m pc = (m', pc') \<Longrightarrow> cond_ok (cond_return pc')"
  by (cases pc) (auto simp: mtx_exchange_def split: if_splits)

lemma cond_thread_effect:
  assumes "cond_thread s pc s' pc'" and "cond_ok pc" and "cond_holds pc \<Longrightarrow> cond_mutex s \<noteq> 0"
  shows "cond_ok pc' \<and> (\<exists>e. lock_effect_ok e (mtx_lock_state (cond_mutex s)) (False, cond_holds pc) (mtx_lock_state (cond_mutex s')) (False, cond_holds pc'))"
  using assms(1)
proof (cases rule: cond_thread.cases)
  case (call_mutex mpc mpc')
  then show ?thesis using mtx_thread_effect [OF call_mutex(4)] assms(3) by auto
next
  case (cond_work b)
  show ?thesis
  proof (cases pc)
    case (CvMtx mpc)
    then obtain m mpc' where m: "mtx_step b (cond_mutex s) mpc = (m, mpc')" "s' = s\<lparr>cond_mutex := m\<rparr>" "pc' = CvMtx mpc'"
      using cond_work by (auto split: prod.splits)
    then show ?thesis using mtx_thread_effect [OF mtx_thread.work, OF m(1)] assms(3) CvMtx by auto
  next
    case (CvLock mpc)
    then obtain m mpc' where m: "mtx_step b (cond_mutex s) mpc = (m, mpc')" "s' = s\<lparr>cond_mutex := m\<rparr>" "pc' = cond_return mpc'"
      using cond_work by (auto split: prod.splits)
    then show ?thesis using mtx_thread_effect [OF mtx_thread.work, OF m(1)] assms(2,3) CvLock cond_lock_ok by auto
  next
    case (CvUnlock c)
    then show ?thesis using cond_work assms(3) by (auto simp: mtx_lock_state_def intro!: exI [of _ DropsWrite])
  qed (use cond_work assms(2) in \<open>auto simp: mtx_holds_def split: if_splits intro!: exI [of _ Keeps]\<close>)
qed (auto simp: mtx_holds_def intro!: exI [of _ Keeps])

interpretation cv: rw_exclusion cond_thread cond_new "CvMtx MtxIdle" "\<lambda>s. mtx_lock_state (cond_mutex s)" "\<lambda>pc. (False, cond_holds pc)" cond_ok n for n
proof
  show "mtx_lock_state (cond_mutex cond_new) = (0, False)" by (simp add: mtx_lock_state_def cond_new_def mtx_new_def)
  show "(False, cond_holds (CvMtx MtxIdle)) = (False, False)" by (simp add: mtx_holds_def)
qed (use cond_thread_effect in \<open>auto simp: mtx_lock_state_def\<close>)

end
