(* ===== verification/RwLock.thy ===== *)
theory RwLock
  imports Mutex
begin

text \<open>
  \<^verbatim>\<open>elkodon_pal/concurrency_primitives/src/rwlock.rs\<close>: the two read-write locks, one access to shared memory per step. The reader
  preferring lock stores the number of readers, or \<^verbatim>\<open>u32::MAX\<close> for a writer. The writer preferring lock stores twice the number
  of readers, plus one when a writer is waiting, or \<^verbatim>\<open>u32::MAX\<close> for a writer.

  \<open>rw_kind\<close> in a program counter is not stored anywhere: it records for what the thread holds the lock, which
  \<^verbatim>\<open>unlock\<close> has to find out from the state.
\<close>

definition WRITE_LOCKED :: u32 where
  "WRITE_LOCKED = - 1"

definition UNLOCKED :: u32 where
  "UNLOCKED = 0"

lemma unat_WRITE_LOCKED [simp]: "unat WRITE_LOCKED = 2 ^ 32 - 1"
  by (simp add: WRITE_LOCKED_def unsigned_minus_1_eq_mask mask_eq_exp_minus_1)

lemma WRITE_LOCKED_neq [simp]: "WRITE_LOCKED \<noteq> UNLOCKED" "UNLOCKED \<noteq> WRITE_LOCKED"
  by (simp_all add: WRITE_LOCKED_def UNLOCKED_def)

datatype rw_kind = Reading | Writing

fun kind_holds :: "rw_kind \<Rightarrow> bool \<times> bool" where
  "kind_holds Reading = (True, False)"
| "kind_holds Writing = (False, True)"

lemma kind_holds_simps [simp]: "fst (kind_holds k) \<longleftrightarrow> k = Reading" "snd (kind_holds k) \<longleftrightarrow> k = Writing"
  by (cases k; simp)+

section \<open>Reader preference\<close>

datatype rr_pc =
  RrIdle | RrFailed | RrHeld rw_kind
| RrTryRead | RrTryReadCas u32
| RrRead | RrReadCall u32 nat | RrReadReload nat bool | RrReadCas u32 nat bool
| RrTryWrite
| RrWriteCas nat bool | RrWriteCall u32 nat
| RrUnlock rw_kind | RrUnlockStore rw_kind | RrUnlockSub rw_kind | RrWake

definition rr_new :: u32 where
  "rr_new = UNLOCKED"

text \<open>What \<^verbatim>\<open>read_lock\<close> does with a value it has read: from one access to the next.\<close>

definition rr_read_next :: "u32 \<Rightarrow> nat \<Rightarrow> bool \<Rightarrow> rr_pc" where
  "rr_read_next reader_count retry_counter keep_running =
     (if reader_count \<noteq> WRITE_LOCKED then RrReadCas reader_count retry_counter keep_running
      else if \<not> keep_running then RrFailed
      else if retry_counter < SPIN_REPETITIONS then RrReadReload (retry_counter + 1) keep_running
      else RrReadCall reader_count retry_counter)"

fun rr_step :: "bool \<Rightarrow> u32 \<Rightarrow> rr_pc \<Rightarrow> u32 \<times> rr_pc" where
  "rr_step b s RrTryRead = (s, if s = WRITE_LOCKED then RrFailed else RrTryReadCas s)"
| "rr_step b s (RrTryReadCas reader_count) = (if s = reader_count then (reader_count + 1, RrHeld Reading) else (s, RrFailed))"
| "rr_step b s RrRead = (s, rr_read_next s 0 True)"
| "rr_step b s (RrReadCall reader_count retry_counter) = (s, RrReadReload retry_counter b)"
| "rr_step b s (RrReadReload retry_counter keep_running) = (s, rr_read_next s retry_counter keep_running)"
| "rr_step b s (RrReadCas reader_count retry_counter keep_running) =
     (if s = reader_count then (reader_count + 1, RrHeld Reading) else (s, rr_read_next s retry_counter keep_running))"
| "rr_step b s RrTryWrite = (if s = UNLOCKED then (WRITE_LOCKED, RrHeld Writing) else (s, RrFailed))"
| "rr_step b s (RrWriteCas retry_counter keep_running) =
     (if s = UNLOCKED then (WRITE_LOCKED, RrHeld Writing)
      else (s, if \<not> keep_running then RrFailed
               else if retry_counter < SPIN_REPETITIONS then RrWriteCas (retry_counter + 1) keep_running
               else RrWriteCall s retry_counter))"
| "rr_step b s (RrWriteCall reader_count retry_counter) = (s, RrWriteCas retry_counter b)"
| "rr_step b s (RrUnlock k) = (s, if s = WRITE_LOCKED then RrUnlockStore k else RrUnlockSub k)"
| "rr_step b s (RrUnlockStore k) = (UNLOCKED, RrWake)"
| "rr_step b s (RrUnlockSub k) = (s - 1, RrWake)"
| "rr_step b s RrWake = (s, RrIdle)"
| "rr_step b s pc = (s, pc)"

inductive rr_thread :: "u32 \<Rightarrow> rr_pc \<Rightarrow> u32 \<Rightarrow> rr_pc \<Rightarrow> bool" where
  rr_call: "pc \<in> {RrIdle, RrFailed} \<Longrightarrow> pc' \<in> {RrTryRead, RrRead, RrTryWrite, RrWriteCas 0 True} \<Longrightarrow> rr_thread s pc s pc'"
| rr_unlock: "rr_thread s (RrHeld k) s (RrUnlock k)"
| rr_work: "rr_step b s pc = (s', pc') \<Longrightarrow> rr_thread s pc s' pc'"

fun rr_holds :: "rr_pc \<Rightarrow> bool \<times> bool" where
  "rr_holds (RrHeld k) = kind_holds k"
| "rr_holds (RrUnlock k) = kind_holds k"
| "rr_holds (RrUnlockStore k) = kind_holds k"
| "rr_holds (RrUnlockSub k) = kind_holds k"
| "rr_holds _ = (False, False)"

fun rr_ok :: "rr_pc \<Rightarrow> bool" where
  "rr_ok (RrTryReadCas v) \<longleftrightarrow> v \<noteq> WRITE_LOCKED"
| "rr_ok (RrReadCas v r k) \<longleftrightarrow> v \<noteq> WRITE_LOCKED"
| "rr_ok (RrUnlockStore k) \<longleftrightarrow> k = Writing"
| "rr_ok (RrUnlockSub k) \<longleftrightarrow> k = Reading"
| "rr_ok _ \<longleftrightarrow> True"

definition rr_lock_state :: "u32 \<Rightarrow> nat \<times> bool" where
  "rr_lock_state s = (if s = WRITE_LOCKED then (0, True) else (unat s, False))"

lemma rr_lock_state_simps [simp]: "rr_lock_state UNLOCKED = (0, False)" "rr_lock_state WRITE_LOCKED = (0, True)"
  by (simp_all add: rr_lock_state_def) (simp add: UNLOCKED_def)

lemma unat_add_small: "unat v + k < 2 ^ 32 \<Longrightarrow> unat (v + of_nat k) = unat v + k" for v :: u32
  by (subst unat_word_ariths) (simp add: unat_of_nat)

lemma unat_sub_small: "k \<le> unat v \<Longrightarrow> unat (v - of_nat k) = unat v - k" for v :: u32
  by (metis (no_types, opaque_lifting) le_unat_uoi unat_sub word_le_nat_alt)

lemma rr_lock_state_enter: "unat v + 1 < 2 ^ 32 - 1 \<Longrightarrow> rr_lock_state (v + 1) = (Suc (unat v), False)"
  using unat_add_small [of v 1] unat_WRITE_LOCKED by (auto simp: rr_lock_state_def)

lemma rr_lock_state_leave: "v \<noteq> WRITE_LOCKED \<Longrightarrow> 0 < unat v \<Longrightarrow> rr_lock_state (v - 1) = (unat v - 1, False)"
proof -
  assume a: "v \<noteq> WRITE_LOCKED" "0 < unat v"
  have u: "unat (v - 1) = unat v - 1" using unat_sub_small [of 1 v] a(2) by simp
  then have "v - 1 \<noteq> WRITE_LOCKED" using unsigned_less [of v, where ?'a = nat] unat_WRITE_LOCKED a(2) by auto
  then show ?thesis using u by (simp add: rr_lock_state_def)
qed

lemma rr_read_next_simps [simp]: "rr_ok (rr_read_next v r k)" "rr_holds (rr_read_next v r k) = (False, False)"
  by (simp_all add: rr_read_next_def)

lemma rr_thread_effect:
  assumes "rr_thread s pc s' pc'" and "rr_ok pc" and "\<not> fst (rr_holds pc) \<Longrightarrow> fst (rr_lock_state s) < 2 ^ 32 - 2"
    and "fst (rr_holds pc) \<Longrightarrow> 0 < fst (rr_lock_state s) \<and> \<not> snd (rr_lock_state s)"
    and "snd (rr_holds pc) \<Longrightarrow> snd (rr_lock_state s)"
  shows "rr_ok pc' \<and> (\<exists>e. lock_effect_ok e (rr_lock_state s) (rr_holds pc) (rr_lock_state s') (rr_holds pc'))"
proof -
  have take: ?thesis if "s \<noteq> WRITE_LOCKED" "s' = s + 1" "pc' = RrHeld Reading" "rr_holds pc = (False, False)"
    using that assms(3) rr_lock_state_enter [of s] by (auto simp: rr_lock_state_def intro!: exI [of _ TakesRead])
  have take_w: ?thesis if "s = UNLOCKED" "s' = WRITE_LOCKED" "pc' = RrHeld Writing" "rr_holds pc = (False, False)"
    using that by (auto intro!: exI [of _ TakesWrite])
  have keep: ?thesis if "s' = s" "rr_holds pc' = rr_holds pc" "rr_ok pc'"
    using that by (auto intro!: exI [of _ Keeps])
  from assms(1) show ?thesis
  proof (cases rule: rr_thread.cases)
    case rr_call
    then show ?thesis by (intro keep) auto
  next
    case (rr_unlock k)
    then show ?thesis by (intro keep) auto
  next
    case (rr_work b)
    show ?thesis
    proof (cases pc)
      case (RrTryReadCas v)
      show ?thesis
      proof (cases "s = v")
        case True
        then show ?thesis using rr_work assms(2) RrTryReadCas by (intro take) auto
      next
        case False
        then show ?thesis using rr_work RrTryReadCas by (intro keep) auto
      qed
    next
      case (RrReadCas v r k)
      show ?thesis
      proof (cases "s = v")
        case True
        then show ?thesis using rr_work assms(2) RrReadCas by (intro take) auto
      next
        case False
        then show ?thesis using rr_work RrReadCas by (intro keep) auto
      qed
    next
      case RrTryWrite
      show ?thesis
      proof (cases "s = UNLOCKED")
        case True
        then show ?thesis using rr_work RrTryWrite by (intro take_w) auto
      next
        case False
        then show ?thesis using rr_work RrTryWrite by (intro keep) auto
      qed
    next
      case (RrWriteCas r k)
      show ?thesis
      proof (cases "s = UNLOCKED")
        case True
        then show ?thesis using rr_work RrWriteCas by (intro take_w) auto
      next
        case False
        then show ?thesis using rr_work RrWriteCas by (intro keep) auto
      qed
    next
      case (RrUnlock k)
      then show ?thesis using rr_work assms(4,5) by (cases k; intro keep) (auto simp: rr_lock_state_def split: if_splits)
    next
      case (RrUnlockStore k)
      then show ?thesis using rr_work assms(2,5) by (intro conjI exI [of _ DropsWrite]) (auto simp: rr_lock_state_def [of s] split: if_splits)
    next
      case (RrUnlockSub k)
      then show ?thesis using rr_work assms(2,4) rr_lock_state_leave [of s]
        by (auto simp: rr_lock_state_def intro!: exI [of _ DropsRead] split: if_splits)
    qed (rule keep; use rr_work in \<open>auto split: if_splits\<close>)+
  qed
qed

interpretation rr: rw_exclusion rr_thread rr_new RrIdle rr_lock_state rr_holds rr_ok "2 ^ 32 - 2"
proof
  show "rr_lock_state rr_new = (0, False)" by (simp add: rr_new_def)
qed (use rr_thread_effect in auto)

section \<open>Writer preference\<close>

record rw_lock =
  rw_state :: u32
  rw_wake :: u32

datatype rw_pc =
  RwIdle | RwFailed | RwHeld rw_kind | RwPanic
| RwTryRead | RwTryReadCas u32
| RwRead | RwReadCall u32 nat | RwReadReload nat bool | RwReadCas u32 nat bool
| RwTryWrite
| RwWrite | RwWriteCas u32 nat bool | RwWriteMark u32 nat | RwWriteWake nat | RwWriteCall u32 nat | RwWriteReload nat bool
| RwWriteUnmark u32 | RwWriteGiveUp
| RwUnlock rw_kind | RwUnlockStore rw_kind | RwUnlockSub rw_kind | RwUnlockBump

definition rw_new :: rw_lock where
  "rw_new = \<lparr>rw_state = UNLOCKED, rw_wake = 0\<rparr>"

text \<open>\<^verbatim>\<open>state + 2\<close> is a checked addition.\<close>

definition rw_read_next :: "u32 \<Rightarrow> nat \<Rightarrow> bool \<Rightarrow> rw_pc" where
  "rw_read_next state retry_counter keep_running =
     (if state mod 2 = 1
      then if \<not> keep_running then RwFailed
           else if retry_counter < SPIN_REPETITIONS then RwReadReload (retry_counter + 1) keep_running
           else RwReadCall state retry_counter
      else if is_Ok (add_u32 state 2 :: (unit, u32) outcome) then RwReadCas state retry_counter keep_running else RwPanic)"

text \<open>\<^verbatim>\<open>write_lock\<close>: the loop that takes back the mark of a waiting writer, the pause before the next look at the
  state, what follows a failed attempt, and the head of the loop.\<close>

definition rw_write_leave :: "u32 \<Rightarrow> rw_pc" where
  "rw_write_leave state = (if state mod 2 \<noteq> 0 \<and> state \<noteq> WRITE_LOCKED then RwWriteUnmark state else RwFailed)"

definition rw_write_pause :: "nat \<Rightarrow> rw_pc" where
  "rw_write_pause retry_counter =
     (if retry_counter < SPIN_REPETITIONS then RwWriteReload (retry_counter + 1) True else RwWriteWake retry_counter)"

definition rw_write_miss :: "u32 \<Rightarrow> nat \<Rightarrow> bool \<Rightarrow> rw_pc" where
  "rw_write_miss state retry_counter keep_running =
     (if \<not> keep_running then rw_write_leave state
      else if state mod 2 = 0 then RwWriteMark state retry_counter else rw_write_pause retry_counter)"

definition rw_write_next :: "u32 \<Rightarrow> nat \<Rightarrow> bool \<Rightarrow> rw_pc" where
  "rw_write_next state retry_counter keep_running =
     (if state \<le> 1 then RwWriteCas state retry_counter keep_running else rw_write_miss state retry_counter keep_running)"

text \<open>The exchange of the state, with what follows.\<close>

definition rw_exchange :: "rw_lock \<Rightarrow> u32 \<Rightarrow> u32 \<Rightarrow> rw_pc \<Rightarrow> rw_pc \<Rightarrow> rw_lock \<times> rw_pc" where
  "rw_exchange l old new success failure = (if rw_state l = old then (l\<lparr>rw_state := new\<rparr>, success) else (l, failure))"

fun rw_step :: "bool \<Rightarrow> rw_lock \<Rightarrow> rw_pc \<Rightarrow> rw_lock \<times> rw_pc" where
  "rw_step b l RwTryRead =
     (l, if rw_state l mod 2 = 1 then RwFailed
         else if is_Ok (add_u32 (rw_state l) 2 :: (unit, u32) outcome) then RwTryReadCas (rw_state l) else RwPanic)"
| "rw_step b l (RwTryReadCas state) = rw_exchange l state (state + 2) (RwHeld Reading) RwFailed"
| "rw_step b l RwRead = (l, rw_read_next (rw_state l) 0 True)"
| "rw_step b l (RwReadCall state retry_counter) = (l, RwReadReload retry_counter b)"
| "rw_step b l (RwReadReload retry_counter keep_running) = (l, rw_read_next (rw_state l) retry_counter keep_running)"
| "rw_step b l (RwReadCas state retry_counter keep_running) =
     rw_exchange l state (state + 2) (RwHeld Reading) (rw_read_next (rw_state l) retry_counter keep_running)"
| "rw_step b l RwTryWrite = rw_exchange l 0 WRITE_LOCKED (RwHeld Writing) RwFailed"
| "rw_step b l RwWrite = (l, rw_write_next (rw_state l) 0 True)"
| "rw_step b l (RwWriteCas state retry_counter keep_running) =
     rw_exchange l state WRITE_LOCKED (RwHeld Writing) (rw_write_miss (rw_state l) retry_counter keep_running)"
| "rw_step b l (RwWriteMark state retry_counter) =
     rw_exchange l state (state + 1) (rw_write_pause retry_counter) (rw_write_pause retry_counter)"
| "rw_step b l (RwWriteWake retry_counter) = (l, RwWriteCall (rw_wake l) retry_counter)"
| "rw_step b l (RwWriteCall writer_wake_counter retry_counter) = (l, RwWriteReload retry_counter b)"
| "rw_step b l (RwWriteReload retry_counter keep_running) = (l, rw_write_next (rw_state l) retry_counter keep_running)"
| "rw_step b l (RwWriteUnmark state) = rw_exchange l state (state - 1) RwWriteGiveUp (rw_write_leave (rw_state l))"
| "rw_step b l RwWriteGiveUp = (l\<lparr>rw_wake := rw_wake l + 1\<rparr>, RwFailed)"
| "rw_step b l (RwUnlock k) = (l, if rw_state l = WRITE_LOCKED then RwUnlockStore k else RwUnlockSub k)"
| "rw_step b l (RwUnlockStore k) = (l\<lparr>rw_state := UNLOCKED\<rparr>, RwUnlockBump)"
| "rw_step b l (RwUnlockSub k) = (l\<lparr>rw_state := rw_state l - 2\<rparr>, if rw_state l = 3 then RwUnlockBump else RwIdle)"
| "rw_step b l RwUnlockBump = (l\<lparr>rw_wake := rw_wake l + 1\<rparr>, RwIdle)"
| "rw_step b l pc = (l, pc)"

inductive rw_thread :: "rw_lock \<Rightarrow> rw_pc \<Rightarrow> rw_lock \<Rightarrow> rw_pc \<Rightarrow> bool" where
  rw_call: "pc \<in> {RwIdle, RwFailed} \<Longrightarrow> pc' \<in> {RwTryRead, RwRead, RwTryWrite, RwWrite} \<Longrightarrow> rw_thread l pc l pc'"
| rw_unlock: "rw_thread l (RwHeld k) l (RwUnlock k)"
| rw_work: "rw_step b l pc = (l', pc') \<Longrightarrow> rw_thread l pc l' pc'"

fun rw_holds :: "rw_pc \<Rightarrow> bool \<times> bool" where
  "rw_holds (RwHeld k) = kind_holds k"
| "rw_holds (RwUnlock k) = kind_holds k"
| "rw_holds (RwUnlockStore k) = kind_holds k"
| "rw_holds (RwUnlockSub k) = kind_holds k"
| "rw_holds _ = (False, False)"

fun rw_ok :: "rw_pc \<Rightarrow> bool" where
  "rw_ok (RwTryReadCas v) \<longleftrightarrow> v mod 2 = 0"
| "rw_ok (RwReadCas v r k) \<longleftrightarrow> v mod 2 = 0"
| "rw_ok (RwWriteCas v r k) \<longleftrightarrow> v \<le> 1"
| "rw_ok (RwWriteMark v r) \<longleftrightarrow> v mod 2 = 0"
| "rw_ok (RwWriteUnmark v) \<longleftrightarrow> v mod 2 \<noteq> 0 \<and> v \<noteq> WRITE_LOCKED"
| "rw_ok (RwUnlockStore k) \<longleftrightarrow> k = Writing"
| "rw_ok (RwUnlockSub k) \<longleftrightarrow> k = Reading"
| "rw_ok RwPanic \<longleftrightarrow> False"
| "rw_ok _ \<longleftrightarrow> True"

definition rw_lock_state :: "rw_lock \<Rightarrow> nat \<times> bool" where
  "rw_lock_state l = (if rw_state l = WRITE_LOCKED then (0, True) else (unat (rw_state l) div 2, False))"

lemma word_mod2: "v mod 2 = 0 \<longleftrightarrow> even (unat v)" "v mod 2 = 1 \<longleftrightarrow> odd (unat v)" for v :: u32
proof -
  have u: "unat (v mod 2) = unat v mod 2" by (simp add: unat_mod_distrib)
  have "v mod 2 = 0 \<longleftrightarrow> unat (v mod 2) = unat (0 :: u32)" "v mod 2 = 1 \<longleftrightarrow> unat (v mod 2) = unat (1 :: u32)"
    by (simp_all only: word_unat_eq_iff)
  then show "v mod 2 = 0 \<longleftrightarrow> even (unat v)" "v mod 2 = 1 \<longleftrightarrow> odd (unat v)"
    unfolding u by (simp_all add: even_iff_mod_2_eq_zero odd_iff_mod_2_eq_one)
qed

lemma not_locked_unat: "v \<noteq> WRITE_LOCKED \<Longrightarrow> unat v < 2 ^ 32 - 1"
proof -
  assume "v \<noteq> WRITE_LOCKED"
  then have "unat v \<noteq> unat WRITE_LOCKED" by (simp only: word_unat_eq_iff simp_thms)
  then show ?thesis using unsigned_less [of v, where ?'a = nat] by simp
qed

lemma even_not_locked: "even (unat v) \<Longrightarrow> v \<noteq> WRITE_LOCKED"
  by auto

lemma rw_lock_state_upd: "rw_state l \<noteq> WRITE_LOCKED \<Longrightarrow> unat v = unat (rw_state l) + k \<Longrightarrow> unat (rw_state l) + k < 2 ^ 32 - 1
   \<Longrightarrow> rw_lock_state (l\<lparr>rw_state := v\<rparr>) = ((unat (rw_state l) + k) div 2, False)"
  using unat_WRITE_LOCKED by (auto simp: rw_lock_state_def)

lemma rw_local [simp]:
  "rw_holds (rw_read_next v r k) = (False, False)" "rw_holds (rw_write_next v r k) = (False, False)"
  "rw_holds (rw_write_leave v) = (False, False)" "rw_holds (rw_write_pause r) = (False, False)" "rw_holds (rw_write_miss v r k) = (False, False)"
  "rw_ok (rw_write_next v r k)" "rw_ok (rw_write_leave v)" "rw_ok (rw_write_pause r)" "rw_ok (rw_write_miss v r k)"
  by (simp_all add: rw_read_next_def rw_write_next_def rw_write_leave_def rw_write_pause_def rw_write_miss_def word_mod2)

lemma rw_read_next_ok:
  assumes "fst (rw_lock_state l) < 2 ^ 31 - 2"
  shows "rw_ok (rw_read_next (rw_state l) r k)"
proof -
  have "unat (rw_state l) + 2 < 2 ^ 32" if "even (unat (rw_state l))"
    using that assms even_not_locked by (auto simp: rw_lock_state_def)
  then show ?thesis by (simp add: rw_read_next_def word_mod2 add_u32_def)
qed

text \<open>The lock words before and after the exchanges of the state.\<close>

lemma rw_take_read:
  assumes "even (unat (rw_state l))" and "fst (rw_lock_state l) < 2 ^ 31 - 2"
  shows "rw_lock_state (l\<lparr>rw_state := rw_state l + 2\<rparr>) = (Suc (fst (rw_lock_state l)), False)" and "\<not> snd (rw_lock_state l)"
proof -
  have n: "rw_state l \<noteq> WRITE_LOCKED" using assms(1) by (rule even_not_locked)
  then have b: "unat (rw_state l) + 2 < 2 ^ 32 - 1" using assms(2) by (auto simp: rw_lock_state_def)
  then have "unat (rw_state l + 2) = unat (rw_state l) + 2" using unat_add_small [of "rw_state l" 2] by simp
  from rw_lock_state_upd [OF n this b]
  show "rw_lock_state (l\<lparr>rw_state := rw_state l + 2\<rparr>) = (Suc (fst (rw_lock_state l)), False)" using n by (simp add: rw_lock_state_def)
  show "\<not> snd (rw_lock_state l)" using n by (simp add: rw_lock_state_def)
qed

lemma rw_take_write:
  assumes "rw_state l \<le> 1"
  shows "rw_lock_state (l\<lparr>rw_state := WRITE_LOCKED\<rparr>) = (0, True)" and "rw_lock_state l = (0, False)"
proof -
  have u: "unat (rw_state l) \<le> 1" using assms by (simp add: word_le_nat_alt)
  then have "rw_state l \<noteq> WRITE_LOCKED" using unat_WRITE_LOCKED by auto
  then show "rw_lock_state l = (0, False)" using u by (simp add: rw_lock_state_def)
qed (simp add: rw_lock_state_def)

lemma rw_mark:
  assumes "even (unat (rw_state l))" and "fst (rw_lock_state l) < 2 ^ 31 - 2"
  shows "rw_lock_state (l\<lparr>rw_state := rw_state l + 1\<rparr>) = rw_lock_state l"
proof -
  have n: "rw_state l \<noteq> WRITE_LOCKED" using assms(1) by (rule even_not_locked)
  then have b: "unat (rw_state l) + 1 < 2 ^ 32 - 1" using assms(2) by (auto simp: rw_lock_state_def)
  then have "unat (rw_state l + 1) = unat (rw_state l) + 1" using unat_add_small [of "rw_state l" 1] by simp
  from rw_lock_state_upd [OF n this b] show ?thesis using n assms(1) by (simp add: rw_lock_state_def)
qed

lemma rw_unmark:
  assumes "odd (unat (rw_state l))" and "rw_state l \<noteq> WRITE_LOCKED"
  shows "rw_lock_state (l\<lparr>rw_state := rw_state l - 1\<rparr>) = rw_lock_state l"
proof -
  have "1 \<le> unat (rw_state l)" using assms(1) by (cases "unat (rw_state l)") auto
  then have u: "unat (rw_state l - 1) = unat (rw_state l) - 1" using unat_sub_small [of 1 "rw_state l"] by simp
  then have "rw_state l - 1 \<noteq> WRITE_LOCKED" using not_locked_unat [OF assms(2)] unat_WRITE_LOCKED by auto
  then show ?thesis using assms u by (auto simp: rw_lock_state_def elim!: oddE)
qed

lemma rw_drop_read:
  assumes "\<not> snd (rw_lock_state l)" and "0 < fst (rw_lock_state l)"
  shows "rw_lock_state (l\<lparr>rw_state := rw_state l - 2\<rparr>) = (fst (rw_lock_state l) - 1, False)"
proof -
  have n: "rw_state l \<noteq> WRITE_LOCKED" using assms(1) by (auto simp: rw_lock_state_def)
  then have g: "2 \<le> unat (rw_state l)" using assms(2) by (simp add: rw_lock_state_def div_greater_zero_iff)
  then have u: "unat (rw_state l - 2) = unat (rw_state l) - 2" using unat_sub_small [of 2 "rw_state l"] by simp
  then have "rw_state l - 2 \<noteq> WRITE_LOCKED" using not_locked_unat [OF n] unat_WRITE_LOCKED by auto
  then show ?thesis using n u g by (simp add: rw_lock_state_def)
qed

lemma rw_wake_irrelevant [simp]: "rw_lock_state (l\<lparr>rw_wake := v\<rparr>) = rw_lock_state l"
  by (simp add: rw_lock_state_def)

lemma rw_unlocked [simp]: "rw_lock_state (l\<lparr>rw_state := UNLOCKED\<rparr>) = (0, False)"
  by (simp add: rw_lock_state_def) (simp add: UNLOCKED_def)

lemma rw_thread_effect:
  assumes "rw_thread l pc l' pc'" and "rw_ok pc" and "\<not> fst (rw_holds pc) \<Longrightarrow> fst (rw_lock_state l) < 2 ^ 31 - 2"
    and "fst (rw_holds pc) \<Longrightarrow> 0 < fst (rw_lock_state l) \<and> \<not> snd (rw_lock_state l)"
    and "snd (rw_holds pc) \<Longrightarrow> snd (rw_lock_state l)"
  shows "rw_ok pc' \<and> (\<exists>e. lock_effect_ok e (rw_lock_state l) (rw_holds pc) (rw_lock_state l') (rw_holds pc'))"
proof -
  obtain r w where s: "rw_lock_state l = (r, w)" by fastforce
  have keep: ?thesis if "rw_lock_state l' = rw_lock_state l" "rw_holds pc' = rw_holds pc" "rw_ok pc'"
    using that by (auto intro!: exI [of _ Keeps])
  have read: ?thesis if "even (unat v)" "rw_exchange l v (v + 2) (RwHeld Reading) p = (l', pc')" "rw_holds pc = (False, False)"
    "rw_holds p = (False, False)" "rw_ok p" for v p
  proof (cases "rw_state l = v")
    case True
    then show ?thesis using that(1,2,3) assms(3) rw_take_read [of l] s by (auto simp: rw_exchange_def intro!: exI [of _ TakesRead])
  next
    case False
    then show ?thesis using that by (intro keep) (auto simp: rw_exchange_def)
  qed
  have writ: ?thesis if "v \<le> 1" "rw_exchange l v WRITE_LOCKED (RwHeld Writing) p = (l', pc')" "rw_holds pc = (False, False)"
    "rw_holds p = (False, False)" "rw_ok p" for v p
  proof (cases "rw_state l = v")
    case True
    then show ?thesis using that(1,2,3) rw_take_write [of l] by (auto simp: rw_exchange_def intro!: exI [of _ TakesWrite])
  next
    case False
    then show ?thesis using that by (intro keep) (auto simp: rw_exchange_def)
  qed
  from assms(1) show ?thesis
  proof (cases rule: rw_thread.cases)
    case rw_call
    then show ?thesis by (intro keep) auto
  next
    case (rw_unlock k)
    then show ?thesis by (intro keep) auto
  next
    case (rw_work b)
    show ?thesis
    proof (cases pc)
      case RwTryRead
      have "unat (rw_state l) + 2 < 2 ^ 32" if "even (unat (rw_state l))"
        using that assms(3) even_not_locked RwTryRead by (auto simp: rw_lock_state_def)
      then show ?thesis using rw_work RwTryRead by (intro keep) (auto simp: word_mod2 add_u32_def)
    next
      case (RwTryReadCas v)
      then show ?thesis using rw_work assms(2) by (intro read [of v RwFailed]) (auto simp: word_mod2)
    next
      case (RwReadCas v n k)
      then show ?thesis using rw_work assms(2,3) rw_read_next_ok [of l]
        by (intro read [of v "rw_read_next (rw_state l) n k"]) (auto simp: word_mod2)
    next
      case RwRead
      then show ?thesis using rw_work assms(3) rw_read_next_ok [of l] by (intro keep) auto
    next
      case (RwReadReload n k)
      then show ?thesis using rw_work assms(3) rw_read_next_ok [of l] by (intro keep) auto
    next
      case RwTryWrite
      then show ?thesis using rw_work by (intro writ [of 0 RwFailed]) auto
    next
      case (RwWriteCas v n k)
      then show ?thesis using rw_work assms(2) by (intro writ [of v "rw_write_miss (rw_state l) n k"]) auto
    next
      case (RwWriteMark v n)
      then show ?thesis using rw_work assms(2,3) rw_mark [of l]
        by (intro keep) (auto simp: rw_exchange_def word_mod2 split: if_splits)
    next
      case (RwWriteUnmark v)
      then show ?thesis using rw_work assms(2) rw_unmark [of l]
        by (intro keep) (auto simp: rw_exchange_def word_mod2 split: if_splits)
    next
      case (RwUnlock k)
      then show ?thesis using rw_work assms(4,5) by (cases k; intro keep) (auto simp: rw_lock_state_def split: if_splits)
    next
      case (RwUnlockStore k)
      then show ?thesis using rw_work assms(2,5) s by (auto intro!: exI [of _ DropsWrite])
    next
      case (RwUnlockSub k)
      then show ?thesis using rw_work assms(2,4) rw_drop_read [of l] s by (auto intro!: exI [of _ DropsRead] split: if_splits)
    qed (rule keep; use rw_work assms(2) in \<open>auto split: if_splits\<close>)+
  qed
qed

interpretation rw: rw_exclusion rw_thread rw_new RwIdle rw_lock_state rw_holds rw_ok "2 ^ 31 - 2"
proof
  show "rw_lock_state rw_new = (0, False)" by (simp add: rw_new_def rw_lock_state_def) (simp add: UNLOCKED_def)
qed (use rw_thread_effect in auto)

section \<open>Properties\<close>

text \<open>C22: both read-write locks exclude: under every interleaving of blocking and trying read and write locks and unlocks by the threads,
  and for every answer of the wait callbacks, a thread that holds the lock for writing is alone, the number of readers is
  the one recorded in the state, and no addition overflows. The reader preferring lock supports \<open>2 ^ 32 - 2\<close> threads and
  the writer preferring lock \<open>2 ^ 31 - 2\<close>: one more reader would make the state look write locked.\<close>

theorem rwlocks_exclude:
  assumes "t < n" and "u < n" and "t \<noteq> u"
  shows "(n \<le> 2 ^ 32 - 2 \<and> conc_reach n rr_thread rr_new RrIdle s f \<longrightarrow>
           (snd (rr_holds (f t)) \<longrightarrow> rr_holds (f u) = (False, False))
           \<and> (s \<noteq> WRITE_LOCKED \<longrightarrow> unat s = number n (\<lambda>p. fst (rr_holds p)) f))
       \<and> (n \<le> 2 ^ 31 - 2 \<and> conc_reach n rw_thread rw_new RwIdle l g \<longrightarrow>
           (snd (rw_holds (g t)) \<longrightarrow> rw_holds (g u) = (False, False))
           \<and> (rw_state l \<noteq> WRITE_LOCKED \<longrightarrow> unat (rw_state l) div 2 = number n (\<lambda>p. fst (rw_holds p)) g) \<and> g t \<noteq> RwPanic)"
proof (intro conjI impI; elim conjE)
  assume n: "n \<le> 2 ^ 32 - 2" and r: "conc_reach n rr_thread rr_new RrIdle s f"
  show "rr_holds (f u) = (False, False)" if "snd (rr_holds (f t))" using rr.exclusion [OF r n assms that] .
  show "unat s = number n (\<lambda>p. fst (rr_holds p)) f" if "s \<noteq> WRITE_LOCKED" using rr.recorded(1) [OF r n] that by (simp add: rr_lock_state_def)
next
  assume n: "n \<le> 2 ^ 31 - 2" and r: "conc_reach n rw_thread rw_new RwIdle l g"
  show "rw_holds (g u) = (False, False)" if "snd (rw_holds (g t))" using rw.exclusion [OF r n assms that] .
  show "unat (rw_state l) div 2 = number n (\<lambda>p. fst (rw_holds p)) g" if "rw_state l \<noteq> WRITE_LOCKED"
    using rw.recorded(1) [OF r n] that by (simp add: rw_lock_state_def)
  have "rw_ok (g t)" using rw.inv_reach [OF r n] by (simp add: rw.inv_def)
  then show "g t \<noteq> RwPanic" by auto
qed

text \<open>One step of one thread, as a rule that leaves the next state to the simplifier.\<close>

lemma rw_do:
  assumes "conc_reach n rw_thread rw_new RwIdle l f" and "t < n" and "rw_step b l (f t) = (l', pc)"
  shows "conc_reach n rw_thread rw_new RwIdle l' (f(t := pc))"
  using assms conc_reach.step rw_thread.rw_work by metis

lemma rw_do_call:
  assumes "conc_reach n rw_thread rw_new RwIdle l f" and "t < n" and "f t \<in> {RwIdle, RwFailed}" and "pc \<in> {RwTryRead, RwRead, RwTryWrite, RwWrite}"
  shows "conc_reach n rw_thread rw_new RwIdle l (f(t := pc))"
  using assms conc_reach.step rw_thread.rw_call by metis

lemma rw_do_unlock:
  assumes "conc_reach n rw_thread rw_new RwIdle l f" and "t < n" and "f t = RwHeld k"
  shows "conc_reach n rw_thread rw_new RwIdle l (f(t := RwUnlock k))"
  using assms conc_reach.step rw_thread.rw_unlock by metis

theorem rwlocks_exclude_witness:
  "\<exists>s f l g. conc_reach 2 rr_thread rr_new RrIdle s f \<and> conc_reach 2 rw_thread rw_new RwIdle l g
    \<and> snd (rr_holds (f 0)) \<and> rr_holds (f 1) = (False, False) \<and> snd (rw_holds (g 0)) \<and> rw_holds (g 1) = (False, False)"
proof -
  let ?f = "(\<lambda>_ :: nat. RrIdle)(0 := RrHeld Writing)" and ?g = "(\<lambda>_ :: nat. RwIdle)(0 := RwHeld Writing)"
  have "conc_reach 2 rr_thread rr_new RrIdle rr_new ((\<lambda>_. RrIdle)(0 := RrTryWrite))"
    by (rule conc_reach.step [OF conc_reach.start]) (simp_all add: rr_thread.rr_call)
  then have "conc_reach 2 rr_thread rr_new RrIdle WRITE_LOCKED ((\<lambda>_. RrIdle)(0 := RrTryWrite, 0 := RrHeld Writing))"
    by (rule conc_reach.step) (simp_all add: rr_thread.rr_work [of True] rr_new_def)
  then have f: "conc_reach 2 rr_thread rr_new RrIdle WRITE_LOCKED ?f" by simp
  have "conc_reach 2 rw_thread rw_new RwIdle rw_new ((\<lambda>_. RwIdle)(0 := RwTryWrite))"
    by (rule rw_do_call [OF conc_reach.start]) simp_all
  then have "conc_reach 2 rw_thread rw_new RwIdle (rw_new\<lparr>rw_state := WRITE_LOCKED\<rparr>) ((\<lambda>_. RwIdle)(0 := RwTryWrite, 0 := RwHeld Writing))"
    by (rule rw_do [where b = True]) (simp_all add: rw_exchange_def rw_new_def UNLOCKED_def)
  then have g: "conc_reach 2 rw_thread rw_new RwIdle (rw_new\<lparr>rw_state := WRITE_LOCKED\<rparr>) ?g" by simp
  have "snd (rr_holds (?f 0))" "snd (rw_holds (?g 0))" by simp_all
  moreover have "0 < (2 :: nat)" "1 < (2 :: nat)" "0 \<noteq> (1 :: nat)" by simp_all
  note T = rwlocks_exclude [OF this, of WRITE_LOCKED ?f "rw_new\<lparr>rw_state := WRITE_LOCKED\<rparr>" ?g]
  have "rr_holds (?f 1) = (False, False)" by (rule mp [OF conjunct1 [OF mp [OF conjunct1 [OF T]]]]) (use f in simp_all)
  moreover have "rw_holds (?g 1) = (False, False)" by (rule mp [OF conjunct1 [OF mp [OF conjunct2 [OF T]]]]) (use g in simp_all)
  ultimately show ?thesis using f g by blast
qed

text \<open>A writer and a reader that spin on a state that does not change.\<close>

lemma rw_writer_spins:
  assumes "conc_reach n rw_thread rw_new RwIdle l f" and "t < n" and "f t = RwWriteReload 1 True" and "odd (unat (rw_state l))" and "1 < rw_state l"
  shows "conc_reach n rw_thread rw_new RwIdle l (f(t := RwWriteWake SPIN_REPETITIONS))"
proof -
  have o: "\<not> rw_state l \<le> 1" "rw_state l mod 2 \<noteq> 0" using assms(4,5) by (simp_all add: word_mod2)
  have "rw_thread l (RwWriteReload i True) l (RwWriteReload (Suc i) True)" if "i < SPIN_REPETITIONS" for i
    using that o by (intro rw_thread.rw_work [of True]) (simp add: rw_write_next_def rw_write_miss_def rw_write_pause_def)
  from conc_reach_run [OF assms(1,2), of "\<lambda>i. RwWriteReload i True" 1 SPIN_REPETITIONS, OF assms(3) _ this]
  have "conc_reach n rw_thread rw_new RwIdle l (f(t := RwWriteReload SPIN_REPETITIONS True))" by (simp add: SPIN_REPETITIONS_def)
  from rw_do [OF this assms(2), of True l "RwWriteWake SPIN_REPETITIONS"] show ?thesis
    using o by (simp add: rw_write_next_def rw_write_miss_def rw_write_pause_def)
qed

lemma rw_reader_spins:
  assumes "conc_reach n rw_thread rw_new RwIdle l f" and "t < n" and "f t = RwReadReload 1 True" and "odd (unat (rw_state l))"
  shows "conc_reach n rw_thread rw_new RwIdle l (f(t := RwReadCall (rw_state l) SPIN_REPETITIONS))"
proof -
  have o: "rw_state l mod 2 = 1" using assms(4) by (simp add: word_mod2)
  have "rw_thread l (RwReadReload i True) l (RwReadReload (Suc i) True)" if "i < SPIN_REPETITIONS" for i
    using that o by (intro rw_thread.rw_work [of True]) (simp add: rw_read_next_def)
  from conc_reach_run [OF assms(1,2), of "\<lambda>i. RwReadReload i True" 1 SPIN_REPETITIONS, OF assms(3) _ this]
  have "conc_reach n rw_thread rw_new RwIdle l (f(t := RwReadReload SPIN_REPETITIONS True))" by (simp add: SPIN_REPETITIONS_def)
  from rw_do [OF this assms(2), of True l "RwReadCall (rw_state l) SPIN_REPETITIONS"] show ?thesis
    using o by (simp add: rw_read_next_def)
qed

text \<open>C32: the writer preferring lock loses a wakeup. A writer looks at the state and only then reads the wake counter on which it waits; when the
  last reader unlocks in between, its increment of the counter is already in the value that the writer waits on. The threads then
  wait for ever although the lock is free: the writer for a change of the counter, and every reader for a
  change of the state, which still carries the mark of the waiting writer. Thread 0 was the reader, thread 1 is the writer and
  thread 2 another reader.\<close>

theorem writer_wakeup_is_lost:
  "\<exists>l f. conc_reach 3 rw_thread rw_new RwIdle l f \<and> rw_lock_state l = (0, False) \<and> f 0 = RwIdle
    \<and> f 1 = RwWriteCall (rw_wake l) SPIN_REPETITIONS \<and> f 2 = RwReadCall (rw_state l) SPIN_REPETITIONS"
proof -
  let ?i = "\<lambda>_ :: nat. RwIdle" and ?l = "\<lambda>s w. \<lparr>rw_state = s, rw_wake = w\<rparr>"
  have 0: "conc_reach 3 rw_thread rw_new RwIdle (?l 0 0) ?i"
    using conc_reach.start [of 3 rw_thread rw_new RwIdle] by (simp add: rw_new_def UNLOCKED_def)
  have 1: "conc_reach 3 rw_thread rw_new RwIdle (?l 0 0) (?i(0 := RwRead))" by (rule rw_do_call [OF 0]) simp_all
  have 2: "conc_reach 3 rw_thread rw_new RwIdle (?l 0 0) (?i(0 := RwReadCas 0 0 True))"
    using rw_do [OF 1, of 0 True] by (simp add: rw_read_next_def add_u32_def)
  have 3: "conc_reach 3 rw_thread rw_new RwIdle (?l 2 0) (?i(0 := RwHeld Reading))"
    using rw_do [OF 2, of 0 True] by (simp add: rw_exchange_def)
  have 4: "conc_reach 3 rw_thread rw_new RwIdle (?l 2 0) (?i(0 := RwHeld Reading, 1 := RwWrite))" by (rule rw_do_call [OF 3]) simp_all
  have 5: "conc_reach 3 rw_thread rw_new RwIdle (?l 2 0) (?i(0 := RwHeld Reading, 1 := RwWriteMark 2 0))"
    using rw_do [OF 4, of 1 True] by (simp add: rw_write_next_def rw_write_miss_def word_le_nat_alt)
  have 6: "conc_reach 3 rw_thread rw_new RwIdle (?l 3 0) (?i(0 := RwHeld Reading, 1 := RwWriteReload 1 True))"
    using rw_do [OF 5, of 1 True] by (simp add: rw_exchange_def rw_write_pause_def SPIN_REPETITIONS_def)
  have 7: "conc_reach 3 rw_thread rw_new RwIdle (?l 3 0) (?i(0 := RwHeld Reading, 1 := RwWriteWake SPIN_REPETITIONS))"
    using rw_writer_spins [OF 6, of 1] by (simp add: word_less_nat_alt)
  have 8: "conc_reach 3 rw_thread rw_new RwIdle (?l 3 0) (?i(0 := RwUnlock Reading, 1 := RwWriteWake SPIN_REPETITIONS))"
    using rw_do_unlock [OF 7, of 0 Reading] by (simp add: fun_upd_twist)
  have 9: "conc_reach 3 rw_thread rw_new RwIdle (?l 3 0) (?i(0 := RwUnlockSub Reading, 1 := RwWriteWake SPIN_REPETITIONS))"
    using rw_do [OF 8, of 0 True] by (simp add: fun_upd_twist WRITE_LOCKED_def)
  have 10: "conc_reach 3 rw_thread rw_new RwIdle (?l 1 0) (?i(0 := RwUnlockBump, 1 := RwWriteWake SPIN_REPETITIONS))"
    using rw_do [OF 9, of 0 True] by (simp add: fun_upd_twist)
  have 11: "conc_reach 3 rw_thread rw_new RwIdle (?l 1 1) (?i(0 := RwIdle, 1 := RwWriteWake SPIN_REPETITIONS))"
    using rw_do [OF 10, of 0 True] by (simp add: fun_upd_twist)
  have 12: "conc_reach 3 rw_thread rw_new RwIdle (?l 1 1) (?i(0 := RwIdle, 1 := RwWriteCall 1 SPIN_REPETITIONS))"
    using rw_do [OF 11, of 1 True] by simp
  have 13: "conc_reach 3 rw_thread rw_new RwIdle (?l 1 1) (?i(0 := RwIdle, 1 := RwWriteCall 1 SPIN_REPETITIONS, 2 := RwRead))"
    by (rule rw_do_call [OF 12]) simp_all
  have 14: "conc_reach 3 rw_thread rw_new RwIdle (?l 1 1) (?i(0 := RwIdle, 1 := RwWriteCall 1 SPIN_REPETITIONS, 2 := RwReadReload 1 True))"
    using rw_do [OF 13, of 2 True] by (simp add: rw_read_next_def SPIN_REPETITIONS_def)
  have 15: "conc_reach 3 rw_thread rw_new RwIdle (?l 1 1)
      (?i(0 := RwIdle, 1 := RwWriteCall 1 SPIN_REPETITIONS, 2 := RwReadCall 1 SPIN_REPETITIONS))"
    using rw_reader_spins [OF 14, of 2] by simp
  show ?thesis by (intro exI conjI) (rule 15, simp_all add: rw_lock_state_def WRITE_LOCKED_def)
qed

end
