(* ===== verification/Semaphore.thy ===== *)
theory Semaphore
  imports Mutex
begin

text \<open>
  \<^verbatim>\<open>elkodon_pal/concurrency_primitives\<close>, \<^verbatim>\<open>semaphore.rs\<close> and \<^verbatim>\<open>barrier.rs\<close>, one access to shared memory per step. The first argument
  of a step is what the environment decides: the answer of the wait callback, or whether a weak exchange fails
  without reason (\<open>False\<close>).
\<close>

section \<open>Semaphore\<close>

datatype sem_pc =
  SemIdle | SemDone bool
| SemPost | SemPostWake
| SemWait | SemReload nat bool | SemCall u32 nat | SemCas u32 nat bool
| SemTryWait | SemTryCas u32

definition sem_new :: "u32 \<Rightarrow> u32" where
  "sem_new initial_value = initial_value"

definition sem_value :: "u32 \<Rightarrow> u32" where
  "sem_value s = s"

definition sem_wait_next :: "u32 \<Rightarrow> nat \<Rightarrow> bool \<Rightarrow> sem_pc" where
  "sem_wait_next current_value retry_counter keep_running =
     (if current_value \<noteq> 0 then SemCas current_value retry_counter keep_running
      else if \<not> keep_running then SemDone False
      else if retry_counter < SPIN_REPETITIONS then SemReload (retry_counter + 1) keep_running
      else SemCall current_value retry_counter)"

definition sem_try_next :: "u32 \<Rightarrow> sem_pc" where
  "sem_try_next current_value = (if current_value = 0 then SemDone False else SemTryCas current_value)"

fun sem_step :: "bool \<Rightarrow> u32 \<Rightarrow> sem_pc \<Rightarrow> u32 \<times> sem_pc" where
  "sem_step b s SemPost = (s + 1, SemPostWake)"
| "sem_step b s SemPostWake = (s, SemIdle)"
| "sem_step b s SemWait = (s, sem_wait_next s 0 True)"
| "sem_step b s (SemCall current_value retry_counter) = (s, SemReload retry_counter b)"
| "sem_step b s (SemReload retry_counter keep_running) = (s, sem_wait_next s retry_counter keep_running)"
| "sem_step b s (SemCas current_value retry_counter keep_running) =
     (if s = current_value \<and> b then (current_value - 1, SemDone True) else (s, sem_wait_next s retry_counter keep_running))"
| "sem_step b s SemTryWait = (s, sem_try_next s)"
| "sem_step b s (SemTryCas current_value) =
     (if s = current_value \<and> b then (current_value - 1, SemDone True) else (s, sem_try_next s))"
| "sem_step b s pc = (s, pc)"

text \<open>Besides the value, the shared state of the system counts the calls of \<^verbatim>\<open>post\<close> that have added a permit and the waits that
  have taken one.\<close>

definition sem_posts :: "sem_pc \<Rightarrow> nat" where
  "sem_posts pc = (if pc = SemPost then 1 else 0)"

definition sem_takes :: "sem_pc \<Rightarrow> sem_pc \<Rightarrow> nat" where
  "sem_takes pc pc' = (if pc' = SemDone True \<and> pc \<noteq> pc' then 1 else 0)"

inductive sem_thread :: "u32 \<times> nat \<times> nat \<Rightarrow> sem_pc \<Rightarrow> u32 \<times> nat \<times> nat \<Rightarrow> sem_pc \<Rightarrow> bool" where
  sem_call: "pc \<in> {SemIdle, SemDone True, SemDone False} \<Longrightarrow> pc' \<in> {SemPost, SemWait, SemTryWait} \<Longrightarrow> sem_thread \<sigma> pc \<sigma> pc'"
| sem_work: "sem_step b s pc = (s', pc') \<Longrightarrow> sem_thread (s, p, a) pc (s', p + sem_posts pc, a + sem_takes pc pc') pc'"

fun sem_pc_ok :: "sem_pc \<Rightarrow> bool" where
  "sem_pc_ok (SemCas v r k) \<longleftrightarrow> v \<noteq> 0"
| "sem_pc_ok (SemTryCas v) \<longleftrightarrow> v \<noteq> 0"
| "sem_pc_ok _ \<longleftrightarrow> True"

lemma sem_step_ok: "sem_pc_ok pc \<Longrightarrow> sem_pc_ok (snd (sem_step b s pc))"
  by (cases pc) (auto simp: sem_wait_next_def sem_try_next_def)

lemma sem_step_value:
  assumes "sem_step b s pc = (s', pc')" and "sem_pc_ok pc"
  shows "s' = s + of_nat (sem_posts pc) - of_nat (sem_takes pc pc') \<and> sem_posts pc + sem_takes pc pc' \<le> 1 \<and> (sem_takes pc pc' = 1 \<longrightarrow> s \<noteq> 0)"
proof (cases pc)
  case (SemCas v r k)
  then show ?thesis using assms by (cases "s = v \<and> b") (auto simp: sem_posts_def sem_takes_def sem_wait_next_def split: if_splits)
next
  case (SemTryCas v)
  then show ?thesis using assms by (cases "s = v \<and> b") (auto simp: sem_posts_def sem_takes_def sem_try_next_def split: if_splits)
qed (use assms in \<open>auto simp: sem_posts_def sem_takes_def sem_wait_next_def sem_try_next_def split: if_splits\<close>)

lemma sem_inv:
  "conc_reach n sem_thread (v0, 0, 0) SemIdle \<sigma> f \<Longrightarrow>
   (\<forall>t. sem_pc_ok (f t)) \<and> fst \<sigma> = v0 + of_nat (fst (snd \<sigma>)) - of_nat (snd (snd \<sigma>))
   \<and> (unat v0 + fst (snd \<sigma>) < 2 ^ 32 \<longrightarrow> snd (snd \<sigma>) \<le> unat v0 + fst (snd \<sigma>) \<and> unat (fst \<sigma>) = unat v0 + fst (snd \<sigma>) - snd (snd \<sigma>))"
proof (induction rule: conc_reach.induct)
  case (step \<sigma> f t \<sigma>' pc)
  from step.hyps(3) show ?case
  proof (cases rule: sem_thread.cases)
    case (sem_work b s s' p a)
    have ok: "sem_pc_ok (f t)" "\<forall>t. sem_pc_ok (f t)" using step.IH by auto
    have v: "s = v0 + of_nat p - of_nat a" using step.IH sem_work(1) by simp
    note V = sem_step_value [OF sem_work(3) ok(1)]
    have pc: "sem_pc_ok pc" using sem_step_ok [OF ok(1), of b s] sem_work(3) by simp
    have "a + sem_takes (f t) pc \<le> unat v0 + (p + sem_posts (f t)) \<and> unat s' = unat v0 + (p + sem_posts (f t)) - (a + sem_takes (f t) pc)"
      if b: "unat v0 + (p + sem_posts (f t)) < 2 ^ 32"
    proof -
      have I: "a \<le> unat v0 + p" "unat s = unat v0 + p - a" using step.IH sem_work(1) b by auto
      consider "sem_posts (f t) = 0" "sem_takes (f t) pc = 0" | "sem_posts (f t) = 1" "sem_takes (f t) pc = 0"
        | "sem_posts (f t) = 0" "sem_takes (f t) pc = 1" using V by linarith
      then show ?thesis
      proof cases
        case 2
        then have "unat s' = unat s + 1" using V b I(2) by (simp add: unat_word_ariths)
        then show ?thesis using I 2 by simp
      next
        case 3
        then have "s \<noteq> 0" "s' = s - 1" using V by simp_all
        then have "0 < unat s" "unat s' = unat s - 1" by (simp_all add: unat_gt_0 unat_minus_one)
        then show ?thesis using I 3 by simp
      qed (use V I in simp)
    qed
    then show ?thesis using sem_work(1,2) v V pc ok(2) by (simp add: algebra_simps)
  qed (use step.IH in auto)
qed simp

text \<open>C23: the semaphore neither invents nor loses permits: under every interleaving of \<^verbatim>\<open>post\<close>, \<^verbatim>\<open>wait\<close> and \<^verbatim>\<open>try_wait\<close> by any number of threads,
  with any answers of the wait callback and any spurious failures of the exchanges, the value is the initial value plus
  the posts minus the successful waits, in the arithmetic of \<^verbatim>\<open>u32\<close>. As long as initial value and posts stay below \<open>2 ^ 32\<close> no more
  waits succeed than there are permits; one post more, and the value wraps around to 0 so that all permits are lost.\<close>

theorem semaphore_conserves_permits:
  assumes "conc_reach n sem_thread (sem_new v0, 0, 0) SemIdle (s, posted, taken) f"
  shows "sem_value s = v0 + of_nat posted - of_nat taken
    \<and> (unat v0 + posted < 2 ^ 32 \<longrightarrow> taken \<le> unat v0 + posted \<and> unat (sem_value s) = unat v0 + posted - taken)
    \<and> (unat v0 + posted = 2 ^ 32 \<and> taken = 0 \<longrightarrow> sem_value s = 0)"
proof -
  note I = sem_inv [OF assms [unfolded sem_new_def]]
  have "s = 0" if "unat v0 + posted = 2 ^ 32" "taken = 0"
  proof -
    have "s = of_nat (unat v0 + posted)" using I that(2) by simp
    also have "\<dots> = 0" unfolding that(1) by simp
    finally show ?thesis .
  qed
  then show ?thesis using I by (auto simp: sem_value_def)
qed

theorem semaphore_conserves_permits_witness:
  "\<exists>f. conc_reach 1 sem_thread (sem_new 1, 0, 0) SemIdle (0, 0, 1) f \<and> f 0 = SemDone True \<and> unat (sem_value 0) = unat (1 :: u32) + 0 - 1"
proof -
  have 1: "conc_reach 1 sem_thread (1, 0, 0) SemIdle (1, 0, 0) ((\<lambda>_. SemIdle)(0 := SemTryWait))"
    by (rule conc_reach.step [OF conc_reach.start]) (simp_all add: sem_thread.sem_call)
  have "sem_thread (1, 0, 0) SemTryWait (1, 0, 0) (SemTryCas 1)"
    using sem_thread.sem_work [of True 1 SemTryWait 1 "SemTryCas 1" 0 0] by (simp add: sem_try_next_def sem_posts_def sem_takes_def)
  then have 2: "conc_reach 1 sem_thread (1, 0, 0) SemIdle (1, 0, 0) ((\<lambda>_. SemIdle)(0 := SemTryWait, 0 := SemTryCas 1))"
    by (intro conc_reach.step [OF 1]) simp_all
  have "sem_thread (1, 0, 0) (SemTryCas 1) (0, 0, 1) (SemDone True)"
    using sem_thread.sem_work [of True 1 "SemTryCas 1" 0 "SemDone True" 0 0] by (simp add: sem_posts_def sem_takes_def)
  then have 3: "conc_reach 1 sem_thread (1, 0, 0) SemIdle (0, 0, 1) ((\<lambda>_. SemIdle)(0 := SemTryWait, 0 := SemTryCas 1, 0 := SemDone True))"
    by (intro conc_reach.step [OF 2]) simp_all
  note T = semaphore_conserves_permits [of 1 1, unfolded sem_new_def, OF 3]
  show ?thesis by (rule exI, intro conjI) (use 3 in \<open>simp add: sem_new_def\<close>, simp, rule conjunct2 [OF mp [OF conjunct1 [OF conjunct2 [OF T]]]], simp)
qed

section \<open>Barrier\<close>

text \<open>
  The two callbacks are the futex of the operating system: \<^verbatim>\<open>wait\<close> compares the word with the given value and, when they are equal, puts the thread to sleep in the same
  instant; the thread sleeps until \<^verbatim>\<open>wake_all\<close> is called after that, or returns without a reason. \<open>bar_wakes\<close> counts the calls of \<^verbatim>\<open>wake_all\<close>; \<open>BarAsleep k\<close> is a
  thread that fell asleep after \<open>k\<close> of them. A thread whose step leaves it where it is cannot go on.
\<close>

record bar_state =
  bar_waiters :: u32
  bar_wakes :: nat

datatype bar_pc = BarIdle | BarEnter | BarWake | BarSpin nat | BarLoop | BarCall u32 | BarAsleep nat | BarDone

definition bar_new :: "u32 \<Rightarrow> bar_state" where
  "bar_new number_of_waiters = \<lparr>bar_waiters = number_of_waiters, bar_wakes = 0\<rparr>"

fun bar_step :: "bar_state \<Rightarrow> bar_pc \<Rightarrow> bar_state \<times> bar_pc" where
  "bar_step s BarEnter = (s\<lparr>bar_waiters := bar_waiters s - 1\<rparr>, if bar_waiters s = 1 then BarWake else BarSpin 0)"
| "bar_step s BarWake = (s\<lparr>bar_wakes := bar_wakes s + 1\<rparr>, BarDone)"
| "bar_step s (BarSpin retry_counter) =
     (s, if 0 < bar_waiters s then (if SPIN_REPETITIONS = retry_counter + 1 then BarLoop else BarSpin (retry_counter + 1)) else BarLoop)"
| "bar_step s BarLoop = (s, if bar_waiters s = 0 then BarDone else BarCall (bar_waiters s))"
| "bar_step s (BarCall current_value) = (s, if bar_waiters s = current_value then BarAsleep (bar_wakes s) else BarLoop)"
| "bar_step s (BarAsleep k) = (s, if k < bar_wakes s then BarLoop else BarAsleep k)"
| "bar_step s pc = (s, pc)"

text \<open>Every thread calls \<^verbatim>\<open>wait\<close> once.\<close>

inductive bar_thread :: "bar_state \<Rightarrow> bar_pc \<Rightarrow> bar_state \<Rightarrow> bar_pc \<Rightarrow> bool" where
  bar_call: "bar_thread s BarIdle s BarEnter"
| bar_work: "bar_step s pc = (s', pc') \<Longrightarrow> pc' \<noteq> pc \<Longrightarrow> bar_thread s pc s' pc'"
| bar_spurious: "bar_thread s (BarAsleep k) s BarLoop"

definition bar_entered :: "bar_pc \<Rightarrow> bool" where
  "bar_entered pc \<longleftrightarrow> pc \<noteq> BarIdle \<and> pc \<noteq> BarEnter"

definition bar_released :: "bar_pc \<Rightarrow> bool" where
  "bar_released pc \<longleftrightarrow> pc = BarWake \<or> pc = BarDone"

text \<open>What holds of one thread: who is past the barrier has seen the counter at 0, a thread goes to sleep only on a counter that is not 0, and the only call of
  \<^verbatim>\<open>wake_all\<close> comes after that.\<close>

fun bar_local :: "bar_state \<Rightarrow> bar_pc \<Rightarrow> bool" where
  "bar_local s BarWake \<longleftrightarrow> bar_waiters s = 0"
| "bar_local s BarDone \<longleftrightarrow> bar_waiters s = 0"
| "bar_local s (BarCall v) \<longleftrightarrow> v \<noteq> 0"
| "bar_local s (BarAsleep k) \<longleftrightarrow> k = 0"
| "bar_local s _ \<longleftrightarrow> True"

lemma bar_threadD:
  "bar_thread s pc s' pc' \<Longrightarrow> pc = BarIdle \<and> pc' = BarEnter \<and> s' = s \<or> bar_step s pc = (s', pc') \<and> pc' \<noteq> pc \<or> (\<exists>k. pc = BarAsleep k) \<and> pc' = BarLoop \<and> s' = s"
  by (auto elim: bar_thread.cases)

lemma bar_step_local:
  assumes "bar_thread s pc s' pc'" and "bar_local s pc" and "bar_waiters s \<noteq> 0 \<longrightarrow> bar_wakes s = 0" and "pc = BarEnter \<longrightarrow> bar_waiters s \<noteq> 0"
  shows "bar_local s' pc'" and "bar_waiters s' \<noteq> 0 \<longrightarrow> bar_wakes s' = 0"
    and "pc \<noteq> BarEnter \<Longrightarrow> bar_waiters s' = bar_waiters s \<and> bar_entered pc' = bar_entered pc" and "pc = BarEnter \<Longrightarrow> bar_waiters s' = bar_waiters s - 1 \<and> bar_entered pc' \<and> bar_wakes s' = bar_wakes s"
proof -
  consider "pc = BarIdle" "pc' = BarEnter" "s' = s" | "bar_step s pc = (s', pc')" | k where "pc = BarAsleep k" "pc' = BarLoop" "s' = s"
    using bar_threadD [OF assms(1)] by blast
  note cases = this
  show "bar_local s' pc'"
    by (rule cases) (use assms(2-4) in \<open>(cases pc; auto split: if_splits)+\<close>)
  show "bar_waiters s' \<noteq> 0 \<longrightarrow> bar_wakes s' = 0"
    by (rule cases) (use assms(2-4) in \<open>(cases pc; auto split: if_splits)+\<close>)
  show "pc \<noteq> BarEnter \<Longrightarrow> bar_waiters s' = bar_waiters s \<and> bar_entered pc' = bar_entered pc"
    by (rule cases) (use assms(2-4) in \<open>(cases pc; auto simp: bar_entered_def split: if_splits)+\<close>)
  show "pc = BarEnter \<Longrightarrow> bar_waiters s' = bar_waiters s - 1 \<and> bar_entered pc' \<and> bar_wakes s' = bar_wakes s"
    by (rule cases) (auto simp: bar_entered_def split: if_splits)
qed

lemma bar_local_counter: "bar_local s pc \<Longrightarrow> bar_waiters s' = 0 \<or> bar_waiters s' = bar_waiters s \<or> bar_waiters s \<noteq> 0 \<Longrightarrow> bar_local s' pc"
  by (cases pc) auto

definition bar_inv :: "nat \<Rightarrow> nat \<Rightarrow> bar_state \<Rightarrow> (nat \<Rightarrow> bar_pc) \<Rightarrow> bool" where
  "bar_inv n k s f \<longleftrightarrow> unat (bar_waiters s) + number n bar_entered f = k \<and> (\<forall>t. bar_local s (f t)) \<and> (bar_waiters s \<noteq> 0 \<longrightarrow> bar_wakes s = 0)
     \<and> (bar_waiters s = 0 \<longrightarrow> bar_wakes s = 0 \<longrightarrow> 0 < n \<longrightarrow> (\<exists>u < n. f u = BarWake))"

lemma bar_inv_step:
  assumes "bar_inv n k s f" and "n \<le> k" and "t < n" and "bar_thread s (f t) s' pc"
  shows "bar_inv n k s' (f(t := pc))"
proof -
  have I: "unat (bar_waiters s) + number n bar_entered f = k" "\<And>u. bar_local s (f u)" "bar_waiters s \<noteq> 0 \<longrightarrow> bar_wakes s = 0"
    "bar_waiters s = 0 \<Longrightarrow> bar_wakes s = 0 \<Longrightarrow> \<exists>u < n. f u = BarWake" using assms(1,3) by (auto simp: bar_inv_def)
  have enter: "f t = BarEnter \<longrightarrow> bar_waiters s \<noteq> 0"
  proof
    assume "f t = BarEnter"
    then have "number n bar_entered f < n" using assms(3) by (intro number_less) (auto simp: bar_entered_def)
    then show "bar_waiters s \<noteq> 0" using I(1) assms(2) by auto
  qed
  note L = bar_step_local [OF assms(4) I(2,3) enter]
  show ?thesis
  proof (cases "f t = BarEnter")
    case True
    have e: "number n bar_entered (f(t := pc)) = Suc (number n bar_entered f)"
      using L(4) [OF True] True assms(3) by (intro number_upd_enter) (auto simp: bar_entered_def)
    have w: "bar_waiters s \<noteq> 0" using enter True by blast
    then have u: "unat (bar_waiters s') = unat (bar_waiters s) - 1" "0 < unat (bar_waiters s)" using L(4) [OF True] by (simp_all add: unat_minus_one unat_gt_0)
    have "unat (bar_waiters s') + number n bar_entered (f(t := pc)) = k" using e u I(1) by linarith
    moreover have "bar_local s' ((f(t := pc)) v)" for v using L(1) bar_local_counter [OF I(2), of s' v] w by (cases "v = t") auto
    moreover have "pc = BarWake" if "bar_waiters s' = 0"
    proof -
      have "bar_waiters s = 1" using that L(4) [OF True] by simp
      then show ?thesis using bar_threadD [OF assms(4)] True by auto
    qed
    ultimately show ?thesis unfolding bar_inv_def using L(2) assms(3) by (metis fun_upd_same)
  next
    case False
    note same = L(3) [OF False]
    have "number n bar_entered (f(t := pc)) = number n bar_entered f" using same by (intro number_upd_same) simp
    moreover have "bar_local s' ((f(t := pc)) v)" for v using L(1) bar_local_counter [OF I(2), of s' v] same by (cases "v = t") auto
    moreover have "\<exists>u < n. (f(t := pc)) u = BarWake" if z: "bar_waiters s' = 0" "bar_wakes s' = 0"
    proof -
      have "bar_wakes s = 0" "f t \<noteq> BarWake" using bar_threadD [OF assms(4)] z(2) by (cases "f t"; auto split: if_splits)+
      then show ?thesis using I(4) same z(1) by (metis fun_upd_other)
    qed
    ultimately show ?thesis unfolding bar_inv_def using I(1) same L(2) by simp
  qed
qed

lemma bar_reach_inv:
  assumes "conc_reach n bar_thread (bar_new k) BarIdle s f" and "n \<le> unat k"
  shows "bar_inv n (unat k) s f"
  using assms
proof (induction rule: conc_reach.induct)
  case start
  then show ?case by (auto simp: bar_inv_def bar_new_def bar_entered_def)
next
  case (step s f t s' pc)
  show ?case by (rule bar_inv_step [OF step.IH [OF step.prems] step.prems step.hyps(2,3)])
qed

text \<open>How many steps of its own a thread that has entered needs at most once the counter is 0.\<close>

fun bar_rank :: "bar_pc \<Rightarrow> nat" where
  "bar_rank BarWake = 1"
| "bar_rank (BarSpin r) = 2"
| "bar_rank BarLoop = 1"
| "bar_rank (BarCall v) = 2"
| "bar_rank (BarAsleep k) = 2"
| "bar_rank _ = 0"

lemma bar_rank_step: "bar_thread s pc s' pc' \<Longrightarrow> bar_waiters s = 0 \<Longrightarrow> bar_entered pc \<Longrightarrow> bar_local s pc \<Longrightarrow> bar_rank pc' < bar_rank pc"
  by (drule bar_threadD) (cases pc; auto simp: bar_entered_def split: if_splits)

text \<open>\<open>conc_run n R m s f s' f'\<close>: \<open>m\<close> further steps of any of the threads.\<close>

inductive conc_run :: "nat \<Rightarrow> ('s \<Rightarrow> 'pc \<Rightarrow> 's \<Rightarrow> 'pc \<Rightarrow> bool) \<Rightarrow> nat \<Rightarrow> 's \<Rightarrow> (nat \<Rightarrow> 'pc) \<Rightarrow> 's \<Rightarrow> (nat \<Rightarrow> 'pc) \<Rightarrow> bool" for n R where
  run_none: "conc_run n R 0 s f s f"
| run_step: "t < n \<Longrightarrow> R s (f t) s' pc \<Longrightarrow> conc_run n R m s' (f(t := pc)) s'' f'' \<Longrightarrow> conc_run n R (Suc m) s f s'' f''"

lemma sum_rank_upd: "t < n \<Longrightarrow> bar_rank pc < bar_rank (f t) \<Longrightarrow> (\<Sum>u < n. bar_rank ((f(t := pc)) u)) < (\<Sum>u < n. bar_rank (f u))" for n :: nat
  by (rule sum_strict_mono_ex1) auto

lemma bar_run:
  assumes "conc_run n bar_thread m s f s' f'" and "bar_inv n k s f" and "n \<le> k" and "bar_waiters s = 0" and "\<forall>u < n. bar_entered (f u)"
  shows "m + (\<Sum>u < n. bar_rank (f' u)) \<le> (\<Sum>u < n. bar_rank (f u))" and "bar_inv n k s' f'" and "bar_waiters s' = 0" and "\<forall>u < n. bar_entered (f' u)"
proof -
  have "m + (\<Sum>u < n. bar_rank (f' u)) \<le> (\<Sum>u < n. bar_rank (f u)) \<and> bar_inv n k s' f' \<and> bar_waiters s' = 0 \<and> (\<forall>u < n. bar_entered (f' u))"
    using assms
  proof (induction rule: conc_run.induct)
    case (run_step t s f s1 pc m s2 f2)
    have I: "bar_local s (f t)" "bar_waiters s \<noteq> 0 \<longrightarrow> bar_wakes s = 0" "bar_entered (f t)" using run_step.prems run_step.hyps(1) by (auto simp: bar_inv_def)
    then have "f t \<noteq> BarEnter" by (auto simp: bar_entered_def)
    note same = bar_step_local(3) [OF run_step.hyps(2) I(1,2) _ this]
    have "bar_waiters s1 = 0" "\<forall>u < n. bar_entered ((f(t := pc)) u)" using same run_step.prems(3,4) I(3) \<open>f t \<noteq> BarEnter\<close> by auto
    from run_step.IH [OF bar_inv_step [OF run_step.prems(1,2) run_step.hyps(1,2)] run_step.prems(2) this]
      sum_rank_upd [of t n pc f, OF run_step.hyps(1) bar_rank_step [OF run_step.hyps(2) run_step.prems(3) I(3,1)]]
    show ?case by auto
  qed simp
  then show "m + (\<Sum>u < n. bar_rank (f' u)) \<le> (\<Sum>u < n. bar_rank (f u))" and "bar_inv n k s' f'" and "bar_waiters s' = 0" and "\<forall>u < n. bar_entered (f' u)" by blast+
qed

text \<open>Once the counter is 0, a thread that cannot go on by itself sleeps and another one is about to wake it.\<close>

lemma bar_progress:
  assumes "bar_inv n k s f" and "bar_waiters s = 0" and "\<forall>u < n. bar_entered (f u)" and "t < n" and "\<forall>u < n. snd (bar_step s (f u)) = f u"
  shows "f t = BarDone"
proof -
  have "f u \<noteq> BarWake" if "u < n" for u using assms(5) that by (metis bar_pc.distinct bar_step.simps(2) snd_conv)
  then have w: "0 < bar_wakes s" using assms(1,2,4) unfolding bar_inv_def by blast
  have "bar_local s (f t)" "bar_entered (f t)" "snd (bar_step s (f t)) = f t" using assms(1,3-5) by (auto simp: bar_inv_def)
  then show ?thesis using w assms(2) by (cases "f t") (auto simp: bar_entered_def split: if_splits)
qed

text \<open>C24: nobody passes the barrier early, and nobody stays behind. With as many threads as the barrier was made for, a thread has been released only after all of
  them have entered. Once all have entered, every run ends: the threads together take at most two more steps per thread, sleeping threads and waits that return without a reason
  included, and when no thread can go on by itself all of them have returned. The wait callback sleeps as long as the word has the given value and nobody calls the
  wake callback, so that this rests on the call of \<^verbatim>\<open>wake_all\<close>.\<close>

theorem barrier_releases_together:
  assumes "conc_reach n bar_thread (bar_new k) BarIdle s f" and "n = unat k"
  shows "(\<forall>t < n. bar_released (f t) \<longrightarrow> (\<forall>u < n. bar_entered (f u)))
    \<and> ((\<forall>u < n. bar_entered (f u)) \<longrightarrow> (\<forall>m s' f'. conc_run n bar_thread m s f s' f' \<longrightarrow>
         m \<le> 2 * n \<and> ((\<forall>u < n. snd (bar_step s' (f' u)) = f' u) \<longrightarrow> (\<forall>t < n. f' t = BarDone))))"
proof -
  have I: "bar_inv n n s f" using bar_reach_inv [OF assms(1)] assms(2) by simp
  have full: "bar_waiters s = 0 \<longleftrightarrow> (\<forall>u < n. bar_entered (f u))"
  proof
    assume "bar_waiters s = 0"
    then have "number n bar_entered f = n" using I by (simp add: bar_inv_def)
    then show "\<forall>u < n. bar_entered (f u)" using number_less [of _ n bar_entered f] by force
  next
    assume "\<forall>u < n. bar_entered (f u)"
    then have "{t. t < n \<and> bar_entered (f t)} = {..< n}" by auto
    then have "unat (bar_waiters s) = 0" using I by (simp add: bar_inv_def number_def)
    then show "bar_waiters s = 0" by (simp add: unat_eq_zero)
  qed
  have "bar_waiters s = 0" if "bar_released (f t)" for t
  proof -
    have "bar_local s (f t)" using I by (simp add: bar_inv_def)
    then show ?thesis using that by (auto simp: bar_released_def)
  qed
  moreover have "m \<le> 2 * n \<and> ((\<forall>u < n. snd (bar_step s' (f' u)) = f' u) \<longrightarrow> (\<forall>t < n. f' t = BarDone))"
    if all: "\<forall>u < n. bar_entered (f u)" and run: "conc_run n bar_thread m s f s' f'" for m s' f'
  proof -
    have zero: "bar_waiters s = 0" using full all by blast
    note R = bar_run [OF run I le_refl zero all]
    have "bar_rank (f u) \<le> 2" for u by (cases "f u") auto
    then have "(\<Sum>u < n. bar_rank (f u)) \<le> 2 * n" using sum_mono [of "{..< n}" "\<lambda>u. bar_rank (f u)" "\<lambda>_. 2"] by simp
    then have "m \<le> 2 * n" using R(1) by linarith
    then show ?thesis using bar_progress [OF R(2-4)] by blast
  qed
  ultimately show ?thesis using full by blast
qed

text \<open>Two threads: the first one has entered, spun in vain and fallen asleep; then the second one enters.\<close>

lemma barrier_sleeper:
  "\<exists>s f. conc_reach 2 bar_thread (bar_new 2) BarIdle s f \<and> f 0 = BarAsleep 0 \<and> f 1 = BarWake"
proof -
  let ?R = "conc_reach 2 bar_thread (bar_new 2) BarIdle" and ?S = "\<lambda>w. \<lparr>bar_waiters = w, bar_wakes = 0\<rparr>" and ?f = "\<lambda>pc. (\<lambda>_. BarIdle)(0 := pc)"
  have st: "?R s' (f(t := pc))" if "?R s f" "t < 2" "bar_thread s (f t) s' pc" for s f t s' pc using conc_reach.step [OF that] .
  have 0: "?R (?S 2) (\<lambda>_. BarIdle)" using conc_reach.start [of 2 bar_thread "bar_new 2" BarIdle] by (simp add: bar_new_def)
  have 1: "?R (?S 2) (?f BarEnter)" using st [OF 0, of 0 "?S 2" BarEnter] by (simp add: bar_call)
  have 2: "?R (?S 1) (?f (BarSpin 0))" using st [OF 1, of 0 "?S 1" "BarSpin 0"] bar_work [of "?S 2" BarEnter] by simp
  have 3: "?R (?S 1) ((?f (BarSpin 0))(0 := BarSpin (SPIN_REPETITIONS - 1)))"
  proof (rule conc_reach_run [OF 2, of 0 BarSpin 0])
    show "bar_thread (?S 1) (BarSpin i) (?S 1) (BarSpin (Suc i))" if "i < SPIN_REPETITIONS - 1" for i
      using that by (intro bar_work) auto
  qed simp_all
  then have 4: "?R (?S 1) (?f (BarSpin (SPIN_REPETITIONS - 1)))" by simp
  have 5: "?R (?S 1) (?f BarLoop)"
    using st [OF 4, of 0 "?S 1" BarLoop] bar_work [of "?S 1" "BarSpin (SPIN_REPETITIONS - 1)"] by (simp add: SPIN_REPETITIONS_def)
  have 6: "?R (?S 1) (?f (BarCall 1))" using st [OF 5, of 0 "?S 1" "BarCall 1"] bar_work [of "?S 1" BarLoop] by simp
  have 7: "?R (?S 1) (?f (BarAsleep 0))" using st [OF 6, of 0 "?S 1" "BarAsleep 0"] bar_work [of "?S 1" "BarCall 1"] by simp
  have 8: "?R (?S 1) ((?f (BarAsleep 0))(1 := BarEnter))" using st [OF 7, of 1 "?S 1" BarEnter] by (simp add: bar_call)
  have "?R (?S 0) ((?f (BarAsleep 0))(1 := BarEnter, 1 := BarWake))" using st [OF 8, of 1 "?S 0" BarWake] bar_work [of "?S 1" BarEnter] by simp
  then show ?thesis by (intro exI [of _ "?S 0"] exI [of _ "(?f (BarAsleep 0))(1 := BarEnter, 1 := BarWake)"]) simp
qed

theorem barrier_releases_together_witness:
  "\<exists>s f. conc_reach 2 bar_thread (bar_new 2) BarIdle s f \<and> f 0 = BarAsleep 0 \<and> f 1 = BarWake
     \<and> (\<forall>m s' f'. conc_run 2 bar_thread m s f s' f' \<longrightarrow> m \<le> 4 \<and> ((\<forall>u < 2. snd (bar_step s' (f' u)) = f' u) \<longrightarrow> f' 0 = BarDone \<and> f' 1 = BarDone))"
proof -
  obtain s f where r: "conc_reach 2 bar_thread (bar_new 2) BarIdle s f" "f 0 = BarAsleep 0" "f 1 = BarWake" using barrier_sleeper by blast
  have "\<forall>u < 2. bar_entered (f u)" using r(2,3) by (auto simp: less_2_cases_iff bar_entered_def)
  then have "\<forall>m s' f'. conc_run 2 bar_thread m s f s' f' \<longrightarrow> m \<le> 4 \<and> ((\<forall>u < 2. snd (bar_step s' (f' u)) = f' u) \<longrightarrow> f' 0 = BarDone \<and> f' 1 = BarDone)"
    using barrier_releases_together [OF r(1)] by simp
  then show ?thesis using r by blast
qed

end
