(* ===== verification/WinPthread.thy ===== *)
theory WinPthread
  imports RwLock Semaphore
begin

unbundle bit_operations_syntax

text \<open>
  \<^verbatim>\<open>elkodon_pal/posix/src/windows/pthread.rs\<close> and \<^verbatim>\<open>semaphore.rs\<close>: the POSIX calls that are built from the primitives on Windows. The
  calls on a \<^verbatim>\<open>pthread_mutex_t\<close> are taken one after the other: \<open>None\<close> is a call that does not return as long as nobody else
  changes the mutex. \<open>tid\<close> is the answer of \<^verbatim>\<open>GetCurrentThreadId\<close> and \<open>exit_code_call\<close> the return value of
  \<^verbatim>\<open>GetExitCodeThread\<close>.
\<close>

datatype errno = ESUCCES | EAGAIN | EBUSY | EINVAL | EDEADLK | EOVERFLOW | ETIMEDOUT | EOWNERDEAD | ENOTRECOVERABLE

section \<open>Mutex\<close>

definition PTHREAD_MUTEX_NORMAL :: u32 where "PTHREAD_MUTEX_NORMAL = 1"
definition PTHREAD_MUTEX_RECURSIVE :: u32 where "PTHREAD_MUTEX_RECURSIVE = 2"
definition PTHREAD_MUTEX_ERRORCHECK :: u32 where "PTHREAD_MUTEX_ERRORCHECK = 4"
definition PTHREAD_MUTEX_STALLED :: u32 where "PTHREAD_MUTEX_STALLED = 8"
definition PTHREAD_MUTEX_ROBUST :: u32 where "PTHREAD_MUTEX_ROBUST = 16"
definition STILL_ACTIVE :: int where "STILL_ACTIVE = 259"

lemmas pthread_flags = PTHREAD_MUTEX_NORMAL_def PTHREAD_MUTEX_RECURSIVE_def PTHREAD_MUTEX_ERRORCHECK_def
  PTHREAD_MUTEX_STALLED_def PTHREAD_MUTEX_ROBUST_def

record pthread_mutex =
  pm_mtx :: u32
  pm_track_thread_id :: bool
  pm_mtype :: u32
  pm_current_owner :: u64
  pm_inconsistent_state :: bool
  pm_unrecoverable_state :: bool

definition pthread_mutex_init :: "u32 \<Rightarrow> u32 \<Rightarrow> pthread_mutex" where
  "pthread_mutex_init mtype robustness =
     \<lparr>pm_mtx = mtx_new,
      pm_track_thread_id = (mtype = PTHREAD_MUTEX_ERRORCHECK \<or> mtype = PTHREAD_MUTEX_RECURSIVE \<or> robustness = PTHREAD_MUTEX_ROBUST),
      pm_mtype = mtype OR robustness, pm_current_owner = 0, pm_inconsistent_state = False, pm_unrecoverable_state = False\<rparr>"

definition owner_and_ref_count :: "u64 \<Rightarrow> u32 \<times> u32" where
  "owner_and_ref_count v = (ucast (drop_bit 32 v), ucast (drop_bit 32 (push_bit 32 v)))"

definition owner_value :: "u32 \<Rightarrow> u64" where
  "owner_value tid = push_bit 32 (ucast tid)"

definition has_flag :: "pthread_mutex \<Rightarrow> u32 \<Rightarrow> bool" where
  "has_flag m flag \<longleftrightarrow> pm_mtype m AND flag \<noteq> 0"

text \<open>\<^verbatim>\<open>prepare_lock\<close> goes on with the lock (\<open>Inl\<close>, the code -1) or has the result of the call. The owner that finds itself returns at
  once, or spins for ever when the mutex is neither recursive nor error checking.\<close>

definition prepare_lock :: "u32 \<Rightarrow> (u32 \<Rightarrow> int) \<Rightarrow> pthread_mutex \<Rightarrow> (pthread_mutex \<times> (unit + errno)) option" where
  "prepare_lock tid exit_code_call m =
     (if \<not> pm_track_thread_id m then Some (m, Inl ())
      else case owner_and_ref_count (pm_current_owner m) of (owner, ref_count) \<Rightarrow>
        if has_flag m PTHREAD_MUTEX_ROBUST \<and> pm_unrecoverable_state m then Some (m, Inr ENOTRECOVERABLE)
        else if has_flag m PTHREAD_MUTEX_ROBUST \<and> owner \<noteq> 0 \<and> exit_code_call owner \<noteq> STILL_ACTIVE
        then Some (m\<lparr>pm_current_owner := owner_value tid, pm_inconsistent_state := True\<rparr>, Inr EOWNERDEAD)
        else if owner \<noteq> tid then Some (m, Inl ())
        else if has_flag m PTHREAD_MUTEX_ERRORCHECK then Some (m, Inr EDEADLK)
        else if ref_count = - 1 then Some (m, Inr EAGAIN)
        else if has_flag m PTHREAD_MUTEX_RECURSIVE
        then Some (m\<lparr>pm_current_owner := pm_current_owner m + 1\<rparr>, Inr ESUCCES)
        else None)"

definition take_mutex :: "u32 \<Rightarrow> pthread_mutex \<Rightarrow> pthread_mutex" where
  "take_mutex tid m =
     (let m' = m\<lparr>pm_mtx := 1\<rparr> in if pm_track_thread_id m then m'\<lparr>pm_current_owner := owner_value tid\<rparr> else m')"

text \<open>The inner lock waits without a limit; a held mutex stays held.\<close>

definition pthread_mutex_lock :: "u32 \<Rightarrow> (u32 \<Rightarrow> int) \<Rightarrow> pthread_mutex \<Rightarrow> (pthread_mutex \<times> errno) option" where
  "pthread_mutex_lock tid exit_code_call m =
     (case prepare_lock tid exit_code_call m of
        None \<Rightarrow> None
      | Some (m', Inr e) \<Rightarrow> Some (m', e)
      | Some (m', Inl _) \<Rightarrow> if pm_mtx m' = 0 then Some (take_mutex tid m', ESUCCES) else None)"

text \<open>A timed lock ignores \<^verbatim>\<open>EDEADLK\<close> and gives up after one wait.\<close>

definition pthread_mutex_timedlock :: "u32 \<Rightarrow> (u32 \<Rightarrow> int) \<Rightarrow> pthread_mutex \<Rightarrow> (pthread_mutex \<times> errno) option" where
  "pthread_mutex_timedlock tid exit_code_call m =
     (case prepare_lock tid exit_code_call m of
        None \<Rightarrow> None
      | Some (m', r) \<Rightarrow>
          if r = Inl () \<or> r = Inr EDEADLK
          then Some (if pm_mtx m' = 0 then (take_mutex tid m', ESUCCES) else (m', ETIMEDOUT))
          else (case r of Inr e \<Rightarrow> Some (m', e) | Inl _ \<Rightarrow> None))"

definition pthread_mutex_trylock :: "u32 \<Rightarrow> (u32 \<Rightarrow> int) \<Rightarrow> pthread_mutex \<Rightarrow> (pthread_mutex \<times> errno) option" where
  "pthread_mutex_trylock tid exit_code_call m =
     (case prepare_lock tid exit_code_call m of
        None \<Rightarrow> None
      | Some (m', Inr e) \<Rightarrow> Some (m', e)
      | Some (m', Inl _) \<Rightarrow> Some (if pm_mtx m' = 0 then (take_mutex tid m', ESUCCES) else (m', EBUSY)))"

definition pthread_mutex_unlock :: "u32 \<Rightarrow> pthread_mutex \<Rightarrow> pthread_mutex \<times> errno" where
  "pthread_mutex_unlock tid m =
     (if has_flag m PTHREAD_MUTEX_ERRORCHECK \<and> tid \<noteq> fst (owner_and_ref_count (pm_current_owner m)) then (m, EBUSY)
      else
        let m1 = (if pm_inconsistent_state m then m\<lparr>pm_unrecoverable_state := True\<rparr> else m);
            m2 = (if has_flag m PTHREAD_MUTEX_RECURSIVE
                  then m1\<lparr>pm_current_owner := (if snd (owner_and_ref_count (pm_current_owner m1)) = 0 then 0 else pm_current_owner m1 - 1)\<rparr>
                  else m1\<lparr>pm_current_owner := 0\<rparr>)
        in (m2\<lparr>pm_mtx := 0\<rparr>, ESUCCES))"

definition pthread_mutex_consistent :: "pthread_mutex \<Rightarrow> pthread_mutex \<times> errno" where
  "pthread_mutex_consistent m = (m\<lparr>pm_inconsistent_state := False\<rparr>, ESUCCES)"

lemma owner_of_value [simp]: "owner_and_ref_count (owner_value tid) = (tid, 0)"
proof -
  have "ucast (drop_bit 32 (push_bit 32 (ucast tid :: u64))) = tid"
    by (rule bit_word_eqI) (auto simp: bit_simps)
  moreover have "ucast (drop_bit 32 (push_bit 32 (push_bit 32 (ucast tid :: u64)))) = (0 :: u32)"
    by (rule bit_word_eqI) (auto simp: bit_simps)
  ultimately show ?thesis by (simp add: owner_and_ref_count_def owner_value_def)
qed

lemma owner_of_value_Suc [simp]: "owner_and_ref_count (owner_value tid + 1) = (tid, 1)"
proof -
  have d: "owner_value tid AND 1 = 0" by (rule bit_word_eqI) (auto simp: owner_value_def bit_simps)
  then have e: "owner_value tid + 1 = owner_value tid OR 1" by (simp add: disjunctive_add_eq_or)
  have "ucast (drop_bit 32 (owner_value tid OR 1)) = tid"
    by (rule bit_word_eqI) (auto simp: owner_value_def bit_simps)
  moreover have "ucast (drop_bit 32 (push_bit 32 (owner_value tid OR 1))) = (1 :: u32)"
    by (rule bit_word_eqI) (auto simp: owner_value_def bit_simps)
  ultimately show ?thesis by (simp add: owner_and_ref_count_def e)
qed

text \<open>An error checking mutex with its owner, 0 for none.\<close>

definition ec_mutex :: "u32 \<Rightarrow> pthread_mutex" where
  "ec_mutex owner =
     \<lparr>pm_mtx = (if owner = 0 then 0 else 1), pm_track_thread_id = True, pm_mtype = PTHREAD_MUTEX_ERRORCHECK OR PTHREAD_MUTEX_STALLED,
      pm_current_owner = owner_value owner, pm_inconsistent_state = False, pm_unrecoverable_state = False\<rparr>"

lemma owner_value_0 [simp]: "owner_value 0 = 0"
  by (simp add: owner_value_def)

lemma ec_mutex_simps [simp]:
  "has_flag (ec_mutex t) PTHREAD_MUTEX_ERRORCHECK" "\<not> has_flag (ec_mutex t) PTHREAD_MUTEX_ROBUST" "\<not> has_flag (ec_mutex t) PTHREAD_MUTEX_RECURSIVE"
  "pm_track_thread_id (ec_mutex t)" "pm_current_owner (ec_mutex t) = owner_value t" "pm_mtx (ec_mutex t) = (if t = 0 then 0 else 1)"
  "\<not> pm_inconsistent_state (ec_mutex t)"
  by (simp_all add: has_flag_def ec_mutex_def pthread_flags)

lemma ec_mutex_take: "tid \<noteq> 0 \<Longrightarrow> take_mutex tid (ec_mutex 0) = ec_mutex tid"
  by (simp add: take_mutex_def ec_mutex_def)

lemma ec_mutex_drop: "(ec_mutex t)\<lparr>pm_current_owner := 0, pm_mtx := 0\<rparr> = ec_mutex 0"
  by (simp add: ec_mutex_def)

lemma ec_prepare: "tid \<noteq> 0 \<Longrightarrow> prepare_lock tid x (ec_mutex t) = Some (ec_mutex t, if t = tid then Inr EDEADLK else Inl ())"
  by (simp add: prepare_lock_def)

text \<open>The error checking mutex of the Windows port refines its owner: the first lock makes the caller the owner; the owner
  is told about its deadlock and everybody else waits, or gets \<^verbatim>\<open>EBUSY\<close> or \<^verbatim>\<open>ETIMEDOUT\<close>; only the owner can unlock. Every result is
  again an error checking mutex with the right owner.\<close>

theorem errorcheck_mutex_refines_owner:
  assumes "tid \<noteq> 0"
  shows "pthread_mutex_init PTHREAD_MUTEX_ERRORCHECK PTHREAD_MUTEX_STALLED = ec_mutex 0
    \<and> pthread_mutex_lock tid x (ec_mutex owner) =
        (if owner = 0 then Some (ec_mutex tid, ESUCCES) else if owner = tid then Some (ec_mutex owner, EDEADLK) else None)
    \<and> pthread_mutex_trylock tid x (ec_mutex owner) =
        Some (if owner = 0 then (ec_mutex tid, ESUCCES) else (ec_mutex owner, if owner = tid then EDEADLK else EBUSY))
    \<and> pthread_mutex_timedlock tid x (ec_mutex owner) =
        Some (if owner = 0 then (ec_mutex tid, ESUCCES) else (ec_mutex owner, ETIMEDOUT))
    \<and> pthread_mutex_unlock tid (ec_mutex owner) = (if owner = tid then (ec_mutex 0, ESUCCES) else (ec_mutex owner, EBUSY))"
  using assms
  by (auto simp: pthread_mutex_lock_def pthread_mutex_trylock_def pthread_mutex_timedlock_def pthread_mutex_unlock_def
      ec_prepare ec_mutex_take ec_mutex_drop pthread_mutex_init_def) (simp add: ec_mutex_def mtx_new_def)

theorem errorcheck_mutex_refines_owner_witness:
  "pthread_mutex_unlock 8 (ec_mutex 7) = (ec_mutex 7, EBUSY) \<and> pthread_mutex_lock 7 (\<lambda>_. 1) (ec_mutex 7) = Some (ec_mutex 7, EDEADLK)"
proof -
  have n: "(7 :: u32) \<noteq> 0" "(8 :: u32) \<noteq> 0" by simp_all
  show ?thesis using errorcheck_mutex_refines_owner [OF n(1), of "\<lambda>_. 1" 7] errorcheck_mutex_refines_owner [OF n(2), of "\<lambda>_. 1" 7] by simp
qed

text \<open>Two kinds of mutex of the Windows port do not exclude. A recursive mutex that was locked twice and unlocked once by a thread is free for
  everybody, although the thread is still recorded as its owner. A robust mutex that is held is handed to the next
  thread with \<^verbatim>\<open>EOWNERDEAD\<close>, whether the owner lives or not, since the return value of \<^verbatim>\<open>GetExitCodeThread\<close> (which only says
  whether the call succeeded, 0 or 1) is compared with \<^verbatim>\<open>STILL_ACTIVE\<close> in the place of the exit code.\<close>

theorem recursive_and_robust_mutex_broken:
  assumes "a \<noteq> 0" and "b \<noteq> 0" and "a \<noteq> b" and "\<And>t. exit_code_call t \<in> {0, 1}"
  shows "(\<exists>m1 m2 m3 m4. pthread_mutex_lock a exit_code_call (pthread_mutex_init PTHREAD_MUTEX_RECURSIVE PTHREAD_MUTEX_STALLED) = Some (m1, ESUCCES)
      \<and> pthread_mutex_lock a exit_code_call m1 = Some (m2, ESUCCES) \<and> pthread_mutex_unlock a m2 = (m3, ESUCCES)
      \<and> owner_and_ref_count (pm_current_owner m3) = (a, 0) \<and> pthread_mutex_lock b exit_code_call m3 = Some (m4, ESUCCES))
    \<and> (\<exists>m1 m2. pthread_mutex_lock a exit_code_call (pthread_mutex_init PTHREAD_MUTEX_NORMAL PTHREAD_MUTEX_ROBUST) = Some (m1, ESUCCES)
      \<and> pthread_mutex_lock b exit_code_call m1 = Some (m2, EOWNERDEAD) \<and> owner_and_ref_count (pm_current_owner m2) = (b, 0))"
proof -
  let ?r = "\<lambda>x v. \<lparr>pm_mtx = x, pm_track_thread_id = True, pm_mtype = PTHREAD_MUTEX_RECURSIVE OR PTHREAD_MUTEX_STALLED,
    pm_current_owner = v, pm_inconsistent_state = False, pm_unrecoverable_state = False\<rparr>"
  have o: "owner_and_ref_count 0 = (0, 0)" by (simp add: owner_and_ref_count_def)
  have e: "exit_code_call t \<noteq> STILL_ACTIVE" for t using assms(4) [of t] by (auto simp: STILL_ACTIVE_def)
  have f: "has_flag (?r x v) PTHREAD_MUTEX_RECURSIVE" "\<not> has_flag (?r x v) PTHREAD_MUTEX_ROBUST" "\<not> has_flag (?r x v) PTHREAD_MUTEX_ERRORCHECK" for x v
    by (simp_all add: has_flag_def pthread_flags)
  have i: "pthread_mutex_init PTHREAD_MUTEX_RECURSIVE PTHREAD_MUTEX_STALLED = ?r 0 0"
    by (simp add: pthread_mutex_init_def mtx_new_def)
  have 1: "pthread_mutex_lock a exit_code_call (?r 0 0) = Some (?r 1 (owner_value a), ESUCCES)"
    using assms(1) f by (simp add: pthread_mutex_lock_def prepare_lock_def o take_mutex_def)
  have 2: "pthread_mutex_lock a exit_code_call (?r 1 (owner_value a)) = Some (?r 1 (owner_value a + 1), ESUCCES)"
    using f by (simp add: pthread_mutex_lock_def prepare_lock_def)
  have 3: "pthread_mutex_unlock a (?r 1 (owner_value a + 1)) = (?r 0 (owner_value a), ESUCCES)"
    using f by (simp add: pthread_mutex_unlock_def)
  have 4: "pthread_mutex_lock b exit_code_call (?r 0 (owner_value a)) = Some (?r 1 (owner_value b), ESUCCES)"
    using assms(3) f by (simp add: pthread_mutex_lock_def prepare_lock_def take_mutex_def)
  let ?s = "\<lambda>x v d. \<lparr>pm_mtx = x, pm_track_thread_id = True, pm_mtype = PTHREAD_MUTEX_NORMAL OR PTHREAD_MUTEX_ROBUST,
    pm_current_owner = v, pm_inconsistent_state = d, pm_unrecoverable_state = False\<rparr>"
  have g: "has_flag (?s x v d) PTHREAD_MUTEX_ROBUST" for x v d by (simp add: has_flag_def pthread_flags)
  have j: "pthread_mutex_init PTHREAD_MUTEX_NORMAL PTHREAD_MUTEX_ROBUST = ?s 0 0 False"
    by (simp add: pthread_mutex_init_def mtx_new_def)
  have 5: "pthread_mutex_lock a exit_code_call (?s 0 0 False) = Some (?s 1 (owner_value a) False, ESUCCES)"
    using assms(1) g by (simp add: pthread_mutex_lock_def prepare_lock_def o take_mutex_def)
  have 6: "pthread_mutex_lock b exit_code_call (?s 1 (owner_value a) False) = Some (?s 1 (owner_value b) True, EOWNERDEAD)"
    using assms(1) e g by (simp add: pthread_mutex_lock_def prepare_lock_def)
  show ?thesis unfolding i j using 1 2 3 4 5 6 by auto
qed

theorem recursive_and_robust_mutex_broken_witness:
  "\<exists>m1 m2. pthread_mutex_lock 7 (\<lambda>_. 1) (pthread_mutex_init PTHREAD_MUTEX_NORMAL PTHREAD_MUTEX_ROBUST) = Some (m1, ESUCCES)
      \<and> pthread_mutex_lock 8 (\<lambda>_. 1) m1 = Some (m2, EOWNERDEAD)"
  using recursive_and_robust_mutex_broken [of 7 8 "\<lambda>_. 1"] by auto

section \<open>Condition variable\<close>

text \<open>What the callbacks of \<^verbatim>\<open>pthread_cond_wait\<close> and \<^verbatim>\<open>pthread_mutex_lock\<close> answer: the wait for the notification goes on, the
  one for the mutex inside of \<^verbatim>\<open>pthread_cond_wait\<close> ends the attempt, and the one of \<^verbatim>\<open>pthread_mutex_lock\<close> goes on.\<close>

fun win_answer :: "cond_pc \<Rightarrow> bool" where
  "win_answer (CvLock pc) = False"
| "win_answer _ = True"

text \<open>The result of \<^verbatim>\<open>wait\<close> is dropped.\<close>

definition pthread_cond_wait_result :: "bool \<Rightarrow> errno" where
  "pthread_cond_wait_result has_lock = ESUCCES"

inductive win_cond_thread :: "cond_shared \<Rightarrow> cond_pc \<Rightarrow> cond_shared \<Rightarrow> cond_pc \<Rightarrow> bool" where
  win_mutex: "mtx_thread (cond_mutex s) pc (cond_mutex s) pc' \<Longrightarrow> win_cond_thread s (CvMtx pc) s (CvMtx pc')"
| win_wait: "win_cond_thread s (CvMtx (MtxDone True)) s CvLoad"
| win_notify: "pc \<in> {MtxIdle, MtxDone True, MtxDone False} \<Longrightarrow> win_cond_thread s (CvMtx pc) s (CvNotify pc)"
| win_work: "cond_step (win_answer pc) s pc = (s', pc') \<Longrightarrow> win_cond_thread s pc s' pc'"

abbreviation win_reach :: "cond_shared \<Rightarrow> (nat \<Rightarrow> cond_pc) \<Rightarrow> bool" where
  "win_reach \<equiv> conc_reach 2 win_cond_thread cond_new (CvMtx MtxIdle)"

lemma win_do: "win_reach s f \<Longrightarrow> t < 2 \<Longrightarrow> cond_step (win_answer (f t)) s (f t) = (s', pc) \<Longrightarrow> win_reach s' (f(t := pc))"
  using conc_reach.step win_cond_thread.win_work by metis

lemma win_call: "win_reach s f \<Longrightarrow> t < 2 \<Longrightarrow> win_cond_thread s (f t) s pc \<Longrightarrow> win_reach s (f(t := pc))"
  using conc_reach.step by metis

text \<open>A lock call inside of \<^verbatim>\<open>wait\<close> that never finds the mutex free.\<close>

lemma win_spin:
  assumes "win_reach s f" and "t < 2" and "f t = CvLock (MtxLockSpin 0)" and "cond_mutex s \<noteq> 0"
  shows "win_reach s (f(t := CvLock (MtxLockCas False)))"
proof -
  have m: "s\<lparr>cond_mutex := cond_mutex s\<rparr> = s" by simp
  have "win_cond_thread s (CvLock (MtxLockSpin i)) s (CvLock (MtxLockSpin (Suc i)))" if "i < 9999" for i
    using that assms(4) m by (intro win_cond_thread.win_work) (simp add: mtx_exchange_def SPIN_REPETITIONS_def)
  from conc_reach_run [OF assms(1,2), of "\<lambda>i. CvLock (MtxLockSpin i)" 0 9999, OF assms(3) _ this]
  have 1: "win_reach s (f(t := CvLock (MtxLockSpin 9999)))" by simp
  have 2: "win_reach s (f(t := CvLock MtxLockWait))"
    using win_do [OF 1 assms(2), of s "CvLock MtxLockWait"] assms(4) m by (simp add: mtx_exchange_def SPIN_REPETITIONS_def)
  show ?thesis using win_do [OF 2 assms(2), of s "CvLock (MtxLockCas False)"] m by simp
qed

text \<open>On Windows \<^verbatim>\<open>pthread_cond_wait\<close> can return with success to a thread that does not hold the mutex: when the notifying thread keeps the
  mutex long enough, the waiting one gives up after its spins and one wait. Thread 1 has notified and
  still holds the mutex; thread 0 is inside of the call, and its next step is to return.\<close>

theorem cond_wait_returns_without_mutex:
  "\<exists>s f. win_reach s f \<and> f 0 = CvLock (MtxLockCas False) \<and> cond_holds (f 1) \<and> cond_counter s = 1
    \<and> cond_step (win_answer (f 0)) s (f 0) = (s, CvMtx (MtxDone False)) \<and> \<not> cond_holds (CvMtx (MtxDone False))
    \<and> pthread_cond_wait_result False = ESUCCES"
proof -
  let ?i = "\<lambda>_ :: nat. CvMtx MtxIdle" and ?s = "\<lambda>m c. \<lparr>cond_mutex = m, cond_counter = c\<rparr>" and ?h = "CvMtx (MtxDone True)"
  have 0: "win_reach (?s 0 0) ?i" using conc_reach.start [of 2 win_cond_thread cond_new "CvMtx MtxIdle"] by (simp add: cond_new_def mtx_new_def)
  have 1: "win_reach (?s 0 0) (?i(0 := CvMtx MtxLockTry))"
    by (rule win_call [OF 0]) (simp_all add: win_cond_thread.win_mutex mtx_thread.call_lock)
  have 2: "win_reach (?s 1 0) (?i(0 := ?h))" using win_do [OF 1, of 0 "?s 1 0" ?h] by (simp add: mtx_exchange_def)
  have 3: "win_reach (?s 1 0) (?i(0 := CvLoad))" using win_call [OF 2, of 0 CvLoad] by (simp add: win_cond_thread.win_wait)
  have 4: "win_reach (?s 1 0) (?i(0 := CvUnlock 0))" using win_do [OF 3, of 0] by simp
  have 5: "win_reach (?s 0 0) (?i(0 := CvUnlockWake 0))" using win_do [OF 4, of 0] by simp
  have 6: "win_reach (?s 0 0) (?i(0 := CvWait 0))" using win_do [OF 5, of 0] by simp
  have 7: "win_reach (?s 0 0) (?i(0 := CvWait 0, 1 := CvMtx MtxLockTry))"
    by (rule win_call [OF 6]) (simp_all add: win_cond_thread.win_mutex mtx_thread.call_lock)
  have 8: "win_reach (?s 1 0) (?i(0 := CvWait 0, 1 := ?h))" using win_do [OF 7, of 1 "?s 1 0" ?h] by (simp add: mtx_exchange_def)
  have 9: "win_reach (?s 1 0) (?i(0 := CvWait 0, 1 := CvNotify (MtxDone True)))"
    using win_call [OF 8, of 1 "CvNotify (MtxDone True)"] by (simp add: win_cond_thread.win_notify)
  have 10: "win_reach (?s 1 1) (?i(0 := CvWait 0, 1 := CvNotifyWake (MtxDone True)))" using win_do [OF 9, of 1] by simp
  have 11: "win_reach (?s 1 1) (?i(0 := CvWait 0, 1 := ?h))" using win_do [OF 10, of 1] by simp
  have 12: "win_reach (?s 1 1) (?i(0 := CvLock MtxLockTry, 1 := ?h))" using win_do [OF 11, of 0] by (simp add: fun_upd_twist)
  have 13: "win_reach (?s 1 1) (?i(0 := CvLock (MtxLockSpin 0), 1 := ?h))"
    using win_do [OF 12, of 0 "?s 1 1" "CvLock (MtxLockSpin 0)"] by (simp add: mtx_exchange_def fun_upd_twist)
  have 14: "win_reach (?s 1 1) (?i(0 := CvLock (MtxLockCas False), 1 := ?h))" using win_spin [OF 13, of 0] by (simp add: fun_upd_twist)
  show ?thesis by (intro exI conjI) (rule 14, simp_all add: pthread_cond_wait_result_def mtx_holds_def mtx_exchange_def)
qed

section \<open>Read-write lock\<close>

datatype rw_lock_type = PreferReader u32 | PreferWriter rw_lock | NoLock

definition pthread_rwlock_init :: "bool \<Rightarrow> rw_lock_type" where
  "pthread_rwlock_init prefer_writer = (if prefer_writer then PreferWriter rw_new else PreferReader rr_new)"

definition pthread_rwlock_destroy :: "rw_lock_type \<Rightarrow> rw_lock_type" where
  "pthread_rwlock_destroy lock = NoLock"

text \<open>\<open>k\<close> steps of a call while no other thread changes the lock. All wait callbacks of the port answer true, also those of the timed
  calls.\<close>

definition rr_run :: "nat \<Rightarrow> u32 \<Rightarrow> rr_pc \<Rightarrow> u32 \<times> rr_pc" where
  "rr_run k s pc = ((\<lambda>(s, pc). rr_step True s pc) ^^ k) (s, pc)"

definition rw_run :: "nat \<Rightarrow> rw_lock \<Rightarrow> rw_pc \<Rightarrow> rw_lock \<times> rw_pc" where
  "rw_run k l pc = ((\<lambda>(l, pc). rw_step True l pc) ^^ k) (l, pc)"

text \<open>The calls that try: \<open>None\<close> is a panic.\<close>

definition pthread_rwlock_tryrdlock :: "rw_lock_type \<Rightarrow> (rw_lock_type \<times> errno) option" where
  "pthread_rwlock_tryrdlock lock =
     (case lock of
        PreferReader s \<Rightarrow> (case rr_run 2 s RrTryRead of (s', pc) \<Rightarrow> Some (PreferReader s', if pc = RrHeld Reading then ESUCCES else EBUSY))
      | PreferWriter l \<Rightarrow> (case rw_run 2 l RwTryRead of (l', pc) \<Rightarrow>
          if pc = RwPanic then None else Some (PreferWriter l', if pc = RwHeld Reading then ESUCCES else EBUSY))
      | NoLock \<Rightarrow> Some (lock, EINVAL))"

definition pthread_rwlock_trywrlock :: "rw_lock_type \<Rightarrow> rw_lock_type \<times> errno" where
  "pthread_rwlock_trywrlock lock =
     (case lock of
        PreferReader s \<Rightarrow> (case rr_run 1 s RrTryWrite of (s', pc) \<Rightarrow> (PreferReader s', if pc = RrHeld Writing then ESUCCES else EBUSY))
      | PreferWriter l \<Rightarrow> (case rw_run 1 l RwTryWrite of (l', pc) \<Rightarrow> (PreferWriter l', if pc = RwHeld Writing then ESUCCES else EBUSY))
      | NoLock \<Rightarrow> (lock, EINVAL))"

definition pthread_rwlock_unlock :: "rw_lock_type \<Rightarrow> rw_lock_type \<times> errno" where
  "pthread_rwlock_unlock lock =
     (case lock of
        PreferReader s \<Rightarrow> (PreferReader (fst (rr_run 3 s (RrUnlock Reading))), ESUCCES)
      | PreferWriter l \<Rightarrow> (PreferWriter (fst (rw_run 3 l (RwUnlock Reading))), ESUCCES)
      | NoLock \<Rightarrow> (lock, EINVAL))"

lemma rr_run_inv:
  assumes "P pc" and "\<And>pc. P pc \<Longrightarrow> \<exists>pc'. rr_step True s pc = (s, pc') \<and> P pc'"
  shows "\<exists>pc'. rr_run k s pc = (s, pc') \<and> P pc'"
proof (induction k)
  case 0
  show ?case using assms(1) by (simp add: rr_run_def)
next
  case (Suc k)
  then show ?case using assms(2) by (auto simp: rr_run_def)
qed

lemma rw_run_inv:
  assumes "P pc" and "\<And>pc. P pc \<Longrightarrow> \<exists>pc'. rw_step True l pc = (l, pc') \<and> P pc'"
  shows "\<exists>pc'. rw_run k l pc = (l, pc') \<and> P pc'"
proof (induction k)
  case 0
  show ?case using assms(1) by (simp add: rw_run_def)
next
  case (Suc k)
  then show ?case using assms(2) by (auto simp: rw_run_def)
qed

text \<open>The timed read-write locks of the Windows port never time out: since their wait callbacks answer true also after a timeout, a call on a
  lock that stays taken runs for ever, and the branch that returns \<^verbatim>\<open>ETIMEDOUT\<close> is dead code.\<close>

theorem timed_rwlock_never_times_out:
  assumes "rr_run k WRITE_LOCKED RrRead = (s1, pc1)" and "s \<noteq> UNLOCKED" and "rr_run k s (RrWriteCas 0 True) = (s2, pc2)"
    and "rw_state l = WRITE_LOCKED" and "rw_run k l RwRead = (l3, pc3)" and "rw_run k l RwWrite = (l4, pc4)"
  shows "pc1 \<notin> {RrFailed, RrHeld Reading} \<and> pc2 \<notin> {RrFailed, RrHeld Writing} \<and> pc3 \<notin> {RwFailed, RwHeld Reading} \<and> pc4 \<notin> {RwFailed, RwHeld Writing}"
proof -
  have odd: "WRITE_LOCKED mod 2 = (1 :: u32)" "\<not> WRITE_LOCKED \<le> (1 :: u32)" by (simp_all add: word_mod2 word_le_nat_alt)
  have "\<exists>pc'. rr_run k WRITE_LOCKED RrRead = (WRITE_LOCKED, pc') \<and> pc' \<in> {RrRead} \<union> {RrReadReload r True | r. True} \<union> {RrReadCall v r | v r. True}"
    by (rule rr_run_inv) (auto simp: rr_read_next_def)
  then have 1: "pc1 \<notin> {RrFailed, RrHeld Reading}" using assms(1) by auto
  have "\<exists>pc'. rr_run k s (RrWriteCas 0 True) = (s, pc') \<and> pc' \<in> {RrWriteCas r True | r. True} \<union> {RrWriteCall v r | v r. True}"
    using assms(2) by (intro rr_run_inv) auto
  then have 2: "pc2 \<notin> {RrFailed, RrHeld Writing}" using assms(3) by auto
  have "\<exists>pc'. rw_run k l RwRead = (l, pc') \<and> pc' \<in> {RwRead} \<union> {RwReadReload r True | r. True} \<union> {RwReadCall v r | v r. True}"
    by (rule rw_run_inv) (auto simp: rw_read_next_def assms(4) odd)
  then have 3: "pc3 \<notin> {RwFailed, RwHeld Reading}" using assms(5) by auto
  have "\<exists>pc'. rw_run k l RwWrite = (l, pc') \<and> pc' \<in> {RwWrite} \<union> {RwWriteReload r True | r. True} \<union> {RwWriteWake r | r. True} \<union> {RwWriteCall v r | v r. True}"
    by (rule rw_run_inv) (auto simp: rw_write_next_def rw_write_miss_def rw_write_pause_def assms(4) odd)
  then have "pc4 \<notin> {RwFailed, RwHeld Writing}" using assms(6) by auto
  with 1 2 3 show ?thesis by blast
qed

theorem timed_rwlock_never_times_out_witness:
  "snd (rr_run 20000 WRITE_LOCKED RrRead) \<noteq> RrFailed"
proof -
  have "WRITE_LOCKED \<noteq> UNLOCKED" "rw_state \<lparr>rw_state = WRITE_LOCKED, rw_wake = 0\<rparr> = WRITE_LOCKED" by simp_all
  from timed_rwlock_never_times_out [OF prod.collapse [symmetric] this(1) prod.collapse [symmetric] this(2) prod.collapse [symmetric] prod.collapse [symmetric], of 20000]
  show ?thesis by blast
qed

section \<open>Semaphore\<close>

text \<open>\<^verbatim>\<open>sem_post\<close> and \<^verbatim>\<open>sem_trywait\<close> as calls that nobody interrupts.\<close>

definition win_sem_post :: "u32 \<Rightarrow> u32 \<times> errno" where
  "win_sem_post s = (if sem_value s = - 1 then (s, EOVERFLOW) else (fst (sem_step True s SemPost), ESUCCES))"

definition win_sem_trywait :: "u32 \<Rightarrow> u32 \<times> errno" where
  "win_sem_trywait s =
     (case sem_step True s SemTryWait of (s1, pc1) \<Rightarrow> case sem_step True s1 pc1 of (s2, pc2) \<Rightarrow>
        (s2, if pc2 = SemDone True then ESUCCES else EAGAIN))"

lemma win_sem_roundtrip: "win_sem_post s = (s', ESUCCES) \<Longrightarrow> win_sem_trywait s' = (s, ESUCCES)"
proof -
  assume a: "win_sem_post s = (s', ESUCCES)"
  then have "s \<noteq> - 1" "s' = s + 1" by (auto simp: win_sem_post_def sem_value_def split: if_splits)
  moreover have "s + 1 \<noteq> 0" using \<open>s \<noteq> - 1\<close> by (metis add_eq_0_iff2)
  ultimately show ?thesis by (simp add: win_sem_trywait_def sem_try_next_def)
qed

end
