(* ===== verification/SemanticString.thy ===== *)
theory SemanticString
  imports ByteString
begin

text \<open>
  \<^verbatim>\<open>elkodon_bb/container/src/semantic_string.rs\<close> and the names of \<^verbatim>\<open>elkodon_bb/system_types\<close> and \<^verbatim>\<open>service_name.rs\<close>: byte strings whose
  content is restricted. The two associated functions of the trait are the fields of a record, one value of which stands for each type
  that the macro \<^verbatim>\<open>semantic_string!\<close> generates.

  A method on \<^verbatim>\<open>&mut self\<close> returns the string after the call together with its \<^verbatim>\<open>Result\<close> (\<open>Inl\<close> is an error). The lemmas show
  that every operation keeps the restriction and leaves the content alone when it fails, away from the full string, on which the
  underlying byte string panics.
\<close>

section \<open>The trait\<close>

datatype ss_error = InvalidCharacter | InvalidName | ExceedsMaximumLength

record semantic =
  invalid_content :: "u8 list \<Rightarrow> bool"
  invalid_characters :: "u8 list \<Rightarrow> bool"

type_synonym 'a ss_result = "byte_string \<times> (ss_error + 'a)"

definition ss_insert_bytes :: "semantic \<Rightarrow> byte_string \<Rightarrow> usize \<Rightarrow> u8 list \<Rightarrow> ('e, unit ss_result) outcome" where
  "ss_insert_bytes T s idx bytes =
     (if invalid_characters T bytes then Ok (s, Inl InvalidCharacter)
      else case insert_bytes s idx bytes of
        Err _ \<Rightarrow> Ok (s, Inl ExceedsMaximumLength)
      | Ok s1 \<Rightarrow>
          obind (as_bytes s1) (\<lambda>c.
            if invalid_content T c then omap (\<lambda>s2. (s2, Inl InvalidName)) (remove_range s1 idx (length bytes))
            else Ok (s1, Inr ()))
      | Panic \<Rightarrow> Panic | UB \<Rightarrow> UB)"

definition ss_insert :: "semantic \<Rightarrow> byte_string \<Rightarrow> usize \<Rightarrow> u8 \<Rightarrow> ('e, unit ss_result) outcome" where
  "ss_insert T s idx byte = ss_insert_bytes T s idx [byte]"

definition ss_push_bytes :: "semantic \<Rightarrow> byte_string \<Rightarrow> u8 list \<Rightarrow> ('e, unit ss_result) outcome" where
  "ss_push_bytes T s bytes = ss_insert_bytes T s (len s) bytes"

definition ss_push :: "semantic \<Rightarrow> byte_string \<Rightarrow> u8 \<Rightarrow> ('e, unit ss_result) outcome" where
  "ss_push T s byte = ss_insert T s (len s) byte"

definition ss_new :: "semantic \<Rightarrow> usize \<Rightarrow> u8 list \<Rightarrow> ('e, ss_error + byte_string) outcome" where
  "ss_new T CAPACITY value =
     obind (bs_new CAPACITY) (\<lambda>s. omap (\<lambda>(s', r). case r of Inl e \<Rightarrow> Inl e | Inr _ \<Rightarrow> Inr s') (ss_push_bytes T s value))"

text \<open>The \<^verbatim>\<open>unwrap\<close> of the insertion that restores the removed byte turns an error into a panic.\<close>

definition ss_remove :: "semantic \<Rightarrow> byte_string \<Rightarrow> usize \<Rightarrow> ('e, u8 ss_result) outcome" where
  "ss_remove T s idx =
     obind (bs_remove s idx) (\<lambda>(s1, value). obind (as_bytes s1) (\<lambda>c.
       if invalid_content T c
       then (case bs_insert s1 idx value of Ok s2 \<Rightarrow> Ok (s2, Inl InvalidName) | Err _ \<Rightarrow> Panic | Panic \<Rightarrow> Panic | UB \<Rightarrow> UB)
       else Ok (s1, Inr value)))"

definition ss_pop :: "semantic \<Rightarrow> byte_string \<Rightarrow> ('e, u8 option ss_result) outcome" where
  "ss_pop T s =
     (if len s = 0 then Ok (s, Inr None)
      else omap (\<lambda>(s', r). (s', case r of Inl e \<Rightarrow> Inl e | Inr b \<Rightarrow> Inr (Some b))) (ss_remove T s (len s - 1)))"

text \<open>The remaining operations work on a copy first.\<close>

definition ss_checked ::
  "semantic \<Rightarrow> byte_string \<Rightarrow> ('e, byte_string) outcome \<Rightarrow> ('e, unit ss_result) outcome" where
  "ss_checked T s result =
     obind result (\<lambda>temp. obind (as_bytes temp) (\<lambda>c.
       if invalid_content T c then Ok (s, Inl InvalidName) else omap (\<lambda>s'. (s', Inr ())) result))"

definition ss_remove_range :: "semantic \<Rightarrow> byte_string \<Rightarrow> usize \<Rightarrow> usize \<Rightarrow> ('e, unit ss_result) outcome" where
  "ss_remove_range T s idx n = ss_checked T s (remove_range s idx n)"

definition ss_retain :: "semantic \<Rightarrow> (u8 \<Rightarrow> bool) \<Rightarrow> byte_string \<Rightarrow> ('e, unit ss_result) outcome" where
  "ss_retain T f s = ss_checked T s (retain f s)"

definition ss_truncate :: "semantic \<Rightarrow> byte_string \<Rightarrow> usize \<Rightarrow> ('e, unit ss_result) outcome" where
  "ss_truncate T s new_len = ss_checked T s (ByteString.truncate s new_len)"

text \<open>Before a failure is reported the stripped bytes are copied into a string of 123 bytes.\<close>

definition ss_strip :: "semantic \<Rightarrow> byte_string \<Rightarrow> u8 list \<Rightarrow> ('e, byte_string \<times> bool) outcome \<Rightarrow> ('e, bool ss_result) outcome" where
  "ss_strip T s bytes result =
     obind result (\<lambda>(temp, stripped).
       if \<not> stripped then Ok (s, Inr False)
       else obind (as_bytes temp) (\<lambda>c.
         if invalid_content T c
         then obind (bs_new 123) (\<lambda>prefix. obind (insert_bytes_unchecked prefix 0 bytes) (\<lambda>_. Ok (s, Inl InvalidName)))
         else Ok (temp, Inr True)))"

definition ss_strip_prefix :: "semantic \<Rightarrow> byte_string \<Rightarrow> u8 list \<Rightarrow> ('e, bool ss_result) outcome" where
  "ss_strip_prefix T s bytes = ss_strip T s bytes (strip_prefix s bytes)"

definition ss_strip_suffix :: "semantic \<Rightarrow> byte_string \<Rightarrow> u8 list \<Rightarrow> ('e, bool ss_result) outcome" where
  "ss_strip_suffix T s bytes = ss_strip T s bytes (strip_suffix s bytes)"

section \<open>The types\<close>

definition PATH_SEPARATOR :: u8 where "PATH_SEPARATOR = 47"
definition FILENAME_LENGTH :: usize where "FILENAME_LENGTH = 255"
definition PATH_LENGTH :: usize where "PATH_LENGTH = 4096"

text \<open>The characters that no path may contain: those below 32 and \<^verbatim>\<open>< > " | ? *\<close>.\<close>

definition path_character :: "u8 \<Rightarrow> bool" where
  "path_character c \<longleftrightarrow> c \<noteq> 0 \<and> \<not> (1 \<le> c \<and> c \<le> 31) \<and> c \<notin> {60, 62, 34, 124, 63, 42}"

text \<open>A file name contains neither \<^verbatim>\<open>/\<close> nor \<^verbatim>\<open>:\<close> nor a backslash.\<close>

definition file_name_character :: "u8 \<Rightarrow> bool" where
  "file_name_character c \<longleftrightarrow> path_character c \<and> c \<notin> {47, 58, 92}"

text \<open>Lower case letters, digits and \<^verbatim>\<open>-\<close>.\<close>

definition user_character :: "u8 \<Rightarrow> bool" where
  "user_character c \<longleftrightarrow> 97 \<le> c \<and> c \<le> 122 \<or> 48 \<le> c \<and> c \<le> 57 \<or> c = 45"

definition FileName :: semantic where
  "FileName = \<lparr>invalid_content = (\<lambda>v. v \<in> {[], [46], [46, 46]}), invalid_characters = list_ex (\<lambda>c. \<not> file_name_character c)\<rparr>"

definition Path :: semantic where
  "Path = \<lparr>invalid_content = (\<lambda>_. False), invalid_characters = list_ex (\<lambda>c. \<not> path_character c)\<rparr>"

definition file_path_invalid :: "u8 list \<Rightarrow> bool" where
  "file_path_invalid string \<longleftrightarrow> string \<in> {[], [46], [46, 46]} \<or> last string = PATH_SEPARATOR
     \<or> 2 \<le> length string \<and> drop (length string - 2) string = [PATH_SEPARATOR, 46]
     \<or> 3 \<le> length string \<and> drop (length string - 3) string = [PATH_SEPARATOR, 46, 46]"

definition FilePath :: semantic where
  "FilePath = \<lparr>invalid_content = file_path_invalid, invalid_characters = list_ex (\<lambda>c. \<not> path_character c)\<rparr>"

definition user_name_invalid :: "u8 list \<Rightarrow> bool" where
  "user_name_invalid string \<longleftrightarrow> string = [] \<or> hd string = 45 \<or> 48 \<le> hd string \<and> hd string \<le> 57"

definition UserName :: semantic where
  "UserName = \<lparr>invalid_content = user_name_invalid, invalid_characters = list_ex (\<lambda>c. \<not> user_character c)\<rparr>"

definition GroupName :: semantic where
  "GroupName = \<lparr>invalid_content = user_name_invalid, invalid_characters = list_ex (\<lambda>c. \<not> user_character c)\<rparr>"

definition ServiceName :: semantic where
  "ServiceName = \<lparr>invalid_content = (\<lambda>v. v = []), invalid_characters = (\<lambda>_. False)\<rparr>"

section \<open>Validity\<close>

definition ss_valid :: "semantic \<Rightarrow> byte_string \<Rightarrow> bool" where
  "ss_valid T s \<longleftrightarrow> bs_wf s \<and> \<not> invalid_content T (content s) \<and> \<not> invalid_characters T (content s)"

text \<open>One operation as data, with the error that it reports, what it needs of its arguments, and what it does to the content.\<close>

datatype ss_op =
  SsInsert usize "u8 list" | SsPop | SsRemove usize | SsRemoveRange usize usize | SsRetain "u8 \<Rightarrow> bool"
| SsStripPrefix "u8 list" | SsStripSuffix "u8 list" | SsTruncate usize

definition ss_fin :: "('e, 'a ss_result) outcome \<Rightarrow> ('e, byte_string \<times> ss_error option) outcome" where
  "ss_fin x = omap (\<lambda>(s', r). (s', case r of Inl e \<Rightarrow> Some e | Inr _ \<Rightarrow> None)) x"

fun ss_do :: "semantic \<Rightarrow> ss_op \<Rightarrow> byte_string \<Rightarrow> ('e, byte_string \<times> ss_error option) outcome" where
  "ss_do T (SsInsert idx bytes) s = ss_fin (ss_insert_bytes T s idx bytes)"
| "ss_do T SsPop s = ss_fin (ss_pop T s)"
| "ss_do T (SsRemove idx) s = ss_fin (ss_remove T s idx)"
| "ss_do T (SsRemoveRange idx n) s = ss_fin (ss_remove_range T s idx n)"
| "ss_do T (SsRetain f) s = ss_fin (ss_retain T f s)"
| "ss_do T (SsStripPrefix bytes) s = ss_fin (ss_strip_prefix T s bytes)"
| "ss_do T (SsStripSuffix bytes) s = ss_fin (ss_strip_suffix T s bytes)"
| "ss_do T (SsTruncate n) s = ss_fin (ss_truncate T s n)"

fun ss_guard :: "ss_op \<Rightarrow> byte_string \<Rightarrow> bool" where
  "ss_guard (SsInsert idx bytes) s \<longleftrightarrow> idx \<le> len s \<and> len s + length bytes \<noteq> cap s \<and> length bytes < 2 ^ 63"
| "ss_guard SsPop s \<longleftrightarrow> True"
| "ss_guard (SsRemove idx) s \<longleftrightarrow> idx < len s"
| "ss_guard (SsRemoveRange idx n) s \<longleftrightarrow> idx + n \<le> len s"
| "ss_guard (SsRetain f) s \<longleftrightarrow> True"
| "ss_guard (SsStripPrefix bytes) s \<longleftrightarrow> length bytes \<le> 123"
| "ss_guard (SsStripSuffix bytes) s \<longleftrightarrow> length bytes \<le> 123"
| "ss_guard (SsTruncate n) s \<longleftrightarrow> True"

fun ss_apply :: "ss_op \<Rightarrow> u8 list \<Rightarrow> u8 list" where
  "ss_apply (SsInsert idx bytes) c = take idx c @ bytes @ drop idx c"
| "ss_apply SsPop c = butlast c"
| "ss_apply (SsRemove idx) c = take idx c @ drop (Suc idx) c"
| "ss_apply (SsRemoveRange idx n) c = take idx c @ drop (idx + n) c"
| "ss_apply (SsRetain f) c = filter (\<lambda>b. \<not> f b) c"
| "ss_apply (SsStripPrefix bytes) c = (if take (length bytes) c = bytes then drop (length bytes) c else c)"
| "ss_apply (SsStripSuffix bytes) c =
     (if length bytes \<le> length c \<and> drop (length c - length bytes) c = bytes then take (length c - length bytes) c else c)"
| "ss_apply (SsTruncate n) c = take n c"

lemma bs_wf_len_content: "bs_wf s \<Longrightarrow> len s = length (content s)"
  by (simp add: length_content)

text \<open>The error that an operation has to report: an insertion looks at the inserted characters first, then at the length, then at the result; the other
  operations look at the result only.\<close>

definition ss_refusal :: "semantic \<Rightarrow> ss_op \<Rightarrow> byte_string \<Rightarrow> ss_error option" where
  "ss_refusal T op s =
     (case op of
        SsInsert idx bytes \<Rightarrow> if invalid_characters T bytes then Some InvalidCharacter else if cap s < len s + length bytes then Some ExceedsMaximumLength
          else if invalid_content T (ss_apply op (content s)) then Some InvalidName else None
      | _ \<Rightarrow> if invalid_content T (ss_apply op (content s)) then Some InvalidName else None)"

text \<open>The shape of the results: an operation fails with the error \<open>e\<close> and leaves the content, or puts \<open>c\<close> in its place.\<close>

definition ss_result_ok :: "byte_string \<Rightarrow> u8 list \<Rightarrow> ss_error option \<Rightarrow> ('e, byte_string \<times> ss_error option) outcome \<Rightarrow> bool" where
  "ss_result_ok s c e x \<longleftrightarrow> (\<exists>s'. x = Ok (s', e) \<and> bs_wf s' \<and> cap s' = cap s \<and> content s' = (if e = None then c else content s))"

abbreviation ss_name_error :: "semantic \<Rightarrow> u8 list \<Rightarrow> ss_error option" where
  "ss_name_error T c \<equiv> (if invalid_content T c then Some InvalidName else None)"

lemma ss_result_okI:
  "x = Ok (s', e) \<Longrightarrow> bs_wf s' \<Longrightarrow> cap s' = cap s \<Longrightarrow> content s' = (if e = None then c else content s) \<Longrightarrow> ss_result_ok s c e x"
  unfolding ss_result_ok_def by blast

lemma ss_fin_simps [simp]: "ss_fin (Ok (s, Inl e)) = Ok (s, Some e)" "ss_fin (Ok (s, Inr v)) = Ok (s, None)"
  by (simp_all add: ss_fin_def)

text \<open>An operation that is tried on a copy.\<close>

lemma ss_checked_ok:
  assumes "bs_wf s" and "result = (Ok s' :: ('e, _) outcome)" and "bs_wf s'" and "cap s' = cap s" and "content s' = c"
  shows "ss_result_ok s c (ss_name_error T c) (ss_fin (ss_checked T s result))"
proof (cases "invalid_content T c")
  case True
  then have "ss_checked T s result = Ok (s, Inl InvalidName)" using assms by (simp add: ss_checked_def as_bytes_content)
  then show ?thesis using assms True by (intro ss_result_okI [of _ s]) simp_all
next
  case False
  then have "ss_checked T s result = Ok (s', Inr ())" using assms by (simp add: ss_checked_def as_bytes_content)
  then show ?thesis using assms False by (intro ss_result_okI [of _ s']) simp_all
qed

lemma ss_strip_ok:
  assumes "bs_wf s" and "length bytes \<le> 123" and "result = (Ok (s', b) :: ('e, _) outcome)" and "bs_wf s'" and "cap s' = cap s"
    and "content s' = c" and "\<not> b \<longrightarrow> c = content s" and "\<not> invalid_content T (content s)"
  shows "ss_result_ok s c (ss_name_error T c) (ss_fin (ss_strip T s bytes result))"
proof -
  obtain p where p: "bs_new 123 = (Ok p :: ('e, _) outcome)" "bs_repr p [] (data p)" "cap p = 123"
    using bs_new_repr [of 123, where ?'a = 'e] by auto
  have "\<exists>p' r'. insert_bytes_unchecked p 0 bytes = (Ok p' :: ('e, _) outcome) \<and> bs_repr p' (take 0 [] @ bytes @ drop 0 []) r' \<and> cap p' = cap p"
    using assms(2) p(3) by (intro insert_bytes_unchecked_repr [OF p(2)]) simp_all
  then obtain p' where p': "insert_bytes_unchecked p 0 bytes = (Ok p' :: ('e, _) outcome)" by blast
  consider "\<not> b" | "b" "invalid_content T c" | "b" "\<not> invalid_content T c" by blast
  then show ?thesis
  proof cases
    case 1
    then have "ss_strip T s bytes result = Ok (s, Inr False)" using assms(3) by (simp add: ss_strip_def)
    then show ?thesis using assms(1,7,8) 1 by (intro ss_result_okI [of _ s]) simp_all
  next
    case 2
    then have "ss_strip T s bytes result = Ok (s, Inl InvalidName)" using assms(3,4,6) p(1) p' by (simp add: ss_strip_def as_bytes_content)
    then show ?thesis using assms(1) 2 by (intro ss_result_okI [of _ s]) simp_all
  next
    case 3
    then have "ss_strip T s bytes result = Ok (s', Inr True)" using assms(3,4,6) by (simp add: ss_strip_def as_bytes_content)
    then show ?thesis using assms(4-6) 3 by (intro ss_result_okI [of _ s']) simp_all
  qed
qed

lemma strip_prefix_list:
  assumes "bs_wf s" and "len s < cap s"
  obtains s' b where "strip_prefix s bs = (Ok (s', b) :: ('e, _) outcome)" "bs_wf s'" "cap s' = cap s"
    "content s' = ss_apply (SsStripPrefix bs) (content s)" "\<not> b \<longrightarrow> ss_apply (SsStripPrefix bs) (content s) = content s"
proof -
  from strip_prefix_Ok [OF assms, of bs, where ?'e = 'e] obtain s' b where r: "strip_prefix s bs = (Ok (s', b) :: ('e, _) outcome)" "bs_wf s'" "cap s' = cap s"
    "if b then content s = bs @ content s' else s' = s \<and> (\<nexists>t. content s = bs @ t)" by blast
  show thesis
  proof (cases b)
    case True
    then have "content s = bs @ content s'" using r(4) by simp
    then show thesis using True by (intro that [OF r(1-3)]) simp_all
  next
    case False
    then have "s' = s" "\<nexists>t. content s = bs @ t" using r(4) by simp_all
    then have "take (length bs) (content s) \<noteq> bs" by (metis append_take_drop_id)
    then have "ss_apply (SsStripPrefix bs) (content s) = content s" by simp
    then show thesis using \<open>s' = s\<close> by (intro that [OF r(1-3)]) simp_all
  qed
qed

lemma strip_suffix_list:
  assumes "bs_wf s" and "len s < cap s"
  obtains s' b where "strip_suffix s bs = (Ok (s', b) :: ('e, _) outcome)" "bs_wf s'" "cap s' = cap s"
    "content s' = ss_apply (SsStripSuffix bs) (content s)" "\<not> b \<longrightarrow> ss_apply (SsStripSuffix bs) (content s) = content s"
proof -
  from strip_suffix_Ok [OF assms, of bs, where ?'e = 'e] obtain s' b where r: "strip_suffix s bs = (Ok (s', b) :: ('e, _) outcome)" "bs_wf s'" "cap s' = cap s"
    "if b then content s = content s' @ bs else s' = s \<and> (\<nexists>t. content s = t @ bs)" by blast
  show thesis
  proof (cases b)
    case True
    then have "content s = content s' @ bs" using r(4) by simp
    then show thesis using True by (intro that [OF r(1-3)]) simp_all
  next
    case False
    then have "s' = s" "\<nexists>t. content s = t @ bs" using r(4) by simp_all
    then have "drop (length (content s) - length bs) (content s) \<noteq> bs" by (metis append_take_drop_id)
    then have "ss_apply (SsStripSuffix bs) (content s) = content s" by simp
    then show thesis using \<open>s' = s\<close> by (intro that [OF r(1-3)]) simp_all
  qed
qed

lemma ss_insert_ok:
  assumes "bs_wf s" and "len s < cap s" and "ss_guard (SsInsert idx bytes) s"
  shows "ss_result_ok s (ss_apply (SsInsert idx bytes) (content s)) (ss_refusal T (SsInsert idx bytes) s) (ss_fin (ss_insert_bytes T s idx bytes :: ('e, _) outcome))"
proof -
  let ?c = "ss_apply (SsInsert idx bytes) (content s)"
  have g: "idx \<le> len s" "len s + length bytes \<noteq> cap s" "length bytes < 2 ^ 63" using assms(3) by auto
  consider "invalid_characters T bytes" | "\<not> invalid_characters T bytes" "cap s < len s + length bytes"
    | "\<not> invalid_characters T bytes" "len s + length bytes < cap s" using g(2) by linarith
  then show ?thesis
  proof cases
    case 1
    then have "ss_insert_bytes T s idx bytes = (Ok (s, Inl InvalidCharacter) :: ('e, _) outcome)" by (simp add: ss_insert_bytes_def)
    then show ?thesis using assms(1) 1 by (intro ss_result_okI [of _ s]) (simp_all add: ss_refusal_def)
  next
    case 2
    have "insert_bytes s idx bytes = Err InsertWouldExceedCapacity"
      using 2 g bs_wf_bounds [OF assms(1)] by (simp add: insert_bytes_def usize_lim_def)
    then have "ss_insert_bytes T s idx bytes = (Ok (s, Inl ExceedsMaximumLength) :: ('e, _) outcome)" using 2 by (simp add: ss_insert_bytes_def)
    then show ?thesis using assms(1) 2 by (intro ss_result_okI [of _ s]) (simp_all add: ss_refusal_def)
  next
    case 3
    obtain s1 where s1: "insert_bytes s idx bytes = Ok s1" "bs_wf s1" "cap s1 = cap s" "content s1 = ?c"
      using insert_bytes_Ok [OF assms(1) g(1), of bytes] 3 assms(2) g(1) by auto
    have l: "len s1 = len s + length bytes" using s1(4) bs_wf_len_content [OF s1(2)] length_content [OF assms(1)] g(1) by simp
    show ?thesis
    proof (cases "invalid_content T ?c")
      case True
      have "idx + length bytes \<le> len s1" "idx + length bytes < cap s1" "len s1 < cap s1" using l g(1) 3 s1(3) by simp_all
      then obtain s2 where s2: "remove_range s1 idx (length bytes) = (Ok s2 :: ('e, _) outcome)" "bs_wf s2" "cap s2 = cap s1"
        "content s2 = take idx (content s1) @ drop (idx + length bytes) (content s1)" using remove_range_Ok [OF s1(2), where ?'e = 'e] by blast
      have "content s2 = content s" using s2(4) s1(4) g(1) length_content [OF assms(1)] by simp
      moreover have "ss_insert_bytes T s idx bytes = (Ok (s2, Inl InvalidName) :: ('e, _) outcome)"
        using 3 s1 s2(1) True by (simp add: ss_insert_bytes_def as_bytes_content)
      ultimately show ?thesis using s2 s1(3) 3 True by (intro ss_result_okI [of _ s2]) (simp_all add: ss_refusal_def)
    next
      case False
      then have "ss_insert_bytes T s idx bytes = (Ok (s1, Inr ()) :: ('e, _) outcome)" using 3 s1 by (simp add: ss_insert_bytes_def as_bytes_content)
      then show ?thesis using s1 3 False by (intro ss_result_okI [of _ s1]) (simp_all add: ss_refusal_def)
    qed
  qed
qed

lemma ss_remove_ok:
  assumes "bs_wf s" and "len s < cap s" and "idx < len s"
  shows "ss_result_ok s (ss_apply (SsRemove idx) (content s)) (ss_name_error T (ss_apply (SsRemove idx) (content s))) (ss_fin (ss_remove T s idx :: ('e, _) outcome))"
proof -
  let ?c = "ss_apply (SsRemove idx) (content s)"
  have "idx + 1 < cap s" using assms(2,3) by simp
  then obtain s1 where s1: "bs_remove s idx = (Ok (s1, content s ! idx) :: ('e, _) outcome)" "bs_wf s1" "cap s1 = cap s" "content s1 = ?c"
    using remove_Ok [OF assms(1,3), where ?'e = 'e] by auto
  have l: "len s1 = len s - 1" using s1(4) bs_wf_len_content [OF s1(2)] length_content [OF assms(1)] assms(3) by simp
  show ?thesis
  proof (cases "invalid_content T ?c")
    case True
    have "idx \<le> len s1" "len s1 + length [content s ! idx] \<le> cap s1" "idx < cap s1" using l assms(2,3) s1(3) by simp_all
    then obtain s2 where s2: "insert_bytes s1 idx [content s ! idx] = Ok s2" "bs_wf s2" "cap s2 = cap s1"
      "content s2 = take idx (content s1) @ [content s ! idx] @ drop idx (content s1)" using insert_bytes_Ok [OF s1(2)] by blast
    have "content s2 = content s" using s2(4) s1(4) assms(3) length_content [OF assms(1)] by (simp add: id_take_nth_drop [symmetric])
    moreover have "ss_remove T s idx = (Ok (s2, Inl InvalidName) :: ('e, _) outcome)"
      using s1 s2(1) True by (simp add: ss_remove_def as_bytes_content bs_insert_def)
    ultimately show ?thesis using s2 s1(3) True by (intro ss_result_okI [of _ s2]) simp_all
  next
    case False
    then have "ss_remove T s idx = (Ok (s1, Inr (content s ! idx)) :: ('e, _) outcome)" using s1 by (simp add: ss_remove_def as_bytes_content)
    then show ?thesis using s1 False by (intro ss_result_okI [of _ s1]) simp_all
  qed
qed

lemma ss_fin_omap: "ss_fin (omap (\<lambda>(s', r). (s', case r of Inl e \<Rightarrow> Inl e | Inr b \<Rightarrow> Inr (Some b))) x) = ss_fin x"
  by (cases x) (auto simp: ss_fin_def split: sum.splits)

lemma ss_do_ok:
  assumes "bs_wf s" and "len s < cap s" and "ss_guard op s" and "\<not> invalid_content T (content s)"
  shows "ss_result_ok s (ss_apply op (content s)) (ss_refusal T op s) (ss_do T op s :: ('e, _) outcome)"
proof (cases op)
  case (SsInsert idx bytes)
  then show ?thesis using ss_insert_ok [OF assms(1,2)] assms(3) by simp
next
  case SsPop
  show ?thesis
  proof (cases "len s = 0")
    case True
    then have "content s = []" using length_content [OF assms(1)] by simp
    then show ?thesis using SsPop assms(1,4) True by (intro ss_result_okI [of _ s]) (simp_all add: ss_pop_def ss_refusal_def)
  next
    case False
    have "ss_apply (SsRemove (len s - 1)) (content s) = butlast (content s)"
      using False length_content [OF assms(1)] by (simp add: butlast_conv_take)
    then show ?thesis using SsPop False ss_remove_ok [OF assms(1,2), of "len s - 1" T, where ?'e = 'e] by (simp add: ss_pop_def ss_fin_omap ss_refusal_def)
  qed
next
  case (SsRemove idx)
  then show ?thesis using ss_remove_ok [OF assms(1,2), of idx T, where ?'e = 'e] assms(3) by (simp add: ss_refusal_def)
next
  case (SsRemoveRange idx n)
  then have "idx + n \<le> len s" "idx + n < cap s" using assms(2,3) by simp_all
  then obtain s' where "remove_range s idx n = (Ok s' :: ('e, _) outcome)" "bs_wf s'" "cap s' = cap s" "content s' = take idx (content s) @ drop (idx + n) (content s)"
    using remove_range_Ok [OF assms(1), of idx n, where ?'e = 'e] assms(2) by blast
  from ss_checked_ok [OF assms(1) this] show ?thesis using SsRemoveRange by (simp add: ss_remove_range_def ss_refusal_def)
next
  case (SsRetain f)
  obtain s' where "retain f s = (Ok s' :: ('e, _) outcome)" "bs_wf s'" "cap s' = cap s" "content s' = filter (\<lambda>b. \<not> f b) (content s)"
    using retain_loop_Ok [OF assms(1,2), of "content s" "[]" f, where ?'e = 'e] length_content [OF assms(1)] by (auto simp: retain_def)
  from ss_checked_ok [OF assms(1) this] show ?thesis using SsRetain by (simp add: ss_retain_def ss_refusal_def)
next
  case (SsStripPrefix bytes)
  from strip_prefix_list [OF assms(1,2), of bytes, where ?'e = 'e] obtain s' b where r: "strip_prefix s bytes = (Ok (s', b) :: ('e, _) outcome)"
    "bs_wf s'" "cap s' = cap s" "content s' = ss_apply op (content s)" "\<not> b \<longrightarrow> ss_apply op (content s) = content s" unfolding SsStripPrefix by blast
  from ss_strip_ok [OF assms(1) _ this assms(4), of bytes] show ?thesis using SsStripPrefix assms(3) by (simp add: ss_strip_prefix_def ss_refusal_def)
next
  case (SsStripSuffix bytes)
  from strip_suffix_list [OF assms(1,2), of bytes, where ?'e = 'e] obtain s' b where r: "strip_suffix s bytes = (Ok (s', b) :: ('e, _) outcome)"
    "bs_wf s'" "cap s' = cap s" "content s' = ss_apply op (content s)" "\<not> b \<longrightarrow> ss_apply op (content s) = content s" unfolding SsStripSuffix by blast
  from ss_strip_ok [OF assms(1) _ this assms(4), of bytes] show ?thesis using SsStripSuffix assms(3) by (simp add: ss_strip_suffix_def ss_refusal_def)
next
  case (SsTruncate n)
  obtain s' where "ByteString.truncate s n = (Ok s' :: ('e, _) outcome)" "bs_wf s'" "cap s' = cap s" "content s' = take n (content s)"
    using truncate_Ok [OF assms(1), of n, where ?'e = 'e] by blast
  from ss_checked_ok [OF assms(1) this] show ?thesis using SsTruncate by (simp add: ss_truncate_def ss_refusal_def)
qed

section \<open>The contract\<close>

text \<open>All types restrict single characters: removing bytes never makes a character invalid.\<close>

locale semantic_type =
  fixes T :: semantic and bad :: "u8 \<Rightarrow> bool"
  assumes characters: "invalid_characters T = list_ex bad"
begin

lemma apply_keeps_characters:
  "\<not> invalid_characters T c \<Longrightarrow> (\<And>idx bytes. op = SsInsert idx bytes \<Longrightarrow> \<not> invalid_characters T bytes) \<Longrightarrow> \<not> invalid_characters T (ss_apply op c)"
  by (cases op) (auto simp: characters list_ex_iff dest: in_set_takeD in_set_dropD in_set_butlastD)

lemma op_keeps_valid:
  assumes "ss_valid T s" and "len s < cap s" and "ss_guard op s"
  shows "\<exists>s'. ss_do T op s = (Ok (s', ss_refusal T op s) :: ('e, _) outcome) \<and> ss_valid T s' \<and> cap s' = cap s
    \<and> content s' = (if ss_refusal T op s = None then ss_apply op (content s) else content s)"
proof -
  have wf: "bs_wf s" and v: "\<not> invalid_content T (content s)" "\<not> invalid_characters T (content s)" using assms(1) by (simp_all add: ss_valid_def)
  from ss_do_ok [OF wf assms(2,3) v(1), where ?'e = 'e] obtain s' where r: "ss_do T op s = (Ok (s', ss_refusal T op s) :: ('e, _) outcome)" "bs_wf s'" "cap s' = cap s"
    "content s' = (if ss_refusal T op s = None then ss_apply op (content s) else content s)" by (auto simp: ss_result_ok_def)
  have "\<not> invalid_content T (ss_apply op (content s)) \<and> \<not> invalid_characters T (ss_apply op (content s))" if "ss_refusal T op s = None"
  proof
    show "\<not> invalid_content T (ss_apply op (content s))" using that by (auto simp: ss_refusal_def split: ss_op.splits if_splits)
    show "\<not> invalid_characters T (ss_apply op (content s))"
      using that by (intro apply_keeps_characters [OF v(2)]) (auto simp: ss_refusal_def split: if_splits)
  qed
  then show ?thesis using r v by (intro exI [of _ s']) (auto simp: ss_valid_def)
qed

lemma new_valid:
  assumes "0 < CAPACITY" and "CAPACITY < 2 ^ 63" and "length bytes < 2 ^ 63" and "length bytes \<noteq> CAPACITY"
  shows "\<exists>r. ss_new T CAPACITY bytes = (Ok r :: ('e, _) outcome)
    \<and> (\<forall>s. r = Inr s \<longrightarrow> ss_valid T s \<and> cap s = CAPACITY \<and> content s = bytes)
    \<and> (isl r \<longleftrightarrow> invalid_characters T bytes \<or> CAPACITY < length bytes \<or> invalid_content T bytes)"
proof -
  obtain s where s: "bs_new CAPACITY = (Ok s :: ('e, _) outcome)" "bs_repr s [] (data s)" "cap s = CAPACITY"
    using bs_new_repr [OF assms(1,2), where ?'a = 'e] by auto
  have w: "bs_wf s" "content s = []" "len s = 0" using bs_repr_wf [OF s(2)] bs_repr_content [OF s(2)] s(2) by (simp_all add: bs_repr_def)
  have g: "ss_guard (SsInsert 0 bytes) s" "len s < cap s" using assms w(3) s(3) by simp_all
  consider "invalid_characters T bytes" | "\<not> invalid_characters T bytes" "CAPACITY < length bytes" | "\<not> invalid_characters T bytes" "length bytes < CAPACITY"
    using assms(4) by linarith
  then show ?thesis
  proof cases
    case 1
    then have "ss_new T CAPACITY bytes = (Ok (Inl InvalidCharacter) :: ('e, _) outcome)"
      using s(1) by (simp add: ss_new_def ss_push_bytes_def ss_insert_bytes_def)
    then show ?thesis using 1 by simp
  next
    case 2
    then have "insert_bytes s (len s) bytes = Err InsertWouldExceedCapacity" using w(3) s(3) assms(3) by (simp add: insert_bytes_def usize_lim_def)
    then have "ss_new T CAPACITY bytes = (Ok (Inl ExceedsMaximumLength) :: ('e, _) outcome)"
      using s(1) 2 by (simp add: ss_new_def ss_push_bytes_def ss_insert_bytes_def)
    then show ?thesis using 2 by simp
  next
    case 3
    have "0 \<le> len s" "len s + length bytes \<le> cap s" "0 < cap s" using 3 w(3) s(3) assms(1) by simp_all
    then obtain s1 where s1: "insert_bytes s 0 bytes = Ok s1" "bs_wf s1" "cap s1 = cap s" "content s1 = take 0 (content s) @ bytes @ drop 0 (content s)"
      using insert_bytes_Ok [OF w(1), of 0 bytes] by blast
    have c: "content s1 = bytes" "len s1 = length bytes" using s1(4) w(2) bs_wf_len_content [OF s1(2)] by simp_all
    obtain s2 where s2: "remove_range s1 0 (length bytes) = (Ok s2 :: ('e, _) outcome)"
      using remove_range_Ok [OF s1(2), of 0 "length bytes", where ?'e = 'e] c(2) 3(2) s1(3) s(3) by auto
    show ?thesis
    proof (cases "invalid_content T bytes")
      case True
      then have "ss_new T CAPACITY bytes = (Ok (Inl InvalidName) :: ('e, _) outcome)"
        using s(1) 3 s1 s2 c w(3) by (simp add: ss_new_def ss_push_bytes_def ss_insert_bytes_def as_bytes_content)
      then show ?thesis using True by simp
    next
      case False
      then have "ss_new T CAPACITY bytes = (Ok (Inr s1) :: ('e, _) outcome)"
        using s(1) 3 s1 c w(3) by (simp add: ss_new_def ss_push_bytes_def ss_insert_bytes_def as_bytes_content)
      then show ?thesis using False 3 s1 c s(3) by (simp add: ss_valid_def)
    qed
  qed
qed

end

interpretation file_name: semantic_type FileName "\<lambda>c. \<not> file_name_character c"
  by unfold_locales (simp add: FileName_def)

interpretation path: semantic_type Path "\<lambda>c. \<not> path_character c"
  by unfold_locales (simp add: Path_def)

interpretation file_path: semantic_type FilePath "\<lambda>c. \<not> path_character c"
  by unfold_locales (simp add: FilePath_def)

interpretation user_name: semantic_type UserName "\<lambda>c. \<not> user_character c"
  by unfold_locales (simp add: UserName_def)

interpretation group_name: semantic_type GroupName "\<lambda>c. \<not> user_character c"
  by unfold_locales (simp add: GroupName_def)

interpretation service_name: semantic_type ServiceName "\<lambda>_. False"
  by unfold_locales (simp add: ServiceName_def fun_eq_iff list_ex_iff)



end
