(* ===== verification/NamedConcept.thy ===== *)
theory NamedConcept
  imports SemanticString
begin

text \<open>
  Names and paths of the resources behind every service: \<^verbatim>\<open>path.rs\<close> and \<^verbatim>\<open>file_path.rs\<close> of \<^verbatim>\<open>elkodon_bb/system_types\<close> and
  the default methods of \<^verbatim>\<open>NamedConceptConfiguration\<close> in \<^verbatim>\<open>elkodon_cal/src/named_concept.rs\<close>, which turn the name of a
  concept into the path of its file and read the name back when the existing concepts are listed.

  \<open>join_path\<close> is the reference for the concatenation of a directory and a file. The lemmas show that paths are built and
  taken apart as the reference says, when a name survives the round trip, and when extracting a name panics.
\<close>

section \<open>Paths\<close>

text \<open>Adding an entry keeps the separator that was pushed when the entry itself does not fit.\<close>

definition add_path_entry :: "byte_string \<Rightarrow> byte_string \<Rightarrow> ('e, unit ss_result) outcome" where
  "add_path_entry path entry =
     obind (as_bytes path) (\<lambda>p.
     obind (if \<not> bs_is_empty path \<and> p ! (len path - 1) \<noteq> PATH_SEPARATOR then ss_push Path path PATH_SEPARATOR else Ok (path, Inr ()))
       (\<lambda>(path1, r). case r of
          Inl _ \<Rightarrow> Ok (path1, Inl ExceedsMaximumLength)
        | Inr _ \<Rightarrow>
            obind (as_bytes entry) (\<lambda>e.
            omap (\<lambda>(path2, r). (path2, case r of Inl _ \<Rightarrow> Inl ExceedsMaximumLength | Inr _ \<Rightarrow> Inr ()))
              (ss_push_bytes Path path1 e))))"

definition path_from_file_path :: "byte_string \<Rightarrow> ('e, byte_string) outcome" where
  "path_from_file_path v = obind (as_bytes v) (new_unchecked PATH_LENGTH)"

definition file_path_from_file_name :: "byte_string \<Rightarrow> ('e, byte_string) outcome" where
  "file_path_from_file_name v = obind (as_bytes v) (new_unchecked PATH_LENGTH)"

definition from_path_and_file :: "byte_string \<Rightarrow> byte_string \<Rightarrow> (ss_error, byte_string) outcome" where
  "from_path_and_file path file =
     obind (as_bytes path) (\<lambda>p.
     obind (new_unchecked PATH_LENGTH p) (\<lambda>new_self.
     obind (if \<not> bs_is_empty path \<and> p ! (len path - 1) \<noteq> PATH_SEPARATOR
            then map_err (\<lambda>_. ExceedsMaximumLength) (bs_push new_self PATH_SEPARATOR) else Ok new_self) (\<lambda>new_self.
     obind (as_bytes file) (\<lambda>f. map_err (\<lambda>_. ExceedsMaximumLength) (push_bytes new_self f)))))"

text \<open>The parts of a file path, on its bytes.\<close>

definition fp_rfind :: "u8 list \<Rightarrow> u8 \<Rightarrow> usize option" where
  "fp_rfind bytes byte = List.find (\<lambda>pos. bytes ! pos = byte) (map (\<lambda>i. length bytes - 1 - i) [0 ..< length bytes])"

definition fp_file_name :: "byte_string \<Rightarrow> ('e, u8 list) outcome" where
  "fp_file_name s = omap (\<lambda>b. case fp_rfind b PATH_SEPARATOR of None \<Rightarrow> b | Some pos \<Rightarrow> drop (pos + 1) b) (as_bytes s)"

definition fp_path :: "byte_string \<Rightarrow> ('e, u8 list) outcome" where
  "fp_path s = omap (\<lambda>b. case fp_rfind b PATH_SEPARATOR of None \<Rightarrow> [] | Some pos \<Rightarrow> take (pos + 1) b) (as_bytes s)"

section \<open>Named concepts\<close>

record named_concept_config =
  suffix :: byte_string
  path_hint :: byte_string

text \<open>\<^verbatim>\<open>fatal_panic!\<close> on a \<^verbatim>\<open>Result\<close> of a method that changes its receiver.\<close>

definition ss_or_panic :: "('e, 'a ss_result) outcome \<Rightarrow> ('e, byte_string \<times> 'a) outcome" where
  "ss_or_panic x = obind x (\<lambda>(s, r). case r of Inl _ \<Rightarrow> Panic | Inr v \<Rightarrow> Ok (s, v))"

definition path_for :: "named_concept_config \<Rightarrow> byte_string \<Rightarrow> ('e, byte_string) outcome" where
  "path_for cfg name =
     obind (ss_or_panic (add_path_entry (path_hint cfg) name)) (\<lambda>(path, _).
     obind (as_bytes (suffix cfg)) (\<lambda>x.
     obind (ss_or_panic (ss_push_bytes Path path x)) (\<lambda>(path, _).
     obind (as_bytes path) (new_unchecked PATH_LENGTH))))"

definition extract_name_from_file :: "named_concept_config \<Rightarrow> byte_string \<Rightarrow> ('e, byte_string option) outcome" where
  "extract_name_from_file cfg v =
     obind (as_bytes (suffix cfg)) (\<lambda>x.
     omap (\<lambda>(file, strip_result). if strip_result then Some file else None) (ss_or_panic (ss_strip_suffix FileName v x)))"

definition extract_name_from_path :: "named_concept_config \<Rightarrow> byte_string \<Rightarrow> ('e, byte_string option) outcome" where
  "extract_name_from_path cfg v =
     obind (as_bytes (path_hint cfg)) (\<lambda>hint.
     obind (fp_path v) (\<lambda>p.
       if hint \<noteq> p then Ok None
       else obind (fp_file_name v) (\<lambda>f.
            obind (new_unchecked FILENAME_LENGTH f) (\<lambda>file.
            obind (as_bytes (suffix cfg)) (\<lambda>x.
            omap (\<lambda>(file, strip_result). if strip_result then Some file else None) (ss_or_panic (ss_strip_suffix FileName file x)))))))"

section \<open>Reference\<close>

definition with_separator :: "u8 list \<Rightarrow> u8 list" where
  "with_separator p = (if p = [] \<or> last p = PATH_SEPARATOR then p else p @ [PATH_SEPARATOR])"

definition join_path :: "u8 list \<Rightarrow> u8 list \<Rightarrow> u8 list" where
  "join_path p f = with_separator p @ f"

lemma new_unchecked_Ok:
  assumes "length bytes \<le> CAPACITY" and "0 < CAPACITY" and "CAPACITY < 2 ^ 63"
  obtains s where "new_unchecked CAPACITY bytes = Ok s" and "bs_wf s" and "cap s = CAPACITY" and "content s = bytes"
proof -
  obtain s0 where s0: "bs_new CAPACITY = (Ok s0 :: ('a, _) outcome)" "bs_repr s0 [] (data s0)" "cap s0 = CAPACITY"
    using bs_new_repr [OF assms(2,3), where ?'a = 'a] by auto
  let ?r = "drop (length bytes) (data s0)"
  let ?s = "s0\<lparr>len := length bytes, data := map Some bytes @ (if ?r = [] then [] else Some 0 # tl ?r)\<rparr>"
  have l: "length (data s0) = CAPACITY" using s0(2,3) by (simp add: bs_repr_def)
  have t: "terminator s0 = 0" using s0(2) by (simp add: bs_repr_def)
  have "bs_repr ?s bytes (if ?r = [] then [] else Some 0 # tl ?r)"
    using l assms s0(3) t by (auto simp: bs_repr_def)
  then have "bs_wf ?s" "content ?s = bytes" by (rule bs_repr_wf, rule bs_repr_content)
  moreover have "new_unchecked CAPACITY bytes = (Ok ?s :: ('a, _) outcome)"
  proof (cases "length bytes < CAPACITY")
    case True
    then have "?r \<noteq> []" using l by simp
    then obtain x xs where "?r = x # xs" by (cases ?r) auto
    then show ?thesis using True s0(1) by (simp add: new_unchecked_def Let_def list_update_append)
  next
    case False
    then show ?thesis using assms(1) s0(1) l t by (simp add: new_unchecked_def Let_def)
  qed
  ultimately show thesis using that s0(3) by simp
qed

lemma rev_upt_code: "map (\<lambda>i. n - 1 - i) [0 ..< n] = rev [0 ..< n]"
  by (rule nth_equalityI) (simp_all add: rev_nth)

lemma fp_rfind_Some_iff: "fp_rfind b c = Some i \<longleftrightarrow> i < length b \<and> b ! i = c \<and> (\<forall>j<length b. i < j \<longrightarrow> b ! j \<noteq> c)"
  unfolding fp_rfind_def rev_upt_code find_rev_upt_Some_iff ..

lemma fp_rfind_None: "c \<notin> set b \<Longrightarrow> fp_rfind b c = None"
  by (auto simp: fp_rfind_def find_None_iff in_set_conv_nth)

lemma fp_rfind_last: "p \<noteq> [] \<Longrightarrow> last p = c \<Longrightarrow> c \<notin> set f \<Longrightarrow> fp_rfind (p @ f) c = Some (length p - 1)"
  by (auto simp: fp_rfind_Some_iff nth_append last_conv_nth in_set_conv_nth neq_Nil_conv)

lemma with_separator_last: "with_separator p \<noteq> [] \<Longrightarrow> last (with_separator p) = PATH_SEPARATOR"
  by (auto simp: with_separator_def)

lemma length_with_separator: "length p \<le> length (with_separator p)"
  by (simp add: with_separator_def)

text \<open>A file path built from a directory and a name without separators is split where it was joined.\<close>

lemma split_joined:
  assumes "bs_wf s" and "content s = join_path p f" and "PATH_SEPARATOR \<notin> set f"
  shows "fp_file_name s = Ok f" and "fp_path s = Ok (with_separator p)"
proof -
  have "fp_rfind (content s) PATH_SEPARATOR = (if with_separator p = [] then None else Some (length (with_separator p) - 1))"
    using assms(2,3) fp_rfind_last [OF _ with_separator_last] fp_rfind_None by (simp add: join_path_def)
  moreover have "with_separator p \<noteq> [] \<Longrightarrow> length (with_separator p) - 1 + 1 = length (with_separator p)" by (cases "with_separator p") simp_all
  ultimately show "fp_file_name s = Ok f" and "fp_path s = Ok (with_separator p)"
    using assms(2) by (simp_all add: fp_file_name_def fp_path_def as_bytes_content [OF assms(1)] join_path_def)
qed

text \<open>A name joined to a directory is a valid file path.\<close>

lemma valid_file_bytes:
  assumes "\<not> invalid_characters FileName f"
  shows "PATH_SEPARATOR \<notin> set f" and "\<not> list_ex (\<lambda>c. \<not> path_character c) f"
  using assms by (auto simp: FileName_def list_ex_iff file_name_character_def PATH_SEPARATOR_def)

lemma joined_not_ends:
  assumes "PATH_SEPARATOR \<notin> set f" and "PATH_SEPARATOR \<notin> set e" and "f \<noteq> e" and "length e < length (join_path p f)"
  shows "drop (length (join_path p f) - Suc (length e)) (join_path p f) \<noteq> PATH_SEPARATOR # e"
proof
  let ?w = "with_separator p" and ?j = "join_path p f"
  let ?t = "take (length ?j - Suc (length e)) ?j"
  assume "drop (length ?j - Suc (length e)) ?j = PATH_SEPARATOR # e"
  then have j: "?j = (?t @ [PATH_SEPARATOR]) @ e" using append_take_drop_id [of "length ?j - Suc (length e)" ?j] by simp
  have "PATH_SEPARATOR \<in> set ?j" by (subst j) simp
  then have w: "?w \<noteq> []" using assms(1) by (auto simp: join_path_def)
  have "fp_rfind ?j PATH_SEPARATOR = Some (length (?t @ [PATH_SEPARATOR]) - 1)"
    by (subst j, rule fp_rfind_last) (use assms(2) in simp_all)
  moreover have "fp_rfind ?j PATH_SEPARATOR = Some (length ?w - 1)"
    unfolding join_path_def by (rule fp_rfind_last [OF w with_separator_last [OF w] assms(1)])
  ultimately have "length ?w = length (?t @ [PATH_SEPARATOR])" using w by (cases ?w) simp_all
  then have "f = e" using j by (metis append_eq_append_conv join_path_def)
  then show False using assms(3) by simp
qed

lemma join_path_valid:
  assumes "\<not> invalid_characters Path p" and "\<not> invalid_content FileName f" and "\<not> invalid_characters FileName f"
  shows "\<not> file_path_invalid (join_path p f)" and "\<not> invalid_characters FilePath (join_path p f)"
proof -
  let ?w = "with_separator p"
  have f: "f \<noteq> []" "f \<noteq> [46]" "f \<noteq> [46, 46]" using assms(2) by (simp_all add: FileName_def)
  have sep: "PATH_SEPARATOR \<notin> set f" by (rule valid_file_bytes(1) [OF assms(3)])
  have "path_character PATH_SEPARATOR" by (simp add: path_character_def PATH_SEPARATOR_def word_le_nat_alt)
  then show "\<not> invalid_characters FilePath (join_path p f)"
    using assms(1) valid_file_bytes(2) [OF assms(3)] by (auto simp: join_path_def with_separator_def Path_def FilePath_def list_ex_iff)
  have dot: "PATH_SEPARATOR \<noteq> 46" by (simp add: PATH_SEPARATOR_def)
  have no: "join_path p f \<notin> {[], [46], [46, 46]}"
  proof (cases "?w = []")
    case False
    then have "PATH_SEPARATOR \<in> set ?w" using with_separator_last [OF False] last_in_set by metis
    then have "PATH_SEPARATOR \<in> set (join_path p f)" by (simp add: join_path_def)
    then show ?thesis using dot by auto
  qed (use f in \<open>simp add: join_path_def\<close>)
  have "last (join_path p f) \<noteq> PATH_SEPARATOR" using f(1) sep last_in_set [of f] by (metis join_path_def last_appendR)
  moreover have "2 \<le> length (join_path p f) \<Longrightarrow> drop (length (join_path p f) - 2) (join_path p f) \<noteq> [PATH_SEPARATOR, 46]"
    using joined_not_ends [OF sep, of "[46]" p] f(2) dot by (simp add: numeral_2_eq_2)
  moreover have "3 \<le> length (join_path p f) \<Longrightarrow> drop (length (join_path p f) - 3) (join_path p f) \<noteq> [PATH_SEPARATOR, 46, 46]"
    using joined_not_ends [OF sep, of "[46, 46]" p] f(3) dot by (simp add: numeral_3_eq_3)
  ultimately show "\<not> file_path_invalid (join_path p f)" using no by (simp add: file_path_invalid_def)
qed

section \<open>Building paths\<close>

lemma push_bytes_exceeds:
  "bs_wf s \<Longrightarrow> length b < 2 ^ 63 \<Longrightarrow> cap s < len s + length b \<Longrightarrow> push_bytes s b = Err InsertWouldExceedCapacity"
  using bs_wf_bounds [of s] by (simp add: push_bytes_def insert_bytes_def usize_lim_def)

lemma path_push_Ok:
  assumes "bs_wf s" and "\<not> invalid_characters Path b" and "len s + length b \<le> cap s" and "len s < cap s"
  shows "\<exists>s'. ss_push_bytes Path s b = (Ok (s', Inr ()) :: ('e, _) outcome) \<and> bs_wf s' \<and> cap s' = cap s \<and> content s' = content s @ b"
proof -
  obtain s' where s': "insert_bytes s (len s) b = Ok s'" "bs_wf s'" "cap s' = cap s" "content s' = content s @ b"
    using push_bytes_Ok [OF assms(1,3,4)] by (auto simp: push_bytes_def)
  then have "ss_push_bytes Path s b = (Ok (s', Inr ()) :: ('e, _) outcome)"
    using assms(2) by (simp add: ss_push_bytes_def ss_insert_bytes_def as_bytes_content) (simp add: Path_def)
  then show ?thesis using s' by blast
qed

lemma separator_needed:
  assumes "bs_wf s"
  shows "(\<not> bs_is_empty s \<and> content s ! (len s - 1) \<noteq> PATH_SEPARATOR) \<longleftrightarrow> with_separator (content s) = content s @ [PATH_SEPARATOR]"
    and "\<not> (\<not> bs_is_empty s \<and> content s ! (len s - 1) \<noteq> PATH_SEPARATOR) \<longleftrightarrow> with_separator (content s) = content s"
proof -
  have "bs_is_empty s \<longleftrightarrow> content s = []" "content s \<noteq> [] \<Longrightarrow> last (content s) = content s ! (len s - 1)"
    using length_content [OF assms] by (auto simp: bs_is_empty_def last_conv_nth)
  then show "(\<not> bs_is_empty s \<and> content s ! (len s - 1) \<noteq> PATH_SEPARATOR) \<longleftrightarrow> with_separator (content s) = content s @ [PATH_SEPARATOR]"
    and "\<not> (\<not> bs_is_empty s \<and> content s ! (len s - 1) \<noteq> PATH_SEPARATOR) \<longleftrightarrow> with_separator (content s) = content s"
    by (auto simp: with_separator_def)
qed

lemma separator_path_character: "\<not> invalid_characters Path [PATH_SEPARATOR]"
  by (simp add: Path_def path_character_def PATH_SEPARATOR_def word_le_nat_alt)

lemma add_path_entry_Ok:
  assumes "bs_wf s" and "bs_wf e" and "\<not> invalid_characters Path (content e)" and "content e \<noteq> []"
    and "length (join_path (content s) (content e)) \<le> cap s"
  shows "\<exists>s'. add_path_entry s e = (Ok (s', Inr ()) :: ('e, _) outcome) \<and> bs_wf s' \<and> cap s' = cap s \<and> content s' = join_path (content s) (content e)"
proof -
  let ?w = "with_separator (content s)"
  have l: "len s = length (content s)" using length_content [OF assms(1)] by simp
  obtain s1 where s1: "(if \<not> bs_is_empty s \<and> content s ! (len s - 1) \<noteq> PATH_SEPARATOR then ss_push Path s PATH_SEPARATOR else Ok (s, Inr ()))
      = (Ok (s1, Inr ()) :: ('e, _) outcome)" "bs_wf s1" "cap s1 = cap s" "content s1 = ?w"
  proof (cases "\<not> bs_is_empty s \<and> content s ! (len s - 1) \<noteq> PATH_SEPARATOR")
    case True
    then have w: "?w = content s @ [PATH_SEPARATOR]" using separator_needed [OF assms(1)] by simp
    then have "len s + length [PATH_SEPARATOR] \<le> cap s" "len s < cap s" using assms(5) l by (simp_all add: join_path_def)
    from path_push_Ok [OF assms(1) separator_path_character this, where ?'e = 'e] that w True show thesis
      by (auto simp: ss_push_def ss_insert_def ss_push_bytes_def)
  next
    case False
    then have "?w = content s" using separator_needed(2) [OF assms(1)] by blast
    then show thesis using that [of s] assms(1) by (simp only: if_False False)
  qed
  have "len s1 = length ?w" using length_content [OF s1(2)] s1(4) by simp
  then have "len s1 + length (content e) \<le> cap s1" "len s1 < cap s1" using assms(4,5) s1(3) by (cases "content e"; simp add: join_path_def)+
  from path_push_Ok [OF s1(2) assms(3) this, where ?'e = 'e]
  obtain s2 where s2: "ss_push_bytes Path s1 (content e) = (Ok (s2, Inr ()) :: ('e, _) outcome)" "bs_wf s2" "cap s2 = cap s1" "content s2 = content s1 @ content e"
    by blast
  have "add_path_entry s e = (Ok (s2, Inr ()) :: ('e, _) outcome)"
    unfolding add_path_entry_def as_bytes_content [OF assms(1)] as_bytes_content [OF assms(2)] obind.simps s1(1) by (simp add: s2(1))
  then show ?thesis using s2 s1(3,4) by (simp add: join_path_def)
qed

lemma from_path_and_file_result:
  assumes "ss_valid Path path" and "cap path = PATH_LENGTH" and "ss_valid FileName file" and "cap file = FILENAME_LENGTH"
  shows "if length (join_path (content path) (content file)) \<le> PATH_LENGTH
         then \<exists>fp. from_path_and_file path file = Ok fp \<and> bs_wf fp \<and> cap fp = PATH_LENGTH \<and> content fp = join_path (content path) (content file)
         else from_path_and_file path file = Err ExceedsMaximumLength"
proof -
  let ?p = "content path" and ?f = "content file"
  have wf: "bs_wf path" "bs_wf file" and f: "\<not> invalid_content FileName ?f" "\<not> invalid_characters FileName ?f" and p: "\<not> invalid_characters Path ?p"
    using assms by (simp_all add: ss_valid_def)
  have l: "len path = length ?p" "len file = length ?f" "length ?f \<le> 255" using length_content wf bs_wf_bounds [OF wf(2)] assms(4) by (auto simp: FILENAME_LENGTH_def)
  have f0: "?f \<noteq> []" using f(1) by (simp add: FileName_def)
  have pl: "length ?p \<le> PATH_LENGTH" using bs_wf_bounds [OF wf(1)] assms(2) l(1) by simp
  obtain n where n: "new_unchecked PATH_LENGTH ?p = (Ok n :: (ss_error, _) outcome)" "bs_wf n" "cap n = PATH_LENGTH" "content n = ?p"
    using new_unchecked_Ok [OF pl] by (auto simp: PATH_LENGTH_def)
  have ln: "len n = length ?p" using length_content [OF n(2)] n(4) by simp
  let ?sep = "\<not> bs_is_empty path \<and> ?p ! (len path - 1) \<noteq> PATH_SEPARATOR"
  define step where "step = (if ?sep then map_err (\<lambda>_. ExceedsMaximumLength) (bs_push n PATH_SEPARATOR) else Ok n)"
  have run: "from_path_and_file path file = obind step (\<lambda>s. map_err (\<lambda>_. ExceedsMaximumLength) (push_bytes s ?f))"
    by (simp add: from_path_and_file_def as_bytes_content wf n(1) step_def)
  consider (full) "?sep" "length ?p = PATH_LENGTH" | (room) n1 where "step = Ok n1" "bs_wf n1" "cap n1 = PATH_LENGTH" "content n1 = with_separator ?p"
  proof (cases ?sep)
    case True
    show thesis
    proof (cases "length ?p = PATH_LENGTH")
      case False
      then have "len n + length [PATH_SEPARATOR] \<le> cap n" "len n < cap n" using pl ln n(3) by simp_all
      from push_bytes_Ok [OF n(2) this] show thesis using that(2) True separator_needed(1) [OF wf(1)] n(3,4)
        by (auto simp: step_def bs_push_def bs_insert_def push_bytes_def)
    qed (use True that(1) in blast)
  next
    case False
    then have "step = Ok n" unfolding step_def by (simp only: if_False)
    moreover have "with_separator ?p = ?p" using False separator_needed(2) [OF wf(1)] by blast
    ultimately show thesis using that(2) [of n] n by simp
  qed
  then show ?thesis
  proof cases
    case full
    then have "step = Err ExceedsMaximumLength" using push_bytes_exceeds [OF n(2), of "[PATH_SEPARATOR]"] ln n(3)
      by (simp add: step_def bs_push_def bs_insert_def push_bytes_def)
    then show ?thesis using run full(2) length_with_separator [of ?p] f0 by (cases ?f) (simp_all add: join_path_def)
  next
    case room
    have ln1: "len n1 = length (with_separator ?p)" using length_content [OF room(2)] room(4) by simp
    show ?thesis
    proof (cases "length (join_path ?p ?f) \<le> PATH_LENGTH")
      case True
      then have "len n1 + length ?f \<le> cap n1" "len n1 < cap n1" using ln1 room(3) f0 by (cases ?f; simp add: join_path_def)+
      from push_bytes_Ok [OF room(2) this] obtain fp where fp: "push_bytes n1 ?f = Ok fp" "bs_wf fp" "cap fp = PATH_LENGTH" "content fp = join_path ?p ?f"
        using room(3,4) by (auto simp: join_path_def)
      then show ?thesis using True run room(1) by simp
    next
      case False
      then show ?thesis using run room push_bytes_exceeds [OF room(2), of ?f] ln1 l(3) by (simp add: join_path_def)
    qed
  qed
qed

text \<open>\<^verbatim>\<open>FilePath::from_path_and_file\<close> refuses exactly the combinations of a path and a file name that do not fit into 4096
  bytes. Otherwise it returns a valid file path although nothing checks the result: the path, a separator where the path needs one, and the file name.
  \<^verbatim>\<open>file_name\<close> and \<^verbatim>\<open>path\<close> take it apart again, where \<^verbatim>\<open>path\<close> keeps the separator at its end.\<close>

theorem from_path_and_file_roundtrip:
  assumes "ss_valid Path path" and "cap path = PATH_LENGTH" and "ss_valid FileName file" and "cap file = FILENAME_LENGTH"
  shows "if length (join_path (content path) (content file)) \<le> PATH_LENGTH
         then \<exists>fp. from_path_and_file path file = Ok fp \<and> ss_valid FilePath fp \<and> cap fp = PATH_LENGTH
                \<and> content fp = join_path (content path) (content file)
                \<and> fp_file_name fp = (Ok (content file) :: (unit, _) outcome) \<and> fp_path fp = (Ok (with_separator (content path)) :: (unit, _) outcome)
         else from_path_and_file path file = Err ExceedsMaximumLength"
proof (cases "length (join_path (content path) (content file)) \<le> PATH_LENGTH")
  case True
  have f: "\<not> invalid_content FileName (content file)" "\<not> invalid_characters FileName (content file)" and p: "\<not> invalid_characters Path (content path)"
    using assms by (simp_all add: ss_valid_def)
  obtain fp where fp: "from_path_and_file path file = Ok fp" "bs_wf fp" "cap fp = PATH_LENGTH" "content fp = join_path (content path) (content file)"
    using from_path_and_file_result [OF assms] True by auto
  have "ss_valid FilePath fp" using join_path_valid [OF p f] fp(2,4) by (simp add: ss_valid_def) (simp add: FilePath_def)
  then show ?thesis using True fp split_joined [OF fp(2,4) valid_file_bytes(1) [OF f(2)]] by simp
qed (use from_path_and_file_result [OF assms] in simp)

theorem from_path_and_file_roundtrip_witness:
  "\<exists>path fl fp. content path = [116] \<and> content fl = [97] \<and> from_path_and_file path fl = Ok fp \<and> ss_valid FilePath fp \<and> content fp = [116, 47, 97]"
proof -
  obtain h where h: "bs_wf h" "cap h = PATH_LENGTH" "content h = [116]" using new_unchecked_Ok [of "[116]" PATH_LENGTH] by (auto simp: PATH_LENGTH_def)
  obtain n where n: "bs_wf n" "cap n = FILENAME_LENGTH" "content n = [97]" using new_unchecked_Ok [of "[97]" FILENAME_LENGTH] by (auto simp: FILENAME_LENGTH_def)
  have "ss_valid Path h" "ss_valid FileName n" using h n
    by (simp_all add: ss_valid_def Path_def FileName_def path_character_def file_name_character_def word_le_nat_alt)
  note t = from_path_and_file_roundtrip [OF this(1) h(2) this(2) n(2)]
  have "join_path (content h) (content n) = [116, 47, 97]" using h(3) n(3) by (simp add: join_path_def with_separator_def PATH_SEPARATOR_def)
  with t have "\<exists>fp. from_path_and_file h n = Ok fp \<and> ss_valid FilePath fp \<and> content fp = [116, 47, 97]" by (auto simp: PATH_LENGTH_def)
  then show ?thesis using h(3) n(3) by blast
qed

section \<open>Two ways to build a path\<close>

lemma path_push_exceeds:
  assumes "bs_wf s" and "\<not> invalid_characters Path b" and "length b < 2 ^ 63" and "cap s < len s + length b"
  shows "ss_push_bytes Path s b = (Ok (s, Inl ExceedsMaximumLength) :: ('e, _) outcome)"
  using push_bytes_exceeds [OF assms(1,3,4)] assms(2) by (simp add: ss_push_bytes_def ss_insert_bytes_def push_bytes_def)

lemma add_path_entry_exceeds:
  assumes "bs_wf s" and "bs_wf e" and "\<not> invalid_characters Path (content e)" and "content e \<noteq> []"
    and "cap s < length (join_path (content s) (content e))"
  shows "\<exists>s'. add_path_entry s e = (Ok (s', Inl ExceedsMaximumLength) :: ('e, _) outcome) \<and> bs_wf s'
    \<and> content s' = (if len s = cap s then content s else with_separator (content s))"
proof -
  let ?w = "with_separator (content s)" and ?sep = "\<not> bs_is_empty s \<and> content s ! (len s - 1) \<noteq> PATH_SEPARATOR"
  have l: "len s = length (content s)" "len s \<le> cap s" using length_content [OF assms(1)] bs_wf_bounds [OF assms(1)] by simp_all
  have le: "length (content e) < 2 ^ 63" using length_content [OF assms(2)] bs_wf_bounds [OF assms(2)] by simp
  have full: "length (content s) \<le> length ?w" "length ?w \<le> length (content s) + 1" by (simp_all add: with_separator_def)
  show ?thesis
  proof (cases ?sep)
    case True
    then have w: "?w = content s @ [PATH_SEPARATOR]" using separator_needed(1) [OF assms(1)] by simp
    show ?thesis
    proof (cases "len s = cap s")
      case f: True
      then have "ss_push Path s PATH_SEPARATOR = (Ok (s, Inl ExceedsMaximumLength) :: ('e, _) outcome)"
        using path_push_exceeds [OF assms(1) separator_path_character, where ?'e = 'e] by (simp add: ss_push_def ss_insert_def ss_push_bytes_def)
      then show ?thesis using True f assms(1) by (simp add: add_path_entry_def as_bytes_content)
    next
      case False
      then have "len s + length [PATH_SEPARATOR] \<le> cap s" "len s < cap s" using l(2) by simp_all
      from path_push_Ok [OF assms(1) separator_path_character this, where ?'e = 'e] obtain s1 where s1: "ss_push Path s PATH_SEPARATOR = (Ok (s1, Inr ()) :: ('e, _) outcome)"
        "bs_wf s1" "cap s1 = cap s" "content s1 = ?w" using w by (auto simp: ss_push_def ss_insert_def ss_push_bytes_def)
      have "cap s1 < len s1 + length (content e)" using assms(5) s1 length_content [OF s1(2)] by (simp add: join_path_def)
      from path_push_exceeds [OF s1(2) assms(3) le this, where ?'e = 'e] show ?thesis using True False s1 by (simp add: add_path_entry_def as_bytes_content assms(1,2))
    qed
  next
    case False
    then have w: "?w = content s" using separator_needed(2) [OF assms(1)] by blast
    then have "cap s < len s + length (content e)" using assms(5) l(1) by (simp add: join_path_def)
    from path_push_exceeds [OF assms(1,3) le this, where ?'e = 'e] False w show ?thesis
      unfolding add_path_entry_def as_bytes_content [OF assms(1)] as_bytes_content [OF assms(2)] obind.simps if_not_P [OF False] using assms(1) by simp
  qed
qed

text \<open>C26: \<^verbatim>\<open>Path::add_path_entry\<close> and \<^verbatim>\<open>FilePath::from_path_and_file\<close>, which are written independently, agree: on every path and every file name they
  succeed or fail together, and they build the same bytes. A failing \<^verbatim>\<open>add_path_entry\<close> may leave a separator behind that was not there before.\<close>

theorem path_builders_agree:
  assumes "ss_valid Path path" and "cap path = PATH_LENGTH" and "ss_valid FileName file" and "cap file = FILENAME_LENGTH"
  shows "\<exists>path' r. add_path_entry path file = (Ok (path', r) :: (unit, _) outcome)
    \<and> (case from_path_and_file path file of
         Ok fp \<Rightarrow> r = Inr () \<and> content path' = content fp
       | Err e \<Rightarrow> r = Inl e \<and> (content path' = content path \<or> content path' = content path @ [PATH_SEPARATOR])
       | _ \<Rightarrow> False)"
proof -
  have wf: "bs_wf path" "bs_wf file" and f: "\<not> invalid_content FileName (content file)" "\<not> invalid_characters FileName (content file)"
    using assms by (simp_all add: ss_valid_def)
  have e: "\<not> invalid_characters Path (content file)" "content file \<noteq> []" using valid_file_bytes(2) [OF f(2)] f(1) by (auto simp: Path_def FileName_def)
  show ?thesis
  proof (cases "length (join_path (content path) (content file)) \<le> PATH_LENGTH")
    case True
    then show ?thesis using from_path_and_file_result [OF assms] add_path_entry_Ok [OF wf e, where ?'e = unit] assms(2) by auto
  next
    case False
    then show ?thesis using from_path_and_file_result [OF assms] add_path_entry_exceeds [OF wf e, where ?'e = unit] assms(2) by (auto simp: with_separator_def)
  qed
qed

theorem path_builders_agree_witness:
  "\<exists>path fl fp path'. content path = [116] \<and> content fl = [97] \<and> from_path_and_file path fl = Ok fp
    \<and> add_path_entry path fl = (Ok (path', Inr ()) :: (unit, _) outcome) \<and> content path' = content fp"
proof -
  obtain h where h: "bs_wf h" "cap h = PATH_LENGTH" "content h = [116]" using new_unchecked_Ok [of "[116]" PATH_LENGTH] by (auto simp: PATH_LENGTH_def)
  obtain n where n: "bs_wf n" "cap n = FILENAME_LENGTH" "content n = [97]" using new_unchecked_Ok [of "[97]" FILENAME_LENGTH] by (auto simp: FILENAME_LENGTH_def)
  have v: "ss_valid Path h" "ss_valid FileName n" using h n
    by (simp_all add: ss_valid_def Path_def FileName_def path_character_def file_name_character_def word_le_nat_alt)
  have "length (join_path (content h) (content n)) \<le> PATH_LENGTH" using h(3) n(3) by (simp add: join_path_def with_separator_def PATH_LENGTH_def)
  then obtain fp where fp: "from_path_and_file h n = Ok fp" using from_path_and_file_result [OF v(1) h(2) v(2) n(2)] by auto
  have "\<exists>path'. add_path_entry h n = (Ok (path', Inr ()) :: (unit, _) outcome) \<and> content path' = content fp"
    using path_builders_agree [OF v(1) h(2) v(2) n(2)] by (auto simp: fp)
  then show ?thesis using fp h(3) n(3) by blast
qed

section \<open>Names of concepts\<close>

text \<open>Stripping the suffix of a file name that is not full.\<close>

lemma strip_name:
  assumes "bs_wf s" and "len s < cap s"
  shows "content s = t @ x \<Longrightarrow> \<not> invalid_content FileName t
      \<Longrightarrow> \<exists>s'. ss_or_panic (ss_strip_suffix FileName s x) = (Ok (s', True) :: ('e, _) outcome) \<and> bs_wf s' \<and> cap s' = cap s \<and> content s' = t"
    and "content s = t @ x \<Longrightarrow> invalid_content FileName t \<Longrightarrow> length x \<le> 123
      \<Longrightarrow> ss_or_panic (ss_strip_suffix FileName s x) = (Panic :: ('e, byte_string \<times> bool) outcome)"
    and "\<nexists>t. content s = t @ x \<Longrightarrow> ss_or_panic (ss_strip_suffix FileName s x) = (Ok (s, False) :: ('e, _) outcome)"
proof -
  obtain s' b where r: "strip_suffix s x = (Ok (s', b) :: ('e, _) outcome)" "bs_wf s'" "cap s' = cap s"
    "if b then content s = content s' @ x else s' = s \<and> (\<nexists>t. content s = t @ x)"
    using strip_suffix_Ok [OF assms, of x, where ?'e = 'e] by blast
  have b: "content s = t @ x \<Longrightarrow> b \<and> content s' = t" using r(4) by (auto split: if_splits)
  have run: "ss_strip_suffix FileName s x = ss_strip FileName s x (Ok (s', b) :: ('e, _) outcome)" by (simp add: ss_strip_suffix_def r(1))
  show "\<exists>s'. ss_or_panic (ss_strip_suffix FileName s x) = (Ok (s', True) :: ('e, _) outcome) \<and> bs_wf s' \<and> cap s' = cap s \<and> content s' = t"
    if "content s = t @ x" "\<not> invalid_content FileName t"
    using b [OF that(1)] that(2) r(2,3) by (simp add: run ss_strip_def as_bytes_content ss_or_panic_def)
  show "ss_or_panic (ss_strip_suffix FileName s x) = (Panic :: ('e, byte_string \<times> bool) outcome)"
    if t: "content s = t @ x" "invalid_content FileName t" "length x \<le> 123"
  proof -
    obtain p where p: "bs_new 123 = (Ok p :: ('e, _) outcome)" "bs_repr p [] (data p)" "cap p = 123"
      using bs_new_repr [of 123, where ?'a = 'e] by auto
    obtain p' where "insert_bytes_unchecked p 0 x = (Ok p' :: ('e, _) outcome)"
      using insert_bytes_unchecked_repr [OF p(2), of 0 x, where ?'e = 'e] p(3) t(3) by auto
    then show ?thesis using b [OF t(1)] t(2) r(2) p(1) by (simp add: run ss_strip_def as_bytes_content ss_or_panic_def)
  qed
  show "ss_or_panic (ss_strip_suffix FileName s x) = (Ok (s, False) :: ('e, _) outcome)" if "\<nexists>t. content s = t @ x"
    using that r(4) by (auto simp: run ss_strip_def ss_or_panic_def split: if_splits)
qed

lemma appended_name_valid:
  "\<not> invalid_content FileName n \<Longrightarrow> \<not> invalid_characters FileName n \<Longrightarrow> x \<noteq> [] \<Longrightarrow> \<not> invalid_characters FileName x
   \<Longrightarrow> \<not> invalid_content FileName (n @ x) \<and> \<not> invalid_characters FileName (n @ x)"
  by (auto simp: FileName_def append_eq_Cons_conv)

lemma join_path_append: "join_path p n @ x = join_path p (n @ x)"
  by (simp add: join_path_def)

definition config_valid :: "named_concept_config \<Rightarrow> bool" where
  "config_valid cfg \<longleftrightarrow> ss_valid Path (path_hint cfg) \<and> cap (path_hint cfg) = PATH_LENGTH
     \<and> ss_valid FileName (suffix cfg) \<and> cap (suffix cfg) = FILENAME_LENGTH"

lemma path_for_Ok:
  assumes "config_valid cfg" and "ss_valid FileName name" and "length (join_path (content (path_hint cfg)) (content name @ content (suffix cfg))) \<le> PATH_LENGTH"
  shows "\<exists>fp. path_for cfg name = (Ok fp :: ('e, _) outcome) \<and> ss_valid FilePath fp \<and> cap fp = PATH_LENGTH
    \<and> content fp = join_path (content (path_hint cfg)) (content name @ content (suffix cfg))"
proof -
  let ?h = "content (path_hint cfg)" and ?n = "content name" and ?x = "content (suffix cfg)"
  have wf: "bs_wf (path_hint cfg)" "bs_wf name" "bs_wf (suffix cfg)" and h: "\<not> invalid_characters Path ?h" "cap (path_hint cfg) = PATH_LENGTH"
    and n: "\<not> invalid_content FileName ?n" "\<not> invalid_characters FileName ?n" and x: "?x \<noteq> []" "\<not> invalid_characters FileName ?x"
    using assms(1,2) by (auto simp: config_valid_def ss_valid_def) (simp add: FileName_def)
  have np: "\<not> invalid_characters Path ?n" "\<not> invalid_characters Path ?x" using valid_file_bytes(2) n(2) x(2) by (simp_all add: Path_def)
  have n0: "?n \<noteq> []" using n(1) by (auto simp: FileName_def)
  have len1: "length (join_path ?h ?n) \<le> cap (path_hint cfg)" using assms(3) h(2) by (simp add: join_path_def)
  from add_path_entry_Ok [OF wf(1,2) np(1) n0 len1, where ?'e = 'e] obtain s1 where s1: "add_path_entry (path_hint cfg) name = (Ok (s1, Inr ()) :: ('e, _) outcome)"
    "bs_wf s1" "cap s1 = PATH_LENGTH" "content s1 = join_path ?h ?n" using h(2) by auto
  have "len s1 = length (join_path ?h ?n)" using length_content [OF s1(2)] s1(4) by simp
  then have "len s1 + length ?x \<le> cap s1" "len s1 < cap s1" using assms(3) s1(3) x(1) by (cases ?x; simp add: join_path_def)+
  from path_push_Ok [OF s1(2) np(2) this, where ?'e = 'e] obtain s2 where s2: "ss_push_bytes Path s1 ?x = (Ok (s2, Inr ()) :: ('e, _) outcome)"
    "bs_wf s2" "content s2 = join_path ?h (?n @ ?x)" using s1(4) by (auto simp: join_path_append)
  obtain fp where fp: "new_unchecked PATH_LENGTH (content s2) = (Ok fp :: ('e, _) outcome)" "bs_wf fp" "cap fp = PATH_LENGTH" "content fp = content s2"
    using new_unchecked_Ok [of "content s2" PATH_LENGTH] assms(3) s2(3) by (auto simp: PATH_LENGTH_def)
  have "path_for cfg name = (Ok fp :: ('e, _) outcome)" by (simp add: path_for_def s1(1) ss_or_panic_def as_bytes_content wf s2(1,2) fp(1))
  moreover have "ss_valid FilePath fp" using join_path_valid [OF h(1)] appended_name_valid [OF n x] fp(2,4) s2(3)
    by (simp add: ss_valid_def) (simp add: FilePath_def)
  ultimately show ?thesis using fp s2(3) by auto
qed

text \<open>C27: under a configuration with a valid path hint and suffix, \<^verbatim>\<open>path_for\<close> builds the path of a name that fits: a valid file path. Extracting the
  name from it yields the name again when the path hint is empty or ends with a separator. When a separator had to be added, extracting the
  name yields nothing: \<^verbatim>\<open>path\<close> keeps the separator, and the comparison with the path hint fails.\<close>

theorem concept_name_roundtrip:
  assumes "config_valid cfg" and "ss_valid FileName name"
    and "length (join_path (content (path_hint cfg)) (content name @ content (suffix cfg))) \<le> PATH_LENGTH"
    and "len name + len (suffix cfg) < FILENAME_LENGTH"
  shows "\<exists>fp r. path_for cfg name = (Ok fp :: (unit, _) outcome) \<and> ss_valid FilePath fp
    \<and> extract_name_from_path cfg fp = (Ok r :: (unit, _) outcome)
    \<and> (if with_separator (content (path_hint cfg)) = content (path_hint cfg)
       then \<exists>name'. r = Some name' \<and> ss_valid FileName name' \<and> content name' = content name
       else r = None)"
proof -
  let ?h = "content (path_hint cfg)" and ?n = "content name" and ?x = "content (suffix cfg)"
  have wf: "bs_wf (path_hint cfg)" "bs_wf name" "bs_wf (suffix cfg)"
    and n: "\<not> invalid_content FileName ?n" "\<not> invalid_characters FileName ?n" and x: "?x \<noteq> []" "\<not> invalid_characters FileName ?x"
    using assms(1,2) by (auto simp: config_valid_def ss_valid_def) (simp add: FileName_def)
  obtain fp where fp: "path_for cfg name = (Ok fp :: (unit, _) outcome)" "ss_valid FilePath fp" "content fp = join_path ?h (?n @ ?x)"
    using path_for_Ok [OF assms(1-3), where ?'e = unit] by blast
  have bfp: "bs_wf fp" using fp(2) by (simp add: ss_valid_def)
  have sep: "PATH_SEPARATOR \<notin> set (?n @ ?x)" using appended_name_valid [OF n x] valid_file_bytes(1) by blast
  note parts = split_joined [OF bfp fp(3) sep]
  show ?thesis
  proof (cases "with_separator ?h = ?h")
    case True
    have l: "length (?n @ ?x) < FILENAME_LENGTH" using assms(4) length_content wf by simp
    obtain fl where fl: "new_unchecked FILENAME_LENGTH (?n @ ?x) = (Ok fl :: (unit, _) outcome)" "bs_wf fl" "cap fl = FILENAME_LENGTH" "content fl = ?n @ ?x"
      using new_unchecked_Ok [of "?n @ ?x" FILENAME_LENGTH] l by (auto simp: FILENAME_LENGTH_def)
    have "len fl < cap fl" using l fl(3,4) length_content [OF fl(2)] by simp
    from strip_name(1) [OF fl(2) this fl(4) n(1), where ?'e = unit] obtain s'
      where s': "ss_or_panic (ss_strip_suffix FileName fl ?x) = (Ok (s', True) :: (unit, _) outcome)" "bs_wf s'" "content s' = ?n" by blast
    have "extract_name_from_path cfg fp = (Ok (Some s') :: (unit, _) outcome)"
      by (simp add: extract_name_from_path_def as_bytes_content wf parts True fl(1) s'(1))
    then show ?thesis using True fp(1,2) s'(2,3) n by (auto simp: ss_valid_def)
  next
    case False
    then have "extract_name_from_path cfg fp = (Ok None :: (unit, _) outcome)"
      by (simp add: extract_name_from_path_def as_bytes_content wf parts)
    then show ?thesis using False fp(1,2) by auto
  qed
qed

theorem concept_name_roundtrip_witness:
  "\<exists>cfg name fp. content (path_hint cfg) = [47, 116] \<and> path_for cfg name = (Ok fp :: (unit, _) outcome)
    \<and> extract_name_from_path cfg fp = (Ok None :: (unit, _) outcome)"
proof -
  obtain h where h: "bs_wf h" "cap h = PATH_LENGTH" "content h = [47, 116]" using new_unchecked_Ok [of "[47, 116]" PATH_LENGTH] by (auto simp: PATH_LENGTH_def)
  obtain x where x: "bs_wf x" "cap x = FILENAME_LENGTH" "content x = [46, 115]" using new_unchecked_Ok [of "[46, 115]" FILENAME_LENGTH] by (auto simp: FILENAME_LENGTH_def)
  obtain n where n: "bs_wf n" "cap n = FILENAME_LENGTH" "content n = [97]" using new_unchecked_Ok [of "[97]" FILENAME_LENGTH] by (auto simp: FILENAME_LENGTH_def)
  let ?cfg = "\<lparr>suffix = x, path_hint = h\<rparr>"
  note valid = ss_valid_def Path_def FileName_def path_character_def file_name_character_def word_le_nat_alt
  have "config_valid ?cfg" "ss_valid FileName n" using h x n by (simp_all add: config_valid_def valid)
  moreover have "length (join_path (content (path_hint ?cfg)) (content n @ content (suffix ?cfg))) \<le> PATH_LENGTH" "len n + len (suffix ?cfg) < FILENAME_LENGTH"
    using h x n length_content [of n] length_content [of x] by (simp_all add: join_path_def with_separator_def PATH_LENGTH_def FILENAME_LENGTH_def PATH_SEPARATOR_def)
  moreover have "with_separator (content (path_hint ?cfg)) \<noteq> content (path_hint ?cfg)" using h(3) by (simp add: with_separator_def PATH_SEPARATOR_def)
  ultimately have "\<exists>fp. path_for ?cfg n = (Ok fp :: (unit, _) outcome) \<and> extract_name_from_path ?cfg fp = (Ok None :: (unit, _) outcome)"
    using concept_name_roundtrip [of ?cfg n] by auto
  moreover have "content (path_hint ?cfg) = [47, 116]" using h(3) by simp
  ultimately show ?thesis by blast
qed

text \<open>\<^verbatim>\<open>extract_name_from_file\<close> on a file name that is not full: the name in front of the suffix when that is a valid file name, nothing when
  the file does not end with the suffix. A file that is named like the suffix alone, or a suffix behind one or two dots, makes it panic, although
  the function can report that the file is no concept.\<close>

theorem extract_name_cases:
  assumes "config_valid cfg" and "len (suffix cfg) \<le> 123" and "ss_valid FileName file" and "len file < cap file"
  shows "(case extract_name_from_file cfg file of
        (Ok (Some name) :: (unit, _) outcome) \<Rightarrow> ss_valid FileName name \<and> content file = content name @ content (suffix cfg)
      | Ok None \<Rightarrow> \<nexists>t. content file = t @ content (suffix cfg)
      | Panic \<Rightarrow> \<exists>t \<in> {[], [46], [46, 46]}. content file = t @ content (suffix cfg)
      | _ \<Rightarrow> False)"
proof -
  let ?x = "content (suffix cfg)"
  have wf: "bs_wf (suffix cfg)" "bs_wf file" and ch: "\<not> invalid_characters FileName (content file)" using assms by (auto simp: config_valid_def ss_valid_def)
  have x: "length ?x \<le> 123" using assms(2) length_content [OF wf(1)] by simp
  have run: "extract_name_from_file cfg file = omap (\<lambda>(file, strip_result). if strip_result then Some file else None)
    (ss_or_panic (ss_strip_suffix FileName file ?x) :: (unit, _) outcome)" by (simp add: extract_name_from_file_def as_bytes_content wf)
  consider t where "content file = t @ ?x" "\<not> invalid_content FileName t" | t where "content file = t @ ?x" "invalid_content FileName t" | "\<nexists>t. content file = t @ ?x" by blast
  then show ?thesis
  proof cases
    case 1
    from strip_name(1) [OF wf(2) assms(4) 1, where ?'e = unit] obtain s' where
      s': "ss_or_panic (ss_strip_suffix FileName file ?x) = (Ok (s', True) :: (unit, _) outcome)" "bs_wf s'" "content s' = t" by blast
    moreover have "\<not> invalid_characters FileName t" using ch 1(1) by (auto simp: FileName_def)
    ultimately show ?thesis using 1 by (simp add: run ss_valid_def)
  next
    case 2
    then have "t \<in> {[], [46], [46, 46]}" by (simp add: FileName_def)
    then show ?thesis using strip_name(2) [OF wf(2) assms(4) 2 x, where ?'e = unit] 2(1) by (auto simp: run)
  next
    case 3
    then show ?thesis using strip_name(3) [OF wf(2) assms(4), where ?'e = unit] by (simp add: run)
  qed
qed

theorem extract_name_cases_witness:
  "\<exists>cfg fl. content fl = content (suffix cfg) \<and> extract_name_from_file cfg fl = (Panic :: (unit, _) outcome)"
proof -
  obtain h where h: "bs_wf h" "cap h = PATH_LENGTH" "content h = []" using new_unchecked_Ok [of "[]" PATH_LENGTH] by (auto simp: PATH_LENGTH_def)
  obtain x where x: "bs_wf x" "cap x = FILENAME_LENGTH" "content x = [46, 115]" using new_unchecked_Ok [of "[46, 115]" FILENAME_LENGTH] by (auto simp: FILENAME_LENGTH_def)
  let ?cfg = "\<lparr>suffix = x, path_hint = h\<rparr>"
  have v: "ss_valid FileName x" "config_valid ?cfg" "len x = 2" "len (suffix ?cfg) \<le> 123" "len x < cap x" using h x length_content [of x]
    by (simp_all add: config_valid_def ss_valid_def Path_def FileName_def path_character_def file_name_character_def word_le_nat_alt FILENAME_LENGTH_def)
  have none: "ss_valid FileName name \<Longrightarrow> content x \<noteq> content name @ content x" for name by (simp add: ss_valid_def FileName_def)
  from extract_name_cases [OF v(2,4,1,5)] none show ?thesis
    by (intro exI [of _ ?cfg] exI [of _ x]) (auto split: outcome.splits option.splits)
qed

end
