(* ===== verification/DynamicConfig.thy ===== *)
theory DynamicConfig
  imports LockFreeContainer BumpAllocator Interleaving
begin

text \<open>
  \<^verbatim>\<open>elkodon/src/service/dynamic_config\<close>: what all users of a service share. It holds the ports that are attached to the service, in
  lock-free containers whose memory lies behind the configuration, and the number of users.

  Sizes and alignments of the port ids are parameters (\<open>size_of_id\<close>, \<open>align_of_id\<close>): they come from the compiler. The lemmas show
  that the memory requested for the containers always suffices, and that exactly one user learns that it was the last one.
\<close>

section \<open>Ports\<close>

record ps_settings =
  number_of_subscribers :: usize
  number_of_publishers :: usize

record 'i ps_dynamic =
  dyn_subscribers :: "'i mpmc_container"
  dyn_publishers :: "'i mpmc_container"

definition psd_new :: "ps_settings \<Rightarrow> 'i ps_dynamic" where
  "psd_new config =
     \<lparr>dyn_subscribers = mc_new_uninit (number_of_subscribers config), dyn_publishers = mc_new_uninit (number_of_publishers config)\<rparr>"

definition psd_init ::
  "usize \<Rightarrow> usize \<Rightarrow> bump_allocator \<Rightarrow> 'i ps_dynamic \<Rightarrow> ('e, bump_allocator \<times> 'i ps_dynamic) outcome" where
  "psd_init size_of_id align_of_id a d =
     obind (panic_on_err (mc_initialize size_of_id align_of_id bump_allocate a (dyn_subscribers d))) (\<lambda>(a1, s).
     obind (panic_on_err (mc_initialize size_of_id align_of_id bump_allocate a1 (dyn_publishers d))) (\<lambda>(a2, p).
       Ok (a2, d\<lparr>dyn_subscribers := s, dyn_publishers := p\<rparr>)))"

definition psd_memory_size :: "usize \<Rightarrow> usize \<Rightarrow> ps_settings \<Rightarrow> ('e, usize) outcome" where
  "psd_memory_size size_of_id align_of_id config =
     obind (mc_const_memory_size size_of_id align_of_id (number_of_subscribers config)) (\<lambda>s.
     obind (mc_const_memory_size size_of_id align_of_id (number_of_publishers config)) (uadd s))"

definition number_of_supported_publishers :: "'i ps_dynamic \<Rightarrow> usize" where
  "number_of_supported_publishers d = mc_capacity (dyn_publishers d)"

definition number_of_supported_subscribers :: "'i ps_dynamic \<Rightarrow> usize" where
  "number_of_supported_subscribers d = mc_capacity (dyn_subscribers d)"

definition add_subscriber_id :: "'i ps_dynamic \<Rightarrow> 'i \<Rightarrow> ('e, 'i ps_dynamic \<times> bool option list unique_index option) outcome" where
  "add_subscriber_id d port_id = omap (\<lambda>(c, r). (d\<lparr>dyn_subscribers := c\<rparr>, r)) (mc_add (dyn_subscribers d) port_id)"

definition add_publisher_id :: "'i ps_dynamic \<Rightarrow> 'i \<Rightarrow> ('e, 'i ps_dynamic \<times> bool option list unique_index option) outcome" where
  "add_publisher_id d port_id = omap (\<lambda>(c, r). (d\<lparr>dyn_publishers := c\<rparr>, r)) (mc_add (dyn_publishers d) port_id)"

record ev_settings =
  number_of_listeners :: usize
  number_of_notifiers :: usize

record 'i ev_dynamic =
  dyn_listeners :: "'i mpmc_container"
  dyn_notifiers :: "'i mpmc_container"

definition evd_new :: "ev_settings \<Rightarrow> 'i ev_dynamic" where
  "evd_new config =
     \<lparr>dyn_listeners = mc_new_uninit (number_of_listeners config), dyn_notifiers = mc_new_uninit (number_of_notifiers config)\<rparr>"

definition evd_init ::
  "usize \<Rightarrow> usize \<Rightarrow> bump_allocator \<Rightarrow> 'i ev_dynamic \<Rightarrow> ('e, bump_allocator \<times> 'i ev_dynamic) outcome" where
  "evd_init size_of_id align_of_id a d =
     obind (panic_on_err (mc_initialize size_of_id align_of_id bump_allocate a (dyn_listeners d))) (\<lambda>(a1, s).
     obind (panic_on_err (mc_initialize size_of_id align_of_id bump_allocate a1 (dyn_notifiers d))) (\<lambda>(a2, p).
       Ok (a2, d\<lparr>dyn_listeners := s, dyn_notifiers := p\<rparr>)))"

definition evd_memory_size :: "usize \<Rightarrow> usize \<Rightarrow> ev_settings \<Rightarrow> ('e, usize) outcome" where
  "evd_memory_size size_of_id align_of_id config =
     obind (mc_const_memory_size size_of_id align_of_id (number_of_listeners config)) (\<lambda>s.
     obind (mc_const_memory_size size_of_id align_of_id (number_of_notifiers config)) (uadd s))"

definition number_of_supported_listeners :: "'i ev_dynamic \<Rightarrow> usize" where
  "number_of_supported_listeners d = mc_capacity (dyn_listeners d)"

definition number_of_supported_notifiers :: "'i ev_dynamic \<Rightarrow> usize" where
  "number_of_supported_notifiers d = mc_capacity (dyn_notifiers d)"

definition add_listener_id :: "'i ev_dynamic \<Rightarrow> 'i \<Rightarrow> ('e, 'i ev_dynamic \<times> bool option list unique_index option) outcome" where
  "add_listener_id d port_id = omap (\<lambda>(c, r). (d\<lparr>dyn_listeners := c\<rparr>, r)) (mc_add (dyn_listeners d) port_id)"

definition add_notifier_id :: "'i ev_dynamic \<Rightarrow> 'i \<Rightarrow> ('e, 'i ev_dynamic \<times> bool option list unique_index option) outcome" where
  "add_notifier_id d port_id = omap (\<lambda>(c, r). (d\<lparr>dyn_notifiers := c\<rparr>, r)) (mc_add (dyn_notifiers d) port_id)"

section \<open>The configuration\<close>

datatype 'i dyn_pattern = DynPublishSubscribe "'i ps_dynamic" | DynEvent "'i ev_dynamic"

record 'i dynamic_config =
  dc_pattern :: "'i dyn_pattern"
  dc_counter :: u64

definition MARKED_FOR_DESTRUCTION :: u64 where "MARKED_FOR_DESTRUCTION = - 1 - 1"

datatype decrement_result = HasOwners | NoMoreOwners

definition dc_new_uninit :: "'i dyn_pattern \<Rightarrow> 'i dynamic_config" where
  "dc_new_uninit messaging_pattern = \<lparr>dc_pattern = messaging_pattern, dc_counter = 1\<rparr>"

definition dc_init :: "usize \<Rightarrow> usize \<Rightarrow> bump_allocator \<Rightarrow> 'i dynamic_config \<Rightarrow> ('e, bump_allocator \<times> 'i dynamic_config) outcome" where
  "dc_init size_of_id align_of_id a d =
     (case dc_pattern d of
        DynPublishSubscribe v \<Rightarrow> omap (\<lambda>(a', v'). (a', d\<lparr>dc_pattern := DynPublishSubscribe v'\<rparr>)) (psd_init size_of_id align_of_id a v)
      | DynEvent v \<Rightarrow> omap (\<lambda>(a', v'). (a', d\<lparr>dc_pattern := DynEvent v'\<rparr>)) (evd_init size_of_id align_of_id a v))"

definition dc_publish_subscribe :: "'i dynamic_config \<Rightarrow> ('e, 'i ps_dynamic) outcome" where
  "dc_publish_subscribe d = (case dc_pattern d of DynPublishSubscribe v \<Rightarrow> Ok v | DynEvent _ \<Rightarrow> Panic)"

definition dc_event :: "'i dynamic_config \<Rightarrow> ('e, 'i ev_dynamic) outcome" where
  "dc_event d = (case dc_pattern d of DynEvent v \<Rightarrow> Ok v | DynPublishSubscribe _ \<Rightarrow> Panic)"

text \<open>The loops on the counter. \<open>RcInc v\<close> and \<open>RcDec v\<close>: \<open>v\<close> is the value that was read last, and the exchange is next. The arithmetic
  on it is checked.\<close>

datatype rc_pc = RcIdle | RcIncLoad | RcInc u64 | RcHolding | RcRefused | RcDecLoad | RcDec u64 | RcLast | RcPanic

fun rc_step :: "u64 \<Rightarrow> rc_pc \<Rightarrow> u64 \<times> rc_pc" where
  "rc_step c RcIncLoad = (c, RcInc c)"
| "rc_step c (RcInc current_value) =
     (if current_value = MARKED_FOR_DESTRUCTION then (c, RcRefused)
      else if current_value = - 1 then (c, RcPanic)
      else if c = current_value then (current_value + 1, RcHolding)
      else (c, RcInc c))"
| "rc_step c RcDecLoad = (c, RcDec c)"
| "rc_step c (RcDec current_value) =
     (if current_value = 0 then (c, RcPanic)
      else if c = current_value
      then (if current_value = 1 then (MARKED_FOR_DESTRUCTION, RcLast) else (current_value - 1, RcIdle))
      else (c, RcDec c))"
| "rc_step c pc = (c, pc)"

text \<open>Without other threads each loop ends with its first exchange.\<close>

definition increment_reference_counter :: "'i dynamic_config \<Rightarrow> (unit, 'i dynamic_config) outcome" where
  "increment_reference_counter d =
     (case rc_step (dc_counter d) RcIncLoad of (c1, pc1) \<Rightarrow> case rc_step c1 pc1 of (c, pc) \<Rightarrow>
        if pc = RcHolding then Ok (d\<lparr>dc_counter := c\<rparr>) else if pc = RcRefused then Err () else Panic)"

definition decrement_reference_counter :: "'i dynamic_config \<Rightarrow> ('e, 'i dynamic_config \<times> decrement_result) outcome" where
  "decrement_reference_counter d =
     (case rc_step (dc_counter d) RcDecLoad of (c1, pc1) \<Rightarrow> case rc_step c1 pc1 of (c, pc) \<Rightarrow>
        if pc = RcLast then Ok (d\<lparr>dc_counter := c\<rparr>, NoMoreOwners)
        else if pc = RcIdle then Ok (d\<lparr>dc_counter := c\<rparr>, HasOwners) else Panic)"

text \<open>The users of one service: one creates the configuration, the others open it (increment) and every user closes it in the end
  (decrement). \<open>None\<close>: the configuration does not exist yet. A user that was not the last one may open the service again.\<close>

inductive rc_thread :: "u64 option \<Rightarrow> rc_pc \<Rightarrow> u64 option \<Rightarrow> rc_pc \<Rightarrow> bool" where
  rc_create: "rc_thread None RcIdle (Some 1) RcHolding"
| rc_open: "rc_thread (Some c) RcIdle (Some c) RcIncLoad"
| rc_close: "rc_thread (Some c) RcHolding (Some c) RcDecLoad"
| rc_work: "rc_step c pc = (c', pc') \<Longrightarrow> rc_thread (Some c) pc (Some c') pc'"


section \<open>The last user\<close>

fun rc_holds :: "rc_pc \<Rightarrow> bool" where
  "rc_holds RcHolding \<longleftrightarrow> True"
| "rc_holds RcDecLoad \<longleftrightarrow> True"
| "rc_holds (RcDec v) \<longleftrightarrow> True"
| "rc_holds _ \<longleftrightarrow> False"

definition rc_last :: "rc_pc \<Rightarrow> bool" where "rc_last pc \<longleftrightarrow> pc = RcLast"

fun rc_ok :: "nat \<Rightarrow> rc_pc \<Rightarrow> bool" where
  "rc_ok n (RcInc v) \<longleftrightarrow> unat v \<le> n \<or> v = MARKED_FOR_DESTRUCTION"
| "rc_ok n (RcDec v) \<longleftrightarrow> v \<noteq> 0"
| "rc_ok n RcPanic \<longleftrightarrow> False"
| "rc_ok n _ \<longleftrightarrow> True"

text \<open>The counter is the number of users until the last one marks the configuration.\<close>

definition rc_counts :: "u64 \<Rightarrow> nat \<times> nat \<Rightarrow> bool" where
  "rc_counts c h \<longleftrightarrow> (if c = MARKED_FOR_DESTRUCTION then h = (0, 1) else 0 < fst h \<and> unat c = fst h \<and> snd h = 0)"

definition rc_inv :: "nat \<Rightarrow> u64 option \<Rightarrow> (nat \<Rightarrow> rc_pc) \<Rightarrow> bool" where
  "rc_inv n s f \<longleftrightarrow> (\<forall>t < n. rc_ok n (f t))
     \<and> (case s of None \<Rightarrow> \<forall>t < n. f t = RcIdle | Some c \<Rightarrow> rc_counts c (number n rc_holds f, number n rc_last f))"

lemma unat_marked: "unat MARKED_FOR_DESTRUCTION = 2 ^ 64 - 2"
  by (simp add: MARKED_FOR_DESTRUCTION_def)

text \<open>What one step does to the counter and to the state of its thread.\<close>

lemma rc_step_counts:
  assumes "rc_step c pc = (c', pc')" and "rc_ok n pc" and "rc_counts c (h, l)" and "h \<le> n" and "n < 2 ^ 64 - 2"
    and "rc_holds pc \<longrightarrow> 0 < h" and "pc \<noteq> RcLast \<or> 0 < l" and "\<not> rc_holds pc \<and> pc \<noteq> RcLast \<longrightarrow> h < n"
  shows "rc_ok n pc' \<and> rc_counts c' (h + (if rc_holds pc' then 1 else 0) - (if rc_holds pc then 1 else 0),
    l + (if rc_last pc' then 1 else 0) - (if rc_last pc then 1 else 0))"
proof -
  have m: "unat MARKED_FOR_DESTRUCTION = 18446744073709551614" using unat_marked by simp
  have max: "unat (- 1 :: u64) = 18446744073709551615" by (simp add: unsigned_minus_1_eq_mask mask_eq_exp_minus_1)
  show ?thesis
  proof (cases pc)
    case (RcInc v)
    show ?thesis
    proof (cases "v = MARKED_FOR_DESTRUCTION")
      case True
      then show ?thesis using RcInc assms by (auto simp: rc_last_def)
    next
      case False
      then have v: "v \<noteq> - 1" using RcInc assms(2,5) max by auto
      show ?thesis
      proof (cases "c = v")
        case True
        then have u: "unat v = h" using assms(3) False by (simp add: rc_counts_def)
        moreover have "h < n" using assms(8) RcInc by simp
        ultimately have u1: "unat (v + 1) = Suc h" using assms(5) by (simp add: unat_word_ariths)
        moreover have "v + 1 \<noteq> MARKED_FOR_DESTRUCTION" using u1 m \<open>h < n\<close> assms(5) by auto
        ultimately show ?thesis using True False v RcInc assms(1,3) by (auto simp: rc_counts_def rc_last_def)
      next
        case neq: False
        then show ?thesis using False v RcInc assms(1,3,4) by (auto simp: rc_counts_def rc_last_def split: if_splits)
      qed
    qed
  next
    case (RcDec v)
    have c: "c \<noteq> MARKED_FOR_DESTRUCTION" "unat c = h" "l = 0" "0 < h" using assms(3,6) RcDec by (auto simp: rc_counts_def split: if_splits)
    have v: "v \<noteq> 0" using assms(2) RcDec by simp
    show ?thesis
    proof (cases "c = v")
      case True
      show ?thesis
      proof (cases "v = 1")
        case one: True
        then show ?thesis using True v RcDec assms(1) c by (auto simp: rc_counts_def rc_last_def)
      next
        case False
        then have "unat v \<noteq> 1" using word_unat_eq_iff [of v 1] by simp
        moreover have u: "unat (v - 1) = h - 1" using c True v by (simp add: unat_sub word_le_nat_alt unat_gt_0)
        moreover have "v - 1 \<noteq> MARKED_FOR_DESTRUCTION" using u m assms(4,5) by auto
        ultimately show ?thesis using True False v RcDec assms(1) c by (auto simp: rc_counts_def rc_last_def)
      qed
    next
      case False
      moreover have "c \<noteq> 0" using c by auto
      ultimately show ?thesis using v RcDec assms(1,3) by (auto simp: rc_last_def)
    qed
  qed (use assms in \<open>auto simp: rc_counts_def rc_last_def split: if_splits\<close>)
qed

lemma rc_inv_step:
  assumes "rc_inv n s f" and "t < n" and "rc_thread s (f t) s' pc'" and "n < 2 ^ 64 - 2"
  shows "rc_inv n s' (f(t := pc'))"
  using assms(3)
proof (cases rule: rc_thread.cases)
  case rc_create
  have f: "u < n \<Longrightarrow> f u = RcIdle" for u using assms(1) rc_create by (simp add: rc_inv_def)
  then have z: "number n rc_holds f = 0" "number n rc_last f = 0" by (simp_all add: number_eq_0 rc_last_def)
  have "number n rc_holds (f(t := pc')) = 1" "number n rc_last (f(t := pc')) = 0"
    using number_upd [OF assms(2), of rc_holds f pc'] number_upd [OF assms(2), of rc_last f pc'] z rc_create f [OF assms(2)] by (simp_all add: rc_last_def of_bool_def)
  moreover have "(1 :: u64) \<noteq> MARKED_FOR_DESTRUCTION" by (simp add: MARKED_FOR_DESTRUCTION_def)
  ultimately show ?thesis using rc_create f by (simp add: rc_inv_def rc_counts_def)
next
  case (rc_open c)
  have "number n rc_holds (f(t := pc')) = number n rc_holds f" "number n rc_last (f(t := pc')) = number n rc_last f"
    using rc_open by (auto intro!: number_upd_same simp: rc_last_def)
  then show ?thesis using assms(1) rc_open by (simp add: rc_inv_def)
next
  case (rc_close c)
  have "number n rc_holds (f(t := pc')) = number n rc_holds f" "number n rc_last (f(t := pc')) = number n rc_last f"
    using rc_close by (auto intro!: number_upd_same simp: rc_last_def)
  then show ?thesis using assms(1) rc_close by (simp add: rc_inv_def)
next
  case (rc_work c c')
  let ?h = "number n rc_holds f" and ?l = "number n rc_last f"
  have inv: "rc_ok n (f t)" "rc_counts c (?h, ?l)" "\<And>u. u < n \<Longrightarrow> rc_ok n (f u)" using assms(1,2) rc_work(1) by (auto simp: rc_inv_def)
  have "rc_holds (f t) \<longrightarrow> 0 < ?h" "f t \<noteq> RcLast \<or> 0 < ?l" "\<not> rc_holds (f t) \<and> f t \<noteq> RcLast \<longrightarrow> ?h < n"
    using number_pos [OF assms(2), of rc_holds f] number_pos [OF assms(2), of rc_last f] number_less [OF assms(2), of rc_holds f] by (auto simp: rc_last_def)
  note step = rc_step_counts [OF rc_work(3) inv(1,2) number_le assms(4) this]
  have "number n rc_holds (f(t := pc')) = ?h + (if rc_holds pc' then 1 else 0) - (if rc_holds (f t) then 1 else 0)"
    "number n rc_last (f(t := pc')) = ?l + (if rc_last pc' then 1 else 0) - (if rc_last (f t) then 1 else 0)"
    unfolding of_bool_def [symmetric] using number_upd [OF assms(2), of rc_holds f pc'] number_upd [OF assms(2), of rc_last f pc'] by linarith+
  then show ?thesis using step inv(3) rc_work(2) by (simp add: rc_inv_def)
qed

lemma rc_reach_inv:
  assumes "conc_reach n rc_thread None RcIdle s f" and "n < 2 ^ 64 - 2"
  shows "rc_inv n s f"
  using assms(1)
proof induction
  case start
  show ?case by (simp add: rc_inv_def)
next
  case (step s f t s' pc)
  then show ?case using rc_inv_step assms(2) by blast
qed

text \<open>C15: for any number of processes that create, open and close a service at the same time, the counter is the number of users until the last
  one leaves. Exactly one user is told that it was the last one; from then on nobody uses the service, and nobody can open it any more. The
  counter neither overflows nor underflows.\<close>

theorem exactly_one_last_user:
  assumes "conc_reach n rc_thread None RcIdle s f" and "n < 2 ^ 64 - 2"
  shows "case s of
      None \<Rightarrow> \<forall>t < n. f t = RcIdle
    | Some c \<Rightarrow> (if c = MARKED_FOR_DESTRUCTION then (\<exists>!t. t < n \<and> f t = RcLast) \<and> (\<forall>t < n. \<not> rc_holds (f t))
               else unat c = number n rc_holds f \<and> (\<exists>t < n. rc_holds (f t)) \<and> (\<forall>t < n. f t \<noteq> RcLast))
             \<and> (\<forall>t < n. f t \<noteq> RcPanic)"
proof (cases s)
  case None
  then show ?thesis using rc_reach_inv [OF assms] by (simp add: rc_inv_def)
next
  case (Some c)
  have inv: "\<forall>t < n. rc_ok n (f t)" "rc_counts c (number n rc_holds f, number n rc_last f)" using rc_reach_inv [OF assms] Some by (simp_all add: rc_inv_def)
  have np: "\<forall>t < n. f t \<noteq> RcPanic" using inv(1) by (metis rc_ok.simps(3))
  show ?thesis
  proof (cases "c = MARKED_FOR_DESTRUCTION")
    case True
    then have n: "number n rc_holds f = 0" "number n rc_last f = 1" using inv(2) by (simp_all add: rc_counts_def)
    then obtain t where t: "t < n" "rc_last (f t)" by (metis number_eq_0 zero_neq_one)
    have "\<exists>!t. t < n \<and> f t = RcLast"
    proof (rule ex1I [of _ t])
      show "t < n \<and> f t = RcLast" using t by (simp add: rc_last_def)
      show "u = t" if "u < n \<and> f u = RcLast" for u
        using number_one [of n rc_last f u t] n(2) t that by (simp add: rc_last_def)
    qed
    then show ?thesis using Some True np n(1) by (simp add: number_eq_0)
  next
    case False
    then have "0 < number n rc_holds f" "unat c = number n rc_holds f" "number n rc_last f = 0" using inv(2) by (simp_all add: rc_counts_def)
    then show ?thesis using Some False np number_eq_0 [of n rc_holds f] number_eq_0 [of n rc_last f] by (auto simp: rc_last_def)
  qed
qed

theorem exactly_one_last_user_witness:
  "\<exists>f. conc_reach 2 rc_thread None RcIdle (Some MARKED_FOR_DESTRUCTION) f \<and> f 1 = RcInc 1 \<and> (\<exists>!t. t < 2 \<and> f t = RcLast)"
proof -
  note st = conc_reach.step [of 2 rc_thread None RcIdle]
  note work = rc_thread.rc_work
  have 1: "conc_reach 2 rc_thread None RcIdle (Some 1) ((\<lambda>_. RcIdle)(0 := RcHolding))"
    using st [OF conc_reach.start, of 0 "Some 1" RcHolding] by (simp add: rc_thread.rc_create)
  have 2: "conc_reach 2 rc_thread None RcIdle (Some 1) ((\<lambda>_. RcIdle)(0 := RcHolding, 1 := RcIncLoad))"
    using st [OF 1, of 1 "Some 1" RcIncLoad] by (simp add: rc_thread.rc_open)
  have 3: "conc_reach 2 rc_thread None RcIdle (Some 1) ((\<lambda>_. RcIdle)(0 := RcHolding, 1 := RcInc 1))"
    using st [OF 2, of 1 "Some 1" "RcInc 1"] by (simp add: work)
  have 4: "conc_reach 2 rc_thread None RcIdle (Some 1) ((\<lambda>_. RcIdle)(1 := RcInc 1, 0 := RcDecLoad))"
    using st [OF 3, of 0 "Some 1" RcDecLoad] by (simp add: rc_thread.rc_close fun_upd_twist)
  have 5: "conc_reach 2 rc_thread None RcIdle (Some 1) ((\<lambda>_. RcIdle)(1 := RcInc 1, 0 := RcDec 1))"
    using st [OF 4, of 0 "Some 1" "RcDec 1"] by (simp add: work)
  have 6: "conc_reach 2 rc_thread None RcIdle (Some MARKED_FOR_DESTRUCTION) ((\<lambda>_. RcIdle)(1 := RcInc 1, 0 := RcLast))"
    using st [OF 5, of 0 "Some MARKED_FOR_DESTRUCTION" RcLast] by (simp add: work)
  let ?f = "(\<lambda>_ :: nat. RcIdle)(1 := RcInc 1, 0 := RcLast)"
  have "\<exists>!t. t < 2 \<and> ?f t = RcLast" using exactly_one_last_user [OF 6] by auto
  moreover have "?f 1 = RcInc 1" by simp
  ultimately show ?thesis using 6 by blast
qed

section \<open>The memory of the ports\<close>

definition ports_fresh :: "usize \<Rightarrow> 'i mpmc_container \<Rightarrow> bool" where
  "ports_fresh n c \<longleftrightarrow> mc_wf c \<and> mc_capacity c = n \<and> (\<forall>i. mc_map c i = None) \<and> uis_free (mc_index_set c) = map word_of_nat [0 ..< n]
     \<and> uis_budget (mc_index_set c) = 2 ^ 32 - 1"

text \<open>One container, initialised in memory that starts anywhere.\<close>

lemma mc_initialize_bump:
  assumes "0 < n" and "n + 1 < 2 ^ 32" and "0 < size_of" and "align_of = 2 ^ k" and "mc_const_memory_size size_of align_of n = (Ok m :: ('e, _) outcome)"
    and "b_position a + m \<le> b_size a" and "b_start a + b_size a + align_of + 4 < usize_lim"
  shows "\<exists>p c. mc_initialize size_of align_of bump_allocate a (mc_new_uninit n) = Ok (a\<lparr>b_position := p\<rparr>, c) \<and> p \<le> b_position a + m \<and> ports_fresh n c"
proof -
  have m: "m = 4 * (n + 1) + (1 + size_of) * n + 4 - 1 + align_of - 1" "0 < align_of"
    using assms(4,5) by (auto simp: mc_const_memory_size_def outcome_iffs)
  then have m': "m = 4 * (n + 1) + n + size_of * n + 2 + align_of" by (simp add: algebra_simps)
  have "valid_layout \<lparr>lsize = 4 * (n + 1), lalign = 4\<rparr>" by (rule valid_layout_intro [of _ 2]) simp
  moreover have "b_position a + 4 * (n + 1) + 4 \<le> b_size a + 1" "b_start a + b_size a + 4 < usize_lim" using assms(6,7) m' m(2) by linarith+
  ultimately obtain p1 c1 where s1: "bump_allocate a \<lparr>lsize = 4 * (n + 1), lalign = 4\<rparr> = Ok (a\<lparr>b_position := p1\<rparr>, c1)" "p1 + 1 \<le> b_position a + 4 * (n + 1) + 4"
    using bump_allocate_fits [of "\<lparr>lsize = 4 * (n + 1), lalign = 4\<rparr>" a] by auto
  let ?a1 = "a\<lparr>b_position := p1\<rparr>"
  have "valid_layout \<lparr>lsize = n, lalign = 1\<rparr>" by (rule valid_layout_intro [of _ 0]) simp
  moreover have "b_position ?a1 + n + 1 \<le> b_size ?a1 + 1" "b_start ?a1 + b_size ?a1 + 1 < usize_lim" using s1(2) assms(6,7) m' m(2) by simp_all
  ultimately obtain p2 c2 where s2: "bump_allocate ?a1 \<lparr>lsize = n, lalign = 1\<rparr> = Ok (a\<lparr>b_position := p2\<rparr>, c2)" "p2 + 1 \<le> p1 + n + 1"
    using bump_allocate_fits [of "\<lparr>lsize = n, lalign = 1\<rparr>" ?a1] assms(1) by auto
  let ?a2 = "a\<lparr>b_position := p2\<rparr>"
  have "valid_layout \<lparr>lsize = size_of * n, lalign = align_of\<rparr>" using assms(4) by (intro valid_layout_intro [of _ k]) simp
  moreover have "b_position ?a2 + size_of * n + align_of \<le> b_size ?a2 + 1" "b_start ?a2 + b_size ?a2 + align_of < usize_lim" using s1(2) s2(2) assms(6,7) m' by simp_all
  ultimately obtain p3 c3 where s3: "bump_allocate ?a2 \<lparr>lsize = size_of * n, lalign = align_of\<rparr> = Ok (a\<lparr>b_position := p3\<rparr>, c3)"
    "p3 + 1 \<le> p2 + size_of * n + align_of"
    using bump_allocate_fits [of "\<lparr>lsize = size_of * n, lalign = align_of\<rparr>" ?a2] assms(1,3) by auto
  obtain u where u: "uis_init_in bump_allocate a (uis_new_uninit n) = Ok (?a1, u)" "uis_wf u" "uis_free u = map word_of_nat [0 ..< n]"
    "u_capacity u = word_of_nat n" "uis_budget u = 2 ^ 32 - 1" using uis_init_in_initial [of n bump_allocate a ?a1 c1, OF assms(2) s1(1)] by auto
  have lim: "n < usize_lim" "size_of * n < usize_lim" using assms(6,7) m' by linarith+
  let ?c = "\<lparr>mc_active = replicate n (Some False), mc_data = replicate n None, mc_capacity = n, mc_init = True, mc_index_set = u\<rparr>"
  have "mc_initialize size_of align_of bump_allocate a (mc_new_uninit n) = Ok (a\<lparr>b_position := p3\<rparr>, ?c)"
    using u(1) s2(1) s3(1) lim by (simp add: mc_initialize_def mc_new_uninit_def)
  moreover have "p3 \<le> b_position a + m" using s1(2) s2(2) s3(2) m' by linarith
  moreover have "i \<in> set (uis_free u)" if "unat i < n" for i :: u32 using u(3) that by (auto intro!: image_eqI [of _ _ "unat i"])
  then have "mc_wf ?c" using u assms(2) by (auto simp: mc_wf_def)
  then have "ports_fresh n ?c" using u by (simp add: ports_fresh_def mc_map_def mc_entry_def)
  ultimately show ?thesis by blast
qed

text \<open>Two containers one after the other.\<close>

lemma init_two_containers:
  assumes "0 < n1" and "n1 + 1 < 2 ^ 32" and "0 < n2" and "n2 + 1 < 2 ^ 32" and "0 < size_of" and "align_of = 2 ^ k"
    and "mc_const_memory_size size_of align_of n1 = (Ok m1 :: ('e, _) outcome)" and "mc_const_memory_size size_of align_of n2 = (Ok m2 :: ('e, _) outcome)"
    and "start + (m1 + m2) + align_of + 4 < usize_lim"
  shows "\<exists>p1 (c1 :: 'i mpmc_container) p2 (c2 :: 'i mpmc_container).
    mc_initialize size_of align_of bump_allocate (bump_new start (m1 + m2)) (mc_new_uninit n1) = Ok (p1, c1) \<and> ports_fresh n1 c1
    \<and> mc_initialize size_of align_of bump_allocate p1 (mc_new_uninit n2) = Ok (p2, c2) \<and> ports_fresh n2 c2"
proof -
  let ?a = "bump_new start (m1 + m2)"
  have a: "b_position ?a + m1 \<le> b_size ?a" "b_start ?a + b_size ?a + align_of + 4 < usize_lim" using assms(9) by (simp_all add: bump_new_def)
  from mc_initialize_bump [OF assms(1,2,5-7) this] obtain p1 and c1 :: "'i mpmc_container" where 1: "mc_initialize size_of align_of bump_allocate ?a (mc_new_uninit n1) = Ok (?a\<lparr>b_position := p1\<rparr>, c1)"
    "p1 \<le> b_position ?a + m1" "ports_fresh n1 c1" by blast
  have "b_position (?a\<lparr>b_position := p1\<rparr>) + m2 \<le> b_size (?a\<lparr>b_position := p1\<rparr>)"
    "b_start (?a\<lparr>b_position := p1\<rparr>) + b_size (?a\<lparr>b_position := p1\<rparr>) + align_of + 4 < usize_lim" using 1(2) assms(9) by (simp_all add: bump_new_def)
  from mc_initialize_bump [OF assms(3-6) assms(8) this, where ?'a = 'i] show ?thesis using 1(1,3) by blast
qed

lemma ports_init_fit:
  assumes "0 < n1" and "n1 + 1 < 2 ^ 32" and "0 < n2" and "n2 + 1 < 2 ^ 32" and "0 < size_of_id" and "align_of_id = 2 ^ k"
    and "psd_memory_size size_of_id align_of_id \<lparr>number_of_subscribers = n1, number_of_publishers = n2\<rparr> = (Ok m :: ('f, _) outcome)"
    and "start + m + align_of_id + 4 < usize_lim"
  shows "\<exists>a d. psd_init size_of_id align_of_id (bump_new start m) (psd_new \<lparr>number_of_subscribers = n1, number_of_publishers = n2\<rparr>)
            = (Ok (a, d) :: ('e, bump_allocator \<times> 'i ps_dynamic) outcome) \<and> ports_fresh n1 (dyn_subscribers d) \<and> ports_fresh n2 (dyn_publishers d)"
    and "\<exists>a d. evd_init size_of_id align_of_id (bump_new start m) (evd_new \<lparr>number_of_listeners = n1, number_of_notifiers = n2\<rparr>)
            = (Ok (a, d) :: ('e, bump_allocator \<times> 'i ev_dynamic) outcome) \<and> ports_fresh n1 (dyn_listeners d) \<and> ports_fresh n2 (dyn_notifiers d)"
proof -
  obtain m1 m2 where m: "mc_const_memory_size size_of_id align_of_id n1 = (Ok m1 :: ('f, _) outcome)"
    "mc_const_memory_size size_of_id align_of_id n2 = (Ok m2 :: ('f, _) outcome)" "m = m1 + m2"
    using assms(7) by (auto simp: psd_memory_size_def outcome_iffs)
  have "start + (m1 + m2) + align_of_id + 4 < usize_lim" using assms(8) m(3) by simp
  from init_two_containers [OF assms(1-6) m(1,2) this, where ?'i = 'i] obtain p1 p2 and c1 c2 :: "'i mpmc_container" where
    i: "mc_initialize size_of_id align_of_id bump_allocate (bump_new start m) (mc_new_uninit n1) = Ok (p1, c1)" "ports_fresh n1 c1"
      "mc_initialize size_of_id align_of_id bump_allocate p1 (mc_new_uninit n2) = Ok (p2, c2)" "ports_fresh n2 c2" unfolding m(3) by blast
  then show "\<exists>a d. psd_init size_of_id align_of_id (bump_new start m) (psd_new \<lparr>number_of_subscribers = n1, number_of_publishers = n2\<rparr>)
            = (Ok (a, d) :: ('e, bump_allocator \<times> 'i ps_dynamic) outcome) \<and> ports_fresh n1 (dyn_subscribers d) \<and> ports_fresh n2 (dyn_publishers d)"
    and "\<exists>a d. evd_init size_of_id align_of_id (bump_new start m) (evd_new \<lparr>number_of_listeners = n1, number_of_notifiers = n2\<rparr>)
            = (Ok (a, d) :: ('e, bump_allocator \<times> 'i ev_dynamic) outcome) \<and> ports_fresh n1 (dyn_listeners d) \<and> ports_fresh n2 (dyn_notifiers d)"
    by (simp_all add: psd_init_def psd_new_def evd_init_def evd_new_def panic_on_err_def)
qed

text \<open>C30: the memory that \<^verbatim>\<open>memory_size\<close> requests for the ports of a publish-subscribe or event service always suffices: for every number of
  ports from 1 to the limit of the index set, every size and alignment of the port ids and every start address, \<^verbatim>\<open>init\<close> returns and the
  configuration holds two empty, well-formed containers with room for the requested number of ports.\<close>

theorem dynamic_config_memory_suffices:
  assumes "0 < n1" and "n1 + 1 < 2 ^ 32" and "0 < n2" and "n2 + 1 < 2 ^ 32" and "0 < size_of_id" and "align_of_id = 2 ^ k"
    and "psd_memory_size size_of_id align_of_id \<lparr>number_of_subscribers = n1, number_of_publishers = n2\<rparr> = (Ok m :: (unit, _) outcome)"
    and "start + m + align_of_id + 4 < usize_lim"
  shows "(\<exists>a d. psd_init size_of_id align_of_id (bump_new start m) (psd_new \<lparr>number_of_subscribers = n1, number_of_publishers = n2\<rparr>)
            = (Ok (a, d) :: (unit, bump_allocator \<times> 'i ps_dynamic) outcome) \<and> ports_fresh n1 (dyn_subscribers d) \<and> ports_fresh n2 (dyn_publishers d))
       \<and> (evd_memory_size size_of_id align_of_id \<lparr>number_of_listeners = n1, number_of_notifiers = n2\<rparr> = (Ok m :: (unit, _) outcome))
       \<and> (\<exists>a d. evd_init size_of_id align_of_id (bump_new start m) (evd_new \<lparr>number_of_listeners = n1, number_of_notifiers = n2\<rparr>)
            = (Ok (a, d) :: (unit, bump_allocator \<times> 'i ev_dynamic) outcome) \<and> ports_fresh n1 (dyn_listeners d) \<and> ports_fresh n2 (dyn_notifiers d))"
  using ports_init_fit [OF assms, where ?'e = unit and ?'i = 'i] assms(7) by (simp add: psd_memory_size_def evd_memory_size_def)

theorem dynamic_config_memory_suffices_witness:
  "\<exists>a d. psd_init 16 8 (bump_new 4099 238) (psd_new \<lparr>number_of_subscribers = 8, number_of_publishers = 2\<rparr>)
     = (Ok (a, d) :: (unit, bump_allocator \<times> nat ps_dynamic) outcome) \<and> ports_fresh 8 (dyn_subscribers d) \<and> ports_fresh 2 (dyn_publishers d)"
proof -
  have "psd_memory_size 16 8 \<lparr>number_of_subscribers = 8, number_of_publishers = 2\<rparr> = (Ok 238 :: (unit, _) outcome)"
    by (simp add: psd_memory_size_def mc_const_memory_size_def outcome_defs usize_lim_def)
  note t = dynamic_config_memory_suffices [OF _ _ _ _ _ _ this, of 3 4099, where ?'i = nat]
  show ?thesis by (rule conjunct1 [OF t]) (simp_all add: usize_lim_def)
qed

end
