(* ===== verification/ServiceStorage.thy ===== *)
theory ServiceStorage
  imports NamedConcept BumpAllocator "HOL-Library.AList"
begin

text \<open>
  \<^verbatim>\<open>static_storage/process_local.rs\<close> and \<^verbatim>\<open>dynamic_storage/process_local.rs\<close> of \<^verbatim>\<open>elkodon_cal\<close>: where a process-local service keeps its
  static description and its dynamic configuration. Both are global hash maps from paths to reference-counted contents, behind a mutex.

  A registry is an association list, in the order in which iterating over the hash map yields the entries; \<open>lockable\<close> is what
  acquiring its mutex returns. A key is the content of a \<^verbatim>\<open>FilePath\<close>. A call holds the mutex from its beginning to its end, so it is one
  transition of the registry. The contents of a static storage never change, hence a copy stands for \<^verbatim>\<open>Arc<StorageContent>\<close>; the contents of
  dynamic storages are shared, and \<open>dr_heap\<close> maps their addresses to them. Freeing the memory behind the last \<^verbatim>\<open>Arc\<close> is left out.
\<close>

type_synonym path_key = "u8 list"

definition concept_path :: "named_concept_config \<Rightarrow> byte_string \<Rightarrow> ('e, path_key) outcome" where
  "concept_path cfg name = obind (path_for cfg name) as_bytes"

datatype does_exist_error = DoesExistInsufficientPermissions | UnderlyingResourcesBeingSetUp | UnderlyingResourcesCorrupted | DoesExistInternalError

text \<open>The keys from which the configuration extracts a name.\<close>

fun list_names :: "named_concept_config \<Rightarrow> path_key list \<Rightarrow> ('e, byte_string list) outcome" where
  "list_names cfg [] = Ok []"
| "list_names cfg (key # keys) =
     obind (new_unchecked PATH_LENGTH key) (\<lambda>storage_name.
     obind (extract_name_from_path cfg storage_name) (\<lambda>v.
     omap (\<lambda>names. case v of None \<Rightarrow> names | Some n \<Rightarrow> n # names) (list_names cfg keys)))"

section \<open>Static storage\<close>

record storage_content =
  is_locked :: bool
  content_value :: "u8 list"

record static_registry =
  sr_lockable :: bool
  sr_entries :: "(path_key \<times> storage_content) list"

record static_storage =
  st_name :: byte_string
  st_ownership :: bool
  st_config :: named_concept_config
  st_content :: storage_content

datatype static_open_error = StaticDoesNotExist | StaticOpenRead | StaticIsLocked | StaticOpenInternalError
datatype static_create_error = StaticAlreadyExists | StaticCreation | StaticWrite | StaticInsufficientPermissions | StaticCreateInternalError
datatype static_unlock_error = UnlockInsufficientPermissions | NoSpaceLeft | StaticUnlockInternalError
datatype static_read_error = BufferTooSmall | ReadError | StaticStorageWasModified | CreationNotComplete

definition static_remove_cfg :: "byte_string \<Rightarrow> named_concept_config \<Rightarrow> static_registry \<Rightarrow> ('e, static_registry \<times> bool) outcome" where
  "static_remove_cfg storage_name cfg r =
     (if \<not> sr_lockable r then Panic
      else omap (\<lambda>p. (r\<lparr>sr_entries := AList.delete p (sr_entries r)\<rparr>, map_of (sr_entries r) p \<noteq> None)) (concept_path cfg storage_name))"

definition static_list_cfg :: "named_concept_config \<Rightarrow> static_registry \<Rightarrow> ('e, byte_string list) outcome" where
  "static_list_cfg cfg r = (if \<not> sr_lockable r then Panic else list_names cfg (map fst (sr_entries r)))"

definition static_does_exist_cfg :: "byte_string \<Rightarrow> named_concept_config \<Rightarrow> static_registry \<Rightarrow> (does_exist_error, bool) outcome" where
  "static_does_exist_cfg storage_name cfg r =
     (if \<not> sr_lockable r then Panic
      else obind (concept_path cfg storage_name) (\<lambda>p.
        case map_of (sr_entries r) p of
          Some v \<Rightarrow> (if is_locked v then Err UnderlyingResourcesBeingSetUp else Ok True)
        | None \<Rightarrow> Ok False))"

definition static_len :: "static_storage \<Rightarrow> usize" where
  "static_len s = length (content_value (st_content s))"

definition static_is_empty :: "static_storage \<Rightarrow> bool" where
  "static_is_empty s \<longleftrightarrow> content_value (st_content s) = []"

text \<open>\<open>n\<close> is the length of the buffer; \<^verbatim>\<open>clone_from_slice\<close> panics when the lengths differ.\<close>

definition static_read :: "static_storage \<Rightarrow> usize \<Rightarrow> (static_read_error, u8 list) outcome" where
  "static_read s n =
     (if n < static_len s then Err BufferTooSmall
      else if n = static_len s then Ok (content_value (st_content s)) else Panic)"

definition static_release_ownership :: "static_storage \<Rightarrow> static_storage" where
  "static_release_ownership s = s\<lparr>st_ownership := False\<rparr>"

definition static_acquire_ownership :: "static_storage \<Rightarrow> static_storage" where
  "static_acquire_ownership s = s\<lparr>st_ownership := True\<rparr>"

definition static_drop :: "static_storage \<Rightarrow> static_registry \<Rightarrow> ('e, static_registry) outcome" where
  "static_drop s r = (if st_ownership s then omap fst (static_remove_cfg (st_name s) (st_config s) r) else Ok r)"

record static_builder =
  sb_name :: byte_string
  sb_ownership :: bool
  sb_config :: named_concept_config

definition static_builder_open :: "static_builder \<Rightarrow> static_registry \<Rightarrow> (static_open_error, static_storage) outcome" where
  "static_builder_open b r =
     (if \<not> sr_lockable r then Err StaticOpenInternalError
      else obind (concept_path (sb_config b) (sb_name b)) (\<lambda>p.
        case map_of (sr_entries r) p of
          None \<Rightarrow> Err StaticDoesNotExist
        | Some v \<Rightarrow> if is_locked v then Err StaticIsLocked
            else Ok \<lparr>st_name = sb_name b, st_ownership = sb_ownership b, st_config = sb_config b, st_content = v\<rparr>))"

definition create_locked :: "static_builder \<Rightarrow> static_registry \<Rightarrow> (static_create_error, static_registry \<times> static_storage) outcome" where
  "create_locked b r =
     (if \<not> sr_lockable r then Err StaticCreateInternalError
      else obind (concept_path (sb_config b) (sb_name b)) (\<lambda>p.
        if map_of (sr_entries r) p \<noteq> None then Err StaticAlreadyExists
        else let c = \<lparr>is_locked = True, content_value = []\<rparr>
             in Ok (r\<lparr>sr_entries := AList.update p c (sr_entries r)\<rparr>,
                    \<lparr>st_name = sb_name b, st_ownership = sb_ownership b, st_config = sb_config b, st_content = c\<rparr>)))"

text \<open>The storage that \<^verbatim>\<open>unlock\<close> returns keeps the contents that \<^verbatim>\<open>create_locked\<close> put there: locked and empty.\<close>

definition static_unlock :: "static_storage \<Rightarrow> u8 list \<Rightarrow> static_registry \<Rightarrow> (static_unlock_error, static_registry \<times> static_storage) outcome" where
  "static_unlock s contents r =
     (if \<not> sr_lockable r then Err StaticUnlockInternalError
      else obind (concept_path (st_config s) (st_name s)) (\<lambda>p.
        if map_of (sr_entries r) p = None then Panic
        else Ok (r\<lparr>sr_entries := AList.update p \<lparr>is_locked = False, content_value = contents\<rparr> (sr_entries r)\<rparr>, s)))"

definition static_create :: "static_builder \<Rightarrow> u8 list \<Rightarrow> static_registry \<Rightarrow> (static_create_error, static_registry \<times> static_storage) outcome" where
  "static_create b contents r =
     obind (create_locked b r) (\<lambda>(r1, s). map_err (\<lambda>_. StaticWrite) (static_unlock s contents r1))"

section \<open>Dynamic storage\<close>

record 'c dynamic_registry =
  dr_lockable :: bool
  dr_entries :: "(path_key \<times> nat) list"
  dr_heap :: "nat \<Rightarrow> 'c"
  dr_next :: nat

record dynamic_storage =
  dy_name :: byte_string
  dy_data :: nat
  dy_ownership :: bool
  dy_config :: named_concept_config

datatype dynamic_open_error = DynamicDoesNotExist | DynamicOpen | InitializationNotYetFinalized | DynamicOpenInternalError
datatype dynamic_create_error = DynamicAlreadyExists | DynamicCreation | DynamicWrite | InitializationFailed | DynamicCreateInternalError

definition dynamic_does_exist_cfg :: "byte_string \<Rightarrow> named_concept_config \<Rightarrow> 'c dynamic_registry \<Rightarrow> (does_exist_error, bool) outcome" where
  "dynamic_does_exist_cfg name cfg r =
     (if \<not> dr_lockable r then Panic else omap (\<lambda>p. map_of (dr_entries r) p \<noteq> None) (concept_path cfg name))"

definition dynamic_list_cfg :: "named_concept_config \<Rightarrow> 'c dynamic_registry \<Rightarrow> ('e, byte_string list) outcome" where
  "dynamic_list_cfg cfg r = (if \<not> dr_lockable r then Panic else list_names cfg (map fst (dr_entries r)))"

definition dynamic_remove_cfg :: "byte_string \<Rightarrow> named_concept_config \<Rightarrow> 'c dynamic_registry \<Rightarrow> ('e, 'c dynamic_registry \<times> bool) outcome" where
  "dynamic_remove_cfg name cfg r =
     obind (concept_path cfg name) (\<lambda>p.
       if \<not> dr_lockable r then Panic
       else Ok (r\<lparr>dr_entries := AList.delete p (dr_entries r)\<rparr>, map_of (dr_entries r) p \<noteq> None))"

definition dynamic_get :: "'c dynamic_registry \<Rightarrow> dynamic_storage \<Rightarrow> 'c" where
  "dynamic_get r s = dr_heap r (dy_data s)"

definition dynamic_acquire_ownership :: "dynamic_storage \<Rightarrow> dynamic_storage" where
  "dynamic_acquire_ownership s = s\<lparr>dy_ownership := True\<rparr>"

definition dynamic_release_ownership :: "dynamic_storage \<Rightarrow> dynamic_storage" where
  "dynamic_release_ownership s = s\<lparr>dy_ownership := False\<rparr>"

definition dynamic_drop :: "dynamic_storage \<Rightarrow> 'c dynamic_registry \<Rightarrow> ('e, 'c dynamic_registry) outcome" where
  "dynamic_drop s r =
     (if dy_ownership s
      then obind (dynamic_remove_cfg (dy_name s) (dy_config s) r) (\<lambda>(r', existed). if existed then Ok r' else Panic)
      else Ok r)"

record dynamic_builder =
  db_name :: byte_string
  db_supplementary_size :: usize
  db_ownership :: bool
  db_config :: named_concept_config

definition try_open :: "dynamic_builder \<Rightarrow> 'c dynamic_registry \<Rightarrow> (dynamic_open_error, dynamic_storage) outcome" where
  "try_open b r =
     (if \<not> dr_lockable r then Err DynamicOpenInternalError
      else obind (concept_path (db_config b) (db_name b)) (\<lambda>p.
        case map_of (dr_entries r) p of
          None \<Rightarrow> Err DynamicDoesNotExist
        | Some d \<Rightarrow> Ok \<lparr>dy_name = db_name b, dy_data = d, dy_ownership = False, dy_config = db_config b\<rparr>))"

definition dynamic_open :: "dynamic_builder \<Rightarrow> 'c dynamic_registry \<Rightarrow> (dynamic_open_error, dynamic_storage) outcome" where
  "dynamic_open b r = try_open b r"

text \<open>\<open>address\<close> is what the heap allocator returns for the content (\<open>size_of\<close> bytes) and the supplementary memory behind it.\<close>

definition create_and_initialize ::
  "usize \<Rightarrow> nat option \<Rightarrow> dynamic_builder \<Rightarrow> 'c \<Rightarrow> ('c \<Rightarrow> bump_allocator \<Rightarrow> (dynamic_create_error, 'c \<times> bool) outcome)
     \<Rightarrow> 'c dynamic_registry \<Rightarrow> (dynamic_create_error, 'c dynamic_registry \<times> dynamic_storage) outcome" where
  "create_and_initialize size_of address b initial_value initializer r =
     (if \<not> dr_lockable r then Err DynamicCreateInternalError
      else obind (concept_path (db_config b) (db_name b)) (\<lambda>p.
        if map_of (dr_entries r) p \<noteq> None then Err DynamicAlreadyExists
        else case address of None \<Rightarrow> Panic | Some data_ptr \<Rightarrow>
          obind (initializer initial_value (bump_new (data_ptr + size_of) (db_supplementary_size b))) (\<lambda>(v, success).
            if \<not> success then Err InitializationFailed
            else Ok (r\<lparr>dr_entries := AList.update p (dr_next r) (dr_entries r), dr_heap := (dr_heap r)(dr_next r := v), dr_next := dr_next r + 1\<rparr>,
                     \<lparr>dy_name = db_name b, dy_data = dr_next r, dy_ownership = db_ownership b, dy_config = db_config b\<rparr>))))"

definition dynamic_create ::
  "usize \<Rightarrow> nat option \<Rightarrow> dynamic_builder \<Rightarrow> 'c \<Rightarrow> 'c dynamic_registry \<Rightarrow> (dynamic_create_error, 'c dynamic_registry \<times> dynamic_storage) outcome" where
  "dynamic_create size_of address b initial_value r = create_and_initialize size_of address b initial_value (\<lambda>v _. Ok (v, True)) r"

section \<open>Paths of concepts\<close>

text \<open>A name that fits together with its configuration, and the key under which it is registered.\<close>

definition concept_key :: "named_concept_config \<Rightarrow> u8 list \<Rightarrow> path_key" where
  "concept_key cfg n = join_path (content (path_hint cfg)) (n @ content (suffix cfg))"

definition concept_ok :: "named_concept_config \<Rightarrow> byte_string \<Rightarrow> bool" where
  "concept_ok cfg name \<longleftrightarrow> config_valid cfg \<and> ss_valid FileName name \<and> length (concept_key cfg (content name)) \<le> PATH_LENGTH
     \<and> len name + len (suffix cfg) < FILENAME_LENGTH"

lemma concept_path_Ok: "concept_ok cfg name \<Longrightarrow> concept_path cfg name = (Ok (concept_key cfg (content name)) :: ('e, _) outcome)"
proof -
  assume a: "concept_ok cfg name"
  then obtain fp where "path_for cfg name = (Ok fp :: ('e, _) outcome)" "ss_valid FilePath fp" "content fp = concept_key cfg (content name)"
    using path_for_Ok [of cfg name, where ?'e = 'e] by (auto simp: concept_ok_def concept_key_def)
  then show ?thesis by (simp add: concept_path_def as_bytes_content ss_valid_def)
qed

lemma concept_key_inject [simp]: "concept_key cfg n = concept_key cfg m \<longleftrightarrow> n = m"
  by (simp add: concept_key_def join_path_def)

lemma map_of_update [simp]: "map_of (AList.update k v xs) = (map_of xs)(k \<mapsto> v)"
  by (simp add: AList.update_conv')

lemma map_of_delete [simp]: "map_of (AList.delete k xs) = (map_of xs)(k := None)"
  by (simp add: AList.delete_conv')

section \<open>Listing\<close>

lemma fp_path_with_separator: "bs_wf s \<Longrightarrow> \<exists>p. fp_path s = (Ok p :: ('e, _) outcome) \<and> with_separator p = p"
proof -
  assume w: "bs_wf s"
  show ?thesis
  proof (cases "fp_rfind (content s) PATH_SEPARATOR")
    case None
    then show ?thesis by (simp add: fp_path_def as_bytes_content [OF w] with_separator_def)
  next
    case (Some i)
    then have "i < length (content s)" "content s ! i = PATH_SEPARATOR" by (simp_all add: fp_rfind_Some_iff)
    then have "last (take (i + 1) (content s)) = PATH_SEPARATOR" by (simp add: take_Suc_conv_app_nth)
    then show ?thesis using Some by (simp add: fp_path_def as_bytes_content [OF w] with_separator_def)
  qed
qed

lemma list_names_none:
  assumes "bs_wf (path_hint cfg)" and "with_separator (content (path_hint cfg)) \<noteq> content (path_hint cfg)" and "\<forall>k \<in> set keys. length k \<le> PATH_LENGTH"
  shows "list_names cfg keys = (Ok [] :: ('e, _) outcome)"
  using assms(3)
proof (induction keys)
  case (Cons k keys)
  obtain s where s: "new_unchecked PATH_LENGTH k = (Ok s :: ('e, _) outcome)" "bs_wf s"
    using new_unchecked_Ok [of k PATH_LENGTH] Cons.prems by (auto simp: PATH_LENGTH_def)
  obtain q where q: "fp_path s = (Ok q :: ('e, _) outcome)" "with_separator q = q" using fp_path_with_separator [OF s(2), where ?'e = 'e] by blast
  then have "content (path_hint cfg) \<noteq> q" using assms(2) by auto
  then have "extract_name_from_path cfg s = (Ok None :: ('e, _) outcome)" by (simp add: extract_name_from_path_def as_bytes_content [OF assms(1)] q(1))
  then show ?case using s(1) Cons by simp
qed simp

lemma list_names_all:
  assumes "with_separator (content (path_hint cfg)) = content (path_hint cfg)" and "\<forall>n \<in> set names. concept_ok cfg n"
  shows "\<exists>result. list_names cfg (map (\<lambda>n. concept_key cfg (content n)) names) = (Ok result :: ('e, _) outcome)
    \<and> map content result = map content names \<and> (\<forall>x \<in> set result. bs_wf x)"
  using assms(2)
proof (induction names)
  case (Cons n names)
  have ok: "concept_ok cfg n" using Cons.prems by simp
  have cfg: "bs_wf (path_hint cfg)" "bs_wf (suffix cfg)" "content (suffix cfg) \<noteq> []" "\<not> invalid_characters FileName (content (suffix cfg))"
    and n: "bs_wf n" "\<not> invalid_content FileName (content n)" "\<not> invalid_characters FileName (content n)" and l: "length (concept_key cfg (content n)) \<le> PATH_LENGTH"
    using ok by (auto simp: concept_ok_def config_valid_def ss_valid_def) (simp add: FileName_def)
  obtain s where s: "new_unchecked PATH_LENGTH (concept_key cfg (content n)) = (Ok s :: ('e, _) outcome)" "bs_wf s" "content s = concept_key cfg (content n)"
    using new_unchecked_Ok [OF l] by (auto simp: PATH_LENGTH_def)
  have "PATH_SEPARATOR \<notin> set (content n @ content (suffix cfg))" using appended_name_valid [OF n(2,3) cfg(3,4)] valid_file_bytes(1) by blast
  note parts = split_joined [OF s(2) s(3) [unfolded concept_key_def] this]
  have fl: "length (content n @ content (suffix cfg)) < FILENAME_LENGTH" using ok length_content n(1) cfg(2) by (simp add: concept_ok_def)
  obtain f where f: "new_unchecked FILENAME_LENGTH (content n @ content (suffix cfg)) = (Ok f :: ('e, _) outcome)" "bs_wf f" "cap f = FILENAME_LENGTH"
    "content f = content n @ content (suffix cfg)" using new_unchecked_Ok [of "content n @ content (suffix cfg)" FILENAME_LENGTH] fl by (auto simp: FILENAME_LENGTH_def)
  have "len f < cap f" using fl f(3,4) length_content [OF f(2)] by simp
  from strip_name(1) [OF f(2) this f(4) n(2), where ?'e = 'e] obtain x
    where x: "ss_or_panic (ss_strip_suffix FileName f (content (suffix cfg))) = (Ok (x, True) :: ('e, _) outcome)" "content x = content n" "bs_wf x" by blast
  have "extract_name_from_path cfg s = (Ok (Some x) :: ('e, _) outcome)"
    by (simp add: extract_name_from_path_def as_bytes_content cfg(1,2) parts assms(1) f(1) x(1))
  moreover obtain result where "list_names cfg (map (\<lambda>n. concept_key cfg (content n)) names) = (Ok result :: ('e, _) outcome)"
    "map content result = map content names" "\<forall>x \<in> set result. bs_wf x" using Cons by auto
  ultimately show ?case using s(1) x(2,3) by (intro exI [of _ "x # result"]) simp
qed simp

text \<open>Listing the static storages of a configuration. When the path hint is empty or ends with a separator, the names of all registered storages
  are returned. When the path hint lacks the separator at its end, which \<^verbatim>\<open>path_for\<close> adds, no storage is found at all, whatever is registered.\<close>

theorem listing_needs_separator:
  assumes "sr_lockable r" and "config_valid cfg" and "\<forall>n \<in> set names. concept_ok cfg n"
    and "map fst (sr_entries r) = map (\<lambda>n. concept_key cfg (content n)) names"
  shows "\<exists>result. static_list_cfg cfg r = (Ok result :: (unit, _) outcome)
    \<and> (if with_separator (content (path_hint cfg)) = content (path_hint cfg) then map content result = map content names else result = [])"
proof (cases "with_separator (content (path_hint cfg)) = content (path_hint cfg)")
  case True
  then show ?thesis using list_names_all [OF True assms(3), where ?'e = unit] assms(1,4) by (auto simp: static_list_cfg_def)
next
  case False
  have "bs_wf (path_hint cfg)" using assms(2) by (simp add: config_valid_def ss_valid_def)
  moreover have "\<forall>k \<in> set (map fst (sr_entries r)). length k \<le> PATH_LENGTH" unfolding assms(4) using assms(3) by (auto simp: concept_ok_def)
  ultimately have "list_names cfg (map fst (sr_entries r)) = (Ok [] :: (unit, _) outcome)" using list_names_none [OF _ False] by blast
  then have "static_list_cfg cfg r = (Ok [] :: (unit, _) outcome)" using assms(1) by (simp add: static_list_cfg_def)
  then show ?thesis using False by simp
qed

lemma example_strings:
  obtains h t x n where "bs_wf h" "cap h = PATH_LENGTH" "content h = [47, 116]" "bs_wf t" "cap t = PATH_LENGTH" "content t = [47, 116, 47]"
    "bs_wf x" "cap x = FILENAME_LENGTH" "content x = [46, 115]" "bs_wf n" "cap n = FILENAME_LENGTH" "content n = [97]"
    "concept_ok \<lparr>suffix = x, path_hint = h\<rparr> n" "concept_ok \<lparr>suffix = x, path_hint = t\<rparr> n"
proof -
  obtain h where h: "bs_wf h" "cap h = PATH_LENGTH" "content h = [47, 116]" using new_unchecked_Ok [of "[47, 116]" PATH_LENGTH] by (auto simp: PATH_LENGTH_def)
  obtain t where t: "bs_wf t" "cap t = PATH_LENGTH" "content t = [47, 116, 47]" using new_unchecked_Ok [of "[47, 116, 47]" PATH_LENGTH] by (auto simp: PATH_LENGTH_def)
  obtain x where x: "bs_wf x" "cap x = FILENAME_LENGTH" "content x = [46, 115]" using new_unchecked_Ok [of "[46, 115]" FILENAME_LENGTH] by (auto simp: FILENAME_LENGTH_def)
  obtain n where n: "bs_wf n" "cap n = FILENAME_LENGTH" "content n = [97]" using new_unchecked_Ok [of "[97]" FILENAME_LENGTH] by (auto simp: FILENAME_LENGTH_def)
  note valid = ss_valid_def Path_def FileName_def path_character_def file_name_character_def word_le_nat_alt
  have "config_valid \<lparr>suffix = x, path_hint = h\<rparr>" "config_valid \<lparr>suffix = x, path_hint = t\<rparr>" "ss_valid FileName n"
    using h x n t by (simp_all add: config_valid_def valid)
  then have "concept_ok \<lparr>suffix = x, path_hint = h\<rparr> n" "concept_ok \<lparr>suffix = x, path_hint = t\<rparr> n"
    using h x n t length_content [of n] length_content [of x]
    by (simp_all add: concept_ok_def concept_key_def join_path_def with_separator_def PATH_LENGTH_def FILENAME_LENGTH_def PATH_SEPARATOR_def)
  then show thesis using that h t x n by blast
qed

theorem listing_needs_separator_witness:
  "\<exists>cfg name r. content (path_hint cfg) = [47, 116] \<and> map_of (sr_entries r) (concept_key cfg (content name)) \<noteq> None
    \<and> static_list_cfg cfg r = (Ok [] :: (unit, _) outcome)"
proof -
  obtain h x n where s: "content h = [47, 116]" "concept_ok \<lparr>suffix = x, path_hint = h\<rparr> n" using example_strings by metis
  let ?cfg = "\<lparr>suffix = x, path_hint = h\<rparr>"
  let ?r = "\<lparr>sr_lockable = True, sr_entries = [(concept_key ?cfg (content n), \<lparr>is_locked = False, content_value = [1]\<rparr>)]\<rparr>"
  have "config_valid ?cfg" using s(2) by (simp add: concept_ok_def)
  moreover have "with_separator (content (path_hint ?cfg)) \<noteq> content (path_hint ?cfg)" using s(1) by (simp add: with_separator_def PATH_SEPARATOR_def)
  ultimately have "static_list_cfg ?cfg ?r = (Ok [] :: (unit, _) outcome)" using listing_needs_separator [of ?r ?cfg "[n]"] s(2) by auto
  moreover have "content (path_hint ?cfg) = [47, 116]" "map_of (sr_entries ?r) (concept_key ?cfg (content n)) \<noteq> None" using s(1) by simp_all
  ultimately show ?thesis by blast
qed

section \<open>The life of a static storage\<close>

text \<open>The life of a static storage. While it is locked, others see that it is being set up and cannot open it. After \<^verbatim>\<open>unlock\<close> it exists and whoever
  opens it reads the contents that were written; the storage that \<^verbatim>\<open>unlock\<close> returned to the creator still is empty. When a storage with
  ownership is dropped, the name is free again. Other names are not affected.\<close>

theorem static_storage_life:
  assumes "concept_ok (sb_config b) (sb_name b)" and "sr_lockable r" and "map_of (sr_entries r) (concept_key (sb_config b) (content (sb_name b))) = None"
  shows "\<exists>r1 locked r2 s. create_locked b r = Ok (r1, locked)
    \<and> static_does_exist_cfg (sb_name b) (sb_config b) r1 = Err UnderlyingResourcesBeingSetUp \<and> static_builder_open b r1 = Err StaticIsLocked
    \<and> create_locked b r1 = Err StaticAlreadyExists
    \<and> static_unlock locked contents r1 = Ok (r2, s)
    \<and> static_does_exist_cfg (sb_name b) (sb_config b) r2 = Ok True
    \<and> (\<exists>reader. static_builder_open b r2 = Ok reader \<and> static_read reader (static_len reader) = Ok contents)
    \<and> static_read s (static_len s) = Ok []
    \<and> (\<exists>r3. static_drop (static_acquire_ownership s) r2 = (Ok r3 :: (unit, _) outcome)
         \<and> static_does_exist_cfg (sb_name b) (sb_config b) r3 = Ok False)
    \<and> (\<forall>k. k \<noteq> concept_key (sb_config b) (content (sb_name b)) \<longrightarrow> map_of (sr_entries r2) k = map_of (sr_entries r) k)"
proof -
  let ?k = "concept_key (sb_config b) (content (sb_name b))" and ?c = "\<lparr>is_locked = True, content_value = []\<rparr>"
  let ?r1 = "r\<lparr>sr_entries := AList.update ?k ?c (sr_entries r)\<rparr>"
  let ?s = "\<lparr>st_name = sb_name b, st_ownership = sb_ownership b, st_config = sb_config b, st_content = ?c\<rparr>"
  let ?r2 = "?r1\<lparr>sr_entries := AList.update ?k \<lparr>is_locked = False, content_value = contents\<rparr> (sr_entries ?r1)\<rparr>"
  note p = concept_path_Ok [OF assms(1)]
  have "create_locked b r = Ok (?r1, ?s)" using assms(2,3) by (simp add: create_locked_def p Let_def)
  moreover have "static_unlock ?s contents ?r1 = Ok (?r2, ?s)" using assms(2) by (simp add: static_unlock_def p)
  ultimately show ?thesis using assms(2)
    by (intro exI [of _ ?r1] exI [of _ ?s] exI [of _ ?r2])
      (simp add: static_does_exist_cfg_def static_builder_open_def create_locked_def p static_read_def static_len_def static_drop_def static_acquire_ownership_def static_remove_cfg_def)
qed

theorem static_storage_life_witness:
  "\<exists>b r1 locked r2 s reader. create_locked b \<lparr>sr_lockable = True, sr_entries = []\<rparr> = Ok (r1, locked) \<and> static_unlock locked [1, 2] r1 = Ok (r2, s)
    \<and> static_builder_open b r2 = Ok reader \<and> static_read reader (static_len reader) = Ok [1, 2] \<and> static_read s (static_len s) = Ok []"
proof -
  obtain t x n where s: "concept_ok \<lparr>suffix = x, path_hint = t\<rparr> n" using example_strings by metis
  let ?b = "\<lparr>sb_name = n, sb_ownership = True, sb_config = \<lparr>suffix = x, path_hint = t\<rparr>\<rparr>"
  show ?thesis using static_storage_life [of ?b "\<lparr>sr_lockable = True, sr_entries = []\<rparr>" "[1, 2]"] s by auto blast
qed

end
