(* ===== verification/ServiceConfig.thy ===== *)
theory ServiceConfig
  imports Publisher DynamicConfig ServiceStorage
begin

text \<open>
  The description of a service and where it is stored: \<^verbatim>\<open>global_config.rs\<close>, \<^verbatim>\<open>service/static_config\<close>, the names and configurations of
  \<^verbatim>\<open>service/mod.rs\<close> and \<^verbatim>\<open>BuilderWithServiceType\<close> of \<^verbatim>\<open>service/builder/mod.rs\<close>, for the process-local service
  (\<^verbatim>\<open>service/process_local.rs\<close>).

  The SHA-1 hash of the name, the TOML serializer, the sizes of the types and the addresses that the heap allocator returns are
  parameters, the fields of \<open>svc_env\<close>. \<open>'i world\<close> holds the two registries of the process.
\<close>

section \<open>Configurations\<close>

definition bytes_of :: "string \<Rightarrow> u8 list" where
  "bytes_of = map of_char"

record ps_defaults =
  gp_max_subscribers :: usize
  gp_max_publishers :: usize
  gp_subscriber_buffer_size :: usize
  gp_subscriber_max_borrowed_samples :: usize
  gp_publisher_max_loaned_samples :: usize
  gp_publisher_history_size :: usize
  gp_enable_safe_overflow :: bool
  gp_unable_to_deliver_strategy :: unable_to_deliver_strategy

record ev_defaults =
  ge_max_listeners :: usize
  ge_max_notifiers :: usize

text \<open>Durations are in nanoseconds.\<close>

record global_entries =
  g_root_path :: "u8 list"
  g_directory :: "u8 list"
  g_publisher_data_segment_suffix :: "u8 list"
  g_static_config_storage_suffix :: "u8 list"
  g_dynamic_config_storage_suffix :: "u8 list"
  g_creation_timeout :: nat
  g_connection_suffix :: "u8 list"
  g_publish_subscribe :: ps_defaults
  g_event :: ev_defaults

definition entries_default :: global_entries where
  "entries_default =
     \<lparr>g_root_path = bytes_of ''/tmp/'', g_directory = bytes_of ''services'', g_publisher_data_segment_suffix = bytes_of ''.publisher_data'',
      g_static_config_storage_suffix = bytes_of ''.service'', g_dynamic_config_storage_suffix = bytes_of ''.dynamic'',
      g_creation_timeout = 500 * 10 ^ 6, g_connection_suffix = bytes_of ''.connection'',
      g_publish_subscribe = \<lparr>gp_max_subscribers = 8, gp_max_publishers = 2, gp_subscriber_buffer_size = 2, gp_subscriber_max_borrowed_samples = 2,
        gp_publisher_max_loaned_samples = 2, gp_publisher_history_size = 1, gp_enable_safe_overflow = True, gp_unable_to_deliver_strategy = Block\<rparr>,
      g_event = \<lparr>ge_max_listeners = 1, ge_max_notifiers = 16\<rparr>\<rparr>"

record ps_static = static_config +
  sc_type_name :: "u8 list"

record ev_static =
  sc_max_notifiers :: usize
  sc_max_listeners :: usize

datatype messaging_pattern = PublishSubscribe ps_static | Event ev_static

record service_config =
  sc_uuid :: "u8 list"
  sc_service_name :: "u8 list"
  sc_pattern :: messaging_pattern

definition ps_static_new :: "global_entries \<Rightarrow> ps_static" where
  "ps_static_new config =
     \<lparr>sc_max_subscribers = gp_max_subscribers (g_publish_subscribe config), sc_max_publishers = gp_max_publishers (g_publish_subscribe config),
      sc_history_size = gp_publisher_history_size (g_publish_subscribe config), sc_buffer_size = gp_subscriber_buffer_size (g_publish_subscribe config),
      sc_max_borrowed = gp_subscriber_max_borrowed_samples (g_publish_subscribe config),
      sc_safe_overflow = gp_enable_safe_overflow (g_publish_subscribe config), sc_type_name = []\<rparr>"

definition ev_static_new :: "global_entries \<Rightarrow> ev_static" where
  "ev_static_new config = \<lparr>sc_max_notifiers = ge_max_notifiers (g_event config), sc_max_listeners = ge_max_listeners (g_event config)\<rparr>"

fun is_same_pattern :: "messaging_pattern \<Rightarrow> messaging_pattern \<Rightarrow> bool" where
  "is_same_pattern (PublishSubscribe _) (PublishSubscribe _) \<longleftrightarrow> True"
| "is_same_pattern (Event _) (Event _) \<longleftrightarrow> True"
| "is_same_pattern _ _ \<longleftrightarrow> False"

definition has_same_messaging_pattern :: "service_config \<Rightarrow> service_config \<Rightarrow> bool" where
  "has_same_messaging_pattern c rhs \<longleftrightarrow> is_same_pattern (sc_pattern c) (sc_pattern rhs)"

definition sc_publish_subscribe :: "service_config \<Rightarrow> ('e, ps_static) outcome" where
  "sc_publish_subscribe c = (case sc_pattern c of PublishSubscribe v \<Rightarrow> Ok v | Event _ \<Rightarrow> Panic)"

definition sc_event :: "service_config \<Rightarrow> ('e, ev_static) outcome" where
  "sc_event c = (case sc_pattern c of Event v \<Rightarrow> Ok v | PublishSubscribe _ \<Rightarrow> Panic)"

record svc_env =
  env_hash :: "u8 list \<Rightarrow> u8 list"
  env_serialize :: "service_config \<Rightarrow> u8 list option"
  env_deserialize :: "u8 list \<Rightarrow> service_config option"
  env_size_of_id :: usize
  env_align_of_id :: usize
  env_size_of_config :: usize
  env_address :: "nat option"

definition new_event_config :: "svc_env \<Rightarrow> u8 list \<Rightarrow> global_entries \<Rightarrow> service_config" where
  "new_event_config env service_name config =
     \<lparr>sc_uuid = env_hash env service_name, sc_service_name = service_name, sc_pattern = Event (ev_static_new config)\<rparr>"

definition new_publish_subscribe_config :: "svc_env \<Rightarrow> u8 list \<Rightarrow> global_entries \<Rightarrow> service_config" where
  "new_publish_subscribe_config env service_name config =
     \<lparr>sc_uuid = env_hash env service_name, sc_service_name = service_name, sc_pattern = PublishSubscribe (ps_static_new config)\<rparr>"

section \<open>Names\<close>

text \<open>\<^verbatim>\<open>FileName::new\<close> and \<^verbatim>\<open>Path::new\<close> where an error is a panic. These calls return no error of their own (\<open>unit\<close>).\<close>

definition file_name_or_panic :: "u8 list \<Rightarrow> (unit, byte_string) outcome" where
  "file_name_or_panic v = obind (ss_new FileName FILENAME_LENGTH v) (\<lambda>r. case r of Inl _ \<Rightarrow> Panic | Inr s \<Rightarrow> Ok s)"

definition path_or_panic :: "u8 list \<Rightarrow> (unit, byte_string) outcome" where
  "path_or_panic v = obind (ss_new Path PATH_LENGTH v) (\<lambda>r. case r of Inl _ \<Rightarrow> Panic | Inr s \<Rightarrow> Ok s)"

definition TEMP_DIRECTORY :: "u8 list" where "TEMP_DIRECTORY = bytes_of ''/tmp/''"

definition dynamic_config_storage_name :: "service_config \<Rightarrow> (unit, byte_string) outcome" where
  "dynamic_config_storage_name c = file_name_or_panic (sc_uuid c)"

definition static_config_storage_name :: "u8 list \<Rightarrow> (unit, byte_string) outcome" where
  "static_config_storage_name uuid = file_name_or_panic uuid"

definition dynamic_config_storage_config :: "global_entries \<Rightarrow> (unit, named_concept_config) outcome" where
  "dynamic_config_storage_config g =
     obind (file_name_or_panic (g_dynamic_config_storage_suffix g)) (\<lambda>f.
     omap (\<lambda>p. \<lparr>suffix = f, path_hint = p\<rparr>) (new_unchecked PATH_LENGTH TEMP_DIRECTORY))"

definition static_config_storage_config :: "global_entries \<Rightarrow> (unit, named_concept_config) outcome" where
  "static_config_storage_config g =
     obind (file_name_or_panic (g_static_config_storage_suffix g)) (\<lambda>f.
     obind (path_or_panic (g_root_path g)) (\<lambda>p.
     omap (\<lambda>(p', _). \<lparr>suffix = f, path_hint = p'\<rparr>) (ss_or_panic (ss_push_bytes Path p (g_directory g)))))"

section \<open>Storages of a service\<close>

record 'i world =
  w_static :: static_registry
  w_dynamic :: "'i dynamic_config dynamic_registry"

datatype service_state = IsBeingCreatedByAnotherInstance | IncompatibleMessagingPattern | PermissionDenied | Corrupted

definition is_service_available ::
  "svc_env \<Rightarrow> service_config \<Rightarrow> global_entries \<Rightarrow> 'i world \<Rightarrow> (service_state, (service_config \<times> static_storage) option) outcome" where
  "is_service_available env config g w =
     obind (panic_on_err (static_config_storage_config g)) (\<lambda>static_storage_config.
     obind (panic_on_err (file_name_or_panic (sc_uuid config))) (\<lambda>file_name_uuid.
     case static_does_exist_cfg file_name_uuid static_storage_config (w_static w) of
       Ok False \<Rightarrow> Ok None
     | Ok True \<Rightarrow>
         (case static_builder_open \<lparr>sb_name = file_name_uuid, sb_ownership = False, sb_config = static_storage_config\<rparr> (w_static w) of
            Ok storage \<Rightarrow>
              (case static_read storage (static_len storage) of
                 Ok read_content \<Rightarrow>
                   (case env_deserialize env read_content of
                      None \<Rightarrow> Err Corrupted
                    | Some existing \<Rightarrow>
                        if sc_uuid existing \<noteq> sc_uuid config then Err Corrupted
                        else if \<not> has_same_messaging_pattern existing config then Err IncompatibleMessagingPattern
                        else Ok (Some (existing, storage)))
               | Err _ \<Rightarrow> Err PermissionDenied | Panic \<Rightarrow> Panic | UB \<Rightarrow> UB)
          | Err _ \<Rightarrow> Err PermissionDenied | Panic \<Rightarrow> Panic | UB \<Rightarrow> UB)
     | Err UnderlyingResourcesBeingSetUp \<Rightarrow> Err IsBeingCreatedByAnotherInstance
     | Err _ \<Rightarrow> Err Corrupted | Panic \<Rightarrow> Panic | UB \<Rightarrow> UB))"

definition create_dynamic_config_storage ::
  "svc_env \<Rightarrow> service_config \<Rightarrow> global_entries \<Rightarrow> 'i dyn_pattern \<Rightarrow> usize \<Rightarrow> 'i world \<Rightarrow> (dynamic_create_error, 'i world \<times> dynamic_storage) outcome" where
  "create_dynamic_config_storage env config g messaging_pattern additional_size w =
     obind (panic_on_err (dynamic_config_storage_name config)) (\<lambda>name.
     obind (panic_on_err (dynamic_config_storage_config g)) (\<lambda>cfg.
     omap (\<lambda>(r, s). (w\<lparr>w_dynamic := r\<rparr>, s))
       (create_and_initialize (env_size_of_config env) (env_address env)
          \<lparr>db_name = name, db_supplementary_size = additional_size, db_ownership = False, db_config = cfg\<rparr>
          (dc_new_uninit messaging_pattern)
          (\<lambda>d a. omap (\<lambda>(_, d'). (d', True)) (dc_init (env_size_of_id env) (env_align_of_id env) a d))
          (w_dynamic w))))"

datatype open_dynamic_failure = IsMarkedForDestruction | DynamicStorageOpenError dynamic_open_error

definition open_dynamic_config_storage ::
  "service_config \<Rightarrow> global_entries \<Rightarrow> 'i world \<Rightarrow> (open_dynamic_failure, 'i world \<times> dynamic_storage) outcome" where
  "open_dynamic_config_storage config g w =
     obind (panic_on_err (dynamic_config_storage_name config)) (\<lambda>name.
     obind (panic_on_err (dynamic_config_storage_config g)) (\<lambda>cfg.
     obind (map_err DynamicStorageOpenError
             (dynamic_open \<lparr>db_name = name, db_supplementary_size = 0, db_ownership = False, db_config = cfg\<rparr> (w_dynamic w))) (\<lambda>storage.
     map_err (\<lambda>_. IsMarkedForDestruction)
       (omap (\<lambda>d. (w\<lparr>w_dynamic := (w_dynamic w)\<lparr>dr_heap := (dr_heap (w_dynamic w))(dy_data storage := d)\<rparr>\<rparr>, storage))
         (increment_reference_counter (dynamic_get (w_dynamic w) storage))))))"

definition create_static_config_storage ::
  "service_config \<Rightarrow> global_entries \<Rightarrow> 'i world \<Rightarrow> (static_create_error, 'i world \<times> static_storage) outcome" where
  "create_static_config_storage config g w =
     obind (panic_on_err (static_config_storage_name (sc_uuid config))) (\<lambda>name.
     obind (panic_on_err (static_config_storage_config g)) (\<lambda>cfg.
     omap (\<lambda>(r, s). (w\<lparr>w_static := r\<rparr>, s)) (create_locked \<lparr>sb_name = name, sb_ownership = False, sb_config = cfg\<rparr> (w_static w))))"

section \<open>A service in use\<close>

record service_handle =
  sv_config :: service_config
  sv_dynamic :: dynamic_storage
  sv_static :: static_storage

text \<open>\<^verbatim>\<open>ServiceState::drop\<close>; the fields are dropped in the order of their declaration.\<close>

definition service_drop :: "service_handle \<Rightarrow> 'i world \<Rightarrow> ('e, 'i world) outcome" where
  "service_drop s w =
     obind (decrement_reference_counter (dynamic_get (w_dynamic w) (sv_dynamic s))) (\<lambda>(d, result).
       let w1 = w\<lparr>w_dynamic := (w_dynamic w)\<lparr>dr_heap := (dr_heap (w_dynamic w))(dy_data (sv_dynamic s) := d)\<rparr>\<rparr>;
           (dynamic, static) = (case result of
               HasOwners \<Rightarrow> (sv_dynamic s, sv_static s)
             | NoMoreOwners \<Rightarrow> (dynamic_acquire_ownership (sv_dynamic s), static_acquire_ownership (sv_static s)))
       in obind (dynamic_drop dynamic (w_dynamic w1)) (\<lambda>rd.
          omap (\<lambda>rs. w1\<lparr>w_dynamic := rd, w_static := rs\<rparr>) (static_drop static (w_static w1))))"

section \<open>Listing the services\<close>

text \<open>The builder that opens a description for reading keeps its default: the reader owns the storage, and dropping it at the end of the iteration
  removes the storage.\<close>

fun list_services :: "svc_env \<Rightarrow> named_concept_config \<Rightarrow> byte_string list \<Rightarrow> static_registry \<Rightarrow> ('e, static_registry \<times> service_config list) outcome" where
  "list_services env cfg [] r = Ok (r, [])"
| "list_services env cfg (service_storage # services) r =
     (case static_builder_open \<lparr>sb_name = service_storage, sb_ownership = True, sb_config = cfg\<rparr> r of
        Err _ \<Rightarrow> list_services env cfg services r
      | Panic \<Rightarrow> Panic | UB \<Rightarrow> UB
      | Ok reader \<Rightarrow>
          obind (as_bytes service_storage) (\<lambda>storage_bytes.
          let found = (case static_read reader (static_len reader) of
                Ok read_content \<Rightarrow> (case env_deserialize env read_content of
                    Some c \<Rightarrow> if storage_bytes \<noteq> sc_uuid c then [] else [c]
                  | None \<Rightarrow> [])
              | _ \<Rightarrow> [])
          in obind (static_drop reader r) (\<lambda>r'. omap (\<lambda>(r'', cs). (r'', found @ cs)) (list_services env cfg services r'))))"

definition list_from_config :: "svc_env \<Rightarrow> global_entries \<Rightarrow> 'i world \<Rightarrow> ('e, 'i world \<times> service_config list) outcome" where
  "list_from_config env g w =
     obind (panic_on_err (static_config_storage_config g)) (\<lambda>cfg.
     obind (static_list_cfg cfg (w_static w)) (\<lambda>services.
     omap (\<lambda>(r, cs). (w\<lparr>w_static := r\<rparr>, cs)) (list_services env cfg services (w_static w))))"

text \<open>A failing read leaves the buffer of spaces in place.\<close>

fun find_service ::
  "svc_env \<Rightarrow> named_concept_config \<Rightarrow> u8 list \<Rightarrow> byte_string list \<Rightarrow> static_registry \<Rightarrow> ('e, static_registry \<times> bool) outcome" where
  "find_service env cfg service_name [] r = Ok (r, False)"
| "find_service env cfg service_name (service_storage # services) r =
     (case static_builder_open \<lparr>sb_name = service_storage, sb_ownership = True, sb_config = cfg\<rparr> r of
        Err _ \<Rightarrow> find_service env cfg service_name services r
      | Panic \<Rightarrow> Panic | UB \<Rightarrow> UB
      | Ok reader \<Rightarrow>
          obind (as_bytes service_storage) (\<lambda>storage_bytes.
          let read_content = (case static_read reader (static_len reader) of Ok c \<Rightarrow> c | _ \<Rightarrow> replicate (static_len reader) 32);
              found = (case env_deserialize env read_content of
                  Some c \<Rightarrow> storage_bytes = sc_uuid c \<and> sc_service_name c = service_name
                | None \<Rightarrow> False)
          in obind (static_drop reader r) (\<lambda>r'. if found then Ok (r', True) else find_service env cfg service_name services r')))"

definition does_exist_from_config :: "svc_env \<Rightarrow> u8 list \<Rightarrow> global_entries \<Rightarrow> 'i world \<Rightarrow> ('e, 'i world \<times> bool) outcome" where
  "does_exist_from_config env service_name g w =
     obind (panic_on_err (static_config_storage_config g)) (\<lambda>cfg.
     obind (static_list_cfg cfg (w_static w)) (\<lambda>services.
     omap (\<lambda>(r, b). (w\<lparr>w_static := r\<rparr>, b)) (find_service env cfg service_name services (w_static w))))"

end
