(* ===== verification/PubSubBuilder.thy ===== *)
theory PubSubBuilder
  imports ServiceConfig
begin

text \<open>
  \<^verbatim>\<open>service/builder/publish_subscribe.rs\<close>: creating and opening a publish-subscribe service.

  Every call returns the world after it together with its result, since a call that fails may have changed the world before. Waiting for a service that is being
  created is a list of observations: in each iteration of the loop the world that it finds and what \<^verbatim>\<open>AdaptiveWait::wait\<close> returns (the time
  waited so far, or \<open>None\<close> for an error). \<open>None\<close> as the result of the loop: it still waits when the observations end.
\<close>

datatype ps_open_error =
  PsDoesNotExist | PsOpenInternalFailure | PsIncompatibleTypes | PsIncompatibleMessagingPattern | DoesNotSupportRequestedMinBufferSize
| DoesNotSupportRequestedMinHistorySize | DoesNotSupportRequestedMinSubscriberBorrowedSamples | DoesNotSupportRequestedAmountOfPublishers
| DoesNotSupportRequestedAmountOfSubscribers | IncompatibleOverflowBehavior | PsInaccessible | PsOpenPermissionDenied | PsServiceInCorruptedState
| PsHangsInCreation | PsUnableToOpenDynamicServiceInformation

datatype ps_create_error =
  PsCorrupted | SubscriberBufferMustBeLargerThanHistorySize | PsAlreadyExists | PsCreatePermissionDenied | PsCreateInternalFailure
| PsIsBeingCreatedByAnotherInstance | PsUnableToCreateStaticServiceInformation

datatype ps_availability = PsServiceState service_state | PsTypesDiffer

datatype ps_open_or_create_error = PublishSubscribeOpenError ps_open_error | PublishSubscribeCreateError ps_create_error

record ps_builder =
  pb_config :: service_config
  pb_global :: global_entries
  pb_verify_number_of_subscribers :: bool
  pb_verify_number_of_publishers :: bool
  pb_verify_subscriber_buffer_size :: bool
  pb_verify_subscriber_max_borrowed_samples :: bool
  pb_verify_publisher_history_size :: bool
  pb_verify_enable_safe_overflow :: bool

definition pb_new :: "service_config \<Rightarrow> global_entries \<Rightarrow> ps_builder" where
  "pb_new config g =
     \<lparr>pb_config = config\<lparr>sc_pattern := PublishSubscribe (ps_static_new g)\<rparr>, pb_global = g, pb_verify_number_of_subscribers = False,
      pb_verify_number_of_publishers = False, pb_verify_subscriber_buffer_size = False, pb_verify_subscriber_max_borrowed_samples = False,
      pb_verify_publisher_history_size = False, pb_verify_enable_safe_overflow = False\<rparr>"

definition publish_subscribe_builder :: "svc_env \<Rightarrow> u8 list \<Rightarrow> global_entries \<Rightarrow> ps_builder" where
  "publish_subscribe_builder env name g = pb_new (new_publish_subscribe_config env name g) g"

definition config_details :: "ps_builder \<Rightarrow> ('e, ps_static) outcome" where
  "config_details b = sc_publish_subscribe (pb_config b)"

definition config_details_mut :: "(ps_static \<Rightarrow> ps_static) \<Rightarrow> ps_builder \<Rightarrow> ('e, ps_builder) outcome" where
  "config_details_mut f b =
     (case sc_pattern (pb_config b) of
        PublishSubscribe v \<Rightarrow> Ok (b\<lparr>pb_config := (pb_config b)\<lparr>sc_pattern := PublishSubscribe (f v)\<rparr>\<rparr>)
      | Event _ \<Rightarrow> Panic)"

definition pb_enable_safe_overflow :: "bool \<Rightarrow> ps_builder \<Rightarrow> ('e, ps_builder) outcome" where
  "pb_enable_safe_overflow v b = omap (\<lambda>b. b\<lparr>pb_verify_enable_safe_overflow := True\<rparr>) (config_details_mut (\<lambda>c. c\<lparr>sc_safe_overflow := v\<rparr>) b)"

definition pb_subscriber_max_borrowed_samples :: "usize \<Rightarrow> ps_builder \<Rightarrow> ('e, ps_builder) outcome" where
  "pb_subscriber_max_borrowed_samples v b =
     omap (\<lambda>b. b\<lparr>pb_verify_subscriber_max_borrowed_samples := True\<rparr>) (config_details_mut (\<lambda>c. c\<lparr>sc_max_borrowed := max v 1\<rparr>) b)"

definition pb_history_size :: "usize \<Rightarrow> ps_builder \<Rightarrow> ('e, ps_builder) outcome" where
  "pb_history_size v b = omap (\<lambda>b. b\<lparr>pb_verify_publisher_history_size := True\<rparr>) (config_details_mut (\<lambda>c. c\<lparr>sc_history_size := v\<rparr>) b)"

definition pb_subscriber_buffer_size :: "usize \<Rightarrow> ps_builder \<Rightarrow> ('e, ps_builder) outcome" where
  "pb_subscriber_buffer_size v b = omap (\<lambda>b. b\<lparr>pb_verify_subscriber_buffer_size := True\<rparr>) (config_details_mut (\<lambda>c. c\<lparr>sc_buffer_size := v\<rparr>) b)"

definition pb_max_subscribers :: "usize \<Rightarrow> ps_builder \<Rightarrow> ('e, ps_builder) outcome" where
  "pb_max_subscribers v b = omap (\<lambda>b. b\<lparr>pb_verify_number_of_subscribers := True\<rparr>) (config_details_mut (\<lambda>c. c\<lparr>sc_max_subscribers := v\<rparr>) b)"

definition pb_max_publishers :: "usize \<Rightarrow> ps_builder \<Rightarrow> ('e, ps_builder) outcome" where
  "pb_max_publishers v b = omap (\<lambda>b. b\<lparr>pb_verify_number_of_publishers := True\<rparr>) (config_details_mut (\<lambda>c. c\<lparr>sc_max_publishers := v\<rparr>) b)"

definition ps_is_service_available ::
  "svc_env \<Rightarrow> ps_builder \<Rightarrow> 'i world \<Rightarrow> (ps_availability, (service_config \<times> static_storage) option) outcome" where
  "ps_is_service_available env b w =
     obind (map_err PsServiceState (is_service_available env (pb_config b) (pb_global b) w)) (\<lambda>r.
       case r of
         None \<Rightarrow> Ok None
       | Some (config, storage) \<Rightarrow>
           obind (sc_publish_subscribe config) (\<lambda>existing. obind (config_details b) (\<lambda>details.
             if sc_type_name existing \<noteq> sc_type_name details then Err PsTypesDiffer else Ok (Some (config, storage)))))"

definition ps_verify_service_properties :: "ps_builder \<Rightarrow> service_config \<Rightarrow> (ps_open_error, ps_static) outcome" where
  "ps_verify_service_properties b existing_config =
     obind (config_details b) (\<lambda>required.
       case sc_pattern existing_config of
         Event _ \<Rightarrow> Err PsIncompatibleMessagingPattern
       | PublishSubscribe existing \<Rightarrow>
           if pb_verify_number_of_publishers b \<and> sc_max_publishers existing < sc_max_publishers required
           then Err DoesNotSupportRequestedAmountOfPublishers
           else if pb_verify_number_of_subscribers b \<and> sc_max_subscribers existing < sc_max_subscribers required
           then Err DoesNotSupportRequestedAmountOfSubscribers
           else if pb_verify_subscriber_buffer_size b \<and> sc_buffer_size existing < sc_buffer_size required
           then Err DoesNotSupportRequestedMinBufferSize
           else if pb_verify_publisher_history_size b \<and> sc_history_size existing < sc_history_size required
           then Err DoesNotSupportRequestedMinHistorySize
           else if pb_verify_subscriber_max_borrowed_samples b \<and> sc_max_borrowed existing < sc_max_borrowed required
           then Err DoesNotSupportRequestedMinSubscriberBorrowedSamples
           else if pb_verify_enable_safe_overflow b \<and> sc_safe_overflow existing = sc_safe_overflow required
           then Err IncompatibleOverflowBehavior
           else Ok existing)"

text \<open>The branch of \<^verbatim>\<open>open\<close> for a service that exists.\<close>

definition ps_open_existing ::
  "ps_builder \<Rightarrow> service_config \<Rightarrow> static_storage \<Rightarrow> 'i world \<Rightarrow> 'i world \<times> (ps_open_error, service_handle) outcome" where
  "ps_open_existing b static_config static_storage w =
     (case open_dynamic_config_storage (pb_config b) (pb_global b) w of
        Ok (w1, dynamic_config) \<Rightarrow>
          (w1, omap (\<lambda>c. \<lparr>sv_config = (pb_config b)\<lparr>sc_pattern := PublishSubscribe c\<rparr>, sv_dynamic = dynamic_config, sv_static = static_storage\<rparr>)
                 (ps_verify_service_properties b static_config))
      | Err _ \<Rightarrow> (w, Err PsUnableToOpenDynamicServiceInformation)
      | Panic \<Rightarrow> (w, Panic) | UB \<Rightarrow> (w, UB))"

fun ps_open_loop ::
  "svc_env \<Rightarrow> ps_builder \<Rightarrow> ('i world \<times> nat option) list \<Rightarrow> ('i world \<times> (ps_open_error, service_handle) outcome) option" where
  "ps_open_loop env b [] = None"
| "ps_open_loop env b ((w, waited) # rest) =
     (case ps_is_service_available env b w of
        Ok None \<Rightarrow> Some (w, Err PsDoesNotExist)
      | Ok (Some (static_config, static_storage)) \<Rightarrow> Some (ps_open_existing b static_config static_storage w)
      | Err (PsServiceState IsBeingCreatedByAnotherInstance) \<Rightarrow>
          (case waited of
             None \<Rightarrow> Some (w, Err PsOpenInternalFailure)
           | Some timeout \<Rightarrow> if g_creation_timeout (pb_global b) < timeout then Some (w, Err PsHangsInCreation) else ps_open_loop env b rest)
      | Err PsTypesDiffer \<Rightarrow> Some (w, Err PsIncompatibleTypes)
      | Err (PsServiceState IncompatibleMessagingPattern) \<Rightarrow> Some (w, Err PsIncompatibleMessagingPattern)
      | Err (PsServiceState Corrupted) \<Rightarrow> Some (w, Err PsServiceInCorruptedState)
      | Err (PsServiceState PermissionDenied) \<Rightarrow> Some (w, Err PsOpenPermissionDenied)
      | Panic \<Rightarrow> Some (w, Panic) | UB \<Rightarrow> Some (w, UB))"

text \<open>\<open>wait_created\<close>: whether the adaptive wait could be created.\<close>

definition ps_open ::
  "svc_env \<Rightarrow> u8 list \<Rightarrow> bool \<Rightarrow> ps_builder \<Rightarrow> ('i world \<times> nat option) list \<Rightarrow> ('i world \<times> (ps_open_error, service_handle) outcome) option" where
  "ps_open env type_name wait_created b observations =
     (case (config_details_mut (\<lambda>c. c\<lparr>sc_type_name := type_name\<rparr>) b :: (unit, _) outcome, observations) of
        (Ok b1, (w, t) # rest) \<Rightarrow> if wait_created then ps_open_loop env b1 observations else Some (w, Err PsOpenInternalFailure)
      | (_, (w, t) # rest) \<Rightarrow> Some (w, Panic)
      | (_, []) \<Rightarrow> None)"

definition adjust_ps :: "ps_static \<Rightarrow> ps_static" where
  "adjust_ps settings =
     (let s1 = (if sc_max_borrowed settings = 0 then settings\<lparr>sc_max_borrowed := 1\<rparr> else settings);
          s2 = (if sc_buffer_size s1 = 0 then s1\<lparr>sc_buffer_size := 1\<rparr> else s1);
          s3 = (if sc_max_subscribers s2 = 0 then s2\<lparr>sc_max_subscribers := 1\<rparr> else s2)
      in if sc_max_publishers s3 = 0 then s3\<lparr>sc_max_publishers := 1\<rparr> else s3)"

text \<open>The branch of \<^verbatim>\<open>create\<close> for a service that does not exist. Both storages are created without ownership: nothing is removed when a later step fails.\<close>

definition ps_create_new :: "svc_env \<Rightarrow> ps_builder \<Rightarrow> 'i world \<Rightarrow> 'i world \<times> (ps_create_error, service_handle) outcome" where
  "ps_create_new env b w =
     (case create_static_config_storage (pb_config b) (pb_global b) w of
        Err _ \<Rightarrow> (w, Err PsUnableToCreateStaticServiceInformation)
      | Panic \<Rightarrow> (w, Panic) | UB \<Rightarrow> (w, UB)
      | Ok (w1, locked) \<Rightarrow>
          (case obind (config_details b) (\<lambda>c.
              let settings = \<lparr>number_of_subscribers = sc_max_subscribers c, number_of_publishers = sc_max_publishers c\<rparr>
              in obind (psd_memory_size (env_size_of_id env) (env_align_of_id env) settings) (\<lambda>size.
                 create_dynamic_config_storage env (pb_config b) (pb_global b) (DynPublishSubscribe (psd_new settings)) size w1)) of
             Err _ \<Rightarrow> (w1, Err PsCreateInternalFailure)
           | Panic \<Rightarrow> (w1, Panic) | UB \<Rightarrow> (w1, UB)
           | Ok (w2, dynamic_config) \<Rightarrow>
               (case env_serialize env (pb_config b) of
                  None \<Rightarrow> (w2, Err PsCorrupted)
                | Some service_config \<Rightarrow>
                    (case static_unlock locked service_config (w_static w2) of
                       Err _ \<Rightarrow> (w2, Err PsCorrupted)
                     | Panic \<Rightarrow> (w2, Panic) | UB \<Rightarrow> (w2, UB)
                     | Ok (r, unlocked) \<Rightarrow>
                         (w2\<lparr>w_static := r\<rparr>, Ok \<lparr>sv_config = pb_config b, sv_dynamic = dynamic_config, sv_static = unlocked\<rparr>)))))"

definition ps_create :: "svc_env \<Rightarrow> u8 list \<Rightarrow> ps_builder \<Rightarrow> 'i world \<Rightarrow> 'i world \<times> (ps_create_error, service_handle) outcome" where
  "ps_create env type_name b w =
     (case obind (config_details_mut (\<lambda>c. (adjust_ps c)\<lparr>sc_type_name := type_name\<rparr>) b) (\<lambda>b1. omap (Pair b1) (config_details b1)) of
        Ok (b1, details) \<Rightarrow>
          if \<not> sc_safe_overflow details \<and> sc_buffer_size details < sc_history_size details
          then (w, Err SubscriberBufferMustBeLargerThanHistorySize)
          else (case ps_is_service_available env b1 w of
              Ok None \<Rightarrow> ps_create_new env b1 w
            | Ok (Some _) \<Rightarrow> (w, Err PsAlreadyExists)
            | Err PsTypesDiffer \<Rightarrow> (w, Err PsAlreadyExists)
            | Err (PsServiceState IncompatibleMessagingPattern) \<Rightarrow> (w, Err PsAlreadyExists)
            | Err (PsServiceState PermissionDenied) \<Rightarrow> (w, Err PsCreatePermissionDenied)
            | Err (PsServiceState Corrupted) \<Rightarrow> (w, Err PsCorrupted)
            | Err (PsServiceState IsBeingCreatedByAnotherInstance) \<Rightarrow> (w, Err PsIsBeingCreatedByAnotherInstance)
            | Panic \<Rightarrow> (w, Panic) | UB \<Rightarrow> (w, UB))
      | Err e \<Rightarrow> (w, Err e) | Panic \<Rightarrow> (w, Panic) | UB \<Rightarrow> (w, UB))"

text \<open>The first observation is the world in which the availability is checked; the call goes on with the others.\<close>

definition ps_open_or_create ::
  "svc_env \<Rightarrow> u8 list \<Rightarrow> bool \<Rightarrow> ps_builder \<Rightarrow> 'i world \<Rightarrow> ('i world \<times> nat option) list
     \<Rightarrow> ('i world \<times> (ps_open_or_create_error, service_handle) outcome) option" where
  "ps_open_or_create env type_name wait_created b w observations =
     (case config_details_mut (\<lambda>c. c\<lparr>sc_type_name := type_name\<rparr>) b of
        Ok b1 \<Rightarrow>
          (case ps_is_service_available env b1 w of
             Ok None \<Rightarrow> (case observations of [] \<Rightarrow> None
               | (w1, _) # _ \<Rightarrow> Some (apsnd (map_err PublishSubscribeCreateError) (ps_create env type_name b1 w1)))
           | Ok (Some _) \<Rightarrow> map_option (apsnd (map_err PublishSubscribeOpenError)) (ps_open env type_name wait_created b1 observations)
           | Err (PsServiceState IsBeingCreatedByAnotherInstance) \<Rightarrow>
               map_option (apsnd (map_err PublishSubscribeOpenError)) (ps_open env type_name wait_created b1 observations)
           | Err PsTypesDiffer \<Rightarrow> Some (w, Err (PublishSubscribeOpenError PsIncompatibleTypes))
           | Err (PsServiceState IncompatibleMessagingPattern) \<Rightarrow> Some (w, Err (PublishSubscribeOpenError PsIncompatibleMessagingPattern))
           | Err (PsServiceState Corrupted) \<Rightarrow> Some (w, Err (PublishSubscribeOpenError PsServiceInCorruptedState))
           | Err (PsServiceState PermissionDenied) \<Rightarrow> Some (w, Err (PublishSubscribeOpenError PsOpenPermissionDenied))
           | Panic \<Rightarrow> Some (w, Panic) | UB \<Rightarrow> Some (w, UB))
      | Err e \<Rightarrow> Some (w, Err e) | Panic \<Rightarrow> Some (w, Panic) | UB \<Rightarrow> Some (w, UB))"

end
