(* ===== verification/ServiceLifetime.thy ===== *)
theory ServiceLifetime
  imports PubSubBuilder
begin

text \<open>
  The life of a publish-subscribe service in a process: builders create it and open it, the resulting services are dropped.

  \<open>usage\<close> is the abstract state of one service: it does not exist, or it has a configuration and a number of users. The lemmas show what every operation of
  the builder does to it; \<open>svc_run\<close> composes them in any order. A user that failed to open the service because of its
  properties is counted although it never gets a service that could be dropped.
\<close>

section \<open>The abstract state\<close>

lemma panic_on_err_Ok [simp]: "panic_on_err (Ok x) = Ok x"
  by (simp add: panic_on_err_def)

text \<open>Where the storages of the service with a given id are.\<close>

record location =
  loc_static :: named_concept_config
  loc_dynamic :: named_concept_config
  loc_name :: byte_string

definition svc_at :: "global_entries \<Rightarrow> u8 list \<Rightarrow> location \<Rightarrow> bool" where
  "svc_at g uuid l \<longleftrightarrow> static_config_storage_config g = Ok (loc_static l) \<and> dynamic_config_storage_config g = Ok (loc_dynamic l)
     \<and> file_name_or_panic uuid = Ok (loc_name l) \<and> concept_ok (loc_static l) (loc_name l) \<and> concept_ok (loc_dynamic l) (loc_name l)"

abbreviation skey :: "location \<Rightarrow> path_key" where "skey l \<equiv> concept_key (loc_static l) (content (loc_name l))"
abbreviation dkey :: "location \<Rightarrow> path_key" where "dkey l \<equiv> concept_key (loc_dynamic l) (content (loc_name l))"

text \<open>The configuration, the address of the dynamic configuration and the number of users.\<close>

type_synonym usage = "(service_config \<times> nat \<times> nat) option"

fun svc_usage :: "svc_env \<Rightarrow> location \<Rightarrow> 'i world \<Rightarrow> usage \<Rightarrow> bool" where
  "svc_usage env l w None \<longleftrightarrow> sr_lockable (w_static w) \<and> dr_lockable (w_dynamic w)
     \<and> map_of (sr_entries (w_static w)) (skey l) = None \<and> map_of (dr_entries (w_dynamic w)) (dkey l) = None"
| "svc_usage env l w (Some (c, d, k)) \<longleftrightarrow> sr_lockable (w_static w) \<and> dr_lockable (w_dynamic w)
     \<and> (\<exists>bytes. map_of (sr_entries (w_static w)) (skey l) = Some \<lparr>is_locked = False, content_value = bytes\<rparr> \<and> env_deserialize env bytes = Some c)
     \<and> map_of (dr_entries (w_dynamic w)) (dkey l) = Some d
     \<and> unat (dc_counter (dr_heap (w_dynamic w) d)) = k \<and> 0 < k \<and> k < 2 ^ 64 - 2"

text \<open>A service in somebody's hands.\<close>

definition handle_at :: "location \<Rightarrow> nat \<Rightarrow> service_handle \<Rightarrow> bool" where
  "handle_at l d h \<longleftrightarrow> dy_name (sv_dynamic h) = loc_name l \<and> dy_config (sv_dynamic h) = loc_dynamic l \<and> dy_data (sv_dynamic h) = d
     \<and> \<not> dy_ownership (sv_dynamic h)
     \<and> st_name (sv_static h) = loc_name l \<and> st_config (sv_static h) = loc_static l \<and> \<not> st_ownership (sv_static h)"

section \<open>Operations on the storages\<close>


lemma svc_paths:
  assumes "svc_at g uuid l"
  shows "concept_path (loc_static l) (loc_name l) = Ok (skey l)" and "concept_path (loc_dynamic l) (loc_name l) = Ok (dkey l)"
  using assms by (simp_all add: svc_at_def concept_path_Ok)

lemma available_none:
  assumes "svc_at g uuid l" and "svc_usage env l w None" and "sc_uuid config = uuid"
  shows "is_service_available env config g w = Ok None"
  using assms by (simp add: svc_paths [OF assms(1)] svc_at_def is_service_available_def static_does_exist_cfg_def)

lemma available_some:
  assumes "svc_at g uuid l" and "svc_usage env l w (Some (c, d, k))" and "sc_uuid config = uuid" and "sc_uuid c = uuid"
    and "has_same_messaging_pattern c config"
  shows "\<exists>s. is_service_available env config g w = Ok (Some (c, s)) \<and> st_name s = loc_name l \<and> st_config s = loc_static l \<and> \<not> st_ownership s"
  using assms
  by (auto simp: svc_paths [OF assms(1)] svc_at_def is_service_available_def static_does_exist_cfg_def static_builder_open_def static_read_def static_len_def)

lemma available_other:
  assumes "svc_at g uuid l" and "svc_usage env l w (Some (c, d, k))" and "sc_uuid config = uuid" and "sc_uuid c = uuid"
    and "\<not> has_same_messaging_pattern c config"
  shows "is_service_available env config g w = Err IncompatibleMessagingPattern"
  using assms
  by (auto simp: svc_paths [OF assms(1)] svc_at_def is_service_available_def static_does_exist_cfg_def static_builder_open_def static_read_def static_len_def)

lemma open_dynamic_some:
  assumes "svc_at g uuid l" and "svc_usage env l w (Some (c, d, k))" and "sc_uuid config = uuid" and "k < 2 ^ 64 - 3"
  shows "\<exists>w' s. open_dynamic_config_storage config g w = Ok (w', s) \<and> svc_usage env l w' (Some (c, d, k + 1))
    \<and> dy_name s = loc_name l \<and> dy_config s = loc_dynamic l \<and> dy_data s = d \<and> \<not> dy_ownership s"
proof -
  let ?v = "dc_counter (dr_heap (w_dynamic w) d)"
  have k: "unat ?v = k" "k < 2 ^ 64 - 2" using assms(2) by auto
  have m: "unat MARKED_FOR_DESTRUCTION = 18446744073709551614" "unat (- 1 :: u64) = 18446744073709551615"
    using unat_marked by (simp_all add: unsigned_minus_1_eq_mask mask_eq_exp_minus_1)
  have u: "unat (?v + 1) = k + 1" using k(1) assms(4) by (simp add: unat_word_ariths)
  have n: "?v \<noteq> - 1" "?v \<noteq> MARKED_FOR_DESTRUCTION" using k m by auto
  have inc: "increment_reference_counter (dr_heap (w_dynamic w) d) = Ok ((dr_heap (w_dynamic w) d)\<lparr>dc_counter := ?v + 1\<rparr>)"
    using n by (simp add: increment_reference_counter_def)
  show ?thesis using assms inc u
    by (auto simp: svc_paths [OF assms(1)] svc_at_def open_dynamic_config_storage_def dynamic_config_storage_name_def dynamic_open_def try_open_def dynamic_get_def)
qed

lemma drop_some:
  assumes "svc_at g uuid l" and "svc_usage env l w (Some (c, d, k))" and "handle_at l d h"
  shows "\<exists>w'. service_drop h w = (Ok w' :: ('e, _) outcome) \<and> svc_usage env l w' (if k = 1 then None else Some (c, d, k - 1))"
proof -
  let ?v = "dc_counter (dr_heap (w_dynamic w) d)"
  have k: "unat ?v = k" "0 < k" using assms(2) by auto
  have v0: "?v \<noteq> 0" using k by auto
  have h: "dy_name (sv_dynamic h) = loc_name l" "dy_config (sv_dynamic h) = loc_dynamic l" "dy_data (sv_dynamic h) = d" "\<not> dy_ownership (sv_dynamic h)"
     "st_name (sv_static h) = loc_name l" "st_config (sv_static h) = loc_static l" "\<not> st_ownership (sv_static h)" using assms(3) by (simp_all add: handle_at_def)
  show ?thesis
  proof (cases "k = 1")
    case True
    then have "?v = 1" using k(1) word_unat_eq_iff [of ?v 1] by simp
    then have dec: "decrement_reference_counter (dr_heap (w_dynamic w) d) = (Ok ((dr_heap (w_dynamic w) d)\<lparr>dc_counter := MARKED_FOR_DESTRUCTION\<rparr>, NoMoreOwners) :: ('e, _) outcome)"
      by (simp add: decrement_reference_counter_def)
    show ?thesis using True assms(2) dec h
      by (auto simp: svc_paths [OF assms(1)] service_drop_def dynamic_get_def dynamic_acquire_ownership_def static_acquire_ownership_def
          dynamic_drop_def dynamic_remove_cfg_def static_drop_def static_remove_cfg_def)
  next
    case False
    then have "?v \<noteq> 1" using k(1) by auto
    then have dec: "decrement_reference_counter (dr_heap (w_dynamic w) d) = (Ok ((dr_heap (w_dynamic w) d)\<lparr>dc_counter := ?v - 1\<rparr>, HasOwners) :: ('e, _) outcome)"
      using v0 by (simp add: decrement_reference_counter_def)
    have u: "unat (?v - 1) = k - 1" using k v0 by (simp add: unat_sub word_le_nat_alt unat_gt_0)
    then show ?thesis using False assms(2) dec h
      by (auto simp: service_drop_def dynamic_get_def dynamic_drop_def static_drop_def)
  qed
qed

text \<open>The serializer reads back the configuration that it has written.\<close>

definition serializer_ok :: "svc_env \<Rightarrow> service_config \<Rightarrow> bool" where
  "serializer_ok env c \<longleftrightarrow> (\<exists>bytes. env_serialize env c = Some bytes \<and> env_deserialize env bytes = Some c)"

text \<open>Creating both storages and publishing the description, for a dynamic configuration whose ports fit into the memory.\<close>

lemma create_storages:
  assumes "svc_at g uuid l" and "svc_usage env l w None" and "sc_uuid c = uuid" and "serializer_ok env c" and "env_address env = Some a"
    and "dc_init (env_size_of_id env) (env_align_of_id env) (bump_new (a + env_size_of_config env) m) (dc_new_uninit p) = (Ok (al, dc) :: (dynamic_create_error, _) outcome)"
    and "dc_counter dc = 1"
  shows "\<exists>w1 locked w2 dy bytes r unlocked. create_static_config_storage c g w = Ok (w1, locked) \<and> create_dynamic_config_storage env c g p m w1 = Ok (w2, dy)
    \<and> env_serialize env c = Some bytes \<and> static_unlock locked bytes (w_static w2) = Ok (r, unlocked)
    \<and> svc_usage env l (w2\<lparr>w_static := r\<rparr>) (Some (c, dr_next (w_dynamic w), 1))
    \<and> handle_at l (dr_next (w_dynamic w)) \<lparr>sv_config = c, sv_dynamic = dy, sv_static = unlocked\<rparr> \<and> dynamic_get (w_dynamic w2) dy = dc"
proof -
  let ?lc = "\<lparr>is_locked = True, content_value = []\<rparr>"
  let ?locked = "\<lparr>st_name = loc_name l, st_ownership = False, st_config = loc_static l, st_content = ?lc\<rparr>"
  let ?w1 = "w\<lparr>w_static := (w_static w)\<lparr>sr_entries := AList.update (skey l) ?lc (sr_entries (w_static w))\<rparr>\<rparr>"
  have st: "create_static_config_storage c g w = Ok (?w1, ?locked)"
    using assms(1-3) by (simp add: create_static_config_storage_def static_config_storage_name_def svc_at_def create_locked_def svc_paths [OF assms(1)] Let_def)
  let ?d = "dr_next (w_dynamic w)"
  let ?r2 = "(w_dynamic w)\<lparr>dr_entries := AList.update (dkey l) ?d (dr_entries (w_dynamic w)), dr_heap := (dr_heap (w_dynamic w))(?d := dc), dr_next := ?d + 1\<rparr>"
  let ?dy = "\<lparr>dy_name = loc_name l, dy_data = ?d, dy_ownership = False, dy_config = loc_dynamic l\<rparr>"
  have dy: "create_dynamic_config_storage env c g p m ?w1 = Ok (?w1\<lparr>w_dynamic := ?r2\<rparr>, ?dy)"
    using assms(1-3,5,6) by (simp add: create_dynamic_config_storage_def dynamic_config_storage_name_def svc_at_def create_and_initialize_def svc_paths [OF assms(1)])
  obtain bytes where ser: "env_serialize env c = Some bytes" "env_deserialize env bytes = Some c" using assms(4) by (auto simp: serializer_ok_def)
  let ?r = "(w_static ?w1)\<lparr>sr_entries := AList.update (skey l) \<lparr>is_locked = False, content_value = bytes\<rparr> (sr_entries (w_static ?w1))\<rparr>"
  have un: "static_unlock ?locked bytes (w_static (?w1\<lparr>w_dynamic := ?r2\<rparr>)) = Ok (?r, ?locked)" using assms(2) by (simp add: static_unlock_def svc_paths [OF assms(1)] Let_def)
  have "svc_usage env l (?w1\<lparr>w_dynamic := ?r2\<rparr>\<lparr>w_static := ?r\<rparr>) (Some (c, ?d, 1))" using assms(2,7) ser(2) by simp
  moreover have "handle_at l ?d \<lparr>sv_config = c, sv_dynamic = ?dy, sv_static = ?locked\<rparr>" by (simp add: handle_at_def)
  moreover have "dynamic_get (w_dynamic (?w1\<lparr>w_dynamic := ?r2\<rparr>)) ?dy = dc" by (simp add: dynamic_get_def)
  ultimately show ?thesis using st dy ser(1) un by blast
qed

section \<open>Operations of the builder\<close>

definition builder_for :: "global_entries \<Rightarrow> u8 list \<Rightarrow> ps_builder \<Rightarrow> bool" where
  "builder_for g uuid b \<longleftrightarrow> pb_global b = g \<and> sc_uuid (pb_config b) = uuid \<and> (\<exists>v. sc_pattern (pb_config b) = PublishSubscribe v)"

definition ps_details :: "ps_builder \<Rightarrow> ps_static" where
  "ps_details b = (case sc_pattern (pb_config b) of PublishSubscribe v \<Rightarrow> v | Event _ \<Rightarrow> undefined)"

text \<open>There is memory for the ports.\<close>

definition memory_ok :: "svc_env \<Rightarrow> ps_static \<Rightarrow> bool" where
  "memory_ok env c \<longleftrightarrow> sc_max_subscribers c + 1 < 2 ^ 32 \<and> sc_max_publishers c + 1 < 2 ^ 32 \<and> 0 < env_size_of_id env
     \<and> (\<exists>k. env_align_of_id env = 2 ^ k)
     \<and> (\<exists>m a. env_address env = Some a
         \<and> psd_memory_size (env_size_of_id env) (env_align_of_id env)
             \<lparr>number_of_subscribers = sc_max_subscribers c, number_of_publishers = sc_max_publishers c\<rparr> = (Ok m :: (dynamic_create_error, _) outcome)
         \<and> a + env_size_of_config env + m + env_align_of_id env + 4 < usize_lim)"

definition created_config :: "ps_builder \<Rightarrow> u8 list \<Rightarrow> service_config" where
  "created_config b type_name = (pb_config b)\<lparr>sc_pattern := PublishSubscribe ((adjust_ps (ps_details b))\<lparr>sc_type_name := type_name\<rparr>)\<rparr>"

definition history_fits :: "ps_builder \<Rightarrow> bool" where
  "history_fits b \<longleftrightarrow> sc_safe_overflow (adjust_ps (ps_details b)) \<or> sc_history_size (adjust_ps (ps_details b)) \<le> sc_buffer_size (adjust_ps (ps_details b))"

lemma adjust_ps_counts: "0 < sc_max_subscribers (adjust_ps c) \<and> 0 < sc_max_publishers (adjust_ps c)"
  by (simp add: adjust_ps_def Let_def)

text \<open>\<^verbatim>\<open>create\<close> behind its first check.\<close>

lemma create_start:
  assumes "builder_for g uuid b" and "history_fits b"
  shows "ps_create env type_name b w = (case ps_is_service_available env (b\<lparr>pb_config := created_config b type_name\<rparr>) w of
              Ok None \<Rightarrow> ps_create_new env (b\<lparr>pb_config := created_config b type_name\<rparr>) w
            | Ok (Some _) \<Rightarrow> (w, Err PsAlreadyExists)
            | Err PsTypesDiffer \<Rightarrow> (w, Err PsAlreadyExists)
            | Err (PsServiceState IncompatibleMessagingPattern) \<Rightarrow> (w, Err PsAlreadyExists)
            | Err (PsServiceState PermissionDenied) \<Rightarrow> (w, Err PsCreatePermissionDenied)
            | Err (PsServiceState Corrupted) \<Rightarrow> (w, Err PsCorrupted)
            | Err (PsServiceState IsBeingCreatedByAnotherInstance) \<Rightarrow> (w, Err PsIsBeingCreatedByAnotherInstance)
            | Panic \<Rightarrow> (w, Panic) | UB \<Rightarrow> (w, UB))"
proof -
  obtain v where v: "sc_pattern (pb_config b) = PublishSubscribe v" using assms(1) by (auto simp: builder_for_def)
  have dv: "ps_details b = v" using v by (simp add: ps_details_def)
  let ?b = "b\<lparr>pb_config := created_config b type_name\<rparr>" and ?c = "(adjust_ps v)\<lparr>sc_type_name := type_name\<rparr>"
  have start: "obind (config_details_mut (\<lambda>c. (adjust_ps c)\<lparr>sc_type_name := type_name\<rparr>) b) (\<lambda>b1. omap (Pair b1) (config_details b1)) = Ok (?b, ?c)"
    using v by (simp add: config_details_mut_def created_config_def dv config_details_def sc_publish_subscribe_def)
  have "\<not> (\<not> sc_safe_overflow ?c \<and> sc_buffer_size ?c < sc_history_size ?c)" using assms(2) by (auto simp: history_fits_def dv)
  then show ?thesis unfolding ps_create_def start by (simp only: outcome.case prod.case if_False)
qed

lemma create_ok:
  assumes "svc_at g uuid l" and "svc_usage env l (w :: 'i world) None" and "builder_for g uuid b" and "serializer_ok env (created_config b type_name)" and "memory_ok env (adjust_ps (ps_details b))" and "history_fits b"
  shows "\<exists>w' h. ps_create env type_name b w = (w', Ok h) \<and> svc_usage env l w' (Some (created_config b type_name, dr_next (w_dynamic w), 1))
    \<and> handle_at l (dr_next (w_dynamic w)) h \<and> sv_config h = created_config b type_name"
proof -
  obtain v where v: "sc_pattern (pb_config b) = PublishSubscribe v" and gb: "pb_global b = g" "sc_uuid (pb_config b) = uuid" using assms(3) by (auto simp: builder_for_def)
  let ?c = "(adjust_ps v)\<lparr>sc_type_name := type_name\<rparr>"
  let ?b = "b\<lparr>pb_config := created_config b type_name\<rparr>"
  have dv: "ps_details b = v" using v by (simp add: ps_details_def)
  have cc: "created_config b type_name = (pb_config b)\<lparr>sc_pattern := PublishSubscribe ?c\<rparr>" by (simp add: created_config_def dv)
  have u: "sc_uuid (created_config b type_name) = uuid" using gb by (simp add: cc)
  have det: "config_details ?b = (Ok ?c :: ('x, _) outcome)" by (simp add: config_details_def sc_publish_subscribe_def cc)
  have avail: "ps_is_service_available env ?b w = Ok None" using available_none [OF assms(1,2) u] gb(1) by (simp add: ps_is_service_available_def)
  let ?settings = "\<lparr>number_of_subscribers = sc_max_subscribers ?c, number_of_publishers = sc_max_publishers ?c\<rparr>"
  obtain m a k where m: "env_address env = Some a" "psd_memory_size (env_size_of_id env) (env_align_of_id env) ?settings = (Ok m :: (dynamic_create_error, _) outcome)"
    "a + env_size_of_config env + m + env_align_of_id env + 4 < usize_lim" "env_align_of_id env = 2 ^ k" "0 < env_size_of_id env"
    "sc_max_subscribers ?c + 1 < 2 ^ 32" "sc_max_publishers ?c + 1 < 2 ^ 32"
    using assms(5) by (auto simp: memory_ok_def dv)
  have pos: "0 < sc_max_subscribers ?c" "0 < sc_max_publishers ?c" using adjust_ps_counts [of v] by simp_all
  obtain al and dd :: "'i ps_dynamic" where init: "psd_init (env_size_of_id env) (env_align_of_id env) (bump_new (a + env_size_of_config env) m) (psd_new ?settings) = (Ok (al, dd) :: (dynamic_create_error, _) outcome)"
    using ports_init_fit(1) [OF pos(1) m(6) pos(2) m(7,5,4,2,3), where ?'e = dynamic_create_error and ?'i = 'i] by blast
  have i: "dc_init (env_size_of_id env) (env_align_of_id env) (bump_new (a + env_size_of_config env) m) (dc_new_uninit (DynPublishSubscribe (psd_new ?settings)))
    = (Ok (al, \<lparr>dc_pattern = DynPublishSubscribe dd, dc_counter = 1\<rparr>) :: (dynamic_create_error, _) outcome)" using init by (simp add: dc_init_def dc_new_uninit_def)
  from create_storages [OF assms(1,2) u assms(4) m(1) i] obtain w1 locked w2 dy bytes r unlocked where
    st: "create_static_config_storage (created_config b type_name) g w = Ok (w1, locked)"
      "create_dynamic_config_storage env (created_config b type_name) g (DynPublishSubscribe (psd_new ?settings)) m w1 = Ok (w2, dy)"
      "env_serialize env (created_config b type_name) = Some bytes" "static_unlock locked bytes (w_static w2) = Ok (r, unlocked)"
    and fin: "svc_usage env l (w2\<lparr>w_static := r\<rparr>) (Some (created_config b type_name, dr_next (w_dynamic w), 1))"
      "handle_at l (dr_next (w_dynamic w)) \<lparr>sv_config = created_config b type_name, sv_dynamic = dy, sv_static = unlocked\<rparr>"
    by (auto simp del: svc_usage.simps)
  have "ps_create_new env ?b w = (w2\<lparr>w_static := r\<rparr>, Ok \<lparr>sv_config = created_config b type_name, sv_dynamic = dy, sv_static = unlocked\<rparr>)"
    unfolding ps_create_new_def using st m(2) gb(1) by (simp add: det Let_def)
  then show ?thesis using create_start [OF assms(3,6), of env type_name w] avail fin by (simp del: svc_usage.simps)
qed

text \<open>The builder with the type name of the messages.\<close>

definition typed :: "u8 list \<Rightarrow> ps_builder \<Rightarrow> ps_builder" where
  "typed type_name b = b\<lparr>pb_config := (pb_config b)\<lparr>sc_pattern := PublishSubscribe ((ps_details b)\<lparr>sc_type_name := type_name\<rparr>)\<rparr>\<rparr>"

lemma typed_details:
  assumes "builder_for g uuid b"
  shows "config_details_mut (\<lambda>c. c\<lparr>sc_type_name := type_name\<rparr>) b = (Ok (typed type_name b) :: ('e, _) outcome)"
    and "config_details (typed type_name b) = (Ok ((ps_details b)\<lparr>sc_type_name := type_name\<rparr>) :: ('e, _) outcome)"
    and "pb_global (typed type_name b) = g" and "sc_uuid (pb_config (typed type_name b)) = uuid"
  using assms by (auto simp: builder_for_def config_details_mut_def config_details_def sc_publish_subscribe_def typed_def ps_details_def)

lemma create_history: "builder_for g uuid b \<Longrightarrow> \<not> history_fits b \<Longrightarrow> ps_create env type_name b w = (w, Err SubscriberBufferMustBeLargerThanHistorySize)"
  by (auto simp: builder_for_def ps_create_def config_details_mut_def config_details_def sc_publish_subscribe_def history_fits_def ps_details_def)

lemma create_exists:
  assumes "svc_at g uuid l" and "svc_usage env l w (Some (c, d, k))" and "sc_uuid c = uuid" and "builder_for g uuid b"
  shows "ps_create env type_name b w
    = (w, Err (if history_fits b then PsAlreadyExists else SubscriberBufferMustBeLargerThanHistorySize))"
proof -
  have gb: "pb_global b = g" and u: "sc_uuid (created_config b type_name) = uuid" using assms(4) by (auto simp: builder_for_def created_config_def)
  let ?b = "b\<lparr>pb_config := created_config b type_name\<rparr>"
  have avail: "ps_is_service_available env ?b w \<in> {Err PsTypesDiffer, Err (PsServiceState IncompatibleMessagingPattern)} \<union> range (\<lambda>x. Ok (Some x))"
  proof (cases "has_same_messaging_pattern c (created_config b type_name)")
    case True
    then obtain e where e: "sc_pattern c = PublishSubscribe e" by (cases "sc_pattern c") (auto simp: has_same_messaging_pattern_def created_config_def)
    from available_some [OF assms(1,2) u assms(3) True] gb(1) e show ?thesis
      by (auto simp: ps_is_service_available_def sc_publish_subscribe_def config_details_def created_config_def split: if_splits)
  next
    case False
    then show ?thesis using available_other [OF assms(1,2) u assms(3)] gb(1) by (simp add: ps_is_service_available_def)
  qed
  show ?thesis
  proof (cases "history_fits b")
    case True
    then show ?thesis using create_start [OF assms(4) True, of env type_name w] avail by auto
  next
    case False
    then show ?thesis using create_history [OF assms(4) False] by simp
  qed
qed

definition verify_errors :: "ps_open_error set" where
  "verify_errors = {DoesNotSupportRequestedAmountOfPublishers, DoesNotSupportRequestedAmountOfSubscribers, DoesNotSupportRequestedMinBufferSize,
     DoesNotSupportRequestedMinHistorySize, DoesNotSupportRequestedMinSubscriberBorrowedSamples, IncompatibleOverflowBehavior}"

lemma verify_result:
  assumes "builder_for g uuid b" and "sc_pattern c = PublishSubscribe e"
  shows "ps_verify_service_properties (typed type_name b) c = Ok e \<or> (\<exists>x \<in> verify_errors. ps_verify_service_properties (typed type_name b) c = Err x)"
  by (simp add: ps_verify_service_properties_def typed_details(2) [OF assms(1)] assms(2) verify_errors_def)

lemma open_none:
  assumes "svc_at g uuid l" and "svc_usage env l w None" and "builder_for g uuid b"
  shows "ps_open env type_name True b [(w, t)] = Some (w, Err PsDoesNotExist)"
  using available_none [OF assms(1,2) typed_details(4) [OF assms(3)]] by (simp add: typed_details [OF assms(3)] ps_open_def ps_is_service_available_def)

text \<open>Opening a service that exists: nothing happens when it has another pattern or other messages. Otherwise there is one more user, even when the
  properties do not fit and the call fails.\<close>

lemma open_some:
  assumes "svc_at g uuid l" and "svc_usage env l w (Some (c, d, k))" and "sc_uuid c = uuid" and "builder_for g uuid b" and "k < 2 ^ 64 - 3"
    and "ps_open env type_name True b [(w, t)] = Some (w', r)"
  shows "(w' = w \<and> r \<in> {Err PsIncompatibleTypes, Err PsIncompatibleMessagingPattern})
    \<or> svc_usage env l w' (Some (c, d, k + 1))
       \<and> ((\<exists>h. r = Ok h \<and> handle_at l d h \<and> sc_pattern (sv_config h) = sc_pattern c) \<or> (\<exists>e \<in> verify_errors. r = Err e))"
proof (cases "has_same_messaging_pattern c (pb_config (typed type_name b))")
  case True
  then obtain e where e: "sc_pattern c = PublishSubscribe e" by (cases "sc_pattern c") (auto simp: has_same_messaging_pattern_def typed_def)
  note ty = typed_details [OF assms(4)]
  obtain s where s: "is_service_available env (pb_config (typed type_name b)) g w = Ok (Some (c, s))" "st_name s = loc_name l" "st_config s = loc_static l" "\<not> st_ownership s"
    using available_some [OF assms(1,2) ty(4) assms(3) True] by blast
  show ?thesis
  proof (cases "sc_type_name e = type_name")
    case same: True
    obtain w1 y where y: "open_dynamic_config_storage (pb_config (typed type_name b)) g w = Ok (w1, y)" "svc_usage env l w1 (Some (c, d, k + 1))"
      "dy_name y = loc_name l" "dy_config y = loc_dynamic l" "dy_data y = d" "\<not> dy_ownership y" using open_dynamic_some [OF assms(1,2) ty(4) assms(5)] by blast
    have "ps_is_service_available env (typed type_name b) w = Ok (Some (c, s))" using s(1) same e by (simp add: ty ps_is_service_available_def sc_publish_subscribe_def)
    then have "ps_open env type_name True b [(w, t)] = Some (ps_open_existing (typed type_name b) c s w)" by (simp add: ps_open_def ty(1))
    then have wr: "(w', r) = (w1, omap (\<lambda>p. \<lparr>sv_config = (pb_config (typed type_name b))\<lparr>sc_pattern := PublishSubscribe p\<rparr>, sv_dynamic = y, sv_static = s\<rparr>)
        (ps_verify_service_properties (typed type_name b) c))" using assms(6) y(1) ty(3) by (simp add: ps_open_existing_def)
    have w1: "w' = w1" and r: "r = omap (\<lambda>p. \<lparr>sv_config = (pb_config (typed type_name b))\<lparr>sc_pattern := PublishSubscribe p\<rparr>, sv_dynamic = y, sv_static = s\<rparr>)
        (ps_verify_service_properties (typed type_name b) c)" using wr by simp_all
    from verify_result [OF assms(4) e, of type_name] show ?thesis
    proof
      assume "ps_verify_service_properties (typed type_name b) c = Ok e"
      then have "\<exists>h. r = Ok h \<and> handle_at l d h \<and> sc_pattern (sv_config h) = sc_pattern c" using r s y e by (simp add: handle_at_def)
      then show ?thesis using y(2) w1 by blast
    next
      assume "\<exists>x \<in> verify_errors. ps_verify_service_properties (typed type_name b) c = Err x"
      then have "\<exists>e \<in> verify_errors. r = Err e" using r by auto
      then show ?thesis using y(2) w1 by blast
    qed
  next
    case False
    then have "ps_is_service_available env (typed type_name b) w = Err PsTypesDiffer" using s(1) False e by (simp add: ty ps_is_service_available_def sc_publish_subscribe_def)
    then show ?thesis using assms(6) by (simp add: ps_open_def ty(1))
  qed
next
  case False
  note ty = typed_details [OF assms(4)]
  show ?thesis using available_other [OF assms(1,2) ty(4) assms(3) False] assms(6) by (simp add: ps_open_def ty ps_is_service_available_def)
qed

section \<open>Any number of users\<close>

text \<open>A call on a builder: the world before and after it, the service that it returns, and whether it failed because of the properties of the service.\<close>

type_synonym 'i service_call = "svc_env \<Rightarrow> global_entries \<Rightarrow> u8 list \<Rightarrow> 'i world \<Rightarrow> 'i world \<Rightarrow> service_handle option \<Rightarrow> bool \<Rightarrow> bool"

text \<open>Any sequence of calls on one service, and of services that are dropped. \<open>hs\<close> are the services in use, \<open>failed\<close> counts the calls that failed because of
  the properties.\<close>

inductive svc_run :: "'i service_call \<Rightarrow> svc_env \<Rightarrow> global_entries \<Rightarrow> u8 list \<Rightarrow> location \<Rightarrow> 'i world \<Rightarrow> service_handle list \<Rightarrow> nat \<Rightarrow> bool"
  for call env g uuid l where
  svc_start: "svc_usage env l w None \<Longrightarrow> svc_run call env g uuid l w [] 0"
| svc_call: "svc_run call env g uuid l w hs failed \<Longrightarrow> length hs + failed < 2 ^ 64 - 3 \<Longrightarrow> call env g uuid w w' h f
    \<Longrightarrow> svc_run call env g uuid l w' (case h of None \<Rightarrow> hs | Some s \<Rightarrow> s # hs) (failed + of_bool f)"
| svc_drop: "svc_run call env g uuid l w hs failed \<Longrightarrow> h \<in> set hs \<Longrightarrow> service_drop h w = (Ok w' :: (unit, _) outcome)
    \<Longrightarrow> svc_run call env g uuid l w' (remove1 h hs) failed"

definition svc_inv :: "svc_env \<Rightarrow> u8 list \<Rightarrow> location \<Rightarrow> 'i world \<Rightarrow> service_handle list \<Rightarrow> nat \<Rightarrow> bool" where
  "svc_inv env uuid l w hs failed \<longleftrightarrow>
     (if hs = [] \<and> failed = 0 then svc_usage env l w None
      else \<exists>c d. sc_uuid c = uuid \<and> svc_usage env l w (Some (c, d, length hs + failed)) \<and> (\<forall>h \<in> set hs. handle_at l d h \<and> sc_pattern (sv_config h) = sc_pattern c))"

lemma svc_inv_cases:
  assumes "svc_inv env uuid l w hs failed"
  obtains "hs = []" "failed = 0" "svc_usage env l w None"
  | c d where "hs \<noteq> [] \<or> failed \<noteq> 0" "sc_uuid c = uuid" "svc_usage env l w (Some (c, d, length hs + failed))"
      "\<forall>h \<in> set hs. handle_at l d h \<and> sc_pattern (sv_config h) = sc_pattern c"
  using assms unfolding svc_inv_def by (cases "hs = [] \<and> failed = 0") (simp_all only: if_True if_False, blast+)

lemma svc_inv_used:
  assumes "sc_uuid c = uuid" and "svc_usage env l w (Some (c, d, length hs + failed))" and "\<forall>h \<in> set hs. handle_at l d h \<and> sc_pattern (sv_config h) = sc_pattern c"
  shows "svc_inv env uuid l w hs failed"
proof -
  have "\<not> (hs = [] \<and> failed = 0)" using assms(2) by auto
  then show ?thesis unfolding svc_inv_def using assms by (simp only: if_False) blast
qed

lemma svc_inv_drop:
  assumes "svc_at g uuid l" and "svc_inv env uuid l w hs failed" and "h \<in> set hs"
  shows "\<exists>w'. service_drop h w = (Ok w' :: ('e, _) outcome) \<and> svc_inv env uuid l w' (remove1 h hs) failed"
  using assms(2)
proof (cases rule: svc_inv_cases)
  case (2 c d)
  let ?k = "length hs + failed"
  obtain w' where w: "service_drop h w = (Ok w' :: ('e, _) outcome)" "svc_usage env l w' (if ?k = 1 then None else Some (c, d, ?k - 1))"
    using drop_some [OF assms(1) 2(3), of h, where ?'e = 'e] 2(4) assms(3) by blast
  have len: "length (remove1 h hs) = length hs - 1" "0 < length hs" using assms(3) by (auto simp: length_remove1)
  have "svc_inv env uuid l w' (remove1 h hs) failed"
  proof (cases "?k = 1")
    case True
    then have "length (remove1 h hs) = 0" "failed = 0" using len by linarith+
    then show ?thesis using w(2) True by (simp add: svc_inv_def)
  next
    case False
    moreover have "length (remove1 h hs) + failed = ?k - 1" using len by linarith
    ultimately have "svc_usage env l w' (Some (c, d, length (remove1 h hs) + failed))" using w(2) by (simp del: svc_usage.simps)
    moreover have "\<forall>h \<in> set (remove1 h hs). handle_at l d h \<and> sc_pattern (sv_config h) = sc_pattern c" using 2(4) set_remove1_subset by fast
    ultimately show ?thesis using svc_inv_used [OF 2(2)] by blast
  qed
  then show ?thesis using w(1) by blast
qed (use assms(3) in simp)

text \<open>What a builder promises. A service that does not exist stays so or gets its first user. A service that exists is left alone or gets one more user,
  who receives it unless the properties do not fit.\<close>

locale service_client =
  fixes call :: "'i service_call"
  assumes call_unused: "svc_at g uuid l \<Longrightarrow> svc_usage env l w None \<Longrightarrow> call env g uuid w w' h f \<Longrightarrow>
      \<not> f \<and> (w' = w \<and> h = None \<or> (\<exists>s c d. h = Some s \<and> sc_uuid c = uuid \<and> svc_usage env l w' (Some (c, d, 1)) \<and> handle_at l d s \<and> sc_pattern (sv_config s) = sc_pattern c))"
    and call_used: "svc_at g uuid l \<Longrightarrow> svc_usage env l w (Some (c, d, k)) \<Longrightarrow> sc_uuid c = uuid \<Longrightarrow> k < 2 ^ 64 - 3 \<Longrightarrow> call env g uuid w w' h f \<Longrightarrow>
      w' = w \<and> h = None \<and> \<not> f
      \<or> svc_usage env l w' (Some (c, d, k + 1)) \<and> (h = None \<and> f \<or> (\<exists>s. h = Some s \<and> \<not> f \<and> handle_at l d s \<and> sc_pattern (sv_config s) = sc_pattern c))"
begin

lemma call_inv:
  assumes "svc_at g uuid l" and "svc_inv env uuid l w hs failed" and "length hs + failed < 2 ^ 64 - 3" and "call env g uuid w w' h f"
  shows "svc_inv env uuid l w' (case h of None \<Rightarrow> hs | Some s \<Rightarrow> s # hs) (failed + of_bool f)"
  using assms(2)
proof (cases rule: svc_inv_cases)
  case 1
  from call_unused [OF assms(1) 1(3) assms(4)] consider "w' = w" "h = None" "\<not> f"
    | s c d where "\<not> f" "h = Some s" "sc_uuid c = uuid" "svc_usage env l w' (Some (c, d, 1))" "handle_at l d s" "sc_pattern (sv_config s) = sc_pattern c" by blast
  then show ?thesis
  proof cases
    case (2 s c d)
    then show ?thesis using 1(1,2) svc_inv_used [of c uuid env l w' d "[s]" 0] by (simp del: svc_usage.simps)
  qed (use assms(2) in simp)
next
  case (2 c d)
  from call_used [OF assms(1) 2(3,2) assms(3,4)] consider "w' = w" "h = None" "\<not> f"
    | "svc_usage env l w' (Some (c, d, length hs + failed + 1))" "h = None" "f"
    | s where "svc_usage env l w' (Some (c, d, length hs + failed + 1))" "h = Some s" "\<not> f" "handle_at l d s" "sc_pattern (sv_config s) = sc_pattern c" by blast
  then show ?thesis
  proof cases
    case 1
    then show ?thesis using assms(2) by simp
  next
    case used: 2
    then show ?thesis using svc_inv_used [OF 2(2), of env l w' d hs "failed + 1"] 2(4) by (simp del: svc_usage.simps)
  next
    case (3 s)
    then show ?thesis using svc_inv_used [OF 2(2), of env l w' d "s # hs" failed] 2(4) by (simp del: svc_usage.simps)
  qed
qed

lemma run_inv:
  assumes "svc_run call env g uuid l w hs failed" and "svc_at g uuid l"
  shows "svc_inv env uuid l w hs failed"
  using assms(1)
proof induction
  case (svc_start w)
  then show ?case by (simp add: svc_inv_def)
next
  case (svc_call w hs failed w' h f)
  then show ?case using call_inv [OF assms(2)] by blast
next
  case (svc_drop w hs failed h w')
  then show ?case using svc_inv_drop [OF assms(2) svc_drop.IH svc_drop.hyps(2), where ?'e = unit] by auto
qed

lemma run_lifetime:
  assumes "svc_run call env g uuid l w hs failed" and "svc_at g uuid l"
  shows "(if hs = [] \<and> failed = 0 then svc_usage env l w None
          else \<exists>c d. svc_usage env l w (Some (c, d, length hs + failed)) \<and> (\<forall>h \<in> set hs. sc_pattern (sv_config h) = sc_pattern c))
       \<and> (\<forall>h \<in> set hs. \<exists>w'. service_drop h w = (Ok w' :: (unit, _) outcome))"
  using run_inv [OF assms]
proof (cases rule: svc_inv_cases)
  case (2 c d)
  have "\<not> (hs = [] \<and> failed = 0)" using 2(1) by blast
  then show ?thesis using 2(3,4) svc_inv_drop [OF assms(2) run_inv [OF assms], where ?'e = unit] by (simp only: if_False) blast
qed simp

end

section \<open>The users of a publish-subscribe service\<close>

definition ok_value :: "('e, 'a) outcome \<Rightarrow> 'a option" where
  "ok_value r = (case r of Ok v \<Rightarrow> Some v | _ \<Rightarrow> None)"

inductive ps_call :: "'i service_call" for env g uuid w w' where
  ps_creates: "builder_for g uuid b \<Longrightarrow> serializer_ok env (created_config b type_name) \<Longrightarrow> memory_ok env (adjust_ps (ps_details b))
    \<Longrightarrow> ps_create env type_name b w = (w', r) \<Longrightarrow> ps_call env g uuid w w' (ok_value r) False"
| ps_opens: "builder_for g uuid b \<Longrightarrow> ps_open env type_name True b [(w, t)] = Some (w', r)
    \<Longrightarrow> ps_call env g uuid w w' (ok_value r) (\<exists>e \<in> verify_errors. r = Err e)"

lemma created_uuid: "builder_for g uuid b \<Longrightarrow> sc_uuid (created_config b type_name) = uuid"
  by (auto simp: builder_for_def created_config_def)

lemma ps_call_unused:
  assumes "svc_at g uuid l" and "svc_usage env l w None" and "ps_call env g uuid w w' h f"
  shows "\<not> f \<and> (w' = w \<and> h = None \<or> (\<exists>s c d. h = Some s \<and> sc_uuid c = uuid \<and> svc_usage env l w' (Some (c, d, 1)) \<and> handle_at l d s \<and> sc_pattern (sv_config s) = sc_pattern c))"
  using assms(3)
proof cases
  case (ps_creates b type_name r)
  show ?thesis
  proof (cases "history_fits b")
    case True
    from create_ok [OF assms(1,2) ps_creates(3-5) True] ps_creates(6) obtain s where "r = Ok s" "svc_usage env l w' (Some (created_config b type_name, dr_next (w_dynamic w), 1))"
      "handle_at l (dr_next (w_dynamic w)) s" "sv_config s = created_config b type_name" by (auto simp del: svc_usage.simps)
    then show ?thesis using ps_creates(1,2) created_uuid [OF ps_creates(3), of type_name] by (auto simp: ok_value_def simp del: svc_usage.simps)
  next
    case False
    then show ?thesis using create_history [OF ps_creates(3), of env type_name w] ps_creates by (auto simp: ok_value_def)
  qed
next
  case (ps_opens b type_name t r)
  then show ?thesis using open_none [OF assms(1,2) ps_opens(3), of type_name t] by (auto simp: ok_value_def verify_errors_def)
qed

lemma ps_call_used:
  assumes "svc_at g uuid l" and "svc_usage env l w (Some (c, d, k))" and "sc_uuid c = uuid" and "k < 2 ^ 64 - 3" and "ps_call env g uuid w w' h f"
  shows "w' = w \<and> h = None \<and> \<not> f
      \<or> svc_usage env l w' (Some (c, d, k + 1)) \<and> (h = None \<and> f \<or> (\<exists>s. h = Some s \<and> \<not> f \<and> handle_at l d s \<and> sc_pattern (sv_config s) = sc_pattern c))"
  using assms(5)
proof cases
  case (ps_creates b type_name r)
  then show ?thesis using create_exists [OF assms(1-3) ps_creates(3), of type_name] by (auto simp: ok_value_def)
next
  case (ps_opens b type_name t r)
  from open_some [OF assms(1-3) ps_opens(3) assms(4) ps_opens(4)] ps_opens(1,2) show ?thesis
    by (auto simp: ok_value_def verify_errors_def simp del: svc_usage.simps)
qed

interpretation ps: service_client ps_call
  using ps_call_unused ps_call_used by unfold_locales

section \<open>Locations\<close>

lemma file_name_Ok:
  assumes "length v < FILENAME_LENGTH" and "\<not> invalid_characters FileName v" and "\<not> invalid_content FileName v"
  shows "\<exists>s. file_name_or_panic v = Ok s \<and> ss_valid FileName s \<and> cap s = FILENAME_LENGTH \<and> content s = v"
proof -
  obtain r where r: "ss_new FileName FILENAME_LENGTH v = (Ok r :: (unit, _) outcome)" "\<forall>s. r = Inr s \<longrightarrow> ss_valid FileName s \<and> cap s = FILENAME_LENGTH \<and> content s = v"
    "isl r \<longleftrightarrow> invalid_characters FileName v \<or> FILENAME_LENGTH < length v \<or> invalid_content FileName v"
    using file_name.new_valid [of FILENAME_LENGTH v, where ?'e = unit] assms(1) by (auto simp: FILENAME_LENGTH_def)
  then obtain s where "r = Inr s" using assms by (cases r) auto
  then show ?thesis using r by (simp add: file_name_or_panic_def)
qed

lemma path_Ok:
  assumes "length v < PATH_LENGTH" and "\<not> invalid_characters Path v"
  shows "\<exists>s. path_or_panic v = Ok s \<and> ss_valid Path s \<and> cap s = PATH_LENGTH \<and> content s = v"
proof -
  obtain r where r: "ss_new Path PATH_LENGTH v = (Ok r :: (unit, _) outcome)" "\<forall>s. r = Inr s \<longrightarrow> ss_valid Path s \<and> cap s = PATH_LENGTH \<and> content s = v"
    "isl r \<longleftrightarrow> invalid_characters Path v \<or> PATH_LENGTH < length v \<or> invalid_content Path v"
    using path.new_valid [of PATH_LENGTH v, where ?'e = unit] assms(1) by (auto simp: PATH_LENGTH_def)
  moreover have "\<not> invalid_content Path v" by (simp add: Path_def)
  ultimately obtain s where "r = Inr s" using assms by (cases r) auto
  then show ?thesis using r by (simp add: path_or_panic_def)
qed

lemma svc_at_exists:
  assumes "length uuid + length (g_static_config_storage_suffix g) < FILENAME_LENGTH" and "length uuid + length (g_dynamic_config_storage_suffix g) < FILENAME_LENGTH"
    and "\<forall>v \<in> {uuid, g_static_config_storage_suffix g, g_dynamic_config_storage_suffix g}. \<not> invalid_characters FileName v \<and> \<not> invalid_content FileName v"
    and "\<not> invalid_characters Path (g_root_path g)" and "\<not> invalid_characters Path (g_directory g)"
    and "length (g_root_path g) + length (g_directory g) + 1 + FILENAME_LENGTH \<le> PATH_LENGTH"
  shows "\<exists>l. svc_at g uuid l \<and> content (loc_name l) = uuid \<and> content (path_hint (loc_static l)) = g_root_path g @ g_directory g"
proof -
  have len: "length uuid < FILENAME_LENGTH" "length (g_static_config_storage_suffix g) < FILENAME_LENGTH" "length (g_dynamic_config_storage_suffix g) < FILENAME_LENGTH"
    using assms(1,2) by linarith+
  obtain n where n: "file_name_or_panic uuid = Ok n" "ss_valid FileName n" "content n = uuid" using file_name_Ok [OF len(1)] assms(3) by blast
  obtain x where x: "file_name_or_panic (g_static_config_storage_suffix g) = Ok x" "ss_valid FileName x" "cap x = FILENAME_LENGTH" "content x = g_static_config_storage_suffix g"
    using file_name_Ok [OF len(2)] assms(3) by blast
  obtain y where y: "file_name_or_panic (g_dynamic_config_storage_suffix g) = Ok y" "ss_valid FileName y" "cap y = FILENAME_LENGTH" "content y = g_dynamic_config_storage_suffix g"
    using file_name_Ok [OF len(3)] assms(3) by blast
  have "length (g_root_path g) < PATH_LENGTH" using assms(6) by (simp add: FILENAME_LENGTH_def)
  then obtain p where p: "path_or_panic (g_root_path g) = Ok p" "ss_valid Path p" "cap p = PATH_LENGTH" "content p = g_root_path g" using path_Ok assms(4) by blast
  have wp: "bs_wf p" "bs_wf n" "bs_wf x" "bs_wf y" using p n x y by (simp_all add: ss_valid_def)
  then have lp: "len p = length (g_root_path g)" using length_content [of p] p(4) by simp
  have "len p + length (g_directory g) \<le> cap p" "len p < cap p" using lp p(3) assms(6) by (simp_all add: FILENAME_LENGTH_def)
  from path_push_Ok [OF wp(1) assms(5) this, where ?'e = unit] obtain q where q: "ss_push_bytes Path p (g_directory g) = (Ok (q, Inr ()) :: (unit, _) outcome)" "bs_wf q" "cap q = PATH_LENGTH"
    "content q = g_root_path g @ g_directory g" using p(3,4) by auto
  have td: "length TEMP_DIRECTORY = 5" "\<not> invalid_characters Path TEMP_DIRECTORY" by (simp_all add: TEMP_DIRECTORY_def bytes_of_def Path_def path_character_def word_le_nat_alt)
  obtain t where t: "new_unchecked PATH_LENGTH TEMP_DIRECTORY = (Ok t :: (unit, _) outcome)" "bs_wf t" "cap t = PATH_LENGTH" "content t = TEMP_DIRECTORY"
    using new_unchecked_Ok [of TEMP_DIRECTORY PATH_LENGTH] td(1) by (auto simp: PATH_LENGTH_def)
  let ?l = "\<lparr>loc_static = \<lparr>suffix = x, path_hint = q\<rparr>, loc_dynamic = \<lparr>suffix = y, path_hint = t\<rparr>, loc_name = n\<rparr>"
  have "ss_valid Path q" "ss_valid Path t" using q t p(2,4) td(2) assms(5) by (auto simp: ss_valid_def Path_def)
  then have "config_valid (loc_static ?l)" "config_valid (loc_dynamic ?l)" using x y q(3) t(3) by (simp_all add: config_valid_def)
  moreover have "length (concept_key (loc_static ?l) (content n)) \<le> PATH_LENGTH" "length (concept_key (loc_dynamic ?l) (content n)) \<le> PATH_LENGTH"
    using assms(1,2,6) n(3) x(4) y(4) q(4) t(4) td(1) by (auto simp: concept_key_def join_path_def with_separator_def FILENAME_LENGTH_def PATH_LENGTH_def)
  moreover have "len n + len x < FILENAME_LENGTH" "len n + len y < FILENAME_LENGTH" using assms(1,2) length_content [OF wp(2)] length_content [OF wp(3)] length_content [OF wp(4)] n(3) x(4) y(4) by simp_all
  ultimately have "svc_at g uuid ?l" using n x y p(1) q(1) t(1)
    by (simp add: svc_at_def static_config_storage_config_def dynamic_config_storage_config_def ss_or_panic_def concept_ok_def)
  then show ?thesis using n(3) q(4) by (intro exI [of _ ?l]) simp
qed

lemma default_location: "\<exists>l. svc_at entries_default [48, 97] l \<and> content (loc_name l) = [48, 97] \<and> content (path_hint (loc_static l)) = bytes_of ''/tmp/services''"
proof -
  note valid = FileName_def Path_def path_character_def file_name_character_def word_le_nat_alt bytes_of_def
  have "\<forall>v \<in> {[48, 97], g_static_config_storage_suffix entries_default, g_dynamic_config_storage_suffix entries_default}.
      \<not> invalid_characters FileName v \<and> \<not> invalid_content FileName v"
    by (simp add: entries_default_def valid)
  moreover have "\<not> invalid_characters Path (g_root_path entries_default)" "\<not> invalid_characters Path (g_directory entries_default)" by (simp_all add: entries_default_def valid)
  moreover have "g_root_path entries_default @ g_directory entries_default = bytes_of ''/tmp/services''" by (simp add: entries_default_def bytes_of_def)
  ultimately show ?thesis using svc_at_exists [of "[48, 97]" entries_default] by (simp add: entries_default_def FILENAME_LENGTH_def PATH_LENGTH_def bytes_of_def)
qed

text \<open>A builder with the default settings, a serializer that knows one configuration, and an empty world.\<close>

definition example_builder :: ps_builder where
  "example_builder = pb_new \<lparr>sc_uuid = [48, 97], sc_service_name = [98], sc_pattern = PublishSubscribe (ps_static_new entries_default)\<rparr> entries_default"

definition example_env :: svc_env where
  "example_env = \<lparr>env_hash = (\<lambda>_. [48, 97]), env_serialize = (\<lambda>_. Some [1]), env_deserialize = (\<lambda>_. Some (created_config example_builder [117])),
     env_size_of_id = 16, env_align_of_id = 8, env_size_of_config = 400, env_address = Some 4096\<rparr>"

definition empty_world :: "'i world" where
  "empty_world = \<lparr>w_static = \<lparr>sr_lockable = True, sr_entries = []\<rparr>, w_dynamic = \<lparr>dr_lockable = True, dr_entries = [], dr_heap = undefined, dr_next = 0\<rparr>\<rparr>"

lemma example_builder_ok:
  "builder_for entries_default [48, 97] example_builder" "serializer_ok example_env (created_config example_builder [117])"
  "memory_ok example_env (adjust_ps (ps_details example_builder))" "history_fits example_builder"
proof -
  have d: "adjust_ps (ps_details example_builder) = ps_static_new entries_default"
    by (simp add: example_builder_def pb_new_def ps_details_def adjust_ps_def ps_static_new_def entries_default_def Let_def)
  let ?e = "ps_static_new entries_default"
  have c: "sc_max_subscribers ?e = 8" "sc_max_publishers ?e = 2" by (simp_all add: ps_static_new_def entries_default_def)
  have "psd_memory_size 16 8 \<lparr>number_of_subscribers = 8, number_of_publishers = 2\<rparr> = (Ok 238 :: (dynamic_create_error, _) outcome)"
    by (simp add: psd_memory_size_def mc_const_memory_size_def outcome_defs usize_lim_def)
  moreover have "env_align_of_id example_env = 2 ^ 3" "env_address example_env = Some 4096" "0 < env_size_of_id example_env"
    "env_size_of_id example_env = 16" "env_align_of_id example_env = 8" "4096 + env_size_of_config example_env + 238 + 8 + 4 < usize_lim"
    by (simp_all add: example_env_def usize_lim_def)
  ultimately show "memory_ok example_env (adjust_ps (ps_details example_builder))" unfolding d memory_ok_def c
    by (intro conjI exI [of _ 3] exI [of _ 238] exI [of _ 4096]) simp_all
  show "history_fits example_builder" unfolding history_fits_def d by (simp add: ps_static_new_def entries_default_def)
  show "builder_for entries_default [48, 97] example_builder" by (simp add: builder_for_def example_builder_def pb_new_def)
  show "serializer_ok example_env (created_config example_builder [117])" by (simp add: serializer_ok_def example_env_def)
qed

lemma example_created:
  assumes "svc_at entries_default [48, 97] l"
  shows "\<exists>(w :: 'i world) h. ps_call example_env entries_default [48, 97] empty_world w (Some h) False \<and> svc_usage example_env l w (Some (created_config example_builder [117], 0, 1))"
proof -
  have e: "svc_usage example_env l (empty_world :: 'i world) None" by (simp add: empty_world_def)
  from create_ok [OF assms e example_builder_ok] obtain w h where r: "ps_create example_env [117] example_builder (empty_world :: 'i world) = (w, Ok h)"
    "svc_usage example_env l w (Some (created_config example_builder [117], 0, 1))" by (auto simp: empty_world_def simp del: svc_usage.simps)
  have "ps_call example_env entries_default [48, 97] empty_world w (ok_value (Ok h :: (ps_create_error, _) outcome)) False"
    by (rule ps_creates [OF example_builder_ok(1-3) r(1)])
  then show ?thesis using r(2) by (auto simp: ok_value_def simp del: svc_usage.simps)
qed

section \<open>Failures\<close>

text \<open>Which services a builder accepts: those that offer at least what it asks for, for every setting that was given explicitly. For the
  overflow behaviour the comparison is the wrong way round: a builder that asks for safe overflow accepts exactly the services without it, and is
  refused by those that have it.\<close>

theorem verified_properties:
  assumes "builder_for g uuid b" and "sc_pattern existing = PublishSubscribe e"
  shows "ps_verify_service_properties b existing = Ok e \<longleftrightarrow>
     (pb_verify_number_of_publishers b \<longrightarrow> sc_max_publishers (ps_details b) \<le> sc_max_publishers e)
   \<and> (pb_verify_number_of_subscribers b \<longrightarrow> sc_max_subscribers (ps_details b) \<le> sc_max_subscribers e)
   \<and> (pb_verify_subscriber_buffer_size b \<longrightarrow> sc_buffer_size (ps_details b) \<le> sc_buffer_size e)
   \<and> (pb_verify_publisher_history_size b \<longrightarrow> sc_history_size (ps_details b) \<le> sc_history_size e)
   \<and> (pb_verify_subscriber_max_borrowed_samples b \<longrightarrow> sc_max_borrowed (ps_details b) \<le> sc_max_borrowed e)
   \<and> (pb_verify_enable_safe_overflow b \<longrightarrow> sc_safe_overflow e \<noteq> sc_safe_overflow (ps_details b))"
proof -
  have "config_details b = (Ok (ps_details b) :: (ps_open_error, _) outcome)"
    using assms(1) by (auto simp: builder_for_def config_details_def sc_publish_subscribe_def ps_details_def)
  then show ?thesis using assms(2) by (simp add: ps_verify_service_properties_def not_less)
qed

theorem verified_properties_witness:
  "\<exists>b. pb_enable_safe_overflow True example_builder = (Ok b :: (unit, _) outcome)
     \<and> sc_safe_overflow (ps_static_new entries_default)
     \<and> ps_verify_service_properties b (created_config example_builder [117]) \<noteq> Ok ((adjust_ps (ps_details example_builder))\<lparr>sc_type_name := [117]\<rparr>)"
proof -
  let ?v = "(ps_static_new entries_default)\<lparr>sc_safe_overflow := True\<rparr>"
  let ?b = "example_builder\<lparr>pb_config := (pb_config example_builder)\<lparr>sc_pattern := PublishSubscribe ?v\<rparr>, pb_verify_enable_safe_overflow := True\<rparr>"
  let ?e = "(adjust_ps (ps_details example_builder))\<lparr>sc_type_name := [117]\<rparr>"
  have b: "pb_enable_safe_overflow True example_builder = (Ok ?b :: (unit, _) outcome)"
    by (simp add: pb_enable_safe_overflow_def config_details_mut_def example_builder_def pb_new_def)
  have f: "builder_for entries_default [48, 97] ?b" by (simp add: builder_for_def example_builder_def pb_new_def)
  have e: "sc_pattern (created_config example_builder [117]) = PublishSubscribe ?e" by (simp add: created_config_def)
  have "sc_safe_overflow ?e" "sc_safe_overflow (ps_details ?b)" "pb_verify_enable_safe_overflow ?b" "sc_safe_overflow (ps_static_new entries_default)"
    by (simp_all add: ps_details_def example_builder_def pb_new_def adjust_ps_def ps_static_new_def entries_default_def Let_def)
  then have "ps_verify_service_properties ?b (created_config example_builder [117]) \<noteq> Ok ?e" using verified_properties [OF f e] by simp
  then show ?thesis using b \<open>sc_safe_overflow (ps_static_new entries_default)\<close> by blast
qed

lemma available_locked:
  assumes "svc_at g uuid l" and "sr_lockable (w_static w)" and "map_of (sr_entries (w_static w)) (skey l) = Some v" and "is_locked v" and "sc_uuid config = uuid"
  shows "is_service_available env config g w = Err IsBeingCreatedByAnotherInstance"
  using assms by (simp add: svc_paths [OF assms(1)] svc_at_def is_service_available_def static_does_exist_cfg_def)

text \<open>A service that is being created: its description is there and locked.\<close>

definition being_created :: "location \<Rightarrow> 'i world \<Rightarrow> bool" where
  "being_created l w \<longleftrightarrow> sr_lockable (w_static w) \<and> (\<exists>v. map_of (sr_entries (w_static w)) (skey l) = Some v \<and> is_locked v)"

lemma being_created_state:
  assumes "svc_at g uuid l" and "builder_for g uuid b" and "being_created l w"
  shows "ps_is_service_available env (typed type_name b) w = Err (PsServiceState IsBeingCreatedByAnotherInstance)"
proof -
  obtain v where v: "sr_lockable (w_static w)" "map_of (sr_entries (w_static w)) (skey l) = Some v" "is_locked v" using assms(3) by (auto simp: being_created_def)
  show ?thesis using available_locked [OF assms(1) v typed_details(4) [OF assms(2)]] typed_details(3) [OF assms(2)] by (simp add: ps_is_service_available_def)
qed

lemma open_loop_settled: "ps_open_loop env b [x] = Some r \<Longrightarrow> ps_open_loop env b (x # rest) = Some r"
  by (cases x) (auto split: outcome.splits option.splits ps_availability.splits service_state.splits if_splits)

lemma open_skips:
  assumes "svc_at g uuid l" and "builder_for g uuid b" and "\<forall>(v, t) \<in> set before. being_created l v \<and> (\<exists>d \<le> g_creation_timeout g. t = Some d)"
  shows "ps_open env type_name True b before = None"
    and "ps_open env type_name True b [x] = Some r \<Longrightarrow> ps_open env type_name True b (before @ x # rest) = Some r"
proof -
  note ty = typed_details [OF assms(2)]
  have skip: "ps_open_loop env (typed type_name b) (before @ rest) = ps_open_loop env (typed type_name b) rest" for rest
    using assms(3) by (induction before) (auto simp: being_created_state [OF assms(1,2)] ty(3))
  have loop: "ps_open env type_name True b obs = ps_open_loop env (typed type_name b) obs" for obs :: "('a world \<times> nat option) list"
    by (cases obs) (auto simp: ps_open_def ty(1))
  show "ps_open env type_name True b before = None" using skip [of "[]"] by (simp add: loop)
  show "ps_open env type_name True b (before @ x # rest) = Some r" if "ps_open env type_name True b [x] = Some r"
    using that open_loop_settled by (simp add: loop skip)
qed

lemma open_existing_returns:
  assumes "svc_at g uuid l" and "svc_usage env l w (Some (c, d, k))" and "sc_uuid c = uuid" and "builder_for g uuid b"
  shows "\<exists>w' r. ps_open env type_name True b [(w, t)] = Some (w', r)"
proof -
  note ty = typed_details [OF assms(4)]
  show ?thesis
  proof (cases "has_same_messaging_pattern c (pb_config (typed type_name b))")
    case True
    then obtain e where e: "sc_pattern c = PublishSubscribe e" by (cases "sc_pattern c") (auto simp: has_same_messaging_pattern_def typed_def)
    obtain st where "is_service_available env (pb_config (typed type_name b)) g w = Ok (Some (c, st))" using available_some [OF assms(1,2) ty(4) assms(3) True] by blast
    then have "ps_is_service_available env (typed type_name b) w = (if sc_type_name e = type_name then Ok (Some (c, st)) else Err PsTypesDiffer)"
      using e by (simp add: ty ps_is_service_available_def sc_publish_subscribe_def)
    then show ?thesis by (cases "ps_open_existing (typed type_name b) c st w") (simp add: ps_open_def ty(1))
  next
    case False
    show ?thesis using available_other [OF assms(1,2) ty(4) assms(3) False] by (simp add: ps_open_def ty ps_is_service_available_def)
  qed
qed



end
