(* ===== verification/ServiceFailures.thy ===== *)
theory ServiceFailures
  imports ServiceLifetime
begin

text \<open>
  What goes wrong with services: listing the services removes their descriptions, and a creation that fails half way blocks the name of the service.
\<close>

section \<open>Listing removes the descriptions\<close>

lemma concept_ok_content: "concept_ok cfg n \<Longrightarrow> bs_wf x \<Longrightarrow> content x = content n \<Longrightarrow> concept_ok cfg x"
  using length_content [of x] length_content [of n] by (auto simp: concept_ok_def ss_valid_def)

lemma list_services_removes:
  assumes "\<forall>n \<in> set names. concept_ok cfg n" and "sr_lockable r"
  shows "\<exists>r' cs. list_services env cfg names r = (Ok (r', cs) :: ('e, _) outcome)
    \<and> (\<forall>k. map_of (sr_entries r') k = (if k \<in> (\<lambda>n. concept_key cfg (content n)) ` set names \<and> (\<forall>v. map_of (sr_entries r) k = Some v \<longrightarrow> \<not> is_locked v)
        then None else map_of (sr_entries r) k))"
  using assms
proof (induction names arbitrary: r)
  case (Cons n names)
  let ?k = "concept_key cfg (content n)"
  have ok: "concept_ok cfg n" and okn: "\<forall>n \<in> set names. concept_ok cfg n" using Cons.prems by simp_all
  then have wf: "bs_wf n" by (simp add: concept_ok_def ss_valid_def)
  show ?case
  proof (cases "\<exists>v. map_of (sr_entries r) ?k = Some v \<and> \<not> is_locked v")
    case False
    then have "\<exists>e. static_builder_open \<lparr>sb_name = n, sb_ownership = True, sb_config = cfg\<rparr> r = Err e"
      using Cons.prems(2) by (cases "map_of (sr_entries r) ?k") (simp_all add: static_builder_open_def concept_path_Ok [OF ok])
    then have step: "list_services env cfg (n # names) r = (list_services env cfg names r :: ('e, _) outcome)" by auto
    have "map_of (sr_entries r) ?k = None \<or> (\<exists>v. map_of (sr_entries r) ?k = Some v \<and> is_locked v)" using False by (cases "map_of (sr_entries r) ?k") auto
    then show ?thesis using Cons.IH [OF okn Cons.prems(2)] unfolding step by (elim exE conjE) (intro exI conjI, assumption, auto)
  next
    case True
    then obtain v where v: "map_of (sr_entries r) ?k = Some v" "\<not> is_locked v" by blast
    let ?reader = "\<lparr>st_name = n, st_ownership = True, st_config = cfg, st_content = v\<rparr>"
    let ?r = "r\<lparr>sr_entries := AList.delete ?k (sr_entries r)\<rparr>"
    have op: "static_builder_open \<lparr>sb_name = n, sb_ownership = True, sb_config = cfg\<rparr> r = Ok ?reader"
      using Cons.prems(2) v by (simp add: static_builder_open_def concept_path_Ok [OF ok])
    have dr: "static_drop ?reader r = (Ok ?r :: ('e, _) outcome)" using Cons.prems(2) by (simp add: static_drop_def static_remove_cfg_def concept_path_Ok [OF ok])
    from Cons.IH [OF okn, of ?r] Cons.prems(2) obtain r' cs where r': "list_services env cfg names ?r = (Ok (r', cs) :: ('e, _) outcome)"
      "\<forall>k. map_of (sr_entries r') k = (if k \<in> (\<lambda>n. concept_key cfg (content n)) ` set names \<and> (\<forall>v. map_of (sr_entries ?r) k = Some v \<longrightarrow> \<not> is_locked v)
        then None else map_of (sr_entries ?r) k)" by auto
    have "\<exists>cs'. list_services env cfg (n # names) r = (Ok (r', cs') :: ('e, _) outcome)" by (simp add: op dr as_bytes_content [OF wf] r'(1) Let_def)
    moreover have "map_of (sr_entries r') k = (if k \<in> (\<lambda>n. concept_key cfg (content n)) ` set (n # names) \<and> (\<forall>v. map_of (sr_entries r) k = Some v \<longrightarrow> \<not> is_locked v)
        then None else map_of (sr_entries r) k)" for k
      using r'(2) [rule_format, of k] v by (cases "k = ?k") (auto simp: delete_conv')
    ultimately show ?thesis by blast
  qed
qed simp

text \<open>C31: \<^verbatim>\<open>Service::list\<close> is destructive, or finds nothing. The static storages that it opens own what they read. For a configuration whose directory ends with a separator, and a
  registry with the descriptions of that configuration, a call of it removes the description of every service that is not being created, while those that are being created, and
  the dynamic configurations with their users, stay. For a directory without the separator, as in the default configuration, it returns no service and changes nothing.\<close>

theorem listing_removes_descriptions:
  assumes "static_config_storage_config g = Ok cfg" and "sr_lockable (w_static w)"
    and "map fst (sr_entries (w_static w)) = map (\<lambda>n. concept_key cfg (content n)) names" and "\<forall>n \<in> set names. concept_ok cfg n"
  shows "\<exists>w' cs. list_from_config env g w = (Ok (w', cs) :: (unit, _) outcome) \<and> w_dynamic w' = w_dynamic w
    \<and> (if with_separator (content (path_hint cfg)) = content (path_hint cfg)
       then \<forall>k. map_of (sr_entries (w_static w')) k =
         (case map_of (sr_entries (w_static w)) k of None \<Rightarrow> None | Some v \<Rightarrow> if is_locked v then Some v else None)
       else cs = [] \<and> w' = w)"
proof (cases "with_separator (content (path_hint cfg)) = content (path_hint cfg)")
  case True
  obtain result where res: "list_names cfg (map (\<lambda>n. concept_key cfg (content n)) names) = (Ok result :: (unit, _) outcome)"
    "map content result = map content names" "\<forall>x \<in> set result. bs_wf x" using list_names_all [OF True assms(4), where ?'e = unit] by blast
  have c: "content ` set result = content ` set names" using res(2) by (metis set_map)
  then have ok: "\<forall>x \<in> set result. concept_ok cfg x" using assms(4) res(3) concept_ok_content by (metis imageE imageI)
  have "(\<lambda>n. concept_key cfg (content n)) ` set result = set (map fst (sr_entries (w_static w)))" unfolding assms(3) using c by (metis image_image set_map)
  then have none: "k \<notin> (\<lambda>n. concept_key cfg (content n)) ` set result \<Longrightarrow> map_of (sr_entries (w_static w)) k = None" for k by (simp add: map_of_eq_None_iff)
  obtain r' cs where r: "list_services env cfg result (w_static w) = (Ok (r', cs) :: (unit, _) outcome)"
    "\<forall>k. map_of (sr_entries r') k = (if k \<in> (\<lambda>n. concept_key cfg (content n)) ` set result \<and> (\<forall>v. map_of (sr_entries (w_static w)) k = Some v \<longrightarrow> \<not> is_locked v)
        then None else map_of (sr_entries (w_static w)) k)" using list_services_removes [OF ok assms(2), of env, where ?'e = unit] by blast
  have "map_of (sr_entries r') k = (case map_of (sr_entries (w_static w)) k of None \<Rightarrow> None | Some v \<Rightarrow> if is_locked v then Some v else None)" for k
    unfolding r(2) [rule_format] using none [of k]
    by (cases "k \<in> (\<lambda>n. concept_key cfg (content n)) ` set result") (simp_all split: option.splits)
  moreover have "list_from_config env g w = (Ok (w\<lparr>w_static := r'\<rparr>, cs) :: (unit, _) outcome)"
    using assms(1-3) res(1) r(1) by (simp add: list_from_config_def static_list_cfg_def panic_on_err_def)
  ultimately show ?thesis using True by simp
next
  case False
  have "list_names cfg (map fst (sr_entries (w_static w))) = (Ok [] :: (unit, _) outcome)"
  proof (cases names)
    case Nil
    then show ?thesis by (simp add: assms(3))
  next
    case (Cons n ns)
    then have "bs_wf (path_hint cfg)" using assms(4) by (simp add: concept_ok_def config_valid_def ss_valid_def)
    moreover have "\<forall>k \<in> set (map fst (sr_entries (w_static w))). length k \<le> PATH_LENGTH" unfolding assms(3) using assms(4) by (auto simp: concept_ok_def)
    ultimately show ?thesis using list_names_none [OF _ False] by blast
  qed
  then have "list_from_config env g w = (Ok (w, []) :: (unit, _) outcome)"
    using assms(1,2) by (simp add: list_from_config_def static_list_cfg_def panic_on_err_def)
  then show ?thesis using False by simp
qed

theorem listing_removes_descriptions_witness:
  "\<exists>g l (w :: nat world) w' cs. svc_at g [48, 97] l \<and> map_of (sr_entries (w_static w)) (skey l) = Some \<lparr>is_locked = False, content_value = [1]\<rparr>
    \<and> list_from_config example_env g w = (Ok (w', cs) :: (unit, _) outcome) \<and> map_of (sr_entries (w_static w')) (skey l) = None"
proof -
  let ?g = "entries_default\<lparr>g_directory := bytes_of ''services/''\<rparr>"
  note valid = FileName_def Path_def path_character_def file_name_character_def word_le_nat_alt bytes_of_def
  have "\<forall>v \<in> {[48, 97], g_static_config_storage_suffix ?g, g_dynamic_config_storage_suffix ?g}. \<not> invalid_characters FileName v \<and> \<not> invalid_content FileName v"
    by (simp add: entries_default_def valid)
  moreover have "\<not> invalid_characters Path (g_root_path ?g)" "\<not> invalid_characters Path (g_directory ?g)" by (simp_all add: entries_default_def valid)
  ultimately obtain l where l: "svc_at ?g [48, 97] l" "content (loc_name l) = [48, 97]" "content (path_hint (loc_static l)) = g_root_path ?g @ g_directory ?g"
    using svc_at_exists [of "[48, 97]" ?g] by (auto simp: entries_default_def FILENAME_LENGTH_def PATH_LENGTH_def bytes_of_def)
  let ?w = "(empty_world :: nat world)\<lparr>w_static := \<lparr>sr_lockable = True, sr_entries = [(skey l, \<lparr>is_locked = False, content_value = [1]\<rparr>)]\<rparr>\<rparr>"
  have "with_separator (content (path_hint (loc_static l))) = content (path_hint (loc_static l))" unfolding l(3)
    by (simp add: with_separator_def entries_default_def bytes_of_def PATH_SEPARATOR_def)
  moreover have "static_config_storage_config ?g = Ok (loc_static l)" "concept_ok (loc_static l) (loc_name l)" using l(1) by (simp_all add: svc_at_def)
  ultimately have "\<exists>w' cs. list_from_config example_env ?g ?w = (Ok (w', cs) :: (unit, _) outcome) \<and> map_of (sr_entries (w_static w')) (skey l) = None"
    using listing_removes_descriptions [of ?g "loc_static l" ?w "[loc_name l]" example_env] by auto
  moreover have "map_of (sr_entries (w_static ?w)) (skey l) = Some \<lparr>is_locked = False, content_value = [1]\<rparr>" by simp
  ultimately show ?thesis using l(1) by blast
qed

section \<open>A creation that fails\<close>

text \<open>A creation that fails after the description was reserved blocks the service. When the dynamic configuration of an earlier service with that name still
  exists, \<^verbatim>\<open>create\<close> fails with an internal failure and leaves the locked description behind; from then on every \<^verbatim>\<open>create\<close> reports that another
  instance is creating the service, and every \<^verbatim>\<open>open\<close> waits for the whole timeout in vain.\<close>

theorem failed_creation_blocks_service:
  assumes "svc_at g uuid l" and "sr_lockable (w_static w)" and "dr_lockable (w_dynamic w)"
    and "map_of (sr_entries (w_static w)) (skey l) = None" and "map_of (dr_entries (w_dynamic w)) (dkey l) = Some d"
    and "builder_for g uuid b" and "history_fits b" and "memory_ok env (adjust_ps (ps_details b))"
  shows "\<exists>w'. ps_create env type_name b w = (w', Err PsCreateInternalFailure)
    \<and> (\<forall>b' type_name'. builder_for g uuid b' \<and> history_fits b' \<longrightarrow> ps_create env type_name' b' w' = (w', Err PsIsBeingCreatedByAnotherInstance))
    \<and> (\<forall>b' type_name' t. builder_for g uuid b' \<and> g_creation_timeout g < t \<longrightarrow> ps_open env type_name' True b' [(w', Some t)] = Some (w', Err PsHangsInCreation))"
proof -
  let ?lc = "\<lparr>is_locked = True, content_value = []\<rparr>" and ?b = "b\<lparr>pb_config := created_config b type_name\<rparr>"
  let ?w' = "w\<lparr>w_static := (w_static w)\<lparr>sr_entries := AList.update (skey l) ?lc (sr_entries (w_static w))\<rparr>\<rparr>"
  have gb: "pb_global b = g" and u: "sc_uuid (created_config b type_name) = uuid" using assms(6) created_uuid by (auto simp: builder_for_def)
  have "is_service_available env (created_config b type_name) g w = Ok None"
    using assms(1,2,4) u by (simp add: svc_paths [OF assms(1)] svc_at_def is_service_available_def static_does_exist_cfg_def)
  then have avail: "ps_is_service_available env ?b w = Ok None" using gb by (simp add: ps_is_service_available_def)
  have st: "create_static_config_storage (created_config b type_name) g w
      = Ok (?w', \<lparr>st_name = loc_name l, st_ownership = False, st_config = loc_static l, st_content = ?lc\<rparr>)"
    using assms(1,2,4) u by (simp add: create_static_config_storage_def static_config_storage_name_def svc_at_def create_locked_def svc_paths [OF assms(1)] Let_def)
  have dy: "create_dynamic_config_storage env (created_config b type_name) g p size ?w' = Err DynamicAlreadyExists" for p size
    using assms(1,3,5) u by (simp add: create_dynamic_config_storage_def dynamic_config_storage_name_def svc_at_def create_and_initialize_def svc_paths [OF assms(1)])
  have det: "config_details ?b = (Ok ((adjust_ps (ps_details b))\<lparr>sc_type_name := type_name\<rparr>) :: (dynamic_create_error, _) outcome)"
    by (simp add: config_details_def sc_publish_subscribe_def created_config_def)
  obtain m where m: "psd_memory_size (env_size_of_id env) (env_align_of_id env) \<lparr>number_of_subscribers = sc_max_subscribers (adjust_ps (ps_details b)),
      number_of_publishers = sc_max_publishers (adjust_ps (ps_details b))\<rparr> = (Ok m :: (dynamic_create_error, _) outcome)"
    using assms(8) by (auto simp: memory_ok_def)
  have "ps_create_new env ?b w = (?w', Err PsCreateInternalFailure)"
    using st dy m gb by (simp add: ps_create_new_def det)
  then have 1: "ps_create env type_name b w = (?w', Err PsCreateInternalFailure)" using create_start [OF assms(6,7), of env type_name w] avail by simp
  have lk: "is_service_available env config g ?w' = Err IsBeingCreatedByAnotherInstance" if "sc_uuid config = uuid" for config
    using available_locked [OF assms(1), of ?w' ?lc config] assms(2) that by simp
  have 2: "ps_create env type_name' b' ?w' = (?w', Err PsIsBeingCreatedByAnotherInstance)" if b': "builder_for g uuid b'" "history_fits b'" for b' type_name'
  proof -
    have "pb_global b' = g" using b' by (simp add: builder_for_def)
    then have "ps_is_service_available env (b'\<lparr>pb_config := created_config b' type_name'\<rparr>) ?w' = Err (PsServiceState IsBeingCreatedByAnotherInstance)"
      using lk [OF created_uuid [OF b'(1)]] by (simp add: ps_is_service_available_def)
    then show ?thesis using create_start [OF b', of env type_name' ?w'] by simp
  qed
  have 3: "ps_open env type_name' True b' [(?w', Some t)] = Some (?w', Err PsHangsInCreation)" if b': "builder_for g uuid b'" "g_creation_timeout g < t" for b' type_name' t
    using lk [OF typed_details(4) [OF b'(1)]] b'(2) by (simp add: ps_open_def typed_details [OF b'(1)] ps_is_service_available_def)
  show ?thesis using 1 2 3 by blast
qed

theorem failed_creation_blocks_service_witness:
  "\<exists>l (w :: nat world) w'. svc_at entries_default [48, 97] l \<and> ps_create example_env [117] example_builder w = (w', Err PsCreateInternalFailure)
    \<and> ps_create example_env [117] example_builder w' = (w', Err PsIsBeingCreatedByAnotherInstance)"
proof -
  obtain l where l: "svc_at entries_default [48, 97] l" using default_location by blast
  let ?w = "(empty_world :: nat world)\<lparr>w_dynamic := (w_dynamic empty_world)\<lparr>dr_entries := [(dkey l, 0)]\<rparr>\<rparr>"
  have w: "sr_lockable (w_static ?w)" "dr_lockable (w_dynamic ?w)" "map_of (sr_entries (w_static ?w)) (skey l) = None" "map_of (dr_entries (w_dynamic ?w)) (dkey l) = Some 0"
    by (simp_all add: empty_world_def)
  from failed_creation_blocks_service [OF l w example_builder_ok(1,4,3), of "[117]"] l example_builder_ok(1,4) show ?thesis by blast
qed

end
