(* ===== verification/ReferenceCounter.thy ===== *)
theory ReferenceCounter
  imports Prelude
begin

unbundle bit_operations_syntax

text \<open>
  \<^verbatim>\<open>reference_counter.rs\<close> and \<^verbatim>\<open>decision_counter.rs\<close> of \<^verbatim>\<open>elkodon_cal/src/shared_memory_directory\<close>: the two atomic words that every file of a
  shared memory directory has.

  The methods of the reference counter share one shape: load the word, compute from it either the result or a new word and the
  result, try to exchange the word, and start again with the word that was found when this fails. \<open>exchange_body\<close> is what
  a round computes, and \<open>exchange_step\<close> the loop with one access to the word per step. By \<open>exchange_step_atomic\<close> a loop takes effect at once, so
  \<open>exchange_call\<close>, the body on the current word, stands for a whole call.
\<close>

section \<open>Reference counter\<close>

record counter_details =
  reference_counter :: u64
  is_initialized :: bool
  is_persistent :: bool
  to_be_removed :: bool

definition details_new :: "u64 \<Rightarrow> counter_details" where
  "details_new v =
     \<lparr>reference_counter = drop_bit 3 (push_bit 3 v), is_initialized = (drop_bit 63 (push_bit 1 v) = 1),
      is_persistent = (drop_bit 63 v = 1), to_be_removed = (drop_bit 63 (push_bit 2 v) = 1)\<rparr>"

definition compact_value :: "counter_details \<Rightarrow> u64" where
  "compact_value d =
     push_bit 63 (of_bool (is_persistent d)) OR push_bit 62 (of_bool (is_initialized d)) OR push_bit 61 (of_bool (to_be_removed d))
       OR drop_bit 3 (push_bit 3 (reference_counter d))"

datatype 'r exchange_body = Return 'r | Exchange u64 'r | BodyPanic

datatype 'r exchange_pc = ExLoad | ExTry u64 | ExDone 'r | ExPanic

definition exchange_next :: "(u64 \<Rightarrow> 'r exchange_body) \<Rightarrow> u64 \<Rightarrow> 'r exchange_pc" where
  "exchange_next body v = (case body v of Return r \<Rightarrow> ExDone r | Exchange w r \<Rightarrow> ExTry v | BodyPanic \<Rightarrow> ExPanic)"

fun exchange_step :: "(u64 \<Rightarrow> 'r exchange_body) \<Rightarrow> u64 \<Rightarrow> 'r exchange_pc \<Rightarrow> u64 \<times> 'r exchange_pc" where
  "exchange_step body s ExLoad = (s, exchange_next body s)"
| "exchange_step body s (ExTry current_value) =
     (if s = current_value then (case body current_value of Exchange w r \<Rightarrow> (w, ExDone r) | _ \<Rightarrow> (s, ExPanic))
      else (s, exchange_next body s))"
| "exchange_step body s pc = (s, pc)"

definition exchange_call :: "(u64 \<Rightarrow> 'r exchange_body) \<Rightarrow> u64 \<Rightarrow> ('e, u64 \<times> 'r) outcome" where
  "exchange_call body v = (case body v of Return r \<Rightarrow> Ok (v, r) | Exchange w r \<Rightarrow> Ok (w, r) | BodyPanic \<Rightarrow> Panic)"

text \<open>A step that ends a call is the whole call on the word that it finds, and all other steps leave the word alone.\<close>

lemma exchange_step_atomic:
  assumes "exchange_step body s pc = (s', pc')" and "pc \<in> {ExLoad} \<union> range ExTry"
  shows "(\<exists>r. pc' = ExDone r \<and> exchange_call body s = Ok (s', r)) \<or> s' = s \<and> (pc' \<in> range ExTry \<or> pc' = ExPanic)"
  using assms
  by (cases pc) (auto simp: exchange_next_def exchange_call_def split: exchange_body.splits if_splits)

text \<open>The counter has 61 bits: adding to it never overflows the word.\<close>

definition increment_ref_counter :: "u64 \<Rightarrow> u64 exchange_body" where
  "increment_ref_counter v =
     (let details = details_new v in Exchange (compact_value (details\<lparr>reference_counter := reference_counter details + 1\<rparr>)) v)"

definition increment_ref_counter_when_initialized :: "u64 \<Rightarrow> bool exchange_body" where
  "increment_ref_counter_when_initialized v =
     (let details = details_new v in
        if \<not> (\<not> to_be_removed details \<and> is_initialized details \<and> (reference_counter details > 0 \<or> is_persistent details)) then Return False
        else Exchange (compact_value (details\<lparr>reference_counter := reference_counter details + 1\<rparr>)) True)"

definition increment_ref_counter_when_exist :: "u64 \<Rightarrow> bool exchange_body" where
  "increment_ref_counter_when_exist v =
     (let details = details_new v in
        if \<not> (\<not> to_be_removed details \<and> (reference_counter details > 0 \<or> is_persistent details)) then Return False
        else Exchange (compact_value (details\<lparr>reference_counter := reference_counter details + 1\<rparr>)) True)"

definition decrement_ref_counter :: "u64 \<Rightarrow> bool exchange_body" where
  "decrement_ref_counter v =
     (let details = details_new v in
        if reference_counter details = 0 then BodyPanic
        else let count = reference_counter details - 1
             in Exchange (compact_value (details\<lparr>reference_counter := count\<rparr>)) (count = 0 \<and> \<not> is_persistent details))"

definition set_initialized_bit :: "bool \<Rightarrow> u64 \<Rightarrow> unit exchange_body" where
  "set_initialized_bit is_set v =
     (let details = details_new v in
        if is_initialized details = is_set then Return () else Exchange (compact_value (details\<lparr>is_initialized := is_set\<rparr>)) ())"

definition mark_to_be_removed :: "u64 \<Rightarrow> unit exchange_body" where
  "mark_to_be_removed v =
     (let details = details_new v in
        if to_be_removed details then Return () else Exchange (compact_value (details\<lparr>to_be_removed := True\<rparr>)) ())"

definition set_persistency_bit :: "bool \<Rightarrow> u64 \<Rightarrow> unit exchange_body" where
  "set_persistency_bit is_set v =
     (let details = details_new v in
        if is_persistent details = is_set then Return () else Exchange (compact_value (details\<lparr>is_persistent := is_set\<rparr>)) ())"

section \<open>Decision counter\<close>

definition UNDECIDED :: u64 where "UNDECIDED = - 1"
definition LOST :: u64 where "LOST = - 1"

definition decision_set :: "u64 \<Rightarrow> u64 \<Rightarrow> u64 \<times> bool" where
  "decision_set v new_value = (if v = UNDECIDED then (new_value, True) else (v, False))"

text \<open>The load and the exchange of \<^verbatim>\<open>does_value_win\<close> as one access: when the exchange fails, the comparison uses the word that it found.\<close>

definition does_value_win :: "u64 \<Rightarrow> u64 \<Rightarrow> u64 \<times> bool" where
  "does_value_win v competing_value = (if v = UNDECIDED then (LOST, True) else (v, competing_value < v))"

text \<open>The two marks are the same word: a file that is marked as lost stays undecided.\<close>

lemma does_value_win_eq: "does_value_win v competing_value = (v, v = UNDECIDED \<or> competing_value < v)"
  by (auto simp: does_value_win_def UNDECIDED_def LOST_def)

section \<open>Packing\<close>

lemma top_bit: "drop_bit 63 (push_bit k v) = 1 \<longleftrightarrow> bit v (63 - k)" if "k \<le> 63" for v :: u64
proof -
  have "drop_bit 63 (push_bit k v) = of_bool (bit v (63 - k))"
    by (rule bit_word_eqI) (use that in \<open>auto simp: bit_simps\<close>)
  then show ?thesis by simp
qed

lemma low_bits: "drop_bit 3 (push_bit 3 v) = take_bit 61 v" for v :: u64
  by (rule bit_word_eqI) (auto simp: bit_simps)

lemma details_new_bits:
  "details_new v = \<lparr>reference_counter = take_bit 61 v, is_initialized = bit v 62, is_persistent = bit v 63, to_be_removed = bit v 61\<rparr>"
  using top_bit [of 0 v] top_bit [of 1 v] top_bit [of 2 v] unfolding details_new_def low_bits by simp

lemma compact_value_bits:
  "bit (compact_value d) n \<longleftrightarrow>
     n = 63 \<and> is_persistent d \<or> n = 62 \<and> is_initialized d \<or> n = 61 \<and> to_be_removed d \<or> n < 61 \<and> bit (reference_counter d) n"
  unfolding compact_value_def low_bits by (auto simp: bit_simps)

lemma details_compact:
  assumes "unat (reference_counter d) < 2 ^ 61"
  shows "details_new (compact_value d) = d"
proof -
  have "take_bit 61 (compact_value d) = take_bit 61 (reference_counter d)"
    by (rule bit_word_eqI) (auto simp: bit_take_bit_iff compact_value_bits)
  also have "\<dots> = reference_counter d"
    using assms by (intro word_unat_eq_iff [THEN iffD2]) (simp add: unsigned_take_bit_eq take_bit_nat_eq_self)
  finally show ?thesis by (simp add: details_new_bits compact_value_bits)
qed

lemma compact_details [simp]: "compact_value (details_new v) = v"
proof (rule bit_word_eqI)
  fix n assume "n < LENGTH(64)"
  then have "n < 61 \<or> n = 61 \<or> n = 62 \<or> n = 63" by simp arith
  then show "bit (compact_value (details_new v)) n = bit v n"
    by (auto simp: compact_value_bits details_new_bits bit_take_bit_iff)
qed

lemma details_inj: "details_new v = details_new w \<longleftrightarrow> v = w"
  by (metis compact_details)

lemma details_count_less: "unat (reference_counter (details_new v)) < 2 ^ 61"
  using take_bit_nat_less_exp [of 61 "unat v"] by (simp add: details_new_bits unsigned_take_bit_eq)

section \<open>Effect of the calls\<close>

definition refs :: "u64 \<Rightarrow> nat" where
  "refs v = unat (reference_counter (details_new v))"

definition in_use :: "u64 \<Rightarrow> bool" where
  "in_use v \<longleftrightarrow> 0 < refs v \<or> is_persistent (details_new v)"

definition file_exists :: "u64 \<Rightarrow> bool" where
  "file_exists v \<longleftrightarrow> \<not> to_be_removed (details_new v) \<and> in_use v"

definition file_visible :: "u64 \<Rightarrow> bool" where
  "file_visible v \<longleftrightarrow> file_exists v \<and> is_initialized (details_new v)"

lemmas file_state_defs = file_visible_def file_exists_def in_use_def

text \<open>The word with another number of references.\<close>

definition with_refs :: "u64 \<Rightarrow> nat \<Rightarrow> u64" where
  "with_refs v n = compact_value ((details_new v)\<lparr>reference_counter := of_nat n\<rparr>)"

lemma details_with_refs: "n < 2 ^ 61 \<Longrightarrow> details_new (with_refs v n) = (details_new v)\<lparr>reference_counter := of_nat n\<rparr>"
  unfolding with_refs_def by (rule details_compact) (simp add: unat_of_nat)

lemma with_refs_simps [simp]:
  assumes "n < 2 ^ 61"
  shows "refs (with_refs v n) = n" "is_initialized (details_new (with_refs v n)) = is_initialized (details_new v)"
    "is_persistent (details_new (with_refs v n)) = is_persistent (details_new v)"
    "to_be_removed (details_new (with_refs v n)) = to_be_removed (details_new v)"
    "with_refs (with_refs v n) m = with_refs v m"
  using assms by (simp_all add: refs_def details_with_refs with_refs_def [of "with_refs v n"] with_refs_def [of v m] unat_of_nat)

lemma with_refs_self [simp]: "with_refs v (refs v) = v"
  by (simp add: with_refs_def refs_def)

lemma refs_less: "refs v < 2 ^ 61"
  unfolding refs_def by (rule details_count_less)

lemma refs_0: "reference_counter (details_new v) = 0 \<longleftrightarrow> refs v = 0" "0 < reference_counter (details_new v) \<longleftrightarrow> 0 < refs v"
  by (simp_all add: refs_def unat_gt_0 word_gt_0 unat_eq_zero)

lemma inc_word: "compact_value ((details_new v)\<lparr>reference_counter := reference_counter (details_new v) + 1\<rparr>) = with_refs v (refs v + 1)"
  by (simp add: with_refs_def refs_def add.commute)

lemma dec_word:
  "0 < refs v \<Longrightarrow> compact_value ((details_new v)\<lparr>reference_counter := reference_counter (details_new v) - 1\<rparr>) = with_refs v (refs v - 1)"
  by (simp add: with_refs_def refs_def of_nat_diff)

lemma call_increment [simp]: "exchange_call increment_ref_counter v = Ok (with_refs v (refs v + 1), v)"
  by (simp add: exchange_call_def increment_ref_counter_def Let_def inc_word)

lemma call_increment_initialized [simp]:
  "exchange_call increment_ref_counter_when_initialized v = Ok (if file_visible v then (with_refs v (refs v + 1), True) else (v, False))"
  by (auto simp: exchange_call_def increment_ref_counter_when_initialized_def Let_def inc_word file_state_defs refs_0)

lemma call_increment_exist [simp]:
  "exchange_call increment_ref_counter_when_exist v = Ok (if file_exists v then (with_refs v (refs v + 1), True) else (v, False))"
  by (auto simp: exchange_call_def increment_ref_counter_when_exist_def Let_def inc_word file_state_defs refs_0)

lemma call_decrement [simp]:
  "0 < refs v \<Longrightarrow> exchange_call decrement_ref_counter v = Ok (with_refs v (refs v - 1), refs v = 1 \<and> \<not> is_persistent (details_new v))"
proof -
  assume a: "0 < refs v"
  have "unat (reference_counter (details_new v) - 1) = refs v - 1"
    using a by (subst unat_minus_one) (auto simp: refs_def unat_gt_0)
  then have "reference_counter (details_new v) - 1 = 0 \<longleftrightarrow> refs v = 1" using a by (auto simp: unat_eq_zero [symmetric])
  then show ?thesis using a by (simp add: exchange_call_def decrement_ref_counter_def Let_def dec_word refs_0)
qed

lemma call_flags:
  "\<exists>w. exchange_call (set_initialized_bit b) v = Ok (w, ()) \<and> details_new w = (details_new v)\<lparr>is_initialized := b\<rparr>"
  "\<exists>w. exchange_call (set_persistency_bit b) v = Ok (w, ()) \<and> details_new w = (details_new v)\<lparr>is_persistent := b\<rparr>"
  "\<exists>w. exchange_call mark_to_be_removed v = Ok (w, ()) \<and> details_new w = (details_new v)\<lparr>to_be_removed := True\<rparr>"
  using details_count_less [of v]
  by (auto simp: exchange_call_def set_initialized_bit_def set_persistency_bit_def mark_to_be_removed_def Let_def intro!: details_compact)

text \<open>The packed word holds exactly the four fields: unpacking what was packed gives the fields back as long as the number of references
  fits into its 61 bits, and every word is the packing of its fields.\<close>

theorem counter_details_roundtrip:
  "(unat (reference_counter d) < 2 ^ 61 \<longrightarrow> details_new (compact_value d) = d) \<and> compact_value (details_new v) = v"
  using details_compact by simp

end
