(* ===== verification/SharedMemoryDirectory.thy ===== *)
theory SharedMemoryDirectory
  imports ReferenceCounter UniqueIndexSet
begin

text \<open>
  \<^verbatim>\<open>file_reference_set.rs\<close> and \<^verbatim>\<open>file.rs\<close> of \<^verbatim>\<open>elkodon_cal/src/shared_memory_directory\<close>: the files of a shared memory directory.

  A file is an index of the set: an entry (its name and where its content lies), a reference counter and a decision counter. A name is the content of
  a \<^verbatim>\<open>FileName\<close>. A call that fails may have changed the set before, so every operation returns the set together with its
  result. \<open>insert_begin\<close> and \<open>insert_decide\<close> are the two halves of \<^verbatim>\<open>insert\<close>: the calls of other threads can come in between.
\<close>

definition MAX_NUMBER_OF_ENTRIES :: nat where "MAX_NUMBER_OF_ENTRIES = 512"

datatype create_file_error = FileLimitExceeded | FileBeingCreated | FileDoesExist

record file_entry =
  fe_name :: "u8 list"
  fe_offset :: usize
  fe_len :: usize

record file_reference_set =
  fs_entries :: "file_entry list"
  fs_counter :: "u64 list"
  fs_decision :: "u64 list"
  fs_ids :: unique_index_set
  fs_global :: u64

definition entry_default :: file_entry where
  "entry_default = \<lparr>fe_name = map of_char ''empty'', fe_offset = 0, fe_len = 0\<rparr>"

definition frs_default :: file_reference_set where
  "frs_default =
     \<lparr>fs_entries = replicate MAX_NUMBER_OF_ENTRIES entry_default, fs_counter = replicate MAX_NUMBER_OF_ENTRIES 0,
      fs_decision = replicate MAX_NUMBER_OF_ENTRIES UNDECIDED, fs_ids = fixed_uis_default MAX_NUMBER_OF_ENTRIES, fs_global = 0\<rparr>"

text \<open>A call on the counter of a file; an index out of the bounds of the array panics.\<close>

definition on_counter ::
  "(u64 \<Rightarrow> 'r exchange_body) \<Rightarrow> nat \<Rightarrow> file_reference_set \<Rightarrow> ('e, file_reference_set \<times> 'r) outcome" where
  "on_counter body fid s =
     (if fid < length (fs_counter s)
      then omap (\<lambda>(v, r). (s\<lparr>fs_counter := (fs_counter s)[fid := v]\<rparr>, r)) (exchange_call body (fs_counter s ! fid))
      else Panic)"

definition frs_decrement_ref_counter :: "nat \<Rightarrow> file_reference_set \<Rightarrow> ('e, file_reference_set) outcome" where
  "frs_decrement_ref_counter fid s =
     obind (on_counter decrement_ref_counter fid s) (\<lambda>(s1, can_be_removed).
       if can_be_removed then
         let s2 = s1\<lparr>fs_counter := (fs_counter s1)[fid := 0], fs_decision := (fs_decision s1)[fid := UNDECIDED]\<rparr>
         in omap (\<lambda>ids. s2\<lparr>fs_ids := ids\<rparr>) (release_raw_index (fs_ids s2) (word_of_nat fid))
       else Ok s1)"

definition insert_begin ::
  "u8 list \<Rightarrow> usize \<Rightarrow> usize \<Rightarrow> bool \<Rightarrow> file_reference_set \<Rightarrow> ('e, file_reference_set \<times> (nat \<times> u64) option) outcome" where
  "insert_begin name offset len persistent s =
     obind (acquire_raw_index (fs_ids s)) (\<lambda>(ids, r).
       let s1 = s\<lparr>fs_ids := ids\<rparr> in
       case r of
         None \<Rightarrow> Ok (s1, None)
       | Some index \<Rightarrow>
           let fid = unat index in
           if length (fs_entries s1) \<le> fid then Panic
           else obind (on_counter (set_persistency_bit persistent) fid
                        (s1\<lparr>fs_entries := (fs_entries s1)[fid := \<lparr>fe_name = name, fe_offset = offset, fe_len = len\<rparr>]\<rparr>)) (\<lambda>(s2, _).
                omap (\<lambda>(s3, _). (s3\<lparr>fs_global := fs_global s3 + 1\<rparr>, Some (fid, fs_global s3))) (on_counter increment_ref_counter fid s2)))"

text \<open>The search for duplicates. When it finds one that wins it keeps its reference to it.\<close>

fun insert_scan ::
  "u8 list \<Rightarrow> nat \<Rightarrow> u64 \<Rightarrow> nat list \<Rightarrow> file_reference_set \<Rightarrow> ('e, file_reference_set \<times> (create_file_error + unit)) outcome" where
  "insert_scan name fid decision_count [] s = Ok (s, Inr ())"
| "insert_scan name fid decision_count (i # is) s =
     (if i = fid then insert_scan name fid decision_count is s
      else obind (on_counter increment_ref_counter_when_exist i s) (\<lambda>(s1, exists).
        if \<not> exists then insert_scan name fid decision_count is s1
        else if fe_name (fs_entries s1 ! i) = name then
          (case does_value_win (fs_decision s1 ! i) decision_count of (v, wins) \<Rightarrow>
             let s2 = s1\<lparr>fs_decision := (fs_decision s1)[i := v]\<rparr> in
             if \<not> wins then Ok (s2, Inl (if is_initialized (details_new (fs_counter s2 ! i)) then FileDoesExist else FileBeingCreated))
             else obind (frs_decrement_ref_counter i s2) (insert_scan name fid decision_count is))
        else obind (frs_decrement_ref_counter i s1) (insert_scan name fid decision_count is)))"

definition insert_decide ::
  "u8 list \<Rightarrow> nat \<Rightarrow> u64 \<Rightarrow> file_reference_set \<Rightarrow> ('e, file_reference_set \<times> (create_file_error + nat)) outcome" where
  "insert_decide name fid decision_count s =
     (if length (fs_decision s) \<le> fid then Panic
      else case decision_set (fs_decision s ! fid) decision_count of (v, decided) \<Rightarrow>
        let s1 = s\<lparr>fs_decision := (fs_decision s)[fid := v]\<rparr> in
        if \<not> decided then Ok (s1, Inl FileDoesExist)
        else omap (apsnd (map_sum (\<lambda>e. e) (\<lambda>_. fid))) (insert_scan name fid decision_count [0 ..< MAX_NUMBER_OF_ENTRIES] s1))"

definition frs_insert ::
  "u8 list \<Rightarrow> usize \<Rightarrow> usize \<Rightarrow> bool \<Rightarrow> file_reference_set \<Rightarrow> ('e, file_reference_set \<times> (create_file_error + nat)) outcome" where
  "frs_insert name offset len persistent s =
     obind (insert_begin name offset len persistent s) (\<lambda>(s1, r).
       case r of None \<Rightarrow> Ok (s1, Inl FileLimitExceeded) | Some (fid, decision_count) \<Rightarrow> insert_decide name fid decision_count s1)"

definition finalize_initialization :: "nat \<Rightarrow> file_reference_set \<Rightarrow> ('e, file_reference_set) outcome" where
  "finalize_initialization fid s = omap fst (on_counter (set_initialized_bit True) fid s)"

text \<open>\<^verbatim>\<open>FileCreator::create\<close>; the initializer only writes to the memory of the content.\<close>

definition file_create ::
  "u8 list \<Rightarrow> usize \<Rightarrow> usize \<Rightarrow> bool \<Rightarrow> file_reference_set \<Rightarrow> ('e, file_reference_set \<times> (create_file_error + nat)) outcome" where
  "file_create name offset len persistent s =
     obind (frs_insert name offset len persistent s) (\<lambda>(s1, r).
       case r of Inl e \<Rightarrow> Ok (s1, Inl e) | Inr fid \<Rightarrow> omap (\<lambda>s2. (s2, Inr fid)) (finalize_initialization fid s1))"

text \<open>One round of \<^verbatim>\<open>find_entry\<close> takes a reference and gives it back when the name is another one.\<close>

definition find_visit :: "nat \<Rightarrow> file_reference_set \<Rightarrow> ('e, file_reference_set \<times> bool) outcome" where
  "find_visit fid s = on_counter increment_ref_counter_when_initialized fid s"

definition find_leave :: "nat \<Rightarrow> file_reference_set \<Rightarrow> ('e, file_reference_set) outcome" where
  "find_leave fid s = omap fst (on_counter decrement_ref_counter fid s)"

fun find_entry_in :: "u8 list \<Rightarrow> nat list \<Rightarrow> file_reference_set \<Rightarrow> ('e, file_reference_set \<times> nat option) outcome" where
  "find_entry_in name [] s = Ok (s, None)"
| "find_entry_in name (fid # ids) s =
     obind (find_visit fid s) (\<lambda>(s1, visible).
       if \<not> visible then find_entry_in name ids s1
       else if fe_name (fs_entries s1 ! fid) = name then Ok (s1, Some fid)
       else obind (find_leave fid s1) (find_entry_in name ids))"

definition find_entry :: "u8 list \<Rightarrow> file_reference_set \<Rightarrow> ('e, file_reference_set \<times> nat option) outcome" where
  "find_entry name s = find_entry_in name [0 ..< unat (u_capacity (fs_ids s))] s"

definition frs_to_be_removed :: "u8 list \<Rightarrow> file_reference_set \<Rightarrow> ('e, file_reference_set \<times> bool) outcome" where
  "frs_to_be_removed name s =
     obind (find_entry name s) (\<lambda>(s1, r).
       case r of
         None \<Rightarrow> Ok (s1, False)
       | Some fid \<Rightarrow>
           obind (on_counter (set_persistency_bit False) fid s1) (\<lambda>(s2, _).
           obind (on_counter mark_to_be_removed fid s2) (\<lambda>(s3, _).
           omap (\<lambda>s4. (s4, True)) (frs_decrement_ref_counter fid s3))))"

definition frs_does_exist :: "u8 list \<Rightarrow> file_reference_set \<Rightarrow> ('e, file_reference_set \<times> bool) outcome" where
  "frs_does_exist name s =
     obind (find_entry name s) (\<lambda>(s1, r).
       case r of None \<Rightarrow> Ok (s1, False) | Some fid \<Rightarrow> omap (\<lambda>s2. (s2, True)) (frs_decrement_ref_counter fid s1))"

definition frs_borrow :: "u8 list \<Rightarrow> file_reference_set \<Rightarrow> ('e, file_reference_set \<times> nat option) outcome" where
  "frs_borrow name s = find_entry name s"

text \<open>\<^verbatim>\<open>release\<close>, which dropping a \<^verbatim>\<open>File\<close> calls.\<close>

definition frs_release :: "nat \<Rightarrow> file_reference_set \<Rightarrow> ('e, file_reference_set) outcome" where
  "frs_release fid s = frs_decrement_ref_counter fid s"

fun list_in :: "nat list \<Rightarrow> file_reference_set \<Rightarrow> ('e, file_reference_set \<times> nat list) outcome" where
  "list_in [] s = Ok (s, [])"
| "list_in (fid # ids) s =
     obind (on_counter increment_ref_counter_when_initialized fid s) (\<lambda>(s1, visible).
       omap (apsnd (\<lambda>fs. if visible then fid # fs else fs)) (list_in ids s1))"

definition frs_list :: "file_reference_set \<Rightarrow> ('e, file_reference_set \<times> nat list) outcome" where
  "frs_list s = list_in [0 ..< unat (u_capacity (fs_ids s))] s"

definition get_payload :: "nat \<Rightarrow> usize \<Rightarrow> file_reference_set \<Rightarrow> ('e, usize \<times> usize) outcome" where
  "get_payload fid base_address s =
     (if length (fs_entries s) \<le> fid then Panic
      else omap (\<lambda>a. (a, fe_len (fs_entries s ! fid))) (uadd (fe_offset (fs_entries s ! fid)) base_address))"

definition frs_is_persistent :: "nat \<Rightarrow> file_reference_set \<Rightarrow> ('e, bool) outcome" where
  "frs_is_persistent fid s = (if fid < length (fs_counter s) then Ok (is_persistent (details_new (fs_counter s ! fid))) else Panic)"

section \<open>The set between the calls\<close>

definition frs_wf :: "file_reference_set \<Rightarrow> bool" where
  "frs_wf s \<longleftrightarrow> length (fs_entries s) = MAX_NUMBER_OF_ENTRIES \<and> length (fs_counter s) = MAX_NUMBER_OF_ENTRIES
     \<and> length (fs_decision s) = MAX_NUMBER_OF_ENTRIES \<and> uis_wf (fs_ids s) \<and> u_capacity (fs_ids s) = word_of_nat MAX_NUMBER_OF_ENTRIES
     \<and> (\<forall>i < MAX_NUMBER_OF_ENTRIES. word_of_nat i \<in> set (uis_free (fs_ids s)) \<longleftrightarrow> \<not> in_use (fs_counter s ! i))
     \<and> (\<forall>i < MAX_NUMBER_OF_ENTRIES. \<not> in_use (fs_counter s ! i) \<longrightarrow> fs_counter s ! i = 0 \<and> fs_decision s ! i = UNDECIDED)
     \<and> (\<forall>i < MAX_NUMBER_OF_ENTRIES. fs_decision s ! i = UNDECIDED \<or> fs_decision s ! i < fs_global s)"

text \<open>What is left until a counter overflows.\<close>

definition frs_room :: "nat \<Rightarrow> file_reference_set \<Rightarrow> bool" where
  "frs_room n s \<longleftrightarrow> n \<le> uis_budget (fs_ids s) \<and> unat (fs_global s) + n < 2 ^ 64 \<and> (\<forall>v \<in> set (fs_counter s). refs v + n < 2 ^ 61)"

lemma on_counter_Ok:
  "fid < length (fs_counter s) \<Longrightarrow> exchange_call body (fs_counter s ! fid) = (Ok (v, r) :: ('e, _) outcome) \<Longrightarrow>
   on_counter body fid s = (Ok (s\<lparr>fs_counter := (fs_counter s)[fid := v]\<rparr>, r) :: ('e, _) outcome)"
  by (simp add: on_counter_def)

abbreviation set_refs :: "nat \<Rightarrow> nat \<Rightarrow> file_reference_set \<Rightarrow> file_reference_set" where
  "set_refs i n s \<equiv> s\<lparr>fs_counter := (fs_counter s)[i := with_refs (fs_counter s ! i) n]\<rparr>"

lemma update_nth: "xs[i := x] ! j = (if i = j \<and> j < length xs then x else xs ! j)"
  by (cases "i = j") (auto simp: not_less list_update_beyond)

text \<open>Giving back a reference that is not the last one.\<close>

lemma decrement_keep:
  assumes "fid < length (fs_counter s)" and "0 < refs (fs_counter s ! fid)" and "1 < refs (fs_counter s ! fid) \<or> is_persistent (details_new (fs_counter s ! fid))"
  shows "frs_decrement_ref_counter fid s = Ok (set_refs fid (refs (fs_counter s ! fid) - 1) s)"
  using assms by (simp add: frs_decrement_ref_counter_def on_counter_def) auto

lemma decrement_again:
  assumes "i < length (fs_counter s)" and "file_exists (fs_counter s ! i)" and "refs (fs_counter s ! i) + 1 < 2 ^ 61"
  shows "frs_decrement_ref_counter i (set_refs i (refs (fs_counter s ! i) + 1) s) = Ok s"
  using assms decrement_keep [of i "set_refs i (refs (fs_counter s ! i) + 1) s"] by (auto simp: file_state_defs)

definition duplicate_of :: "u8 list \<Rightarrow> nat \<Rightarrow> u64 \<Rightarrow> file_reference_set \<Rightarrow> nat \<Rightarrow> bool" where
  "duplicate_of name fid d s i \<longleftrightarrow> i \<noteq> fid \<and> file_exists (fs_counter s ! i) \<and> fe_name (fs_entries s ! i) = name
     \<and> fs_decision s ! i \<noteq> UNDECIDED \<and> \<not> d < fs_decision s ! i"

lemma set_decision_self [simp]: "s\<lparr>fs_counter := c, fs_decision := fs_decision s\<rparr> = s\<lparr>fs_counter := c\<rparr>"
  by simp

lemma insert_scan_eq:
  assumes "\<And>i. i \<in> set is \<Longrightarrow> i < length (fs_counter s) \<and> refs (fs_counter s ! i) + 1 < 2 ^ 61"
  shows "insert_scan name fid d is s = (Ok (case find (duplicate_of name fid d s) is of
     None \<Rightarrow> (s, Inr ())
   | Some i \<Rightarrow> (set_refs i (refs (fs_counter s ! i) + 1) s, Inl (if is_initialized (details_new (fs_counter s ! i)) then FileDoesExist else FileBeingCreated))) :: ('e, _) outcome)"
  using assms
proof (induction "is")
  case (Cons i "is")
  note IH = Cons.IH [OF Cons.prems [OF list.set_intros(2)]]
  have i: "i < length (fs_counter s)" "refs (fs_counter s ! i) + 1 < 2 ^ 61" using Cons.prems by auto
  show ?case
  proof (cases "i \<noteq> fid \<and> file_exists (fs_counter s ! i)")
    case False
    then have "\<not> duplicate_of name fid d s i" by (auto simp: duplicate_of_def)
    then show ?thesis using False i IH by (auto simp: on_counter_def)
  next
    case True
    have dec: "frs_decrement_ref_counter i (set_refs i (refs (fs_counter s ! i) + 1) s) = (Ok s :: ('e, _) outcome)"
      using decrement_again [OF i(1) _ i(2)] True by blast
    show ?thesis
      using True i IH dec by (auto simp: on_counter_def duplicate_of_def does_value_win_eq Let_def split: prod.splits)
  qed
qed simp


lemma find_in_eq:
  assumes "\<And>i. i \<in> set is \<Longrightarrow> i < length (fs_counter s) \<and> refs (fs_counter s ! i) + 1 < 2 ^ 61"
  shows "find_entry_in name is s = (Ok (case find (\<lambda>i. file_visible (fs_counter s ! i) \<and> fe_name (fs_entries s ! i) = name) is of
     None \<Rightarrow> (s, None) | Some i \<Rightarrow> (set_refs i (refs (fs_counter s ! i) + 1) s, Some i)) :: ('e, _) outcome)"
  using assms
proof (induction "is")
  case (Cons i "is")
  note IH = Cons.IH [OF Cons.prems [OF list.set_intros(2)]]
  have i: "i < length (fs_counter s)" "refs (fs_counter s ! i) + 1 < 2 ^ 61" using Cons.prems by auto
  have dec: "find_leave i (set_refs i (refs (fs_counter s ! i) + 1) s) = (Ok s :: ('e, _) outcome)"
    using i by (simp add: find_leave_def on_counter_def)
  show ?case using i IH dec by (auto simp: find_visit_def on_counter_def split: prod.splits)
qed simp

definition list_refs :: "nat list \<Rightarrow> u64 list \<Rightarrow> u64 list" where
  "list_refs is c = map (\<lambda>i. if i \<in> set is \<and> file_visible (c ! i) then with_refs (c ! i) (refs (c ! i) + 1) else c ! i) [0 ..< length c]"

lemma list_in_eq:
  assumes "\<And>i. i \<in> set is \<Longrightarrow> i < length (fs_counter s)" and "distinct is"
  shows "list_in is s = (Ok (s\<lparr>fs_counter := list_refs is (fs_counter s)\<rparr>, filter (\<lambda>i. file_visible (fs_counter s ! i)) is) :: ('e, _) outcome)"
  using assms
proof (induction "is" arbitrary: s)
  case Nil
  then show ?case by (simp add: list_refs_def map_nth)
next
  case (Cons i "is")
  let ?v = "fs_counter s ! i"
  let ?w = "if file_visible ?v then with_refs ?v (refs ?v + 1) else ?v"
  have i: "i < length (fs_counter s)" "i \<notin> set is" "distinct is" using Cons.prems by auto
  let ?s = "s\<lparr>fs_counter := (fs_counter s)[i := ?w]\<rparr>"
  have IH: "list_in is ?s = (Ok (?s\<lparr>fs_counter := list_refs is (fs_counter ?s)\<rparr>, filter (\<lambda>i. file_visible (fs_counter ?s ! i)) is) :: ('e, _) outcome)"
    by (rule Cons.IH) (use Cons.prems i in auto)
  have f: "filter (\<lambda>j. file_visible (fs_counter ?s ! j)) is = filter (\<lambda>j. file_visible (fs_counter s ! j)) is"
    by (rule filter_cong [OF refl]) (use i in \<open>auto simp: update_nth\<close>)
  have r: "list_refs is (fs_counter ?s) = list_refs (i # is) (fs_counter s)"
    using i unfolding list_refs_def by (intro nth_equalityI) (auto simp: update_nth)
  have "on_counter increment_ref_counter_when_initialized i s = (Ok (?s, file_visible ?v) :: ('e, _) outcome)"
    using i by (simp add: on_counter_def)
  then show ?case using IH f r by simp
qed

lemma index_word: "i < MAX_NUMBER_OF_ENTRIES \<Longrightarrow> unat (word_of_nat i :: u32) = i"
  by (simp add: MAX_NUMBER_OF_ENTRIES_def unat_word_of_nat_u32)

lemma index_word_inj: "i < MAX_NUMBER_OF_ENTRIES \<Longrightarrow> j < MAX_NUMBER_OF_ENTRIES \<Longrightarrow> (word_of_nat i :: u32) = word_of_nat j \<longleftrightarrow> i = j"
  using index_word by metis

lemma capacity_word: "frs_wf s \<Longrightarrow> unat (u_capacity (fs_ids s)) = MAX_NUMBER_OF_ENTRIES"
  by (simp add: frs_wf_def MAX_NUMBER_OF_ENTRIES_def)

lemma refs_flags_0 [simp]: "refs 0 = 0" "\<not> in_use 0" "\<not> file_exists 0" "\<not> file_visible 0" "\<not> is_persistent (details_new 0)"
  by (simp_all add: file_state_defs refs_def details_new_bits)

lemma frs_wf_default: "frs_wf frs_default"
proof -
  have "uis_free (fixed_uis_default MAX_NUMBER_OF_ENTRIES) = map word_of_nat [0 ..< MAX_NUMBER_OF_ENTRIES]" "uis_wf (fixed_uis_default MAX_NUMBER_OF_ENTRIES)"
    using fixed_uis_default_initial [of MAX_NUMBER_OF_ENTRIES] by (simp_all add: MAX_NUMBER_OF_ENTRIES_def)
  then show ?thesis by (auto simp: frs_wf_def frs_default_def) (simp add: fixed_uis_default_def uis_new_def)
qed

text \<open>Changing the counter of a file that stays in use.\<close>

lemma frs_wf_counter:
  assumes "frs_wf s" and "in_use (fs_counter s ! i)" and "in_use w"
  shows "frs_wf (s\<lparr>fs_counter := (fs_counter s)[i := w]\<rparr>)"
  using assms unfolding frs_wf_def by (simp add: update_nth)

text \<open>Giving back the last reference of a file that is not persistent frees its index.\<close>

lemma decrement_free:
  assumes "frs_wf s" and "0 < uis_budget (fs_ids s)" and "i < MAX_NUMBER_OF_ENTRIES"
    and "refs (fs_counter s ! i) = 1" and "\<not> is_persistent (details_new (fs_counter s ! i))"
  shows "\<exists>ids. frs_decrement_ref_counter i s = (Ok (s\<lparr>fs_counter := (fs_counter s)[i := 0], fs_decision := (fs_decision s)[i := UNDECIDED], fs_ids := ids\<rparr>) :: ('e, _) outcome)
    \<and> frs_wf (s\<lparr>fs_counter := (fs_counter s)[i := 0], fs_decision := (fs_decision s)[i := UNDECIDED], fs_ids := ids\<rparr>)"
proof -
  note wf = assms(1) [unfolded frs_wf_def]
  have u: "in_use (fs_counter s ! i)" using assms(4) by (simp add: in_use_def)
  have c: "word_of_nat i < u_capacity (fs_ids s)" using wf assms(3) index_word [OF assms(3)] capacity_word [OF assms(1)] by (simp add: word_less_nat_alt)
  have n: "word_of_nat i \<notin> set (uis_free (fs_ids s))" using wf assms(3) u by auto
  obtain ids where ids: "release_raw_index (fs_ids s) (word_of_nat i) = (Ok ids :: ('e, _) outcome)" "uis_wf ids"
    "uis_free ids = word_of_nat i # uis_free (fs_ids s)" "u_capacity ids = u_capacity (fs_ids s)"
    using release_raw_index_Ok [OF _ c n assms(2), where ?'e = 'e] wf by blast
  have "frs_decrement_ref_counter i s = (Ok (s\<lparr>fs_counter := (fs_counter s)[i := 0], fs_decision := (fs_decision s)[i := UNDECIDED], fs_ids := ids\<rparr>) :: ('e, _) outcome)"
    using wf assms(3,4,5) ids(1) by (simp add: frs_decrement_ref_counter_def on_counter_def Let_def)
  moreover have "frs_wf (s\<lparr>fs_counter := (fs_counter s)[i := 0], fs_decision := (fs_decision s)[i := UNDECIDED], fs_ids := ids\<rparr>)"
    unfolding frs_wf_def using wf ids assms(3) by (auto simp: update_nth index_word_inj)
  ultimately show ?thesis by blast
qed

section \<open>Creating a file\<close>

abbreviation new_details :: "bool \<Rightarrow> counter_details" where
  "new_details p \<equiv> \<lparr>reference_counter = 1, is_initialized = False, is_persistent = p, to_be_removed = False\<rparr>"

lemma new_details_state: "details_new w = new_details p \<Longrightarrow> refs w = 1 \<and> in_use w \<and> file_exists w \<and> \<not> file_visible w"
  by (simp add: file_state_defs refs_def)

lemma insert_begin_full:
  "frs_wf s \<Longrightarrow> uis_free (fs_ids s) = [] \<Longrightarrow> insert_begin name offset len p s = Ok (s, None)"
  by (simp add: insert_begin_def acquire_raw_index_empty frs_wf_def)

definition begun :: "nat \<Rightarrow> file_entry \<Rightarrow> u64 \<Rightarrow> unique_index_set \<Rightarrow> file_reference_set \<Rightarrow> file_reference_set" where
  "begun fid e w ids s =
     s\<lparr>fs_entries := (fs_entries s)[fid := e], fs_counter := (fs_counter s)[fid := w], fs_ids := ids, fs_global := fs_global s + 1\<rparr>"

lemma begun_simps [simp]:
  "fs_entries (begun fid e w ids s) = (fs_entries s)[fid := e]" "fs_counter (begun fid e w ids s) = (fs_counter s)[fid := w]"
  "fs_decision (begun fid e w ids s) = fs_decision s" "fs_ids (begun fid e w ids s) = ids" "fs_global (begun fid e w ids s) = fs_global s + 1"
  by (simp_all add: begun_def)

lemma global_less: "d < g \<Longrightarrow> unat g + 1 < 2 ^ 64 \<Longrightarrow> d < g + 1" for d g :: u64
  by (simp add: word_less_nat_alt unat_word_ariths)

lemma insert_begin_Ok:
  assumes "frs_wf s" and "uis_free (fs_ids s) = f # fs" and "0 < uis_budget (fs_ids s)"
  shows "\<exists>fid w ids. insert_begin name offset len p s =
      (Ok (begun fid \<lparr>fe_name = name, fe_offset = offset, fe_len = len\<rparr> w ids s, Some (fid, fs_global s)) :: ('e, _) outcome)
    \<and> fid < MAX_NUMBER_OF_ENTRIES \<and> fs_counter s ! fid = 0 \<and> fs_decision s ! fid = UNDECIDED \<and> details_new w = new_details p
    \<and> uis_budget ids = uis_budget (fs_ids s) - 1 \<and> uis_free ids = fs
    \<and> (unat (fs_global s) + 1 < 2 ^ 64 \<longrightarrow> frs_wf (begun fid \<lparr>fe_name = name, fe_offset = offset, fe_len = len\<rparr> w ids s))"
proof -
  note wf = assms(1) [unfolded frs_wf_def]
  let ?e = "\<lparr>fe_name = name, fe_offset = offset, fe_len = len\<rparr>" and ?fid = "unat f"
  obtain ids where ids: "acquire_raw_index (fs_ids s) = (Ok (ids, Some f) :: ('e, _) outcome)" "uis_wf ids" "uis_free ids = fs"
    "u_capacity ids = u_capacity (fs_ids s)" "uis_budget ids = uis_budget (fs_ids s) - 1"
    using acquire_raw_index_Cons [OF _ assms(2,3), where ?'e = 'e] wf by blast
  have f: "?fid < MAX_NUMBER_OF_ENTRIES"
    using uis.free_universe [of "fs_ids s"] wf assms(2) capacity_word [OF assms(1)] by (auto simp: word_less_nat_alt)
  have ff: "word_of_nat ?fid = f" by simp
  have free: "\<not> in_use (fs_counter s ! ?fid)" using wf f assms(2) ff by (metis list.set_intros(1))
  then have c0: "fs_counter s ! ?fid = 0" "fs_decision s ! ?fid = UNDECIDED" using wf f by auto
  obtain w1 where w1: "exchange_call (set_persistency_bit p) (fs_counter s ! ?fid) = (Ok (w1, ()) :: ('e, _) outcome)"
    "details_new w1 = (details_new (fs_counter s ! ?fid))\<lparr>is_persistent := p\<rparr>"
    using call_flags(2) by blast
  have d1: "details_new w1 = \<lparr>reference_counter = 0, is_initialized = False, is_persistent = p, to_be_removed = False\<rparr>"
    using w1(2) c0(1) by (simp add: details_new_bits)
  then have r1: "refs w1 = 0" by (simp add: refs_def)
  let ?w = "with_refs w1 1"
  have w: "details_new ?w = new_details p" using details_with_refs [of 1 w1] d1 by simp
  have l: "length (fs_entries s) = MAX_NUMBER_OF_ENTRIES" "length (fs_counter s) = MAX_NUMBER_OF_ENTRIES" using wf by auto
  have ins: "insert_begin name offset len p s = (Ok (begun ?fid ?e ?w ids s, Some (?fid, fs_global s)) :: ('e, _) outcome)"
    using ids(1) f l w1(1) r1 by (simp add: insert_begin_def Let_def on_counter_def begun_def)
  have "frs_wf (begun ?fid ?e ?w ids s)" if g: "unat (fs_global s) + 1 < 2 ^ 64"
  proof -
    have m: "word_of_nat i \<in> set fs \<longleftrightarrow> \<not> in_use (((fs_counter s)[?fid := ?w]) ! i)" if i: "i < MAX_NUMBER_OF_ENTRIES" for i
    proof (cases "i = ?fid")
      case True
      have "distinct (f # fs)" using wf uis_wfD(3) assms(2) by metis
      then show ?thesis using True l f new_details_state [OF w] by simp
    next
      case False
      then have "(word_of_nat i :: u32) \<noteq> f" using i f ff index_word_inj by metis
      then show ?thesis using False wf i assms(2) by (auto simp: update_nth)
    qed
    show ?thesis
      unfolding frs_wf_def using wf ids m new_details_state [OF w] g by (auto simp: update_nth global_less)
  qed
  then show ?thesis using ins f c0 w ids by blast
qed

text \<open>The second half: the first file with the same name that has decided earlier wins, and the call keeps a reference to it.\<close>

lemma insert_decide_eq:
  fixes s :: file_reference_set and d :: u64
  assumes "fid < MAX_NUMBER_OF_ENTRIES" and "length (fs_decision s) = MAX_NUMBER_OF_ENTRIES" and "length (fs_counter s) = MAX_NUMBER_OF_ENTRIES"
    and "fs_decision s ! fid = UNDECIDED" and "\<And>i. i < MAX_NUMBER_OF_ENTRIES \<Longrightarrow> refs (fs_counter s ! i) + 1 < 2 ^ 61"
  defines "s1 \<equiv> s\<lparr>fs_decision := (fs_decision s)[fid := d]\<rparr>"
  shows "insert_decide name fid d s = (Ok (case find (duplicate_of name fid d s) [0 ..< MAX_NUMBER_OF_ENTRIES] of
     None \<Rightarrow> (s1, Inr fid)
   | Some i \<Rightarrow> (set_refs i (refs (fs_counter s ! i) + 1) s1, Inl (if is_initialized (details_new (fs_counter s ! i)) then FileDoesExist else FileBeingCreated))) :: ('e, _) outcome)"
proof -
  have d: "duplicate_of name fid d s1 = duplicate_of name fid d s"
    by (auto simp: duplicate_of_def s1_def fun_eq_iff update_nth)
  have c: "fs_counter s1 = fs_counter s" by (simp add: s1_def)
  have sc: "insert_scan name fid d [0 ..< MAX_NUMBER_OF_ENTRIES] s1 = (Ok (case find (duplicate_of name fid d s) [0 ..< MAX_NUMBER_OF_ENTRIES] of
     None \<Rightarrow> (s1, Inr ())
   | Some i \<Rightarrow> (set_refs i (refs (fs_counter s ! i) + 1) s1, Inl (if is_initialized (details_new (fs_counter s ! i)) then FileDoesExist else FileBeingCreated))) :: ('e, _) outcome)"
    using insert_scan_eq [of "[0 ..< MAX_NUMBER_OF_ENTRIES]" s1 name fid d, where ?'e = 'e] assms(3,5)
    unfolding d c by simp
  show ?thesis
    using assms(1,2,4) unfolding insert_decide_def decision_set_def s1_def [symmetric] sc
    by (simp add: Let_def s1_def [symmetric] sc split: option.split)
qed

section \<open>Two files with one name\<close>

lemma room_refs: "frs_wf s \<Longrightarrow> frs_room n s \<Longrightarrow> i < MAX_NUMBER_OF_ENTRIES \<Longrightarrow> refs (fs_counter s ! i) + n < 2 ^ 61"
  unfolding frs_room_def frs_wf_def by (metis nth_mem)

lemma finalize_Ok:
  assumes "fid < length (fs_counter s)"
  shows "\<exists>w. finalize_initialization fid s = (Ok (s\<lparr>fs_counter := (fs_counter s)[fid := w]\<rparr>) :: ('e, _) outcome)
    \<and> details_new w = (details_new (fs_counter s ! fid))\<lparr>is_initialized := True\<rparr>"
  using call_flags(1) [of True "fs_counter s ! fid", where ?'a = 'e] assms by (auto simp: finalize_initialization_def on_counter_def)

lemma find_None_upt: "(\<And>i. i < n \<Longrightarrow> \<not> P i) \<Longrightarrow> find P [0 ..< n] = None"
  by (auto simp: find_None_iff)

text \<open>C34: two threads that create a file of the same name at the same time can both succeed, in spite of the decision counters: the mark of a loser is the
  same word as the mark of an undecided file, so the thread that finds an undecided rival wins without stopping the rival, which then
  finds its own number to be the smaller one. When the calls of \<^verbatim>\<open>insert\<close> overlap so that both have drawn a number before the second one decides first,
  both files end up visible under the same name.\<close>

theorem two_files_with_one_name:
  assumes "frs_wf s" and "frs_room 3 s" and "uis_free (fs_ids s) = a # b # rest"
    and "\<And>i. i < MAX_NUMBER_OF_ENTRIES \<Longrightarrow> file_exists (fs_counter s ! i) \<Longrightarrow> fe_name (fs_entries s ! i) \<noteq> name"
  shows "\<exists>s1 s2 s3 s4 s5 s6 x y dx dy.
      insert_begin name off1 len1 p1 s = (Ok (s1, Some (x, dx)) :: ('e, _) outcome) \<and> insert_begin name off2 len2 p2 s1 = (Ok (s2, Some (y, dy)) :: ('e, _) outcome)
    \<and> insert_decide name y dy s2 = (Ok (s3, Inr y) :: ('e, _) outcome) \<and> insert_decide name x dx s3 = (Ok (s4, Inr x) :: ('e, _) outcome)
    \<and> finalize_initialization y s4 = (Ok s5 :: ('e, _) outcome) \<and> finalize_initialization x s5 = (Ok s6 :: ('e, _) outcome)
    \<and> x \<noteq> y \<and> (\<forall>z \<in> {x, y}. file_visible (fs_counter s6 ! z) \<and> fe_name (fs_entries s6 ! z) = name)"
proof -
  let ?e = "\<lambda>off len. \<lparr>fe_name = name, fe_offset = off, fe_len = len\<rparr>"
  have g: "unat (fs_global s) + 3 < 2 ^ 64" "3 \<le> uis_budget (fs_ids s)" using assms(2) by (auto simp: frs_room_def)
  obtain x w i1 where 1: "insert_begin name off1 len1 p1 s = (Ok (begun x (?e off1 len1) w i1 s, Some (x, fs_global s)) :: ('e, _) outcome)"
    and x: "x < MAX_NUMBER_OF_ENTRIES" "fs_counter s ! x = 0" "fs_decision s ! x = UNDECIDED" "details_new w = new_details p1"
    and i1: "uis_budget i1 = uis_budget (fs_ids s) - 1" "uis_free i1 = b # rest" and wf1: "frs_wf (begun x (?e off1 len1) w i1 s)"
    using insert_begin_Ok [OF assms(1,3), of name off1 len1 p1, where ?'e = 'e] g by auto
  let ?s1 = "begun x (?e off1 len1) w i1 s"
  have g1: "unat (fs_global ?s1) = unat (fs_global s) + 1" using g by (simp add: unat_word_ariths)
  obtain y v i2 where 2: "insert_begin name off2 len2 p2 ?s1 = (Ok (begun y (?e off2 len2) v i2 ?s1, Some (y, fs_global ?s1)) :: ('e, _) outcome)"
    and y: "y < MAX_NUMBER_OF_ENTRIES" "fs_counter ?s1 ! y = 0" "fs_decision ?s1 ! y = UNDECIDED" "details_new v = new_details p2"
    and wf2: "frs_wf (begun y (?e off2 len2) v i2 ?s1)"
    using insert_begin_Ok [OF wf1, of b rest name off2 len2 p2, where ?'e = 'e] i1 g g1 by auto
  let ?s2 = "begun y (?e off2 len2) v i2 ?s1"
  have l: "length (fs_entries s) = MAX_NUMBER_OF_ENTRIES" "length (fs_counter s) = MAX_NUMBER_OF_ENTRIES" "length (fs_decision s) = MAX_NUMBER_OF_ENTRIES"
    using assms(1) by (auto simp: frs_wf_def)
  have w: "refs w = 1" "file_exists w" "refs v = 1" "file_exists v" using new_details_state x(4) y(4) by blast+
  have xy: "x \<noteq> y" using y(2) x(1) l w(1) by auto
  have c2: "fs_counter ?s2 ! i = (if i = y then v else if i = x then w else fs_counter s ! i)" if "i < MAX_NUMBER_OF_ENTRIES" for i
    using that l by (auto simp: update_nth)
  have n2: "fe_name (fs_entries ?s2 ! i) \<noteq> name" if "i < MAX_NUMBER_OF_ENTRIES" "i \<noteq> x" "i \<noteq> y" "file_exists (fs_counter ?s2 ! i)" for i
    using that assms(4) [of i] c2 by (simp add: update_nth)
  have r2: "refs (fs_counter ?s2 ! i) + 1 < 2 ^ 61" if "i < MAX_NUMBER_OF_ENTRIES" for i
    using room_refs [OF assms(1,2) that] c2 [OF that] w by (auto split: if_splits)
  let ?dx = "fs_global s" and ?dy = "fs_global ?s1"
  let ?s3 = "?s2\<lparr>fs_decision := (fs_decision ?s2)[y := ?dy]\<rparr>"
  have "find (duplicate_of name y ?dy ?s2) [0 ..< MAX_NUMBER_OF_ENTRIES] = None"
    by (rule find_None_upt) (use n2 x(3) in \<open>auto simp: duplicate_of_def simp del: begun_simps(1,2)\<close>)
  then have 3: "insert_decide name y ?dy ?s2 = (Ok (?s3, Inr y) :: ('e, _) outcome)"
    using insert_decide_eq [of y ?s2 name ?dy, where ?'e = 'e] y(1,3) l r2 by simp
  have lt: "?dx < ?dy" using g1 by (simp add: word_less_nat_alt del: begun_simps)
  let ?s4 = "?s3\<lparr>fs_decision := (fs_decision ?s3)[x := ?dx]\<rparr>"
  have d3: "fs_decision ?s3 ! y = ?dy" "fs_counter ?s3 = fs_counter ?s2" "fs_entries ?s3 = fs_entries ?s2" using l y(1) by simp_all
  have "\<not> duplicate_of name x ?dx ?s3 i" if "i < MAX_NUMBER_OF_ENTRIES" for i
    using n2 [OF that] d3(1) lt unfolding duplicate_of_def d3(2,3) by (cases "i = x"; cases "i = y") (auto simp del: begun_simps)
  then have "find (duplicate_of name x ?dx ?s3) [0 ..< MAX_NUMBER_OF_ENTRIES] = None" by (rule find_None_upt)
  then have 4: "insert_decide name x ?dx ?s3 = (Ok (?s4, Inr x) :: ('e, _) outcome)"
    using insert_decide_eq [of x ?s3 name ?dx, where ?'e = 'e] x(1,3) xy l r2 by (simp add: update_nth)
  obtain v' where 5: "finalize_initialization y ?s4 = (Ok (?s4\<lparr>fs_counter := (fs_counter ?s4)[y := v']\<rparr>) :: ('e, _) outcome)" "details_new v' = (details_new v)\<lparr>is_initialized := True\<rparr>"
    using finalize_Ok [of y ?s4, where ?'e = 'e] l y(1) c2 [OF y(1)] by auto
  let ?s5 = "?s4\<lparr>fs_counter := (fs_counter ?s4)[y := v']\<rparr>"
  obtain w' where 6: "finalize_initialization x ?s5 = (Ok (?s5\<lparr>fs_counter := (fs_counter ?s5)[x := w']\<rparr>) :: ('e, _) outcome)" "details_new w' = (details_new w)\<lparr>is_initialized := True\<rparr>"
    using finalize_Ok [of x ?s5, where ?'e = 'e] l x(1) xy by auto
  have "file_visible w'" "file_visible v'" using 5(2) 6(2) x(4) y(4) by (simp_all add: file_state_defs refs_def)
  then have "\<forall>z \<in> {x, y}. file_visible (fs_counter (?s5\<lparr>fs_counter := (fs_counter ?s5)[x := w']\<rparr>) ! z)
      \<and> fe_name (fs_entries (?s5\<lparr>fs_counter := (fs_counter ?s5)[x := w']\<rparr>) ! z) = name"
    using xy x(1) y(1) l by simp
  with 1 2 3 4 5(1) 6(1) xy show ?thesis by blast
qed

lemma frs_room_default: "frs_room 3 frs_default"
  using fixed_uis_default_initial [of MAX_NUMBER_OF_ENTRIES] by (simp add: frs_room_def frs_default_def MAX_NUMBER_OF_ENTRIES_def)

theorem two_files_with_one_name_witness:
  "\<exists>s1 s2 s3 s4 x y dx dy. x \<noteq> y
    \<and> insert_begin [65] 0 8 False frs_default = (Ok (s1, Some (x, dx)) :: (unit, _) outcome) \<and> insert_begin [65] 8 8 False s1 = (Ok (s2, Some (y, dy)) :: (unit, _) outcome)
    \<and> insert_decide [65] y dy s2 = (Ok (s3, Inr y) :: (unit, _) outcome) \<and> insert_decide [65] x dx s3 = (Ok (s4, Inr x) :: (unit, _) outcome)"
proof -
  have m: "0 < MAX_NUMBER_OF_ENTRIES" "Suc 0 < MAX_NUMBER_OF_ENTRIES" "MAX_NUMBER_OF_ENTRIES + 1 < 2 ^ 32" by (simp_all add: MAX_NUMBER_OF_ENTRIES_def)
  have f: "uis_free (fs_ids frs_default) = word_of_nat 0 # word_of_nat (Suc 0) # map word_of_nat [Suc (Suc 0) ..< MAX_NUMBER_OF_ENTRIES]"
    using fixed_uis_default_initial [OF m(3)] upt_conv_Cons [OF m(1)] upt_conv_Cons [OF m(2)] by (simp add: frs_default_def)
  have n: "i < MAX_NUMBER_OF_ENTRIES \<Longrightarrow> file_exists (fs_counter frs_default ! i) \<Longrightarrow> fe_name (fs_entries frs_default ! i) \<noteq> [65]" for i
    by (simp add: frs_default_def)
  show ?thesis using two_files_with_one_name [OF frs_wf_default frs_room_default f n, of 0 8 False 8 8 False, where ?'e = unit] by blast
qed

end
