(* ===== verification/DirectoryReferences.thy ===== *)
theory DirectoryReferences
  imports SharedMemoryDirectory
begin

text \<open>
  What the reference counters of a shared memory directory guarantee when its users call one after the other, and what is lost when a
  creation fails or a search runs next to the drop of a file.
\<close>

section \<open>References of a directory\<close>

text \<open>A handle is a \<^verbatim>\<open>File\<close>: its index and the entry that it had when the handle was made.\<close>

type_synonym file_handle = "nat \<times> file_entry"

definition held :: "file_handle list \<Rightarrow> nat \<Rightarrow> nat" where
  "held hs i = count_list (map fst hs) i"

definition dir_inv :: "file_reference_set \<Rightarrow> file_handle list \<Rightarrow> bool" where
  "dir_inv s hs \<longleftrightarrow> frs_wf s
     \<and> (\<forall>(i, e) \<in> set hs. i < MAX_NUMBER_OF_ENTRIES \<and> fs_entries s ! i = e \<and> is_initialized (details_new (fs_counter s ! i)))
     \<and> (\<forall>i < MAX_NUMBER_OF_ENTRIES. held hs i \<le> refs (fs_counter s ! i))
     \<and> (\<forall>i < MAX_NUMBER_OF_ENTRIES. in_use (fs_counter s ! i) \<longrightarrow> fs_decision s ! i \<noteq> UNDECIDED)
     \<and> (\<forall>i < MAX_NUMBER_OF_ENTRIES. \<forall>j < MAX_NUMBER_OF_ENTRIES. file_visible (fs_counter s ! i) \<and> file_visible (fs_counter s ! j)
          \<and> fe_name (fs_entries s ! i) = fe_name (fs_entries s ! j) \<longrightarrow> i = j)"

definition exact :: "file_reference_set \<Rightarrow> file_handle list \<Rightarrow> bool" where
  "exact s hs \<longleftrightarrow> (\<forall>i < MAX_NUMBER_OF_ENTRIES. refs (fs_counter s ! i) = held hs i)"

lemma held_simps [simp]: "held [] i = 0" "held (h # hs) i = held hs i + (if fst h = i then 1 else 0)" "held (gs @ hs) i = held gs i + held hs i"
  by (auto simp: held_def)

lemma held_remove1: "h \<in> set hs \<Longrightarrow> held (remove1 h hs) i = held hs i - (if fst h = i then 1 else 0) \<and> (fst h = i \<longrightarrow> 0 < held hs i)"
  by (induction hs) (auto simp: held_def)

lemma dir_inv_lengths:
  "dir_inv s hs \<Longrightarrow> length (fs_entries s) = MAX_NUMBER_OF_ENTRIES \<and> length (fs_counter s) = MAX_NUMBER_OF_ENTRIES \<and> length (fs_decision s) = MAX_NUMBER_OF_ENTRIES"
  by (simp add: dir_inv_def frs_wf_def)

lemma dir_invD:
  assumes "dir_inv s hs"
  shows "frs_wf s" and "(i, e) \<in> set hs \<Longrightarrow> i < MAX_NUMBER_OF_ENTRIES \<and> fs_entries s ! i = e \<and> is_initialized (details_new (fs_counter s ! i))"
    and "i < MAX_NUMBER_OF_ENTRIES \<Longrightarrow> held hs i \<le> refs (fs_counter s ! i)"
    and "i < MAX_NUMBER_OF_ENTRIES \<Longrightarrow> in_use (fs_counter s ! i) \<Longrightarrow> fs_decision s ! i \<noteq> UNDECIDED"
    and "i < MAX_NUMBER_OF_ENTRIES \<Longrightarrow> j < MAX_NUMBER_OF_ENTRIES \<Longrightarrow> file_visible (fs_counter s ! i) \<Longrightarrow> file_visible (fs_counter s ! j)
      \<Longrightarrow> fe_name (fs_entries s ! i) = fe_name (fs_entries s ! j) \<Longrightarrow> i = j"
proof -
  note d = assms [unfolded dir_inv_def]
  show "frs_wf s" using d by simp
  show "(i, e) \<in> set hs \<Longrightarrow> i < MAX_NUMBER_OF_ENTRIES \<and> fs_entries s ! i = e \<and> is_initialized (details_new (fs_counter s ! i))"
    using d [THEN conjunct2, THEN conjunct1] by auto
  show "i < MAX_NUMBER_OF_ENTRIES \<Longrightarrow> held hs i \<le> refs (fs_counter s ! i)" using d by simp
  show "i < MAX_NUMBER_OF_ENTRIES \<Longrightarrow> in_use (fs_counter s ! i) \<Longrightarrow> fs_decision s ! i \<noteq> UNDECIDED" using d by simp
  show "i < MAX_NUMBER_OF_ENTRIES \<Longrightarrow> j < MAX_NUMBER_OF_ENTRIES \<Longrightarrow> file_visible (fs_counter s ! i) \<Longrightarrow> file_visible (fs_counter s ! j)
      \<Longrightarrow> fe_name (fs_entries s ! i) = fe_name (fs_entries s ! j) \<Longrightarrow> i = j"
    using d [THEN conjunct2, THEN conjunct2, THEN conjunct2, THEN conjunct2] by simp
qed

lemma dir_invI:
  assumes "frs_wf s" and "\<And>i e. (i, e) \<in> set hs \<Longrightarrow> i < MAX_NUMBER_OF_ENTRIES \<and> fs_entries s ! i = e \<and> is_initialized (details_new (fs_counter s ! i))"
    and "\<And>i. i < MAX_NUMBER_OF_ENTRIES \<Longrightarrow> held hs i \<le> refs (fs_counter s ! i)"
    and "\<And>i. i < MAX_NUMBER_OF_ENTRIES \<Longrightarrow> in_use (fs_counter s ! i) \<Longrightarrow> fs_decision s ! i \<noteq> UNDECIDED"
    and "\<And>i j. i < MAX_NUMBER_OF_ENTRIES \<Longrightarrow> j < MAX_NUMBER_OF_ENTRIES \<Longrightarrow> file_visible (fs_counter s ! i) \<Longrightarrow> file_visible (fs_counter s ! j)
      \<Longrightarrow> fe_name (fs_entries s ! i) = fe_name (fs_entries s ! j) \<Longrightarrow> i = j"
  shows "dir_inv s hs"
  unfolding dir_inv_def
proof (intro conjI allI impI ballI)
  show "case h of (i, e) \<Rightarrow> i < MAX_NUMBER_OF_ENTRIES \<and> fs_entries s ! i = e \<and> is_initialized (details_new (fs_counter s ! i))" if "h \<in> set hs" for h
    using assms(2) that by (cases h) auto
qed (use assms(1,3,4) in simp_all, use assms(5) in blast)

text \<open>Changing the counter of one file that stays in use.\<close>

lemma dir_inv_counter:
  assumes "dir_inv s hs" and "i < MAX_NUMBER_OF_ENTRIES" and "in_use (fs_counter s ! i)" and "in_use w"
    and "file_visible w \<Longrightarrow> file_visible (fs_counter s ! i)
      \<or> (\<forall>j < MAX_NUMBER_OF_ENTRIES. j \<noteq> i \<and> file_visible (fs_counter s ! j) \<longrightarrow> fe_name (fs_entries s ! j) \<noteq> fe_name (fs_entries s ! i))"
    and "is_initialized (details_new (fs_counter s ! i)) \<longrightarrow> is_initialized (details_new w)"
    and "\<And>h. h \<in> set hs' \<Longrightarrow> h \<in> set hs \<or> h = (i, fs_entries s ! i) \<and> is_initialized (details_new w)"
    and "\<And>j. j \<noteq> i \<Longrightarrow> held hs' j = held hs j" and "held hs' i \<le> refs w"
  shows "dir_inv (s\<lparr>fs_counter := (fs_counter s)[i := w]\<rparr>) hs'"
proof -
  note inv = dir_invD [OF assms(1)]
  let ?s = "s\<lparr>fs_counter := (fs_counter s)[i := w]\<rparr>"
  have c: "fs_counter ?s ! j = (if j = i then w else fs_counter s ! j)" for j
    using dir_inv_lengths [OF assms(1)] assms(2) by (auto simp: update_nth)
  have ed: "fs_entries ?s = fs_entries s" "fs_decision ?s = fs_decision s" by simp_all
  have one: "a = i" if a: "a < MAX_NUMBER_OF_ENTRIES" "a = i \<or> file_visible (fs_counter s ! a)" "file_visible w" "fe_name (fs_entries s ! a) = fe_name (fs_entries s ! i)" for a
    using assms(5) [OF a(3)] a inv(5) [OF a(1) assms(2)] by blast
  show ?thesis
  proof (rule dir_invI)
    show "frs_wf ?s" using frs_wf_counter assms(3,4) inv(1) by blast
    show "j < MAX_NUMBER_OF_ENTRIES \<and> fs_entries ?s ! j = e \<and> is_initialized (details_new (fs_counter ?s ! j))" if "(j, e) \<in> set hs'" for j e
      using assms(7) [OF that] assms(2,6) inv(2) [of j e] unfolding c ed by auto
    show "held hs' j \<le> refs (fs_counter ?s ! j)" if "j < MAX_NUMBER_OF_ENTRIES" for j
      using assms(8) [of j] assms(9) inv(3) [OF that] unfolding c by auto
    show "fs_decision ?s ! j \<noteq> UNDECIDED" if "j < MAX_NUMBER_OF_ENTRIES" "in_use (fs_counter ?s ! j)" for j
      using assms(3) inv(4) [OF that(1)] that(2) unfolding c ed by (auto split: if_splits)
    show "j = k" if "j < MAX_NUMBER_OF_ENTRIES" "k < MAX_NUMBER_OF_ENTRIES" "file_visible (fs_counter ?s ! j)" "file_visible (fs_counter ?s ! k)"
      "fe_name (fs_entries ?s ! j) = fe_name (fs_entries ?s ! k)" for j k
    proof (cases "j = i \<or> k = i")
      case True
      then show ?thesis using that one [of j] one [of k] unfolding c ed by (elim disjE) (simp_all split: if_splits)
    next
      case False
      then show ?thesis using that inv(5) [OF that(1,2)] unfolding c ed by simp
    qed
  qed
qed

lemma exact_counter:
  assumes "exact s hs" and "i < length (fs_counter s)" and "\<And>j. j \<noteq> i \<Longrightarrow> held hs' j = held hs j" and "held hs' i = refs w"
  shows "exact (s\<lparr>fs_counter := (fs_counter s)[i := w]\<rparr>) hs'"
  using assms by (auto simp: exact_def update_nth)

text \<open>Removing a file without handles.\<close>

lemma dir_inv_free:
  assumes "dir_inv s hs" and "frs_wf s'" and "s' = s\<lparr>fs_counter := (fs_counter s)[i := 0], fs_decision := (fs_decision s)[i := UNDECIDED], fs_ids := ids\<rparr>"
    and "set hs' \<subseteq> set hs" and "\<And>j. j \<noteq> i \<Longrightarrow> held hs' j = held hs j" and "held hs' i = 0"
  shows "dir_inv s' hs' \<and> (exact s hs \<longrightarrow> exact s' hs')"
proof -
  note inv = dir_invD [OF assms(1)]
  have c: "j < MAX_NUMBER_OF_ENTRIES \<Longrightarrow> fs_counter s' ! j = (if j = i then 0 else fs_counter s ! j)"
    "j \<noteq> i \<Longrightarrow> fs_decision s' ! j = fs_decision s ! j" and e: "fs_entries s' = fs_entries s" for j
    using dir_inv_lengths [OF assms(1)] by (auto simp: assms(3) update_nth)
  have ni: "(i, e) \<notin> set hs'" for e
    using assms(6) by (force simp: held_def count_list_0_iff)
  have "dir_inv s' hs'"
  proof (rule dir_invI)
    show "j < MAX_NUMBER_OF_ENTRIES \<and> fs_entries s' ! j = f \<and> is_initialized (details_new (fs_counter s' ! j))" if "(j, f) \<in> set hs'" for j f
      using that ni inv(2) [of j f] assms(4) c(1) [of j] e by (cases "j = i") auto
    show "held hs' j \<le> refs (fs_counter s' ! j)" if "j < MAX_NUMBER_OF_ENTRIES" for j
      using assms(5) [of j] assms(6) inv(3) [OF that] c(1) [OF that] by auto
    show "fs_decision s' ! j \<noteq> UNDECIDED" if "j < MAX_NUMBER_OF_ENTRIES" "in_use (fs_counter s' ! j)" for j
      using that(2) inv(4) [OF that(1)] c(1) [OF that(1)] c(2) [of j] by (cases "j = i") auto
    show "j = k" if "j < MAX_NUMBER_OF_ENTRIES" "k < MAX_NUMBER_OF_ENTRIES" "file_visible (fs_counter s' ! j)" "file_visible (fs_counter s' ! k)"
      "fe_name (fs_entries s' ! j) = fe_name (fs_entries s' ! k)" for j k
      using that inv(5) [OF that(1,2)] c(1) [OF that(1)] c(1) [OF that(2)] e by (cases "j = i"; cases "k = i") auto
  qed (rule assms(2))
  moreover have "exact s' hs'" if "exact s hs"
    using that assms(5,6) c(1) unfolding exact_def by auto
  ultimately show ?thesis by blast
qed

lemma set_refs_inv:
  assumes "dir_inv s hs" and "i < MAX_NUMBER_OF_ENTRIES" and "in_use (fs_counter s ! i)" and "n < 2 ^ 61" and "0 < n \<or> is_persistent (details_new (fs_counter s ! i))"
    and "\<And>h. h \<in> set hs' \<Longrightarrow> h \<in> set hs \<or> h = (i, fs_entries s ! i) \<and> is_initialized (details_new (fs_counter s ! i))"
    and "\<And>j. j \<noteq> i \<Longrightarrow> held hs' j = held hs j" and "held hs' i \<le> n" and "held hs i = refs (fs_counter s ! i) \<Longrightarrow> held hs' i = n"
  shows "dir_inv (set_refs i n s) hs' \<and> (exact s hs \<longrightarrow> exact (set_refs i n s) hs')"
proof -
  have "dir_inv (set_refs i n s) hs'"
    by (rule dir_inv_counter [OF assms(1-3)]) (use assms in \<open>auto simp: file_state_defs\<close>)
  moreover have "exact (set_refs i n s) hs'" if "exact s hs"
    by (rule exact_counter [OF that]) (use that assms dir_inv_lengths [OF assms(1)] in \<open>auto simp: exact_def\<close>)
  ultimately show ?thesis by blast
qed

lemma find_SomeD: "find P [0 ..< n] = Some i \<Longrightarrow> i < n \<and> P i"
  by (auto simp: find_Some_iff)

lemma find_entry_eq:
  assumes "dir_inv s hs" and "frs_room 2 s"
  shows "find_entry name s = (Ok (case find (\<lambda>i. file_visible (fs_counter s ! i) \<and> fe_name (fs_entries s ! i) = name) [0 ..< MAX_NUMBER_OF_ENTRIES] of
     None \<Rightarrow> (s, None) | Some i \<Rightarrow> (set_refs i (refs (fs_counter s ! i) + 1) s, Some i)) :: ('e, _) outcome)"
proof -
  have "i < length (fs_counter s) \<and> refs (fs_counter s ! i) + 1 < 2 ^ 61" if "i \<in> set [0 ..< MAX_NUMBER_OF_ENTRIES]" for i
    using room_refs [OF dir_invD(1) [OF assms(1)] assms(2), of i] dir_inv_lengths [OF assms(1)] that by simp
  then show ?thesis unfolding find_entry_def capacity_word [OF dir_invD(1) [OF assms(1)]] by (rule find_in_eq)
qed

lemma find_entry_inv:
  assumes "dir_inv s hs" and "frs_room 2 s" and "find_entry name s = (Ok (s', Some i) :: ('e, _) outcome)"
  shows "i < MAX_NUMBER_OF_ENTRIES \<and> file_visible (fs_counter s ! i) \<and> fe_name (fs_entries s ! i) = name
    \<and> s' = set_refs i (refs (fs_counter s ! i) + 1) s \<and> 1 \<le> refs (fs_counter s' ! i)
    \<and> dir_inv s' ((i, fs_entries s ! i) # hs) \<and> (exact s hs \<longrightarrow> exact s' ((i, fs_entries s ! i) # hs))"
proof -
  have i: "i < MAX_NUMBER_OF_ENTRIES" "file_visible (fs_counter s ! i)" "fe_name (fs_entries s ! i) = name" and s': "s' = set_refs i (refs (fs_counter s ! i) + 1) s"
    using assms(3) find_SomeD unfolding find_entry_eq [OF assms(1,2), where ?'e = 'e] by (auto split: option.splits)
  have r: "refs (fs_counter s ! i) + 1 < 2 ^ 61" using room_refs [OF dir_invD(1) [OF assms(1)] assms(2) i(1)] by simp
  have "dir_inv s' ((i, fs_entries s ! i) # hs) \<and> (exact s hs \<longrightarrow> exact s' ((i, fs_entries s ! i) # hs))"
    unfolding s' by (rule set_refs_inv [OF assms(1) i(1)]) (use i r dir_invD(3) [OF assms(1) i(1)] in \<open>auto simp: file_state_defs\<close>)
  then show ?thesis using i s' r dir_inv_lengths [OF assms(1)] by simp
qed

lemma release_inv:
  assumes "dir_inv s hs" and "0 < uis_budget (fs_ids s)" and "h \<in> set hs"
  shows "\<exists>s'. frs_release (fst h) s = (Ok s' :: ('e, _) outcome) \<and> dir_inv s' (remove1 h hs) \<and> (exact s hs \<longrightarrow> exact s' (remove1 h hs))"
proof -
  obtain i e where h: "h = (i, e)" by (cases h)
  let ?v = "fs_counter s ! i"
  note inv = dir_invD [OF assms(1)]
  have i: "i < MAX_NUMBER_OF_ENTRIES" using inv(2) [of i e] assms(3) h by blast
  have hr: "held (remove1 h hs) j = held hs j - (if i = j then 1 else 0)" "i = j \<Longrightarrow> 0 < held hs j" for j
    using held_remove1 [OF assms(3), of j] h by auto
  have r: "0 < refs ?v" using inv(3) [OF i] hr(2) [of i] by simp
  show ?thesis
  proof (cases "1 < refs ?v \<or> is_persistent (details_new ?v)")
    case True
    have "frs_release (fst h) s = (Ok (set_refs i (refs ?v - 1) s) :: ('e, _) outcome)"
      using decrement_keep [of i s] True r i dir_inv_lengths [OF assms(1)] h by (simp add: frs_release_def)
    moreover have "dir_inv (set_refs i (refs ?v - 1) s) (remove1 h hs) \<and> (exact s hs \<longrightarrow> exact (set_refs i (refs ?v - 1) s) (remove1 h hs))"
      by (rule set_refs_inv [OF assms(1) i]) (use True r refs_less [of ?v] hr inv(3) [OF i] notin_set_remove1 in \<open>auto simp: in_use_def\<close>)
    ultimately show ?thesis by blast
  next
    case False
    then have one: "refs ?v = 1" "\<not> is_persistent (details_new ?v)" using r by auto
    obtain ids where ids: "frs_decrement_ref_counter i s = (Ok (s\<lparr>fs_counter := (fs_counter s)[i := 0], fs_decision := (fs_decision s)[i := UNDECIDED], fs_ids := ids\<rparr>) :: ('e, _) outcome)"
      "frs_wf (s\<lparr>fs_counter := (fs_counter s)[i := 0], fs_decision := (fs_decision s)[i := UNDECIDED], fs_ids := ids\<rparr>)"
      using decrement_free [OF inv(1) assms(2) i one, where ?'e = 'e] by blast
    have "held (remove1 h hs) i = 0" using hr(1) [of i] inv(3) [OF i] one(1) by simp
    then show ?thesis
      using dir_inv_free [OF assms(1) ids(2) refl, of "remove1 h hs"] hr(1) ids(1) h set_remove1_subset [of h hs]
      by (auto simp: frs_release_def)
  qed
qed

lemma flag_inv:
  assumes "dir_inv s hs" and "i < MAX_NUMBER_OF_ENTRIES" and "0 < refs (fs_counter s ! i)"
    and "exchange_call body (fs_counter s ! i) = (Ok (w, ()) :: ('e, _) outcome)"
    and "refs w = refs (fs_counter s ! i)" and "is_initialized (details_new w) = is_initialized (details_new (fs_counter s ! i))"
    and "file_visible w \<Longrightarrow> file_visible (fs_counter s ! i)"
  shows "\<exists>s'. on_counter body i s = (Ok (s', ()) :: ('e, _) outcome) \<and> fs_counter s' ! i = w \<and> fs_ids s' = fs_ids s \<and> fs_entries s' = fs_entries s
    \<and> dir_inv s' hs \<and> (exact s hs \<longrightarrow> exact s' hs)"
proof -
  let ?s = "s\<lparr>fs_counter := (fs_counter s)[i := w]\<rparr>"
  have l: "i < length (fs_counter s)" using assms(2) dir_inv_lengths [OF assms(1)] by simp
  have "dir_inv ?s hs"
    by (rule dir_inv_counter [OF assms(1,2)]) (use assms dir_invD(3) [OF assms(1,2)] in \<open>auto simp: in_use_def\<close>)
  moreover have "exact ?s hs" if "exact s hs"
    by (rule exact_counter [OF that l]) (use that assms(2,5) in \<open>auto simp: exact_def\<close>)
  ultimately show ?thesis using on_counter_Ok [OF l assms(4)] l by auto
qed

lemma room_budget: "frs_room n s \<Longrightarrow> 0 < n \<Longrightarrow> 0 < uis_budget (fs_ids s)"
  by (simp add: frs_room_def)

lemma find_entry_None:
  "dir_inv s hs \<Longrightarrow> frs_room 2 s \<Longrightarrow> find_entry name s = (Ok (s', None) :: ('e, _) outcome) \<Longrightarrow> s' = s"
  using find_entry_eq [where ?'e = 'e] by (fastforce split: option.splits)

lemma find_entry_total: "dir_inv s hs \<Longrightarrow> frs_room 2 s \<Longrightarrow> \<exists>s' r. find_entry name s = (Ok (s', r) :: ('e, _) outcome)"
  using find_entry_eq [where ?'e = 'e] by (fastforce split: option.splits)

lemma exists_inv:
  assumes "dir_inv s hs" and "frs_room 2 s"
  shows "\<exists>s' b. frs_does_exist name s = (Ok (s', b) :: ('e, _) outcome) \<and> dir_inv s' hs \<and> (exact s hs \<longrightarrow> exact s' hs)"
proof -
  obtain s1 r where f: "find_entry name s = (Ok (s1, r) :: ('e, _) outcome)" using find_entry_total [OF assms] by blast
  show ?thesis
  proof (cases r)
    case None
    then show ?thesis using f find_entry_None [OF assms] assms(1) by (auto simp: frs_does_exist_def)
  next
    case (Some i)
    note fi = find_entry_inv [OF assms f [unfolded Some]]
    have "fs_ids s1 = fs_ids s" using fi by simp
    then have b: "0 < uis_budget (fs_ids s1)" using room_budget [OF assms(2)] by simp
    obtain s2 where s2: "frs_decrement_ref_counter i s1 = (Ok s2 :: ('e, _) outcome)" "dir_inv s2 hs" "exact s1 ((i, fs_entries s ! i) # hs) \<longrightarrow> exact s2 hs"
      using release_inv [OF _ b, of "(i, fs_entries s ! i) # hs" "(i, fs_entries s ! i)", where ?'e = 'e] fi by (auto simp: frs_release_def)
    have "frs_does_exist name s = (Ok (s2, True) :: ('e, _) outcome)" using f Some s2(1) by (simp add: frs_does_exist_def)
    then show ?thesis using s2 fi by blast
  qed
qed

lemma remove_inv:
  assumes "dir_inv s hs" and "frs_room 2 s"
  shows "\<exists>s' b. frs_to_be_removed name s = (Ok (s', b) :: ('e, _) outcome) \<and> dir_inv s' hs \<and> (exact s hs \<longrightarrow> exact s' hs)"
proof -
  obtain s1 r where f: "find_entry name s = (Ok (s1, r) :: ('e, _) outcome)" using find_entry_total [OF assms] by blast
  show ?thesis
  proof (cases r)
    case None
    then show ?thesis using f find_entry_None [OF assms] assms(1) by (auto simp: frs_to_be_removed_def)
  next
    case (Some i)
    let ?h = "(i, fs_entries s ! i)"
    note fi = find_entry_inv [OF assms f [unfolded Some]]
    then have inv1: "dir_inv s1 (?h # hs)" and ex1: "exact s hs \<longrightarrow> exact s1 (?h # hs)" and i: "i < MAX_NUMBER_OF_ENTRIES" and r1: "0 < refs (fs_counter s1 ! i)" by auto
    obtain w1 where w1: "exchange_call (set_persistency_bit False) (fs_counter s1 ! i) = (Ok (w1, ()) :: ('e, _) outcome)"
      "details_new w1 = (details_new (fs_counter s1 ! i))\<lparr>is_persistent := False\<rparr>" using call_flags(2) by blast
    obtain s2 where s2: "on_counter (set_persistency_bit False) i s1 = (Ok (s2, ()) :: ('e, _) outcome)" "fs_counter s2 ! i = w1" "fs_ids s2 = fs_ids s1"
      "dir_inv s2 (?h # hs)" "exact s1 (?h # hs) \<longrightarrow> exact s2 (?h # hs)"
      using flag_inv [OF inv1 i r1 w1(1)] r1 w1(2) by (auto simp: refs_def file_state_defs)
    have r2: "0 < refs (fs_counter s2 ! i)" using s2(2) r1 w1(2) by (simp add: refs_def)
    obtain w2 where w2: "exchange_call mark_to_be_removed (fs_counter s2 ! i) = (Ok (w2, ()) :: ('e, _) outcome)"
      "details_new w2 = (details_new (fs_counter s2 ! i))\<lparr>to_be_removed := True\<rparr>" using call_flags(3) by blast
    obtain s3 where s3: "on_counter mark_to_be_removed i s2 = (Ok (s3, ()) :: ('e, _) outcome)" "fs_ids s3 = fs_ids s2"
      "dir_inv s3 (?h # hs)" "exact s2 (?h # hs) \<longrightarrow> exact s3 (?h # hs)"
      using flag_inv [OF s2(4) i r2 w2(1)] r2 w2(2) by (auto simp: refs_def file_state_defs)
    have "fs_ids s1 = fs_ids s" using fi by simp
    then have b: "0 < uis_budget (fs_ids s3)" using room_budget [OF assms(2)] s2(3) s3(2) by simp
    obtain s4 where s4: "frs_decrement_ref_counter i s3 = (Ok s4 :: ('e, _) outcome)" "dir_inv s4 hs" "exact s3 (?h # hs) \<longrightarrow> exact s4 hs"
      using release_inv [OF s3(3) b, of ?h, where ?'e = 'e] by (auto simp: frs_release_def)
    have "frs_to_be_removed name s = (Ok (s4, True) :: ('e, _) outcome)"
      using f Some s2(1) s3(1) s4(1) by (simp add: frs_to_be_removed_def)
    then show ?thesis using s4 s3(4) s2(5) ex1 by blast
  qed
qed

lemma held_filter: "i < n \<Longrightarrow> held (map (\<lambda>i. (i, e i)) (filter P [0 ..< n])) i = (if P i then 1 else 0)"
proof -
  assume i: "i < n"
  have "map fst (map (\<lambda>i. (i, e i)) (filter P [0 ..< n])) = filter P [0 ..< n]" by (induction n) auto
  moreover have "count_list (filter P [0 ..< n]) i = (if P i then 1 else 0)"
    using i by (simp add: count_list_eq_length_filter distinct_length_filter) (auto simp: Int_def card_1_singleton_iff)
  ultimately show ?thesis by (simp add: held_def)
qed

lemma list_inv:
  assumes "dir_inv s hs" and "frs_room 2 s"
  shows "\<exists>s' is. frs_list s = (Ok (s', is) :: ('e, _) outcome) \<and> dir_inv s' (map (\<lambda>i. (i, fs_entries s ! i)) is @ hs)
    \<and> (exact s hs \<longrightarrow> exact s' (map (\<lambda>i. (i, fs_entries s ! i)) is @ hs)) \<and> is = filter (\<lambda>i. file_visible (fs_counter s ! i)) [0 ..< MAX_NUMBER_OF_ENTRIES]"
proof -
  note inv = dir_invD [OF assms(1)]
  note l = dir_inv_lengths [OF assms(1)]
  let ?is = "filter (\<lambda>i. file_visible (fs_counter s ! i)) [0 ..< MAX_NUMBER_OF_ENTRIES]"
  let ?s = "s\<lparr>fs_counter := list_refs [0 ..< MAX_NUMBER_OF_ENTRIES] (fs_counter s)\<rparr>"
  let ?hs = "map (\<lambda>i. (i, fs_entries s ! i)) ?is @ hs"
  have eq: "frs_list s = (Ok (?s, ?is) :: ('e, _) outcome)"
    unfolding frs_list_def capacity_word [OF inv(1)] by (rule list_in_eq) (use l in auto)
  have c: "fs_counter ?s ! i = (if file_visible (fs_counter s ! i) then with_refs (fs_counter s ! i) (refs (fs_counter s ! i) + 1) else fs_counter s ! i)"
    if "i < MAX_NUMBER_OF_ENTRIES" for i using that l by (simp add: list_refs_def)
  have r: "refs (fs_counter s ! i) + 1 < 2 ^ 61" if "i < MAX_NUMBER_OF_ENTRIES" for i using room_refs [OF inv(1) assms(2) that] by simp
  have st: "refs (fs_counter ?s ! i) = refs (fs_counter s ! i) + (if file_visible (fs_counter s ! i) then 1 else 0)"
    "in_use (fs_counter ?s ! i) = in_use (fs_counter s ! i)" "file_visible (fs_counter ?s ! i) = file_visible (fs_counter s ! i)"
    "is_initialized (details_new (fs_counter ?s ! i)) = is_initialized (details_new (fs_counter s ! i))"
    if "i < MAX_NUMBER_OF_ENTRIES" for i
    using c [OF that] r [OF that] by (auto simp: file_state_defs)
  have "frs_wf ?s"
    using inv(1) st c l unfolding frs_wf_def by (auto simp: list_refs_def file_state_defs)
  moreover have "i < MAX_NUMBER_OF_ENTRIES \<and> fs_entries ?s ! i = e \<and> is_initialized (details_new (fs_counter ?s ! i))" if "(i, e) \<in> set ?hs" for i e
    using that inv(2) [of i e] st(4) [of i] by (auto simp: file_visible_def)
  moreover have h: "held ?hs i = held hs i + (if file_visible (fs_counter s ! i) then 1 else 0)" if "i < MAX_NUMBER_OF_ENTRIES" for i
    using held_filter [OF that, of "\<lambda>i. fs_entries s ! i" "\<lambda>i. file_visible (fs_counter s ! i)"] by simp
  moreover have "held ?hs i \<le> refs (fs_counter ?s ! i)" if "i < MAX_NUMBER_OF_ENTRIES" for i
    using h [OF that] st(1) [OF that] inv(3) [OF that] by simp
  moreover have "fs_decision ?s ! i \<noteq> UNDECIDED" if "i < MAX_NUMBER_OF_ENTRIES" "in_use (fs_counter ?s ! i)" for i
    using st(2) [OF that(1)] that inv(4) by simp
  moreover have "i = j" if "i < MAX_NUMBER_OF_ENTRIES" "j < MAX_NUMBER_OF_ENTRIES" "file_visible (fs_counter ?s ! i)" "file_visible (fs_counter ?s ! j)"
    "fe_name (fs_entries ?s ! i) = fe_name (fs_entries ?s ! j)" for i j
    using inv(5) [OF that(1,2)] that st(3) by simp
  ultimately have "dir_inv ?s ?hs" by (intro dir_invI)
  moreover have "exact ?s ?hs" if "exact s hs"
    using that h st(1) unfolding exact_def by (simp del: held_simps)
  ultimately show ?thesis using eq by blast
qed

lemma held_pos: "(i, e) \<in> set hs \<Longrightarrow> 0 < held hs i"
  by (induction hs) (auto simp: held_def)

text \<open>A new file that has decided.\<close>

lemma decided_inv:
  assumes "dir_inv s hs" and "fid < MAX_NUMBER_OF_ENTRIES" and "fs_counter s ! fid = 0" and "details_new w = new_details p"
    and "frs_wf (begun fid e w ids s)" and "unat (fs_global s) + 1 < 2 ^ 64"
  shows "dir_inv ((begun fid e w ids s)\<lparr>fs_decision := (fs_decision s)[fid := fs_global s]\<rparr>) hs" (is "dir_inv ?s hs")
proof (rule dir_invI)
  note inv = dir_invD [OF assms(1)]
  note l = dir_inv_lengths [OF assms(1)]
  note w = new_details_state [OF assms(4)]
  have c: "fs_counter ?s ! i = (if i = fid then w else fs_counter s ! i)" "fs_entries ?s ! i = (if i = fid then e else fs_entries s ! i)"
    "fs_decision ?s ! i = (if i = fid then fs_global s else fs_decision s ! i)" for i
    using l assms(2) by (auto simp: update_nth)
  have g: "fs_global s < fs_global s + 1" "fs_global s \<noteq> UNDECIDED"
    using assms(6) by (simp_all add: word_less_nat_alt unat_word_ariths) (auto simp: UNDECIDED_def unsigned_minus_1_eq_mask mask_eq_exp_minus_1)
  have h0: "held hs fid = 0" using inv(3) [OF assms(2)] assms(3) by simp
  show "frs_wf ?s" using assms(5) w g unfolding frs_wf_def by (auto simp: c update_nth)
  show "i < MAX_NUMBER_OF_ENTRIES \<and> fs_entries ?s ! i = f \<and> is_initialized (details_new (fs_counter ?s ! i))" if "(i, f) \<in> set hs" for i f
    using inv(2) [OF that] held_pos [OF that] h0 unfolding c by (cases "i = fid") auto
  show "held hs i \<le> refs (fs_counter ?s ! i)" if "i < MAX_NUMBER_OF_ENTRIES" for i using inv(3) [OF that] h0 w unfolding c by auto
  show "fs_decision ?s ! i \<noteq> UNDECIDED" if "i < MAX_NUMBER_OF_ENTRIES" "in_use (fs_counter ?s ! i)" for i
    using inv(4) [OF that(1)] that(2) g(2) unfolding c by (auto split: if_splits)
  show "i = j" if "i < MAX_NUMBER_OF_ENTRIES" "j < MAX_NUMBER_OF_ENTRIES" "file_visible (fs_counter ?s ! i)" "file_visible (fs_counter ?s ! j)"
    "fe_name (fs_entries ?s ! i) = fe_name (fs_entries ?s ! j)" for i j
    using inv(5) [OF that(1,2)] that w unfolding c by (cases "i = fid"; cases "j = fid") simp_all
qed

definition decided :: "nat \<Rightarrow> file_entry \<Rightarrow> u64 \<Rightarrow> unique_index_set \<Rightarrow> file_reference_set \<Rightarrow> file_reference_set" where
  "decided fid e w ids s = (begun fid e w ids s)\<lparr>fs_decision := (fs_decision s)[fid := fs_global s]\<rparr>"

lemma decided_nth:
  assumes "dir_inv s hs" and "fid < MAX_NUMBER_OF_ENTRIES"
  shows "fs_counter (decided fid e w ids s) ! i = (if i = fid then w else fs_counter s ! i)"
    "fs_entries (decided fid e w ids s) ! i = (if i = fid then e else fs_entries s ! i)"
    "length (fs_counter (decided fid e w ids s)) = MAX_NUMBER_OF_ENTRIES"
  using dir_inv_lengths [OF assms(1)] assms(2) by (auto simp: decided_def update_nth)

lemma duplicate_of_begun:
  assumes "dir_inv s hs" and "i < MAX_NUMBER_OF_ENTRIES" and "fid < MAX_NUMBER_OF_ENTRIES" and "fs_counter s ! fid = 0"
  shows "duplicate_of name fid (fs_global s) (begun fid e w ids s) i \<longleftrightarrow> file_exists (fs_counter s ! i) \<and> fe_name (fs_entries s ! i) = name"
proof (cases "i = fid")
  case True
  then show ?thesis using assms(4) by (simp add: duplicate_of_def)
next
  case False
  have "fs_decision s ! i \<noteq> UNDECIDED \<and> \<not> fs_global s < fs_decision s ! i" if "file_exists (fs_counter s ! i)"
    using dir_invD(4) [OF assms(1,2)] dir_invD(1) [OF assms(1)] that assms(2) unfolding frs_wf_def file_exists_def by fastforce
  then show ?thesis using False by (auto simp: duplicate_of_def)
qed

abbreviation first_of_name :: "u8 list \<Rightarrow> file_reference_set \<Rightarrow> nat option" where
  "first_of_name name s \<equiv> find (\<lambda>i. file_exists (fs_counter s ! i) \<and> fe_name (fs_entries s ! i) = name) [0 ..< MAX_NUMBER_OF_ENTRIES]"

text \<open>\<^verbatim>\<open>insert\<close> when nobody interferes.\<close>

lemma insert_cases:
  assumes "dir_inv s hs" and "frs_room 2 s"
  shows "(\<forall>i < MAX_NUMBER_OF_ENTRIES. in_use (fs_counter s ! i)) \<and> frs_insert name offset len p s = (Ok (s, Inl FileLimitExceeded) :: ('e, _) outcome)
    \<or> (\<exists>fid w ids. fid < MAX_NUMBER_OF_ENTRIES \<and> fs_counter s ! fid = 0 \<and> details_new w = new_details p \<and> uis_budget ids = uis_budget (fs_ids s) - 1
        \<and> dir_inv (decided fid \<lparr>fe_name = name, fe_offset = offset, fe_len = len\<rparr> w ids s) hs
        \<and> frs_insert name offset len p s = (Ok (case first_of_name name s of
            None \<Rightarrow> (decided fid \<lparr>fe_name = name, fe_offset = offset, fe_len = len\<rparr> w ids s, Inr fid)
          | Some i \<Rightarrow> (set_refs i (refs (fs_counter s ! i) + 1) (decided fid \<lparr>fe_name = name, fe_offset = offset, fe_len = len\<rparr> w ids s),
                       Inl (if is_initialized (details_new (fs_counter s ! i)) then FileDoesExist else FileBeingCreated))) :: ('e, _) outcome))"
proof (cases "uis_free (fs_ids s)")
  case Nil
  have "\<forall>i < MAX_NUMBER_OF_ENTRIES. in_use (fs_counter s ! i)" using dir_invD(1) [OF assms(1)] Nil unfolding frs_wf_def by simp
  then show ?thesis using insert_begin_full [OF dir_invD(1) [OF assms(1)] Nil, of name offset len p, where ?'a = 'e] by (simp add: frs_insert_def)
next
  case (Cons f fs)
  note inv = dir_invD [OF assms(1)]
  let ?e = "\<lparr>fe_name = name, fe_offset = offset, fe_len = len\<rparr>"
  have g: "unat (fs_global s) + 1 < 2 ^ 64" "0 < uis_budget (fs_ids s)" using assms(2) by (auto simp: frs_room_def)
  obtain fid w ids where b: "insert_begin name offset len p s = (Ok (begun fid ?e w ids s, Some (fid, fs_global s)) :: ('e, _) outcome)"
    and f: "fid < MAX_NUMBER_OF_ENTRIES" "fs_counter s ! fid = 0" "fs_decision s ! fid = UNDECIDED" "details_new w = new_details p"
    and bd: "uis_budget ids = uis_budget (fs_ids s) - 1" and wf: "frs_wf (begun fid ?e w ids s)"
    using insert_begin_Ok [OF inv(1) Cons g(2), of name offset len p, where ?'e = 'e] g(1) by auto
  let ?b = "begun fid ?e w ids s" and ?s1 = "decided fid ?e w ids s"
  have c1: "fs_counter ?b ! i = (if i = fid then w else fs_counter s ! i)" for i
    using decided_nth(1) [OF assms(1) f(1), of ?e w ids] by (simp add: decided_def)
  have rw: "refs (fs_counter ?b ! i) + 1 < 2 ^ 61" if "i < MAX_NUMBER_OF_ENTRIES" for i
    using room_refs [OF inv(1) assms(2) that] new_details_state [OF f(4)] unfolding c1 by simp
  have fd: "find (duplicate_of name fid (fs_global s) ?b) [0 ..< MAX_NUMBER_OF_ENTRIES] = first_of_name name s"
    by (rule find_cong [OF refl]) (use duplicate_of_begun [OF assms(1) _ f(1,2)] in auto)
  have ci: "fs_counter ?b ! i = fs_counter s ! i" if "first_of_name name s = Some i" for i
    using find_SomeD [OF that] f(2) unfolding c1 by auto
  have "insert_decide name fid (fs_global s) ?b = (Ok (case first_of_name name s of
       None \<Rightarrow> (?s1, Inr fid)
     | Some i \<Rightarrow> (set_refs i (refs (fs_counter s ! i) + 1) ?s1, Inl (if is_initialized (details_new (fs_counter s ! i)) then FileDoesExist else FileBeingCreated))) :: ('e, _) outcome)"
    using insert_decide_eq [of fid ?b name "fs_global s", OF f(1) _ _ _ rw, where ?'e = 'e] f(3) dir_inv_lengths [OF assms(1)] ci
    unfolding fd decided_def by (auto split: option.split)
  moreover have "dir_inv ?s1 hs" using decided_inv [OF assms(1) f(1,2,4) wf g(1)] by (simp add: decided_def)
  ultimately show ?thesis using b f bd by (intro disjI2 exI [of _ fid] exI [of _ w] exI [of _ ids]) (simp add: frs_insert_def)
qed

text \<open>Creating a file when nobody interferes, on every branch. A creation that finds the name in use has taken an index and a reference
  to the other file, and keeps both.\<close>

lemma create_inv:
  assumes "dir_inv s hs" and "frs_room 2 s"
  shows "file_create name offset len p s = (Ok (s, Inl FileLimitExceeded) :: ('e, _) outcome) \<and> (\<forall>i < MAX_NUMBER_OF_ENTRIES. in_use (fs_counter s ! i))
    \<or> (\<exists>s' fid. file_create name offset len p s = (Ok (s', Inr fid) :: ('e, _) outcome) \<and> fs_counter s ! fid = 0
        \<and> dir_inv s' ((fid, \<lparr>fe_name = name, fe_offset = offset, fe_len = len\<rparr>) # hs)
        \<and> (exact s hs \<longrightarrow> exact s' ((fid, \<lparr>fe_name = name, fe_offset = offset, fe_len = len\<rparr>) # hs)) \<and> first_of_name name s = None
        \<and> details_new (fs_counter s' ! fid) = (new_details p)\<lparr>is_initialized := True\<rparr> \<and> (\<forall>k. k \<noteq> fid \<longrightarrow> fs_counter s' ! k = fs_counter s ! k)
        \<and> uis_budget (fs_ids s') = uis_budget (fs_ids s) - 1 \<and> fs_global s' = fs_global s + 1)
    \<or> (\<exists>s' e i fid. file_create name offset len p s = (Ok (s', Inl e) :: ('e, _) outcome) \<and> e \<noteq> FileLimitExceeded \<and> dir_inv s' hs
        \<and> first_of_name name s = Some i \<and> fs_counter s' ! i = with_refs (fs_counter s ! i) (refs (fs_counter s ! i) + 1)
        \<and> fid < MAX_NUMBER_OF_ENTRIES \<and> fs_counter s ! fid = 0 \<and> details_new (fs_counter s' ! fid) = new_details p)"
proof -
  note inv = dir_invD [OF assms(1)]
  let ?e = "\<lparr>fe_name = name, fe_offset = offset, fe_len = len\<rparr>"
  from insert_cases [OF assms, of name offset len p, where ?'e = 'e] show ?thesis
  proof (elim disjE exE conjE)
    fix fid w ids
    assume f: "fid < MAX_NUMBER_OF_ENTRIES" "fs_counter s ! fid = 0" "details_new w = new_details p" "uis_budget ids = uis_budget (fs_ids s) - 1" and dec: "dir_inv (decided fid ?e w ids s) hs"
      and ins: "frs_insert name offset len p s = (Ok (case first_of_name name s of
            None \<Rightarrow> (decided fid ?e w ids s, Inr fid)
          | Some i \<Rightarrow> (set_refs i (refs (fs_counter s ! i) + 1) (decided fid ?e w ids s),
                       Inl (if is_initialized (details_new (fs_counter s ! i)) then FileDoesExist else FileBeingCreated))) :: ('e, _) outcome)"
    let ?s1 = "decided fid ?e w ids s"
    note n = decided_nth [OF assms(1) f(1), of ?e w ids]
    note w = new_details_state [OF f(3)]
    show ?thesis
    proof (cases "first_of_name name s")
      case None
      obtain w' where w': "finalize_initialization fid ?s1 = (Ok (?s1\<lparr>fs_counter := (fs_counter ?s1)[fid := w']\<rparr>) :: ('e, _) outcome)"
        "details_new w' = (details_new w)\<lparr>is_initialized := True\<rparr>" using finalize_Ok [of fid ?s1, where ?'e = 'e] f(1) n by auto
      let ?s2 = "?s1\<lparr>fs_counter := (fs_counter ?s1)[fid := w']\<rparr>"
      have w2: "refs w' = 1" "in_use w'" "is_initialized (details_new w')" using w'(2) f(3) by (simp_all add: refs_def in_use_def)
      have h0: "held hs fid = 0" using inv(3) [OF f(1)] f(2) by simp
      have vis: "fe_name (fs_entries ?s1 ! j) \<noteq> fe_name (fs_entries ?s1 ! fid)" if "j < MAX_NUMBER_OF_ENTRIES" "j \<noteq> fid" "file_visible (fs_counter ?s1 ! j)" for j
        using None that n by (auto simp: file_visible_def find_None_iff)
      have "dir_inv ?s2 ((fid, ?e) # hs)"
        by (rule dir_inv_counter [OF dec f(1) _ w2(2)]) (use vis w w2 h0 n in auto)
      moreover have "exact ?s2 ((fid, ?e) # hs)" if "exact s hs"
        using that w2 h0 n unfolding exact_def by (auto simp: update_nth)
      moreover have "file_create name offset len p s = (Ok (?s2, Inr fid) :: ('e, _) outcome)"
        using ins None w'(1) by (simp add: file_create_def)
      moreover have "details_new (fs_counter ?s2 ! fid) = (new_details p)\<lparr>is_initialized := True\<rparr>" "k \<noteq> fid \<Longrightarrow> fs_counter ?s2 ! k = fs_counter s ! k" for k
        using w'(2) f n by (auto simp: update_nth)
      moreover have "fs_ids ?s2 = ids" "fs_global ?s2 = fs_global s + 1" by (simp_all add: decided_def)
      ultimately show ?thesis using None f by (intro disjI2 disjI1 exI [of _ ?s2] exI [of _ fid]) simp
    next
      case (Some i)
      then have i: "i < MAX_NUMBER_OF_ENTRIES" "file_exists (fs_counter s ! i)" using find_SomeD [OF Some] by blast+
      have ni: "i \<noteq> fid" using i(2) f(2) by auto
      let ?r = "refs (fs_counter s ! i) + 1"
      have "dir_inv (set_refs i ?r ?s1) hs"
        by (rule dir_inv_counter [OF dec i(1)])
          (use i(2) ni n room_refs [OF inv(1) assms(2) i(1)] inv(3) [OF i(1)] in \<open>auto simp: file_state_defs\<close>)
      moreover have "fs_counter (set_refs i ?r ?s1) ! i = with_refs (fs_counter s ! i) ?r" "fs_counter (set_refs i ?r ?s1) ! fid = w"
        using ni n i(1) by (auto simp: update_nth)
      moreover have "file_create name offset len p s = (Ok (set_refs i ?r ?s1, Inl (if is_initialized (details_new (fs_counter s ! i)) then FileDoesExist else FileBeingCreated)) :: ('e, _) outcome)"
        using ins Some by (simp add: file_create_def)
      ultimately show ?thesis using Some f
        by (intro disjI2 exI [of _ "set_refs i ?r ?s1"] exI [of _ "if is_initialized (details_new (fs_counter s ! i)) then FileDoesExist else FileBeingCreated"]
            exI [of _ i] exI [of _ fid]) simp
    qed
  qed (simp add: file_create_def)
qed

text \<open>The users of a directory call one after the other; \<open>hs\<close> are the files that they hold, and \<open>clean\<close> says that no creation has
  found its name in use so far. The counters have room for the next call.\<close>

inductive dir_run :: "file_reference_set \<Rightarrow> file_handle list \<Rightarrow> bool \<Rightarrow> bool" where
  dir_start: "dir_run frs_default [] True"
| dir_create: "dir_run s hs clean \<Longrightarrow> frs_room 2 s \<Longrightarrow> file_create name offset len p s = (Ok (s', Inr fid) :: (unit, _) outcome) \<Longrightarrow>
    dir_run s' ((fid, \<lparr>fe_name = name, fe_offset = offset, fe_len = len\<rparr>) # hs) clean"
| dir_create_fails: "dir_run s hs clean \<Longrightarrow> frs_room 2 s \<Longrightarrow> file_create name offset len p s = (Ok (s', Inl e) :: (unit, _) outcome) \<Longrightarrow>
    dir_run s' hs (clean \<and> e = FileLimitExceeded)"
| dir_open: "dir_run s hs clean \<Longrightarrow> frs_room 2 s \<Longrightarrow> frs_borrow name s = (Ok (s', Some fid) :: (unit, _) outcome) \<Longrightarrow> dir_run s' ((fid, fs_entries s ! fid) # hs) clean"
| dir_drop: "dir_run s hs clean \<Longrightarrow> frs_room 2 s \<Longrightarrow> h \<in> set hs \<Longrightarrow> frs_release (fst h) s = (Ok s' :: (unit, _) outcome) \<Longrightarrow> dir_run s' (remove1 h hs) clean"
| dir_remove: "dir_run s hs clean \<Longrightarrow> frs_room 2 s \<Longrightarrow> frs_to_be_removed name s = (Ok (s', b) :: (unit, _) outcome) \<Longrightarrow> dir_run s' hs clean"
| dir_exists: "dir_run s hs clean \<Longrightarrow> frs_room 2 s \<Longrightarrow> frs_does_exist name s = (Ok (s', b) :: (unit, _) outcome) \<Longrightarrow> dir_run s' hs clean"
| dir_list: "dir_run s hs clean \<Longrightarrow> frs_room 2 s \<Longrightarrow> frs_list s = (Ok (s', is) :: (unit, _) outcome) \<Longrightarrow> dir_run s' (map (\<lambda>i. (i, fs_entries s ! i)) is @ hs) clean"

lemma dir_run_inv: "dir_run s hs clean \<Longrightarrow> dir_inv s hs \<and> (clean \<longrightarrow> exact s hs)"
proof (induction rule: dir_run.induct)
  case dir_start
  have "exact frs_default []" by (simp add: exact_def frs_default_def)
  moreover have "dir_inv frs_default []"
    by (rule dir_invI) (use frs_wf_default in \<open>auto simp: frs_default_def\<close>)
  ultimately show ?case by blast
next
  case (dir_create s hs clean name offset len p s' fid)
  then show ?case using create_inv [of s hs name offset len p, where ?'e = unit] by auto
next
  case (dir_create_fails s hs clean name offset len p s' e)
  then show ?case using create_inv [of s hs name offset len p, where ?'e = unit] by auto
next
  case (dir_open s hs clean name s' fid)
  then show ?case using find_entry_inv [of s hs name s' fid, where ?'e = unit] unfolding frs_borrow_def by blast
next
  case (dir_drop s hs clean h s')
  then show ?case using release_inv [of s hs h, where ?'e = unit] room_budget [of 2 s] by auto
next
  case (dir_remove s hs clean name s' b)
  then show ?case using remove_inv [of s hs name, where ?'e = unit] by auto
next
  case (dir_exists s hs clean name s' b)
  then show ?case using exists_inv [of s hs name, where ?'e = unit] by auto
next
  case (dir_list s hs clean s' "is")
  then show ?case using list_inv [of s hs, where ?'e = unit] by auto
qed

text \<open>C33: the references of a shared memory directory, over any sequence of calls of its users, one at a time. Every held file keeps its name, its place and
  its length and is initialized; the counter of a file is at least the number of handles to it, and equal to it as long as no creation has found its
  name in use; an index is free exactly when nobody refers to it and it is not persistent; and no two visible files have the same name.\<close>

theorem directory_references:
  assumes "dir_run s hs clean"
  shows "(\<forall>(i, e) \<in> set hs. i < MAX_NUMBER_OF_ENTRIES \<and> fs_entries s ! i = e \<and> is_initialized (details_new (fs_counter s ! i)))
    \<and> (\<forall>i < MAX_NUMBER_OF_ENTRIES. held hs i \<le> refs (fs_counter s ! i) \<and> (clean \<longrightarrow> held hs i = refs (fs_counter s ! i))
        \<and> (word_of_nat i \<in> set (uis_free (fs_ids s)) \<longleftrightarrow> refs (fs_counter s ! i) = 0 \<and> \<not> is_persistent (details_new (fs_counter s ! i))))
    \<and> (\<forall>i < MAX_NUMBER_OF_ENTRIES. \<forall>j < MAX_NUMBER_OF_ENTRIES. file_visible (fs_counter s ! i) \<and> file_visible (fs_counter s ! j)
        \<and> fe_name (fs_entries s ! i) = fe_name (fs_entries s ! j) \<longrightarrow> i = j)"
proof -
  note inv = dir_run_inv [OF assms]
  note d = dir_invD [OF inv [THEN conjunct1]]
  have "word_of_nat i \<in> set (uis_free (fs_ids s)) \<longleftrightarrow> refs (fs_counter s ! i) = 0 \<and> \<not> is_persistent (details_new (fs_counter s ! i))"
    if "i < MAX_NUMBER_OF_ENTRIES" for i using d(1) that unfolding frs_wf_def in_use_def by simp
  moreover have "held hs i \<le> refs (fs_counter s ! i) \<and> (clean \<longrightarrow> held hs i = refs (fs_counter s ! i))" if "i < MAX_NUMBER_OF_ENTRIES" for i
    using d(3) [OF that] inv that by (simp add: exact_def)
  moreover have "\<forall>(i, e) \<in> set hs. i < MAX_NUMBER_OF_ENTRIES \<and> fs_entries s ! i = e \<and> is_initialized (details_new (fs_counter s ! i))"
    using d(2) by auto
  ultimately show ?thesis using d(5) by simp
qed

lemma default_create:
  "\<exists>s fid. file_create name offset len p frs_default = (Ok (s, Inr fid) :: (unit, _) outcome) \<and> dir_run s [(fid, \<lparr>fe_name = name, fe_offset = offset, fe_len = len\<rparr>)] True
    \<and> frs_room 2 s \<and> details_new (fs_counter s ! fid) = (new_details p)\<lparr>is_initialized := True\<rparr> \<and> (\<forall>k < MAX_NUMBER_OF_ENTRIES. k \<noteq> fid \<longrightarrow> fs_counter s ! k = 0)"
proof -
  have r: "frs_room 2 frs_default" using frs_room_default by (auto simp: frs_room_def)
  have c: "fs_counter frs_default ! i = 0" if "i < MAX_NUMBER_OF_ENTRIES" for i using that by (simp add: frs_default_def)
  have "\<not> (\<forall>i < MAX_NUMBER_OF_ENTRIES. in_use (fs_counter frs_default ! i))" using c [of 0] by (auto intro!: exI [of _ 0] simp: MAX_NUMBER_OF_ENTRIES_def)
  moreover have "first_of_name name frs_default = None" using c by (intro find_None_upt) simp
  ultimately obtain s fid where cr: "file_create name offset len p frs_default = (Ok (s, Inr fid) :: (unit, _) outcome)"
    and d: "details_new (fs_counter s ! fid) = (new_details p)\<lparr>is_initialized := True\<rparr>" and k: "\<forall>k. k \<noteq> fid \<longrightarrow> fs_counter s ! k = fs_counter frs_default ! k"
    and bd: "uis_budget (fs_ids s) = uis_budget (fs_ids frs_default) - 1" "fs_global s = fs_global frs_default + 1"
    using create_inv [OF dir_run_inv [OF dir_start, THEN conjunct1] r, of name offset len p, where ?'e = unit] by auto
  have run: "dir_run s [(fid, \<lparr>fe_name = name, fe_offset = offset, fe_len = len\<rparr>)] True" using dir_create [OF dir_start r cr] .
  have "refs (fs_counter s ! i) \<le> 1" if "i < MAX_NUMBER_OF_ENTRIES" for i
    using c [OF that] k d by (cases "i = fid") (auto simp: refs_def details_new_bits)
  then have "\<forall>v \<in> set (fs_counter s). refs v \<le> 1"
    using dir_inv_lengths [OF dir_run_inv [OF run, THEN conjunct1]] by (auto simp: in_set_conv_nth)
  then have "frs_room 2 s" using bd frs_room_default by (fastforce simp: frs_room_def frs_default_def)
  then show ?thesis using cr run d k c by (intro exI [of _ s] exI [of _ fid]) simp
qed

theorem directory_references_witness:
  "\<exists>s fid. dir_run s [(fid, \<lparr>fe_name = [65], fe_offset = 0, fe_len = 8\<rparr>)] True \<and> refs (fs_counter s ! fid) = 1 \<and> fe_name (fs_entries s ! fid) = [65]"
proof -
  obtain s fid where "dir_run s [(fid, \<lparr>fe_name = [65], fe_offset = 0, fe_len = 8\<rparr>)] True" using default_create by blast
  with directory_references [OF this] show ?thesis by (intro exI [of _ s] exI [of _ fid]) auto
qed

text \<open>A creation that fails because its name is in use leaks. A file that is not persistent and that a single user holds is gone when the user drops it; when
  somebody has tried to create a file of the same name in between, it stays visible for ever without any handle, and the failed creation has used up
  another index.\<close>

theorem failed_create_leaks:
  assumes "dir_run s [(i, e)] True" and "frs_room 2 s" and "\<not> is_persistent (details_new (fs_counter s ! i))" and "\<not> to_be_removed (details_new (fs_counter s ! i))"
    and "\<And>k. k < MAX_NUMBER_OF_ENTRIES \<Longrightarrow> file_exists (fs_counter s ! k) \<Longrightarrow> fe_name (fs_entries s ! k) = fe_name e \<Longrightarrow> k = i"
    and "j < MAX_NUMBER_OF_ENTRIES" and "\<not> in_use (fs_counter s ! j)"
  shows "(\<exists>s1. frs_release i s = (Ok s1 :: ('e, _) outcome) \<and> \<not> in_use (fs_counter s1 ! i))
    \<and> (\<exists>s1 s2 r k. file_create (fe_name e) offset len p s = (Ok (s1, Inl r) :: ('e, _) outcome) \<and> r \<noteq> FileLimitExceeded
        \<and> frs_release i s1 = (Ok s2 :: ('e, _) outcome) \<and> file_visible (fs_counter s2 ! i)
        \<and> k \<noteq> i \<and> \<not> in_use (fs_counter s ! k) \<and> in_use (fs_counter s2 ! k))"
proof -
  note run = dir_run_inv [OF assms(1)]
  then have inv: "dir_inv s [(i, e)]" by blast
  note d = dir_invD [OF inv]
  let ?v = "fs_counter s ! i"
  have i: "i < MAX_NUMBER_OF_ENTRIES" "fs_entries s ! i = e" "is_initialized (details_new ?v)" using d(2) [of i e] by auto
  have r: "refs ?v = 1" using run i(1) by (simp add: exact_def)
  obtain ids where gone: "frs_release i s = (Ok (s\<lparr>fs_counter := (fs_counter s)[i := 0], fs_decision := (fs_decision s)[i := UNDECIDED], fs_ids := ids\<rparr>) :: ('e, _) outcome)"
    using decrement_free [OF d(1) room_budget [OF assms(2)] i(1) r assms(3), where ?'e = 'e] by (auto simp: frs_release_def)
  have "file_exists ?v" using r assms(4) by (simp add: file_state_defs)
  then have first: "first_of_name (fe_name e) s = Some i"
  proof (cases "first_of_name (fe_name e) s")
    case None
    then have "\<not> (file_exists ?v \<and> fe_name (fs_entries s ! i) = fe_name e)" using i(1) unfolding find_None_iff by simp
    then show ?thesis using \<open>file_exists ?v\<close> i(2) by simp
  next
    case (Some k)
    then show ?thesis using find_SomeD [OF Some] assms(5) [of k] by simp
  qed
  obtain s1 x fid where c: "file_create (fe_name e) offset len p s = (Ok (s1, Inl x) :: ('e, _) outcome)" "x \<noteq> FileLimitExceeded" "dir_inv s1 [(i, e)]"
    "fs_counter s1 ! i = with_refs ?v 2" "fs_counter s ! fid = 0" "details_new (fs_counter s1 ! fid) = new_details p"
  proof -
    have n: "\<not> (\<forall>i < MAX_NUMBER_OF_ENTRIES. in_use (fs_counter s ! i))" and two: "refs ?v + 1 = 2" using assms(6,7) r by auto
    from create_inv [OF inv assms(2), of "fe_name e" offset len p, where ?'e = 'e] show ?thesis
    proof (elim disjE exE conjE)
      fix s' x k fid
      assume a: "file_create (fe_name e) offset len p s = (Ok (s', Inl x) :: ('e, _) outcome)" "x \<noteq> FileLimitExceeded" "dir_inv s' [(i, e)]"
        "first_of_name (fe_name e) s = Some k" "fs_counter s' ! k = with_refs (fs_counter s ! k) (refs (fs_counter s ! k) + 1)" "fs_counter s ! fid = 0"
        "details_new (fs_counter s' ! fid) = new_details p"
      have "k = i" using a(4) first by simp
      then show ?thesis using that [OF a(1-3) _ a(6,7)] a(5) two by metis
    qed (use n first in simp_all)
  qed
  let ?s2 = "set_refs i 1 s1"
  have l: "i < length (fs_counter s1)" using dir_inv_lengths [OF c(3)] i(1) by simp
  have "frs_release i s1 = (Ok ?s2 :: ('e, _) outcome)"
    using decrement_keep [OF l] c(4) by (simp add: frs_release_def)
  moreover have ne: "fid \<noteq> i" using c(5) r by auto
  moreover have "file_visible (fs_counter ?s2 ! i)" using c(4) l i(3) assms(4) by (simp add: file_state_defs)
  moreover have "in_use (fs_counter ?s2 ! fid)" using ne new_details_state [OF c(6)] by (simp add: update_nth)
  ultimately show ?thesis using gone c(1,2,5) dir_inv_lengths [OF inv] i(1)
    by (intro conjI exI [of _ "s\<lparr>fs_counter := (fs_counter s)[i := 0], fs_decision := (fs_decision s)[i := UNDECIDED], fs_ids := ids\<rparr>"]
        exI [of _ s1] exI [of _ ?s2] exI [of _ x] exI [of _ fid]) simp_all
qed

theorem failed_create_leaks_witness:
  "\<exists>s s1 s2 r i. dir_run s [(i, \<lparr>fe_name = [65], fe_offset = 0, fe_len = 8\<rparr>)] True
    \<and> file_create [65] 8 8 False s = (Ok (s1, Inl r) :: (unit, _) outcome) \<and> frs_release i s1 = (Ok s2 :: (unit, _) outcome) \<and> file_visible (fs_counter s2 ! i)"
proof -
  let ?e = "\<lparr>fe_name = [65 :: u8], fe_offset = 0 :: nat, fe_len = 8 :: nat\<rparr>"
  obtain s i where s: "dir_run s [(i, ?e)] True" "frs_room 2 s" "details_new (fs_counter s ! i) = (new_details False)\<lparr>is_initialized := True\<rparr>"
    "\<And>k. k < MAX_NUMBER_OF_ENTRIES \<Longrightarrow> k \<noteq> i \<Longrightarrow> fs_counter s ! k = 0"
    using default_create [of "[65]" 0 8 False] by auto
  obtain j where j: "j < MAX_NUMBER_OF_ENTRIES" "j \<noteq> i" by (cases "i = 0") (auto simp: MAX_NUMBER_OF_ENTRIES_def intro: that [of 0] that [of 1])
  have 1: "\<not> is_persistent (details_new (fs_counter s ! i))" "\<not> to_be_removed (details_new (fs_counter s ! i))" "\<not> in_use (fs_counter s ! j)" using s(3,4) j by simp_all
  have "k = i" if "k < MAX_NUMBER_OF_ENTRIES" "file_exists (fs_counter s ! k)" "fe_name (fs_entries s ! k) = fe_name ?e" for k using s(4) [OF that(1)] that(2) refs_flags_0(3) by metis
  from failed_create_leaks [OF s(1,2) 1(1,2) this j(1) 1(3), of 8 8 False, where ?'e = unit]
  obtain s1 s2 r where "file_create [65] 8 8 False s = (Ok (s1, Inl r) :: (unit, _) outcome)" "frs_release i s1 = (Ok s2 :: (unit, _) outcome)" "file_visible (fs_counter s2 ! i)"
    by auto
  then show ?thesis using s(1) by blast
qed

text \<open>A search for a file can lose an index: a reader that has looked at a file of another name gives its reference back without looking whether it was the last one.
  When the only user has dropped the file in the meantime, the file is gone and its index is never free again.\<close>

theorem find_race_loses_index:
  assumes "frs_wf s" and "frs_room 2 s" and "i < MAX_NUMBER_OF_ENTRIES" and "refs (fs_counter s ! i) = 1" and "file_visible (fs_counter s ! i)"
    and "\<not> is_persistent (details_new (fs_counter s ! i))"
  shows "\<exists>s1 s2 s3. find_visit i s = (Ok (s1, True) :: ('e, _) outcome) \<and> frs_release i s1 = (Ok s2 :: ('e, _) outcome) \<and> find_leave i s2 = (Ok s3 :: ('e, _) outcome)
    \<and> \<not> in_use (fs_counter s3 ! i) \<and> word_of_nat i \<notin> set (uis_free (fs_ids s3))"
proof -
  let ?s = "\<lambda>n. set_refs i n s"
  have l: "i < length (fs_counter s)" using assms(1,3) by (simp add: frs_wf_def)
  have 1: "find_visit i s = (Ok (?s 2, True) :: ('e, _) outcome)" using assms(4,5) l by (simp add: find_visit_def on_counter_def numeral_2_eq_2)
  have 2: "frs_release i (?s 2) = (Ok (?s 1) :: ('e, _) outcome)" using decrement_keep [of i "?s 2"] l by (simp add: frs_release_def)
  have 3: "find_leave i (?s 1) = (Ok (?s 0) :: ('e, _) outcome)" using l by (simp add: find_leave_def on_counter_def)
  have "\<not> in_use (fs_counter (?s 0) ! i)" using assms(6) l by (simp add: in_use_def)
  moreover have "word_of_nat i \<notin> set (uis_free (fs_ids s))" using assms(1,3,4) unfolding frs_wf_def in_use_def by simp
  ultimately show ?thesis using 1 2 3 by (intro exI [of _ "?s 2"] exI [of _ "?s 1"] exI [of _ "?s 0"]) simp
qed

theorem find_race_loses_index_witness:
  "\<exists>s s1 s2 s3 i. dir_run s [(i, \<lparr>fe_name = [65], fe_offset = 0, fe_len = 8\<rparr>)] True \<and> find_visit i s = (Ok (s1, True) :: (unit, _) outcome)
    \<and> frs_release i s1 = (Ok s2 :: (unit, _) outcome) \<and> find_leave i s2 = (Ok s3 :: (unit, _) outcome) \<and> word_of_nat i \<notin> set (uis_free (fs_ids s3))"
proof -
  obtain s i where s: "dir_run s [(i, \<lparr>fe_name = [65], fe_offset = 0, fe_len = 8\<rparr>)] True" "frs_room 2 s"
    "details_new (fs_counter s ! i) = (new_details False)\<lparr>is_initialized := True\<rparr>"
    using default_create [of "[65]" 0 8 False] by auto
  note inv = dir_run_inv [OF s(1), THEN conjunct1]
  have i: "i < MAX_NUMBER_OF_ENTRIES" using dir_invD(2) [OF inv] by auto
  have v: "refs (fs_counter s ! i) = 1" "file_visible (fs_counter s ! i)" "\<not> is_persistent (details_new (fs_counter s ! i))"
    using s(3) by (simp_all add: file_state_defs refs_def)
  show ?thesis using find_race_loses_index [OF dir_invD(1) [OF inv] s(2) i v, where ?'e = unit] s(1) by blast
qed

end
