(* ===== verification/EventBuilder.thy ===== *)
theory EventBuilder
  imports ServiceLifetime
begin

text \<open>
  \<^verbatim>\<open>service/builder/event.rs\<close>: creating and opening an event service, and the life of a service that builders of both messaging patterns create and
  open under the same name. As in \<open>PubSubBuilder\<close>, a call returns the world after it together with its result, and waiting is a list of observations.
\<close>

section \<open>The builder\<close>

datatype ev_open_error =
  EvDoesNotExist | EvOpenPermissionDenied | EventInCorruptedState | EvIncompatibleMessagingPattern | EvOpenInternalFailure | EvHangsInCreation
| DoesNotSupportRequestedAmountOfNotifiers | DoesNotSupportRequestedAmountOfListeners | EvUnableToOpenDynamicServiceInformation

datatype ev_create_error =
  EvCorrupted | EvCreateInternalFailure | EvIsBeingCreatedByAnotherInstance | EvAlreadyExists | EvCreatePermissionDenied
| EvUnableToCreateStaticServiceInformation

datatype ev_open_or_create_error = EventOpenError ev_open_error | EventCreateError ev_create_error

record ev_builder =
  vb_config :: service_config
  vb_global :: global_entries
  vb_verify_max_notifiers :: bool
  vb_verify_max_listeners :: bool

definition vb_new :: "service_config \<Rightarrow> global_entries \<Rightarrow> ev_builder" where
  "vb_new config g =
     \<lparr>vb_config = config\<lparr>sc_pattern := Event (ev_static_new g)\<rparr>, vb_global = g, vb_verify_max_notifiers = False, vb_verify_max_listeners = False\<rparr>"

definition event_service_builder :: "svc_env \<Rightarrow> u8 list \<Rightarrow> global_entries \<Rightarrow> ev_builder" where
  "event_service_builder env name g = vb_new (new_event_config env name g) g"

definition ev_config_details_mut :: "(ev_static \<Rightarrow> ev_static) \<Rightarrow> ev_builder \<Rightarrow> ('e, ev_builder) outcome" where
  "ev_config_details_mut f b =
     (case sc_pattern (vb_config b) of
        Event v \<Rightarrow> Ok (b\<lparr>vb_config := (vb_config b)\<lparr>sc_pattern := Event (f v)\<rparr>\<rparr>)
      | PublishSubscribe _ \<Rightarrow> Panic)"

definition vb_max_notifiers :: "usize \<Rightarrow> ev_builder \<Rightarrow> ('e, ev_builder) outcome" where
  "vb_max_notifiers v b = omap (\<lambda>b. b\<lparr>vb_verify_max_notifiers := True\<rparr>) (ev_config_details_mut (\<lambda>c. c\<lparr>sc_max_notifiers := v\<rparr>) b)"

definition vb_max_listeners :: "usize \<Rightarrow> ev_builder \<Rightarrow> ('e, ev_builder) outcome" where
  "vb_max_listeners v b = omap (\<lambda>b. b\<lparr>vb_verify_max_listeners := True\<rparr>) (ev_config_details_mut (\<lambda>c. c\<lparr>sc_max_listeners := v\<rparr>) b)"

definition ev_verify_service_properties :: "ev_builder \<Rightarrow> service_config \<Rightarrow> (ev_open_error, ev_static) outcome" where
  "ev_verify_service_properties b existing_config =
     obind (sc_event (vb_config b)) (\<lambda>required.
       case sc_pattern existing_config of
         PublishSubscribe _ \<Rightarrow> Err EvIncompatibleMessagingPattern
       | Event existing \<Rightarrow>
           if vb_verify_max_notifiers b \<and> sc_max_notifiers existing < sc_max_notifiers required
           then Err DoesNotSupportRequestedAmountOfNotifiers
           else if vb_verify_max_listeners b \<and> sc_max_listeners existing < sc_max_listeners required
           then Err DoesNotSupportRequestedAmountOfListeners
           else Ok existing)"

text \<open>The branch of \<^verbatim>\<open>open\<close> for a service that exists.\<close>

definition ev_open_existing ::
  "ev_builder \<Rightarrow> service_config \<Rightarrow> static_storage \<Rightarrow> 'i world \<Rightarrow> 'i world \<times> (ev_open_error, service_handle) outcome" where
  "ev_open_existing b static_config static_storage w =
     (case open_dynamic_config_storage (vb_config b) (vb_global b) w of
        Ok (w1, dynamic_config) \<Rightarrow>
          (w1, omap (\<lambda>c. \<lparr>sv_config = (vb_config b)\<lparr>sc_pattern := Event c\<rparr>, sv_dynamic = dynamic_config, sv_static = static_storage\<rparr>)
                 (ev_verify_service_properties b static_config))
      | Err _ \<Rightarrow> (w, Err EvUnableToOpenDynamicServiceInformation)
      | Panic \<Rightarrow> (w, Panic) | UB \<Rightarrow> (w, UB))"

fun ev_open_loop ::
  "svc_env \<Rightarrow> ev_builder \<Rightarrow> ('i world \<times> nat option) list \<Rightarrow> ('i world \<times> (ev_open_error, service_handle) outcome) option" where
  "ev_open_loop env b [] = None"
| "ev_open_loop env b ((w, waited) # rest) =
     (case is_service_available env (vb_config b) (vb_global b) w of
        Ok None \<Rightarrow> Some (w, Err EvDoesNotExist)
      | Ok (Some (static_config, static_storage)) \<Rightarrow> Some (ev_open_existing b static_config static_storage w)
      | Err IsBeingCreatedByAnotherInstance \<Rightarrow>
          (case waited of
             None \<Rightarrow> Some (w, Err EvOpenInternalFailure)
           | Some timeout \<Rightarrow> if g_creation_timeout (vb_global b) < timeout then Some (w, Err EvHangsInCreation) else ev_open_loop env b rest)
      | Err PermissionDenied \<Rightarrow> Some (w, Err EvOpenPermissionDenied)
      | Err IncompatibleMessagingPattern \<Rightarrow> Some (w, Err EvOpenPermissionDenied)
      | Err Corrupted \<Rightarrow> Some (w, Err EventInCorruptedState)
      | Panic \<Rightarrow> Some (w, Panic) | UB \<Rightarrow> Some (w, UB))"

text \<open>\<open>wait_created\<close>: whether the adaptive wait could be created.\<close>

definition ev_open ::
  "svc_env \<Rightarrow> bool \<Rightarrow> ev_builder \<Rightarrow> ('i world \<times> nat option) list \<Rightarrow> ('i world \<times> (ev_open_error, service_handle) outcome) option" where
  "ev_open env wait_created b observations =
     (case observations of
        [] \<Rightarrow> None
      | (w, t) # rest \<Rightarrow> if wait_created then ev_open_loop env b observations else Some (w, Err EvOpenInternalFailure))"

definition adjust_ev :: "ev_static \<Rightarrow> ev_static" where
  "adjust_ev settings =
     (let s1 = (if sc_max_notifiers settings = 0 then settings\<lparr>sc_max_notifiers := 1\<rparr> else settings)
      in if sc_max_listeners s1 = 0 then s1\<lparr>sc_max_listeners := 1\<rparr> else s1)"

text \<open>The branch of \<^verbatim>\<open>create\<close> for a service that does not exist.\<close>

definition ev_create_new :: "svc_env \<Rightarrow> ev_builder \<Rightarrow> 'i world \<Rightarrow> 'i world \<times> (ev_create_error, service_handle) outcome" where
  "ev_create_new env b w =
     (case create_static_config_storage (vb_config b) (vb_global b) w of
        Err _ \<Rightarrow> (w, Err EvUnableToCreateStaticServiceInformation)
      | Panic \<Rightarrow> (w, Panic) | UB \<Rightarrow> (w, UB)
      | Ok (w1, static_config) \<Rightarrow>
          (case obind (sc_event (vb_config b)) (\<lambda>c.
              let settings = \<lparr>number_of_listeners = sc_max_listeners c, number_of_notifiers = sc_max_notifiers c\<rparr>
              in obind (evd_memory_size (env_size_of_id env) (env_align_of_id env) settings) (\<lambda>size.
                 create_dynamic_config_storage env (vb_config b) (vb_global b) (DynEvent (evd_new settings)) size w1)) of
             Err _ \<Rightarrow> (w1, Err EvCreateInternalFailure)
           | Panic \<Rightarrow> (w1, Panic) | UB \<Rightarrow> (w1, UB)
           | Ok (w2, dynamic_config) \<Rightarrow>
               (case env_serialize env (vb_config b) of
                  None \<Rightarrow> (w2, Err EvCorrupted)
                | Some service_config \<Rightarrow>
                    (case static_unlock static_config service_config (w_static w2) of
                       Err _ \<Rightarrow> (w2, Err EvCorrupted)
                     | Panic \<Rightarrow> (w2, Panic) | UB \<Rightarrow> (w2, UB)
                     | Ok (r, unlocked) \<Rightarrow>
                         (w2\<lparr>w_static := r\<rparr>, Ok \<lparr>sv_config = vb_config b, sv_dynamic = dynamic_config, sv_static = unlocked\<rparr>)))))"

definition ev_create :: "svc_env \<Rightarrow> ev_builder \<Rightarrow> 'i world \<Rightarrow> 'i world \<times> (ev_create_error, service_handle) outcome" where
  "ev_create env b w =
     (case ev_config_details_mut adjust_ev b of
        Ok b1 \<Rightarrow>
          (case is_service_available env (vb_config b1) (vb_global b1) w of
             Ok None \<Rightarrow> ev_create_new env b1 w
           | Ok (Some _) \<Rightarrow> (w, Err EvAlreadyExists)
           | Err IncompatibleMessagingPattern \<Rightarrow> (w, Err EvAlreadyExists)
           | Err PermissionDenied \<Rightarrow> (w, Err EvCreatePermissionDenied)
           | Err Corrupted \<Rightarrow> (w, Err EvCorrupted)
           | Err IsBeingCreatedByAnotherInstance \<Rightarrow> (w, Err EvIsBeingCreatedByAnotherInstance)
           | Panic \<Rightarrow> (w, Panic) | UB \<Rightarrow> (w, UB))
      | Err e \<Rightarrow> (w, Err e) | Panic \<Rightarrow> (w, Panic) | UB \<Rightarrow> (w, UB))"

text \<open>The first observation is the world in which the availability is checked; the call goes on with the others.\<close>

definition ev_open_or_create ::
  "svc_env \<Rightarrow> bool \<Rightarrow> ev_builder \<Rightarrow> 'i world \<Rightarrow> ('i world \<times> nat option) list
     \<Rightarrow> ('i world \<times> (ev_open_or_create_error, service_handle) outcome) option" where
  "ev_open_or_create env wait_created b w observations =
     (case is_service_available env (vb_config b) (vb_global b) w of
        Ok None \<Rightarrow> (case observations of [] \<Rightarrow> None | (w1, _) # _ \<Rightarrow> Some (apsnd (map_err EventCreateError) (ev_create env b w1)))
      | Ok (Some _) \<Rightarrow> map_option (apsnd (map_err EventOpenError)) (ev_open env wait_created b observations)
      | Err IsBeingCreatedByAnotherInstance \<Rightarrow> map_option (apsnd (map_err EventOpenError)) (ev_open env wait_created b observations)
      | Err Corrupted \<Rightarrow> Some (w, Err (EventOpenError EventInCorruptedState))
      | Err IncompatibleMessagingPattern \<Rightarrow> Some (w, Err (EventOpenError EvIncompatibleMessagingPattern))
      | Err PermissionDenied \<Rightarrow> Some (w, Err (EventOpenError EvOpenPermissionDenied))
      | Panic \<Rightarrow> Some (w, Panic) | UB \<Rightarrow> Some (w, UB))"

section \<open>What the builder does to a service\<close>

definition ev_builder_for :: "global_entries \<Rightarrow> u8 list \<Rightarrow> ev_builder \<Rightarrow> bool" where
  "ev_builder_for g uuid b \<longleftrightarrow> vb_global b = g \<and> sc_uuid (vb_config b) = uuid \<and> (\<exists>v. sc_pattern (vb_config b) = Event v)"

definition ev_details :: "ev_builder \<Rightarrow> ev_static" where
  "ev_details b = (case sc_pattern (vb_config b) of Event v \<Rightarrow> v | PublishSubscribe _ \<Rightarrow> undefined)"

definition ev_created_config :: "ev_builder \<Rightarrow> service_config" where
  "ev_created_config b = (vb_config b)\<lparr>sc_pattern := Event (adjust_ev (ev_details b))\<rparr>"

text \<open>There is memory for the ports.\<close>

definition ev_memory_ok :: "svc_env \<Rightarrow> ev_static \<Rightarrow> bool" where
  "ev_memory_ok env c \<longleftrightarrow> sc_max_listeners c + 1 < 2 ^ 32 \<and> sc_max_notifiers c + 1 < 2 ^ 32 \<and> 0 < env_size_of_id env
     \<and> (\<exists>k. env_align_of_id env = 2 ^ k)
     \<and> (\<exists>m a. env_address env = Some a
         \<and> evd_memory_size (env_size_of_id env) (env_align_of_id env)
             \<lparr>number_of_listeners = sc_max_listeners c, number_of_notifiers = sc_max_notifiers c\<rparr> = (Ok m :: (dynamic_create_error, _) outcome)
         \<and> a + env_size_of_config env + m + env_align_of_id env + 4 < usize_lim)"

lemma adjust_ev_counts: "0 < sc_max_listeners (adjust_ev c)" "0 < sc_max_notifiers (adjust_ev c)"
  by (simp_all add: adjust_ev_def Let_def)

lemma ev_builder_details:
  assumes "ev_builder_for g uuid b"
  shows "sc_event (vb_config b) = (Ok (ev_details b) :: ('e, _) outcome)" and "ev_config_details_mut f b = (Ok (b\<lparr>vb_config := (vb_config b)\<lparr>sc_pattern := Event (f (ev_details b))\<rparr>\<rparr>) :: ('e, _) outcome)"
    and "sc_uuid (vb_config b) = uuid" and "vb_global b = g" and "sc_pattern (vb_config b) = Event (ev_details b)"
  using assms by (auto simp: ev_builder_for_def sc_event_def ev_config_details_mut_def ev_details_def)

lemma ev_created_config_simps [simp]:
  "sc_uuid (ev_created_config b) = sc_uuid (vb_config b)" "sc_pattern (ev_created_config b) = Event (adjust_ev (ev_details b))"
  by (simp_all add: ev_created_config_def)

lemma ev_create_start:
  assumes "ev_builder_for g uuid b"
  shows "ev_create env b w = (case is_service_available env (ev_created_config b) g w of
             Ok None \<Rightarrow> ev_create_new env (b\<lparr>vb_config := ev_created_config b\<rparr>) w
           | Ok (Some _) \<Rightarrow> (w, Err EvAlreadyExists)
           | Err IncompatibleMessagingPattern \<Rightarrow> (w, Err EvAlreadyExists)
           | Err PermissionDenied \<Rightarrow> (w, Err EvCreatePermissionDenied)
           | Err Corrupted \<Rightarrow> (w, Err EvCorrupted)
           | Err IsBeingCreatedByAnotherInstance \<Rightarrow> (w, Err EvIsBeingCreatedByAnotherInstance)
           | Panic \<Rightarrow> (w, Panic) | UB \<Rightarrow> (w, UB))"
  by (simp add: ev_create_def ev_builder_details [OF assms] ev_created_config_def [symmetric])

lemma ev_create_ok:
  assumes "svc_at g uuid l" and "svc_usage env l (w :: 'i world) None" and "ev_builder_for g uuid b" and "serializer_ok env (ev_created_config b)"
    and "ev_memory_ok env (adjust_ev (ev_details b))"
  shows "\<exists>w' h. ev_create env b w = (w', Ok h) \<and> svc_usage env l w' (Some (ev_created_config b, dr_next (w_dynamic w), 1))
    \<and> handle_at l (dr_next (w_dynamic w)) h \<and> sv_config h = ev_created_config b
    \<and> (\<exists>d. dc_event (dynamic_get (w_dynamic w') (sv_dynamic h)) = (Ok d :: (unit, _) outcome)
         \<and> ports_fresh (sc_max_listeners (adjust_ev (ev_details b))) (dyn_listeners d) \<and> ports_fresh (sc_max_notifiers (adjust_ev (ev_details b))) (dyn_notifiers d))"
proof -
  let ?c = "adjust_ev (ev_details b)" and ?b = "b\<lparr>vb_config := ev_created_config b\<rparr>"
  note B = ev_builder_details [OF assms(3)]
  have u: "sc_uuid (ev_created_config b) = uuid" using B(3) by simp
  let ?settings = "\<lparr>number_of_listeners = sc_max_listeners ?c, number_of_notifiers = sc_max_notifiers ?c\<rparr>"
  obtain m a k where m: "env_address env = Some a" "evd_memory_size (env_size_of_id env) (env_align_of_id env) ?settings = (Ok m :: (dynamic_create_error, _) outcome)"
    "a + env_size_of_config env + m + env_align_of_id env + 4 < usize_lim" "env_align_of_id env = 2 ^ k" "0 < env_size_of_id env"
    "sc_max_listeners ?c + 1 < 2 ^ 32" "sc_max_notifiers ?c + 1 < 2 ^ 32" using assms(5) by (auto simp: ev_memory_ok_def)
  have "psd_memory_size (env_size_of_id env) (env_align_of_id env) \<lparr>number_of_subscribers = sc_max_listeners ?c, number_of_publishers = sc_max_notifiers ?c\<rparr>
      = (Ok m :: (dynamic_create_error, _) outcome)" using m(2) by (simp add: psd_memory_size_def evd_memory_size_def)
  from ports_init_fit(2) [OF adjust_ev_counts(1) m(6) adjust_ev_counts(2) m(7,5,4) this m(3), where ?'e = dynamic_create_error and ?'i = 'i]
  obtain al and dd :: "'i ev_dynamic" where init: "evd_init (env_size_of_id env) (env_align_of_id env) (bump_new (a + env_size_of_config env) m) (evd_new ?settings)
      = (Ok (al, dd) :: (dynamic_create_error, _) outcome)" and fresh: "ports_fresh (sc_max_listeners ?c) (dyn_listeners dd)" "ports_fresh (sc_max_notifiers ?c) (dyn_notifiers dd)" by blast
  have i: "dc_init (env_size_of_id env) (env_align_of_id env) (bump_new (a + env_size_of_config env) m) (dc_new_uninit (DynEvent (evd_new ?settings)))
    = (Ok (al, \<lparr>dc_pattern = DynEvent dd, dc_counter = 1\<rparr>) :: (dynamic_create_error, _) outcome)" using init by (simp add: dc_init_def dc_new_uninit_def)
  from create_storages [OF assms(1,2) u assms(4) m(1) i] obtain w1 locked w2 dy bytes r unlocked where
    st: "create_static_config_storage (ev_created_config b) g w = Ok (w1, locked)"
      "create_dynamic_config_storage env (ev_created_config b) g (DynEvent (evd_new ?settings)) m w1 = Ok (w2, dy)"
      "env_serialize env (ev_created_config b) = Some bytes" "static_unlock locked bytes (w_static w2) = Ok (r, unlocked)"
    and fin: "svc_usage env l (w2\<lparr>w_static := r\<rparr>) (Some (ev_created_config b, dr_next (w_dynamic w), 1))"
      "handle_at l (dr_next (w_dynamic w)) \<lparr>sv_config = ev_created_config b, sv_dynamic = dy, sv_static = unlocked\<rparr>"
      "dynamic_get (w_dynamic w2) dy = \<lparr>dc_pattern = DynEvent dd, dc_counter = 1\<rparr>"
    by (auto simp del: svc_usage.simps)
  have "ev_create_new env ?b w = (w2\<lparr>w_static := r\<rparr>, Ok \<lparr>sv_config = ev_created_config b, sv_dynamic = dy, sv_static = unlocked\<rparr>)"
    unfolding ev_create_new_def using st m(2) B(4) by (simp add: sc_event_def Let_def)
  then show ?thesis using ev_create_start [OF assms(3), of env w] available_none [OF assms(1,2) u] fin fresh by (simp add: dc_event_def del: svc_usage.simps)
qed

lemma ev_create_exists:
  assumes "svc_at g uuid l" and "svc_usage env l w (Some (c, d, k))" and "sc_uuid c = uuid" and "ev_builder_for g uuid b"
  shows "ev_create env b w = (w, Err EvAlreadyExists)"
proof -
  have u: "sc_uuid (ev_created_config b) = uuid" using ev_builder_details(3) [OF assms(4)] by simp
  show ?thesis using available_some [OF assms(1,2) u assms(3)] available_other [OF assms(1,2) u assms(3)] ev_create_start [OF assms(4), of env w]
    by (cases "has_same_messaging_pattern c (ev_created_config b)") auto
qed

lemma ev_open_none:
  assumes "svc_at g uuid l" and "svc_usage env l w None" and "ev_builder_for g uuid b"
  shows "ev_open env True b [(w, t)] = Some (w, Err EvDoesNotExist)"
  using available_none [OF assms(1,2) ev_builder_details(3) [OF assms(3)]] by (simp add: ev_open_def ev_builder_details(4) [OF assms(3)])

definition ev_verify_errors :: "ev_open_error set" where
  "ev_verify_errors = {DoesNotSupportRequestedAmountOfNotifiers, DoesNotSupportRequestedAmountOfListeners}"

text \<open>Opening a service of the other pattern is refused, with the error for missing permissions.\<close>

lemma ev_open_some:
  assumes "svc_at g uuid l" and "svc_usage env l w (Some (c, d, k))" and "sc_uuid c = uuid" and "ev_builder_for g uuid b" and "k < 2 ^ 64 - 3"
    and "ev_open env True b [(w, t)] = Some (w', r)"
  shows "(case sc_pattern c of PublishSubscribe _ \<Rightarrow> w' = w \<and> r = Err EvOpenPermissionDenied
    | Event e \<Rightarrow> svc_usage env l w' (Some (c, d, k + 1))
       \<and> ((\<exists>h. r = Ok h \<and> handle_at l d h \<and> sc_pattern (sv_config h) = sc_pattern c) \<or> (\<exists>e \<in> ev_verify_errors. r = Err e)))"
proof (cases "sc_pattern c")
  case (PublishSubscribe v)
  then have "\<not> has_same_messaging_pattern c (vb_config b)" using ev_builder_details(5) [OF assms(4)] by (simp add: has_same_messaging_pattern_def)
  from available_other [OF assms(1,2) ev_builder_details(3) [OF assms(4)] assms(3) this] show ?thesis
    using assms(6) PublishSubscribe by (simp add: ev_open_def ev_builder_details(4) [OF assms(4)])
next
  case (Event e)
  note B = ev_builder_details [OF assms(4)]
  have same: "has_same_messaging_pattern c (vb_config b)" using B(5) Event by (simp add: has_same_messaging_pattern_def)
  obtain s where s: "is_service_available env (vb_config b) g w = Ok (Some (c, s))" "st_name s = loc_name l" "st_config s = loc_static l" "\<not> st_ownership s"
    using available_some [OF assms(1,2) B(3) assms(3) same] by blast
  obtain w1 y where y: "open_dynamic_config_storage (vb_config b) g w = Ok (w1, y)" "svc_usage env l w1 (Some (c, d, k + 1))"
      "dy_name y = loc_name l" "dy_config y = loc_dynamic l" "dy_data y = d" "\<not> dy_ownership y" using open_dynamic_some [OF assms(1,2) B(3) assms(5)] by blast
  have wr: "(w', r) = (w1, omap (\<lambda>p. \<lparr>sv_config = (vb_config b)\<lparr>sc_pattern := Event p\<rparr>, sv_dynamic = y, sv_static = s\<rparr>) (ev_verify_service_properties b c))"
    using assms(6) s(1) y(1) B(4) by (simp add: ev_open_def ev_open_existing_def)
  have "ev_verify_service_properties b c = Ok e \<or> (\<exists>x \<in> ev_verify_errors. ev_verify_service_properties b c = Err x)"
    by (simp add: ev_verify_service_properties_def B(1) Event ev_verify_errors_def)
  then have "(\<exists>h. r = Ok h \<and> handle_at l d h \<and> sc_pattern (sv_config h) = Event e) \<or> (\<exists>x \<in> ev_verify_errors. r = Err x)"
    using wr s(2-4) y(3-6) by (auto simp: handle_at_def)
  then show ?thesis using wr y(2) Event by (simp del: svc_usage.simps)
qed

text \<open>\<^verbatim>\<open>open\<close> leaves its loop at the latest in the iteration in which the waiting exceeds the timeout for the creation of a service or fails.\<close>

lemma ev_open_returns:
  assumes "(w, waited) \<in> set observations" and "case waited of None \<Rightarrow> True | Some t \<Rightarrow> g_creation_timeout (vb_global b) < t"
  shows "\<exists>r. ev_open_loop env b observations = Some r"
  using assms
proof (induction observations)
  case (Cons x rest)
  obtain v t where x: "x = (v, t)" by (cases x)
  show ?case
  proof (cases "is_service_available env (vb_config b) (vb_global b) v = Err IsBeingCreatedByAnotherInstance \<and> t \<noteq> None \<and> the t \<le> g_creation_timeout (vb_global b)")
    case True
    then have "ev_open_loop env b (x # rest) = ev_open_loop env b rest" by (auto simp: x)
    moreover have "(w, waited) \<in> set rest" using Cons.prems True x by (auto split: option.splits)
    ultimately show ?thesis using Cons.IH Cons.prems(2) by simp
  qed (auto simp: x split: outcome.splits option.splits service_state.splits)
qed simp

section \<open>Users of both patterns\<close>

inductive ev_call :: "'i service_call" for env g uuid w w' where
  ev_creates: "ev_builder_for g uuid b \<Longrightarrow> serializer_ok env (ev_created_config b) \<Longrightarrow> ev_memory_ok env (adjust_ev (ev_details b))
    \<Longrightarrow> ev_create env b w = (w', r) \<Longrightarrow> ev_call env g uuid w w' (ok_value r) False"
| ev_opens: "ev_builder_for g uuid b \<Longrightarrow> ev_open env True b [(w, t)] = Some (w', r)
    \<Longrightarrow> ev_call env g uuid w w' (ok_value r) (\<exists>e \<in> ev_verify_errors. r = Err e)"

lemma ev_call_unused:
  assumes "svc_at g uuid l" and "svc_usage env l w None" and "ev_call env g uuid w w' h f"
  shows "\<not> f \<and> (w' = w \<and> h = None \<or> (\<exists>s c d. h = Some s \<and> sc_uuid c = uuid \<and> svc_usage env l w' (Some (c, d, 1)) \<and> handle_at l d s \<and> sc_pattern (sv_config s) = sc_pattern c))"
  using assms(3)
proof cases
  case (ev_creates b r)
  from ev_create_ok [OF assms(1,2) ev_creates(3-5)] ev_creates(6) obtain s where "r = Ok s" "svc_usage env l w' (Some (ev_created_config b, dr_next (w_dynamic w), 1))"
    "handle_at l (dr_next (w_dynamic w)) s" "sv_config s = ev_created_config b" by (auto simp del: svc_usage.simps)
  moreover have "sc_uuid (ev_created_config b) = uuid" using ev_builder_details(3) [OF ev_creates(3)] by simp
  ultimately show ?thesis using ev_creates(1,2)
    by (intro conjI disjI2 exI [of _ s] exI [of _ "ev_created_config b"] exI [of _ "dr_next (w_dynamic w)"]) (simp_all add: ok_value_def del: svc_usage.simps)
next
  case (ev_opens b t r)
  then show ?thesis using ev_open_none [OF assms(1,2) ev_opens(3), of t] by (auto simp: ok_value_def ev_verify_errors_def)
qed

lemma ev_call_used:
  assumes "svc_at g uuid l" and "svc_usage env l w (Some (c, d, k))" and "sc_uuid c = uuid" and "k < 2 ^ 64 - 3" and "ev_call env g uuid w w' h f"
  shows "w' = w \<and> h = None \<and> \<not> f
      \<or> svc_usage env l w' (Some (c, d, k + 1)) \<and> (h = None \<and> f \<or> (\<exists>s. h = Some s \<and> \<not> f \<and> handle_at l d s \<and> sc_pattern (sv_config s) = sc_pattern c))"
  using assms(5)
proof cases
  case (ev_creates b r)
  then show ?thesis using ev_create_exists [OF assms(1-3) ev_creates(3)] by (auto simp: ok_value_def)
next
  case (ev_opens b t r)
  from ev_open_some [OF assms(1-3) ev_opens(3) assms(4) ev_opens(4)] ev_opens(1,2) show ?thesis
    by (cases "sc_pattern c") (auto simp: ok_value_def ev_verify_errors_def simp del: svc_usage.simps)
qed

interpretation ev: service_client ev_call
  using ev_call_unused ev_call_used by unfold_locales

text \<open>Both kinds of builders on one name.\<close>

definition any_call :: "'i service_call" where
  "any_call env g uuid w w' h f \<longleftrightarrow> ps_call env g uuid w w' h f \<or> ev_call env g uuid w w' h f"

interpretation both: service_client any_call
proof unfold_locales
  show "\<not> f \<and> (w' = w \<and> h = None \<or> (\<exists>s c d. h = Some s \<and> sc_uuid c = uuid \<and> svc_usage env l w' (Some (c, d, 1)) \<and> handle_at l d s \<and> sc_pattern (sv_config s) = sc_pattern c))"
    if "svc_at g uuid l" "svc_usage env l w None" "any_call env g uuid w w' h f" for g uuid l env w w' h f
    using that(3) ps_call_unused [OF that(1,2)] ev_call_unused [OF that(1,2)] unfolding any_call_def by blast
  show "w' = w \<and> h = None \<and> \<not> f
      \<or> svc_usage env l w' (Some (c, d, k + 1)) \<and> (h = None \<and> f \<or> (\<exists>s. h = Some s \<and> \<not> f \<and> handle_at l d s \<and> sc_pattern (sv_config s) = sc_pattern c))"
    if "svc_at g uuid l" "svc_usage env l w (Some (c, d, k))" "sc_uuid c = uuid" "k < 2 ^ 64 - 3" "any_call env g uuid w w' h f" for g uuid l env w c d k w' h f
    using that(5) ps_call_used [OF that(1-4)] ev_call_used [OF that(1-4)] unfolding any_call_def by blast
qed

text \<open>C14: the life of a service over any sequence of calls that create it, open it and drop it, by publish-subscribe builders and event builders with the same
  service name. As long as it is in use, the description and the dynamic configuration are registered, all users have the same messaging pattern with the same settings, and the
  reference counter is the number of users; when the last user drops it, both storages are gone and the service can be created anew, with either
  pattern. Dropping never panics. The counter also contains every call of \<^verbatim>\<open>open\<close> that failed because of the properties: after one
  such failure the service outlives all of its users.\<close>

theorem service_lifetime:
  assumes "svc_run any_call env g uuid l w hs failed" and "svc_at g uuid l"
  shows "(if hs = [] \<and> failed = 0 then svc_usage env l w None
          else \<exists>c d. svc_usage env l w (Some (c, d, length hs + failed)) \<and> (\<forall>h \<in> set hs. sc_pattern (sv_config h) = sc_pattern c))
       \<and> (\<forall>h \<in> set hs. \<exists>w'. service_drop h w = (Ok w' :: (unit, _) outcome))"
  by (rule both.run_lifetime [OF assms])

theorem service_lifetime_witness:
  "\<exists>l (w :: nat world) h w'. svc_at entries_default [48, 97] l \<and> svc_run any_call example_env entries_default [48, 97] l w [h] 0
    \<and> (\<exists>c d. svc_usage example_env l w (Some (c, d, 1))) \<and> service_drop h w = (Ok w' :: (unit, _) outcome)"
proof -
  obtain l where l: "svc_at entries_default [48, 97] l" using default_location by blast
  obtain w :: "nat world" and h where c: "ps_call example_env entries_default [48, 97] empty_world w (Some h) False" using example_created [OF l] by blast
  have e: "svc_usage example_env l (empty_world :: nat world) None" by (simp add: empty_world_def)
  from c have "any_call example_env entries_default [48, 97] empty_world w (Some h) False" by (simp add: any_call_def)
  from svc_run.svc_call [where call = any_call, OF svc_start [OF e] _ this] have r: "svc_run any_call example_env entries_default [48, 97] l w [h] 0" by simp
  have "(\<exists>c d. svc_usage example_env l w (Some (c, d, 1))) \<and> (\<exists>w'. service_drop h w = (Ok w' :: (unit, _) outcome))"
    using service_lifetime [OF r l] by (auto simp del: svc_usage.simps)
  then show ?thesis using l r by blast
qed

text \<open>The builder of an event service on a name that a publish-subscribe service uses: nothing changes, and \<^verbatim>\<open>open\<close> names the permissions as the reason.\<close>

lemma other_pattern_refused:
  assumes "svc_at g uuid l" and "svc_usage env l w (Some (c, d, k))" and "sc_uuid c = uuid" and "sc_pattern c = PublishSubscribe v" and "ev_builder_for g uuid b"
  shows "ev_create env b w = (w, Err EvAlreadyExists)" and "ev_open env True b ((w, t) # rest) = Some (w, Err EvOpenPermissionDenied)"
    and "ev_open_or_create env wait_created b w observations = Some (w, Err (EventOpenError EvIncompatibleMessagingPattern))"
proof -
  note B = ev_builder_details [OF assms(5)]
  have "\<not> has_same_messaging_pattern c (vb_config b)" using B(5) assms(4) by (simp add: has_same_messaging_pattern_def)
  from available_other [OF assms(1,2) B(3) assms(3) this] show "ev_open env True b ((w, t) # rest) = Some (w, Err EvOpenPermissionDenied)"
    "ev_open_or_create env wait_created b w observations = Some (w, Err (EventOpenError EvIncompatibleMessagingPattern))"
    by (simp_all add: ev_open_def ev_open_or_create_def B(4))
qed (rule ev_create_exists [OF assms(1-3,5)])

end
