(* ===== verification/PosixCondVar.thy ===== *)
theory PosixCondVar
  imports Interleaving
begin

text \<open>
  \<^verbatim>\<open>elkodon_bb/posix/src/condition_variable.rs\<close>: \<^verbatim>\<open>ConditionVariable\<close>, a value behind a mutex with one predicate on which threads wait. One step is
  one call of the operating system or one section of code that runs while the mutex is held.

  The operating system: blocking in \<^verbatim>\<open>pthread_cond_wait\<close> releases the mutex in the same instant; a blocked thread returns when a signal has released it, spuriously, or
  when its time is up, and has the mutex again. \<open>pcv_waiters\<close> counts the blocked threads that no signal has released, \<open>pcv_wakeups\<close> those that a signal
  has released and that have not returned. How many threads a signal releases is the parameter \<open>signal_wakes\<close>; \<open>posix_signal\<close> is what the standard says
  about it: at least one when any are blocked. \<open>pcv_swallowed\<close> is a history that no step looks at: it counts the waits with a time limit that a signal or a spurious
  return has woken and that gave up without looking at the value again.

  What the user does with the value are parameters as well: \<open>pcv_modifiers\<close> are passed to \<^verbatim>\<open>modify_notify_one\<close> and \<^verbatim>\<open>modify_notify_all\<close> or written through the
  guard of \<^verbatim>\<open>notify_one\<close> and \<^verbatim>\<open>notify_all\<close>; \<open>pcv_uses\<close> are written through the guard that a wait returns, \<open>pcv_writes\<close> through the guard of \<^verbatim>\<open>lock\<close>.
\<close>

section \<open>The condition variable\<close>

record 'v pcv_state =
  pcv_locked :: bool
  pcv_val :: 'v
  pcv_waiters :: nat
  pcv_wakeups :: nat
  pcv_swallowed :: nat

record 'v pcv_user =
  pcv_predicate :: "'v \<Rightarrow> bool"
  pcv_modifiers :: "('v \<Rightarrow> 'v) set"
  pcv_uses :: "('v \<Rightarrow> 'v) set"
  pcv_writes :: "('v \<Rightarrow> 'v) set"
  signal_wakes :: "nat \<Rightarrow> nat \<Rightarrow> bool"
  may_wait_timed :: bool

datatype pcv_error = MutexLockFailed | ClockFailed | WaitFailed

datatype pcv_result = PcvFinished | PcvTimeout | PcvError pcv_error

text \<open>The remaining duration of \<^verbatim>\<open>timed_wait_while\<close> is \<open>Some d\<close>, the wait without a limit \<open>None\<close>. The flag of a notification says whether it is for all.\<close>

datatype 'v pcv_pc =
  PcvIdle
| PcvLockWait "nat option" | PcvCheck "nat option" | PcvAsleep "nat option" | PcvRelock "nat option" bool
| PcvWaited | PcvUsed | PcvGiveUp pcv_result
| PcvLockModify "'v \<Rightarrow> 'v" bool | PcvModified bool | PcvTrigger bool
| PcvLockGuard "bool option" "'v \<Rightarrow> 'v" | PcvWritten bool | PcvUnlock
| PcvDone pcv_result | PcvPanicked

definition pcv_new :: "'v \<Rightarrow> 'v pcv_state" where
  "pcv_new v = \<lparr>pcv_locked = False, pcv_val = v, pcv_waiters = 0, pcv_wakeups = 0, pcv_swallowed = 0\<rparr>"

definition pcv_acquire :: "'v pcv_state \<Rightarrow> 'v pcv_state" where
  "pcv_acquire s = s\<lparr>pcv_locked := True\<rparr>"

definition pcv_unlock :: "'v pcv_state \<Rightarrow> 'v pcv_state" where
  "pcv_unlock s = s\<lparr>pcv_locked := False\<rparr>"

definition pcv_block :: "'v pcv_state \<Rightarrow> 'v pcv_state" where
  "pcv_block s = s\<lparr>pcv_locked := False, pcv_waiters := pcv_waiters s + 1\<rparr>"

definition pcv_swallow :: "'v pcv_state \<Rightarrow> 'v pcv_state" where
  "pcv_swallow s = s\<lparr>pcv_swallowed := pcv_swallowed s + 1\<rparr>"

definition pcv_release :: "nat \<Rightarrow> 'v pcv_state \<Rightarrow> 'v pcv_state" where
  "pcv_release k s = s\<lparr>pcv_waiters := pcv_waiters s - k, pcv_wakeups := pcv_wakeups s + k\<rparr>"

text \<open>The number of threads that \<^verbatim>\<open>trigger_one\<close> and \<^verbatim>\<open>trigger_all\<close> release.\<close>

definition triggers :: "'v pcv_user \<Rightarrow> bool \<Rightarrow> nat \<Rightarrow> nat \<Rightarrow> bool" where
  "triggers u notify_all n k \<longleftrightarrow> k \<le> n \<and> (if notify_all then k = n else signal_wakes u n k)"

definition posix_signal :: "(nat \<Rightarrow> nat \<Rightarrow> bool) \<Rightarrow> bool" where
  "posix_signal wakes \<longleftrightarrow> (\<forall>n k. wakes n k \<longrightarrow> 0 < n \<longrightarrow> 0 < k)"

inductive pcv_thread :: "'v pcv_user \<Rightarrow> 'v pcv_state \<Rightarrow> 'v pcv_pc \<Rightarrow> 'v pcv_state \<Rightarrow> 'v pcv_pc \<Rightarrow> bool" for u where
  call_wait: "pcv_thread u s PcvIdle s (PcvLockWait None)"
| call_timed_wait: "may_wait_timed u \<Longrightarrow> pcv_thread u s PcvIdle s (PcvLockWait (Some timeout))"
| call_modify: "m \<in> pcv_modifiers u \<Longrightarrow> pcv_thread u s PcvIdle s (PcvLockModify m a)"
| call_notify: "m \<in> pcv_modifiers u \<Longrightarrow> pcv_thread u s PcvIdle s (PcvLockGuard (Some a) m)"
| call_lock: "m \<in> pcv_writes u \<Longrightarrow> pcv_thread u s PcvIdle s (PcvLockGuard None m)"
| call_trigger: "pcv_thread u s PcvIdle s (PcvTrigger a)"
| lock_fails: "pc \<in> range PcvLockWait \<union> {PcvLockModify m a, PcvLockGuard g m} \<Longrightarrow> pcv_thread u s pc s (PcvDone (PcvError MutexLockFailed))"
| lock_wait: "\<not> pcv_locked s \<Longrightarrow> pcv_thread u s (PcvLockWait r) (pcv_acquire s) (PcvCheck r)"
| check_true: "pcv_predicate u (pcv_val s) \<Longrightarrow> pcv_thread u s (PcvCheck r) s PcvWaited"
| check_block: "\<not> pcv_predicate u (pcv_val s) \<Longrightarrow> pcv_thread u s (PcvCheck r) (pcv_block s) (PcvAsleep r)"
| check_wait_fails: "\<not> pcv_predicate u (pcv_val s) \<Longrightarrow> pcv_thread u s (PcvCheck r) s (PcvGiveUp (PcvError WaitFailed))"
| check_clock_fails: "\<not> pcv_predicate u (pcv_val s) \<Longrightarrow> pcv_thread u s (PcvCheck (Some d)) s (PcvGiveUp (PcvError ClockFailed))"
| wake: "0 < pcv_wakeups s \<Longrightarrow> pcv_thread u s (PcvAsleep r) (s\<lparr>pcv_wakeups := pcv_wakeups s - 1\<rparr>) (PcvRelock r True)"
| wake_spurious: "0 < pcv_waiters s \<Longrightarrow> pcv_thread u s (PcvAsleep r) (s\<lparr>pcv_waiters := pcv_waiters s - 1\<rparr>) (PcvRelock r True)"
| wake_timeout: "0 < pcv_waiters s \<Longrightarrow> pcv_thread u s (PcvAsleep (Some d)) (s\<lparr>pcv_waiters := pcv_waiters s - 1\<rparr>) (PcvRelock (Some d) False)"
| relock_wait: "\<not> pcv_locked s \<Longrightarrow> pcv_thread u s (PcvRelock None True) (pcv_acquire s) (PcvCheck None)"
| relock_timed: "\<not> pcv_locked s \<Longrightarrow> elapsed < d \<Longrightarrow> pcv_thread u s (PcvRelock (Some d) True) (pcv_acquire s) (PcvCheck (Some (d - elapsed)))"
| relock_too_late: "\<not> pcv_locked s \<Longrightarrow> d \<le> elapsed \<Longrightarrow> pcv_thread u s (PcvRelock (Some d) True) (pcv_swallow (pcv_acquire s)) (PcvGiveUp PcvTimeout)"
| relock_clock_fails: "\<not> pcv_locked s \<Longrightarrow> pcv_thread u s (PcvRelock (Some d) True) (pcv_swallow (pcv_acquire s)) (PcvGiveUp (PcvError ClockFailed))"
| relock_timeout: "\<not> pcv_locked s \<Longrightarrow> pcv_thread u s (PcvRelock (Some d) False) (pcv_acquire s) (PcvGiveUp PcvTimeout)"
| give_up: "pcv_thread u s (PcvGiveUp result) (pcv_unlock s) (PcvDone result)"
| use_value: "m \<in> pcv_uses u \<Longrightarrow> pcv_thread u s PcvWaited (s\<lparr>pcv_val := m (pcv_val s)\<rparr>) PcvUsed"
| drop_guard: "pcv_thread u s PcvUsed (pcv_unlock s) (PcvDone PcvFinished)"
| lock_modify: "\<not> pcv_locked s \<Longrightarrow> pcv_thread u s (PcvLockModify m a) (pcv_acquire s\<lparr>pcv_val := m (pcv_val s)\<rparr>) (PcvModified a)"
| unlock_modify: "pcv_thread u s (PcvModified a) (pcv_unlock s) (PcvTrigger a)"
| trigger: "triggers u a (pcv_waiters s) k \<Longrightarrow> pcv_thread u s (PcvTrigger a) (pcv_release k s) (PcvDone PcvFinished)"
| trigger_fails: "pcv_thread u s (PcvTrigger a) s PcvPanicked"
| lock_notify: "\<not> pcv_locked s \<Longrightarrow> pcv_thread u s (PcvLockGuard (Some a) m) (pcv_acquire s\<lparr>pcv_val := m (pcv_val s)\<rparr>) (PcvWritten a)"
| trigger_guard: "triggers u a (pcv_waiters s) k \<Longrightarrow> pcv_thread u s (PcvWritten a) (pcv_release k s) PcvUnlock"
| trigger_guard_fails: "pcv_thread u s (PcvWritten a) (pcv_unlock s) PcvPanicked"
| lock_write: "\<not> pcv_locked s \<Longrightarrow> pcv_thread u s (PcvLockGuard None m) (pcv_acquire s\<lparr>pcv_val := m (pcv_val s)\<rparr>) PcvUnlock"
| unlock_guard: "pcv_thread u s PcvUnlock (pcv_unlock s) (PcvDone PcvFinished)"
| next_call: "pcv_thread u s (PcvDone result) s PcvIdle"

section \<open>Exclusion\<close>

fun pcv_holds :: "'v pcv_pc \<Rightarrow> bool" where
  "pcv_holds (PcvCheck _) \<longleftrightarrow> True" | "pcv_holds PcvWaited \<longleftrightarrow> True" | "pcv_holds PcvUsed \<longleftrightarrow> True" | "pcv_holds (PcvGiveUp _) \<longleftrightarrow> True"
| "pcv_holds (PcvModified _) \<longleftrightarrow> True" | "pcv_holds (PcvWritten _) \<longleftrightarrow> True" | "pcv_holds PcvUnlock \<longleftrightarrow> True" | "pcv_holds _ \<longleftrightarrow> False"

text \<open>A trigger that fails panics; the guard that is being dropped unlocks the mutex while the thread unwinds.\<close>

lemmas pcv_state_defs = pcv_acquire_def pcv_unlock_def pcv_block_def pcv_release_def pcv_swallow_def pcv_new_def

lemma pcv_effect:
  assumes "pcv_thread u s pc s' pc'" and "pcv_holds pc \<Longrightarrow> pcv_locked s"
  shows "\<exists>e. lock_effect_ok e (0, pcv_locked s) (False, pcv_holds pc) (0, pcv_locked s') (False, pcv_holds pc')"
proof -
  have "pcv_locked s' = pcv_locked s \<and> pcv_holds pc' = pcv_holds pc \<or> \<not> pcv_locked s \<and> pcv_locked s' \<and> \<not> pcv_holds pc \<and> pcv_holds pc'
    \<or> pcv_holds pc \<and> \<not> pcv_locked s' \<and> \<not> pcv_holds pc'"
    using assms(1) by cases (auto simp: pcv_state_defs)
  then show ?thesis
  proof (elim disjE conjE)
    assume "pcv_locked s' = pcv_locked s" "pcv_holds pc' = pcv_holds pc"
    then show ?thesis by (intro exI [of _ Keeps]) simp
  next
    assume "\<not> pcv_locked s" "pcv_locked s'" "\<not> pcv_holds pc" "pcv_holds pc'"
    then show ?thesis by (intro exI [of _ TakesWrite]) simp
  next
    assume "pcv_holds pc" "\<not> pcv_locked s'" "\<not> pcv_holds pc'"
    then show ?thesis using assms(2) by (intro exI [of _ DropsWrite]) simp
  qed
qed

interpretation pcv: rw_exclusion "pcv_thread u" "pcv_new v" PcvIdle "\<lambda>s. (0, pcv_locked s)" "\<lambda>pc. (False, pcv_holds pc)" "\<lambda>_. True" n for u v n
proof unfold_locales
  fix s pc s' pc'
  assume "pcv_thread u s pc s' pc'" and "snd (False, pcv_holds pc) \<Longrightarrow> snd (0, pcv_locked s)"
  then show "True \<and> (\<exists>e. lock_effect_ok e (0, pcv_locked s) (False, pcv_holds pc) (0, pcv_locked s') (False, pcv_holds pc'))"
    using pcv_effect [of u s pc s' pc'] by simp
qed (simp_all add: pcv_new_def)

section \<open>The predicate\<close>

text \<open>Only the holder of the mutex changes the value.\<close>

lemma pcv_value:
  assumes "pcv_thread u s pc s' pc'"
  shows "pcv_val s' = pcv_val s \<or> \<not> pcv_locked s \<and> pc' \<noteq> PcvWaited \<or> pc = PcvWaited \<and> pc' = PcvUsed"
  using assms by cases (auto simp: pcv_state_defs)

lemma waited_value:
  assumes "conc_reach n (pcv_thread u) (pcv_new v) PcvIdle s f" and "t < n" and "f t = PcvWaited"
  shows "pcv_predicate u (pcv_val s)"
  using assms
proof (induction arbitrary: t rule: conc_reach.induct)
  case (step s f t' s' pc)
  note reach = conc_reach.step [OF step.hyps]
  have excl: "\<not> pcv_holds (f x)" if "x < n" "y < n" "x \<noteq> y" "pcv_holds (f y)" for x y
    using pcv.exclusion [OF step.hyps(1) le_refl that(2,1)] that(3,4) by simp
  have lock: "pcv_locked s" if "x < n" "pcv_holds (f x)" for x
    using pcv.recorded(2) [OF step.hyps(1) le_refl] that by auto
  show ?case
  proof (cases "t = t'")
    case True
    then have w: "pc = PcvWaited" using step.prems(2) by simp
    from step.hyps(3) show ?thesis unfolding w by cases (auto split: if_splits)
  next
    case False
    then have ft: "f t = PcvWaited" using step.prems(2) by simp
    then have "pcv_predicate u (pcv_val s)" "pcv_locked s" "f t' \<noteq> PcvWaited"
      using step.IH [OF step.prems(1)] lock [OF step.prems(1)] excl [OF step.hyps(2) step.prems(1)] False by auto
    then show ?thesis using pcv_value [OF step.hyps(3)] by auto
  qed
qed simp

section \<open>Wake-ups\<close>

text \<open>A thread that still has to look at the predicate, or that still has to signal.\<close>

fun attentive :: "'v pcv_pc \<Rightarrow> bool" where
  "attentive (PcvRelock _ b) \<longleftrightarrow> b" | "attentive (PcvCheck _) \<longleftrightarrow> True" | "attentive PcvWaited \<longleftrightarrow> True" | "attentive (PcvModified _) \<longleftrightarrow> True"
| "attentive (PcvTrigger _) \<longleftrightarrow> True" | "attentive (PcvWritten _) \<longleftrightarrow> True" | "attentive _ \<longleftrightarrow> False"

fun is_timed :: "'v pcv_pc \<Rightarrow> bool" where
  "is_timed (PcvLockWait (Some _)) \<longleftrightarrow> True" | "is_timed (PcvCheck (Some _)) \<longleftrightarrow> True" | "is_timed (PcvAsleep (Some _)) \<longleftrightarrow> True"
| "is_timed (PcvRelock (Some _) _) \<longleftrightarrow> True" | "is_timed (PcvRelock _ False) \<longleftrightarrow> True" | "is_timed _ \<longleftrightarrow> False"

fun asked :: "'v pcv_user \<Rightarrow> 'v pcv_pc \<Rightarrow> bool" where
  "asked u (PcvLockModify m _) \<longleftrightarrow> m \<in> pcv_modifiers u" | "asked u (PcvLockGuard (Some _) m) \<longleftrightarrow> m \<in> pcv_modifiers u"
| "asked u (PcvLockGuard None m) \<longleftrightarrow> m \<in> pcv_writes u" | "asked u _ \<longleftrightarrow> True"

lemma asked_step: "pcv_thread u s pc s' pc' \<Longrightarrow> asked u pc \<Longrightarrow> asked u pc'"
  by (cases rule: pcv_thread.cases) auto

lemma is_timed_iff [simp]:
  "is_timed (PcvLockWait r) \<longleftrightarrow> r \<noteq> None" "is_timed (PcvCheck r) \<longleftrightarrow> r \<noteq> None" "is_timed (PcvAsleep r) \<longleftrightarrow> r \<noteq> None"
  "is_timed (PcvRelock r b) \<longleftrightarrow> r \<noteq> None \<or> \<not> b"
  by (cases r; cases b; simp)+

lemma untimed_step: "pcv_thread u s pc s' pc' \<Longrightarrow> \<not> may_wait_timed u \<Longrightarrow> \<not> is_timed pc \<Longrightarrow> \<not> is_timed pc'"
  by (cases rule: pcv_thread.cases) auto

lemma pcv_pcs:
  assumes "conc_reach n (pcv_thread u) (pcv_new v) PcvIdle s f"
  shows "asked u (f t)" and "\<not> may_wait_timed u \<Longrightarrow> \<not> is_timed (f t)"
proof -
  have "(\<forall>t. asked u (f t)) \<and> (\<not> may_wait_timed u \<longrightarrow> (\<forall>t. \<not> is_timed (f t)))"
    using assms
  proof (induction rule: conc_reach.induct)
    case (step s f t' s' pc)
    then show ?case using asked_step [OF step.hyps(3)] untimed_step [OF step.hyps(3)] by auto
  qed simp
  then show "asked u (f t)" and "\<not> may_wait_timed u \<Longrightarrow> \<not> is_timed (f t)" by auto
qed

text \<open>A wait without a time limit swallows no wake-up.\<close>

lemma untimed_swallows_nothing:
  assumes "conc_reach n (pcv_thread u) (pcv_new v) PcvIdle s f" and "\<not> may_wait_timed u"
  shows "pcv_swallowed s = 0"
  using assms
proof (induction rule: conc_reach.induct)
  case (step s f t s' pc)
  from step.hyps(3) pcv_pcs(2) [OF step.hyps(1) step.prems, of t] step.IH [OF step.prems] show ?case by cases (auto simp: pcv_state_defs)
qed (simp add: pcv_new_def)

text \<open>A notifier whose signal failed; it never goes on.\<close>

fun is_panicked :: "'v pcv_pc \<Rightarrow> bool" where
  "is_panicked PcvPanicked \<longleftrightarrow> True" | "is_panicked _ \<longleftrightarrow> False"

text \<open>Every blocked thread is counted.\<close>

fun is_asleep :: "'v pcv_pc \<Rightarrow> bool" where
  "is_asleep (PcvAsleep _) \<longleftrightarrow> True" | "is_asleep _ \<longleftrightarrow> False"

lemma asleep_step:
  assumes "pcv_thread u s pc s' pc'"
  shows "pcv_waiters s' + pcv_wakeups s' + of_bool (is_asleep pc) = pcv_waiters s + pcv_wakeups s + of_bool (is_asleep pc')"
  using assms by cases (auto simp: pcv_state_defs triggers_def)

lemma asleep_counted:
  assumes "conc_reach n (pcv_thread u) (pcv_new v) PcvIdle s f"
  shows "pcv_waiters s + pcv_wakeups s = number n is_asleep f"
  using assms
proof (induction rule: conc_reach.induct)
  case (step s f t s' pc)
  show ?case using step.IH asleep_step [OF step.hyps(3)] number_upd [OF step.hyps(2), of is_asleep f pc] by linarith
qed (simp add: pcv_new_def)

lemma triggers_some: "posix_signal (signal_wakes u) \<Longrightarrow> triggers u a n k \<Longrightarrow> 0 < n \<Longrightarrow> 0 < k \<and> k \<le> n"
  by (auto simp: triggers_def posix_signal_def split: if_splits)

text \<open>What a user has to obey so that a signal per modification is enough: \<open>need\<close> counts how many waiters can go on.\<close>

locale counted_user =
  fixes u :: "'v pcv_user" and need :: "'v \<Rightarrow> nat" and wf :: "'v \<Rightarrow> bool"
  assumes pcv_predicate: "pcv_predicate u v \<longleftrightarrow> 0 < need v"
    and modifier: "m \<in> pcv_modifiers u \<Longrightarrow> wf v \<Longrightarrow> need (m v) \<le> need v + 1"
    and used: "m \<in> pcv_uses u \<Longrightarrow> wf v \<Longrightarrow> 0 < need v \<Longrightarrow> need (m v) < need v"
    and written: "m \<in> pcv_writes u \<Longrightarrow> wf v \<Longrightarrow> need (m v) \<le> need v"
    and keeps_wf: "m \<in> pcv_modifiers u \<union> pcv_uses u \<union> pcv_writes u \<Longrightarrow> wf v \<Longrightarrow> wf (m v)"
begin

text \<open>One step changes the two sides of the invariant by at most this.\<close>

lemma need_step:
  assumes "pcv_thread u s pc s' pc'" and "asked u pc" and "pc = PcvWaited \<Longrightarrow> 0 < need (pcv_val s)" and "0 < pcv_waiters s'" and "wf (pcv_val s)"
    and "posix_signal (signal_wakes u)"
  shows "need (pcv_val s') = 0 \<or> 0 < pcv_waiters s \<and>
    need (pcv_val s') + pcv_wakeups s + pcv_swallowed s + of_bool (attentive pc) + of_bool (is_panicked pc)
      \<le> need (pcv_val s) + pcv_wakeups s' + pcv_swallowed s' + of_bool (attentive pc') + of_bool (is_panicked pc')"
  using assms(1)
proof cases
  case (use_value m)
  then show ?thesis using used [of m "pcv_val s"] assms(3-5) by simp
next
  case (trigger a k)
  then show ?thesis using triggers_some [OF assms(6), of a "pcv_waiters s" k] assms(4) by (auto simp: pcv_state_defs)
next
  case (trigger_guard a k)
  then show ?thesis using triggers_some [OF assms(6), of a "pcv_waiters s" k] assms(4) by (auto simp: pcv_state_defs)
next
  case (lock_modify m a)
  then show ?thesis using modifier [of m "pcv_val s"] assms(2,4,5) by (simp add: pcv_state_defs)
next
  case (lock_notify a m)
  then show ?thesis using modifier [of m "pcv_val s"] assms(2,4,5) by (simp add: pcv_state_defs)
next
  case (lock_write m)
  then show ?thesis using written [of m "pcv_val s"] assms(2,4,5) by (simp add: pcv_state_defs)
qed (use assms pcv_predicate in \<open>auto simp: pcv_state_defs\<close>)

lemma value_wf:
  assumes "conc_reach n (pcv_thread u) (pcv_new v) PcvIdle s f" and "wf v"
  shows "wf (pcv_val s)"
  using assms
proof (induction rule: conc_reach.induct)
  case (step s f t s' pc)
  from step.hyps(3) pcv_pcs(1) [OF step.hyps(1), of t] keeps_wf step.IH step.prems show ?case by cases (auto simp: pcv_state_defs)
qed (simp add: pcv_new_def)

lemma wakeups_suffice:
  assumes "conc_reach n (pcv_thread u) (pcv_new v) PcvIdle s f" and "wf v" and "posix_signal (signal_wakes u)"
  shows "0 < pcv_waiters s \<longrightarrow> need (pcv_val s) \<le> pcv_wakeups s + pcv_swallowed s + number n attentive f + number n is_panicked f"
  using assms
proof (induction rule: conc_reach.induct)
  case (step s f t s' pc)
  note n = number_upd [OF step.hyps(2), of attentive f pc] number_upd [OF step.hyps(2), of is_panicked f pc]
  have w: "f t = PcvWaited \<Longrightarrow> 0 < need (pcv_val s)" using waited_value [OF step.hyps(1,2)] pcv_predicate by blast
  show ?case
  proof
    assume "0 < pcv_waiters s'"
    from need_step [OF step.hyps(3) pcv_pcs(1) [OF step.hyps(1)] w this value_wf [OF step.hyps(1) step.prems(1)] step.prems(2)]
    show "need (pcv_val s') \<le> pcv_wakeups s' + pcv_swallowed s' + number n attentive (f(t := pc)) + number n is_panicked (f(t := pc))" using n step.IH step.prems by auto
  qed
qed (simp add: pcv_new_def)

lemma blocked_means_swallowed:
  assumes "conc_reach n (pcv_thread u) (pcv_new v) PcvIdle s f" and "wf v" and "posix_signal (signal_wakes u)" and "t < n" and "is_asleep (f t)" and "pcv_wakeups s = 0" and "\<forall>t < n. \<not> attentive (f t)"
  shows "need (pcv_val s) \<le> pcv_swallowed s + number n is_panicked f"
proof -
  have "0 < pcv_waiters s" using asleep_counted [OF assms(1)] number_pos [of t n is_asleep f] assms(4-6) by simp
  then show ?thesis using wakeups_suffice [OF assms(1-3)] assms(6,7) number_eq_0 [of n attentive f] by simp
qed

end

end
