(* ===== verification/UniqueSystemId.thy ===== *)
theory UniqueSystemId
  imports Interleaving
begin

unbundle bit_operations_syntax

text \<open>
  \<^verbatim>\<open>elkodon_bb/posix/src/unique_system_id.rs\<close>: the ids of ports. An id packs the process id, the seconds and the nanoseconds of the monotonic clock at its
  creation; the last nanoseconds are kept in a static word, and a call takes only a time whose nanoseconds differ from them.

  The clock is part of the shared state, in nanoseconds; it advances between two steps by any amount. Reading it and each access to the
  static word is one step. When the clock fails the call ends with its error.
\<close>

type_synonym u128 = "128 word"

definition uid_value :: "u32 \<Rightarrow> u64 \<Rightarrow> u32 \<Rightarrow> u128" where
  "uid_value pid seconds nanoseconds = push_bit 96 (ucast pid) OR push_bit 32 (ucast seconds) OR ucast nanoseconds"

definition uid_pid :: "u128 \<Rightarrow> u32" where
  "uid_pid v = ucast (drop_bit 96 v)"

definition uid_creation_time :: "u128 \<Rightarrow> u64 \<times> u32" where
  "uid_creation_time v = (ucast (drop_bit 64 (push_bit 32 v)), ucast (drop_bit 96 (push_bit 96 v)))"

definition nanos_of :: "nat \<Rightarrow> u32" where
  "nanos_of t = word_of_nat (t mod 10 ^ 9)"

definition seconds_of :: "nat \<Rightarrow> u64" where
  "seconds_of t = word_of_nat (t div 10 ^ 9)"

definition uid_at :: "u32 \<Rightarrow> nat \<Rightarrow> u128" where
  "uid_at pid t = uid_value pid (seconds_of t) (nanos_of t)"

record uid_shared =
  last_nanoseconds :: u32
  uid_clock :: nat

datatype uid_pc = UidIdle | UidTime u32 | UidExchange u32 nat | UidDone u128 | FailedToAcquireTime

fun uid_step :: "u32 \<Rightarrow> uid_shared \<Rightarrow> uid_pc \<Rightarrow> uid_shared \<times> uid_pc" where
  "uid_step pid s UidIdle = (s, UidTime (last_nanoseconds s))"
| "uid_step pid s (UidTime previous_nanoseconds) =
     (s, if nanos_of (uid_clock s) \<noteq> previous_nanoseconds then UidExchange previous_nanoseconds (uid_clock s) else UidTime previous_nanoseconds)"
| "uid_step pid s (UidExchange previous_nanoseconds now) =
     (if last_nanoseconds s = previous_nanoseconds then (s\<lparr>last_nanoseconds := nanos_of now\<rparr>, UidDone (uid_at pid now))
      else (s, UidTime (last_nanoseconds s)))"
| "uid_step pid s pc = (s, pc)"

inductive uid_thread :: "u32 \<Rightarrow> uid_shared \<Rightarrow> uid_pc \<Rightarrow> uid_shared \<Rightarrow> uid_pc \<Rightarrow> bool" for pid where
  uid_work: "uid_step pid s pc = (s', pc') \<Longrightarrow> uid_clock s \<le> t \<Longrightarrow> uid_thread pid s pc (s'\<lparr>uid_clock := t\<rparr>) pc'"
| uid_clock_fails: "uid_thread pid s (UidTime previous_nanoseconds) s FailedToAcquireTime"

definition uid_start :: "nat \<Rightarrow> uid_shared" where
  "uid_start t = \<lparr>last_nanoseconds = 0, uid_clock = t\<rparr>"

section \<open>Packing\<close>

lemma uid_unpack:
  "uid_pid (uid_value p s n) = p" "uid_creation_time (uid_value p s n) = (s, n)"
proof -
  show "uid_pid (uid_value p s n) = p" unfolding uid_pid_def uid_value_def
    by (rule bit_word_eqI) (auto simp: bit_simps dest: bit_imp_le_length)
  have "ucast (drop_bit 64 (push_bit 32 (uid_value p s n))) = s" unfolding uid_value_def
    by (rule bit_word_eqI) (auto simp: bit_simps dest: bit_imp_le_length)
  moreover have "ucast (drop_bit 96 (push_bit 96 (uid_value p s n))) = n" unfolding uid_value_def
    by (rule bit_word_eqI) (auto simp: bit_simps dest: bit_imp_le_length)
  ultimately show "uid_creation_time (uid_value p s n) = (s, n)" by (simp add: uid_creation_time_def)
qed

section \<open>Calls that do not overlap\<close>

text \<open>\<open>uid_seq pid l calls\<close>: the calls of one process so far, one after the other, the newest first, with the time that the call took for its id. A call that finds
  the nanoseconds unchanged reads the clock again, so that only the last reading counts.\<close>

inductive uid_seq :: "u32 \<Rightarrow> u32 \<Rightarrow> (nat \<times> u128) list \<Rightarrow> bool" for pid where
  uid_none: "uid_seq pid 0 []"
| uid_next: "uid_seq pid l calls \<Longrightarrow> (\<And>u v. (u, v) \<in> set calls \<Longrightarrow> u \<le> t) \<Longrightarrow>
    uid_step pid \<lparr>last_nanoseconds = l, uid_clock = t\<rparr> UidIdle = (s0, pc0) \<Longrightarrow> uid_step pid s0 pc0 = (s1, pc1) \<Longrightarrow> uid_step pid s1 pc1 = (s2, UidDone v) \<Longrightarrow>
    uid_seq pid (last_nanoseconds s2) ((t, v) # calls)"

lemma uid_call:
  assumes "uid_step pid \<lparr>last_nanoseconds = l, uid_clock = t\<rparr> UidIdle = (s0, pc0)" and "uid_step pid s0 pc0 = (s1, pc1)" and "uid_step pid s1 pc1 = (s2, UidDone v)"
  shows "nanos_of t \<noteq> l" and "v = uid_at pid t" and "last_nanoseconds s2 = nanos_of t"
  using assms by (auto split: if_splits)

lemma uid_seq_nextI: "uid_seq pid l calls \<Longrightarrow> (\<And>u v. (u, v) \<in> set calls \<Longrightarrow> u \<le> t) \<Longrightarrow> nanos_of t \<noteq> l \<Longrightarrow> uid_seq pid (nanos_of t) ((t, uid_at pid t) # calls)"
  using uid_next [of pid l calls t "\<lparr>last_nanoseconds = l, uid_clock = t\<rparr>" "UidTime l" "\<lparr>last_nanoseconds = l, uid_clock = t\<rparr>" "UidExchange l t"
    "\<lparr>last_nanoseconds = nanos_of t, uid_clock = t\<rparr>" "uid_at pid t"] by simp

lemma uid_seq_times:
  "uid_seq pid l calls \<Longrightarrow> sorted_wrt (>) (map fst calls) \<and> (\<forall>(u, v) \<in> set calls. v = uid_at pid u) \<and> (calls \<noteq> [] \<longrightarrow> l = nanos_of (fst (hd calls)))"
proof (induction rule: uid_seq.induct)
  case (uid_next l calls t s0 pc0 s1 pc1 s2 v)
  note call = uid_call [OF uid_next.hyps(3-5)]
  have "u < t" if "u \<in> fst ` set calls" for u
  proof -
    have "u \<le> fst (hd calls)" "fst (hd calls) \<le> t" "fst (hd calls) \<noteq> t" using that uid_next.IH uid_next.hyps(2) call(1) by (cases calls; force)+
    then show ?thesis by linarith
  qed
  then show ?case using uid_next.IH call(2,3) by auto
qed simp

text \<open>The time that an id gives back, in nanoseconds.\<close>

definition uid_creation_nanoseconds :: "u128 \<Rightarrow> nat" where
  "uid_creation_nanoseconds v = (case uid_creation_time v of (seconds, nanoseconds) \<Rightarrow> unat seconds * 10 ^ 9 + unat nanoseconds)"

lemma creation_of_uid_at: "u div 10 ^ 9 < 2 ^ 64 \<Longrightarrow> uid_pid (uid_at pid u) = pid \<and> uid_creation_nanoseconds (uid_at pid u) = u"
  by (simp add: uid_at_def uid_unpack uid_creation_nanoseconds_def seconds_of_def nanos_of_def unat_of_nat)

text \<open>C35: ids of calls that do not overlap are distinct, and an id gives back the process and exactly the time at which its call read the clock: as long as the seconds
  of the monotonic clock fit into their 64 bits, no two calls of a process that run one after the other return the same id.\<close>

theorem sequential_ids_distinct:
  assumes "uid_seq pid l calls" and "\<forall>(u, v) \<in> set calls. u div 10 ^ 9 < 2 ^ 64"
  shows "distinct (map snd calls) \<and> (\<forall>(u, v) \<in> set calls. uid_pid v = pid \<and> uid_creation_nanoseconds v = u)"
proof -
  note T = uid_seq_times [OF assms(1)]
  have given: "\<forall>(u, v) \<in> set calls. uid_pid v = pid \<and> uid_creation_nanoseconds v = u" using T assms(2) creation_of_uid_at by fastforce
  have "map uid_creation_nanoseconds (map snd calls) = map fst calls" using given by auto
  moreover have "distinct (map fst calls)"
  proof -
    have "distinct ts" if "sorted_wrt (>) ts" for ts :: "nat list" using that by (induction ts) auto
    then show ?thesis using T by blast
  qed
  ultimately have "distinct (map snd calls)" by (metis distinct_map)
  then show ?thesis using given by blast
qed

theorem sequential_ids_distinct_witness:
  "uid_seq 7 2 [(3 * 10 ^ 9 + 2, uid_value 7 3 2), (3 * 10 ^ 9 + 1, uid_value 7 3 1)] \<and> uid_value 7 3 2 \<noteq> uid_value 7 3 1
    \<and> uid_creation_nanoseconds (uid_value 7 3 2) = 3 * 10 ^ 9 + 2"
proof -
  have n: "nanos_of (3 * 10 ^ 9 + 1) = 1" "nanos_of (3 * 10 ^ 9 + 2) = 2" "seconds_of (3 * 10 ^ 9 + 1) = 3" "seconds_of (3 * 10 ^ 9 + 2) = 3"
    by (simp_all add: nanos_of_def seconds_of_def)
  have 1: "uid_seq 7 1 [(3 * 10 ^ 9 + 1, uid_value 7 3 1)]"
    using uid_seq_nextI [OF uid_none, of "3 * 10 ^ 9 + 1" 7] n by (simp add: uid_at_def)
  have 2: "uid_seq 7 2 [(3 * 10 ^ 9 + 2, uid_value 7 3 2), (3 * 10 ^ 9 + 1, uid_value 7 3 1)]"
    using uid_seq_nextI [OF 1, of "3 * 10 ^ 9 + 2"] n by (simp add: uid_at_def)
  show ?thesis using 2 sequential_ids_distinct [OF 2] by simp
qed

section \<open>Calls that overlap\<close>

text \<open>Ids of overlapping calls can be equal. Two threads read the same time; one of them exchanges the word and is done. A second later another call
  finds the nanoseconds at the value that they had before, so that the exchange of the thread that was asleep succeeds as well. \<close>

theorem overlapping_ids_repeat:
  "\<exists>s f v. conc_reach 3 (uid_thread pid) (uid_start 5) UidIdle s f \<and> f 0 = UidDone v \<and> f 1 = UidDone v"
proof -
  let ?S = "\<lambda>l t. \<lparr>last_nanoseconds = l, uid_clock = t\<rparr>" and ?R = "conc_reach 3 (uid_thread pid) (uid_start 5) UidIdle" and ?v = "uid_at pid 5"
  have n: "nanos_of 5 = 5" "nanos_of (10 ^ 9) = 0" by (simp_all add: nanos_of_def)
  have st: "?R (?S l' t') (f(k := pc))" if "?R (?S l t) f" "k < 3" "uid_step pid (?S l t) (f k) = (?S l' t, pc)" "t \<le> t'" for l t f k l' t' pc
    using conc_reach.step [OF that(1,2) uid_work [OF that(3), of t']] that(4) by simp
  have 0: "?R (?S 0 5) (\<lambda>_. UidIdle)" using conc_reach.start [of 3 "uid_thread pid" "uid_start 5" UidIdle] by (simp add: uid_start_def)
  have 1: "?R (?S 0 5) ((\<lambda>_. UidIdle)(0 := UidTime 0))" using st [OF 0, of 0 0 "UidTime 0" 5] by simp
  have 2: "?R (?S 0 5) ((\<lambda>_. UidIdle)(0 := UidExchange 0 5))" using st [OF 1, of 0 0 "UidExchange 0 5" 5] n by simp
  have 3: "?R (?S 0 5) ((\<lambda>_. UidIdle)(0 := UidExchange 0 5, 1 := UidTime 0))" using st [OF 2, of 1 0 "UidTime 0" 5] by simp
  have 4: "?R (?S 0 5) ((\<lambda>_. UidIdle)(0 := UidExchange 0 5, 1 := UidExchange 0 5))" using st [OF 3, of 1 0 "UidExchange 0 5" 5] n by simp
  have 5: "?R (?S 5 (10 ^ 9)) ((\<lambda>_. UidIdle)(0 := UidExchange 0 5, 1 := UidDone ?v))" using st [OF 4, of 1 5 "UidDone ?v" "10 ^ 9"] n by simp
  have 6: "?R (?S 5 (10 ^ 9)) ((\<lambda>_. UidIdle)(0 := UidExchange 0 5, 1 := UidDone ?v, 2 := UidTime 5))" using st [OF 5, of 2 5 "UidTime 5" "10 ^ 9"] by simp
  have 7: "?R (?S 5 (10 ^ 9)) ((\<lambda>_. UidIdle)(0 := UidExchange 0 5, 1 := UidDone ?v, 2 := UidExchange 5 (10 ^ 9)))"
    using st [OF 6, of 2 5 "UidExchange 5 (10 ^ 9)" "10 ^ 9"] n by simp
  have 8: "?R (?S 0 (10 ^ 9)) ((\<lambda>_. UidIdle)(0 := UidExchange 0 5, 1 := UidDone ?v, 2 := UidDone (uid_at pid (10 ^ 9))))"
    using st [OF 7, of 2 0 "UidDone (uid_at pid (10 ^ 9))" "10 ^ 9"] n by simp
  have 9: "?R (?S 5 (10 ^ 9)) ((\<lambda>_. UidIdle)(0 := UidExchange 0 5, 1 := UidDone ?v, 2 := UidDone (uid_at pid (10 ^ 9)), 0 := UidDone ?v))"
    using st [OF 8, of 0 5 "UidDone ?v" "10 ^ 9"] n by simp
  show ?thesis using 9 by (intro exI [of _ "?S 5 (10 ^ 9)"] exI [of _ "(\<lambda>_. UidIdle)(0 := UidExchange 0 5, 1 := UidDone ?v, 2 := UidDone (uid_at pid (10 ^ 9)), 0 := UidDone ?v)"] exI [of _ ?v]) simp
qed

end
