(* ===== verification/PortNames.thy ===== *)
theory PortNames
  imports ServiceLifetime UniqueSystemId
begin

text \<open>
  The names that ports derive from their ids: \<^verbatim>\<open>event_concept_name\<close> and \<^verbatim>\<open>connection_name\<close> of \<^verbatim>\<open>elkodon/src/service/mod.rs\<close>. A name consists of
  integers as \<^verbatim>\<open>to_string\<close> prints them, with an underscore in between. The lemmas show that the names are valid, never too long, and different for different ids.
\<close>

section \<open>Printing integers\<close>

fun dec_digits :: "nat \<Rightarrow> u8 list" where
  "dec_digits n = (if n < 10 then [word_of_nat (48 + n)] else dec_digits (n div 10) @ [word_of_nat (48 + n mod 10)])"

declare dec_digits.simps [simp del]

definition i32_digits :: "u32 \<Rightarrow> u8 list" where
  "i32_digits p = (if sint p < 0 then 45 # dec_digits (nat (- sint p)) else dec_digits (nat (sint p)))"

fun dec_read :: "u8 list \<Rightarrow> nat" where
  "dec_read [] = 0"
| "dec_read (c # cs) = (unat c - 48) * 10 ^ length cs + dec_read cs"

lemma dec_read_append: "dec_read (xs @ ys) = dec_read xs * 10 ^ length ys + dec_read ys"
  by (induction xs) (auto simp: algebra_simps power_add)

lemma digit_unat: "d < 10 \<Longrightarrow> unat (word_of_nat (48 + d) :: u8) = 48 + d"
proof -
  assume "d < 10"
  then have "unat (word_of_nat (48 + d) :: u8) = (48 + d) mod 2 ^ 8" by (subst unat_of_nat) simp
  then show ?thesis using \<open>d < 10\<close> by simp
qed

lemma dec_read_digits [simp]: "dec_read (dec_digits n) = n"
proof (induction n rule: dec_digits.induct)
  case (1 n)
  show ?case
  proof (cases "n < 10")
    case True
    then show ?thesis using digit_unat by (simp add: dec_digits.simps [of n])
  next
    case False
    have "dec_read (dec_digits n) = n div 10 * 10 + n mod 10"
      using False 1 digit_unat [of "n mod 10"] by (simp add: dec_digits.simps [of n] dec_read_append)
    then show ?thesis by simp
  qed
qed

lemma dec_digits_inject [simp]: "dec_digits m = dec_digits n \<longleftrightarrow> m = n"
  by (metis dec_read_digits)

lemma dec_digits_chars: "c \<in> set (dec_digits n) \<Longrightarrow> 48 \<le> unat c \<and> unat c < 58"
proof (induction n rule: dec_digits.induct)
  case (1 n)
  show ?case
  proof (cases "n < 10")
    case True
    then show ?thesis using 1 digit_unat [of n] by (simp add: dec_digits.simps [of n])
  next
    case False
    then consider "c \<in> set (dec_digits (n div 10))" | "c = word_of_nat (48 + n mod 10)" using "1.prems" by (auto simp: dec_digits.simps [of n])
    then show ?thesis using 1 False digit_unat [of "n mod 10"] by cases simp_all
  qed
qed

lemma dec_digits_length: "n < 10 ^ k \<Longrightarrow> 0 < k \<Longrightarrow> length (dec_digits n) \<le> k"
proof (induction n arbitrary: k rule: dec_digits.induct)
  case (1 n)
  show ?case
  proof (cases "n < 10")
    case True
    then show ?thesis using 1 by (simp add: dec_digits.simps [of n])
  next
    case False
    then obtain j where j: "k = Suc j" "0 < j" using 1(2,3) by (cases k; cases "k = 1") auto
    then have "n div 10 < 10 ^ j" using 1(2) by (simp add: div_less_iff_less_mult mult.commute)
    then show ?thesis using 1(1) [OF False _ j(2)] False j by (simp add: dec_digits.simps [of n])
  qed
qed

lemma dec_digits_nonempty [simp]: "dec_digits n \<noteq> []"
  by (simp add: dec_digits.simps [of n])

lemma i32_digits_props: "i32_digits p \<noteq> []" "length (i32_digits p) \<le> 11" "c \<in> set (i32_digits p) \<Longrightarrow> c = 45 \<or> 48 \<le> unat c \<and> unat c < 58"
proof -
  have "- (2 ^ 31) \<le> sint p" "sint p < 2 ^ 31" using sint_ge [of p] sint_less [of p] by simp_all
  then have "nat (- sint p) < 10 ^ 10" "nat (sint p) < 10 ^ 10" by simp_all
  then show "length (i32_digits p) \<le> 11" using dec_digits_length [of _ 10] by (fastforce simp: i32_digits_def)
  show "i32_digits p \<noteq> []" by (simp add: i32_digits_def)
  show "c \<in> set (i32_digits p) \<Longrightarrow> c = 45 \<or> 48 \<le> unat c \<and> unat c < 58" using dec_digits_chars by (auto simp: i32_digits_def split: if_splits)
qed

lemma u128_digits: "length (dec_digits (unat (v :: u128))) \<le> 39"
  using dec_digits_length [of "unat v" 39] unsigned_less [of v, where ?'a = nat] by simp

section \<open>Names\<close>

definition event_concept_name :: "u128 \<Rightarrow> (unit, byte_string) outcome" where
  "event_concept_name listener_id =
     obind (file_name_or_panic (i32_digits (uid_pid listener_id))) (\<lambda>name.
     obind (ss_or_panic (ss_push FileName name 95)) (\<lambda>(name, _).
     omap fst (ss_or_panic (ss_push_bytes FileName name (dec_digits (unat listener_id))))))"

definition connection_name :: "u128 \<Rightarrow> u128 \<Rightarrow> (unit, byte_string) outcome" where
  "connection_name publisher_id subscriber_id =
     obind (file_name_or_panic (dec_digits (unat publisher_id))) (\<lambda>name.
     obind (ss_or_panic (ss_push FileName name 95)) (\<lambda>(name, _).
     omap fst (ss_or_panic (ss_push_bytes FileName name (dec_digits (unat subscriber_id))))))"

text \<open>The part that both names share: append an underscore and the digits of an id.\<close>

lemma name_character: "c \<in> {45, 95} \<or> 48 \<le> unat c \<and> unat c < 58 \<Longrightarrow> file_name_character c"
  by (auto simp: file_name_character_def path_character_def word_le_nat_alt)

lemma no_dots: "(\<And>c. c \<in> set v \<Longrightarrow> c \<in> {45, 95} \<or> 48 \<le> unat c \<and> unat c < 58) \<Longrightarrow> v \<noteq> [] \<Longrightarrow> \<not> invalid_content FileName v"
  by (fastforce simp: FileName_def)

lemma name_push_Ok:
  assumes "ss_valid FileName s" and "cap s = FILENAME_LENGTH" and "length (content s) + length b < FILENAME_LENGTH"
    and "\<And>c. c \<in> set (content s @ b) \<Longrightarrow> c \<in> {45, 95} \<or> 48 \<le> unat c \<and> unat c < 58" and "b \<noteq> []"
  shows "\<exists>s'. ss_or_panic (ss_push_bytes FileName s b) = (Ok (s', ()) :: ('e, _) outcome) \<and> ss_valid FileName s' \<and> cap s' = FILENAME_LENGTH \<and> content s' = content s @ b"
proof -
  have wf: "bs_wf s" and l: "len s + length b \<le> cap s" "len s < cap s" using assms(1-3) length_content [of s] by (simp_all add: ss_valid_def)
  obtain s' where s': "insert_bytes s (len s) b = Ok s'" "bs_wf s'" "cap s' = cap s" "content s' = content s @ b"
    using push_bytes_Ok [OF wf l] by (auto simp: push_bytes_def)
  have ic: "\<not> invalid_content FileName (content s @ b)" using no_dots [of "content s @ b"] assms(4,5) by blast
  have cs: "file_name_character c" if "c \<in> set (content s @ b)" for c using assms(4) [OF that] name_character by blast
  have c: "\<not> invalid_characters FileName (content s @ b)" "\<not> invalid_characters FileName b"
    using cs by (auto simp: FileName_def list_ex_iff)
  have "ss_push_bytes FileName s b = (Ok (s', Inr ()) :: ('e, _) outcome)"
    using ic c(2) s' by (simp add: ss_push_bytes_def ss_insert_bytes_def as_bytes_content)
  then show ?thesis using s' ic c assms(2) by (simp add: ss_or_panic_def ss_valid_def)
qed

lemma joined_name:
  assumes "v \<noteq> []" and "length v \<le> 39" and "\<And>c. c \<in> set v \<Longrightarrow> c = 45 \<or> 48 \<le> unat c \<and> unat c < 58"
  shows "\<exists>s. obind (file_name_or_panic v) (\<lambda>name. obind (ss_or_panic (ss_push FileName name 95)) (\<lambda>(name, _).
       omap fst (ss_or_panic (ss_push_bytes FileName name (dec_digits (unat (w :: u128))))))) = Ok s
     \<and> ss_valid FileName s \<and> cap s = FILENAME_LENGTH \<and> content s = v @ 95 # dec_digits (unat w)"
proof -
  have ok: "c \<in> {45, 95} \<or> 48 \<le> unat c \<and> unat c < 58" if "c \<in> set (v @ 95 # dec_digits (unat w))" for c
    using that assms(3) dec_digits_chars [of c] by auto
  have "\<not> invalid_content FileName v" using no_dots [of v] ok assms(1) by auto
  moreover have "\<not> invalid_characters FileName v" using ok name_character by (auto simp: FileName_def list_ex_iff)
  ultimately obtain s0 where s0: "file_name_or_panic v = Ok s0" "ss_valid FileName s0" "cap s0 = FILENAME_LENGTH" "content s0 = v"
    using file_name_Ok [of v] assms(2) by (auto simp: FILENAME_LENGTH_def)
  obtain s1 where s1: "ss_or_panic (ss_push_bytes FileName s0 [95]) = (Ok (s1, ()) :: (unit, _) outcome)" "ss_valid FileName s1" "cap s1 = FILENAME_LENGTH" "content s1 = v @ [95]"
    using name_push_Ok [OF s0(2,3), of "[95]", where ?'e = unit] ok s0(4) assms(2) by (auto simp: FILENAME_LENGTH_def)
  obtain s2 where s2: "ss_or_panic (ss_push_bytes FileName s1 (dec_digits (unat w))) = (Ok (s2, ()) :: (unit, _) outcome)" "ss_valid FileName s2" "cap s2 = FILENAME_LENGTH"
    "content s2 = content s1 @ dec_digits (unat w)"
    using name_push_Ok [OF s1(2,3), of "dec_digits (unat w)", where ?'e = unit] ok s1(4) assms(2) u128_digits [of w] by (auto simp: FILENAME_LENGTH_def)
  have "ss_push FileName s0 95 = (ss_push_bytes FileName s0 [95] :: (unit, _) outcome)" by (simp add: ss_push_def ss_insert_def ss_push_bytes_def)
  then show ?thesis using s0(1) s1(1,4) s2 by simp
qed

lemma event_concept_name_Ok:
  "\<exists>s. event_concept_name v = Ok s \<and> ss_valid FileName s \<and> cap s = FILENAME_LENGTH \<and> content s = i32_digits (uid_pid v) @ 95 # dec_digits (unat v)"
  using joined_name [of "i32_digits (uid_pid v)" v] i32_digits_props [where p = "uid_pid v"] by (fastforce simp: event_concept_name_def)

lemma connection_name_Ok:
  "\<exists>s. connection_name p v = Ok s \<and> ss_valid FileName s \<and> cap s = FILENAME_LENGTH \<and> content s = dec_digits (unat p) @ 95 # dec_digits (unat v)"
  using joined_name [of "dec_digits (unat p)" v] dec_digits_chars u128_digits [of p] by (auto simp: connection_name_def)

lemma split_at_mark: "x \<notin> set a \<Longrightarrow> x \<notin> set c \<Longrightarrow> a @ x # b = c @ x # d \<longleftrightarrow> a = c \<and> b = d"
proof (induction a arbitrary: c)
  case Nil
  then show ?case by (cases c) auto
next
  case (Cons y a)
  then show ?case by (cases c) auto
qed

lemma mark_not_in_digits: "95 \<notin> set (dec_digits n)" "95 \<notin> set (i32_digits p)"
  using dec_digits_chars [of 95 n] i32_digits_props(3) [of 95 p] by auto

text \<open>The names of connections and of event concepts are valid file names for every id, creating them never panics, and different ids never
  share a name: a connection name gives back both ids, an event name the id of the listener.\<close>

theorem port_names_distinct:
  "(\<exists>name name'. connection_name p v = Ok name \<and> connection_name p' v' = Ok name' \<and> ss_valid FileName name
      \<and> (content name = content name' \<longleftrightarrow> p = p' \<and> v = v'))
   \<and> (\<exists>name name'. event_concept_name v = Ok name \<and> event_concept_name v' = Ok name' \<and> ss_valid FileName name
      \<and> (content name = content name' \<longleftrightarrow> v = v'))"
proof
  show "\<exists>name name'. connection_name p v = Ok name \<and> connection_name p' v' = Ok name' \<and> ss_valid FileName name
     \<and> (content name = content name' \<longleftrightarrow> p = p' \<and> v = v')"
    using connection_name_Ok [of p v] connection_name_Ok [of p' v'] by (auto simp: split_at_mark mark_not_in_digits word_unat_eq_iff)
  obtain s s' where s: "event_concept_name v = Ok s" "event_concept_name v' = Ok s'" "ss_valid FileName s"
    "content s = i32_digits (uid_pid v) @ 95 # dec_digits (unat v)" "content s' = i32_digits (uid_pid v') @ 95 # dec_digits (unat v')"
    using event_concept_name_Ok [of v] event_concept_name_Ok [of v'] by blast
  have "content s = content s' \<longleftrightarrow> v = v'"
  proof
    assume "content s = content s'"
    then show "v = v'" using s(4,5) by (simp add: split_at_mark mark_not_in_digits word_unat_eq_iff)
  qed (use s(4,5) in simp)
  then show "\<exists>name name'. event_concept_name v = Ok name \<and> event_concept_name v' = Ok name' \<and> ss_valid FileName name \<and> (content name = content name' \<longleftrightarrow> v = v')"
    using s(1-3) by blast
qed

end
