(* ===== verification/EventConcept.thy ===== *)
theory EventConcept
  imports PosixCondVar ContainerQueue PortNames
begin

text \<open>
  \<^verbatim>\<open>elkodon_cal/src/event/process_local.rs\<close>: events inside of a process. The listener of an event owns a queue of trigger ids behind a condition variable; notifiers
  find it by its name in a global hash map and push into it.

  The registry is like the one of the dynamic storages in \<open>ServiceStorage\<close>: \<open>er_heap\<close> maps the addresses of the queues to them. The functions are the
  calls one after the other; \<open>fault\<close> says whether a call of the operating system in them fails. The last section has the calls of many threads, as
  steps of the condition variable.
\<close>

section \<open>Events\<close>

datatype notifier_notify_error = FailedToDeliverSignal | NotifyInternalFailure
datatype notifier_open_error = EventDoesNotExist | NotifierInsufficientPermissions | NotifierInternalFailure
datatype listener_wait_error = WaitContractViolation | WaitInternalFailure
datatype listener_create_error = EventAlreadyExists | ListenerInsufficientPermissions | ListenerInternalFailure

definition EVENT_CAPACITY :: usize where "EVENT_CAPACITY = 2048"

record event_registry =
  er_lockable :: bool
  er_entries :: "(path_key \<times> nat) list"
  er_heap :: "nat \<Rightarrow> u64 container_queue"
  er_next :: nat

record event_duplex =
  ed_name :: byte_string
  ed_management :: nat

record event_builder =
  eb_name :: byte_string
  eb_config :: named_concept_config

definition event_default_config :: "('e, named_concept_config) outcome" where
  "event_default_config =
     obind (new_unchecked FILENAME_LENGTH (bytes_of ''.event'')) (\<lambda>x.
     omap (\<lambda>p. \<lparr>suffix = x, path_hint = p\<rparr>) (new_unchecked PATH_LENGTH TEMP_DIRECTORY))"

definition event_open :: "event_builder \<Rightarrow> event_registry \<Rightarrow> (notifier_open_error, event_duplex) outcome" where
  "event_open b r =
     (if \<not> er_lockable r then Err NotifierInternalFailure
      else obind (concept_path (eb_config b) (eb_name b)) (\<lambda>full_path.
        case map_of (er_entries r) full_path of
          None \<Rightarrow> Err EventDoesNotExist
        | Some management \<Rightarrow> Ok \<lparr>ed_name = eb_name b, ed_management = management\<rparr>))"

text \<open>Creating the condition variable panics when the operating system refuses it.\<close>

definition event_create :: "bool \<Rightarrow> event_builder \<Rightarrow> event_registry \<Rightarrow> (listener_create_error, event_registry \<times> event_duplex) outcome" where
  "event_create cvar_fails b r =
     (if \<not> er_lockable r then Err ListenerInternalFailure
      else obind (concept_path (eb_config b) (eb_name b)) (\<lambda>full_path.
        if map_of (er_entries r) full_path \<noteq> None then Err EventAlreadyExists
        else if cvar_fails then Panic
        else Ok (r\<lparr>er_entries := AList.update full_path (er_next r) (er_entries r),
                   er_heap := (er_heap r)(er_next r := fixed_cq_default EVENT_CAPACITY), er_next := er_next r + 1\<rparr>,
                 \<lparr>ed_name = eb_name b, ed_management = er_next r\<rparr>)))"

definition event_does_exist_cfg :: "byte_string \<Rightarrow> named_concept_config \<Rightarrow> event_registry \<Rightarrow> (does_exist_error, bool) outcome" where
  "event_does_exist_cfg name cfg r =
     (if \<not> er_lockable r then Panic else omap (\<lambda>p. map_of (er_entries r) p \<noteq> None) (concept_path cfg name))"

definition event_list_cfg :: "named_concept_config \<Rightarrow> event_registry \<Rightarrow> ('e, byte_string list) outcome" where
  "event_list_cfg cfg r = (if \<not> er_lockable r then Panic else list_names cfg (map fst (er_entries r)))"

definition event_remove_cfg :: "byte_string \<Rightarrow> named_concept_config \<Rightarrow> event_registry \<Rightarrow> ('e, event_registry \<times> bool) outcome" where
  "event_remove_cfg name cfg r =
     obind (concept_path cfg name) (\<lambda>p.
       if \<not> er_lockable r then Panic
       else Ok (r\<lparr>er_entries := AList.delete p (er_entries r)\<rparr>, map_of (er_entries r) p \<noteq> None))"

definition event_notify ::
  "bool \<Rightarrow> event_duplex \<Rightarrow> u64 \<Rightarrow> event_registry \<Rightarrow> ('e, event_registry \<times> (notifier_notify_error + unit)) outcome" where
  "event_notify fault d trigger_id r =
     (if fault then Ok (r, Inl NotifyInternalFailure)
      else omap (\<lambda>(queue, push_successful).
          (r\<lparr>er_heap := (er_heap r)(ed_management d := queue)\<rparr>, if push_successful then Inr () else Inl FailedToDeliverSignal))
        (cq_push (er_heap r (ed_management d)) trigger_id))"

text \<open>What the three waits do with the answer of the condition variable; a finished wait has the guard of the queue.\<close>

definition event_waited ::
  "pcv_result \<Rightarrow> event_duplex \<Rightarrow> event_registry \<Rightarrow> ('e, event_registry \<times> (listener_wait_error + u64 option)) outcome" where
  "event_waited result d r =
     (case result of
        PcvError _ \<Rightarrow> Ok (r, Inl WaitInternalFailure)
      | PcvTimeout \<Rightarrow> Ok (r, Inr None)
      | PcvFinished \<Rightarrow> omap (\<lambda>(queue, v). (r\<lparr>er_heap := (er_heap r)(ed_management d := queue)\<rparr>, Inr v)) (cq_pop (er_heap r (ed_management d))))"

text \<open>\<^verbatim>\<open>try_wait\<close> is a timed wait without time: it has the guard when the queue is not empty, and has timed out otherwise.\<close>

definition event_try_wait ::
  "pcv_error option \<Rightarrow> event_duplex \<Rightarrow> event_registry \<Rightarrow> ('e, event_registry \<times> (listener_wait_error + u64 option)) outcome" where
  "event_try_wait fault d r =
     event_waited (case fault of Some e \<Rightarrow> PcvError e | None \<Rightarrow> if cq_is_empty (er_heap r (ed_management d)) then PcvTimeout else PcvFinished) d r"

section \<open>Many threads\<close>

text \<open>The queue as the value of the condition variable: notifiers push, listeners pop. A push that panics leaves the queue as it is.\<close>

definition event_pushed :: "u64 \<Rightarrow> u64 container_queue \<Rightarrow> u64 container_queue" where
  "event_pushed trigger_id queue = (case (cq_push queue trigger_id :: (unit, _) outcome) of Ok (queue', _) \<Rightarrow> queue' | _ \<Rightarrow> queue)"

definition event_popped :: "u64 container_queue \<Rightarrow> u64 container_queue" where
  "event_popped queue = (case (cq_pop queue :: (unit, _) outcome) of Ok (queue', _) \<Rightarrow> queue' | _ \<Rightarrow> queue)"

definition event_user :: "(nat \<Rightarrow> nat \<Rightarrow> bool) \<Rightarrow> bool \<Rightarrow> u64 container_queue pcv_user" where
  "event_user wakes timed =
     \<lparr>pcv_predicate = (\<lambda>queue. \<not> cq_is_empty queue), pcv_modifiers = range event_pushed, pcv_uses = {event_popped}, pcv_writes = {},
      signal_wakes = wakes, may_wait_timed = timed\<rparr>"

definition event_thread :: "(nat \<Rightarrow> nat \<Rightarrow> bool) \<Rightarrow> bool \<Rightarrow> u64 container_queue pcv_state \<Rightarrow> u64 container_queue pcv_pc
    \<Rightarrow> u64 container_queue pcv_state \<Rightarrow> u64 container_queue pcv_pc \<Rightarrow> bool" where
  "event_thread wakes timed = pcv_thread (event_user wakes timed)"

definition event_new :: "u64 container_queue pcv_state" where
  "event_new = pcv_new (fixed_cq_default EVENT_CAPACITY)"

lemma event_pushed_props:
  assumes "cq_wf q"
  shows "cq_wf (event_pushed i q)" and "cq_len (event_pushed i q) \<le> cq_len q + 1"
proof -
  have "cq_wf (event_pushed i q) \<and> cq_len (event_pushed i q) \<le> cq_len q + 1"
  proof (cases "cq_push q i :: (unit, _) outcome")
    case (Ok p)
    then show ?thesis using cq_push_wf [OF assms, of i "fst p" "snd p", where ?'e = unit] by (cases p) (auto simp: event_pushed_def)
  qed (use assms in \<open>simp_all add: event_pushed_def\<close>)
  then show "cq_wf (event_pushed i q)" and "cq_len (event_pushed i q) \<le> cq_len q + 1" by simp_all
qed

lemma event_popped_props:
  assumes "cq_wf q"
  shows "cq_wf (event_popped q)" and "0 < cq_len q \<Longrightarrow> cq_len (event_popped q) < cq_len q"
proof -
  show "cq_wf (event_popped q)"
  proof (cases "cq_list q")
    case Nil
    then show ?thesis using assms cq.pop_empty [OF assms Nil] length_cq_list [OF assms] by (simp add: event_popped_def cq_pop_def cq_is_empty_def)
  next
    case (Cons x xs)
    then show ?thesis using cq_pop_ok(2) [OF assms Cons] by (simp add: event_popped_def cq_pop_ok(1) [OF assms Cons])
  qed
  assume l: "0 < cq_len q"
  then obtain x xs where q: "cq_list q = x # xs" using length_cq_list [OF assms] by (cases "cq_list q") auto
  then show "cq_len (event_popped q) < cq_len q" using l by (simp add: event_popped_def cq_pop_ok(1) [OF assms q])
qed

lemma fixed_cq_default_wf: "cq_wf (fixed_cq_default n)" "cq_list (fixed_cq_default n) = []"
  by (simp_all add: cq_wf_def cq_list_def fixed_cq_default_def)

lemma event_room:
  "0 < cq_ticks (fixed_cq_default EVENT_CAPACITY :: u64 container_queue)"
  "length (cq_list (fixed_cq_default EVENT_CAPACITY :: u64 container_queue)) < cq_capacity (fixed_cq_default EVENT_CAPACITY :: u64 container_queue)"
  unfolding fixed_cq_default_wf(2) by (simp_all add: fixed_cq_default_def cq_ticks_def EVENT_CAPACITY_def usize_lim_def)

text \<open>One signal per trigger id is enough for the listeners that look at the queue when they are woken.\<close>

interpretation event: counted_user "event_user wakes timed" cq_len cq_wf for wakes timed
  using event_pushed_props(2) by unfold_locales (auto simp: event_user_def cq_is_empty_def event_pushed_props(1) event_popped_props)

text \<open>C39: which notifications can be slept through. Any number of threads notify an event and wait for it, without a time limit, with one, or with
  \<^verbatim>\<open>try_wait\<close>, which is a wait with the limit 0, interleaved in every way. When a listener is blocked in the condition variable, no wake-up is under way and no other
  thread still has to look at the queue or to signal, then the queue holds at most as many trigger ids as there were waits with a time limit that were woken and gave
  up without looking, and notifiers whose signal failed with a panic. Without waits with a time limit and without panics it is empty.\<close>

theorem no_lost_wakeup:
  assumes "posix_signal wakes" and "conc_reach n (event_thread wakes timed) event_new PcvIdle s f"
    and "t < n" and "is_asleep (f t)" and "pcv_wakeups s = 0" and "\<forall>t < n. \<not> attentive (f t)"
  shows "cq_len (pcv_val s) \<le> pcv_swallowed s + number n is_panicked f \<and> (\<not> timed \<longrightarrow> pcv_swallowed s = 0)
    \<and> (\<not> timed \<longrightarrow> (\<forall>t < n. f t \<noteq> PcvPanicked) \<longrightarrow> cq_is_empty (pcv_val s))"
proof -
  have reach: "conc_reach n (pcv_thread (event_user wakes timed)) (pcv_new (fixed_cq_default EVENT_CAPACITY)) PcvIdle s f"
    using assms(2) by (simp add: event_thread_def event_new_def)
  have len: "cq_len (pcv_val s) \<le> pcv_swallowed s + number n is_panicked f"
    using event.blocked_means_swallowed [OF reach fixed_cq_default_wf(1) _ assms(3-6)] assms(1) by (simp add: event_user_def)
  have untimed: "\<not> timed \<longrightarrow> pcv_swallowed s = 0" using untimed_swallows_nothing [OF reach] by (simp add: event_user_def)
  have "number n is_panicked f = 0" if "\<forall>t < n. f t \<noteq> PcvPanicked" unfolding number_eq_0 using that by (metis is_panicked.elims(2))
  then show ?thesis using len untimed by (auto simp: cq_is_empty_def)
qed

lemma event_step:
  assumes "conc_reach n (event_thread wakes timed) event_new PcvIdle s f" and "t < n" and "pcv_thread (event_user wakes timed) s (f t) s' pc"
  shows "conc_reach n (event_thread wakes timed) event_new PcvIdle s' (f(t := pc))"
  using conc_reach.step [OF assms(1,2)] assms(3) by (simp add: event_thread_def)

text \<open>A listener that finds the queue empty goes to sleep.\<close>

lemma event_sleeps:
  assumes "conc_reach n (event_thread wakes timed) event_new PcvIdle s f" and "t < n" and "f t = PcvIdle" and "\<not> pcv_locked s" and "cq_is_empty (pcv_val s)"
    and "r \<noteq> None \<Longrightarrow> timed"
  shows "conc_reach n (event_thread wakes timed) event_new PcvIdle (s\<lparr>pcv_waiters := pcv_waiters s + 1\<rparr>) (f(t := PcvAsleep r))"
proof -
  let ?u = "event_user wakes timed"
  have c: "pcv_thread ?u s PcvIdle s (PcvLockWait r)"
    using assms(6) pcv_thread.call_wait [of ?u s] pcv_thread.call_timed_wait [of ?u s] by (cases r) (auto simp: event_user_def)
  have 1: "conc_reach n (event_thread wakes timed) event_new PcvIdle s (f(t := PcvLockWait r))"
    using event_step [OF assms(1,2), of s "PcvLockWait r"] c assms(3) by simp
  have 2: "conc_reach n (event_thread wakes timed) event_new PcvIdle (pcv_acquire s) (f(t := PcvCheck r))"
    using event_step [OF 1 assms(2), of "pcv_acquire s" "PcvCheck r"] pcv_thread.lock_wait [OF assms(4), of ?u r] by simp
  have "pcv_block (pcv_acquire s) = s\<lparr>pcv_waiters := pcv_waiters s + 1\<rparr>" using assms(4) by (simp add: pcv_state_defs)
  moreover have "pcv_thread ?u (pcv_acquire s) (PcvCheck r) (pcv_block (pcv_acquire s)) (PcvAsleep r)"
    using assms(5) by (intro pcv_thread.check_block) (simp add: event_user_def pcv_acquire_def)
  ultimately show ?thesis using event_step [OF 2 assms(2), of "pcv_block (pcv_acquire s)" "PcvAsleep r"] by simp
qed

lemma event_new_empty: "cq_is_empty (pcv_val event_new)" "\<not> pcv_locked event_new" "pcv_waiters event_new = 0" "pcv_wakeups event_new = 0"
  by (simp_all add: event_new_def pcv_new_def fixed_cq_default_def cq_is_empty_def)

definition signal_one :: "nat \<Rightarrow> nat \<Rightarrow> bool" where
  "signal_one n k \<longleftrightarrow> k = min n 1"

text \<open>A run in which a wait with a time limit gives up after it was woken.\<close>

lemma swallowing_run:
  "\<exists>s f. conc_reach 3 (event_thread signal_one True) event_new PcvIdle s f \<and> f 0 = PcvDone PcvTimeout \<and> f 1 = PcvAsleep None \<and> f 2 = PcvDone PcvFinished
     \<and> pcv_wakeups s = 0 \<and> pcv_swallowed s = 1 \<and> cq_list (pcv_val s) = [7]"
proof -
  let ?R = "conc_reach 3 (event_thread signal_one True) event_new PcvIdle" and ?u = "event_user signal_one True"
  let ?e = "fixed_cq_default EVENT_CAPACITY :: u64 container_queue" and ?q = "event_pushed 7 (fixed_cq_default EVENT_CAPACITY)"
  let ?S = "\<lambda>l v w k. \<lparr>pcv_locked = l, pcv_val = v, pcv_waiters = w, pcv_wakeups = k, pcv_swallowed = 0\<rparr>"
  let ?Z = "\<lambda>l. ?S l ?q 1 0\<lparr>pcv_swallowed := 1\<rparr>"
  let ?f = "(\<lambda>_. PcvIdle)(0 := PcvAsleep (Some 5), 1 := PcvAsleep None)"
  have 1: "?R (event_new\<lparr>pcv_waiters := pcv_waiters event_new + 1\<rparr>) ((\<lambda>_. PcvIdle)(0 := PcvAsleep (Some 5)))"
    by (rule event_sleeps [OF conc_reach.start]) (simp_all add: event_new_empty)
  have "?R (event_new\<lparr>pcv_waiters := pcv_waiters event_new + 1\<rparr>\<lparr>pcv_waiters := pcv_waiters (event_new\<lparr>pcv_waiters := pcv_waiters event_new + 1\<rparr>) + 1\<rparr>) ?f"
    by (rule event_sleeps [OF 1]) (simp_all add: event_new_empty)
  then have 2: "?R (?S False ?e 2 0) ?f" by (simp add: event_new_def pcv_new_def numeral_2_eq_2)
  have 3: "?R (?S False ?e 2 0) (?f(2 := PcvLockModify (event_pushed 7) False))"
    using event_step [OF 2, of 2] pcv_thread.call_modify [of "event_pushed 7" ?u "?S False ?e 2 0" False] by (simp add: event_user_def)
  have 4: "?R (?S True ?q 2 0) (?f(2 := PcvModified False))"
    using event_step [OF 3, of 2] pcv_thread.lock_modify [of "?S False ?e 2 0" ?u "event_pushed 7" False] by (simp add: pcv_acquire_def)
  have 5: "?R (?S False ?q 2 0) (?f(2 := PcvTrigger False))"
    using event_step [OF 4, of 2] pcv_thread.unlock_modify [of ?u "?S True ?q 2 0" False] by (simp add: pcv_unlock_def)
  have "triggers ?u False 2 1" by (simp add: triggers_def event_user_def signal_one_def)
  then have 6: "?R (?S False ?q 1 1) (?f(2 := PcvDone PcvFinished))"
    using event_step [OF 5, of 2] pcv_thread.trigger [of ?u False "?S False ?q 2 0" 1] by (simp add: pcv_release_def)
  have 7: "?R (?S False ?q 1 0) (?f(2 := PcvDone PcvFinished, 0 := PcvRelock (Some 5) True))"
    using event_step [OF 6, of 0] pcv_thread.wake [of "?S False ?q 1 1" ?u "Some 5"] by simp
  have 8: "?R (?Z True) (?f(2 := PcvDone PcvFinished, 0 := PcvGiveUp PcvTimeout))"
    using event_step [OF 7, of 0] pcv_thread.relock_too_late [of "?S False ?q 1 0" 5 5 ?u] by (simp add: pcv_acquire_def pcv_swallow_def)
  have 9: "?R (?Z False) (?f(2 := PcvDone PcvFinished, 0 := PcvDone PcvTimeout))"
    using event_step [OF 8, of 0] pcv_thread.give_up [of ?u "?Z True" PcvTimeout] by (simp add: pcv_unlock_def)
  have "\<exists>q'. cq_push ?e 7 = (Ok (q', True) :: (unit, _) outcome) \<and> cq_wf q' \<and> cq_list q' = cq_list ?e @ [7] \<and> cq_capacity q' = cq_capacity ?e
      \<and> cq_ticks ?e \<le> Suc (cq_ticks q')"
    by (rule cq.push_ok [OF fixed_cq_default_wf(1) event_room])
  then have "cq_list ?q = [7]" unfolding fixed_cq_default_wf(2) by (auto simp: event_pushed_def)
  then show ?thesis using 9 by (intro exI [of _ "?Z False"] exI [of _ "?f(2 := PcvDone PcvFinished, 0 := PcvDone PcvTimeout)"]) simp
qed

theorem no_lost_wakeup_witness:
  "\<exists>s f. conc_reach 3 (event_thread signal_one True) event_new PcvIdle s f \<and> posix_signal signal_one \<and> f 1 = PcvAsleep None \<and> cq_list (pcv_val s) = [7]
     \<and> cq_len (pcv_val s) \<le> 1"
proof -
  obtain s f where r: "conc_reach 3 (event_thread signal_one True) event_new PcvIdle s f" "f 0 = PcvDone PcvTimeout" "f 1 = PcvAsleep None" "f 2 = PcvDone PcvFinished"
    "pcv_wakeups s = 0" "pcv_swallowed s = 1" "cq_list (pcv_val s) = [7]" using swallowing_run by blast
  have cases: "t = 0 \<or> t = 1 \<or> t = 2" if "t < 3" for t :: nat using that by auto
  have "\<not> attentive (f t)" "\<not> is_panicked (f t)" if "t < 3" for t using cases [OF that] r(2-4) by auto
  moreover have s: "posix_signal signal_one" by (simp add: posix_signal_def signal_one_def)
  ultimately have "cq_len (pcv_val s) \<le> 1" using no_lost_wakeup [OF s r(1), of 1] r(3,5,6) number_eq_0 [of 3 is_panicked f] by simp
  then show ?thesis using r s by (intro exI [of _ s] exI [of _ f]) simp
qed

text \<open>A wait with a time limit can swallow a notification. Two threads wait for the same event, one of them with a time limit. The signal of a notifier wakes the
  thread with the limit at the moment when its time is up: it returns that nothing has come. The trigger id stays in the queue, while the other thread sleeps and no
  wake-up is on its way to it.\<close>

theorem timed_wait_swallows_wakeup:
  "\<exists>s f. conc_reach 3 (event_thread signal_one True) event_new PcvIdle s f \<and> f 0 = PcvDone PcvTimeout \<and> f 1 = PcvAsleep None \<and> f 2 = PcvDone PcvFinished
     \<and> pcv_wakeups s = 0 \<and> cq_list (pcv_val s) = [7]"
  using swallowing_run by blast

end
