(* ===== verification/EventPorts.thy ===== *)
theory EventPorts
  imports EventConcept
begin

text \<open>
  \<^verbatim>\<open>elkodon/src/port/notifier.rs\<close> and \<^verbatim>\<open>listener.rs\<close>: the ports of an event service, on top of the process-local events. A listener creates an event under a name that contains
  its id and registers the id in the dynamic configuration; a notifier follows the list of listeners and opens their events.

  The calls do not overlap. An operation that has changed something before it fails returns the changed state together with \<open>Inl\<close> of its error. Faults of
  the operating system are arguments. The callback of a wait has a state of its own and says whether to go on.
\<close>

section \<open>State\<close>

record event_service =
  es_registry :: event_registry
  es_dynamic :: "u128 ev_dynamic"

datatype listener_port_error = ExceedsMaxSupportedListeners | ResourceCreationFailed
datatype notifier_port_error = ExceedsMaxSupportedNotifiers

record listener_port =
  lp_guard :: "bool option list unique_index"
  lp_listener :: event_duplex

record notifier_port =
  np_connections :: "event_duplex option list"
  np_state :: "u128 container_state"
  np_default_trigger_id :: u64
  np_guard :: "bool option list unique_index"

definition listener_event :: "u128 \<Rightarrow> ('e, event_builder) outcome" where
  "listener_event listener_id =
     obind (panic_on_err (event_concept_name listener_id)) (\<lambda>event_name.
     omap (\<lambda>cfg. \<lparr>eb_name = event_name, eb_config = cfg\<rparr>) event_default_config)"

section \<open>Listener\<close>

definition listener_port_new ::
  "bool \<Rightarrow> u128 \<Rightarrow> event_service \<Rightarrow> ('e, event_service \<times> (listener_port_error + listener_port)) outcome" where
  "listener_port_new cvar_fails port_id w =
     obind (listener_event port_id) (\<lambda>b.
     case event_create cvar_fails b (es_registry w) of
       Err _ \<Rightarrow> Ok (w, Inl ResourceCreationFailed)
     | Panic \<Rightarrow> Panic | UB \<Rightarrow> UB
     | Ok (r, listener) \<Rightarrow>
         omap (\<lambda>(d, index). (\<lparr>es_registry = r, es_dynamic = d\<rparr>,
             case index of None \<Rightarrow> Inl ExceedsMaxSupportedListeners | Some unique_index \<Rightarrow> Inr \<lparr>lp_guard = unique_index, lp_listener = listener\<rparr>))
           (add_listener_id (es_dynamic w) port_id))"

text \<open>Dropping the port gives its index back; the event stays registered.\<close>

definition listener_port_drop :: "listener_port \<Rightarrow> event_service \<Rightarrow> ('e, event_service) outcome" where
  "listener_port_drop p w =
     omap (\<lambda>c. w\<lparr>es_dynamic := (es_dynamic w)\<lparr>dyn_listeners := c\<rparr>\<rparr>) (mc_index_drop (dyn_listeners (es_dynamic w)) (lp_guard p))"

primrec listener_try_wait_loop ::
  "nat \<Rightarrow> (nat \<Rightarrow> pcv_error option) \<Rightarrow> ('c \<Rightarrow> u64 \<Rightarrow> 'c \<times> bool) \<Rightarrow> listener_port \<Rightarrow> nat \<Rightarrow> 'c \<Rightarrow> event_registry
     \<Rightarrow> ('e, event_registry \<times> 'c \<times> (listener_wait_error + nat)) outcome option" where
  "listener_try_wait_loop 0 faults callback p number_of_events c r = None"
| "listener_try_wait_loop (Suc n) faults callback p number_of_events c r =
     (case event_try_wait (faults number_of_events) (lp_listener p) r of
        Ok (r1, Inl e) \<Rightarrow> Some (Ok (r1, c, Inl e))
      | Ok (r1, Inr None) \<Rightarrow> Some (Ok (r1, c, Inr number_of_events))
      | Ok (r1, Inr (Some trigger_id)) \<Rightarrow>
          (case callback c trigger_id of (c1, go_on) \<Rightarrow>
             if go_on then listener_try_wait_loop n faults callback p (number_of_events + 1) c1 r1
             else Some (Ok (r1, c1, Inr (number_of_events + 1))))
      | Err e \<Rightarrow> Some (Err e) | Panic \<Rightarrow> Some Panic | UB \<Rightarrow> Some UB)"

text \<open>No notification comes in between: the loop runs at most once per stored id, and once more.\<close>

definition listener_try_wait ::
  "(nat \<Rightarrow> pcv_error option) \<Rightarrow> ('c \<Rightarrow> u64 \<Rightarrow> 'c \<times> bool) \<Rightarrow> listener_port \<Rightarrow> 'c \<Rightarrow> event_registry
     \<Rightarrow> ('e, event_registry \<times> 'c \<times> (listener_wait_error + nat)) outcome option" where
  "listener_try_wait faults callback p c r =
     listener_try_wait_loop (cq_len (er_heap r (ed_management (lp_listener p))) + 1) faults callback p 0 c r"

text \<open>\<^verbatim>\<open>timed_wait\<close> and \<^verbatim>\<open>blocking_wait\<close>; \<open>result\<close> is what the condition variable answers, and \<open>r\<close> the registry at this moment.\<close>

definition listener_wait ::
  "pcv_result \<Rightarrow> (nat \<Rightarrow> pcv_error option) \<Rightarrow> ('c \<Rightarrow> u64 \<Rightarrow> 'c \<times> bool) \<Rightarrow> listener_port \<Rightarrow> 'c \<Rightarrow> event_registry
     \<Rightarrow> ('e, event_registry \<times> 'c \<times> (listener_wait_error + nat)) outcome option" where
  "listener_wait result faults callback p c r =
     (case event_waited result (lp_listener p) r of
        Ok (r1, Inl e) \<Rightarrow> Some (Ok (r1, c, Inl e))
      | Ok (r1, Inr None) \<Rightarrow> Some (Ok (r1, c, Inr 1))
      | Ok (r1, Inr (Some trigger_id)) \<Rightarrow>
          (case callback c trigger_id of (c1, go_on) \<Rightarrow>
             if go_on then map_option (omap (\<lambda>(r2, c2, n). (r2, c2, map_sum (\<lambda>e. e) Suc n))) (listener_try_wait faults callback p c1 r1)
             else Some (Ok (r1, c1, Inr 1)))
      | Err e \<Rightarrow> Some (Err e) | Panic \<Rightarrow> Some Panic | UB \<Rightarrow> Some UB)"

section \<open>Notifier\<close>

definition listener_connection_create ::
  "event_registry \<Rightarrow> nat \<Rightarrow> u128 \<Rightarrow> notifier_port \<Rightarrow> ('e, notifier_port \<times> (unit + unit)) outcome" where
  "listener_connection_create r index listener_id np =
     obind (listener_event listener_id) (\<lambda>b.
       if length (np_connections np) \<le> index then Panic
       else if np_connections np ! index = None
       then (case event_open b r of
           Ok notifier \<Rightarrow> Ok (np\<lparr>np_connections := (np_connections np)[index := Some notifier]\<rparr>, Inr ())
         | Err _ \<Rightarrow> Ok (np, Inl ()) | Panic \<Rightarrow> Panic | UB \<Rightarrow> UB)
       else Ok (np, Inr ()))"

definition listener_connection_remove :: "nat \<Rightarrow> notifier_port \<Rightarrow> ('e, notifier_port) outcome" where
  "listener_connection_remove index np =
     (if length (np_connections np) \<le> index then Panic else Ok (np\<lparr>np_connections := (np_connections np)[index := None]\<rparr>))"

text \<open>The loop over the visited indices ends at the first connection that fails.\<close>

fun populate_listeners ::
  "event_registry \<Rightarrow> nat \<Rightarrow> u128 option list \<Rightarrow> notifier_port \<Rightarrow> ('e, notifier_port \<times> (unit + unit)) outcome" where
  "populate_listeners r i [] np = Ok (np, Inr ())"
| "populate_listeners r i (None # rest) np = obind (listener_connection_remove i np) (populate_listeners r (i + 1) rest)"
| "populate_listeners r i (Some listener_id # rest) np =
     obind (listener_connection_create r i listener_id np) (\<lambda>(np1, result).
       case result of Inl _ \<Rightarrow> Ok (np1, Inl ()) | Inr _ \<Rightarrow> populate_listeners r (i + 1) rest np1)"

definition populate_listener_channels :: "event_registry \<Rightarrow> notifier_port \<Rightarrow> ('e, notifier_port \<times> (unit + unit)) outcome" where
  "populate_listener_channels r np =
     obind (cs_for_each (np_state np)) (\<lambda>entries. obind (visited_indices (length (np_connections np)) entries) (\<lambda>visited.
       populate_listeners r 0 visited np))"

definition notifier_update_connections :: "event_service \<Rightarrow> notifier_port \<Rightarrow> ('e, notifier_port \<times> (unit + unit)) outcome" where
  "notifier_update_connections w np =
     obind (update_state (dyn_listeners (es_dynamic w)) (np_state np)) (\<lambda>(st, changed).
       let np1 = np\<lparr>np_state := st\<rparr>
       in if changed then populate_listener_channels (es_registry w) np1 else Ok (np1, Inr ()))"

text \<open>The events are notified one after the other; a failure is only reported.\<close>

fun notify_all :: "(nat \<Rightarrow> bool) \<Rightarrow> u64 \<Rightarrow> nat \<Rightarrow> event_duplex option list \<Rightarrow> event_registry \<times> nat \<Rightarrow> ('e, event_registry \<times> nat) outcome" where
  "notify_all faults trigger_id i [] rn = Ok rn"
| "notify_all faults trigger_id i (None # rest) rn = notify_all faults trigger_id (i + 1) rest rn"
| "notify_all faults trigger_id i (Some connection # rest) (r, n) =
     obind (event_notify (faults i) connection trigger_id r) (\<lambda>(r1, result).
       notify_all faults trigger_id (i + 1) rest (r1, case result of Inl _ \<Rightarrow> n | Inr _ \<Rightarrow> n + 1))"

definition notify_with_custom_trigger_id ::
  "(nat \<Rightarrow> bool) \<Rightarrow> u64 \<Rightarrow> notifier_port \<Rightarrow> event_service \<Rightarrow> ('e, event_service \<times> notifier_port \<times> (unit + nat)) outcome" where
  "notify_with_custom_trigger_id faults trigger_id np w =
     obind (notifier_update_connections w np) (\<lambda>(np1, result).
       case result of
         Inl _ \<Rightarrow> Ok (w, np1, Inl ())
       | Inr _ \<Rightarrow> omap (\<lambda>(r, n). (w\<lparr>es_registry := r\<rparr>, np1, Inr n)) (notify_all faults trigger_id 0 (np_connections np1) (es_registry w, 0)))"

definition notifier_notify ::
  "(nat \<Rightarrow> bool) \<Rightarrow> notifier_port \<Rightarrow> event_service \<Rightarrow> ('e, event_service \<times> notifier_port \<times> (unit + nat)) outcome" where
  "notifier_notify faults np w = notify_with_custom_trigger_id faults (np_default_trigger_id np) np w"

definition notifier_port_new ::
  "u64 \<Rightarrow> u128 \<Rightarrow> event_service \<Rightarrow> ('e, event_service \<times> (notifier_port_error + notifier_port)) outcome" where
  "notifier_port_new default_trigger_id port_id w =
     obind (get_state (dyn_listeners (es_dynamic w))) (\<lambda>st.
     obind (add_notifier_id (es_dynamic w) port_id) (\<lambda>(d, index).
       let w1 = w\<lparr>es_dynamic := d\<rparr> in
       case index of
         None \<Rightarrow> Ok (w1, Inl ExceedsMaxSupportedNotifiers)
       | Some unique_index \<Rightarrow>
           omap (\<lambda>(np, _). (w1, Inr np))
             (populate_listener_channels (es_registry w1)
               \<lparr>np_connections = replicate (mc_capacity (dyn_listeners (es_dynamic w))) None, np_state = st,
                np_default_trigger_id = default_trigger_id, np_guard = unique_index\<rparr>)))"

text \<open>Dropping the port removes it from the list of notifiers.\<close>

definition notifier_port_drop :: "notifier_port \<Rightarrow> event_service \<Rightarrow> ('e, event_service) outcome" where
  "notifier_port_drop np w =
     omap (\<lambda>c. w\<lparr>es_dynamic := (es_dynamic w)\<lparr>dyn_notifiers := c\<rparr>\<rparr>) (mc_index_drop (dyn_notifiers (es_dynamic w)) (np_guard np))"

section \<open>What a listener receives\<close>

text \<open>The reference: hand the stored ids to the callback, one after the other, until it says stop.\<close>

fun consume :: "('c \<Rightarrow> u64 \<Rightarrow> 'c \<times> bool) \<Rightarrow> 'c \<Rightarrow> u64 list \<Rightarrow> 'c \<times> nat \<times> u64 list" where
  "consume callback c [] = (c, 0, [])"
| "consume callback c (x # xs) =
     (case callback c x of (c1, go_on) \<Rightarrow>
        if go_on then (case consume callback c1 xs of (c2, n, rest) \<Rightarrow> (c2, Suc n, rest)) else (c1, 1, xs))"

abbreviation queue_of :: "event_duplex \<Rightarrow> event_registry \<Rightarrow> u64 container_queue" where
  "queue_of d r \<equiv> er_heap r (ed_management d)"

definition with_queue :: "event_duplex \<Rightarrow> u64 container_queue \<Rightarrow> event_registry \<Rightarrow> event_registry" where
  "with_queue d q r = r\<lparr>er_heap := (er_heap r)(ed_management d := q)\<rparr>"

lemma with_queue_simps [simp]:
  "with_queue d (queue_of d r) r = r" "with_queue d q (with_queue d q' r) = with_queue d q r" "queue_of d (with_queue d q r) = q"
  "er_entries (with_queue d q r) = er_entries r" "er_lockable (with_queue d q r) = er_lockable r" "er_next (with_queue d q r) = er_next r"
  by (simp_all add: with_queue_def)

lemma event_waited_pop:
  assumes "cq_wf (queue_of d r)" and "cq_list (queue_of d r) = x # xs"
  shows "\<exists>q. event_waited PcvFinished d r = (Ok (with_queue d q r, Inr (Some x)) :: ('e, _) outcome)
    \<and> event_try_wait None d r = (Ok (with_queue d q r, Inr (Some x)) :: ('e, _) outcome) \<and> cq_wf q \<and> cq_list q = xs"
  using cq_pop_ok(2,3) [OF assms] length_cq_list [OF assms(1)] assms(2)
  by (intro exI [of _ "cq_popped (queue_of d r)"]) (simp add: event_try_wait_def event_waited_def cq_is_empty_def with_queue_def cq_pop_ok(1) [OF assms])

lemma event_try_wait_empty: "cq_wf (queue_of d r) \<Longrightarrow> cq_list (queue_of d r) = [] \<Longrightarrow> event_try_wait None d r = Ok (r, Inr None)"
  using length_cq_list [of "queue_of d r"] by (simp add: event_try_wait_def event_waited_def cq_is_empty_def)

lemma listener_try_wait_loop_consumes:
  assumes "cq_wf (queue_of (lp_listener p) r)" and "cq_list (queue_of (lp_listener p) r) = xs" and "length xs < fuel" and "consume callback c xs = (c', n, rest)"
  shows "\<exists>q. listener_try_wait_loop fuel (\<lambda>_. None) callback p k c r = (Some (Ok (with_queue (lp_listener p) q r, c', Inr (k + n))) :: ('e, _) outcome option)
    \<and> cq_wf q \<and> cq_list q = rest"
  using assms
proof (induction xs arbitrary: fuel k c r n)
  case Nil
  then obtain m where "fuel = Suc m" by (cases fuel) auto
  then show ?case using Nil by (intro exI [of _ "queue_of (lp_listener p) r"]) (simp add: event_try_wait_empty [OF Nil.prems(1,2)])
next
  case (Cons x xs)
  let ?d = "lp_listener p"
  obtain m where m: "fuel = Suc m" "length xs < m" using Cons.prems(3) by (cases fuel) auto
  obtain c1 go_on where c1: "callback c x = (c1, go_on)" by fastforce
  obtain q1 where w: "event_try_wait None ?d r = (Ok (with_queue ?d q1 r, Inr (Some x)) :: ('e, _) outcome)" and pop: "cq_wf q1" "cq_list q1 = xs"
    using event_waited_pop [OF Cons.prems(1,2), where ?'e = 'e] by blast
  show ?case
  proof (cases go_on)
    case False
    then show ?thesis using Cons.prems(4) m(1) c1 pop by (intro exI [of _ q1]) (simp add: w)
  next
    case True
    then obtain n' where n': "consume callback c1 xs = (c', n', rest)" "n = Suc n'" using Cons.prems(4) c1 by (auto split: prod.splits)
    have q: "cq_wf (queue_of ?d (with_queue ?d q1 r))" "cq_list (queue_of ?d (with_queue ?d q1 r)) = xs" using pop by simp_all
    from Cons.IH [OF q m(2) n'(1), of "Suc k"] obtain q where
      "listener_try_wait_loop m (\<lambda>_. None) callback p (Suc k) c1 (with_queue ?d q1 r) = (Some (Ok (with_queue ?d q (with_queue ?d q1 r), c', Inr (Suc k + n'))) :: ('e, _) outcome option)"
      "cq_wf q" "cq_list q = rest" by blast
    then show ?thesis using m(1) c1 True n'(2) by (intro exI [of _ q]) (simp add: w)
  qed
qed

lemma listener_try_wait_consumes:
  assumes "cq_wf (queue_of (lp_listener p) r)" and "consume callback c (cq_list (queue_of (lp_listener p) r)) = (c', n, rest)"
  shows "\<exists>q. listener_try_wait (\<lambda>_. None) callback p c r = (Some (Ok (with_queue (lp_listener p) q r, c', Inr n)) :: ('e, _) outcome option) \<and> cq_wf q \<and> cq_list q = rest"
  using listener_try_wait_loop_consumes [OF assms(1) refl _ assms(2), of "cq_len (queue_of (lp_listener p) r) + 1" 0, where ?'e = 'e] length_cq_list [OF assms(1)]
  by (simp add: listener_try_wait_def)

text \<open>What the waits of a listener return. \<^verbatim>\<open>try_wait\<close> hands the stored trigger ids to the callback in the order in which they were pushed until the callback says
  stop, removes exactly these, and returns their number; so do \<^verbatim>\<open>timed_wait\<close> and \<^verbatim>\<open>blocking_wait\<close> when something has come. When the time is up without a
  notification, \<^verbatim>\<open>timed_wait\<close> returns 1 as well, although the callback was never called.\<close>

theorem listener_waits:
  assumes "cq_wf (queue_of (lp_listener p) r)" and "consume callback c (cq_list (queue_of (lp_listener p) r)) = (c', n, rest)"
  shows "(\<exists>q. listener_try_wait (\<lambda>_. None) callback p c r = (Some (Ok (with_queue (lp_listener p) q r, c', Inr n)) :: (unit, _) outcome option) \<and> cq_list q = rest)
    \<and> (cq_list (queue_of (lp_listener p) r) \<noteq> [] \<longrightarrow>
         (\<exists>q. listener_wait PcvFinished (\<lambda>_. None) callback p c r = (Some (Ok (with_queue (lp_listener p) q r, c', Inr n)) :: (unit, _) outcome option) \<and> cq_list q = rest))
    \<and> listener_wait PcvTimeout (\<lambda>_. None) callback p c r = (Some (Ok (r, c, Inr 1)) :: (unit, _) outcome option)"
proof (intro conjI impI)
  let ?d = "lp_listener p"
  show "\<exists>q. listener_try_wait (\<lambda>_. None) callback p c r = (Some (Ok (with_queue ?d q r, c', Inr n)) :: (unit, _) outcome option) \<and> cq_list q = rest"
    using listener_try_wait_consumes [OF assms, where ?'e = unit] by blast
  show "listener_wait PcvTimeout (\<lambda>_. None) callback p c r = (Some (Ok (r, c, Inr 1)) :: (unit, _) outcome option)"
    by (simp add: listener_wait_def event_waited_def)
  assume "cq_list (queue_of ?d r) \<noteq> []"
  then obtain x xs where x: "cq_list (queue_of ?d r) = x # xs" by (cases "cq_list (queue_of ?d r)") auto
  obtain c1 go_on where c1: "callback c x = (c1, go_on)" by fastforce
  obtain q1 where w: "event_waited PcvFinished ?d r = (Ok (with_queue ?d q1 r, Inr (Some x)) :: (unit, _) outcome)" and pop: "cq_wf q1" "cq_list q1 = xs"
    using event_waited_pop [OF assms(1) x, where ?'e = unit] by blast
  show "\<exists>q. listener_wait PcvFinished (\<lambda>_. None) callback p c r = (Some (Ok (with_queue ?d q r, c', Inr n)) :: (unit, _) outcome option) \<and> cq_list q = rest"
  proof (cases go_on)
    case False
    then show ?thesis using assms(2) x w c1 pop by (intro exI [of _ q1]) (simp add: listener_wait_def)
  next
    case True
    then obtain n' where n': "consume callback c1 xs = (c', n', rest)" "n = Suc n'" using assms(2) x c1 by (auto split: prod.splits)
    have q: "cq_wf (queue_of ?d (with_queue ?d q1 r))" "consume callback c1 (cq_list (queue_of ?d (with_queue ?d q1 r))) = (c', n', rest)" using pop n' by simp_all
    from listener_try_wait_consumes [OF q, where ?'e = unit] show ?thesis using w c1 True n'(2) by (auto simp: listener_wait_def)
  qed
qed

definition queue_with :: "nat \<Rightarrow> u64 list \<Rightarrow> u64 container_queue" where
  "queue_with capacity xs =
     \<lparr>cq_data = map Some xs @ replicate (capacity - length xs) None, cq_start = length xs, cq_len = length xs, cq_capacity = capacity, cq_initialized = True\<rparr>"

lemma queue_with_list: "length xs \<le> capacity \<Longrightarrow> cq_wf (queue_with capacity xs) \<and> cq_list (queue_with capacity xs) = xs"
  by (auto simp: queue_with_def cq_wf_def cq_list_def nth_append intro!: nth_equalityI)

theorem listener_waits_witness:
  "\<exists>p r q. cq_list (queue_of (lp_listener p) r) = [5, 6, 7]
    \<and> listener_wait PcvFinished (\<lambda>_. None) (\<lambda>c x. (c @ [x], x \<noteq> 6)) p [] r = (Some (Ok (with_queue (lp_listener p) q r, [5, 6], Inr 2)) :: (unit, _) outcome option)
    \<and> cq_list q = [7]"
proof -
  let ?d = "\<lparr>ed_name = undefined, ed_management = 0\<rparr>"
  let ?p = "\<lparr>lp_guard = undefined, lp_listener = ?d\<rparr>" and ?r = "\<lparr>er_lockable = True, er_entries = [], er_heap = (\<lambda>_. queue_with 8 [5, 6, 7]), er_next = 1\<rparr>"
  have q: "cq_wf (queue_of (lp_listener ?p) ?r)" "cq_list (queue_of (lp_listener ?p) ?r) = [5, 6, 7]" using queue_with_list [of "[5, 6, 7]" 8] by simp_all
  have c: "consume (\<lambda>c x. (c @ [x], x \<noteq> 6)) [] (cq_list (queue_of (lp_listener ?p) ?r)) = ([5, 6], 2, [7])" unfolding q(2) by simp
  show ?thesis using listener_waits [OF q(1) c] q(2) by (intro exI [of _ ?p] exI [of _ ?r]) auto
qed

section \<open>Names in the registry\<close>

definition event_key :: "u128 \<Rightarrow> path_key" where
  "event_key listener_id = TEMP_DIRECTORY @ i32_digits (uid_pid listener_id) @ 95 # dec_digits (unat listener_id) @ bytes_of ''.event''"

lemma event_key_inject [simp]: "event_key a = event_key b \<longleftrightarrow> a = b"
proof
  assume "event_key a = event_key b"
  then have "(i32_digits (uid_pid a) @ 95 # dec_digits (unat a)) @ bytes_of ''.event'' = (i32_digits (uid_pid b) @ 95 # dec_digits (unat b)) @ bytes_of ''.event''"
    by (simp add: event_key_def)
  then have "i32_digits (uid_pid a) @ 95 # dec_digits (unat a) = i32_digits (uid_pid b) @ 95 # dec_digits (unat b)" by (simp only: append_same_eq)
  then show "a = b" by (simp add: split_at_mark mark_not_in_digits word_unat_eq_iff)
qed simp

lemma event_default_config_Ok:
  "\<exists>cfg. event_default_config = (Ok cfg :: ('e, _) outcome) \<and> config_valid cfg \<and> content (suffix cfg) = bytes_of ''.event'' \<and> content (path_hint cfg) = TEMP_DIRECTORY"
proof -
  obtain x where x: "new_unchecked FILENAME_LENGTH (bytes_of ''.event'') = (Ok x :: ('e, _) outcome)" "bs_wf x" "cap x = FILENAME_LENGTH" "content x = bytes_of ''.event''"
    using new_unchecked_Ok [of "bytes_of ''.event''" FILENAME_LENGTH] by (auto simp: FILENAME_LENGTH_def bytes_of_def)
  obtain p where p: "new_unchecked PATH_LENGTH TEMP_DIRECTORY = (Ok p :: ('e, _) outcome)" "bs_wf p" "cap p = PATH_LENGTH" "content p = TEMP_DIRECTORY"
    using new_unchecked_Ok [of TEMP_DIRECTORY PATH_LENGTH] by (auto simp: PATH_LENGTH_def bytes_of_def TEMP_DIRECTORY_def)
  have "config_valid \<lparr>suffix = x, path_hint = p\<rparr>"
    using x(2-4) p(2-4) by (simp add: config_valid_def ss_valid_def FileName_def Path_def bytes_of_def TEMP_DIRECTORY_def file_name_character_def path_character_def of_char_of)
  then show ?thesis using x p by (simp add: event_default_config_def)
qed

lemma listener_event_Ok:
  "\<exists>b. listener_event v = (Ok b :: ('e, _) outcome) \<and> (concept_path (eb_config b) (eb_name b) :: ('f, _) outcome) = Ok (event_key v)"
proof -
  obtain cfg where cfg: "event_default_config = (Ok cfg :: ('e, _) outcome)" "config_valid cfg" "content (suffix cfg) = bytes_of ''.event''" "content (path_hint cfg) = TEMP_DIRECTORY"
    using event_default_config_Ok [where ?'e = 'e] by blast
  obtain n where n: "event_concept_name v = Ok n" "ss_valid FileName n" "content n = i32_digits (uid_pid v) @ 95 # dec_digits (unat v)"
    using event_concept_name_Ok by blast
  have k: "concept_key cfg (content n) = event_key v"
    using cfg(3,4) n(3) by (simp add: concept_key_def event_key_def join_path_def with_separator_def TEMP_DIRECTORY_def bytes_of_def PATH_SEPARATOR_def)
  have l: "length (content n) \<le> 51" using n(3) i32_digits_props(2) [of "uid_pid v"] u128_digits [of v] by simp
  have "length (event_key v) \<le> PATH_LENGTH" using l k n(3) by (simp add: event_key_def TEMP_DIRECTORY_def bytes_of_def PATH_LENGTH_def)
  moreover have "len n + len (suffix cfg) < FILENAME_LENGTH"
    using l length_content [of n] length_content [of "suffix cfg"] n(2) cfg(2,3) by (simp add: ss_valid_def config_valid_def bytes_of_def FILENAME_LENGTH_def)
  ultimately have "concept_ok cfg n" using cfg(2) n(2) k by (simp add: concept_ok_def)
  then have "(concept_path cfg n :: ('f, _) outcome) = Ok (event_key v)" using concept_path_Ok k by metis
  moreover have "listener_event v = (Ok \<lparr>eb_name = n, eb_config = cfg\<rparr> :: ('e, _) outcome)" using n(1) by (simp add: listener_event_def panic_on_err_def cfg(1))
  ultimately show ?thesis by (intro exI [of _ "\<lparr>eb_name = n, eb_config = cfg\<rparr>"]) simp
qed

section \<open>Following the listeners\<close>

text \<open>The entries of a container, by index, as the callback of \<^verbatim>\<open>for_each\<close> collects them.\<close>

lemma visited_fold:
  fixes g :: "nat \<Rightarrow> 'i" and capacity :: nat
  assumes "n \<le> capacity" and "capacity < 2 ^ 32"
  shows "fold (\<lambda>(index, e) r. obind r (\<lambda>v. if unat index < length v then Ok (v[unat index := Some e]) else Panic))
      (map (\<lambda>i. (word_of_nat i :: u32, g i)) (filter A [0 ..< n])) (Ok (replicate capacity None))
    = (Ok (map (\<lambda>i. if i < n \<and> A i then Some (g i) else None) [0 ..< capacity]) :: ('e, _) outcome)"
  using assms(1)
proof (induction n)
  case 0
  then show ?case by (simp add: map_replicate_const)
next
  case (Suc n)
  have u: "unat (word_of_nat n :: u32) = n" using Suc.prems assms(2) by (intro unat_word_of_nat_u32) simp
  have "(map (\<lambda>i. if i < n \<and> A i then Some (g i) else None) [0 ..< capacity])[n := Some (g n)]
      = map (\<lambda>i. if i < Suc n \<and> A i then Some (g i) else None) [0 ..< capacity]" if "A n"
    using that Suc.prems by (intro nth_equalityI) (auto simp: nth_list_update less_Suc_eq)
  moreover have "map (\<lambda>i. if i < n \<and> A i then Some (g i) else None) [0 ..< capacity] = map (\<lambda>i. if i < Suc n \<and> A i then Some (g i) else None) [0 ..< capacity]" if "\<not> A n"
    using that by (auto simp: less_Suc_eq)
  ultimately show ?case using Suc u by simp
qed

lemma visited_entries:
  assumes "mc_wf c"
  shows "visited_indices (mc_capacity c) (mc_entries c) = Ok (map (mc_entry c) [0 ..< mc_capacity c])"
proof -
  have "mc_entry c i = (if mc_active c ! i = Some True then Some (the (mc_entry c i)) else None)" if "i < mc_capacity c" for i
    using that mc_entry_data [OF assms] by (auto simp: mc_entry_def)
  then show ?thesis
    unfolding visited_indices_def mc_entries_def using assms by (subst visited_fold) (auto simp: mc_wf_def)
qed

text \<open>Which queue a connection leads to after an update.\<close>

definition followed :: "event_registry \<Rightarrow> u128 option \<Rightarrow> event_duplex option \<Rightarrow> nat option" where
  "followed r listener connection =
     (case listener of None \<Rightarrow> None
      | Some v \<Rightarrow> (case connection of None \<Rightarrow> map_of (er_entries r) (event_key v) | Some d \<Rightarrow> Some (ed_management d)))"

abbreviation targets :: "event_duplex option list \<Rightarrow> nat option list" where
  "targets \<equiv> map (map_option ed_management)"

lemma listener_connection_create_Ok:
  assumes "er_lockable r" and "index < length (np_connections np)" and "map_of (er_entries r) (event_key v) \<noteq> None"
  shows "\<exists>c. listener_connection_create r index v np = (Ok (np\<lparr>np_connections := (np_connections np)[index := c]\<rparr>, Inr ()) :: ('e, _) outcome)
    \<and> map_option ed_management c = followed r (Some v) (np_connections np ! index)"
proof -
  obtain b where b: "listener_event v = (Ok b :: ('e, _) outcome)" "(concept_path (eb_config b) (eb_name b) :: (notifier_open_error, _) outcome) = Ok (event_key v)"
    using listener_event_Ok by blast
  obtain m where m: "map_of (er_entries r) (event_key v) = Some m" using assms(3) by blast
  show ?thesis
  proof (cases "np_connections np ! index")
    case None
    then show ?thesis using b m assms(1,2) by (intro exI [of _ "Some \<lparr>ed_name = eb_name b, ed_management = m\<rparr>"]) (simp add: listener_connection_create_def event_open_def followed_def)
  next
    case (Some d)
    then have "(np_connections np)[index := Some d] = np_connections np" by (metis list_update_id)
    then show ?thesis using b Some assms(2) by (intro exI [of _ "Some d"]) (simp add: listener_connection_create_def followed_def)
  qed
qed

lemma populate_listeners_Ok:
  assumes "er_lockable r" and "i + length visited = length (np_connections np)" and "\<forall>v \<in> set visited. \<forall>id. v = Some id \<longrightarrow> map_of (er_entries r) (event_key id) \<noteq> None"
  shows "\<exists>cs. populate_listeners r i visited np = (Ok (np\<lparr>np_connections := cs\<rparr>, Inr ()) :: ('e, _) outcome)
    \<and> targets cs = targets (take i (np_connections np)) @ map2 (followed r) visited (drop i (np_connections np))"
  using assms(2,3)
proof (induction visited arbitrary: i np)
  case Nil
  then show ?case by (intro exI [of _ "np_connections np"]) simp
next
  case (Cons v visited)
  let ?cs = "np_connections np"
  have i: "i < length ?cs" using Cons.prems(1) by simp
  obtain c where c: "map_option ed_management c = followed r v (?cs ! i)"
    "populate_listeners r i (v # visited) np = (populate_listeners r (i + 1) visited (np\<lparr>np_connections := ?cs[i := c]\<rparr>) :: ('e, _) outcome)"
  proof (cases v)
    case None
    then show thesis using that [of None] i by (simp add: listener_connection_remove_def followed_def)
  next
    case (Some x)
    obtain c where "listener_connection_create r i x np = (Ok (np\<lparr>np_connections := ?cs[i := c]\<rparr>, Inr ()) :: ('e, _) outcome)"
      "map_option ed_management c = followed r (Some x) (?cs ! i)"
      using listener_connection_create_Ok [OF assms(1) i, of x, where ?'e = 'e] Cons.prems(2) Some by auto
    then show thesis using that [of c] Some by simp
  qed
  from Cons.IH [of "i + 1" "np\<lparr>np_connections := ?cs[i := c]\<rparr>"] Cons.prems obtain cs where
    "populate_listeners r (i + 1) visited (np\<lparr>np_connections := ?cs[i := c]\<rparr>) = (Ok (np\<lparr>np_connections := cs\<rparr>, Inr ()) :: ('e, _) outcome)"
    "targets cs = targets (take (i + 1) (?cs[i := c])) @ map2 (followed r) visited (drop (i + 1) (?cs[i := c]))" by auto
  moreover have "take (i + 1) (?cs[i := c]) = take i ?cs @ [c]" using i by (simp add: take_Suc_conv_app_nth)
  moreover have "drop i ?cs = ?cs ! i # drop (i + 1) ?cs" using i by (simp add: Cons_nth_drop_Suc)
  ultimately show ?case using c by (intro exI [of _ cs]) simp
qed

section \<open>Notifying\<close>

lemma event_pushed_list:
  assumes "cq_wf q" and "0 < cq_ticks q"
  shows "cq_push q v = (Ok (event_pushed v q, cq_len q < cq_capacity q) :: ('e, _) outcome)"
    and "cq_list (event_pushed v q) = (if cq_len q < cq_capacity q then cq_list q @ [v] else cq_list q)"
proof -
  have "cq_push q v = (Ok (event_pushed v q, cq_len q < cq_capacity q) :: ('e, _) outcome) \<and> cq_list (event_pushed v q) = (if cq_len q < cq_capacity q then cq_list q @ [v] else cq_list q)"
  proof (cases "cq_len q < cq_capacity q")
    case True
    then have "cq_initialized q" using assms(1) by (simp add: cq_wf_def)
    then show ?thesis using True cq_unchecked_push_ok(3) [OF assms True, of v]
      by (simp add: event_pushed_def cq_push_def cq_verify_init_def cq_unchecked_push_ok(1) [OF assms True])
  next
    case False
    then have "cq_len q = cq_capacity q" using assms(1) by (simp add: cq_wf_def)
    then show ?thesis by (simp add: event_pushed_def cq_push_def)
  qed
  then show "cq_push q v = (Ok (event_pushed v q, cq_len q < cq_capacity q) :: ('e, _) outcome)"
    and "cq_list (event_pushed v q) = (if cq_len q < cq_capacity q then cq_list q @ [v] else cq_list q)" by simp_all
qed

text \<open>The queues that a list of connections leads to.\<close>

definition reached :: "event_duplex option list \<Rightarrow> nat list" where
  "reached cs = List.map_filter (map_option ed_management) cs"

lemma reached_simps [simp]: "reached [] = []" "reached (None # cs) = reached cs" "reached (Some d # cs) = ed_management d # reached cs"
  by (simp_all add: reached_def)

lemma reached_targets: "reached cs = map the (filter (\<lambda>t. t \<noteq> None) (targets cs))"
proof (induction cs)
  case (Cons c cs)
  then show ?case by (cases c) simp_all
qed simp

definition pushed_to :: "u64 \<Rightarrow> nat set \<Rightarrow> event_registry \<Rightarrow> event_registry" where
  "pushed_to v ms r = r\<lparr>er_heap := (\<lambda>m. if m \<in> ms then event_pushed v (er_heap r m) else er_heap r m)\<rparr>"

lemma pushed_to_empty [simp]: "pushed_to v {} r = r"
  by (simp add: pushed_to_def)

lemma pushed_to_insert:
  "ed_management d \<notin> ms \<Longrightarrow> pushed_to v ms (with_queue d (event_pushed v (queue_of d r)) r) = pushed_to v (insert (ed_management d) ms) r"
  by (auto simp: pushed_to_def with_queue_def intro!: arg_cong [where f = "\<lambda>h. r\<lparr>er_heap := h\<rparr>"])

abbreviation has_room :: "event_registry \<Rightarrow> nat \<Rightarrow> bool" where
  "has_room r m \<equiv> cq_len (er_heap r m) < cq_capacity (er_heap r m)"

lemma notify_all_Ok:
  assumes "distinct (reached cs)" and "\<forall>m \<in> set (reached cs). cq_wf (er_heap r m) \<and> 0 < cq_ticks (er_heap r m)"
  shows "notify_all (\<lambda>_. False) v i cs (r, n) = (Ok (pushed_to v (set (reached cs)) r, n + length (filter (has_room r) (reached cs))) :: ('e, _) outcome)"
  using assms
proof (induction cs arbitrary: i r n)
  case (Cons c cs)
  show ?case
  proof (cases c)
    case None
    then show ?thesis using Cons by simp
  next
    case (Some d)
    let ?r = "with_queue d (event_pushed v (queue_of d r)) r"
    have d: "ed_management d \<notin> set (reached cs)" "distinct (reached cs)" using Cons.prems(1) Some by simp_all
    have q: "cq_wf (queue_of d r)" "0 < cq_ticks (queue_of d r)" using Cons.prems(2) Some by simp_all
    have same: "er_heap ?r m = er_heap r m" if "m \<in> set (reached cs)" for m using that d(1) by (auto simp: with_queue_def)
    then have f: "filter (has_room ?r) (reached cs) = filter (has_room r) (reached cs)" by (intro filter_cong) auto
    have rest: "\<forall>m \<in> set (reached cs). cq_wf (er_heap ?r m) \<and> 0 < cq_ticks (er_heap ?r m)" using Cons.prems(2) Some same by auto
    have "event_notify False d v r = (Ok (?r, if has_room r (ed_management d) then Inr () else Inl FailedToDeliverSignal) :: ('e, _) outcome)"
      by (simp add: event_notify_def event_pushed_list(1) [OF q] with_queue_def)
    then show ?thesis using Cons.IH [OF d(2) rest] Some f pushed_to_insert [OF d(1)] by simp
  qed
qed simp

text \<open>A service whose listeners all have an event of their own, and a notifier that follows them: no connection leads to the event of a listener that was
  replaced, and when the list has not changed since the last update exactly the listeners are connected.\<close>

abbreviation listener_at :: "event_service \<Rightarrow> nat \<Rightarrow> u128 option" where
  "listener_at w i \<equiv> mc_entry (dyn_listeners (es_dynamic w)) i"

abbreviation listener_slots :: "event_service \<Rightarrow> nat" where
  "listener_slots w \<equiv> mc_capacity (dyn_listeners (es_dynamic w))"

abbreviation event_of :: "event_service \<Rightarrow> u128 \<Rightarrow> nat option" where
  "event_of w v \<equiv> map_of (er_entries (es_registry w)) (event_key v)"

definition target_at :: "event_service \<Rightarrow> nat \<Rightarrow> nat option" where
  "target_at w i = Option.bind (listener_at w i) (event_of w)"

definition service_ok :: "event_service \<Rightarrow> bool" where
  "service_ok w \<longleftrightarrow> er_lockable (es_registry w) \<and> mc_wf (dyn_listeners (es_dynamic w))
     \<and> (\<forall>i < listener_slots w. listener_at w i \<noteq> None \<longrightarrow> target_at w i \<noteq> None)
     \<and> (\<forall>i < listener_slots w. \<forall>j < listener_slots w. target_at w i = target_at w j \<longrightarrow> target_at w i = None \<or> i = j)
     \<and> (\<forall>i < listener_slots w. \<forall>m. target_at w i = Some m \<longrightarrow> cq_wf (er_heap (es_registry w) m) \<and> 0 < cq_ticks (er_heap (es_registry w) m))"

definition notifier_ok :: "event_service \<Rightarrow> notifier_port \<Rightarrow> bool" where
  "notifier_ok w np \<longleftrightarrow> length (np_connections np) = listener_slots w \<and> cs_wf (dyn_listeners (es_dynamic w)) (np_state np)
     \<and> (\<forall>i < listener_slots w. \<forall>d. np_connections np ! i = Some d \<longrightarrow> listener_at w i \<noteq> None \<longrightarrow> target_at w i = Some (ed_management d))
     \<and> (cs_head (np_state np) = u_head (mc_index_set (dyn_listeners (es_dynamic w)))
          \<longrightarrow> (\<forall>i < listener_slots w. np_connections np ! i = None \<longleftrightarrow> listener_at w i = None))"

definition listening :: "event_service \<Rightarrow> nat set" where
  "listening w = {m. \<exists>i < listener_slots w. target_at w i = Some m}"

lemma update_changed:
  assumes "er_lockable (es_registry w)" and "mc_wf (dyn_listeners (es_dynamic w))" and "length (np_connections np) = listener_slots w"
    and "cs_wf (dyn_listeners (es_dynamic w)) (np_state np)" and "cs_head (np_state np) \<noteq> u_head (mc_index_set (dyn_listeners (es_dynamic w)))"
    and "\<And>i. i < listener_slots w \<Longrightarrow> listener_at w i \<noteq> None \<Longrightarrow> target_at w i \<noteq> None"
  shows "\<exists>np'. notifier_update_connections w np = (Ok (np', Inr ()) :: ('e, _) outcome) \<and> cs_wf (dyn_listeners (es_dynamic w)) (np_state np')
    \<and> cs_head (np_state np') = u_head (mc_index_set (dyn_listeners (es_dynamic w))) \<and> np_default_trigger_id np' = np_default_trigger_id np
    \<and> targets (np_connections np') = map (\<lambda>i. followed (es_registry w) (listener_at w i) (np_connections np ! i)) [0 ..< listener_slots w]"
proof -
  let ?L = "dyn_listeners (es_dynamic w)" and ?cs = "np_connections np" and ?r = "es_registry w"
  obtain st where st: "update_state ?L (np_state np) = (Ok (st, True) :: ('e, _) outcome)" "cs_wf ?L st" "cs_synced ?L st (mc_capacity ?L)" "cs_head st = u_head (mc_index_set ?L)"
    using update_state_changed [OF mc_wf_mem_ok [OF assms(2)] assms(4,5), where ?'e = 'e] by blast
  let ?np = "np\<lparr>np_state := st\<rparr>" and ?v = "map (listener_at w) [0 ..< listener_slots w]"
  have "event_of w x \<noteq> None" if "i < listener_slots w" "listener_at w i = Some x" for i x using assms(6) [OF that(1)] that(2) by (simp add: target_at_def)
  then have "\<forall>v \<in> set ?v. \<forall>id. v = Some id \<longrightarrow> event_of w id \<noteq> None" by (auto simp del: not_None_eq)
  then obtain cs where cs: "populate_listeners ?r 0 ?v ?np = (Ok (?np\<lparr>np_connections := cs\<rparr>, Inr ()) :: ('e, _) outcome)" "targets cs = map2 (followed ?r) ?v ?cs"
    using populate_listeners_Ok [OF assms(1), of 0 ?v ?np, where ?'e = 'e] assms(3) by auto
  have "targets cs = map (\<lambda>i. followed ?r (listener_at w i) (?cs ! i)) [0 ..< listener_slots w]" unfolding cs(2) using assms(3) by (intro nth_equalityI) simp_all
  moreover have "populate_listener_channels ?r ?np = (Ok (?np\<lparr>np_connections := cs\<rparr>, Inr ()) :: ('e, _) outcome)"
    using cs(1) assms(3) by (simp add: populate_listener_channels_def cs_for_each_synced [OF st(2,3)] visited_entries [OF assms(2)])
  ultimately show ?thesis using st by (intro exI [of _ "?np\<lparr>np_connections := cs\<rparr>"]) (simp add: notifier_update_connections_def)
qed

lemma service_okD:
  assumes "service_ok w"
  shows "er_lockable (es_registry w)" and "mc_wf (dyn_listeners (es_dynamic w))"
    and "\<And>i. i < listener_slots w \<Longrightarrow> listener_at w i \<noteq> None \<Longrightarrow> target_at w i \<noteq> None"
    and "\<And>i j m. i < listener_slots w \<Longrightarrow> j < listener_slots w \<Longrightarrow> target_at w i = Some m \<Longrightarrow> target_at w j = Some m \<Longrightarrow> i = j"
    and "\<And>i m. i < listener_slots w \<Longrightarrow> target_at w i = Some m \<Longrightarrow> cq_wf (er_heap (es_registry w) m) \<and> 0 < cq_ticks (er_heap (es_registry w) m)"
proof -
  show "i = j" if "i < listener_slots w" "j < listener_slots w" "target_at w i = Some m" "target_at w j = Some m" for i j m
    using assms that unfolding service_ok_def by (metis option.distinct(1))
qed (use assms in \<open>auto simp: service_ok_def\<close>)

lemma notifier_okD:
  assumes "notifier_ok w np"
  shows "length (np_connections np) = listener_slots w" and "cs_wf (dyn_listeners (es_dynamic w)) (np_state np)"
    and "\<And>i d. i < listener_slots w \<Longrightarrow> np_connections np ! i = Some d \<Longrightarrow> listener_at w i \<noteq> None \<Longrightarrow> target_at w i = Some (ed_management d)"
    and "\<And>i. cs_head (np_state np) = u_head (mc_index_set (dyn_listeners (es_dynamic w))) \<Longrightarrow> i < listener_slots w \<Longrightarrow>
      np_connections np ! i = None \<longleftrightarrow> listener_at w i = None"
  using assms unfolding notifier_ok_def by auto

lemma current_targets:
  assumes "notifier_ok w np" and "cs_head (np_state np) = u_head (mc_index_set (dyn_listeners (es_dynamic w)))" and "i < listener_slots w"
  shows "map_option ed_management (np_connections np ! i) = target_at w i"
  using notifier_okD(3) [OF assms(1,3)] notifier_okD(4) [OF assms] by (cases "np_connections np ! i") (simp_all add: target_at_def)

lemma update_follows:
  assumes "service_ok w" and "notifier_ok w np"
  shows "\<exists>np'. notifier_update_connections w np = (Ok (np', Inr ()) :: ('e, _) outcome) \<and> notifier_ok w np'
    \<and> targets (np_connections np') = map (target_at w) [0 ..< listener_slots w] \<and> cs_head (np_state np') = u_head (mc_index_set (dyn_listeners (es_dynamic w)))"
proof (cases "cs_head (np_state np) = u_head (mc_index_set (dyn_listeners (es_dynamic w)))")
  case True
  have "targets (np_connections np) = map (target_at w) [0 ..< listener_slots w]"
    using current_targets [OF assms(2) True] notifier_okD(1) [OF assms(2)] by (intro nth_equalityI) simp_all
  then show ?thesis using assms(2) True by (intro exI [of _ np]) (simp add: notifier_update_connections_def update_state_unchanged [OF True])
next
  case False
  note S = service_okD [OF assms(1)] and N = notifier_okD [OF assms(2)]
  obtain np' where np': "notifier_update_connections w np = (Ok (np', Inr ()) :: ('e, _) outcome)" "cs_wf (dyn_listeners (es_dynamic w)) (np_state np')"
    "targets (np_connections np') = map (\<lambda>i. followed (es_registry w) (listener_at w i) (np_connections np ! i)) [0 ..< listener_slots w]"
    "cs_head (np_state np') = u_head (mc_index_set (dyn_listeners (es_dynamic w)))"
    using update_changed [OF S(1,2) N(1,2) False S(3), where ?'e = 'e] by blast
  have "followed (es_registry w) (listener_at w i) (np_connections np ! i) = target_at w i" if "i < listener_slots w" for i
    using N(3) [OF that] by (cases "np_connections np ! i"; cases "listener_at w i") (simp_all add: followed_def target_at_def)
  then have t: "targets (np_connections np') = map (target_at w) [0 ..< listener_slots w]" unfolding np'(3) by simp
  have l: "length (np_connections np') = listener_slots w" using arg_cong [OF t, of length] by simp
  have e: "map_option ed_management (np_connections np' ! i) = target_at w i" if "i < listener_slots w" for i using arg_cong [OF t, of "\<lambda>xs. xs ! i"] that l by simp
  have connected: "np_connections np' ! i = None \<longleftrightarrow> listener_at w i = None" if "i < listener_slots w" for i
    using e [OF that] S(3) [OF that] by (cases "listener_at w i"; cases "np_connections np' ! i") (simp_all add: target_at_def)
  have "notifier_ok w np'" unfolding notifier_ok_def using l np'(2) connected e by (metis option.simps(9))
  then show ?thesis using np'(1,4) t by blast
qed

text \<open>The queues of a list of targets that are all different.\<close>

lemma reached_of_map:
  assumes "targets cs = map g [0 ..< n]" and "\<And>i j m. i < n \<Longrightarrow> j < n \<Longrightarrow> g i = Some m \<Longrightarrow> g j = Some m \<Longrightarrow> i = j"
  shows "set (reached cs) = {m. \<exists>i < n. g i = Some m}" and "distinct (reached cs)"
proof -
  have r: "reached cs = map the (filter (\<lambda>t. t \<noteq> None) (map g [0 ..< n]))" by (simp add: reached_targets assms(1))
  show "set (reached cs) = {m. \<exists>i < n. g i = Some m}" unfolding r by (force simp: image_iff)
  have d: "distinct (filter (\<lambda>t. t \<noteq> None) (map g xs))" if "distinct xs" "set xs \<subseteq> {..< n}" for xs
    using that
  proof (induction xs)
    case (Cons a xs)
    have "x = a" if "x \<in> set xs" "g a = Some m" "g x = Some m" for x m
      using that Cons.prems(2) assms(2) [of x a m] by auto
    then show ?case using Cons by (fastforce simp: image_iff)
  qed simp
  have "distinct (filter (\<lambda>t. t \<noteq> None) (map g [0 ..< n]))" by (rule d) auto
  then show "distinct (reached cs)" unfolding r by (auto simp: distinct_map intro!: inj_onI)
qed

lemma reached_of_targets:
  assumes "service_ok w" and "targets cs = map (target_at w) [0 ..< listener_slots w]"
  shows "set (reached cs) = listening w" and "distinct (reached cs)"
  using reached_of_map [OF assms(2) service_okD(4) [OF assms(1)]] by (simp_all add: listening_def)

lemma notify_targets:
  assumes "notifier_update_connections w np = (Ok (np', Inr ()) :: ('e, _) outcome)" and "distinct (reached (np_connections np'))"
    and "\<And>m. m \<in> set (reached (np_connections np')) \<Longrightarrow> cq_wf (er_heap (es_registry w) m) \<and> 0 < cq_ticks (er_heap (es_registry w) m)"
  shows "notify_with_custom_trigger_id (\<lambda>_. False) v np w = (Ok (w\<lparr>es_registry := pushed_to v (set (reached (np_connections np'))) (es_registry w)\<rparr>, np',
    Inr (card {m \<in> set (reached (np_connections np')). has_room (es_registry w) m})) :: ('e, _) outcome)"
proof -
  have "length (filter (has_room (es_registry w)) (reached (np_connections np'))) = card {m \<in> set (reached (np_connections np')). has_room (es_registry w) m}"
    using distinct_length_filter [OF assms(2)] by (simp add: Int_def conj_commute)
  then show ?thesis using assms(1) notify_all_Ok [OF assms(2), of "es_registry w" v 0 0, where ?'e = 'e] assms(3) by (simp add: notify_with_custom_trigger_id_def)
qed

lemma notify_pushes:
  assumes "service_ok w" and "notifier_ok w np"
  shows "\<exists>np'. notify_with_custom_trigger_id (\<lambda>_. False) v np w = (Ok (w\<lparr>es_registry := pushed_to v (listening w) (es_registry w)\<rparr>, np',
      Inr (card {m \<in> listening w. has_room (es_registry w) m})) :: ('e, _) outcome)
    \<and> notifier_ok (w\<lparr>es_registry := pushed_to v (listening w) (es_registry w)\<rparr>) np'"
proof -
  obtain np' where np': "notifier_update_connections w np = (Ok (np', Inr ()) :: ('e, _) outcome)" "notifier_ok w np'"
    "targets (np_connections np') = map (target_at w) [0 ..< listener_slots w]" using update_follows [OF assms, where ?'e = 'e] by blast
  note r = reached_of_targets [OF assms(1) np'(3)]
  let ?r = "pushed_to v (listening w) (es_registry w)"
  have "target_at (w\<lparr>es_registry := ?r\<rparr>) = target_at w" by (simp add: fun_eq_iff target_at_def pushed_to_def)
  then have "notifier_ok (w\<lparr>es_registry := ?r\<rparr>) np'" using np'(2) by (simp add: notifier_ok_def)
  moreover have "cq_wf (er_heap (es_registry w) m) \<and> 0 < cq_ticks (er_heap (es_registry w) m)" if "m \<in> listening w" for m
    using that service_okD(5) [OF assms(1)] by (auto simp: listening_def)
  ultimately show ?thesis using notify_targets [OF np'(1) r(2), of v] unfolding r(1) by blast
qed

lemma pushed_to_heap [simp]: "er_heap (pushed_to v ms r) m = (if m \<in> ms then event_pushed v (er_heap r m) else er_heap r m)"
  by (simp add: pushed_to_def)

section \<open>Connections that are kept\<close>

text \<open>\<^verbatim>\<open>update_connections\<close> never looks at a connection that exists, so the connection at an index may lead to the event of a listener that had this index before.
  \<open>destination\<close> is the queue that a notification reaches through the index \<open>i\<close>: none when no listener is registered there, the one of the existing connection when
  there is one, and otherwise the event of the listener.\<close>

definition destination :: "event_service \<Rightarrow> notifier_port \<Rightarrow> nat \<Rightarrow> nat option" where
  "destination w np i = followed (es_registry w) (listener_at w i) (np_connections np ! i)"

definition destinations :: "event_service \<Rightarrow> notifier_port \<Rightarrow> nat set" where
  "destinations w np = {m. \<exists>i < listener_slots w. destination w np i = Some m}"

text \<open>Addresses of new queues are not in use.\<close>

definition fresh_addresses :: "event_registry \<Rightarrow> bool" where
  "fresh_addresses r \<longleftrightarrow> (\<forall>k m. map_of (er_entries r) k = Some m \<longrightarrow> m < er_next r)"

text \<open>A queue belongs to an index when it is the event of the listener there or the connection there leads to it.\<close>

definition belongs :: "event_service \<Rightarrow> notifier_port \<Rightarrow> nat \<Rightarrow> nat \<Rightarrow> bool" where
  "belongs w np i m \<longleftrightarrow> target_at w i = Some m \<or> map_option ed_management (np_connections np ! i) = Some m"

text \<open>A service and a notifier, which may hold connections to listeners that were replaced: every registered listener has an event, no queue belongs to two indices,
  and the queues take \<open>k\<close> more trigger ids.\<close>

definition ports_ok :: "nat \<Rightarrow> event_service \<Rightarrow> notifier_port \<Rightarrow> bool" where
  "ports_ok k w np \<longleftrightarrow> er_lockable (es_registry w) \<and> mc_wf (dyn_listeners (es_dynamic w))
     \<and> length (np_connections np) = listener_slots w \<and> cs_wf (dyn_listeners (es_dynamic w)) (np_state np) \<and> fresh_addresses (es_registry w)
     \<and> (\<forall>i < listener_slots w. listener_at w i \<noteq> None \<longrightarrow> target_at w i \<noteq> None)
     \<and> (cs_head (np_state np) = u_head (mc_index_set (dyn_listeners (es_dynamic w)))
          \<longrightarrow> (\<forall>i < listener_slots w. np_connections np ! i = None \<longleftrightarrow> listener_at w i = None))
     \<and> (\<forall>i < listener_slots w. \<forall>j < listener_slots w. \<forall>m. belongs w np i m \<and> belongs w np j m \<longrightarrow> i = j)
     \<and> (\<forall>i < listener_slots w. \<forall>m. belongs w np i m
          \<longrightarrow> m < er_next (es_registry w) \<and> cq_wf (er_heap (es_registry w) m) \<and> k \<le> cq_ticks (er_heap (es_registry w) m))"

lemma ports_okD:
  assumes "ports_ok k w np"
  shows "er_lockable (es_registry w)" and "mc_wf (dyn_listeners (es_dynamic w))" and "length (np_connections np) = listener_slots w"
    and "cs_wf (dyn_listeners (es_dynamic w)) (np_state np)" and "fresh_addresses (es_registry w)"
    and "\<And>i. i < listener_slots w \<Longrightarrow> listener_at w i \<noteq> None \<Longrightarrow> target_at w i \<noteq> None"
    and "\<And>i. cs_head (np_state np) = u_head (mc_index_set (dyn_listeners (es_dynamic w))) \<Longrightarrow> i < listener_slots w \<Longrightarrow>
      np_connections np ! i = None \<longleftrightarrow> listener_at w i = None"
    and "\<And>i j m. i < listener_slots w \<Longrightarrow> j < listener_slots w \<Longrightarrow> belongs w np i m \<Longrightarrow> belongs w np j m \<Longrightarrow> i = j"
    and "\<And>i m. i < listener_slots w \<Longrightarrow> belongs w np i m \<Longrightarrow> m < er_next (es_registry w)"
    and "\<And>i m. i < listener_slots w \<Longrightarrow> belongs w np i m \<Longrightarrow> cq_wf (er_heap (es_registry w) m) \<and> k \<le> cq_ticks (er_heap (es_registry w) m)"
  using assms unfolding ports_ok_def by blast+

lemma ports_okI:
  assumes "er_lockable (es_registry w)" and "mc_wf (dyn_listeners (es_dynamic w))" and "length (np_connections np) = listener_slots w"
    and "cs_wf (dyn_listeners (es_dynamic w)) (np_state np)" and "fresh_addresses (es_registry w)"
    and "\<And>i. i < listener_slots w \<Longrightarrow> listener_at w i \<noteq> None \<Longrightarrow> target_at w i \<noteq> None"
    and "\<And>i. cs_head (np_state np) = u_head (mc_index_set (dyn_listeners (es_dynamic w))) \<Longrightarrow> i < listener_slots w \<Longrightarrow>
      np_connections np ! i = None \<longleftrightarrow> listener_at w i = None"
    and "\<And>i j m. i < listener_slots w \<Longrightarrow> j < listener_slots w \<Longrightarrow> belongs w np i m \<Longrightarrow> belongs w np j m \<Longrightarrow> i = j"
    and "\<And>i m. i < listener_slots w \<Longrightarrow> belongs w np i m \<Longrightarrow>
      m < er_next (es_registry w) \<and> cq_wf (er_heap (es_registry w) m) \<and> k \<le> cq_ticks (er_heap (es_registry w) m)"
  shows "ports_ok k w np"
  unfolding ports_ok_def using assms by blast

lemma destination_belongs: "destination w np i = Some m \<Longrightarrow> belongs w np i m"
  by (cases "listener_at w i"; cases "np_connections np ! i") (simp_all add: destination_def followed_def belongs_def target_at_def)

lemma destination_None:
  "i < listener_slots w \<Longrightarrow> ports_ok k w np \<Longrightarrow> destination w np i = None \<longleftrightarrow> listener_at w i = None"
  using ports_okD(6) [of k w np i]
  by (cases "listener_at w i"; cases "np_connections np ! i") (simp_all add: destination_def followed_def target_at_def)

lemma finite_destinations: "finite (destinations w np)"
  by (rule finite_subset [of _ "(\<lambda>i. the (destination w np i)) ` {..< listener_slots w}"]) (auto simp: destinations_def image_iff, force)

lemma update_to_destinations:
  assumes "ports_ok k w np"
  shows "\<exists>np'. notifier_update_connections w np = (Ok (np', Inr ()) :: ('e, _) outcome) \<and> cs_wf (dyn_listeners (es_dynamic w)) (np_state np')
    \<and> targets (np_connections np') = map (destination w np) [0 ..< listener_slots w] \<and> cs_head (np_state np') = u_head (mc_index_set (dyn_listeners (es_dynamic w)))"
proof (cases "cs_head (np_state np) = u_head (mc_index_set (dyn_listeners (es_dynamic w)))")
  case True
  note P = ports_okD [OF assms]
  have "map_option ed_management (np_connections np ! i) = destination w np i" if "i < listener_slots w" for i
    using P(7) [OF True that] by (cases "listener_at w i"; cases "np_connections np ! i") (simp_all add: destination_def followed_def)
  then have "targets (np_connections np) = map (destination w np) [0 ..< listener_slots w]" using P(3) by (intro nth_equalityI) simp_all
  then show ?thesis using True P(4) by (intro exI [of _ np]) (simp add: notifier_update_connections_def update_state_unchanged [OF True])
next
  case False
  show ?thesis using update_changed [OF ports_okD(1-4) [OF assms] False ports_okD(6) [OF assms], where ?'e = 'e] unfolding destination_def by blast
qed

lemma event_pushed_ticks:
  assumes "cq_wf q" and "0 < cq_ticks q"
  shows "cq_capacity (event_pushed v q) = cq_capacity q" and "cq_ticks q \<le> Suc (cq_ticks (event_pushed v q))"
    and "cq_len (event_pushed v q) = (if cq_len q < cq_capacity q then Suc (cq_len q) else cq_len q)"
proof -
  have "cq_capacity (event_pushed v q) = cq_capacity q \<and> cq_ticks q \<le> Suc (cq_ticks (event_pushed v q))"
  proof (cases "cq_len q < cq_capacity q")
    case True
    then have "length (cq_list q) < cq_capacity q" using length_cq_list [OF assms(1)] by simp
    then have "\<exists>q'. cq_push q v = (Ok (q', True) :: (unit, _) outcome) \<and> cq_wf q' \<and> cq_list q' = cq_list q @ [v] \<and> cq_capacity q' = cq_capacity q
        \<and> cq_ticks q \<le> Suc (cq_ticks q')" by (rule cq.push_ok [OF assms])
    then show ?thesis by (auto simp: event_pushed_def)
  next
    case False
    then show ?thesis using event_pushed_list(1) [OF assms, of v] assms(1) by (simp add: event_pushed_def cq_push_def cq_wf_def)
  qed
  then show "cq_capacity (event_pushed v q) = cq_capacity q" and "cq_ticks q \<le> Suc (cq_ticks (event_pushed v q))" by simp_all
  show "cq_len (event_pushed v q) = (if cq_len q < cq_capacity q then Suc (cq_len q) else cq_len q)"
    using length_cq_list [OF event_pushed_props(1) [OF assms(1)], of v] length_cq_list [OF assms(1)] event_pushed_list(2) [OF assms, of v] by (simp split: if_splits)
qed

lemma notify_destinations:
  assumes "ports_ok (Suc k) w np"
  defines "w' \<equiv> \<lambda>v. w\<lparr>es_registry := pushed_to v (destinations w np) (es_registry w)\<rparr>"
  shows "\<exists>np'. notify_with_custom_trigger_id (\<lambda>_. False) v np w = (Ok (w' v, np', Inr (card {m \<in> destinations w np. has_room (es_registry w) m})) :: ('e, _) outcome)
    \<and> ports_ok k (w' v) np' \<and> (\<forall>i < listener_slots w. destination (w' v) np' i = destination w np i)"
proof -
  note P = ports_okD [OF assms(1)]
  obtain np' where np': "notifier_update_connections w np = (Ok (np', Inr ()) :: ('e, _) outcome)" "cs_wf (dyn_listeners (es_dynamic w)) (np_state np')"
    "targets (np_connections np') = map (destination w np) [0 ..< listener_slots w]" "cs_head (np_state np') = u_head (mc_index_set (dyn_listeners (es_dynamic w)))"
    using update_to_destinations [OF assms(1), where ?'e = 'e] by blast
  have l: "length (np_connections np') = listener_slots w" using arg_cong [OF np'(3), of length] by simp
  have e: "map_option ed_management (np_connections np' ! i) = destination w np i" if "i < listener_slots w" for i
    using arg_cong [OF np'(3), of "\<lambda>xs. xs ! i"] that l by simp
  have inj: "i = j" if "i < listener_slots w" "j < listener_slots w" "destination w np i = Some m" "destination w np j = Some m" for i j m
    using P(8) [OF that(1,2)] destination_belongs that(3,4) by blast
  have q: "cq_wf (er_heap (es_registry w) m) \<and> Suc k \<le> cq_ticks (er_heap (es_registry w) m)" if "i < listener_slots w" "belongs w np i m" for i m
    using P(10) [OF that] .
  have r: "set (reached (np_connections np')) = destinations w np" "distinct (reached (np_connections np'))"
    unfolding destinations_def by (rule reached_of_map [OF np'(3)], erule (3) inj)+
  have "cq_wf (er_heap (es_registry w) m) \<and> 0 < cq_ticks (er_heap (es_registry w) m)" if "m \<in> destinations w np" for m
    using that q destination_belongs by (fastforce simp: destinations_def)
  then have n: "notify_with_custom_trigger_id (\<lambda>_. False) v np w = (Ok (w' v, np', Inr (card {m \<in> destinations w np. has_room (es_registry w) m})) :: ('e, _) outcome)"
    using notify_targets [OF np'(1) r(2), of v] unfolding r(1) w'_def by simp
  have t: "target_at (w' v) = target_at w" by (simp add: fun_eq_iff target_at_def w'_def pushed_to_def)
  have k: "listener_slots (w' v) = listener_slots w" "es_dynamic (w' v) = es_dynamic w" "er_next (es_registry (w' v)) = er_next (es_registry w)"
    "er_lockable (es_registry (w' v)) = er_lockable (es_registry w)" "er_entries (es_registry (w' v)) = er_entries (es_registry w)" by (simp_all add: w'_def pushed_to_def)
  have connected: "np_connections np' ! i = None \<longleftrightarrow> listener_at w i = None" if "i < listener_slots w" for i
    using e [OF that] destination_None [OF that assms(1)] by (metis option.map_disc_iff)
  have known: "belongs w np i m" if "i < listener_slots w" "belongs (w' v) np' i m" for i m
    using that(2) e [OF that(1)] destination_belongs [of w np i m] by (auto simp: belongs_def t)
  have d: "destination (w' v) np' i = destination w np i" if "i < listener_slots w" for i
    using connected [OF that] e [OF that] by (cases "listener_at w i"; cases "np_connections np' ! i") (simp_all add: destination_def followed_def k)
  have heap: "cq_wf (er_heap (es_registry (w' v)) m) \<and> k \<le> cq_ticks (er_heap (es_registry (w' v)) m)" if "i < listener_slots w" "belongs w np i m" for i m
    using q [OF that] event_pushed_props(1) [of "er_heap (es_registry w) m" v] event_pushed_ticks(2) [of "er_heap (es_registry w) m" v] by (simp add: w'_def pushed_to_def)
  have "fresh_addresses (es_registry (w' v))" using P(5) by (simp add: fresh_addresses_def k)
  then have "ports_ok k (w' v) np'" using P(1,2,6,9) l np'(2) connected heap by (intro ports_okI) (simp_all add: k t, (metis known P(8))+)
  then show ?thesis using n d by blast
qed

text \<open>C36: where a notification goes. The notifier may have missed any changes of the list of listeners, and may still hold connections to listeners that were
  replaced. A notification updates the connections and then appends the trigger id to the queues that are the destinations of the registered listeners, except the
  full ones, changes no other queue, and returns the number of queues that it was appended to. So a registered listener gets the trigger id, after the ones it already
  has, exactly when it has room and the notifier has no connection that it kept from a listener which had the same index before; it is the destination when the notifier has no
  connection at its index or has the right one. The destinations stay the same for the next notification.\<close>

theorem notify_reaches_listeners:
  assumes "ports_ok (Suc k) w np"
  shows "\<exists>np' r. notify_with_custom_trigger_id (\<lambda>_. False) v np w = (Ok (w\<lparr>es_registry := r\<rparr>, np', Inr (card {m \<in> destinations w np. has_room (es_registry w) m})) :: (unit, _) outcome)
    \<and> (\<forall>i < listener_slots w. \<forall>m. target_at w i = Some m \<longrightarrow>
         cq_list (er_heap r m) = cq_list (er_heap (es_registry w) m) @ (if destination w np i = Some m \<and> has_room (es_registry w) m then [v] else [])
       \<and> (destination w np i = Some m \<longleftrightarrow> np_connections np ! i = None \<or> map_option ed_management (np_connections np ! i) = Some m))
    \<and> (\<forall>m \<in> destinations w np. cq_list (er_heap r m) = cq_list (er_heap (es_registry w) m) @ (if has_room (es_registry w) m then [v] else []))
    \<and> (\<forall>m. m \<notin> destinations w np \<longrightarrow> er_heap r m = er_heap (es_registry w) m)
    \<and> ports_ok k (w\<lparr>es_registry := r\<rparr>) np' \<and> (\<forall>i < listener_slots w. destination (w\<lparr>es_registry := r\<rparr>) np' i = destination w np i)"
proof -
  note P = ports_okD [OF assms]
  let ?r = "pushed_to v (destinations w np) (es_registry w)"
  obtain np' where np': "notify_with_custom_trigger_id (\<lambda>_. False) v np w = (Ok (w\<lparr>es_registry := ?r\<rparr>, np', Inr (card {m \<in> destinations w np. has_room (es_registry w) m})) :: (unit, _) outcome)"
    "ports_ok k (w\<lparr>es_registry := ?r\<rparr>) np' \<and> (\<forall>i < listener_slots w. destination (w\<lparr>es_registry := ?r\<rparr>) np' i = destination w np i)"
    using notify_destinations [OF assms, of v, where ?'e = unit] by blast
  have a: "cq_list (er_heap ?r m) = cq_list (er_heap (es_registry w) m) @ (if has_room (es_registry w) m then [v] else [])" if m: "m \<in> destinations w np" for m
  proof -
    obtain i where "i < listener_slots w" "destination w np i = Some m" using m by (auto simp: destinations_def)
    then have "i < listener_slots w" "belongs w np i m" using destination_belongs by simp_all
    then show ?thesis using P(10) [of i m] m by (simp add: event_pushed_list(2))
  qed
  have "m \<in> destinations w np \<longleftrightarrow> destination w np i = Some m" if "i < listener_slots w" "target_at w i = Some m" for i m
  proof
    assume "m \<in> destinations w np"
    then obtain j where j: "j < listener_slots w" "destination w np j = Some m" by (auto simp: destinations_def)
    then have "j = i" using P(8) [OF j(1) that(1)] destination_belongs [OF j(2)] that(2) by (simp add: belongs_def)
    then show "destination w np i = Some m" using j(2) by simp
  qed (use that(1) in \<open>auto simp: destinations_def\<close>)
  then have b: "cq_list (er_heap ?r m) = cq_list (er_heap (es_registry w) m) @ (if destination w np i = Some m \<and> has_room (es_registry w) m then [v] else [])"
    if "i < listener_slots w" "target_at w i = Some m" for i m using a [of m] that by simp
  have c: "destination w np i = Some m \<longleftrightarrow> np_connections np ! i = None \<or> map_option ed_management (np_connections np ! i) = Some m" if "target_at w i = Some m" for i m
    using that by (cases "listener_at w i"; cases "np_connections np ! i") (simp_all add: destination_def followed_def target_at_def)
  have d: "er_heap ?r m = er_heap (es_registry w) m" if "m \<notin> destinations w np" for m using that by simp
  show ?thesis using np' a b c d by (intro exI [of _ np'] exI [of _ ?r]) blast
qed

section \<open>Many notifications\<close>

primrec notify_run :: "u64 list \<Rightarrow> notifier_port \<Rightarrow> event_service \<Rightarrow> ('e, event_service \<times> notifier_port \<times> (unit + nat) list) outcome" where
  "notify_run [] np w = Ok (w, np, [])"
| "notify_run (t # ts) np w =
     obind (notify_with_custom_trigger_id (\<lambda>_. False) t np w) (\<lambda>(w1, np1, result).
       omap (\<lambda>(w2, np2, results). (w2, np2, result # results)) (notify_run ts np1 w1))"

definition room :: "event_registry \<Rightarrow> nat \<Rightarrow> nat" where
  "room r m = cq_capacity (er_heap r m) - cq_len (er_heap r m)"

lemma notify_run_destinations:
  assumes "ports_ok (length ts) w np"
  shows "\<exists>w' np' ns. notify_run ts np w = (Ok (w', np', map Inr ns) :: ('e, _) outcome) \<and> length ns = length ts
    \<and> (\<forall>m \<in> destinations w np. cq_list (er_heap (es_registry w') m) = cq_list (er_heap (es_registry w) m) @ take (room (es_registry w) m) ts
         \<and> (\<forall>j < length ts. j < room (es_registry w) m \<longrightarrow> 0 < ns ! j))
    \<and> (\<forall>m. m \<notin> destinations w np \<longrightarrow> er_heap (es_registry w') m = er_heap (es_registry w) m)"
  using assms
proof (induction ts arbitrary: w np)
  case Nil
  then show ?case by (intro exI [of _ w] exI [of _ np] exI [of _ "[]"]) simp
next
  case (Cons t ts)
  let ?w1 = "w\<lparr>es_registry := pushed_to t (destinations w np) (es_registry w)\<rparr>" and ?n = "card {m \<in> destinations w np. has_room (es_registry w) m}"
  have ok: "ports_ok (Suc (length ts)) w np" using Cons.prems by simp
  obtain np1 where n1: "notify_with_custom_trigger_id (\<lambda>_. False) t np w = (Ok (?w1, np1, Inr ?n) :: ('e, _) outcome)" "ports_ok (length ts) ?w1 np1"
    and d: "\<forall>i < listener_slots w. destination ?w1 np1 i = destination w np i" using notify_destinations [OF ok, of t, where ?'e = 'e] by blast
  have D: "destinations ?w1 np1 = destinations w np" using d by (auto simp: destinations_def)
  from Cons.IH [OF n1(2)] obtain w' np' ns where n: "notify_run ts np1 ?w1 = (Ok (w', np', map Inr ns) :: ('e, _) outcome)" "length ns = length ts"
    and a: "\<And>m. m \<in> destinations w np \<Longrightarrow> cq_list (er_heap (es_registry w') m) = cq_list (er_heap (es_registry ?w1) m) @ take (room (es_registry ?w1) m) ts"
    and c: "\<And>m j. m \<in> destinations w np \<Longrightarrow> j < length ts \<Longrightarrow> j < room (es_registry ?w1) m \<Longrightarrow> 0 < ns ! j"
    and b: "\<And>m. m \<notin> destinations w np \<Longrightarrow> er_heap (es_registry w') m = er_heap (es_registry ?w1) m" unfolding D by blast
  have q: "cq_wf (er_heap (es_registry w) m) \<and> 0 < cq_ticks (er_heap (es_registry w) m)" if "m \<in> destinations w np" for m
    using that ports_okD(10) [OF ok] destination_belongs by (fastforce simp: destinations_def)
  have l: "cq_list (er_heap (es_registry w') m) = cq_list (er_heap (es_registry w) m) @ take (room (es_registry w) m) (t # ts)" if "m \<in> destinations w np" for m
    using a [OF that] that q [OF that] by (auto simp: room_def event_pushed_list(2) event_pushed_ticks take_Cons' Suc_diff_le)
  have p: "0 < (?n # ns) ! j" if "m \<in> destinations w np" "j < length (t # ts)" "j < room (es_registry w) m" for m j
  proof (cases j)
    case 0
    then have "m \<in> {m \<in> destinations w np. has_room (es_registry w) m}" using that(1,3) by (simp add: room_def)
    then show ?thesis using finite_destinations [of w np] 0 by (auto simp: card_gt_0_iff)
  next
    case (Suc j')
    then have "j' < room (es_registry ?w1) m" using that(1,3) q [OF that(1)] by (auto simp: room_def event_pushed_ticks)
    then show ?thesis using c [OF that(1)] that(2) Suc by simp
  qed
  have "notify_run (t # ts) np w = (Ok (w', np', map Inr (?n # ns)) :: ('e, _) outcome)" using n(1) by (simp add: n1(1))
  moreover have "er_heap (es_registry w') m = er_heap (es_registry w) m" if "m \<notin> destinations w np" for m using b [OF that] that by simp
  ultimately show ?case using n(2) l p by (intro exI [of _ w'] exI [of _ np'] exI [of _ "?n # ns"]) simp
qed

section \<open>Listeners that come and go\<close>

lemma mc_add_capacity: "mc_add c v = (Ok (c', x) :: ('e, _) outcome) \<Longrightarrow> mc_capacity c' = mc_capacity c"
  by (auto simp: mc_add_def mc_acquire_def mc_write_value_def mc_activate_def obind_eq_Ok_iff omap_eq_Ok_iff split: option.splits)

lemma mc_index_drop_capacity: "mc_index_drop c x = (Ok c' :: ('e, _) outcome) \<Longrightarrow> mc_capacity c' = mc_capacity c"
  by (auto simp: mc_index_drop_def omap_eq_Ok_iff)

lemma mc_entry_map: "mc_wf c \<Longrightarrow> i < mc_capacity c \<Longrightarrow> mc_entry c i = mc_map c (word_of_nat i)"
  using unat_word_of_nat_u32 [of i] by (simp add: mc_map_def mc_wf_def)

lemma mc_entry_upd:
  assumes "mc_wf c" and "mc_wf c'" and "mc_capacity c' = mc_capacity c" and "mc_map c' = (mc_map c)(i := x)" and "j < mc_capacity c"
  shows "mc_entry c' j = (if j = unat i then x else mc_entry c j)"
proof -
  have "word_of_nat j = i \<longleftrightarrow> j = unat i"
    using unat_word_of_nat_u32 [of j] assms(1,5) by (auto simp: mc_wf_def)
  then show ?thesis using mc_entry_map [OF assms(1)] mc_entry_map [OF assms(2)] assms(3-5) by simp
qed

text \<open>The registry with the event of a new listener.\<close>

definition with_event :: "u128 \<Rightarrow> event_registry \<Rightarrow> event_registry" where
  "with_event v r = r\<lparr>er_entries := AList.update (event_key v) (er_next r) (er_entries r),
     er_heap := (er_heap r)(er_next r := fixed_cq_default EVENT_CAPACITY), er_next := er_next r + 1\<rparr>"

lemma with_event_simps [simp]:
  "map_of (er_entries (with_event v r)) = (map_of (er_entries r))(event_key v \<mapsto> er_next r)" "er_lockable (with_event v r) = er_lockable r"
  "m \<noteq> er_next r \<Longrightarrow> er_heap (with_event v r) m = er_heap r m" "er_heap (with_event v r) (er_next r) = fixed_cq_default EVENT_CAPACITY"
  "er_next (with_event v r) = er_next r + 1"
  by (simp_all add: with_event_def)

lemma listener_port_new_Ok:
  assumes "er_lockable (es_registry w)" and "mc_wf (dyn_listeners (es_dynamic w))" and "event_of w v = None"
    and "uis_free (mc_index_set (dyn_listeners (es_dynamic w))) = i # is" and "0 < uis_budget (mc_index_set (dyn_listeners (es_dynamic w)))"
  shows "\<exists>c name. listener_port_new False v w = (Ok (\<lparr>es_registry = with_event v (es_registry w), es_dynamic = (es_dynamic w)\<lparr>dyn_listeners := c\<rparr>\<rparr>,
      Inr \<lparr>lp_guard = \<lparr>ui_value = i, ui_cleanup = Some mc_cleanup\<rparr>, lp_listener = \<lparr>ed_name = name, ed_management = er_next (es_registry w)\<rparr>\<rparr>) :: ('e, _) outcome)
    \<and> mc_wf c \<and> mc_capacity c = listener_slots w \<and> mc_map c = (mc_map (dyn_listeners (es_dynamic w)))(i \<mapsto> v)
    \<and> u_head (mc_index_set c) \<noteq> u_head (mc_index_set (dyn_listeners (es_dynamic w)))
    \<and> uis_budget (mc_index_set c) = uis_budget (mc_index_set (dyn_listeners (es_dynamic w))) - 1"
proof -
  let ?L = "dyn_listeners (es_dynamic w)"
  obtain b where b: "listener_event v = (Ok b :: ('e, _) outcome)" "(concept_path (eb_config b) (eb_name b) :: (listener_create_error, _) outcome) = Ok (event_key v)"
    using listener_event_Ok by blast
  obtain c where c: "mc_add ?L v = (Ok (c, Some \<lparr>ui_value = i, ui_cleanup = Some mc_cleanup\<rparr>) :: ('e, _) outcome)" "mc_wf c" "mc_map c = (mc_map ?L)(i \<mapsto> v)"
    "uis_budget (mc_index_set c) = uis_budget (mc_index_set ?L) - 1" using mc_add_some [OF assms(2,4,5), of v, where ?'e = 'e] by blast
  have "event_create False b (es_registry w) = Ok (with_event v (es_registry w), \<lparr>ed_name = eb_name b, ed_management = er_next (es_registry w)\<rparr>)"
    using assms(1,3) b(2) by (simp add: event_create_def with_event_def)
  moreover have "u_head (mc_index_set c) \<noteq> u_head (mc_index_set ?L)" using c(4) assms(5) by (auto simp: uis_budget_def)
  ultimately show ?thesis using b(1) c assms(5) mc_add_capacity [OF c(1)]
    by (intro exI [of _ c] exI [of _ "eb_name b"]) (simp add: listener_port_new_def add_listener_id_def)
qed

lemma target_in_registry: "fresh_addresses (es_registry w) \<Longrightarrow> target_at w i = Some m \<Longrightarrow> m < er_next (es_registry w)"
  by (cases "listener_at w i") (auto simp: target_at_def fresh_addresses_def)

lemma target_with_event:
  assumes "fresh_addresses (es_registry w)" and "event_of w v = None" and "mc_wf (dyn_listeners (es_dynamic w))" and "mc_wf c" and "mc_capacity c = listener_slots w"
    and "mc_map c = (mc_map (dyn_listeners (es_dynamic w)))(i \<mapsto> v)" and "j < listener_slots w" and "listener_at w j \<noteq> None \<Longrightarrow> target_at w j \<noteq> None"
  shows "target_at \<lparr>es_registry = with_event v (es_registry w), es_dynamic = (es_dynamic w)\<lparr>dyn_listeners := c\<rparr>\<rparr> j
    = (if j = unat i then Some (er_next (es_registry w)) else target_at w j)"
proof -
  have e: "mc_entry c j = (if j = unat i then Some v else listener_at w j)" using mc_entry_upd [OF assms(3,4,5) assms(6)] assms(7) by simp
  have "x \<noteq> v" if "listener_at w j = Some x" for x using that assms(2,8) by (auto simp: target_at_def)
  then show ?thesis using e by (cases "listener_at w j") (auto simp: target_at_def)
qed

lemma service_with_event:
  assumes "service_ok w" and "fresh_addresses (es_registry w)" and "event_of w v = None" and "mc_wf c" and "mc_capacity c = listener_slots w"
    and "mc_map c = (mc_map (dyn_listeners (es_dynamic w)))(i \<mapsto> v)" and "unat i < listener_slots w" and "listener_at w (unat i) = None"
  defines "w1 \<equiv> \<lparr>es_registry = with_event v (es_registry w), es_dynamic = (es_dynamic w)\<lparr>dyn_listeners := c\<rparr>\<rparr>"
  shows "service_ok w1" and "listening w1 = insert (er_next (es_registry w)) (listening w)"
proof -
  note S = service_okD [OF assms(1)]
  have t: "target_at w1 j = (if j = unat i then Some (er_next (es_registry w)) else target_at w j)" if "j < listener_slots w" for j
    unfolding w1_def using target_with_event [OF assms(2,3) S(2) assms(4-6) that S(3) [OF that]] .
  have l: "listener_at w1 j = (if j = unat i then Some v else listener_at w j)" if "j < listener_slots w" for j
    unfolding w1_def using mc_entry_upd [OF S(2) assms(4-6)] that by simp
  have slots: "listener_slots w1 = listener_slots w" by (simp add: w1_def assms(5))
  have m: "m \<noteq> er_next (es_registry w)" if "target_at w j = Some m" for j m using target_in_registry [OF assms(2) that] by simp
  have q: "cq_wf (er_heap (es_registry w1) m) \<and> 0 < cq_ticks (er_heap (es_registry w1) m)" if "j < listener_slots w" "target_at w1 j = Some m" for j m
  proof (cases "j = unat i")
    case True
    then have m: "m = er_next (es_registry w)" using t [OF that(1)] that(2) by simp
    show ?thesis unfolding m by (simp add: w1_def fixed_cq_default_wf(1) event_room(1))
  next
    case False
    then have "target_at w j = Some m" using t [OF that(1)] that(2) by simp
    then show ?thesis using S(5) [OF that(1)] m by (simp add: w1_def)
  qed
  have "j = k" if "j < listener_slots w" "k < listener_slots w" "target_at w1 j = Some n" "target_at w1 k = Some n" for j k n
    using that(3,4) unfolding t [OF that(1)] t [OF that(2)] by (auto split: if_splits dest: m intro: S(4) [OF that(1,2)])
  then have "target_at w1 j = None \<or> j = k" if "j < listener_slots w" "k < listener_slots w" "target_at w1 j = target_at w1 k" for j k
    using that by (cases "target_at w1 k") auto
  moreover have "target_at w1 j \<noteq> None" if "j < listener_slots w" "listener_at w1 j \<noteq> None" for j
    using t [OF that(1)] l [OF that(1)] S(3) [OF that(1)] that(2) by (auto split: if_splits)
  ultimately show "service_ok w1" unfolding service_ok_def slots using q S(1) assms(4) by (simp add: w1_def)
  have free: "target_at w (unat i) = None" by (simp add: target_at_def assms(8))
  show "listening w1 = insert (er_next (es_registry w)) (listening w)" (is "?l = ?r")
  proof (rule set_eqI)
    fix m
    have "(\<exists>j < listener_slots w. target_at w1 j = Some m) \<longleftrightarrow> m = er_next (es_registry w) \<or> (\<exists>j < listener_slots w. target_at w j = Some m)"
      using t assms(7) free by (metis option.distinct(1) option.inject)
    then show "m \<in> ?l \<longleftrightarrow> m \<in> ?r" by (simp add: listening_def slots)
  qed
qed

lemma listener_joins:
  assumes "service_ok w" and "notifier_ok w np" and "cs_head (np_state np) = u_head (mc_index_set (dyn_listeners (es_dynamic w)))"
    and "fresh_addresses (es_registry w)" and "event_of w v = None"
    and "uis_free (mc_index_set (dyn_listeners (es_dynamic w))) = i # is" and "0 < uis_budget (mc_index_set (dyn_listeners (es_dynamic w)))"
  shows "\<exists>w1 p. listener_port_new False v w = (Ok (w1, Inr p) :: ('e, _) outcome) \<and> service_ok w1 \<and> notifier_ok w1 np
    \<and> listening w1 = insert (ed_management (lp_listener p)) (listening w) \<and> queue_of (lp_listener p) (es_registry w1) = fixed_cq_default EVENT_CAPACITY
    \<and> lp_guard p = \<lparr>ui_value = i, ui_cleanup = Some mc_cleanup\<rparr> \<and> target_at w1 (unat i) = Some (ed_management (lp_listener p)) \<and> unat i < listener_slots w1
    \<and> fresh_addresses (es_registry w1) \<and> event_of w1 = (event_of w)(v \<mapsto> ed_management (lp_listener p))
    \<and> uis_budget (mc_index_set (dyn_listeners (es_dynamic w1))) = uis_budget (mc_index_set (dyn_listeners (es_dynamic w))) - 1"
proof -
  let ?L = "dyn_listeners (es_dynamic w)" and ?a = "er_next (es_registry w)"
  note S = service_okD [OF assms(1)] and N = notifier_okD [OF assms(2)]
  obtain c name where new: "listener_port_new False v w = (Ok (\<lparr>es_registry = with_event v (es_registry w), es_dynamic = (es_dynamic w)\<lparr>dyn_listeners := c\<rparr>\<rparr>,
      Inr \<lparr>lp_guard = \<lparr>ui_value = i, ui_cleanup = Some mc_cleanup\<rparr>, lp_listener = \<lparr>ed_name = name, ed_management = ?a\<rparr>\<rparr>) :: ('e, _) outcome)"
    and c: "mc_wf c" "mc_capacity c = listener_slots w" "mc_map c = (mc_map ?L)(i \<mapsto> v)" "u_head (mc_index_set c) \<noteq> u_head (mc_index_set ?L)"
      "uis_budget (mc_index_set c) = uis_budget (mc_index_set ?L) - 1"
    using listener_port_new_Ok [OF S(1,2) assms(5-7), where ?'e = 'e] by blast
  let ?w1 = "\<lparr>es_registry = with_event v (es_registry w), es_dynamic = (es_dynamic w)\<lparr>dyn_listeners := c\<rparr>\<rparr>"
  have i: "unat i < listener_slots w" "mc_map ?L i = None" using mc_wf_free_inactive [OF S(2), of i] assms(6) by simp_all
  then have free: "listener_at w (unat i) = None" by (simp add: mc_map_def)
  have "target_at ?w1 j = Some (ed_management d)" if j: "j < listener_slots w" "np_connections np ! j = Some d" for j d
  proof -
    have "listener_at w j \<noteq> None" using N(4) [OF assms(3) j(1)] j(2) by simp
    then show ?thesis using N(3) [OF j] free target_with_event [OF assms(4,5) S(2) c(1-3) j(1) S(3) [OF j(1)]] by auto
  qed
  then have "notifier_ok ?w1 np" using N(1,2) c(2,4) assms(3) by (simp add: notifier_ok_def cs_wf_def)
  moreover have "fresh_addresses (with_event v (es_registry w))" using assms(4) by (auto simp: fresh_addresses_def intro: less_SucI)
  moreover have "event_of ?w1 = (event_of w)(v \<mapsto> ?a)" by (simp add: fun_eq_iff)
  ultimately show ?thesis using new service_with_event [OF assms(1,4,5) c(1-3) i(1) free] target_with_event [OF assms(4,5) S(2) c(1-3) i(1)] S(3) i(1) c(2,5)
    by (intro exI [of _ ?w1] exI [of _ "\<lparr>lp_guard = \<lparr>ui_value = i, ui_cleanup = Some mc_cleanup\<rparr>, lp_listener = \<lparr>ed_name = name, ed_management = ?a\<rparr>\<rparr>"]) simp
qed

lemma finite_listening: "finite (listening w)"
  by (rule finite_subset [of _ "(\<lambda>i. the (target_at w i)) ` {..< listener_slots w}"]) (auto simp: listening_def image_iff, force)

lemma joined_listener_receives:
  assumes "service_ok w" and "notifier_ok w np" and "cs_head (np_state np) = u_head (mc_index_set (dyn_listeners (es_dynamic w)))"
    and "fresh_addresses (es_registry w)" and "event_of w v = None"
    and "uis_free (mc_index_set (dyn_listeners (es_dynamic w))) = i # is" and "0 < uis_budget (mc_index_set (dyn_listeners (es_dynamic w)))"
  shows "\<exists>w1 p w2 np' n r. listener_port_new False v w = (Ok (w1, Inr p) :: ('e, _) outcome)
    \<and> notify_with_custom_trigger_id (\<lambda>_. False) t np w1 = (Ok (w2, np', Inr n) :: ('e, _) outcome) \<and> 0 < n
    \<and> listener_try_wait (\<lambda>_. None) (\<lambda>c x. (c @ [x], True)) p [] (es_registry w2) = (Some (Ok (r, [t], Inr 1)) :: ('e, _) outcome option)"
proof -
  obtain w1 p where new: "listener_port_new False v w = (Ok (w1, Inr p) :: ('e, _) outcome)" "service_ok w1" "notifier_ok w1 np"
    and joined: "listening w1 = insert (ed_management (lp_listener p)) (listening w)" and q: "queue_of (lp_listener p) (es_registry w1) = fixed_cq_default EVENT_CAPACITY"
    using listener_joins [OF assms, where ?'e = 'e] by blast
  have p: "ed_management (lp_listener p) \<in> listening w1" "queue_of (lp_listener p) (es_registry w1) = fixed_cq_default EVENT_CAPACITY" using joined q by simp_all
  let ?w2 = "w1\<lparr>es_registry := pushed_to t (listening w1) (es_registry w1)\<rparr>"
  obtain np' where np': "notify_with_custom_trigger_id (\<lambda>_. False) t np w1
      = (Ok (?w2, np', Inr (card {m \<in> listening w1. has_room (es_registry w1) m})) :: ('e, _) outcome)" using notify_pushes [OF new(2,3), of t, where ?'e = 'e] by blast
  have "queue_of (lp_listener p) (es_registry ?w2) = event_pushed t (fixed_cq_default EVENT_CAPACITY)" using p by simp
  moreover have room: "has_room (es_registry w1) (ed_management (lp_listener p))" unfolding p(2) by (simp add: fixed_cq_default_def EVENT_CAPACITY_def)
  ultimately have q: "cq_wf (queue_of (lp_listener p) (es_registry ?w2))" "cq_list (queue_of (lp_listener p) (es_registry ?w2)) = [t]"
    using event_pushed_props(1) [OF fixed_cq_default_wf(1)] event_pushed_list(2) [OF fixed_cq_default_wf(1) event_room(1)] p(2)
    by (simp_all add: fixed_cq_default_wf(2))
  have "0 < card {m \<in> listening w1. has_room (es_registry w1) m}" using finite_listening [of w1] p(1) room by (subst card_gt_0_iff) auto
  moreover have "consume (\<lambda>c x. (c @ [x], True)) [] (cq_list (queue_of (lp_listener p) (es_registry ?w2))) = ([t], 1, [])" unfolding q(2) by simp
  from listener_try_wait_consumes [OF q(1) this, where ?'e = 'e] obtain r where
    "listener_try_wait (\<lambda>_. None) (\<lambda>c x. (c @ [x], True)) p [] (es_registry ?w2) = (Some (Ok (r, [t], Inr 1)) :: ('e, _) outcome option)" by blast
  ultimately show ?thesis using new(1) np' by blast
qed

text \<open>A new listener hears the next notification. The notifier has seen the current list of listeners; then a listener is created, and the notifier notifies. The
  notifier learns of the listener from the list, connects to its event by name, and the listener receives exactly this trigger id.\<close>

theorem new_listener_is_notified:
  assumes "service_ok w" and "notifier_ok w np" and "cs_head (np_state np) = u_head (mc_index_set (dyn_listeners (es_dynamic w)))"
    and "fresh_addresses (es_registry w)" and "event_of w v = None"
    and "uis_free (mc_index_set (dyn_listeners (es_dynamic w))) = i # is" and "0 < uis_budget (mc_index_set (dyn_listeners (es_dynamic w)))"
  shows "\<exists>w1 p w2 np' n r. listener_port_new False v w = (Ok (w1, Inr p) :: (unit, _) outcome)
    \<and> notify_with_custom_trigger_id (\<lambda>_. False) t np w1 = (Ok (w2, np', Inr n) :: (unit, _) outcome) \<and> 0 < n
    \<and> listener_try_wait (\<lambda>_. None) (\<lambda>c x. (c @ [x], True)) p [] (es_registry w2) = (Some (Ok (r, [t], Inr 1)) :: (unit, _) outcome option)"
  using joined_listener_receives [OF assms, of t, where ?'e = unit] by blast

text \<open>Dropping a listener and creating another one gives the new one the index of the old one.\<close>

lemma listener_replaced:
  assumes S: "er_lockable (es_registry w)" "mc_wf (dyn_listeners (es_dynamic w))" and "event_of w v = None" and "lp_guard old = \<lparr>ui_value = i, ui_cleanup = Some mc_cleanup\<rparr>" and "listener_at w (unat i) \<noteq> None"
    and "unat i < listener_slots w" and "1 < uis_budget (mc_index_set (dyn_listeners (es_dynamic w)))"
  shows "\<exists>w1 c name. listener_port_drop old w = (Ok w1 :: ('e, _) outcome)
    \<and> listener_port_new False v w1 = (Ok (\<lparr>es_registry = with_event v (es_registry w), es_dynamic = (es_dynamic w)\<lparr>dyn_listeners := c\<rparr>\<rparr>,
         Inr \<lparr>lp_guard = lp_guard old, lp_listener = \<lparr>ed_name = name, ed_management = er_next (es_registry w)\<rparr>\<rparr>) :: ('e, _) outcome)
    \<and> mc_wf c \<and> mc_capacity c = listener_slots w \<and> mc_map c = (mc_map (dyn_listeners (es_dynamic w)))(i \<mapsto> v)
    \<and> u_head (mc_index_set c) \<noteq> u_head (mc_index_set (dyn_listeners (es_dynamic w)))"
proof -
  let ?L = "dyn_listeners (es_dynamic w)"
  have "i \<in> dom (mc_map ?L)" using assms(5,6) by (auto simp: mc_map_def)
  from mc_release [OF S(2) this, where ?'e = 'e] assms(7) obtain c1 where c1: "mc_wf c1" "mc_map c1 = (mc_map ?L)(i := None)"
    "uis_budget (mc_index_set c1) = uis_budget (mc_index_set ?L) - 1" "uis_free (mc_index_set c1) = i # uis_free (mc_index_set ?L)"
    "mc_index_drop ?L (lp_guard old) = (Ok c1 :: ('e, _) outcome)" unfolding assms(4) by auto
  let ?w1 = "w\<lparr>es_dynamic := (es_dynamic w)\<lparr>dyn_listeners := c1\<rparr>\<rparr>"
  have drop: "listener_port_drop old w = (Ok ?w1 :: ('e, _) outcome)" using c1(5) by (simp add: listener_port_drop_def)
  obtain c name where new: "listener_port_new False v ?w1 = (Ok (\<lparr>es_registry = with_event v (es_registry w), es_dynamic = (es_dynamic w)\<lparr>dyn_listeners := c\<rparr>\<rparr>,
      Inr \<lparr>lp_guard = lp_guard old, lp_listener = \<lparr>ed_name = name, ed_management = er_next (es_registry w)\<rparr>\<rparr>) :: ('e, _) outcome)"
    and c: "mc_wf c" "mc_capacity c = mc_capacity c1" "mc_map c = (mc_map c1)(i \<mapsto> v)" "uis_budget (mc_index_set c) = uis_budget (mc_index_set c1) - 1"
    using listener_port_new_Ok [of ?w1 v i "uis_free (mc_index_set ?L)", where ?'e = 'e] S(1) c1 assms(3,7) unfolding assms(4) by auto
  have "mc_map c = (mc_map ?L)(i \<mapsto> v)" "u_head (mc_index_set c) \<noteq> u_head (mc_index_set ?L)" using c(3,4) c1(2,3) assms(7) by (auto simp: uis_budget_def)
  then show ?thesis using drop new c(1,2) mc_index_drop_capacity [OF c1(5)] by (intro exI [of _ ?w1] exI [of _ c] exI [of _ name]) simp
qed

text \<open>A new listener, at a free index or in the place of another one, and a notifier that has not seen it yet.\<close>

lemma ports_with_event:
  assumes "ports_ok k w np" and "cs_head (np_state np) = u_head (mc_index_set (dyn_listeners (es_dynamic w)))" and "event_of w v = None"
    and c: "mc_wf c" "mc_capacity c = listener_slots w" "mc_map c = (mc_map (dyn_listeners (es_dynamic w)))(i \<mapsto> v)"
    and "u_head (mc_index_set c) \<noteq> u_head (mc_index_set (dyn_listeners (es_dynamic w)))" and "k \<le> cq_ticks (fixed_cq_default EVENT_CAPACITY :: u64 container_queue)"
  defines "w1 \<equiv> \<lparr>es_registry = with_event v (es_registry w), es_dynamic = (es_dynamic w)\<lparr>dyn_listeners := c\<rparr>\<rparr>"
  shows "ports_ok k w1 np"
    and "j < listener_slots w \<Longrightarrow> target_at w1 j = (if j = unat i then Some (er_next (es_registry w)) else target_at w j)"
    and "j < listener_slots w \<Longrightarrow> listener_at w1 j = (if j = unat i then Some v else listener_at w j)"
proof -
  note P = ports_okD [OF assms(1)]
  have t: "target_at w1 j = (if j = unat i then Some (er_next (es_registry w)) else target_at w j)" if "j < listener_slots w" for j
    unfolding w1_def using target_with_event [OF P(5) assms(3) P(2) c that P(6) [OF that]] .
  then show "j < listener_slots w \<Longrightarrow> target_at w1 j = (if j = unat i then Some (er_next (es_registry w)) else target_at w j)" .
  have l: "listener_at w1 j = (if j = unat i then Some v else listener_at w j)" if "j < listener_slots w" for j
    unfolding w1_def using mc_entry_upd [OF P(2) c that] by simp
  then show "j < listener_slots w \<Longrightarrow> listener_at w1 j = (if j = unat i then Some v else listener_at w j)" .
  have slots: "listener_slots w1 = listener_slots w" "er_next (es_registry w1) = er_next (es_registry w) + 1" by (simp_all add: w1_def c(2))
  have known: "belongs w np j m \<or> j = unat i \<and> m = er_next (es_registry w)" if "j < listener_slots w" "belongs w1 np j m" for j m
    using that(2) t [OF that(1)] by (auto simp: belongs_def split: if_splits)
  have q: "m < er_next (es_registry w1) \<and> cq_wf (er_heap (es_registry w1) m) \<and> k \<le> cq_ticks (er_heap (es_registry w1) m)"
    if "j < listener_slots w" "belongs w1 np j m" for j m
    using known [OF that]
  proof
    assume "belongs w np j m"
    then have "m < er_next (es_registry w)" "cq_wf (er_heap (es_registry w) m) \<and> k \<le> cq_ticks (er_heap (es_registry w) m)" using P(9,10) [OF that(1)] by blast+
    then show ?thesis by (simp add: w1_def)
  next
    assume "j = unat i \<and> m = er_next (es_registry w)"
    then show ?thesis using assms(8) by (simp add: w1_def fixed_cq_default_wf(1))
  qed
  have same: "a = b" if a: "a < listener_slots w" "belongs w1 np a m" and b: "b < listener_slots w" "belongs w1 np b m" for a b m
    using known [OF a] known [OF b] P(8) [OF a(1) b(1)] P(9) [OF a(1)] P(9) [OF b(1)] by (metis less_irrefl_nat)
  have "target_at w1 j \<noteq> None" if "j < listener_slots w" "listener_at w1 j \<noteq> None" for j
    using t [OF that(1)] l [OF that(1)] P(6) [OF that(1)] that(2) by (auto split: if_splits)
  moreover have "fresh_addresses (es_registry w1)" using P(5) by (auto simp: w1_def fresh_addresses_def intro: less_SucI)
  moreover have "cs_wf (dyn_listeners (es_dynamic w1)) (np_state np)" "mc_wf (dyn_listeners (es_dynamic w1))" "er_lockable (es_registry w1)"
    "cs_head (np_state np) \<noteq> u_head (mc_index_set (dyn_listeners (es_dynamic w1)))" using P(1,4) c(1,2) assms(2,7) by (simp_all add: w1_def cs_wf_def)
  ultimately show "ports_ok k w1 np" using P(3) q same by (intro ports_okI) (simp_all add: slots)
qed

text \<open>C40: a listener that takes the place of another one is not heard. The notifier has seen the current list of listeners and its connection at the index \<open>i\<close> leads
  to the listener that is registered there; then this listener is dropped and a new one is created, which gets the same index. When this notifier
  updates its connections, the index is still in use, so the connection to the event of the old listener is kept, and it stays kept: of any number of notifications
  of this notifier, as long as the list of listeners does not change again, all the trigger ids go to the queue of the old listener while that has room, are counted as
  delivered there, and the queue of the new listener stays empty. The number of notifications is bounded only by the position counters of the queues, which are 64 bits
  wide.\<close>

theorem replaced_listener_is_deaf:
  assumes "ports_ok (length ts) w np" and "cs_head (np_state np) = u_head (mc_index_set (dyn_listeners (es_dynamic w)))" and "event_of w v = None"
    and "lp_guard old = \<lparr>ui_value = i, ui_cleanup = Some mc_cleanup\<rparr>" and "destination w np (unat i) = Some (ed_management (lp_listener old))"
    and "unat i < listener_slots w" and "1 < uis_budget (mc_index_set (dyn_listeners (es_dynamic w)))"
    and "length ts \<le> cq_ticks (fixed_cq_default EVENT_CAPACITY :: u64 container_queue)"
  shows "\<exists>w1 w2 p w3 np' ns. listener_port_drop old w = (Ok w1 :: (unit, _) outcome) \<and> listener_port_new False v w1 = (Ok (w2, Inr p) :: (unit, _) outcome)
    \<and> target_at w2 (unat i) = Some (ed_management (lp_listener p)) \<and> notify_run ts np w2 = (Ok (w3, np', map Inr ns) :: (unit, _) outcome)
    \<and> length ns = length ts \<and> (\<forall>j < length ts. j < room (es_registry w) (ed_management (lp_listener old)) \<longrightarrow> 0 < ns ! j)
    \<and> cq_list (queue_of (lp_listener old) (es_registry w3))
        = cq_list (queue_of (lp_listener old) (es_registry w)) @ take (room (es_registry w) (ed_management (lp_listener old))) ts
    \<and> cq_list (queue_of (lp_listener p) (es_registry w3)) = []"
proof -
  let ?L = "dyn_listeners (es_dynamic w)" and ?r = "with_event v (es_registry w)" and ?a = "er_next (es_registry w)" and ?o = "ed_management (lp_listener old)"
  note P = ports_okD [OF assms(1)]
  have used: "listener_at w (unat i) \<noteq> None" using assms(5) by (auto simp: destination_def followed_def split: option.splits)
  from listener_replaced [OF P(1,2) assms(3,4) this assms(6,7), where ?'e = unit] obtain w1 c name where drop: "listener_port_drop old w = (Ok w1 :: (unit, _) outcome)"
    and new: "listener_port_new False v w1 = (Ok (\<lparr>es_registry = ?r, es_dynamic = (es_dynamic w)\<lparr>dyn_listeners := c\<rparr>\<rparr>,
      Inr \<lparr>lp_guard = lp_guard old, lp_listener = \<lparr>ed_name = name, ed_management = ?a\<rparr>\<rparr>) :: (unit, _) outcome)"
    and c: "mc_wf c" "mc_capacity c = listener_slots w" "mc_map c = (mc_map ?L)(i \<mapsto> v)" "u_head (mc_index_set c) \<noteq> u_head (mc_index_set ?L)" by blast
  let ?w2 = "\<lparr>es_registry = ?r, es_dynamic = (es_dynamic w)\<lparr>dyn_listeners := c\<rparr>\<rparr>"
    and ?p = "\<lparr>lp_guard = lp_guard old, lp_listener = \<lparr>ed_name = name, ed_management = ?a\<rparr>\<rparr>"
  note E = ports_with_event [OF assms(1-3) c assms(8)]
  have kept: "np_connections np ! j \<noteq> None" if "j < listener_slots w" "listener_at w j \<noteq> None" for j using P(7) [OF assms(2) that(1)] that(2) by simp
  have d: "destination ?w2 np j = destination w np j" if "j < listener_slots w" for j
    using E(3) [OF that] kept [OF that] kept [OF assms(6) used] used
    by (cases "listener_at w j"; cases "np_connections np ! j") (auto simp: destination_def followed_def)
  have D: "destinations ?w2 np = destinations w np" using d by (auto simp: destinations_def c(2))
  have old: "?o \<in> destinations w np" using assms(5,6) by (auto simp: destinations_def)
  have fresh: "m < ?a" if "m \<in> destinations w np" for m using that P(9) destination_belongs by (auto simp: destinations_def)
  then have o: "er_heap ?r ?o = er_heap (es_registry w) ?o" using old by (intro with_event_simps(3)) (metis less_irrefl_nat)
  have a: "?a \<notin> destinations w np" using fresh by blast
  obtain w3 np' ns where "notify_run ts np ?w2 = (Ok (w3, np', map Inr ns) :: (unit, _) outcome)" "length ns = length ts"
    and q: "\<forall>m \<in> destinations w np. cq_list (er_heap (es_registry w3) m) = cq_list (er_heap ?r m) @ take (room ?r m) ts \<and> (\<forall>j < length ts. j < room ?r m \<longrightarrow> 0 < ns ! j)"
    and k: "\<forall>m. m \<notin> destinations w np \<longrightarrow> er_heap (es_registry w3) m = er_heap ?r m"
    using notify_run_destinations [OF E(1), where ?'e = unit] unfolding D by auto
  moreover have "cq_list (er_heap (es_registry w3) ?a) = []" using k a by (simp add: fixed_cq_default_wf(2))
  moreover have "room ?r ?o = room (es_registry w) ?o" by (simp add: room_def o)
  ultimately show ?thesis using drop new E(2) [OF assms(6)] bspec [OF q old] o
    by (intro exI [of _ w1] exI [of _ ?w2] exI [of _ ?p] exI [of _ w3] exI [of _ np'] exI [of _ ns]) simp
qed

text \<open>A service with two free slots on both sides, and a notifier that has seen its empty list of listeners.\<close>

definition quiet_service :: event_service where
  "quiet_service = \<lparr>es_registry = \<lparr>er_lockable = True, er_entries = [], er_heap = (\<lambda>_. fixed_cq_default EVENT_CAPACITY), er_next = 0\<rparr>,
     es_dynamic = \<lparr>dyn_listeners = fixed_mc_default 2, dyn_notifiers = fixed_mc_default 2\<rparr>\<rparr>"

definition idle_notifier :: notifier_port where
  "idle_notifier = \<lparr>np_connections = [None, None],
     np_state = \<lparr>cs_head = u_head (mc_index_set (dyn_listeners (es_dynamic quiet_service))), cs_data = [None, None], cs_active = [False, False]\<rparr>,
     np_default_trigger_id = 0, np_guard = \<lparr>ui_value = 0, ui_cleanup = None\<rparr>\<rparr>"

lemma quiet_service_listeners:
  "dyn_listeners (es_dynamic quiet_service) = fixed_mc_default 2" "i < 2 \<Longrightarrow> listener_at quiet_service i = None" "i < 2 \<Longrightarrow> target_at quiet_service i = None"
  "listener_slots quiet_service = 2"
proof -
  show "dyn_listeners (es_dynamic quiet_service) = fixed_mc_default 2" by (simp add: quiet_service_def)
  then show l: "i < 2 \<Longrightarrow> listener_at quiet_service i = None" and "listener_slots quiet_service = 2"
    by (auto simp: mc_entry_def fixed_mc_default_def numeral_2_eq_2 less_Suc_eq)
  show "target_at quiet_service i = None" if "i < 2" using that by (simp add: target_at_def l)
qed

lemma quiet_service_ok:
  "service_ok quiet_service" "notifier_ok quiet_service idle_notifier"
  "cs_head (np_state idle_notifier) = u_head (mc_index_set (dyn_listeners (es_dynamic quiet_service)))"
  "fresh_addresses (es_registry quiet_service)" "event_of quiet_service v = None"
  "uis_free (mc_index_set (dyn_listeners (es_dynamic quiet_service))) = [0, 1]" "0 < uis_budget (mc_index_set (dyn_listeners (es_dynamic quiet_service)))"
proof -
  note Q = quiet_service_listeners and F = fixed_mc_default_wf [of 2, where ?'a = u128]
  show "service_ok quiet_service" unfolding service_ok_def Q(4) using F(1) Q(2,3) by (simp add: Q(1)) (simp add: quiet_service_def)
  show "notifier_ok quiet_service idle_notifier"
    unfolding notifier_ok_def Q(4) using Q(2,3,4) by (simp add: cs_wf_def) (simp add: idle_notifier_def numeral_2_eq_2 less_Suc_eq all_conj_distrib)
  show "cs_head (np_state idle_notifier) = u_head (mc_index_set (dyn_listeners (es_dynamic quiet_service)))" by (simp add: idle_notifier_def)
  show "fresh_addresses (es_registry quiet_service)" "event_of quiet_service v = None" by (simp_all add: quiet_service_def fresh_addresses_def)
  show "uis_free (mc_index_set (dyn_listeners (es_dynamic quiet_service))) = [0, 1]" unfolding Q using F(2) by (simp add: upt_rec)
  show "0 < uis_budget (mc_index_set (dyn_listeners (es_dynamic quiet_service)))" unfolding Q using F(3) by simp
qed

text \<open>One listener, and a notifier that has connected to it.\<close>

lemma ports_ok_current:
  assumes "service_ok w" and "notifier_ok w np" and "fresh_addresses (es_registry w)" and "cs_head (np_state np) = u_head (mc_index_set (dyn_listeners (es_dynamic w)))"
    and "\<And>m. m \<in> listening w \<Longrightarrow> k \<le> cq_ticks (er_heap (es_registry w) m)"
  shows "ports_ok k w np" and "i < listener_slots w \<Longrightarrow> destination w np i = target_at w i"
proof -
  note S = service_okD [OF assms(1)] and N = notifier_okD [OF assms(2)]
  have b: "belongs w np i m \<longleftrightarrow> target_at w i = Some m" if "i < listener_slots w" for i m
    using current_targets [OF assms(2,4) that] by (simp add: belongs_def)
  have "m < er_next (es_registry w) \<and> cq_wf (er_heap (es_registry w) m) \<and> k \<le> cq_ticks (er_heap (es_registry w) m)" if "i < listener_slots w" "target_at w i = Some m" for i m
    using S(5) [OF that] target_in_registry [OF assms(3) that(2)] assms(5) [of m] that by (auto simp: listening_def)
  then show "ports_ok k w np" using S(1-4) N(1,2,4) assms(3) b by (intro ports_okI) blast+
  show "destination w np i = target_at w i" if "i < listener_slots w"
    using current_targets [OF assms(2,4) that] N(4) [OF assms(4) that]
    by (cases "listener_at w i"; cases "np_connections np ! i") (simp_all add: destination_def followed_def target_at_def)
qed

lemma one_listener:
  assumes "k \<le> cq_ticks (fixed_cq_default EVENT_CAPACITY :: u64 container_queue)"
  shows "\<exists>w np (old :: listener_port). ports_ok k w np \<and> cs_head (np_state np) = u_head (mc_index_set (dyn_listeners (es_dynamic w))) \<and> event_of w 8 = None
    \<and> lp_guard old = \<lparr>ui_value = 0, ui_cleanup = Some mc_cleanup\<rparr> \<and> target_at w 0 = Some (ed_management (lp_listener old))
    \<and> destination w np 0 = Some (ed_management (lp_listener old)) \<and> destinations w np = {ed_management (lp_listener old)} \<and> 0 < listener_slots w
    \<and> 1 < uis_budget (mc_index_set (dyn_listeners (es_dynamic w))) \<and> queue_of (lp_listener old) (es_registry w) = fixed_cq_default EVENT_CAPACITY"
proof -
  have "listening quiet_service = {}" using quiet_service_listeners(3,4) by (auto simp: listening_def)
  moreover obtain w and old :: listener_port where w: "service_ok w" "notifier_ok w idle_notifier" "fresh_addresses (es_registry w)" "event_of w = (event_of quiet_service)(7 \<mapsto> ed_management (lp_listener old))"
    and p: "lp_guard old = \<lparr>ui_value = 0, ui_cleanup = Some mc_cleanup\<rparr>" "target_at w (unat (0 :: u32)) = Some (ed_management (lp_listener old))" "unat (0 :: u32) < listener_slots w"
    and b: "uis_budget (mc_index_set (dyn_listeners (es_dynamic w))) = uis_budget (mc_index_set (dyn_listeners (es_dynamic quiet_service))) - 1"
    and l: "listening w = insert (ed_management (lp_listener old)) (listening quiet_service)" "queue_of (lp_listener old) (es_registry w) = fixed_cq_default EVENT_CAPACITY"
    using listener_joins [OF quiet_service_ok, of 7, where ?'e = unit] by blast
  ultimately have m: "listening w = {ed_management (lp_listener old)}" by simp
  obtain np where np: "notifier_ok w np" "cs_head (np_state np) = u_head (mc_index_set (dyn_listeners (es_dynamic w)))"
    using update_follows [OF w(1,2), where ?'e = unit] by blast
  have "ports_ok k w np" and d: "\<And>i. i < listener_slots w \<Longrightarrow> destination w np i = target_at w i"
    using ports_ok_current [OF w(1) np(1) w(3) np(2)] m l(2) assms by auto
  moreover have "destinations w np = listening w" using d by (auto simp: destinations_def listening_def)
  moreover have "event_of w 8 = None" using fun_cong [OF w(4), of 8] quiet_service_ok(5) [of 8] by simp
  moreover have "1 < uis_budget (mc_index_set (dyn_listeners (es_dynamic w)))"
    unfolding b quiet_service_listeners(1) using fixed_mc_default_wf(3) [of 2, where ?'a = u128] by simp
  ultimately show ?thesis using np(2) p m l(2) by (intro exI [of _ w] exI [of _ np] exI [of _ old]) simp
qed

lemma event_ticks: "2 \<le> cq_ticks (fixed_cq_default EVENT_CAPACITY :: u64 container_queue)"
  by (simp add: fixed_cq_default_def cq_ticks_def EVENT_CAPACITY_def usize_lim_def)

theorem notify_reaches_listeners_witness:
  "\<exists>w np np' r m. target_at w 0 = Some m \<and> destination w np 0 = Some m \<and> cq_list (er_heap (es_registry w) m) = []
    \<and> notify_with_custom_trigger_id (\<lambda>_. False) 4 np w = (Ok (w\<lparr>es_registry := r\<rparr>, np', Inr 1) :: (unit, _) outcome) \<and> cq_list (er_heap r m) = [4]"
proof -
  obtain w np and old :: listener_port where w: "ports_ok (Suc 1) w np" "destinations w np = {ed_management (lp_listener old)}" "0 < listener_slots w"
    and t: "target_at w 0 = Some (ed_management (lp_listener old))" "destination w np 0 = Some (ed_management (lp_listener old))"
    and q: "queue_of (lp_listener old) (es_registry w) = fixed_cq_default EVENT_CAPACITY" using one_listener [of "Suc 1"] event_ticks by auto
  let ?m = "ed_management (lp_listener old)"
  have room: "has_room (es_registry w) ?m" unfolding q by (simp add: fixed_cq_default_def EVENT_CAPACITY_def)
  have "{m \<in> destinations w np. has_room (es_registry w) m} = {?m}" using w(2) room by auto
  then have c: "card {m \<in> destinations w np. has_room (es_registry w) m} = 1" by simp
  have empty: "cq_list (er_heap (es_registry w) ?m) = []" by (simp add: q fixed_cq_default_wf(2))
  obtain np' r where "notify_with_custom_trigger_id (\<lambda>_. False) 4 np w = (Ok (w\<lparr>es_registry := r\<rparr>, np', Inr 1) :: (unit, _) outcome)"
    and n: "\<forall>m \<in> destinations w np. cq_list (er_heap r m) = cq_list (er_heap (es_registry w) m) @ (if has_room (es_registry w) m then [4] else [])"
    using notify_reaches_listeners [OF w(1), of 4] unfolding c by blast
  moreover have "cq_list (er_heap r ?m) = [4]" using n w(2) room empty by simp
  ultimately show ?thesis using t empty by blast
qed

theorem new_listener_is_notified_witness:
  "\<exists>w1 p w2 np' n r. listener_port_new False 7 quiet_service = (Ok (w1, Inr p) :: (unit, _) outcome)
    \<and> notify_with_custom_trigger_id (\<lambda>_. False) 4 idle_notifier w1 = (Ok (w2, np', Inr n) :: (unit, _) outcome) \<and> 0 < n
    \<and> listener_try_wait (\<lambda>_. None) (\<lambda>c x. (c @ [x], True)) p [] (es_registry w2) = (Some (Ok (r, [4], Inr 1)) :: (unit, _) outcome option)"
  by (rule new_listener_is_notified [OF quiet_service_ok])

theorem replaced_listener_is_deaf_witness:
  "\<exists>w np old w1 w2 p w3 np' n1 n2. listener_port_drop old w = (Ok w1 :: (unit, _) outcome) \<and> listener_port_new False 8 w1 = (Ok (w2, Inr p) :: (unit, _) outcome)
    \<and> notify_run [4, 5] np w2 = (Ok (w3, np', [Inr n1, Inr n2]) :: (unit, _) outcome) \<and> 0 < n1 \<and> 0 < n2
    \<and> cq_list (queue_of (lp_listener old) (es_registry w3)) = [4, 5] \<and> cq_list (queue_of (lp_listener p) (es_registry w3)) = []"
proof -
  obtain w np and old :: listener_port where w: "ports_ok (length [4 :: u64, 5]) w np" "cs_head (np_state np) = u_head (mc_index_set (dyn_listeners (es_dynamic w)))"
    "event_of w 8 = None" "lp_guard old = \<lparr>ui_value = 0, ui_cleanup = Some mc_cleanup\<rparr>" "destination w np (unat (0 :: u32)) = Some (ed_management (lp_listener old))"
    "unat (0 :: u32) < listener_slots w" "1 < uis_budget (mc_index_set (dyn_listeners (es_dynamic w)))"
    and q: "queue_of (lp_listener old) (es_registry w) = fixed_cq_default EVENT_CAPACITY" using one_listener [of "Suc (Suc 0)"] event_ticks by auto
  have two: "length [4 :: u64, 5] \<le> cq_ticks (fixed_cq_default EVENT_CAPACITY :: u64 container_queue)" using event_ticks by simp
  have room: "1 < room (es_registry w) (ed_management (lp_listener old))" by (simp add: room_def q) (simp add: fixed_cq_default_def EVENT_CAPACITY_def)
  then have t: "take (room (es_registry w) (ed_management (lp_listener old))) [4 :: u64, 5] = [4, 5]" by simp
  have e: "cq_list (queue_of (lp_listener old) (es_registry w)) = []" by (simp add: q fixed_cq_default_wf(2))
  from replaced_listener_is_deaf [OF w two] obtain w1 w2 p w3 np' ns where drop: "listener_port_drop old w = (Ok w1 :: (unit, _) outcome)"
    and new: "listener_port_new False 8 w1 = (Ok (w2, Inr p) :: (unit, _) outcome)" and run: "notify_run [4, 5] np w2 = (Ok (w3, np', map Inr ns) :: (unit, _) outcome)"
    and ns: "length ns = length [4 :: u64, 5]" "\<forall>j < length [4 :: u64, 5]. j < room (es_registry w) (ed_management (lp_listener old)) \<longrightarrow> 0 < ns ! j"
    and l: "cq_list (queue_of (lp_listener old) (es_registry w3)) = [4, 5]" "cq_list (queue_of (lp_listener p) (es_registry w3)) = []" unfolding t e by auto
  obtain n1 n2 where n: "ns = [n1, n2]" using ns(1) by (auto simp: length_Suc_conv)
  have "0 < n1" "0 < n2" using ns(2) room by (simp_all add: n All_less_Suc)
  then show ?thesis using drop new run l unfolding n list.map by blast
qed

end
