(* ===== verification/EventServices.thy ===== *)
theory EventServices
  imports EventBuilder EventPorts
begin

text \<open>
  \<^verbatim>\<open>service/port_factory/event.rs\<close>, \<^verbatim>\<open>notifier.rs\<close> and \<^verbatim>\<open>listener.rs\<close>: from an event service to its ports. The ports reach the containers of the service in the
  dynamic configuration, which lives in the registry of the dynamic storages; an operation of a port reads it there and writes it back.
\<close>

section \<open>Port factories\<close>

text \<open>A process: the storages of its services and the registry of its events.\<close>

record event_process =
  ep_world :: "u128 world"
  ep_events :: event_registry

definition on_event_service ::
  "service_handle \<Rightarrow> (event_service \<Rightarrow> ('e, event_service \<times> 'a) outcome) \<Rightarrow> event_process \<Rightarrow> ('e, event_process \<times> 'a) outcome" where
  "on_event_service h f p =
     (let dynamic = w_dynamic (ep_world p); config = dynamic_get dynamic (sv_dynamic h) in
      obind (dc_event config) (\<lambda>d.
      omap (\<lambda>(s, x). (p\<lparr>ep_world := (ep_world p)\<lparr>w_dynamic := dynamic\<lparr>dr_heap :=
               (dr_heap dynamic)(dy_data (sv_dynamic h) := config\<lparr>dc_pattern := DynEvent (es_dynamic s)\<rparr>)\<rparr>\<rparr>, ep_events := es_registry s\<rparr>, x))
        (f \<lparr>es_registry = ep_events p, es_dynamic = d\<rparr>)))"

definition evf_name :: "service_handle \<Rightarrow> u8 list" where
  "evf_name h = sc_service_name (sv_config h)"

definition evf_max_supported_listeners :: "service_handle \<Rightarrow> ('e, usize) outcome" where
  "evf_max_supported_listeners h = omap sc_max_listeners (sc_event (sv_config h))"

definition evf_max_supported_notifiers :: "service_handle \<Rightarrow> ('e, usize) outcome" where
  "evf_max_supported_notifiers h = omap sc_max_notifiers (sc_event (sv_config h))"

record notifier_factory =
  nf_service :: service_handle
  nf_default_trigger_id :: u64

definition evf_notifier :: "service_handle \<Rightarrow> notifier_factory" where
  "evf_notifier h = \<lparr>nf_service = h, nf_default_trigger_id = 0\<rparr>"

definition nf_set_default_trigger_id :: "u64 \<Rightarrow> notifier_factory \<Rightarrow> notifier_factory" where
  "nf_set_default_trigger_id v f = f\<lparr>nf_default_trigger_id := v\<rparr>"

definition nf_create :: "u128 \<Rightarrow> notifier_factory \<Rightarrow> event_process \<Rightarrow> ('e, event_process \<times> (notifier_port_error + notifier_port)) outcome" where
  "nf_create port_id f = on_event_service (nf_service f) (notifier_port_new (nf_default_trigger_id f) port_id)"

definition evf_listener_create :: "bool \<Rightarrow> u128 \<Rightarrow> service_handle \<Rightarrow> event_process \<Rightarrow> ('e, event_process \<times> (listener_port_error + listener_port)) outcome" where
  "evf_listener_create cvar_fails port_id h = on_event_service h (listener_port_new cvar_fails port_id)"

section \<open>A new notifier\<close>

lemma fresh_service_ok:
  assumes "ports_fresh n (dyn_listeners d)" and "er_lockable r"
  shows "service_ok \<lparr>es_registry = r, es_dynamic = d\<rparr>" and "\<And>i. i < n \<Longrightarrow> listener_at \<lparr>es_registry = r, es_dynamic = d\<rparr> i = None"
proof -
  show l: "listener_at \<lparr>es_registry = r, es_dynamic = d\<rparr> i = None" if "i < n" for i
    using assms(1) that mc_entry_map [of "dyn_listeners d" i] by (simp add: ports_fresh_def)
  then show "service_ok \<lparr>es_registry = r, es_dynamic = d\<rparr>" using assms by (simp add: service_ok_def target_at_def ports_fresh_def)
qed

lemma fresh_get_state:
  assumes "ports_fresh n c"
  shows "\<exists>st. get_state c = (Ok st :: ('e, _) outcome) \<and> cs_wf c st \<and> cs_synced c st (mc_capacity c) \<and> cs_head st = u_head (mc_index_set c)"
proof -
  let ?st = "\<lparr>cs_head = 0, cs_data = replicate (mc_capacity c) None, cs_active = replicate (mc_capacity c) False\<rparr> :: 'a container_state"
  have w: "mc_wf c" "mc_verify_init c = (Ok () :: ('e, _) outcome)" using assms by (simp_all add: ports_fresh_def mc_wf_def mc_verify_init_def)
  have cw: "cs_wf c ?st" by (simp add: cs_wf_def)
  show ?thesis
  proof (cases "u_head (mc_index_set c) = 0")
    case True
    have "mc_entry c i = None" if "i < mc_capacity c" for i using assms that mc_entry_map [OF w(1) that] by (simp add: ports_fresh_def)
    then have "mc_active c ! i \<noteq> Some True" if "i < mc_capacity c" for i using mc_entry_data [OF w(1) that] that by (fastforce simp: mc_entry_def)
    then have "cs_synced c ?st (mc_capacity c)" by (simp add: cs_synced_def)
    then show ?thesis using w(2) cw True by (intro exI [of _ ?st]) (simp add: get_state_def update_state_unchanged)
  next
    case False
    then have "cs_head ?st \<noteq> u_head (mc_index_set c)" by simp
    from update_state_changed [OF mc_wf_mem_ok [OF w(1)] cw this, where ?'e = 'e] w(2) show ?thesis by (auto simp: get_state_def)
  qed
qed

lemma fresh_notifier:
  assumes "ports_fresh n (dyn_listeners d)" and "ports_fresh k (dyn_notifiers d)" and "0 < k" and "er_lockable r"
  shows "\<exists>np c. notifier_port_new t port_id \<lparr>es_registry = r, es_dynamic = d\<rparr> = (Ok (\<lparr>es_registry = r, es_dynamic = d\<lparr>dyn_notifiers := c\<rparr>\<rparr>, Inr np) :: ('e, _) outcome)
    \<and> notifier_ok \<lparr>es_registry = r, es_dynamic = d\<lparr>dyn_notifiers := c\<rparr>\<rparr> np
    \<and> cs_head (np_state np) = u_head (mc_index_set (dyn_listeners d)) \<and> np_default_trigger_id np = t"
proof -
  let ?L = "dyn_listeners d" and ?w = "\<lparr>es_registry = r, es_dynamic = d\<rparr>"
  have L: "mc_wf ?L" "mc_capacity ?L = n" using assms(1) by (simp_all add: ports_fresh_def)
  note F = fresh_service_ok(2) [OF assms(1,4)]
  obtain st where st: "get_state ?L = (Ok st :: ('e, _) outcome)" "cs_wf ?L st" "cs_synced ?L st (mc_capacity ?L)" "cs_head st = u_head (mc_index_set ?L)"
    using fresh_get_state [OF assms(1), where ?'e = 'e] by blast
  have "uis_free (mc_index_set (dyn_notifiers d)) = 0 # map word_of_nat [1 ..< k]" "0 < uis_budget (mc_index_set (dyn_notifiers d))" "mc_wf (dyn_notifiers d)"
    using assms(2,3) by (simp_all add: ports_fresh_def upt_conv_Cons)
  from mc_add_some [OF this(3,1,2), of port_id, where ?'e = 'e] obtain c where
    c: "mc_add (dyn_notifiers d) port_id = (Ok (c, Some \<lparr>ui_value = 0, ui_cleanup = Some mc_cleanup\<rparr>) :: ('e, _) outcome)" by blast
  let ?np = "\<lparr>np_connections = replicate (mc_capacity ?L) None, np_state = st, np_default_trigger_id = t, np_guard = \<lparr>ui_value = 0, ui_cleanup = Some mc_cleanup\<rparr>\<rparr>"
  let ?v = "map (listener_at ?w) [0 ..< mc_capacity ?L]"
  have v: "?v = replicate (mc_capacity ?L) None" using F L(2) by (intro nth_equalityI) simp_all
  obtain cs where cs: "populate_listeners r 0 ?v ?np = (Ok (?np\<lparr>np_connections := cs\<rparr>, Inr ()) :: ('e, _) outcome)" "targets cs = map2 (followed r) ?v (np_connections ?np)"
    unfolding v using populate_listeners_Ok [OF assms(4), of 0 "replicate (mc_capacity ?L) None" ?np, where ?'e = 'e] by auto
  have len: "length cs = n" using arg_cong [OF cs(2), of length] L(2) by simp
  have none: "cs ! i = None" if "i < n" for i using arg_cong [OF cs(2), of "\<lambda>xs. xs ! i"] that len L(2) F [OF that] by (simp add: followed_def)
  have "populate_listener_channels r ?np = (Ok (?np\<lparr>np_connections := cs\<rparr>, Inr ()) :: ('e, _) outcome)"
    using cs(1) by (simp add: populate_listener_channels_def cs_for_each_synced [OF st(2,3)] visited_entries [OF L(1)])
  then have "notifier_port_new t port_id ?w = (Ok (\<lparr>es_registry = r, es_dynamic = d\<lparr>dyn_notifiers := c\<rparr>\<rparr>, Inr (?np\<lparr>np_connections := cs\<rparr>)) :: ('e, _) outcome)"
    using st(1) c by (simp add: notifier_port_new_def add_notifier_id_def Let_def)
  moreover have "notifier_ok \<lparr>es_registry = r, es_dynamic = d\<lparr>dyn_notifiers := c\<rparr>\<rparr> (?np\<lparr>np_connections := cs\<rparr>)"
    using len none F L(2) st(2) by (simp add: notifier_ok_def)
  ultimately show ?thesis using st(4) by (intro exI [of _ "?np\<lparr>np_connections := cs\<rparr>"] exI [of _ c]) simp
qed

section \<open>From the builder to the callback\<close>

lemma on_event_service_Ok:
  assumes "dc_event (dynamic_get (w_dynamic (ep_world p)) (sv_dynamic h)) = (Ok d :: (unit, _) outcome)"
    and "f \<lparr>es_registry = ep_events p, es_dynamic = d\<rparr> = (Ok (s, x) :: ('e, _) outcome)"
  shows "\<exists>p'. on_event_service h f p = (Ok (p', x) :: ('e, _) outcome) \<and> ep_events p' = es_registry s
    \<and> dc_event (dynamic_get (w_dynamic (ep_world p')) (sv_dynamic h)) = (Ok (es_dynamic s) :: (unit, _) outcome)"
proof -
  have "dc_event (dynamic_get (w_dynamic (ep_world p)) (sv_dynamic h)) = (Ok d :: ('e, _) outcome)" using assms(1) by (simp add: dc_event_def split: dyn_pattern.splits)
  then show ?thesis using assms(2) by (simp add: on_event_service_def Let_def dynamic_get_def dc_event_def)
qed

text \<open>C37: an event service works from end to end. A builder creates the service in a process where it does not exist; its factories create a notifier with a default
  trigger id and a listener; the notifier notifies, and the listener's callback receives exactly this trigger id.\<close>

theorem event_service_delivers:
  assumes "svc_at g uuid l" and "svc_usage env l (ep_world p) None" and "ev_builder_for g uuid b" and "serializer_ok env (ev_created_config b)"
    and "ev_memory_ok env (adjust_ev (ev_details b))" and "er_lockable (ep_events p)" and "fresh_addresses (ep_events p)"
    and "map_of (er_entries (ep_events p)) (event_key listener_id) = None"
  shows "\<exists>w h p1 np p2 lp p3 np' n r. ev_create env b (ep_world p) = (w, Ok h)
    \<and> nf_create notifier_id (nf_set_default_trigger_id t (evf_notifier h)) (p\<lparr>ep_world := w\<rparr>) = (Ok (p1, Inr np) :: (unit, _) outcome)
    \<and> evf_listener_create False listener_id h p1 = (Ok (p2, Inr lp) :: (unit, _) outcome)
    \<and> on_event_service h (notifier_notify (\<lambda>_. False) np) p2 = (Ok (p3, np', Inr n) :: (unit, _) outcome) \<and> 0 < n
    \<and> listener_try_wait (\<lambda>_. None) (\<lambda>c x. (c @ [x], True)) lp [] (ep_events p3) = (Some (Ok (r, [t], Inr 1)) :: (unit, _) outcome option)"
proof -
  obtain w h d where h: "ev_create env b (ep_world p) = (w, Ok h)" "dc_event (dynamic_get (w_dynamic w) (sv_dynamic h)) = (Ok d :: (unit, _) outcome)"
    and fresh: "ports_fresh (sc_max_listeners (adjust_ev (ev_details b))) (dyn_listeners d)" "ports_fresh (sc_max_notifiers (adjust_ev (ev_details b))) (dyn_notifiers d)"
    using ev_create_ok [OF assms(1-5)] by blast
  let ?p = "p\<lparr>ep_world := w\<rparr>"
  obtain np c where np: "notifier_port_new t notifier_id \<lparr>es_registry = ep_events ?p, es_dynamic = d\<rparr> = (Ok (\<lparr>es_registry = ep_events p, es_dynamic = d\<lparr>dyn_notifiers := c\<rparr>\<rparr>, Inr np) :: (unit, _) outcome)"
    "notifier_ok \<lparr>es_registry = ep_events p, es_dynamic = d\<lparr>dyn_notifiers := c\<rparr>\<rparr> np" "cs_head (np_state np) = u_head (mc_index_set (dyn_listeners d))" "np_default_trigger_id np = t"
    using fresh_notifier [OF fresh adjust_ev_counts(2) assms(6), of t notifier_id, where ?'e = unit] by auto
  let ?w = "\<lparr>es_registry = ep_events p, es_dynamic = d\<lparr>dyn_notifiers := c\<rparr>\<rparr>"
  obtain p1 where p1: "on_event_service h (notifier_port_new t notifier_id) ?p = (Ok (p1, Inr np) :: (unit, _) outcome)" "ep_events p1 = ep_events p"
    "dc_event (dynamic_get (w_dynamic (ep_world p1)) (sv_dynamic h)) = (Ok (d\<lparr>dyn_notifiers := c\<rparr>) :: (unit, _) outcome)"
    using on_event_service_Ok [of ?p h d "notifier_port_new t notifier_id", OF _ np(1)] h(2) by auto
  have ok: "service_ok ?w" using fresh_service_ok(1) [of _ "d\<lparr>dyn_notifiers := c\<rparr>"] fresh(1) assms(6) by simp
  have free: "uis_free (mc_index_set (dyn_listeners (es_dynamic ?w))) = 0 # map word_of_nat [1 ..< sc_max_listeners (adjust_ev (ev_details b))]"
    "0 < uis_budget (mc_index_set (dyn_listeners (es_dynamic ?w)))" using fresh(1) adjust_ev_counts(1) [of "ev_details b"] by (simp_all add: ports_fresh_def upt_conv_Cons)
  obtain w1 lp w2 np' n r where lp: "listener_port_new False listener_id ?w = (Ok (w1, Inr lp) :: (unit, _) outcome)"
    and nt: "notify_with_custom_trigger_id (\<lambda>_. False) t np w1 = (Ok (w2, np', Inr n) :: (unit, _) outcome)" "0 < n"
    and tw: "listener_try_wait (\<lambda>_. None) (\<lambda>c x. (c @ [x], True)) lp [] (es_registry w2) = (Some (Ok (r, [t], Inr 1)) :: (unit, _) outcome option)"
    using joined_listener_receives [OF ok np(2) _ _ _ free, of listener_id t, where ?'e = unit] np(3) assms(7,8) by auto
  obtain p2 where p2: "on_event_service h (listener_port_new False listener_id) p1 = (Ok (p2, Inr lp) :: (unit, _) outcome)" "ep_events p2 = es_registry w1"
    "dc_event (dynamic_get (w_dynamic (ep_world p2)) (sv_dynamic h)) = (Ok (es_dynamic w1) :: (unit, _) outcome)"
    using on_event_service_Ok [OF p1(3), of "listener_port_new False listener_id"] p1(2) lp by auto
  have "notifier_notify (\<lambda>_. False) np \<lparr>es_registry = ep_events p2, es_dynamic = es_dynamic w1\<rparr> = (Ok (w2, np', Inr n) :: (unit, _) outcome)"
    using nt(1) p2(2) np(4) by (cases w1) (simp add: notifier_notify_def)
  from on_event_service_Ok [where f = "notifier_notify (\<lambda>_. False) np", OF p2(3) this] obtain p3 where "on_event_service h (notifier_notify (\<lambda>_. False) np) p2 = (Ok (p3, np', Inr n) :: (unit, _) outcome)"
    "ep_events p3 = es_registry w2" by auto
  then show ?thesis using h(1) p1(1) p2(1) nt(2) tw
    by (simp add: nf_create_def evf_listener_create_def nf_set_default_trigger_id_def evf_notifier_def)
qed

definition example_event_builder :: ev_builder where
  "example_event_builder = vb_new \<lparr>sc_uuid = [48, 97], sc_service_name = [98], sc_pattern = Event (ev_static_new entries_default)\<rparr> entries_default"

definition example_event_env :: svc_env where
  "example_event_env = \<lparr>env_hash = (\<lambda>_. [48, 97]), env_serialize = (\<lambda>_. Some [1]), env_deserialize = (\<lambda>_. Some (ev_created_config example_event_builder)),
     env_size_of_id = 16, env_align_of_id = 8, env_size_of_config = 400, env_address = Some 4096\<rparr>"

lemma example_event_builder_ok:
  "ev_builder_for entries_default [48, 97] example_event_builder" "serializer_ok example_event_env (ev_created_config example_event_builder)"
  "ev_memory_ok example_event_env (adjust_ev (ev_details example_event_builder))"
proof -
  have d: "sc_max_listeners (adjust_ev (ev_details example_event_builder)) = 1" "sc_max_notifiers (adjust_ev (ev_details example_event_builder)) = 16"
    by (simp_all add: example_event_builder_def vb_new_def ev_details_def adjust_ev_def ev_static_new_def entries_default_def)
  have "evd_memory_size 16 8 \<lparr>number_of_listeners = 1, number_of_notifiers = 16\<rparr> = (Ok 385 :: (dynamic_create_error, _) outcome)"
    by (simp add: evd_memory_size_def mc_const_memory_size_def outcome_defs usize_lim_def)
  moreover have "env_align_of_id example_event_env = 2 ^ 3" "env_address example_event_env = Some 4096" "0 < env_size_of_id example_event_env"
    "env_size_of_id example_event_env = 16" "env_align_of_id example_event_env = 8" "4096 + env_size_of_config example_event_env + 385 + 8 + 4 < usize_lim"
    by (simp_all add: example_event_env_def usize_lim_def)
  ultimately show "ev_memory_ok example_event_env (adjust_ev (ev_details example_event_builder))" unfolding ev_memory_ok_def d
    by (intro conjI exI [of _ 3] exI [of _ 385] exI [of _ 4096]) simp_all
  show "ev_builder_for entries_default [48, 97] example_event_builder" by (simp add: ev_builder_for_def example_event_builder_def vb_new_def)
  show "serializer_ok example_event_env (ev_created_config example_event_builder)" by (simp add: serializer_ok_def example_event_env_def)
qed

theorem event_service_delivers_witness:
  "\<exists>w h p1 np p2 lp p3 np' n r. ev_create example_event_env example_event_builder empty_world = (w, Ok h)
    \<and> nf_create 1 (nf_set_default_trigger_id 9 (evf_notifier h)) \<lparr>ep_world = w, ep_events = es_registry quiet_service\<rparr> = (Ok (p1, Inr np) :: (unit, _) outcome)
    \<and> evf_listener_create False 2 h p1 = (Ok (p2, Inr lp) :: (unit, _) outcome)
    \<and> on_event_service h (notifier_notify (\<lambda>_. False) np) p2 = (Ok (p3, np', Inr n) :: (unit, _) outcome)
    \<and> listener_try_wait (\<lambda>_. None) (\<lambda>c x. (c @ [x], True)) lp [] (ep_events p3) = (Some (Ok (r, [9], Inr 1)) :: (unit, _) outcome option)"
proof -
  obtain l where l: "svc_at entries_default [48, 97] l" using default_location by blast
  let ?p = "\<lparr>ep_world = empty_world, ep_events = es_registry quiet_service\<rparr>"
  have e: "svc_usage example_event_env l (ep_world ?p) None" by (simp add: empty_world_def)
  have "er_lockable (ep_events ?p)" "fresh_addresses (ep_events ?p)" "map_of (er_entries (ep_events ?p)) (event_key 2) = None"
    using service_okD(1) [OF quiet_service_ok(1)] quiet_service_ok(4,5) by simp_all
  from event_service_delivers [OF l e example_event_builder_ok this, of 1 9] show ?thesis by simp blast
qed

end
