(* ===== verification/TriggerQueue.thy ===== *)
theory TriggerQueue
  imports Interleaving ContainerQueue
begin

text \<open>
  \<^verbatim>\<open>elkodon_bb/threadsafe/src/trigger_queue.rs\<close>: a queue behind a mutex, with one semaphore that counts its free slots and one that counts the
  used ones. Any number of threads push and pop. One step is one call of a semaphore or of the mutex, or the section that the mutex protects.

  The semaphores and the mutex are those of the operating system: a wait takes a permit when there is one, a wait that does not block or has a time limit can return
  without one when there is none, and every call can fail, which panics at once (\<open>tq_fault\<close>); \<open>TqPanic pc\<close> is a thread that panicked at \<open>pc\<close>, with the permit that
  it had taken. \<open>tq_in\<close> and \<open>tq_out\<close> are histories: the values in the order in which they entered and left the queue.
\<close>

section \<open>The queue\<close>

record 'a tq_state =
  tq_queue :: "'a container_queue"
  tq_locked :: bool
  tq_free :: nat
  tq_used :: nat
  tq_in :: "'a list"
  tq_out :: "'a list"

text \<open>The ways to wait; \<open>TqClear\<close> is the loop of \<^verbatim>\<open>clear\<close> over \<^verbatim>\<open>try_pop\<close>.\<close>

datatype tq_wait = TqTry | TqTimed | TqBlocking | TqClear

datatype 'a tq_pc =
  TqIdle
| TqWaitFree tq_wait 'a | TqLockPush 'a | TqPush 'a | TqUnlockPush | TqPostUsed
| TqWaitUsed tq_wait | TqLockPop tq_wait | TqPop tq_wait | TqUnlockPop tq_wait "'a option" | TqPostFree tq_wait "'a option"
| TqLockLook | TqLook | TqUnlockLook usize
| TqPushDone bool | TqPopDone "'a option" | TqLookDone usize
| TqPanic "'a tq_pc" | TqUnwrapNone

text \<open>The initial value of the semaphore is \<^verbatim>\<open>CAPACITY as u32\<close>.\<close>

definition tq_new :: "usize \<Rightarrow> 'a tq_state" where
  "tq_new CAPACITY =
     \<lparr>tq_queue = fixed_cq_default CAPACITY, tq_locked = False, tq_free = CAPACITY mod 2 ^ 32, tq_used = 0, tq_in = [], tq_out = []\<rparr>"

fun tq_popped :: "tq_wait \<Rightarrow> 'a option \<Rightarrow> 'a tq_pc" where
  "tq_popped TqBlocking None = TqUnwrapNone"
| "tq_popped TqClear (Some v) = TqWaitUsed TqClear"
| "tq_popped k r = TqPopDone r"

fun tq_may_fail :: "'a tq_pc \<Rightarrow> bool" where
  "tq_may_fail (TqWaitFree _ _) \<longleftrightarrow> True" | "tq_may_fail (TqLockPush _) \<longleftrightarrow> True" | "tq_may_fail TqPostUsed \<longleftrightarrow> True"
| "tq_may_fail (TqWaitUsed _) \<longleftrightarrow> True" | "tq_may_fail (TqLockPop _) \<longleftrightarrow> True" | "tq_may_fail (TqPostFree _ _) \<longleftrightarrow> True"
| "tq_may_fail TqLockLook \<longleftrightarrow> True" | "tq_may_fail _ \<longleftrightarrow> False"

fun tq_returned :: "'a tq_pc \<Rightarrow> bool" where
  "tq_returned TqIdle \<longleftrightarrow> True" | "tq_returned (TqPushDone _) \<longleftrightarrow> True" | "tq_returned (TqPopDone _) \<longleftrightarrow> True" | "tq_returned (TqLookDone _) \<longleftrightarrow> True"
| "tq_returned _ \<longleftrightarrow> False"

definition tq_insert :: "'a \<Rightarrow> 'a tq_state \<Rightarrow> 'a tq_state \<times> 'a tq_pc" where
  "tq_insert v s =
     (case (cq_push (tq_queue s) v :: (unit, _) outcome) of
        Ok (q, pushed) \<Rightarrow> (s\<lparr>tq_queue := q, tq_in := (if pushed then tq_in s @ [v] else tq_in s)\<rparr>, TqUnlockPush)
      | _ \<Rightarrow> (s\<lparr>tq_locked := False\<rparr>, TqPanic (TqPush v)))"

definition tq_remove :: "tq_wait \<Rightarrow> 'a tq_state \<Rightarrow> 'a tq_state \<times> 'a tq_pc" where
  "tq_remove k s =
     (case (cq_pop (tq_queue s) :: (unit, _) outcome) of
        Ok (q, r) \<Rightarrow> (s\<lparr>tq_queue := q, tq_out := (case r of Some v \<Rightarrow> tq_out s @ [v] | None \<Rightarrow> tq_out s)\<rparr>, TqUnlockPop k r)
      | _ \<Rightarrow> (s\<lparr>tq_locked := False\<rparr>, TqPanic (TqPop k)))"

inductive tq_thread :: "'a tq_state \<Rightarrow> 'a tq_pc \<Rightarrow> 'a tq_state \<Rightarrow> 'a tq_pc \<Rightarrow> bool" where
  tq_call_push: "tq_returned pc \<Longrightarrow> k \<noteq> TqClear \<Longrightarrow> tq_thread s pc s (TqWaitFree k v)"
| tq_call_pop: "tq_returned pc \<Longrightarrow> tq_thread s pc s (TqWaitUsed k)"
| tq_call_look: "tq_returned pc \<Longrightarrow> tq_thread s pc s TqLockLook"
| tq_fault: "tq_may_fail pc \<Longrightarrow> tq_thread s pc s (TqPanic pc)"
| tq_take_free: "0 < tq_free s \<Longrightarrow> tq_thread s (TqWaitFree k v) (s\<lparr>tq_free := tq_free s - 1\<rparr>) (TqLockPush v)"
| tq_no_free: "tq_free s = 0 \<Longrightarrow> k \<noteq> TqBlocking \<Longrightarrow> tq_thread s (TqWaitFree k v) s (TqPushDone False)"
| tq_lock_push: "\<not> tq_locked s \<Longrightarrow> tq_thread s (TqLockPush v) (s\<lparr>tq_locked := True\<rparr>) (TqPush v)"
| tq_push: "tq_insert v s = (s', pc') \<Longrightarrow> tq_thread s (TqPush v) s' pc'"
| tq_unlock_push: "tq_thread s TqUnlockPush (s\<lparr>tq_locked := False\<rparr>) TqPostUsed"
| tq_post_used: "tq_thread s TqPostUsed (s\<lparr>tq_used := tq_used s + 1\<rparr>) (TqPushDone True)"
| tq_take_used: "0 < tq_used s \<Longrightarrow> tq_thread s (TqWaitUsed k) (s\<lparr>tq_used := tq_used s - 1\<rparr>) (TqLockPop k)"
| tq_no_used: "tq_used s = 0 \<Longrightarrow> k \<noteq> TqBlocking \<Longrightarrow> tq_thread s (TqWaitUsed k) s (TqPopDone None)"
| tq_lock_pop: "\<not> tq_locked s \<Longrightarrow> tq_thread s (TqLockPop k) (s\<lparr>tq_locked := True\<rparr>) (TqPop k)"
| tq_pop: "tq_remove k s = (s', pc') \<Longrightarrow> tq_thread s (TqPop k) s' pc'"
| tq_unlock_pop: "tq_thread s (TqUnlockPop k r) (s\<lparr>tq_locked := False\<rparr>) (TqPostFree k r)"
| tq_post_free: "tq_thread s (TqPostFree k r) (s\<lparr>tq_free := tq_free s + 1\<rparr>) (tq_popped k r)"
| tq_lock_look: "\<not> tq_locked s \<Longrightarrow> tq_thread s TqLockLook (s\<lparr>tq_locked := True\<rparr>) TqLook"
| tq_look: "tq_thread s TqLook s (TqUnlockLook (cq_len (tq_queue s)))"
| tq_unlock_look: "tq_thread s (TqUnlockLook n) (s\<lparr>tq_locked := False\<rparr>) (TqLookDone n)"

section \<open>Who has which permit\<close>

datatype tq_stage = Outside | Filling | Filled | Emptying | Emptied

fun stage_of :: "'a tq_pc \<Rightarrow> tq_stage" where
  "stage_of (TqLockPush _) = Filling" | "stage_of (TqPush _) = Filling" | "stage_of TqUnlockPush = Filled" | "stage_of TqPostUsed = Filled"
| "stage_of (TqLockPop _) = Emptying" | "stage_of (TqPop _) = Emptying" | "stage_of (TqUnlockPop _ _) = Emptied" | "stage_of (TqPostFree _ _) = Emptied"
| "stage_of (TqPanic pc) = stage_of pc" | "stage_of _ = Outside"

abbreviation at_stage :: "nat \<Rightarrow> tq_stage \<Rightarrow> (nat \<Rightarrow> 'a tq_pc) \<Rightarrow> nat" where
  "at_stage n x f \<equiv> number n (\<lambda>pc. stage_of pc = x) f"

fun tq_has_value :: "'a tq_pc \<Rightarrow> bool" where
  "tq_has_value (TqUnlockPop _ r) \<longleftrightarrow> r \<noteq> None" | "tq_has_value (TqPostFree _ r) \<longleftrightarrow> r \<noteq> None" | "tq_has_value TqUnwrapNone \<longleftrightarrow> False" | "tq_has_value _ \<longleftrightarrow> True"

text \<open>Every free slot is a permit of \<open>tq_free\<close> or belongs to a thread that is about to push or has popped; every stored value is a permit of \<open>tq_used\<close> or
  belongs to a thread that has pushed or is about to pop.\<close>

definition tq_inv :: "usize \<Rightarrow> nat \<Rightarrow> 'a tq_state \<Rightarrow> (nat \<Rightarrow> 'a tq_pc) \<Rightarrow> bool" where
  "tq_inv CAPACITY n s f \<longleftrightarrow> cq_wf (tq_queue s) \<and> cq_capacity (tq_queue s) = CAPACITY
     \<and> tq_free s + at_stage n Filling f + cq_len (tq_queue s) + at_stage n Emptied f = CAPACITY mod 2 ^ 32
     \<and> tq_used s + at_stage n Filled f + at_stage n Emptying f = cq_len (tq_queue s)
     \<and> tq_in s = tq_out s @ cq_list (tq_queue s) \<and> (\<forall>t < n. tq_has_value (f t))"

lemma at_stage_upd: "t < n \<Longrightarrow> at_stage n x (f(t := pc)) + of_bool (stage_of (f t) = x) = at_stage n x f + of_bool (stage_of pc = x)"
  using number_upd [of t n "\<lambda>pc. stage_of pc = x"] .

lemma tq_inv_local:
  assumes "tq_inv CAPACITY n s f" and "t < n" and "tq_has_value pc" and "tq_queue s' = tq_queue s" and "tq_in s' = tq_in s" and "tq_out s' = tq_out s"
    and "tq_free s' + of_bool (stage_of pc \<in> {Filling, Emptied}) = tq_free s + of_bool (stage_of (f t) \<in> {Filling, Emptied})"
    and "tq_used s' + of_bool (stage_of pc \<in> {Filled, Emptying}) = tq_used s + of_bool (stage_of (f t) \<in> {Filled, Emptying})"
  shows "tq_inv CAPACITY n s' (f(t := pc))"
proof -
  note u = at_stage_upd [OF assms(2), of _ f pc]
  have "tq_free s' + at_stage n Filling (f(t := pc)) + at_stage n Emptied (f(t := pc)) = tq_free s + at_stage n Filling f + at_stage n Emptied f"
    using assms(7) u [of Filling] u [of Emptied] by (cases "stage_of pc"; cases "stage_of (f t)") simp_all
  moreover have "tq_used s' + at_stage n Filled (f(t := pc)) + at_stage n Emptying (f(t := pc)) = tq_used s + at_stage n Filled f + at_stage n Emptying f"
    using assms(8) u [of Filled] u [of Emptying] by (cases "stage_of pc"; cases "stage_of (f t)") simp_all
  ultimately show ?thesis using assms(1,3-6) unfolding tq_inv_def by auto
qed

lemma tq_inv_room: "tq_inv CAPACITY n s f \<Longrightarrow> t < n \<Longrightarrow> stage_of (f t) = Filling \<Longrightarrow> cq_len (tq_queue s) < cq_capacity (tq_queue s)"
  using number_pos [of t n "\<lambda>pc. stage_of pc = Filling" f] mod_less_eq_dividend [of CAPACITY "2 ^ 32"] unfolding tq_inv_def by linarith

lemma tq_inv_value: "tq_inv CAPACITY n s f \<Longrightarrow> t < n \<Longrightarrow> stage_of (f t) = Emptying \<Longrightarrow> 0 < cq_len (tq_queue s)"
  using number_pos [of t n "\<lambda>pc. stage_of pc = Emptying" f] unfolding tq_inv_def by linarith

lemma tq_inv_insert:
  assumes "tq_inv CAPACITY n s f" and "t < n" and "f t = TqPush v" and "tq_insert v s = (s', pc)"
  shows "tq_inv CAPACITY n s' (f(t := pc))"
proof (cases "cq_push (tq_queue s) v :: (unit, _) outcome")
  case (Ok p)
  obtain q b where p: "p = (q, b)" by (cases p)
  have "cq_wf (tq_queue s)" using assms(1) by (simp add: tq_inv_def)
  note P = cq_push_wf [OF this Ok [unfolded p]]
  have b: "b" using P tq_inv_room [OF assms(1,2)] assms(3) by simp
  have e: "pc = TqUnlockPush" "s' = s\<lparr>tq_queue := q, tq_in := tq_in s @ [v]\<rparr>" using assms(4) Ok p b by (auto simp: tq_insert_def)
  show ?thesis using assms(1) P b at_stage_upd [OF assms(2), of Filling f pc] at_stage_upd [OF assms(2), of Emptied f pc]
      at_stage_upd [OF assms(2), of Filled f pc] at_stage_upd [OF assms(2), of Emptying f pc] assms(3) by (simp add: tq_inv_def e)
qed (use assms in \<open>auto simp: tq_insert_def intro!: tq_inv_local [OF assms(1,2)]\<close>)

lemma tq_inv_remove:
  assumes "tq_inv CAPACITY n s f" and "t < n" and "f t = TqPop k" and "tq_remove k s = (s', pc)"
  shows "tq_inv CAPACITY n s' (f(t := pc))"
proof -
  have w: "cq_wf (tq_queue s)" using assms(1) by (simp add: tq_inv_def)
  have "0 < cq_len (tq_queue s)" using tq_inv_value [OF assms(1,2)] assms(3) by simp
  then obtain x xs where x: "cq_list (tq_queue s) = x # xs" using length_cq_list [OF w] by (cases "cq_list (tq_queue s)") auto
  note P = cq_pop_ok [OF w x]
  have l: "cq_len (cq_popped (tq_queue s)) = cq_len (tq_queue s) - 1" "0 < cq_len (tq_queue s)" using \<open>0 < cq_len (tq_queue s)\<close> by simp_all
  have e: "pc = TqUnlockPop k (Some x)" "s' = s\<lparr>tq_queue := cq_popped (tq_queue s), tq_out := tq_out s @ [x]\<rparr>" using assms(4) by (auto simp: tq_remove_def P(1))
  show ?thesis using assms(1) P(2,3) l x at_stage_upd [OF assms(2), of Filling f pc] at_stage_upd [OF assms(2), of Emptied f pc]
      at_stage_upd [OF assms(2), of Filled f pc] at_stage_upd [OF assms(2), of Emptying f pc] assms(3) by (simp add: tq_inv_def e) linarith
qed

lemma tq_popped_props: "tq_has_value (TqPostFree k r) \<Longrightarrow> tq_has_value (tq_popped k r) \<and> stage_of (tq_popped k r) = Outside"
  by (cases "(k, r)" rule: tq_popped.cases) auto

lemma tq_inv_step:
  assumes "tq_inv CAPACITY n s f" and "t < n" and "tq_thread s (f t) s' pc"
  shows "tq_inv CAPACITY n s' (f(t := pc))"
  using assms(3)
proof cases
  case (tq_push v)
  then show ?thesis using tq_inv_insert [OF assms(1,2)] by simp
next
  case (tq_pop k)
  then show ?thesis using tq_inv_remove [OF assms(1,2)] by simp
next
  case (tq_post_free k r)
  have "tq_has_value (f t)" using assms(1,2) by (simp add: tq_inv_def)
  then show ?thesis using tq_post_free tq_popped_props [of k r] by (intro tq_inv_local [OF assms(1,2)]) auto
next
  case tq_fault
  then have "tq_has_value pc" by simp
  then show ?thesis using tq_fault by (intro tq_inv_local [OF assms(1,2)]) auto
next
  case (tq_call_push k v)
  then have "stage_of (f t) = Outside" by (cases "f t") auto
  then show ?thesis using tq_call_push by (intro tq_inv_local [OF assms(1,2)]) auto
next
  case (tq_call_pop k)
  then have "stage_of (f t) = Outside" by (cases "f t") auto
  then show ?thesis using tq_call_pop by (intro tq_inv_local [OF assms(1,2)]) auto
next
  case tq_call_look
  then have "stage_of (f t) = Outside" by (cases "f t") auto
  then show ?thesis using tq_call_look by (intro tq_inv_local [OF assms(1,2)]) auto
next
  case (tq_unlock_pop k r)
  have "tq_has_value (f t)" using assms(1,2) by (simp add: tq_inv_def)
  then show ?thesis using tq_unlock_pop by (intro tq_inv_local [OF assms(1,2)]) auto
qed (rule tq_inv_local [OF assms(1,2)], simp_all)+

lemma tq_reach_inv: "conc_reach n tq_thread (tq_new CAPACITY) TqIdle s f \<Longrightarrow> tq_inv CAPACITY n s f"
proof (induction rule: conc_reach.induct)
  case start
  show ?case by (simp add: tq_inv_def tq_new_def cq_wf_def cq_list_def fixed_cq_default_def)
next
  case (step s f t s' pc)
  then show ?case using tq_inv_step by blast
qed

text \<open>C38: the trigger queue under every interleaving of pushes and pops by any number of threads. The values leave the queue in the order in which they entered it; none is
  lost and none appears twice. A thread that pushes never finds the queue full, and a pop that had a permit always finds a value, so \<^verbatim>\<open>blocking_pop\<close> never panics on a missing
  value. When no thread is inside a push or pop, a consumer has to wait exactly when the queue is empty, and a producer exactly when it is full.\<close>

theorem trigger_queue_correct:
  assumes "conc_reach n tq_thread (tq_new CAPACITY) TqIdle s f"
  shows "tq_in s = tq_out s @ cq_list (tq_queue s) \<and> length (cq_list (tq_queue s)) \<le> CAPACITY
    \<and> (\<forall>t < n. f t \<noteq> TqUnwrapNone \<and> (\<forall>v. f t = TqPush v \<longrightarrow> \<not> cq_is_full (tq_queue s)) \<and> (\<forall>k. f t = TqPop k \<longrightarrow> \<not> cq_is_empty (tq_queue s)))
    \<and> ((\<forall>t < n. stage_of (f t) = Outside) \<longrightarrow> tq_used s = length (cq_list (tq_queue s)) \<and> tq_free s + tq_used s = CAPACITY mod 2 ^ 32)"
proof -
  note I = tq_reach_inv [OF assms]
  have w: "cq_wf (tq_queue s)" "cq_capacity (tq_queue s) = CAPACITY" "tq_in s = tq_out s @ cq_list (tq_queue s)" using I by (simp_all add: tq_inv_def)
  have "f t \<noteq> TqUnwrapNone \<and> (\<forall>v. f t = TqPush v \<longrightarrow> \<not> cq_is_full (tq_queue s)) \<and> (\<forall>k. f t = TqPop k \<longrightarrow> \<not> cq_is_empty (tq_queue s))" if "t < n" for t
  proof -
    have "tq_has_value (f t)" using I that by (simp add: tq_inv_def)
    then show ?thesis using tq_inv_room [OF I that] tq_inv_value [OF I that] by (auto simp: cq_is_full_def cq_is_empty_def)
  qed
  moreover have "tq_used s = cq_len (tq_queue s) \<and> tq_free s + tq_used s = CAPACITY mod 2 ^ 32" if "\<forall>t < n. stage_of (f t) = Outside"
  proof -
    have "at_stage n x f = 0" if "x \<noteq> Outside" for x using that \<open>\<forall>t < n. stage_of (f t) = Outside\<close> by (simp add: number_eq_0)
    then show ?thesis using I by (simp add: tq_inv_def)
  qed
  ultimately show ?thesis using w length_cq_list [OF w(1)] by (auto simp: cq_wf_def)
qed

lemma tq_do: "conc_reach n tq_thread s0 p0 s f \<Longrightarrow> t < n \<Longrightarrow> tq_thread s (f t) s' pc \<Longrightarrow> f' = f(t := pc) \<Longrightarrow> conc_reach n tq_thread s0 p0 s' f'"
  by (simp add: conc_reach.step)

text \<open>Thread 0 pushes while thread 1 waits for a value, takes it, and has popped it.\<close>

theorem trigger_queue_correct_witness:
  "\<exists>(s :: nat tq_state) f. conc_reach 2 tq_thread (tq_new 1) TqIdle s f \<and> f 0 = TqPushDone True \<and> f 1 = TqPopDone (Some 7) \<and> tq_in s = tq_out s \<and> tq_free s = 1"
proof -
  let ?R = "conc_reach 2 tq_thread (tq_new 1 :: nat tq_state) TqIdle"
  let ?S = "\<lambda>d start len locked free used ins outs. \<lparr>tq_queue = \<lparr>cq_data = d, cq_start = start, cq_len = len, cq_capacity = 1, cq_initialized = True\<rparr>,
    tq_locked = locked, tq_free = free, tq_used = used, tq_in = ins, tq_out = outs\<rparr> :: nat tq_state"
  let ?f = "\<lambda>a b. (\<lambda>_. TqIdle)(0 := a, 1 := b)"
  have new: "tq_new 1 = ?S [None] 0 0 False 1 0 [] []" by (simp add: tq_new_def fixed_cq_default_def)
  have "?R (?S [None] 0 0 False 1 0 [] []) (?f TqIdle TqIdle)" unfolding new [symmetric] using conc_reach.start [of 2 tq_thread "tq_new 1" TqIdle] by (simp add: fun_upd_idem)
  then have "?R (?S [None] 0 0 False 1 0 [] []) (?f TqIdle (TqWaitUsed TqBlocking))" by (rule tq_do [where t = 1]) (auto intro: tq_call_pop)
  then have "?R (?S [None] 0 0 False 1 0 [] []) (?f (TqWaitFree TqTry 7) (TqWaitUsed TqBlocking))" by (rule tq_do [where t = 0]) (use tq_call_push [of TqIdle TqTry] in auto)
  then have "?R (?S [None] 0 0 False 0 0 [] []) (?f (TqLockPush 7) (TqWaitUsed TqBlocking))"
    by (rule tq_do [where t = 0]) (use tq_take_free [of "?S [None] 0 0 False 1 0 [] []" TqTry 7] in auto)
  then have "?R (?S [None] 0 0 True 0 0 [] []) (?f (TqPush 7) (TqWaitUsed TqBlocking))"
    by (rule tq_do [where t = 0]) (use tq_lock_push [of "?S [None] 0 0 False 0 0 [] []" 7] in auto)
  then have "?R (?S [Some 7] 1 1 True 0 0 [7] []) (?f TqUnlockPush (TqWaitUsed TqBlocking))"
    by (rule tq_do [where t = 0]) (auto intro!: tq_push simp: tq_insert_def cq_push_def cq_verify_init_def cq_unchecked_push_def outcome_defs usize_lim_def)
  then have "?R (?S [Some 7] 1 1 False 0 0 [7] []) (?f TqPostUsed (TqWaitUsed TqBlocking))"
    by (rule tq_do [where t = 0]) (use tq_unlock_push [of "?S [Some 7] 1 1 True 0 0 [7] []"] in auto)
  then have "?R (?S [Some 7] 1 1 False 0 1 [7] []) (?f (TqPushDone True) (TqWaitUsed TqBlocking))"
    by (rule tq_do [where t = 0]) (use tq_post_used [of "?S [Some 7] 1 1 False 0 0 [7] []"] in auto)
  then have "?R (?S [Some 7] 1 1 False 0 0 [7] []) (?f (TqPushDone True) (TqLockPop TqBlocking))"
    by (rule tq_do [where t = 1]) (use tq_take_used [of "?S [Some 7] 1 1 False 0 1 [7] []" TqBlocking] in auto)
  then have "?R (?S [Some 7] 1 1 True 0 0 [7] []) (?f (TqPushDone True) (TqPop TqBlocking))"
    by (rule tq_do [where t = 1]) (use tq_lock_pop [of "?S [Some 7] 1 1 False 0 0 [7] []" TqBlocking] in auto)
  then have "?R (?S [None] 1 0 True 0 0 [7] [7]) (?f (TqPushDone True) (TqUnlockPop TqBlocking (Some 7)))"
    by (rule tq_do [where t = 1]) (auto intro!: tq_pop simp: tq_remove_def cq_pop_def cq_is_empty_def cq_verify_init_def outcome_defs)
  then have "?R (?S [None] 1 0 False 0 0 [7] [7]) (?f (TqPushDone True) (TqPostFree TqBlocking (Some 7)))"
    by (rule tq_do [where t = 1]) (use tq_unlock_pop [of "?S [None] 1 0 True 0 0 [7] [7]" TqBlocking "Some 7"] in auto)
  then have r: "?R (?S [None] 1 0 False 1 0 [7] [7]) (?f (TqPushDone True) (TqPopDone (Some 7)))"
    by (rule tq_do [where t = 1]) (use tq_post_free [of "?S [None] 1 0 False 0 0 [7] [7]" TqBlocking "Some 7"] in auto)
  then show ?thesis using trigger_queue_correct [OF r] by (intro exI [of _ "?S [None] 1 0 False 1 0 [7] [7]"] exI [of _ "?f (TqPushDone True) (TqPopDone (Some 7))"]) simp
qed

end
