(* ===== verification/SystemCalls.thy ===== *)
theory SystemCalls
  imports Prelude
begin

text \<open>
  Programs that call the operating system. A program returns a result, or makes a call and continues with the answer. What a call does to the state that all
  processes share is a relation \<open>sem t s c a s'\<close>: process \<open>t\<close> makes the call \<open>c\<close> in the state \<open>s\<close> and gets the answer \<open>a\<close> in the state \<open>s'\<close>; a call can have
  many answers. Programs of several processes are interleaved at their calls.

  \<open>rg\<close> is a rely-guarantee judgement: run from the state \<open>s\<close>, with interference from \<open>R\<close> before every call and after the end, every step of the program is one of \<open>G\<close>,
  and its result satisfies \<open>Q\<close>. The locale \<open>rely_guarantee\<close> is what the programs of a component promise to each other; from it follows that the results
  hold in every interleaving of any number of processes.
\<close>

section \<open>Programs\<close>

datatype ('c, 'a, 'r) prog = Return 'r | Call 'c "'a \<Rightarrow> ('c, 'a, 'r) prog"

primrec pbind :: "('c, 'a, 'r) prog \<Rightarrow> ('r \<Rightarrow> ('c, 'a, 'q) prog) \<Rightarrow> ('c, 'a, 'q) prog" where
  "pbind (Return r) f = f r"
| "pbind (Call c k) f = Call c (\<lambda>a. pbind (k a) f)"

definition pmap :: "('r \<Rightarrow> 'q) \<Rightarrow> ('c, 'a, 'r) prog \<Rightarrow> ('c, 'a, 'q) prog" where
  "pmap f p = pbind p (\<lambda>r. Return (f r))"

text \<open>Programs with a Rust result: \<open>pthen\<close> is the operator \<^verbatim>\<open>?\<close>.\<close>

definition pthen :: "('c, 'a, ('e, 'r) outcome) prog \<Rightarrow> ('r \<Rightarrow> ('c, 'a, ('e, 'q) outcome) prog) \<Rightarrow> ('c, 'a, ('e, 'q) outcome) prog" where
  "pthen p f = pbind p (\<lambda>r. case r of Ok x \<Rightarrow> f x | Err e \<Rightarrow> Return (Err e) | Panic \<Rightarrow> Return Panic | UB \<Rightarrow> Return UB)"

lemma pbind_assoc: "pbind (pbind p f) g = pbind p (\<lambda>r. pbind (f r) g)"
  by (induction p) auto

lemma pmap_simps [simp]: "pmap f (Return r) = Return (f r)" "pmap f (Call c k) = Call c (\<lambda>a. pmap f (k a))"
  by (simp_all add: pmap_def)

lemma pthen_simps [simp]:
  "pthen (Return (Ok x)) f = f x" "pthen (Return (Err e)) f = Return (Err e)" "pthen (Return Panic) f = Return Panic"
  "pthen (Return UB) f = Return UB" "pthen (Call c k) f = Call c (\<lambda>a. pthen (k a) f)"
  by (simp_all add: pthen_def)

section \<open>One process alone\<close>

text \<open>When the operating system is a function \<open>os\<close>, a program that nobody disturbs can be run.\<close>

primrec exec :: "('s \<Rightarrow> 'c \<Rightarrow> 'a \<times> 's) \<Rightarrow> ('c, 'a, 'r) prog \<Rightarrow> 's \<Rightarrow> 'r \<times> 's" where
  "exec os (Return r) s = (r, s)"
| "exec os (Call c k) s = exec os (k (fst (os s c))) (snd (os s c))"

lemma exec_pbind: "exec os (pbind p f) s = (case exec os p s of (r, s') \<Rightarrow> exec os (f r) s')"
  by (induction p arbitrary: s) auto

lemma exec_pmap [simp]: "exec os (pmap f p) s = (case exec os p s of (r, s') \<Rightarrow> (f r, s'))"
  by (simp add: pmap_def exec_pbind)

lemma exec_pthen: "exec os (pthen p f) s = (case exec os p s of (r, s') \<Rightarrow>
    (case r of Ok x \<Rightarrow> exec os (f x) s' | Err e \<Rightarrow> (Err e, s') | Panic \<Rightarrow> (Panic, s') | UB \<Rightarrow> (UB, s')))"
  by (simp add: pthen_def exec_pbind split: prod.splits outcome.splits)

section \<open>Many processes\<close>

text \<open>\<open>follow r\<close> is the set of programs that a process may start when its last one returned \<open>r\<close>.\<close>

inductive prog_reach ::
  "(nat \<Rightarrow> 's \<Rightarrow> 'c \<Rightarrow> 'a \<Rightarrow> 's \<Rightarrow> bool) \<Rightarrow> ('r \<Rightarrow> ('c, 'a, 'r) prog set) \<Rightarrow> 's \<Rightarrow> 'r \<Rightarrow> 's \<Rightarrow> (nat \<Rightarrow> ('c, 'a, 'r) prog) \<Rightarrow> bool"
  for sem follow s0 r0 where
  pr_start: "prog_reach sem follow s0 r0 s0 (\<lambda>_. Return r0)"
| pr_begin: "prog_reach sem follow s0 r0 s f \<Longrightarrow> f t = Return r \<Longrightarrow> p \<in> follow r \<Longrightarrow> prog_reach sem follow s0 r0 s (f(t := p))"
| pr_call: "prog_reach sem follow s0 r0 s f \<Longrightarrow> f t = Call c k \<Longrightarrow> sem t s c a s' \<Longrightarrow> prog_reach sem follow s0 r0 s' (f(t := k a))"

lemma prog_reach_exec_from:
  assumes "\<And>s c. sem t s c (fst (os s c)) (snd (os s c))"
  shows "prog_reach sem follow s0 r0 s f \<Longrightarrow> f t = p \<Longrightarrow> exec os p s = (r, s') \<Longrightarrow> prog_reach sem follow s0 r0 s' (f(t := Return r))"
proof (induction p arbitrary: s f)
  case (Return x)
  then have "f(t := Return r) = f" "s' = s" by auto
  then show ?case using Return by simp
next
  case (Call c k)
  have "prog_reach sem follow s0 r0 (snd (os s c)) (f(t := k (fst (os s c))))" using Call.prems assms by (intro pr_call) auto
  then have "prog_reach sem follow s0 r0 s' ((f(t := k (fst (os s c))))(t := Return r))" by (rule Call.IH [OF rangeI]) (use Call.prems(3) in auto)
  then show ?case by (simp only: fun_upd_upd)
qed

text \<open>A whole program of one process, without interference.\<close>

lemma prog_reach_exec:
  assumes "\<And>s c. sem t s c (fst (os s c)) (snd (os s c))" and "prog_reach sem follow s0 r0 s f" and "f t = Return r" and "p \<in> follow r" and "exec os p s = (r', s')"
  shows "prog_reach sem follow s0 r0 s' (f(t := Return r'))"
  using prog_reach_exec_from [of sem t os follow s0 r0 s "f(t := p)" p r' s'] pr_begin [OF assms(2-4)] assms(1,5) by simp

section \<open>Rely and guarantee\<close>

primrec rg ::
  "('s \<Rightarrow> 'c \<Rightarrow> 'a \<Rightarrow> 's \<Rightarrow> bool) \<Rightarrow> ('s \<Rightarrow> 's \<Rightarrow> bool) \<Rightarrow> ('s \<Rightarrow> 's \<Rightarrow> bool) \<Rightarrow> ('c, 'a, 'r) prog \<Rightarrow> ('r \<Rightarrow> 's \<Rightarrow> bool) \<Rightarrow> 's \<Rightarrow> bool" where
  "rg sem R G (Return r) Q s \<longleftrightarrow> (\<forall>s'. R\<^sup>*\<^sup>* s s' \<longrightarrow> Q r s')"
| "rg sem R G (Call c k) Q s \<longleftrightarrow> (\<forall>s'. R\<^sup>*\<^sup>* s s' \<longrightarrow> (\<forall>a s''. sem s' c a s'' \<longrightarrow> G s' s'' \<and> rg sem R G (k a) Q s''))"

lemma rg_env: "rg sem R G p Q s \<Longrightarrow> R\<^sup>*\<^sup>* s s' \<Longrightarrow> rg sem R G p Q s'"
  by (cases p) (auto intro: rtranclp_trans)

lemma rg_pbind: "rg sem R G p (\<lambda>r s. rg sem R G (f r) Q s) s \<Longrightarrow> rg sem R G (pbind p f) Q s"
  by (induction p arbitrary: s) (auto dest: spec [of _ s])

lemma rg_mono: "rg sem R G p Q s \<Longrightarrow> (\<And>r s. Q r s \<Longrightarrow> Q' r s) \<Longrightarrow> rg sem R G p Q' s"
  by (induction p arbitrary: s) auto

lemma rg_pmap: "rg sem R G p (\<lambda>r s. \<forall>s'. R\<^sup>*\<^sup>* s s' \<longrightarrow> Q (f r) s') s \<Longrightarrow> rg sem R G (pmap f p) Q s"
  unfolding pmap_def by (rule rg_pbind) simp

text \<open>A fact \<open>P\<close> about the state that survives the interference, on which the next call is judged.\<close>

definition stable_under :: "('s \<Rightarrow> bool) \<Rightarrow> ('s \<Rightarrow> 's \<Rightarrow> bool) \<Rightarrow> bool" where
  "stable_under P R \<longleftrightarrow> (\<forall>s s'. P s \<longrightarrow> R s s' \<longrightarrow> P s')"

lemma stable_rtranclp: "stable_under P R \<Longrightarrow> P s \<Longrightarrow> R\<^sup>*\<^sup>* s s' \<Longrightarrow> P s'"
  by (rotate_tac 2, induction rule: rtranclp_induct) (auto simp: stable_under_def)

lemma rg_Return: "stable_under P R \<Longrightarrow> P s \<Longrightarrow> (\<And>s. P s \<Longrightarrow> Q r s) \<Longrightarrow> rg sem R G (Return r) Q s"
  using stable_rtranclp by fastforce

lemma rg_Call:
  assumes "stable_under P R" and "P s" and "\<And>s a s'. P s \<Longrightarrow> sem s c a s' \<Longrightarrow> G s s' \<and> rg sem R G (k a) Q s'"
  shows "rg sem R G (Call c k) Q s"
  using assms(3) stable_rtranclp [OF assms(1,2)] by (simp only: rg.simps) blast

text \<open>A program that makes only calls of a set \<open>C\<close>.\<close>

primrec calls_in :: "'c set \<Rightarrow> ('c, 'a, 'r) prog \<Rightarrow> bool" where
  "calls_in C (Return r) \<longleftrightarrow> True"
| "calls_in C (Call c k) \<longleftrightarrow> c \<in> C \<and> (\<forall>a. calls_in C (k a))"

lemma calls_in_pbind: "calls_in C p \<Longrightarrow> (\<And>r. calls_in C (f r)) \<Longrightarrow> calls_in C (pbind p f)"
  by (induction p) auto

lemma calls_in_pmap [simp]: "calls_in C p \<Longrightarrow> calls_in C (pmap f p)"
  by (simp add: pmap_def calls_in_pbind)

lemma rg_calls_in:
  assumes "stable_under P R" and "\<And>s c a s'. P s \<Longrightarrow> c \<in> C \<Longrightarrow> sem s c a s' \<Longrightarrow> G s s' \<and> P s'"
  shows "calls_in C p \<Longrightarrow> P s \<Longrightarrow> rg sem R G p (\<lambda>r. P) s"
proof (induction p arbitrary: s)
  case (Return r)
  then show ?case by (intro rg_Return [OF assms(1)])
next
  case (Call c k)
  show ?case
  proof (rule rg_Call [OF assms(1) Call.prems(2)])
    fix s a s'
    assume "P s" "sem s c a s'"
    then have "G s s' \<and> P s'" using assms(2) Call.prems(1) by auto
    then show "G s s' \<and> rg sem R G (k a) (\<lambda>r. P) s'" using Call.IH [of "k a" s'] Call.prems(1) by auto
  qed
qed

locale rely_guarantee =
  fixes sem :: "nat \<Rightarrow> 's \<Rightarrow> 'c \<Rightarrow> 'a \<Rightarrow> 's \<Rightarrow> bool" and follow :: "'r \<Rightarrow> ('c, 'a, 'r) prog set"
    and R :: "nat \<Rightarrow> 's \<Rightarrow> 's \<Rightarrow> bool" and G :: "nat \<Rightarrow> 's \<Rightarrow> 's \<Rightarrow> bool" and Q :: "nat \<Rightarrow> 'r \<Rightarrow> 's \<Rightarrow> bool" and s0 :: 's and r0 :: 'r
  assumes initial: "rg (sem t) (R t) (G t) (Return r0) (Q t) s0"
    and programs: "Q t r s \<Longrightarrow> p \<in> follow r \<Longrightarrow> rg (sem t) (R t) (G t) p (Q t) s"
    and compatible: "t \<noteq> u \<Longrightarrow> G t s s' \<Longrightarrow> R u s s'"
begin

lemma reach_rg: "prog_reach sem follow s0 r0 s f \<Longrightarrow> rg (sem t) (R t) (G t) (f t) (Q t) s"
proof (induction arbitrary: t rule: prog_reach.induct)
  case pr_start
  then show ?case by (rule initial)
next
  case (pr_begin s f u r p)
  have "Q u r s" using pr_begin.IH [of u] pr_begin.hyps(2) by auto
  then show ?case using programs pr_begin by (cases "t = u") auto
next
  case (pr_call s f u c k a s')
  have u: "G u s s'" "rg (sem u) (R u) (G u) (k a) (Q u) s'" using pr_call.IH [of u] pr_call.hyps by auto
  have "rg (sem t) (R t) (G t) (f t) (Q t) s'" if "t \<noteq> u"
    using rg_env [OF pr_call.IH [of t], of s'] compatible [OF _ u(1), of t] that by (simp add: r_into_rtranclp)
  then show ?case using u(2) by (cases "t = u") auto
qed

lemma results_hold: "prog_reach sem follow s0 r0 s f \<Longrightarrow> f t = Return r \<Longrightarrow> Q t r s"
  using reach_rg [of s f t] by auto

end

end
