(* ===== verification/PosixObjects.thy ===== *)
theory PosixObjects
  imports SystemCalls
begin

text \<open>
  What the safe wrappers of \<^verbatim>\<open>elkodon_bb/posix\<close> use of the operating system for shared memory and files, and the wrappers that both share:
  \<^verbatim>\<open>permission.rs\<close>, \<^verbatim>\<open>access_mode.rs\<close>, \<^verbatim>\<open>creation_mode.rs\<close>, and from \<^verbatim>\<open>file_descriptor.rs\<close> and \<^verbatim>\<open>file.rs\<close> what works on a file descriptor.

  The operating system has objects, each with a mode, a size and a content, and names for them; an object outlives its name. A file descriptor is identified with the object
  that it refers to. \<open>posix_sys\<close> is what POSIX documents of the calls: any call can fail, without effect, with an error number that fits the state; permissions
  need not be obeyed (a privileged process may open everything), so that nothing is concluded from a refusal that did not happen. \<open>ob_creator\<close> is the process
  that created the object. The content of a shared memory object is the value of type \<open>'v\<close> that lies at its beginning; \<open>None\<close> is memory in which no value was written yet.
\<close>

unbundle bit_operations_syntax

section \<open>Permissions and modes\<close>

type_synonym permission = "32 word"

definition NONE :: permission where "NONE = 0"
definition OWNER_READ :: permission where "OWNER_READ = 0x100"
definition OWNER_WRITE :: permission where "OWNER_WRITE = 0x80"
definition OWNER_EXEC :: permission where "OWNER_EXEC = 0x40"
definition OWNER_ALL :: permission where "OWNER_ALL = 0x1C0"
definition GROUP_READ :: permission where "GROUP_READ = 0x20"
definition GROUP_WRITE :: permission where "GROUP_WRITE = 0x10"
definition GROUP_EXEC :: permission where "GROUP_EXEC = 0x8"
definition GROUP_ALL :: permission where "GROUP_ALL = 0x38"
definition OTHERS_READ :: permission where "OTHERS_READ = 0x4"
definition OTHERS_WRITE :: permission where "OTHERS_WRITE = 0x2"
definition OTHERS_EXEC :: permission where "OTHERS_EXEC = 0x1"
definition OTHERS_ALL :: permission where "OTHERS_ALL = 0x7"
definition PERMISSION_ALL :: permission where "PERMISSION_ALL = 0x1FF"
definition SET_UID :: permission where "SET_UID = 0x800"
definition SET_GID :: permission where "SET_GID = 0x400"
definition STICKY_BIT :: permission where "STICKY_BIT = 0x200"
definition MASK :: permission where "MASK = 0xFFF"
definition UNKNOWN_PERMISSION :: permission where "UNKNOWN_PERMISSION = 0xFFFF"

definition S_IFMT :: "32 word" where "S_IFMT = 0xF000"
definition S_IFREG :: "32 word" where "S_IFREG = 0x8000"
definition S_IFCHR :: "32 word" where "S_IFCHR = 0x2000"
definition S_IFBLK :: "32 word" where "S_IFBLK = 0x6000"
definition S_IFDIR :: "32 word" where "S_IFDIR = 0x4000"
definition S_IFLNK :: "32 word" where "S_IFLNK = 0xA000"
definition S_IFSOCK :: "32 word" where "S_IFSOCK = 0xC000"
definition S_IFIFO :: "32 word" where "S_IFIFO = 0x1000"

lemmas file_type_defs = S_IFMT_def S_IFREG_def S_IFCHR_def S_IFBLK_def S_IFDIR_def S_IFLNK_def S_IFSOCK_def S_IFIFO_def

lemmas permission_defs = NONE_def OWNER_READ_def OWNER_WRITE_def OWNER_EXEC_def OWNER_ALL_def GROUP_READ_def GROUP_WRITE_def GROUP_EXEC_def GROUP_ALL_def
  OTHERS_READ_def OTHERS_WRITE_def OTHERS_EXEC_def OTHERS_ALL_def PERMISSION_ALL_def UNKNOWN_PERMISSION_def SET_UID_def SET_GID_def STICKY_BIT_def MASK_def

text \<open>The constants \<^verbatim>\<open>S_IRUSR\<close> and so on have the values of the corresponding permissions, as POSIX demands; those of the file types are the values of all
  supported platforms.\<close>

definition take_bits :: "32 word \<Rightarrow> permission \<Rightarrow> permission \<Rightarrow> permission" where
  "take_bits mode flag p = (if mode AND flag \<noteq> 0 then p OR flag else p)"

definition as_permission :: "32 word \<Rightarrow> permission" where
  "as_permission mode =
     (let owner = mode AND 0x1C0; group = mode AND 0x38; others = mode AND 0x7
      in take_bits mode STICKY_BIT (take_bits mode SET_GID (take_bits mode SET_UID
        (take_bits others OTHERS_EXEC (take_bits others OTHERS_WRITE (take_bits others OTHERS_READ
        (take_bits group GROUP_EXEC (take_bits group GROUP_WRITE (take_bits group GROUP_READ
        (take_bits owner OWNER_EXEC (take_bits owner OWNER_WRITE (take_bits owner OWNER_READ NONE))))))))))))"

definition perm_has :: "permission \<Rightarrow> permission \<Rightarrow> bool" where
  "perm_has p rhs \<longleftrightarrow> p AND rhs \<noteq> NONE"

definition as_mode :: "permission \<Rightarrow> 32 word" where
  "as_mode p = p"

datatype file_type = FtFile | FtCharacter | FtBlock | FtDirectory | FtSymbolicLink | FtSocket | FtFiFo | FtUnknown

definition from_mode_t :: "32 word \<Rightarrow> file_type" where
  "from_mode_t value =
     (let v = value AND S_IFMT in
      if v = S_IFREG then FtFile else if v = S_IFCHR then FtCharacter else if v = S_IFBLK then FtBlock else if v = S_IFDIR then FtDirectory
      else if v = S_IFLNK then FtSymbolicLink else if v = S_IFSOCK then FtSocket else if v = S_IFIFO then FtFiFo else FtUnknown)"

datatype access_mode = AccessNone | AccessRead | AccessWrite | AccessReadWrite
datatype creation_mode = CreateExclusive | PurgeAndCreate | OpenOrCreate

text \<open>The flags of \<^verbatim>\<open>open\<close> and \<^verbatim>\<open>mmap\<close>, as the set of the constants that are combined.\<close>

datatype oflag = O_CREAT | O_EXCL | O_RDONLY | O_WRONLY | O_RDWR
datatype protflag = PROT_READ | PROT_WRITE

fun access_as_oflag :: "access_mode \<Rightarrow> oflag list" where
  "access_as_oflag AccessNone = []" | "access_as_oflag AccessRead = [O_RDONLY]" | "access_as_oflag AccessWrite = [O_WRONLY]"
| "access_as_oflag AccessReadWrite = [O_RDWR]"

fun as_protflag :: "access_mode \<Rightarrow> protflag list" where
  "as_protflag AccessNone = []" | "as_protflag AccessRead = [PROT_READ]" | "as_protflag AccessWrite = [PROT_WRITE]"
| "as_protflag AccessReadWrite = [PROT_READ, PROT_WRITE]"

fun creation_as_oflag :: "creation_mode \<Rightarrow> oflag list" where
  "creation_as_oflag PurgeAndCreate = [O_CREAT, O_EXCL]" | "creation_as_oflag CreateExclusive = [O_CREAT, O_EXCL]"
| "creation_as_oflag OpenOrCreate = [O_CREAT]"

section \<open>The operating system\<close>

datatype os_error =
  Eacces | Eexist | Enoent | Einval | Emfile | Enfile | Enametoolong | Eagain | Eintr | Eio | Eperm | Erofs | Ebadf | Efbig | Eoverflow | Enospc | Enobufs | Enxio
| Eisdir | Eloop | Enomem | Ebusy | Espipe | Enotdir | Emlink | Enotempty | Edeadlk | Eownerdead | Enotrecoverable | Etimedout | Enosys | Enotsup | Eother int

type_synonym os_path = "u8 list"

record 'v os_object =
  ob_creator :: nat
  ob_mode :: "32 word"
  ob_size :: nat
  ob_value :: "'v option"
  ob_data :: "u8 list"

record 'v os_state =
  os_shm :: "os_path \<Rightarrow> nat option"
  os_files :: "os_path \<Rightarrow> nat option"
  os_nodes :: "os_path \<Rightarrow> 32 word option"
  os_objects :: "nat \<Rightarrow> 'v os_object"
  os_next :: nat

datatype 'v sys_call =
  Sys_shm_open os_path "oflag list" "32 word" | Sys_shm_unlink os_path
| Sys_open os_path "oflag list" "32 word" | Sys_remove os_path | Sys_access os_path | Sys_mkdir os_path "32 word" | Sys_rmdir os_path
| Sys_stat os_path | Sys_opendir os_path | Sys_closedir os_path | Sys_scandir os_path | Sys_fsync nat
| Sys_fcntl nat | Sys_fstat nat | Sys_ftruncate nat usize | Sys_fchmod nat "32 word" | Sys_close nat
| Sys_mmap nat usize "protflag list" | Sys_munmap nat usize | Sys_mlock nat usize | Sys_munlock nat usize | Sys_memset nat usize
| Sys_lseek nat usize | Sys_read nat usize usize | Sys_write nat usize "u8 list"
| Sys_memory nat "'v option \<Rightarrow> 'v option \<times> bool"

datatype sys_answer = Failed os_error | Success | Descriptor nat | Attributes "32 word" nat | Address nat | Count nat | Bytes "u8 list" | Flag bool | Names "os_path list"

definition object_at :: "nat \<Rightarrow> ('v os_object \<Rightarrow> 'v os_object) \<Rightarrow> 'v os_state \<Rightarrow> 'v os_state" where
  "object_at ob f s = s\<lparr>os_objects := (os_objects s)(ob := f (os_objects s ob))\<rparr>"

definition new_object :: "nat \<Rightarrow> 32 word \<Rightarrow> 'v os_object" where
  "new_object t mode = \<lparr>ob_creator = t, ob_mode = mode, ob_size = 0, ob_value = None, ob_data = []\<rparr>"

text \<open>The mode of a regular file with these permissions.\<close>

definition regular :: "32 word \<Rightarrow> 32 word" where
  "regular m = (m AND NOT S_IFMT) OR S_IFREG"

definition add_object :: "nat \<Rightarrow> 32 word \<Rightarrow> 'v os_state \<Rightarrow> 'v os_state" where
  "add_object t mode s = s\<lparr>os_objects := (os_objects s)(os_next s := new_object t (regular mode)), os_next := Suc (os_next s)\<rparr>"

definition shm_name :: "os_path \<Rightarrow> nat option \<Rightarrow> 'v os_state \<Rightarrow> 'v os_state" where
  "shm_name p x s = s\<lparr>os_shm := (os_shm s)(p := x)\<rparr>"

definition file_name_to :: "os_path \<Rightarrow> nat option \<Rightarrow> 'v os_state \<Rightarrow> 'v os_state" where
  "file_name_to p x s = s\<lparr>os_files := (os_files s)(p := x)\<rparr>"

text \<open>Bytes written at a position, with zeros in the gap.\<close>

definition overwrite :: "u8 list \<Rightarrow> nat \<Rightarrow> u8 list \<Rightarrow> u8 list" where
  "overwrite old at bs = take at (old @ replicate at 0) @ bs @ drop (at + length bs) old"

definition resize :: "nat \<Rightarrow> u8 list \<Rightarrow> u8 list" where
  "resize n bs = take n (bs @ replicate n 0)"

text \<open>Error numbers that say something about names.\<close>

definition may_fail :: "'v sys_call \<Rightarrow> os_error \<Rightarrow> 'v os_state \<Rightarrow> bool" where
  "may_fail c e s \<longleftrightarrow> (case c of
     Sys_shm_open p fl m \<Rightarrow> (e = Eexist \<longrightarrow> os_shm s p \<noteq> None \<and> O_EXCL \<in> set fl) \<and> (e = Enoent \<longrightarrow> os_shm s p = None \<and> O_CREAT \<notin> set fl)
   | Sys_shm_unlink p \<Rightarrow> (e = Enoent \<longrightarrow> os_shm s p = None)
   | Sys_open p fl m \<Rightarrow> (e = Eexist \<longrightarrow> os_files s p \<noteq> None \<and> O_EXCL \<in> set fl)
   | Sys_remove p \<Rightarrow> (e = Enoent \<longrightarrow> os_files s p = None)
   | Sys_stat p \<Rightarrow> (e = Enoent \<longrightarrow> os_nodes s p = None \<and> os_files s p = None)
   | Sys_memory ob f \<Rightarrow> False
   | _ \<Rightarrow> True)"

text \<open>The answers of a call that succeeds, and what it does.\<close>

primrec sys_ok :: "'v sys_call \<Rightarrow> 32 word \<Rightarrow> nat \<Rightarrow> 'v os_state \<Rightarrow> sys_answer \<Rightarrow> 'v os_state \<Rightarrow> bool" where
  "sys_ok (Sys_shm_open p fl m) umask t s a s' \<longleftrightarrow>
     (\<exists>ob. os_shm s p = Some ob \<and> O_EXCL \<notin> set fl \<and> a = Descriptor ob \<and> s' = s)
   \<or> os_shm s p = None \<and> O_CREAT \<in> set fl \<and> a = Descriptor (os_next s) \<and> s' = shm_name p (Some (os_next s)) (add_object t (m AND NOT umask) s)"
| "sys_ok (Sys_shm_unlink p) umask t s a s' \<longleftrightarrow> os_shm s p \<noteq> None \<and> a = Success \<and> s' = shm_name p None s"
| "sys_ok (Sys_open p fl m) umask t s a s' \<longleftrightarrow>
     (\<exists>ob. os_files s p = Some ob \<and> O_EXCL \<notin> set fl \<and> a = Descriptor ob \<and> s' = s)
   \<or> os_files s p = None \<and> O_CREAT \<in> set fl \<and> a = Descriptor (os_next s) \<and> s' = file_name_to p (Some (os_next s)) (add_object t (m AND NOT umask) s)"
| "sys_ok (Sys_remove p) umask t s a s' \<longleftrightarrow> os_files s p \<noteq> None \<and> a = Success \<and> s' = file_name_to p None s"
| "sys_ok (Sys_access p) umask t s a s' \<longleftrightarrow> os_files s p \<noteq> None \<and> a = Success \<and> s' = s"
| "sys_ok (Sys_mkdir p m) umask t s a s' \<longleftrightarrow> os_nodes s p = None \<and> os_files s p = None \<and> a = Success
     \<and> s' = s\<lparr>os_nodes := (os_nodes s)(p := Some ((m AND NOT umask AND NOT S_IFMT) OR S_IFDIR))\<rparr>"
| "sys_ok (Sys_rmdir p) umask t s a s' \<longleftrightarrow> os_nodes s p \<noteq> None \<and> a = Success \<and> s' = s\<lparr>os_nodes := (os_nodes s)(p := None)\<rparr>"
| "sys_ok (Sys_stat p) umask t s a s' \<longleftrightarrow> s' = s \<and> ((\<exists>m. os_nodes s p = Some m \<and> a = Attributes m 0)
     \<or> (\<exists>ob. os_files s p = Some ob \<and> a = Attributes (ob_mode (os_objects s ob)) (ob_size (os_objects s ob))))"
| "sys_ok (Sys_opendir p) umask t s a s' \<longleftrightarrow> os_nodes s p \<noteq> None \<and> a = Success \<and> s' = s"
| "sys_ok (Sys_closedir p) umask t s a s' \<longleftrightarrow> a = Success \<and> s' = s"
| "sys_ok (Sys_scandir p) umask t s a s' \<longleftrightarrow> (\<exists>ns. a = Names ns) \<and> s' = s"
| "sys_ok (Sys_fsync ob) umask t s a s' \<longleftrightarrow> a = Success \<and> s' = s"
| "sys_ok (Sys_fcntl ob) umask t s a s' \<longleftrightarrow> a = Success \<and> s' = s"
| "sys_ok (Sys_fstat ob) umask t s a s' \<longleftrightarrow> a = Attributes (ob_mode (os_objects s ob)) (ob_size (os_objects s ob)) \<and> s' = s"
| "sys_ok (Sys_ftruncate ob n) umask t s a s' \<longleftrightarrow> a = Success \<and> s' = object_at ob (\<lambda>x. x\<lparr>ob_size := n, ob_data := resize n (ob_data x)\<rparr>) s"
| "sys_ok (Sys_fchmod ob m) umask t s a s' \<longleftrightarrow> a = Success \<and> s' = object_at ob (\<lambda>x. x\<lparr>ob_mode := regular m\<rparr>) s"
| "sys_ok (Sys_close ob) umask t s a s' \<longleftrightarrow> a = Success \<and> s' = s"
| "sys_ok (Sys_mmap ob n fl) umask t s a s' \<longleftrightarrow> 0 < n \<and> (\<exists>b. 0 < b \<and> a = Address b) \<and> s' = s"
| "sys_ok (Sys_munmap b n) umask t s a s' \<longleftrightarrow> a = Success \<and> s' = s"
| "sys_ok (Sys_mlock b n) umask t s a s' \<longleftrightarrow> a = Success \<and> s' = s"
| "sys_ok (Sys_munlock b n) umask t s a s' \<longleftrightarrow> a = Success \<and> s' = s"
| "sys_ok (Sys_memset ob n) umask t s a s' \<longleftrightarrow> a = Success \<and> s' = s"
| "sys_ok (Sys_lseek ob n) umask t s a s' \<longleftrightarrow> a = Count n \<and> s' = s"
| "sys_ok (Sys_read ob at len) umask t s a s' \<longleftrightarrow> (\<exists>n \<le> len. a = Bytes (take n (drop at (ob_data (os_objects s ob))))) \<and> s' = s"
| "sys_ok (Sys_write ob at bs) umask t s a s' \<longleftrightarrow> (\<exists>n \<le> length bs. a = Count n
     \<and> s' = object_at ob (\<lambda>x. let d = overwrite (ob_data x) at (take n bs) in x\<lparr>ob_data := d, ob_size := length d\<rparr>) s)"
| "sys_ok (Sys_memory ob f) umask t s a s' \<longleftrightarrow> (case f (ob_value (os_objects s ob)) of (v, b) \<Rightarrow> a = Flag b \<and> s' = object_at ob (\<lambda>x. x\<lparr>ob_value := v\<rparr>) s)"

definition posix_sys :: "32 word \<Rightarrow> nat \<Rightarrow> 'v os_state \<Rightarrow> 'v sys_call \<Rightarrow> sys_answer \<Rightarrow> 'v os_state \<Rightarrow> bool" where
  "posix_sys umask t s c a s' \<longleftrightarrow> (\<exists>e. may_fail c e s \<and> a = Failed e \<and> s' = s) \<or> sys_ok c umask t s a s'"

lemmas posix_sys_simps = posix_sys_def may_fail_def

text \<open>An operating system that refuses only what POSIX demands it to refuse.\<close>

primrec reliable_os :: "32 word \<Rightarrow> nat \<Rightarrow> 'v os_state \<Rightarrow> 'v sys_call \<Rightarrow> sys_answer \<times> 'v os_state" where
  "reliable_os umask t s (Sys_shm_open p fl m) = (case os_shm s p of
     Some ob \<Rightarrow> if O_EXCL \<in> set fl then (Failed Eexist, s) else (Descriptor ob, s)
   | None \<Rightarrow> if O_CREAT \<in> set fl then (Descriptor (os_next s), shm_name p (Some (os_next s)) (add_object t (m AND NOT umask) s)) else (Failed Enoent, s))"
| "reliable_os umask t s (Sys_shm_unlink p) = (if os_shm s p = None then (Failed Enoent, s) else (Success, shm_name p None s))"
| "reliable_os umask t s (Sys_open p fl m) = (case os_files s p of
     Some ob \<Rightarrow> if O_EXCL \<in> set fl then (Failed Eexist, s) else (Descriptor ob, s)
   | None \<Rightarrow> if O_CREAT \<in> set fl then (Descriptor (os_next s), file_name_to p (Some (os_next s)) (add_object t (m AND NOT umask) s)) else (Failed Enoent, s))"
| "reliable_os umask t s (Sys_remove p) = (if os_files s p = None then (Failed Enoent, s) else (Success, file_name_to p None s))"
| "reliable_os umask t s (Sys_access p) = (if os_files s p = None then Failed Enoent else Success, s)"
| "reliable_os umask t s (Sys_mkdir p m) = (if os_nodes s p = None \<and> os_files s p = None
     then (Success, s\<lparr>os_nodes := (os_nodes s)(p := Some ((m AND NOT umask AND NOT S_IFMT) OR S_IFDIR))\<rparr>) else (Failed Eexist, s))"
| "reliable_os umask t s (Sys_rmdir p) = (if os_nodes s p = None then (Failed Enoent, s) else (Success, s\<lparr>os_nodes := (os_nodes s)(p := None)\<rparr>))"
| "reliable_os umask t s (Sys_stat p) = (case os_nodes s p of Some m \<Rightarrow> (Attributes m 0, s)
     | None \<Rightarrow> (case os_files s p of Some ob \<Rightarrow> (Attributes (ob_mode (os_objects s ob)) (ob_size (os_objects s ob)), s) | None \<Rightarrow> (Failed Enoent, s)))"
| "reliable_os umask t s (Sys_opendir p) = (if os_nodes s p = None then Failed Enoent else Success, s)"
| "reliable_os umask t s (Sys_scandir p) = (Names [], s)"
| "reliable_os umask t s (Sys_fstat ob) = (Attributes (ob_mode (os_objects s ob)) (ob_size (os_objects s ob)), s)"
| "reliable_os umask t s (Sys_ftruncate ob n) = (Success, object_at ob (\<lambda>x. x\<lparr>ob_size := n, ob_data := resize n (ob_data x)\<rparr>) s)"
| "reliable_os umask t s (Sys_fchmod ob m) = (Success, object_at ob (\<lambda>x. x\<lparr>ob_mode := regular m\<rparr>) s)"
| "reliable_os umask t s (Sys_mmap ob n fl) = (if n = 0 then Failed Einval else Address 4096, s)"
| "reliable_os umask t s (Sys_lseek ob n) = (Count n, s)"
| "reliable_os umask t s (Sys_read ob at len) = (Bytes (take len (drop at (ob_data (os_objects s ob)))), s)"
| "reliable_os umask t s (Sys_write ob at bs) =
     (Count (length bs), object_at ob (\<lambda>x. let d = overwrite (ob_data x) at bs in x\<lparr>ob_data := d, ob_size := length d\<rparr>) s)"
| "reliable_os umask t s (Sys_memory ob f) = (case f (ob_value (os_objects s ob)) of (v, b) \<Rightarrow> (Flag b, object_at ob (\<lambda>x. x\<lparr>ob_value := v\<rparr>) s))"
| "reliable_os umask t s (Sys_closedir p) = (Success, s)"
| "reliable_os umask t s (Sys_fsync ob) = (Success, s)"
| "reliable_os umask t s (Sys_fcntl ob) = (Success, s)"
| "reliable_os umask t s (Sys_close ob) = (Success, s)"
| "reliable_os umask t s (Sys_munmap b n) = (Success, s)"
| "reliable_os umask t s (Sys_mlock b n) = (Success, s)"
| "reliable_os umask t s (Sys_munlock b n) = (Success, s)"
| "reliable_os umask t s (Sys_memset ob n) = (Success, s)"

lemma reliable_os_posix: "posix_sys umask t s c (fst (reliable_os umask t s c)) (snd (reliable_os umask t s c))"
  by (cases c) (auto simp: posix_sys_simps split: option.split prod.split)

section \<open>What works on a file descriptor\<close>

type_synonym ('v, 'r) sys_prog = "('v sys_call, sys_answer, 'r) prog"

text \<open>\<^verbatim>\<open>FileDescriptor::new\<close> on what a call returned; the error number is that of the call that failed last.\<close>

definition fd_new :: "'v sys_call \<Rightarrow> ('v, os_error + nat) sys_prog" where
  "fd_new c = Call c (\<lambda>a. case a of
     Descriptor fd \<Rightarrow> Call (Sys_fcntl fd) (\<lambda>b. case b of Failed e \<Rightarrow> Return (Inl e) | _ \<Rightarrow> Return (Inr fd))
   | Failed e \<Rightarrow> Return (Inl e)
   | _ \<Rightarrow> Return (Inl (Eother 0)))"

text \<open>The loop of \<^verbatim>\<open>close\<close> is one step, its last call: a call that fails with \<^verbatim>\<open>EINTR\<close> or \<^verbatim>\<open>EIO\<close> is repeated, without limit. Other errors, for which
  the loop panics, do not occur for a descriptor that is open.\<close>

definition fd_drop :: "nat \<Rightarrow> ('v, unit) sys_prog" where
  "fd_drop fd = Call (Sys_close fd) (\<lambda>_. Return ())"

text \<open>A call that has no result but success.\<close>

definition sys_unit :: "(os_error \<Rightarrow> 'e) \<Rightarrow> 'v sys_call \<Rightarrow> ('v, ('e, unit) outcome) sys_prog" where
  "sys_unit h c = Call c (\<lambda>a. case a of Failed e \<Rightarrow> Return (Err (h e)) | _ \<Rightarrow> Return (Ok ()))"

datatype file_truncate_error = TruncateInterrupt | TruncateSizeTooBig | TruncateIOerror | FileNotOpenedForWriting | TruncateReadOnlyFilesystem | TruncateUnknownError
datatype file_stat_error = StatInvalidFileDescriptor | StatIOerror | StatFileTooBig | StatUnknownError
datatype file_set_permission_error = PermissionInvalidFileDescriptor | PermissionInsufficientPermissions | PermissionReadOnlyFilesystem | PermissionUnknownError

definition truncate_errno :: "os_error \<Rightarrow> file_truncate_error" where
  "truncate_errno e = (case e of Eintr \<Rightarrow> TruncateInterrupt | Einval \<Rightarrow> TruncateSizeTooBig | Efbig \<Rightarrow> TruncateSizeTooBig | Eio \<Rightarrow> TruncateIOerror
     | Ebadf \<Rightarrow> FileNotOpenedForWriting | Erofs \<Rightarrow> TruncateReadOnlyFilesystem | _ \<Rightarrow> TruncateUnknownError)"

definition file_truncate :: "nat \<Rightarrow> usize \<Rightarrow> ('v, (file_truncate_error, unit) outcome) sys_prog" where
  "file_truncate fd n = sys_unit truncate_errno (Sys_ftruncate fd n)"

definition stat_errno :: "os_error \<Rightarrow> file_stat_error" where
  "stat_errno e = (case e of Ebadf \<Rightarrow> StatInvalidFileDescriptor | Eio \<Rightarrow> StatIOerror | Eoverflow \<Rightarrow> StatFileTooBig | _ \<Rightarrow> StatUnknownError)"

definition acquire_attributes :: "nat \<Rightarrow> ('v, (file_stat_error, 32 word \<times> nat) outcome) sys_prog" where
  "acquire_attributes fd = Call (Sys_fstat fd) (\<lambda>a. case a of
     Attributes mode n \<Rightarrow> Return (Ok (mode, n)) | Failed e \<Rightarrow> Return (Err (stat_errno e)) | _ \<Rightarrow> Return (Err StatUnknownError))"

record metadata =
  md_file_type :: file_type
  md_size :: nat
  md_permission :: permission

definition metadata_create :: "32 word \<Rightarrow> nat \<Rightarrow> metadata" where
  "metadata_create mode n = \<lparr>md_file_type = from_mode_t mode, md_size = n, md_permission = as_permission mode\<rparr>"

definition fd_metadata :: "nat \<Rightarrow> ('v, (file_stat_error, metadata) outcome) sys_prog" where
  "fd_metadata fd = pmap (omap (\<lambda>(mode, n). metadata_create mode n)) (acquire_attributes fd)"

definition fd_permission :: "nat \<Rightarrow> ('v, (file_stat_error, permission) outcome) sys_prog" where
  "fd_permission fd = pmap (omap (\<lambda>(mode, n). as_permission mode)) (acquire_attributes fd)"

definition set_permission_errno :: "os_error \<Rightarrow> file_set_permission_error" where
  "set_permission_errno e = (case e of Ebadf \<Rightarrow> PermissionInvalidFileDescriptor | Eperm \<Rightarrow> PermissionInsufficientPermissions
     | Erofs \<Rightarrow> PermissionReadOnlyFilesystem | _ \<Rightarrow> PermissionUnknownError)"

definition fd_set_permission :: "nat \<Rightarrow> permission \<Rightarrow> ('v, (file_set_permission_error, unit) outcome) sys_prog" where
  "fd_set_permission fd p = sys_unit set_permission_errno (Sys_fchmod fd (as_mode p))"

section \<open>Permissions survive the system\<close>

lemma and_single_bit: "(w :: 32 word) AND 2 ^ k \<noteq> 0 \<longleftrightarrow> bit w k" if "k < 32"
proof -
  have "w AND 2 ^ k = (if bit w k then 2 ^ k else 0)" by (rule bit_word_eqI) (auto simp: bit_simps that)
  moreover have "bit ((2 :: 32 word) ^ k) k" using that by (simp add: bit_simps)
  then have "(2 :: 32 word) ^ k \<noteq> 0" using that by auto
  ultimately show ?thesis by simp
qed

lemma take_bits_bit: "k < 32 \<Longrightarrow> bit (take_bits mode (2 ^ k) p) n \<longleftrightarrow> bit p n \<or> n = k \<and> bit mode k"
  by (auto simp: take_bits_def and_single_bit bit_simps)

text \<open>Every mode is read back as its twelve permission bits; in particular a permission survives \<^verbatim>\<open>fchmod\<close> and \<^verbatim>\<open>fstat\<close>.\<close>

lemma as_permission_mask: "as_permission mode = mode AND MASK"
proof -
  note tb = take_bits_bit [of 0, simplified] take_bits_bit [of 1, simplified] take_bits_bit [of 2, simplified] take_bits_bit [of 3, simplified]
    take_bits_bit [of 4, simplified] take_bits_bit [of 5, simplified] take_bits_bit [of 6, simplified] take_bits_bit [of 7, simplified]
    take_bits_bit [of 8, simplified] take_bits_bit [of 9, simplified] take_bits_bit [of 10, simplified] take_bits_bit [of 11, simplified]
  have parts: "(0x1C0 :: 32 word) = push_bit 6 (mask 3)" "(0x38 :: 32 word) = push_bit 3 (mask 3)" "(7 :: 32 word) = mask 3" "(0xFFF :: 32 word) = mask 12"
    by (simp_all add: mask_eq_exp_minus_1 push_bit_eq_mult)
  show ?thesis
  proof (rule bit_word_eqI)
    fix n assume n: "n < LENGTH(32)"
    have "bit (as_permission mode) n \<longleftrightarrow> n \<in> {0, 1, 2, 3, 4, 5, 6, 7, 8, 9, 10, 11} \<and> bit mode n"
      unfolding as_permission_def Let_def permission_defs tb parts by (auto simp: bit_simps)
    also have "n \<in> {0, 1, 2, 3, 4, 5, 6, 7, 8, 9, 10, 11} \<longleftrightarrow> n < 12" by (simp only: insert_iff empty_iff) presburger
    finally show "bit (as_permission mode) n = bit (mode AND MASK) n" unfolding MASK_def parts using n by (auto simp: bit_simps)
  qed
qed

lemma mode_bits: "bit S_IFMT n \<longleftrightarrow> 12 \<le> n \<and> n < 16" "bit S_IFREG n \<longleftrightarrow> n = 15" "bit MASK n \<longleftrightarrow> n < 12"
proof -
  have eqs: "S_IFMT = push_bit 12 (mask 4)" "MASK = mask 12" "S_IFREG = 2 ^ 15"
    by (simp_all add: mask_eq_exp_minus_1 push_bit_eq_mult S_IFMT_def MASK_def S_IFREG_def)
  show "bit S_IFMT n \<longleftrightarrow> 12 \<le> n \<and> n < 16" "bit MASK n \<longleftrightarrow> n < 12" unfolding eqs(1,2) by (auto simp: bit_simps)
  show "bit S_IFREG n \<longleftrightarrow> n = 15" unfolding eqs(3) bit_exp_iff by auto
qed

lemma as_permission_regular [simp]: "as_permission (regular m) = as_permission m"
  unfolding as_permission_mask regular_def by (rule bit_word_eqI) (auto simp: bit_simps mode_bits)

lemma from_mode_t_regular [simp]: "from_mode_t (regular m) = FtFile"
proof -
  have "regular m AND S_IFMT = S_IFREG" unfolding regular_def by (rule bit_word_eqI) (auto simp: bit_simps mode_bits)
  then show ?thesis by (simp add: from_mode_t_def)
qed

lemma permission_roundtrip: "p AND MASK = p \<Longrightarrow> as_permission (as_mode p) = p"
  by (simp add: as_permission_mask as_mode_def)

end
