(* ===== verification/PosixSharedMemory.thy ===== *)
theory PosixSharedMemory
  imports PosixObjects
begin

text \<open>
  \<^verbatim>\<open>elkodon_bb/posix/src/shared_memory.rs\<close>: creating, opening and removing POSIX shared memory, as programs over system calls. What is dropped on the way
  out of a call is part of the call: the file descriptor is closed, the memory is unmapped, and an owner removes the name. The signal handler around the
  zeroing of the memory is the answer of \<open>Sys_memset\<close>. The list of all shared memory objects, which comes from a directory of the system, is left out.
\<close>

section \<open>Builder\<close>

datatype shm_remove_error = ShmRemoveInsufficientPermissions | ShmRemoveDoesNotExist | ShmRemoveUnknownError
datatype memory_lock_error = InvalidAddressRange | UnableToLock | AddressNotAMultipleOfThePageSize | LockInsufficientPermissions | LockUnknownError

datatype shm_creation_error =
  SizeDoesNotFit | InsufficientMemory | InsufficientMemoryToBeMemoryLocked | UnsupportedSizeOfZero | InsufficientPermissions | MappedRegionLimitReached
| PerProcessFileHandleLimitReached | SystemWideFileHandleLimitReached | NameTooLong | InvalidName | AlreadyExist | DoesNotExist | UnableToMapAtEnforcedBaseAddress
| ShmUnknownError | ShmFileTruncateError file_truncate_error | ShmFileStatError file_stat_error | ShmMemoryLockCreationError memory_lock_error | ShmRemoveError shm_remove_error

record shm_config =
  sh_name :: "u8 list"
  sh_size :: usize
  sh_is_memory_locked :: bool
  sh_has_ownership :: bool
  sh_permission :: permission
  sh_creation_mode :: "creation_mode option"
  sh_zero_memory :: bool
  sh_access_mode :: access_mode
  sh_enforce_base_address :: "nat option"

definition shm_builder_new :: "u8 list \<Rightarrow> shm_config" where
  "shm_builder_new name = \<lparr>sh_name = name, sh_size = 0, sh_is_memory_locked = False, sh_has_ownership = True, sh_permission = OWNER_ALL,
     sh_creation_mode = None, sh_zero_memory = True, sh_access_mode = AccessNone, sh_enforce_base_address = None\<rparr>"

definition shm_creation_mode :: "creation_mode \<Rightarrow> shm_config \<Rightarrow> shm_config" where
  "shm_creation_mode m b = b\<lparr>sh_access_mode := AccessReadWrite, sh_creation_mode := Some m\<rparr>"

record shared_memory =
  sm_name :: "u8 list"
  sm_size :: usize
  sm_base_address :: nat
  sm_has_ownership :: bool
  sm_file_descriptor :: nat
  sm_memory_lock :: bool

section \<open>System calls\<close>

text \<open>\<^verbatim>\<open>FilePath::from_path_and_file\<close> on the root and a file name, which always fits.\<close>

definition shm_path :: "u8 list \<Rightarrow> os_path" where
  "shm_path name = 47 # name"

definition shm_create_errno :: "os_error \<Rightarrow> shm_creation_error" where
  "shm_create_errno e = (case e of Eacces \<Rightarrow> InsufficientPermissions | Einval \<Rightarrow> InvalidName | Eexist \<Rightarrow> AlreadyExist
     | Emfile \<Rightarrow> PerProcessFileHandleLimitReached | Enfile \<Rightarrow> SystemWideFileHandleLimitReached | Enametoolong \<Rightarrow> NameTooLong | _ \<Rightarrow> ShmUnknownError)"

definition shm_create_fd :: "shm_config \<Rightarrow> ('v, (shm_creation_error, nat) outcome) sys_prog" where
  "shm_create_fd b = pmap (\<lambda>r. case r of Inr fd \<Rightarrow> Ok fd | Inl e \<Rightarrow> Err (shm_create_errno e))
     (fd_new (Sys_shm_open (shm_path (sh_name b)) (creation_as_oflag CreateExclusive @ access_as_oflag (sh_access_mode b)) (as_mode (sh_permission b))))"

definition shm_open_errno :: "os_error \<Rightarrow> shm_creation_error" where
  "shm_open_errno e = (case e of Enoent \<Rightarrow> DoesNotExist | Eacces \<Rightarrow> InsufficientPermissions | Einval \<Rightarrow> InvalidName
     | Emfile \<Rightarrow> PerProcessFileHandleLimitReached | Enfile \<Rightarrow> SystemWideFileHandleLimitReached | Enametoolong \<Rightarrow> NameTooLong | _ \<Rightarrow> ShmUnknownError)"

definition shm_open_fd :: "shm_config \<Rightarrow> ('v, (shm_creation_error, nat) outcome) sys_prog" where
  "shm_open_fd b = pmap (\<lambda>r. case r of Inr fd \<Rightarrow> Ok fd | Inl e \<Rightarrow> Err (shm_open_errno e))
     (fd_new (Sys_shm_open (shm_path (sh_name b)) (access_as_oflag (sh_access_mode b)) (as_mode NONE)))"

definition mmap_errno :: "os_error \<Rightarrow> shm_creation_error" where
  "mmap_errno e = (case e of Eagain \<Rightarrow> InsufficientMemoryToBeMemoryLocked | Einval \<Rightarrow> UnsupportedSizeOfZero | Emfile \<Rightarrow> MappedRegionLimitReached | _ \<Rightarrow> ShmUnknownError)"

definition shm_mmap :: "nat \<Rightarrow> shm_config \<Rightarrow> ('v, (shm_creation_error, nat) outcome) sys_prog" where
  "shm_mmap fd b = Call (Sys_mmap fd (sh_size b) (as_protflag (sh_access_mode b))) (\<lambda>a. case a of
     Address base \<Rightarrow> Return (Ok base) | Failed e \<Rightarrow> Return (Err (mmap_errno e)) | _ \<Rightarrow> Return (Err ShmUnknownError))"

datatype unlink_mode = QuietWhenNotExisting | PrintErrorWhenNotExisting

definition shm_unlink :: "u8 list \<Rightarrow> unlink_mode \<Rightarrow> ('v, (shm_remove_error, unit) outcome) sys_prog" where
  "shm_unlink name mode = Call (Sys_shm_unlink (shm_path name)) (\<lambda>a. case a of
     Failed e \<Rightarrow> Return (case e of
         Eacces \<Rightarrow> Err ShmRemoveInsufficientPermissions
       | Enoent \<Rightarrow> (if mode = PrintErrorWhenNotExisting then Err ShmRemoveDoesNotExist else Ok ())
       | _ \<Rightarrow> Err ShmRemoveUnknownError)
   | _ \<Rightarrow> Return (Ok ()))"

section \<open>Operations\<close>

text \<open>\<^verbatim>\<open>MemoryLock::new\<close> and \<^verbatim>\<open>drop\<close>, of \<^verbatim>\<open>memory_lock.rs\<close>.\<close>

definition memory_lock_errno :: "os_error \<Rightarrow> memory_lock_error" where
  "memory_lock_errno e = (case e of Enomem \<Rightarrow> InvalidAddressRange | Eagain \<Rightarrow> UnableToLock | Einval \<Rightarrow> AddressNotAMultipleOfThePageSize
     | Eperm \<Rightarrow> LockInsufficientPermissions | _ \<Rightarrow> LockUnknownError)"

definition memory_lock_drop :: "nat \<Rightarrow> usize \<Rightarrow> ('v, ('e, unit) outcome) sys_prog" where
  "memory_lock_drop address len = Call (Sys_munlock address len) (\<lambda>a. case a of Failed _ \<Rightarrow> Return Panic | _ \<Rightarrow> Return (Ok ()))"

text \<open>\<^verbatim>\<open>Drop\<close>, then the fields. The name of an owner is removed whatever it stands for by now; a failure is only logged.\<close>

definition shm_drop :: "shared_memory \<Rightarrow> ('v, ('e, unit) outcome) sys_prog" where
  "shm_drop m = Call (Sys_munmap (sm_base_address m) (sm_size m)) (\<lambda>a. case a of
     Failed _ \<Rightarrow> Return Panic
   | _ \<Rightarrow>
       pbind (if sm_has_ownership m then pmap (\<lambda>_. ()) (shm_unlink (sm_name m) PrintErrorWhenNotExisting) else Return ()) (\<lambda>_.
       pbind (fd_drop (sm_file_descriptor m)) (\<lambda>_.
       if sm_memory_lock m then memory_lock_drop (sm_base_address m) (sm_size m) else Return (Ok ()))))"

text \<open>A call that returns an error while it owns something: the error is returned after the drop, unless the drop panics.\<close>

definition fail_after :: "('v, unit) sys_prog \<Rightarrow> 'e \<Rightarrow> ('v, ('e, 'a) outcome) sys_prog" where
  "fail_after d e = pbind d (\<lambda>_. Return (Err e))"

definition shm_fail :: "shared_memory \<Rightarrow> 'e \<Rightarrow> ('v, ('e, 'a) outcome) sys_prog" where
  "shm_fail m e = pbind (shm_drop m :: ('v, (unit, unit) outcome) sys_prog) (\<lambda>r. Return (if r = Panic then Panic else Err e))"

definition shm_open_existing :: "access_mode \<Rightarrow> shm_config \<Rightarrow> ('v, (shm_creation_error, shared_memory) outcome) sys_prog" where
  "shm_open_existing mode b =
     (let b = b\<lparr>sh_access_mode := mode\<rparr> in
      pthen (shm_open_fd b) (\<lambda>fd.
      pbind (fd_metadata fd) (\<lambda>r. case r of
        Ok attr \<Rightarrow>
          (let b = b\<lparr>sh_size := md_size attr\<rparr> in
           pbind (shm_mmap fd b) (\<lambda>r. case r of
             Ok base \<Rightarrow>
               if sh_enforce_base_address b \<noteq> None \<and> sh_enforce_base_address b \<noteq> Some base then fail_after (fd_drop fd) UnableToMapAtEnforcedBaseAddress
               else Return (Ok \<lparr>sm_name = sh_name b, sm_size = md_size attr, sm_base_address = base, sm_has_ownership = False,
                 sm_file_descriptor = fd, sm_memory_lock = False\<rparr>)
           | Err e \<Rightarrow> fail_after (fd_drop fd) e | Panic \<Rightarrow> Return Panic | UB \<Rightarrow> Return UB))
      | Err e \<Rightarrow> fail_after (fd_drop fd) (ShmFileStatError e) | Panic \<Rightarrow> Return Panic | UB \<Rightarrow> Return UB)))"

text \<open>The descriptor of a new or an existing object, whether it was created, and whether it is owned.\<close>

definition shm_acquire :: "shm_config \<Rightarrow> ('v, (shm_creation_error, nat \<times> bool \<times> bool) outcome) sys_prog" where
  "shm_acquire b = (case sh_creation_mode b of
     None \<Rightarrow> Return Panic
   | Some CreateExclusive \<Rightarrow> pmap (omap (\<lambda>fd. (fd, True, sh_has_ownership b))) (shm_create_fd b)
   | Some PurgeAndCreate \<Rightarrow>
       pbind (shm_unlink (sh_name b) QuietWhenNotExisting) (\<lambda>r. case r of
         Ok _ \<Rightarrow> pmap (omap (\<lambda>fd. (fd, True, sh_has_ownership b))) (shm_create_fd b)
       | Err e \<Rightarrow> Return (Err (ShmRemoveError e)) | Panic \<Rightarrow> Return Panic | UB \<Rightarrow> Return UB)
   | Some OpenOrCreate \<Rightarrow>
       pbind (shm_open_fd b) (\<lambda>r. case r of
         Ok fd \<Rightarrow> Return (Ok (fd, False, False))
       | Err DoesNotExist \<Rightarrow> pmap (omap (\<lambda>fd. (fd, True, sh_has_ownership b))) (shm_create_fd b)
       | Err e \<Rightarrow> Return (Err e) | Panic \<Rightarrow> Return Panic | UB \<Rightarrow> Return UB))"

definition shm_check_size :: "shm_config \<Rightarrow> shared_memory \<Rightarrow> (shared_memory \<Rightarrow> ('v, (shm_creation_error, shared_memory) outcome) sys_prog)
    \<Rightarrow> ('v, (shm_creation_error, shared_memory) outcome) sys_prog" where
  "shm_check_size b m f =
     pbind (fd_metadata (sm_file_descriptor m)) (\<lambda>r. case r of
       Ok attr \<Rightarrow> if md_size attr \<noteq> sh_size b then shm_fail m SizeDoesNotFit else f m
     | Err e \<Rightarrow> shm_fail m (ShmFileStatError e) | Panic \<Rightarrow> Return Panic | UB \<Rightarrow> Return UB)"

definition shm_lock_and_zero :: "shm_config \<Rightarrow> shared_memory \<Rightarrow> ('v, (shm_creation_error, shared_memory) outcome) sys_prog" where
  "shm_lock_and_zero b m =
     (let zero = (\<lambda>m. if sh_zero_memory b
        then Call (Sys_memset (sm_file_descriptor m) (sh_size b)) (\<lambda>a. case a of Failed _ \<Rightarrow> shm_fail m InsufficientMemory | _ \<Rightarrow> Return (Ok m))
        else Return (Ok m))
      in if sh_is_memory_locked b
         then Call (Sys_mlock (sm_base_address m) (sm_size m)) (\<lambda>a. case a of
                Failed e \<Rightarrow> shm_fail m (ShmMemoryLockCreationError (memory_lock_errno e)) | _ \<Rightarrow> zero (m\<lparr>sm_memory_lock := True\<rparr>))
         else zero m)"

definition shm_create_memory :: "shm_config \<Rightarrow> ('v, (shm_creation_error, shared_memory) outcome) sys_prog" where
  "shm_create_memory b =
     pthen (shm_acquire b) (\<lambda>(fd, shm_created, owned).
     pbind (shm_mmap fd b) (\<lambda>r. case r of
       Ok base \<Rightarrow>
         if sh_enforce_base_address b \<noteq> None \<and> sh_enforce_base_address b \<noteq> Some base then fail_after (fd_drop fd) UnableToMapAtEnforcedBaseAddress
         else (let m = \<lparr>sm_name = sh_name b, sm_size = sh_size b, sm_base_address = base, sm_has_ownership = owned, sm_file_descriptor = fd, sm_memory_lock = False\<rparr>
           in if \<not> shm_created then shm_check_size b m (\<lambda>m. Return (Ok m))
              else pbind (file_truncate fd (sh_size b)) (\<lambda>r. case r of
                Ok _ \<Rightarrow> shm_check_size b m (shm_lock_and_zero b)
              | Err e \<Rightarrow> shm_fail m (ShmFileTruncateError e) | Panic \<Rightarrow> Return Panic | UB \<Rightarrow> Return UB))
     | Err e \<Rightarrow> fail_after (fd_drop fd) e | Panic \<Rightarrow> Return Panic | UB \<Rightarrow> Return UB))"

text \<open>The descriptor that \<^verbatim>\<open>does_exist\<close> opens is dropped at once.\<close>

definition shm_does_exist :: "u8 list \<Rightarrow> ('v, bool) sys_prog" where
  "shm_does_exist name = pbind (fd_new (Sys_shm_open (shm_path name) (access_as_oflag AccessRead) (as_mode NONE))) (\<lambda>r. case r of
     Inr fd \<Rightarrow> pbind (fd_drop fd) (\<lambda>_. Return True) | Inl e \<Rightarrow> Return False)"

definition shm_remove :: "u8 list \<Rightarrow> ('v, (shm_remove_error, unit) outcome) sys_prog" where
  "shm_remove name = shm_unlink name PrintErrorWhenNotExisting"

end
