(* ===== verification/PosixFile.thy ===== *)
theory PosixFile
  imports PosixSharedMemory NamedConcept
begin

text \<open>
  \<^verbatim>\<open>elkodon_bb/posix/src/file.rs\<close> and \<^verbatim>\<open>directory.rs\<close>: files and directories, as programs over system calls. The settings for the owner and the group of a new file are
  left out. The position of a descriptor is an argument of the calls that read and write: a descriptor belongs to one \<^verbatim>\<open>File\<close>, and each of its operations sets the
  position first.
\<close>

section \<open>Files\<close>

datatype file_access_error = AccessLoopInSymbolicLinks | AccessMaxSupportedPathLengthExceeded | AccessUnknownError
datatype file_remove_error =
  FileRemoveInsufficientPermissions | FileRemoveCurrentlyInUse | FileRemovePartOfReadOnlyFileSystem | FileRemoveLoopInSymbolicLinks
| FileRemoveMaxSupportedPathLengthExceeded | FileRemoveUnknownError

datatype file_creation_error =
  FcInsufficientPermissions | FcInsufficientMemory | FcFileAlreadyExists | FcNoSpaceLeft | FcFileTooBig | FcInterrupt | FcIsDirectory | FcLoopInSymbolicLinks
| FcFilesystemIsReadOnly | FcDirectoryDoesNotExist | FcPerProcessFileHandleLimitReached | FcSystemWideFileHandleLimitReached | FcMaxFilePathLengthExceeded | FcUnknownError
| FcFileAccessError file_access_error | FcFileRemoveError file_remove_error | FcFileSetPermissionError file_set_permission_error | FcFileTruncateError file_truncate_error

datatype file_open_error =
  FoInsufficientPermissions | FoInsufficientMemory | FoFileDoesNotExist | FoFileTooBig | FoInterrupt | FoIsDirectory | FoLoopInSymbolicLinks | FoFilesystemIsReadOnly
| FoPerProcessFileHandleLimitReached | FoSystemWideFileHandleLimitReached | FoMaxFilePathLengthExceeded | FoUnknownError

datatype file_offset_error = OffsetInvalidFileDescriptor | OffsetFileTooBig | OffsetDoesNotSupportSeeking | OffsetUnknownError
datatype file_read_error =
  FrInterrupt | FrIOerror | FrIsDirectory | FrFileTooBig | FrInsufficientResources | FrInsufficientMemory | FrNonExistingOrIncapableDevice | FrUnknownError
| FrFileOffsetError file_offset_error | FrFileStatError file_stat_error
datatype file_write_error =
  FwInterrupt | FwWriteBufferTooBig | FwIOerror | FwNoSpaceLeft | FwInsufficientResources | FwInsufficientPermissions | FwNonExistingOrIncapableDevice | FwUnknownError
| FwFileOffsetError file_offset_error
datatype file_sync_error = SyncInterrupt | SyncNotSupported | SyncIOerror | SyncUnknownError

record file_builder =
  fb_file_path :: os_path
  fb_access_mode :: access_mode
  fb_permission :: permission
  fb_truncate_size :: "usize option"
  fb_creation_mode :: "creation_mode option"

definition file_builder_new :: "os_path \<Rightarrow> file_builder" where
  "file_builder_new p = \<lparr>fb_file_path = p, fb_access_mode = AccessRead, fb_permission = OWNER_ALL, fb_truncate_size = None, fb_creation_mode = None\<rparr>"

definition file_creation_mode :: "creation_mode \<Rightarrow> file_builder \<Rightarrow> file_builder" where
  "file_creation_mode m b = b\<lparr>fb_creation_mode := Some m, fb_access_mode := AccessReadWrite\<rparr>"

definition access_errno :: "os_error \<Rightarrow> (file_access_error, bool) outcome" where
  "access_errno e = (case e of Enoent \<Rightarrow> Ok False | Eloop \<Rightarrow> Err AccessLoopInSymbolicLinks | Enametoolong \<Rightarrow> Err AccessMaxSupportedPathLengthExceeded
     | _ \<Rightarrow> Err AccessUnknownError)"

definition file_does_exist :: "os_path \<Rightarrow> ('v, (file_access_error, bool) outcome) sys_prog" where
  "file_does_exist p = Call (Sys_access p) (\<lambda>a. case a of Failed e \<Rightarrow> Return (access_errno e) | _ \<Rightarrow> Return (Ok True))"

definition remove_errno :: "os_error \<Rightarrow> (file_remove_error, bool) outcome" where
  "remove_errno e = (case e of Enoent \<Rightarrow> Ok False | Eacces \<Rightarrow> Err FileRemoveInsufficientPermissions | Eperm \<Rightarrow> Err FileRemoveInsufficientPermissions
     | Ebusy \<Rightarrow> Err FileRemoveCurrentlyInUse | Eloop \<Rightarrow> Err FileRemoveLoopInSymbolicLinks | Enametoolong \<Rightarrow> Err FileRemoveMaxSupportedPathLengthExceeded
     | Erofs \<Rightarrow> Err FileRemovePartOfReadOnlyFileSystem | _ \<Rightarrow> Err FileRemoveUnknownError)"

definition file_remove :: "os_path \<Rightarrow> ('v, (file_remove_error, bool) outcome) sys_prog" where
  "file_remove p = Call (Sys_remove p) (\<lambda>a. case a of Failed e \<Rightarrow> Return (remove_errno e) | _ \<Rightarrow> Return (Ok True))"

definition file_creation_errno :: "os_error \<Rightarrow> file_creation_error" where
  "file_creation_errno e = (case e of Eacces \<Rightarrow> FcInsufficientPermissions | Eexist \<Rightarrow> FcFileAlreadyExists | Eintr \<Rightarrow> FcInterrupt | Enoent \<Rightarrow> FcDirectoryDoesNotExist
     | Eisdir \<Rightarrow> FcIsDirectory | Eloop \<Rightarrow> FcLoopInSymbolicLinks | Emfile \<Rightarrow> FcPerProcessFileHandleLimitReached | Enametoolong \<Rightarrow> FcMaxFilePathLengthExceeded
     | Enfile \<Rightarrow> FcSystemWideFileHandleLimitReached | Eoverflow \<Rightarrow> FcFileTooBig | Enospc \<Rightarrow> FcNoSpaceLeft | Erofs \<Rightarrow> FcFilesystemIsReadOnly | Enomem \<Rightarrow> FcInsufficientMemory
     | _ \<Rightarrow> FcUnknownError)"

definition create_file :: "file_builder \<Rightarrow> creation_mode \<Rightarrow> ('v, (file_creation_error, nat) outcome) sys_prog" where
  "create_file b m = pmap (\<lambda>r. case r of Inr fd \<Rightarrow> Ok fd | Inl e \<Rightarrow> Err (file_creation_errno e))
     (fd_new (Sys_open (fb_file_path b) (creation_as_oflag m @ access_as_oflag (fb_access_mode b)) (as_mode (fb_permission b))))"

definition file_create_fd :: "file_builder \<Rightarrow> ('v, (file_creation_error, nat) outcome) sys_prog" where
  "file_create_fd b = (case fb_creation_mode b of
     None \<Rightarrow> Return Panic
   | Some CreateExclusive \<Rightarrow> create_file b CreateExclusive
   | Some PurgeAndCreate \<Rightarrow>
       pthen (pmap (map_err FcFileAccessError) (file_does_exist (fb_file_path b))) (\<lambda>exists.
         if exists then pthen (pmap (map_err FcFileRemoveError) (file_remove (fb_file_path b))) (\<lambda>_. create_file b PurgeAndCreate)
         else create_file b PurgeAndCreate)
   | Some OpenOrCreate \<Rightarrow>
       pthen (pmap (map_err FcFileAccessError) (file_does_exist (fb_file_path b))) (\<lambda>exists.
         if exists then pmap (\<lambda>r. case r of Inr fd \<Rightarrow> Ok fd | Inl e \<Rightarrow> Err (file_creation_errno e))
           (fd_new (Sys_open (fb_file_path b) (access_as_oflag (fb_access_mode b)) 0))
         else create_file b OpenOrCreate))"

text \<open>\<^verbatim>\<open>FileCreationBuilder::create\<close>: when a step after the creation fails, the descriptor is closed and the file stays.\<close>

definition file_builder_create :: "file_builder \<Rightarrow> ('v, (file_creation_error, nat) outcome) sys_prog" where
  "file_builder_create b =
     pthen (file_create_fd b) (\<lambda>fd.
     pbind (fd_set_permission fd (fb_permission b)) (\<lambda>r. case r of
       Ok _ \<Rightarrow> (case fb_truncate_size b of
           None \<Rightarrow> Return (Ok fd)
         | Some n \<Rightarrow> pbind (file_truncate fd n) (\<lambda>r. case r of
             Ok _ \<Rightarrow> Return (Ok fd) | Err e \<Rightarrow> fail_after (fd_drop fd) (FcFileTruncateError e) | Panic \<Rightarrow> Return Panic | UB \<Rightarrow> Return UB))
     | Err e \<Rightarrow> fail_after (fd_drop fd) (FcFileSetPermissionError e) | Panic \<Rightarrow> Return Panic | UB \<Rightarrow> Return UB))"

definition file_open_errno :: "os_error \<Rightarrow> file_open_error" where
  "file_open_errno e = (case e of Eacces \<Rightarrow> FoInsufficientPermissions | Eintr \<Rightarrow> FoInterrupt | Eisdir \<Rightarrow> FoIsDirectory | Eloop \<Rightarrow> FoLoopInSymbolicLinks
     | Emfile \<Rightarrow> FoPerProcessFileHandleLimitReached | Enametoolong \<Rightarrow> FoMaxFilePathLengthExceeded | Enfile \<Rightarrow> FoSystemWideFileHandleLimitReached
     | Enoent \<Rightarrow> FoFileDoesNotExist | Eoverflow \<Rightarrow> FoFileTooBig | Erofs \<Rightarrow> FoFilesystemIsReadOnly | Enomem \<Rightarrow> FoInsufficientMemory | _ \<Rightarrow> FoUnknownError)"

definition file_open_existing :: "access_mode \<Rightarrow> file_builder \<Rightarrow> ('v, (file_open_error, nat) outcome) sys_prog" where
  "file_open_existing m b = pmap (\<lambda>r. case r of Inr fd \<Rightarrow> Ok fd | Inl e \<Rightarrow> Err (file_open_errno e)) (fd_new (Sys_open (fb_file_path b) (access_as_oflag m) 0))"

definition offset_errno :: "os_error \<Rightarrow> file_offset_error" where
  "offset_errno e = (case e of Ebadf \<Rightarrow> OffsetInvalidFileDescriptor | Eoverflow \<Rightarrow> OffsetFileTooBig | Espipe \<Rightarrow> OffsetDoesNotSupportSeeking | _ \<Rightarrow> OffsetUnknownError)"

definition file_set_offset :: "nat \<Rightarrow> usize \<Rightarrow> ('v, (file_offset_error, usize) outcome) sys_prog" where
  "file_set_offset fd n = Call (Sys_lseek fd n) (\<lambda>a. case a of
     Count k \<Rightarrow> Return (Ok k) | Failed e \<Rightarrow> Return (Err (offset_errno e)) | _ \<Rightarrow> Return (Err OffsetUnknownError))"

definition read_errno :: "os_error \<Rightarrow> file_read_error" where
  "read_errno e = (case e of Eintr \<Rightarrow> FrInterrupt | Eio \<Rightarrow> FrIOerror | Eisdir \<Rightarrow> FrIsDirectory | Eoverflow \<Rightarrow> FrFileTooBig | Enobufs \<Rightarrow> FrInsufficientResources
     | Enomem \<Rightarrow> FrInsufficientMemory | Enxio \<Rightarrow> FrNonExistingOrIncapableDevice | _ \<Rightarrow> FrUnknownError)"

text \<open>The result is the buffer after the call, of which the read bytes are the beginning, and their number.\<close>

definition file_read_range :: "nat \<Rightarrow> usize \<Rightarrow> u8 list \<Rightarrow> ('v, (file_read_error, u8 list \<times> nat) outcome) sys_prog" where
  "file_read_range fd start buf =
     pthen (pmap (map_err FrFileOffsetError) (file_set_offset fd start)) (\<lambda>offset.
     if offset \<noteq> start then Return (Ok (buf, 0))
     else Call (Sys_read fd start (length buf)) (\<lambda>a. case a of
       Bytes bs \<Rightarrow> Return (Ok (bs @ drop (length bs) buf, length bs)) | Failed e \<Rightarrow> Return (Err (read_errno e)) | _ \<Rightarrow> Return (Err FrUnknownError)))"

definition file_read :: "nat \<Rightarrow> u8 list \<Rightarrow> ('v, (file_read_error, u8 list \<times> nat) outcome) sys_prog" where
  "file_read fd buf = file_read_range fd 0 buf"

definition read_to_vector :: "nat \<Rightarrow> u8 list \<Rightarrow> ('v, (file_read_error, u8 list \<times> nat) outcome) sys_prog" where
  "read_to_vector fd buf =
     pthen (pmap (map_err FrFileStatError) (acquire_attributes fd)) (\<lambda>(mode, n).
     pmap (omap (\<lambda>(bs, k). (buf @ bs, k))) (file_read fd (replicate n 0)))"

definition read_range_to_vector :: "nat \<Rightarrow> usize \<Rightarrow> usize \<Rightarrow> u8 list \<Rightarrow> ('v, (file_read_error, u8 list \<times> nat) outcome) sys_prog" where
  "read_range_to_vector fd start finish buf =
     (if finish \<le> start then Return (Ok (buf, 0))
      else pmap (omap (\<lambda>(bs, k). (buf @ bs, k))) (file_read_range fd start (replicate (finish - start) 0)))"

definition write_errno :: "os_error \<Rightarrow> file_write_error" where
  "write_errno e = (case e of Efbig \<Rightarrow> FwWriteBufferTooBig | Eintr \<Rightarrow> FwInterrupt | Eio \<Rightarrow> FwIOerror | Enospc \<Rightarrow> FwNoSpaceLeft | Enobufs \<Rightarrow> FwInsufficientResources
     | Enxio \<Rightarrow> FwNonExistingOrIncapableDevice | Eacces \<Rightarrow> FwInsufficientPermissions | _ \<Rightarrow> FwUnknownError)"

definition file_write_at :: "nat \<Rightarrow> usize \<Rightarrow> u8 list \<Rightarrow> ('v, (file_write_error, nat) outcome) sys_prog" where
  "file_write_at fd start buf =
     pthen (pmap (map_err FwFileOffsetError) (file_set_offset fd start)) (\<lambda>offset.
     if offset \<noteq> start then Return (Ok 0)
     else Call (Sys_write fd start buf) (\<lambda>a. case a of
       Count n \<Rightarrow> Return (Ok n) | Failed e \<Rightarrow> Return (Err (write_errno e)) | _ \<Rightarrow> Return (Err FwUnknownError)))"

definition file_write :: "nat \<Rightarrow> u8 list \<Rightarrow> ('v, (file_write_error, nat) outcome) sys_prog" where
  "file_write fd buf = file_write_at fd 0 buf"

definition sync_errno :: "os_error \<Rightarrow> file_sync_error" where
  "sync_errno e = (case e of Eintr \<Rightarrow> SyncInterrupt | Einval \<Rightarrow> SyncNotSupported | Eio \<Rightarrow> SyncIOerror | _ \<Rightarrow> SyncUnknownError)"

definition file_flush :: "nat \<Rightarrow> ('v, (file_sync_error, unit) outcome) sys_prog" where
  "file_flush fd = sys_unit sync_errno (Sys_fsync fd)"

section \<open>Directories\<close>

datatype directory_open_error =
  DoLoopInSymbolicLinks | DoInsufficientPermissions | DoNotADirectory | DoPerProcessFileHandleLimitReached | DoSystemWideFileHandleLimitReached | DoDoesNotExist | DoUnknownError
datatype directory_create_error =
  DcInsufficientPermissions | DcDirectoryAlreadyExists | DcLoopInSymbolicLinks | DcExceedsParentsLinkCount | DcPartsOfThePathDoNotExist | DcPartsOfThePathAreNotADirectory | DcNoSpaceLeft | DcReadOnlyFilesystem | DcUnknownError
| DcDirectoryOpenError directory_open_error
datatype directory_remove_error =
  DrInsufficientPermissions | DrCurrentlyInUse | DrNotEmptyOrHardLinksPointingToTheDirectory | DrIOerror | DrLastComponentIsDot | DrLoopInSymbolicLinks
| DrDirectoryDoesNotExist | DrNotADirectory | DrResidesOnReadOnlyFileSystem | DrDanglingSymbolicLink | DrUnknownError
datatype directory_stat_error =
  DsInsufficientPermissions | DsIOerror | DsDoesNotExist | DsPathPrefixIsNotADirectory | DsDataOverflowInStatStruct | DsLoopInSymbolicLinks | DsUnknownError
datatype directory_read_error =
  DirReadInsufficientPermissions | DirectoryDoesNoLongerExist | DirReadInsufficientMemory | DirReadPerProcessFileHandleLimitReached
| DirReadSystemWideFileHandleLimitReached | DirReadUnknownError | DirReadDirectoryStatError directory_stat_error
datatype directory_access_error = DaInsufficientPermissions | DaIOerror | DaPathPrefixIsNotADirectory | DaLoopInSymbolicLinks | DaDataOverflowInStatStruct | DaUnknownError

definition directory_open_errno :: "os_error \<Rightarrow> directory_open_error" where
  "directory_open_errno e = (case e of Eacces \<Rightarrow> DoInsufficientPermissions | Eloop \<Rightarrow> DoLoopInSymbolicLinks | Enoent \<Rightarrow> DoDoesNotExist | Enotdir \<Rightarrow> DoNotADirectory
     | Emfile \<Rightarrow> DoPerProcessFileHandleLimitReached | Enfile \<Rightarrow> DoSystemWideFileHandleLimitReached | _ \<Rightarrow> DoUnknownError)"

definition directory_new :: "os_path \<Rightarrow> ('v, (directory_open_error, unit) outcome) sys_prog" where
  "directory_new p = sys_unit directory_open_errno (Sys_opendir p)"

definition directory_drop :: "os_path \<Rightarrow> ('v, unit) sys_prog" where
  "directory_drop p = Call (Sys_closedir p) (\<lambda>_. Return ())"

definition directory_create_errno :: "os_error \<Rightarrow> directory_create_error" where
  "directory_create_errno e = (case e of Eacces \<Rightarrow> DcInsufficientPermissions | Eexist \<Rightarrow> DcDirectoryAlreadyExists | Eloop \<Rightarrow> DcLoopInSymbolicLinks | Emlink \<Rightarrow> DcExceedsParentsLinkCount
     | Enoent \<Rightarrow> DcPartsOfThePathDoNotExist | Enospc \<Rightarrow> DcNoSpaceLeft | Enotdir \<Rightarrow> DcPartsOfThePathAreNotADirectory | Erofs \<Rightarrow> DcReadOnlyFilesystem | _ \<Rightarrow> DcUnknownError)"

text \<open>The error numbers of a missing and of a non-empty directory are named as in the code.\<close>

definition directory_remove_errno :: "os_error \<Rightarrow> directory_remove_error" where
  "directory_remove_errno e = (case e of Eacces \<Rightarrow> DrInsufficientPermissions | Eperm \<Rightarrow> DrInsufficientPermissions | Ebusy \<Rightarrow> DrCurrentlyInUse | Einval \<Rightarrow> DrLastComponentIsDot
     | Eloop \<Rightarrow> DrLoopInSymbolicLinks | Enoent \<Rightarrow> DrDanglingSymbolicLink | Eexist \<Rightarrow> DrDirectoryDoesNotExist | Enotdir \<Rightarrow> DrNotADirectory
     | Erofs \<Rightarrow> DrResidesOnReadOnlyFileSystem | Enotempty \<Rightarrow> DrNotEmptyOrHardLinksPointingToTheDirectory | Eio \<Rightarrow> DrIOerror | _ \<Rightarrow> DrUnknownError)"

definition directory_remove :: "os_path \<Rightarrow> ('v, (directory_remove_error, unit) outcome) sys_prog" where
  "directory_remove p = sys_unit directory_remove_errno (Sys_rmdir p)"

definition directory_create :: "os_path \<Rightarrow> permission \<Rightarrow> ('v, (directory_create_error, unit) outcome) sys_prog" where
  "directory_create p m =
     pthen (sys_unit directory_create_errno (Sys_mkdir p (as_mode m))) (\<lambda>_.
     pbind (directory_new p) (\<lambda>r. case r of
       Err e \<Rightarrow> pbind (directory_remove p) (\<lambda>_. Return (Err (DcDirectoryOpenError e)))
     | Ok _ \<Rightarrow> Return (Ok ()) | Panic \<Rightarrow> Return Panic | UB \<Rightarrow> Return UB))"

definition directory_access_errno :: "os_error \<Rightarrow> (directory_access_error, bool) outcome" where
  "directory_access_errno e = (case e of Enoent \<Rightarrow> Ok False | Eacces \<Rightarrow> Err DaInsufficientPermissions | Eio \<Rightarrow> Err DaIOerror | Eloop \<Rightarrow> Err DaLoopInSymbolicLinks | Enotdir \<Rightarrow> Err DaPathPrefixIsNotADirectory
     | Eoverflow \<Rightarrow> Err DaDataOverflowInStatStruct | _ \<Rightarrow> Err DaUnknownError)"

definition directory_does_exist :: "os_path \<Rightarrow> ('v, (directory_access_error, bool) outcome) sys_prog" where
  "directory_does_exist p = Call (Sys_stat p) (\<lambda>a. case a of
     Attributes mode n \<Rightarrow> Return (Ok (mode AND S_IFDIR \<noteq> 0)) | Failed e \<Rightarrow> Return (directory_access_errno e) | _ \<Rightarrow> Return (Err DaUnknownError))"

record directory_entry =
  de_name :: byte_string
  de_metadata :: metadata

definition directory_stat_errno :: "os_error \<Rightarrow> directory_stat_error" where
  "directory_stat_errno e = (case e of Eacces \<Rightarrow> DsInsufficientPermissions | Eio \<Rightarrow> DsIOerror | Eloop \<Rightarrow> DsLoopInSymbolicLinks | Enoent \<Rightarrow> DsDoesNotExist
     | Enotdir \<Rightarrow> DsPathPrefixIsNotADirectory | Eoverflow \<Rightarrow> DsDataOverflowInStatStruct | _ \<Rightarrow> DsUnknownError)"

definition directory_acquire_metadata :: "byte_string \<Rightarrow> byte_string \<Rightarrow> ('v, (directory_stat_error, metadata) outcome) sys_prog" where
  "directory_acquire_metadata path file =
     pthen (Return (ss_or_panic (ss_push Path path PATH_SEPARATOR))) (\<lambda>(path, _).
     pthen (Return (as_bytes file)) (\<lambda>f.
     pthen (Return (ss_or_panic (ss_push_bytes Path path f))) (\<lambda>(path, _).
     Call (Sys_stat (content path)) (\<lambda>a. case a of
       Attributes mode n \<Rightarrow> Return (Ok (metadata_create mode n)) | Failed e \<Rightarrow> Return (Err (directory_stat_errno e)) | _ \<Rightarrow> Return (Err DsUnknownError)))))"

definition directory_read_errno :: "os_error \<Rightarrow> directory_read_error" where
  "directory_read_errno e = (case e of Eacces \<Rightarrow> DirReadInsufficientPermissions | Enoent \<Rightarrow> DirectoryDoesNoLongerExist | Enomem \<Rightarrow> DirReadInsufficientMemory
     | Emfile \<Rightarrow> DirReadPerProcessFileHandleLimitReached | Enfile \<Rightarrow> DirReadSystemWideFileHandleLimitReached | _ \<Rightarrow> DirReadUnknownError)"

text \<open>The entries of a directory but the two with dots. A name that is no \<^verbatim>\<open>FileName\<close> panics; an entry that is gone by now ends the listing with an error.\<close>

fun directory_entries :: "byte_string \<Rightarrow> os_path list \<Rightarrow> ('v, (directory_read_error, directory_entry list) outcome) sys_prog" where
  "directory_entries path [] = Return (Ok [])"
| "directory_entries path (raw_name # names) =
     (if raw_name = [46] \<or> raw_name = [46, 46] then directory_entries path names
      else pthen (Return (obind (ss_new FileName FILENAME_LENGTH raw_name) (\<lambda>r. case r of Inl _ \<Rightarrow> Panic | Inr name \<Rightarrow> Ok name))) (\<lambda>name.
        pthen (pmap (map_err DirReadDirectoryStatError) (directory_acquire_metadata path name)) (\<lambda>metadata.
        pmap (omap (\<lambda>es. \<lparr>de_name = name, de_metadata = metadata\<rparr> # es)) (directory_entries path names))))"

definition directory_contents :: "byte_string \<Rightarrow> ('v, (directory_read_error, directory_entry list) outcome) sys_prog" where
  "directory_contents path = Call (Sys_scandir (content path)) (\<lambda>a. case a of
     Names names \<Rightarrow> directory_entries path names | Failed e \<Rightarrow> Return (Err (directory_read_errno e)) | _ \<Rightarrow> Return (Err DirReadUnknownError))"

end
