(* ===== verification/ObjectProtocol.thy ===== *)
theory ObjectProtocol
  imports PosixObjects
begin

text \<open>
  The protocol that shared memory storages and files follow: the creator of an object prepares it under provisional permissions and publishes it by setting the final
  ones; everybody else looks at the permissions before using the object. The theory has the rely and guarantee of this protocol for any final permissions \<open>F\<close> and any
  property \<open>K\<close> of complete objects, the facts that a process can know about an object, and rules for single calls.
\<close>

section \<open>What the processes promise each other\<close>

abbreviation is_final :: "permission \<Rightarrow> 'v os_object \<Rightarrow> bool" where
  "is_final F x \<equiv> as_permission (ob_mode x) = F"

definition all_good :: "permission \<Rightarrow> ('v os_object \<Rightarrow> bool) \<Rightarrow> 'v os_state \<Rightarrow> bool" where
  "all_good F K s \<longleftrightarrow> (\<forall>p ob. os_shm s p = Some ob \<or> os_files s p = Some ob \<longrightarrow> ob < os_next s)
     \<and> (\<forall>ob < os_next s. is_final F (os_objects s ob) \<longrightarrow> K (os_objects s ob))"

text \<open>What process \<open>t\<close> leaves of an object: the size is set once, a published object keeps its size, mode and bytes, and the unpublished object of somebody else is
  not touched.\<close>

definition object_kept :: "permission \<Rightarrow> nat \<Rightarrow> 'v os_object \<Rightarrow> 'v os_object \<Rightarrow> bool" where
  "object_kept F t x y \<longleftrightarrow> ob_creator y = ob_creator x \<and> (ob_size x \<noteq> 0 \<longrightarrow> ob_size y = ob_size x)
     \<and> (is_final F x \<longrightarrow> is_final F y \<and> ob_size y = ob_size x \<and> ob_data y = ob_data x) \<and> (ob_creator x \<noteq> t \<and> \<not> is_final F x \<longrightarrow> y = x)"

definition guar :: "permission \<Rightarrow> ('v os_object \<Rightarrow> bool) \<Rightarrow> nat \<Rightarrow> 'v os_state \<Rightarrow> 'v os_state \<Rightarrow> bool" where
  "guar F K t s s' \<longleftrightarrow> os_next s \<le> os_next s' \<and> (\<forall>ob < os_next s. object_kept F t (os_objects s ob) (os_objects s' ob)) \<and> (all_good F K s \<longrightarrow> all_good F K s')"

definition rely :: "permission \<Rightarrow> ('v os_object \<Rightarrow> bool) \<Rightarrow> nat \<Rightarrow> 'v os_state \<Rightarrow> 'v os_state \<Rightarrow> bool" where
  "rely F K u s s' \<longleftrightarrow> (\<exists>t. t \<noteq> u \<and> guar F K t s s')"

abbreviation prg :: "32 word \<Rightarrow> permission \<Rightarrow> ('v os_object \<Rightarrow> bool) \<Rightarrow> nat \<Rightarrow> ('v, 'r) sys_prog \<Rightarrow> ('r \<Rightarrow> 'v os_state \<Rightarrow> bool) \<Rightarrow> 'v os_state \<Rightarrow> bool" where
  "prg umask F K t \<equiv> rg (posix_sys umask t) (rely F K t) (guar F K t)"

lemma guar_refl [simp]: "guar F K t s s"
  by (simp add: guar_def object_kept_def)

lemma rely_of_guar: "t \<noteq> u \<Longrightarrow> guar F K t s s' \<Longrightarrow> rely F K u s s'"
  by (auto simp: rely_def)

section \<open>What a process knows about an object\<close>

text \<open>An object that a process has found, and whose size \<open>n\<close> it has read (if it is not zero); one of \<open>k\<close> bytes at least that is published; and the unpublished
  object \<open>x\<close> that it has created.\<close>

definition seen :: "permission \<Rightarrow> ('v os_object \<Rightarrow> bool) \<Rightarrow> nat \<Rightarrow> nat \<Rightarrow> 'v os_state \<Rightarrow> bool" where
  "seen F K ob n s \<longleftrightarrow> all_good F K s \<and> ob < os_next s \<and> (n \<noteq> 0 \<longrightarrow> ob_size (os_objects s ob) = n)"

definition published :: "permission \<Rightarrow> ('v os_object \<Rightarrow> bool) \<Rightarrow> nat \<Rightarrow> u8 list \<Rightarrow> nat \<Rightarrow> 'v os_state \<Rightarrow> bool" where
  "published F K n d ob s \<longleftrightarrow> all_good F K s \<and> ob < os_next s \<and> is_final F (os_objects s ob) \<and> ob_size (os_objects s ob) = n \<and> ob_data (os_objects s ob) = d"

definition mine :: "permission \<Rightarrow> ('v os_object \<Rightarrow> bool) \<Rightarrow> nat \<Rightarrow> nat \<Rightarrow> 'v os_object \<Rightarrow> 'v os_state \<Rightarrow> bool" where
  "mine F K t ob x s \<longleftrightarrow> all_good F K s \<and> ob < os_next s \<and> os_objects s ob = x \<and> ob_creator x = t \<and> \<not> is_final F x"

lemmas fact_defs = seen_def published_def mine_def

lemma fact_good: "seen F K ob n s \<Longrightarrow> all_good F K s" "published F K m d ob s \<Longrightarrow> all_good F K s" "mine F K t ob x s \<Longrightarrow> all_good F K s"
  by (simp_all add: fact_defs)

lemma published_K: "published F K n d ob s \<Longrightarrow> K (os_objects s ob)"
  by (simp add: published_def all_good_def)

lemma rely_object: "rely F K u s s' \<Longrightarrow> ob < os_next s \<Longrightarrow> ob < os_next s' \<and> (\<exists>t. t \<noteq> u \<and> object_kept F t (os_objects s ob) (os_objects s' ob))"
  by (auto simp: rely_def guar_def)

lemma rely_good: "rely F K u s s' \<Longrightarrow> all_good F K s \<Longrightarrow> all_good F K s'"
  by (auto simp: rely_def guar_def)

lemma stable_facts:
  "stable_under (all_good F K) (rely F K t)" "stable_under (seen F K ob n) (rely F K t)"
  "stable_under (published F K n d ob) (rely F K t)" "stable_under (mine F K t ob x) (rely F K t)"
proof -
  show "stable_under (all_good F K) (rely F K t)" using rely_good unfolding stable_under_def by blast
  show "stable_under (seen F K ob n) (rely F K t)" "stable_under (published F K n d ob) (rely F K t)" "stable_under (mine F K t ob x) (rely F K t)"
    unfolding stable_under_def fact_defs using rely_good rely_object unfolding object_kept_def by (metis (no_types, lifting))+
qed

lemmas env_facts = stable_rtranclp [OF stable_facts(1)] stable_rtranclp [OF stable_facts(2)] stable_rtranclp [OF stable_facts(3)] stable_rtranclp [OF stable_facts(4)]

section \<open>Calls that leave the objects alone\<close>

fun quiet_call :: "'v sys_call \<Rightarrow> bool" where
  "quiet_call (Sys_shm_open p fl m) \<longleftrightarrow> O_CREAT \<notin> set fl" | "quiet_call (Sys_open p fl m) \<longleftrightarrow> O_CREAT \<notin> set fl"
| "quiet_call (Sys_ftruncate ob n) \<longleftrightarrow> False" | "quiet_call (Sys_fchmod ob m) \<longleftrightarrow> False" | "quiet_call (Sys_write ob at bs) \<longleftrightarrow> False"
| "quiet_call (Sys_memory ob f) \<longleftrightarrow> False" | "quiet_call _ \<longleftrightarrow> True"

lemma quiet_step:
  "posix_sys umask t s c a s' \<Longrightarrow> quiet_call c \<Longrightarrow> os_objects s' = os_objects s \<and> os_next s' = os_next s
     \<and> (\<forall>p ob. (os_shm s' p = Some ob \<longrightarrow> os_shm s p = Some ob) \<and> (os_files s' p = Some ob \<longrightarrow> os_files s p = Some ob))"
  by (cases c) (auto simp: posix_sys_simps shm_name_def file_name_to_def split: if_splits)

lemma quiet_good: "posix_sys umask t s c a s' \<Longrightarrow> quiet_call c \<Longrightarrow> all_good F K s \<Longrightarrow> all_good F K s'"
  using quiet_step [of umask t s c a s'] unfolding all_good_def by (metis (no_types, lifting))

lemma quiet_guar: "posix_sys umask t s c a s' \<Longrightarrow> quiet_call c \<Longrightarrow> guar F K t s s'"
  using quiet_step [of umask t s c a s'] quiet_good [of umask t s c a s' F K] by (auto simp: guar_def object_kept_def)

lemma quiet_facts:
  assumes "posix_sys umask t s c a s'" and "quiet_call c"
  shows "seen F K ob n s \<Longrightarrow> seen F K ob n s'" "published F K n d ob s \<Longrightarrow> published F K n d ob s'" "mine F K u ob x s \<Longrightarrow> mine F K u ob x s'"
  using quiet_step [OF assms] quiet_good [OF assms, of F K] by (auto simp: fact_defs)

lemma quiet_program: "calls_in {c. quiet_call c} p \<Longrightarrow> all_good F K s \<Longrightarrow> prg umask F K t p (\<lambda>r. all_good F K) s"
  by (rule rg_calls_in [OF stable_facts(1)]) (use quiet_good quiet_guar in auto)

text \<open>Quiet calls of a process that knows something.\<close>

lemma quiet_Call_with:
  assumes "quiet_call c" and "stable_under P (rely F K t)" and "\<And>s a s'. posix_sys umask t s c a s' \<Longrightarrow> P s \<Longrightarrow> P s'" and "P s"
    and "\<And>s0 s a. P s0 \<Longrightarrow> P s \<Longrightarrow> posix_sys umask t s0 c a s \<Longrightarrow> prg umask F K t (k a) Q s"
  shows "prg umask F K t (Call c k) Q s"
proof (rule rg_Call [OF assms(2,4)])
  fix s a s'
  assume P: "P s" and step: "posix_sys umask t s c a s'"
  show "guar F K t s s' \<and> prg umask F K t (k a) Q s'" by (rule conjI [OF quiet_guar [OF step assms(1)] assms(5) [OF P assms(3) [OF step P] step]])
qed

lemma quiet_Call:
  assumes "quiet_call c"
  shows
    "mine F K t ob x s \<Longrightarrow> (\<And>s0 s a. mine F K t ob x s0 \<Longrightarrow> mine F K t ob x s \<Longrightarrow> posix_sys umask t s0 c a s \<Longrightarrow> prg umask F K t (k a) Q s) \<Longrightarrow> prg umask F K t (Call c k) Q s"
    and "seen F K ob n s \<Longrightarrow> (\<And>s0 s a. seen F K ob n s0 \<Longrightarrow> seen F K ob n s \<Longrightarrow> posix_sys umask t s0 c a s \<Longrightarrow> prg umask F K t (k a) Q s) \<Longrightarrow> prg umask F K t (Call c k) Q s"
    and "published F K m d ob s \<Longrightarrow> (\<And>s0 s a. published F K m d ob s0 \<Longrightarrow> published F K m d ob s \<Longrightarrow> posix_sys umask t s0 c a s \<Longrightarrow> prg umask F K t (k a) Q s) \<Longrightarrow> prg umask F K t (Call c k) Q s"
    and "all_good F K s \<Longrightarrow> (\<And>s0 s a. all_good F K s0 \<Longrightarrow> all_good F K s \<Longrightarrow> posix_sys umask t s0 c a s \<Longrightarrow> prg umask F K t (k a) Q s) \<Longrightarrow> prg umask F K t (Call c k) Q s"
  by (rule quiet_Call_with [OF assms stable_facts(4) quiet_facts(3) [OF _ assms]], assumption+)
    (rule quiet_Call_with [OF assms stable_facts(2) quiet_facts(1) [OF _ assms]], assumption+,
     rule quiet_Call_with [OF assms stable_facts(3) quiet_facts(2) [OF _ assms]], assumption+,
     rule quiet_Call_with [OF assms stable_facts(1) quiet_good [OF _ assms]], assumption+)

section \<open>Calls that change objects\<close>

lemma object_at_cong: "f (os_objects s ob) = g (os_objects s ob) \<Longrightarrow> object_at ob f s = object_at ob g s"
  by (simp add: object_at_def)

lemma memory_step: "posix_sys umask t s (Sys_memory ob g) a s' \<Longrightarrow>
    a = Flag (snd (g (ob_value (os_objects s ob)))) \<and> s' = object_at ob (\<lambda>x. x\<lparr>ob_value := fst (g (ob_value x))\<rparr>) s"
  by (cases "g (ob_value (os_objects s ob))") (auto simp: posix_sys_simps intro: object_at_cong)

lemma own_update:
  assumes "mine F K t ob x s" and "ob_creator (f x) = t" and "ob_size x \<noteq> 0 \<Longrightarrow> ob_size (f x) = ob_size x" and "is_final F (f x) \<Longrightarrow> K (f x)"
  shows "guar F K t s (object_at ob f s)" and "all_good F K (object_at ob f s)"
    and "\<not> is_final F (f x) \<Longrightarrow> mine F K t ob (f x) (object_at ob f s)"
    and "is_final F (f x) \<Longrightarrow> published F K (ob_size (f x)) (ob_data (f x)) ob (object_at ob f s)"
proof -
  show good: "all_good F K (object_at ob f s)" using assms by (auto simp: mine_def all_good_def object_at_def)
  show "guar F K t s (object_at ob f s)" using assms good by (auto simp: mine_def guar_def object_kept_def object_at_def)
  show "\<not> is_final F (f x) \<Longrightarrow> mine F K t ob (f x) (object_at ob f s)" "is_final F (f x) \<Longrightarrow> published F K (ob_size (f x)) (ob_data (f x)) ob (object_at ob f s)"
    using assms good by (auto simp: fact_defs object_at_def)
qed

text \<open>A call of the creator that changes its object or fails.\<close>

lemma own_Call:
  assumes "mine F K t ob x s" and "ob_creator (f x) = t" and "ob_size x \<noteq> 0 \<Longrightarrow> ob_size (f x) = ob_size x" and "is_final F (f x) \<Longrightarrow> K (f x)"
    and "\<And>s a s'. mine F K t ob x s \<Longrightarrow> posix_sys umask t s c a s' \<Longrightarrow> (\<exists>e. a = Failed e) \<and> s' = s \<or> a = r \<and> s' = object_at ob f s"
    and "\<And>s e. mine F K t ob x s \<Longrightarrow> prg umask F K t (k (Failed e)) Q s"
    and "\<And>s. mine F K t ob x s \<Longrightarrow> (\<not> is_final F (f x) \<Longrightarrow> mine F K t ob (f x) (object_at ob f s))
      \<Longrightarrow> (is_final F (f x) \<Longrightarrow> published F K (ob_size (f x)) (ob_data (f x)) ob (object_at ob f s)) \<Longrightarrow> prg umask F K t (k r) Q (object_at ob f s)"
  shows "prg umask F K t (Call c k) Q s"
proof (rule rg_Call [OF stable_facts(4) assms(1)])
  fix s a s'
  assume m: "mine F K t ob x s" and step: "posix_sys umask t s c a s'"
  note u = own_update [of F K t ob x s f, OF m assms(2-4)]
  from assms(5) [OF m step] consider e where "a = Failed e" "s' = s" | "a = r" "s' = object_at ob f s" by blast
  then show "guar F K t s s' \<and> prg umask F K t (k a) Q s'"
  proof cases
    case 2
    then show ?thesis unfolding 2 by (intro conjI u(1) assms(7) m u(3,4))
  qed (use assms(6) [OF m] in simp)
qed

lemma fchmod_Call:
  assumes "mine F K t ob x s" and "as_permission m = F \<Longrightarrow> K (x\<lparr>ob_mode := regular m\<rparr>)" and "\<And>s e. mine F K t ob x s \<Longrightarrow> prg umask F K t (k (Failed e)) Q s"
    and "\<And>s. as_permission m \<noteq> F \<Longrightarrow> mine F K t ob (x\<lparr>ob_mode := regular m\<rparr>) s \<Longrightarrow> prg umask F K t (k Success) Q s"
    and "\<And>s. as_permission m = F \<Longrightarrow> published F K (ob_size x) (ob_data x) ob s \<Longrightarrow> prg umask F K t (k Success) Q s"
  shows "prg umask F K t (Call (Sys_fchmod ob m) k) Q s"
proof (rule own_Call [OF assms(1), where f = "\<lambda>x. x\<lparr>ob_mode := regular m\<rparr>" and r = Success])
  show "ob_creator (x\<lparr>ob_mode := regular m\<rparr>) = t" using assms(1) by (simp add: mine_def)
  show "is_final F (x\<lparr>ob_mode := regular m\<rparr>) \<Longrightarrow> K (x\<lparr>ob_mode := regular m\<rparr>)" using assms(2) by simp
  show "(\<exists>e. a = Failed e) \<and> s' = s \<or> a = Success \<and> s' = object_at ob (\<lambda>x. x\<lparr>ob_mode := regular m\<rparr>) s"
    if "posix_sys umask t s (Sys_fchmod ob m) a s'" for s a s' using that by (auto simp: posix_sys_simps)
  show "prg umask F K t (k Success) Q (object_at ob (\<lambda>x. x\<lparr>ob_mode := regular m\<rparr>) s)"
    if "\<not> is_final F (x\<lparr>ob_mode := regular m\<rparr>) \<Longrightarrow> mine F K t ob (x\<lparr>ob_mode := regular m\<rparr>) (object_at ob (\<lambda>x. x\<lparr>ob_mode := regular m\<rparr>) s)"
      "is_final F (x\<lparr>ob_mode := regular m\<rparr>) \<Longrightarrow> published F K (ob_size (x\<lparr>ob_mode := regular m\<rparr>)) (ob_data (x\<lparr>ob_mode := regular m\<rparr>)) ob
        (object_at ob (\<lambda>x. x\<lparr>ob_mode := regular m\<rparr>) s)" for s
    using that assms(4,5) by (cases "as_permission m = F") simp_all
qed (use assms(3) in simp_all)

text \<open>A use of a published object through its memory.\<close>

lemma use_Call:
  assumes "published F K n d ob s" and "\<And>x. K x \<Longrightarrow> K (x\<lparr>ob_value := fst (g (ob_value x))\<rparr>)"
    and "\<And>s b. published F K n d ob s \<Longrightarrow> prg umask F K t (k (Flag b)) Q s"
  shows "prg umask F K t (Call (Sys_memory ob g) k) Q s"
proof (rule rg_Call [OF stable_facts(3) assms(1)])
  fix s a s'
  assume p: "published F K n d ob s" and "posix_sys umask t s (Sys_memory ob g) a s'"
  then obtain b where s': "a = Flag b" "s' = object_at ob (\<lambda>x. x\<lparr>ob_value := fst (g (ob_value x))\<rparr>) s" using memory_step by blast
  have "K ((os_objects s ob)\<lparr>ob_value := fst (g (ob_value (os_objects s ob)))\<rparr>)" using assms(2) published_K [OF p] by blast
  then have good: "all_good F K s'" using p unfolding s'(2) by (auto simp: published_def all_good_def object_at_def)
  then have "published F K n d ob s'" using p unfolding s'(2) by (auto simp: published_def object_at_def)
  moreover have "guar F K t s s'" using p good unfolding s'(2) by (auto simp: published_def guar_def object_kept_def object_at_def)
  ultimately show "guar F K t s s' \<and> prg umask F K t (k a) Q s'" using assms(3) s'(1) by simp
qed

section \<open>New and existing objects\<close>

lemma new_object_mine:
  fixes s :: "'v os_state"
  assumes "all_good F K s" and "as_permission m \<noteq> F" and "s' = shm_name p (Some (os_next s)) (add_object t m s) \<or> s' = file_name_to p (Some (os_next s)) (add_object t m s)"
  shows "guar F K t s s'" and "mine F K t (os_next s) (new_object t (regular m)) s'"
proof -
  have good: "all_good F K s'" using assms
    by (auto simp: all_good_def shm_name_def file_name_to_def add_object_def new_object_def less_Suc_eq split: if_splits)
  then show "guar F K t s s'" using assms(3) by (auto simp: guar_def object_kept_def shm_name_def file_name_to_def add_object_def)
  show "mine F K t (os_next s) (new_object t (regular m)) s'" using good assms(2,3)
    by (auto simp: mine_def shm_name_def file_name_to_def add_object_def new_object_def)
qed

lemma fcntl_rg:
  assumes "\<And>b s0 s1. P s0 \<Longrightarrow> posix_sys umask t s0 (Sys_fcntl fd) b s1 \<Longrightarrow> P s1" and "stable_under P (rely F K t)" and "P s" and "\<And>s. P s \<Longrightarrow> all_good F K s"
  shows "prg umask F K t (Call (Sys_fcntl fd) (\<lambda>b. case b of Failed e \<Rightarrow> Return (Inl e) | _ \<Rightarrow> Return (Inr fd)))
    (\<lambda>r s. all_good F K s \<and> (\<forall>fd'. r = Inr fd' \<longrightarrow> fd' = fd \<and> P s)) s"
  apply (rule rg_Call [OF assms(2,3)])
  subgoal for s0 b s1 using assms(1) [of s0 b s1] assms(4) stable_rtranclp [OF assms(2)] quiet_guar [of umask t s0 "Sys_fcntl fd" b s1 F K]
    by (auto split: sys_answer.split)
  done

lemma fd_new_create_rg:
  assumes "all_good F K s" and "as_permission (m AND NOT umask) \<noteq> F" and "O_EXCL \<in> set fl" and "c = Sys_shm_open p fl m \<or> c = Sys_open p fl m"
  shows "prg umask F K t (fd_new c) (\<lambda>r s. all_good F K s \<and> (\<forall>fd. r = Inr fd \<longrightarrow> mine F K t fd (new_object t (regular (m AND NOT umask))) s)) s"
  unfolding fd_new_def
  apply (rule rg_Call [OF stable_facts(1) assms(1)])
  subgoal premises prems for s a s'
  proof -
    from prems(2) assms(3,4) consider e where "a = Failed e" "s' = s"
      | "a = Descriptor (os_next s)" "s' = shm_name p (Some (os_next s)) (add_object t (m AND NOT umask) s) \<or> s' = file_name_to p (Some (os_next s)) (add_object t (m AND NOT umask) s)"
      by (auto simp: posix_sys_simps)
    then show ?thesis
    proof cases
      case 1
      then show ?thesis using prems(1) by (auto intro: env_facts(1))
    next
      case 2
      note m = new_object_mine [OF prems(1) assms(2) 2(2)]
      show ?thesis unfolding 2(1) sys_answer.case
        by (rule conjI [OF m(1)], rule rg_mono [OF fcntl_rg [OF _ stable_facts(4) m(2)]]) (auto intro: quiet_facts(3) fact_good(3))
    qed
  qed
  done

lemma fd_new_open_rg:
  assumes "all_good F K s" and "O_CREAT \<notin> set fl" and "c = Sys_shm_open p fl m \<or> c = Sys_open p fl m"
  shows "prg umask F K t (fd_new c) (\<lambda>r s. all_good F K s \<and> (\<forall>fd. r = Inr fd \<longrightarrow> seen F K fd 0 s)) s"
  unfolding fd_new_def
  apply (rule quiet_Call(4) [OF _ assms(1)])
  subgoal using assms(2,3) by auto
  subgoal premises prems for s0 s a
  proof -
    from prems(3) assms(2,3) consider e where "a = Failed e" | fd where "a = Descriptor fd" "s = s0" "os_shm s0 p = Some fd \<or> os_files s0 p = Some fd"
      by (auto simp: posix_sys_simps)
    then show ?thesis
    proof cases
      case 1
      then show ?thesis using prems(2) by (auto intro: env_facts(1))
    next
      case 2
      then have "seen F K fd 0 s" using prems(1) by (auto simp: seen_def all_good_def)
      then show ?thesis unfolding 2(1) sys_answer.case
        by (intro rg_mono [OF fcntl_rg [OF _ stable_facts(2)]]) (auto intro: quiet_facts(1) fact_good(1))
    qed
  qed
  done

end
