(* ===== verification/PosixStorage.thy ===== *)
theory PosixStorage
  imports PosixSharedMemory ObjectProtocol ServiceStorage
begin

text \<open>
  \<^verbatim>\<open>elkodon_cal/src/dynamic_storage/posix_shared_memory.rs\<close>: a value in shared memory that a creator initializes and other processes open. The permissions of the
  shared memory say whether the value is complete. The programs of any number of processes that create, open, use, drop and remove storages are interleaved at their system
  calls; an interpretation of \<open>rely_guarantee\<close> shows that nobody gets hold of a value that is not initialized.

  \<open>size_of\<close> is the size of the type of the value; \<open>initializer v alloc\<close> returns the value after the initialization and whether it succeeded.
\<close>

section \<open>Operations\<close>

definition PDS_FINAL_PERMISSIONS :: permission where
  "PDS_FINAL_PERMISSIONS = OWNER_ALL"

record pds_storage =
  pds_shm :: shared_memory
  pds_name :: byte_string

definition pds_full_name :: "named_concept_config \<Rightarrow> byte_string \<Rightarrow> ('e, u8 list) outcome" where
  "pds_full_name cfg name = obind (path_for cfg name) fp_file_name"

definition pds_create_error :: "shm_creation_error \<Rightarrow> dynamic_create_error" where
  "pds_create_error e = (case e of AlreadyExist \<Rightarrow> DynamicAlreadyExists | _ \<Rightarrow> DynamicCreation)"

definition pds_finish :: "(shared_memory \<Rightarrow> ('v, (dynamic_create_error, pds_storage) outcome) sys_prog) \<Rightarrow> permission \<Rightarrow> shared_memory
    \<Rightarrow> ('v, (dynamic_create_error, pds_storage) outcome) sys_prog" where
  "pds_finish f p m = pbind (fd_set_permission (sm_file_descriptor m) p) (\<lambda>r. case r of
     Ok _ \<Rightarrow> f m | Err _ \<Rightarrow> shm_fail m DynamicCreation | Panic \<Rightarrow> Return Panic | UB \<Rightarrow> Return UB)"

definition pds_initialize :: "'v \<Rightarrow> ('v \<Rightarrow> bump_allocator \<Rightarrow> 'v \<times> bool) \<Rightarrow> usize \<Rightarrow> dynamic_builder \<Rightarrow> shared_memory
    \<Rightarrow> ('v, (dynamic_create_error, pds_storage) outcome) sys_prog" where
  "pds_initialize initial_value initializer size_of b m =
     (let fd = sm_file_descriptor m; allocator = bump_new (sm_base_address m + size_of) (sm_size m - size_of) in
      Call (Sys_memory fd (\<lambda>_. (Some initial_value, True))) (\<lambda>_.
      Call (Sys_memory fd (\<lambda>v. case v of None \<Rightarrow> (None, False) | Some x \<Rightarrow> (Some (fst (initializer x allocator)), snd (initializer x allocator)))) (\<lambda>a.
        if a = Flag True then pds_finish (\<lambda>m. Return (Ok \<lparr>pds_shm = m, pds_name = db_name b\<rparr>)) PDS_FINAL_PERMISSIONS m
        else pds_finish (\<lambda>m. shm_fail m InitializationFailed) (OWNER_WRITE OR OWNER_READ) m)))"

definition pds_create_and_initialize ::
  "usize \<Rightarrow> dynamic_builder \<Rightarrow> 'v \<Rightarrow> ('v \<Rightarrow> bump_allocator \<Rightarrow> 'v \<times> bool) \<Rightarrow> ('v, (dynamic_create_error, pds_storage) outcome) sys_prog" where
  "pds_create_and_initialize size_of b initial_value initializer =
     pthen (Return (pds_full_name (db_config b) (db_name b))) (\<lambda>full_name.
     pthen (Return (uadd size_of (db_supplementary_size b))) (\<lambda>n.
     pbind (shm_create_memory ((shm_creation_mode CreateExclusive (shm_builder_new full_name))
              \<lparr>sh_size := n, sh_permission := OWNER_WRITE, sh_zero_memory := False, sh_has_ownership := db_ownership b\<rparr>)) (\<lambda>r. case r of
       Ok m \<Rightarrow> pds_initialize initial_value initializer size_of b m
     | Err e \<Rightarrow> Return (Err (pds_create_error e)) | Panic \<Rightarrow> Return Panic | UB \<Rightarrow> Return UB)))"

definition pds_open_error :: "shm_creation_error \<Rightarrow> dynamic_open_error" where
  "pds_open_error e = (case e of DoesNotExist \<Rightarrow> DynamicDoesNotExist | InsufficientPermissions \<Rightarrow> InitializationNotYetFinalized | _ \<Rightarrow> DynamicOpen)"

definition pds_try_open :: "usize \<Rightarrow> dynamic_builder \<Rightarrow> ('v, (dynamic_open_error, pds_storage) outcome) sys_prog" where
  "pds_try_open size_of b =
     pthen (Return (pds_full_name (db_config b) (db_name b))) (\<lambda>full_name.
     pbind (shm_open_existing AccessReadWrite (shm_builder_new full_name)) (\<lambda>r. case r of
       Ok m \<Rightarrow> pbind (fd_permission (sm_file_descriptor m)) (\<lambda>r. case r of
           Ok p \<Rightarrow>
             if p \<noteq> PDS_FINAL_PERMISSIONS then shm_fail m InitializationNotYetFinalized
             else pthen (Return (uadd size_of (db_supplementary_size b))) (\<lambda>required_size.
               if sm_size m < required_size then shm_fail m DynamicOpenInternalError
               else Return (Ok \<lparr>pds_shm = m, pds_name = db_name b\<rparr>))
         | Err _ \<Rightarrow> shm_fail m DynamicOpenInternalError | Panic \<Rightarrow> Return Panic | UB \<Rightarrow> Return UB)
     | Err e \<Rightarrow> Return (Err (pds_open_error e)) | Panic \<Rightarrow> Return Panic | UB \<Rightarrow> Return UB))"

definition pds_does_exist_cfg :: "byte_string \<Rightarrow> named_concept_config \<Rightarrow> ('v, ('e, bool) outcome) sys_prog" where
  "pds_does_exist_cfg name cfg = pthen (Return (pds_full_name cfg name)) (\<lambda>full_name. pmap Ok (shm_does_exist full_name))"

datatype named_remove_error = RemoveInsufficientPermissions | RemoveInternalError

definition pds_remove_cfg :: "byte_string \<Rightarrow> named_concept_config \<Rightarrow> ('v, (named_remove_error, bool) outcome) sys_prog" where
  "pds_remove_cfg name cfg = pthen (Return (pds_full_name cfg name)) (\<lambda>full_name. pmap (\<lambda>r. case r of
       Ok _ \<Rightarrow> Ok True
     | Err ShmRemoveDoesNotExist \<Rightarrow> Ok False
     | Err ShmRemoveInsufficientPermissions \<Rightarrow> Err RemoveInsufficientPermissions
     | Err _ \<Rightarrow> Err RemoveInternalError | Panic \<Rightarrow> Panic | UB \<Rightarrow> UB) (shm_remove full_name))"

definition pds_acquire_ownership :: "pds_storage \<Rightarrow> pds_storage" where
  "pds_acquire_ownership st = st\<lparr>pds_shm := (pds_shm st)\<lparr>sm_has_ownership := True\<rparr>\<rparr>"

definition pds_release_ownership :: "pds_storage \<Rightarrow> pds_storage" where
  "pds_release_ownership st = st\<lparr>pds_shm := (pds_shm st)\<lparr>sm_has_ownership := False\<rparr>\<rparr>"

text \<open>An access to the value through \<^verbatim>\<open>get\<close>.\<close>

definition pds_get :: "('v \<Rightarrow> 'v) \<Rightarrow> pds_storage \<Rightarrow> ('v, unit) sys_prog" where
  "pds_get f st = Call (Sys_memory (sm_file_descriptor (pds_shm st)) (\<lambda>v. (map_option f v, True))) (\<lambda>_. Return ())"

section \<open>Processes\<close>

text \<open>What a process holds after a call, and what it may call next. \<open>ready\<close> is what a value that was initialized satisfies; every initializer that
  succeeds establishes it and every use keeps it.\<close>

datatype pds_holds = NoStorage | Holds pds_storage

definition pds_held :: "('e, pds_storage) outcome \<Rightarrow> pds_holds" where
  "pds_held r = (case r of Ok st \<Rightarrow> Holds st | _ \<Rightarrow> NoStorage)"

inductive pds_calls :: "('v \<Rightarrow> bool) \<Rightarrow> usize \<Rightarrow> pds_holds \<Rightarrow> ('v, pds_holds) sys_prog \<Rightarrow> bool" for ready size_of where
  pc_create: "(\<And>alloc. snd (initializer v alloc) \<Longrightarrow> ready (fst (initializer v alloc))) \<Longrightarrow>
     pds_calls ready size_of NoStorage (pmap pds_held (pds_create_and_initialize size_of b v initializer))"
| pc_open: "pds_calls ready size_of NoStorage (pmap pds_held (pds_try_open size_of b))"
| pc_exists: "pds_calls ready size_of NoStorage (pmap (\<lambda>_. NoStorage) (pds_does_exist_cfg name cfg :: ('v, (unit, bool) outcome) sys_prog))"
| pc_remove: "pds_calls ready size_of NoStorage (pmap (\<lambda>_. NoStorage) (pds_remove_cfg name cfg))"
| pc_use: "(\<And>x. ready x \<Longrightarrow> ready (f x)) \<Longrightarrow> pds_calls ready size_of (Holds st) (pmap (\<lambda>_. Holds st) (pds_get f st))"
| pc_acquire: "pds_calls ready size_of (Holds st) (Return (Holds (pds_acquire_ownership st)))"
| pc_release: "pds_calls ready size_of (Holds st) (Return (Holds (pds_release_ownership st)))"
| pc_drop: "pds_calls ready size_of (Holds st) (pmap (\<lambda>_. NoStorage) (shm_drop (pds_shm st) :: ('v, (unit, unit) outcome) sys_prog))"

definition empty_os :: "'v os_state" where
  "empty_os = \<lparr>os_shm = (\<lambda>_. None), os_files = (\<lambda>_. None), os_nodes = (\<lambda>_. None), os_objects = (\<lambda>_. new_object 0 0), os_next = 0\<rparr>"

abbreviation pds_reach :: "32 word \<Rightarrow> ('v \<Rightarrow> bool) \<Rightarrow> usize \<Rightarrow> 'v os_state \<Rightarrow> (nat \<Rightarrow> ('v, pds_holds) sys_prog) \<Rightarrow> bool" where
  "pds_reach umask ready size_of \<equiv> prog_reach (posix_sys umask) (\<lambda>h. {p. pds_calls ready size_of h p}) empty_os NoStorage"

section \<open>What a storage promises\<close>

definition pds_complete :: "('v \<Rightarrow> bool) \<Rightarrow> 'v os_object \<Rightarrow> bool" where
  "pds_complete ready x \<longleftrightarrow> (\<exists>v. ob_value x = Some v \<and> ready v) \<and> ob_size x \<noteq> 0"

abbreviation pds_good :: "('v \<Rightarrow> bool) \<Rightarrow> 'v os_state \<Rightarrow> bool" where
  "pds_good ready \<equiv> all_good PDS_FINAL_PERMISSIONS (pds_complete ready)"

abbreviation pds_mine :: "('v \<Rightarrow> bool) \<Rightarrow> nat \<Rightarrow> nat \<Rightarrow> 'v os_object \<Rightarrow> 'v os_state \<Rightarrow> bool" where
  "pds_mine ready \<equiv> mine PDS_FINAL_PERMISSIONS (pds_complete ready)"

abbreviation pds_rg :: "32 word \<Rightarrow> ('v \<Rightarrow> bool) \<Rightarrow> nat \<Rightarrow> ('v, 'r) sys_prog \<Rightarrow> ('r \<Rightarrow> 'v os_state \<Rightarrow> bool) \<Rightarrow> 'v os_state \<Rightarrow> bool" where
  "pds_rg umask ready t \<equiv> prg umask PDS_FINAL_PERMISSIONS (pds_complete ready) t"

definition pds_usable :: "('v \<Rightarrow> bool) \<Rightarrow> usize \<Rightarrow> nat \<Rightarrow> 'v os_state \<Rightarrow> bool" where
  "pds_usable ready k ob s \<longleftrightarrow> (\<exists>n d. k \<le> n \<and> published PDS_FINAL_PERMISSIONS (pds_complete ready) n d ob s)"

definition pds_post :: "('v \<Rightarrow> bool) \<Rightarrow> usize \<Rightarrow> ('e, pds_storage) outcome \<Rightarrow> 'v os_state \<Rightarrow> bool" where
  "pds_post ready k r s \<longleftrightarrow> pds_good ready s \<and> (\<forall>st. r = Ok st \<longrightarrow> pds_usable ready k (sm_file_descriptor (pds_shm st)) s)"

lemma pds_usable_stable: "stable_under (pds_usable ready k ob) (rely PDS_FINAL_PERMISSIONS (pds_complete ready) t)"
  using stable_facts(3) unfolding stable_under_def pds_usable_def by blast

lemma pds_usable_good: "pds_usable ready k ob s \<Longrightarrow> pds_good ready s"
  by (auto simp: pds_usable_def dest: fact_good(2))

lemma pds_usable_env: "pds_usable ready k ob s \<Longrightarrow> (rely PDS_FINAL_PERMISSIONS (pds_complete ready) t)\<^sup>*\<^sup>* s s' \<Longrightarrow> pds_usable ready k ob s'"
  by (auto simp: pds_usable_def intro: env_facts(3))

lemma shm_drop_quiet: "calls_in {c. quiet_call c} (shm_drop m)"
  by (auto simp: shm_drop_def shm_unlink_def fd_drop_def memory_lock_drop_def pmap_def intro!: calls_in_pbind split: sys_answer.split)

lemma shm_fail_rg:
  assumes "all_good F K s" and "\<And>s. all_good F K s \<Longrightarrow> Q Panic s" and "\<And>s. all_good F K s \<Longrightarrow> Q (Err e) s"
  shows "prg umask F K t (shm_fail m e) Q s"
proof -
  have p: "prg umask F K t (shm_drop m) (\<lambda>r. all_good F K) s" by (rule quiet_program [OF shm_drop_quiet assms(1)])
  show ?thesis unfolding shm_fail_def
    by (rule rg_pbind, rule rg_mono [OF p], rule rg_Return [OF stable_facts(1)]) (use assms(2,3) in auto)
qed

lemma fail_after_rg:
  assumes "all_good F K s" and "\<And>s. all_good F K s \<Longrightarrow> Q (Err e) s"
  shows "prg umask F K t (fail_after (fd_drop fd) e) Q s"
proof -
  have "prg umask F K t (fd_drop fd) (\<lambda>r. all_good F K) s" by (rule quiet_program [OF _ assms(1)]) (simp add: fd_drop_def)
  then show ?thesis unfolding fail_after_def
    by (intro rg_pbind, elim rg_mono, intro rg_Return [OF stable_facts(1)]) (use assms(2) in auto)
qed

section \<open>Creation\<close>

lemma write_only_not_final: "as_permission (as_mode OWNER_WRITE AND x) \<noteq> PDS_FINAL_PERMISSIONS"
proof
  assume "as_permission (as_mode OWNER_WRITE AND x) = PDS_FINAL_PERMISSIONS"
  then have "bit ((OWNER_WRITE AND x) AND MASK) 8 = bit OWNER_ALL 8" by (simp add: as_permission_mask as_mode_def PDS_FINAL_PERMISSIONS_def)
  then show False by (simp add: permission_defs bit_simps)
qed

definition pds_shm_config :: "u8 list \<Rightarrow> usize \<Rightarrow> bool \<Rightarrow> shm_config" where
  "pds_shm_config name n owner = (shm_creation_mode CreateExclusive (shm_builder_new name))
     \<lparr>sh_size := n, sh_permission := OWNER_WRITE, sh_zero_memory := False, sh_has_ownership := owner\<rparr>"

text \<open>The object of a storage before its value is written, without and with its size.\<close>

abbreviation fresh_object :: "nat \<Rightarrow> 32 word \<Rightarrow> 'v os_object" where
  "fresh_object t umask \<equiv> new_object t (regular (as_mode OWNER_WRITE AND NOT umask))"

definition sized_object :: "nat \<Rightarrow> 32 word \<Rightarrow> nat \<Rightarrow> 'v option \<Rightarrow> 'v os_object" where
  "sized_object t umask n v = (fresh_object t umask)\<lparr>ob_size := n, ob_data := resize n [], ob_value := v\<rparr>"

definition created :: "32 word \<Rightarrow> ('v \<Rightarrow> bool) \<Rightarrow> nat \<Rightarrow> usize \<Rightarrow> (shm_creation_error, shared_memory) outcome \<Rightarrow> 'v os_state \<Rightarrow> bool" where
  "created umask ready t n r s \<longleftrightarrow> pds_good ready s \<and> (\<forall>m. r = Ok m \<longrightarrow> pds_mine ready t (sm_file_descriptor m) (sized_object t umask n None) s \<and> 0 < n)"

lemma acquire_rg:
  assumes "pds_good ready s"
  shows "pds_rg umask ready t (shm_acquire (pds_shm_config name n owner))
    (\<lambda>r s. pds_good ready s \<and> (case r of Ok (fd, c, w) \<Rightarrow> c \<and> pds_mine ready t fd (fresh_object t umask) s | Err e \<Rightarrow> True | _ \<Rightarrow> False)) s"
proof -
  let ?b = "pds_shm_config name n owner"
  have b: "sh_creation_mode ?b = Some CreateExclusive" "sh_permission ?b = OWNER_WRITE" by (simp_all add: pds_shm_config_def shm_creation_mode_def)
  note create = fd_new_create_rg [OF assms write_only_not_final _ disjI1 [OF refl]]
  show ?thesis unfolding shm_acquire_def b(1) option.case creation_mode.case shm_create_fd_def b(2)
    by (intro rg_pmap rg_mono [OF create]) (auto intro: env_facts split: sum.splits)
qed

lemma check_size_rg:
  assumes "pds_mine ready t (sm_file_descriptor m) (sized_object t umask n None) s" and "0 < n" and "sh_size b = n" and "\<not> sh_is_memory_locked b" and "\<not> sh_zero_memory b"
  shows "pds_rg umask ready t (shm_check_size b m (shm_lock_and_zero b)) (created umask ready t n) s"
  unfolding shm_check_size_def fd_metadata_def acquire_attributes_def pmap_simps pbind.simps
  apply (rule quiet_Call(1) [OF _ assms(1)], simp)
  subgoal premises prems for s0 s a
  proof -
    from prems consider e where "a = Failed e" | mode where "a = Attributes mode n" by (auto simp: posix_sys_simps mine_def sized_object_def)
    then show ?thesis
    proof cases
      case 1
      then show ?thesis using shm_fail_rg [OF fact_good(3) [OF prems(2)], of "created umask ready t n"] by (simp add: created_def)
    next
      case 2
      then show ?thesis using assms(2-5) env_facts(1) [OF fact_good(3) [OF prems(2)]] env_facts(4) [OF prems(2)]
        by (simp add: shm_lock_and_zero_def created_def metadata_create_def)
    qed
  qed
  done

lemma truncate_rg:
  assumes "pds_mine ready t fd (fresh_object t umask) s" and "0 < n" and "sh_size b = n" and "\<not> sh_is_memory_locked b" and "\<not> sh_zero_memory b" and "sm_file_descriptor m = fd"
  shows "pds_rg umask ready t (pbind (file_truncate fd n) (\<lambda>r. case r of Ok _ \<Rightarrow> shm_check_size b m (shm_lock_and_zero b)
    | Err e \<Rightarrow> shm_fail m (ShmFileTruncateError e) | Panic \<Rightarrow> Return Panic | UB \<Rightarrow> Return UB)) (created umask ready t n) s"
  unfolding file_truncate_def sys_unit_def pbind.simps
  apply (rule own_Call [OF assms(1), where f = "\<lambda>x. x\<lparr>ob_size := n, ob_data := resize n (ob_data x)\<rparr>" and r = Success])
  subgoal by (simp add: new_object_def)
  subgoal by (simp add: new_object_def)
  subgoal using write_only_not_final by (simp add: new_object_def)
  subgoal by (auto simp: posix_sys_simps)
  subgoal premises prems for s e using shm_fail_rg [OF fact_good(3) [OF prems], of "created umask ready t n"] by (simp add: created_def)
  subgoal premises prems for s
  proof -
    have x: "(fresh_object t umask)\<lparr>ob_size := n, ob_data := resize n (ob_data (fresh_object t umask))\<rparr> = sized_object t umask n None"
      by (simp add: sized_object_def new_object_def)
    have "\<not> is_final PDS_FINAL_PERMISSIONS (sized_object t umask n None)" using write_only_not_final by (simp add: sized_object_def new_object_def)
    then have "pds_mine ready t fd (sized_object t umask n None) (object_at fd (\<lambda>x. x\<lparr>ob_size := n, ob_data := resize n (ob_data x)\<rparr>) s)" using prems(2) unfolding x by blast
    then show ?thesis using check_size_rg [of ready t m umask n _ b] assms(2-6) by simp
  qed
  done

lemma create_memory_rg:
  assumes "pds_good ready s"
  shows "pds_rg umask ready t (shm_create_memory (pds_shm_config name n owner)) (created umask ready t n) s"
proof -
  let ?b = "pds_shm_config name n owner"
  have b: "sh_size ?b = n" "\<not> sh_is_memory_locked ?b" "\<not> sh_zero_memory ?b" "sh_enforce_base_address ?b = None"
    by (simp_all add: pds_shm_config_def shm_creation_mode_def shm_builder_new_def)
  have no: "created umask ready t n (Err e) s'" "created umask ready t n Panic s'" if "pds_good ready s'" for s' e using that by (simp_all add: created_def)
  show ?thesis unfolding shm_create_memory_def pthen_def
    apply (rule rg_pbind, rule rg_mono [OF acquire_rg [OF assms]])
    subgoal premises prems for r s
    proof (cases r)
      case (Err e)
      then show ?thesis using prems no(1) by (auto intro: env_facts(1))
    next
      case (Ok x)
      then obtain fd w where x: "x = (fd, True, w)" and m: "pds_mine ready t fd (fresh_object t umask) s" using prems by (cases x) auto
      show ?thesis unfolding Ok x outcome.case prod.case shm_mmap_def pbind.simps
        apply (rule quiet_Call(1) [OF _ m], simp)
        subgoal premises prems for s0 s a
        proof -
          from prems consider e where "a = Failed e" | base where "a = Address base" "0 < n" by (auto simp: posix_sys_simps b(1))
          then show ?thesis
          proof cases
            case 1
            then show ?thesis using fail_after_rg [OF fact_good(3) [OF prems(2)], of "created umask ready t n"] no by simp
          next
            case 2
            then show ?thesis using truncate_rg [OF prems(2) 2(2), of ?b] b by (simp add: Let_def)
          qed
        qed
        done
    qed (use prems in auto)
    done
qed

text \<open>An access of the creator to the value.\<close>

lemma own_memory_Call:
  assumes "pds_mine ready t ob (sized_object t umask n v) s" and "f v = (w, c)" and "\<And>s. pds_mine ready t ob (sized_object t umask n w) s \<Longrightarrow> pds_rg umask ready t (k (Flag c)) Q s"
  shows "pds_rg umask ready t (Call (Sys_memory ob f) k) Q s"
proof -
  have x: "(sized_object t umask n v)\<lparr>ob_value := w\<rparr> = (sized_object t umask n w :: 'a os_object)" by (simp add: sized_object_def)
  have nf: "\<not> is_final PDS_FINAL_PERMISSIONS (sized_object t umask n w)" using write_only_not_final by (simp add: sized_object_def new_object_def)
  show ?thesis
  proof (rule rg_Call [OF stable_facts(4) assms(1)])
    fix s a s'
    assume m: "pds_mine ready t ob (sized_object t umask n v) s" and step: "posix_sys umask t s (Sys_memory ob f) a s'"
    have "ob_value (os_objects s ob) = v" using m by (simp add: mine_def sized_object_def)
    then have a: "a = Flag c" and s': "s' = object_at ob (\<lambda>x. x\<lparr>ob_value := w\<rparr>) s"
      using memory_step [OF step] assms(2) by (auto intro: object_at_cong)
    have "ob_creator (sized_object t umask n w :: 'a os_object) = t" "ob_size (sized_object t umask n w :: 'a os_object) = ob_size (sized_object t umask n v :: 'a os_object)"
      by (simp_all add: sized_object_def new_object_def)
    with own_update [OF m, of "\<lambda>x. x\<lparr>ob_value := w\<rparr>", unfolded x] nf show "guar PDS_FINAL_PERMISSIONS (pds_complete ready) t s s' \<and> pds_rg umask ready t (k a) Q s'"
      unfolding a s' using assms(3) by blast
  qed
qed

lemma finish_rg:
  assumes "pds_mine ready t (sm_file_descriptor m) x s" and "as_permission p = PDS_FINAL_PERMISSIONS \<Longrightarrow> pds_complete ready (x\<lparr>ob_mode := regular p\<rparr>)"
    and "\<And>s. as_permission p \<noteq> PDS_FINAL_PERMISSIONS \<Longrightarrow> pds_good ready s \<Longrightarrow> pds_rg umask ready t (f m) (pds_post ready k) s"
    and "\<And>s. as_permission p = PDS_FINAL_PERMISSIONS \<Longrightarrow> published PDS_FINAL_PERMISSIONS (pds_complete ready) (ob_size x) (ob_data x) (sm_file_descriptor m) s
      \<Longrightarrow> pds_rg umask ready t (f m) (pds_post ready k) s"
  shows "pds_rg umask ready t (pds_finish f p m) (pds_post ready k) s"
  unfolding pds_finish_def fd_set_permission_def sys_unit_def pbind.simps as_mode_def
  apply (rule fchmod_Call [OF assms(1,2)], assumption)
  subgoal premises prems for s e using shm_fail_rg [OF fact_good(3) [OF prems], of "pds_post ready k"] by (simp add: pds_post_def)
  subgoal premises prems for s using assms(3) [OF prems(1) fact_good(3) [OF prems(2)]] by simp
  subgoal premises prems for s using assms(4) [OF prems] by simp
  done

lemma read_write_not_final: "as_permission (OWNER_WRITE OR OWNER_READ) \<noteq> PDS_FINAL_PERMISSIONS"
  by (simp add: as_permission_mask PDS_FINAL_PERMISSIONS_def permission_defs)

lemma initialize_rg:
  assumes "pds_mine ready t (sm_file_descriptor m) (sized_object t umask n None) s" and "0 < n" and "size_of \<le> n"
    and "\<And>alloc. snd (initializer v alloc) \<Longrightarrow> ready (fst (initializer v alloc))"
  shows "pds_rg umask ready t (pds_initialize v initializer size_of b m) (pds_post ready size_of) s"
proof -
  let ?fd = "sm_file_descriptor m"
  define alloc where "alloc = bump_new (sm_base_address m + size_of) (sm_size m - size_of)"
  let ?w = "fst (initializer v alloc)"
  have final: "pds_rg umask ready t (Return (Ok \<lparr>pds_shm = m, pds_name = db_name b\<rparr>)) (pds_post ready size_of) s"
    if "published PDS_FINAL_PERMISSIONS (pds_complete ready) n d ?fd s" for s d
    by (rule rg_Return [OF stable_facts(3) that]) (use assms(3) fact_good(2) in \<open>auto simp: pds_post_def pds_usable_def\<close>)
  have ok: "pds_rg umask ready t (pds_finish (\<lambda>m. Return (Ok \<lparr>pds_shm = m, pds_name = db_name b\<rparr>)) PDS_FINAL_PERMISSIONS m) (pds_post ready size_of) s"
    if "pds_mine ready t ?fd (sized_object t umask n (Some ?w)) s" "ready ?w" for s
    by (rule finish_rg [OF that(1)]) (use that(2) assms(2) final in \<open>auto simp: pds_complete_def sized_object_def as_permission_mask PDS_FINAL_PERMISSIONS_def permission_defs\<close>)
  have refused: "pds_rg umask ready t (pds_finish (\<lambda>m. shm_fail m InitializationFailed) (OWNER_WRITE OR OWNER_READ) m) (pds_post ready size_of) s"
    if "pds_mine ready t ?fd (sized_object t umask n (Some ?w)) s" for s
    by (rule finish_rg [OF that]) (use read_write_not_final shm_fail_rg [of _ _ _ "pds_post ready size_of"] in \<open>auto simp: pds_post_def\<close>)
  show ?thesis unfolding pds_initialize_def Let_def alloc_def [symmetric]
    apply (rule own_memory_Call [OF assms(1), where w = "Some v" and c = True], simp)
    apply (rule own_memory_Call [where v = "Some v" and w = "Some ?w" and c = "snd (initializer v alloc)"], assumption, simp)
    using ok refused assms(4) by simp
qed

lemma pds_create_rg:
  assumes "pds_good ready s" and "\<And>alloc. snd (initializer v alloc) \<Longrightarrow> ready (fst (initializer v alloc))"
  shows "pds_rg umask ready t (pds_create_and_initialize size_of b v initializer) (pds_post ready size_of) s"
proof -
  have no: "pds_rg umask ready t (Return r) (pds_post ready size_of) s" if "pds_good ready s" "\<And>st. r \<noteq> Ok st" for s :: "'a os_state" and r :: "(dynamic_create_error, pds_storage) outcome"
    by (rule rg_Return [OF stable_facts(1) that(1)]) (simp add: pds_post_def that(2))
  show ?thesis
  proof (cases "pds_full_name (db_config b) (db_name b) :: (dynamic_create_error, _) outcome")
    case (Ok full)
    show ?thesis
    proof (cases "size_of + db_supplementary_size b < usize_lim")
      case True
      show ?thesis unfolding pds_create_and_initialize_def Ok uadd_Ok [OF True] pthen_simps pds_shm_config_def [symmetric]
        apply (rule rg_pbind, rule rg_mono [OF create_memory_rg [OF assms(1)]])
        subgoal premises prems for r s
        proof (cases r)
          case (Ok m)
          then show ?thesis using prems initialize_rg [of ready t m umask "size_of + db_supplementary_size b" s size_of initializer v, OF _ _ _ assms(2)] by (simp add: created_def)
        qed (use prems no in \<open>auto simp: created_def\<close>)
        done
    qed (use no [OF assms(1)] in \<open>simp add: pds_create_and_initialize_def Ok uadd_def\<close>)
  qed (use no [OF assms(1)] in \<open>simp_all add: pds_create_and_initialize_def\<close>)
qed

section \<open>Opening\<close>

definition opened :: "permission \<Rightarrow> ('v os_object \<Rightarrow> bool) \<Rightarrow> (shm_creation_error, shared_memory) outcome \<Rightarrow> 'v os_state \<Rightarrow> bool" where
  "opened F K r s \<longleftrightarrow> all_good F K s \<and> (\<forall>m. r = Ok m \<longrightarrow> seen F K (sm_file_descriptor m) (sm_size m) s \<and> 0 < sm_size m)"

lemma open_existing_rg:
  assumes "all_good F K s"
  shows "prg umask F K t (shm_open_existing AccessReadWrite (shm_builder_new name)) (opened F K) s"
proof -
  have no: "opened F K (Err e) s'" if "all_good F K s'" for s' e using that by (simp add: opened_def)
  have access: "sh_access_mode (b\<lparr>sh_access_mode := AccessReadWrite\<rparr>) = AccessReadWrite" for b :: shm_config by simp
  have open_fd: "prg umask F K t (shm_open_fd (b\<lparr>sh_access_mode := AccessReadWrite\<rparr>)) (\<lambda>r s. all_good F K s \<and> (case r of Ok fd \<Rightarrow> seen F K fd 0 s | Err e \<Rightarrow> True | _ \<Rightarrow> False)) s" for b
    unfolding shm_open_fd_def access
    by (rule rg_pmap, rule rg_mono [OF fd_new_open_rg [OF assms _ disjI1 [OF refl]]]) (auto intro: env_facts split: sum.splits)
  show ?thesis unfolding shm_open_existing_def Let_def pthen_def
    apply (rule rg_pbind, rule rg_mono [OF open_fd])
    subgoal premises prems for r s
    proof (cases r)
      case (Ok fd)
      then have fd: "seen F K fd 0 s" using prems by simp
      show ?thesis unfolding Ok outcome.case fd_metadata_def acquire_attributes_def pmap_simps pbind.simps
        apply (rule quiet_Call(2) [OF _ fd], simp)
        subgoal premises prems for s0 s a
        proof -
          from prems(3) consider e where "a = Failed e" | mode where "a = Attributes mode (ob_size (os_objects s fd))" by (auto simp: posix_sys_simps)
          then show ?thesis
          proof cases
            case 1
            then show ?thesis using fail_after_rg [OF fact_good(1) [OF prems(2)], of "opened F K"] no by simp
          next
            case 2
            then obtain mode n where a: "a = Attributes mode n" and seen: "seen F K fd n s" using prems(2) by (auto simp: seen_def)
            show ?thesis unfolding a sys_answer.case pmap_simps omap.simps prod.case pbind.simps outcome.case shm_mmap_def metadata_create_def metadata.simps
              apply (rule quiet_Call(2) [OF _ seen], simp)
              subgoal premises prems for s0 s b
              proof -
                from prems(3) consider e where "b = Failed e" | base where "b = Address base" "0 < n" by (auto simp: posix_sys_simps)
                then show ?thesis
                proof cases
                  case 1
                  then show ?thesis using fail_after_rg [OF fact_good(1) [OF prems(2)], of "opened F K"] no by simp
                next
                  case 2
                  then show ?thesis using env_facts(2) [OF prems(2)] by (simp add: shm_builder_new_def opened_def) (auto simp: seen_def)
                qed
              qed
              done
          qed
        qed
        done
    qed (use prems no in \<open>auto intro: env_facts(1)\<close>)
    done
qed

lemma pds_open_rg:
  assumes "pds_good ready s"
  shows "pds_rg umask ready t (pds_try_open size_of b) (pds_post ready size_of) s"
proof -
  have no: "pds_rg umask ready t (Return r) (pds_post ready size_of) s" if "pds_good ready s" "\<And>st. r \<noteq> Ok st" for s :: "'a os_state" and r :: "(dynamic_open_error, pds_storage) outcome"
    by (rule rg_Return [OF stable_facts(1) that(1)]) (simp add: pds_post_def that(2))
  have fail: "pds_rg umask ready t (shm_fail m e) (pds_post ready size_of) s" if "pds_good ready s" for s :: "'a os_state" and m and e :: dynamic_open_error
    by (rule shm_fail_rg [OF that]) (simp_all add: pds_post_def)
  show ?thesis
  proof (cases "pds_full_name (db_config b) (db_name b) :: (dynamic_open_error, _) outcome")
    case (Ok full)
    show ?thesis unfolding pds_try_open_def Ok pthen_simps
      apply (rule rg_pbind, rule rg_mono [OF open_existing_rg [OF assms]])
      subgoal premises prems for r s
      proof (cases r)
        case (Ok m)
        let ?x = "\<lambda>s. os_objects s (sm_file_descriptor m)"
        have m: "seen PDS_FINAL_PERMISSIONS (pds_complete ready) (sm_file_descriptor m) (sm_size m) s" "0 < sm_size m" using prems Ok by (simp_all add: opened_def)
        show ?thesis unfolding Ok outcome.case fd_permission_def acquire_attributes_def pmap_simps pbind.simps
          apply (rule quiet_Call(2) [OF _ m(1)], simp)
          subgoal premises prems for s0 s a
          proof -
            have good: "pds_good ready s" by (rule fact_good(1) [OF prems(2)])
            from prems(3) consider e where "a = Failed e" | "\<not> is_final PDS_FINAL_PERMISSIONS (?x s)" "\<exists>n. a = Attributes (ob_mode (?x s)) n"
              | "is_final PDS_FINAL_PERMISSIONS (?x s)" "\<exists>n. a = Attributes (ob_mode (?x s)) n" by (auto simp: posix_sys_simps)
            then show ?thesis
            proof cases
              case 3
              show ?thesis
              proof (cases "size_of + db_supplementary_size b < usize_lim \<and> size_of + db_supplementary_size b \<le> sm_size m")
                case True
                have "published PDS_FINAL_PERMISSIONS (pds_complete ready) (sm_size m) (ob_data (?x s)) (sm_file_descriptor m) s"
                  using prems(2) m(2) 3(1) by (auto simp: published_def seen_def)
                moreover have "size_of \<le> sm_size m" using True by linarith
                ultimately have "pds_usable ready size_of (sm_file_descriptor m) s" unfolding pds_usable_def by blast
                then have "pds_rg umask ready t (Return (Ok \<lparr>pds_shm = m, pds_name = db_name b\<rparr>)) (pds_post ready size_of) s"
                  by (rule rg_Return [OF pds_usable_stable]) (auto simp: pds_post_def dest: pds_usable_good)
                then show ?thesis using 3 True by auto
              qed (use 3 fail [OF good] no [OF good] in \<open>auto simp: uadd_def\<close>)
            qed (use fail [OF good] in auto)
          qed
          done
      qed (use prems no in \<open>auto simp: opened_def\<close>)
      done
  qed (use no [OF assms] in \<open>simp_all add: pds_try_open_def\<close>)
qed

section \<open>All processes together\<close>

definition pds_Q :: "('v \<Rightarrow> bool) \<Rightarrow> usize \<Rightarrow> pds_holds \<Rightarrow> 'v os_state \<Rightarrow> bool" where
  "pds_Q ready size_of h s \<longleftrightarrow> pds_good ready s \<and> (\<forall>st. h = Holds st \<longrightarrow> pds_usable ready size_of (sm_file_descriptor (pds_shm st)) s)"

lemma pds_Q_env: "pds_Q ready size_of h s \<Longrightarrow> (rely PDS_FINAL_PERMISSIONS (pds_complete ready) t)\<^sup>*\<^sup>* s s' \<Longrightarrow> pds_Q ready size_of h s'"
  by (auto simp: pds_Q_def intro: env_facts(1) pds_usable_env)

lemma pds_held_rg: "pds_rg umask ready t p (pds_post ready size_of) s \<Longrightarrow> pds_rg umask ready t (pmap pds_held p) (pds_Q ready size_of) s"
  by (rule rg_pmap, erule rg_mono) (auto simp: pds_post_def pds_Q_def pds_held_def split: outcome.splits intro: env_facts(1) pds_usable_env)

lemma pds_dropped_rg: "calls_in {c. quiet_call c} p \<Longrightarrow> pds_good ready s \<Longrightarrow> pds_rg umask ready t (pmap (\<lambda>_. NoStorage) p) (pds_Q ready size_of) s"
  by (rule rg_pmap, rule rg_mono [OF quiet_program]) (auto simp: pds_Q_def intro: env_facts(1))

lemma pds_call_rg:
  assumes "pds_calls ready size_of h p" and "pds_Q ready size_of h s"
  shows "pds_rg umask ready t p (pds_Q ready size_of) s"
  using assms
proof (cases rule: pds_calls.cases)
  case (pc_create initializer v b)
  then show ?thesis using pds_held_rg [OF pds_create_rg [of ready s initializer v umask t size_of b]] assms(2) by (auto simp: pds_Q_def)
next
  case (pc_open b)
  then show ?thesis using pds_held_rg [OF pds_open_rg] assms(2) by (auto simp: pds_Q_def)
next
  case (pc_exists name cfg)
  have "calls_in {c. quiet_call c} (pds_does_exist_cfg name cfg :: ('a, (unit, bool) outcome) sys_prog)"
    unfolding pds_does_exist_cfg_def pthen_def shm_does_exist_def fd_new_def fd_drop_def
    by (auto intro!: calls_in_pbind calls_in_pmap split: outcome.split sys_answer.split sum.split)
  then show ?thesis using pds_dropped_rg pc_exists assms(2) by (auto simp: pds_Q_def)
next
  case (pc_remove name cfg)
  have "calls_in {c. quiet_call c} (pds_remove_cfg name cfg :: ('a, _) sys_prog)"
    unfolding pds_remove_cfg_def pthen_def shm_remove_def shm_unlink_def
    by (auto intro!: calls_in_pbind calls_in_pmap split: outcome.split sys_answer.split)
  then show ?thesis using pds_dropped_rg pc_remove assms(2) by (auto simp: pds_Q_def)
next
  case (pc_use f st)
  let ?fd = "sm_file_descriptor (pds_shm st)"
  obtain n d where p: "size_of \<le> n" "published PDS_FINAL_PERMISSIONS (pds_complete ready) n d ?fd s" using assms(2) pc_use(1) by (auto simp: pds_Q_def pds_usable_def)
  have kept: "pds_complete ready (x\<lparr>ob_value := fst (map_option f (ob_value x), True)\<rparr>)" if "pds_complete ready x" for x
    using that pc_use(3) by (auto simp: pds_complete_def)
  have done': "pds_rg umask ready t (Return (Holds st)) (pds_Q ready size_of) s'" if "published PDS_FINAL_PERMISSIONS (pds_complete ready) n d ?fd s'" for s'
    by (rule rg_Return [OF stable_facts(3) that]) (use p(1) fact_good(2) in \<open>auto simp: pds_Q_def pds_usable_def\<close>)
  show ?thesis unfolding pc_use(2) pds_get_def pmap_simps by (rule use_Call [OF p(2) kept done'])
next
  case (pc_acquire st)
  have "pds_Q ready size_of (Holds (pds_acquire_ownership st)) s" using assms(2) pc_acquire(1) by (simp add: pds_Q_def pds_acquire_ownership_def)
  then show ?thesis using pc_acquire(2) by (auto intro: pds_Q_env)
next
  case (pc_release st)
  have "pds_Q ready size_of (Holds (pds_release_ownership st)) s" using assms(2) pc_release(1) by (simp add: pds_Q_def pds_release_ownership_def)
  then show ?thesis using pc_release(2) by (auto intro: pds_Q_env)
next
  case (pc_drop st)
  then show ?thesis using pds_dropped_rg [OF shm_drop_quiet] assms(2) by (auto simp: pds_Q_def)
qed

interpretation pds: rely_guarantee "posix_sys umask" "\<lambda>h. {p. pds_calls ready size_of h p}" "rely PDS_FINAL_PERMISSIONS (pds_complete ready)"
  "guar PDS_FINAL_PERMISSIONS (pds_complete ready)" "\<lambda>t. pds_Q ready size_of" empty_os NoStorage
  for umask and ready :: "'v \<Rightarrow> bool" and size_of
proof unfold_locales
  fix t u :: nat and s s' :: "'v os_state" and h and p :: "('v, pds_holds) sys_prog"
  have "pds_Q ready size_of NoStorage (empty_os :: 'v os_state)" by (simp add: pds_Q_def all_good_def empty_os_def)
  then show "pds_rg umask ready t (Return NoStorage) (pds_Q ready size_of) empty_os" by (auto intro: pds_Q_env)
  show "pds_Q ready size_of h s \<Longrightarrow> p \<in> {p. pds_calls ready size_of h p} \<Longrightarrow> pds_rg umask ready t p (pds_Q ready size_of) s" using pds_call_rg by blast
  show "t \<noteq> u \<Longrightarrow> guar PDS_FINAL_PERMISSIONS (pds_complete ready) t s s' \<Longrightarrow> rely PDS_FINAL_PERMISSIONS (pds_complete ready) u s s'" by (rule rely_of_guar)
qed

text \<open>C16: a dynamic storage in shared memory that is in the midst of its creation cannot be used. In every interleaving of the system calls of any number of processes that
  create, open, use, drop and remove storages, whichever calls fail and whatever the permissions allow, a process that holds a storage finds an initialized
  value in it, and enough memory for its type, from the moment on at which the storage was returned to it.\<close>

theorem storage_is_initialized:
  assumes "pds_reach umask ready size_of s f" and "f t = Return (Holds st)"
  shows "(\<exists>v. ob_value (os_objects s (sm_file_descriptor (pds_shm st))) = Some v \<and> ready v)
    \<and> size_of \<le> ob_size (os_objects s (sm_file_descriptor (pds_shm st)))"
  using pds.results_hold [OF assms] published_K [of PDS_FINAL_PERMISSIONS "pds_complete ready"] by (fastforce simp: pds_Q_def pds_usable_def published_def pds_complete_def)

section \<open>The life of a storage\<close>

lemma pds_full_name_Ok: "concept_ok cfg name \<Longrightarrow> pds_full_name cfg name = (Ok (content name @ content (suffix cfg)) :: ('e, _) outcome)"
proof -
  assume ok: "concept_ok cfg name"
  then have cfg: "content (suffix cfg) \<noteq> []" "\<not> invalid_characters FileName (content (suffix cfg))"
    and n: "\<not> invalid_content FileName (content name)" "\<not> invalid_characters FileName (content name)"
    by (auto simp: concept_ok_def config_valid_def ss_valid_def) (simp add: FileName_def)
  obtain fp where fp: "path_for cfg name = (Ok fp :: ('e, _) outcome)" "ss_valid FilePath fp"
    "content fp = join_path (content (path_hint cfg)) (content name @ content (suffix cfg))"
    using path_for_Ok [of cfg name, where ?'e = 'e] ok by (auto simp: concept_ok_def concept_key_def)
  have "PATH_SEPARATOR \<notin> set (content name @ content (suffix cfg))" using appended_name_valid [OF n cfg] valid_file_bytes(1) by blast
  from split_joined(1) [OF _ fp(3) this] show ?thesis using fp(1,2) by (simp add: pds_full_name_def ss_valid_def)
qed

abbreviation run_os :: "32 word \<Rightarrow> nat \<Rightarrow> ('v, 'r) sys_prog \<Rightarrow> 'v os_state \<Rightarrow> 'r \<times> 'v os_state" where
  "run_os umask t \<equiv> exec (reliable_os umask t)"

abbreviation pds_path :: "dynamic_builder \<Rightarrow> os_path" where
  "pds_path b \<equiv> shm_path (content (db_name b) @ content (suffix (db_config b)))"

text \<open>The object of a finished storage.\<close>

definition pds_object :: "nat \<Rightarrow> nat \<Rightarrow> 'v \<Rightarrow> 'v os_object" where
  "pds_object t n v = \<lparr>ob_creator = t, ob_mode = regular PDS_FINAL_PERMISSIONS, ob_size = n, ob_value = Some v, ob_data = resize n []\<rparr>"

lemmas shm_program_defs = shm_create_memory_def shm_acquire_def shm_create_fd_def fd_new_def shm_mmap_def file_truncate_def sys_unit_def shm_check_size_def fd_metadata_def
  acquire_attributes_def shm_lock_and_zero_def shm_open_existing_def shm_open_fd_def fd_permission_def shm_drop_def shm_unlink_def fd_drop_def fail_after_def shm_fail_def memory_lock_drop_def metadata_create_def

lemmas shm_config_defs = shm_creation_mode_def shm_builder_new_def

lemma run_create:
  assumes "concept_ok (db_config b) (db_name b)" and "0 < size_of + db_supplementary_size b" and "size_of + db_supplementary_size b < usize_lim"
    and "os_shm s (pds_path b) = None" and "initializer v (bump_new (4096 + size_of) (db_supplementary_size b)) = (w, True)"
  defines "n \<equiv> size_of + db_supplementary_size b"
  shows "run_os umask t (pds_create_and_initialize size_of b v initializer) s =
    (Ok \<lparr>pds_shm = \<lparr>sm_name = content (db_name b) @ content (suffix (db_config b)), sm_size = n, sm_base_address = 4096, sm_has_ownership = db_ownership b,
        sm_file_descriptor = os_next s, sm_memory_lock = False\<rparr>, pds_name = db_name b\<rparr>,
     s\<lparr>os_shm := (os_shm s)(pds_path b := Some (os_next s)), os_objects := (os_objects s)(os_next s := pds_object t n w), os_next := Suc (os_next s)\<rparr>)"
  using assms(2-5) unfolding pds_create_and_initialize_def pds_full_name_Ok [OF assms(1)]
  by (simp add: exec_pbind exec_pthen shm_program_defs shm_config_defs pds_initialize_def pds_finish_def fd_set_permission_def Let_def
      shm_name_def add_object_def new_object_def object_at_def pds_object_def as_mode_def n_def)

lemma run_create_exists:
  assumes "concept_ok (db_config b) (db_name b)" and "size_of + db_supplementary_size b < usize_lim" and "os_shm s (pds_path b) = Some ob"
  shows "run_os umask t (pds_create_and_initialize size_of b v initializer) s = (Err DynamicAlreadyExists, s)"
  using assms(2,3) unfolding pds_create_and_initialize_def pds_full_name_Ok [OF assms(1)]
  by (simp add: exec_pbind exec_pthen shm_program_defs shm_config_defs shm_create_errno_def pds_create_error_def)

lemma final_mode: "as_permission PDS_FINAL_PERMISSIONS = PDS_FINAL_PERMISSIONS"
  by (simp add: PDS_FINAL_PERMISSIONS_def as_permission_mask permission_defs)

lemma run_open:
  assumes "concept_ok (db_config b) (db_name b)" and "size_of + db_supplementary_size b < usize_lim" and "os_shm s (pds_path b) = Some ob"
    and "os_objects s ob = pds_object u n w" and "0 < n" and "size_of + db_supplementary_size b \<le> n"
  shows "run_os umask t (pds_try_open size_of b) s =
    (Ok \<lparr>pds_shm = \<lparr>sm_name = content (db_name b) @ content (suffix (db_config b)), sm_size = n, sm_base_address = 4096, sm_has_ownership = False,
        sm_file_descriptor = ob, sm_memory_lock = False\<rparr>, pds_name = db_name b\<rparr>, s)"
  using assms(2-6) unfolding pds_try_open_def pds_full_name_Ok [OF assms(1)]
  by (simp add: exec_pbind exec_pthen shm_program_defs shm_config_defs pds_object_def final_mode Let_def)

lemma run_open_missing:
  assumes "concept_ok (db_config b) (db_name b)" and "os_shm s (pds_path b) = None"
  shows "run_os umask t (pds_try_open size_of b) s = (Err DynamicDoesNotExist, s)"
  using assms(2) unfolding pds_try_open_def pds_full_name_Ok [OF assms(1)]
  by (simp add: exec_pbind exec_pthen shm_program_defs shm_config_defs shm_open_errno_def pds_open_error_def Let_def)

lemma run_drop:
  "run_os umask t (shm_drop m) s = (Ok (), if sm_has_ownership m \<and> os_shm s (shm_path (sm_name m)) \<noteq> None then shm_name (shm_path (sm_name m)) None s else s)"
  by (auto simp: exec_pbind shm_program_defs split: if_splits)

text \<open>The life of a storage when the system refuses nothing but what it has to: a new storage holds the initialized value; a second creation is refused; another process
  opens the same object, unless it asks for more memory; when the owner drops it, its name is gone, and what was opened stays usable.\<close>

theorem storage_life:
  assumes "concept_ok (db_config b) (db_name b)" and "size_of + db_supplementary_size b < usize_lim" and "0 < size_of + db_supplementary_size b" and "db_ownership b"
    and "os_shm s (pds_path b) = None" and "initializer v (bump_new (4096 + size_of) (db_supplementary_size b)) = (w, True)"
  shows "\<exists>st s1 st2 s2. run_os umask t (pds_create_and_initialize size_of b v initializer) s = (Ok st, s1)
    \<and> run_os umask u (pds_create_and_initialize size_of b v initializer) s1 = (Err DynamicAlreadyExists, s1)
    \<and> run_os umask u (pds_try_open size_of b) s1 = (Ok st2, s1) \<and> sm_file_descriptor (pds_shm st2) = sm_file_descriptor (pds_shm st)
    \<and> run_os umask t (shm_drop (pds_shm st)) s1 = ((Ok () :: (unit, unit) outcome), s2)
    \<and> run_os umask u (pds_try_open size_of b) s2 = (Err DynamicDoesNotExist, s2)
    \<and> ob_value (os_objects s2 (sm_file_descriptor (pds_shm st2))) = Some w"
proof -
  define n where "n = size_of + db_supplementary_size b"
  define s1 where "s1 = s\<lparr>os_shm := (os_shm s)(pds_path b := Some (os_next s)), os_objects := (os_objects s)(os_next s := pds_object t n w), os_next := Suc (os_next s)\<rparr>"
  define shm where "shm = \<lparr>sm_name = content (db_name b) @ content (suffix (db_config b)), sm_size = n, sm_base_address = 4096, sm_has_ownership = True,
    sm_file_descriptor = os_next s, sm_memory_lock = False\<rparr>"
  define s2 where "s2 = shm_name (pds_path b) None s1"
  have s1: "os_shm s1 (pds_path b) = Some (os_next s)" "os_objects s1 (os_next s) = pds_object t n w" by (simp_all add: s1_def)
  have "run_os umask t (pds_create_and_initialize size_of b v initializer) s = (Ok \<lparr>pds_shm = shm, pds_name = db_name b\<rparr>, s1)"
    using run_create [of b size_of s initializer v w umask t, OF assms(1,3,2,5,6)] assms(4) by (simp add: shm_def s1_def n_def)
  moreover have "run_os umask u (pds_create_and_initialize size_of b v initializer) s1 = (Err DynamicAlreadyExists, s1)"
    by (rule run_create_exists [OF assms(1,2) s1(1)])
  moreover have "run_os umask u (pds_try_open size_of b) s1 = (Ok \<lparr>pds_shm = shm\<lparr>sm_has_ownership := False\<rparr>, pds_name = db_name b\<rparr>, s1)"
    using run_open [OF assms(1,2) s1] assms(3) by (simp add: shm_def n_def)
  moreover have "run_os umask t (shm_drop shm) s1 = ((Ok () :: (unit, unit) outcome), s2)" using run_drop [of umask t shm s1] s1(1) by (simp add: shm_def s2_def)
  moreover have "run_os umask u (pds_try_open size_of b) s2 = (Err DynamicDoesNotExist, s2)" by (rule run_open_missing [OF assms(1)]) (simp add: s2_def shm_name_def)
  moreover have "ob_value (os_objects s2 (sm_file_descriptor shm)) = Some w" using s1(2) by (simp add: s2_def shm_name_def shm_def pds_object_def)
  ultimately show ?thesis
    by (intro exI [of _ "\<lparr>pds_shm = shm, pds_name = db_name b\<rparr>"] exI [of _ s1] exI [of _ "\<lparr>pds_shm = shm\<lparr>sm_has_ownership := False\<rparr>, pds_name = db_name b\<rparr>"] exI [of _ s2]) simp
qed

section \<open>A creation that fails half way\<close>

text \<open>A system in which the memory cannot be mapped.\<close>

fun no_mapping :: "os_error \<Rightarrow> 32 word \<Rightarrow> nat \<Rightarrow> 'v os_state \<Rightarrow> 'v sys_call \<Rightarrow> sys_answer \<times> 'v os_state" where
  "no_mapping e umask t s (Sys_mmap ob n fl) = (Failed e, s)"
| "no_mapping e umask t s c = reliable_os umask t s c"

text \<open>When the memory of a new storage cannot be mapped, the creation fails but leaves the shared memory object behind, although the storage was to own it: from then on
  nobody can create the storage and nobody can open it, until the object is removed by hand.\<close>

theorem failed_mapping_blocks_storage:
  assumes "concept_ok (db_config b) (db_name b)" and "size_of + db_supplementary_size b < usize_lim" and "os_shm s (pds_path b) = None"
  shows "\<exists>s1. exec (no_mapping e umask t) (pds_create_and_initialize size_of b v initializer) s = (Err DynamicCreation, s1)
    \<and> run_os umask u (pds_create_and_initialize size_of b v initializer) s1 = (Err DynamicAlreadyExists, s1)
    \<and> run_os umask u (pds_try_open size_of b) s1 = (Err DynamicOpen, s1)
    \<and> fst (run_os umask u (pds_remove_cfg (db_name b) (db_config b)) s1) = Ok True"
proof -
  let ?s1 = "shm_name (pds_path b) (Some (os_next s)) (add_object t (OWNER_WRITE AND NOT umask) s)"
  have "exec (no_mapping e umask t) (pds_create_and_initialize size_of b v initializer) s = (Err DynamicCreation, ?s1)"
    using assms(2,3) unfolding pds_create_and_initialize_def pds_full_name_Ok [OF assms(1)]
    by (cases e) (simp_all add: exec_pbind exec_pthen shm_program_defs shm_config_defs mmap_errno_def pds_create_error_def as_mode_def)
  moreover have "run_os umask u (pds_try_open size_of b) ?s1 = (Err DynamicOpen, ?s1)" unfolding pds_try_open_def pds_full_name_Ok [OF assms(1)]
    by (simp add: exec_pbind exec_pthen shm_program_defs shm_config_defs mmap_errno_def pds_open_error_def Let_def shm_name_def add_object_def new_object_def)
  moreover have "fst (run_os umask u (pds_remove_cfg (db_name b) (db_config b)) ?s1) = Ok True" unfolding pds_remove_cfg_def pds_full_name_Ok [OF assms(1)]
    by (simp add: exec_pthen shm_remove_def shm_unlink_def shm_name_def)
  ultimately show ?thesis using run_create_exists [OF assms(1,2), of ?s1] by (auto simp: shm_name_def)
qed

section \<open>Examples\<close>

lemma example_storage_builder:
  obtains b :: dynamic_builder where "concept_ok (db_config b) (db_name b)" "db_ownership b" "db_supplementary_size b = 16"
proof -
  from example_strings obtain cfg n where "concept_ok cfg n" by metis
  then show thesis using that [of "\<lparr>db_name = n, db_supplementary_size = 16, db_ownership = True, db_config = cfg\<rparr>"] by simp
qed

theorem storage_is_initialized_witness:
  "\<exists>s f st. pds_reach 0x12 (\<lambda>v :: nat. v = 7) 8 s f \<and> f 0 = Return (Holds st) \<and> f 1 \<noteq> f 0
    \<and> (\<exists>v. ob_value (os_objects s (sm_file_descriptor (pds_shm st))) = Some v \<and> v = 7) \<and> 8 \<le> ob_size (os_objects s (sm_file_descriptor (pds_shm st)))"
proof -
  obtain b :: dynamic_builder where b: "concept_ok (db_config b) (db_name b)" "db_ownership b" "db_supplementary_size b = 16" by (rule example_storage_builder)
  let ?init = "\<lambda>(v :: nat) (alloc :: bump_allocator). (v + 2, True)"
  let ?create = "pds_create_and_initialize 8 b 5 ?init"
  let ?reach = "pds_reach 0x12 (\<lambda>v :: nat. v = 7) 8"
  have n: "8 + db_supplementary_size b < usize_lim" using b(3) by (simp add: usize_lim_def)
  have none: "os_shm (empty_os :: nat os_state) (pds_path b) = None" by (simp add: empty_os_def)
  obtain st s where c: "run_os 0x12 0 ?create empty_os = (Ok st, s)"
    using run_create [of b 8 empty_os ?init 5 7 "0x12" 0, OF b(1) _ n none] by simp
  let ?f = "\<lambda>_ :: nat. Return NoStorage :: (nat, pds_holds) sys_prog"
  have "?reach empty_os ?f" by (rule pr_start)
  then have r: "?reach s (?f(0 := Return (Holds st)))"
    by (rule prog_reach_exec [where os = "reliable_os 0x12 0" and p = "pmap pds_held ?create" and r = NoStorage, rotated])
      (use c in \<open>auto simp: pds_held_def reliable_os_posix intro!: pc_create\<close>)
  from storage_is_initialized [OF r, of 0 st]
  have "(\<exists>v. ob_value (os_objects s (sm_file_descriptor (pds_shm st))) = Some v \<and> v = 7) \<and> 8 \<le> ob_size (os_objects s (sm_file_descriptor (pds_shm st)))" by simp
  then show ?thesis using r by (intro exI [of _ s] exI [of _ "?f(0 := Return (Holds st))"] exI [of _ st]) simp
qed

theorem storage_life_witness:
  "\<exists>b st s1 st2 s2. run_os 0 0 (pds_create_and_initialize 8 b (5 :: nat) (\<lambda>v alloc. (v + 2, True))) empty_os = (Ok st, s1)
    \<and> run_os 0 1 (pds_try_open 8 b) s1 = (Ok st2, s1)
    \<and> run_os 0 0 (shm_drop (pds_shm st)) s1 = ((Ok () :: (unit, unit) outcome), s2)
    \<and> run_os 0 1 (pds_try_open 8 b) s2 = (Err DynamicDoesNotExist, s2)
    \<and> ob_value (os_objects s2 (sm_file_descriptor (pds_shm st2))) = Some 7"
proof -
  obtain b :: dynamic_builder where b: "concept_ok (db_config b) (db_name b)" "db_ownership b" "db_supplementary_size b = 16" by (rule example_storage_builder)
  have n: "8 + db_supplementary_size b < usize_lim" "0 < 8 + db_supplementary_size b" using b(3) by (simp_all add: usize_lim_def)
  have none: "os_shm (empty_os :: nat os_state) (pds_path b) = None" by (simp add: empty_os_def)
  have "(\<lambda>v alloc. (v + 2, True)) (5 :: nat) (bump_new (4096 + 8) (db_supplementary_size b)) = (7, True)" by simp
  from storage_life [of b 8 empty_os "\<lambda>v alloc. (v + 2, True)" 5 7 0 0 1, OF b(1) n b(2) none this] show ?thesis by blast
qed

theorem failed_mapping_blocks_storage_witness:
  "\<exists>b s1. exec (no_mapping Enomem 0 0) (pds_create_and_initialize 8 b (5 :: nat) (\<lambda>v alloc. (v, True))) empty_os = (Err DynamicCreation, s1)
    \<and> run_os 0 1 (pds_try_open 8 b) s1 = (Err DynamicOpen, s1)"
proof -
  obtain b :: dynamic_builder where b: "concept_ok (db_config b) (db_name b)" "db_ownership b" "db_supplementary_size b = 16" by (rule example_storage_builder)
  have n: "8 + db_supplementary_size b < usize_lim" using b(3) by (simp add: usize_lim_def)
  have none: "os_shm (empty_os :: nat os_state) (pds_path b) = None" by (simp add: empty_os_def)
  show ?thesis using failed_mapping_blocks_storage [OF b(1) n none, of Enomem 0 0 5 "\<lambda>v alloc. (v, True)" 1] by blast
qed

end
