(* ===== verification/FileStorage.thy ===== *)
theory FileStorage
  imports PosixFile PosixStorage
begin

text \<open>
  \<^verbatim>\<open>elkodon_cal/src/static_storage/file.rs\<close>: a file with fixed contents, in which services keep their static configuration. The file is created locked; \<^verbatim>\<open>unlock\<close> writes
  the contents and sets the final permissions; \<^verbatim>\<open>open\<close> accepts only files with the final permissions. The programs of all processes are interleaved at their
  system calls; a second interpretation of \<open>rely_guarantee\<close> shows that what a process reads are complete contents, and that they never change.

  The \<^verbatim>\<open>Locked\<close> storage is the storage that it wraps.
\<close>

section \<open>Operations\<close>

definition FS_FINAL_PERMISSIONS :: permission where
  "FS_FINAL_PERMISSIONS = OWNER_READ"

record file_storage =
  fs_name :: byte_string
  fs_config :: named_concept_config
  fs_has_ownership :: bool
  fs_file :: nat
  fs_len :: nat

definition fs_remove_cfg :: "byte_string \<Rightarrow> named_concept_config \<Rightarrow> ('v, (named_remove_error, bool) outcome) sys_prog" where
  "fs_remove_cfg name cfg = pthen (Return (path_for cfg name)) (\<lambda>file_path. pmap (map_err (\<lambda>e. case e of
       FileRemoveInsufficientPermissions \<Rightarrow> RemoveInsufficientPermissions | FileRemovePartOfReadOnlyFileSystem \<Rightarrow> RemoveInsufficientPermissions
     | _ \<Rightarrow> RemoveInternalError)) (file_remove (content file_path)))"

text \<open>\<^verbatim>\<open>Drop\<close>, then the file.\<close>

definition fs_drop :: "file_storage \<Rightarrow> ('v, bool) sys_prog" where
  "fs_drop st = pbind (if fs_has_ownership st then pmap (\<lambda>r. r \<noteq> Panic \<and> r \<noteq> UB) (fs_remove_cfg (fs_name st) (fs_config st)) else Return True) (\<lambda>ok.
     pbind (fd_drop (fs_file st)) (\<lambda>_. Return ok))"

text \<open>A failure while the storage is owned.\<close>

definition fs_fail :: "file_storage \<Rightarrow> 'e \<Rightarrow> ('v, ('e, 'a) outcome) sys_prog" where
  "fs_fail st e = pmap (\<lambda>ok. if ok then Err e else Panic) (fs_drop st)"

definition fs_write_error :: "file_write_error \<Rightarrow> static_unlock_error" where
  "fs_write_error e = (case e of FwInsufficientPermissions \<Rightarrow> UnlockInsufficientPermissions | FwNoSpaceLeft \<Rightarrow> NoSpaceLeft | _ \<Rightarrow> StaticUnlockInternalError)"

definition fs_permission_error :: "file_set_permission_error \<Rightarrow> static_unlock_error" where
  "fs_permission_error e = (case e of PermissionInsufficientPermissions \<Rightarrow> UnlockInsufficientPermissions | _ \<Rightarrow> StaticUnlockInternalError)"

definition fs_unlock :: "file_storage \<Rightarrow> u8 list \<Rightarrow> ('v, (static_unlock_error, file_storage) outcome) sys_prog" where
  "fs_unlock st contents =
     pbind (file_write (fs_file st) contents) (\<lambda>r. case r of
       Ok bytes_written \<Rightarrow>
         if bytes_written \<noteq> length contents then fs_fail st NoSpaceLeft
         else pbind (fd_set_permission (fs_file st) FS_FINAL_PERMISSIONS) (\<lambda>r. case r of
             Ok _ \<Rightarrow> Return (Ok (st\<lparr>fs_len := length contents\<rparr>))
           | Err e \<Rightarrow> fs_fail st (fs_permission_error e) | Panic \<Rightarrow> Return Panic | UB \<Rightarrow> Return UB)
     | Err e \<Rightarrow> fs_fail st (fs_write_error e) | Panic \<Rightarrow> Return Panic | UB \<Rightarrow> Return UB)"

definition fs_creation_error :: "file_creation_error \<Rightarrow> static_create_error" where
  "fs_creation_error e = (case e of FcFileAlreadyExists \<Rightarrow> StaticAlreadyExists | FcInsufficientPermissions \<Rightarrow> StaticInsufficientPermissions | _ \<Rightarrow> StaticCreation)"

text \<open>The directory that was created is dropped at once.\<close>

definition fs_ensure_directory :: "os_path \<Rightarrow> ('v, (static_create_error, unit) outcome) sys_prog" where
  "fs_ensure_directory p =
     pthen (pmap (map_err (\<lambda>_. StaticCreation)) (directory_does_exist p)) (\<lambda>exists.
     if exists then Return (Ok ())
     else pthen (pmap (map_err (\<lambda>_. StaticCreation)) (directory_create p (OWNER_ALL OR GROUP_ALL))) (\<lambda>_.
       pmap Ok (directory_drop p)))"

definition fs_create_locked :: "static_builder \<Rightarrow> ('v, (static_create_error, file_storage) outcome) sys_prog" where
  "fs_create_locked b =
     pthen (fs_ensure_directory (content (path_hint (sb_config b)))) (\<lambda>_.
     pthen (Return (path_for (sb_config b) (sb_name b))) (\<lambda>p.
     pthen (pmap (map_err fs_creation_error)
       (file_builder_create ((file_creation_mode CreateExclusive (file_builder_new (content p)))\<lparr>fb_permission := OWNER_ALL\<rparr>))) (\<lambda>file.
     Return (Ok \<lparr>fs_name = sb_name b, fs_config = sb_config b, fs_has_ownership = sb_ownership b, fs_file = file, fs_len = 0\<rparr>))))"

definition fs_create :: "static_builder \<Rightarrow> u8 list \<Rightarrow> ('v, (static_create_error, file_storage) outcome) sys_prog" where
  "fs_create b contents = pthen (fs_create_locked b) (\<lambda>locked. pmap (map_err (\<lambda>_. StaticWrite)) (fs_unlock locked contents))"

definition fs_open :: "static_builder \<Rightarrow> ('v, (static_open_error, file_storage) outcome) sys_prog" where
  "fs_open b =
     pthen (Return (path_for (sb_config b) (sb_name b))) (\<lambda>p.
     pthen (pmap (map_err (\<lambda>_. StaticDoesNotExist)) (file_open_existing AccessRead (file_builder_new (content p)))) (\<lambda>file.
     pbind (fd_metadata file) (\<lambda>r. case r of
       Ok metadata \<Rightarrow>
         if md_permission metadata \<noteq> FS_FINAL_PERMISSIONS then fail_after (fd_drop file) StaticIsLocked
         else Return (Ok \<lparr>fs_name = sb_name b, fs_config = sb_config b, fs_has_ownership = sb_ownership b, fs_file = file, fs_len = md_size metadata\<rparr>)
     | Err e \<Rightarrow> fail_after (fd_drop file) StaticOpenRead | Panic \<Rightarrow> Return Panic | UB \<Rightarrow> Return UB)))"

text \<open>The result is the buffer after the call.\<close>

definition fs_read :: "file_storage \<Rightarrow> u8 list \<Rightarrow> ('v, (static_read_error, u8 list) outcome) sys_prog" where
  "fs_read st buf =
     (if length buf < fs_len st then Return (Err BufferTooSmall)
      else pthen (pmap (map_err (\<lambda>_. ReadError)) (file_read (fs_file st) buf)) (\<lambda>(buf, bytes_read).
        if bytes_read \<noteq> fs_len st then Return (Err StaticStorageWasModified) else Return (Ok buf)))"

definition fs_release_ownership :: "file_storage \<Rightarrow> file_storage" where
  "fs_release_ownership st = st\<lparr>fs_has_ownership := False\<rparr>"

definition fs_acquire_ownership :: "file_storage \<Rightarrow> file_storage" where
  "fs_acquire_ownership st = st\<lparr>fs_has_ownership := True\<rparr>"

definition fs_is_empty :: "file_storage \<Rightarrow> bool" where
  "fs_is_empty st \<longleftrightarrow> fs_len st = 0"

definition fs_does_exist_cfg :: "byte_string \<Rightarrow> named_concept_config \<Rightarrow> ('v, (does_exist_error, bool) outcome) sys_prog" where
  "fs_does_exist_cfg name cfg =
     pthen (Return (path_for cfg name)) (\<lambda>p.
     pthen (pmap (map_err (\<lambda>_. UnderlyingResourcesCorrupted)) (file_does_exist (content p))) (\<lambda>exists.
     if \<not> exists then Return (Ok False)
     else pthen (pmap (map_err (\<lambda>_. UnderlyingResourcesCorrupted)) (file_open_existing AccessRead (file_builder_new (content p)))) (\<lambda>file.
       pbind (fd_metadata file) (\<lambda>r. case r of
         Ok m \<Rightarrow>
           if md_file_type m = FtFile \<and> md_permission m = FS_FINAL_PERMISSIONS then pbind (fd_drop file) (\<lambda>_. Return (Ok True))
           else fail_after (fd_drop file) UnderlyingResourcesBeingSetUp
       | Err e \<Rightarrow> fail_after (fd_drop file) UnderlyingResourcesCorrupted | Panic \<Rightarrow> Return Panic | UB \<Rightarrow> Return UB))))"

datatype named_list_error = ListInsufficientPermissions | ListInternalError

text \<open>The names of the entries that are finished files.\<close>

fun fs_listed :: "named_concept_config \<Rightarrow> directory_entry list \<Rightarrow> ('e, byte_string list) outcome" where
  "fs_listed cfg [] = Ok []"
| "fs_listed cfg (e # es) =
     (if md_file_type (de_metadata e) = FtFile \<and> md_permission (de_metadata e) = FS_FINAL_PERMISSIONS
      then obind (extract_name_from_file cfg (de_name e)) (\<lambda>r. omap (\<lambda>ns. case r of Some n \<Rightarrow> n # ns | None \<Rightarrow> ns) (fs_listed cfg es))
      else fs_listed cfg es)"

definition fs_list_cfg :: "named_concept_config \<Rightarrow> ('v, (named_list_error, byte_string list) outcome) sys_prog" where
  "fs_list_cfg cfg =
     (let p = path_hint cfg in
      pthen (pmap (map_err (\<lambda>e. case e of DoInsufficientPermissions \<Rightarrow> ListInsufficientPermissions | _ \<Rightarrow> ListInternalError)) (directory_new (content p))) (\<lambda>_.
      pbind (directory_contents p) (\<lambda>r. pbind (directory_drop (content p)) (\<lambda>_. Return (case r of
        Ok entries \<Rightarrow> fs_listed cfg entries
      | Err DirReadInsufficientPermissions \<Rightarrow> Err ListInsufficientPermissions | Err _ \<Rightarrow> Err ListInternalError | Panic \<Rightarrow> Panic | UB \<Rightarrow> UB)))))"

section \<open>Processes\<close>

text \<open>What a process holds, and what it may call next. \<open>ready\<close> is what holds of all contents that are written. Files are created under a creation mask that leaves them
  writable or executable for their owner, or not readable.\<close>

datatype fs_holds = NoFile | LockedFile file_storage | OpenFile file_storage | FileRead file_storage "u8 list"

definition fs_held :: "(file_storage \<Rightarrow> fs_holds) \<Rightarrow> ('e, file_storage) outcome \<Rightarrow> fs_holds" where
  "fs_held h r = (case r of Ok st \<Rightarrow> h st | _ \<Rightarrow> NoFile)"

definition mask_ok :: "32 word \<Rightarrow> bool" where
  "mask_ok umask \<longleftrightarrow> OWNER_ALL AND NOT umask \<noteq> FS_FINAL_PERMISSIONS"

inductive fs_calls :: "32 word \<Rightarrow> (u8 list \<Rightarrow> bool) \<Rightarrow> fs_holds \<Rightarrow> ('v, fs_holds) sys_prog \<Rightarrow> bool" for umask ready where
  fc_create_locked: "mask_ok umask \<Longrightarrow> fs_calls umask ready NoFile (pmap (fs_held LockedFile) (fs_create_locked b))"
| fc_create: "mask_ok umask \<Longrightarrow> ready contents \<Longrightarrow> fs_calls umask ready NoFile (pmap (fs_held OpenFile) (fs_create b contents))"
| fc_open: "fs_calls umask ready NoFile (pmap (fs_held OpenFile) (fs_open b))"
| fc_exists: "fs_calls umask ready NoFile (pmap (\<lambda>_. NoFile) (fs_does_exist_cfg name cfg))"
| fc_remove: "fs_calls umask ready NoFile (pmap (\<lambda>_. NoFile) (fs_remove_cfg name cfg))"
| fc_list: "fs_calls umask ready NoFile (pmap (\<lambda>_. NoFile) (fs_list_cfg cfg))"
| fc_unlock: "ready contents \<Longrightarrow> fs_calls umask ready (LockedFile st) (pmap (fs_held OpenFile) (fs_unlock st contents))"
| fc_drop_locked: "fs_calls umask ready (LockedFile st) (pmap (\<lambda>_. NoFile) (fs_drop st))"
| fc_read: "fs_calls umask ready (OpenFile st) (pmap (\<lambda>r. case r of Ok b \<Rightarrow> FileRead st b | _ \<Rightarrow> OpenFile st) (fs_read st buf))"
| fc_continue: "fs_calls umask ready (FileRead st buf) (Return (OpenFile st))"
| fc_acquire: "fs_calls umask ready (OpenFile st) (Return (OpenFile (fs_acquire_ownership st)))"
| fc_release: "fs_calls umask ready (OpenFile st) (Return (OpenFile (fs_release_ownership st)))"
| fc_drop: "fs_calls umask ready (OpenFile st) (pmap (\<lambda>_. NoFile) (fs_drop st))"

abbreviation fs_reach :: "32 word \<Rightarrow> (u8 list \<Rightarrow> bool) \<Rightarrow> 'v os_state \<Rightarrow> (nat \<Rightarrow> ('v, fs_holds) sys_prog) \<Rightarrow> bool" where
  "fs_reach umask ready \<equiv> prog_reach (posix_sys umask) (\<lambda>h. {p. fs_calls umask ready h p}) empty_os NoFile"

section \<open>What a storage promises\<close>

definition fs_complete :: "(u8 list \<Rightarrow> bool) \<Rightarrow> 'v os_object \<Rightarrow> bool" where
  "fs_complete ready x \<longleftrightarrow> ob_size x = length (ob_data x) \<and> ready (ob_data x)"

abbreviation fs_good :: "(u8 list \<Rightarrow> bool) \<Rightarrow> 'v os_state \<Rightarrow> bool" where
  "fs_good ready \<equiv> all_good FS_FINAL_PERMISSIONS (fs_complete ready)"

abbreviation fs_rg :: "32 word \<Rightarrow> (u8 list \<Rightarrow> bool) \<Rightarrow> nat \<Rightarrow> ('v, 'r) sys_prog \<Rightarrow> ('r \<Rightarrow> 'v os_state \<Rightarrow> bool) \<Rightarrow> 'v os_state \<Rightarrow> bool" where
  "fs_rg umask ready t \<equiv> prg umask FS_FINAL_PERMISSIONS (fs_complete ready) t"

abbreviation fs_published :: "(u8 list \<Rightarrow> bool) \<Rightarrow> u8 list \<Rightarrow> file_storage \<Rightarrow> 'v os_state \<Rightarrow> bool" where
  "fs_published ready d st \<equiv> published FS_FINAL_PERMISSIONS (fs_complete ready) (fs_len st) d (fs_file st)"

abbreviation locked_object :: "nat \<Rightarrow> 'v os_object" where
  "locked_object t \<equiv> new_object t (regular OWNER_ALL)"

abbreviation fs_mine :: "(u8 list \<Rightarrow> bool) \<Rightarrow> nat \<Rightarrow> nat \<Rightarrow> 'v os_object \<Rightarrow> 'v os_state \<Rightarrow> bool" where
  "fs_mine ready \<equiv> mine FS_FINAL_PERMISSIONS (fs_complete ready)"

definition fs_locked_post :: "(u8 list \<Rightarrow> bool) \<Rightarrow> nat \<Rightarrow> ('e, file_storage) outcome \<Rightarrow> 'v os_state \<Rightarrow> bool" where
  "fs_locked_post ready t r s \<longleftrightarrow> fs_good ready s \<and> (\<forall>st. r = Ok st \<longrightarrow> fs_mine ready t (fs_file st) (locked_object t) s)"

definition fs_post :: "(u8 list \<Rightarrow> bool) \<Rightarrow> ('e, file_storage) outcome \<Rightarrow> 'v os_state \<Rightarrow> bool" where
  "fs_post ready r s \<longleftrightarrow> fs_good ready s \<and> (\<forall>st. r = Ok st \<longrightarrow> (\<exists>d. fs_published ready d st s))"

definition fs_Q :: "(u8 list \<Rightarrow> bool) \<Rightarrow> nat \<Rightarrow> fs_holds \<Rightarrow> 'v os_state \<Rightarrow> bool" where
  "fs_Q ready t h s \<longleftrightarrow> fs_good ready s \<and> (case h of
     NoFile \<Rightarrow> True
   | LockedFile st \<Rightarrow> fs_mine ready t (fs_file st) (locked_object t) s
   | OpenFile st \<Rightarrow> (\<exists>d. fs_published ready d st s)
   | FileRead st buf \<Rightarrow> (\<exists>d. fs_published ready d st s \<and> take (fs_len st) buf = d))"

lemma fs_post_env:
  assumes "(rely FS_FINAL_PERMISSIONS (fs_complete ready) t)\<^sup>*\<^sup>* s s'"
  shows "fs_Q ready t h s \<Longrightarrow> fs_Q ready t h s'" "fs_post ready r s \<Longrightarrow> fs_post ready r s'" "fs_locked_post ready t q s \<Longrightarrow> fs_locked_post ready t q s'"
  using env_facts(1) [OF _ assms] env_facts(3) [OF _ assms] env_facts(4) [OF _ assms]
  unfolding fs_Q_def fs_post_def fs_locked_post_def by (auto split: fs_holds.splits) blast+

lemma fs_posts_fail: "fs_good ready s \<Longrightarrow> (\<And>st. r \<noteq> Ok st) \<Longrightarrow> fs_post ready r s" "fs_good ready s \<Longrightarrow> (\<And>st. q \<noteq> Ok st) \<Longrightarrow> fs_locked_post ready t q s"
  by (simp_all add: fs_post_def fs_locked_post_def)

section \<open>Creation\<close>

lemma sys_unit_quiet: "quiet_call c \<Longrightarrow> calls_in {c. quiet_call c} (sys_unit h c)"
  by (auto simp: sys_unit_def split: sys_answer.split)

lemma calls_in_pthen: "calls_in C p \<Longrightarrow> (\<And>r. calls_in C (f r)) \<Longrightarrow> calls_in C (pthen p f)"
  by (auto simp: pthen_def intro!: calls_in_pbind split: outcome.split)

lemma fs_remove_quiet: "calls_in {c. quiet_call c} (fs_remove_cfg name cfg)"
  by (auto simp: fs_remove_cfg_def file_remove_def intro!: calls_in_pthen calls_in_pmap split: sys_answer.split)

lemma fs_drop_quiet: "calls_in {c. quiet_call c} (fs_drop st)"
  by (auto simp: fs_drop_def fd_drop_def intro!: calls_in_pbind calls_in_pmap fs_remove_quiet)

lemma fs_ensure_directory_quiet: "calls_in {c. quiet_call c} (fs_ensure_directory p)"
  by (auto simp: fs_ensure_directory_def directory_does_exist_def directory_create_def directory_new_def directory_remove_def directory_drop_def
      intro!: calls_in_pthen calls_in_pbind calls_in_pmap sys_unit_quiet split: sys_answer.split outcome.split)

lemma fs_fail_rg:
  assumes "all_good F K s" and "\<And>s r. all_good F K s \<Longrightarrow> (\<And>x. r \<noteq> Ok x) \<Longrightarrow> Q r s"
  shows "prg umask F K t (fs_fail st e) Q s"
proof -
  have "\<forall>s'. (rely F K t)\<^sup>*\<^sup>* s s' \<longrightarrow> Q (if ok then Err e else Panic) s'" if "all_good F K s" for s and ok :: bool
    using assms(2) env_facts(1) [OF that] by (cases ok) simp_all
  then show ?thesis unfolding fs_fail_def by (intro rg_pmap rg_mono [OF quiet_program [OF fs_drop_quiet assms(1)]])
qed

lemma owner_all_not_final: "as_permission OWNER_ALL \<noteq> FS_FINAL_PERMISSIONS"
  by (simp add: as_permission_mask FS_FINAL_PERMISSIONS_def permission_defs)

lemma mask_ok_not_final: "mask_ok umask \<Longrightarrow> as_permission (as_mode OWNER_ALL AND NOT umask) \<noteq> FS_FINAL_PERMISSIONS"
proof -
  have "OWNER_ALL AND MASK = OWNER_ALL" by (simp add: permission_defs)
  then have "(OWNER_ALL AND NOT umask) AND MASK = OWNER_ALL AND NOT umask" by (metis and.assoc and.commute)
  then show "mask_ok umask \<Longrightarrow> as_permission (as_mode OWNER_ALL AND NOT umask) \<noteq> FS_FINAL_PERMISSIONS"
    by (simp add: mask_ok_def as_permission_mask as_mode_def)
qed

lemma fs_file_create_rg:
  assumes "fs_good ready s" and "mask_ok umask"
  shows "fs_rg umask ready t (file_builder_create ((file_creation_mode CreateExclusive (file_builder_new p))\<lparr>fb_permission := OWNER_ALL\<rparr>))
    (\<lambda>r s. fs_good ready s \<and> (\<forall>fd. r = Ok fd \<longrightarrow> fs_mine ready t fd (locked_object t) s)) s"
proof -
  let ?b = "(file_creation_mode CreateExclusive (file_builder_new p))\<lparr>fb_permission := OWNER_ALL\<rparr>"
  let ?Q = "\<lambda>r s. fs_good ready s \<and> (\<forall>fd. r = Ok fd \<longrightarrow> fs_mine ready t fd (locked_object t) s)"
  have b: "fb_creation_mode ?b = Some CreateExclusive" "fb_permission ?b = OWNER_ALL" "fb_truncate_size ?b = None"
    by (simp_all add: file_creation_mode_def file_builder_new_def)
  note create = fd_new_create_rg [OF assms(1) mask_ok_not_final [OF assms(2)] _ disjI2 [OF refl]]
  show ?thesis unfolding file_builder_create_def file_create_fd_def b option.case creation_mode.case create_file_def pthen_def pmap_def pbind_assoc pbind.simps
    apply (rule rg_pbind, rule rg_mono [OF create], simp)
    subgoal premises prems for r s
    proof (cases r)
      case (Inr fd)
      have m: "fs_mine ready t fd (new_object t (regular (as_mode OWNER_ALL AND NOT umask))) s" using prems Inr by simp
      show ?thesis unfolding Inr sum.case outcome.case fd_set_permission_def sys_unit_def pbind.simps as_mode_def
        apply (rule fchmod_Call [OF m])
        subgoal using owner_all_not_final by simp
        subgoal premises prems for s e using fail_after_rg [OF fact_good(3) [OF prems], of ?Q] by simp
        subgoal premises prems for s
        proof -
          have "fs_mine ready t fd (locked_object t) s" using prems(2) by (simp add: new_object_def)
          from env_facts(4) [OF this] env_facts(1) [OF fact_good(3) [OF this]] show ?thesis by simp
        qed
        subgoal using owner_all_not_final by simp
        done
    qed (use prems in \<open>auto intro: env_facts(1)\<close>)
    done
qed

lemma fs_create_locked_rg:
  assumes "fs_good ready s" and "mask_ok umask"
  shows "fs_rg umask ready t (fs_create_locked b) (fs_locked_post ready t) s"
proof -
  have no: "fs_rg umask ready t (Return r) (fs_locked_post ready t) s'" if "fs_good ready s'" "\<And>st. r \<noteq> Ok st"
    for s' :: "'a os_state" and r :: "(static_create_error, file_storage) outcome"
    by (rule rg_Return [OF stable_facts(1) that(1)]) (use that(2) in \<open>simp add: fs_locked_post_def\<close>)
  have created: "fs_rg umask ready t (pthen (pmap (map_err fs_creation_error)
       (file_builder_create ((file_creation_mode CreateExclusive (file_builder_new p))\<lparr>fb_permission := OWNER_ALL\<rparr>))) (\<lambda>file.
     Return (Ok \<lparr>fs_name = sb_name b, fs_config = sb_config b, fs_has_ownership = sb_ownership b, fs_file = file, fs_len = 0\<rparr>))) (fs_locked_post ready t) s'"
    if "fs_good ready s'" for s' :: "'a os_state" and p
    unfolding pthen_def pmap_def pbind_assoc pbind.simps
    apply (rule rg_pbind, rule rg_mono [OF fs_file_create_rg [OF that assms(2)]])
    subgoal premises prems for r s
    proof (cases r)
      case (Ok fd)
      then have "fs_mine ready t fd (locked_object t) s" using prems by simp
      from env_facts(4) [OF this] env_facts(1) [OF fact_good(3) [OF this]] show ?thesis using Ok by (simp add: fs_locked_post_def)
    qed (use prems no in auto)
    done
  show ?thesis unfolding fs_create_locked_def pthen_def [of "fs_ensure_directory _"]
    apply (rule rg_pbind, rule rg_mono [OF quiet_program [OF fs_ensure_directory_quiet assms(1)]])
    subgoal premises prems for r s
    proof (cases r)
      case (Ok u)
      show ?thesis
      proof (cases "path_for (sb_config b) (sb_name b) :: (static_create_error, _) outcome")
        case Ok
        then show ?thesis using \<open>r = outcome.Ok u\<close> created [OF prems] by simp
      qed (use \<open>r = outcome.Ok u\<close> prems no in simp_all)
    qed (use prems no in auto)
    done
qed

text \<open>A write of the creator into its new file: some beginning of the bytes arrives.\<close>

lemma own_write_Call:
  assumes "mine F K t ob x s" and "ob_size x = 0" and "ob_data x = []"
    and "\<And>s e. mine F K t ob x s \<Longrightarrow> prg umask F K t (k (Failed e)) Q s"
    and "\<And>s n. n \<le> length bs \<Longrightarrow> mine F K t ob (x\<lparr>ob_data := take n bs, ob_size := n\<rparr>) s \<Longrightarrow> prg umask F K t (k (Count n)) Q s"
  shows "prg umask F K t (Call (Sys_write ob 0 bs) k) Q s"
proof (rule rg_Call [OF stable_facts(4) assms(1)])
  fix s a s'
  assume m: "mine F K t ob x s" and step: "posix_sys umask t s (Sys_write ob 0 bs) a s'"
  from step consider e where "a = Failed e" "s' = s"
    | n where "n \<le> length bs" "a = Count n" "s' = object_at ob (\<lambda>x. let d = overwrite (ob_data x) 0 (take n bs) in x\<lparr>ob_data := d, ob_size := length d\<rparr>) s"
    by (auto simp: posix_sys_simps)
  then show "guar F K t s s' \<and> prg umask F K t (k a) Q s'"
  proof cases
    case 1
    then show ?thesis using assms(4) [OF m] by simp
  next
    case 2
    have x: "ob_creator x = t" "\<not> is_final F x" "os_objects s ob = x" using m by (auto simp: mine_def)
    then have s': "s' = object_at ob (\<lambda>x. x\<lparr>ob_data := take n bs, ob_size := n\<rparr>) s"
      unfolding 2(3) using 2(1) assms(3) by (intro object_at_cong) (simp add: Let_def overwrite_def)
    note u = own_update [OF m, of "\<lambda>x. x\<lparr>ob_data := take n bs, ob_size := n\<rparr>"]
    have "guar F K t s s'" unfolding s' by (rule u(1)) (use x assms(2) in auto)
    moreover have "mine F K t ob (x\<lparr>ob_data := take n bs, ob_size := n\<rparr>) s'" unfolding s' by (rule u(3)) (use x assms(2) in auto)
    ultimately show ?thesis using assms(5) [OF 2(1)] 2(2) by blast
  qed
qed

lemma final_owner_read: "as_permission FS_FINAL_PERMISSIONS = FS_FINAL_PERMISSIONS"
  by (simp add: as_permission_mask FS_FINAL_PERMISSIONS_def permission_defs)

lemma fs_unlock_rg:
  assumes "fs_mine ready t (fs_file st) (locked_object t) s" and "ready contents"
  shows "fs_rg umask ready t (fs_unlock st contents) (fs_post ready) s"
proof -
  have fail: "fs_rg umask ready t (fs_fail st e) (fs_post ready) s'" if "fs_good ready s'" for s' :: "'a os_state" and e
    by (rule fs_fail_rg [OF that fs_posts_fail(1)])
  have written: "fs_rg umask ready t (pbind (fd_set_permission (fs_file st) FS_FINAL_PERMISSIONS) (\<lambda>r. case r of
             Ok _ \<Rightarrow> Return (Ok (st\<lparr>fs_len := length contents\<rparr>))
           | Err e \<Rightarrow> fs_fail st (fs_permission_error e) | Panic \<Rightarrow> Return Panic | UB \<Rightarrow> Return UB)) (fs_post ready) s'"
    if m: "fs_mine ready t (fs_file st) ((locked_object t)\<lparr>ob_data := contents, ob_size := length contents\<rparr>) s'" for s' :: "'a os_state"
    unfolding fd_set_permission_def sys_unit_def pbind.simps as_mode_def
    apply (rule fchmod_Call [OF m])
    subgoal using assms(2) by (simp add: fs_complete_def)
    subgoal premises prems for s e using fail [OF fact_good(3) [OF prems]] by simp
    subgoal using final_owner_read by simp
    subgoal premises prems for s
    proof -
      have "fs_published ready contents (st\<lparr>fs_len := length contents\<rparr>) s" using prems(2) by simp
      from env_facts(3) [OF this] env_facts(1) [OF fact_good(2) [OF this]] show ?thesis by (auto simp: fs_post_def)
    qed
    done
  show ?thesis unfolding fs_unlock_def file_write_def file_write_at_def file_set_offset_def pthen_def pmap_def pbind.simps pbind_assoc
    apply (rule quiet_Call(1) [OF _ assms(1)], simp)
    subgoal premises prems for s0 s a
    proof -
      have good: "fs_good ready s" by (rule fact_good(3) [OF prems(2)])
      from prems(3) consider e where "a = Failed e" | "a = Count 0" by (auto simp: posix_sys_simps)
      then show ?thesis
      proof cases
        case 1
        then show ?thesis using fail [OF good] by simp
      next
        case 2
        show ?thesis unfolding 2 sys_answer.case pbind.simps outcome.case map_err.simps simp_thms if_False
          apply (rule own_write_Call [OF prems(2)])
          subgoal by (simp add: new_object_def)
          subgoal by (simp add: new_object_def)
          subgoal premises prems for s e using fail [OF fact_good(3) [OF prems]] by simp
          subgoal premises prems for s n using fail [OF fact_good(3) [OF prems(2)]] written prems(2) by (cases "n = length contents") simp_all
          done
      qed
    qed
    done
qed

lemma fs_create_rg:
  assumes "fs_good ready s" and "mask_ok umask" and "ready contents"
  shows "fs_rg umask ready t (fs_create b contents) (fs_post ready) s"
  unfolding fs_create_def pthen_def
  apply (rule rg_pbind, rule rg_mono [OF fs_create_locked_rg [OF assms(1,2)]])
  subgoal premises prems for r s
  proof (cases r)
    case (Ok st)
    then have "fs_mine ready t (fs_file st) (locked_object t) s" using prems by (simp add: fs_locked_post_def)
    note u = fs_unlock_rg [OF this assms(3), of umask]
    have "fs_post ready (map_err (\<lambda>_. StaticWrite) q) s'" if "fs_post ready q s'" for s' :: "'a os_state" and q :: "(static_unlock_error, file_storage) outcome"
      using that by (cases q) (simp_all add: fs_post_def)
    then show ?thesis unfolding Ok outcome.case using fs_post_env(2) by (intro rg_pmap rg_mono [OF u]) blast
  qed (use prems env_facts(1) in \<open>auto simp: fs_post_def fs_locked_post_def\<close>)
  done

section \<open>Opening and reading\<close>

lemma file_open_rg:
  assumes "all_good F K s"
  shows "prg umask F K t (file_open_existing AccessRead b) (\<lambda>r s. all_good F K s \<and> (case r of Ok fd \<Rightarrow> seen F K fd 0 s | Err e \<Rightarrow> True | _ \<Rightarrow> False)) s"
  unfolding file_open_existing_def
  by (rule rg_pmap, rule rg_mono [OF fd_new_open_rg [OF assms _ disjI2 [OF refl]]]) (auto intro: env_facts split: sum.splits)

lemma fs_open_rg:
  assumes "fs_good ready s"
  shows "fs_rg umask ready t (fs_open b) (fs_post ready) s"
proof -
  have no: "fs_rg umask ready t (Return r) (fs_post ready) s'" if "fs_good ready s'" "\<And>st. r \<noteq> Ok st"
    for s' :: "'a os_state" and r :: "(static_open_error, file_storage) outcome"
    by (rule rg_Return [OF stable_facts(1) that(1)]) (use that(2) in \<open>simp add: fs_post_def\<close>)
  have fail: "fs_rg umask ready t (fail_after (fd_drop fd) e) (fs_post ready) s'" if "fs_good ready s'" for s' :: "'a os_state" and fd and e :: static_open_error
    by (rule fail_after_rg [OF that]) (simp add: fs_post_def)
  show ?thesis
  proof (cases "path_for (sb_config b) (sb_name b) :: (static_open_error, _) outcome")
    case (Ok p)
    show ?thesis unfolding fs_open_def Ok pthen_simps unfolding pthen_def pmap_def [of "map_err _"] pbind_assoc pbind.simps
      apply (rule rg_pbind, rule rg_mono [OF file_open_rg [OF assms]])
      subgoal premises prems for r s
      proof (cases r)
        case (Ok fd)
        have seen: "seen FS_FINAL_PERMISSIONS (fs_complete ready) fd 0 s" using prems Ok by simp
        show ?thesis unfolding Ok outcome.case map_err.simps fd_metadata_def acquire_attributes_def pmap_simps pbind.simps
          apply (rule quiet_Call(2) [OF _ seen], simp)
          subgoal premises prems for s0 s a
          proof -
            let ?x = "os_objects s fd"
            have good: "fs_good ready s" by (rule fact_good(1) [OF prems(2)])
            from prems(3) consider e where "a = Failed e" | "\<not> is_final FS_FINAL_PERMISSIONS ?x" "a = Attributes (ob_mode ?x) (ob_size ?x)"
              | "is_final FS_FINAL_PERMISSIONS ?x" "a = Attributes (ob_mode ?x) (ob_size ?x)" by (auto simp: posix_sys_simps)
            then show ?thesis
            proof cases
              case 3
              have "published FS_FINAL_PERMISSIONS (fs_complete ready) (ob_size ?x) (ob_data ?x) fd s" using prems(2) 3(1) by (auto simp: published_def seen_def)
              from env_facts(3) [OF this] env_facts(1) [OF good] show ?thesis using 3 by (auto simp: metadata_create_def fs_post_def)
            qed (use fail [OF good] in \<open>auto simp: metadata_create_def\<close>)
          qed
          done
      qed (use prems no in auto)
      done
  qed (use no [OF assms] in \<open>simp_all add: fs_open_def\<close>)
qed

lemma fs_read_rg:
  assumes "fs_published ready d st s"
  shows "fs_rg umask ready t (fs_read st buf) (\<lambda>r s. fs_published ready d st s \<and> (\<forall>buf'. r = Ok buf' \<longrightarrow> take (fs_len st) buf' = d)) s"
proof (cases "length buf < fs_len st")
  case False
  have d: "length d = fs_len st" using published_K [OF assms] assms by (auto simp: fs_complete_def published_def)
  show ?thesis unfolding fs_read_def if_not_P [OF False] file_read_def file_read_range_def file_set_offset_def pthen_def pmap_def pbind.simps pbind_assoc
    apply (rule quiet_Call(3) [OF _ assms], simp)
    subgoal premises prems for s0 s a
    proof -
      from prems(3) consider e where "a = Failed e" | "a = Count 0" by (auto simp: posix_sys_simps)
      then show ?thesis
      proof cases
        case 1
        then show ?thesis using env_facts(3) [OF prems(2)] by simp
      next
        case 2
        show ?thesis unfolding 2 sys_answer.case pbind.simps outcome.case map_err.simps simp_thms if_False
          apply (rule quiet_Call(3) [OF _ prems(2)], simp)
          subgoal premises prems for s0 s a
          proof -
            from prems consider e where "a = Failed e" | n where "a = Bytes (take n d)" by (auto simp: posix_sys_simps published_def)
            then show ?thesis
            proof cases
              case 1
              then show ?thesis using env_facts(3) [OF prems(2)] by simp
            next
              case 2
              then show ?thesis using env_facts(3) [OF prems(2)] d by (auto simp: min_def)
            qed
          qed
          done
      qed
    qed
    done
qed (use env_facts(3) [OF assms] in \<open>simp add: fs_read_def\<close>)

section \<open>All processes together\<close>

lemma fs_quiet_rg: "calls_in {c. quiet_call c} p \<Longrightarrow> fs_good ready s \<Longrightarrow> fs_rg umask ready t (pmap (\<lambda>_. NoFile) p) (fs_Q ready t) s"
  by (rule rg_pmap, rule rg_mono [OF quiet_program]) (auto simp: fs_Q_def intro: env_facts(1))

lemma fs_post_Q: "fs_post ready r s \<Longrightarrow> fs_Q ready t (fs_held OpenFile r) s" "fs_locked_post ready t r s \<Longrightarrow> fs_Q ready t (fs_held LockedFile r) s"
  by (auto simp: fs_post_def fs_locked_post_def fs_Q_def fs_held_def split: outcome.split)

lemma fs_held_rg:
  "fs_rg umask ready t p (fs_post ready) s \<Longrightarrow> fs_rg umask ready t (pmap (fs_held OpenFile) p) (fs_Q ready t) s"
  "fs_rg umask ready t q (fs_locked_post ready t) s \<Longrightarrow> fs_rg umask ready t (pmap (fs_held LockedFile) q) (fs_Q ready t) s"
  using fs_post_env(1) fs_post_Q by (blast intro: rg_pmap rg_mono)+

lemma fs_does_exist_quiet: "calls_in {c. quiet_call c} (fs_does_exist_cfg name cfg)"
  by (auto simp: fs_does_exist_cfg_def file_does_exist_def file_open_existing_def fd_new_def fd_metadata_def acquire_attributes_def fd_drop_def fail_after_def
      intro!: calls_in_pthen calls_in_pbind calls_in_pmap split: sys_answer.split outcome.split)

lemma directory_entries_quiet: "calls_in {c. quiet_call c} (directory_entries path names)"
  by (induction path names rule: directory_entries.induct)
    (auto simp: directory_acquire_metadata_def intro!: calls_in_pthen calls_in_pmap split: sys_answer.split)

lemma fs_list_quiet: "calls_in {c. quiet_call c} (fs_list_cfg cfg)"
  by (auto simp: fs_list_cfg_def Let_def directory_new_def directory_contents_def directory_drop_def
      intro!: calls_in_pthen calls_in_pbind calls_in_pmap sys_unit_quiet directory_entries_quiet split: sys_answer.split)

lemma fs_call_rg:
  assumes "fs_calls umask ready h p" and "fs_Q ready t h s"
  shows "fs_rg umask ready t p (fs_Q ready t) s"
proof -
  have good: "fs_good ready s" using assms(2) by (simp add: fs_Q_def)
  show ?thesis using assms(1)
  proof (cases rule: fs_calls.cases)
    case fc_create_locked
    then show ?thesis using fs_held_rg(2) [OF fs_create_locked_rg [OF good]] by blast
  next
    case fc_create
    then show ?thesis using fs_held_rg(1) [OF fs_create_rg [OF good]] by blast
  next
    case fc_open
    then show ?thesis using fs_held_rg(1) [OF fs_open_rg [OF good]] by blast
  next
    case fc_unlock
    then show ?thesis using fs_held_rg(1) [OF fs_unlock_rg] assms(2) by (auto simp: fs_Q_def)
  next
    case (fc_read st buf)
    then obtain d where "fs_published ready d st s" using assms(2) by (auto simp: fs_Q_def)
    note r = fs_read_rg [OF this, of umask t buf]
    have "fs_Q ready t (case q of Ok b \<Rightarrow> FileRead st b | _ \<Rightarrow> OpenFile st) s'"
      if "fs_published ready d st s' \<and> (\<forall>buf'. q = Ok buf' \<longrightarrow> take (fs_len st) buf' = d)" for q :: "(static_read_error, u8 list) outcome" and s' :: "'a os_state"
      using that fact_good(2) by (cases q) (auto simp: fs_Q_def)
    then show ?thesis unfolding fc_read(2) using fs_post_env(1) by (intro rg_pmap rg_mono [OF r]) blast
  next
    case (fc_continue st buf)
    then have "fs_Q ready t (OpenFile st) s" using assms(2) by (auto simp: fs_Q_def)
    then show ?thesis using fc_continue(2) fs_post_env(1) by auto
  next
    case (fc_acquire st)
    then have "fs_Q ready t (OpenFile (fs_acquire_ownership st)) s" using assms(2) by (simp add: fs_Q_def fs_acquire_ownership_def)
    then show ?thesis using fc_acquire(2) fs_post_env(1) by auto
  next
    case (fc_release st)
    then have "fs_Q ready t (OpenFile (fs_release_ownership st)) s" using assms(2) by (simp add: fs_Q_def fs_release_ownership_def)
    then show ?thesis using fc_release(2) fs_post_env(1) by auto
  qed (auto intro: fs_quiet_rg good fs_drop_quiet fs_does_exist_quiet fs_remove_quiet fs_list_quiet)
qed

interpretation fs: rely_guarantee "posix_sys umask" "\<lambda>h. {p. fs_calls umask ready h p}" "rely FS_FINAL_PERMISSIONS (fs_complete ready)"
  "guar FS_FINAL_PERMISSIONS (fs_complete ready)" "fs_Q ready" "empty_os :: 'v os_state" NoFile
  for umask and ready
proof unfold_locales
  fix t u :: nat and s s' :: "'v os_state" and h and p :: "('v, fs_holds) sys_prog"
  have "fs_Q ready t NoFile (empty_os :: 'v os_state)" by (simp add: fs_Q_def all_good_def empty_os_def)
  then show "fs_rg umask ready t (Return NoFile) (fs_Q ready t) (empty_os :: 'v os_state)" using fs_post_env(1) by auto
  show "fs_Q ready t h s \<Longrightarrow> p \<in> {p. fs_calls umask ready h p} \<Longrightarrow> fs_rg umask ready t p (fs_Q ready t) s" using fs_call_rg by blast
  show "t \<noteq> u \<Longrightarrow> guar FS_FINAL_PERMISSIONS (fs_complete ready) t s s' \<Longrightarrow> rely FS_FINAL_PERMISSIONS (fs_complete ready) u s s'" by (rule rely_of_guar)
qed

text \<open>C17: a static storage in a file is read as a whole or not at all. In every interleaving of the system calls of any number of processes that create, lock, unlock, open,
  read, list, drop and remove storages, whichever calls fail or write and read less than they were asked to, a process that has read a storage successfully
  has the complete contents of the file in the beginning of its buffer, as some creator wrote them; nobody reads a file that is still locked or half
  written.\<close>

theorem static_contents_are_complete:
  assumes "fs_reach umask ready s f" and "f t = Return (FileRead st buf)"
  shows "ready (take (fs_len st) buf) \<and> take (fs_len st) buf = ob_data (os_objects s (fs_file st)) \<and> fs_len st \<le> length buf"
proof -
  obtain d where d: "fs_published ready d st s" "take (fs_len st) buf = d" using fs.results_hold [OF assms] by (auto simp: fs_Q_def)
  have "fs_complete ready (os_objects s (fs_file st))" by (rule published_K [OF d(1)])
  then have "ready d" "length d = fs_len st" "ob_data (os_objects s (fs_file st)) = d" using d(1) by (auto simp: fs_complete_def published_def)
  then show ?thesis using d(2) by (metis length_take min.cobounded1)
qed

section \<open>The life of a storage\<close>

abbreviation fs_path :: "static_builder \<Rightarrow> os_path" where
  "fs_path b \<equiv> join_path (content (path_hint (sb_config b))) (content (sb_name b) @ content (suffix (sb_config b)))"

lemma fs_path_for:
  "concept_ok (sb_config b) (sb_name b) \<Longrightarrow> \<exists>fp. path_for (sb_config b) (sb_name b) = (Ok fp :: ('e, _) outcome) \<and> content fp = fs_path b"
  using path_for_Ok [of "sb_config b" "sb_name b", where ?'e = 'e] by (auto simp: concept_ok_def concept_key_def)

definition fs_object :: "nat \<Rightarrow> u8 list \<Rightarrow> 'v os_object" where
  "fs_object t d = \<lparr>ob_creator = t, ob_mode = regular FS_FINAL_PERMISSIONS, ob_size = length d, ob_value = None, ob_data = d\<rparr>"

definition has_directory :: "static_builder \<Rightarrow> 'v os_state \<Rightarrow> bool" where
  "has_directory b s \<longleftrightarrow> (\<exists>m. os_nodes s (content (path_hint (sb_config b))) = Some m \<and> m AND S_IFDIR \<noteq> 0)"

abbreviation new_storage :: "static_builder \<Rightarrow> nat \<Rightarrow> nat \<Rightarrow> file_storage" where
  "new_storage b fd n \<equiv> \<lparr>fs_name = sb_name b, fs_config = sb_config b, fs_has_ownership = sb_ownership b, fs_file = fd, fs_len = n\<rparr>"

lemmas file_program_defs = fs_create_locked_def fs_ensure_directory_def directory_does_exist_def file_builder_create_def file_create_fd_def create_file_def file_creation_mode_def
  file_builder_new_def fd_new_def fd_set_permission_def sys_unit_def file_write_def file_write_at_def file_set_offset_def file_open_existing_def fd_metadata_def
  acquire_attributes_def metadata_create_def fd_drop_def fail_after_def file_remove_def file_read_def file_read_range_def as_mode_def

lemma run_fs_create_locked:
  assumes "concept_ok (sb_config b) (sb_name b)" and "has_directory b s" and "os_files s (fs_path b) = None"
  shows "run_os umask t (fs_create_locked b) s = (Ok (new_storage b (os_next s) 0),
     s\<lparr>os_files := (os_files s)(fs_path b := Some (os_next s)), os_objects := (os_objects s)(os_next s := locked_object t), os_next := Suc (os_next s)\<rparr>)"
proof -
  obtain fp where fp: "path_for (sb_config b) (sb_name b) = (Ok fp :: (static_create_error, _) outcome)" "content fp = fs_path b" using fs_path_for [OF assms(1)] by blast
  obtain m where "os_nodes s (content (path_hint (sb_config b))) = Some m" "m AND S_IFDIR \<noteq> 0" using assms(2) by (auto simp: has_directory_def)
  then show ?thesis using assms(3) fp(2)
    by (simp add: file_program_defs fp(1) exec_pthen exec_pbind file_name_to_def add_object_def object_at_def new_object_def)
qed

lemma run_fs_create_exists:
  assumes "concept_ok (sb_config b) (sb_name b)" and "has_directory b s" and "os_files s (fs_path b) = Some ob"
  shows "run_os umask t (fs_create_locked b) s = (Err StaticAlreadyExists, s)"
proof -
  obtain fp where fp: "path_for (sb_config b) (sb_name b) = (Ok fp :: (static_create_error, _) outcome)" "content fp = fs_path b" using fs_path_for [OF assms(1)] by blast
  obtain m where "os_nodes s (content (path_hint (sb_config b))) = Some m" "m AND S_IFDIR \<noteq> 0" using assms(2) by (auto simp: has_directory_def)
  then show ?thesis using assms(3) fp(2)
    by (simp add: file_program_defs fp(1) exec_pthen exec_pbind file_creation_errno_def fs_creation_error_def)
qed

lemma run_fs_unlock:
  assumes "os_objects s (fs_file st) = locked_object t"
  shows "run_os umask u (fs_unlock st d) s = (Ok (st\<lparr>fs_len := length d\<rparr>), s\<lparr>os_objects := (os_objects s)(fs_file st := fs_object t d)\<rparr>)"
  using assms by (simp add: fs_unlock_def file_program_defs exec_pthen exec_pbind object_at_def new_object_def fs_object_def overwrite_def Let_def)

lemma run_fs_open:
  assumes "concept_ok (sb_config b) (sb_name b)"
  shows "os_files s (fs_path b) = None \<Longrightarrow> run_os umask u (fs_open b) s = (Err StaticDoesNotExist, s)"
    and "os_files s (fs_path b) = Some ob \<Longrightarrow> os_objects s ob = locked_object t \<Longrightarrow> run_os umask u (fs_open b) s = (Err StaticIsLocked, s)"
    and "os_files s (fs_path b) = Some ob \<Longrightarrow> os_objects s ob = fs_object t d \<Longrightarrow> run_os umask u (fs_open b) s = (Ok (new_storage b ob (length d)), s)"
proof -
  obtain fp where fp: "path_for (sb_config b) (sb_name b) = (Ok fp :: (static_open_error, _) outcome)" "content fp = fs_path b" using fs_path_for [OF assms(1)] by blast
  show "os_files s (fs_path b) = None \<Longrightarrow> run_os umask u (fs_open b) s = (Err StaticDoesNotExist, s)"
    using fp(2) by (simp add: fs_open_def fp(1) file_program_defs exec_pthen exec_pbind)
  show "os_files s (fs_path b) = Some ob \<Longrightarrow> os_objects s ob = locked_object t \<Longrightarrow> run_os umask u (fs_open b) s = (Err StaticIsLocked, s)"
    using fp(2) owner_all_not_final by (simp add: fs_open_def fp(1) file_program_defs exec_pthen exec_pbind new_object_def)
  show "os_files s (fs_path b) = Some ob \<Longrightarrow> os_objects s ob = fs_object t d \<Longrightarrow> run_os umask u (fs_open b) s = (Ok (new_storage b ob (length d)), s)"
    using fp(2) final_owner_read by (simp add: fs_open_def fp(1) file_program_defs exec_pthen exec_pbind fs_object_def)
qed

lemma run_fs_read:
  assumes "os_objects s (fs_file st) = fs_object t d" and "fs_len st = length d"
  shows "length buf = length d \<Longrightarrow> run_os umask u (fs_read st buf) s = (Ok d, s)"
    and "length buf < length d \<Longrightarrow> run_os umask u (fs_read st buf) s = (Err BufferTooSmall, s)"
    and "length d < length buf \<Longrightarrow> run_os umask u (fs_read st buf) s = (Ok (d @ drop (length d) buf), s)"
  using assms by (simp_all add: fs_read_def file_program_defs exec_pthen exec_pbind fs_object_def)

lemma run_fs_drop:
  assumes "concept_ok (fs_config st) (fs_name st)" and "fs_has_ownership st" and "p = join_path (content (path_hint (fs_config st))) (content (fs_name st) @ content (suffix (fs_config st)))"
    and "os_files s p \<noteq> None"
  shows "run_os umask u (fs_drop st) s = (True, file_name_to p None s)"
proof -
  let ?b = "\<lparr>sb_name = fs_name st, sb_ownership = True, sb_config = fs_config st\<rparr>"
  obtain fp where fp: "path_for (fs_config st) (fs_name st) = (Ok fp :: (named_remove_error, _) outcome)" "content fp = p"
    using fs_path_for [of ?b] assms(1,3) by auto
  then show ?thesis using assms(2,4) by (auto simp: fs_drop_def fs_remove_cfg_def file_remove_def fd_drop_def exec_pthen exec_pbind)
qed

text \<open>C18: the contents of a static storage survive the file system. When the system refuses nothing but what it has to, a new storage reserves its name, nobody can open it
  before it is unlocked, and from then on another process that opens it reads exactly the contents that were written, for any contents and any buffer that is
  large enough; nobody can create a storage with the same name; when the owner drops it, the name is free again, and whoever had opened it still reads the same
  contents.\<close>

theorem static_storage_roundtrip:
  assumes "concept_ok (sb_config b) (sb_name b)" and "sb_ownership b" and "has_directory b s" and "os_files s (fs_path b) = None" and "length contents \<le> length buf"
  shows "\<exists>locked s1 st s2 st2 s3. run_os umask t (fs_create_locked b) s = (Ok locked, s1)
    \<and> run_os umask u (fs_open b) s1 = (Err StaticIsLocked, s1)
    \<and> run_os umask t (fs_unlock locked contents) s1 = (Ok st, s2)
    \<and> run_os umask u (fs_create_locked b) s2 = (Err StaticAlreadyExists, s2)
    \<and> run_os umask u (fs_open b) s2 = (Ok st2, s2) \<and> fs_len st2 = length contents
    \<and> run_os umask u (fs_read st2 buf) s2 = (Ok (contents @ drop (length contents) buf), s2)
    \<and> run_os umask t (fs_drop st) s2 = (True, s3)
    \<and> run_os umask u (fs_open b) s3 = (Err StaticDoesNotExist, s3)
    \<and> run_os umask u (fs_read st2 buf) s3 = (Ok (contents @ drop (length contents) buf), s3)"
proof -
  let ?fd = "os_next s"
  define s1 where "s1 = s\<lparr>os_files := (os_files s)(fs_path b := Some ?fd), os_objects := (os_objects s)(?fd := locked_object t), os_next := Suc ?fd\<rparr>"
  define s2 where "s2 = s1\<lparr>os_objects := (os_objects s1)(?fd := fs_object t contents)\<rparr>"
  define s3 where "s3 = file_name_to (fs_path b) None s2"
  let ?st = "new_storage b ?fd (length contents)"
  have s1: "os_files s1 (fs_path b) = Some ?fd" "os_objects s1 ?fd = locked_object t" "os_nodes s1 = os_nodes s" by (simp_all add: s1_def)
  have s2: "os_files s2 (fs_path b) = Some ?fd" "os_objects s2 ?fd = fs_object t contents" "os_nodes s2 = os_nodes s" using s1 by (simp_all add: s2_def)
  have s3: "os_files s3 (fs_path b) = None" "os_objects s3 ?fd = fs_object t contents" using s2(2) by (simp_all add: s3_def file_name_to_def)
  have read: "run_os umask u (fs_read ?st buf) s' = (Ok (contents @ drop (length contents) buf), s')" if "os_objects s' ?fd = fs_object t contents" for s'
    using run_fs_read(1,3) [of s' ?st t contents buf umask u] that assms(5) by (cases "length buf = length contents") auto
  have "run_os umask t (fs_create_locked b) s = (Ok (new_storage b ?fd 0), s1)" using run_fs_create_locked [OF assms(1,3,4)] by (simp add: s1_def)
  moreover have "run_os umask u (fs_open b) s1 = (Err StaticIsLocked, s1)" by (rule run_fs_open(2) [OF assms(1) s1(1,2)])
  moreover have "run_os umask t (fs_unlock (new_storage b ?fd 0) contents) s1 = (Ok ?st, s2)" using run_fs_unlock [of s1 "new_storage b ?fd 0" t umask t contents] s1(2) by (simp add: s2_def)
  moreover have "run_os umask u (fs_create_locked b) s2 = (Err StaticAlreadyExists, s2)"
    by (rule run_fs_create_exists [OF assms(1) _ s2(1)]) (use assms(3) s2(3) in \<open>simp add: has_directory_def\<close>)
  moreover have "run_os umask u (fs_open b) s2 = (Ok ?st, s2)" by (rule run_fs_open(3) [OF assms(1) s2(1,2)])
  moreover have "run_os umask t (fs_drop ?st) s2 = (True, s3)" using run_fs_drop [of ?st "fs_path b" s2 umask t] assms(1,2) s2(1) by (simp add: s3_def)
  moreover have "run_os umask u (fs_open b) s3 = (Err StaticDoesNotExist, s3)" by (rule run_fs_open(1) [OF assms(1) s3(1)])
  ultimately show ?thesis using read [OF s2(2)] read [OF s3(2)]
    by (intro exI [of _ "new_storage b ?fd 0"] exI [of _ s1] exI [of _ ?st] exI [of _ s2] exI [of _ ?st] exI [of _ s3]) simp
qed

section \<open>Examples\<close>

definition example_os :: "static_builder \<Rightarrow> 'v os_state" where
  "example_os b = empty_os\<lparr>os_nodes := (\<lambda>_. None)(content (path_hint (sb_config b)) := Some 0x41F8)\<rparr>"

lemma example_static_builder:
  obtains b :: static_builder where "concept_ok (sb_config b) (sb_name b)" "sb_ownership b"
proof -
  from example_strings obtain cfg n where "concept_ok cfg n" by metis
  then show thesis using that [of "\<lparr>sb_name = n, sb_ownership = True, sb_config = cfg\<rparr>"] by simp
qed

theorem static_storage_roundtrip_witness:
  "\<exists>b locked s1 st s2 st2. run_os 0x12 0 (fs_create_locked b) (example_os b :: nat os_state) = (Ok locked, s1)
    \<and> run_os 0x12 0 (fs_unlock locked [1, 2, 3]) s1 = (Ok st, s2) \<and> run_os 0x12 1 (fs_open b) s2 = (Ok st2, s2)
    \<and> run_os 0x12 1 (fs_read st2 [0, 0, 0, 9]) s2 = (Ok [1, 2, 3, 9], s2)"
proof -
  obtain b :: static_builder where b: "concept_ok (sb_config b) (sb_name b)" "sb_ownership b" by (rule example_static_builder)
  have "has_directory b (example_os b :: nat os_state)" "os_files (example_os b :: nat os_state) (fs_path b) = None"
    by (simp_all add: has_directory_def example_os_def empty_os_def S_IFDIR_def)
  from static_storage_roundtrip [OF b this, of "[1, 2, 3]" "[0, 0, 0, 9]" "0x12" 0 1] show ?thesis by fastforce
qed

text \<open>The first storage of all creates the directory.\<close>

lemma run_fs_create_first:
  assumes "concept_ok (sb_config b) (sb_name b)"
  shows "\<exists>s. run_os umask t (fs_create b d) (empty_os :: 'v os_state) = (Ok (new_storage b 0 (length d)), s)
    \<and> os_files s (fs_path b) = Some 0 \<and> os_objects s 0 = fs_object t d"
proof -
  obtain fp where fp: "path_for (sb_config b) (sb_name b) = (Ok fp :: (static_create_error, _) outcome)" "content fp = fs_path b" using fs_path_for [OF assms(1)] by blast
  let ?s1 = "run_os umask t (fs_create_locked b) (empty_os :: 'v os_state)"
  have s1: "fst ?s1 = Ok (new_storage b 0 0) \<and> os_files (snd ?s1) (fs_path b) = Some 0 \<and> os_objects (snd ?s1) 0 = locked_object t" using fp(2)
    by (simp add: file_program_defs fp(1) exec_pthen exec_pbind file_name_to_def add_object_def object_at_def new_object_def empty_os_def
        directory_access_errno_def directory_create_def directory_new_def directory_drop_def)
  then obtain s1 where "?s1 = (Ok (new_storage b 0 0), s1)" "os_files s1 (fs_path b) = Some 0" "os_objects s1 0 = locked_object t" by (cases ?s1) auto
  then show ?thesis using run_fs_unlock [of s1 "new_storage b 0 0" t umask t d] by (simp add: fs_create_def exec_pthen)
qed

theorem static_contents_are_complete_witness:
  "\<exists>s f st. fs_reach 0x12 (\<lambda>d. d = [1, 2, 3]) (s :: nat os_state) f \<and> f 1 = Return (FileRead st [1, 2, 3, 9]) \<and> take (fs_len st) [1, 2, 3, 9] = [1, 2, 3 :: u8]"
proof -
  let ?reach = "fs_reach 0x12 (\<lambda>d. d = [1, 2, 3]) :: nat os_state \<Rightarrow> (nat \<Rightarrow> (nat, fs_holds) sys_prog) \<Rightarrow> bool"
  obtain b :: static_builder where b: "concept_ok (sb_config b) (sb_name b)" "sb_ownership b" by (rule example_static_builder)
  let ?st = "new_storage b 0 3"
  obtain s where s: "run_os 0x12 0 (fs_create b [1, 2, 3]) (empty_os :: nat os_state) = (Ok ?st, s)" "os_files s (fs_path b) = Some 0" "os_objects s 0 = fs_object 0 [1, 2, 3]"
    using run_fs_create_first [OF b(1), of "0x12" 0 "[1, 2, 3]"] by (auto simp: eval_nat_numeral)
  let ?f = "\<lambda>_ :: nat. Return NoFile :: (nat, fs_holds) sys_prog"
  have mask: "mask_ok 0x12" by (simp add: mask_ok_def FS_FINAL_PERMISSIONS_def permission_defs)
  have sem: "\<And>t s c. posix_sys 0x12 t s c (fst (reliable_os 0x12 t s c)) (snd (reliable_os 0x12 t s c))" by (rule reliable_os_posix)
  have "?reach empty_os ?f" by (rule pr_start)
  from prog_reach_exec [OF sem this, where t = 0 and r = NoFile and p = "pmap (fs_held OpenFile) (fs_create b [1, 2, 3])" and r' = "OpenFile ?st" and s' = s]
  have r1: "?reach s (?f(0 := Return (OpenFile ?st)))" using s(1) mask by (auto simp: fs_held_def intro: fc_create)
  have "run_os 0x12 1 (fs_open b) s = (Ok ?st, s)" using run_fs_open(3) [OF b(1) s(2,3)] by simp
  with prog_reach_exec [OF sem r1, where t = 1 and r = NoFile and p = "pmap (fs_held OpenFile) (fs_open b)" and r' = "OpenFile ?st" and s' = s]
  have r2: "?reach s (?f(0 := Return (OpenFile ?st), 1 := Return (OpenFile ?st)))" by (auto simp: fs_held_def intro: fc_open)
  have "run_os 0x12 1 (fs_read ?st [0, 0, 0, 9]) s = (Ok [1, 2, 3, 9], s)" using run_fs_read(3) [of s ?st 0 "[1, 2, 3]" "[0, 0, 0, 9]"] s(3) by simp
  with prog_reach_exec [OF sem r2, where t = 1 and r = "OpenFile ?st" and s' = s and r' = "FileRead ?st [1, 2, 3, 9]"
      and p = "pmap (\<lambda>r. case r of Ok b \<Rightarrow> FileRead ?st b | _ \<Rightarrow> OpenFile ?st) (fs_read ?st [0, 0, 0, 9])"]
  have "?reach s ((?f(0 := Return (OpenFile ?st), 1 := Return (OpenFile ?st)))(1 := Return (FileRead ?st [1, 2, 3, 9])))" by (auto intro: fc_read)
  moreover from static_contents_are_complete [OF this, of 1 ?st "[1, 2, 3, 9]"] have "take (fs_len ?st) [1, 2, 3, 9] = [1, 2, 3 :: u8]" by simp
  ultimately show ?thesis by (intro exI [of _ s] exI [of _ "(?f(0 := Return (OpenFile ?st), 1 := Return (OpenFile ?st)))(1 := Return (FileRead ?st [1, 2, 3, 9]))"] exI [of _ ?st]) simp
qed

end
