(* ===== verification/CommunicationChannel.thy ===== *)
theory CommunicationChannel
  imports PosixStorage ZeroCopyConnection
begin

text \<open>
  \<^verbatim>\<open>elkodon_cal/src/communication_channel\<close>: channels that are identified by a name and carry integers from a sender to a receiver. Two of the variants of the source are
  modelled: \<^verbatim>\<open>posix_shared_memory.rs\<close>, a queue in a dynamic storage, and \<^verbatim>\<open>process_local.rs\<close>, a queue in a global hash map. The locale \<open>channel_provider\<close> is the contract
  that \<^verbatim>\<open>mod.rs\<close> states for all variants; it is interpreted for both.

  Calls of the sender and the receiver of a channel do not overlap here; \<open>OverflowQueue\<close> has the queue with both of them interleaved.
\<close>

section \<open>The contract\<close>

datatype channel_send_error = SendConnectionBroken | MessageTooLarge | ReceiverCacheIsFull | SendInternalFailure
datatype channel_receive_error = ReceiveConnectionBroken | MessageCorrupt | ReceiveInternalFailure
datatype channel_create_error = ChannelAlreadyExists | SafeOverflowNotSupported | CustomBufferSizeNotSupported | CreateInternalFailure
datatype channel_open_error = OpenInternalFailure | AnotherInstanceIsAlreadyConnected | ChannelDoesNotExist

definition DEFAULT_RECEIVER_BUFFER_SIZE :: usize where
  "DEFAULT_RECEIVER_BUFFER_SIZE = 8"

record channel_connector =
  cn_name :: byte_string
  cn_config :: named_concept_config

record channel_creator = channel_connector +
  cc_overflow :: bool
  cc_buffer_size :: usize

definition channel_creator_new :: "byte_string \<Rightarrow> named_concept_config \<Rightarrow> channel_creator" where
  "channel_creator_new name default_config = \<lparr>cn_name = name, cn_config = default_config, cc_overflow = False, cc_buffer_size = DEFAULT_RECEIVER_BUFFER_SIZE\<rparr>"

abbreviation connector_of :: "channel_creator \<Rightarrow> channel_connector" where
  "connector_of \<equiv> channel_connector.truncate"

text \<open>What a channel is: the values that were sent and not yet received.\<close>

record abs_channel =
  ac_list :: "nat list"
  ac_capacity :: nat
  ac_overflow :: bool

datatype channel_op = Send nat | Receive
datatype channel_result = Sent "nat option" | NotSent channel_send_error | Received "nat option" | NotReceived channel_receive_error | Broken

fun abs_op :: "channel_op \<Rightarrow> abs_channel \<Rightarrow> channel_result \<times> abs_channel" where
  "abs_op (Send v) c =
     (if length (ac_list c) < ac_capacity c then (Sent None, c\<lparr>ac_list := ac_list c @ [v]\<rparr>)
      else if ac_overflow c then (Sent (Some (hd (ac_list c))), c\<lparr>ac_list := tl (ac_list c) @ [v]\<rparr>)
      else (NotSent ReceiverCacheIsFull, c))"
| "abs_op Receive c = (case ac_list c of [] \<Rightarrow> (Received None, c) | x # xs \<Rightarrow> (Received (Some x), c\<lparr>ac_list := xs\<rparr>))"

fun abs_ops :: "channel_op list \<Rightarrow> abs_channel \<Rightarrow> channel_result list \<times> abs_channel" where
  "abs_ops [] c = ([], c)"
| "abs_ops (x # xs) c = (case abs_op x c of (r, c') \<Rightarrow> case abs_ops xs c' of (rs, c'') \<Rightarrow> (r # rs, c''))"

text \<open>First in, first out: what was accepted, and what came out, received or evicted.\<close>

fun accepted :: "channel_op list \<Rightarrow> channel_result list \<Rightarrow> nat list" where
  "accepted (Send v # xs) (Sent _ # rs) = v # accepted xs rs"
| "accepted (_ # xs) (_ # rs) = accepted xs rs"
| "accepted _ _ = []"

fun came_out :: "channel_result list \<Rightarrow> nat list" where
  "came_out [] = []"
| "came_out (Sent (Some v) # rs) = v # came_out rs"
| "came_out (Received (Some v) # rs) = v # came_out rs"
| "came_out (_ # rs) = came_out rs"

lemma abs_ops_fifo:
  "0 < ac_capacity c \<Longrightarrow> length (ac_list c) \<le> ac_capacity c \<Longrightarrow> abs_ops xs c = (rs, c')
    \<Longrightarrow> came_out rs @ ac_list c' = ac_list c @ accepted xs rs \<and> length (ac_list c') \<le> ac_capacity c"
proof (induction xs arbitrary: c rs)
  case (Cons x xs)
  obtain r c1 rs1 where s: "abs_op x c = (r, c1)" "abs_ops xs c1 = (rs1, c')" "rs = r # rs1" using Cons.prems(3) by (auto split: prod.splits)
  have "length (ac_list c1) \<le> ac_capacity c1 \<and> ac_capacity c1 = ac_capacity c
      \<and> (case x of Send v \<Rightarrow> (case r of Sent o' \<Rightarrow> opt_list o' @ ac_list c1 = ac_list c @ [v] | NotSent e \<Rightarrow> c1 = c | _ \<Rightarrow> False)
         | Receive \<Rightarrow> (case r of Received o' \<Rightarrow> opt_list o' @ ac_list c1 = ac_list c | _ \<Rightarrow> False))"
  proof (cases x)
    case (Send v)
    then show ?thesis using Cons.prems(1,2) s(1) by (cases "ac_list c") (auto simp: opt_list_def split: if_splits)
  next
    case Receive
    then show ?thesis using Cons.prems(2) s(1) by (auto simp: opt_list_def split: list.splits)
  qed
  moreover from this have "came_out rs1 @ ac_list c' = ac_list c1 @ accepted xs rs1 \<and> length (ac_list c') \<le> ac_capacity c1"
    using Cons.IH [OF _ _ s(2)] Cons.prems(1) by simp
  ultimately show ?case unfolding s(3)
    by (cases x; cases r) (auto simp: opt_list_def split: option.splits)
qed auto

section \<open>Operations on the memory of a channel\<close>

text \<open>\<^verbatim>\<open>Management\<close> of both variants. \<open>'e\<close> is the error type of the caller.\<close>

record channel_management =
  cm_queue :: overflow_queue
  cm_overflow :: bool

text \<open>\<^verbatim>\<open>try_send\<close> and \<^verbatim>\<open>receive\<close> of \<^verbatim>\<open>posix_shared_memory.rs\<close>.\<close>

definition cm_try_send :: "nat \<Rightarrow> channel_management \<Rightarrow> (channel_send_error, channel_management \<times> nat option) outcome" where
  "cm_try_send value m =
     obind (if cm_overflow m then Ok False else oq_is_full (cm_queue m)) (\<lambda>full.
     if full then Err ReceiverCacheIsFull else omap (\<lambda>(q, r). (m\<lparr>cm_queue := q\<rparr>, r)) (oq_push (cm_queue m) value))"

definition cm_receive :: "channel_management \<Rightarrow> (channel_receive_error, channel_management \<times> nat option) outcome" where
  "cm_receive m = omap (\<lambda>(q, r). (m\<lparr>cm_queue := q\<rparr>, r)) (oq_pop (cm_queue m))"

text \<open>Those of \<^verbatim>\<open>process_local.rs\<close>, which take the producer or the consumer of the queue for the time of the call; \<^verbatim>\<open>unwrap\<close> panics when somebody else has it.\<close>

definition dx_try_send :: "nat \<Rightarrow> channel_management \<Rightarrow> (channel_send_error, channel_management \<times> nat option) outcome" where
  "dx_try_send value m =
     obind (if cm_overflow m then Ok False else oq_is_full (cm_queue m)) (\<lambda>full.
     if full then Err ReceiverCacheIsFull
     else obind (oq_acquire_producer (cm_queue m)) (\<lambda>(q, acquired).
       if \<not> acquired then Panic else omap (\<lambda>(q, r). (m\<lparr>cm_queue := oq_producer_drop q\<rparr>, r)) (oq_push q value)))"

definition dx_receive :: "channel_management \<Rightarrow> (channel_receive_error, channel_management \<times> nat option) outcome" where
  "dx_receive m = obind (oq_acquire_consumer (cm_queue m)) (\<lambda>(q, acquired).
     if \<not> acquired then Panic else omap (\<lambda>(q, r). (m\<lparr>cm_queue := oq_consumer_drop q\<rparr>, r)) (oq_pop q))"

definition cm_buffer_size :: "channel_management \<Rightarrow> usize" where
  "cm_buffer_size m = o_capacity (cm_queue m)"

section \<open>The channel in shared memory\<close>

definition shc_initializer :: "channel_management \<Rightarrow> bump_allocator \<Rightarrow> channel_management \<times> bool" where
  "shc_initializer mgmt allocator = (case oq_init (\<lambda>l. omap snd (bump_allocate allocator l)) (cm_queue mgmt) of
     Ok q \<Rightarrow> (mgmt\<lparr>cm_queue := q\<rparr>, True) | _ \<Rightarrow> (mgmt, False))"

definition shc_create_error :: "dynamic_create_error \<Rightarrow> channel_create_error" where
  "shc_create_error e = (case e of DynamicAlreadyExists \<Rightarrow> ChannelAlreadyExists | _ \<Rightarrow> CreateInternalFailure)"

text \<open>\<open>size_of\<close> is the size of \<^verbatim>\<open>Management\<close>.\<close>

definition shc_create_receiver :: "usize \<Rightarrow> channel_creator \<Rightarrow> (channel_management, (channel_create_error, pds_storage) outcome) sys_prog" where
  "shc_create_receiver size_of b =
     pthen (Return (oq_const_memory_size (cc_buffer_size b))) (\<lambda>n.
     pmap (map_err shc_create_error)
       (pds_create_and_initialize size_of \<lparr>db_name = cn_name b, db_supplementary_size = n, db_ownership = True, db_config = cn_config b\<rparr>
          \<lparr>cm_queue = oq_new_uninit (cc_buffer_size b), cm_overflow = cc_overflow b\<rparr> shc_initializer))"

definition shc_open_error :: "dynamic_open_error \<Rightarrow> channel_open_error" where
  "shc_open_error e = (case e of DynamicDoesNotExist \<Rightarrow> ChannelDoesNotExist | InitializationNotYetFinalized \<Rightarrow> ChannelDoesNotExist | _ \<Rightarrow> OpenInternalFailure)"

definition shc_try_open_sender :: "usize \<Rightarrow> channel_connector \<Rightarrow> (channel_management, (channel_open_error, pds_storage) outcome) sys_prog" where
  "shc_try_open_sender size_of c = pmap (map_err shc_open_error)
     (pds_try_open size_of \<lparr>db_name = cn_name c, db_supplementary_size = 0, db_ownership = True, db_config = cn_config c\<rparr>)"

definition shc_does_exist_cfg :: "byte_string \<Rightarrow> named_concept_config \<Rightarrow> ('v, ('e, bool) outcome) sys_prog" where
  "shc_does_exist_cfg name cfg = pds_does_exist_cfg name cfg"

definition shc_remove_cfg :: "byte_string \<Rightarrow> named_concept_config \<Rightarrow> ('v, (named_remove_error, bool) outcome) sys_prog" where
  "shc_remove_cfg name cfg = pds_remove_cfg name cfg"

text \<open>An operation on the value behind \<^verbatim>\<open>management()\<close>. Memory without a value is not a channel.\<close>

definition on_management :: "pds_storage \<Rightarrow> (channel_management \<Rightarrow> ('e, channel_management \<times> 'a) outcome) \<Rightarrow> channel_management os_state
    \<Rightarrow> ('e, 'a) outcome \<times> channel_management os_state" where
  "on_management st f s =
     (let ob = sm_file_descriptor (pds_shm st) in case ob_value (os_objects s ob) of
        None \<Rightarrow> (UB, s)
      | Some m \<Rightarrow> (case f m of
          Ok (m', x) \<Rightarrow> (Ok x, object_at ob (\<lambda>y. y\<lparr>ob_value := Some m'\<rparr>) s) | Err e \<Rightarrow> (Err e, s) | Panic \<Rightarrow> (Panic, s) | UB \<Rightarrow> (UB, s)))"

definition shc_try_send :: "pds_storage \<Rightarrow> nat \<Rightarrow> channel_management os_state \<Rightarrow> (channel_send_error, nat option) outcome \<times> channel_management os_state" where
  "shc_try_send st value = on_management st (cm_try_send value)"

definition shc_receive :: "pds_storage \<Rightarrow> channel_management os_state \<Rightarrow> (channel_receive_error, nat option) outcome \<times> channel_management os_state" where
  "shc_receive st = on_management st cm_receive"

definition shc_drop :: "pds_storage \<Rightarrow> (channel_management, (unit, unit) outcome) sys_prog" where
  "shc_drop st = shm_drop (pds_shm st)"

section \<open>The channel of one process\<close>

record channel_registry =
  cr_lockable :: bool
  cr_entries :: "(path_key \<times> nat) list"
  cr_heap :: "nat \<Rightarrow> channel_management"
  cr_next :: nat

record duplex =
  dx_name :: byte_string
  dx_management :: nat
  dx_config :: named_concept_config
  dx_ownership :: bool

definition management_new :: "bool \<Rightarrow> usize \<Rightarrow> channel_management" where
  "management_new overflow capacity = \<lparr>cm_queue = oq_new capacity, cm_overflow = overflow\<rparr>"

definition plc_create_receiver :: "channel_creator \<Rightarrow> channel_registry \<Rightarrow> (channel_create_error, channel_registry \<times> duplex) outcome" where
  "plc_create_receiver b r =
     (if \<not> cr_lockable r then Err CreateInternalFailure
      else obind (concept_path (cn_config b) (cn_name b)) (\<lambda>full_name.
        if map_of (cr_entries r) full_name \<noteq> None then Err ChannelAlreadyExists
        else Ok (r\<lparr>cr_entries := AList.update full_name (cr_next r) (cr_entries r),
                    cr_heap := (cr_heap r)(cr_next r := management_new (cc_overflow b) (cc_buffer_size b)), cr_next := cr_next r + 1\<rparr>,
                 \<lparr>dx_name = cn_name b, dx_management = cr_next r, dx_config = cn_config b, dx_ownership = True\<rparr>)))"

definition plc_try_open_sender :: "channel_connector \<Rightarrow> channel_registry \<Rightarrow> (channel_open_error, duplex) outcome" where
  "plc_try_open_sender c r =
     (if \<not> cr_lockable r then Err OpenInternalFailure
      else obind (concept_path (cn_config c) (cn_name c)) (\<lambda>full_name.
        case map_of (cr_entries r) full_name of
          None \<Rightarrow> Err ChannelDoesNotExist
        | Some i \<Rightarrow> Ok \<lparr>dx_name = cn_name c, dx_management = i, dx_config = cn_config c, dx_ownership = False\<rparr>))"

definition duplex_drop :: "duplex \<Rightarrow> channel_registry \<Rightarrow> ('e, channel_registry) outcome" where
  "duplex_drop d r =
     (if \<not> dx_ownership d then Ok r
      else if \<not> cr_lockable r then Panic
      else obind (concept_path (dx_config d) (dx_name d)) (\<lambda>full_name.
        if map_of (cr_entries r) full_name = None then Panic else Ok (r\<lparr>cr_entries := AList.delete full_name (cr_entries r)\<rparr>)))"

definition plc_does_exist_cfg :: "byte_string \<Rightarrow> named_concept_config \<Rightarrow> channel_registry \<Rightarrow> ('e, bool) outcome" where
  "plc_does_exist_cfg name cfg r = (if \<not> cr_lockable r then Panic else omap (\<lambda>p. map_of (cr_entries r) p \<noteq> None) (concept_path cfg name))"

definition plc_list_cfg :: "named_concept_config \<Rightarrow> channel_registry \<Rightarrow> ('e, byte_string list) outcome" where
  "plc_list_cfg cfg r = (if \<not> cr_lockable r then Panic else list_names cfg (map fst (cr_entries r)))"

definition plc_remove_cfg :: "byte_string \<Rightarrow> named_concept_config \<Rightarrow> channel_registry \<Rightarrow> ('e, channel_registry \<times> bool) outcome" where
  "plc_remove_cfg name cfg r =
     obind (concept_path cfg name) (\<lambda>p.
       if \<not> cr_lockable r then Panic else Ok (r\<lparr>cr_entries := AList.delete p (cr_entries r)\<rparr>, map_of (cr_entries r) p \<noteq> None))"

definition on_duplex :: "duplex \<Rightarrow> (channel_management \<Rightarrow> ('e, channel_management \<times> 'a) outcome) \<Rightarrow> channel_registry \<Rightarrow> ('e, 'a) outcome \<times> channel_registry" where
  "on_duplex d f r = (case f (cr_heap r (dx_management d)) of
     Ok (m, x) \<Rightarrow> (Ok x, r\<lparr>cr_heap := (cr_heap r)(dx_management d := m)\<rparr>) | Err e \<Rightarrow> (Err e, r) | Panic \<Rightarrow> (Panic, r) | UB \<Rightarrow> (UB, r))"

definition plc_try_send :: "duplex \<Rightarrow> nat \<Rightarrow> channel_registry \<Rightarrow> (channel_send_error, nat option) outcome \<times> channel_registry" where
  "plc_try_send d value = on_duplex d (dx_try_send value)"

definition plc_receive :: "duplex \<Rightarrow> channel_registry \<Rightarrow> (channel_receive_error, nat option) outcome \<times> channel_registry" where
  "plc_receive d = on_duplex d dx_receive"

section \<open>The contract as a locale\<close>

definition send_result :: "(channel_send_error, nat option) outcome \<Rightarrow> channel_result" where
  "send_result r = (case r of Ok x \<Rightarrow> Sent x | Err e \<Rightarrow> NotSent e | _ \<Rightarrow> Broken)"

definition receive_result :: "(channel_receive_error, nat option) outcome \<Rightarrow> channel_result" where
  "receive_result r = (case r of Ok x \<Rightarrow> Received x | Err e \<Rightarrow> NotReceived e | _ \<Rightarrow> Broken)"

text \<open>A sequence of calls of a sender \<open>tx\<close> and a receiver \<open>rx\<close>, with their results.\<close>

fun run_channel :: "('h \<Rightarrow> nat \<Rightarrow> 's \<Rightarrow> (channel_send_error, nat option) outcome \<times> 's) \<Rightarrow> ('h \<Rightarrow> 's \<Rightarrow> (channel_receive_error, nat option) outcome \<times> 's)
    \<Rightarrow> 'h \<Rightarrow> 'h \<Rightarrow> channel_op list \<Rightarrow> 's \<Rightarrow> channel_result list \<times> 's" where
  "run_channel send receive tx rx [] s = ([], s)"
| "run_channel send receive tx rx (Send v # xs) s =
     (case send tx v s of (r, s1) \<Rightarrow> case run_channel send receive tx rx xs s1 of (rs, s2) \<Rightarrow> (send_result r # rs, s2))"
| "run_channel send receive tx rx (Receive # xs) s =
     (case receive rx s of (r, s1) \<Rightarrow> case run_channel send receive tx rx xs s1 of (rs, s2) \<Rightarrow> (receive_result r # rs, s2))"

text \<open>\<open>names\<close> are the channels that can be opened, \<open>chan\<close> is the content of every channel, also of one whose name is gone; \<open>ticks\<close> bounds the number of further calls before
  a position of the queue overflows; \<open>owns\<close> is the name that is removed when the handle is dropped.\<close>

locale channel_provider =
  fixes invar :: "'s \<Rightarrow> bool" and names :: "'s \<Rightarrow> 'k \<Rightarrow> nat option" and chan :: "'s \<Rightarrow> nat \<Rightarrow> abs_channel option" and ticks :: "'s \<Rightarrow> nat \<Rightarrow> nat"
    and ok :: "channel_creator \<Rightarrow> bool" and key :: "channel_connector \<Rightarrow> 'k" and ident :: "'h \<Rightarrow> nat" and owns :: "'h \<Rightarrow> 'k option" and handle_ok :: "'h \<Rightarrow> bool"
    and create :: "channel_creator \<Rightarrow> 's \<Rightarrow> (channel_create_error, 'h) outcome \<times> 's" and connect :: "channel_connector \<Rightarrow> 's \<Rightarrow> (channel_open_error, 'h) outcome \<times> 's"
    and send :: "'h \<Rightarrow> nat \<Rightarrow> 's \<Rightarrow> (channel_send_error, nat option) outcome \<times> 's" and receive :: "'h \<Rightarrow> 's \<Rightarrow> (channel_receive_error, nat option) outcome \<times> 's"
    and release :: "'h \<Rightarrow> 's \<Rightarrow> (unit, unit) outcome \<times> 's"
  assumes create_new: "invar s \<Longrightarrow> ok b \<Longrightarrow> names s (key (connector_of b)) = None \<Longrightarrow>
      \<exists>h s'. create b s = (Ok h, s') \<and> invar s' \<and> names s' = (names s)(key (connector_of b) \<mapsto> ident h) \<and> owns h = Some (key (connector_of b)) \<and> handle_ok h
        \<and> chan s' (ident h) = Some \<lparr>ac_list = [], ac_capacity = cc_buffer_size b, ac_overflow = cc_overflow b\<rparr> \<and> ticks s' (ident h) = usize_lim - 1 - cc_buffer_size b
        \<and> (\<forall>i. chan s i \<noteq> None \<longrightarrow> chan s' i = chan s i)"
    and create_taken: "invar s \<Longrightarrow> ok b \<Longrightarrow> names s (key (connector_of b)) = Some i \<Longrightarrow> create b s = (Err ChannelAlreadyExists, s)"
    and open_named: "invar s \<Longrightarrow> ok b \<Longrightarrow> names s (key (connector_of b)) = Some i \<Longrightarrow> \<exists>h. connect (connector_of b) s = (Ok h, s) \<and> ident h = i \<and> owns h = None"
    and open_missing: "invar s \<Longrightarrow> ok b \<Longrightarrow> names s (key (connector_of b)) = None \<Longrightarrow> connect (connector_of b) s = (Err ChannelDoesNotExist, s)"
    and send_law: "invar s \<Longrightarrow> chan s (ident h) = Some c \<Longrightarrow> 0 < ac_capacity c \<Longrightarrow> 0 < ticks s (ident h) \<Longrightarrow> abs_op (Send v) c = (x, c') \<Longrightarrow>
      \<exists>r s'. send h v s = (r, s') \<and> send_result r = x \<and> invar s' \<and> names s' = names s \<and> chan s' = (chan s)(ident h \<mapsto> c') \<and> ticks s (ident h) \<le> Suc (ticks s' (ident h))"
    and receive_law: "invar s \<Longrightarrow> chan s (ident h) = Some c \<Longrightarrow> 0 < ticks s (ident h) \<Longrightarrow> abs_op Receive c = (x, c') \<Longrightarrow>
      \<exists>r s'. receive h s = (r, s') \<and> receive_result r = x \<and> invar s' \<and> names s' = names s \<and> chan s' = (chan s)(ident h \<mapsto> c') \<and> ticks s (ident h) \<le> Suc (ticks s' (ident h))"
    and drop_owner: "invar s \<Longrightarrow> handle_ok h \<Longrightarrow> owns h = Some k \<Longrightarrow> names s k \<noteq> None \<Longrightarrow> \<exists>s'. release h s = (Ok (), s') \<and> invar s' \<and> names s' = (names s)(k := None) \<and> chan s' = chan s \<and> ticks s' = ticks s"
    and drop_other: "owns h = None \<Longrightarrow> release h s = (Ok (), s)"
begin

lemma ops_refine:
  "invar s \<Longrightarrow> chan s i = Some c \<Longrightarrow> 0 < ac_capacity c \<Longrightarrow> length xs \<le> ticks s i \<Longrightarrow> ident tx = i \<Longrightarrow> ident rx = i \<Longrightarrow> abs_ops xs c = (rs, c')
    \<Longrightarrow> \<exists>s'. run_channel send receive tx rx xs s = (rs, s') \<and> invar s' \<and> names s' = names s \<and> chan s' = (chan s)(i \<mapsto> c') \<and> ticks s i \<le> length xs + ticks s' i"
proof (induction xs arbitrary: s c rs)
  case Nil
  then show ?case by (auto simp: fun_upd_idem)
next
  case (Cons x xs)
  obtain r c1 rs1 where o: "abs_op x c = (r, c1)" "abs_ops xs c1 = (rs1, c')" "rs = r # rs1" using Cons.prems(7) by (auto split: prod.splits)
  have cap: "0 < ac_capacity c1" using Cons.prems(3) o(1) by (cases x) (auto split: if_splits list.splits)
  have t: "0 < ticks s i" using Cons.prems(4) by auto
  obtain q s1 where s1: "run_channel send receive tx rx (x # xs) s = (case run_channel send receive tx rx xs s1 of (rs, s2) \<Rightarrow> (r # rs, s2))"
    "invar s1" "names s1 = names s" "chan s1 = (chan s)(i \<mapsto> c1)" "ticks s i \<le> Suc (ticks s1 i)"
  proof (cases x)
    case (Send v)
    then show thesis using that send_law [of s tx c v r c1] Cons.prems t o(1) by auto
  next
    case Receive
    then show thesis using that receive_law [of s rx c r c1] Cons.prems t o(1) by auto
  qed
  then obtain s2 where "run_channel send receive tx rx xs s1 = (rs1, s2)" "invar s2" "names s2 = names s1" "chan s2 = (chan s1)(i \<mapsto> c')" "ticks s1 i \<le> length xs + ticks s2 i"
    using Cons.IH [OF s1(2) _ cap _ Cons.prems(5,6) o(2)] Cons.prems(4) s1(4,5) by (auto simp del: fun_upd_apply simp add: fun_upd_same)
  moreover from this have "chan s2 = (chan s)(i \<mapsto> c')" using s1(4) by (simp only: fun_upd_upd)
  ultimately show ?case using s1 o(3) by (intro exI [of _ s2]) simp
qed

text \<open>The life of a channel.\<close>

lemma channel_life:
  assumes "invar s" and "ok b" and "0 < cc_buffer_size b" and "names s (key (connector_of b)) = None" and "length xs + length ys < usize_lim - cc_buffer_size b"
  defines "c \<equiv> \<lparr>ac_list = [], ac_capacity = cc_buffer_size b, ac_overflow = cc_overflow b\<rparr>"
  shows "\<exists>rx s1 tx s2 s3 s4. create b s = (Ok rx, s1) \<and> create b s1 = (Err ChannelAlreadyExists, s1) \<and> connect (connector_of b) s1 = (Ok tx, s1)
    \<and> run_channel send receive tx rx xs s1 = (fst (abs_ops xs c), s2)
    \<and> release rx s2 = (Ok (), s3) \<and> connect (connector_of b) s3 = (Err ChannelDoesNotExist, s3)
    \<and> run_channel send receive tx tx ys s3 = (fst (abs_ops ys (snd (abs_ops xs c))), s4) \<and> release tx s4 = (Ok (), s4)"
proof -
  let ?k = "key (connector_of b)"
  obtain rx s1 where s1: "create b s = (Ok rx, s1)" "invar s1" "names s1 = (names s)(?k \<mapsto> ident rx)" "owns rx = Some ?k" "chan s1 (ident rx) = Some c" "handle_ok rx"
    "ticks s1 (ident rx) = usize_lim - 1 - cc_buffer_size b"
    using create_new [OF assms(1,2,4)] by (auto simp: c_def)
  have n: "length xs + length ys \<le> usize_lim - 1 - cc_buffer_size b" using assms(5) by linarith
  have named: "names s1 ?k = Some (ident rx)" using s1(3) by simp
  obtain tx where tx: "connect (connector_of b) s1 = (Ok tx, s1)" "ident tx = ident rx" "owns tx = None" using open_named [OF s1(2) assms(2) named] by blast
  have cap: "0 < ac_capacity c" "ac_capacity (snd (abs_ops zs d)) = ac_capacity d" for zs d
  proof -
    show "0 < ac_capacity c" using assms(3) by (simp add: c_def)
    have "ac_capacity (snd (abs_op z d)) = ac_capacity d" for z d by (cases z) (auto split: list.splits)
    then show "ac_capacity (snd (abs_ops zs d)) = ac_capacity d" by (induction zs arbitrary: d) (auto split: prod.splits, metis snd_conv)
  qed
  obtain s2 where s2: "run_channel send receive tx rx xs s1 = (fst (abs_ops xs c), s2)" "invar s2" "names s2 = names s1" "chan s2 (ident rx) = Some (snd (abs_ops xs c))"
    "ticks s1 (ident rx) \<le> length xs + ticks s2 (ident rx)"
    using ops_refine [OF s1(2,5) cap(1), of xs tx rx "fst (abs_ops xs c)" "snd (abs_ops xs c)"] tx(2) s1(7) n by auto
  obtain s3 where s3: "release rx s2 = (Ok (), s3)" "invar s3" "names s3 = (names s2)(?k := None)" "chan s3 = chan s2" "ticks s3 = ticks s2"
    using drop_owner [OF s2(2) s1(6,4)] s2(3) named by auto
  let ?d = "snd (abs_ops xs c)"
  obtain s4 where s4: "run_channel send receive tx tx ys s3 = (fst (abs_ops ys ?d), s4)"
    using ops_refine [OF s3(2), of "ident rx" ?d ys tx tx "fst (abs_ops ys ?d)" "snd (abs_ops ys ?d)"] s2(4,5) s3(4,5) cap tx(2) s1(7) n by auto
  have "connect (connector_of b) s3 = (Err ChannelDoesNotExist, s3)" using open_missing [OF s3(2) assms(2)] s3(3) by simp
  then show ?thesis using s1(1) create_taken [OF s1(2) assms(2) named] tx(1) s2(1) s3(1) s4 drop_other [OF tx(3)] by blast
qed

end

section \<open>Both variants fulfil the contract\<close>

definition flags :: "overflow_queue \<Rightarrow> bool \<times> bool \<times> bool" where
  "flags q = (o_init q, o_has_producer q, o_has_consumer q)"

definition cm_wf :: "channel_management \<Rightarrow> bool" where
  "cm_wf m \<longleftrightarrow> oq_wf (cm_queue m) \<and> flags (cm_queue m) = (True, True, True)"

definition cm_abs :: "channel_management \<Rightarrow> abs_channel" where
  "cm_abs m = \<lparr>ac_list = oq_list (cm_queue m), ac_capacity = o_capacity (cm_queue m), ac_overflow = cm_overflow m\<rparr>"

abbreviation cm_ticks :: "channel_management \<Rightarrow> nat" where
  "cm_ticks m \<equiv> oq_ticks (cm_queue m)"

lemma push_result:
  assumes "oq_wf q" and "0 < oq_ticks q" and "0 < n" and "o_capacity q = n" and "oq_list q = l"
  shows "\<exists>q'. oq_push q v = (Ok (q', if length l < n then None else Some (hd l)) :: ('e, _) outcome)
    \<and> oq_wf q' \<and> oq_list q' = (if length l < n then l else tl l) @ [v] \<and> o_capacity q' = n \<and> flags q' = flags q \<and> oq_ticks q \<le> Suc (oq_ticks q')"
proof (cases "length l < n")
  case True
  then have "o_write q < o_read q + o_capacity q" using assms length_oq_list [of q] by (auto simp: oq_wf_def)
  then have p: "oq_push q v = (Ok (oq_written q v, None) :: ('e, _) outcome)" by (rule oq_push_fits [OF assms(1,2)])
  obtain q' where "oq_push q v = (Ok (q', None) :: ('e, _) outcome)" "oq_wf q'" "oq_list q' = l @ [v]" "o_capacity q' = n" "oq_ticks q \<le> Suc (oq_ticks q')"
    using oq.over_fits [OF assms(1,2), of v] True assms(4,5) by blast
  then show ?thesis using p True by (auto simp: flags_def)
next
  case False
  then have full: "length (oq_list q) = o_capacity q" using oq.over_cap [OF assms(1)] assms(4,5) by simp
  then obtain y ys where y: "oq_list q = y # ys" using assms(3,4) by (cases "oq_list q") auto
  have "o_write q = o_read q + o_capacity q" using full assms(1) by (auto simp: length_oq_list oq_wf_def)
  then have p: "oq_push q v = (Ok ((oq_written q v)\<lparr>o_read := o_read q + 1\<rparr>, Some y) :: ('e, _) outcome)" by (rule oq_push_evicts [OF assms(1,2) _ y])
  obtain q' where "oq_push q v = (Ok (q', Some y) :: ('e, _) outcome)" "oq_wf q'" "oq_list q' = ys @ [v]" "o_capacity q' = n" "oq_ticks q \<le> Suc (oq_ticks q')"
    using oq.over_evicts [OF assms(1,2) y full, of v] assms(4) by blast
  then show ?thesis using p False y assms(5) by (auto simp: flags_def)
qed

lemma pop_result:
  assumes "oq_wf q" and "0 < oq_ticks q" and "oq_list q = l"
  shows "\<exists>q'. oq_pop q = (Ok (q', case l of [] \<Rightarrow> None | x # _ \<Rightarrow> Some x) :: ('e, _) outcome)
    \<and> oq_wf q' \<and> oq_list q' = tl l \<and> o_capacity q' = o_capacity q \<and> flags q' = flags q \<and> oq_ticks q = oq_ticks q'"
proof (cases l)
  case Nil
  then show ?thesis using oq_pop_empty [of q] assms by auto
next
  case (Cons x xs)
  then show ?thesis using oq_pop_ok [OF assms(1,2), of x xs] assms(3) by (auto simp: flags_def oq_ticks_def)
qed

lemma cm_send_refines:
  assumes "cm_wf m" and "0 < o_capacity (cm_queue m)" and "0 < cm_ticks m" and "abs_op (Send v) (cm_abs m) = (x, c)"
    and "f \<in> {cm_try_send v, dx_try_send v}"
  shows "(\<exists>m' r. f m = Ok (m', r) \<and> x = Sent r \<and> cm_wf m' \<and> cm_abs m' = c \<and> cm_ticks m \<le> Suc (cm_ticks m'))
    \<or> (\<exists>e. f m = Err e \<and> x = NotSent e \<and> c = cm_abs m)"
proof -
  let ?q = "cm_queue m" and ?l = "oq_list (cm_queue m)"
  have wf: "oq_wf ?q" and fl: "flags ?q = (True, True, True)" using assms(1) by (simp_all add: cm_wf_def)
  have full: "oq_is_full ?q = (Ok (length ?l = o_capacity ?q) :: (channel_send_error, _) outcome)" by (rule oq_is_full_ok [OF wf assms(3)])
  have cap: "length ?l \<le> o_capacity ?q" by (rule oq.over_cap [OF wf])
  show ?thesis
  proof (cases "\<not> cm_overflow m \<and> length ?l = o_capacity ?q")
    case True
    then show ?thesis using assms(4,5) full by (auto simp: cm_try_send_def dx_try_send_def cm_abs_def)
  next
    case False
    let ?p = "?q\<lparr>o_has_producer := False\<rparr>"
    have p: "oq_list ?p = ?l" "oq_wf ?p" "oq_ticks ?p = oq_ticks ?q" using wf by (simp_all add: oq_list_def oq_wf_def oq_ticks_def)
    obtain q' where q': "oq_push ?q v = (Ok (q', if length ?l < o_capacity ?q then None else Some (hd ?l)) :: (channel_send_error, _) outcome)" "oq_wf q'"
      "oq_list q' = (if length ?l < o_capacity ?q then ?l else tl ?l) @ [v]" "o_capacity q' = o_capacity ?q" "flags q' = flags ?q" "oq_ticks ?q \<le> Suc (oq_ticks q')"
      using push_result [OF wf assms(3,2) refl refl] by blast
    obtain p' where p': "oq_push ?p v = (Ok (p', if length ?l < o_capacity ?q then None else Some (hd ?l)) :: (channel_send_error, _) outcome)" "oq_wf p'"
      "oq_list p' = (if length ?l < o_capacity ?q then ?l else tl ?l) @ [v]" "o_capacity p' = o_capacity ?q" "flags p' = flags ?p" "oq_ticks ?q \<le> Suc (oq_ticks p')"
      using push_result [OF p(2), of "o_capacity ?q" ?l v] p assms(2,3) by auto
    have d: "oq_list (oq_producer_drop p') = oq_list p'" "oq_wf (oq_producer_drop p')" "oq_ticks (oq_producer_drop p') = oq_ticks p'"
      "o_capacity (oq_producer_drop p') = o_capacity p'" "flags (oq_producer_drop p') = (True, True, True)"
      using p'(2,5) fl by (simp_all add: oq_producer_drop_def oq_list_def oq_wf_def oq_ticks_def flags_def)
    have "cm_try_send v m = Ok (m\<lparr>cm_queue := q'\<rparr>, if length ?l < o_capacity ?q then None else Some (hd ?l))" using False full q'(1) by (auto simp: cm_try_send_def)
    moreover have "dx_try_send v m = Ok (m\<lparr>cm_queue := oq_producer_drop p'\<rparr>, if length ?l < o_capacity ?q then None else Some (hd ?l))"
      using False full p'(1) fl by (auto simp: dx_try_send_def oq_acquire_producer_def flags_def)
    moreover have "x = Sent (if length ?l < o_capacity ?q then None else Some (hd ?l)) \<and> c = (cm_abs m)\<lparr>ac_list := (if length ?l < o_capacity ?q then ?l else tl ?l) @ [v]\<rparr>"
      using assms(4) False cap by (auto simp: cm_abs_def split: if_splits)
    ultimately show ?thesis using assms(5) q'(2-6) p'(3,4,6) d fl by (auto simp: cm_wf_def cm_abs_def)
  qed
qed

lemma cm_receive_refines:
  assumes "cm_wf m" and "0 < cm_ticks m" and "abs_op Receive (cm_abs m) = (x, c)" and "f \<in> {cm_receive, dx_receive}"
  shows "\<exists>m' r. f m = Ok (m', r) \<and> x = Received r \<and> cm_wf m' \<and> cm_abs m' = c \<and> cm_ticks m \<le> Suc (cm_ticks m')"
proof -
  let ?q = "cm_queue m" and ?l = "oq_list (cm_queue m)" and ?x = "case oq_list (cm_queue m) of [] \<Rightarrow> None | x # _ \<Rightarrow> Some x"
  have wf: "oq_wf ?q" and fl: "flags ?q = (True, True, True)" using assms(1) by (simp_all add: cm_wf_def)
  let ?p = "?q\<lparr>o_has_consumer := False\<rparr>"
  have p: "oq_list ?p = ?l" "oq_wf ?p" "oq_ticks ?p = oq_ticks ?q" using wf by (simp_all add: oq_list_def oq_wf_def oq_ticks_def)
  obtain q' where q': "oq_pop ?q = (Ok (q', ?x) :: (channel_receive_error, _) outcome)" "oq_wf q'" "oq_list q' = tl ?l" "o_capacity q' = o_capacity ?q" "flags q' = flags ?q"
    "oq_ticks ?q = oq_ticks q'"
    using pop_result [OF wf assms(2) refl] by blast
  obtain p' where p': "oq_pop ?p = (Ok (p', ?x) :: (channel_receive_error, _) outcome)" "oq_wf p'" "oq_list p' = tl ?l" "o_capacity p' = o_capacity ?q" "flags p' = flags ?p"
    "oq_ticks ?q = oq_ticks p'"
    using pop_result [OF p(2) _ p(1)] p(3) assms(2) by auto
  have d: "oq_list (oq_consumer_drop p') = oq_list p'" "oq_wf (oq_consumer_drop p')" "oq_ticks (oq_consumer_drop p') = oq_ticks p'"
    "o_capacity (oq_consumer_drop p') = o_capacity p'" "flags (oq_consumer_drop p') = (True, True, True)"
    using p'(2,5) fl by (simp_all add: oq_consumer_drop_def oq_list_def oq_wf_def oq_ticks_def flags_def)
  have "cm_receive m = Ok (m\<lparr>cm_queue := q'\<rparr>, ?x)" using q'(1) by (simp add: cm_receive_def)
  moreover have "dx_receive m = Ok (m\<lparr>cm_queue := oq_consumer_drop p'\<rparr>, ?x)" using p'(1) fl by (simp add: dx_receive_def oq_acquire_consumer_def flags_def)
  moreover have "x = Received ?x \<and> c = (cm_abs m)\<lparr>ac_list := tl ?l\<rparr>" using assms(3) by (auto simp: cm_abs_def split: list.splits)
  ultimately show ?thesis using assms(4) q' p' d fl by (auto simp: cm_wf_def cm_abs_def)
qed

lemma management_new_wf: "cm_wf (management_new v n)" "cm_abs (management_new v n) = \<lparr>ac_list = [], ac_capacity = n, ac_overflow = v\<rparr>" "cm_ticks (management_new v n) = usize_lim - 1 - n"
  using oq_new_wf [of n] by (simp_all add: management_new_def cm_wf_def cm_abs_def flags_def oq_new_def)

text \<open>The registry of a process.\<close>

definition returning :: "'s \<Rightarrow> ('e, 's \<times> 'a) outcome \<Rightarrow> ('e, 'a) outcome \<times> 's" where
  "returning s r = (case r of Ok (s', x) \<Rightarrow> (Ok x, s') | Err e \<Rightarrow> (Err e, s) | Panic \<Rightarrow> (Panic, s) | UB \<Rightarrow> (UB, s))"

definition plc_invar :: "channel_registry \<Rightarrow> bool" where
  "plc_invar r \<longleftrightarrow> cr_lockable r \<and> (\<forall>p i. map_of (cr_entries r) p = Some i \<longrightarrow> i < cr_next r) \<and> (\<forall>i < cr_next r. cm_wf (cr_heap r i))"

definition plc_chan :: "channel_registry \<Rightarrow> nat \<Rightarrow> abs_channel option" where
  "plc_chan r i = (if i < cr_next r then Some (cm_abs (cr_heap r i)) else None)"

definition plc_key :: "channel_connector \<Rightarrow> path_key" where
  "plc_key c = concept_key (cn_config c) (content (cn_name c))"

definition plc_owns :: "duplex \<Rightarrow> path_key option" where
  "plc_owns d = (if dx_ownership d then Some (concept_key (dx_config d) (content (dx_name d))) else None)"

lemma on_duplex_send:
  assumes "plc_invar r" and "plc_chan r (dx_management d) = Some c" and "0 < ac_capacity c" and "0 < cm_ticks (cr_heap r (dx_management d))" and "abs_op (Send v) c = (x, c')"
  shows "\<exists>q r'. plc_try_send d v r = (q, r') \<and> send_result q = x \<and> plc_invar r' \<and> cr_entries r' = cr_entries r \<and> plc_chan r' = (plc_chan r)(dx_management d \<mapsto> c')
    \<and> cm_ticks (cr_heap r (dx_management d)) \<le> Suc (cm_ticks (cr_heap r' (dx_management d)))"
proof -
  let ?i = "dx_management d" and ?m = "cr_heap r (dx_management d)"
  have i: "?i < cr_next r" "c = cm_abs ?m" using assms(2) by (auto simp: plc_chan_def split: if_splits)
  have wf: "cm_wf ?m" using assms(1) i(1) by (simp add: plc_invar_def)
  have "0 < o_capacity (cm_queue ?m)" using assms(3) i(2) by (simp add: cm_abs_def)
  from cm_send_refines [OF wf this assms(4), of v x c' "dx_try_send v"] assms(5) i(2)
  consider m' q where "dx_try_send v ?m = Ok (m', q)" "x = Sent q" "cm_wf m'" "cm_abs m' = c'" "cm_ticks ?m \<le> Suc (cm_ticks m')" | e where "dx_try_send v ?m = Err e" "x = NotSent e" "c' = c" by auto
  then show ?thesis
    using assms(1,2) i by cases (auto simp: plc_try_send_def on_duplex_def send_result_def plc_invar_def plc_chan_def fun_eq_iff)
qed

lemma on_duplex_receive:
  assumes "plc_invar r" and "plc_chan r (dx_management d) = Some c" and "0 < cm_ticks (cr_heap r (dx_management d))" and "abs_op Receive c = (x, c')"
  shows "\<exists>q r'. plc_receive d r = (q, r') \<and> receive_result q = x \<and> plc_invar r' \<and> cr_entries r' = cr_entries r \<and> plc_chan r' = (plc_chan r)(dx_management d \<mapsto> c')
    \<and> cm_ticks (cr_heap r (dx_management d)) \<le> Suc (cm_ticks (cr_heap r' (dx_management d)))"
proof -
  let ?i = "dx_management d" and ?m = "cr_heap r (dx_management d)"
  have i: "?i < cr_next r" "c = cm_abs ?m" using assms(2) by (auto simp: plc_chan_def split: if_splits)
  have wf: "cm_wf ?m" using assms(1) i(1) by (simp add: plc_invar_def)
  from cm_receive_refines [OF wf assms(3), of x c' dx_receive] assms(4) i(2)
  obtain m' q where "dx_receive ?m = Ok (m', q)" "x = Received q" "cm_wf m'" "cm_abs m' = c'" "cm_ticks ?m \<le> Suc (cm_ticks m')" by auto
  then show ?thesis using assms(1) i by (auto simp: plc_receive_def on_duplex_def receive_result_def plc_invar_def plc_chan_def fun_eq_iff)
qed

interpretation plc: channel_provider plc_invar "\<lambda>r. map_of (cr_entries r)" plc_chan "\<lambda>r i. cm_ticks (cr_heap r i)" "\<lambda>b. concept_ok (cn_config b) (cn_name b)" plc_key
  dx_management plc_owns "\<lambda>d. concept_ok (dx_config d) (dx_name d)" "\<lambda>b r. returning r (plc_create_receiver b r)" "\<lambda>c r. (plc_try_open_sender c r, r)" plc_try_send plc_receive
  "\<lambda>d r. returning r (omap (\<lambda>r'. (r', ())) (duplex_drop d r))"
proof unfold_locales
  fix r :: channel_registry and b :: channel_creator and d :: duplex and i v c c' x k
  have key: "plc_key (connector_of b) = concept_key (cn_config b) (content (cn_name b))" "cn_config (connector_of b) = cn_config b" "cn_name (connector_of b) = cn_name b"
    by (simp_all add: plc_key_def channel_connector.defs)
  show "\<exists>h s'. returning r (plc_create_receiver b r) = (Ok h, s') \<and> plc_invar s' \<and> map_of (cr_entries s') = (map_of (cr_entries r))(plc_key (connector_of b) \<mapsto> dx_management h)
      \<and> plc_owns h = Some (plc_key (connector_of b)) \<and> concept_ok (dx_config h) (dx_name h)
      \<and> plc_chan s' (dx_management h) = Some \<lparr>ac_list = [], ac_capacity = cc_buffer_size b, ac_overflow = cc_overflow b\<rparr>
      \<and> cm_ticks (cr_heap s' (dx_management h)) = usize_lim - 1 - cc_buffer_size b \<and> (\<forall>i. plc_chan r i \<noteq> None \<longrightarrow> plc_chan s' i = plc_chan r i)"
    if "plc_invar r" "concept_ok (cn_config b) (cn_name b)" "map_of (cr_entries r) (plc_key (connector_of b)) = None"
    using that by (auto simp: plc_create_receiver_def concept_path_Ok key returning_def plc_owns_def management_new_wf plc_invar_def plc_chan_def less_Suc_eq split: if_splits)
  show "returning r (plc_create_receiver b r) = (Err ChannelAlreadyExists, r)"
    if "plc_invar r" "concept_ok (cn_config b) (cn_name b)" "map_of (cr_entries r) (plc_key (connector_of b)) = Some i"
    using that by (simp add: plc_create_receiver_def concept_path_Ok key returning_def plc_invar_def)
  show "\<exists>h. (plc_try_open_sender (connector_of b) r, r) = (Ok h, r) \<and> dx_management h = i \<and> plc_owns h = None"
    if "plc_invar r" "concept_ok (cn_config b) (cn_name b)" "map_of (cr_entries r) (plc_key (connector_of b)) = Some i"
    using that by (simp add: plc_try_open_sender_def concept_path_Ok key plc_owns_def plc_invar_def)
  show "(plc_try_open_sender (connector_of b) r, r) = (Err ChannelDoesNotExist, r)"
    if "plc_invar r" "concept_ok (cn_config b) (cn_name b)" "map_of (cr_entries r) (plc_key (connector_of b)) = None"
    using that by (simp add: plc_try_open_sender_def concept_path_Ok key plc_invar_def)
  show "\<exists>s'. returning r (omap (\<lambda>r'. (r', ())) (duplex_drop d r)) = (Ok () :: (unit, unit) outcome, s') \<and> plc_invar s' \<and> map_of (cr_entries s') = (map_of (cr_entries r))(k := None)
      \<and> plc_chan s' = plc_chan r \<and> (\<lambda>i. cm_ticks (cr_heap s' i)) = (\<lambda>i. cm_ticks (cr_heap r i))"
    if "plc_invar r" "concept_ok (dx_config d) (dx_name d)" "plc_owns d = Some k" "map_of (cr_entries r) k \<noteq> None"
    using that by (auto simp: duplex_drop_def concept_path_Ok plc_owns_def returning_def plc_invar_def plc_chan_def split: if_splits)
  show "returning r (omap (\<lambda>r'. (r', ())) (duplex_drop d r)) = (Ok () :: (unit, unit) outcome, r)" if "plc_owns d = None"
    using that by (simp add: duplex_drop_def plc_owns_def returning_def split: if_splits)
qed (metis on_duplex_send, metis on_duplex_receive)

text \<open>Shared memory in which all objects are channels.\<close>

definition shc_object :: "usize \<Rightarrow> channel_management os_object \<Rightarrow> bool" where
  "shc_object size_of x \<longleftrightarrow> (\<exists>t n m. x = pds_object t n m \<and> cm_wf m \<and> size_of \<le> n \<and> 0 < n)"

definition shc_invar :: "usize \<Rightarrow> channel_management os_state \<Rightarrow> bool" where
  "shc_invar size_of s \<longleftrightarrow> (\<forall>p ob. os_shm s p = Some ob \<longrightarrow> ob < os_next s) \<and> (\<forall>ob < os_next s. shc_object size_of (os_objects s ob))"

definition shc_chan :: "channel_management os_state \<Rightarrow> nat \<Rightarrow> abs_channel option" where
  "shc_chan s ob = (if ob < os_next s then map_option cm_abs (ob_value (os_objects s ob)) else None)"

definition shc_ticks :: "channel_management os_state \<Rightarrow> nat \<Rightarrow> nat" where
  "shc_ticks s ob = (case ob_value (os_objects s ob) of Some m \<Rightarrow> cm_ticks m | None \<Rightarrow> 0)"

definition shc_key :: "channel_connector \<Rightarrow> os_path" where
  "shc_key c = shm_path (content (cn_name c) @ content (named_concept_config.suffix (cn_config c)))"

definition shc_ok :: "usize \<Rightarrow> channel_creator \<Rightarrow> bool" where
  "shc_ok size_of b \<longleftrightarrow> concept_ok (cn_config b) (cn_name b) \<and> 4096 + size_of + 8 * cc_buffer_size b + 64 < usize_lim"

definition shc_owns :: "pds_storage \<Rightarrow> os_path option" where
  "shc_owns st = (if sm_has_ownership (pds_shm st) then Some (shm_path (sm_name (pds_shm st))) else None)"

abbreviation shc_ident :: "pds_storage \<Rightarrow> nat" where
  "shc_ident st \<equiv> sm_file_descriptor (pds_shm st)"

lemma shc_object_at:
  assumes "shc_invar size_of s" and "ob < os_next s" and "cm_wf m"
  shows "shc_invar size_of (object_at ob (\<lambda>y. y\<lparr>ob_value := Some m\<rparr>) s)"
    and "shc_chan (object_at ob (\<lambda>y. y\<lparr>ob_value := Some m\<rparr>) s) = (shc_chan s)(ob \<mapsto> cm_abs m)"
    and "shc_ticks (object_at ob (\<lambda>y. y\<lparr>ob_value := Some m\<rparr>) s) ob = cm_ticks m"
proof -
  obtain t n m0 where x: "os_objects s ob = pds_object t n m0" "size_of \<le> n" "0 < n" using assms(1,2) by (auto simp: shc_invar_def shc_object_def)
  then have "(os_objects s ob)\<lparr>ob_value := Some m\<rparr> = pds_object t n m" by (simp add: pds_object_def)
  then have "shc_object size_of ((os_objects s ob)\<lparr>ob_value := Some m\<rparr>)" using x(2,3) assms(3) unfolding shc_object_def by blast
  then show "shc_invar size_of (object_at ob (\<lambda>y. y\<lparr>ob_value := Some m\<rparr>) s)" using assms(1) by (auto simp: shc_invar_def object_at_def)
  show "shc_chan (object_at ob (\<lambda>y. y\<lparr>ob_value := Some m\<rparr>) s) = (shc_chan s)(ob \<mapsto> cm_abs m)" "shc_ticks (object_at ob (\<lambda>y. y\<lparr>ob_value := Some m\<rparr>) s) ob = cm_ticks m"
    using assms(2) by (auto simp: shc_chan_def shc_ticks_def object_at_def fun_eq_iff)
qed

lemma shc_value:
  assumes "shc_invar size_of s" and "shc_chan s ob = Some c"
  obtains m where "ob < os_next s" and "ob_value (os_objects s ob) = Some m" and "cm_wf m" and "c = cm_abs m" and "shc_ticks s ob = cm_ticks m"
proof -
  have ob: "ob < os_next s" using assms(2) by (simp add: shc_chan_def split: if_splits)
  then obtain t n m where "os_objects s ob = pds_object t n m" "cm_wf m" using assms(1) by (auto simp: shc_invar_def shc_object_def)
  then show thesis using that [OF ob, of m] assms(2) ob by (simp add: pds_object_def shc_chan_def shc_ticks_def)
qed

lemma on_management_send:
  assumes "shc_invar size_of s" and "shc_chan s (shc_ident h) = Some c" and "0 < ac_capacity c" and "0 < shc_ticks s (shc_ident h)" and "abs_op (Send v) c = (x, c')"
  shows "\<exists>r s'. shc_try_send h v s = (r, s') \<and> send_result r = x \<and> shc_invar size_of s' \<and> os_shm s' = os_shm s \<and> shc_chan s' = (shc_chan s)(shc_ident h \<mapsto> c')
    \<and> shc_ticks s (shc_ident h) \<le> Suc (shc_ticks s' (shc_ident h))"
proof -
  obtain m where m: "shc_ident h < os_next s" "ob_value (os_objects s (shc_ident h)) = Some m" "cm_wf m" "c = cm_abs m" "shc_ticks s (shc_ident h) = cm_ticks m"
    by (rule shc_value [OF assms(1,2)])
  have "0 < o_capacity (cm_queue m)" using assms(3) m(4) by (simp add: cm_abs_def)
  from cm_send_refines [OF m(3) this, of v x c' "cm_try_send v"] assms(4,5) m(4,5)
  consider m' q where "cm_try_send v m = Ok (m', q)" "x = Sent q" "cm_wf m'" "cm_abs m' = c'" "cm_ticks m \<le> Suc (cm_ticks m')" | e where "cm_try_send v m = Err e" "x = NotSent e" "c' = c" by auto
  then show ?thesis
  proof cases
    case 1
    then show ?thesis using m(2,5) shc_object_at [OF assms(1) m(1) 1(3)] by (auto simp: shc_try_send_def on_management_def send_result_def Let_def object_at_def)
  next
    case 2
    then show ?thesis using m(2,5) assms(1,2) by (simp add: shc_try_send_def on_management_def send_result_def Let_def fun_upd_idem)
  qed
qed

lemma on_management_receive:
  assumes "shc_invar size_of s" and "shc_chan s (shc_ident h) = Some c" and "0 < shc_ticks s (shc_ident h)" and "abs_op Receive c = (x, c')"
  shows "\<exists>r s'. shc_receive h s = (r, s') \<and> receive_result r = x \<and> shc_invar size_of s' \<and> os_shm s' = os_shm s \<and> shc_chan s' = (shc_chan s)(shc_ident h \<mapsto> c')
    \<and> shc_ticks s (shc_ident h) \<le> Suc (shc_ticks s' (shc_ident h))"
proof -
  obtain m where m: "shc_ident h < os_next s" "ob_value (os_objects s (shc_ident h)) = Some m" "cm_wf m" "c = cm_abs m" "shc_ticks s (shc_ident h) = cm_ticks m"
    by (rule shc_value [OF assms(1,2)])
  from cm_receive_refines [OF m(3), of x c' cm_receive] assms(3,4) m(4,5)
  obtain m' q where q: "cm_receive m = Ok (m', q)" "x = Received q" "cm_wf m'" "cm_abs m' = c'" "cm_ticks m \<le> Suc (cm_ticks m')" by auto
  then show ?thesis using m(2,5) shc_object_at [OF assms(1) m(1) q(3)] by (auto simp: shc_receive_def on_management_def receive_result_def Let_def object_at_def)
qed

lemma shc_initializer_Ok:
  assumes "p + 8 * n + 64 < usize_lim"
  shows "oq_const_memory_size n = (Ok (8 * n + 15) :: ('e, _) outcome)"
    and "shc_initializer \<lparr>cm_queue = oq_new_uninit n, cm_overflow = v\<rparr> (bump_new p (8 * n + 15)) = (management_new v n, True)"
proof -
  show "oq_const_memory_size n = (Ok (8 * n + 15) :: ('e, _) outcome)" using assms by (simp add: oq_const_memory_size_def)
  let ?l = "\<lparr>lsize = 8 * (n + 1), lalign = 8\<rparr>" and ?a = "bump_new p (8 * n + 15)"
  have "valid_layout ?l" by (rule valid_layout_intro [of _ 3]) simp
  from bump_allocate_fits [OF this, of ?a] assms obtain y where "bump_allocate ?a ?l = Ok y" by (auto simp: bump_new_def)
  then show "shc_initializer \<lparr>cm_queue = oq_new_uninit n, cm_overflow = v\<rparr> ?a = (management_new v n, True)"
    using assms by (simp add: shc_initializer_def oq_init_def oq_new_uninit_def management_new_def oq_new_def)
qed

lemma run_shc_create:
  assumes "shc_ok size_of b" and "os_shm s (shc_key (connector_of b)) = None"
  shows "run_os umask t (shc_create_receiver size_of b) s =
    (Ok \<lparr>pds_shm = \<lparr>sm_name = content (cn_name b) @ content (named_concept_config.suffix (cn_config b)), sm_size = size_of + (8 * cc_buffer_size b + 15), sm_base_address = 4096,
        sm_has_ownership = True, sm_file_descriptor = os_next s, sm_memory_lock = False\<rparr>, pds_name = cn_name b\<rparr>,
     s\<lparr>os_shm := (os_shm s)(shc_key (connector_of b) \<mapsto> os_next s),
       os_objects := (os_objects s)(os_next s := pds_object t (size_of + (8 * cc_buffer_size b + 15)) (management_new (cc_overflow b) (cc_buffer_size b))), os_next := Suc (os_next s)\<rparr>)"
proof -
  let ?n = "8 * cc_buffer_size b + 15"
  let ?d = "\<lparr>db_name = cn_name b, db_supplementary_size = ?n, db_ownership = True, db_config = cn_config b\<rparr>"
  have lim: "4096 + size_of + 8 * cc_buffer_size b + 64 < usize_lim" "concept_ok (cn_config b) (cn_name b)" using assms(1) by (auto simp: shc_ok_def)
  have key: "shc_key (connector_of b) = pds_path ?d" by (simp add: shc_key_def channel_connector.defs)
  have i: "oq_const_memory_size (cc_buffer_size b) = (Ok ?n :: (channel_create_error, _) outcome)"
    "shc_initializer \<lparr>cm_queue = oq_new_uninit (cc_buffer_size b), cm_overflow = cc_overflow b\<rparr> (bump_new (4096 + size_of) ?n) = (management_new (cc_overflow b) (cc_buffer_size b), True)"
    using shc_initializer_Ok [of "4096 + size_of" "cc_buffer_size b"] lim(1) by simp_all
  from run_create [of ?d size_of s shc_initializer "\<lparr>cm_queue = oq_new_uninit (cc_buffer_size b), cm_overflow = cc_overflow b\<rparr>" "management_new (cc_overflow b) (cc_buffer_size b)" umask t]
  show ?thesis using lim assms(2) i unfolding key by (simp add: shc_create_receiver_def)
qed

lemma run_shc_create_taken:
  assumes "shc_ok size_of b" and "os_shm s (shc_key (connector_of b)) = Some i"
  shows "run_os umask t (shc_create_receiver size_of b) s = (Err ChannelAlreadyExists, s)"
proof -
  let ?d = "\<lparr>db_name = cn_name b, db_supplementary_size = 8 * cc_buffer_size b + 15, db_ownership = True, db_config = cn_config b\<rparr>"
  have lim: "4096 + size_of + 8 * cc_buffer_size b + 64 < usize_lim" "concept_ok (cn_config b) (cn_name b)" using assms(1) by (auto simp: shc_ok_def)
  have key: "shc_key (connector_of b) = pds_path ?d" by (simp add: shc_key_def channel_connector.defs)
  have m: "oq_const_memory_size (cc_buffer_size b) = (Ok (8 * cc_buffer_size b + 15) :: (channel_create_error, _) outcome)"
    using shc_initializer_Ok(1) [of "4096 + size_of"] lim(1) by simp
  show ?thesis using lim assms(2) m run_create_exists [of ?d size_of s i umask t] unfolding key
    by (simp add: shc_create_receiver_def shc_create_error_def)
qed

lemma run_shc_open:
  assumes "shc_ok size_of b"
  shows "os_shm s (shc_key (connector_of b)) = None \<Longrightarrow> run_os umask t (shc_try_open_sender size_of (connector_of b)) s = (Err ChannelDoesNotExist, s)"
    and "os_shm s (shc_key (connector_of b)) = Some ob \<Longrightarrow> shc_object size_of (os_objects s ob) \<Longrightarrow>
      \<exists>h. run_os umask t (shc_try_open_sender size_of (connector_of b)) s = (Ok h, s) \<and> shc_ident h = ob \<and> shc_owns h = None"
proof -
  let ?d = "\<lparr>db_name = cn_name b, db_supplementary_size = 0, db_ownership = True, db_config = cn_config b\<rparr>"
  have lim: "size_of < usize_lim" "concept_ok (cn_config b) (cn_name b)" using assms by (auto simp: shc_ok_def)
  have key: "shc_key (connector_of b) = pds_path ?d" by (simp add: shc_key_def channel_connector.defs)
  have prog: "shc_try_open_sender size_of (connector_of b) = pmap (map_err shc_open_error) (pds_try_open size_of ?d)"
    by (simp add: shc_try_open_sender_def channel_connector.defs)
  show "os_shm s (shc_key (connector_of b)) = None \<Longrightarrow> run_os umask t (shc_try_open_sender size_of (connector_of b)) s = (Err ChannelDoesNotExist, s)"
    using lim run_open_missing [of ?d s umask t size_of] unfolding key prog by (simp add: shc_open_error_def)
  assume ob: "os_shm s (shc_key (connector_of b)) = Some ob" "shc_object size_of (os_objects s ob)"
  then obtain u n m where "os_objects s ob = pds_object u n m" "size_of \<le> n" "0 < n" by (auto simp: shc_object_def)
  then show "\<exists>h. run_os umask t (shc_try_open_sender size_of (connector_of b)) s = (Ok h, s) \<and> shc_ident h = ob \<and> shc_owns h = None"
    using ob(1) lim run_open [of ?d size_of s ob u n m umask t] unfolding key prog by (simp add: shc_owns_def)
qed

interpretation shc: channel_provider "shc_invar size_of" os_shm shc_chan shc_ticks "shc_ok size_of" shc_key shc_ident shc_owns "\<lambda>_. True"
  "\<lambda>b. run_os umask t (shc_create_receiver size_of b)" "\<lambda>c. run_os umask t (shc_try_open_sender size_of c)" shc_try_send shc_receive "\<lambda>h. run_os umask t (shc_drop h)"
  for size_of umask t
proof unfold_locales
  fix s :: "channel_management os_state" and b :: channel_creator and h :: pds_storage and i v c c' x k
  show "\<exists>h s'. run_os umask t (shc_create_receiver size_of b) s = (Ok h, s') \<and> shc_invar size_of s' \<and> os_shm s' = (os_shm s)(shc_key (connector_of b) \<mapsto> shc_ident h)
      \<and> shc_owns h = Some (shc_key (connector_of b)) \<and> True \<and> shc_chan s' (shc_ident h) = Some \<lparr>ac_list = [], ac_capacity = cc_buffer_size b, ac_overflow = cc_overflow b\<rparr>
      \<and> shc_ticks s' (shc_ident h) = usize_lim - 1 - cc_buffer_size b \<and> (\<forall>i. shc_chan s i \<noteq> None \<longrightarrow> shc_chan s' i = shc_chan s i)"
    if "shc_invar size_of s" "shc_ok size_of b" "os_shm s (shc_key (connector_of b)) = None"
  proof -
    have "shc_object size_of (pds_object t (size_of + (8 * cc_buffer_size b + 15)) (management_new (cc_overflow b) (cc_buffer_size b)))"
      unfolding shc_object_def using management_new_wf(1) by (metis add_gr_0 le_add1 zero_less_numeral)
    then show ?thesis using that(1) run_shc_create [OF that(2,3), of umask t] management_new_wf(2,3)
      by (auto simp: shc_invar_def shc_owns_def shc_key_def channel_connector.defs shc_chan_def shc_ticks_def pds_object_def less_Suc_eq)
  qed
  show "run_os umask t (shc_create_receiver size_of b) s = (Err ChannelAlreadyExists, s)"
    if "shc_invar size_of s" "shc_ok size_of b" "os_shm s (shc_key (connector_of b)) = Some i" by (rule run_shc_create_taken [OF that(2,3)])
  show "\<exists>h. run_os umask t (shc_try_open_sender size_of (connector_of b)) s = (Ok h, s) \<and> shc_ident h = i \<and> shc_owns h = None"
    if "shc_invar size_of s" "shc_ok size_of b" "os_shm s (shc_key (connector_of b)) = Some i"
    by (rule run_shc_open(2) [OF that(2,3)]) (use that(1,3) in \<open>auto simp: shc_invar_def\<close>)
  show "run_os umask t (shc_try_open_sender size_of (connector_of b)) s = (Err ChannelDoesNotExist, s)"
    if "shc_invar size_of s" "shc_ok size_of b" "os_shm s (shc_key (connector_of b)) = None" by (rule run_shc_open(1) [OF that(2,3)])
  show "\<exists>s'. run_os umask t (shc_drop h) s = (Ok (), s') \<and> shc_invar size_of s' \<and> os_shm s' = (os_shm s)(k := None) \<and> shc_chan s' = shc_chan s \<and> shc_ticks s' = shc_ticks s"
    if "shc_invar size_of s" "shc_owns h = Some k" "os_shm s k \<noteq> None"
    using that run_drop [of umask t "pds_shm h" s, where ?'a = unit]
    by (auto simp: shc_drop_def shc_owns_def shc_invar_def shm_name_def shc_chan_def shc_ticks_def fun_eq_iff split: if_splits)
  show "run_os umask t (shc_drop h) s = (Ok (), s)" if "shc_owns h = None"
    using that run_drop [of umask t "pds_shm h" s, where ?'a = unit] by (simp add: shc_drop_def shc_owns_def split: if_splits)
qed (metis on_management_send, metis on_management_receive)

section \<open>Channels deliver\<close>

text \<open>C19: a channel in shared memory is a first-in first-out queue. After its creation its name is taken, and a sender can open it; then the results of any sequence of sends
  and receives are those of a queue that holds at most the requested number of values: a full queue refuses to send, or hands back its oldest value when it is
  created to overflow. What came out, received or handed back, followed by what is still stored, is what was sent, in order. When the
  receiver is dropped, the name is free, and the sender can still send.\<close>

theorem shared_memory_channel_delivers:
  assumes "shc_invar size_of s" and "shc_ok size_of b" and "0 < cc_buffer_size b" and "os_shm s (shc_key (connector_of b)) = None"
    and "length xs + length ys < usize_lim - cc_buffer_size b"
  defines "c \<equiv> \<lparr>ac_list = [], ac_capacity = cc_buffer_size b, ac_overflow = cc_overflow b\<rparr>"
  shows "\<exists>rx s1 tx s2 s3 s4 rs stored. run_os umask t (shc_create_receiver size_of b) s = (Ok rx, s1)
    \<and> run_os umask t (shc_create_receiver size_of b) s1 = (Err ChannelAlreadyExists, s1)
    \<and> run_os umask t (shc_try_open_sender size_of (connector_of b)) s1 = (Ok tx, s1)
    \<and> run_channel shc_try_send shc_receive tx rx xs s1 = (rs, s2) \<and> abs_ops xs c = (rs, stored)
    \<and> came_out rs @ ac_list stored = accepted xs rs \<and> length (ac_list stored) \<le> cc_buffer_size b
    \<and> run_os umask t (shc_drop rx) s2 = (Ok (), s3) \<and> run_os umask t (shc_try_open_sender size_of (connector_of b)) s3 = (Err ChannelDoesNotExist, s3)
    \<and> run_channel shc_try_send shc_receive tx tx ys s3 = (fst (abs_ops ys stored), s4)"
proof -
  obtain rs stored where rs: "abs_ops xs c = (rs, stored)" by fastforce
  have "came_out rs @ ac_list stored = accepted xs rs \<and> length (ac_list stored) \<le> cc_buffer_size b" using abs_ops_fifo [OF _ _ rs] assms(3) by (simp add: c_def)
  then show ?thesis using shc.channel_life [OF assms(1-5), of umask t] rs unfolding c_def [symmetric] by (metis fst_conv snd_conv)
qed

text \<open>The same holds for the channels of one process.\<close>

theorem process_local_channel_delivers:
  assumes "plc_invar r" and "concept_ok (cn_config b) (cn_name b)" and "0 < cc_buffer_size b" and "map_of (cr_entries r) (plc_key (connector_of b)) = None"
    and "length xs + length ys < usize_lim - cc_buffer_size b"
  defines "c \<equiv> \<lparr>ac_list = [], ac_capacity = cc_buffer_size b, ac_overflow = cc_overflow b\<rparr>"
  shows "\<exists>rx r1 tx r2 r3 r4. plc_create_receiver b r = Ok (r1, rx) \<and> plc_create_receiver b r1 = Err ChannelAlreadyExists
    \<and> plc_try_open_sender (connector_of b) r1 = Ok tx \<and> run_channel plc_try_send plc_receive tx rx xs r1 = (fst (abs_ops xs c), r2)
    \<and> duplex_drop rx r2 = (Ok r3 :: (unit, _) outcome) \<and> plc_try_open_sender (connector_of b) r3 = Err ChannelDoesNotExist
    \<and> run_channel plc_try_send plc_receive tx tx ys r3 = (fst (abs_ops ys (snd (abs_ops xs c))), r4)"
proof -
  have ret: "returning r0 z = (Ok h, r1) \<longleftrightarrow> z = Ok (r1, h)" "returning r0 z = (Err e, r1) \<longleftrightarrow> z = Err e \<and> r1 = r0" for r0 r1 :: channel_registry and z :: "('e, channel_registry \<times> 'h) outcome" and h e
    by (cases z; auto simp: returning_def)+
  have om: "omap (\<lambda>r'. (r', ())) z = Ok (r1, ()) \<longleftrightarrow> z = Ok r1" for z :: "(unit, channel_registry) outcome" and r1 by (cases z) auto
  from plc.channel_life [OF assms(1-5)] show ?thesis unfolding c_def [symmetric] ret om by auto
qed

section \<open>Examples\<close>

lemma example_creator:
  obtains b :: channel_creator where "concept_ok (cn_config b) (cn_name b)" "cc_buffer_size b = 2" "cc_overflow b"
proof -
  from example_strings obtain cfg n where "concept_ok cfg n" by metis
  then show thesis using that [of "\<lparr>cn_name = n, cn_config = cfg, cc_overflow = True, cc_buffer_size = 2\<rparr>"] by simp
qed

theorem shared_memory_channel_delivers_witness:
  "\<exists>b rx s1 tx s2. run_os 0 0 (shc_create_receiver 128 b) empty_os = (Ok rx, s1) \<and> run_os 0 0 (shc_try_open_sender 128 (connector_of b)) s1 = (Ok tx, s1)
    \<and> run_channel shc_try_send shc_receive tx rx [Send 1, Send 2, Send 3, Receive] s1 = ([Sent None, Sent None, Sent (Some 1), Received (Some 2)], s2)"
proof -
  obtain b :: channel_creator where b: "concept_ok (cn_config b) (cn_name b)" "cc_buffer_size b = 2" "cc_overflow b" by (rule example_creator)
  have ok: "shc_ok 128 b" "0 < cc_buffer_size b" "shc_invar 128 empty_os" "os_shm (empty_os :: channel_management os_state) (shc_key (connector_of b)) = None"
    using b(1,2) by (simp_all add: shc_ok_def usize_lim_def shc_invar_def empty_os_def)
  have n: "length [Send 1, Send 2, Send 3, Receive] + length ([] :: channel_op list) < usize_lim - cc_buffer_size b" using b(2) by (simp add: usize_lim_def)
  have e: "abs_ops [Send 1, Send 2, Send 3, Receive] \<lparr>ac_list = [], ac_capacity = 2, ac_overflow = True\<rparr>
      = ([Sent None, Sent None, Sent (Some 1), Received (Some 2)], \<lparr>ac_list = [3], ac_capacity = 2, ac_overflow = True\<rparr>)" by simp
  from shared_memory_channel_delivers [OF ok(3,1,2,4) n, of 0 0, unfolded b(2) eqTrueI [OF b(3)] e] show ?thesis unfolding prod.inject by blast
qed

theorem process_local_channel_delivers_witness:
  "\<exists>b rx r1 tx r2. plc_create_receiver b \<lparr>cr_lockable = True, cr_entries = [], cr_heap = (\<lambda>_. management_new True 0), cr_next = 0\<rparr> = Ok (r1, rx)
    \<and> plc_try_open_sender (connector_of b) r1 = Ok tx
    \<and> run_channel plc_try_send plc_receive tx rx [Send 1, Send 2, Send 3, Receive] r1 = ([Sent None, Sent None, Sent (Some 1), Received (Some 2)], r2)"
proof -
  let ?r = "\<lparr>cr_lockable = True, cr_entries = [], cr_heap = (\<lambda>_. management_new True 0), cr_next = 0\<rparr>"
  obtain b :: channel_creator where b: "concept_ok (cn_config b) (cn_name b)" "cc_buffer_size b = 2" "cc_overflow b" by (rule example_creator)
  have ok: "plc_invar ?r" "0 < cc_buffer_size b" "map_of (cr_entries ?r) (plc_key (connector_of b)) = None" using b(2) by (simp_all add: plc_invar_def)
  have n: "length [Send 1, Send 2, Send 3, Receive] + length ([] :: channel_op list) < usize_lim - cc_buffer_size b" using b(2) by (simp add: usize_lim_def)
  have e: "abs_ops [Send 1, Send 2, Send 3, Receive] \<lparr>ac_list = [], ac_capacity = 2, ac_overflow = True\<rparr>
      = ([Sent None, Sent None, Sent (Some 1), Received (Some 2)], \<lparr>ac_list = [3], ac_capacity = 2, ac_overflow = True\<rparr>)" by simp
  from process_local_channel_delivers [OF ok(1) b(1) ok(2,3) n, unfolded b(2) eqTrueI [OF b(3)] e fst_conv] show ?thesis by blast
qed

end
