(* ===== verification/IpcHandles.thy ===== *)
theory IpcHandles
  imports PosixObjects Interleaving
begin

text \<open>
  \<^verbatim>\<open>elkodon_bb/posix/src/unmovable_ipc_handle.rs\<close> and what the objects that live in such a handle do with it: \<^verbatim>\<open>mutex.rs\<close>, \<^verbatim>\<open>read_write_mutex.rs\<close>, \<^verbatim>\<open>semaphore.rs\<close> (the
  unnamed one) and \<^verbatim>\<open>barrier.rs\<close>. A handle lies in memory that several processes share. It holds the object of the operating system and a counter: -1 says that there is no object,
  0 that somebody is creating or destroying it, and a positive number how many constructs refer to it.

  The creation of an object is a list of steps on the handle (the answers of the operating system are its inputs), so that the calls of any number of threads are interleaved
  at every access to the handle. The locale \<open>ipc_construct\<close> is what the life cycle relies on: the object is initialized once, and nothing can fail afterwards. It is
  interpreted for all four kinds of objects.
\<close>

section \<open>Handles\<close>

datatype clock_type = Monotonic | Realtime

definition IPC_UNINITIALIZED :: int where "IPC_UNINITIALIZED = -1"
definition IPC_PERFORMING_INITIALIZATION :: int where "IPC_PERFORMING_INITIALIZATION = 0"
definition IPC_INITIALIZED :: int where "IPC_INITIALIZED = 1"

lemmas ipc_states = IPC_UNINITIALIZED_def IPC_PERFORMING_INITIALIZATION_def IPC_INITIALIZED_def

datatype acquire_ipc_handle_error = HandleUninitialized | IsNotInterProcessCapable

text \<open>\<open>ih_object\<close>: the object of the operating system in the handle is initialized.\<close>

record 'v ipc_handle =
  ih_object :: bool
  ih_counter :: int
  ih_clock :: clock_type
  ih_interprocess :: bool
  ih_value :: "'v option"

definition ipc_handle_new :: "clock_type \<Rightarrow> 'v ipc_handle" where
  "ipc_handle_new default_clock =
     \<lparr>ih_object = False, ih_counter = IPC_UNINITIALIZED, ih_clock = default_clock, ih_interprocess = False, ih_value = None\<rparr>"

text \<open>The steps of a creation. \<open>Attempt\<close> and \<open>Demand\<close> stand for calls that do not touch the handle, the second one for those whose failure is a panic, \<open>InitObject\<close> for the one that initializes the object; \<open>True\<close> says that the code stores -1 in the
  counter before it returns the error.\<close>

datatype ('v, 'e) init_step =
  StoreClock clock_type | StoreInterprocess bool | StoreValue 'v | Attempt bool "'e option" | Demand "os_error option" | InitObject bool "'e option"

text \<open>Where a thread is: \<open>Claim\<close>, \<open>Preparing\<close> and \<open>Resetting\<close> in \<^verbatim>\<open>create\<close>; \<open>OpenLoad\<close>, \<open>OpenCas\<close> and \<open>OpenCheck\<close> in \<^verbatim>\<open>from_ipc_handle\<close>; \<open>Dropping\<close>,
  \<open>Destroying\<close>, \<open>Emptying\<close> and \<open>Releasing\<close> in \<^verbatim>\<open>drop\<close>, which is also called when a construct was opened that is not for several processes (\<open>Some\<close> is what is returned
  then). \<open>Undefined\<close>: an object was initialized twice, or one was destroyed that does not exist.\<close>

datatype ('v, 'e) ipc_pc =
  Away | Claim "('v, 'e) init_step list" | Preparing "('v, 'e) init_step list" | Resetting 'e | HandleAlreadyInitialized | CreateFailed 'e
| OpenLoad | OpenCas int | OpenCheck | OpenFailed acquire_ipc_handle_error | Holding
| Dropping "acquire_ipc_handle_error option" | Destroying "acquire_ipc_handle_error option" | Emptying "acquire_ipc_handle_error option" | Releasing "acquire_ipc_handle_error option"
| Crashed | Undefined

definition failed_create :: "bool \<Rightarrow> 'e \<Rightarrow> ('v, 'e) ipc_pc" where
  "failed_create resets e = (if resets then Resetting e else CreateFailed e)"

fun prepare_step :: "'v ipc_handle \<Rightarrow> ('v, 'e) init_step \<Rightarrow> ('v, 'e) init_step list \<Rightarrow> 'v ipc_handle \<times> ('v, 'e) ipc_pc" where
  "prepare_step h (StoreClock c) xs = (h\<lparr>ih_clock := c\<rparr>, Preparing xs)"
| "prepare_step h (StoreInterprocess b) xs = (h\<lparr>ih_interprocess := b\<rparr>, Preparing xs)"
| "prepare_step h (StoreValue v) xs = (h\<lparr>ih_value := Some v\<rparr>, Preparing xs)"
| "prepare_step h (Attempt resets a) xs = (case a of None \<Rightarrow> (h, Preparing xs) | Some e \<Rightarrow> (h, failed_create resets e))"
| "prepare_step h (Demand a) xs = (h, if a = None then Preparing xs else Crashed)"
| "prepare_step h (InitObject resets a) xs = (case a of
     None \<Rightarrow> if ih_object h then (h, Undefined) else (h\<lparr>ih_object := True\<rparr>, Preparing xs)
   | Some e \<Rightarrow> (h, failed_create resets e))"

definition after_drop :: "acquire_ipc_handle_error option \<Rightarrow> ('v, 'e) ipc_pc" where
  "after_drop r = (case r of None \<Rightarrow> Away | Some e \<Rightarrow> OpenFailed e)"

text \<open>The exchange at the beginning of \<^verbatim>\<open>create\<close>, the one of \<^verbatim>\<open>from_ipc_handle\<close>, and the steps of \<^verbatim>\<open>drop\<close>. \<open>empties\<close>: \<^verbatim>\<open>drop\<close> removes the value (\<^verbatim>\<open>ReadWriteMutex\<close>);
  \<open>destroyed\<close>: what the operating system answers when the object is to be destroyed.\<close>

definition claim_handle :: "'v ipc_handle \<Rightarrow> ('v, 'e) init_step list \<Rightarrow> 'v ipc_handle \<times> ('v, 'e) ipc_pc" where
  [simp]: "claim_handle h xs =
     (if ih_counter h = IPC_UNINITIALIZED then (h\<lparr>ih_counter := IPC_PERFORMING_INITIALIZATION\<rparr>, Preparing xs) else (h, HandleAlreadyInitialized))"

definition open_exchange :: "'v ipc_handle \<Rightarrow> int \<Rightarrow> 'v ipc_handle \<times> ('v, 'e) ipc_pc" where
  [simp]: "open_exchange h ref_count =
     (if ref_count \<le> IPC_PERFORMING_INITIALIZATION then (h, OpenFailed HandleUninitialized)
      else if ih_counter h = ref_count then (h\<lparr>ih_counter := ref_count + 1\<rparr>, OpenCheck)
      else (h, OpenCas (ih_counter h)))"

definition drop_reference :: "'v ipc_handle \<Rightarrow> acquire_ipc_handle_error option \<Rightarrow> 'v ipc_handle \<times> ('v, 'e) ipc_pc" where
  [simp]: "drop_reference h r = (h\<lparr>ih_counter := ih_counter h - 1\<rparr>, if ih_counter h = 1 then Destroying r else after_drop r)"

definition destroy_object :: "bool \<Rightarrow> bool \<Rightarrow> 'v ipc_handle \<Rightarrow> acquire_ipc_handle_error option \<Rightarrow> 'v ipc_handle \<times> ('v, 'e) ipc_pc" where
  [simp]: "destroy_object empties destroyed h r =
     (if \<not> ih_object h then (h, Undefined)
      else if \<not> destroyed then (h, Crashed)
      else (h\<lparr>ih_object := False\<rparr>, if empties then Emptying r else Releasing r))"

text \<open>One access to the handle.\<close>

fun ipc_step :: "bool \<Rightarrow> bool \<Rightarrow> 'v ipc_handle \<Rightarrow> ('v, 'e) ipc_pc \<Rightarrow> 'v ipc_handle \<times> ('v, 'e) ipc_pc" where
  "ipc_step empties destroyed h (Claim xs) = claim_handle h xs"
| "ipc_step empties destroyed h (Preparing []) = (h\<lparr>ih_counter := IPC_INITIALIZED\<rparr>, Holding)"
| "ipc_step empties destroyed h (Preparing (x # xs)) = prepare_step h x xs"
| "ipc_step empties destroyed h (Resetting e) = (h\<lparr>ih_counter := -1\<rparr>, CreateFailed e)"
| "ipc_step empties destroyed h OpenLoad = (h, OpenCas (ih_counter h))"
| "ipc_step empties destroyed h (OpenCas ref_count) = open_exchange h ref_count"
| "ipc_step empties destroyed h OpenCheck = (h, if ih_interprocess h then Holding else Dropping (Some IsNotInterProcessCapable))"
| "ipc_step empties destroyed h (Dropping r) = drop_reference h r"
| "ipc_step empties destroyed h (Destroying r) = destroy_object empties destroyed h r"
| "ipc_step empties destroyed h (Emptying r) = (h\<lparr>ih_value := None\<rparr>, Releasing r)"
| "ipc_step empties destroyed h (Releasing r) = (h\<lparr>ih_counter := -1\<rparr>, after_drop r)"
| "ipc_step empties destroyed h pc = (h, pc)"

text \<open>The threads create objects with programs of the set \<open>K\<close>. \<open>ipc_weak\<close>: a weak exchange may fail although the counter has the expected value.\<close>

inductive ipc_thread :: "('v, 'e) init_step list set \<Rightarrow> bool \<Rightarrow> 'v ipc_handle \<Rightarrow> ('v, 'e) ipc_pc \<Rightarrow> 'v ipc_handle \<Rightarrow> ('v, 'e) ipc_pc \<Rightarrow> bool" for K empties where
  ipc_create: "xs \<in> K \<Longrightarrow> ipc_thread K empties h Away h (Claim xs)"
| ipc_open: "ipc_thread K empties h Away h OpenLoad"
| ipc_close: "ipc_thread K empties h Holding h (Dropping None)"
| ipc_return: "pc = HandleAlreadyInitialized \<or> pc = CreateFailed e \<or> pc = OpenFailed a \<Longrightarrow> ipc_thread K empties h pc h Away"
| ipc_weak: "0 < v \<Longrightarrow> ipc_thread K empties h (OpenCas v) h (OpenCas (ih_counter h))"
| ipc_work: "ipc_step empties destroyed h pc = (h', pc') \<Longrightarrow> ipc_thread K empties h pc h' pc'"

section \<open>The creation of the four kinds of objects\<close>

datatype mutex_creation_error =
  MutexInsufficientMemory | MutexInsufficientResources | MutexInsufficientPermissions | MutexNoInterProcessSupport | UnableToSetType | UnableToSetProtocol
| UnableToSetThreadTerminationBehavior | UnableToSetPriorityCeiling | MutexUnknownError os_error

datatype mutex_type = MutexNormal | MutexRecursive | MutexWithDeadlockDetection
datatype mutex_priority_inheritance = PriorityNone | PriorityInherit | PriorityProtect
datatype mutex_termination = StallWhenLocked | ReleaseWhenLocked

record mutex_builder =
  mb_interprocess :: bool
  mb_type :: mutex_type
  mb_termination :: mutex_termination
  mb_inheritance :: mutex_priority_inheritance
  mb_ceiling :: "int option"
  mb_clock :: clock_type

definition mutex_builder_new :: "clock_type \<Rightarrow> mutex_builder" where
  "mutex_builder_new default_clock = \<lparr>mb_interprocess = True, mb_type = MutexNormal, mb_termination = StallWhenLocked, mb_inheritance = PriorityNone,
     mb_ceiling = None, mb_clock = default_clock\<rparr>"

text \<open>The attributes are an object of their own that is given to each call and destroyed in the end; the calls on it are functions of the settings that
  answer with an error or without one.\<close>

record mutex_calls =
  mc_attr_init :: "os_error option"
  mc_setpshared :: "os_error option"
  mc_settype :: "mutex_type \<Rightarrow> os_error option"
  mc_setprotocol :: "mutex_priority_inheritance \<Rightarrow> os_error option"
  mc_setrobust :: "mutex_termination \<Rightarrow> os_error option"
  mc_setprioceiling :: "int \<Rightarrow> os_error option"
  mc_init :: "os_error option"

definition mutex_init_errno :: "os_error \<Rightarrow> mutex_creation_error" where
  "mutex_init_errno e = (case e of Enomem \<Rightarrow> MutexInsufficientMemory | Eagain \<Rightarrow> MutexInsufficientResources | Eperm \<Rightarrow> MutexInsufficientPermissions | _ \<Rightarrow> MutexUnknownError e)"

abbreviation fails_with :: "'e \<Rightarrow> os_error option \<Rightarrow> 'e option" where
  "fails_with e a \<equiv> map_option (\<lambda>_. e) a"

definition mutex_create :: "mutex_builder \<Rightarrow> 'v \<Rightarrow> mutex_calls \<Rightarrow> ('v, mutex_creation_error) init_step list" where
  "mutex_create b v os =
     [StoreClock (mb_clock b), StoreValue v, StoreInterprocess (mb_interprocess b),
      Attempt False (fails_with MutexInsufficientMemory (mc_attr_init os)),
      Attempt False (if mb_interprocess b then fails_with MutexNoInterProcessSupport (mc_setpshared os) else None),
      Attempt False (fails_with UnableToSetType (mc_settype os (mb_type b))),
      Attempt False (fails_with UnableToSetProtocol (mc_setprotocol os (mb_inheritance b))),
      Attempt False (fails_with UnableToSetThreadTerminationBehavior (mc_setrobust os (mb_termination b))),
      Attempt False (case mb_ceiling b of None \<Rightarrow> None | Some c \<Rightarrow> fails_with UnableToSetPriorityCeiling (mc_setprioceiling os c)),
      InitObject False (map_option mutex_init_errno (mc_init os))]"

datatype rw_creation_error =
  RwInsufficientMemory | RwInsufficientResources | RwInsufficientPermissions | RwNoInterProcessSupport | NoMutexKindSupport | RwUnknownError os_error

datatype rw_mutex_priority = MutexPreferReader | MutexPreferWriter | MutexPreferWriterNonRecursive

record rw_mutex_builder =
  rb_clock :: clock_type
  rb_priority :: rw_mutex_priority
  rb_interprocess :: bool

definition rw_mutex_builder_new :: "clock_type \<Rightarrow> rw_mutex_builder" where
  "rw_mutex_builder_new default_clock = \<lparr>rb_clock = default_clock, rb_priority = MutexPreferReader, rb_interprocess = True\<rparr>"

record rw_mutex_calls =
  rc_attr_init :: "os_error option"
  rc_setpshared :: "os_error option"
  rc_setkind :: "rw_mutex_priority \<Rightarrow> os_error option"
  rc_init :: "os_error option"

definition rw_attr_errno :: "os_error \<Rightarrow> rw_creation_error" where
  "rw_attr_errno e = (case e of Enomem \<Rightarrow> RwInsufficientMemory | _ \<Rightarrow> RwUnknownError e)"

definition rw_init_errno :: "os_error \<Rightarrow> rw_creation_error" where
  "rw_init_errno e = (case e of Eagain \<Rightarrow> RwInsufficientResources | Enomem \<Rightarrow> RwInsufficientResources | Eperm \<Rightarrow> RwInsufficientPermissions | _ \<Rightarrow> RwUnknownError e)"

definition rw_mutex_create :: "rw_mutex_builder \<Rightarrow> 'v \<Rightarrow> rw_mutex_calls \<Rightarrow> ('v, rw_creation_error) init_step list" where
  "rw_mutex_create b v os =
     [Attempt False (map_option rw_attr_errno (rc_attr_init os)),
      Attempt True (fails_with RwNoInterProcessSupport (rc_setpshared os)),
      Attempt True (fails_with NoMutexKindSupport (rc_setkind os (rb_priority b))),
      InitObject True (map_option rw_init_errno (rc_init os)),
      StoreClock (rb_clock b), StoreInterprocess (rb_interprocess b), StoreValue v]"

datatype semaphore_creation_error = SemInitialValueTooLarge | ExceedsMaximumNumberOfSemaphores | SemInsufficientPermissions | SemUnknownError os_error

definition MAX_INITIAL_SEMAPHORE_VALUE :: u32 where "MAX_INITIAL_SEMAPHORE_VALUE = 32767"

record semaphore_builder =
  sb_clock :: clock_type
  sb_interprocess :: bool
  sb_initial_value :: u32

definition semaphore_builder_new :: "clock_type \<Rightarrow> semaphore_builder" where
  "semaphore_builder_new default_clock = \<lparr>sb_clock = default_clock, sb_interprocess = True, sb_initial_value = 0\<rparr>"

definition sem_init_errno :: "os_error \<Rightarrow> semaphore_creation_error" where
  "sem_init_errno e = (case e of Einval \<Rightarrow> SemInitialValueTooLarge | Enospc \<Rightarrow> ExceedsMaximumNumberOfSemaphores | Eperm \<Rightarrow> SemInsufficientPermissions | _ \<Rightarrow> SemUnknownError e)"

definition semaphore_create :: "semaphore_builder \<Rightarrow> (bool \<Rightarrow> u32 \<Rightarrow> os_error option) \<Rightarrow> (unit, semaphore_creation_error) init_step list" where
  "semaphore_create b sem_init =
     [StoreInterprocess (sb_interprocess b), StoreClock (sb_clock b),
      Attempt True (if MAX_INITIAL_SEMAPHORE_VALUE < sb_initial_value b then Some SemInitialValueTooLarge else None),
      InitObject False (map_option sem_init_errno (sem_init (sb_interprocess b) (sb_initial_value b)))]"

datatype barrier_creation_error = BarrierInsufficientMemory | SystemWideBarrierLimitReached | BarrierUnknownError os_error

record barrier_builder =
  bb_waiters :: u32
  bb_interprocess :: bool

definition barrier_builder_new :: "u32 \<Rightarrow> barrier_builder" where
  "barrier_builder_new number_of_waiters = \<lparr>bb_waiters = number_of_waiters, bb_interprocess = False\<rparr>"

definition barrier_attr_errno :: "os_error \<Rightarrow> barrier_creation_error" where
  "barrier_attr_errno e = (case e of Enomem \<Rightarrow> BarrierInsufficientMemory | _ \<Rightarrow> BarrierUnknownError e)"

definition barrier_init_errno :: "os_error \<Rightarrow> barrier_creation_error" where
  "barrier_init_errno e = (case e of Enomem \<Rightarrow> BarrierInsufficientMemory | Eagain \<Rightarrow> SystemWideBarrierLimitReached | _ \<Rightarrow> BarrierUnknownError e)"

definition barrier_create :: "barrier_builder \<Rightarrow> os_error option \<Rightarrow> (bool \<Rightarrow> os_error option) \<Rightarrow> (u32 \<Rightarrow> os_error option) \<Rightarrow> (unit, barrier_creation_error) init_step list" where
  "barrier_create b attr_init setpshared barrier_init =
     [Attempt False (map_option barrier_attr_errno attr_init),
      Demand (setpshared (bb_interprocess b)),
      StoreInterprocess (bb_interprocess b),
      InitObject False (map_option barrier_init_errno (barrier_init (bb_waiters b)))]"

section \<open>The life cycle of a handle\<close>

fun ipc_holds :: "('v, 'e) ipc_pc \<Rightarrow> bool" where
  "ipc_holds OpenCheck \<longleftrightarrow> True" | "ipc_holds Holding \<longleftrightarrow> True" | "ipc_holds (Dropping r) \<longleftrightarrow> True" | "ipc_holds _ \<longleftrightarrow> False"

fun ipc_busy :: "('v, 'e) ipc_pc \<Rightarrow> bool" where
  "ipc_busy (Preparing xs) \<longleftrightarrow> True" | "ipc_busy (Resetting e) \<longleftrightarrow> True" | "ipc_busy (Destroying r) \<longleftrightarrow> True"
| "ipc_busy (Emptying r) \<longleftrightarrow> True" | "ipc_busy (Releasing r) \<longleftrightarrow> True" | "ipc_busy _ \<longleftrightarrow> False"

lemma ipc_holds_or_busy: "ipc_holds pc \<Longrightarrow> \<not> ipc_busy pc"
  by (cases pc) auto

fun is_store :: "('v, 'e) init_step \<Rightarrow> bool" where
  "is_store (StoreClock c) \<longleftrightarrow> True" | "is_store (StoreInterprocess b) \<longleftrightarrow> True" | "is_store (StoreValue v) \<longleftrightarrow> True" | "is_store _ \<longleftrightarrow> False"

text \<open>The object is initialized once, and nothing can fail afterwards.\<close>

fun inits_once :: "('v, 'e) init_step list \<Rightarrow> bool" where
  "inits_once [] \<longleftrightarrow> False"
| "inits_once (InitObject resets a # xs) \<longleftrightarrow> list_all is_store xs"
| "inits_once (_ # xs) \<longleftrightarrow> inits_once xs"

definition stores_value :: "('v, 'e) init_step list \<Rightarrow> bool" where
  "stores_value xs \<longleftrightarrow> (\<exists>v. StoreValue v \<in> set xs)"

lemma stores_value_simps [simp]: "\<not> stores_value []" "stores_value (x # xs) \<longleftrightarrow> (\<exists>v. x = StoreValue v) \<or> stores_value xs"
  by (auto simp: stores_value_def)

text \<open>What a thread relies on: a thread that creates or destroys knows whether the object exists.\<close>

fun ipc_ok :: "('v, 'e) init_step list set \<Rightarrow> 'v ipc_handle \<Rightarrow> ('v, 'e) ipc_pc \<Rightarrow> bool" where
  "ipc_ok K h (Claim xs) \<longleftrightarrow> xs \<in> K"
| "ipc_ok K h (Preparing xs) \<longleftrightarrow> (if ih_object h then list_all is_store xs else inits_once xs)"
| "ipc_ok K h (Resetting e) \<longleftrightarrow> \<not> ih_object h" | "ipc_ok K h (Emptying r) \<longleftrightarrow> \<not> ih_object h" | "ipc_ok K h (Releasing r) \<longleftrightarrow> \<not> ih_object h"
| "ipc_ok K h (Destroying r) \<longleftrightarrow> ih_object h"
| "ipc_ok K h Undefined \<longleftrightarrow> False"
| "ipc_ok K h _ \<longleftrightarrow> True"

text \<open>What the counter says, given the number of threads that hold a construct and of those that create or destroy the object.\<close>

definition ipc_counts :: "'v ipc_handle \<Rightarrow> nat \<Rightarrow> nat \<Rightarrow> bool" where
  "ipc_counts h holders busy \<longleftrightarrow> (if ih_counter h = -1 then holders = 0 \<and> busy = 0 \<and> \<not> ih_object h
     else if ih_counter h = 0 then holders = 0 \<and> busy \<le> 1
     else ih_counter h = int holders \<and> busy = 0 \<and> ih_object h)"

definition ipc_inv :: "('v, 'e) init_step list set \<Rightarrow> nat \<Rightarrow> 'v ipc_handle \<Rightarrow> (nat \<Rightarrow> ('v, 'e) ipc_pc) \<Rightarrow> bool" where
  "ipc_inv K n h f \<longleftrightarrow> ipc_counts h (number n ipc_holds f) (number n ipc_busy f) \<and> (\<forall>t < n. ipc_ok K h (f t))"

lemma ipc_ok_other: "\<not> ipc_busy pc \<or> ih_object h' = ih_object h \<Longrightarrow> ipc_ok K h pc \<Longrightarrow> ipc_ok K h' pc"
  by (cases pc) auto

lemma only_one_busy:
  assumes "ipc_counts h c (number n ipc_busy f)" and "t < n" and "u < n" and "ipc_busy (f t)" and "ipc_busy (f u)"
  shows "t = u"
proof (rule number_one [where P = ipc_busy and f = f and n = n])
  show "number n ipc_busy f \<le> 1" using assms(1) by (auto simp: ipc_counts_def split: if_splits)
qed (use assms in simp_all)

locale ipc_construct =
  fixes K :: "('v, 'e) init_step list set" and empties :: bool
  assumes inits_once: "xs \<in> K \<Longrightarrow> inits_once xs"
begin

text \<open>One step of a thread: the handle, what the thread relies on, and what the others rely on.\<close>

lemma step_counts:
  assumes "ipc_thread K empties h pc h' pc'" and "ipc_ok K h pc" and "ipc_counts h c b"
    and "ipc_holds pc \<longrightarrow> 0 < c" and "ipc_busy pc \<longrightarrow> 0 < b"
  shows "ipc_counts h' (c + of_bool (ipc_holds pc') - of_bool (ipc_holds pc)) (b + of_bool (ipc_busy pc') - of_bool (ipc_busy pc))
    \<and> ipc_ok K h' pc' \<and> (ih_object h' \<noteq> ih_object h \<longrightarrow> ipc_busy pc)"
  using assms(1)
proof (cases rule: ipc_thread.cases)
  case (ipc_work destroyed)
  show ?thesis
  proof (cases pc)
    case (Claim xs)
    then show ?thesis using ipc_work assms inits_once [of xs] by (auto simp: ipc_counts_def ipc_states split: if_splits)
  next
    case (Preparing xs)
    show ?thesis
    proof (cases xs)
      case Nil
      then show ?thesis using Preparing ipc_work assms by (auto simp: ipc_counts_def ipc_states split: if_splits)
    next
      case (Cons x ys)
      then show ?thesis using Preparing ipc_work assms
        by (cases x) (auto simp: ipc_counts_def failed_create_def split: if_splits option.splits)
    qed
  qed (use ipc_work assms in \<open>auto simp: ipc_counts_def ipc_states after_drop_def split: if_splits option.splits\<close>)
qed (use assms in \<open>auto simp: ipc_counts_def split: if_splits\<close>)

lemma inv_step:
  assumes "ipc_inv K n h f" and "t < n" and "ipc_thread K empties h (f t) h' pc"
  shows "ipc_inv K n h' (f(t := pc))"
proof -
  let ?c = "number n ipc_holds f" and ?b = "number n ipc_busy f"
  have I: "ipc_counts h ?c ?b" "\<And>u. u < n \<Longrightarrow> ipc_ok K h (f u)" using assms(1) by (auto simp: ipc_inv_def)
  note S = step_counts [OF assms(3) I(2) [OF assms(2)] I(1)]
  have S: "ipc_counts h' (?c + of_bool (ipc_holds pc) - of_bool (ipc_holds (f t))) (?b + of_bool (ipc_busy pc) - of_bool (ipc_busy (f t)))"
      "ipc_ok K h' pc" "ih_object h' \<noteq> ih_object h \<Longrightarrow> ipc_busy (f t)"
    using S number_pos [OF assms(2), of ipc_holds f] number_pos [OF assms(2), of ipc_busy f] by auto
  have n: "number n ipc_holds (f(t := pc)) = ?c + of_bool (ipc_holds pc) - of_bool (ipc_holds (f t))"
    "number n ipc_busy (f(t := pc)) = ?b + of_bool (ipc_busy pc) - of_bool (ipc_busy (f t))"
    using number_upd [OF assms(2), of ipc_holds f pc] number_upd [OF assms(2), of ipc_busy f pc] by linarith+
  have "ipc_ok K h' (f u)" if u: "u < n" "u \<noteq> t" for u
  proof (cases "ipc_busy (f u)")
    case True
    then have "\<not> ipc_busy (f t)" using only_one_busy [OF I(1) u(1) assms(2)] u(2) by auto
    then show ?thesis using S(3) I(2) [OF u(1)] ipc_ok_other by blast
  qed (use I(2) [OF u(1)] ipc_ok_other in blast)
  then show ?thesis using S(1,2) n by (simp add: ipc_inv_def)
qed

lemma reach_inv: "conc_reach n (ipc_thread K empties) (ipc_handle_new clock) Away h f \<Longrightarrow> ipc_inv K n h f"
proof (induction rule: conc_reach.induct)
  case start
  show ?case by (simp add: ipc_inv_def ipc_counts_def ipc_handle_new_def ipc_states)
next
  case (step h f t h' pc)
  then show ?case using inv_step by blast
qed

text \<open>A handle that nobody is working on although the counter is 0 stays like that.\<close>

lemma abandoned_step:
  assumes "ipc_inv K n h f" and "ih_counter h = 0" and "number n ipc_busy f = 0" and "t < n" and "ipc_thread K empties h (f t) h' pc"
  shows "ih_counter h' = 0 \<and> number n ipc_busy (f(t := pc)) = 0"
proof -
  have "\<not> ipc_busy (f t)" "\<not> ipc_holds (f t)" using assms(1-4) number_eq_0 [of n ipc_busy f] number_eq_0 [of n ipc_holds f]
    by (auto simp: ipc_inv_def ipc_counts_def)
  with assms(5,2) have "ih_counter h' = 0 \<and> \<not> ipc_busy pc" by (cases rule: ipc_thread.cases) (cases "f t"; auto simp: ipc_states split: if_splits)+
  then show ?thesis using number_upd [OF assms(4), of ipc_busy f pc] assms(3) \<open>\<not> ipc_busy (f t)\<close> by simp
qed

end

text \<open>Objects that guard a value: a handle with constructs has one.\<close>

fun value_ok :: "'v ipc_handle \<Rightarrow> ('v, 'e) ipc_pc \<Rightarrow> bool" where
  "value_ok h (Preparing xs) \<longleftrightarrow> ih_value h \<noteq> None \<or> stores_value xs"
| "value_ok h _ \<longleftrightarrow> True"

locale ipc_value_construct = ipc_construct +
  assumes stores_value: "xs \<in> K \<Longrightarrow> stores_value xs"
begin

definition value_inv :: "nat \<Rightarrow> 'a ipc_handle \<Rightarrow> (nat \<Rightarrow> ('a, 'b) ipc_pc) \<Rightarrow> bool" where
  "value_inv n h f \<longleftrightarrow> (0 < ih_counter h \<longrightarrow> ih_value h \<noteq> None) \<and> (\<forall>t < n. value_ok h (f t))"

lemma value_step:
  assumes "ipc_thread K empties h pc h' pc'" and "ipc_ok K h pc" and "value_ok h pc" and "0 < ih_counter h \<longrightarrow> ih_value h \<noteq> None"
    and "ipc_busy pc \<longrightarrow> ih_counter h = 0" and "ipc_holds pc \<longrightarrow> 0 < ih_counter h"
  shows "(0 < ih_counter h' \<longrightarrow> ih_value h' \<noteq> None) \<and> value_ok h' pc' \<and> (ih_value h' = None \<longrightarrow> ih_value h = None \<or> ipc_busy pc)"
  using assms(1)
proof (cases rule: ipc_thread.cases)
  case (ipc_work destroyed)
  show ?thesis
  proof (cases pc)
    case (Claim xs)
    then show ?thesis using ipc_work assms stores_value [of xs] by (auto simp: ipc_states split: if_splits)
  next
    case (Preparing xs)
    then show ?thesis using ipc_work assms
      by (cases xs; cases "hd xs") (auto simp: failed_create_def ipc_states split: if_splits option.splits)
  qed (use ipc_work assms in \<open>auto simp: ipc_states after_drop_def split: if_splits option.splits\<close>)
qed (use assms in \<open>auto split: if_splits\<close>)

lemma value_inv_step:
  assumes "ipc_inv K n h f" and "value_inv n h f" and "t < n" and "ipc_thread K empties h (f t) h' pc"
  shows "value_inv n h' (f(t := pc))"
proof -
  have I: "ipc_counts h (number n ipc_holds f) (number n ipc_busy f)" "ipc_ok K h (f t)" using assms(1,3) by (auto simp: ipc_inv_def)
  have b: "ipc_busy (f t) \<longrightarrow> ih_counter h = 0" "ipc_holds (f t) \<longrightarrow> 0 < ih_counter h"
    using I(1) number_pos [OF assms(3), of ipc_busy f] number_pos [OF assms(3), of ipc_holds f] by (auto simp: ipc_counts_def split: if_splits)
  have V: "value_ok h (f t)" "0 < ih_counter h \<longrightarrow> ih_value h \<noteq> None" using assms(2,3) by (auto simp: value_inv_def)
  note S = value_step [OF assms(4) I(2) V b]
  have "value_ok h' (f u)" if u: "u < n" "u \<noteq> t" for u
  proof (cases "ipc_busy (f u)")
    case True
    then have "\<not> ipc_busy (f t)" using only_one_busy [OF I(1) u(1) assms(3)] u(2) by auto
    then show ?thesis using S assms(2) u(1) by (cases "f u") (auto simp: value_inv_def)
  next
    case False
    then show ?thesis by (cases "f u") auto
  qed
  then show ?thesis using S by (simp add: value_inv_def)
qed

lemma reach_value: "conc_reach n (ipc_thread K empties) (ipc_handle_new clock) Away h f \<Longrightarrow> ipc_inv K n h f \<and> value_inv n h f"
proof (induction rule: conc_reach.induct)
  case start
  show ?case by (simp add: ipc_inv_def ipc_counts_def value_inv_def ipc_handle_new_def ipc_states)
next
  case (step h f t h' pc)
  then show ?case using inv_step value_inv_step by blast
qed

end

text \<open>Whether a step can fail, and whether the counter is reset then.\<close>

fun failing :: "('v, 'e) init_step \<Rightarrow> bool option" where
  "failing (Attempt resets (Some e)) = Some resets" | "failing (InitObject resets (Some e)) = Some resets" | "failing (Demand (Some e)) = Some False" | "failing _ = None"

definition never_resets :: "('v, 'e) init_step list \<Rightarrow> bool" where
  "never_resets xs \<longleftrightarrow> (\<forall>x \<in> set xs. failing x \<noteq> Some True)"

definition always_resets :: "('v, 'e) init_step list \<Rightarrow> bool" where
  "always_resets xs \<longleftrightarrow> (\<forall>x \<in> set xs. failing x \<noteq> Some False)"

lemma resets_Cons [simp]: "never_resets (x # xs) \<longleftrightarrow> failing x \<noteq> Some True \<and> never_resets xs" "always_resets (x # xs) \<longleftrightarrow> failing x \<noteq> Some False \<and> always_resets xs"
  by (auto simp: never_resets_def always_resets_def)

lemma resets_Nil [simp]: "never_resets []" "always_resets []"
  by (auto simp: never_resets_def always_resets_def)

definition ipc_next :: "nat \<Rightarrow> ('v, 'e) init_step list set \<Rightarrow> bool \<Rightarrow> 'v ipc_handle \<times> (nat \<Rightarrow> ('v, 'e) ipc_pc) \<Rightarrow> 'v ipc_handle \<times> (nat \<Rightarrow> ('v, 'e) ipc_pc) \<Rightarrow> bool" where
  "ipc_next n K empties s s' \<longleftrightarrow> (\<exists>t pc. t < n \<and> ipc_thread K empties (fst s) (snd s t) (fst s') pc \<and> snd s' = (snd s)(t := pc))"

text \<open>A failed creation that does not reset the counter leaves the handle unusable.\<close>

fun unreset_ok :: "('v, 'e) ipc_pc \<Rightarrow> bool" where
  "unreset_ok (Resetting e) \<longleftrightarrow> False" | "unreset_ok (Preparing xs) \<longleftrightarrow> never_resets xs" | "unreset_ok _ \<longleftrightarrow> True"

definition gave_up :: "('v, 'e) ipc_pc \<Rightarrow> bool" where
  "gave_up pc \<longleftrightarrow> (\<exists>e. pc = CreateFailed e)"

locale unreset_construct = ipc_construct +
  assumes never_resets: "xs \<in> K \<Longrightarrow> never_resets xs"
begin

lemma unreset_step:
  assumes "ipc_thread K empties h pc h' pc'" and "ipc_ok K h pc" and "unreset_ok pc"
  shows "unreset_ok pc' \<and> (gave_up pc' \<longrightarrow> gave_up pc \<or> ipc_busy pc \<and> ih_counter h' = ih_counter h)"
  using assms(1)
proof (cases rule: ipc_thread.cases)
  case (ipc_work destroyed)
  show ?thesis
  proof (cases pc)
    case (Claim xs)
    then show ?thesis using ipc_work assms never_resets [of xs] by (auto simp: gave_up_def split: if_splits)
  next
    case (Preparing xs)
    then show ?thesis using ipc_work assms
      by (cases xs; cases "hd xs") (auto simp: failed_create_def gave_up_def split: if_splits option.splits)
  qed (use ipc_work assms in \<open>auto simp: after_drop_def gave_up_def split: if_splits option.splits\<close>)
qed (use assms in \<open>auto simp: gave_up_def\<close>)

lemma reach_unreset:
  "conc_reach n (ipc_thread K empties) (ipc_handle_new clock) Away h f
    \<Longrightarrow> ipc_inv K n h f \<and> (\<forall>t < n. unreset_ok (f t)) \<and> ((\<exists>t < n. gave_up (f t)) \<longrightarrow> ih_counter h = 0 \<and> number n ipc_busy f = 0)"
proof (induction rule: conc_reach.induct)
  case start
  show ?case by (simp add: ipc_inv_def ipc_counts_def ipc_handle_new_def ipc_states gave_up_def)
next
  case (step h f t h' pc)
  then have I: "ipc_inv K n h f" "unreset_ok (f t)" by simp_all
  then have ok: "ipc_ok K h (f t)" using step.hyps(2) by (simp add: ipc_inv_def)
  note S = unreset_step [OF step.hyps(3) ok I(2)]
  have "ih_counter h' = 0 \<and> number n ipc_busy (f(t := pc)) = 0" if u: "\<exists>u < n. gave_up ((f(t := pc)) u)"
  proof (cases "\<exists>u < n. gave_up (f u)")
    case True
    with step.IH have "ih_counter h = 0" "number n ipc_busy f = 0" by simp_all
    then show ?thesis by (rule abandoned_step [OF I(1) _ _ step.hyps(2,3)])
  next
    case False
    then have g: "gave_up pc" "ipc_busy (f t)" "ih_counter h' = ih_counter h" using u S step.hyps(2) by (auto split: if_splits)
    have "0 < number n ipc_busy f" using number_pos [OF step.hyps(2), of ipc_busy f] g(2) .
    moreover have "ipc_counts h (number n ipc_holds f) (number n ipc_busy f)" using I(1) by (simp add: ipc_inv_def)
    ultimately have "ih_counter h = 0 \<and> number n ipc_busy f \<le> 1" by (auto simp: ipc_counts_def split: if_splits)
    then show ?thesis using g number_upd [OF step.hyps(2), of ipc_busy f pc] by (auto simp: gave_up_def)
  qed
  moreover have "\<forall>u < n. unreset_ok ((f(t := pc)) u)" using S step.IH by simp
  ultimately show ?case using inv_step [OF I(1) step.hyps(2,3)] by blast
qed

lemma failed_creation_blocks:
  assumes "conc_reach n (ipc_thread K empties) (ipc_handle_new clock) Away h f" and "t < n" and "f t = CreateFailed e" and "(ipc_next n K empties)\<^sup>*\<^sup>* (h, f) (h', f')"
  shows "ih_counter h' = 0 \<and> (\<forall>u < n. \<not> ipc_holds (f' u))"
proof -
  have "ipc_inv K n (fst s) (snd s) \<and> ih_counter (fst s) = 0 \<and> number n ipc_busy (snd s) = 0" if "(ipc_next n K empties)\<^sup>*\<^sup>* (h, f) s" for s
    using that
  proof (induction rule: rtranclp_induct)
    case base
    show ?case using reach_unreset [OF assms(1)] assms(2,3) by (auto simp: gave_up_def)
  next
    case (step s s')
    then obtain t pc where n: "t < n" "ipc_thread K empties (fst s) (snd s t) (fst s') pc" "snd s' = (snd s)(t := pc)" by (auto simp: ipc_next_def)
    then show ?case unfolding n(3)
      using step.IH inv_step [where h = "fst s" and f = "snd s" and t = t and pc = pc] abandoned_step [where h = "fst s" and f = "snd s" and t = t and pc = pc] by blast
  qed
  from this [OF assms(4)] have "number n ipc_holds f' = 0" "ih_counter h' = 0" by (auto simp: ipc_inv_def ipc_counts_def)
  then show ?thesis by (simp add: number_eq_0)
qed

end

text \<open>A creation that always resets the counter does not.\<close>

lemma crashed_step: "ipc_thread K empties h pc h' pc' \<Longrightarrow> pc = Crashed \<Longrightarrow> pc' = Crashed"
  by (cases rule: ipc_thread.cases) auto

fun reset_ok :: "('v, 'e) ipc_pc \<Rightarrow> bool" where
  "reset_ok (Preparing xs) \<longleftrightarrow> always_resets xs" | "reset_ok _ \<longleftrightarrow> True"

locale reset_construct = ipc_construct +
  assumes always_resets: "xs \<in> K \<Longrightarrow> always_resets xs"
begin

lemma reset_step:
  assumes "ipc_thread K empties h pc h' pc'" and "ipc_ok K h pc" and "reset_ok pc"
  shows "reset_ok pc' \<and> (ih_counter h' = 0 \<longrightarrow> ipc_busy pc' \<or> pc' = Crashed \<or> \<not> ipc_busy pc \<and> ih_counter h = 0 \<or> pc' = Undefined)"
  using assms(1)
proof (cases rule: ipc_thread.cases)
  case (ipc_work destroyed)
  show ?thesis
  proof (cases pc)
    case (Claim xs)
    then show ?thesis using ipc_work assms always_resets [of xs] by (auto simp: ipc_states split: if_splits)
  next
    case (Preparing xs)
    then show ?thesis using ipc_work assms
      by (cases xs; cases "hd xs") (auto simp: failed_create_def ipc_states split: if_splits option.splits)
  qed (use ipc_work assms in \<open>auto simp: after_drop_def ipc_states split: if_splits option.splits\<close>)
qed (use assms in \<open>auto simp: after_drop_def split: if_splits option.splits\<close>)

lemma reach_reset:
  "conc_reach n (ipc_thread K empties) (ipc_handle_new clock) Away h f
    \<Longrightarrow> ipc_inv K n h f \<and> (\<forall>t < n. reset_ok (f t)) \<and> (ih_counter h = 0 \<longrightarrow> (\<exists>t < n. ipc_busy (f t) \<or> f t = Crashed))"
proof (induction rule: conc_reach.induct)
  case start
  show ?case by (simp add: ipc_inv_def ipc_counts_def ipc_handle_new_def ipc_states)
next
  case (step h f t h' pc)
  then have I: "ipc_inv K n h f" "reset_ok (f t)" by simp_all
  then have ok: "ipc_ok K h (f t)" using step.hyps(2) by (simp add: ipc_inv_def)
  have I': "ipc_inv K n h' (f(t := pc))" by (rule inv_step [OF I(1) step.hyps(2,3)])
  then have pc: "pc \<noteq> Undefined" using step.hyps(2) by (auto simp: ipc_inv_def)
  have "\<exists>u < n. ipc_busy ((f(t := pc)) u) \<or> (f(t := pc)) u = Crashed" if "ih_counter h' = 0"
    using reset_step [OF step.hyps(3) ok I(2)] pc that step.IH step.hyps(2) crashed_step [OF step.hyps(3)] by (metis fun_upd_apply)
  moreover have "\<forall>u < n. reset_ok ((f(t := pc)) u)" using reset_step [OF step.hyps(3) ok I(2)] step.IH by simp
  ultimately show ?case using I' by blast
qed

end

section \<open>The four kinds of objects\<close>

definition mutex_programs :: "('v, mutex_creation_error) init_step list set" where
  "mutex_programs = {mutex_create b v os |b v os. True}"

definition rw_mutex_programs :: "('v, rw_creation_error) init_step list set" where
  "rw_mutex_programs = {rw_mutex_create b v os |b v os. True}"

definition semaphore_programs :: "(unit, semaphore_creation_error) init_step list set" where
  "semaphore_programs = {semaphore_create b sem_init |b sem_init. True}"

definition barrier_programs :: "(unit, barrier_creation_error) init_step list set" where
  "barrier_programs = {barrier_create b attr_init setpshared barrier_init |b attr_init setpshared barrier_init. True}"

lemma failing_simps [simp]: "failing (Attempt resets a) = (if a = None then None else Some resets)" "failing (InitObject resets a) = (if a = None then None else Some resets)"
  by (cases a; simp)+

lemma failing_Demand [simp]: "failing (Demand d) = (if d = None then None else Some False)"
  by (cases d) simp_all

lemma mutex_create_steps [simp]: "inits_once (mutex_create b v os)" "stores_value (mutex_create b v os)" "never_resets (mutex_create b v os)"
  by (simp_all add: mutex_create_def)

lemma rw_mutex_create_steps [simp]: "inits_once (rw_mutex_create b v os)" "stores_value (rw_mutex_create b v os)" "rc_attr_init os = None \<Longrightarrow> always_resets (rw_mutex_create b v os)"
  by (simp_all add: rw_mutex_create_def)

lemma semaphore_create_steps [simp]: "inits_once (semaphore_create c sem_init)"
  by (simp add: semaphore_create_def)

lemma barrier_create_steps [simp]: "inits_once (barrier_create b attr_init setpshared barrier_init)" "never_resets (barrier_create b attr_init setpshared barrier_init)"
  by (simp_all add: barrier_create_def)

interpretation mutex: ipc_value_construct mutex_programs False
  by unfold_locales (auto simp: mutex_programs_def)

interpretation mutex: unreset_construct mutex_programs False
  by unfold_locales (auto simp: mutex_programs_def)

interpretation rwm: ipc_value_construct rw_mutex_programs True
  by unfold_locales (auto simp: rw_mutex_programs_def)

interpretation rwr: reset_construct "{rw_mutex_create b v os |b v os. rc_attr_init os = None}" True
  by unfold_locales auto

interpretation semaphore: ipc_construct semaphore_programs False
  by unfold_locales (auto simp: semaphore_programs_def)

interpretation barrier: unreset_construct barrier_programs False
  by unfold_locales (auto simp: barrier_programs_def)

text \<open>The handle in any interleaving: the counter is the number of constructs (those that are being dropped included), at most one thread creates or destroys the object, nothing is
  undefined behaviour, and while there is a construct the object exists and nobody works on it.\<close>

definition handle_safe :: "nat \<Rightarrow> 'v ipc_handle \<Rightarrow> (nat \<Rightarrow> ('v, 'e) ipc_pc) \<Rightarrow> bool" where
  "handle_safe n h f \<longleftrightarrow> (-1 \<le> ih_counter h \<and> number n ipc_holds f = nat (ih_counter h) \<and> number n ipc_busy f \<le> 1)
     \<and> (\<forall>t < n. f t \<noteq> Undefined)
     \<and> (\<forall>t < n. ipc_holds (f t) \<longrightarrow> ih_object h \<and> (\<forall>u < n. \<not> ipc_busy (f u)))
     \<and> (ih_counter h = -1 \<longrightarrow> \<not> ih_object h)"

lemma inv_safe:
  assumes "ipc_inv K n h f"
  shows "handle_safe n h f"
proof -
  have c: "ipc_counts h (number n ipc_holds f) (number n ipc_busy f)" "\<And>t. t < n \<Longrightarrow> f t \<noteq> Undefined" using assms by (auto simp: ipc_inv_def)
  have "ih_object h \<and> (\<forall>u < n. \<not> ipc_busy (f u))" if "t < n" "ipc_holds (f t)" for t
    using c(1) number_pos [OF that(1), of ipc_holds f] that(2) by (auto simp: ipc_counts_def number_eq_0 split: if_splits)
  moreover have "-1 \<le> ih_counter h \<and> number n ipc_holds f = nat (ih_counter h) \<and> number n ipc_busy f \<le> 1 \<and> (ih_counter h = -1 \<longrightarrow> \<not> ih_object h)"
    using c(1) by (auto simp: ipc_counts_def split: if_splits)
  ultimately show ?thesis using c(2) by (auto simp: handle_safe_def)
qed

lemma inv_holds_value: "ipc_inv K n h f \<Longrightarrow> (0 < ih_counter h \<longrightarrow> ih_value h \<noteq> None) \<Longrightarrow> t < n \<Longrightarrow> ipc_holds (f t) \<Longrightarrow> ih_value h \<noteq> None"
  using number_pos [of t n ipc_holds f] by (auto simp: ipc_inv_def ipc_counts_def split: if_splits)

text \<open>C20: in every interleaving of threads that create, open and drop mutexes, read-write mutexes, semaphores or barriers in a handle, the reference counter is the number of
  constructs; while there is one the object of the operating system exists, with the value it guards, and nobody creates or destroys it. No object is
  initialized twice or destroyed twice.\<close>

theorem objects_live_while_used:
  "(conc_reach n (ipc_thread mutex_programs False) (ipc_handle_new clock) Away h1 f1
      \<longrightarrow> handle_safe n h1 f1 \<and> (\<forall>t < n. ipc_holds (f1 t) \<longrightarrow> ih_value h1 \<noteq> None))
   \<and> (conc_reach n (ipc_thread rw_mutex_programs True) (ipc_handle_new clock) Away h2 f2
      \<longrightarrow> handle_safe n h2 f2 \<and> (\<forall>t < n. ipc_holds (f2 t) \<longrightarrow> ih_value h2 \<noteq> None))
   \<and> (conc_reach n (ipc_thread semaphore_programs False) (ipc_handle_new clock) Away h3 f3 \<longrightarrow> handle_safe n h3 f3)
   \<and> (conc_reach n (ipc_thread barrier_programs False) (ipc_handle_new clock) Away h4 f4 \<longrightarrow> handle_safe n h4 f4)"
proof (intro conjI impI)
  assume r: "conc_reach n (ipc_thread mutex_programs False) (ipc_handle_new clock) Away h1 f1"
  then have i: "ipc_inv mutex_programs n h1 f1 \<and> mutex.value_inv n h1 f1" by (rule mutex.reach_value)
  then show "handle_safe n h1 f1" using inv_safe by blast
  show "\<forall>t < n. ipc_holds (f1 t) \<longrightarrow> ih_value h1 \<noteq> None" using i inv_holds_value unfolding mutex.value_inv_def by blast
next
  assume r: "conc_reach n (ipc_thread rw_mutex_programs True) (ipc_handle_new clock) Away h2 f2"
  then have i: "ipc_inv rw_mutex_programs n h2 f2 \<and> rwm.value_inv n h2 f2" by (rule rwm.reach_value)
  then show "handle_safe n h2 f2" using inv_safe by blast
  show "\<forall>t < n. ipc_holds (f2 t) \<longrightarrow> ih_value h2 \<noteq> None" using i inv_holds_value unfolding rwm.value_inv_def by blast
next
  assume "conc_reach n (ipc_thread semaphore_programs False) (ipc_handle_new clock) Away h3 f3"
  then show "handle_safe n h3 f3" using semaphore.reach_inv inv_safe by blast
next
  assume "conc_reach n (ipc_thread barrier_programs False) (ipc_handle_new clock) Away h4 f4"
  then show "handle_safe n h4 f4" using barrier.reach_inv inv_safe by blast
qed

text \<open>When the creation of a mutex fails after the handle was claimed, the counter stays 0: from then on nobody ever holds a mutex in this handle again, neither a new one nor an
  opened one.\<close>

theorem failed_mutex_creation_blocks_handle:
  assumes "conc_reach n (ipc_thread mutex_programs False) (ipc_handle_new clock) Away h f" and "t < n" and "f t = CreateFailed e"
    and "(ipc_next n mutex_programs False)\<^sup>*\<^sup>* (h, f) (h', f')"
  shows "ih_counter h' = 0 \<and> (\<forall>u < n. \<not> ipc_holds (f' u))"
  by (rule mutex.failed_creation_blocks [OF assms])

text \<open>A read-write mutex resets the counter, except when its attributes cannot be initialized: without that, somebody is at work while the counter is 0, or has panicked.\<close>

theorem failed_rw_mutex_creation_resets:
  assumes "conc_reach n (ipc_thread {rw_mutex_create b v os |b v os. rc_attr_init os = None} True) (ipc_handle_new clock) Away h f" and "ih_counter h = 0"
  shows "\<exists>t < n. ipc_busy (f t) \<or> f t = Crashed"
  using rwr.reach_reset [OF assms(1)] assms(2) by blast

section \<open>Examples\<close>

lemma ipc_run_reach:
  assumes "conc_reach n (ipc_thread K empties) s0 p0 h f" and "t < n" and "((\<lambda>(h, pc). ipc_step empties destroyed h pc) ^^ k) (h, f t) = (h', pc')"
  shows "conc_reach n (ipc_thread K empties) s0 p0 h' (f(t := pc'))"
  using assms(3)
proof (induction k arbitrary: h' pc')
  case 0
  then have "h' = h" "pc' = f t" by simp_all
  then show ?case using assms(1) by (simp only: fun_upd_triv)
next
  case (Suc k)
  obtain h1 pc1 where k: "((\<lambda>(h, pc). ipc_step empties destroyed h pc) ^^ k) (h, f t) = (h1, pc1)" by fastforce
  then have "ipc_thread K empties h1 ((f(t := pc1)) t) h' pc'" using Suc.prems by (auto intro: ipc_work)
  from conc_reach.step [OF Suc.IH [OF k] assms(2) this] show ?case by (simp only: fun_upd_upd)
qed

definition willing :: mutex_calls where
  "willing = \<lparr>mc_attr_init = None, mc_setpshared = None, mc_settype = (\<lambda>_. None), mc_setprotocol = (\<lambda>_. None), mc_setrobust = (\<lambda>_. None), mc_setprioceiling = (\<lambda>_. None), mc_init = None\<rparr>"

text \<open>One thread creates a mutex, another one opens it.\<close>

lemma example_two_users:
  "\<exists>h f. conc_reach 2 (ipc_thread mutex_programs False) (ipc_handle_new Monotonic :: nat ipc_handle) Away h f \<and> f 0 = Holding \<and> f 1 = Holding \<and> ih_counter h = 2"
proof -
  let ?R = "ipc_thread mutex_programs False" and ?h0 = "ipc_handle_new Monotonic :: nat ipc_handle" and ?xs = "mutex_create (mutex_builder_new Monotonic) (7 :: nat) willing"
  let ?h1 = "\<lparr>ih_object = True, ih_counter = 1, ih_clock = Monotonic, ih_interprocess = True, ih_value = Some (7 :: nat)\<rparr>"
  have "?xs \<in> mutex_programs" by (auto simp: mutex_programs_def)
  then have c: "conc_reach 2 ?R ?h0 Away ?h0 ((\<lambda>_. Away)(0 := Claim ?xs))" by (intro conc_reach.step [OF conc_reach.start] ipc_create) simp_all
  have "((\<lambda>(h, pc). ipc_step False True h pc) ^^ 12) (?h0, ((\<lambda>_. Away)(0 := Claim ?xs)) 0) = (?h1, Holding)"
    by (simp add: eval_nat_numeral mutex_create_def mutex_builder_new_def willing_def ipc_handle_new_def ipc_states)
  from ipc_run_reach [OF c _ this] have h: "conc_reach 2 ?R ?h0 Away ?h1 ((\<lambda>_. Away)(0 := Holding))" by (simp only: fun_upd_upd)
  have o: "conc_reach 2 ?R ?h0 Away ?h1 ((\<lambda>_. Away)(0 := Holding, 1 := OpenLoad))" by (intro conc_reach.step [OF h]) (auto intro: ipc_open)
  have "((\<lambda>(h, pc). ipc_step False True h pc) ^^ 3) (?h1, ((\<lambda>_. Away)(0 := Holding, 1 := OpenLoad)) 1) = (?h1\<lparr>ih_counter := 2\<rparr>, Holding)"
    by (simp add: eval_nat_numeral ipc_states)
  from ipc_run_reach [OF o _ this] show ?thesis by (intro exI) auto
qed

theorem objects_live_while_used_witness:
  "\<exists>h f. conc_reach 2 (ipc_thread mutex_programs False) (ipc_handle_new Monotonic :: nat ipc_handle) Away h f
    \<and> f 0 = Holding \<and> f 1 = Holding \<and> ih_counter h = 2 \<and> ih_object h \<and> ih_value h \<noteq> None"
proof -
  obtain h :: "nat ipc_handle" and f where r: "conc_reach 2 (ipc_thread mutex_programs False) (ipc_handle_new Monotonic) Away h f" "f 0 = Holding" "f 1 = Holding" "ih_counter h = 2"
    using example_two_users by blast
  from objects_live_while_used [of 2 Monotonic h f "ipc_handle_new Monotonic" "\<lambda>_. Away" "ipc_handle_new Monotonic" "\<lambda>_. Away" "ipc_handle_new Monotonic" "\<lambda>_. Away"] r(1)
  have "handle_safe 2 h f \<and> (\<forall>t < 2. ipc_holds (f t) \<longrightarrow> ih_value h \<noteq> None)" by blast
  then have "ih_object h" "ih_value h \<noteq> None" using r(2) unfolding handle_safe_def by (metis ipc_holds.simps(2) zero_less_numeral)+
  then show ?thesis using r by blast
qed

end
