(* ===== verification/PosixTime.thy ===== *)
theory PosixTime
  imports IpcHandles
begin

text \<open>
  \<^verbatim>\<open>elkodon_bb/posix/src/clock.rs\<close> and \<^verbatim>\<open>adaptive_wait.rs\<close>: reading a clock, sleeping, and waiting for a condition by polling it. What the clocks and the scheduler answer are
  inputs: a loop gets a list with the answers of each round, and \<open>None\<close> says that it is still running when they are used up. Durations are numbers of nanoseconds.
\<close>

section \<open>Clocks\<close>

datatype time_error = TimeClockTypeIsNotSupported | TimeUnknownError os_error

datatype nanosleep_error = InterruptedBySignal nat | DurationOutOfRange | SleepClockTypeIsNotSupported | SleepUnknownError os_error

definition nanosleep_error_from :: "time_error \<Rightarrow> nanosleep_error" where
  "nanosleep_error_from t = (case t of TimeClockTypeIsNotSupported \<Rightarrow> SleepClockTypeIsNotSupported | TimeUnknownError v \<Rightarrow> SleepUnknownError v)"

text \<open>What \<^verbatim>\<open>clock_gettime\<close> returns, and the time it stores. The code takes the returned value for an error number.\<close>

record gettime =
  gt_return :: int
  gt_sec :: u64
  gt_nsec :: u32

definition into_errno :: "int \<Rightarrow> os_error" where
  "into_errno r = (if r = 38 then Enosys else Eother r)"

record posix_time =
  pt_clock :: clock_type
  pt_seconds :: u64
  pt_nanoseconds :: u32

definition now_with_clock :: "clock_type \<Rightarrow> gettime \<Rightarrow> (time_error, posix_time) outcome" where
  "now_with_clock clock a =
     (if gt_return a = 0 then Ok \<lparr>pt_clock = clock, pt_seconds = gt_sec a, pt_nanoseconds = gt_nsec a\<rparr>
      else case into_errno (gt_return a) of Enosys \<Rightarrow> Err TimeClockTypeIsNotSupported | v \<Rightarrow> Err (TimeUnknownError v))"

text \<open>A \<^verbatim>\<open>Duration\<close> has 64 bits of seconds; the operators on it panic when the result does not fit.\<close>

definition duration_add :: "nat \<Rightarrow> nat \<Rightarrow> ('e, nat) outcome" where
  "duration_add a b = (if a + b < 2 ^ 64 * 10 ^ 9 then Ok (a + b) else Panic)"

definition duration_sub :: "nat \<Rightarrow> nat \<Rightarrow> ('e, nat) outcome" where
  "duration_sub a b = (if b \<le> a then Ok (a - b) else Panic)"

definition time_ns :: "posix_time \<Rightarrow> nat" where
  "time_ns t = unat (pt_seconds t) * 10 ^ 9 + unat (pt_nanoseconds t)"

definition as_duration :: "posix_time \<Rightarrow> ('e, nat) outcome" where
  "as_duration t = duration_add (unat (pt_seconds t) * 10 ^ 9) (unat (pt_nanoseconds t))"

definition elapsed :: "posix_time \<Rightarrow> gettime \<Rightarrow> (time_error, nat) outcome" where
  "elapsed t a = obind (now_with_clock (pt_clock t) a) (\<lambda>n. obind (as_duration n) (\<lambda>now. obind (as_duration t) (duration_sub now)))"

text \<open>\<open>sleep\<close> is the answer of \<^verbatim>\<open>clock_nanosleep\<close> for a point in time; when it is interrupted the time that was left comes with it.\<close>

definition nanosleep_with_clock :: "nat \<Rightarrow> clock_type \<Rightarrow> gettime \<Rightarrow> (nat \<Rightarrow> (os_error \<times> nat) option) \<Rightarrow> (nanosleep_error, unit) outcome" where
  "nanosleep_with_clock duration clock a sleep =
     obind (map_err nanosleep_error_from (now_with_clock clock a)) (\<lambda>n. obind (as_duration n) (\<lambda>now. obind (duration_add now duration) (\<lambda>wait_time.
       case sleep wait_time of
         None \<Rightarrow> Ok ()
       | Some (e, time_left) \<Rightarrow> Err (case e of Eintr \<Rightarrow> InterruptedBySignal time_left | Einval \<Rightarrow> DurationOutOfRange | Enotsup \<Rightarrow> SleepClockTypeIsNotSupported | v \<Rightarrow> SleepUnknownError v))))"

section \<open>Polling\<close>

definition ADAPTIVE_WAIT_YIELD_REPETITIONS :: u64 where "ADAPTIVE_WAIT_YIELD_REPETITIONS = 10000"
definition ADAPTIVE_WAIT_INITIAL_REPETITIONS :: u64 where "ADAPTIVE_WAIT_INITIAL_REPETITIONS = 100 + ADAPTIVE_WAIT_YIELD_REPETITIONS"
definition ADAPTIVE_WAIT_INITIAL_WAITING_TIME :: nat where "ADAPTIVE_WAIT_INITIAL_WAITING_TIME = 100 * 1000"
definition ADAPTIVE_WAIT_FINAL_WAITING_TIME :: nat where "ADAPTIVE_WAIT_FINAL_WAITING_TIME = 10 * 1000 * 1000"

datatype adaptive_wait_error = WaitNanosleepError nanosleep_error | WaitTimeError time_error

record adaptive_wait =
  aw_yield_count :: u64
  aw_clock :: clock_type
  aw_start_time :: posix_time

definition adaptive_wait_new :: "clock_type \<Rightarrow> gettime \<Rightarrow> (time_error, adaptive_wait) outcome" where
  "adaptive_wait_new clock a = omap (\<lambda>t. \<lparr>aw_yield_count = 0, aw_clock = clock, aw_start_time = t\<rparr>) (now_with_clock clock a)"

text \<open>The answers one call of \<^verbatim>\<open>wait\<close> gets.\<close>

record wait_answers =
  wa_before :: gettime
  wa_sleep :: "nat \<Rightarrow> (os_error \<times> nat) option"
  wa_after :: gettime

definition waiting_time :: "u64 \<Rightarrow> nat option" where
  "waiting_time yield_count =
     (if yield_count \<le> ADAPTIVE_WAIT_YIELD_REPETITIONS then None
      else Some (if yield_count \<le> ADAPTIVE_WAIT_INITIAL_REPETITIONS then ADAPTIVE_WAIT_INITIAL_WAITING_TIME else ADAPTIVE_WAIT_FINAL_WAITING_TIME))"

definition wait_impl :: "adaptive_wait \<Rightarrow> wait_answers \<Rightarrow> adaptive_wait \<times> (adaptive_wait_error, unit) outcome" where
  "wait_impl w a = (let w' = w\<lparr>aw_yield_count := aw_yield_count w + 1\<rparr> in (w', case waiting_time (aw_yield_count w') of
     None \<Rightarrow> Ok () | Some d \<Rightarrow> map_err WaitNanosleepError (nanosleep_with_clock d (aw_clock w') (wa_before a) (wa_sleep a))))"

definition adaptive_wait :: "adaptive_wait \<Rightarrow> wait_answers \<Rightarrow> adaptive_wait \<times> (adaptive_wait_error, nat) outcome" where
  "adaptive_wait w a = (case wait_impl w a of (w', r) \<Rightarrow> (w', obind r (\<lambda>_. map_err WaitTimeError (elapsed (aw_start_time w') (wa_after a)))))"

datatype 't timed_wait_while_error = AdaptiveWaitFailure adaptive_wait_error | PredicateFailure 't

text \<open>\<^verbatim>\<open>timed_wait_while\<close>; each round has what the predicate returns and the answers for \<^verbatim>\<open>wait\<close>.\<close>

fun timed_wait_while :: "adaptive_wait \<Rightarrow> nat \<Rightarrow> (('t, bool) outcome \<times> wait_answers) list \<Rightarrow> (adaptive_wait \<times> ('t timed_wait_while_error, bool) outcome) option" where
  "timed_wait_while w timeout [] = None"
| "timed_wait_while w timeout ((predicate, a) # rounds) = (case predicate of
     Err e \<Rightarrow> Some (w, Err (PredicateFailure e)) | Panic \<Rightarrow> Some (w, Panic) | UB \<Rightarrow> Some (w, UB)
   | Ok False \<Rightarrow> Some (w, Ok True)
   | Ok True \<Rightarrow> (case adaptive_wait w a of
       (w', Ok d) \<Rightarrow> if timeout < d then Some (w', Ok False) else timed_wait_while w' timeout rounds
     | (w', Err e) \<Rightarrow> Some (w', Err (AdaptiveWaitFailure e)) | (w', Panic) \<Rightarrow> Some (w', Panic) | (w', UB) \<Rightarrow> Some (w', UB)))"

text \<open>\<^verbatim>\<open>wait_while\<close>: the rounds in which the predicate held, and the clock when it did no longer.\<close>

fun wait_while :: "adaptive_wait \<Rightarrow> (bool \<times> wait_answers) list \<Rightarrow> gettime \<Rightarrow> (adaptive_wait \<times> (adaptive_wait_error, nat) outcome) option" where
  "wait_while w [] now = None"
| "wait_while w ((predicate, a) # rounds) now =
     (if \<not> predicate then Some (w, map_err WaitTimeError (elapsed (aw_start_time w) now))
      else case wait_impl w a of
        (w', Ok _) \<Rightarrow> wait_while w' rounds now
      | (w', Err e) \<Rightarrow> Some (w', Err e) | (w', Panic) \<Rightarrow> Some (w', Panic) | (w', UB) \<Rightarrow> Some (w', UB))"

section \<open>Properties\<close>

lemma adaptive_wait_keeps [simp]:
  "aw_start_time (fst (adaptive_wait w a)) = aw_start_time w" "aw_clock (fst (adaptive_wait w a)) = aw_clock w"
  "aw_yield_count (fst (adaptive_wait w a)) = aw_yield_count w + 1"
  by (simp_all add: adaptive_wait_def wait_impl_def Let_def)

text \<open>Answers without failures: the clock does not go back behind the start and the sleeps are neither refused nor interrupted.\<close>

definition good_time :: "nat \<Rightarrow> gettime \<Rightarrow> bool" where
  "good_time start a \<longleftrightarrow> gt_return a = 0 \<and> start \<le> unat (gt_sec a) * 10 ^ 9 + unat (gt_nsec a) \<and> unat (gt_sec a) < 2 ^ 63"

definition good_wait :: "nat \<Rightarrow> wait_answers \<Rightarrow> bool" where
  "good_wait start a \<longleftrightarrow> good_time 0 (wa_before a) \<and> (\<forall>t. wa_sleep a t = None) \<and> good_time start (wa_after a)"

definition clock_value :: "gettime \<Rightarrow> nat" where
  "clock_value a = unat (gt_sec a) * 10 ^ 9 + unat (gt_nsec a)"

lemma now_good: "good_time s a \<Longrightarrow> now_with_clock c a = Ok \<lparr>pt_clock = c, pt_seconds = gt_sec a, pt_nanoseconds = gt_nsec a\<rparr>"
  by (simp add: good_time_def now_with_clock_def)

lemma clock_bound: "unat n < 4294967296" for n :: u32
  using unsigned_less [of n, where 'a = nat] by simp

lemma as_duration_Ok: "unat (pt_seconds t) < 2 ^ 63 \<Longrightarrow> as_duration t = Ok (time_ns t)"
  using clock_bound [of "pt_nanoseconds t"] by (simp add: as_duration_def duration_add_def time_ns_def)

lemma duration_good: "good_time s a \<Longrightarrow> as_duration \<lparr>pt_clock = c, pt_seconds = gt_sec a, pt_nanoseconds = gt_nsec a\<rparr> = Ok (clock_value a)"
  by (subst as_duration_Ok) (simp_all add: good_time_def clock_value_def time_ns_def)

lemma elapsed_good: "good_time (time_ns t) a \<Longrightarrow> unat (pt_seconds t) < 2 ^ 63 \<Longrightarrow> elapsed t a = Ok (clock_value a - time_ns t)"
  by (simp add: elapsed_def now_good duration_good as_duration_Ok duration_sub_def) (simp add: good_time_def clock_value_def)

lemma wait_impl_good:
  assumes "good_wait s a"
  shows "snd (wait_impl w a) = Ok ()"
proof (cases "waiting_time (aw_yield_count w + 1)")
  case (Some d)
  have g: "good_time 0 (wa_before a)" "\<And>t. wa_sleep a t = None" using assms by (auto simp: good_wait_def)
  have "d \<le> 10000000" using Some by (auto simp: waiting_time_def ADAPTIVE_WAIT_INITIAL_WAITING_TIME_def ADAPTIVE_WAIT_FINAL_WAITING_TIME_def split: if_splits)
  moreover have "clock_value (wa_before a) < 2 ^ 63 * 10 ^ 9 + 2 ^ 32"
    using g(1) clock_bound [of "gt_nsec (wa_before a)"] by (auto simp: good_time_def clock_value_def)
  ultimately have "duration_add (clock_value (wa_before a)) d = (Ok (clock_value (wa_before a) + d) :: (nanosleep_error, _) outcome)" by (simp add: duration_add_def)
  then show ?thesis using Some g by (simp add: wait_impl_def Let_def nanosleep_with_clock_def now_good [OF g(1)] duration_good [OF g(1)])
qed (simp add: wait_impl_def Let_def)

lemma adaptive_wait_good:
  assumes "good_wait (time_ns (aw_start_time w)) a" and "unat (pt_seconds (aw_start_time w)) < 2 ^ 63"
  shows "snd (adaptive_wait w a) = Ok (clock_value (wa_after a) - time_ns (aw_start_time w))"
proof -
  have "wait_impl w a = (w\<lparr>aw_yield_count := aw_yield_count w + 1\<rparr>, Ok ())" using wait_impl_good [OF assms(1), of w] by (auto simp: wait_impl_def Let_def split: prod.splits)
  moreover have "elapsed (aw_start_time w) (wa_after a) = Ok (clock_value (wa_after a) - time_ns (aw_start_time w))" using assms by (intro elapsed_good) (simp_all add: good_wait_def)
  ultimately show ?thesis by (simp add: adaptive_wait_def)
qed

text \<open>Waiting with a timeout returns as soon as the predicate does not hold any more or a clock reading is beyond the timeout, whatever comes first, and says which one it was,
  provided that the clock does not go back and the sleeps succeed.\<close>

theorem timed_wait_while_returns:
  assumes "time_ns (aw_start_time w) = s" "unat (pt_seconds (aw_start_time w)) < 2 ^ 63" and "\<forall>r \<in> set rounds. good_wait s (snd r) \<and> fst r \<in> {Ok True, Ok False}"
    and "i < length rounds" and "fst (rounds ! i) = Ok False \<or> timeout < clock_value (wa_after (snd (rounds ! i))) - s"
  shows "\<exists>w' b. timed_wait_while w timeout rounds = Some (w', Ok b)
    \<and> (b \<longleftrightarrow> (\<exists>k < length rounds. fst (rounds ! k) = Ok False \<and> (\<forall>j < k. clock_value (wa_after (snd (rounds ! j))) - s \<le> timeout)))"
  using assms
proof (induction rounds arbitrary: w i)
  case Nil
  then show ?case by simp
next
  case (Cons r rounds)
  obtain p a where r: "r = (p, a)" by fastforce
  show ?case
  proof (cases "p = Ok False")
    case True
    then show ?thesis using r by (auto intro!: exI [of _ 0])
  next
    case False
    then have p: "p = Ok True" "good_wait s a" using Cons.prems(3) r by auto
    obtain w1 where w1: "adaptive_wait w a = (w1, Ok (clock_value (wa_after a) - s))" using adaptive_wait_good [of w a] p(2) Cons.prems(1,2) by (metis prod.collapse)
    have s1: "time_ns (aw_start_time w1) = s" "unat (pt_seconds (aw_start_time w1)) < 2 ^ 63" using adaptive_wait_keeps(1) [of w a] w1 Cons.prems(1,2) by simp_all
    show ?thesis
    proof (cases "timeout < clock_value (wa_after a) - s")
      case True
      then have "timed_wait_while w timeout (r # rounds) = Some (w1, Ok False)" using r p(1) w1 by simp
      moreover have "\<not> (\<exists>k < length (r # rounds). fst ((r # rounds) ! k) = Ok False \<and> (\<forall>j < k. clock_value (wa_after (snd ((r # rounds) ! j))) - s \<le> timeout))"
        using True r p(1) by (auto simp: less_Suc_eq_0_disj)
      ultimately show ?thesis by blast
    next
      case later: False
      then obtain k where k: "i = Suc k" using Cons.prems(5) r p(1) by (cases i) auto
      from Cons.IH [OF s1, of k] Cons.prems k obtain w' b where IH: "timed_wait_while w1 timeout rounds = Some (w', Ok b)"
        "b \<longleftrightarrow> (\<exists>k < length rounds. fst (rounds ! k) = Ok False \<and> (\<forall>j < k. clock_value (wa_after (snd (rounds ! j))) - s \<le> timeout))" by auto
      have "timed_wait_while w timeout (r # rounds) = Some (w', Ok b)" using r p(1) w1 later IH(1) by simp
      moreover have "b \<longleftrightarrow> (\<exists>k < length (r # rounds). fst ((r # rounds) ! k) = Ok False \<and> (\<forall>j < k. clock_value (wa_after (snd ((r # rounds) ! j))) - s \<le> timeout))"
        unfolding IH(2) using r p(1) later by (simp add: Ex_less_Suc2 All_less_Suc2)
      ultimately show ?thesis by blast
    qed
  qed
qed

text \<open>The errors of the clock and what they become: an unsupported clock, which \<^verbatim>\<open>clock_gettime\<close> reports by returning -1, is never reported as such, and a clock that was set back makes
  \<open>elapsed\<close> panic.\<close>

theorem clock_errors:
  shows "gt_return a \<in> {0, -1} \<Longrightarrow> now_with_clock clock a \<noteq> Err TimeClockTypeIsNotSupported"
    and "gt_return a = 0 \<Longrightarrow> unat (gt_sec a) < 2 ^ 63 \<Longrightarrow> unat (pt_seconds t) < 2 ^ 63 \<Longrightarrow> clock_value a < time_ns t \<Longrightarrow> elapsed t a = Panic"
proof -
  show "gt_return a \<in> {0, -1} \<Longrightarrow> now_with_clock clock a \<noteq> Err TimeClockTypeIsNotSupported" by (auto simp: now_with_clock_def into_errno_def)
  assume "gt_return a = 0" "unat (gt_sec a) < 2 ^ 63" "unat (pt_seconds t) < 2 ^ 63" "clock_value a < time_ns t"
  moreover from this(1,2) have "good_time 0 a" by (simp add: good_time_def)
  ultimately show "elapsed t a = Panic" by (simp add: elapsed_def now_good duration_good as_duration_Ok duration_sub_def) (simp add: time_ns_def clock_value_def)
qed

definition quiet_wait :: "u64 \<Rightarrow> wait_answers" where
  "quiet_wait seconds = \<lparr>wa_before = \<lparr>gt_return = 0, gt_sec = seconds, gt_nsec = 0\<rparr>, wa_sleep = (\<lambda>_. None), wa_after = \<lparr>gt_return = 0, gt_sec = seconds, gt_nsec = 0\<rparr>\<rparr>"

theorem timed_wait_while_returns_witness:
  "\<exists>w'. timed_wait_while \<lparr>aw_yield_count = 0, aw_clock = Monotonic, aw_start_time = \<lparr>pt_clock = Monotonic, pt_seconds = 5, pt_nanoseconds = 0\<rparr>\<rparr> (2 * 10 ^ 9)
     [(Ok True :: (unit, bool) outcome, quiet_wait 6), (Ok True, quiet_wait 7), (Ok True, quiet_wait 8), (Ok False, quiet_wait 9)] = Some (w', Ok False)"
proof -
  let ?w = "\<lparr>aw_yield_count = 0, aw_clock = Monotonic, aw_start_time = \<lparr>pt_clock = Monotonic, pt_seconds = 5, pt_nanoseconds = 0\<rparr>\<rparr>"
  let ?rs = "[(Ok True :: (unit, bool) outcome, quiet_wait 6), (Ok True, quiet_wait 7), (Ok True, quiet_wait 8), (Ok False, quiet_wait 9)]"
  have "\<forall>r \<in> set ?rs. good_wait 5000000000 (snd r) \<and> fst r \<in> {Ok True, Ok False}" by (simp add: good_wait_def good_time_def quiet_wait_def)
  moreover have "time_ns (aw_start_time ?w) = 5000000000" "unat (pt_seconds (aw_start_time ?w)) < 2 ^ 63" by (simp_all add: time_ns_def)
  moreover have "2 < length ?rs" "fst (?rs ! 2) = Ok False \<or> 2000000000 < clock_value (wa_after (snd (?rs ! 2))) - 5000000000" by (simp_all add: clock_value_def quiet_wait_def)
  ultimately obtain w' b where w: "timed_wait_while ?w 2000000000 ?rs = Some (w', Ok b)"
    "b \<longleftrightarrow> (\<exists>k < length ?rs. fst (?rs ! k) = Ok False \<and> (\<forall>j < k. clock_value (wa_after (snd (?rs ! j))) - 5000000000 \<le> 2000000000))"
    using timed_wait_while_returns [of ?w 5000000000 ?rs 2 2000000000] by blast
  have "\<not> b"
  proof
    assume b
    then obtain k where k: "k < length ?rs" "fst (?rs ! k) = Ok False" "\<And>j. j < k \<Longrightarrow> clock_value (wa_after (snd (?rs ! j))) - 5000000000 \<le> 2000000000" using w(2) by blast
    then have "k < 4" by simp
    then have "k = 0 \<or> k = 1 \<or> k = 2 \<or> k = 3" by linarith
    with k(2) have "k = 3" by auto
    with k(3) [of 2] show False by (simp add: clock_value_def quiet_wait_def)
  qed
  then show ?thesis using w(1) by auto
qed

end
