(* ===== verification/PosixLocks.thy ===== *)
theory PosixLocks
  imports PosixTime
begin

text \<open>
  The operations of \<^verbatim>\<open>elkodon_bb/posix/src/mutex.rs\<close>, \<^verbatim>\<open>read_write_mutex.rs\<close> and \<^verbatim>\<open>semaphore.rs\<close>: how the answers of the operating system become results. An answer is \<open>None\<close> for success, or
  the error number. The timed variants either hand the timeout to the operating system (\<^verbatim>\<open>ClockType::Realtime\<close>) or poll (\<^verbatim>\<open>ClockType::Monotonic\<close>).

  Named semaphores are modelled with the names and the values that the operating system keeps, so that what several users do with one semaphore can be stated.
\<close>

section \<open>Locks with a timeout\<close>

text \<open>The answers a timed lock gets: the clock, the lock with an absolute timeout, the clock of the adaptive wait, and the rounds of polling.\<close>

record timed_answers =
  ta_now :: gettime
  ta_lock :: "nat \<Rightarrow> os_error option"
  ta_wait_now :: gettime
  ta_rounds :: "(os_error option \<times> gettime \<times> wait_answers) list"

text \<open>The loop that the timed locks have in common. \<open>try\<close> is the lock that does not wait.\<close>

fun poll_lock :: "(os_error option \<Rightarrow> ('e, bool) outcome) \<Rightarrow> ('e \<Rightarrow> 'f) \<Rightarrow> (time_error \<Rightarrow> 'f) \<Rightarrow> (adaptive_wait_error \<Rightarrow> 'f) \<Rightarrow> posix_time \<Rightarrow> nat \<Rightarrow> adaptive_wait
    \<Rightarrow> (os_error option \<times> gettime \<times> wait_answers) list \<Rightarrow> ('f, bool) outcome option" where
  "poll_lock try lock_error time_err wait_error time duration w [] = None"
| "poll_lock try lock_error time_err wait_error time duration w ((a, now, ws) # rounds) = (case try a of
     Ok True \<Rightarrow> Some (Ok True)
   | Ok False \<Rightarrow> (case elapsed time now of
       Ok d \<Rightarrow> if d < duration
         then (case adaptive_wait w ws of
            (w', Ok _) \<Rightarrow> poll_lock try lock_error time_err wait_error time duration w' rounds
          | (w', Err e) \<Rightarrow> Some (Err (wait_error e)) | (w', Panic) \<Rightarrow> Some Panic | (w', UB) \<Rightarrow> Some UB)
         else Some (Ok False)
     | Err e \<Rightarrow> Some (Err (time_err e)) | Panic \<Rightarrow> Some Panic | UB \<Rightarrow> Some UB)
   | Err e \<Rightarrow> Some (Err (lock_error e)) | Panic \<Rightarrow> Some Panic | UB \<Rightarrow> Some UB)"

definition poll_timed_lock :: "(os_error option \<Rightarrow> ('e, bool) outcome) \<Rightarrow> ('e \<Rightarrow> 'f) \<Rightarrow> (time_error \<Rightarrow> 'f) \<Rightarrow> (adaptive_wait_error \<Rightarrow> 'f) \<Rightarrow> clock_type \<Rightarrow> nat
    \<Rightarrow> timed_answers \<Rightarrow> ('f, bool) outcome option" where
  "poll_timed_lock try lock_error time_err wait_error clock duration a =
     (case map_err time_err (now_with_clock Monotonic (ta_now a)) of
        Ok time \<Rightarrow> (case map_err time_err (adaptive_wait_new clock (ta_wait_now a)) of
            Ok w \<Rightarrow> poll_lock try lock_error time_err wait_error time duration w (ta_rounds a)
          | Err e \<Rightarrow> Some (Err e) | Panic \<Rightarrow> Some Panic | UB \<Rightarrow> Some UB)
      | Err e \<Rightarrow> Some (Err e) | Panic \<Rightarrow> Some Panic | UB \<Rightarrow> Some UB)"

text \<open>The absolute timeout for the operating system.\<close>

definition absolute_timeout :: "(time_error \<Rightarrow> 'f) \<Rightarrow> nat \<Rightarrow> gettime \<Rightarrow> ('f, nat) outcome" where
  "absolute_timeout time_err duration now =
     obind (map_err time_err (now_with_clock Realtime now)) (\<lambda>t. obind (as_duration t) (\<lambda>n. duration_add n duration))"

section \<open>Mutex\<close>

text \<open>A result says whether the caller gets a guard; \<open>LockAcquiredButOwnerDied\<close> is an error that contains one.\<close>

datatype mutex_lock_error = ExceededMaximumNumberOfRecursiveLocks | DeadlockDetected | LockAcquiredButOwnerDied | UnrecoverableState | LockUnknownError os_error

datatype mutex_timed_lock_error =
  TimeoutExceedsMaximumSupportedDuration | TimedMutexLockError mutex_lock_error | TimedNanosleepError nanosleep_error | TimedAdaptiveWaitError adaptive_wait_error
| FailureInInternalClockWhileWait time_error

datatype mutex_unlock_error = OwnedByDifferentEntity | UnlockUnknownError os_error

definition mutex_lock_errno :: "os_error \<Rightarrow> mutex_lock_error" where
  "mutex_lock_errno e = (case e of Eagain \<Rightarrow> ExceededMaximumNumberOfRecursiveLocks | Edeadlk \<Rightarrow> DeadlockDetected | Eownerdead \<Rightarrow> LockAcquiredButOwnerDied
     | Enotrecoverable \<Rightarrow> UnrecoverableState | v \<Rightarrow> LockUnknownError v)"

definition mutex_lock :: "os_error option \<Rightarrow> (mutex_lock_error, unit) outcome" where
  "mutex_lock a = (case a of None \<Rightarrow> Ok () | Some e \<Rightarrow> Err (mutex_lock_errno e))"

definition mutex_try_lock :: "os_error option \<Rightarrow> (mutex_lock_error, bool) outcome" where
  "mutex_try_lock a = (case a of
     None \<Rightarrow> Ok True | Some Edeadlk \<Rightarrow> Ok False | Some Ebusy \<Rightarrow> Ok False
   | Some Eagain \<Rightarrow> Err ExceededMaximumNumberOfRecursiveLocks | Some Eownerdead \<Rightarrow> Err LockAcquiredButOwnerDied | Some Enotrecoverable \<Rightarrow> Err UnrecoverableState
   | Some v \<Rightarrow> Err (LockUnknownError v))"

definition mutex_timed_lock_errno :: "os_error option \<Rightarrow> (mutex_timed_lock_error, bool) outcome" where
  "mutex_timed_lock_errno a = (case a of
     None \<Rightarrow> Ok True | Some Etimedout \<Rightarrow> Ok False
   | Some Eagain \<Rightarrow> Err (TimedMutexLockError ExceededMaximumNumberOfRecursiveLocks) | Some Einval \<Rightarrow> Err TimeoutExceedsMaximumSupportedDuration
   | Some Edeadlk \<Rightarrow> Err (TimedMutexLockError DeadlockDetected) | Some Enotrecoverable \<Rightarrow> Err (TimedMutexLockError UnrecoverableState)
   | Some v \<Rightarrow> Err (TimedMutexLockError (LockUnknownError v)))"

definition mutex_timed_lock :: "clock_type \<Rightarrow> nat \<Rightarrow> timed_answers \<Rightarrow> (mutex_timed_lock_error, bool) outcome option" where
  "mutex_timed_lock clock duration a = (case clock of
     Realtime \<Rightarrow> Some (obind (absolute_timeout FailureInInternalClockWhileWait duration (ta_now a)) (\<lambda>timeout. mutex_timed_lock_errno (ta_lock a timeout)))
   | Monotonic \<Rightarrow> poll_timed_lock mutex_try_lock TimedMutexLockError FailureInInternalClockWhileWait TimedAdaptiveWaitError clock duration a)"

definition mutex_release :: "os_error option \<Rightarrow> (mutex_unlock_error, unit) outcome" where
  "mutex_release a = (case a of None \<Rightarrow> Ok () | Some Eperm \<Rightarrow> Err OwnedByDifferentEntity | Some v \<Rightarrow> Err (UnlockUnknownError v))"

definition mutex_guard_drop :: "os_error option \<Rightarrow> ('e, unit) outcome" where
  "mutex_guard_drop a = panic_on_err (mutex_release a)"

datatype prio_ceiling_error = PrioInsufficientPermissions | PrioValueOutOfRange | PrioUnknownError os_error

definition mutex_priority_ceiling :: "os_error + int \<Rightarrow> (prio_ceiling_error, int) outcome" where
  "mutex_priority_ceiling a = (case a of Inr v \<Rightarrow> Ok v | Inl Eperm \<Rightarrow> Err PrioInsufficientPermissions | Inl v \<Rightarrow> Err (PrioUnknownError v))"

definition mutex_set_priority_ceiling :: "(int \<Rightarrow> os_error + int) \<Rightarrow> int \<Rightarrow> (prio_ceiling_error, int) outcome" where
  "mutex_set_priority_ceiling os value = (case os value of Inr v \<Rightarrow> Ok v | Inl Einval \<Rightarrow> Err PrioValueOutOfRange | Inl Eperm \<Rightarrow> Err PrioInsufficientPermissions | Inl v \<Rightarrow> Err (PrioUnknownError v))"

section \<open>ReadWriteMutex\<close>

datatype rw_read_lock_error = MaximumAmountOfReadLocksAcquired | ReadDeadlockConditionDetected | ReadLockUnknownError os_error
datatype rw_write_lock_error = WriteDeadlockConditionDetected | WriteLockUnknownError os_error

datatype 'e rw_timed_lock_error = RwTimeoutExceedsMaximumSupportedDuration | RwLockError 'e | RwAdaptiveWaitError adaptive_wait_error | RwTimeError time_error

definition read_lock_errno :: "os_error \<Rightarrow> rw_read_lock_error" where
  "read_lock_errno e = (case e of Eagain \<Rightarrow> MaximumAmountOfReadLocksAcquired | Edeadlk \<Rightarrow> ReadDeadlockConditionDetected | v \<Rightarrow> ReadLockUnknownError v)"

definition read_lock :: "os_error option \<Rightarrow> (rw_read_lock_error, unit) outcome" where
  "read_lock a = (case a of None \<Rightarrow> Ok () | Some e \<Rightarrow> Err (read_lock_errno e))"

definition read_try_lock :: "os_error option \<Rightarrow> (rw_read_lock_error, bool) outcome" where
  "read_try_lock a = (case a of None \<Rightarrow> Ok True | Some Ebusy \<Rightarrow> Ok False | Some e \<Rightarrow> Err (read_lock_errno e))"

definition read_timed_lock :: "clock_type \<Rightarrow> nat \<Rightarrow> timed_answers \<Rightarrow> (rw_read_lock_error rw_timed_lock_error, bool) outcome option" where
  "read_timed_lock clock timeout a = (case clock of
     Realtime \<Rightarrow> Some (obind (absolute_timeout RwTimeError timeout (ta_now a)) (\<lambda>t. case ta_lock a t of
         None \<Rightarrow> Ok True | Some Etimedout \<Rightarrow> Ok False | Some Einval \<Rightarrow> Err RwTimeoutExceedsMaximumSupportedDuration | Some e \<Rightarrow> Err (RwLockError (read_lock_errno e))))
   | Monotonic \<Rightarrow> poll_timed_lock read_try_lock RwLockError RwTimeError RwAdaptiveWaitError clock timeout a)"

definition write_lock_errno :: "os_error \<Rightarrow> rw_write_lock_error" where
  "write_lock_errno e = (case e of Edeadlk \<Rightarrow> WriteDeadlockConditionDetected | v \<Rightarrow> WriteLockUnknownError v)"

definition write_lock :: "os_error option \<Rightarrow> (rw_write_lock_error, unit) outcome" where
  "write_lock a = (case a of None \<Rightarrow> Ok () | Some e \<Rightarrow> Err (write_lock_errno e))"

definition write_try_lock :: "os_error option \<Rightarrow> (rw_write_lock_error, bool) outcome" where
  "write_try_lock a = (case a of None \<Rightarrow> Ok True | Some Ebusy \<Rightarrow> Ok False | Some e \<Rightarrow> Err (write_lock_errno e))"

definition write_timed_lock :: "clock_type \<Rightarrow> nat \<Rightarrow> timed_answers \<Rightarrow> (rw_write_lock_error rw_timed_lock_error, bool) outcome option" where
  "write_timed_lock clock timeout a = (case clock of
     Realtime \<Rightarrow> Some (obind (absolute_timeout RwTimeError timeout (ta_now a)) (\<lambda>t. case ta_lock a t of
         None \<Rightarrow> Ok True | Some Etimedout \<Rightarrow> Ok False | Some Einval \<Rightarrow> Err RwTimeoutExceedsMaximumSupportedDuration | Some e \<Rightarrow> Err (RwLockError (write_lock_errno e))))
   | Monotonic \<Rightarrow> poll_timed_lock write_try_lock RwLockError RwTimeError RwAdaptiveWaitError clock timeout a)"

definition rw_release :: "os_error option \<Rightarrow> (mutex_unlock_error, unit) outcome" where
  "rw_release a = (case a of None \<Rightarrow> Ok () | Some Eperm \<Rightarrow> Err OwnedByDifferentEntity | Some v \<Rightarrow> Err (UnlockUnknownError v))"

definition rw_guard_drop :: "os_error option \<Rightarrow> ('e, unit) outcome" where
  "rw_guard_drop a = panic_on_err (rw_release a)"

section \<open>The interface of semaphores\<close>

datatype semaphore_post_error = PostOverflow | PostUnknownError os_error
datatype semaphore_wait_error = WaitNotSupported | WaitDeadlockConditionDetected | WaitInterrupt | WaitUnknownError os_error
datatype semaphore_timed_wait_error = WaitingTimeExceedsSystemLimits | SemWaitError semaphore_wait_error | SemAdaptiveWaitError adaptive_wait_error | SemTimeError time_error

definition sem_post :: "os_error option \<Rightarrow> (semaphore_post_error, unit) outcome" where
  "sem_post a = (case a of None \<Rightarrow> Ok () | Some Einval \<Rightarrow> Panic | Some Eoverflow \<Rightarrow> Err PostOverflow | Some v \<Rightarrow> Err (PostUnknownError v))"

definition sem_wait_errno :: "os_error \<Rightarrow> (semaphore_wait_error, 'a) outcome" where
  "sem_wait_errno e = (case e of Einval \<Rightarrow> Panic | Enosys \<Rightarrow> Err WaitNotSupported | Edeadlk \<Rightarrow> Err WaitDeadlockConditionDetected | Eintr \<Rightarrow> Err WaitInterrupt | v \<Rightarrow> Err (WaitUnknownError v))"

definition sem_wait :: "os_error option \<Rightarrow> (semaphore_wait_error, unit) outcome" where
  "sem_wait a = (case a of None \<Rightarrow> Ok () | Some e \<Rightarrow> sem_wait_errno e)"

definition sem_try_wait :: "os_error option \<Rightarrow> (semaphore_wait_error, bool) outcome" where
  "sem_try_wait a = (case a of None \<Rightarrow> Ok True | Some Eagain \<Rightarrow> Ok False | Some e \<Rightarrow> sem_wait_errno e)"

text \<open>The rounds of the adaptive wait: the answer for \<open>sem_try_wait\<close> and those for \<^verbatim>\<open>wait\<close>.\<close>

definition sem_timed_wait :: "clock_type \<Rightarrow> nat \<Rightarrow> gettime \<Rightarrow> (nat \<Rightarrow> os_error option) \<Rightarrow> (os_error option \<times> wait_answers) list \<Rightarrow> (semaphore_timed_wait_error, bool) outcome option" where
  "sem_timed_wait clock timeout now wait rounds = (case clock of
     Monotonic \<Rightarrow> (case map_err SemTimeError (adaptive_wait_new clock now) of
         Ok w \<Rightarrow> map_option (\<lambda>(w', r). map_err (\<lambda>e. case e of PredicateFailure v \<Rightarrow> SemWaitError v | AdaptiveWaitFailure v \<Rightarrow> SemAdaptiveWaitError v) r)
             (timed_wait_while w timeout (map (\<lambda>(a, ws). (omap Not (sem_try_wait a), ws)) rounds))
       | Err e \<Rightarrow> Some (Err e) | Panic \<Rightarrow> Some Panic | UB \<Rightarrow> Some UB)
   | Realtime \<Rightarrow> Some (obind (map_err SemTimeError (now_with_clock clock now)) (\<lambda>t. obind (as_duration t) (\<lambda>n. obind (duration_add timeout n) (\<lambda>wait_time. case wait wait_time of
         None \<Rightarrow> Ok True | Some Etimedout \<Rightarrow> Ok False | Some Einval \<Rightarrow> Err WaitingTimeExceedsSystemLimits | Some Edeadlk \<Rightarrow> Err (SemWaitError WaitDeadlockConditionDetected)
       | Some Eintr \<Rightarrow> Err (SemWaitError WaitInterrupt) | Some v \<Rightarrow> Err (SemWaitError (WaitUnknownError v)))))))"

section \<open>Guards\<close>

text \<open>POSIX: the caller owns the mutex when the call succeeds, and when it reports that the previous owner died.\<close>

definition acquired :: "os_error option \<Rightarrow> bool" where
  "acquired a \<longleftrightarrow> a = None \<or> a = Some Eownerdead"

definition lock_guard :: "(mutex_lock_error, 'a) outcome \<Rightarrow> ('a \<Rightarrow> bool) \<Rightarrow> bool" where
  "lock_guard r g = (case r of Ok x \<Rightarrow> g x | Err e \<Rightarrow> e = LockAcquiredButOwnerDied | _ \<Rightarrow> False)"

definition timed_guard :: "(mutex_timed_lock_error, bool) outcome \<Rightarrow> bool" where
  "timed_guard r = (case r of Ok x \<Rightarrow> x | Err e \<Rightarrow> e = TimedMutexLockError LockAcquiredButOwnerDied | _ \<Rightarrow> False)"

lemma mutex_lock_guard: "lock_guard (mutex_lock a) (\<lambda>_. True) \<longleftrightarrow> acquired a"
  by (cases a; cases "the a") (auto simp: mutex_lock_def mutex_lock_errno_def lock_guard_def acquired_def)

lemma mutex_try_lock_guard: "lock_guard (mutex_try_lock a) id \<longleftrightarrow> acquired a"
  by (cases a; cases "the a") (auto simp: mutex_try_lock_def lock_guard_def acquired_def)

lemma mutex_timed_lock_errno_guard: "timed_guard (mutex_timed_lock_errno a) \<longleftrightarrow> acquired a \<and> a \<noteq> Some Eownerdead"
  by (cases a; cases "the a") (auto simp: mutex_timed_lock_errno_def timed_guard_def acquired_def)

lemma try_lock_cases:
  "mutex_try_lock a = Ok True \<longleftrightarrow> a = None" "mutex_try_lock a = Ok False \<longleftrightarrow> a = Some Ebusy \<or> a = Some Edeadlk"
  "mutex_try_lock a \<noteq> Panic" "mutex_try_lock a \<noteq> UB" "mutex_try_lock a = Err LockAcquiredButOwnerDied \<longleftrightarrow> a = Some Eownerdead"
  by (cases a; cases "the a"; simp add: mutex_try_lock_def)+

text \<open>Polling looks at the mutex once in each round, until one is decisive.\<close>

lemma poll_lock_guard:
  assumes "poll_lock mutex_try_lock TimedMutexLockError te we time duration w rounds = Some r"
    and distinct: "\<And>e. te e \<noteq> TimedMutexLockError LockAcquiredButOwnerDied" "\<And>e. we e \<noteq> TimedMutexLockError LockAcquiredButOwnerDied"
  shows "\<exists>k < length rounds. (\<forall>j < k. \<not> acquired (fst (rounds ! j))) \<and> (timed_guard r \<longleftrightarrow> acquired (fst (rounds ! k)))
    \<and> poll_lock mutex_try_lock TimedMutexLockError te we time duration w (take (Suc k) rounds) = Some r"
  using assms(1)
proof (induction rounds arbitrary: w)
  case (Cons x rounds)
  obtain a now ws where x: "x = (a, now, ws)" by (cases x) auto
  show ?case
  proof (cases "mutex_try_lock a = Ok False \<and> (\<exists>d. elapsed time now = Ok d \<and> d < duration) \<and> is_Ok (snd (adaptive_wait w ws))")
    case True
    then obtain w' d where w': "adaptive_wait w ws = (w', Ok d)" by (cases "adaptive_wait w ws"; cases "snd (adaptive_wait w ws)") auto
    then have "poll_lock mutex_try_lock TimedMutexLockError te we time duration w' rounds = Some r" using Cons.prems x True by auto
    from Cons.IH [OF this] obtain k where k: "k < length rounds" "\<forall>j < k. \<not> acquired (fst (rounds ! j))" "timed_guard r \<longleftrightarrow> acquired (fst (rounds ! k))"
      "poll_lock mutex_try_lock TimedMutexLockError te we time duration w' (take (Suc k) rounds) = Some r" by blast
    have "\<not> acquired a" using True try_lock_cases(2) [of a] by (auto simp: acquired_def)
    then show ?thesis using k x True w' by (intro exI [of _ "Suc k"]) (auto simp: less_Suc_eq_0_disj)
  next
    case False
    have one: "poll_lock mutex_try_lock TimedMutexLockError te we time duration w [x] = Some r"
      using Cons.prems x False by (auto split: outcome.splits bool.splits if_splits prod.splits)
    moreover have "timed_guard r \<longleftrightarrow> acquired a"
      using Cons.prems x False distinct try_lock_cases [of a]
      by (auto simp: timed_guard_def acquired_def split: outcome.splits bool.splits if_splits prod.splits)
    ultimately show ?thesis using x by (intro exI [of _ 0]) simp
  qed
qed simp

text \<open>Lock and try-lock hand out a guard exactly when the caller owns the mutex, and so does a timed lock that polls. A timed lock of the operating system does not: when the previous
  owner died, the mutex is acquired and no guard is returned that could release it.\<close>

theorem mutex_guards_match_ownership:
  shows "lock_guard (mutex_lock a) (\<lambda>_. True) \<longleftrightarrow> acquired a" and "lock_guard (mutex_try_lock a) id \<longleftrightarrow> acquired a"
    and "mutex_timed_lock Monotonic duration t = Some r \<Longrightarrow> is_Ok (now_with_clock Monotonic (ta_now t)) \<Longrightarrow> is_Ok (now_with_clock Monotonic (ta_wait_now t)) \<Longrightarrow>
      \<exists>k < length (ta_rounds t). (\<forall>j < k. \<not> acquired (fst (ta_rounds t ! j))) \<and> (timed_guard r \<longleftrightarrow> acquired (fst (ta_rounds t ! k)))"
    and "absolute_timeout FailureInInternalClockWhileWait duration (ta_now t) = Ok at \<Longrightarrow> ta_lock t at = Some Eownerdead \<Longrightarrow>
      mutex_timed_lock Realtime duration t = Some (Err (TimedMutexLockError (LockUnknownError Eownerdead)))"
proof -
  assume a: "mutex_timed_lock Monotonic duration t = Some r" "is_Ok (now_with_clock Monotonic (ta_now t))" "is_Ok (now_with_clock Monotonic (ta_wait_now t))"
  obtain t0 t1 where t: "now_with_clock Monotonic (ta_now t) = Ok t0" "now_with_clock Monotonic (ta_wait_now t) = Ok t1" using a(2,3)
    by (cases "now_with_clock Monotonic (ta_now t)"; cases "now_with_clock Monotonic (ta_wait_now t)") auto
  from a(1) have "poll_lock mutex_try_lock TimedMutexLockError FailureInInternalClockWhileWait TimedAdaptiveWaitError t0 duration \<lparr>aw_yield_count = 0, aw_clock = Monotonic, aw_start_time = t1\<rparr> (ta_rounds t) = Some r"
    using t by (simp add: mutex_timed_lock_def poll_timed_lock_def adaptive_wait_new_def)
  from poll_lock_guard [OF this]
  show "\<exists>k < length (ta_rounds t). (\<forall>j < k. \<not> acquired (fst (ta_rounds t ! j))) \<and> (timed_guard r \<longleftrightarrow> acquired (fst (ta_rounds t ! k)))" by auto
qed (simp_all add: mutex_lock_guard mutex_try_lock_guard mutex_timed_lock_def mutex_timed_lock_errno_def)

section \<open>Named semaphores\<close>

datatype named_semaphore_error =
  NsInsufficientPermissions | NsInitialValueTooLarge | NsPerProcessFileHandleLimitReached | NsSystemWideFileHandleLimitReached | NsAlreadyExists | NsMaxFilePathLengthExceeded
| NsInterrupt | NsNotSupportForGivenName | NsDoesNotExist | NsNoSpaceLeft | NsUnknownError os_error

datatype unlink_semaphore_mode = IgnoreNonExistingSemaphore | FailWhenSemaphoreDoesNotExist
datatype init_mode = InitCreate | InitOpen | InitTryOpen

text \<open>The semaphores of the operating system: their names and values. \<open>refuse\<close> says which calls it refuses for reasons that have nothing to do with names.\<close>

record sem_os =
  so_names :: "os_path \<Rightarrow> nat option"
  so_values :: "nat \<Rightarrow> nat"
  so_next :: nat

datatype sem_call = SemOpen os_path | SemCreate os_path "32 word" u32 | SemUnlink os_path | SemClose nat

type_synonym refusal = "sem_call \<Rightarrow> os_error option"

definition os_sem_open :: "refusal \<Rightarrow> os_path \<Rightarrow> sem_os \<Rightarrow> os_error + nat" where
  "os_sem_open refuse p s = (case refuse (SemOpen p) of Some e \<Rightarrow> Inl e | None \<Rightarrow> case so_names s p of None \<Rightarrow> Inl Enoent | Some i \<Rightarrow> Inr i)"

definition os_sem_create :: "refusal \<Rightarrow> os_path \<Rightarrow> 32 word \<Rightarrow> u32 \<Rightarrow> sem_os \<Rightarrow> (os_error + nat) \<times> sem_os" where
  "os_sem_create refuse p m v s = (case refuse (SemCreate p m v) of Some e \<Rightarrow> (Inl e, s)
     | None \<Rightarrow> if so_names s p \<noteq> None then (Inl Eexist, s)
       else (Inr (so_next s), s\<lparr>so_names := (so_names s)(p \<mapsto> so_next s), so_values := (so_values s)(so_next s := unat v), so_next := so_next s + 1\<rparr>))"

definition os_sem_unlink :: "refusal \<Rightarrow> os_path \<Rightarrow> sem_os \<Rightarrow> os_error option \<times> sem_os" where
  "os_sem_unlink refuse p s = (case refuse (SemUnlink p) of Some e \<Rightarrow> (Some e, s)
     | None \<Rightarrow> if so_names s p = None then (Some Enoent, s) else (None, s\<lparr>so_names := (so_names s)(p := None)\<rparr>))"

definition SEM_VALUE_MAX :: nat where "SEM_VALUE_MAX = 2147483647"

definition os_sem_post :: "nat \<Rightarrow> sem_os \<Rightarrow> os_error option \<times> sem_os" where
  "os_sem_post i s = (if so_values s i < SEM_VALUE_MAX then (None, s\<lparr>so_values := (so_values s)(i := so_values s i + 1)\<rparr>) else (Some Eoverflow, s))"

definition os_sem_trywait :: "nat \<Rightarrow> sem_os \<Rightarrow> os_error option \<times> sem_os" where
  "os_sem_trywait i s = (if 0 < so_values s i then (None, s\<lparr>so_values := (so_values s)(i := so_values s i - 1)\<rparr>) else (Some Eagain, s))"

record named_semaphore_builder =
  nb_name :: "u8 list"
  nb_initial_value :: u32
  nb_permission :: permission
  nb_clock :: clock_type
  nb_creation_mode :: "creation_mode option"

definition named_semaphore_builder_new :: "u8 list \<Rightarrow> clock_type \<Rightarrow> named_semaphore_builder" where
  "named_semaphore_builder_new name default_clock =
     \<lparr>nb_name = name, nb_initial_value = 0, nb_permission = OWNER_ALL, nb_clock = default_clock, nb_creation_mode = None\<rparr>"

text \<open>\<open>ns_handle\<close> is \<open>None\<close> for \<^verbatim>\<open>SEM_FAILED\<close>.\<close>

record named_semaphore =
  ns_name :: "u8 list"
  ns_handle :: "nat option"
  ns_ownership :: bool
  ns_clock :: clock_type

abbreviation sem_path :: "u8 list \<Rightarrow> os_path" where
  "sem_path name \<equiv> 47 # name"

definition ns_unlink :: "refusal \<Rightarrow> unlink_semaphore_mode \<Rightarrow> named_semaphore \<Rightarrow> sem_os \<Rightarrow> (named_semaphore_error, unit) outcome \<times> sem_os" where
  "ns_unlink refuse mode sem s = (case os_sem_unlink refuse (sem_path (ns_name sem)) s of (a, s') \<Rightarrow> (case a of
       None \<Rightarrow> Ok ()
     | Some Enoent \<Rightarrow> if mode = IgnoreNonExistingSemaphore then Ok () else Err NsAlreadyExists
     | Some Eacces \<Rightarrow> Err NsInsufficientPermissions | Some Enametoolong \<Rightarrow> Err NsMaxFilePathLengthExceeded | Some v \<Rightarrow> Err (NsUnknownError v), s'))"

definition ns_open_errno :: "init_mode \<Rightarrow> os_error \<Rightarrow> (named_semaphore_error, unit) outcome" where
  "ns_open_errno mode e = (case e of
     Enoent \<Rightarrow> if mode = InitTryOpen then Ok () else Err NsDoesNotExist
   | Eacces \<Rightarrow> Err NsInsufficientPermissions | Eexist \<Rightarrow> Err NsAlreadyExists | Eintr \<Rightarrow> Err NsInterrupt | Einval \<Rightarrow> Err NsNotSupportForGivenName
   | Emfile \<Rightarrow> Err NsPerProcessFileHandleLimitReached | Enametoolong \<Rightarrow> Err NsMaxFilePathLengthExceeded | Enfile \<Rightarrow> Err NsSystemWideFileHandleLimitReached
   | Enospc \<Rightarrow> Err NsNoSpaceLeft | v \<Rightarrow> Err (NsUnknownError v))"

definition ns_open :: "refusal \<Rightarrow> permission \<Rightarrow> init_mode \<Rightarrow> u32 \<Rightarrow> named_semaphore \<Rightarrow> sem_os \<Rightarrow> (named_semaphore_error, named_semaphore) outcome \<times> sem_os" where
  "ns_open refuse permission mode initial_value sem s =
     (if MAX_INITIAL_SEMAPHORE_VALUE < initial_value then (Err NsInitialValueTooLarge, s)
      else case (if mode = InitCreate then os_sem_create refuse (sem_path (ns_name sem)) (as_mode permission) initial_value s else (os_sem_open refuse (sem_path (ns_name sem)) s, s)) of
        (Inr i, s') \<Rightarrow> (Ok (sem\<lparr>ns_handle := Some i\<rparr>), s')
      | (Inl e, s') \<Rightarrow> (omap (\<lambda>_. sem\<lparr>ns_handle := None\<rparr>) (ns_open_errno mode e), s'))"

definition named_semaphore_new :: "refusal \<Rightarrow> named_semaphore_builder \<Rightarrow> sem_os \<Rightarrow> (named_semaphore_error, named_semaphore) outcome \<times> sem_os" where
  "named_semaphore_new refuse b s =
     (let new_sem = \<lparr>ns_name = nb_name b, ns_handle = None, ns_ownership = False, ns_clock = nb_clock b\<rparr>;
          owner = new_sem\<lparr>ns_ownership := True\<rparr> in
      case nb_creation_mode b of
        None \<Rightarrow> ns_open refuse NONE InitOpen 0 new_sem s
      | Some PurgeAndCreate \<Rightarrow> (case ns_unlink refuse IgnoreNonExistingSemaphore owner s of
            (Ok _, s') \<Rightarrow> ns_open refuse (nb_permission b) InitCreate (nb_initial_value b) owner s'
          | (Err e, s') \<Rightarrow> (Err e, s') | (Panic, s') \<Rightarrow> (Panic, s') | (UB, s') \<Rightarrow> (UB, s'))
      | Some CreateExclusive \<Rightarrow> ns_open refuse (nb_permission b) InitCreate (nb_initial_value b) owner s
      | Some OpenOrCreate \<Rightarrow> (case ns_open refuse NONE InitTryOpen 0 new_sem s of
            (Err NsDoesNotExist, s') \<Rightarrow> ns_open refuse (nb_permission b) InitCreate (nb_initial_value b) owner s'
          | r \<Rightarrow> r))"

definition named_semaphore_drop :: "refusal \<Rightarrow> named_semaphore \<Rightarrow> sem_os \<Rightarrow> ('e, unit) outcome \<times> sem_os" where
  "named_semaphore_drop refuse sem s = (case ns_handle sem of
     None \<Rightarrow> (Ok (), s)
   | Some i \<Rightarrow> if refuse (SemClose i) \<noteq> None then (Panic, s)
       else if ns_ownership sem then (case ns_unlink refuse FailWhenSemaphoreDoesNotExist sem s of (r, s') \<Rightarrow> (panic_on_err r, s'))
       else (Ok (), s))"

text \<open>The operations of the interface on a named semaphore. The handle \<^verbatim>\<open>SEM_FAILED\<close> is not a semaphore.\<close>

definition ns_post :: "named_semaphore \<Rightarrow> sem_os \<Rightarrow> (semaphore_post_error, unit) outcome \<times> sem_os" where
  "ns_post sem s = (case ns_handle sem of None \<Rightarrow> (UB, s) | Some i \<Rightarrow> (case os_sem_post i s of (a, s') \<Rightarrow> (sem_post a, s')))"

definition ns_try_wait :: "named_semaphore \<Rightarrow> sem_os \<Rightarrow> (semaphore_wait_error, bool) outcome \<times> sem_os" where
  "ns_try_wait sem s = (case ns_handle sem of None \<Rightarrow> (UB, s) | Some i \<Rightarrow> (case os_sem_trywait i s of (a, s') \<Rightarrow> (sem_try_wait a, s')))"

lemmas ns_defs = named_semaphore_new_def ns_open_def ns_open_errno_def ns_unlink_def named_semaphore_drop_def os_sem_open_def os_sem_create_def os_sem_unlink_def Let_def

primrec posts :: "nat \<Rightarrow> named_semaphore \<Rightarrow> sem_os \<Rightarrow> (semaphore_post_error, unit) outcome list \<times> sem_os" where
  "posts 0 sem s = ([], s)"
| "posts (Suc k) sem s = (case ns_post sem s of (r, s') \<Rightarrow> case posts k sem s' of (rs, s'') \<Rightarrow> (r # rs, s''))"

primrec try_waits :: "nat \<Rightarrow> named_semaphore \<Rightarrow> sem_os \<Rightarrow> (semaphore_wait_error, bool) outcome list \<times> sem_os" where
  "try_waits 0 sem s = ([], s)"
| "try_waits (Suc k) sem s = (case ns_try_wait sem s of (r, s') \<Rightarrow> case try_waits k sem s' of (rs, s'') \<Rightarrow> (r # rs, s''))"

lemma posts_count:
  "ns_handle sem = Some i \<Longrightarrow> so_values s i + k \<le> SEM_VALUE_MAX
    \<Longrightarrow> posts k sem s = (replicate k (Ok ()), s\<lparr>so_values := (so_values s)(i := so_values s i + k)\<rparr>)"
  by (induction k arbitrary: s) (simp_all add: ns_post_def os_sem_post_def sem_post_def)

lemma ns_try_wait_value:
  assumes "ns_handle sem = Some i"
  shows "ns_try_wait sem s = (Ok (0 < so_values s i), s\<lparr>so_values := (so_values s)(i := so_values s i - 1)\<rparr>)"
proof (cases "so_values s i")
  case 0
  then have "(so_values s)(i := so_values s i - 1) = so_values s" by auto
  then show ?thesis using assms 0 by (simp add: ns_try_wait_def os_sem_trywait_def sem_try_wait_def)
qed (use assms in \<open>simp add: ns_try_wait_def os_sem_trywait_def sem_try_wait_def\<close>)

lemma try_waits_count:
  assumes "ns_handle sem = Some i"
  shows "try_waits k sem s = (map (\<lambda>j. Ok (j < so_values s i)) [0..<k], s\<lparr>so_values := (so_values s)(i := so_values s i - k)\<rparr>)"
proof (induction k arbitrary: s)
  case 0
  have "(so_values s)(i := so_values s i - 0) = so_values s" by simp
  then show ?case by simp
next
  case (Suc k)
  have m: "map (\<lambda>j. Ok (j < so_values s i)) [0..<Suc k] = Ok (0 < so_values s i) # map (\<lambda>j. Ok (j < so_values s i - 1)) [0..<k]"
    unfolding upt_conv_Cons [OF zero_less_Suc] map_Suc_upt [symmetric] by (simp add: less_diff_conv)
  let ?s = "s\<lparr>so_values := (so_values s)(i := so_values s i - 1)\<rparr>"
  have "so_values ?s i = so_values s i - 1" "?s\<lparr>so_values := (so_values ?s)(i := so_values s i - 1 - k)\<rparr> = s\<lparr>so_values := (so_values s)(i := so_values s i - Suc k)\<rparr>" by simp_all
  then have "try_waits k sem ?s = (map (\<lambda>j. Ok (j < so_values s i - 1)) [0..<k], s\<lparr>so_values := (so_values s)(i := so_values s i - Suc k)\<rparr>)" using Suc.IH [of ?s] by metis
  then show ?case unfolding m by (simp add: ns_try_wait_value [OF assms] del: fun_upd_apply)
qed

text \<open>The life of a named semaphore. The creator of a semaphore owns it, its name is taken, others open the same semaphore, what they post is what can be waited for, and no more; after the
  owner dropped it the name is free and the others can go on.\<close>

theorem named_semaphore_life:
  assumes "nb_creation_mode b = Some CreateExclusive" and "nb_initial_value b \<le> MAX_INITIAL_SEMAPHORE_VALUE" and "so_names s (sem_path (nb_name b)) = None"
    and "unat (nb_initial_value b) + k \<le> SEM_VALUE_MAX"
  defines "refuse \<equiv> (\<lambda>_. None)"
  shows "\<exists>owner s1 user s2 s3 s4. named_semaphore_new refuse b s = (Ok owner, s1) \<and> named_semaphore_new refuse b s1 = (Err NsAlreadyExists, s1)
    \<and> named_semaphore_new refuse (b\<lparr>nb_creation_mode := None\<rparr>) s1 = (Ok user, s1)
    \<and> posts k user s1 = (replicate k (Ok ()), s2) \<and> try_waits m owner s2 = (map (\<lambda>j. Ok (j < unat (nb_initial_value b) + k)) [0..<m], s3)
    \<and> named_semaphore_drop refuse owner s3 = (Ok () :: (unit, unit) outcome, s4) \<and> named_semaphore_new refuse (b\<lparr>nb_creation_mode := None\<rparr>) s4 = (Err NsDoesNotExist, s4)
    \<and> so_names s4 (sem_path (nb_name b)) = None \<and> fst (ns_try_wait user s4) = Ok (m < unat (nb_initial_value b) + k)"
proof -
  let ?v = "unat (nb_initial_value b)" and ?i = "so_next s" and ?p = "sem_path (nb_name b)"
  let ?owner = "\<lparr>ns_name = nb_name b, ns_handle = Some ?i, ns_ownership = True, ns_clock = nb_clock b\<rparr>"
  let ?user = "?owner\<lparr>ns_ownership := False\<rparr>"
  let ?s1 = "s\<lparr>so_names := (so_names s)(?p \<mapsto> ?i), so_values := (so_values s)(?i := ?v), so_next := ?i + 1\<rparr>"
  let ?s2 = "?s1\<lparr>so_values := (so_values s)(?i := ?v + k)\<rparr>" and ?s3 = "?s1\<lparr>so_values := (so_values s)(?i := ?v + k - m)\<rparr>"
  let ?s4 = "?s3\<lparr>so_names := (so_names s)(?p := None)\<rparr>"
  have lt: "\<not> MAX_INITIAL_SEMAPHORE_VALUE < nb_initial_value b" "\<not> MAX_INITIAL_SEMAPHORE_VALUE < 0" using assms(2) by simp_all
  have 1: "named_semaphore_new refuse b s = (Ok ?owner, ?s1)" "named_semaphore_new refuse b ?s1 = (Err NsAlreadyExists, ?s1)"
    "named_semaphore_new refuse (b\<lparr>nb_creation_mode := None\<rparr>) ?s1 = (Ok ?user, ?s1)"
    using assms(1,3) lt by (simp_all add: ns_defs refuse_def)
  have 2: "posts k ?user ?s1 = (replicate k (Ok ()), ?s2)" using assms(4) posts_count [of ?user ?i ?s1 k] by simp
  have 3: "try_waits m ?owner ?s2 = (map (\<lambda>j. Ok (j < ?v + k)) [0..<m], ?s3)" using try_waits_count [of ?owner ?i m ?s2] by simp
  have 4: "named_semaphore_drop refuse ?owner ?s3 = (Ok () :: (unit, unit) outcome, ?s4)" by (simp add: ns_defs refuse_def panic_on_err_def)
  have 5: "named_semaphore_new refuse (b\<lparr>nb_creation_mode := None\<rparr>) ?s4 = (Err NsDoesNotExist, ?s4)" using lt by (simp add: ns_defs refuse_def)
  have 6: "so_names ?s4 ?p = None" "fst (ns_try_wait ?user ?s4) = Ok (m < ?v + k)" by (auto simp: ns_try_wait_def os_sem_trywait_def sem_try_wait_def)
  show ?thesis using 1 2 3 4 5 6 by blast
qed

text \<open>Opening or creating a semaphore that does not exist does neither: the error of the failed attempt to open it is taken for success, so that nothing is created and the caller gets
  a semaphore without a handle, the use of which is undefined behaviour.\<close>

theorem open_or_create_never_creates:
  assumes "nb_creation_mode b = Some OpenOrCreate" and "so_names s (sem_path (nb_name b)) = None" and "refuse (SemOpen (sem_path (nb_name b))) = None"
  shows "\<exists>sem. named_semaphore_new refuse b s = (Ok sem, s) \<and> ns_handle sem = None \<and> ns_post sem s = (UB, s)"
  using assms by (simp add: ns_defs ns_post_def MAX_INITIAL_SEMAPHORE_VALUE_def)

section \<open>Examples\<close>

theorem named_semaphore_life_witness:
  "\<exists>owner s1. named_semaphore_new (\<lambda>_. None) \<lparr>nb_name = [97], nb_initial_value = 1, nb_permission = OWNER_ALL, nb_clock = Monotonic, nb_creation_mode = Some CreateExclusive\<rparr>
     \<lparr>so_names = \<lambda>_. None, so_values = \<lambda>_. 0, so_next = 0\<rparr> = (Ok owner, s1)
   \<and> fst (try_waits 2 owner s1) = [Ok True, Ok False]"
proof -
  let ?b = "\<lparr>nb_name = [97], nb_initial_value = 1, nb_permission = OWNER_ALL, nb_clock = Monotonic, nb_creation_mode = Some CreateExclusive\<rparr>"
  let ?s = "\<lparr>so_names = \<lambda>_. None, so_values = \<lambda>_. 0, so_next = 0\<rparr>"
  from named_semaphore_life [of ?b ?s 0 2] obtain owner s1 s2 s3 where
    "named_semaphore_new (\<lambda>_. None) ?b ?s = (Ok owner, s1)" "s2 = s1" "try_waits 2 owner s2 = (map (\<lambda>j. Ok (j < unat (1 :: u32) + 0)) [0..<2], s3)"
    by (auto simp: MAX_INITIAL_SEMAPHORE_VALUE_def SEM_VALUE_MAX_def)
  then show ?thesis by (intro exI [of _ owner] exI [of _ s1]) (simp add: upt_rec)
qed

end
