(* ===== verification/MessageQueue.thy ===== *)
theory MessageQueue
  imports PosixLocks
begin

text \<open>
  \<^verbatim>\<open>elkodon_bb/posix/src/message_queue.rs\<close>: queues of the operating system that have a name, a capacity and a message size, and hand out the messages with the highest priority first, those
  of equal priority in the order they were sent. \<open>mq_os\<close> is what POSIX says of them; \<open>refuse\<close> says which calls the system refuses for other reasons. A call that waits because the queue
  is full or empty has no result (\<open>None\<close>).
\<close>

section \<open>Message queues of the operating system\<close>

record 'm mq_message =
  mm_priority :: u32
  mm_length :: nat
  mm_value :: 'm

record 'm mq_object =
  mo_maxmsg :: nat
  mo_msgsize :: nat
  mo_messages :: "'m mq_message list"

record 'm mq_os =
  mq_names :: "os_path \<Rightarrow> nat option"
  mq_objects :: "nat \<Rightarrow> 'm mq_object"
  mq_next :: nat

datatype mq_call = MqOpen os_path | MqCreate os_path | MqUnlink os_path | MqSend nat u32 | MqReceive nat

type_synonym mq_refusal = "mq_call \<Rightarrow> os_error option"

definition mq_at :: "nat \<Rightarrow> ('m mq_message list \<Rightarrow> 'm mq_message list) \<Rightarrow> 'm mq_os \<Rightarrow> 'm mq_os" where
  "mq_at i f s = s\<lparr>mq_objects := (mq_objects s)(i := (mq_objects s i)\<lparr>mo_messages := f (mo_messages (mq_objects s i))\<rparr>)\<rparr>"

definition os_mq_create :: "mq_refusal \<Rightarrow> os_path \<Rightarrow> nat \<Rightarrow> nat \<Rightarrow> 'm mq_os \<Rightarrow> (os_error + nat) \<times> 'm mq_os" where
  "os_mq_create refuse p maxmsg msgsize s = (case refuse (MqCreate p) of Some e \<Rightarrow> (Inl e, s)
     | None \<Rightarrow> if mq_names s p \<noteq> None then (Inl Eexist, s)
       else if maxmsg = 0 \<or> msgsize = 0 then (Inl Einval, s)
       else (Inr (mq_next s), s\<lparr>mq_names := (mq_names s)(p \<mapsto> mq_next s),
              mq_objects := (mq_objects s)(mq_next s := \<lparr>mo_maxmsg = maxmsg, mo_msgsize = msgsize, mo_messages = []\<rparr>), mq_next := mq_next s + 1\<rparr>))"

definition os_mq_open :: "mq_refusal \<Rightarrow> os_path \<Rightarrow> 'm mq_os \<Rightarrow> os_error + nat" where
  "os_mq_open refuse p s = (case refuse (MqOpen p) of Some e \<Rightarrow> Inl e | None \<Rightarrow> case mq_names s p of None \<Rightarrow> Inl Enoent | Some i \<Rightarrow> Inr i)"

definition os_mq_unlink :: "mq_refusal \<Rightarrow> os_path \<Rightarrow> 'm mq_os \<Rightarrow> os_error option \<times> 'm mq_os" where
  "os_mq_unlink refuse p s = (case refuse (MqUnlink p) of Some e \<Rightarrow> (Some e, s)
     | None \<Rightarrow> if mq_names s p = None then (Some Enoent, s) else (None, s\<lparr>mq_names := (mq_names s)(p := None)\<rparr>))"

text \<open>The error numbers \<^verbatim>\<open>EMSGSIZE\<close> and \<^verbatim>\<open>EBADMSG\<close>.\<close>

definition Emsgsize :: os_error where "Emsgsize = Eother 90"
definition Ebadmsg :: os_error where "Ebadmsg = Eother 74"

text \<open>The place of a message: behind all messages of the same or a higher priority.\<close>

definition enqueue :: "'m mq_message \<Rightarrow> 'm mq_message list \<Rightarrow> 'm mq_message list" where
  "enqueue m ms = takeWhile (\<lambda>x. mm_priority m \<le> mm_priority x) ms @ m # dropWhile (\<lambda>x. mm_priority m \<le> mm_priority x) ms"

definition os_mq_send :: "mq_refusal \<Rightarrow> bool \<Rightarrow> nat \<Rightarrow> 'm mq_message \<Rightarrow> 'm mq_os \<Rightarrow> (os_error option \<times> 'm mq_os) option" where
  "os_mq_send refuse nonblock i m s = (case refuse (MqSend i (mm_priority m)) of Some e \<Rightarrow> Some (Some e, s)
     | None \<Rightarrow> if length (mo_messages (mq_objects s i)) < mo_maxmsg (mq_objects s i) then Some (None, mq_at i (enqueue m) s)
       else if nonblock then Some (Some Eagain, s) else None)"

definition os_mq_receive :: "mq_refusal \<Rightarrow> bool \<Rightarrow> nat \<Rightarrow> nat \<Rightarrow> 'm mq_os \<Rightarrow> ((os_error + 'm mq_message) \<times> 'm mq_os) option" where
  "os_mq_receive refuse nonblock i len s = (case refuse (MqReceive i) of Some e \<Rightarrow> Some (Inl e, s)
     | None \<Rightarrow> if len < mo_msgsize (mq_objects s i) then Some (Inl Emsgsize, s)
       else case mo_messages (mq_objects s i) of
         [] \<Rightarrow> if nonblock then Some (Inl Eagain, s) else None
       | m # ms \<Rightarrow> Some (Inr m, mq_at i tl s))"

section \<open>MessageQueue\<close>

datatype mq_remove_error = MqRemovePermissionDenied | MqRemoveDoesNotExist | MqRemoveInterrupt | MqRemoveUnknownError os_error

datatype mq_open_error =
  MqDoesNotExist | MqOpenInterrupt | MqOpenPermissionDenied | MqOpenPerProcessFileHandleLimitReached | MqOpenSystemLimitReached | CapacitySmallerThanRequired | MessageSizeDoesNotFit
| MqOpenUnknownError os_error

datatype mq_creation_error =
  MqAlreadyExist | MqPermissionDenied | MqInterrupt | InvalidMessageSizeOrNumberOfMessages | MqPerProcessFileHandleLimitReached | MqSystemLimitReached | MqOutOfResources
| MqUnknownError os_error | MqRemoveFailure mq_remove_error | MqOpenFailure mq_open_error

datatype mq_send_error = MqQueueIsFull | MqSendInterrupt | PriorityIsInvalid | MqSendUnknownError os_error
datatype mq_receive_error = CorruptedMessageReceived | MessageSizeInconsistencies | MqReceiveInterrupt | MqReceiveUnknownError os_error

definition DEFAULT_MESSAGE_QUEUE_CAPACITY :: usize where "DEFAULT_MESSAGE_QUEUE_CAPACITY = 8"

record mq_builder =
  qb_name :: "u8 list"
  qb_capacity :: usize
  qb_max_message_size :: usize
  qb_clock :: clock_type

definition mq_builder_new :: "u8 list \<Rightarrow> clock_type \<Rightarrow> mq_builder" where
  "mq_builder_new name default_clock = \<lparr>qb_name = name, qb_capacity = DEFAULT_MESSAGE_QUEUE_CAPACITY, qb_max_message_size = 0, qb_clock = default_clock\<rparr>"

record message_queue =
  mq_mqdes :: nat
  mq_name :: "u8 list"
  mq_capacity :: usize
  mq_has_ownership :: bool
  mq_is_non_blocking :: bool
  mq_clock :: clock_type

definition add_slash :: "u8 list \<Rightarrow> os_path" where
  "add_slash name = 47 # name"

definition mq_create_errno :: "os_error \<Rightarrow> mq_creation_error" where
  "mq_create_errno e = (case e of Eexist \<Rightarrow> MqAlreadyExist | Eacces \<Rightarrow> MqPermissionDenied | Eintr \<Rightarrow> MqInterrupt | Einval \<Rightarrow> InvalidMessageSizeOrNumberOfMessages
     | Emfile \<Rightarrow> MqPerProcessFileHandleLimitReached | Enfile \<Rightarrow> MqSystemLimitReached | Enospc \<Rightarrow> MqOutOfResources | v \<Rightarrow> MqUnknownError v)"

definition mq_create :: "mq_refusal \<Rightarrow> mq_builder \<Rightarrow> 'm mq_os \<Rightarrow> (mq_creation_error, nat) outcome \<times> 'm mq_os" where
  "mq_create refuse b s = (case os_mq_create refuse (add_slash (qb_name b)) (qb_capacity b) (qb_max_message_size b) s of
     (Inr i, s') \<Rightarrow> (Ok i, s') | (Inl e, s') \<Rightarrow> (Err (mq_create_errno e), s'))"

definition mq_open_errno :: "os_error \<Rightarrow> mq_open_error" where
  "mq_open_errno e = (case e of Enoent \<Rightarrow> MqDoesNotExist | Eacces \<Rightarrow> MqOpenPermissionDenied | Eintr \<Rightarrow> MqOpenInterrupt
     | Emfile \<Rightarrow> MqOpenPerProcessFileHandleLimitReached | Enfile \<Rightarrow> MqOpenSystemLimitReached | v \<Rightarrow> MqOpenUnknownError v)"

text \<open>The descriptor, and the builder with the capacity that was found.\<close>

definition mq_open :: "mq_refusal \<Rightarrow> mq_builder \<Rightarrow> 'm mq_os \<Rightarrow> (mq_open_error, nat \<times> mq_builder) outcome" where
  "mq_open refuse b s = (case os_mq_open refuse (add_slash (qb_name b)) s of
     Inr i \<Rightarrow>
       (let existing_attr = mq_objects s i in
        if mo_maxmsg existing_attr < qb_capacity b then Err CapacitySmallerThanRequired
        else if mo_msgsize existing_attr \<noteq> qb_max_message_size b then Err MessageSizeDoesNotFit
        else Ok (i, b\<lparr>qb_capacity := mo_maxmsg existing_attr\<rparr>))
   | Inl e \<Rightarrow> Err (mq_open_errno e))"

definition mq_unlink :: "mq_refusal \<Rightarrow> u8 list \<Rightarrow> 'm mq_os \<Rightarrow> (mq_remove_error, unit) outcome \<times> 'm mq_os" where
  "mq_unlink refuse name s = (case os_mq_unlink refuse (add_slash name) s of
     (None, s') \<Rightarrow> (Ok (), s')
   | (Some e, s') \<Rightarrow> (Err (case e of Enoent \<Rightarrow> MqRemoveDoesNotExist | Eacces \<Rightarrow> MqRemovePermissionDenied | Eintr \<Rightarrow> MqRemoveInterrupt | v \<Rightarrow> MqRemoveUnknownError v), s'))"

definition message_queue_of :: "nat \<Rightarrow> bool \<Rightarrow> mq_builder \<Rightarrow> message_queue" where
  "message_queue_of mqdes has_ownership b =
     \<lparr>mq_mqdes = mqdes, mq_name = qb_name b, mq_capacity = qb_capacity b, mq_has_ownership = has_ownership, mq_is_non_blocking = False, mq_clock = qb_clock b\<rparr>"

text \<open>\<^verbatim>\<open>internal::MessageQueue::create\<close>.\<close>

definition message_queue_create :: "mq_refusal \<Rightarrow> mq_builder \<Rightarrow> creation_mode \<Rightarrow> 'm mq_os \<Rightarrow> (mq_creation_error, message_queue) outcome \<times> 'm mq_os" where
  "message_queue_create refuse b mode s =
     (let created = (\<lambda>s. case mq_create refuse b s of (r, s') \<Rightarrow> (omap (\<lambda>i. message_queue_of i True b) r, s')) in
      case mode of
        CreateExclusive \<Rightarrow> created s
      | PurgeAndCreate \<Rightarrow> (case mq_unlink refuse (qb_name b) s of
            (Err MqRemoveDoesNotExist, s') \<Rightarrow> created s' | (Err e, s') \<Rightarrow> (Err (MqRemoveFailure e), s')
          | (Ok _, s') \<Rightarrow> created s' | (Panic, s') \<Rightarrow> (Panic, s') | (UB, s') \<Rightarrow> (UB, s'))
      | OpenOrCreate \<Rightarrow> (case mq_open refuse b s of
            Ok (i, b') \<Rightarrow> (Ok (message_queue_of i False b'), s) | Err MqDoesNotExist \<Rightarrow> created s | Err e \<Rightarrow> (Err (MqOpenFailure e), s) | Panic \<Rightarrow> (Panic, s) | UB \<Rightarrow> (UB, s)))"

definition message_queue_open :: "mq_refusal \<Rightarrow> mq_builder \<Rightarrow> 'm mq_os \<Rightarrow> (mq_open_error, message_queue) outcome" where
  "message_queue_open refuse b s = omap (\<lambda>(i, b'). message_queue_of i False b') (mq_open refuse b s)"

text \<open>\<^verbatim>\<open>Drop\<close>: the removal of an owner is attempted, a failure is only logged; closing the descriptor changes nothing that others can see.\<close>

definition message_queue_drop :: "mq_refusal \<Rightarrow> message_queue \<Rightarrow> 'm mq_os \<Rightarrow> 'm mq_os" where
  "message_queue_drop refuse q s = (if mq_has_ownership q then snd (mq_unlink refuse (mq_name q) s) else s)"

text \<open>\<^verbatim>\<open>MessageQueueDuplex<T>\<close>, \<^verbatim>\<open>MessageQueueSender<T>\<close> and \<^verbatim>\<open>MessageQueueReceiver<T>\<close>, which differ in what they may do; \<open>size_of\<close> is the size of \<^verbatim>\<open>T\<close>.\<close>

definition duplex_create :: "mq_refusal \<Rightarrow> usize \<Rightarrow> mq_builder \<Rightarrow> creation_mode \<Rightarrow> 'm mq_os \<Rightarrow> (mq_creation_error, message_queue) outcome \<times> 'm mq_os" where
  "duplex_create refuse size_of b mode s = message_queue_create refuse (b\<lparr>qb_max_message_size := size_of\<rparr>) mode s"

definition duplex_open :: "mq_refusal \<Rightarrow> usize \<Rightarrow> mq_builder \<Rightarrow> 'm mq_os \<Rightarrow> (mq_open_error, message_queue) outcome" where
  "duplex_open refuse size_of b s = message_queue_open refuse (b\<lparr>qb_max_message_size := size_of\<rparr>) s"

definition does_message_queue_exist :: "mq_refusal \<Rightarrow> usize \<Rightarrow> clock_type \<Rightarrow> u8 list \<Rightarrow> 'm mq_os \<Rightarrow> (mq_open_error, bool) outcome" where
  "does_message_queue_exist refuse size_of default_clock name s = (case duplex_open refuse size_of (mq_builder_new name default_clock) s of
     Ok _ \<Rightarrow> Ok True | Err MqDoesNotExist \<Rightarrow> Ok False | Err v \<Rightarrow> Err v | Panic \<Rightarrow> Panic | UB \<Rightarrow> UB)"

definition remove_message_queue :: "mq_refusal \<Rightarrow> u8 list \<Rightarrow> 'm mq_os \<Rightarrow> (mq_remove_error, unit) outcome \<times> 'm mq_os" where
  "remove_message_queue refuse name s = mq_unlink refuse name s"

definition mq_set_nonblock :: "bool \<Rightarrow> message_queue \<Rightarrow> message_queue" where
  "mq_set_nonblock is_non_blocking q = (if mq_is_non_blocking q = is_non_blocking then q else q\<lparr>mq_is_non_blocking := is_non_blocking\<rparr>)"

definition mq_send_errno :: "os_error option \<Rightarrow> (mq_send_error, bool) outcome" where
  "mq_send_errno a = (case a of None \<Rightarrow> Ok True | Some Eagain \<Rightarrow> Ok False | Some Eintr \<Rightarrow> Err MqSendInterrupt | Some Einval \<Rightarrow> Err PriorityIsInvalid | Some v \<Rightarrow> Err (MqSendUnknownError v))"

definition send_with_prio :: "mq_refusal \<Rightarrow> usize \<Rightarrow> 'm \<Rightarrow> u32 \<Rightarrow> bool \<Rightarrow> message_queue \<Rightarrow> 'm mq_os \<Rightarrow> ((mq_send_error, bool) outcome \<times> message_queue \<times> 'm mq_os) option" where
  "send_with_prio refuse size_of value prio is_non_blocking q s =
     (let q' = mq_set_nonblock is_non_blocking q in
      map_option (\<lambda>(a, s'). (mq_send_errno a, q', s')) (os_mq_send refuse (mq_is_non_blocking q') (mq_mqdes q') \<lparr>mm_priority = prio, mm_length = size_of, mm_value = value\<rparr> s))"

definition receive_errno :: "os_error \<Rightarrow> (mq_receive_error, 'a option) outcome" where
  "receive_errno e = (if e = Eagain then Ok None else if e = Emsgsize then Err MessageSizeInconsistencies else if e = Eintr then Err MqReceiveInterrupt
     else if e = Ebadmsg then Err CorruptedMessageReceived else Err (MqReceiveUnknownError e))"

definition internal_receive :: "mq_refusal \<Rightarrow> usize \<Rightarrow> bool \<Rightarrow> message_queue \<Rightarrow> 'm mq_os
    \<Rightarrow> ((mq_receive_error, 'm mq_message option) outcome \<times> message_queue \<times> 'm mq_os) option" where
  "internal_receive refuse size_of is_non_blocking q s =
     (let q' = mq_set_nonblock is_non_blocking q in
      map_option (\<lambda>(a, s'). (case a of Inr m \<Rightarrow> if mm_length m \<noteq> size_of then Err CorruptedMessageReceived else Ok (Some m) | Inl e \<Rightarrow> receive_errno e, q', s'))
        (os_mq_receive refuse (mq_is_non_blocking q') (mq_mqdes q') size_of s))"

definition mq_try_send :: "mq_refusal \<Rightarrow> usize \<Rightarrow> 'm \<Rightarrow> u32 \<Rightarrow> message_queue \<Rightarrow> 'm mq_os \<Rightarrow> ((mq_send_error, bool) outcome \<times> message_queue \<times> 'm mq_os) option" where
  "mq_try_send refuse size_of value prio q s = send_with_prio refuse size_of value prio True q s"

definition mq_blocking_send :: "mq_refusal \<Rightarrow> usize \<Rightarrow> 'm \<Rightarrow> u32 \<Rightarrow> message_queue \<Rightarrow> 'm mq_os \<Rightarrow> ((mq_send_error, unit) outcome \<times> message_queue \<times> 'm mq_os) option" where
  "mq_blocking_send refuse size_of value prio q s = map_option (\<lambda>(r, x). (omap (\<lambda>_. ()) r, x)) (send_with_prio refuse size_of value prio False q s)"

definition mq_try_receive :: "mq_refusal \<Rightarrow> usize \<Rightarrow> message_queue \<Rightarrow> 'm mq_os \<Rightarrow> ((mq_receive_error, 'm mq_message option) outcome \<times> message_queue \<times> 'm mq_os) option" where
  "mq_try_receive refuse size_of q s = internal_receive refuse size_of True q s"

definition mq_blocking_receive :: "mq_refusal \<Rightarrow> usize \<Rightarrow> message_queue \<Rightarrow> 'm mq_os \<Rightarrow> ((mq_receive_error, 'm mq_message) outcome \<times> message_queue \<times> 'm mq_os) option" where
  "mq_blocking_receive refuse size_of q s = map_option (\<lambda>(r, x). (obind r (\<lambda>m. case m of None \<Rightarrow> Panic | Some m \<Rightarrow> Ok m), x)) (internal_receive refuse size_of False q s)"

definition mq_len :: "message_queue \<Rightarrow> 'm mq_os \<Rightarrow> nat" where
  "mq_len q s = length (mo_messages (mq_objects s (mq_mqdes q)))"

definition mq_is_empty :: "message_queue \<Rightarrow> 'm mq_os \<Rightarrow> bool" where
  "mq_is_empty q s \<longleftrightarrow> mq_len q s = 0"

datatype mq_timed_send_error = TimedMqSendError mq_send_error | TimedMqNanosleepError nanosleep_error | TimedMqAdaptiveWaitError adaptive_wait_error | TimedMqTimeError time_error

definition timed_send_errno :: "os_error option \<Rightarrow> (mq_timed_send_error, bool) outcome" where
  "timed_send_errno a = (case a of None \<Rightarrow> Ok True | Some Eagain \<Rightarrow> Ok False | Some Etimedout \<Rightarrow> Ok False | Some Eintr \<Rightarrow> Err (TimedMqSendError MqSendInterrupt)
     | Some Einval \<Rightarrow> Err (TimedMqSendError PriorityIsInvalid) | Some v \<Rightarrow> Err (TimedMqSendError (MqSendUnknownError v)))"

text \<open>\<^verbatim>\<open>timed_send_with_prio\<close> on the answers of the system; \<^verbatim>\<open>mq_timedsend\<close> gets the duration as it is.\<close>

definition timed_send_with_prio :: "clock_type \<Rightarrow> nat \<Rightarrow> timed_answers \<Rightarrow> (mq_timed_send_error, bool) outcome option" where
  "timed_send_with_prio clock timeout a = (case clock of
     Realtime \<Rightarrow> Some (timed_send_errno (ta_lock a timeout))
   | Monotonic \<Rightarrow> poll_timed_lock mq_send_errno TimedMqSendError TimedMqTimeError TimedMqAdaptiveWaitError Monotonic timeout a)"

section \<open>Properties\<close>

text \<open>The messages of a queue are ordered by priority.\<close>

lemma enqueue_sorted: "sorted_wrt (\<lambda>x y. mm_priority y \<le> mm_priority x) ms \<Longrightarrow> sorted_wrt (\<lambda>x y. mm_priority y \<le> mm_priority x) (enqueue m ms)"
proof (induction ms)
  case (Cons x ms)
  then show ?case
    by (auto simp: enqueue_def dest: set_takeWhileD set_dropWhileD intro: order_trans)
qed (simp add: enqueue_def)

lemma enqueue_length [simp]: "length (enqueue m ms) = Suc (length ms)"
  unfolding enqueue_def by (metis add_Suc_right length_Cons length_append takeWhile_dropWhile_id)

lemma enqueue_same: "(\<And>x. x \<in> set ms \<Longrightarrow> mm_priority x = mm_priority m) \<Longrightarrow> enqueue m ms = ms @ [m]"
  by (simp add: enqueue_def takeWhile_eq_all_conv [THEN iffD2] dropWhile_eq_Nil_conv [THEN iffD2])

abbreviation by_priority :: "'m mq_message list \<Rightarrow> bool" where
  "by_priority \<equiv> sorted_wrt (\<lambda>x y. mm_priority y \<le> mm_priority x)"

definition mq_invar :: "'m mq_os \<Rightarrow> bool" where
  "mq_invar s \<longleftrightarrow> (\<forall>p i. mq_names s p = Some i \<longrightarrow> i < mq_next s)
     \<and> (\<forall>i < mq_next s. by_priority (mo_messages (mq_objects s i)) \<and> length (mo_messages (mq_objects s i)) \<le> mo_maxmsg (mq_objects s i) \<and> 0 < mo_maxmsg (mq_objects s i))"

lemma mq_send_invar: "mq_invar s \<Longrightarrow> send_with_prio refuse size_of v prio nb q s = Some (r, q', s') \<Longrightarrow> mq_invar s'"
  by (auto simp: mq_invar_def send_with_prio_def Let_def os_mq_send_def mq_at_def enqueue_sorted split: option.splits if_splits)

lemma mq_receive_invar: "mq_invar s \<Longrightarrow> internal_receive refuse size_of nb q s = Some (r, q', s') \<Longrightarrow> mq_invar s'"
  by (fastforce simp: mq_invar_def internal_receive_def Let_def os_mq_receive_def mq_at_def split: option.splits if_splits list.splits)

lemma mq_create_invar: "mq_invar s \<Longrightarrow> mq_create refuse b s = (r, s') \<Longrightarrow> mq_invar s'"
  by (fastforce simp: mq_invar_def mq_create_def os_mq_create_def less_Suc_eq split: option.splits if_splits sum.splits)

lemma mq_unlink_invar: "mq_invar s \<Longrightarrow> mq_unlink refuse name s = (r, s') \<Longrightarrow> mq_invar s'"
  by (fastforce simp: mq_invar_def mq_unlink_def os_mq_unlink_def split: option.splits if_splits)

text \<open>A message that is sent behaves like this: it is refused only when the queue is full; the one that is received has the highest priority of all, and is the oldest of these.\<close>

theorem message_queue_order:
  assumes "mq_invar s" and "mq_mqdes q < mq_next s" and "\<forall>m \<in> set (mo_messages (mq_objects s (mq_mqdes q))). mm_length m = size_of" and "size_of = mo_msgsize (mq_objects s (mq_mqdes q))"
  defines "ms \<equiv> mo_messages (mq_objects s (mq_mqdes q))"
  shows "\<exists>s'. mq_try_send (\<lambda>_. None) size_of v prio q s = Some (Ok (length ms < mo_maxmsg (mq_objects s (mq_mqdes q))), mq_set_nonblock True q, s')
      \<and> (if length ms < mo_maxmsg (mq_objects s (mq_mqdes q))
         then mo_messages (mq_objects s' (mq_mqdes q)) = enqueue \<lparr>mm_priority = prio, mm_length = size_of, mm_value = v\<rparr> ms else s' = s) \<and> mq_invar s'"
    and "\<exists>s'. mq_try_receive (\<lambda>_. None) size_of q s = Some (Ok (case ms of [] \<Rightarrow> None | m # _ \<Rightarrow> Some m), mq_set_nonblock True q, s')
      \<and> mo_messages (mq_objects s' (mq_mqdes q)) = tl ms \<and> mq_invar s' \<and> (\<forall>m \<in> set ms. mm_priority m \<le> mm_priority (hd ms))"
proof -
  have "mq_is_non_blocking (mq_set_nonblock True q)" "mq_mqdes (mq_set_nonblock True q) = mq_mqdes q" by (simp_all add: mq_set_nonblock_def)
  note nb = this
  show "\<exists>s'. mq_try_send (\<lambda>_. None) size_of v prio q s = Some (Ok (length ms < mo_maxmsg (mq_objects s (mq_mqdes q))), mq_set_nonblock True q, s')
      \<and> (if length ms < mo_maxmsg (mq_objects s (mq_mqdes q))
         then mo_messages (mq_objects s' (mq_mqdes q)) = enqueue \<lparr>mm_priority = prio, mm_length = size_of, mm_value = v\<rparr> ms else s' = s) \<and> mq_invar s'"
    using mq_send_invar [OF assms(1), of "\<lambda>_. None" size_of v prio True q] nb
    by (auto simp: mq_try_send_def send_with_prio_def Let_def os_mq_send_def ms_def mq_send_errno_def mq_at_def)
  have "by_priority ms" using assms(1,2) by (simp add: mq_invar_def ms_def)
  then have hd: "\<forall>m \<in> set ms. mm_priority m \<le> mm_priority (hd ms)" by (cases ms) auto
  show "\<exists>s'. mq_try_receive (\<lambda>_. None) size_of q s = Some (Ok (case ms of [] \<Rightarrow> None | m # _ \<Rightarrow> Some m), mq_set_nonblock True q, s')
      \<and> mo_messages (mq_objects s' (mq_mqdes q)) = tl ms \<and> mq_invar s' \<and> (\<forall>m \<in> set ms. mm_priority m \<le> mm_priority (hd ms))"
  proof (cases ms)
    case Nil
    then show ?thesis using nb assms(1,4) by (simp add: mq_try_receive_def internal_receive_def Let_def os_mq_receive_def ms_def receive_errno_def)
  next
    case (Cons m rest)
    then have l: "mm_length m = size_of" using assms(3) by (simp add: ms_def)
    have "mq_invar (mq_at (mq_mqdes q) tl s)" using mq_receive_invar [OF assms(1), of "\<lambda>_. None" size_of True q] Cons nb assms(4)
      by (simp add: internal_receive_def Let_def os_mq_receive_def ms_def)
    then show ?thesis using Cons nb l hd assms(4)
      by (simp add: mq_try_receive_def internal_receive_def Let_def os_mq_receive_def ms_def) (simp add: mq_at_def)
  qed
qed

end
