(* ===== verification/MessageQueueChannel.thy ===== *)
theory MessageQueueChannel
  imports CommunicationChannel MessageQueue
begin

text \<open>
  \<^verbatim>\<open>elkodon_cal/src/communication_channel/message_queue.rs\<close>: the third kind of communication channel, a message queue of the operating system with a shared memory of the same name that
  holds the settings of the channel. It is an interpretation of \<open>channel_provider\<close> as long as the calls of the sender and the receiver do not overlap. The loop of \<^verbatim>\<open>try_send\<close>
  takes what others do to the queue between its steps as an argument, which shows what happens when they do.
\<close>

section \<open>Model\<close>

record shared_configuration =
  sc_has_safe_overflow :: bool
  sc_buffer_size :: usize

record mqc_state =
  ms_os :: "shared_configuration os_state"
  ms_mq :: "nat mq_os"

text \<open>\<^verbatim>\<open>Sender\<close> and \<^verbatim>\<open>Receiver\<close>. The settings are read through \<^verbatim>\<open>shared_config_ptr\<close>, which points into the shared memory.\<close>

record mqc_handle =
  mh_name :: byte_string
  mh_queue :: message_queue
  mh_shm :: shared_memory

text \<open>The settings of the process and the system: the size of \<^verbatim>\<open>T\<close> and of \<^verbatim>\<open>SharedConfiguration\<close>, the default clock, and what is refused.\<close>

record mqc_env =
  me_size_of :: usize
  me_config_size :: usize
  me_clock :: clock_type
  me_refuse :: mq_refusal
  me_umask :: "32 word"
  me_process :: nat

abbreviation run_me :: "mqc_env \<Rightarrow> (shared_configuration, 'r) sys_prog \<Rightarrow> shared_configuration os_state \<Rightarrow> 'r \<times> shared_configuration os_state" where
  "run_me E \<equiv> run_os (me_umask E) (me_process E)"

text \<open>The shared memory of a new channel.\<close>

definition mqc_setup :: "u8 list \<Rightarrow> usize \<Rightarrow> shared_configuration \<Rightarrow> (shared_configuration, (channel_create_error, shared_memory) outcome) sys_prog" where
  "mqc_setup full_name config_size c =
     pbind (shm_create_memory ((shm_creation_mode CreateExclusive (shm_builder_new full_name))\<lparr>sh_permission := OWNER_WRITE, sh_size := config_size\<rparr>)) (\<lambda>r. case r of
       Ok m \<Rightarrow> Call (Sys_memory (sm_file_descriptor m) (\<lambda>_. (Some c, True))) (\<lambda>_.
         pbind (fd_set_permission (sm_file_descriptor m) (OWNER_READ OR OWNER_WRITE)) (\<lambda>r. Return (omap (\<lambda>_. m) (panic_on_err r))))
     | Err AlreadyExist \<Rightarrow> Return (Err ChannelAlreadyExists) | Err _ \<Rightarrow> Return (Err CreateInternalFailure) | Panic \<Rightarrow> Return Panic | UB \<Rightarrow> Return UB)"

definition mqc_create_receiver :: "mqc_env \<Rightarrow> channel_creator \<Rightarrow> mqc_state \<Rightarrow> (channel_create_error, mqc_handle) outcome \<times> mqc_state" where
  "mqc_create_receiver E b s = (case pds_full_name (cn_config b) (cn_name b) of
     Ok full_name \<Rightarrow>
       (case duplex_create (me_refuse E) (me_size_of E) ((mq_builder_new full_name (me_clock E))\<lparr>qb_capacity := cc_buffer_size b\<rparr>) CreateExclusive (ms_mq s) of
          (Ok receiver, mq) \<Rightarrow>
            (case run_me E (mqc_setup full_name (me_config_size E) \<lparr>sc_has_safe_overflow = cc_overflow b, sc_buffer_size = cc_buffer_size b\<rparr>) (ms_os s) of
               (Ok m, os) \<Rightarrow> (Ok \<lparr>mh_name = cn_name b, mh_queue = receiver, mh_shm = m\<rparr>, s\<lparr>ms_mq := mq, ms_os := os\<rparr>)
             | (Err e, os) \<Rightarrow> (Err e, s\<lparr>ms_mq := message_queue_drop (me_refuse E) receiver mq, ms_os := os\<rparr>)
             | (Panic, os) \<Rightarrow> (Panic, s\<lparr>ms_mq := mq, ms_os := os\<rparr>) | (UB, os) \<Rightarrow> (UB, s\<lparr>ms_mq := mq, ms_os := os\<rparr>))
        | (Err e, mq) \<Rightarrow> (Err (if e = MqAlreadyExist then ChannelAlreadyExists else CreateInternalFailure), s\<lparr>ms_mq := mq\<rparr>)
        | (Panic, mq) \<Rightarrow> (Panic, s\<lparr>ms_mq := mq\<rparr>) | (UB, mq) \<Rightarrow> (UB, s\<lparr>ms_mq := mq\<rparr>))
   | Err e \<Rightarrow> (Err e, s) | Panic \<Rightarrow> (Panic, s) | UB \<Rightarrow> (UB, s))"

definition shared_config :: "shared_memory \<Rightarrow> mqc_state \<Rightarrow> shared_configuration option" where
  "shared_config m s = ob_value (os_objects (ms_os s) (sm_file_descriptor m))"

definition mqc_try_open_sender :: "mqc_env \<Rightarrow> channel_connector \<Rightarrow> mqc_state \<Rightarrow> (channel_open_error, mqc_handle) outcome \<times> mqc_state" where
  "mqc_try_open_sender E c s = (case pds_full_name (cn_config c) (cn_name c) of
     Ok full_name \<Rightarrow>
       (case run_me E (shm_open_existing AccessRead (shm_builder_new full_name)) (ms_os s) of
          (Ok m, os) \<Rightarrow>
            (case ob_value (os_objects os (sm_file_descriptor m)) of
               None \<Rightarrow> (UB, s\<lparr>ms_os := os\<rparr>)
             | Some cfg \<Rightarrow>
                 (case duplex_open (me_refuse E) (me_size_of E) ((mq_builder_new full_name (me_clock E))\<lparr>qb_capacity := sc_buffer_size cfg\<rparr>) (ms_mq s) of
                    Ok sender \<Rightarrow> (Ok \<lparr>mh_name = cn_name c, mh_queue = sender, mh_shm = m\<rparr>, s\<lparr>ms_os := os\<rparr>)
                  | Err e \<Rightarrow> (Err (if e = MqDoesNotExist then ChannelDoesNotExist else OpenInternalFailure), s\<lparr>ms_os := snd (run_me E (shm_drop m :: (_, (unit, unit) outcome) sys_prog) os)\<rparr>)
                  | Panic \<Rightarrow> (Panic, s\<lparr>ms_os := os\<rparr>) | UB \<Rightarrow> (UB, s\<lparr>ms_os := os\<rparr>)))
        | (Err e, os) \<Rightarrow> (Err (if e = DoesNotExist then ChannelDoesNotExist else OpenInternalFailure), s\<lparr>ms_os := os\<rparr>)
        | (Panic, os) \<Rightarrow> (Panic, s\<lparr>ms_os := os\<rparr>) | (UB, os) \<Rightarrow> (UB, s\<lparr>ms_os := os\<rparr>))
   | Err e \<Rightarrow> (Err e, s) | Panic \<Rightarrow> (Panic, s) | UB \<Rightarrow> (UB, s))"

text \<open>The loop of \<^verbatim>\<open>try_send\<close>, with fuel. \<open>others i\<close> is what other processes do to the message queue at the \<open>i\<close>-th place where they can.\<close>

fun mqc_send_loop :: "nat \<Rightarrow> (nat \<Rightarrow> nat mq_os \<Rightarrow> nat mq_os) \<Rightarrow> mq_refusal \<Rightarrow> usize \<Rightarrow> bool \<Rightarrow> nat \<Rightarrow> nat option \<Rightarrow> message_queue \<Rightarrow> nat mq_os
    \<Rightarrow> ((channel_send_error, nat option) outcome \<times> nat mq_os) option" where
  "mqc_send_loop 0 others refuse size_of has_safe_overflow v oldest_sample q s = None"
| "mqc_send_loop (Suc n) others refuse size_of has_safe_overflow v oldest_sample q s = (case mq_try_send refuse size_of v 0 q s of
     None \<Rightarrow> None
   | Some (result, q', s') \<Rightarrow>
       if result = Ok True then Some (Ok oldest_sample, s')
       else if result = Ok False \<or> result = Err MqQueueIsFull
       then (if has_safe_overflow
             then (case mq_try_receive refuse size_of q' (others 0 s') of
                None \<Rightarrow> None
              | Some (Ok (Some m), q'', s'') \<Rightarrow> mqc_send_loop n (\<lambda>i. others (i + 2)) refuse size_of has_safe_overflow v (Some (mm_value m)) q'' (others 1 s'')
              | Some (_, q'', s'') \<Rightarrow> Some (Panic, s''))
             else Some (Err ReceiverCacheIsFull, s'))
       else Some (case result of Err _ \<Rightarrow> Err SendInternalFailure | Panic \<Rightarrow> Panic | _ \<Rightarrow> UB, s'))"

text \<open>Without others, two rounds are enough.\<close>

definition mqc_try_send :: "mqc_env \<Rightarrow> mqc_handle \<Rightarrow> nat \<Rightarrow> mqc_state \<Rightarrow> (channel_send_error, nat option) outcome \<times> mqc_state" where
  "mqc_try_send E h v s = (case shared_config (mh_shm h) s of
     None \<Rightarrow> (UB, s)
   | Some cfg \<Rightarrow> (case mqc_send_loop 2 (\<lambda>_. id) (me_refuse E) (me_size_of E) (sc_has_safe_overflow cfg) v None (mh_queue h) (ms_mq s) of
       None \<Rightarrow> (UB, s) | Some (r, mq) \<Rightarrow> (r, s\<lparr>ms_mq := mq\<rparr>)))"

definition mqc_receive :: "mqc_env \<Rightarrow> mqc_handle \<Rightarrow> mqc_state \<Rightarrow> (channel_receive_error, nat option) outcome \<times> mqc_state" where
  "mqc_receive E h s = (case mq_try_receive (me_refuse E) (me_size_of E) (mh_queue h) (ms_mq s) of
     None \<Rightarrow> (UB, s)
   | Some (r, q, mq) \<Rightarrow> (case r of Ok m \<Rightarrow> Ok (map_option mm_value m) | Err _ \<Rightarrow> Err ReceiveInternalFailure | Panic \<Rightarrow> Panic | UB \<Rightarrow> UB, s\<lparr>ms_mq := mq\<rparr>))"

definition mqc_buffer_size :: "mqc_handle \<Rightarrow> usize" where
  "mqc_buffer_size h = mq_capacity (mh_queue h)"

text \<open>The fields of a handle are dropped in their order.\<close>

definition mqc_drop :: "mqc_env \<Rightarrow> mqc_handle \<Rightarrow> mqc_state \<Rightarrow> (unit, unit) outcome \<times> mqc_state" where
  "mqc_drop E h s = (let mq = message_queue_drop (me_refuse E) (mh_queue h) (ms_mq s) in
     case run_me E (shm_drop (mh_shm h)) (ms_os s) of (r, os) \<Rightarrow> (r, s\<lparr>ms_mq := mq, ms_os := os\<rparr>))"

datatype named_does_exist_error = ExistInsufficientPermissions | ExistUnderlyingResourcesBeingSetUp | ExistInternalError

definition mqc_does_exist_cfg :: "mqc_env \<Rightarrow> byte_string \<Rightarrow> named_concept_config \<Rightarrow> mqc_state \<Rightarrow> (named_does_exist_error, bool) outcome" where
  "mqc_does_exist_cfg E name cfg s = obind (pds_full_name cfg name) (\<lambda>full_name.
     obind (map_err (\<lambda>e. if e = MqOpenPermissionDenied then ExistInsufficientPermissions else ExistInternalError)
              (does_message_queue_exist (me_refuse E) (me_size_of E) (me_clock E) full_name (ms_mq s))) (\<lambda>does_mq_exist.
     let does_shm_exist = fst (run_me E (shm_does_exist full_name) (ms_os s)) in
     if does_shm_exist \<noteq> does_mq_exist then Err ExistUnderlyingResourcesBeingSetUp else Ok does_shm_exist))"

definition mqc_remove_cfg :: "mqc_env \<Rightarrow> byte_string \<Rightarrow> named_concept_config \<Rightarrow> mqc_state \<Rightarrow> (named_remove_error, bool) outcome \<times> mqc_state" where
  "mqc_remove_cfg E name cfg s = (case pds_full_name cfg name of
     Ok full_name \<Rightarrow> (case remove_message_queue (me_refuse E) full_name (ms_mq s) of
         (r, mq) \<Rightarrow>
           if r = Ok () \<or> r = Err MqRemoveDoesNotExist
           then (case run_me E (shm_remove full_name) (ms_os s) of (q, os) \<Rightarrow> (case q of
                  Ok _ \<Rightarrow> Ok True
                | Err e \<Rightarrow> if e = ShmRemoveDoesNotExist then Ok False
                    else if e = ShmRemoveInsufficientPermissions then Err RemoveInsufficientPermissions else Err RemoveInternalError
                | Panic \<Rightarrow> Panic | UB \<Rightarrow> UB, s\<lparr>ms_mq := mq, ms_os := os\<rparr>))
           else (Err RemoveInternalError, s\<lparr>ms_mq := mq\<rparr>))
   | Err e \<Rightarrow> (Err e, s) | Panic \<Rightarrow> (Panic, s) | UB \<Rightarrow> (UB, s))"

section \<open>The contract\<close>

definition mqc_ok :: "channel_creator \<Rightarrow> bool" where
  "mqc_ok b \<longleftrightarrow> concept_ok (cn_config b) (cn_name b) \<and> 0 < cc_buffer_size b"

definition env_ok :: "mqc_env \<Rightarrow> bool" where
  "env_ok E \<longleftrightarrow> 0 < me_size_of E \<and> 0 < me_config_size E \<and> me_refuse E = (\<lambda>_. None)"

abbreviation mqc_name :: "channel_connector \<Rightarrow> u8 list" where
  "mqc_name c \<equiv> content (cn_name c) @ content (named_concept_config.suffix (cn_config c))"

definition mqc_key :: "channel_connector \<Rightarrow> os_path" where
  "mqc_key c = 47 # mqc_name c"

text \<open>Queue and shared memory are created together, so that they have the same number. Every message has priority 0.\<close>

definition mqc_object_ok :: "mqc_env \<Rightarrow> nat mq_object \<Rightarrow> shared_configuration os_object \<Rightarrow> bool" where
  "mqc_object_ok E q ob \<longleftrightarrow> mo_msgsize q = me_size_of E \<and> (\<forall>m \<in> set (mo_messages q). mm_priority m = 0 \<and> mm_length m = me_size_of E)
     \<and> length (mo_messages q) \<le> mo_maxmsg q \<and> 0 < mo_maxmsg q \<and> ob_size ob = me_config_size E \<and> (\<exists>cfg. ob_value ob = Some cfg \<and> sc_buffer_size cfg = mo_maxmsg q)"

definition mqc_invar :: "mqc_env \<Rightarrow> mqc_state \<Rightarrow> bool" where
  "mqc_invar E s \<longleftrightarrow> mq_names (ms_mq s) = os_shm (ms_os s) \<and> mq_next (ms_mq s) = os_next (ms_os s)
     \<and> (\<forall>p i. os_shm (ms_os s) p = Some i \<longrightarrow> i < os_next (ms_os s))
     \<and> (\<forall>i < os_next (ms_os s). mqc_object_ok E (mq_objects (ms_mq s) i) (os_objects (ms_os s) i))"

definition mqc_abs :: "nat mq_object \<Rightarrow> shared_configuration os_object \<Rightarrow> abs_channel" where
  "mqc_abs q ob = \<lparr>ac_list = map mm_value (mo_messages q), ac_capacity = mo_maxmsg q, ac_overflow = (case ob_value ob of None \<Rightarrow> False | Some cfg \<Rightarrow> sc_has_safe_overflow cfg)\<rparr>"

definition mqc_chan :: "mqc_state \<Rightarrow> nat \<Rightarrow> abs_channel option" where
  "mqc_chan s n = (case n of 0 \<Rightarrow> None
     | Suc i \<Rightarrow> if i < os_next (ms_os s) then Some (mqc_abs (mq_objects (ms_mq s) i) (os_objects (ms_os s) i)) else None)"

definition mqc_ticks :: "mqc_state \<Rightarrow> nat \<Rightarrow> nat" where
  "mqc_ticks s n = usize_lim - 1 - mo_maxmsg (mq_objects (ms_mq s) (n - 1))"

definition mqc_owns :: "mqc_handle \<Rightarrow> os_path option" where
  "mqc_owns h = (if mq_has_ownership (mh_queue h) \<or> sm_has_ownership (mh_shm h) then Some (shm_path (sm_name (mh_shm h))) else None)"

definition mqc_handle_ok :: "mqc_handle \<Rightarrow> bool" where
  "mqc_handle_ok h \<longleftrightarrow> mq_has_ownership (mh_queue h) \<and> sm_has_ownership (mh_shm h) \<and> mq_name (mh_queue h) = sm_name (mh_shm h)"

text \<open>The number of a channel is that of its objects plus 1; 0 is for a handle with two parts that do not belong together.\<close>

definition mqc_ident :: "mqc_handle \<Rightarrow> nat" where
  "mqc_ident h = (if mq_mqdes (mh_queue h) = sm_file_descriptor (mh_shm h) then Suc (sm_file_descriptor (mh_shm h)) else 0)"

definition mqc_names :: "mqc_state \<Rightarrow> os_path \<Rightarrow> nat option" where
  "mqc_names s p = map_option Suc (os_shm (ms_os s) p)"

lemma key_of: "mqc_key (connector_of b) = shm_path (content (cn_name b) @ content (named_concept_config.suffix (cn_config b)))"
  by (simp add: mqc_key_def shm_path_def channel_connector.defs)

lemma setup_runs:
  assumes "os_shm s (shm_path name) = None" and "0 < n"
  shows "\<exists>m ob. run_os umask t (mqc_setup name n c) s =
      (Ok m, s\<lparr>os_shm := (os_shm s)(shm_path name \<mapsto> os_next s), os_objects := (os_objects s)(os_next s := ob), os_next := Suc (os_next s)\<rparr>)
    \<and> ob_value ob = Some c \<and> ob_size ob = n \<and> sm_name m = name \<and> sm_has_ownership m \<and> sm_file_descriptor m = os_next s"
  using assms unfolding mqc_setup_def
  by (simp add: exec_pbind exec_pthen shm_program_defs shm_config_defs fd_set_permission_def Let_def shm_name_def add_object_def new_object_def object_at_def panic_on_err_def)
    (rule exI [of _ "\<lparr>ob_creator = t, ob_mode = regular (as_mode (OWNER_READ OR OWNER_WRITE)), ob_size = n, ob_value = Some c, ob_data = resize n []\<rparr>"], simp)

lemma setup_exists:
  assumes "os_shm s (shm_path name) = Some i"
  shows "run_os umask t (mqc_setup name n c) s = (Err ChannelAlreadyExists, s)"
  using assms unfolding mqc_setup_def by (simp add: exec_pbind exec_pthen shm_program_defs shm_config_defs shm_create_errno_def)

lemma open_runs:
  shows "os_shm s (shm_path name) = None \<Longrightarrow> run_os umask t (shm_open_existing AccessRead (shm_builder_new name)) s = (Err DoesNotExist, s)"
    and "os_shm s (shm_path name) = Some i \<Longrightarrow> 0 < ob_size (os_objects s i) \<Longrightarrow>
      \<exists>m. run_os umask t (shm_open_existing AccessRead (shm_builder_new name)) s = (Ok m, s) \<and> sm_file_descriptor m = i \<and> \<not> sm_has_ownership m"
  by (simp_all add: exec_pbind exec_pthen shm_program_defs shm_config_defs shm_open_errno_def Let_def)

lemma mqc_create_new:
  assumes E: "env_ok E" and "mqc_invar E s" and "mqc_ok b" and "mqc_names s (mqc_key (connector_of b)) = None"
  shows "\<exists>h s'. mqc_create_receiver E b s = (Ok h, s') \<and> mqc_invar E s' \<and> mqc_names s' = (mqc_names s)(mqc_key (connector_of b) \<mapsto> mqc_ident h)
    \<and> mqc_owns h = Some (mqc_key (connector_of b)) \<and> mqc_handle_ok h
    \<and> mqc_chan s' (mqc_ident h) = Some \<lparr>ac_list = [], ac_capacity = cc_buffer_size b, ac_overflow = cc_overflow b\<rparr> \<and> mqc_ticks s' (mqc_ident h) = usize_lim - 1 - cc_buffer_size b
    \<and> (\<forall>i. mqc_chan s i \<noteq> None \<longrightarrow> mqc_chan s' i = mqc_chan s i)"
proof -
  let ?n = "content (cn_name b) @ content (named_concept_config.suffix (cn_config b))" and ?i = "os_next (ms_os s)"
  let ?cfg = "\<lparr>sc_has_safe_overflow = cc_overflow b, sc_buffer_size = cc_buffer_size b\<rparr>" and ?b = "\<lparr>qb_name = ?n, qb_capacity = cc_buffer_size b, qb_max_message_size = me_size_of E, qb_clock = me_clock E\<rparr>"
  let ?o = "\<lparr>mo_maxmsg = cc_buffer_size b, mo_msgsize = me_size_of E, mo_messages = []\<rparr>"
  let ?mq = "(ms_mq s)\<lparr>mq_names := (mq_names (ms_mq s))(shm_path ?n \<mapsto> ?i), mq_objects := (mq_objects (ms_mq s))(?i := ?o), mq_next := Suc ?i\<rparr>"
  have ok: "concept_ok (cn_config b) (cn_name b)" "0 < cc_buffer_size b" "0 < me_size_of E" "0 < me_config_size E" "me_refuse E = (\<lambda>_. None)"
    using assms(1,3) by (auto simp: mqc_ok_def env_ok_def)
  have I: "mq_names (ms_mq s) = os_shm (ms_os s)" "mq_next (ms_mq s) = ?i" using assms(2) by (auto simp: mqc_invar_def)
  have free: "os_shm (ms_os s) (shm_path ?n) = None" using assms(4) by (simp add: mqc_names_def key_of)
  obtain m ob where m: "run_me E (mqc_setup ?n (me_config_size E) ?cfg) (ms_os s) =
      (Ok m, (ms_os s)\<lparr>os_shm := (os_shm (ms_os s))(shm_path ?n \<mapsto> ?i), os_objects := (os_objects (ms_os s))(?i := ob), os_next := Suc ?i\<rparr>)"
    "ob_value ob = Some ?cfg" "ob_size ob = me_config_size E" "sm_name m = ?n" "sm_has_ownership m" "sm_file_descriptor m = ?i"
    using setup_runs [OF free ok(4), of "me_umask E" "me_process E" ?cfg] by auto
  have q: "duplex_create (me_refuse E) (me_size_of E) ((mq_builder_new ?n (me_clock E))\<lparr>qb_capacity := cc_buffer_size b\<rparr>) CreateExclusive (ms_mq s) = (Ok (message_queue_of ?i True ?b), ?mq)"
    using free I ok by (simp add: duplex_create_def message_queue_create_def mq_create_def os_mq_create_def mq_builder_new_def add_slash_def shm_path_def Let_def)
  let ?h = "\<lparr>mh_name = cn_name b, mh_queue = message_queue_of ?i True ?b, mh_shm = m\<rparr>"
  let ?s' = "s\<lparr>ms_mq := ?mq, ms_os := (ms_os s)\<lparr>os_shm := (os_shm (ms_os s))(shm_path ?n \<mapsto> ?i), os_objects := (os_objects (ms_os s))(?i := ob), os_next := Suc ?i\<rparr>\<rparr>"
  have "mqc_create_receiver E b s = (Ok ?h, ?s')" unfolding mqc_create_receiver_def pds_full_name_Ok [OF ok(1)] using q m(1) by simp
  moreover have "mqc_object_ok E ?o ob" using m(2,3) ok by (simp add: mqc_object_ok_def)
  then have "mqc_invar E ?s'" using assms(2) I by (auto simp: mqc_invar_def less_Suc_eq)
  moreover have "mqc_ident ?h = Suc ?i" using m(6) by (simp add: mqc_ident_def message_queue_of_def)
  moreover have "mqc_owns ?h = Some (mqc_key (connector_of b))" "mqc_handle_ok ?h" using m(4,5) by (simp_all add: mqc_owns_def mqc_handle_ok_def message_queue_of_def key_of)
  moreover have "mqc_names ?s' = (mqc_names s)(mqc_key (connector_of b) \<mapsto> Suc ?i)" by (auto simp: mqc_names_def key_of)
  moreover have "mqc_chan ?s' (Suc ?i) = Some \<lparr>ac_list = [], ac_capacity = cc_buffer_size b, ac_overflow = cc_overflow b\<rparr>" "mqc_ticks ?s' (Suc ?i) = usize_lim - 1 - cc_buffer_size b"
    using m(2) by (simp_all add: mqc_chan_def mqc_abs_def mqc_ticks_def)
  moreover have "\<forall>i. mqc_chan s i \<noteq> None \<longrightarrow> mqc_chan ?s' i = mqc_chan s i" by (auto simp: mqc_chan_def split: nat.splits if_splits)
  ultimately show ?thesis by metis
qed

lemma mqc_create_taken:
  assumes E: "env_ok E" and "mqc_invar E s" and "mqc_ok b" and "mqc_names s (mqc_key (connector_of b)) = Some i"
  shows "mqc_create_receiver E b s = (Err ChannelAlreadyExists, s)"
proof -
  have "concept_ok (cn_config b) (cn_name b)" using assms(3) by (simp add: mqc_ok_def)
  then show ?thesis unfolding mqc_create_receiver_def using assms(1,2,4) pds_full_name_Ok [where ?'e = channel_create_error]
    by (auto simp: duplex_create_def message_queue_create_def mq_create_def os_mq_create_def mq_builder_new_def add_slash_def shm_path_def Let_def env_ok_def mqc_invar_def
        mqc_names_def key_of mq_create_errno_def)
qed

lemma mqc_open_missing:
  assumes "mqc_ok b" and "mqc_names s (mqc_key (connector_of b)) = None"
  shows "mqc_try_open_sender E (connector_of b) s = (Err ChannelDoesNotExist, s)"
proof -
  have "concept_ok (cn_config b) (cn_name b)" using assms(1) by (simp add: mqc_ok_def)
  moreover from assms(2) have "os_shm (ms_os s) (shm_path (content (cn_name b) @ content (named_concept_config.suffix (cn_config b)))) = None" by (simp add: mqc_names_def key_of)
  ultimately show ?thesis unfolding mqc_try_open_sender_def using pds_full_name_Ok [of "cn_config b" "cn_name b", where ?'e = channel_open_error]
    by (simp add: channel_connector.defs open_runs(1))
qed

lemma mqc_open_named:
  assumes "env_ok E" and "mqc_invar E s" and "mqc_ok b" and "mqc_names s (mqc_key (connector_of b)) = Some i"
  shows "\<exists>h. mqc_try_open_sender E (connector_of b) s = (Ok h, s) \<and> mqc_ident h = i \<and> mqc_owns h = None"
proof -
  let ?n = "content (cn_name b) @ content (named_concept_config.suffix (cn_config b))"
  have ok: "concept_ok (cn_config b) (cn_name b)" "0 < me_config_size E" "me_refuse E = (\<lambda>_. None)" using assms(1,3) by (auto simp: mqc_ok_def env_ok_def)
  obtain j where j: "os_shm (ms_os s) (shm_path ?n) = Some j" "i = Suc j" using assms(4) by (auto simp: mqc_names_def key_of)
  have I: "mq_names (ms_mq s) = os_shm (ms_os s)" "mqc_object_ok E (mq_objects (ms_mq s) j) (os_objects (ms_os s) j)"
    using assms(2) j(1) by (auto simp: mqc_invar_def)
  then obtain cfg where cfg: "ob_value (os_objects (ms_os s) j) = Some cfg" "sc_buffer_size cfg = mo_maxmsg (mq_objects (ms_mq s) j)" "mo_msgsize (mq_objects (ms_mq s) j) = me_size_of E"
    "0 < ob_size (os_objects (ms_os s) j)" using ok(2) by (auto simp: mqc_object_ok_def)
  obtain m where m: "run_me E (shm_open_existing AccessRead (shm_builder_new ?n)) (ms_os s) = (Ok m, ms_os s)" "sm_file_descriptor m = j" "\<not> sm_has_ownership m"
    using open_runs(2) [OF j(1) cfg(4), of "me_umask E" "me_process E"] by blast
  let ?b = "\<lparr>qb_name = ?n, qb_capacity = mo_maxmsg (mq_objects (ms_mq s) j), qb_max_message_size = me_size_of E, qb_clock = me_clock E\<rparr>"
  have q: "duplex_open (me_refuse E) (me_size_of E) ((mq_builder_new ?n (me_clock E))\<lparr>qb_capacity := sc_buffer_size cfg\<rparr>) (ms_mq s) = Ok (message_queue_of j False ?b)"
    using I(1) j(1) cfg ok(3) by (simp add: duplex_open_def message_queue_open_def mq_open_def os_mq_open_def mq_builder_new_def add_slash_def shm_path_def Let_def)
  have "mqc_try_open_sender E (connector_of b) s = (Ok \<lparr>mh_name = cn_name b, mh_queue = message_queue_of j False ?b, mh_shm = m\<rparr>, s)"
    unfolding mqc_try_open_sender_def using pds_full_name_Ok [OF ok(1), where ?'e = channel_open_error] m(1,2) cfg(1) q by (simp add: channel_connector.defs)
  then show ?thesis using m(2,3) j(2) by (simp add: mqc_ident_def mqc_owns_def message_queue_of_def)
qed

lemma mqc_drop_other: "mqc_owns h = None \<Longrightarrow> mqc_drop E h t = (Ok (), t)"
  by (auto simp: mqc_owns_def mqc_drop_def message_queue_drop_def run_drop split: if_splits)

lemma mqc_drop_owner:
  assumes "env_ok E" and "mqc_invar E s" and h: "mqc_handle_ok h" "mqc_owns h = Some k" "mqc_names s k \<noteq> None"
  shows "\<exists>s'. mqc_drop E h s = (Ok (), s') \<and> mqc_invar E s' \<and> mqc_names s' = (mqc_names s)(k := None) \<and> mqc_chan s' = mqc_chan s \<and> mqc_ticks s' = mqc_ticks s"
proof -
  let ?s = "s\<lparr>ms_mq := (ms_mq s)\<lparr>mq_names := (mq_names (ms_mq s))(k := None)\<rparr>, ms_os := (ms_os s)\<lparr>os_shm := (os_shm (ms_os s))(k := None)\<rparr>\<rparr>"
  have k: "k = shm_path (sm_name (mh_shm h))" "add_slash (mq_name (mh_queue h)) = k" "sm_has_ownership (mh_shm h)" "mq_has_ownership (mh_queue h)"
    using h(1,2) by (auto simp: mqc_handle_ok_def mqc_owns_def add_slash_def shm_path_def)
  have n: "os_shm (ms_os s) k \<noteq> None" "mq_names (ms_mq s) = os_shm (ms_os s)" using h(3) assms(2) by (auto simp: mqc_names_def mqc_invar_def)
  have "mqc_drop E h s = (Ok (), ?s)"
    using k n assms(1) by (auto simp: mqc_drop_def Let_def message_queue_drop_def mq_unlink_def os_mq_unlink_def env_ok_def run_drop shm_name_def)
  moreover have "mqc_invar E ?s" using assms(2) by (auto simp: mqc_invar_def)
  moreover have "mqc_names ?s = (mqc_names s)(k := None)" "mqc_chan ?s = mqc_chan s" "mqc_ticks ?s = mqc_ticks s" by (auto simp: mqc_names_def mqc_chan_def mqc_ticks_def fun_eq_iff split: nat.splits)
  ultimately show ?thesis by blast
qed

text \<open>Sending and receiving when nothing is refused and all messages have priority 0.\<close>

definition uniform :: "usize \<Rightarrow> nat mq_object \<Rightarrow> bool" where
  "uniform size_of q \<longleftrightarrow> mo_msgsize q = size_of \<and> (\<forall>m \<in> set (mo_messages q). mm_priority m = 0 \<and> mm_length m = size_of)
     \<and> length (mo_messages q) \<le> mo_maxmsg q \<and> 0 < mo_maxmsg q"

abbreviation plain_message :: "usize \<Rightarrow> nat \<Rightarrow> nat mq_message" where
  "plain_message size_of v \<equiv> \<lparr>mm_priority = 0, mm_length = size_of, mm_value = v\<rparr>"

lemma set_nonblock [simp]: "mq_is_non_blocking (mq_set_nonblock True q)" "mq_mqdes (mq_set_nonblock b q) = mq_mqdes q"
  by (simp_all add: mq_set_nonblock_def)

lemma send_uniform:
  assumes "uniform size_of (mq_objects s (mq_mqdes q))"
  shows "mq_try_send (\<lambda>_. None) size_of v 0 q s = Some (if length (mo_messages (mq_objects s (mq_mqdes q))) < mo_maxmsg (mq_objects s (mq_mqdes q))
    then (Ok True, mq_set_nonblock True q, mq_at (mq_mqdes q) (\<lambda>ms. ms @ [plain_message size_of v]) s) else (Ok False, mq_set_nonblock True q, s))"
proof -
  have "enqueue (plain_message size_of v) (mo_messages (mq_objects s (mq_mqdes q))) = mo_messages (mq_objects s (mq_mqdes q)) @ [plain_message size_of v]"
    by (rule enqueue_same) (use assms in \<open>auto simp: uniform_def\<close>)
  then show ?thesis by (simp add: mq_try_send_def send_with_prio_def Let_def os_mq_send_def mq_send_errno_def mq_at_def)
qed

lemma receive_uniform:
  assumes "uniform size_of (mq_objects s (mq_mqdes q))"
  shows "mq_try_receive (\<lambda>_. None) size_of q s = Some (case mo_messages (mq_objects s (mq_mqdes q)) of
      [] \<Rightarrow> (Ok None, mq_set_nonblock True q, s) | m # _ \<Rightarrow> (Ok (Some m), mq_set_nonblock True q, mq_at (mq_mqdes q) tl s))"
  using assms by (cases "mo_messages (mq_objects s (mq_mqdes q))")
    (auto simp: mq_try_receive_def internal_receive_def Let_def os_mq_receive_def receive_errno_def uniform_def)

lemma send_loop_alone:
  assumes "uniform size_of (mq_objects s (mq_mqdes q))"
  defines "ms \<equiv> mo_messages (mq_objects s (mq_mqdes q))" and "maxmsg \<equiv> mo_maxmsg (mq_objects s (mq_mqdes q))"
  shows "mqc_send_loop 2 (\<lambda>_. id) (\<lambda>_. None) size_of overflow v None q s = Some
    (if length ms < maxmsg then (Ok None, mq_at (mq_mqdes q) (\<lambda>_. ms @ [plain_message size_of v]) s)
     else if overflow then (Ok (Some (mm_value (hd ms))), mq_at (mq_mqdes q) (\<lambda>_. tl ms @ [plain_message size_of v]) s)
     else (Err ReceiverCacheIsFull, s))"
proof -
  have at: "mq_at i f s' = mq_at i (\<lambda>_. f (mo_messages (mq_objects s' i))) s'" for i f and s' :: "nat mq_os" by (simp add: mq_at_def)
  consider (fits) "length ms < maxmsg" | (full) "length ms = maxmsg" using assms(1) by (fastforce simp: uniform_def ms_def maxmsg_def)
  then show ?thesis
  proof cases
    case fits
    then show ?thesis using send_uniform [OF assms(1), of v] at [of "mq_mqdes q" "\<lambda>ms. ms @ [plain_message size_of v]" s] by (simp add: numeral_2_eq_2 ms_def maxmsg_def)
  next
    case full
    obtain m rest where m: "ms = m # rest" using full assms(1) by (cases ms) (auto simp: uniform_def maxmsg_def)
    let ?s = "mq_at (mq_mqdes q) tl s" and ?q = "mq_set_nonblock True q"
    have u: "uniform size_of (mq_objects ?s (mq_mqdes ?q))" using assms(1) m by (auto simp: uniform_def mq_at_def ms_def)
    have o: "mo_messages (mq_objects ?s (mq_mqdes q)) = rest" "mo_maxmsg (mq_objects ?s (mq_mqdes q)) = maxmsg" using m by (simp_all add: mq_at_def ms_def maxmsg_def)
    have r: "mq_try_receive (\<lambda>_. None) size_of ?q s = Some (Ok (Some m), mq_set_nonblock True ?q, ?s)"
      using receive_uniform [of size_of s ?q] assms(1) m by (simp add: ms_def)
    have t: "mq_try_send (\<lambda>_. None) size_of v 0 (mq_set_nonblock True ?q) ?s = Some (Ok True, mq_set_nonblock True (mq_set_nonblock True ?q), mq_at (mq_mqdes q) (\<lambda>ms. ms @ [plain_message size_of v]) ?s)"
      using send_uniform [of size_of ?s "mq_set_nonblock True ?q" v] u o full m by simp
    have e: "mq_at (mq_mqdes q) (\<lambda>ms. ms @ [plain_message size_of v]) ?s = mq_at (mq_mqdes q) (\<lambda>_. tl ms @ [plain_message size_of v]) s"
      using m by (simp add: mq_at_def ms_def)
    show ?thesis using send_uniform [OF assms(1), of v] full r t e m by (simp add: numeral_2_eq_2 ms_def maxmsg_def)
  qed
qed

lemma mqc_state_chan:
  assumes "mqc_invar E s" and "mqc_chan s (mqc_ident h) = Some c"
  obtains cfg where "uniform (me_size_of E) (mq_objects (ms_mq s) (mq_mqdes (mh_queue h)))" "shared_config (mh_shm h) s = Some cfg" "mq_mqdes (mh_queue h) < os_next (ms_os s)"
    "mqc_ident h = Suc (mq_mqdes (mh_queue h))" "sc_has_safe_overflow cfg = ac_overflow c" "map mm_value (mo_messages (mq_objects (ms_mq s) (mq_mqdes (mh_queue h)))) = ac_list c"
    "mo_maxmsg (mq_objects (ms_mq s) (mq_mqdes (mh_queue h))) = ac_capacity c"
proof -
  have i: "mq_mqdes (mh_queue h) = sm_file_descriptor (mh_shm h)" "sm_file_descriptor (mh_shm h) < os_next (ms_os s)"
    "c = mqc_abs (mq_objects (ms_mq s) (sm_file_descriptor (mh_shm h))) (os_objects (ms_os s) (sm_file_descriptor (mh_shm h)))"
    using assms(2) by (auto simp: mqc_chan_def mqc_ident_def split: if_splits)
  have "mqc_object_ok E (mq_objects (ms_mq s) (sm_file_descriptor (mh_shm h))) (os_objects (ms_os s) (sm_file_descriptor (mh_shm h)))" using assms(1) i(2) by (simp add: mqc_invar_def)
  then show thesis using that i by (auto simp: mqc_object_ok_def uniform_def shared_config_def mqc_ident_def mqc_abs_def)
qed

text \<open>What the laws need of a new list of messages.\<close>

lemma mqc_at_messages:
  assumes "mqc_invar E s" and "mqc_chan s (mqc_ident h) = Some c" and "\<And>m. m \<in> set ms \<Longrightarrow> mm_priority m = 0 \<and> mm_length m = me_size_of E" and "length ms \<le> ac_capacity c"
  defines "s' \<equiv> s\<lparr>ms_mq := mq_at (mq_mqdes (mh_queue h)) (\<lambda>_. ms) (ms_mq s)\<rparr>"
  shows "mqc_invar E s'" "mqc_names s' = mqc_names s" "mqc_chan s' = (mqc_chan s)(mqc_ident h \<mapsto> c\<lparr>ac_list := map mm_value ms\<rparr>)" "mqc_ticks s' = mqc_ticks s"
proof -
  obtain cfg where f: "uniform (me_size_of E) (mq_objects (ms_mq s) (mq_mqdes (mh_queue h)))" "mq_mqdes (mh_queue h) < os_next (ms_os s)"
    "mqc_ident h = Suc (mq_mqdes (mh_queue h))" "mo_maxmsg (mq_objects (ms_mq s) (mq_mqdes (mh_queue h))) = ac_capacity c"
    using mqc_state_chan [OF assms(1,2)] by metis
  have c: "c = mqc_abs (mq_objects (ms_mq s) (mq_mqdes (mh_queue h))) (os_objects (ms_os s) (mq_mqdes (mh_queue h)))" using assms(2) f(2,3) by (simp add: mqc_chan_def)
  show "mqc_invar E s'" using assms(1,3,4) f by (auto simp: mqc_invar_def s'_def mq_at_def mqc_object_ok_def)
  show "mqc_names s' = mqc_names s" "mqc_ticks s' = mqc_ticks s" by (auto simp: mqc_names_def mqc_ticks_def s'_def mq_at_def fun_eq_iff)
  show "mqc_chan s' = (mqc_chan s)(mqc_ident h \<mapsto> c\<lparr>ac_list := map mm_value ms\<rparr>)"
    using f(2,3) c by (auto simp: mqc_chan_def s'_def mq_at_def mqc_abs_def fun_eq_iff split: nat.splits)
qed

lemma mqc_send_law:
  assumes "env_ok E" and "mqc_invar E s" and "mqc_chan s (mqc_ident h) = Some c" and "0 < ac_capacity c" and "abs_op (Send v) c = (x, c')"
  shows "\<exists>r s'. mqc_try_send E h v s = (r, s') \<and> send_result r = x \<and> mqc_invar E s' \<and> mqc_names s' = mqc_names s
    \<and> mqc_chan s' = (mqc_chan s)(mqc_ident h \<mapsto> c') \<and> mqc_ticks s (mqc_ident h) \<le> Suc (mqc_ticks s' (mqc_ident h))"
proof -
  let ?q = "mh_queue h" and ?ms = "mo_messages (mq_objects (ms_mq s) (mq_mqdes (mh_queue h)))" and ?m = "plain_message (me_size_of E) v"
  obtain cfg where f: "uniform (me_size_of E) (mq_objects (ms_mq s) (mq_mqdes ?q))" "shared_config (mh_shm h) s = Some cfg" "sc_has_safe_overflow cfg = ac_overflow c"
    "map mm_value ?ms = ac_list c" "mo_maxmsg (mq_objects (ms_mq s) (mq_mqdes ?q)) = ac_capacity c"
    using mqc_state_chan [OF assms(2,3)] by metis
  have len: "length ?ms = length (ac_list c)" using arg_cong [OF f(4), of length] by simp
  note loop = send_loop_alone [OF f(1), of "ac_overflow c" v, unfolded f(5) len]
  have u: "\<And>m. m \<in> set ?ms \<Longrightarrow> mm_priority m = 0 \<and> mm_length m = me_size_of E" "length (ac_list c) \<le> ac_capacity c" using f(1,5) len by (auto simp: uniform_def)
  have same: "(mqc_chan s)(mqc_ident h \<mapsto> c) = mqc_chan s" using assms(3) by auto
  have run: "mqc_try_send E h v s = (case mqc_send_loop 2 (\<lambda>_. id) (\<lambda>_. None) (me_size_of E) (ac_overflow c) v None ?q (ms_mq s) of None \<Rightarrow> (UB, s) | Some (r, mq) \<Rightarrow> (r, s\<lparr>ms_mq := mq\<rparr>))"
    using f(2,3) assms(1) by (simp add: mqc_try_send_def env_ok_def)
  consider (fits) "length (ac_list c) < ac_capacity c" | (evicts) "length (ac_list c) = ac_capacity c" "ac_overflow c" | (refuses) "length (ac_list c) = ac_capacity c" "\<not> ac_overflow c"
    using u(2) by fastforce
  then show ?thesis
  proof cases
    case fits
    have "m \<in> set (?ms @ [?m]) \<Longrightarrow> mm_priority m = 0 \<and> mm_length m = me_size_of E" for m using u(1) by auto
    moreover have "length (?ms @ [?m]) \<le> ac_capacity c" using fits len by simp
    ultimately have k: "mqc_invar E (s\<lparr>ms_mq := mq_at (mq_mqdes ?q) (\<lambda>_. ?ms @ [?m]) (ms_mq s)\<rparr>)" "mqc_names (s\<lparr>ms_mq := mq_at (mq_mqdes ?q) (\<lambda>_. ?ms @ [?m]) (ms_mq s)\<rparr>) = mqc_names s"
      "mqc_chan (s\<lparr>ms_mq := mq_at (mq_mqdes ?q) (\<lambda>_. ?ms @ [?m]) (ms_mq s)\<rparr>) = (mqc_chan s)(mqc_ident h \<mapsto> c\<lparr>ac_list := map mm_value (?ms @ [?m])\<rparr>)"
      "mqc_ticks (s\<lparr>ms_mq := mq_at (mq_mqdes ?q) (\<lambda>_. ?ms @ [?m]) (ms_mq s)\<rparr>) = mqc_ticks s"
      using mqc_at_messages [OF assms(2,3)] by blast+
    have "x = Sent None" "c' = c\<lparr>ac_list := map mm_value (?ms @ [?m])\<rparr>" using fits assms(5) f(4) by auto
    then show ?thesis using k run loop fits by (simp add: send_result_def)
  next
    case evicts
    then have e: "?ms \<noteq> []" using len assms(4) by auto
    have "m \<in> set (tl ?ms @ [?m]) \<Longrightarrow> mm_priority m = 0 \<and> mm_length m = me_size_of E" for m using u(1) e list.set_sel(2) [OF e] by auto
    moreover have "length (tl ?ms @ [?m]) \<le> ac_capacity c" using evicts len assms(4) by simp
    ultimately have k: "mqc_invar E (s\<lparr>ms_mq := mq_at (mq_mqdes ?q) (\<lambda>_. tl ?ms @ [?m]) (ms_mq s)\<rparr>)" "mqc_names (s\<lparr>ms_mq := mq_at (mq_mqdes ?q) (\<lambda>_. tl ?ms @ [?m]) (ms_mq s)\<rparr>) = mqc_names s"
      "mqc_chan (s\<lparr>ms_mq := mq_at (mq_mqdes ?q) (\<lambda>_. tl ?ms @ [?m]) (ms_mq s)\<rparr>) = (mqc_chan s)(mqc_ident h \<mapsto> c\<lparr>ac_list := map mm_value (tl ?ms @ [?m])\<rparr>)"
      "mqc_ticks (s\<lparr>ms_mq := mq_at (mq_mqdes ?q) (\<lambda>_. tl ?ms @ [?m]) (ms_mq s)\<rparr>) = mqc_ticks s"
      using mqc_at_messages [OF assms(2,3)] by blast+
    have "x = Sent (Some (mm_value (hd ?ms)))" "c' = c\<lparr>ac_list := map mm_value (tl ?ms @ [?m])\<rparr>"
      using evicts assms(5) hd_map [OF e, of mm_value] map_tl [of mm_value ?ms] unfolding f(4) by auto
    then show ?thesis using k run loop evicts by (simp add: send_result_def)
  next
    case refuses
    then have "x = NotSent ReceiverCacheIsFull" "c' = c" using assms(5) by auto
    then show ?thesis using assms(2) run loop refuses same by (simp add: send_result_def)
  qed
qed

lemma mqc_receive_law:
  assumes "env_ok E" and "mqc_invar E s" and "mqc_chan s (mqc_ident h) = Some c" and "abs_op Receive c = (x, c')"
  shows "\<exists>r s'. mqc_receive E h s = (r, s') \<and> receive_result r = x \<and> mqc_invar E s' \<and> mqc_names s' = mqc_names s
    \<and> mqc_chan s' = (mqc_chan s)(mqc_ident h \<mapsto> c') \<and> mqc_ticks s (mqc_ident h) \<le> Suc (mqc_ticks s' (mqc_ident h))"
proof -
  let ?q = "mh_queue h" and ?ms = "mo_messages (mq_objects (ms_mq s) (mq_mqdes (mh_queue h)))"
  obtain cfg where f: "uniform (me_size_of E) (mq_objects (ms_mq s) (mq_mqdes ?q))" "map mm_value ?ms = ac_list c" "mo_maxmsg (mq_objects (ms_mq s) (mq_mqdes ?q)) = ac_capacity c"
    using mqc_state_chan [OF assms(2,3)] by metis
  have r: "mq_try_receive (me_refuse E) (me_size_of E) ?q (ms_mq s) = Some (case ?ms of
      [] \<Rightarrow> (Ok None, mq_set_nonblock True ?q, ms_mq s) | m # _ \<Rightarrow> (Ok (Some m), mq_set_nonblock True ?q, mq_at (mq_mqdes ?q) tl (ms_mq s)))"
    using receive_uniform [OF f(1)] assms(1) by (simp add: env_ok_def)
  show ?thesis
  proof (cases ?ms)
    case Nil
    then have "x = Received None" "c' = c" "(mqc_chan s)(mqc_ident h \<mapsto> c) = mqc_chan s" using assms(3,4) f(2) by auto
    then show ?thesis using assms(2) r Nil by (simp add: mqc_receive_def receive_result_def)
  next
    case (Cons m rest)
    have at: "mq_at (mq_mqdes ?q) tl (ms_mq s) = mq_at (mq_mqdes ?q) (\<lambda>_. rest) (ms_mq s)" using Cons by (simp add: mq_at_def)
    have u: "\<And>m. m \<in> set rest \<Longrightarrow> mm_priority m = 0 \<and> mm_length m = me_size_of E" "length rest \<le> ac_capacity c" using f(1,3) Cons by (auto simp: uniform_def)
    have x: "x = Received (Some (mm_value m))" "c' = c\<lparr>ac_list := map mm_value rest\<rparr>" using assms(4) f(2) Cons by (auto split: list.splits)
    have "mqc_receive E h s = (Ok (Some (mm_value m)), s\<lparr>ms_mq := mq_at (mq_mqdes ?q) (\<lambda>_. rest) (ms_mq s)\<rparr>)" using r Cons at by (simp add: mqc_receive_def)
    then show ?thesis using mqc_at_messages [OF assms(2,3) u] x by (simp add: receive_result_def)
  qed
qed

text \<open>The channels of processes for which nothing is refused.\<close>

typedef mqc_setting = "{E. env_ok E}"
  by (rule exI [of _ "\<lparr>me_size_of = 8, me_config_size = 16, me_clock = Monotonic, me_refuse = (\<lambda>_. None), me_umask = 0, me_process = 0\<rparr>"]) (simp add: env_ok_def)

lemma setting_ok [simp]: "env_ok (Rep_mqc_setting E)"
  using Rep_mqc_setting [of E] by simp

interpretation mqc: channel_provider "mqc_invar (Rep_mqc_setting E)" mqc_names mqc_chan mqc_ticks mqc_ok mqc_key mqc_ident mqc_owns mqc_handle_ok
  "mqc_create_receiver (Rep_mqc_setting E)" "mqc_try_open_sender (Rep_mqc_setting E)" "mqc_try_send (Rep_mqc_setting E)" "mqc_receive (Rep_mqc_setting E)" "mqc_drop (Rep_mqc_setting E)"
  for E
  by unfold_locales
    (rule mqc_create_new [OF setting_ok] mqc_create_taken [OF setting_ok] mqc_open_named [OF setting_ok] mqc_open_missing mqc_send_law [OF setting_ok] mqc_receive_law [OF setting_ok]
      mqc_drop_owner [OF setting_ok] mqc_drop_other; assumption)+

section \<open>Properties\<close>

text \<open>A channel over a message queue delivers like the other channels, as long as calls do not overlap.\<close>

theorem message_queue_channel_delivers:
  assumes "env_ok E" and "mqc_invar E s" and "mqc_ok b" and "mqc_names s (mqc_key (connector_of b)) = None" and "length xs + length ys < usize_lim - cc_buffer_size b"
  defines "c \<equiv> \<lparr>ac_list = [], ac_capacity = cc_buffer_size b, ac_overflow = cc_overflow b\<rparr>"
  shows "\<exists>rx s1 tx s2 s3 s4. mqc_create_receiver E b s = (Ok rx, s1) \<and> mqc_create_receiver E b s1 = (Err ChannelAlreadyExists, s1)
    \<and> mqc_try_open_sender E (connector_of b) s1 = (Ok tx, s1) \<and> run_channel (mqc_try_send E) (mqc_receive E) tx rx xs s1 = (fst (abs_ops xs c), s2)
    \<and> mqc_drop E rx s2 = (Ok (), s3) \<and> mqc_try_open_sender E (connector_of b) s3 = (Err ChannelDoesNotExist, s3)
    \<and> run_channel (mqc_try_send E) (mqc_receive E) tx tx ys s3 = (fst (abs_ops ys (snd (abs_ops xs c))), s4)"
proof -
  obtain F where F: "E = Rep_mqc_setting F" using assms(1) Rep_mqc_setting_cases [of E] by auto
  have "0 < cc_buffer_size b" using assms(3) by (simp add: mqc_ok_def)
  from mqc.channel_life [OF assms(2) [unfolded F] assms(3) this assms(4,5)] show ?thesis unfolding F c_def by blast
qed

text \<open>When they do overlap, a sender of an overflowing channel panics: the queue is full, the receiver takes the only message, and the sender finds none that it could remove.\<close>

theorem overflowing_send_panics:
  assumes "uniform size_of (mq_objects s (mq_mqdes q))" and "mo_messages (mq_objects s (mq_mqdes q)) = [m]" and "mo_maxmsg (mq_objects s (mq_mqdes q)) = 1"
    and "mq_try_receive (\<lambda>_. None) size_of rx s = Some (Ok (Some m), rx', s')" and "mq_mqdes rx = mq_mqdes q" and "others 0 s = s'"
  shows "mqc_send_loop (Suc n) others (\<lambda>_. None) size_of True v None q s = Some (Panic, s')"
proof -
  have "mq_try_receive (\<lambda>_. None) size_of rx s = Some (Ok (Some m), mq_set_nonblock True rx, mq_at (mq_mqdes q) tl s)" using receive_uniform [of size_of s rx] assms(1,2,5) by simp
  then have s': "s' = mq_at (mq_mqdes q) tl s" using assms(4) by simp
  then have "uniform size_of (mq_objects s' (mq_mqdes q))" "mo_messages (mq_objects s' (mq_mqdes q)) = []" using assms(1,2) by (auto simp: uniform_def mq_at_def)
  then have "mq_try_receive (\<lambda>_. None) size_of (mq_set_nonblock True q) s' = Some (Ok None, mq_set_nonblock True (mq_set_nonblock True q), s')"
    using receive_uniform [of size_of s' "mq_set_nonblock True q"] by simp
  then show ?thesis using send_uniform [OF assms(1), of v] assms(2,3,6) by simp
qed

text \<open>A channel with a buffer that is smaller than the default of message queues exists, but asking whether it does is an error.\<close>

theorem small_channel_is_not_found:
  assumes "env_ok E" and "mqc_invar E s" and "mqc_ok b" and "mqc_names s (mqc_key (connector_of b)) = Some (Suc i)"
  shows "mqc_does_exist_cfg E (cn_name b) (cn_config b) s = (if mo_maxmsg (mq_objects (ms_mq s) i) < 8 then Err ExistInternalError else Ok True)"
proof -
  let ?n = "content (cn_name b) @ content (named_concept_config.suffix (cn_config b))"
  have ok: "concept_ok (cn_config b) (cn_name b)" "me_refuse E = (\<lambda>_. None)" using assms(1,3) by (auto simp: mqc_ok_def env_ok_def)
  have n: "os_shm (ms_os s) (shm_path ?n) = Some i" using assms(4) by (auto simp: mqc_names_def key_of)
  then have I: "mq_names (ms_mq s) (shm_path ?n) = Some i" "mo_msgsize (mq_objects (ms_mq s) i) = me_size_of E" using assms(2) by (auto simp: mqc_invar_def mqc_object_ok_def)
  have d: "does_message_queue_exist (me_refuse E) (me_size_of E) (me_clock E) ?n (ms_mq s) = (if mo_maxmsg (mq_objects (ms_mq s) i) < 8 then Err CapacitySmallerThanRequired else Ok True)"
    using I ok(2) by (simp add: does_message_queue_exist_def duplex_open_def message_queue_open_def mq_open_def os_mq_open_def mq_builder_new_def add_slash_def shm_path_def
        DEFAULT_MESSAGE_QUEUE_CAPACITY_def Let_def)
  have "fst (run_me E (shm_does_exist ?n) (ms_os s)) = True" using n by (simp add: shm_does_exist_def exec_pbind shm_program_defs)
  then show ?thesis unfolding mqc_does_exist_cfg_def pds_full_name_Ok [OF ok(1)] using d by simp
qed

end
