(* ===== verification/HandleTranslator.thy ===== *)
theory HandleTranslator
  imports Prelude "HOL-Library.Sublist"
begin

text \<open>
  \<^verbatim>\<open>elkodon_pal/posix/src/windows/win32_handle_translator.rs\<close> and \<^verbatim>\<open>win32_udp_port_to_uds_name.rs\<close>: on Windows, file descriptors are
  indices of a table of handles whose free entries form a list, and the names of datagram sockets are kept in a table that is indexed by UDP ports and shared
  by all processes.

  The operations of the table run under a mutex, so that they are functions of the state. \<open>ht_locked\<close> is the mutex: an operation that finds it locked,
  by itself or by an operation that returned without unlocking it, never returns (\<open>Err NeverReturns\<close>).
\<close>

section \<open>Names of sockets by port\<close>

definition MAX_UDS_NAME_LEN :: usize where "MAX_UDS_NAME_LEN = 108"

definition number_of_uds_names :: usize where "number_of_uds_names = 65535"

record uds_name_entry =
  aba_counter :: u64
  ue_value :: "nat \<Rightarrow> u8 list"

type_synonym port_to_uds_name_map = "nat \<Rightarrow> uds_name_entry"

datatype blocked = NeverReturns

definition uds_entry_initialize :: uds_name_entry where
  "uds_entry_initialize = \<lparr>aba_counter = 1, ue_value = (\<lambda>_. replicate MAX_UDS_NAME_LEN 0)\<rparr>"

definition uds_entry_set :: "u8 list \<Rightarrow> uds_name_entry \<Rightarrow> (blocked, uds_name_entry) outcome" where
  "uds_entry_set value e = (let current = aba_counter e in
     if MAX_UDS_NAME_LEN < length value then Panic
     else Ok (e\<lparr>ue_value := (ue_value e)(unat current mod 2 := value @ replicate (MAX_UDS_NAME_LEN - length value) 0), aba_counter := current + 1\<rparr>))"

text \<open>The loop of \<^verbatim>\<open>get\<close>: each round is the entry when the value is copied and when the counter is read again.\<close>

fun uds_entry_get_loop :: "u64 \<Rightarrow> (uds_name_entry \<times> uds_name_entry) list \<Rightarrow> u8 list option" where
  "uds_entry_get_loop current [] = None"
| "uds_entry_get_loop current ((e, e') # rounds) =
     (if current = aba_counter e' then Some (ue_value e (unat (current - 1) mod 2)) else uds_entry_get_loop current rounds)"

text \<open>\<^verbatim>\<open>get\<close> while nobody sets the name.\<close>

definition uds_entry_get :: "uds_name_entry \<Rightarrow> u8 list" where
  "uds_entry_get e = ue_value e (unat (aba_counter e - 1) mod 2)"

definition uds_map_initialize :: port_to_uds_name_map where
  "uds_map_initialize = (\<lambda>_. uds_entry_initialize)"

definition uds_map_set :: "nat \<Rightarrow> u8 list \<Rightarrow> port_to_uds_name_map \<Rightarrow> (blocked, port_to_uds_name_map) outcome" where
  "uds_map_set port name m = (if port < number_of_uds_names then omap (\<lambda>e. m(port := e)) (uds_entry_set name (m port)) else Panic)"

text \<open>\<^verbatim>\<open>entry_name.iter().position(|c| *c == 0).unwrap_or(0)\<close>\<close>

definition name_end :: "u8 list \<Rightarrow> nat" where
  "name_end entry_name = (if 0 \<in> set entry_name then length (takeWhile (\<lambda>c. c \<noteq> 0) entry_name) else 0)"

text \<open>The loop of \<^verbatim>\<open>get_port\<close> over the \<open>n\<close> entries from \<open>i\<close>.\<close>

fun get_port_loop :: "port_to_uds_name_map \<Rightarrow> u8 list \<Rightarrow> nat \<Rightarrow> nat \<Rightarrow> nat" where
  "get_port_loop m name i 0 = 0"
| "get_port_loop m name i (Suc n) = (let entry_name = uds_entry_get (m i); pos = name_end entry_name in
     if pos = 0 \<or> length name < pos then get_port_loop m name (Suc i) n
     else if take pos entry_name = take pos name then i
     else get_port_loop m name (Suc i) n)"

definition get_port :: "port_to_uds_name_map \<Rightarrow> u8 list \<Rightarrow> nat" where
  "get_port m name = get_port_loop m name 0 number_of_uds_names"

text \<open>
  \<^verbatim>\<open>PortToUds::new\<close> on the segment that the system has under the name of the table, if any; \<open>refused\<close>: the system refuses one of the calls. Dropping it
  destroys the segment unless other processes have it open.
\<close>

definition port_to_uds_new :: "bool \<Rightarrow> port_to_uds_name_map option \<Rightarrow> port_to_uds_name_map option" where
  "port_to_uds_new refused segment = (if refused then None else Some (case segment of None \<Rightarrow> uds_map_initialize | Some m \<Rightarrow> m))"

definition port_to_uds_drop :: "bool \<Rightarrow> port_to_uds_name_map option \<Rightarrow> port_to_uds_name_map option" where
  "port_to_uds_drop others segment = (if others then segment else None)"

definition port_to_uds_reset :: "nat \<Rightarrow> port_to_uds_name_map \<Rightarrow> (blocked, port_to_uds_name_map) outcome" where
  "port_to_uds_reset port m = uds_map_set port (replicate MAX_UDS_NAME_LEN 0) m"

section \<open>The table of handles\<close>

definition MAX_SUPPORTED_FD_HANDLES :: usize where "MAX_SUPPORTED_FD_HANDLES = 1024"

record win32_handle =
  wh_handle :: int
  wh_state_handle :: int
  wh_lock_state :: int

text \<open>The address of a socket is its port; addresses are always local.\<close>

record uds_socket_handle =
  us_fd :: usize
  us_address :: "nat option"
  us_recv_timeout :: "nat option"

datatype fd_handle_entry =
  FdHandle win32_handle | FdDirectoryStream u64 | FdSocket usize | FdUdsDatagramSocket uds_socket_handle | NextFreeFd usize

fun fd_entry_eq :: "fd_handle_entry \<Rightarrow> fd_handle_entry \<Rightarrow> bool" where
  "fd_entry_eq (FdUdsDatagramSocket a) (FdUdsDatagramSocket b) \<longleftrightarrow> us_fd a = us_fd b"
| "fd_entry_eq a b \<longleftrightarrow> a = b"

record handle_translator =
  fd2handle :: "nat \<Rightarrow> fd_handle_entry"
  free_fd_list_start :: usize
  port_to_uds_translator :: bool
  uds_datagram_counter :: usize
  ht_locked :: bool
  ht_segment :: "port_to_uds_name_map option"

type_synonym 'a ht_result = "(blocked, 'a) outcome \<times> handle_translator"

text \<open>The state after the first call of \<^verbatim>\<open>get_instance\<close>.\<close>

definition ht_get_instance :: "port_to_uds_name_map option \<Rightarrow> handle_translator" where
  "ht_get_instance segment =
     \<lparr>fd2handle = (\<lambda>i. NextFreeFd (i + 1)), free_fd_list_start = 0, port_to_uds_translator = False, uds_datagram_counter = 0, ht_locked = False, ht_segment = segment\<rparr>"

definition ht_lock :: "handle_translator \<Rightarrow> (handle_translator \<Rightarrow> 'a ht_result) \<Rightarrow> 'a ht_result" where
  "ht_lock s f = (if ht_locked s then (Err NeverReturns, s) else f (s\<lparr>ht_locked := True\<rparr>))"

definition ht_unlock :: "'a \<Rightarrow> handle_translator \<Rightarrow> 'a ht_result" where
  "ht_unlock r s = (Ok r, s\<lparr>ht_locked := False\<rparr>)"

text \<open>\<^verbatim>\<open>fd as usize\<close>\<close>

definition fd_index :: "int \<Rightarrow> usize" where
  "fd_index fd = nat (fd mod 2 ^ 64)"

definition is_uds :: "fd_handle_entry \<Rightarrow> bool" where
  "is_uds e = (case e of FdUdsDatagramSocket _ \<Rightarrow> True | _ \<Rightarrow> False)"

definition is_free :: "fd_handle_entry \<Rightarrow> bool" where
  "is_free e = (case e of NextFreeFd _ \<Rightarrow> True | _ \<Rightarrow> False)"

definition ht_add :: "bool \<Rightarrow> fd_handle_entry \<Rightarrow> handle_translator \<Rightarrow> int ht_result" where
  "ht_add refused entry s = ht_lock s (\<lambda>s. let start = free_fd_list_start s in
     if MAX_SUPPORTED_FD_HANDLES \<le> start then ht_unlock (- 1) s
     else case fd2handle s start of
       NextFreeFd next_free_fd \<Rightarrow>
         (let s1 = s\<lparr>fd2handle := (fd2handle s)(start := entry), free_fd_list_start := next_free_fd\<rparr> in
          if \<not> is_uds entry then ht_unlock (int start) s1
          else let s2 = s1\<lparr>uds_datagram_counter := (uds_datagram_counter s + 1) mod 2 ^ 64\<rparr> in
            if uds_datagram_counter s \<noteq> 0 then ht_unlock (int start) s2
            else case port_to_uds_new refused (ht_segment s) of
              None \<Rightarrow> (Panic, s2)
            | Some m \<Rightarrow> ht_unlock (int start) (s2\<lparr>port_to_uds_translator := True, ht_segment := Some m\<rparr>))
     | _ \<Rightarrow> (Panic, s\<lparr>ht_locked := False\<rparr>))"

definition ht_get :: "int \<Rightarrow> handle_translator \<Rightarrow> fd_handle_entry option ht_result" where
  "ht_get fd s = ht_lock s (ht_unlock
     (if fd_index fd < MAX_SUPPORTED_FD_HANDLES \<and> \<not> is_free (fd2handle s (fd_index fd)) then Some (fd2handle s (fd_index fd)) else None))"

text \<open>The index that the loops of \<^verbatim>\<open>update\<close>, \<^verbatim>\<open>get_fd\<close> and \<^verbatim>\<open>remove_entry\<close> stop at.\<close>

definition ht_find :: "fd_handle_entry \<Rightarrow> handle_translator \<Rightarrow> nat option" where
  "ht_find entry s = List.find (\<lambda>i. fd_entry_eq (fd2handle s i) entry) [0..<MAX_SUPPORTED_FD_HANDLES]"

definition ht_update :: "fd_handle_entry \<Rightarrow> handle_translator \<Rightarrow> unit ht_result" where
  "ht_update entry s = ht_lock s (\<lambda>s. case ht_find entry s of
     None \<Rightarrow> ht_unlock () s | Some i \<Rightarrow> ht_unlock () (s\<lparr>fd2handle := (fd2handle s)(i := entry)\<rparr>))"

definition ht_get_fd :: "fd_handle_entry \<Rightarrow> handle_translator \<Rightarrow> int ht_result" where
  "ht_get_fd entry s = ht_lock s (ht_unlock (case ht_find entry s of None \<Rightarrow> - 1 | Some i \<Rightarrow> int i))"

text \<open>The reference that \<^verbatim>\<open>get_mut\<close> returns is the handle at that index.\<close>

definition ht_get_mut :: "int \<Rightarrow> handle_translator \<Rightarrow> win32_handle ht_result" where
  "ht_get_mut fd s = ht_lock s (\<lambda>s. if MAX_SUPPORTED_FD_HANDLES \<le> fd_index fd then (Panic, s)
     else case fd2handle s (fd_index fd) of FdHandle h \<Rightarrow> ht_unlock h s | _ \<Rightarrow> (Panic, s))"

text \<open>\<^verbatim>\<open>get_socket\<close> unlocks only when it finds a socket.\<close>

definition ht_get_socket :: "int \<Rightarrow> handle_translator \<Rightarrow> usize option ht_result" where
  "ht_get_socket fd s = ht_lock s (\<lambda>s. if MAX_SUPPORTED_FD_HANDLES \<le> fd_index fd then (Panic, s)
     else case fd2handle s (fd_index fd) of FdSocket h \<Rightarrow> ht_unlock (Some h) s | _ \<Rightarrow> (Ok None, s))"

definition ht_with_names :: "(port_to_uds_name_map \<Rightarrow> (blocked, 'a \<times> port_to_uds_name_map) outcome) \<Rightarrow> handle_translator \<Rightarrow> 'a ht_result" where
  "ht_with_names f s = (case ht_segment s of
     Some m \<Rightarrow> if port_to_uds_translator s then (case f m of Ok (r, m') \<Rightarrow> ht_unlock r (s\<lparr>ht_segment := Some m'\<rparr>) | Err e \<Rightarrow> (Err e, s) | Panic \<Rightarrow> (Panic, s) | UB \<Rightarrow> (UB, s))
       else (Panic, s)
   | None \<Rightarrow> (Panic, s))"

definition ht_set_uds_name :: "int \<Rightarrow> nat \<Rightarrow> u8 list \<Rightarrow> handle_translator \<Rightarrow> unit ht_result" where
  "ht_set_uds_name fd port name s = ht_lock s (\<lambda>s. if MAX_SUPPORTED_FD_HANDLES \<le> fd_index fd then (Panic, s)
     else let s1 = (case fd2handle s (fd_index fd) of
              FdUdsDatagramSocket u \<Rightarrow> s\<lparr>fd2handle := (fd2handle s)(fd_index fd := FdUdsDatagramSocket (u\<lparr>us_address := Some port\<rparr>))\<rparr> | _ \<Rightarrow> s)
       in ht_with_names (\<lambda>m. omap (Pair ()) (uds_map_set port name m)) s1)"

definition ht_get_uds_port :: "u8 list \<Rightarrow> handle_translator \<Rightarrow> nat ht_result" where
  "ht_get_uds_port name s = ht_lock s (ht_with_names (\<lambda>m. Ok (get_port m name, m)))"

definition ht_reset_uds_name :: "nat \<Rightarrow> handle_translator \<Rightarrow> unit ht_result" where
  "ht_reset_uds_name port s = ht_lock s (ht_with_names (\<lambda>m. omap (Pair ()) (port_to_uds_reset port m)))"

definition ht_free :: "nat \<Rightarrow> handle_translator \<Rightarrow> handle_translator" where
  "ht_free i s = s\<lparr>fd2handle := (fd2handle s)(i := NextFreeFd (free_fd_list_start s)), free_fd_list_start := i\<rparr>"

definition ht_remove_impl :: "bool \<Rightarrow> int \<Rightarrow> handle_translator \<Rightarrow> unit ht_result" where
  "ht_remove_impl others fd s = (if MAX_SUPPORTED_FD_HANDLES \<le> fd_index fd then (Panic, s)
     else case fd2handle s (fd_index fd) of
       FdUdsDatagramSocket u \<Rightarrow>
         (let s1 = s\<lparr>uds_datagram_counter := (uds_datagram_counter s + (2 ^ 64 - 1)) mod 2 ^ 64\<rparr> in
          if uds_datagram_counter s = 1
          then (Ok (), ht_free (fd_index fd) (s1\<lparr>port_to_uds_translator := False, ht_segment := port_to_uds_drop others (ht_segment s)\<rparr>))
          else case us_address u of
            None \<Rightarrow> (Panic, s1)
          | Some port \<Rightarrow> (case ht_reset_uds_name port s1 of (Ok _, s2) \<Rightarrow> (Ok (), ht_free (fd_index fd) s2) | (e, s2) \<Rightarrow> (e, s2)))
     | _ \<Rightarrow> (Ok (), ht_free (fd_index fd) s))"

definition ht_remove :: "bool \<Rightarrow> int \<Rightarrow> handle_translator \<Rightarrow> unit ht_result" where
  "ht_remove others fd s = ht_lock s (\<lambda>s. case ht_remove_impl others fd s of (Ok _, s') \<Rightarrow> ht_unlock () s' | r \<Rightarrow> r)"

definition ht_remove_entry :: "bool \<Rightarrow> fd_handle_entry \<Rightarrow> handle_translator \<Rightarrow> unit ht_result" where
  "ht_remove_entry others entry s = ht_lock s (\<lambda>s. case ht_find entry s of
     None \<Rightarrow> ht_unlock () s
   | Some i \<Rightarrow> (case ht_remove_impl others (int i) s of (Ok _, s') \<Rightarrow> ht_unlock () s' | r \<Rightarrow> r))"

section \<open>The table of descriptors\<close>

text \<open>What the clients see: the handle of each descriptor. The free entries form a list that starts at \<open>free_fd_list_start\<close>.\<close>

definition ht_abs :: "handle_translator \<Rightarrow> nat \<rightharpoonup> fd_handle_entry" where
  "ht_abs s i = (if i < MAX_SUPPORTED_FD_HANDLES \<and> \<not> is_free (fd2handle s i) then Some (fd2handle s i) else None)"

fun free_chain :: "(nat \<Rightarrow> fd_handle_entry) \<Rightarrow> nat \<Rightarrow> nat list \<Rightarrow> bool" where
  "free_chain f a [] \<longleftrightarrow> a = MAX_SUPPORTED_FD_HANDLES"
| "free_chain f a (x # xs) \<longleftrightarrow> x = a \<and> a < MAX_SUPPORTED_FD_HANDLES \<and> (case f a of NextFreeFd n \<Rightarrow> free_chain f n xs | _ \<Rightarrow> False)"

definition uds_indices :: "handle_translator \<Rightarrow> nat set" where
  "uds_indices s = {i. i < MAX_SUPPORTED_FD_HANDLES \<and> is_uds (fd2handle s i)}"

definition ht_invar :: "handle_translator \<Rightarrow> bool" where
  "ht_invar s \<longleftrightarrow> \<not> ht_locked s
     \<and> (\<exists>xs. free_chain (fd2handle s) (free_fd_list_start s) xs \<and> distinct xs \<and> set xs = {i. i < MAX_SUPPORTED_FD_HANDLES \<and> is_free (fd2handle s i)})
     \<and> uds_datagram_counter s = card (uds_indices s) \<and> (port_to_uds_translator s \<longleftrightarrow> uds_datagram_counter s \<noteq> 0)
     \<and> (port_to_uds_translator s \<longrightarrow> ht_segment s \<noteq> None)"

lemma free_chain_upd [simp]: "i \<notin> set xs \<Longrightarrow> free_chain (f(i := e)) a xs = free_chain f a xs"
  by (induction f a xs rule: free_chain.induct) (auto split: fd_handle_entry.splits)

lemma finite_uds_indices [simp]: "finite (uds_indices s)"
  by (simp add: uds_indices_def)

lemma card_uds_indices_le: "card (uds_indices s) \<le> MAX_SUPPORTED_FD_HANDLES"
proof -
  have "card (uds_indices s) \<le> card {..< MAX_SUPPORTED_FD_HANDLES}" by (intro card_mono) (auto simp: uds_indices_def)
  then show ?thesis by simp
qed

lemma uds_indices_upd:
  "i < MAX_SUPPORTED_FD_HANDLES \<Longrightarrow> uds_indices (s\<lparr>fd2handle := (fd2handle s)(i := e)\<rparr>) = (if is_uds e then insert i (uds_indices s) else uds_indices s - {i})"
  by (auto simp: uds_indices_def split: if_splits)

lemma free_not_uds: "is_free e \<Longrightarrow> \<not> is_uds e"
  by (cases e) (simp_all add: is_free_def is_uds_def)

lemma initial_chain: "n \<le> MAX_SUPPORTED_FD_HANDLES \<Longrightarrow> free_chain (\<lambda>i. NextFreeFd (i + 1)) n [n..<MAX_SUPPORTED_FD_HANDLES]"
proof (induction "MAX_SUPPORTED_FD_HANDLES - n" arbitrary: n)
  case (Suc k)
  then have "[n..<MAX_SUPPORTED_FD_HANDLES] = n # [Suc n..<MAX_SUPPORTED_FD_HANDLES]" by (simp add: upt_conv_Cons)
  then show ?case using Suc.hyps(1) [of "Suc n"] Suc.hyps(2) Suc.prems by simp
qed simp

theorem get_instance_invar:
  shows "ht_invar (ht_get_instance segment)" and "ht_abs (ht_get_instance segment) = Map.empty"
proof -
  show "ht_invar (ht_get_instance segment)"
    unfolding ht_invar_def
  proof (intro conjI exI)
    show "free_chain (fd2handle (ht_get_instance segment)) (free_fd_list_start (ht_get_instance segment)) [0..<MAX_SUPPORTED_FD_HANDLES]"
      using initial_chain [of 0] by (simp add: ht_get_instance_def del: upt.simps)
    show "set [0..<MAX_SUPPORTED_FD_HANDLES] = {i. i < MAX_SUPPORTED_FD_HANDLES \<and> is_free (fd2handle (ht_get_instance segment) i)}"
      by (auto simp: ht_get_instance_def is_free_def)
    show "uds_datagram_counter (ht_get_instance segment) = card (uds_indices (ht_get_instance segment))"
      by (simp add: ht_get_instance_def uds_indices_def is_uds_def)
  qed (simp_all add: ht_get_instance_def)
  show "ht_abs (ht_get_instance segment) = Map.empty" by (rule ext) (simp add: ht_abs_def ht_get_instance_def is_free_def)
qed

lemma invar_free_list:
  assumes "ht_invar s"
  obtains xs where "free_chain (fd2handle s) (free_fd_list_start s) xs" "distinct xs" "set xs = {i. i < MAX_SUPPORTED_FD_HANDLES \<and> is_free (fd2handle s i)}"
  using assms unfolding ht_invar_def by blast

lemma free_start:
  assumes "ht_invar s"
  shows "MAX_SUPPORTED_FD_HANDLES \<le> free_fd_list_start s \<longleftrightarrow> (\<forall>i < MAX_SUPPORTED_FD_HANDLES. ht_abs s i \<noteq> None)"
    and "free_fd_list_start s < MAX_SUPPORTED_FD_HANDLES \<Longrightarrow> \<exists>n. fd2handle s (free_fd_list_start s) = NextFreeFd n"
proof -
  from assms obtain xs where xs: "free_chain (fd2handle s) (free_fd_list_start s) xs" "set xs = {i. i < MAX_SUPPORTED_FD_HANDLES \<and> is_free (fd2handle s i)}"
    by (rule invar_free_list)
  have "set xs = {} \<longleftrightarrow> MAX_SUPPORTED_FD_HANDLES \<le> free_fd_list_start s" using xs(1) by (cases xs) auto
  moreover have "set xs = {} \<longleftrightarrow> (\<forall>i < MAX_SUPPORTED_FD_HANDLES. ht_abs s i \<noteq> None)" unfolding xs(2) ht_abs_def by auto
  ultimately show "MAX_SUPPORTED_FD_HANDLES \<le> free_fd_list_start s \<longleftrightarrow> (\<forall>i < MAX_SUPPORTED_FD_HANDLES. ht_abs s i \<noteq> None)" by blast
  show "free_fd_list_start s < MAX_SUPPORTED_FD_HANDLES \<Longrightarrow> \<exists>n. fd2handle s (free_fd_list_start s) = NextFreeFd n"
    using xs(1) by (cases xs) (auto split: fd_handle_entry.splits)
qed

text \<open>The first free index is taken out of the list, or put back to its front.\<close>

lemma take_free:
  assumes "ht_invar s" and "fd2handle s (free_fd_list_start s) = NextFreeFd n" and "free_fd_list_start s < MAX_SUPPORTED_FD_HANDLES" and "\<not> is_free entry"
  defines "f \<equiv> (fd2handle s)(free_fd_list_start s := entry)"
  shows "\<exists>xs. free_chain f n xs \<and> distinct xs \<and> set xs = {i. i < MAX_SUPPORTED_FD_HANDLES \<and> is_free (f i)}"
proof -
  from assms(1) obtain xs where xs: "free_chain (fd2handle s) (free_fd_list_start s) xs" "distinct xs" "set xs = {i. i < MAX_SUPPORTED_FD_HANDLES \<and> is_free (fd2handle s i)}"
    by (rule invar_free_list)
  with assms(3) obtain ys where ys: "xs = free_fd_list_start s # ys" by (cases xs) auto
  then have "free_chain f n ys" using xs(1,2) assms(2) by (simp add: f_def)
  moreover have "set ys = {i. i < MAX_SUPPORTED_FD_HANDLES \<and> is_free (f i)}"
  proof -
    have "set ys = set xs - {free_fd_list_start s}" using ys xs(2) by auto
    then show ?thesis using xs(3) assms(4) by (auto simp: f_def)
  qed
  ultimately show ?thesis using xs(2) ys by auto
qed

lemma put_free:
  assumes "ht_invar s" and "i < MAX_SUPPORTED_FD_HANDLES" and "\<not> is_free (fd2handle s i)"
  defines "f \<equiv> (fd2handle s)(i := NextFreeFd (free_fd_list_start s))"
  shows "\<exists>xs. free_chain f i xs \<and> distinct xs \<and> set xs = {i. i < MAX_SUPPORTED_FD_HANDLES \<and> is_free (f i)}"
proof -
  from assms(1) obtain xs where xs: "free_chain (fd2handle s) (free_fd_list_start s) xs" "distinct xs" "set xs = {i. i < MAX_SUPPORTED_FD_HANDLES \<and> is_free (fd2handle s i)}"
    by (rule invar_free_list)
  with assms(3) have "i \<notin> set xs" by simp
  then have "free_chain f i (i # xs)" "distinct (i # xs)" using xs(1,2) assms(2) by (simp_all add: f_def)
  moreover have "set (i # xs) = {i. i < MAX_SUPPORTED_FD_HANDLES \<and> is_free (f i)}" using xs(3) assms(2) by (auto simp: f_def is_free_def)
  ultimately show ?thesis by blast
qed

text \<open>A new entry gets a descriptor that was not in use, unless all are.\<close>

theorem table_add:
  assumes "ht_invar s" and "\<not> is_free entry"
  shows "\<forall>i < MAX_SUPPORTED_FD_HANDLES. ht_abs s i \<noteq> None \<Longrightarrow> ht_add refused entry s = (Ok (- 1), s)"
    and "\<exists>i < MAX_SUPPORTED_FD_HANDLES. ht_abs s i = None \<Longrightarrow> \<not> refused \<Longrightarrow>
      \<exists>fd s'. ht_add refused entry s = (Ok (int fd), s') \<and> fd < MAX_SUPPORTED_FD_HANDLES \<and> ht_abs s fd = None \<and> ht_abs s' = (ht_abs s)(fd \<mapsto> entry) \<and> ht_invar s'"
proof -
  have unlocked: "\<not> ht_locked s" using assms(1) by (simp add: ht_invar_def)
  show "ht_add refused entry s = (Ok (- 1), s)" if "\<forall>i < MAX_SUPPORTED_FD_HANDLES. ht_abs s i \<noteq> None"
    using that free_start(1) [OF assms(1)] unlocked by (simp add: ht_add_def ht_lock_def ht_unlock_def)
  assume "\<exists>i < MAX_SUPPORTED_FD_HANDLES. ht_abs s i = None" and r: "\<not> refused"
  with free_start(1) [OF assms(1)] have start: "free_fd_list_start s < MAX_SUPPORTED_FD_HANDLES" by (meson not_le)
  with free_start(2) [OF assms(1)] obtain n where n: "fd2handle s (free_fd_list_start s) = NextFreeFd n" by blast
  let ?fd = "free_fd_list_start s"
  let ?s = "s\<lparr>fd2handle := (fd2handle s)(?fd := entry)\<rparr>"
  have free: "ht_abs s ?fd = None" using n by (simp add: ht_abs_def is_free_def)
  have fresh: "?fd \<notin> uds_indices s" using n by (simp add: uds_indices_def is_uds_def)
  have card: "card (uds_indices ?s) = (if is_uds entry then Suc (card (uds_indices s)) else card (uds_indices s))"
    using fresh by (simp add: uds_indices_upd start)
  have small: "Suc (uds_datagram_counter s) mod 2 ^ 64 = Suc (uds_datagram_counter s)"
    using card_uds_indices_le [of s] assms(1) by (simp add: ht_invar_def MAX_SUPPORTED_FD_HANDLES_def)
  obtain s' where s': "ht_add refused entry s = (Ok (int ?fd), s')" "fd2handle s' = (fd2handle s)(?fd := entry)" "free_fd_list_start s' = n" "\<not> ht_locked s'"
    "uds_datagram_counter s' = (if is_uds entry then Suc (uds_datagram_counter s) else uds_datagram_counter s)"
    "port_to_uds_translator s' \<longleftrightarrow> port_to_uds_translator s \<or> is_uds entry \<and> uds_datagram_counter s = 0"
    "ht_segment s' \<noteq> None \<longleftrightarrow> ht_segment s \<noteq> None \<or> is_uds entry \<and> uds_datagram_counter s = 0"
  proof -
    assume that: "\<And>s'. ht_add refused entry s = (Ok (int ?fd), s') \<Longrightarrow> fd2handle s' = (fd2handle s)(?fd := entry) \<Longrightarrow> free_fd_list_start s' = n \<Longrightarrow> \<not> ht_locked s' \<Longrightarrow>
      uds_datagram_counter s' = (if is_uds entry then Suc (uds_datagram_counter s) else uds_datagram_counter s) \<Longrightarrow>
      (port_to_uds_translator s' \<longleftrightarrow> port_to_uds_translator s \<or> is_uds entry \<and> uds_datagram_counter s = 0) \<Longrightarrow>
      (ht_segment s' \<noteq> None \<longleftrightarrow> ht_segment s \<noteq> None \<or> is_uds entry \<and> uds_datagram_counter s = 0) \<Longrightarrow> thesis"
    show thesis
      by (rule that [of "snd (ht_add refused entry s)"])
        (use start n unlocked r small in \<open>simp_all add: ht_add_def ht_lock_def ht_unlock_def Let_def port_to_uds_new_def not_le\<close>)
  qed
  have "uds_indices s' = uds_indices ?s" using s'(2) by (simp add: uds_indices_def)
  then have "ht_invar s'"
    unfolding ht_invar_def using s' card assms(1) take_free [OF assms(1) n start assms(2)] by (auto simp: ht_invar_def)
  moreover have "ht_abs s' = (ht_abs s)(?fd \<mapsto> entry)" using s'(2) start assms(2) by (auto simp: ht_abs_def fun_eq_iff)
  ultimately show "\<exists>fd s'. ht_add refused entry s = (Ok (int fd), s') \<and> fd < MAX_SUPPORTED_FD_HANDLES \<and> ht_abs s fd = None \<and> ht_abs s' = (ht_abs s)(fd \<mapsto> entry) \<and> ht_invar s'"
    using s'(1) start free by blast
qed

theorem table_get: "ht_invar s \<Longrightarrow> i < 2 ^ 31 \<Longrightarrow> ht_get (int i) s = (Ok (ht_abs s i), s)"
  by (simp add: ht_get_def ht_lock_def ht_unlock_def ht_invar_def ht_abs_def fd_index_def)

lemma fd_index_int [simp]: "i < MAX_SUPPORTED_FD_HANDLES \<Longrightarrow> fd_index (int i) = i"
  by (simp add: fd_index_def MAX_SUPPORTED_FD_HANDLES_def)

lemma uds_counter:
  assumes "ht_invar s" and "ht_abs s i = Some e"
  shows "is_uds e \<Longrightarrow> 0 < uds_datagram_counter s" and "uds_datagram_counter s < 2 ^ 64" and "fd2handle s i = e" and "i < MAX_SUPPORTED_FD_HANDLES" and "\<not> is_free e"
proof -
  show "fd2handle s i = e" "i < MAX_SUPPORTED_FD_HANDLES" "\<not> is_free e" using assms(2) by (simp_all add: ht_abs_def split: if_splits)
  then have "is_uds e \<Longrightarrow> uds_indices s \<noteq> {}" by (auto simp: uds_indices_def)
  then show "is_uds e \<Longrightarrow> 0 < uds_datagram_counter s" using assms(1) by (simp add: ht_invar_def card_gt_0_iff)
  show "uds_datagram_counter s < 2 ^ 64" using card_uds_indices_le [of s] assms(1) by (simp add: ht_invar_def MAX_SUPPORTED_FD_HANDLES_def)
qed

text \<open>A descriptor that is removed can be given out again, and the others stay as they are. For sockets with names this holds of the last one only.\<close>

theorem table_remove:
  assumes "ht_invar s" and "ht_abs s i = Some e" and "is_uds e \<longrightarrow> uds_datagram_counter s = 1"
  shows "\<exists>s'. ht_remove others (int i) s = (Ok (), s') \<and> ht_abs s' = (ht_abs s)(i := None) \<and> ht_invar s'"
proof -
  note e = uds_counter [OF assms(1,2)]
  let ?f = "(fd2handle s)(i := NextFreeFd (free_fd_list_start s))"
  have nf: "\<not> is_free (fd2handle s i)" using e(3,5) by simp
  obtain s' where s': "ht_remove others (int i) s = (Ok (), s')" "fd2handle s' = ?f" "free_fd_list_start s' = i" "\<not> ht_locked s'"
    "uds_datagram_counter s' = (if is_uds e then 0 else uds_datagram_counter s)" "port_to_uds_translator s' \<longleftrightarrow> port_to_uds_translator s \<and> \<not> is_uds e"
    "\<not> is_uds e \<Longrightarrow> ht_segment s' = ht_segment s"
  proof -
    assume that: "\<And>s'. ht_remove others (int i) s = (Ok (), s') \<Longrightarrow> fd2handle s' = ?f \<Longrightarrow> free_fd_list_start s' = i \<Longrightarrow> \<not> ht_locked s' \<Longrightarrow>
      uds_datagram_counter s' = (if is_uds e then 0 else uds_datagram_counter s) \<Longrightarrow> (port_to_uds_translator s' \<longleftrightarrow> port_to_uds_translator s \<and> \<not> is_uds e) \<Longrightarrow>
      (\<not> is_uds e \<Longrightarrow> ht_segment s' = ht_segment s) \<Longrightarrow> thesis"
    have "\<not> ht_locked s" using assms(1) by (simp add: ht_invar_def)
    then show thesis
      by (intro that [of "snd (ht_remove others (int i) s)"])
        (use e assms(3) in \<open>cases e; simp add: ht_remove_def ht_lock_def ht_unlock_def ht_remove_impl_def ht_free_def is_uds_def is_free_def\<close>)+
  qed
  have card: "card (uds_indices s') = (if is_uds e then 0 else card (uds_indices s))"
  proof -
    have idx: "uds_indices s' = uds_indices s - {i}" using s'(2) e(4) by (auto simp: uds_indices_def is_uds_def split: if_splits)
    have "is_uds e \<longleftrightarrow> i \<in> uds_indices s" using e(3,4) by (simp add: uds_indices_def)
    then show ?thesis using idx assms(1,3) by (auto simp: ht_invar_def)
  qed
  have "ht_invar s'"
    unfolding ht_invar_def using s' card assms(1) put_free [OF assms(1) e(4) nf] by (auto simp: ht_invar_def)
  moreover have "ht_abs s' = (ht_abs s)(i := None)" using s'(2) by (auto simp: ht_abs_def fun_eq_iff is_free_def)
  ultimately show ?thesis using s'(1) by blast
qed

text \<open>The table is found locked by everybody.\<close>

definition ht_stuck :: "handle_translator \<Rightarrow> bool" where
  "ht_stuck s \<longleftrightarrow> (\<forall>refused others fd entry. ht_add refused entry s = (Err NeverReturns, s) \<and> ht_get fd s = (Err NeverReturns, s) \<and> ht_remove others fd s = (Err NeverReturns, s))"

lemma locked_stuck: "ht_locked s \<Longrightarrow> ht_stuck s"
  by (simp add: ht_stuck_def ht_add_def ht_get_def ht_remove_def ht_lock_def)

text \<open>
  Removing a named socket while there is another one calls \<^verbatim>\<open>reset_uds_name\<close> with the mutex locked, which locks it again: the call never returns. A socket
  without a name panics instead and leaves the mutex locked. Both block the whole table, and so does asking for the socket of a descriptor that is none.
\<close>

theorem table_gets_stuck:
  assumes "ht_invar s" and "ht_abs s i = Some e"
  shows "is_uds e \<Longrightarrow> 1 < uds_datagram_counter s \<Longrightarrow> fst (ht_remove others (int i) s) \<in> {Err NeverReturns, Panic} \<and> ht_stuck (snd (ht_remove others (int i) s))"
    and "\<forall>h. e \<noteq> FdSocket h \<Longrightarrow> fst (ht_get_socket (int i) s) = Ok None \<and> ht_stuck (snd (ht_get_socket (int i) s))"
proof -
  note e = uds_counter [OF assms(1,2)]
  have unlocked: "\<not> ht_locked s" using assms(1) by (simp add: ht_invar_def)
  show "is_uds e \<Longrightarrow> 1 < uds_datagram_counter s \<Longrightarrow> fst (ht_remove others (int i) s) \<in> {Err NeverReturns, Panic} \<and> ht_stuck (snd (ht_remove others (int i) s))"
    using e unlocked
    by (cases e) (auto simp: ht_remove_def ht_lock_def ht_remove_impl_def is_uds_def ht_reset_uds_name_def Let_def intro!: locked_stuck split: option.splits)
  show "\<forall>h. e \<noteq> FdSocket h \<Longrightarrow> fst (ht_get_socket (int i) s) = Ok None \<and> ht_stuck (snd (ht_get_socket (int i) s))"
    using e unlocked by (cases e) (auto simp: ht_get_socket_def ht_lock_def intro!: locked_stuck)
qed

text \<open>With two sockets in the table the hypotheses hold: the first one cannot be removed any more.\<close>

theorem second_socket_blocks_removal:
  "\<exists>s. ht_invar s \<and> (\<exists>i j u v. i \<noteq> j \<and> ht_abs s i = Some (FdUdsDatagramSocket u) \<and> ht_abs s j = Some (FdUdsDatagramSocket v)) \<and> 1 < uds_datagram_counter s"
proof -
  let ?u = "FdUdsDatagramSocket \<lparr>us_fd = 7, us_address = Some 5, us_recv_timeout = None\<rparr>"
  let ?v = "FdUdsDatagramSocket \<lparr>us_fd = 8, us_address = Some 6, us_recv_timeout = None\<rparr>"
  have nf: "\<not> is_free ?u" "\<not> is_free ?v" by (simp_all add: is_free_def)
  have "\<exists>i < MAX_SUPPORTED_FD_HANDLES. ht_abs (ht_get_instance None) i = None" by (intro exI [of _ 0]) (simp add: get_instance_invar(2) MAX_SUPPORTED_FD_HANDLES_def)
  with table_add(2) [OF get_instance_invar(1) nf(1), of None False]
  obtain i s where i: "i < MAX_SUPPORTED_FD_HANDLES" "ht_abs s = [i \<mapsto> ?u]" "ht_invar s" by (auto simp: get_instance_invar(2))
  have "\<exists>k < MAX_SUPPORTED_FD_HANDLES. ht_abs s k = None"
  proof -
    have "(if i = 0 then 1 else 0) < MAX_SUPPORTED_FD_HANDLES" "ht_abs s (if i = 0 then 1 else 0) = None" using i(2) by (simp_all add: MAX_SUPPORTED_FD_HANDLES_def)
    then show ?thesis by blast
  qed
  with table_add(2) [OF i(3) nf(2), of False]
  obtain j s' where j: "ht_abs s j = None" "ht_abs s' = (ht_abs s)(j \<mapsto> ?v)" "ht_invar s'" by auto
  then have ij: "i \<noteq> j" using i(2) by auto
  then have at: "ht_abs s' i = Some ?u" "ht_abs s' j = Some ?v" using i(2) j(2) by simp_all
  then have "{i, j} \<subseteq> uds_indices s'" by (auto simp: uds_indices_def ht_abs_def is_uds_def split: if_splits)
  then have "card {i, j} \<le> uds_datagram_counter s'" using j(3) by (simp add: ht_invar_def card_mono)
  then show ?thesis using at ij j(3) by (intro exI [of _ s']) auto
qed

section \<open>Sequences of calls\<close>

text \<open>A table and what its clients have added and not removed, over any sequence of calls that the system does not refuse. Clients remove what they have got, and a
  datagram socket only when it is the last one.\<close>

definition other_socket :: "(nat \<rightharpoonup> fd_handle_entry) \<Rightarrow> nat \<Rightarrow> bool" where
  "other_socket m i \<longleftrightarrow> (\<exists>j e. j \<noteq> i \<and> m j = Some e \<and> is_uds e)"

inductive fd_history :: "handle_translator \<Rightarrow> (nat \<rightharpoonup> fd_handle_entry) \<Rightarrow> bool" where
  start: "fd_history (ht_get_instance segment) Map.empty"
| add: "fd_history s m \<Longrightarrow> \<not> is_free e \<Longrightarrow> ht_add False e s = (Ok fd, s') \<Longrightarrow> fd_history s' (if fd = - 1 then m else m(nat fd \<mapsto> e))"
| remove: "fd_history s m \<Longrightarrow> m i = Some e \<Longrightarrow> \<not> (is_uds e \<and> other_socket m i) \<Longrightarrow> ht_remove others (int i) s = (r, s') \<Longrightarrow> fd_history s' (m(i := None))"

lemma counted_sockets:
  assumes "ht_invar s" and "ht_abs s i = Some e" and "is_uds e"
  shows "uds_datagram_counter s = 1 \<longleftrightarrow> \<not> other_socket (ht_abs s) i" and "other_socket (ht_abs s) i \<Longrightarrow> 1 < uds_datagram_counter s"
proof -
  have u: "j \<in> uds_indices s \<longleftrightarrow> (\<exists>e. ht_abs s j = Some e \<and> is_uds e)" for j using free_not_uds by (auto simp: uds_indices_def ht_abs_def)
  have c: "uds_datagram_counter s = card (uds_indices s)" using assms(1) by (simp add: ht_invar_def)
  have i: "i \<in> uds_indices s" using u assms(2,3) by blast
  have o: "other_socket (ht_abs s) i \<longleftrightarrow> uds_indices s \<noteq> {i}" using u i by (auto simp: other_socket_def)
  then show "uds_datagram_counter s = 1 \<longleftrightarrow> \<not> other_socket (ht_abs s) i" unfolding c using i by (auto simp: card_1_singleton_iff)
  moreover have "0 < card (uds_indices s)" using i by (auto simp: card_gt_0_iff)
  ultimately show "other_socket (ht_abs s) i \<Longrightarrow> 1 < uds_datagram_counter s" unfolding c by linarith
qed

lemma fd_history_table:
  assumes "fd_history s m"
  shows "ht_invar s \<and> ht_abs s = m"
  using assms
proof (induction rule: fd_history.induct)
  case (start segment)
  then show ?case using get_instance_invar [of segment] by simp
next
  case (add s m e fd s')
  show ?case
  proof (cases "\<forall>i < MAX_SUPPORTED_FD_HANDLES. ht_abs s i \<noteq> None")
    case True
    then show ?thesis using table_add(1) [of s e False] add by simp
  next
    case False
    then obtain i s1 where "ht_add False e s = (Ok (int i), s1)" "ht_abs s1 = (ht_abs s)(i \<mapsto> e)" "ht_invar s1" using table_add(2) [of s e False] add by auto
    then show ?thesis using add by simp
  qed
next
  case (remove s m i e others r s')
  then show ?case using table_remove [of s i e others] counted_sockets(1) [of s i e] by auto
qed

text \<open>C11: the table of handles is a map from descriptors to handles, over any sequence of calls. Looking up a descriptor, also a negative one, gives what was added under it
  and not removed since, or nothing. An addition fails with -1 exactly when all 1024 descriptors are in use, and otherwise returns one that is not in use.
  A removal of what is there succeeds, except for a datagram socket while there is another one: then the call panics or never returns, and no
  later call returns. The system does not refuse the segment of the names.\<close>

theorem handle_table_is_a_map:
  assumes "fd_history s m"
  shows "(\<forall>fd. - (2 ^ 31) \<le> fd \<and> fd < 2 ^ 31 \<longrightarrow> ht_get fd s = (Ok (if fd < 0 then None else m (nat fd)), s))
    \<and> (\<forall>e. \<not> is_free e \<longrightarrow> (if dom m = {..< MAX_SUPPORTED_FD_HANDLES} then ht_add False e s = (Ok (- 1), s)
         else \<exists>i s'. ht_add False e s = (Ok (int i), s') \<and> i < MAX_SUPPORTED_FD_HANDLES \<and> m i = None))
    \<and> (\<forall>i e. m i = Some e \<longrightarrow> (if is_uds e \<and> other_socket m i
         then fst (ht_remove others (int i) s) \<in> {Err NeverReturns, Panic} \<and> ht_stuck (snd (ht_remove others (int i) s))
         else fst (ht_remove others (int i) s) = Ok ()))"
proof (intro conjI allI impI)
  from fd_history_table [OF assms] have s: "ht_invar s" and m: "ht_abs s = m" by simp_all
  show "ht_get fd s = (Ok (if fd < 0 then None else m (nat fd)), s)" if fd: "- (2 ^ 31) \<le> fd \<and> fd < 2 ^ 31" for fd
  proof (cases "fd < 0")
    case True
    then have "fd mod 2 ^ 64 = fd + 2 ^ 64" using fd mod_pos_pos_trivial [of "fd + 2 ^ 64" "2 ^ 64"] by (simp add: mod_add_self2)
    then have "MAX_SUPPORTED_FD_HANDLES \<le> fd_index fd" using fd by (simp add: fd_index_def MAX_SUPPORTED_FD_HANDLES_def le_nat_iff)
    then show ?thesis using True s by (simp add: ht_get_def ht_lock_def ht_unlock_def ht_invar_def)
  next
    case False
    then have "nat fd < 2 ^ 31" using fd by simp
    from table_get [OF s this] show ?thesis using False m by simp
  qed
  have in_range: "i < MAX_SUPPORTED_FD_HANDLES" if "m i \<noteq> None" for i using that unfolding m [symmetric] by (auto simp: ht_abs_def split: if_splits)
  have d: "dom m = {..< MAX_SUPPORTED_FD_HANDLES} \<longleftrightarrow> (\<forall>i < MAX_SUPPORTED_FD_HANDLES. ht_abs s i \<noteq> None)" unfolding m using in_range by (auto simp: dom_def)
  show "if dom m = {..< MAX_SUPPORTED_FD_HANDLES} then ht_add False e s = (Ok (- 1), s)
      else \<exists>i s'. ht_add False e s = (Ok (int i), s') \<and> i < MAX_SUPPORTED_FD_HANDLES \<and> m i = None" if "\<not> is_free e" for e
    using table_add [OF s that, of False] unfolding d m by auto
  show "if is_uds e \<and> other_socket m i then fst (ht_remove others (int i) s) \<in> {Err NeverReturns, Panic} \<and> ht_stuck (snd (ht_remove others (int i) s))
      else fst (ht_remove others (int i) s) = Ok ()" if "m i = Some e" for i e
  proof (cases "is_uds e \<and> other_socket m i")
    case True
    then show ?thesis using table_gets_stuck(1) [OF s, of i e others] counted_sockets(2) [OF s, of i e] that m by simp
  next
    case False
    then show ?thesis using table_remove [OF s, of i e others] counted_sockets(1) [OF s, of i e] that m by auto
  qed
qed

theorem handle_table_is_a_map_witness:
  "\<exists>s. fd_history s [0 \<mapsto> FdSocket 3, 1 \<mapsto> FdDirectoryStream 9] \<and> ht_get 1 s = (Ok (Some (FdDirectoryStream 9)), s) \<and> fst (ht_remove False 0 s) = Ok ()
    \<and> fd_history (snd (ht_remove False 0 s)) [1 \<mapsto> FdDirectoryStream 9]"
proof -
  let ?s1 = "snd (ht_add False (FdSocket 3) (ht_get_instance None))" and ?m = "[0 \<mapsto> FdSocket 3, 1 \<mapsto> FdDirectoryStream 9] :: nat \<rightharpoonup> fd_handle_entry"
  let ?s = "snd (ht_add False (FdDirectoryStream 9) ?s1)"
  note ev = ht_add_def ht_lock_def ht_unlock_def ht_get_instance_def is_uds_def MAX_SUPPORTED_FD_HANDLES_def
  have free: "\<not> is_free (FdSocket 3)" "\<not> is_free (FdDirectoryStream 9)" by (simp_all add: is_free_def)
  have 1: "ht_add False (FdSocket 3) (ht_get_instance None) = (Ok 0, ?s1)" by (simp add: ev)
  have 2: "ht_add False (FdDirectoryStream 9) ?s1 = (Ok 1, ?s)" by (simp add: ev)
  have "fd_history ?s1 [0 \<mapsto> FdSocket 3]" using fd_history.add [OF fd_history.start free(1) 1] by simp
  from fd_history.add [OF this free(2) 2] have h: "fd_history ?s ?m" by simp
  note M = handle_table_is_a_map [OF h, of False]
  have "?m 0 = Some (FdSocket 3)" "\<not> is_uds (FdSocket 3)" by (simp_all add: is_uds_def)
  then have r: "fst (ht_remove False (int 0) ?s) = Ok ()" using conjunct2 [OF conjunct2 [OF M]] by meson
  have g: "ht_get 1 ?s = (Ok (Some (FdDirectoryStream 9)), ?s)" using spec [OF conjunct1 [OF M], of 1] by simp
  have "fd_history (snd (ht_remove False (int 0) ?s)) (?m(0 := None))"
    by (rule fd_history.remove [OF h, of 0 "FdSocket 3" False "fst (ht_remove False (int 0) ?s)"]) (simp_all add: is_uds_def)
  moreover have "?m(0 := None) = [1 \<mapsto> FdDirectoryStream 9]" by (simp add: fun_eq_iff)
  ultimately show ?thesis using h r g by (intro exI [of _ ?s]) simp
qed

section \<open>Looking up a port\<close>

definition uds_name :: "uds_name_entry \<Rightarrow> u8 list" where
  "uds_name e = take (name_end (uds_entry_get e)) (uds_entry_get e)"

lemma get_port_loop_eq:
  "get_port_loop m name i n = (case List.find (\<lambda>i. uds_name (m i) \<noteq> [] \<and> prefix (uds_name (m i)) name) [i..<i + n] of None \<Rightarrow> 0 | Some k \<Rightarrow> k)"
proof (induction n arbitrary: i)
  case (Suc n)
  let ?e = "uds_entry_get (m i)"
  have le: "name_end ?e \<le> length ?e" by (simp add: name_end_def length_takeWhile_le)
  have "(name_end ?e = 0 \<or> length name < name_end ?e \<or> take (name_end ?e) ?e \<noteq> take (name_end ?e) name) \<longleftrightarrow> \<not> (uds_name (m i) \<noteq> [] \<and> prefix (uds_name (m i)) name)"
  proof -
    have len: "length (uds_name (m i)) = name_end ?e" using le by (simp add: uds_name_def)
    then have "uds_name (m i) = [] \<longleftrightarrow> name_end ?e = 0" by (metis length_0_conv)
    moreover have "prefix (uds_name (m i)) name \<longleftrightarrow> name_end ?e \<le> length name \<and> take (name_end ?e) ?e = take (name_end ?e) name"
      using len by (metis uds_name_def append_eq_conv_conj prefix_def prefix_length_le)
    ultimately show ?thesis by auto
  qed
  then have "get_port_loop m name i (Suc n) = (if uds_name (m i) \<noteq> [] \<and> prefix (uds_name (m i)) name then i else get_port_loop m name (Suc i) n)"
    by (auto simp: Let_def)
  moreover have "[i..<i + Suc n] = i # [Suc i..<Suc i + n]" by (simp add: upt_conv_Cons)
  ultimately show ?case by (simp add: Suc.IH del: upt_Suc)
qed simp

text \<open>The name of an entry after it is set.\<close>

lemma uds_map_set_name:
  assumes "uds_map_set port name m = Ok m'" and "0 \<notin> set name" and "length name < MAX_UDS_NAME_LEN"
  shows "uds_name (m' port) = name" and "k \<noteq> port \<Longrightarrow> m' k = m k" and "port < number_of_uds_names"
proof -
  have m': "port < number_of_uds_names" "m' = m(port := (m port)\<lparr>ue_value := (ue_value (m port))(unat (aba_counter (m port)) mod 2
      := name @ replicate (MAX_UDS_NAME_LEN - length name) 0), aba_counter := aba_counter (m port) + 1\<rparr>)"
    using assms(1,3) by (auto simp: uds_map_set_def uds_entry_set_def Let_def split: if_splits)
  show "port < number_of_uds_names" "k \<noteq> port \<Longrightarrow> m' k = m k" using m' by simp_all
  have "uds_entry_get (m' port) = name @ replicate (MAX_UDS_NAME_LEN - length name) 0" using m'(2) by (simp add: uds_entry_get_def)
  moreover have "takeWhile (\<lambda>c. c \<noteq> 0) (name @ replicate (MAX_UDS_NAME_LEN - length name) 0) = name"
    using assms(2) by (subst takeWhile_append2) (auto simp: takeWhile_replicate)
  moreover have "(0 :: u8) \<in> set (name @ replicate (MAX_UDS_NAME_LEN - length name) 0)" using assms(3) by simp
  ultimately show "uds_name (m' port) = name" by (simp add: uds_name_def name_end_def)
qed

lemma find_first:
  assumes "x \<in> set xs" and "P x" and "\<And>y. y \<in> set xs \<Longrightarrow> P y \<Longrightarrow> y = x"
  shows "List.find P xs = Some x"
proof -
  from assms(1,2) have "List.find P xs \<noteq> None" by (auto simp: find_None_iff)
  then obtain y where y: "List.find P xs = Some y" by blast
  then have "y \<in> set xs" "P y" by (auto simp: find_Some_iff)
  with assms(3) y show ?thesis by simp
qed

text \<open>
  The port of a name is found as long as no other port has a name that is a prefix of it. Otherwise the lower port wins: a socket can get the port of
  another one.
\<close>

theorem port_lookup:
  assumes "uds_map_set port name m = Ok m'" and "0 \<notin> set name" and "name \<noteq> []" and "length name < MAX_UDS_NAME_LEN"
    and "\<And>k. k < number_of_uds_names \<Longrightarrow> k \<noteq> port \<Longrightarrow> uds_name (m k) \<noteq> [] \<Longrightarrow> \<not> prefix (uds_name (m k)) (name @ replicate (MAX_UDS_NAME_LEN - length name) 0)"
  shows "get_port m' (name @ replicate (MAX_UDS_NAME_LEN - length name) 0) = port"
proof -
  let ?name = "name @ replicate (MAX_UDS_NAME_LEN - length name) 0"
  note set = uds_map_set_name [OF assms(1,2,4)]
  have "List.find (\<lambda>i. uds_name (m' i) \<noteq> [] \<and> prefix (uds_name (m' i)) ?name) [0..<number_of_uds_names] = Some port"
  proof (rule find_first)
    show "port \<in> set [0..<number_of_uds_names]" using set(3) by simp
    show "uds_name (m' port) \<noteq> [] \<and> prefix (uds_name (m' port)) ?name" using set(1) assms(3) by simp
  next
    fix k assume k: "k \<in> set [0..<number_of_uds_names]" "uds_name (m' k) \<noteq> [] \<and> prefix (uds_name (m' k)) ?name"
    then show "k = port" using assms(5) [of k] set(2) [of k] by force
  qed
  then show ?thesis by (simp add: get_port_def get_port_loop_eq)
qed

theorem shorter_name_shadows:
  assumes "uds_map_set port name m = Ok m'" and "0 \<notin> set name" and "name \<noteq> []" and "length name < MAX_UDS_NAME_LEN"
    and "uds_map_set port' (name @ rest) m' = Ok m''" and "port < port'" and "\<And>k. k < port \<Longrightarrow> uds_name (m k) = []"
  shows "get_port m'' (name @ rest) = port"
proof -
  note set = uds_map_set_name [OF assms(1,2,4)]
  have other: "m'' k = m' k" if "k \<noteq> port'" for k using assms(5) that by (auto simp: uds_map_set_def uds_entry_set_def Let_def split: if_splits)
  have split: "[0..<number_of_uds_names] = [0..<port] @ port # [Suc port..<number_of_uds_names]"
  proof -
    have "[0..<number_of_uds_names] = [0..<port] @ [port..<number_of_uds_names]" using upt_add_eq_append [of 0 port "number_of_uds_names - port"] set(3) by simp
    then show ?thesis using set(3) by (simp add: upt_conv_Cons)
  qed
  have none: "List.find P [0..<port] = None" if "\<And>k. k < port \<Longrightarrow> \<not> P k" for P using that by (simp add: find_None_iff)
  have append: "List.find P (xs @ ys) = (case List.find P xs of None \<Rightarrow> List.find P ys | Some x \<Rightarrow> Some x)" for P and xs ys :: "nat list"
    by (induction xs) auto
  have "List.find (\<lambda>i. uds_name (m'' i) \<noteq> [] \<and> prefix (uds_name (m'' i)) (name @ rest)) [0..<number_of_uds_names] = Some port"
    unfolding split append using assms(3,6,7) set(1,2) other
    by (subst none) auto
  then show ?thesis by (simp add: get_port_def get_port_loop_eq)
qed

text \<open>\<^verbatim>\<open>get\<close> compares with the counter that it read at the start: after one change of the name it never returns, until the counter has wrapped around.\<close>

theorem changed_entry_is_never_read:
  assumes "\<forall>(e, e') \<in> set rounds. aba_counter e' \<noteq> current"
  shows "uds_entry_get_loop current rounds = None"
  using assms by (induction current rounds rule: uds_entry_get_loop.induct) auto

theorem reserved_port_panics: "uds_map_set 65535 name m = Panic"
  by (simp add: uds_map_set_def number_of_uds_names_def)

end
