(* ===== verification/Spec2Isabelle.thy ===== *)
theory Spec2Isabelle
  imports ByteString UniqueIndexSet_Conc IndexQueue_Conc OverflowQueue ContainerQueue ContainerVec LockFreeContainer UnrestrictedAtomic
    BumpAllocator OneChunkAllocator PoolAllocator ZeroCopyConnection PubSub WinPthread SemanticString NamedConcept ServiceFailures DirectoryReferences EventServices TriggerQueue FileStorage CommunicationChannel PosixLocks MessageQueueChannel HandleTranslator
begin

text \<open>
  A verification of elkodon, a zero-copy inter-process communication library in Rust. All paths below are under
  \<^verbatim>\<open>src/\<close>.

  \<^bold>\<open>The program.\<close> A service connects publishers with subscribers (or notifiers with listeners). A publisher owns a data segment in shared
  memory that a pool allocator divides into chunks; sending a sample writes the offset of its chunk into one lock-free queue per
  subscriber, and the subscriber returns the offset through a second queue. A reference counter per chunk says when it is free again. The ports
  of a service register in lock-free containers inside the dynamic configuration of the service, which all processes share, together with a
  reference counter of the users of the service; the last user removes the resources. Below are the building blocks: lock-free
  queues, index sets, allocators, fixed-size strings, names of files, and the concurrency primitives that replace the ones of POSIX on Windows.

  \<^bold>\<open>Shared theories.\<close>
  \<^item> \<open>Prelude\<close>: \<open>outcome\<close>, the ways a call ends (\<open>Ok\<close>, \<open>Err\<close>, \<open>Panic\<close>, and \<open>UB\<close> for undefined
    behaviour), its monad, the integer types of Rust as words, checked arithmetic (a debug build panics on overflow), list lemmas.
  \<^item> \<open>Interleaving\<close>: threads over a shared state, one access to shared memory per step (sequential consistency), the invariant rule, and the locale
    \<open>rw_exclusion\<close>, what a lock promises to any number of threads.
  \<^item> \<open>Queue_Contract\<close>: the locales \<open>bounded_queue\<close> and \<open>overflowing_queue\<close> over the list of stored values.
  \<^item> \<open>Allocator_Contract\<close>: the locale \<open>chunk_allocator\<close>: chunks are sized, aligned, in range, and disjoint from those in use.
  \<^item> \<open>SystemCalls\<close>: programs that call the operating system, interleaved at their calls with those of any number of other processes; a rely-guarantee
    judgement, and the locale \<open>rely_guarantee\<close>, what the programs of a component promise to each other.

  \<^bold>\<open>Building blocks\<close> (\<^verbatim>\<open>elkodon_bb\<close>).
  \<^item> \<open>Elementary\<close>: \<^verbatim>\<open>elementary/src/math.rs\<close>, \<^verbatim>\<open>relocatable_ptr.rs\<close>, \<^verbatim>\<open>allocator.rs\<close>.
  \<^item> \<open>ByteString\<close>, \<open>SemanticString\<close>, \<open>NamedConcept\<close>: \<^verbatim>\<open>container/src/byte_string.rs\<close>, \<^verbatim>\<open>semantic_string.rs\<close>, the
    names of \<^verbatim>\<open>system_types\<close>, and \<^verbatim>\<open>elkodon_cal/src/named_concept.rs\<close>. The locale \<open>semantic_type\<close> has the rules of a kind of name; it is
    interpreted for all six kinds. Every operation on a string that is not full keeps a name valid or is refused with the error that stands for it; a
    name is found again in its path when the directory ends with a separator.
  \<^item> \<open>UniqueIndexSet\<close>, \<open>UniqueIndexSet_Conc\<close>: \<^verbatim>\<open>lock_free/src/mpmc/unique_index_set.rs\<close>, sequentially (locale
    \<open>index_set\<close>) and with any number of threads: no index is handed out twice.
  \<^item> \<open>IndexQueue\<close>, \<open>IndexQueue_Conc\<close>, \<open>OverflowQueue\<close>: \<^verbatim>\<open>lock_free/src/spsc\<close>; with producer and consumer interleaved nothing
    is lost, duplicated or reordered.
  \<^item> \<open>ContainerQueue\<close>, \<open>ContainerVec\<close>, \<open>LockFreeContainer\<close>, \<open>UnrestrictedAtomic\<close>: \<^verbatim>\<open>container/src/queue.rs\<close>, \<^verbatim>\<open>vec.rs\<close>,
    \<^verbatim>\<open>lock_free/src/mpmc/container.rs\<close>, \<^verbatim>\<open>spmc/unrestricted_atomic.rs\<close>.
  \<^item> \<open>BumpAllocator\<close>, \<open>OneChunkAllocator\<close>, \<open>PoolAllocator\<close>: \<^verbatim>\<open>memory/src\<close>, each an interpretation of
    \<open>chunk_allocator\<close>.
  \<^item> \<open>UniqueSystemId\<close>: \<^verbatim>\<open>posix/src/unique_system_id.rs\<close>, the ids of ports.
  \<^item> \<open>PosixCondVar\<close>: \<^verbatim>\<open>posix/src/condition_variable.rs\<close>: a value behind a mutex with a predicate, and any number of threads that wait for it; an
    interpretation of \<open>rw_exclusion\<close>. The locale \<open>counted_user\<close> is what a user of it keeps. A history variable counts the waits with a time limit that were woken
    and gave up without looking at the value.
  \<^item> \<open>PosixObjects\<close>, \<open>PosixSharedMemory\<close>, \<open>PosixFile\<close>: \<^verbatim>\<open>posix/src/permission.rs\<close>, \<^verbatim>\<open>access_mode.rs\<close>, \<^verbatim>\<open>creation_mode.rs\<close>,
    \<^verbatim>\<open>file_type.rs\<close>, \<^verbatim>\<open>metadata.rs\<close>, \<^verbatim>\<open>file_descriptor.rs\<close>, \<^verbatim>\<open>shared_memory.rs\<close>, \<^verbatim>\<open>memory_lock.rs\<close>, \<^verbatim>\<open>file.rs\<close>, \<^verbatim>\<open>directory.rs\<close> as
    programs over system calls, and what POSIX documents of these calls (\<open>posix_sys\<close>). \<open>ObjectProtocol\<close>: rely and guarantee of processes that prepare an
    object under provisional permissions and publish it by setting the final ones.
  \<^item> \<open>IpcHandles\<close>, \<open>PosixTime\<close>, \<open>PosixLocks\<close>: \<^verbatim>\<open>posix/src/unmovable_ipc_handle.rs\<close>, \<^verbatim>\<open>mutex.rs\<close>, \<^verbatim>\<open>read_write_mutex.rs\<close>, \<^verbatim>\<open>semaphore.rs\<close>, \<^verbatim>\<open>barrier.rs\<close>,
    \<^verbatim>\<open>clock.rs\<close>, \<^verbatim>\<open>adaptive_wait.rs\<close>. The locale \<open>ipc_construct\<close> and its extensions are what the life cycle of an object in a shared handle relies on; they are interpreted
    for the four kinds of objects. The answers of the operating system to locks, clocks and sleeps are inputs; named semaphores come with the names and values that the
    system keeps.
  \<^item> \<open>MessageQueue\<close>: \<^verbatim>\<open>posix/src/message_queue.rs\<close> over the queues of the system: the messages are ordered by priority, and by age among equals.
  \<^item> \<open>TriggerQueue\<close>: \<^verbatim>\<open>threadsafe/src/trigger_queue.rs\<close>: any number of threads that push and pop, over a mutex and two semaphores.

  \<^bold>\<open>Platform\<close> (\<^verbatim>\<open>elkodon_pal\<close>).
  \<^item> \<open>Mutex\<close>, \<open>RwLock\<close>, \<open>Semaphore\<close>: \<^verbatim>\<open>concurrency_primitives/src\<close>: mutex, condition variable, both read-write locks,
    semaphore and barrier under every interleaving, as interpretations of \<open>rw_exclusion\<close> where they are locks. The wait and wake callbacks of the barrier are a futex:
    a thread sleeps until the wake callback is called, or returns from the wait without a reason.
  \<^item> \<open>WinPthread\<close>: the calls of \<^verbatim>\<open>posix/src/windows/pthread.rs\<close> and \<^verbatim>\<open>semaphore.rs\<close> that are built from them.
  \<^item> \<open>HandleTranslator\<close>: \<^verbatim>\<open>posix/src/windows/win32_handle_translator.rs\<close> and \<^verbatim>\<open>win32_udp_port_to_uds_name.rs\<close>: the table is a map from descriptors to handles over any
    sequence of calls, and the ports of names; which calls block the table for good.

  \<^bold>\<open>Abstraction layer\<close> (\<^verbatim>\<open>elkodon_cal\<close>).
  \<^item> \<open>ShmAllocator\<close>: \<^verbatim>\<open>shm_allocator\<close> and \<^verbatim>\<open>shared_memory/posix.rs\<close>: allocators that hand out offsets.
  \<^item> \<open>ZeroCopyConnection\<close>: \<^verbatim>\<open>zero_copy_connection\<close>: the two queues between a publisher and a subscriber, and who
    creates and removes them.
  \<^item> \<open>ServiceStorage\<close>: \<^verbatim>\<open>static_storage/process_local.rs\<close>, \<^verbatim>\<open>dynamic_storage/process_local.rs\<close>.
  \<^item> \<open>PosixStorage\<close>, \<open>FileStorage\<close>: \<^verbatim>\<open>dynamic_storage/posix_shared_memory.rs\<close> and \<^verbatim>\<open>static_storage/file.rs\<close>, two interpretations of
    \<open>rely_guarantee\<close>: whoever gets hold of a storage finds an initialized value in it, and whoever reads a file storage gets complete contents.
  \<^item> \<open>CommunicationChannel\<close>: \<^verbatim>\<open>communication_channel/posix_shared_memory.rs\<close> and \<^verbatim>\<open>process_local.rs\<close>;
    \<open>MessageQueueChannel\<close>: \<^verbatim>\<open>communication_channel/message_queue.rs\<close>. Three interpretations of the locale \<open>channel_provider\<close>: a channel with a
    name is a bounded queue.
  \<^item> \<open>ReferenceCounter\<close>, \<open>SharedMemoryDirectory\<close>, \<open>DirectoryReferences\<close>: \<^verbatim>\<open>shared_memory_directory\<close>.
  \<^item> \<open>EventConcept\<close>: \<^verbatim>\<open>event/process_local.rs\<close>, events over the condition variable of \<open>PosixCondVar\<close>: when a thread is left
    asleep, the event holds no more ids than timed waits have swallowed wake-ups and signals have panicked; none without time limits and panics.
  \<^bold>\<open>Services and ports\<close> (\<^verbatim>\<open>elkodon\<close>).
  \<^item> \<open>Publisher\<close>, \<open>Subscriber\<close>: \<^verbatim>\<open>port/publisher.rs\<close>, \<^verbatim>\<open>subscriber.rs\<close>, \<^verbatim>\<open>port/details\<close>, \<^verbatim>\<open>sample.rs\<close>,
    \<^verbatim>\<open>sample_mut.rs\<close>. \<open>SampleReferences\<close> and \<open>PubSub\<close>: a publisher with all of its subscribers; the reference counters count exactly the
    places that hold a sample, and a loan always finds a chunk.
  \<^item> \<open>DynamicConfig\<close>, \<open>ServiceConfig\<close>, \<open>PubSubBuilder\<close>, \<open>ServiceLifetime\<close>, \<open>ServiceFailures\<close>: \<^verbatim>\<open>service/\<close>: the
    configuration of a service, its reference counter under every interleaving, creating, opening, listing and dropping services.
  \<^item> \<open>PortNames\<close>, \<open>EventPorts\<close>: the names of connections and events, \<^verbatim>\<open>port/notifier.rs\<close> and \<^verbatim>\<open>listener.rs\<close>: a notification
    reaches every listener, a new one too, except those at whose index the notifier still has the connection of an earlier listener; these hear nothing of it.
  \<^item> \<open>EventBuilder\<close>, \<open>EventServices\<close>: \<^verbatim>\<open>service/builder/event.rs\<close> and the factories of \<^verbatim>\<open>service/port_factory\<close> for notifiers and listeners. The locale
    \<open>service_client\<close> of \<open>ServiceLifetime\<close> is what a call of a builder keeps; it is interpreted for both builders and for their mix.
  \<^bold>\<open>Fuel and bounds.\<close> Loops of lock-free operations that run alone have fuel that is shown to be enough: 4 steps for the index set, push and pop,
  6 and 4 for the overflowing queue, \<open>2 + 3 * capacity\<close> for a refresh of the container, one step per word and two for the unrestricted atomic,
  \<open>capacity + 1\<close> for retrieving returned samples, \<open>len + 1\<close> for clearing a queue. Their concurrent versions are step relations without fuel. Waiting
  for another process (\<^verbatim>\<open>open\<close> of a service or a connection) and polling (\<open>PosixTime\<close>, \<open>PosixLocks\<close>) take a list of what the process observes in each round.

  \<^bold>\<open>Assumptions.\<close> Memory is sequentially consistent; the orderings of atomics are not modelled. Calls of one publisher and of its subscribers do not
  overlap in \<open>PubSub\<close>, and the list of subscribers is fixed there. The registries of the process-local concepts are changed under
  their mutex, so a call on them is atomic. Loops that exchange one word (\<open>ReferenceCounter\<close>) are atomic by \<open>exchange_step_atomic\<close>.
  Hash, serializer, type sizes and addresses are parameters (\<open>svc_env\<close>).
  The operating system's condition variable releases at least one blocked thread per signal (\<open>posix_signal\<close>). Notifications and waits of the ports do not overlap in
  \<open>EventPorts\<close>; in \<open>EventConcept\<close> they do. A system call can fail at any time with any error number that fits the state (\<open>posix_sys\<close>); a descriptor is identified with the
  object it refers to; files are created under a creation mask for which a new file does not look finished (\<open>mask_ok\<close>).
  \<^bold>\<open>Not modelled.\<close> The other wrappers of operating system calls in \<^verbatim>\<open>elkodon_bb/posix\<close> (sockets, threads, signals, file locks, access
  control lists, processes, users and groups) and the bindings in \<^verbatim>\<open>elkodon_pal/posix\<close>: they pass arguments to the system and translate error numbers, and
  their state belongs to the system. Owner and group of files. Logging, test helpers, macros for enumerations, the heap allocator, examples and benchmarks. The
  communication channel over sockets, the reactor, events over sockets and the process-local shared memory. The reader of the configuration file, the hash and the
  serializers, which call third-party crates.
\<close>

end
